(* ===== verification/Prelude.thy ===== *)
theory Prelude
  imports Main "HOL-Library.Word" "HOL-Library.Monad_Syntax"
begin

text \<open>
  Shared vocabulary of the development: the machine integer types of the C code, little-endian
  byte strings (how an \<open>int\<close> or a pointer lies in memory when \<open>uthash\<close> hashes it), reads of
  zero-terminated C strings, and the lemma collections the component theories extend.
\<close>

unbundle bit_operations_syntax

type_synonym u8 = "8 word"
type_synonym u16 = "16 word"
type_synonym u32 = "32 word"
type_synonym u64 = "64 word"

text \<open>
  \<open>option\<close> is the result type of code that can run into undefined behaviour of C (a write
  outside a block, a release of a pointer that is not allocated, a relock of a held mutex):
  \<open>None\<close> is that event, and the rest of the program is then unconstrained.
\<close>

named_theorems run_simps \<open>unfolding equations of the stateful operations\<close>
named_theorems inv_intros \<open>introduction rules of the state invariants\<close>

subsection \<open>Little-endian byte strings\<close>

fun le_bytes :: "nat \<Rightarrow> nat \<Rightarrow> u8 list" where
  "le_bytes 0 x = []"
| "le_bytes (Suc n) x = of_nat x # le_bytes n (x div 256)"

fun le_val :: "u8 list \<Rightarrow> nat" where
  "le_val [] = 0"
| "le_val (b # bs) = unat b + 256 * le_val bs"

lemma length_le_bytes [simp]: "length (le_bytes n x) = n"
  by (induction n arbitrary: x) auto

lemma unat_of_nat_u8: "unat (of_nat x :: u8) = x mod 256"
  by (simp add: unat_of_nat)

lemma le_val_le_bytes: "le_val (le_bytes n x) = x mod 256 ^ n"
proof (induction n arbitrary: x)
  case 0
  then show ?case by simp
next
  case (Suc n)
  have "le_val (le_bytes (Suc n) x) = x mod 256 + 256 * (x div 256 mod 256 ^ n)"
    by (simp add: Suc unat_of_nat_u8)
  also have "\<dots> = x mod (256 * 256 ^ n)"
    by (simp add: mod_mult2_eq)
  finally show ?case by simp
qed

lemma le_val_bound: "le_val bs < 256 ^ length bs"
proof (induction bs)
  case (Cons b bs)
  have "unat b < 256" using unsigned_less [of b, where ?'a = nat] by simp
  with Cons show ?case by simp
qed simp

lemma le_bytes_le_val: "le_bytes (length bs) (le_val bs) = bs"
proof (induction bs)
  case (Cons b bs)
  have "unat b < 256" using unsigned_less [of b, where ?'a = nat] by simp
  then have "(unat b + 256 * le_val bs) div 256 = le_val bs" by simp
  moreover have "(of_nat (unat b + 256 * le_val bs) :: u8) = b"
  proof (rule word_unat_eq_iff [THEN iffD2])
    show "unat (of_nat (unat b + 256 * le_val bs) :: u8) = unat b"
      using \<open>unat b < 256\<close> by (simp add: unat_of_nat_u8 del: of_nat_add of_nat_mult)
  qed
  ultimately show ?case using Cons by (simp del: of_nat_add of_nat_mult)
qed simp

lemma le_bytes_inj: "x < 256 ^ n \<Longrightarrow> y < 256 ^ n \<Longrightarrow> le_bytes n x = le_bytes n y \<longleftrightarrow> x = y"
  by (metis le_val_le_bytes mod_less)

definition int_key :: "u32 \<Rightarrow> u8 list" where
  "int_key w = le_bytes 4 (unat w)"

definition ptr_key :: "u64 \<Rightarrow> u8 list" where
  "ptr_key w = le_bytes 8 (unat w)"

lemma int_key_inj [simp]: "int_key a = int_key b \<longleftrightarrow> a = b"
proof -
  have "unat a < 256 ^ 4" "unat b < 256 ^ 4"
    using unsigned_less [of a, where ?'a = nat] unsigned_less [of b, where ?'a = nat] by simp_all
  then show ?thesis by (simp add: int_key_def le_bytes_inj word_unat_eq_iff)
qed

lemma ptr_key_inj [simp]: "ptr_key a = ptr_key b \<longleftrightarrow> a = b"
proof -
  have "unat a < 256 ^ 8" "unat b < 256 ^ 8"
    using unsigned_less [of a, where ?'a = nat] unsigned_less [of b, where ?'a = nat] by simp_all
  then show ?thesis by (simp add: ptr_key_def le_bytes_inj word_unat_eq_iff)
qed

subsection \<open>Lists and options\<close>

lemma bind_SomeE:
  assumes "Option.bind x f = Some y"
  obtains z where "x = Some z" "f z = Some y"
  using assms by (cases x) auto

lemma filter_neq_last:
  "distinct (xs @ [x]) \<Longrightarrow> filter (\<lambda>y. y \<noteq> x) (xs @ [x]) = xs"
  by (auto simp: filter_id_conv)

lemma distinct_fst_unique:
  "distinct (map fst xs) \<Longrightarrow> (k, e) \<in> set xs \<Longrightarrow> (k, e') \<in> set xs \<Longrightarrow> e' = e"
  by (metis eq_key_imp_eq_value)

lemma distinct_snd_unique:
  "distinct (map snd xs) \<Longrightarrow> (k, e) \<in> set xs \<Longrightarrow> (k', e) \<in> set xs \<Longrightarrow> k' = k"
  by (induction xs) force+

lemma remove1_filter: "distinct xs \<Longrightarrow> remove1 x xs = filter (\<lambda>y. y \<noteq> x) xs"
  by (simp add: distinct_remove1_removeAll removeAll_filter_not_eq eq_commute)

lemma remove1_Nil_iff: "a \<in> set xs \<Longrightarrow> remove1 a xs = [] \<longleftrightarrow> xs = [a]"
  by (cases xs) auto

lemma map_of_subset:
  assumes "distinct (map fst xs)" "set ys \<subseteq> set xs" "\<And>v. (k, v) \<in> set xs \<Longrightarrow> (k, v) \<in> set ys"
  shows "map_of ys k = map_of xs k"
proof (cases "map_of ys k")
  case None
  then have "k \<notin> fst ` set xs"
    using assms(3) by (force simp: map_of_eq_None_iff)
  with None show ?thesis by (metis map_of_eq_None_iff)
next
  case (Some v)
  then have "(k, v) \<in> set xs"
    using assms(2) map_of_SomeD by fastforce
  with assms(1) Some show ?thesis by simp
qed

lemma length_filter_snd:
  "distinct (map snd xs) \<Longrightarrow> e \<in> snd ` set xs \<Longrightarrow>
     Suc (length (filter (\<lambda>x. snd x \<noteq> e) xs)) = length xs"
proof (induction xs)
  case (Cons x xs)
  show ?case
  proof (cases "snd x = e")
    case True
    with Cons.prems(1) have "e \<notin> snd ` set xs" by auto
    then have "\<forall>y \<in> set xs. snd y \<noteq> e" by (blast intro: imageI)
    with True show ?thesis by (simp add: filter_id_conv)
  qed (use Cons in auto)
qed simp

lemma nth_list_update_if:
  "i < length xs \<Longrightarrow> xs[i := x] ! j = (if j = i then x else xs ! j)"
  by (auto simp: nth_list_update)

lemma distinct_concat_indexed:
  assumes "\<And>i. i < n \<Longrightarrow> distinct (f i)" "\<And>i a. i < n \<Longrightarrow> a \<in> set (f i) \<Longrightarrow> g a = i"
  shows "distinct (concat (map f [0..<n]))"
  using assms
proof (induction n)
  case (Suc n)
  have "distinct (concat (map f [0..<n]))"
    by (rule Suc.IH) (use Suc.prems in simp_all)
  moreover have "set (concat (map f [0..<n])) \<inter> set (f n) = {}"
  proof (rule equals0I)
    fix a assume "a \<in> set (concat (map f [0..<n])) \<inter> set (f n)"
    then obtain i where "i < n" "a \<in> set (f i)" "a \<in> set (f n)" by auto
    with Suc.prems(2) [of i a] Suc.prems(2) [of n a] show False by simp
  qed
  ultimately show ?case using Suc.prems(1) [of n] by simp
qed simp

subsection \<open>Words\<close>

lemma unat_pow2: "k < 32 \<Longrightarrow> unat ((2 :: u32) ^ k) = 2 ^ k"
proof -
  assume "k < 32"
  then have "(2 :: nat) ^ k < 2 ^ 32" by (intro power_strict_increasing) simp_all
  then have "unat (of_nat (2 ^ k) :: u32) = 2 ^ k"
    by (simp add: unat_of_nat del: of_nat_power of_nat_numeral)
  then show ?thesis by simp
qed

lemma and_pow2_minus1:
  fixes w :: u32
  assumes "n = 2 ^ k"
  shows "unat (w AND (n - 1)) = unat w mod 2 ^ k"
proof -
  have "w AND (n - 1) = take_bit k w"
    by (simp add: assms mask_eq_exp_minus_1 [symmetric] take_bit_eq_mask)
  then have "unat (w AND (n - 1)) = take_bit k (unat w)"
    by (simp only: unsigned_take_bit_eq)
  then show ?thesis
    by (simp add: take_bit_eq_mod)
qed

subsection \<open>Bytes by their bits\<close>

lemma below_8: "n < 8 \<Longrightarrow> n = 7 \<or> n = 6 \<or> n = 5 \<or> n = 4 \<or> n = 3 \<or> n = 2 \<or> n = 1 \<or> n = (0 :: nat)"
  by linarith

lemma no_bit_u8: "8 \<le> n \<Longrightarrow> \<not> bit (b :: u8) n"
  using bit_imp_le_length [of b n] by auto

end
