(* ===== verification/Values.thy ===== *)
theory Values
  imports Prelude
begin

text \<open>
  The coding of JavaScript values in 64 bits (\<open>vm.h\<close>, \<open>vm.c\<close>, \<open>object.c\<close> of \<open>v7/v7.c\<close>): a value
  with sign and exponent all ones is tagged by the next four bits and has 48 bits of payload, any other
  value is a double. A double is its IEEE 754 bit pattern. A failed assertion has no result.
\<close>

type_synonym val_t = u64

definition MAKE_TAG :: "u64 \<Rightarrow> u64 \<Rightarrow> val_t" where
  "MAKE_TAG s t = push_bit 63 s OR push_bit 48 0x7ff0 OR push_bit 48 t"

definition V7_TAG_OBJECT :: val_t where "V7_TAG_OBJECT = MAKE_TAG 1 0xF"
definition V7_TAG_FOREIGN :: val_t where "V7_TAG_FOREIGN = MAKE_TAG 1 0xE"
definition V7_TAG_UNDEFINED :: val_t where "V7_TAG_UNDEFINED = MAKE_TAG 1 0xD"
definition V7_TAG_BOOLEAN :: val_t where "V7_TAG_BOOLEAN = MAKE_TAG 1 0xC"
definition V7_TAG_NAN :: val_t where "V7_TAG_NAN = MAKE_TAG 1 0xB"
definition V7_TAG_STRING_I :: val_t where "V7_TAG_STRING_I = MAKE_TAG 1 0xA"
definition V7_TAG_STRING_5 :: val_t where "V7_TAG_STRING_5 = MAKE_TAG 1 0x9"
definition V7_TAG_STRING_O :: val_t where "V7_TAG_STRING_O = MAKE_TAG 1 0x8"
definition V7_TAG_STRING_F :: val_t where "V7_TAG_STRING_F = MAKE_TAG 1 0x7"
definition V7_TAG_STRING_C :: val_t where "V7_TAG_STRING_C = MAKE_TAG 1 0x6"
definition V7_TAG_FUNCTION :: val_t where "V7_TAG_FUNCTION = MAKE_TAG 1 0x5"
definition V7_TAG_CFUNCTION :: val_t where "V7_TAG_CFUNCTION = MAKE_TAG 1 0x4"
definition V7_TAG_STRING_D :: val_t where "V7_TAG_STRING_D = MAKE_TAG 1 0x3"
definition V7_TAG_REGEXP :: val_t where "V7_TAG_REGEXP = MAKE_TAG 1 0x2"
definition V7_TAG_NOVALUE :: val_t where "V7_TAG_NOVALUE = MAKE_TAG 1 0x1"
definition V7_TAG_MASK :: val_t where "V7_TAG_MASK = MAKE_TAG 1 0xF"

definition V7_NULL :: val_t where "V7_NULL = V7_TAG_FOREIGN"
definition V7_UNDEFINED :: val_t where "V7_UNDEFINED = V7_TAG_UNDEFINED"

subsection \<open>Numbers\<close>

text \<open>\<open>isnan\<close> and \<open>isinf\<close> of the C library, on bit patterns.\<close>

definition isnan :: "u64 \<Rightarrow> bool" where
  "isnan d \<longleftrightarrow> d AND 0x7ff0000000000000 = 0x7ff0000000000000 \<and> d AND 0x000fffffffffffff \<noteq> 0"

definition isinf :: "u64 \<Rightarrow> bool" where
  "isinf d \<longleftrightarrow> d AND 0x7fffffffffffffff = 0x7ff0000000000000"

definition v7_mk_number :: "u64 \<Rightarrow> val_t" where
  "v7_mk_number v = (if isnan v then V7_TAG_NAN else v)"

definition v7_to_number :: "val_t \<Rightarrow> u64" where
  "v7_to_number v = v"

definition v7_is_number :: "val_t \<Rightarrow> bool" where
  "v7_is_number v \<longleftrightarrow> v = V7_TAG_NAN \<or> \<not> isnan (v7_to_number v)"

definition is_finite :: "val_t \<Rightarrow> bool" where
  "is_finite v \<longleftrightarrow> v7_is_number v \<and> v \<noteq> V7_TAG_NAN \<and> \<not> isinf (v7_to_number v)"

subsection \<open>Booleans, null, undefined\<close>

definition v7_mk_boolean :: "u32 \<Rightarrow> val_t" where
  "v7_mk_boolean v = (if v \<noteq> 0 then 1 else 0) OR V7_TAG_BOOLEAN"

definition v7_is_boolean :: "val_t \<Rightarrow> bool" where
  "v7_is_boolean v \<longleftrightarrow> v AND V7_TAG_MASK = V7_TAG_BOOLEAN"

definition v7_to_boolean :: "val_t \<Rightarrow> u32" where
  "v7_to_boolean v = (if v7_is_boolean v then ucast (v AND 1) else 0)"

definition v7_mk_null :: val_t where "v7_mk_null = V7_NULL"

definition v7_is_null :: "val_t \<Rightarrow> bool" where
  "v7_is_null v \<longleftrightarrow> v = V7_NULL"

definition v7_mk_undefined :: val_t where "v7_mk_undefined = V7_UNDEFINED"

definition v7_is_undefined :: "val_t \<Rightarrow> bool" where
  "v7_is_undefined v \<longleftrightarrow> v = V7_UNDEFINED"

subsection \<open>Pointers\<close>

definition pointer_to_value :: "u64 \<Rightarrow> val_t option" where
  "pointer_to_value n =
     (if n AND V7_TAG_MASK = 0 \<or> n AND V7_TAG_MASK = NOT 0 AND V7_TAG_MASK
      then Some (n AND NOT V7_TAG_MASK) else None)"

definition v7_to_pointer :: "val_t \<Rightarrow> u64" where
  "v7_to_pointer v = v AND 0xFFFFFFFFFFFF"

definition v7_is_foreign :: "val_t \<Rightarrow> bool" where
  "v7_is_foreign v \<longleftrightarrow> v AND V7_TAG_MASK = V7_TAG_FOREIGN"

definition v7_to_foreign :: "val_t \<Rightarrow> u64" where
  "v7_to_foreign v = (if \<not> v7_is_foreign v then 0 else v7_to_pointer v)"

definition v7_mk_foreign :: "u64 \<Rightarrow> val_t option" where
  "v7_mk_foreign p = map_option (\<lambda>x. x OR V7_TAG_FOREIGN) (pointer_to_value p)"

definition js_function_to_value :: "u64 \<Rightarrow> val_t option" where
  "js_function_to_value p = map_option (\<lambda>x. x OR V7_TAG_FUNCTION) (pointer_to_value p)"

definition is_js_function :: "val_t \<Rightarrow> bool" where
  "is_js_function v \<longleftrightarrow> v AND V7_TAG_MASK = V7_TAG_FUNCTION"

definition to_js_function :: "val_t \<Rightarrow> u64 option" where
  "to_js_function v = (if is_js_function v then Some (v7_to_pointer v) else None)"

definition mk_cfunction_lite :: "u64 \<Rightarrow> val_t option" where
  "mk_cfunction_lite f = map_option (\<lambda>x. x OR V7_TAG_CFUNCTION) (pointer_to_value f)"

definition is_cfunction_lite :: "val_t \<Rightarrow> bool" where
  "is_cfunction_lite v \<longleftrightarrow> v AND V7_TAG_MASK = V7_TAG_CFUNCTION"

definition v7_is_object :: "val_t \<Rightarrow> bool" where
  "v7_is_object v \<longleftrightarrow> v AND V7_TAG_MASK = V7_TAG_OBJECT \<or> v AND V7_TAG_MASK = V7_TAG_FUNCTION"

definition v7_is_generic_object :: "val_t \<Rightarrow> bool" where
  "v7_is_generic_object v \<longleftrightarrow> v AND V7_TAG_MASK = V7_TAG_OBJECT"

definition v7_to_object :: "val_t \<Rightarrow> u64 option" where
  "v7_to_object v =
     (if v7_is_null v then Some 0 else if v7_is_object v then Some (v7_to_pointer v) else None)"

definition v7_to_generic_object :: "val_t \<Rightarrow> u64 option" where
  "v7_to_generic_object v =
     (if v7_is_null v then Some 0 else if v7_is_generic_object v then Some (v7_to_pointer v) else None)"

definition v7_is_string :: "val_t \<Rightarrow> bool" where
  "v7_is_string v \<longleftrightarrow>
     (let t = v AND V7_TAG_MASK
      in t = V7_TAG_STRING_I \<or> t = V7_TAG_STRING_F \<or> t = V7_TAG_STRING_O \<or> t = V7_TAG_STRING_5
         \<or> t = V7_TAG_STRING_D)"

subsection \<open>Tags are disjoint\<close>

lemmas tag_defs = V7_TAG_OBJECT_def V7_TAG_FOREIGN_def V7_TAG_UNDEFINED_def V7_TAG_BOOLEAN_def
  V7_TAG_NAN_def V7_TAG_STRING_I_def V7_TAG_STRING_5_def V7_TAG_STRING_O_def V7_TAG_STRING_F_def
  V7_TAG_STRING_C_def V7_TAG_FUNCTION_def V7_TAG_CFUNCTION_def V7_TAG_STRING_D_def V7_TAG_REGEXP_def
  V7_TAG_NOVALUE_def V7_TAG_MASK_def

lemma tag_values:
  "V7_TAG_OBJECT = 0xFFFF000000000000" "V7_TAG_FOREIGN = 0xFFFE000000000000"
  "V7_TAG_UNDEFINED = 0xFFFD000000000000" "V7_TAG_BOOLEAN = 0xFFFC000000000000"
  "V7_TAG_NAN = 0xFFFB000000000000" "V7_TAG_STRING_I = 0xFFFA000000000000"
  "V7_TAG_STRING_5 = 0xFFF9000000000000" "V7_TAG_STRING_O = 0xFFF8000000000000"
  "V7_TAG_STRING_F = 0xFFF7000000000000" "V7_TAG_STRING_C = 0xFFF6000000000000"
  "V7_TAG_FUNCTION = 0xFFF5000000000000" "V7_TAG_CFUNCTION = 0xFFF4000000000000"
  "V7_TAG_STRING_D = 0xFFF3000000000000" "V7_TAG_REGEXP = 0xFFF2000000000000"
  "V7_TAG_NOVALUE = 0xFFF1000000000000" "V7_TAG_MASK = 0xFFFF000000000000"
  by (simp_all add: tag_defs MAKE_TAG_def push_bit_eq_mult)

text \<open>The tag field of a value is its top 16 bits, the payload the 48 others.\<close>

definition tag_of :: "val_t \<Rightarrow> u16" where
  "tag_of v = ucast (drop_bit 48 v)"

definition payload :: "val_t \<Rightarrow> u64" where
  "payload v = take_bit 48 v"

definition tagged :: "u16 \<Rightarrow> u64 \<Rightarrow> val_t" where
  "tagged t x = take_bit 48 x OR push_bit 48 (ucast t)"

lemma mask48: "(0xFFFFFFFFFFFF :: u64) = mask 48"
  by (simp add: mask_eq_exp_minus_1)

lemma tag_mask: "V7_TAG_MASK = NOT (mask 48)"
  by (simp add: tag_values mask_eq_exp_minus_1)

lemma bit_above: "bit (v :: u64) n \<Longrightarrow> n < 64"
  using bit_imp_le_length [of v n] by simp

lemma bit_split_48: "bit (v :: u64) n \<Longrightarrow> n < 48 \<or> (n < 64 \<and> 48 + (n - 48) = n)"
  using bit_above [of v n] by linarith

lemma v7_to_pointer_payload: "v7_to_pointer v = payload v"
  by (simp add: v7_to_pointer_def payload_def mask48 take_bit_eq_mask)

lemma and_not_tag_mask: "v AND NOT V7_TAG_MASK = payload v"
  by (simp add: tag_mask payload_def take_bit_eq_mask)

lemma tag_of_tagged [simp]: "tag_of (tagged t x) = t"
  unfolding tag_of_def tagged_def by (rule bit_word_eqI) (auto simp: bit_simps)

lemma payload_tagged [simp]: "payload (tagged t x) = payload x"
  unfolding payload_def tagged_def by (rule bit_word_eqI) (auto simp: bit_simps)

lemma tagged_ident: "tagged (tag_of v) v = v"
proof (rule bit_word_eqI)
  fix n assume "n < LENGTH(64)"
  then consider "n < 48" | m where "n = 48 + m" "m < 16"
    using le_Suc_ex [of 48 n] by fastforce
  then show "bit (tagged (tag_of v) v) n = bit v n"
    by cases (auto simp: tagged_def tag_of_def bit_simps)
qed

lemma tagged_payload [simp]: "tagged t (payload x) = tagged t x"
  by (simp add: tagged_def payload_def)

lemma tagged_eq_iff: "tagged t x = tagged t' x' \<longleftrightarrow> t = t' \<and> payload x = payload x'"
  by (metis payload_tagged tag_of_tagged tagged_payload)

lemma or_tag: "payload x OR push_bit 48 (ucast t) = tagged t x"
  by (simp add: payload_def tagged_def)

lemma and_tag_mask: "v AND V7_TAG_MASK = tagged (tag_of v) 0"
  unfolding tag_mask tagged_def tag_of_def by (rule bit_word_eqI) (auto simp: bit_simps dest: bit_split_48)

lemma tags:
  "V7_TAG_OBJECT = tagged 0xFFFF 0" "V7_TAG_FOREIGN = tagged 0xFFFE 0"
  "V7_TAG_UNDEFINED = tagged 0xFFFD 0" "V7_TAG_BOOLEAN = tagged 0xFFFC 0"
  "V7_TAG_NAN = tagged 0xFFFB 0" "V7_TAG_STRING_I = tagged 0xFFFA 0"
  "V7_TAG_STRING_5 = tagged 0xFFF9 0" "V7_TAG_STRING_O = tagged 0xFFF8 0"
  "V7_TAG_STRING_F = tagged 0xFFF7 0" "V7_TAG_STRING_C = tagged 0xFFF6 0"
  "V7_TAG_FUNCTION = tagged 0xFFF5 0" "V7_TAG_CFUNCTION = tagged 0xFFF4 0"
  "V7_TAG_STRING_D = tagged 0xFFF3 0" "V7_TAG_REGEXP = tagged 0xFFF2 0"
  "V7_TAG_NOVALUE = tagged 0xFFF1 0"
  by (simp_all add: tag_values tagged_def push_bit_eq_mult)

lemma has_tag: "v AND V7_TAG_MASK = tagged t 0 \<longleftrightarrow> tag_of v = t"
  by (simp add: and_tag_mask tagged_eq_iff)

lemma set_tag: "payload x OR tagged t 0 = tagged t x"
  by (simp add: payload_def tagged_def)

lemma tagged_or: "tagged t x OR payload y = tagged t (x OR y)"
  unfolding payload_def tagged_def by (rule bit_word_eqI) (auto simp: bit_simps)

lemma tagged_and: "tagged t x AND tagged t' x' = tagged (t AND t') (x AND x')"
  unfolding tagged_def by (rule bit_word_eqI) (auto simp: bit_simps)

lemma tagged_0_iff: "tagged t x = 0 \<longleftrightarrow> t = 0 \<and> payload x = 0"
proof -
  have "0 = tagged 0 0" by (simp add: tagged_def)
  then show ?thesis by (metis tagged_eq_iff payload_tagged tagged_payload payload_def take_bit_of_0)
qed

lemma isnan_iff: "isnan v \<longleftrightarrow> tag_of v AND 0x7ff0 = 0x7ff0 \<and> (tag_of v AND 0xF \<noteq> 0 \<or> payload v \<noteq> 0)"
proof -
  have c: "0x7ff0000000000000 = tagged 0x7ff0 0" "0x000fffffffffffff = tagged 0xF (mask 48)"
    by (simp_all add: tagged_def push_bit_eq_mult mask_eq_exp_minus_1 take_bit_eq_mask)
  have p: "payload (v AND mask 48) = payload v" "payload 0 = 0"
    unfolding payload_def by (simp_all add: take_bit_eq_mask and.assoc)
  have a: "v AND tagged t x = tagged (tag_of v AND t) (v AND x)" for t x
    by (metis tagged_and tagged_ident)
  then show ?thesis
    unfolding isnan_def by (simp add: a c tagged_eq_iff tagged_0_iff p)
qed

text \<open>The tags of values that are no numbers.\<close>

lemma tag_no_number:
  assumes "tag_of v \<in> {0xFFF1, 0xFFF2, 0xFFF3, 0xFFF4, 0xFFF5, 0xFFF6, 0xFFF7, 0xFFF8, 0xFFF9, 0xFFFA,
     0xFFFC, 0xFFFD, 0xFFFE, 0xFFFF}"
  shows "\<not> v7_is_number v"
proof -
  have "isnan v" using assms by (auto simp: isnan_iff)
  moreover have "v \<noteq> V7_TAG_NAN" using assms by (auto simp: tags)
  ultimately show ?thesis by (simp add: v7_is_number_def v7_to_number_def)
qed

text \<open>Each test of a type is a test of the tag.\<close>

lemma kinds:
  "v7_is_boolean v \<longleftrightarrow> tag_of v = 0xFFFC"
  "v7_is_foreign v \<longleftrightarrow> tag_of v = 0xFFFE"
  "v7_is_generic_object v \<longleftrightarrow> tag_of v = 0xFFFF"
  "v7_is_object v \<longleftrightarrow> tag_of v = 0xFFFF \<or> tag_of v = 0xFFF5"
  "is_js_function v \<longleftrightarrow> tag_of v = 0xFFF5"
  "is_cfunction_lite v \<longleftrightarrow> tag_of v = 0xFFF4"
  "v7_is_string v \<longleftrightarrow> tag_of v \<in> {0xFFFA, 0xFFF7, 0xFFF8, 0xFFF9, 0xFFF3}"
  by (simp_all only: v7_is_boolean_def v7_is_foreign_def v7_is_generic_object_def v7_is_object_def
      is_js_function_def is_cfunction_lite_def v7_is_string_def tags has_tag Let_def insert_iff empty_iff HOL.simp_thms)

lemma null_foreign: "v7_is_null v \<longleftrightarrow> v7_is_foreign v \<and> payload v = 0"
  by (metis kinds(2) v7_is_null_def V7_NULL_def tags(2) tag_of_tagged payload_tagged tagged_ident
      tagged_payload payload_def take_bit_of_0)

lemma undefined_tag: "v7_is_undefined v \<Longrightarrow> tag_of v = 0xFFFD"
  by (simp add: v7_is_undefined_def V7_UNDEFINED_def tags)

text \<open>Eight tests that no two of which hold of one value; the test for any object holds of generic objects and
  functions, the one for null of one foreign pointer.\<close>

definition kind_tests :: "(val_t \<Rightarrow> bool) list" where
  "kind_tests = [v7_is_number, v7_is_boolean, v7_is_undefined, v7_is_foreign, v7_is_generic_object,
     is_js_function, is_cfunction_lite, v7_is_string]"

lemma kinds_exclusive: "length (filter (\<lambda>k. k v) kind_tests) \<le> 1"
proof (cases "tag_of v \<in> {0xFFF1, 0xFFF2, 0xFFF3, 0xFFF4, 0xFFF5, 0xFFF6, 0xFFF7, 0xFFF8, 0xFFF9, 0xFFFA,
     0xFFFC, 0xFFFD, 0xFFFE, 0xFFFF}")
  case True
  then show ?thesis
    using tag_no_number [OF True] undefined_tag [of v] by (auto simp: kind_tests_def kinds)
next
  case False
  then show ?thesis using undefined_tag [of v] by (auto simp: kind_tests_def kinds)
qed

lemma objects_and_null:
  "v7_is_object v \<longleftrightarrow> v7_is_generic_object v \<or> is_js_function v" "v7_is_null v \<longleftrightarrow> v7_is_foreign v \<and> v7_to_foreign v = 0"
  by (auto simp: kinds null_foreign v7_to_foreign_def v7_to_pointer_payload)

subsection \<open>What was packed is unpacked\<close>

lemma mk_number_is_number: "v7_is_number (v7_mk_number d)"
  by (simp add: v7_is_number_def v7_mk_number_def v7_to_number_def)

lemma mk_number_round:
  "isnan (v7_to_number (v7_mk_number d)) = isnan d"
  "\<not> isnan d \<Longrightarrow> v7_to_number (v7_mk_number d) = d"
proof -
  have "isnan V7_TAG_NAN" by (simp add: isnan_iff tags)
  then show "isnan (v7_to_number (v7_mk_number d)) = isnan d"
    by (simp add: v7_mk_number_def v7_to_number_def)
qed (simp add: v7_mk_number_def v7_to_number_def)

lemma pointer_to_value_user: "pointer_to_value p = Some (payload p) \<longleftrightarrow> tag_of p = 0 \<or> tag_of p = 0xFFFF"
proof -
  have "p AND V7_TAG_MASK = 0 \<longleftrightarrow> tag_of p = 0" by (simp add: and_tag_mask tagged_0_iff payload_def)
  moreover have "p AND V7_TAG_MASK = NOT 0 AND V7_TAG_MASK \<longleftrightarrow> tag_of p = 0xFFFF"
    by (simp add: and_tag_mask tagged_eq_iff) (simp add: tag_values tag_of_def drop_bit_eq_div tagged_def)
  ultimately show ?thesis by (auto simp: pointer_to_value_def and_not_tag_mask)
qed

lemma pointer_to_value_None: "pointer_to_value p = None \<longleftrightarrow> tag_of p \<noteq> 0 \<and> tag_of p \<noteq> 0xFFFF"
  using pointer_to_value_user [of p] by (auto simp: pointer_to_value_def and_not_tag_mask split: if_splits)

lemma payload_small: "payload p = p \<longleftrightarrow> tag_of p = 0"
proof -
  have "p = tagged (tag_of p) p" by (rule tagged_ident [symmetric])
  moreover have "payload p = tagged 0 p" by (simp add: payload_def tagged_def)
  ultimately show ?thesis by (metis tag_of_tagged)
qed

text \<open>A boxed pointer is tagged; it comes back exactly when its top 16 bits are clear.\<close>

lemma boxed_pointer:
  "v7_mk_foreign p = Some v \<Longrightarrow> v = tagged 0xFFFE p"
  "js_function_to_value p = Some v \<Longrightarrow> v = tagged 0xFFF5 p"
  "mk_cfunction_lite p = Some v \<Longrightarrow> v = tagged 0xFFF4 p"
  by (auto simp: v7_mk_foreign_def js_function_to_value_def mk_cfunction_lite_def pointer_to_value_def
      and_not_tag_mask tags set_tag split: if_splits)

lemma foreign_round: "v7_mk_foreign p = Some v \<Longrightarrow> v7_to_foreign v = p \<longleftrightarrow> tag_of p = 0"
  using boxed_pointer(1) [of p v] by (simp add: v7_to_foreign_def kinds v7_to_pointer_payload payload_small)

lemma boolean_round: "v7_is_boolean (v7_mk_boolean b)" "v7_to_boolean (v7_mk_boolean b) = (if b \<noteq> 0 then 1 else 0)"
proof -
  have v: "v7_mk_boolean b = tagged 0xFFFC (if b \<noteq> 0 then 1 else 0)"
    by (simp add: v7_mk_boolean_def tags tagged_def)
  show "v7_is_boolean (v7_mk_boolean b)" by (simp add: v kinds)
  have "tagged 0xFFFC x AND 1 = x AND 1" for x
  proof -
    have one: "(1 :: u64) = tagged 0 1" by (simp add: tagged_def)
    have "tagged 0xFFFC x AND 1 = tagged 0 (x AND 1)" by (subst one, subst tagged_and) simp
    also have "\<dots> = x AND 1"
      unfolding tagged_def by (rule bit_word_eqI) (auto simp: bit_simps bit_1_iff)
    finally show ?thesis .
  qed
  then show "v7_to_boolean (v7_mk_boolean b) = (if b \<noteq> 0 then 1 else 0)"
    by (simp add: v v7_to_boolean_def kinds)
qed

end
