(* ===== verification/Dictionary.thy ===== *)
theory Dictionary
  imports Prelude "HOL-Library.List_Lexorder"
begin

text \<open>
  The dictionary of \<open>string.c\<close> (\<open>v7/v7.c\<close>): frequent strings longer than five bytes are coded by
  their index in a sorted table, found by binary search. \<open>memcmp\<close> answers a negative, zero or
  positive number; the model answers -1, 0 or 1. The difference of two lengths is cut to an \<open>int\<close>.
\<close>

definition bytes_of :: "string \<Rightarrow> u8 list" where
  "bytes_of s = map of_char s"

definition v_dictionary_strings :: "u8 list list" where
  "v_dictionary_strings = map bytes_of [
    '' is not a function'', ''Boolean'', ''CLOSED'', ''Clubby'', ''Crypto'', ''EvalError'',
    ''Function'', ''Infinity'', ''InternalError'', ''LOG10E'', ''MAX_VALUE'', ''MIN_VALUE'',
    ''NEGATIVE_INFINITY'', ''Number'', ''Object'', ''POSITIVE_INFINITY'', ''RangeError'',
    ''ReferenceError'', ''RegExp'', ''SQRT1_2'', ''Socket'', ''String'', ''SyntaxError'',
    ''TypeError'', ''UBJSON'', ''WebSocket'', ''_modcache'', ''accept'', ''arguments'',
    ''base64_decode'', ''base64_encode'', ''boolean'', ''changed'', ''charAt'', ''charCodeAt'',
    ''concat'', ''configurable'', ''connect'', ''constructor'', ''create'', ''createServer'',
    ''defineProperties'', ''defineProperty'', ''disconnect'', ''every'', ''exists'', ''exports'',
    ''filter'', ''forEach'', ''fromCharCode'', ''function'', ''getDate'', ''getDay'', ''getFullYear'',
    ''getHours'', ''getMilliseconds'', ''getMinutes'', ''getMonth'', ''getOwnPropertyDescriptor'',
    ''getOwnPropertyNames'', ''getPrototypeOf'', ''getSeconds'', ''getTime'', ''getTimezoneOffset'',
    ''getUTCDate'', ''getUTCDay'', ''getUTCFullYear'', ''getUTCHours'', ''getUTCMilliseconds'',
    ''getUTCMinutes'', ''getUTCMonth'', ''getUTCSeconds'', ''global'', ''hasOwnProperty'',
    ''ignoreCase'', ''indexOf'', ''isArray'', ''isExtensible'', ''isFinite'', ''isPrototypeOf'',
    ''lastIndex'', ''lastIndexOf'', ''length'', ''listen'', ''loadJSON'', ''localeCompare'',
    ''md5_hex'', ''module'', ''multiline'', ''number'', ''onclose'', ''onopen'', ''parseFloat'',
    ''parseInt'', ''preventExtensions'', ''propertyIsEnumerable'', ''prototype'', ''random'',
    ''readAll'', ''readByte'', ''readString'', ''readVoltage'', ''readyState'', ''reboot'',
    ''recvAll'', ''reduce'', ''remove'', ''rename'', ''render'', ''replace'', ''request'', ''require'',
    ''reverse'', ''sayHello'', ''search'', ''sendAck'', ''setDate'', ''setFullYear'', ''setHours'',
    ''setLogLevel'', ''setMilliseconds'', ''setMinutes'', ''setMonth'', ''setSeconds'', ''setTime'',
    ''setTimeout'', ''setUTCDate'', ''setUTCFullYear'', ''setUTCHours'', ''setUTCMilliseconds'',
    ''setUTCMinutes'', ''setUTCMonth'', ''setUTCSeconds'', ''setisr'', ''setmode'', ''sha1_hex'',
    ''source'', ''splice'', ''status'', ''string'', ''stringify'', ''substr'', ''substring'',
    ''toDateString'', ''toExponential'', ''toFixed'', ''toISOString'', ''toJSON'',
    ''toLocaleDateString'', ''toLocaleLowerCase'', ''toLocaleString'', ''toLocaleTimeString'',
    ''toLocaleUpperCase'', ''toLowerCase'', ''toPrecision'', ''toString'', ''toTimeString'',
    ''toUTCString'', ''toUpperCase'', ''usleep'', ''valueOf'', ''wdtFeed'', ''writable'', ''writeHead'']"

fun memcmp :: "u8 list \<Rightarrow> u8 list \<Rightarrow> int" where
  "memcmp (x # xs) (y # ys) = (if x = y then memcmp xs ys else if x < y then - 1 else 1)"
| "memcmp _ _ = 0"

text \<open>One comparison of the search: the text against an entry.\<close>

definition dict_compare :: "u8 list \<Rightarrow> u8 list \<Rightarrow> int" where
  "dict_compare s v =
     (let min_len = (if length s < length v then length s else length v);
          comparison_result = memcmp (take min_len s) (take min_len v)
      in if comparison_result = 0
         then sint (ucast (of_nat (length s) - of_nat (length v) :: u64) :: u32)
         else comparison_result)"

function dict_search :: "u8 list \<Rightarrow> nat \<Rightarrow> nat \<Rightarrow> nat option" where
  "dict_search s start stop =
     (if start < stop
      then
        let mid = start + (stop - start) div 2;
            comparison_result = dict_compare s (v_dictionary_strings ! mid)
        in if comparison_result < 0 then dict_search s start mid
           else if comparison_result > 0 then dict_search s (mid + 1) stop
           else Some mid
      else None)"
  by pat_completeness auto
termination by (relation "measure (\<lambda>(s, start, stop). stop - start)") auto

declare dict_search.simps [simp del]

definition v_find_string_in_dictionary :: "u8 list option \<Rightarrow> nat option" where
  "v_find_string_in_dictionary s =
     (case s of None \<Rightarrow> None | Some s \<Rightarrow> dict_search s 0 (length v_dictionary_strings))"

subsection \<open>The search finds exactly the entries\<close>

lemma memcmp_take: "memcmp (take (min (length xs) (length ys)) xs) (take (min (length xs) (length ys)) ys) = memcmp xs ys"
  by (induction xs ys rule: memcmp.induct) auto

lemma memcmp_self [simp]: "memcmp xs xs = 0"
  by (induction xs) auto

lemma memcmp_lex:
  "memcmp xs ys < 0 \<or> (memcmp xs ys = 0 \<and> length xs < length ys) \<longleftrightarrow> xs < ys" (is ?A)
  "memcmp xs ys = 0 \<and> length xs = length ys \<longleftrightarrow> xs = ys"
proof -
  show ?A
  proof (induction xs arbitrary: ys)
    case Nil
    then show ?case by (cases ys) auto
  next
    case (Cons x xs)
    then show ?case by (cases ys) auto
  qed
qed (induction xs ys rule: memcmp.induct, auto)

lemma memcmp_sym: "memcmp ys xs = - memcmp xs ys"
  by (induction xs ys rule: memcmp.induct) auto

lemma length_difference:
  assumes "n < 2 ^ 31" "m < 2 ^ 31"
  shows "sint (ucast (of_nat n - of_nat m :: u64) :: u32) = int n - int m"
proof -
  have "(of_nat n - of_nat m :: u64) = of_int (int n - int m)" by simp
  then have "(ucast (of_nat n - of_nat m :: u64) :: u32) = of_int (int n - int m)"
    by (simp add: unsigned_of_int unsigned_of_nat) (transfer, simp add: take_bit_diff)
  then have "sint (ucast (of_nat n - of_nat m :: u64) :: u32) = sint (of_int (int n - int m) :: u32)" by simp
  also have "\<dots> = int n - int m"
    unfolding signed_of_int of_int_eq_id id_apply using assms by (subst signed_take_bit_int_eq_self) simp_all
  finally show ?thesis .
qed

lemma dict_compare_lex:
  assumes "length s < 2 ^ 31" "length v < 2 ^ 31"
  shows "dict_compare s v < 0 \<longleftrightarrow> s < v" "dict_compare s v = 0 \<longleftrightarrow> s = v"
proof -
  have m: "(if length s < length v then length s else length v) = min (length s) (length v)" by simp
  have "dict_compare s v = (if memcmp s v = 0 then int (length s) - int (length v) else memcmp s v)"
    unfolding dict_compare_def m Let_def memcmp_take length_difference [OF assms] ..
  then show "dict_compare s v < 0 \<longleftrightarrow> s < v" "dict_compare s v = 0 \<longleftrightarrow> s = v"
    using memcmp_lex [of s v] by auto
qed

lemma dictionary_sorted: "sorted_wrt (<) v_dictionary_strings"
proof -
  have "successively (<) v_dictionary_strings"
    by (simp add: bytes_of_def v_dictionary_strings_def)
  then show ?thesis
    by (simp add: successively_conv_sorted_wrt transp_on_less)
qed

lemma dictionary_entries:
  "v \<in> set v_dictionary_strings \<Longrightarrow> 4 < length v \<and> length v < 100 \<and> 0 \<notin> set v"
proof -
  have "list_all (\<lambda>v. 4 < length v \<and> length v < 100 \<and> 0 \<notin> set v) v_dictionary_strings"
    by (simp add: bytes_of_def v_dictionary_strings_def)
  then show "v \<in> set v_dictionary_strings \<Longrightarrow> 4 < length v \<and> length v < 100 \<and> 0 \<notin> set v"
    by (simp add: list_all_iff)
qed

lemma dictionary_size: "length v_dictionary_strings = 164"
  by (simp add: v_dictionary_strings_def)

lemma dict_search_sound:
  "dict_search s start stop = Some i \<Longrightarrow> stop \<le> length v_dictionary_strings \<Longrightarrow> length s < 2 ^ 31 \<Longrightarrow>
     start \<le> i \<and> i < stop \<and> v_dictionary_strings ! i = s"
proof (induction s start stop rule: dict_search.induct)
  case (1 s start stop)
  define mid where "mid = start + (stop - start) div 2"
  have r: "start < stop" using "1.prems"(1) by (subst (asm) dict_search.simps) (auto split: if_splits)
  then have m: "start \<le> mid" "mid < stop" by (auto simp: mid_def)
  then have "v_dictionary_strings ! mid \<in> set v_dictionary_strings" using "1.prems"(2) by simp
  from dictionary_entries [OF this] have l: "length (v_dictionary_strings ! mid) < 2 ^ 31" by simp
  consider "dict_compare s (v_dictionary_strings ! mid) < 0" "dict_search s start mid = Some i"
    | "dict_compare s (v_dictionary_strings ! mid) > 0" "dict_search s (mid + 1) stop = Some i"
    | "dict_compare s (v_dictionary_strings ! mid) = 0" "i = mid"
    using "1.prems"(1) r by (subst (asm) dict_search.simps) (auto simp: Let_def mid_def split: if_splits)
  then show ?case
  proof cases
    case 1
    from "1.IH"(1) [OF r mid_def refl 1(1) 1(2)] "1.prems" m show ?thesis by simp
  next
    case 2
    from "1.IH"(2) [OF r mid_def refl _ 2(1) 2(2)] 2(1) "1.prems" m show ?thesis by simp
  next
    case 3
    with m dict_compare_lex(2) [OF "1.prems"(3) l] show ?thesis by simp
  qed
qed

lemma dict_search_complete:
  "start \<le> i \<Longrightarrow> i < stop \<Longrightarrow> stop \<le> length v_dictionary_strings \<Longrightarrow> length s < 2 ^ 31 \<Longrightarrow>
     v_dictionary_strings ! i = s \<Longrightarrow> dict_search s start stop = Some i"
proof (induction s start stop rule: dict_search.induct)
  case (1 s start stop)
  define mid where "mid = start + (stop - start) div 2"
  have r: "start < stop" and m: "mid < stop" using "1.prems" by (auto simp: mid_def)
  then have "v_dictionary_strings ! mid \<in> set v_dictionary_strings" using "1.prems"(3) by simp
  from dictionary_entries [OF this] have l: "length (v_dictionary_strings ! mid) < 2 ^ 31" by simp
  note cmp = dict_compare_lex [OF "1.prems"(4) l]
  have less: "v_dictionary_strings ! a < v_dictionary_strings ! b" if "a < b" "b < stop" for a b
    using dictionary_sorted that "1.prems"(3) by (auto simp: sorted_wrt_iff_nth_less)
  have step: "dict_search s start stop =
      (if dict_compare s (v_dictionary_strings ! mid) < 0 then dict_search s start mid
       else if dict_compare s (v_dictionary_strings ! mid) > 0 then dict_search s (mid + 1) stop else Some mid)"
    using r by (subst dict_search.simps) (simp add: Let_def mid_def)
  consider "i < mid" | "i = mid" | "mid < i" by linarith
  then show ?case
  proof cases
    case 1
    then have "s < v_dictionary_strings ! mid" using less [of i mid] m "1.prems"(5) by simp
    with cmp(1) have c: "dict_compare s (v_dictionary_strings ! mid) < 0" by simp
    from "1.IH"(1) [OF r mid_def refl c] "1.prems" 1 m step c show ?thesis by simp
  next
    case 2
    with cmp(2) "1.prems"(5) step show ?thesis by simp
  next
    case 3
    then have "v_dictionary_strings ! mid < s" using less [of mid i] "1.prems"(2,5) by simp
    then have c: "dict_compare s (v_dictionary_strings ! mid) > 0"
      using cmp by (metis linorder_neqE_linordered_idom order.asym order.irrefl)
    from "1.IH"(2) [OF r mid_def refl _ c] "1.prems" 3 step c show ?thesis by simp
  qed
qed

lemma find_in_dictionary:
  assumes "length s < 2 ^ 31"
  shows "v_find_string_in_dictionary (Some s) = Some i \<longleftrightarrow> i < 164 \<and> v_dictionary_strings ! i = s"
  using dict_search_sound [of s 0 "length v_dictionary_strings" i]
    dict_search_complete [of 0 i "length v_dictionary_strings" s] assms
  by (auto simp: v_find_string_in_dictionary_def dictionary_size)

end
