(* ===== verification/Varint.thy ===== *)
theory Varint
  imports Prelude
begin

text \<open>
  The variable-length integers of \<open>v7/v7.c\<close> (\<open>varint.c\<close>), and the interface \<open>codec\<close> of the
  byte codes of the program: a value is decoded from the front of a buffer, with the number of bytes
  it took. Varints and UTF-8 (theory Utf) interpret it; the string theories use its lemmas.
  Bytes beyond the buffer are not read: a decoder that would read them has no result.
\<close>

locale codec =
  fixes valid :: "'a \<Rightarrow> bool"
    and enc :: "'a \<Rightarrow> u8 list"
    and dec :: "u8 list \<Rightarrow> ('a \<times> nat) option"
  assumes dec_enc: "valid x \<Longrightarrow> dec (enc x @ rest) = Some (x, length (enc x))"
    and enc_nonempty: "valid x \<Longrightarrow> enc x \<noteq> []"
begin

lemma enc_prefix_unique:
  assumes "valid x" "valid y" "enc x @ r = enc y @ s"
  shows "x = y" "r = s"
proof -
  have "Some (x, length (enc x)) = Some (y, length (enc y))"
    using dec_enc [OF assms(1), of r] dec_enc [OF assms(2), of s] assms(3) by simp
  then show "x = y" by simp
  with assms(3) show "r = s" by simp
qed

lemma enc_inj: "valid x \<Longrightarrow> valid y \<Longrightarrow> enc x = enc y \<longleftrightarrow> x = y"
  using enc_prefix_unique(1) [of x y "[]" "[]"] by auto

lemma enc_concat_inj:
  assumes "\<forall>x \<in> set xs. valid x" "\<forall>y \<in> set ys. valid y"
    and "concat (map enc xs) = concat (map enc ys)"
  shows "xs = ys"
  using assms
proof (induction xs arbitrary: ys)
  case Nil
  then show ?case using enc_nonempty by (cases ys) auto
next
  case (Cons x xs)
  show ?case
  proof (cases ys)
    case Nil
    then show ?thesis using Cons.prems enc_nonempty by auto
  next
    case (Cons y ys')
    then have "enc x @ concat (map enc xs) = enc y @ concat (map enc ys')" "valid x" "valid y"
      using Cons.prems by auto
    then have "x = y" "concat (map enc xs) = concat (map enc ys')"
      using enc_prefix_unique by blast+
    with Cons.IH [of ys'] Cons.prems Cons show ?thesis by simp
  qed
qed

end

subsection \<open>varint.c\<close>

text \<open>
  The byte \<open>p[i] & 0x7f\<close> is an \<open>int\<close>, shifted left by \<open>7 * i\<close>: from \<open>i = 4\<close> on a result of
  \<open>2 ^ 31\<close> or more, or a shift of 32 or more, is undefined.
\<close>

definition shift_int :: "u8 \<Rightarrow> nat \<Rightarrow> u64 option" where
  "shift_int b s =
     (if s < 32 \<and> unat (b AND 0x7f) * 2 ^ s < 2 ^ 31 then Some (push_bit s (ucast (b AND 0x7f))) else None)"

function decode_varint_loop :: "u8 list \<Rightarrow> nat \<Rightarrow> u64 \<Rightarrow> (u64 \<times> nat) option" where
  "decode_varint_loop p i string_len =
     (if i < length p
      then
        (case shift_int (p ! i) (7 * i) of
           None \<Rightarrow> None
         | Some x \<Rightarrow>
             let string_len = string_len OR x in
             if Suc i < 8 \<and> (p ! i) AND 0x80 \<noteq> 0
             then decode_varint_loop p (Suc i) string_len
             else Some (string_len, Suc i))
      else None)"
  by pat_completeness auto
termination by (relation "measure (\<lambda>(p, i, _). length p - i)") auto

declare decode_varint_loop.simps [simp del]

definition decode_varint :: "u8 list \<Rightarrow> (u64 \<times> nat) option" where
  "decode_varint p = decode_varint_loop p 0 0"

lemma unat_drop7: "unat (drop_bit 7 (len :: u64)) = unat len div 128"
  by (simp add: drop_bit_eq_div unat_div)

lemma drop7_smaller:
  fixes len :: u64
  assumes "drop_bit 7 len \<noteq> 0"
  shows "unat (drop_bit 7 len) < unat len"
proof -
  note unat_drop7 [of len]
  moreover have "unat len \<noteq> 0" using assms by (auto simp: unat_eq_0)
  ultimately show ?thesis by simp
qed

function calc_llen :: "u64 \<Rightarrow> nat" where
  "calc_llen len = (let len' = drop_bit 7 len in if len' \<noteq> 0 then Suc (calc_llen len') else 1)"
  by pat_completeness auto
termination
  using drop7_smaller by (relation "measure unat") auto

declare calc_llen.simps [simp del]

text \<open>\<open>n\<close> more bytes to write; the assertion of \<open>calc_llen\<close> allows at most 8.\<close>

fun encode_varint_loop :: "nat \<Rightarrow> u64 \<Rightarrow> u8 list" where
  "encode_varint_loop 0 len = []"
| "encode_varint_loop (Suc n) len =
     (ucast (len AND 0x7f) OR (if n > 0 then 0x80 else 0)) # encode_varint_loop n (drop_bit 7 len)"

definition encode_varint :: "u64 \<Rightarrow> u8 list option" where
  "encode_varint len =
     (if calc_llen len \<le> 8 then Some (encode_varint_loop (calc_llen len) len) else None)"

subsection \<open>Correctness\<close>

lemma length_encode_loop [simp]: "length (encode_varint_loop n len) = n"
  by (induction n arbitrary: len) simp_all

lemma calc_llen_bound: "unat len < 2 ^ (7 * Suc n) \<Longrightarrow> calc_llen len \<le> Suc n"
proof (induction n arbitrary: len)
  case 0
  then have "unat (drop_bit 7 len) = 0" unfolding unat_drop7 by simp
  then have "drop_bit 7 len = 0" by (simp only: unat_eq_0)
  then show ?case by (simp add: calc_llen.simps [of len])
next
  case (Suc n)
  have "unat (drop_bit 7 len) = unat len div 128" by (rule unat_drop7)
  also have "\<dots> < 2 ^ (7 * Suc n)"
    using Suc.prems by (simp add: less_mult_imp_div_less power_add)
  finally have "calc_llen (drop_bit 7 len) \<le> Suc n" by (rule Suc.IH)
  then show ?case by (simp add: calc_llen.simps [of len] Let_def)
qed

lemma calc_llen_pos: "0 < calc_llen len"
  by (subst calc_llen.simps) (simp add: Let_def)

lemma calc_llen_enough: "unat len < 2 ^ (7 * calc_llen len)"
proof (induction len rule: calc_llen.induct)
  case (1 len)
  note div = unat_drop7 [of len]
  show ?case
  proof (cases "drop_bit 7 len = 0")
    case True
    then have "unat len div 128 = 0" using div by simp
    then have "unat len < 128" by simp
    with True show ?thesis by (simp add: calc_llen.simps [of len])
  next
    case False
    then have "unat len div 128 < 2 ^ (7 * calc_llen (drop_bit 7 len))" using 1 div by simp
    then have "unat len < 2 ^ (7 * calc_llen (drop_bit 7 len)) * 128" by (simp add: div_less_iff_less_mult)
    then show ?thesis using False by (simp add: calc_llen.simps [of len] Let_def power_add)
  qed
qed

lemma loop_masks: "(0x7f :: u8) = mask 7" "(0x7f :: u64) = mask 7" "(0x80 :: u8) = 2 ^ 7"
  by (simp_all add: mask_eq_exp_minus_1)

lemma bit_128: "bit (128 :: int) n \<longleftrightarrow> n = 7"
  using bit_exp_iff [where 'a = int, of 7 n] by auto

lemma loop_byte:
  "(ucast ((len :: u64) AND 0x7f) OR (if c then 0x80 else 0) :: u8) AND 0x7f = ucast (len AND 0x7f)"
  "(ucast ((len :: u64) AND 0x7f) OR (if c then 0x80 else 0) :: u8) AND 0x80 \<noteq> 0 \<longleftrightarrow> c"
  unfolding loop_masks and_exp_eq_0_iff_not_bit
  by (rule bit_word_eqI) (auto simp: bit_simps bit_128)

text \<open>Bits \<open>7 * i\<close> up to \<open>7 * (i + n)\<close> of the number are decoded from the \<open>n\<close> bytes at \<open>i\<close>.\<close>

lemma shift_int_ok:
  assumes "unat len < 2 ^ 31" "i \<le> 4"
  shows "shift_int (ucast (drop_bit (7 * i) len AND 0x7f)) (7 * i)
     = Some (push_bit (7 * i) (drop_bit (7 * i) len AND 0x7f))"
proof -
  have x: "unat (drop_bit (7 * i) len AND 0x7f) = unat len div 2 ^ (7 * i) mod 128"
    using assms(1) unfolding loop_masks take_bit_eq_mask [symmetric]
    by (simp add: unsigned_take_bit_eq unsigned_drop_bit_eq) (simp add: take_bit_eq_mod drop_bit_eq_div)
  have small: "(ucast (drop_bit (7 * i) len AND 0x7f) :: u8) AND 0x7f = ucast (drop_bit (7 * i) len AND 0x7f)"
    unfolding loop_masks by (rule bit_word_eqI) (auto simp: bit_simps)
  have again: "ucast (ucast (drop_bit (7 * i) len AND 0x7f) :: u8) = drop_bit (7 * i) len AND 0x7f"
    unfolding loop_masks by (rule bit_word_eqI) (auto simp: bit_simps)
  have "unat (ucast (drop_bit (7 * i) len AND 0x7f) :: u8) = unat len div 2 ^ (7 * i) mod 128"
    using x by (simp add: unsigned_ucast_eq take_bit_eq_mod)
  moreover have "unat len div 2 ^ (7 * i) mod 128 * 2 ^ (7 * i) \<le> unat len"
    by (metis div_times_less_eq_dividend le_trans mod_less_eq_dividend mult_le_mono1)
  ultimately show ?thesis
    using assms small again by (simp add: shift_int_def)
qed

lemma take_bit_step:
  "take_bit k len OR push_bit k (drop_bit k len AND mask 7) = take_bit (k + 7) (len :: u64)"
  by (rule bit_word_eqI) (auto simp: bit_simps)

lemma drop_take_all:
  assumes "drop_bit k (len :: u64) = 0"
  shows "take_bit k len = len"
proof -
  have "push_bit k (drop_bit k len) + take_bit k len = len" by (rule bits_ident)
  with assms show ?thesis by simp
qed

lemma shift_int_masked:
  "b AND 0x7f = c AND 0x7f \<Longrightarrow> shift_int b s = shift_int c s"
  by (simp add: shift_int_def)

lemma decode_loop:
  assumes "unat len < 2 ^ 31" "0 < n" "i + n \<le> 5" "drop_bit (7 * (i + n)) len = 0" "length pre = i"
  shows "decode_varint_loop (pre @ encode_varint_loop n (drop_bit (7 * i) len) @ rest) i (take_bit (7 * i) len)
     = Some (len, i + n)"
  using assms(2-)
proof (induction n arbitrary: i pre)
  case (Suc n)
  let ?x = "drop_bit (7 * i) len"
  let ?b = "ucast (?x AND 0x7f) OR (if n > 0 then 0x80 else 0) :: u8"
  let ?p = "pre @ encode_varint_loop (Suc n) ?x @ rest"
  have p: "?p ! i = ?b" "i < length ?p" "?p = (pre @ [?b]) @ encode_varint_loop n (drop_bit 7 ?x) @ rest"
    using Suc.prems(4) by (simp_all add: nth_append)
  have "?b AND 0x7f = ucast (?x AND 0x7f) AND 0x7f"
    unfolding loop_byte(1) unfolding loop_masks by (rule bit_word_eqI) (auto simp: bit_simps)
  then have "shift_int ?b (7 * i) = shift_int (ucast (?x AND 0x7f)) (7 * i)"
    by (rule shift_int_masked)
  also have "\<dots> = Some (push_bit (7 * i) (?x AND 0x7f))"
    by (rule shift_int_ok [OF assms(1)]) (use Suc.prems(2) in simp)
  finally have s: "shift_int ?b (7 * i) = Some (push_bit (7 * i) (?x AND 0x7f))" .
  have acc: "take_bit (7 * i) len OR push_bit (7 * i) (?x AND 0x7f) = take_bit (7 * Suc i) len"
    using take_bit_step [of "7 * i" len] by (simp add: loop_masks(2) add.commute)
  have more: "Suc i < 8 \<and> ?b AND 0x80 \<noteq> 0 \<longleftrightarrow> n > 0"
    using loop_byte(2) [of ?x "n > 0"] Suc.prems(2) by auto
  have step: "decode_varint_loop ?p i (take_bit (7 * i) len) =
      (if n > 0 then decode_varint_loop ?p (Suc i) (take_bit (7 * Suc i) len)
       else Some (take_bit (7 * Suc i) len, Suc i))"
    by (subst decode_varint_loop.simps) (simp only: p(1,2) s Let_def option.case acc more if_True)
  show ?case
  proof (cases "n > 0")
    case True
    have d: "drop_bit 7 ?x = drop_bit (7 * Suc i) len" by (simp add: drop_bit_drop_bit)
    have "decode_varint_loop ((pre @ [?b]) @ encode_varint_loop n (drop_bit (7 * Suc i) len) @ rest) (Suc i)
        (take_bit (7 * Suc i) len) = Some (len, Suc i + n)"
      using Suc.prems True by (intro Suc.IH) simp_all
    then have "decode_varint_loop ?p (Suc i) (take_bit (7 * Suc i) len) = Some (len, Suc i + n)"
      unfolding p(3) d .
    then show ?thesis unfolding step using True by simp
  next
    case False
    then have "take_bit (7 * Suc i) len = len"
      using Suc.prems(3) by (intro drop_take_all) simp
    then show ?thesis unfolding step using False by simp
  qed
qed simp

lemma calc_llen_drop: "drop_bit (7 * calc_llen len) len = 0"
proof -
  have "unat (drop_bit (7 * calc_llen len) len) = unat len div 2 ^ (7 * calc_llen len)"
    using unsigned_less [of len, where ?'a = nat]
    by (simp only: unsigned_drop_bit_eq) (simp add: drop_bit_eq_div take_bit_nat_eq_self)
  then show ?thesis using calc_llen_enough [of len] by (simp only: unat_eq_0 [symmetric]) simp
qed

lemma decode_encode_varint:
  assumes "unat len < 2 ^ 31" "encode_varint len = Some bs"
  shows "decode_varint (bs @ rest) = Some (len, length bs)"
proof -
  have n: "calc_llen len \<le> 5" using assms(1) by (intro calc_llen_bound [of len 4, simplified]) simp
  have "decode_varint_loop ([] @ encode_varint_loop (calc_llen len) (drop_bit (7 * 0) len) @ rest) 0
      (take_bit (7 * 0) len) = Some (len, 0 + calc_llen len)"
    using n calc_llen_pos calc_llen_drop [of len] by (intro decode_loop [OF assms(1)]) simp_all
  then show ?thesis using assms(2) n by (auto simp: decode_varint_def encode_varint_def)
qed

lemma encode_varint_some: "unat len < 2 ^ 56 \<Longrightarrow> \<exists>bs. encode_varint len = Some bs \<and> length bs = calc_llen len"
  using calc_llen_bound [of len 7] by (simp add: encode_varint_def)

interpretation varint: codec "\<lambda>len. unat len < 2 ^ 31" "\<lambda>len. the (encode_varint len)" decode_varint
proof
  fix len :: u64 and rest assume len: "unat len < 2 ^ 31"
  then obtain bs where "encode_varint len = Some bs" "length bs = calc_llen len"
    using encode_varint_some [of len] by fastforce
  with decode_encode_varint [OF len] calc_llen_pos [of len]
  show "decode_varint (the (encode_varint len) @ rest) = Some (len, length (the (encode_varint len)))"
    and "the (encode_varint len) \<noteq> []" by auto
qed

text \<open>From \<open>2 ^ 31\<close> on, the decoder shifts an \<open>int\<close> too far: no length is decoded.\<close>

lemma decode_at_5:
  assumes "5 \<le> i"
  shows "decode_varint_loop p i acc = None"
  using assms by (subst decode_varint_loop.simps) (simp add: shift_int_def)

lemma decode_loop_overflow:
  assumes "2 ^ 31 \<le> unat len" "i \<le> 4" "4 < i + n" "drop_bit (7 * (i + n)) len = 0" "length pre = i"
  shows "decode_varint_loop (pre @ encode_varint_loop n (drop_bit (7 * i) len) @ rest) i acc = None"
  using assms(2-)
proof (induction n arbitrary: i pre acc)
  case (Suc n)
  let ?x = "drop_bit (7 * i) len"
  let ?b = "ucast (?x AND 0x7f) OR (if n > 0 then 0x80 else 0) :: u8"
  let ?p = "pre @ encode_varint_loop (Suc n) ?x @ rest"
  have p: "?p ! i = ?b" "i < length ?p" "?p = (pre @ [?b]) @ encode_varint_loop n (drop_bit 7 ?x) @ rest"
    using Suc.prems(4) by (simp_all add: nth_append)
  have d: "drop_bit 7 ?x = drop_bit (7 * Suc i) len" by (simp add: drop_bit_drop_bit)
  have "decode_varint_loop ?p (Suc i) acc' = None" if "n > 0" for acc'
  proof (cases "i = 4")
    case False
    have "decode_varint_loop ((pre @ [?b]) @ encode_varint_loop n (drop_bit (7 * Suc i) len) @ rest) (Suc i) acc'
        = None"
      using that False Suc.prems by (intro Suc.IH) simp_all
    then show ?thesis unfolding p(3) d .
  qed (simp add: decode_at_5)
  moreover have "shift_int ?b (7 * i) = None" if "n = 0"
  proof -
    have i: "i = 4" using that Suc.prems(1,2) by simp
    have "unat len div 2 ^ 35 = 0"
      using Suc.prems(3) unsigned_less [of len, where ?'a = nat] that i
      by (simp add: word_unat_eq_iff unsigned_drop_bit_eq) (simp add: drop_bit_eq_div take_bit_eq_mod)
    then have x: "unat len div 2 ^ 28 < 128" by simp
    have "unat ?x = unat len div 2 ^ 28"
      using unsigned_less [of len, where ?'a = nat] i
      by (simp add: unsigned_drop_bit_eq) (simp add: drop_bit_eq_div take_bit_eq_mod)
    then have "unat (?x AND 0x7f) = unat len div 2 ^ 28"
      using x unfolding loop_masks take_bit_eq_mask [symmetric]
      by (simp add: unsigned_take_bit_eq) (simp add: take_bit_eq_mod)
    then have "unat (?b AND 0x7f) = unat len div 2 ^ 28"
      using x unfolding loop_byte(1) by (simp add: unsigned_ucast_eq take_bit_eq_mod)
    moreover have "2 ^ 31 \<le> unat len div 2 ^ 28 * 2 ^ 28" using assms(1) by simp
    ultimately show ?thesis using i by (simp add: shift_int_def)
  qed
  moreover have "Suc i < 8 \<and> ?b AND 0x80 \<noteq> 0 \<longleftrightarrow> n > 0"
    using loop_byte(2) [of ?x "n > 0"] Suc.prems(1) by auto
  ultimately show ?case
    by (subst decode_varint_loop.simps) (simp only: p(1,2) if_True Let_def split: option.split, auto)
qed simp

lemma decode_varint_overflow:
  assumes "2 ^ 31 \<le> unat len" "encode_varint len = Some bs"
  shows "decode_varint (bs @ rest) = None"
proof -
  have "4 < calc_llen len"
  proof (rule ccontr)
    assume "\<not> 4 < calc_llen len"
    then have "(2 :: nat) ^ (7 * calc_llen len) \<le> 2 ^ 28" by (intro power_increasing) simp_all
    with calc_llen_enough [of len] assms(1) show False by simp
  qed
  then have "decode_varint_loop ([] @ encode_varint_loop (calc_llen len) (drop_bit (7 * 0) len) @ rest) 0 0 = None"
    using calc_llen_drop [of len] by (intro decode_loop_overflow [OF assms(1)]) simp_all
  then show ?thesis using assms(2) by (auto simp: decode_varint_def encode_varint_def split: if_splits)
qed

end
