(* ===== verification/Utf.thy ===== *)
theory Utf
  imports Varint
begin

text \<open>
  UTF-8 of \<open>v7/v7.c\<close> (\<open>common/utf.c\<close>): characters are 16-bit \<open>Rune\<close>s of one to three bytes.
  \<open>runetochar\<close> and \<open>chartorune\<close> are a \<open>codec\<close> on all runes. Reading beyond the buffer has no result.
  The class tables and the case maps are in UtfTables and UtfClasses.
\<close>

type_synonym rune = u16

definition Rune1 :: u16 where "Rune1 = 0x007F"
definition Rune2 :: u16 where "Rune2 = 0x07FF"
definition Rune3 :: u16 where "Rune3 = 0xFFFF"
definition Tx :: u8 where "Tx = 0x80"
definition T2 :: u8 where "T2 = 0xC0"
definition T3 :: u8 where "T3 = 0xE0"
definition T4 :: u8 where "T4 = 0xF0"
definition Maskx :: u16 where "Maskx = 0x3F"
definition Testx :: u8 where "Testx = 0xC0"
definition Runeerror :: u16 where "Runeerror = 0xFFFD"
definition Runeself :: u8 where "Runeself = 0x80"

fun byte_at :: "u8 list \<Rightarrow> nat \<Rightarrow> u8 option" where
  "byte_at str i = (if i < length str then Some (str ! i) else None)"

definition chartorune :: "u8 list \<Rightarrow> (rune \<times> nat) option" where
  "chartorune str =
     do { c \<leftarrow> byte_at str 0;
          if c < Tx then Some (ucast c, 1)
          else
            do { b1 \<leftarrow> byte_at str 1;
                 let c1 = b1 XOR Tx;
                 if c1 AND Testx \<noteq> 0 then Some (Runeerror, 1)
                 else if c < T3
                 then
                   if c < T2 then Some (Runeerror, 1)
                   else
                     let l = (push_bit 6 (ucast c) OR ucast c1) AND Rune2
                     in if l \<le> Rune1 then Some (Runeerror, 1) else Some (l, 2)
                 else
                   do { b2 \<leftarrow> byte_at str 2;
                        let c2 = b2 XOR Tx;
                        if c2 AND Testx \<noteq> 0 then Some (Runeerror, 1)
                        else if c < T4
                        then
                          let l = (push_bit 6 (push_bit 6 (ucast c) OR ucast c1) OR ucast c2) AND Rune3
                          in if l \<le> Rune2 then Some (Runeerror, 1) else Some (l, 3)
                        else Some (Runeerror, 1) } } }"

definition runetochar :: "rune \<Rightarrow> u8 list" where
  "runetochar c =
     (if c \<le> Rune1 then [ucast c]
      else if c \<le> Rune2 then [T2 OR ucast (drop_bit 6 c), Tx OR ucast (c AND Maskx)]
      else [T3 OR ucast (drop_bit 12 c), Tx OR ucast (drop_bit 6 c AND Maskx), Tx OR ucast (c AND Maskx)])"

definition fullrune :: "u8 list \<Rightarrow> nat \<Rightarrow> bool option" where
  "fullrune str n =
     (if n = 0 then Some False
      else do { c \<leftarrow> byte_at str 0;
                Some (if c < Tx then True else if c < T3 then 2 \<le> n else 3 \<le> n) })"

text \<open>
  \<open>utfnlen(s, m)\<close>: \<open>m\<close> is the number of bytes left. The last rune may end beyond them: then the
  loop ends as well.
\<close>

function utfnlen :: "u8 list \<Rightarrow> int \<Rightarrow> nat option" where
  "utfnlen s m =
     (if m \<le> 0 then Some 0
      else
        do { c \<leftarrow> byte_at s 0;
             if c < Runeself then do { n \<leftarrow> utfnlen (tl s) (m - 1); Some (Suc n) }
             else
               do { full \<leftarrow> fullrune s (nat m);
                    if \<not> full then Some 0
                    else do { (r, k) \<leftarrow> chartorune s;
                              if k = 0 then None
                              else do { n \<leftarrow> utfnlen (drop k s) (m - int k); Some (Suc n) } } } })"
  by pat_completeness auto
termination by (relation "measure (\<lambda>(s, m). nat m)") auto

declare utfnlen.simps [simp del]

fun utfnshift :: "u8 list \<Rightarrow> nat \<Rightarrow> u8 list option" where
  "utfnshift s 0 = Some s"
| "utfnshift s (Suc m) =
     do { c \<leftarrow> byte_at s 0;
          if c < Runeself then utfnshift (tl s) m
          else do { (r, k) \<leftarrow> chartorune s; utfnshift (drop k s) m } }"

subsection \<open>Decoding what was encoded\<close>

lemmas utf_defs = Rune1_def Rune2_def Rune3_def Tx_def T2_def T3_def T4_def Maskx_def Testx_def
  Runeerror_def Runeself_def

lemma bits_num:
  "bit (128 :: int) n \<longleftrightarrow> n = 7" "bit (192 :: int) n \<longleftrightarrow> 6 \<le> n \<and> n < 8"
  "bit (224 :: int) n \<longleftrightarrow> 5 \<le> n \<and> n < 8" "bit (63 :: int) n \<longleftrightarrow> n < 6"
  "bit (2047 :: int) n \<longleftrightarrow> n < 11" "bit (31 :: int) n \<longleftrightarrow> n < 5"
proof -
  have eqs: "(192 :: int) = push_bit 6 (mask 2)" "(224 :: int) = push_bit 5 (mask 3)"
      "(63 :: int) = mask 6" "(2047 :: int) = mask 11" "(31 :: int) = mask 5"
    by (simp_all add: push_bit_eq_mult mask_eq_exp_minus_1)
  show "bit (128 :: int) n \<longleftrightarrow> n = 7" by (rule bit_128)
  show "bit (192 :: int) n \<longleftrightarrow> 6 \<le> n \<and> n < 8" "bit (224 :: int) n \<longleftrightarrow> 5 \<le> n \<and> n < 8"
    unfolding eqs by (auto simp: bit_push_bit_iff bit_mask_iff)
  show "bit (63 :: int) n \<longleftrightarrow> n < 6" "bit (2047 :: int) n \<longleftrightarrow> n < 11" "bit (31 :: int) n \<longleftrightarrow> n < 5"
    unfolding eqs by (simp_all add: bit_mask_iff)
qed

lemma rune_two_bits:
  assumes "c \<le> Rune2" "bit c n"
  shows "n < 11"
proof (rule ccontr)
  assume n: "\<not> n < 11"
  have "unat c < 2 ^ 11" using assms(1) by (simp add: Rune2_def word_le_nat_alt)
  also have "(2 :: nat) ^ 11 \<le> 2 ^ n" using n by (intro power_increasing) simp_all
  finally have "\<not> bit (unat c) n" by (simp add: bit_iff_odd)
  with assms(2) show False by (simp add: bit_unsigned_iff)
qed

lemma lead_two:
  assumes "c \<le> Rune2"
  shows "unat (T2 OR ucast (drop_bit 6 c)) = 192 + unat c div 64" "unat c div 64 < 32"
proof -
  have n: "unat c \<le> 2047" using assms by (simp add: Rune2_def word_le_nat_alt)
  then show "unat c div 64 < 32" by simp
  have "T2 OR ucast (drop_bit 6 c) = T2 + ucast (drop_bit 6 c)"
    using rune_two_bits [OF assms]
    by (intro disjunctive_add [symmetric]) (fastforce simp: T2_def bit_simps bits_num)
  moreover have "unat (ucast (drop_bit 6 c) :: u8) = unat c div 64"
    using n by (simp add: unsigned_ucast_eq unsigned_drop_bit_eq) (simp add: drop_bit_eq_div take_bit_eq_mod)
  ultimately show "unat (T2 OR ucast (drop_bit 6 c)) = 192 + unat c div 64"
    using n by (simp add: T2_def unat_word_ariths)
qed

lemma lead_three:
  "unat (T3 OR ucast (drop_bit 12 (c :: u16))) = 224 + unat c div 4096" "unat c div 4096 < 16"
proof -
  have n: "unat c < 65536" using unsigned_less [of c, where ?'a = nat] by simp
  then show "unat c div 4096 < 16" by simp
  have "T3 OR ucast (drop_bit 12 c) = T3 + ucast (drop_bit 12 c)"
    by (intro disjunctive_add [symmetric]) (auto simp: T3_def bit_simps bits_num dest: bit_imp_le_length)
  moreover have "unat (ucast (drop_bit 12 c) :: u8) = unat c div 4096"
    using n by (simp add: unsigned_ucast_eq unsigned_drop_bit_eq) (simp add: drop_bit_eq_div take_bit_eq_mod)
  ultimately show "unat (T3 OR ucast (drop_bit 12 c)) = 224 + unat c div 4096"
    using n by (simp add: T3_def unat_word_ariths)
qed

lemma tail_byte:
  "(Tx OR ucast ((c :: u16) AND Maskx)) XOR Tx = ucast (c AND Maskx)"
  "(ucast ((c :: u16) AND Maskx) :: u8) AND Testx = 0"
  by (rule bit_word_eqI; auto simp: Tx_def Maskx_def Testx_def bit_simps bits_num)+

lemma decode_two:
  assumes "c \<le> Rune2"
  shows "(push_bit 6 (ucast (T2 OR ucast (drop_bit 6 c) :: u8)) OR ucast (ucast (c AND Maskx) :: u8)) AND Rune2 = c"
  by (intro bit_word_eqI)
     (auto simp: T2_def Maskx_def Rune2_def bit_simps bits_num dest: rune_two_bits [OF assms])

lemma decode_three:
  "(push_bit 6 (push_bit 6 (ucast (T3 OR ucast (drop_bit 12 c) :: u8)) OR ucast (ucast (drop_bit 6 c AND Maskx) :: u8))
     OR ucast (ucast (c AND Maskx) :: u8)) AND Rune3 = c"
proof -
  have all: "Rune3 = - 1" by (simp add: Rune3_def)
  show ?thesis
  proof (rule bit_word_eqI)
    fix n assume "n < LENGTH(16)"
    then show "bit ((push_bit 6 (push_bit 6 (ucast (T3 OR ucast (drop_bit 12 c) :: u8))
        OR ucast (ucast (drop_bit 6 c AND Maskx) :: u8)) OR ucast (ucast (c AND Maskx) :: u8)) AND Rune3) n = bit c n"
      unfolding all
      by (cases "12 \<le> n") (auto simp: T3_def Maskx_def bit_simps bits_num)
  qed
qed

subsection \<open>The code of a rune\<close>

lemma chartorune_runetochar: "chartorune (runetochar c @ rest) = Some (c, length (runetochar c))"
proof -
  have n: "unat c < 65536" using unsigned_less [of c, where ?'a = nat] by simp
  consider (one) "c \<le> Rune1" | (two) "\<not> c \<le> Rune1" "c \<le> Rune2" | (three) "\<not> c \<le> Rune1" "\<not> c \<le> Rune2"
    by blast
  then show ?thesis
  proof cases
    case one
    then have u: "unat c \<le> 127" by (simp add: Rune1_def word_le_nat_alt)
    then have "unat (ucast c :: u8) = unat c" by (simp add: unsigned_ucast_eq take_bit_eq_mod unat_mod)
    with u have "(ucast c :: u8) < Tx" "ucast (ucast c :: u8) = c"
      by (simp_all add: Tx_def word_less_nat_alt word_unat_eq_iff unsigned_ucast_eq take_bit_eq_mod unat_mod)
    with one show ?thesis by (simp add: runetochar_def chartorune_def)
  next
    case two
    let ?b = "T2 OR ucast (drop_bit 6 c)"
    have "\<not> ?b < Tx" "?b < T3" "\<not> ?b < T2"
      using lead_two [OF two(2)] by (simp_all add: Tx_def T2_def T3_def word_less_nat_alt)
    with two show ?thesis
      using tail_byte [of c] decode_two [OF two(2)] by (simp add: runetochar_def chartorune_def Let_def)
  next
    case three
    let ?b = "T3 OR ucast (drop_bit 12 c)"
    have "\<not> ?b < Tx" "\<not> ?b < T3" "?b < T4"
      using lead_three [of c] by (simp_all add: Tx_def T4_def T3_def word_less_nat_alt)
    with three show ?thesis
      using tail_byte [of c] tail_byte [of "drop_bit 6 c"] decode_three [of c]
      by (simp add: runetochar_def chartorune_def Let_def)
  qed
qed

interpretation utf8: codec "\<lambda>c. True" runetochar chartorune
proof
  show "chartorune (runetochar c @ rest) = Some (c, length (runetochar c))" for c rest
    by (rule chartorune_runetochar)
  show "runetochar c \<noteq> []" for c by (simp add: runetochar_def)
qed

subsection \<open>What the decoder accepts\<close>

lemma bit_u8_div: "bit (b :: u8) n \<longleftrightarrow> odd (unat b div 2 ^ n)"
proof -
  have "bit b n = bit (unat b) n" by (simp add: bit_unsigned_iff)
  then show ?thesis by (simp add: bit_iff_odd)
qed

lemma lead_bits:
  "\<not> b < T2 \<Longrightarrow> b < T3 \<Longrightarrow> bit b 7 \<and> bit b 6 \<and> \<not> bit b 5"
  "\<not> b < T3 \<Longrightarrow> b < T4 \<Longrightarrow> bit b 7 \<and> bit b 6 \<and> bit b 5 \<and> \<not> bit b 4"
proof -
  assume "\<not> b < T2" "b < T3"
  then have "192 \<le> unat b" "unat b < 224" by (simp_all add: T2_def T3_def word_less_nat_alt)
  then have "unat b div 128 = 1" "unat b div 64 = 3" "unat b div 32 = 6" by simp_all
  then show "bit b 7 \<and> bit b 6 \<and> \<not> bit b 5" by (simp add: bit_u8_div)
next
  assume "\<not> b < T3" "b < T4"
  then have "224 \<le> unat b" "unat b < 240" by (simp_all add: T4_def T3_def word_less_nat_alt)
  then have "unat b div 128 = 1" "unat b div 64 = 3" "unat b div 32 = 7" "unat b div 16 = 14" by simp_all
  then show "bit b 7 \<and> bit b 6 \<and> bit b 5 \<and> \<not> bit b 4" by (simp add: bit_u8_div)
qed

lemma tail_bits:
  assumes "(b XOR Tx) AND Testx = 0"
  shows "bit b 7" "\<not> bit b 6"
proof -
  have "\<not> bit ((b XOR Tx) AND Testx) 7" "\<not> bit ((b XOR Tx) AND Testx) 6" by (simp_all add: assms)
  then show "bit b 7" "\<not> bit b 6" by (auto simp: Tx_def Testx_def bit_simps bits_num)
qed

lemma encode_two:
  assumes "\<not> a < T2" "a < T3" "(b XOR Tx) AND Testx = 0"
  defines "l \<equiv> (push_bit 6 (ucast a) OR ucast (b XOR Tx)) AND Rune2 :: u16"
  shows "T2 OR ucast (drop_bit 6 l) = a" "Tx OR ucast (l AND Maskx) = b" "l \<le> Rune2"
proof -
  note lead = lead_bits(1) [OF assms(1,2)] and tail = tail_bits [OF assms(3)]
  show "T2 OR ucast (drop_bit 6 l) = a"
  proof (rule bit_word_eqI)
    fix n assume "n < LENGTH(8)"
    then show "bit (T2 OR ucast (drop_bit 6 l)) n = bit a n"
      using lead tail below_8 [of n] by (auto simp: l_def T2_def Tx_def Rune2_def bit_simps bits_num no_bit_u8)
  qed
  show "Tx OR ucast (l AND Maskx) = b"
  proof (rule bit_word_eqI)
    fix n assume "n < LENGTH(8)"
    then show "bit (Tx OR ucast (l AND Maskx)) n = bit b n"
      using tail below_8 [of n]
      by (auto simp: l_def Maskx_def Tx_def Rune2_def bit_simps bits_num no_bit_u8)
  qed
  show "l \<le> Rune2" unfolding l_def by (rule word_and_le1)
qed

lemma encode_three:
  assumes "\<not> a < T3" "a < T4" "(b XOR Tx) AND Testx = 0" "(d XOR Tx) AND Testx = 0"
  defines "l \<equiv> (push_bit 6 (push_bit 6 (ucast a) OR ucast (b XOR Tx)) OR ucast (d XOR Tx)) AND Rune3 :: u16"
  shows "T3 OR ucast (drop_bit 12 l) = a" "Tx OR ucast (drop_bit 6 l AND Maskx) = b" "Tx OR ucast (l AND Maskx) = d"
proof -
  note lead = lead_bits(2) [OF assms(1,2)] and tail = tail_bits [OF assms(3)] tail_bits [OF assms(4)]
  have all: "Rune3 = - 1" by (simp add: Rune3_def)
  show "T3 OR ucast (drop_bit 12 l) = a"
  proof (rule bit_word_eqI)
    fix n assume "n < LENGTH(8)"
    then show "bit (T3 OR ucast (drop_bit 12 l)) n = bit a n"
      using lead tail below_8 [of n] by (auto simp: l_def all T3_def Tx_def bit_simps bits_num no_bit_u8)
  qed
  show "Tx OR ucast (drop_bit 6 l AND Maskx) = b"
  proof (rule bit_word_eqI)
    fix n assume "n < LENGTH(8)"
    then show "bit (Tx OR ucast (drop_bit 6 l AND Maskx)) n = bit b n"
      using tail below_8 [of n] by (auto simp: l_def all Maskx_def Tx_def bit_simps bits_num no_bit_u8)
  qed
  show "Tx OR ucast (l AND Maskx) = d"
  proof (rule bit_word_eqI)
    fix n assume "n < LENGTH(8)"
    then show "bit (Tx OR ucast (l AND Maskx)) n = bit d n"
      using tail below_8 [of n] by (auto simp: l_def all Maskx_def Tx_def bit_simps bits_num no_bit_u8)
  qed
qed

text \<open>
  A decoded rune other than the error value is exactly what the encoder would have written: there are
  no overlong forms.
\<close>

lemma chartorune_canonical:
  assumes "chartorune s = Some (r, k)"
  shows "r = Runeerror \<and> k = 1 \<or> k \<le> length s \<and> take k s = runetochar r"
proof -
  obtain a s1 where s: "s = a # s1" using assms by (cases s) (auto simp: chartorune_def)
  show ?thesis
  proof (cases "a < Tx")
    case True
    then have "unat a < 128" by (simp add: Tx_def word_less_nat_alt)
    then have "(ucast a :: u16) \<le> Rune1" "ucast (ucast a :: u16) = a"
      by (simp_all add: Rune1_def word_le_nat_alt unsigned_ucast_eq take_bit_eq_mod word_unat_eq_iff unat_mod)
    with True assms s show ?thesis by (auto simp: chartorune_def runetochar_def)
  next
    case False
    then obtain b s2 where s1: "s1 = b # s2" using assms s by (cases s1) (auto simp: chartorune_def)
    show ?thesis
    proof (cases "(b XOR Tx) AND Testx = 0")
      case tail: True
      show ?thesis
      proof (cases "a < T3")
        case True
        let ?l = "(push_bit 6 (ucast a) OR ucast (b XOR Tx)) AND Rune2"
        show ?thesis
        proof (cases "a < T2 \<or> ?l \<le> Rune1")
          case False
          then have "\<not> a < T2" by simp
          note enc = encode_two [OF this True tail]
          from False \<open>\<not> a < Tx\<close> True tail assms s s1 have "r = ?l" "k = 2"
            by (simp_all add: chartorune_def Let_def)
          with False enc s s1 show ?thesis by (simp add: runetochar_def)
        next
          case bad: True
          with \<open>\<not> a < Tx\<close> True tail assms s s1 show ?thesis
            by (auto simp: chartorune_def Let_def split: if_splits)
        qed
      next
        case False
        then obtain d s3 where s2: "s2 = d # s3"
          using assms s s1 \<open>\<not> a < Tx\<close> tail by (cases s2) (auto simp: chartorune_def)
        let ?l = "(push_bit 6 (push_bit 6 (ucast a) OR ucast (b XOR Tx)) OR ucast (d XOR Tx)) AND Rune3"
        show ?thesis
        proof (cases "(d XOR Tx) AND Testx = 0 \<and> a < T4 \<and> \<not> ?l \<le> Rune2")
          case True
          then have ok: "(d XOR Tx) AND Testx = 0" "a < T4" "\<not> ?l \<le> Rune2" by simp_all
          note enc = encode_three [OF False ok(2) tail ok(1)]
          have "r = ?l" "k = 3"
            using ok \<open>\<not> a < Tx\<close> False tail assms s s1 s2 by (simp_all add: chartorune_def Let_def)
          moreover have "\<not> ?l \<le> Rune1"
            using ok(3) by (simp add: Rune1_def Rune2_def word_le_nat_alt)
          ultimately show ?thesis using ok(3) enc s s1 s2 by (simp add: runetochar_def)
        next
          case bad: False
          with \<open>\<not> a < Tx\<close> False tail assms s s1 s2 show ?thesis
            by (auto simp: chartorune_def Let_def split: if_splits)
        qed
      qed
    next
      case bad: False
      with False assms s s1 show ?thesis by (auto simp: chartorune_def Let_def)
    qed
  qed
qed

lemma chartorune_step: "chartorune s = Some (r, k) \<Longrightarrow> 0 < k \<and> k \<le> 3 \<and> k \<le> length s"
  by (cases s) (auto simp: chartorune_def Let_def split: if_splits elim!: bind_SomeE simp: Suc_le_eq)

text \<open>Before a zero a character never reaches beyond it.\<close>

lemma chartorune_zero:
  assumes "d < length s" "s ! d = 0"
  shows "\<exists>c k. chartorune s = Some (c, k) \<and> 0 < k \<and> k \<le> max 1 d"
proof -
  have z: "(0 :: u8) XOR Tx AND Testx \<noteq> 0" by (simp add: utf_defs)
  have t: "s ! 0 < Tx" if "d = 0" using assms that by (simp add: utf_defs)
  have n: "0 < length s" using assms by auto
  consider "s ! 0 < Tx" | "\<not> s ! 0 < Tx" "d = 1" | "\<not> s ! 0 < Tx" "d = 2" | "\<not> s ! 0 < Tx" "d \<ge> 3"
    using t by (cases d) (auto simp: numeral_eq_Suc, linarith)
  then show ?thesis
  proof cases
    case 1
    then show ?thesis using n by (simp add: chartorune_def)
  next
    case 2
    then show ?thesis using n assms z by (simp add: chartorune_def)
  next
    case 3
    then show ?thesis using n assms z by (simp add: chartorune_def Let_def)
  next
    case 4
    then show ?thesis using n assms by (simp add: chartorune_def Let_def)
  qed
qed

text \<open>An ASCII character is its byte.\<close>

lemma chartorune_small:
  assumes "chartorune s = Some (c, k)" "c < 128"
  shows "s \<noteq> [] \<and> s ! 0 = ucast c \<and> k = 1"
proof -
  have big: "\<not> l \<le> Rune1 \<Longrightarrow> \<not> l < 128" "\<not> l \<le> Rune2 \<Longrightarrow> \<not> l < 128" for l :: rune
    by (simp_all add: utf_defs word_le_nat_alt word_less_nat_alt)
  have e: "\<not> Runeerror < 128" by (simp add: utf_defs)
  have u: "(ucast (ucast b :: rune) :: u8) = b" for b :: u8 by (rule bit_word_eqI) (auto simp: bit_simps)
  show ?thesis using assms big e u unfolding chartorune_def
    by (auto simp: Let_def split: if_splits)
qed

subsection \<open>Lengths and positions\<close>

lemma runetochar_first:
  "hd (runetochar c) < Runeself \<longleftrightarrow> length (runetochar c) = 1"
  "hd (runetochar c) < Runeself \<Longrightarrow> runetochar c = [hd (runetochar c)]"
proof -
  have "\<not> T3 OR ucast (drop_bit 12 c) < Runeself"
    using lead_three [of c] by (simp add: Runeself_def word_less_nat_alt)
  moreover have "c \<le> Rune2 \<Longrightarrow> \<not> T2 OR ucast (drop_bit 6 c) < Runeself"
    using lead_two [of c] by (simp add: Runeself_def word_less_nat_alt)
  moreover have "c \<le> Rune1 \<Longrightarrow> (ucast c :: u8) < Runeself"
    by (simp add: Rune1_def Runeself_def word_le_nat_alt word_less_nat_alt unsigned_ucast_eq
        take_bit_eq_mod unat_mod)
  ultimately show "hd (runetochar c) < Runeself \<longleftrightarrow> length (runetochar c) = 1"
    and "hd (runetochar c) < Runeself \<Longrightarrow> runetochar c = [hd (runetochar c)]"
    by (auto simp: runetochar_def split: if_splits)
qed

lemma fullrune_runetochar:
  assumes "length (runetochar c) \<le> n"
  shows "fullrune (runetochar c @ rest) n = Some True"
proof -
  have "\<not> T3 OR ucast (drop_bit 12 c) < Tx" "\<not> T3 OR ucast (drop_bit 12 c) < T3"
    using lead_three [of c] by (simp_all add: Tx_def T3_def word_less_nat_alt)
  moreover have "c \<le> Rune2 \<Longrightarrow> \<not> T2 OR ucast (drop_bit 6 c) < Tx \<and> T2 OR ucast (drop_bit 6 c) < T3"
    using lead_two [of c] by (simp add: Tx_def T3_def word_less_nat_alt)
  moreover have "c \<le> Rune1 \<Longrightarrow> (ucast c :: u8) < Tx"
    by (simp add: Rune1_def Tx_def word_le_nat_alt word_less_nat_alt unsigned_ucast_eq
        take_bit_eq_mod unat_mod)
  ultimately show ?thesis
    using assms by (auto simp: fullrune_def runetochar_def split: if_splits)
qed

lemma utfnlen_runes:
  "utfnlen (concat (map runetochar cs) @ rest) (int (length (concat (map runetochar cs)))) = Some (length cs)"
proof (induction cs)
  case Nil
  show ?case by (simp add: utfnlen.simps)
next
  case (Cons c cs)
  let ?b = "runetochar c" and ?t = "concat (map runetochar cs)"
  have ne: "?b \<noteq> []" by (rule utf8.enc_nonempty) simp
  have len: "int (length (concat (map runetochar (c # cs)))) = int (length ?b) + int (length ?t)" by simp
  have at: "byte_at (?b @ ?t @ rest) 0 = Some (hd ?b)" using ne by (cases ?b) simp_all
  show ?case
  proof (cases "hd ?b < Runeself")
    case True
    with runetochar_first(2) obtain x where "?b = [x]" by blast
    with True Cons show ?thesis
      by (subst utfnlen.simps) (simp add: at)
  next
    case False
    have "0 < length ?b" using ne by simp
    then have "\<not> int (length ?b) + int (length ?t) \<le> 0" by linarith
    with False show ?thesis
      using Cons chartorune_runetochar [of c "?t @ rest"] fullrune_runetochar [of c _ "?t @ rest"] ne at
      by (subst utfnlen.simps) (simp add: nat_add_distrib)
  qed
qed

lemma utfnshift_runes:
  "utfnshift (concat (map runetochar cs) @ rest) (length cs) = Some rest"
proof (induction cs)
  case (Cons c cs)
  let ?b = "runetochar c" and ?t = "concat (map runetochar cs)"
  have ne: "?b \<noteq> []" by (rule utf8.enc_nonempty) simp
  have at: "byte_at (?b @ ?t @ rest) 0 = Some (hd ?b)" using ne by (cases ?b) simp_all
  show ?case
  proof (cases "hd ?b < Runeself")
    case True
    with runetochar_first(2) obtain x where "?b = [x]" by blast
    with True Cons show ?thesis by simp
  next
    case False
    then show ?thesis
      using Cons chartorune_runetochar [of c "?t @ rest"] at by (simp del: byte_at.simps)
  qed
qed simp

end
