(* ===== verification/Escapes.thy ===== *)
theory Escapes
  imports Utf
begin

text \<open>
  Escape sequences of \<open>v7/v7.c\<close>: \<open>nextesc\<close> of \<open>slre.c\<close> and \<open>unescape\<close> of \<open>string.c\<close>, which turn the
  text of a string literal into its bytes, and \<open>append_hex\<close> and \<open>snquote\<close> of \<open>conversion.c\<close>, which quote
  a string for JSON. A read beyond the bytes given has no result. \<open>char\<close> is signed.
\<close>

subsection \<open>Unescaping\<close>

definition SLRE_INVALID_HEX_DIGIT :: int where "SLRE_INVALID_HEX_DIGIT = 2"
definition SLRE_INVALID_ESC_CHAR :: int where "SLRE_INVALID_ESC_CHAR = 3"
definition SLRE_UNTERM_ESC_SEQ :: int where "SLRE_UNTERM_ESC_SEQ = 4"

definition isxdigit :: "u8 \<Rightarrow> bool" where
  "isxdigit c \<longleftrightarrow> (48 \<le> c \<and> c \<le> 57) \<or> (97 \<le> c \<and> c \<le> 102) \<or> (65 \<le> c \<and> c \<le> 70)"

definition hex :: "u8 \<Rightarrow> int" where
  "hex c =
     (if 48 \<le> c \<and> c \<le> 57 then uint c - 48
      else if 97 \<le> c \<and> c \<le> 102 then uint c - 97 + 10
      else if 65 \<le> c \<and> c \<le> 70 then uint c - 65 + 10
      else - SLRE_INVALID_HEX_DIGIT)"

text \<open>The hexadecimal digits of a sequence, or \<open>[]\<close> at the first byte that is none.\<close>

fun xdigits :: "u8 list \<Rightarrow> nat list \<Rightarrow> int list option" where
  "xdigits s [] = Some []"
| "xdigits s (i # is) =
     do { c \<leftarrow> byte_at s i;
          if isxdigit c then do { xs \<leftarrow> xdigits s is; Some (if is \<noteq> [] \<and> xs = [] then [] else hex c # xs) }
          else Some [] }"

definition nextesc :: "u8 list \<Rightarrow> (int \<times> nat) option" where
  "nextesc s =
     do { c \<leftarrow> byte_at s 0;
          if c = 0 then Some (- SLRE_UNTERM_ESC_SEQ, 1)
          else if c = 99 then Some (uint (c AND 31), 2)
          else if c = 98 then Some (8, 1)
          else if c = 116 then Some (9, 1)
          else if c = 110 then Some (10, 1)
          else if c = 118 then Some (11, 1)
          else if c = 102 then Some (12, 1)
          else if c = 114 then Some (13, 1)
          else if c = 92 then Some (92, 1)
          else if c = 117 then
            do { ds \<leftarrow> xdigits s [1, 2, 3, 4];
                 case ds of
                   [a, b, c, d] \<Rightarrow> Some (push_bit 12 a OR push_bit 8 b OR push_bit 4 c OR d, 5)
                 | _ \<Rightarrow> Some (- SLRE_INVALID_HEX_DIGIT, 1) }
          else if c = 120 then
            do { ds \<leftarrow> xdigits s [1, 2];
                 case ds of
                   [a, b] \<Rightarrow> Some (push_bit 4 a OR b, 3)
                 | _ \<Rightarrow> Some (- SLRE_INVALID_HEX_DIGIT, 1) }
          else Some (- SLRE_INVALID_ESC_CHAR, 1) }"

text \<open>\<open>unescape(s, len, to)\<close>: what is written to \<open>to\<close>; its length is the answer.\<close>

function unescape :: "u8 list \<Rightarrow> int \<Rightarrow> u8 list option" where
  "unescape s len =
     (if len \<le> 0 then Some []
      else
        do { (r, k) \<leftarrow> chartorune s;
             if k = 0 then None
             else
               let s = drop k s; len = len - int k in
               if r = 92 \<and> 0 < len
               then
                 do { c \<leftarrow> byte_at s 0;
                      if c = 34 \<or> c = 39 \<or> c = 10
                      then do { out \<leftarrow> unescape (drop 1 s) (len - 1); Some (runetochar (ucast c) @ out) }
                      else
                        do { (i, j) \<leftarrow> nextesc s;
                             if i = - SLRE_INVALID_ESC_CHAR
                             then
                               do { (r, k) \<leftarrow> chartorune s;
                                    out \<leftarrow> unescape (drop k s) (len - int k);
                                    Some (runetochar 92 @ runetochar r @ out) }
                             else
                               do { out \<leftarrow> unescape (drop j s) (len - int j);
                                    Some (runetochar (of_int i) @ out) } } }
               else do { out \<leftarrow> unescape s len; Some (runetochar r @ out) } })"
  by pat_completeness auto
termination by (relation "measure (\<lambda>(s, len). nat len)") auto

declare unescape.simps [simp del]

subsection \<open>Quoting\<close>

definition hex_digits :: "u8 list" where
  "hex_digits = map of_char ''0123456789abcdef''"

text \<open>\<open>if (buf < limit) *buf++ = c\<close>, with \<open>limit\<close> the number of bytes there is room for.\<close>

definition put :: "int \<Rightarrow> u8 \<Rightarrow> u8 list \<Rightarrow> u8 list" where
  "put limit c buf = (if int (length buf) < limit then buf @ [c] else buf)"

definition append_hex :: "int \<Rightarrow> u8 \<Rightarrow> u8 list \<Rightarrow> u8 list" where
  "append_hex limit c buf =
     put limit (hex_digits ! unat (c AND 0xf))
      (put limit (hex_digits ! (unat (drop_bit 4 c) mod 0xf))
       (put limit 48 (put limit 48 (put limit 117 buf))))"

definition specials :: "u8 list" where
  "specials = map of_char ''btnvfr''"

fun snquote_loop :: "int \<Rightarrow> u8 list \<Rightarrow> nat \<Rightarrow> u8 list \<Rightarrow> u8 list \<times> nat" where
  "snquote_loop limit [] i buf = (buf, i)"
| "snquote_loop limit (c # s) i buf =
     (if c = 34 \<or> c = 92
      then snquote_loop limit s (i + 2) (put limit c (put limit 92 buf))
      else if 8 \<le> sint c \<and> sint c \<le> 13
      then snquote_loop limit s (i + 2) (put limit (specials ! nat (sint c - 8)) (put limit 92 buf))
      else if c < 8 \<or> (13 < sint c \<and> sint c < 32)
      then snquote_loop limit s i (append_hex limit c (put limit 92 buf))
      else snquote_loop limit s (i + 1) (put limit c buf))"

text \<open>What is in the buffer, its terminator included, and the answer (which is an \<open>int\<close>).\<close>

definition snquote :: "nat \<Rightarrow> u8 list \<Rightarrow> u8 list \<times> nat" where
  "snquote n s =
     (let limit = int n - 1; (buf, i) = snquote_loop limit s 1 (put limit 34 []);
          buf = put limit 34 buf
      in (if n \<noteq> 0 then buf @ [0] else buf, i + 1))"

subsection \<open>What quoting writes\<close>

text \<open>The quotation of one byte and of a text, without bounds.\<close>

definition control :: "u8 \<Rightarrow> bool" where
  "control c \<longleftrightarrow> c < 8 \<or> (13 < c \<and> c < 32)"

definition quote_byte :: "u8 \<Rightarrow> u8 list" where
  "quote_byte c =
     (if c = 34 \<or> c = 92 then [92, c]
      else if 8 \<le> c \<and> c \<le> 13 then [92, specials ! (unat c - 8)]
      else if control c then [92, 117, 48, 48, hex_digits ! (unat c div 16), hex_digits ! (unat c mod 16)]
      else [c])"

definition quoted :: "u8 list \<Rightarrow> u8 list" where
  "quoted s = 34 # concat (map quote_byte s) @ [34]"

lemma put_take: "put limit c (take (nat limit) xs) = take (nat limit) (xs @ [c])"
  by (cases "int (length xs) < limit") (auto simp: put_def)

lemma put_bounded: "buf = take (nat limit) xs \<Longrightarrow> put limit c buf = take (nat limit) (xs @ [c])"
  using put_take by simp

lemma below_32: "c < (32 :: u8) \<Longrightarrow> c \<in> of_nat ` {..<32}"
  by (rule image_eqI [where x = "unat c"]) (simp_all add: word_less_nat_alt)

lemma sint_u8: "sint (c :: u8) = (if uint c < 128 then uint c else uint c - 256)"
proof -
  have "sint c = (uint c + 128) mod 256 - 128"
    by (simp add: sint_uint signed_take_bit_eq_take_bit_shift take_bit_eq_mod)
  moreover have "0 \<le> uint c" "uint c < 256" using uint_bounded [of c] by simp_all
  moreover have "(x + 128) mod 256 - 128 = (if x < 128 then x else x - 256)" if "0 \<le> x" "x < 256" for x :: int
    using that mod_add_self2 [of "x - 128" 256] by (auto simp: add.commute)
  ultimately show ?thesis by simp
qed

lemma unat_u8: "unat (c :: u8) < 256"
  using unsigned_less [of c, where ?'a = nat] by simp

lemma signed_tests:
  "8 \<le> sint (c :: u8) \<and> sint c \<le> 13 \<longleftrightarrow> 8 \<le> c \<and> c \<le> 13"
  "13 < sint c \<and> sint c < 32 \<longleftrightarrow> 13 < c \<and> c < 32"
  "8 \<le> c \<and> c \<le> 13 \<Longrightarrow> nat (sint c - 8) = unat c - 8"
  using uint_bounded [of c] by (auto simp: sint_u8 word_le_def word_less_def nat_diff_distrib nat_uint_eq)

lemma nibbles: "unat (drop_bit 4 (c :: u8)) = unat c div 16" "unat (c AND 0xf) = unat c mod 16"
proof -
  show "unat (drop_bit 4 c) = unat c div 16" by (simp add: drop_bit_eq_div unat_div)
  have "(0xf :: u8) = mask 4" by (simp add: mask_eq_exp_minus_1)
  then show "unat (c AND 0xf) = unat c mod 16"
    by (simp only: take_bit_eq_mask [symmetric] unsigned_take_bit_eq) (simp add: take_bit_eq_mod)
qed

lemma control_div: "control c \<Longrightarrow> unat c div 16 mod 15 = unat c div 16"
  by (auto simp: control_def word_less_nat_alt)

lemma quote_byte_length: "6 * length (filter control s) \<le> length (concat (map quote_byte s))"
  by (induction s) (auto simp: quote_byte_def control_def)

lemma snquote_loop_spec:
  "snquote_loop limit s i (take (nat limit) pre) =
     (take (nat limit) (pre @ concat (map quote_byte s)),
      i + length (concat (map quote_byte s)) - 6 * length (filter control s))"
proof (induction s arbitrary: i pre)
  case (Cons c s)
  note len = quote_byte_length [of s]
  consider (esc) "c = 34 \<or> c = 92" | (spec) "c \<noteq> 34" "c \<noteq> 92" "8 \<le> c \<and> c \<le> 13"
    | (ctl) "c \<noteq> 34" "c \<noteq> 92" "\<not> (8 \<le> c \<and> c \<le> 13)" "control c"
    | (plain) "c \<noteq> 34" "c \<noteq> 92" "\<not> (8 \<le> c \<and> c \<le> 13)" "\<not> control c"
    by blast
  then show ?case
  proof cases
    case esc
    then have q: "quote_byte c = [92, c]" "\<not> control c" by (auto simp: quote_byte_def control_def)
    have "snquote_loop limit (c # s) i (take (nat limit) pre)
        = snquote_loop limit s (i + 2) (take (nat limit) (pre @ [92, c]))"
      using esc by (auto simp: put_take simp del: take_append)
    then show ?thesis
      using Cons.IH q len by (simp del: snquote_loop.simps take_append)
  next
    case spec
    then have q: "quote_byte c = [92, specials ! (unat c - 8)]" "\<not> control c"
      by (auto simp: quote_byte_def control_def word_le_nat_alt word_less_nat_alt)
    have "snquote_loop limit (c # s) i (take (nat limit) pre)
        = snquote_loop limit s (i + 2) (take (nat limit) (pre @ [92, specials ! (unat c - 8)]))"
      using spec by (simp add: signed_tests put_take del: take_append)
    then show ?thesis
      using Cons.IH q len by (simp del: snquote_loop.simps take_append)
  next
    case ctl
    then have q: "quote_byte c = [92, 117, 48, 48, hex_digits ! (unat c div 16), hex_digits ! (unat c mod 16)]"
      by (simp add: quote_byte_def)
    have "snquote_loop limit (c # s) i (take (nat limit) pre)
        = snquote_loop limit s i (take (nat limit) (pre @ quote_byte c))"
      using ctl control_div [OF ctl(4)]
      by (auto simp: signed_tests control_def append_hex_def nibbles put_take q simp del: take_append)
    then show ?thesis
      using Cons.IH q len ctl(4) by (simp del: snquote_loop.simps take_append)
  next
    case plain
    then have q: "quote_byte c = [c]" by (auto simp: quote_byte_def)
    have "snquote_loop limit (c # s) i (take (nat limit) pre)
        = snquote_loop limit s (i + 1) (take (nat limit) (pre @ [c]))"
      using plain by (auto simp: signed_tests control_def put_take simp del: take_append)
    then show ?thesis
      using Cons.IH q len plain(4) by (simp del: snquote_loop.simps take_append)
  qed
qed simp

lemma snquote_spec:
  assumes "0 < n"
  shows "snquote n s = (take (n - 1) (quoted s) @ [0], length (quoted s) - 6 * length (filter control s))"
proof -
  have n: "n - 1 = nat (int n - 1)" using assms by simp
  have start: "put (int n - 1) 34 [] = take (nat (int n - 1)) [34]"
    using put_take [of "int n - 1" 34 "[]"] by simp
  show ?thesis
    using assms quote_byte_length [of s] unfolding n
    by (simp add: snquote_def start snquote_loop_spec put_take quoted_def Let_def del: take_append)
qed

subsection \<open>Unescaping what was quoted\<close>

lemma byte_at_Cons: "byte_at (c # s) 0 = Some c" "byte_at (c # s) (Suc i) = byte_at s i"
  by simp_all

lemma chartorune_ascii: "c < 128 \<Longrightarrow> chartorune (c # s) = Some (ucast c, 1)"
  by (simp add: chartorune_def utf_defs)

lemma runetochar_ascii:
  assumes "c < (128 :: u8)"
  shows "runetochar (ucast c) = [c]"
proof -
  have "unat (ucast c :: u16) = unat c"
    using unat_u8 [of c] by (simp add: unsigned_ucast_eq take_bit_eq_mod)
  then have "(ucast c :: u16) \<le> Rune1" using assms by (simp add: Rune1_def word_le_nat_alt word_less_nat_alt)
  moreover have "(ucast (ucast c :: u16) :: u8) = c"
    by (rule bit_word_eqI) (auto simp: bit_simps)
  ultimately show ?thesis by (simp add: runetochar_def)
qed

lemma ascii_rune: "c < (128 :: u8) \<Longrightarrow> (ucast c :: u16) = 92 \<longleftrightarrow> c = 92"
  using runetochar_ascii [of c] runetochar_ascii [of 92] by auto

lemma map_option_bind: "map_option f x = do { y \<leftarrow> x; Some (f y) }"
  by (cases x) simp_all

lemma unescape_rune:
  assumes "r \<noteq> 92" "0 \<le> n"
  shows "unescape (runetochar r @ s) (int (length (runetochar r)) + n)
    = map_option (\<lambda>out. runetochar r @ out) (unescape s n)"
proof -
  have k: "\<not> int (length (runetochar r)) + n \<le> 0" "runetochar r \<noteq> []"
    using assms(2) by (simp_all add: runetochar_def)
  have "unescape (runetochar r @ s) (int (length (runetochar r)) + n)
      = do { out \<leftarrow> unescape s n; Some (runetochar r @ out) }"
    using assms k by (subst unescape.simps) (simp add: chartorune_runetochar)
  then show ?thesis by (cases "unescape s n") simp_all
qed

lemma unescape_backslash:
  assumes "1 < len"
  shows "unescape (92 # c # s) len =
     (if c = 34 \<or> c = 39 \<or> c = 10 then do { out \<leftarrow> unescape s (len - 2); Some (runetochar (ucast c) @ out) }
      else do { (i, j) \<leftarrow> nextesc (c # s);
                if i = - 3 then do { (r, k) \<leftarrow> chartorune (c # s);
                                     out \<leftarrow> unescape (drop k (c # s)) (len - 1 - int k);
                                     Some (runetochar 92 @ runetochar r @ out) }
                else do { out \<leftarrow> unescape (drop j (c # s)) (len - 1 - int j); Some (runetochar (of_int i) @ out) } })"
proof -
  have c: "chartorune (92 # c # s) = Some (92, 1)" by (simp add: chartorune_ascii)
  show ?thesis
    using assms
    by (subst unescape.simps) (simp add: c Let_def SLRE_INVALID_ESC_CHAR_def)
qed

lemma below_32_cases:
  assumes "c < (32 :: u8)"
  shows "c \<in> set (map of_nat [0..<32])"
  using below_32 [OF assms] by (simp only: set_map set_upt atLeast0LessThan)

lemma escape_low:
  "\<forall>c \<in> set (map of_nat [0..<32]). \<exists>i. nextesc (tl (quote_byte c) @ s) = Some (i, length (quote_byte c) - 1)
     \<and> i \<noteq> - 3 \<and> runetochar (of_int i) = [c] \<and> (\<exists>d ds. quote_byte c = 92 # d # ds \<and> d \<noteq> 34 \<and> d \<noteq> 39 \<and> d \<noteq> 10)"
  by (simp add: upt_rec quote_byte_def control_def hex_digits_def specials_def nextesc_def isxdigit_def hex_def
      runetochar_def utf_defs) (simp add: word_le_nat_alt)

lemma unescape_quote_byte:
  assumes "c < 128" "0 \<le> n"
  shows "unescape (quote_byte c @ s) (int (length (quote_byte c)) + n) = map_option (\<lambda>out. c # out) (unescape s n)"
proof -
  consider (low) "c < 32" | (quote) "c = 34" | (backslash) "c = 92" | (plain) "\<not> c < 32" "c \<noteq> 34" "c \<noteq> 92"
    by blast
  then show ?thesis
  proof cases
    case low
    then obtain i where i: "nextesc (tl (quote_byte c) @ s) = Some (i, length (quote_byte c) - 1)"
        "i \<noteq> - 3" "runetochar (of_int i) = [c]"
      and q: "\<exists>d ds. quote_byte c = 92 # d # ds \<and> d \<noteq> 34 \<and> d \<noteq> 39 \<and> d \<noteq> 10"
      using escape_low [of s] below_32_cases by blast
    from q obtain d ds where q: "quote_byte c = 92 # d # ds" "d \<noteq> 34" "d \<noteq> 39" "d \<noteq> 10"
      by blast
    have len: "1 < 2 + int (length ds) + n" using assms(2) by simp
    show ?thesis
      using i q by (simp add: unescape_backslash [OF len] map_option_bind)
  next
    case quote
    have "quote_byte 34 = [92, 34]" by (simp add: quote_byte_def)
    moreover have "unescape (92 # 34 # s) (2 + n) = map_option (\<lambda>out. 34 # out) (unescape s n)"
      using assms(2) runetochar_ascii [of 34] by (simp add: unescape_backslash map_option_bind)
    ultimately show ?thesis using quote by simp
  next
    case backslash
    have "quote_byte 92 = [92, 92]" "nextesc (92 # s) = Some (92, 1)"
      by (simp_all add: quote_byte_def nextesc_def)
    moreover have "unescape (92 # 92 # s) (2 + n) = map_option (\<lambda>out. 92 # out) (unescape s n)"
      using assms(2) runetochar_ascii [of 92] calculation(2) by (simp add: unescape_backslash map_option_bind)
    ultimately show ?thesis using backslash by simp
  next
    case plain
    then have "quote_byte c = [c]" "runetochar (ucast c) = [c]" "(ucast c :: u16) \<noteq> 92"
      using assms(1) runetochar_ascii ascii_rune
      by (auto simp: quote_byte_def control_def word_le_nat_alt word_less_nat_alt)
    then show ?thesis
      using unescape_rune [of "ucast c" n s] assms(2) by simp
  qed
qed

lemma high_bytes:
  assumes "\<not> hd (runetochar r) < 128" "b \<in> set (runetochar r)"
  shows "quote_byte b = [b]"
proof -
  have "128 \<le> b"
  proof (cases "r \<le> Rune1")
    case True
    with assms show ?thesis by (simp add: runetochar_def)
  next
    case False
    have "128 \<le> T2" "128 \<le> T3" "128 \<le> Tx" by (simp_all add: T2_def T3_def Tx_def)
    then have high: "128 \<le> T2 OR x" "128 \<le> T3 OR x" "128 \<le> Tx OR x" for x
      by (blast intro: order_trans [OF _ le_word_or2])+
    have "(\<exists>x. b = T2 OR x) \<or> (\<exists>x. b = T3 OR x) \<or> (\<exists>x. b = Tx OR x)"
      using False assms(2) unfolding runetochar_def by (cases "r \<le> Rune2") fastforce+
    with high show ?thesis by blast
  qed
  then show ?thesis by (auto simp: quote_byte_def control_def word_le_nat_alt word_less_nat_alt)
qed

lemma quoted_rune:
  assumes "0 \<le> n"
  shows "unescape (concat (map quote_byte (runetochar r)) @ s) (int (length (concat (map quote_byte (runetochar r)))) + n)
    = map_option (\<lambda>out. runetochar r @ out) (unescape s n)"
proof (cases "hd (runetochar r) < 128")
  case True
  then obtain c where c: "runetochar r = [c]" "c < 128"
    using runetochar_first(2) [of r] by (auto simp: Runeself_def)
  then show ?thesis using unescape_quote_byte [OF c(2) assms, of s] by simp
next
  case False
  have "concat (map quote_byte xs) = xs" if "\<forall>b \<in> set xs. quote_byte b = [b]" for xs
    using that by (induction xs) simp_all
  with high_bytes [OF False] have "concat (map quote_byte (runetochar r)) = runetochar r" by blast
  moreover have "r \<noteq> 92" using False by (auto simp: runetochar_def utf_defs)
  ultimately show ?thesis using unescape_rune assms by simp
qed

text \<open>Reading back the quotation of a text.\<close>

lemma unescape_quoted:
  "unescape (concat (map quote_byte (concat (map runetochar rs))) @ rest)
      (int (length (concat (map quote_byte (concat (map runetochar rs)))))) = Some (concat (map runetochar rs))"
proof (induction rs)
  case Nil
  show ?case by (simp add: unescape.simps)
next
  case (Cons r rs)
  let ?t = "concat (map quote_byte (concat (map runetochar rs)))"
  show ?case
    using quoted_rune [of "int (length ?t)" r "?t @ rest"] Cons by simp
qed

subsection \<open>Escapes of control letters and bad digits\<close>

text \<open>\<open>\\c\<close> with any letter is the byte 3.\<close>

lemma nextesc_control: "nextesc (99 # x # s) = Some (3, 2)"
  by (simp add: nextesc_def)

end
