(* ===== verification/Mbuf.thy ===== *)
theory Mbuf
  imports Prelude
begin

text \<open>
  Memory buffers of \<open>v7/v7.c\<close> (\<open>common/mbuf.c\<close>): a growing byte buffer with \<open>len\<close> bytes of data in
  \<open>size\<close> allocated bytes. \<open>mb_data\<close> is the whole allocation. \<open>realloc\<close> is an oracle: the address it
  answers for an old address and a size (0 when it fails) and what new bytes hold. A failed assertion
  has no result. The product with 1.5 is taken exactly, as the double is below \<open>2 ^ 52\<close>.
\<close>

record mbuf =
  mb_addr :: u64
  mb_data :: "u8 list"
  mb_len :: u64
  mb_size :: u64

record allocator =
  new_addr :: "u64 \<Rightarrow> u64 \<Rightarrow> u64"
  undef :: "nat \<Rightarrow> u8"

definition realloc_data :: "allocator \<Rightarrow> nat \<Rightarrow> u8 list \<Rightarrow> u8 list" where
  "realloc_data A n bs = take n bs @ map (undef A) [length bs..<n]"

definition overwrite :: "nat \<Rightarrow> u8 list \<Rightarrow> u8 list \<Rightarrow> u8 list" where
  "overwrite off bs xs = take off xs @ bs @ drop (off + length bs) xs"

definition times_1_5 :: "u64 \<Rightarrow> u64" where
  "times_1_5 n = of_nat (unat n * 3 div 2)"

definition mbuf_resize :: "allocator \<Rightarrow> mbuf \<Rightarrow> u64 \<Rightarrow> mbuf" where
  "mbuf_resize A a new_size =
     (if new_size > mb_size a \<or> (new_size < mb_size a \<and> new_size \<ge> mb_len a)
      then
        let buf = new_addr A (mb_addr a) new_size in
        if buf = 0 \<and> new_size \<noteq> 0 then a
        else a\<lparr>mb_addr := buf, mb_data := realloc_data A (unat new_size) (mb_data a), mb_size := new_size\<rparr>
      else a)"

definition mbuf_init :: "allocator \<Rightarrow> u64 \<Rightarrow> mbuf" where
  "mbuf_init A initial_size =
     mbuf_resize A \<lparr>mb_addr = 0, mb_data = [], mb_len = 0, mb_size = 0\<rparr> initial_size"

definition mbuf_free :: "allocator \<Rightarrow> mbuf \<Rightarrow> mbuf" where
  "mbuf_free A m = (if mb_addr m \<noteq> 0 then mbuf_init A 0 else m)"

definition mbuf_trim :: "allocator \<Rightarrow> mbuf \<Rightarrow> mbuf" where
  "mbuf_trim A m = mbuf_resize A m (mb_len m)"

text \<open>Moving the tail and copying the new bytes, which both branches of \<open>mbuf_insert\<close> do.\<close>

definition insert_data :: "nat \<Rightarrow> nat \<Rightarrow> u8 list option \<Rightarrow> nat \<Rightarrow> u8 list \<Rightarrow> u8 list" where
  "insert_data off n buf alen xs =
     (let ys = overwrite (off + n) (take (alen - off) (drop off xs)) xs
      in case buf of None \<Rightarrow> ys | Some bs \<Rightarrow> overwrite off (take n bs) ys)"

definition mbuf_insert :: "allocator \<Rightarrow> mbuf \<Rightarrow> u64 \<Rightarrow> u8 list option \<Rightarrow> u64 \<Rightarrow> (u64 \<times> mbuf) option" where
  "mbuf_insert A a off buf len =
     (if \<not> (mb_len a \<le> mb_size a \<and> off \<le> mb_len a) then None
      else if - 1 - mb_addr a < len then Some (0, a)
      else if mb_len a + len \<le> mb_size a
      then Some (len, a\<lparr>mb_data := insert_data (unat off) (unat len) buf (unat (mb_len a)) (mb_data a),
                        mb_len := mb_len a + len\<rparr>)
      else
        let n = times_1_5 (mb_len a + len); p = new_addr A (mb_addr a) n in
        if p \<noteq> 0
        then Some (len, \<lparr>mb_addr = p,
               mb_data = insert_data (unat off) (unat len) buf (unat (mb_len a)) (realloc_data A (unat n) (mb_data a)),
               mb_len = mb_len a + len, mb_size = times_1_5 (mb_len a + len)\<rparr>)
        else Some (0, a))"

definition mbuf_append :: "allocator \<Rightarrow> mbuf \<Rightarrow> u8 list option \<Rightarrow> u64 \<Rightarrow> (u64 \<times> mbuf) option" where
  "mbuf_append A a buf len = mbuf_insert A a (mb_len a) buf len"

definition mbuf_remove :: "mbuf \<Rightarrow> u64 \<Rightarrow> mbuf" where
  "mbuf_remove mb n =
     (if n > 0 \<and> n \<le> mb_len mb
      then mb\<lparr>mb_data := overwrite 0 (take (unat (mb_len mb - n)) (drop (unat n) (mb_data mb))) (mb_data mb),
              mb_len := mb_len mb - n\<rparr>
      else mb)"

subsection \<open>A buffer is its data\<close>

definition mbuf_ok :: "mbuf \<Rightarrow> bool" where
  "mbuf_ok m \<longleftrightarrow> mb_len m \<le> mb_size m \<and> length (mb_data m) = unat (mb_size m)"

definition content :: "mbuf \<Rightarrow> u8 list" where
  "content m = take (unat (mb_len m)) (mb_data m)"

lemma length_content [simp]: "mbuf_ok m \<Longrightarrow> length (content m) = unat (mb_len m)"
  by (simp add: mbuf_ok_def content_def word_le_nat_alt)

lemma length_realloc_data [simp]: "length (realloc_data A n bs) = n"
  by (simp add: realloc_data_def)

lemma take_realloc_data: "k \<le> n \<Longrightarrow> k \<le> length bs \<Longrightarrow> take k (realloc_data A n bs) = take k bs"
  by (simp add: realloc_data_def)

lemma length_overwrite: "off + length bs \<le> length xs \<Longrightarrow> length (overwrite off bs xs) = length xs"
  by (simp add: overwrite_def)

lemma mbuf_resize_spec:
  assumes "mbuf_ok m"
  shows "mbuf_ok (mbuf_resize A m n) \<and> content (mbuf_resize A m n) = content m
     \<and> mb_len (mbuf_resize A m n) = mb_len m"
  using assms
  by (auto simp: mbuf_resize_def mbuf_ok_def content_def Let_def take_realloc_data word_le_nat_alt
      word_less_nat_alt)

lemma mbuf_init_spec: "mbuf_ok (mbuf_init A n)" "content (mbuf_init A n) = []"
  using mbuf_resize_spec [of "\<lparr>mb_addr = 0, mb_data = [], mb_len = 0, mb_size = 0\<rparr>" A n]
  by (simp_all add: mbuf_init_def mbuf_ok_def content_def)

lemma insert_data_spec:
  assumes "off \<le> alen" "alen + n \<le> length xs" "length bs = n"
  shows "length (insert_data off n (Some bs) alen xs) = length xs"
    and "take (alen + n) (insert_data off n (Some bs) alen xs)
       = take off xs @ bs @ drop off (take alen xs)"
proof -
  let ?ys = "overwrite (off + n) (take (alen - off) (drop off xs)) xs"
  have len: "length ?ys = length xs" using assms by (intro length_overwrite) simp
  show "length (insert_data off n (Some bs) alen xs) = length xs"
    using assms len by (simp add: insert_data_def length_overwrite)
  have "take (alen + n) ?ys = take (off + n) xs @ drop off (take alen xs)"
    using assms by (simp add: overwrite_def drop_take)
  moreover have "insert_data off n (Some bs) alen xs = take off ?ys @ bs @ drop (off + n) ?ys"
    using assms by (simp add: insert_data_def overwrite_def)
  moreover have "take off ?ys = take off xs" using assms by (simp add: overwrite_def)
  moreover have "take (alen - off) (drop (off + n) ?ys) = drop off (take alen xs)"
    using assms by (simp add: overwrite_def drop_take)
  ultimately show "take (alen + n) (insert_data off n (Some bs) alen xs)
       = take off xs @ bs @ drop off (take alen xs)"
  proof -
    obtain k where "alen = off + k" using assms(1) by (auto simp: le_iff_add)
    with \<open>take (alen + n) ?ys = _\<close> show ?thesis
      using assms \<open>insert_data off n (Some bs) alen xs = _\<close> \<open>take off ?ys = _\<close> \<open>take (alen - off) _ = _\<close>
      by simp
  qed
qed

lemma unat_small_add:
  assumes "unat (a :: u64) < 2 ^ 52" "unat (b :: u64) < 2 ^ 52"
  shows "unat (a + b) = unat a + unat b" "unat (times_1_5 (a + b)) = (unat a + unat b) * 3 div 2"
proof -
  show "unat (a + b) = unat a + unat b" using assms by (simp add: unat_word_ariths)
  with assms show "unat (times_1_5 (a + b)) = (unat a + unat b) * 3 div 2"
    by (simp add: times_1_5_def unat_of_nat)
qed

text \<open>Inserting either inserts all bytes, or changes nothing and answers 0.\<close>

lemma mbuf_insert_spec:
  assumes ok: "mbuf_ok m" and off: "off \<le> mb_len m" and bs: "length bs = unat n"
    and small: "unat (mb_len m) < 2 ^ 52" "unat n < 2 ^ 52"
  obtains r m' where "mbuf_insert A m off (Some bs) n = Some (r, m')"
    "(r = n \<and> mbuf_ok m' \<and> mb_len m' = mb_len m + n \<and>
      content m' = take (unat off) (content m) @ bs @ drop (unat off) (content m)) \<or> (r = 0 \<and> m' = m)"
proof -
  have le: "mb_len m \<le> mb_size m" "length (mb_data m) = unat (mb_size m)" "unat off \<le> unat (mb_len m)"
    using ok off by (simp_all add: mbuf_ok_def word_le_nat_alt)
  note add = unat_small_add [OF small]
  have off_content: "take (unat off) (content m) = take (unat off) (mb_data m)"
    using le(3) by (simp add: content_def min_def)
  consider (full) "- 1 - mb_addr m < n" | (fits) "\<not> - 1 - mb_addr m < n" "mb_len m + n \<le> mb_size m"
    | (fail) "\<not> - 1 - mb_addr m < n" "\<not> mb_len m + n \<le> mb_size m"
        "new_addr A (mb_addr m) (times_1_5 (mb_len m + n)) = 0"
    | (grow) "\<not> - 1 - mb_addr m < n" "\<not> mb_len m + n \<le> mb_size m"
        "new_addr A (mb_addr m) (times_1_5 (mb_len m + n)) \<noteq> 0"
    by blast
  then show thesis
  proof cases
    case full
    with le off show thesis by (intro that [of 0 m]) (simp_all add: mbuf_insert_def)
  next
    case fits
    let ?m = "m\<lparr>mb_data := insert_data (unat off) (unat n) (Some bs) (unat (mb_len m)) (mb_data m),
                mb_len := mb_len m + n\<rparr>"
    have "unat (mb_len m) + unat n \<le> length (mb_data m)"
      using fits(2) le(2) add(1) by (simp add: word_le_nat_alt)
    note ins = insert_data_spec [OF le(3) this bs]
    have "mbuf_ok ?m" using ins(1) le fits(2) by (simp add: mbuf_ok_def)
    moreover have "content ?m = take (unat off) (content m) @ bs @ drop (unat off) (content m)"
      using ins(2) add(1) off_content by (simp add: content_def)
    ultimately show thesis
      using fits le off by (intro that [of n ?m]) (simp_all add: mbuf_insert_def)
  next
    case fail
    with le off show thesis by (intro that [of 0 m]) (simp_all add: mbuf_insert_def Let_def)
  next
    case grow
    let ?n = "times_1_5 (mb_len m + n)"
    let ?d = "realloc_data A (unat ?n) (mb_data m)"
    let ?m = "\<lparr>mb_addr = new_addr A (mb_addr m) ?n,
               mb_data = insert_data (unat off) (unat n) (Some bs) (unat (mb_len m)) ?d,
               mb_len = mb_len m + n, mb_size = ?n\<rparr>"
    have fit: "unat (mb_len m) + unat n \<le> length ?d" using add(2) by simp
    note ins = insert_data_spec [OF le(3) fit bs]
    have len: "unat (mb_len m) \<le> length (mb_data m)" using le(1,2) by (simp add: word_le_nat_alt)
    have d: "take (unat off) ?d = take (unat off) (mb_data m)"
        "take (unat (mb_len m)) ?d = take (unat (mb_len m)) (mb_data m)"
      using fit len le(3) by (simp_all add: take_realloc_data)
    have "mbuf_ok ?m" using ins(1) add by (simp add: mbuf_ok_def word_le_nat_alt)
    moreover have "content ?m = take (unat off) (content m) @ bs @ drop (unat off) (content m)"
      using ins(2) add(1) off_content d by (simp add: content_def)
    ultimately show thesis
      using grow le off by (intro that [of n ?m]) (simp_all add: mbuf_insert_def Let_def)
  qed
qed

lemma mbuf_append_spec:
  assumes ok: "mbuf_ok m" and bs: "length bs = unat n" and small: "unat (mb_len m) < 2 ^ 52" "unat n < 2 ^ 52"
  obtains r m' where "mbuf_append A m (Some bs) n = Some (r, m')"
    "(r = n \<and> mbuf_ok m' \<and> mb_len m' = mb_len m + n \<and> content m' = content m @ bs) \<or> (r = 0 \<and> m' = m)"
proof -
  obtain r m' where "mbuf_insert A m (mb_len m) (Some bs) n = Some (r, m')"
    "(r = n \<and> mbuf_ok m' \<and> mb_len m' = mb_len m + n \<and>
      content m' = take (unat (mb_len m)) (content m) @ bs @ drop (unat (mb_len m)) (content m)) \<or> (r = 0 \<and> m' = m)"
    by (rule mbuf_insert_spec [OF ok order_refl bs small])
  then show thesis using ok by (intro that [of r m']) (auto simp: mbuf_append_def)
qed

lemma mbuf_remove_spec:
  assumes "mbuf_ok m" "n \<le> mb_len m"
  shows "mbuf_ok (mbuf_remove m n)" "content (mbuf_remove m n) = drop (unat n) (content m)"
proof -
  have le: "unat n \<le> unat (mb_len m)" "unat (mb_len m) \<le> length (mb_data m)"
      "unat (mb_len m - n) = unat (mb_len m) - unat n" "mb_len m - n \<le> mb_size m"
    using assms by (auto simp: mbuf_ok_def word_le_nat_alt unat_sub)
  show "mbuf_ok (mbuf_remove m n)"
    using assms le by (simp add: mbuf_remove_def mbuf_ok_def overwrite_def)
  show "content (mbuf_remove m n) = drop (unat n) (content m)"
    using assms le by (auto simp: mbuf_remove_def content_def overwrite_def drop_take min_def word_gt_0)
qed

end
