(* ===== verification/Strings.thy ===== *)
theory Strings
  imports Values Dictionary Escapes Varint Mbuf
begin

text \<open>
  The strings of \<open>string.c\<close> and \<open>gc.c\<close> (\<open>v7/v7.c\<close>): up to five bytes lie in the value itself, dictionary
  strings are an index, owned strings lie in the buffer \<open>owned_strings\<close> and foreign strings are a
  pointer in \<open>foreign_strings\<close>. The platform has 64-bit little-endian pointers, so the compact foreign
  strings of 32-bit platforms do not exist. A \<open>char*\<close> is an address or points to bytes that stay where
  they are (a value, a constant): then it is the bytes from there on. Memory outside the buffer of
  owned strings is a function that knows no byte of memory that is not allocated; a read there, a
  write beyond a buffer, a failed assertion and \<open>abort\<close> have no result.
\<close>

record v7 =
  owned_strings :: mbuf
  foreign_strings :: mbuf
  owned_values :: mbuf
  need_gc :: bool
  gc_next_asn :: u16
  gc_min_asn :: u16

type_synonym memory = "u64 \<Rightarrow> u8 option"

datatype char_ptr = Static "u8 list" | Address u64

definition NULL :: char_ptr where "NULL = Address 0"

fun advance :: "char_ptr \<Rightarrow> nat \<Rightarrow> char_ptr" where
  "advance (Static bs) n = Static (drop n bs)"
| "advance (Address a) n = Address (a + of_nat n)"

definition in_buffer :: "mbuf \<Rightarrow> u64 \<Rightarrow> bool" where
  "in_buffer m a \<longleftrightarrow> mb_addr m \<le> a \<and> a - mb_addr m < mb_size m"

definition peek :: "memory \<Rightarrow> mbuf \<Rightarrow> u64 \<Rightarrow> u8 option" where
  "peek M m a = (if in_buffer m a then Some (mb_data m ! unat (a - mb_addr m)) else M a)"

fun peeks :: "memory \<Rightarrow> mbuf \<Rightarrow> u64 \<Rightarrow> nat \<Rightarrow> u8 list option" where
  "peeks M m a 0 = Some []"
| "peeks M m a (Suc n) = do { b \<leftarrow> peek M m a; bs \<leftarrow> peeks M m (a + 1) n; Some (b # bs) }"

fun fetch :: "memory \<Rightarrow> mbuf \<Rightarrow> char_ptr \<Rightarrow> nat \<Rightarrow> u8 list option" where
  "fetch M m (Static bs) n = (if n \<le> length bs then Some (take n bs) else None)"
| "fetch M m (Address a) n = peeks M m a n"

partial_function (option) strlen_at :: "memory \<Rightarrow> mbuf \<Rightarrow> u64 \<Rightarrow> nat option" where
  "strlen_at M m a = do { b \<leftarrow> peek M m a; if b = 0 then Some 0 else do { n \<leftarrow> strlen_at M m (a + 1); Some (Suc n) } }"

fun c_strlen :: "memory \<Rightarrow> mbuf \<Rightarrow> char_ptr \<Rightarrow> nat option" where
  "c_strlen M m (Static bs) = (if 0 \<in> set bs then Some (length (takeWhile (\<lambda>b. b \<noteq> 0) bs)) else None)"
| "c_strlen M m (Address a) = strlen_at M m a"

text \<open>\<open>memcpy\<close> to an offset of a buffer.\<close>

definition store :: "nat \<Rightarrow> u8 list \<Rightarrow> mbuf \<Rightarrow> mbuf option" where
  "store off bs m =
     (if off + length bs \<le> length (mb_data m) then Some (m\<lparr>mb_data := overwrite off bs (mb_data m)\<rparr>) else None)"

subsection \<open>Allocation sequence numbers\<close>

definition next_asn :: "v7 \<Rightarrow> u16 \<times> v7" where
  "next_asn v =
     (if gc_next_asn v = 0xFFFF then (0xFFFF, v\<lparr>gc_next_asn := 0\<rparr>)
      else (gc_next_asn v, v\<lparr>gc_next_asn := gc_next_asn v + 1\<rparr>))"

definition gc_next_allocation_seqn :: "v7 \<Rightarrow> u16 \<times> v7" where
  "gc_next_allocation_seqn v = next_asn v"

definition gc_is_valid_allocation_seqn :: "v7 \<Rightarrow> u16 \<Rightarrow> bool" where
  "gc_is_valid_allocation_seqn v n \<longleftrightarrow>
     (n \<ge> gc_min_asn v \<and> n < gc_next_asn v) \<or>
     (gc_min_asn v > gc_next_asn v \<and> (n \<ge> gc_min_asn v \<or> n < gc_next_asn v))"

definition gc_check_valid_allocation_seqn :: "v7 \<Rightarrow> u16 \<Rightarrow> unit option" where
  "gc_check_valid_allocation_seqn v n = (if gc_is_valid_allocation_seqn v n then Some () else None)"

definition gc_string_val_to_offset :: "val_t \<Rightarrow> u64" where
  "gc_string_val_to_offset v = v7_to_pointer v AND NOT V7_TAG_MASK AND 0xFFFFFFFF"

definition gc_string_val_from_offset :: "u64 \<Rightarrow> val_t" where
  "gc_string_val_from_offset s = s OR V7_TAG_STRING_O"

text \<open>The double quotient is compared with 0.9: exact for lengths below \<open>2 ^ 40\<close>.\<close>

definition compute_need_gc :: "v7 \<Rightarrow> v7" where
  "compute_need_gc v =
     (if 10 * unat (mb_len (owned_strings v)) > 9 * unat (mb_size (owned_strings v))
      then v\<lparr>need_gc := True\<rparr> else v)"

subsection \<open>Creating strings\<close>

text \<open>
  \<open>embed_string\<close> ignores the result of \<open>mbuf_insert\<close>. Its \<open>flags\<close> are two truth values. The text of
  \<open>unescape\<close> is read up to its end only.
\<close>

definition embed_string ::
  "memory \<Rightarrow> allocator \<Rightarrow> mbuf \<Rightarrow> u64 \<Rightarrow> char_ptr \<Rightarrow> u64 \<Rightarrow> bool \<Rightarrow> bool \<Rightarrow> mbuf option" where
  "embed_string M A m offset p len zero_term unesc =
     do { let backed = (case p of Address a \<Rightarrow> mb_addr m \<le> a \<and> a < mb_addr m + mb_len m | Static _ \<Rightarrow> False);
          n \<leftarrow> (if unesc then do { bs \<leftarrow> fetch M m p (unat len); out \<leftarrow> unescape bs (int (unat len));
                                 Some (of_nat (length out)) }
               else Some len);
          lenbytes \<leftarrow> encode_varint n;
          let k = length lenbytes;
          let tot_len = of_nat k + n + (if zero_term then 1 else 0);
          (r, m') \<leftarrow> mbuf_insert A m offset None tot_len;
          let p = (case p of Address a \<Rightarrow> if backed then Address (a + mb_addr m' - mb_addr m) else p | Static _ \<Rightarrow> p);
          m1 \<leftarrow> store (unat offset) lenbytes m';
          m2 \<leftarrow> (if p = NULL then Some m1
                else do { bs \<leftarrow> fetch M m1 p (unat len);
                          out \<leftarrow> (if unesc then unescape bs (int (unat len)) else Some bs);
                          store (unat offset + k) out m1 });
          if zero_term then store (unat (offset + tot_len - 1)) [0] m2 else Some m2 }"

definition V7_STRING_BUF_RESERVE :: u64 where "V7_STRING_BUF_RESERVE = 500"

definition inline_payload :: "u8 list \<Rightarrow> u64" where
  "inline_payload bs = of_nat (le_val bs)"

text \<open>\<open>fetch\<close> of no bytes through a null pointer: the bytes of \<open>offset\<close> stay 0.\<close>

definition v7_mk_string ::
  "memory \<Rightarrow> allocator \<Rightarrow> char_ptr \<Rightarrow> u64 \<Rightarrow> bool \<Rightarrow> v7 \<Rightarrow> (val_t \<times> v7) option" where
  "v7_mk_string M A p len copy v =
     do { len \<leftarrow> (if len = - 1 then map_option of_nat (c_strlen M (owned_strings v) p) else Some len);
          if len \<le> 4 then
            do { bs \<leftarrow> (if p \<noteq> NULL then fetch M (owned_strings v) p (unat len) else Some (replicate (unat len) 0));
                 Some (inline_payload (ucast len # bs) AND NOT V7_TAG_MASK OR V7_TAG_STRING_I, v) }
          else if len = 5 then
            do { bs \<leftarrow> (if p \<noteq> NULL then fetch M (owned_strings v) p 5 else Some (replicate 5 0));
                 Some (inline_payload bs AND NOT V7_TAG_MASK OR V7_TAG_STRING_5, v) }
          else
            do { text \<leftarrow> (if p \<noteq> NULL then map_option Some (fetch M (owned_strings v) p (unat len)) else Some None);
                 case v_find_string_in_dictionary text of
                   Some dict_index \<Rightarrow>
                     Some (inline_payload [of_nat dict_index] AND NOT V7_TAG_MASK OR V7_TAG_STRING_D, v)
                 | None \<Rightarrow>
                     if copy then
                       do { let offset = mb_len (owned_strings v);
                            let v = compute_need_gc v;
                            let m = owned_strings v;
                            let m = (if mb_len m + len > mb_size m
                                     then mbuf_resize A m (mb_len m + len + V7_STRING_BUF_RESERVE) else m);
                            m \<leftarrow> embed_string M A m (mb_len m) p len True False;
                            let (asn, v) = gc_next_allocation_seqn (v\<lparr>owned_strings := m\<rparr>);
                            Some ((offset OR push_bit 32 (ucast asn)) AND NOT V7_TAG_MASK OR V7_TAG_STRING_O, v) }
                     else
                       do { let offset = mb_len (foreign_strings v);
                            let m = foreign_strings v;
                            lenbytes \<leftarrow> encode_varint len;
                            a \<leftarrow> (case p of Address a \<Rightarrow> Some a | Static _ \<Rightarrow> None);
                            (r, m) \<leftarrow> mbuf_insert A m offset None (of_nat (length lenbytes) + 8);
                            m \<leftarrow> store (unat offset) lenbytes m;
                            m \<leftarrow> store (unat offset + length lenbytes) (ptr_key a) m;
                            Some (offset AND NOT V7_TAG_MASK OR V7_TAG_STRING_F, v\<lparr>foreign_strings := m\<rparr>) } } }"

subsection \<open>Reading strings\<close>

text \<open>The pointer and the length: \<open>GET_VAL_NAN_PAYLOAD\<close> is a pointer to the eight bytes of the value.\<close>

definition v7_get_string_data :: "v7 \<Rightarrow> val_t \<Rightarrow> (char_ptr \<times> u64) option" where
  "v7_get_string_data v x =
     (let tag = x AND V7_TAG_MASK; bytes = le_bytes 8 (unat x) in
      if \<not> v7_is_string x then None
      else if tag = V7_TAG_STRING_I then Some (Static (drop 1 bytes), scast (hd bytes))
      else if tag = V7_TAG_STRING_5 then Some (Static bytes, 5)
      else if tag = V7_TAG_STRING_D then
        (let index = unat (hd bytes) in
         if index < length v_dictionary_strings
         then Some (Static (v_dictionary_strings ! index @ [0]), of_nat (length (v_dictionary_strings ! index)))
         else None)
      else if tag = V7_TAG_STRING_O then
        do { let offset = gc_string_val_to_offset x;
             _ \<leftarrow> gc_check_valid_allocation_seqn v (ucast (drop_bit 32 x AND 0xFFFF));
             (size, llen) \<leftarrow> decode_varint (drop (unat offset) (mb_data (owned_strings v)));
             Some (Address (mb_addr (owned_strings v) + offset + of_nat llen), size) }
      else
        do { let offset = gc_string_val_to_offset x;
             let s = drop (unat offset) (mb_data (foreign_strings v));
             (size, llen) \<leftarrow> decode_varint s;
             if length s < llen + 8 then None
             else Some (Address (of_nat (le_val (take 8 (drop llen s)))), size) })"

text \<open>The bytes of a string.\<close>

definition string_bytes :: "memory \<Rightarrow> v7 \<Rightarrow> val_t \<Rightarrow> u8 list option" where
  "string_bytes M v x = do { (p, n) \<leftarrow> v7_get_string_data v x; fetch M (owned_strings v) p (unat n) }"

definition v7_to_cstring :: "memory \<Rightarrow> v7 \<Rightarrow> val_t \<Rightarrow> u8 list option option" where
  "v7_to_cstring M v x =
     do { (p, n) \<leftarrow> v7_get_string_data v x;
          bs \<leftarrow> fetch M (owned_strings v) p (Suc (unat n));
          Some (if bs ! unat n \<noteq> 0 \<or> 0 \<in> set (take (unat n) bs) then None else Some (take (unat n) bs)) }"

definition s_cmp :: "memory \<Rightarrow> v7 \<Rightarrow> val_t \<Rightarrow> val_t \<Rightarrow> int option" where
  "s_cmp M v a b =
     do { (a_ptr, a_len) \<leftarrow> v7_get_string_data v a;
          (b_ptr, b_len) \<leftarrow> v7_get_string_data v b;
          if a_len = b_len then
            do { x \<leftarrow> fetch M (owned_strings v) a_ptr (unat a_len);
                 y \<leftarrow> fetch M (owned_strings v) b_ptr (unat a_len);
                 Some (memcmp x y) }
          else Some (if a_len > b_len then 1 else - 1) }"

text \<open>The bytes are copied to where the new value's data lie: in the value itself or in the buffer.\<close>

definition s_concat :: "memory \<Rightarrow> allocator \<Rightarrow> val_t \<Rightarrow> val_t \<Rightarrow> v7 \<Rightarrow> (val_t \<times> v7) option" where
  "s_concat M A a b v =
     do { (_, a_len) \<leftarrow> v7_get_string_data v a;
          (_, b_len) \<leftarrow> v7_get_string_data v b;
          (res, v) \<leftarrow> v7_mk_string M A NULL (a_len + b_len) True v;
          (a_ptr, a_len) \<leftarrow> v7_get_string_data v a;
          (b_ptr, b_len) \<leftarrow> v7_get_string_data v b;
          x \<leftarrow> fetch M (owned_strings v) a_ptr (unat a_len);
          y \<leftarrow> fetch M (owned_strings v) b_ptr (unat b_len);
          (res_ptr, _) \<leftarrow> v7_get_string_data v res;
          case res_ptr of
            Static bs \<Rightarrow>
              let at = 8 - length bs; bytes = overwrite at (x @ y) (le_bytes 8 (unat res))
              in if at + length x + length y \<le> 8 then Some (of_nat (le_val bytes), v) else None
          | Address p \<Rightarrow>
              do { m \<leftarrow> store (unat (p - mb_addr (owned_strings v))) (x @ y) (owned_strings v);
                   Some (res, v\<lparr>owned_strings := m\<rparr>) } }"

subsection \<open>Values held by C code\<close>

definition v7_own :: "allocator \<Rightarrow> u64 \<Rightarrow> v7 \<Rightarrow> v7 option" where
  "v7_own A p v =
     do { (_, m) \<leftarrow> mbuf_append A (owned_values v) (Some (ptr_key p)) 8; Some (v\<lparr>owned_values := m\<rparr>) }"

fun disown_loop :: "u64 \<Rightarrow> nat \<Rightarrow> mbuf \<Rightarrow> (bool \<times> mbuf) option" where
  "disown_loop p 0 m = Some (False, m)"
| "disown_loop p (Suc i) m =
     (if take 8 (drop (8 * i) (mb_data m)) = ptr_key p
      then do { m' \<leftarrow> store (8 * i) (take 8 (drop (unat (mb_len m) - 8) (mb_data m))) m;
                Some (True, m'\<lparr>mb_len := mb_len m - 8\<rparr>) }
      else disown_loop p i m)"

definition v7_disown :: "u64 \<Rightarrow> v7 \<Rightarrow> (bool \<times> v7) option" where
  "v7_disown p v =
     do { (r, m) \<leftarrow> disown_loop p (unat (mb_len (owned_values v)) div 8) (owned_values v);
          Some (r, v\<lparr>owned_values := m\<rparr>) }"

end
