(* ===== verification/Ast.thy ===== *)
theory Ast
  imports Strings
begin

text \<open>
  The binary syntax trees of \<open>ast.c\<close> (\<open>v7/v7.c\<close>), which the parser writes and the compiler reads. A tree is bytes in a
  buffer: a tag, then what the table of nodes says: the length and the bytes of an inlined text, skips (16-bit
  offsets from the byte after the tag, the high byte first), and the children one after the other. The build has
  neither \<open>V7_LARGE_AST\<close> nor \<open>NDEBUG\<close>: a failed assertion, a tag without a table entry and an access beyond the buffer
  have no result. Results of \<open>mbuf_append\<close> and \<open>mbuf_insert\<close> are ignored as in the code.
\<close>

subsection \<open>Tags and nodes\<close>

type_synonym ast_tag = nat

definition AST_NOP :: ast_tag where "AST_NOP = 0"
definition AST_SCRIPT :: ast_tag where "AST_SCRIPT = 1"
definition AST_VAR :: ast_tag where "AST_VAR = 2"
definition AST_VAR_DECL :: ast_tag where "AST_VAR_DECL = 3"
definition AST_FUNC_DECL :: ast_tag where "AST_FUNC_DECL = 4"
definition AST_IF :: ast_tag where "AST_IF = 5"
definition AST_FUNC :: ast_tag where "AST_FUNC = 6"
definition AST_ASSIGN :: ast_tag where "AST_ASSIGN = 7"
definition AST_REM_ASSIGN :: ast_tag where "AST_REM_ASSIGN = 8"
definition AST_MUL_ASSIGN :: ast_tag where "AST_MUL_ASSIGN = 9"
definition AST_DIV_ASSIGN :: ast_tag where "AST_DIV_ASSIGN = 10"
definition AST_XOR_ASSIGN :: ast_tag where "AST_XOR_ASSIGN = 11"
definition AST_PLUS_ASSIGN :: ast_tag where "AST_PLUS_ASSIGN = 12"
definition AST_MINUS_ASSIGN :: ast_tag where "AST_MINUS_ASSIGN = 13"
definition AST_OR_ASSIGN :: ast_tag where "AST_OR_ASSIGN = 14"
definition AST_AND_ASSIGN :: ast_tag where "AST_AND_ASSIGN = 15"
definition AST_LSHIFT_ASSIGN :: ast_tag where "AST_LSHIFT_ASSIGN = 16"
definition AST_RSHIFT_ASSIGN :: ast_tag where "AST_RSHIFT_ASSIGN = 17"
definition AST_URSHIFT_ASSIGN :: ast_tag where "AST_URSHIFT_ASSIGN = 18"
definition AST_NUM :: ast_tag where "AST_NUM = 19"
definition AST_IDENT :: ast_tag where "AST_IDENT = 20"
definition AST_STRING :: ast_tag where "AST_STRING = 21"
definition AST_REGEX :: ast_tag where "AST_REGEX = 22"
definition AST_LABEL :: ast_tag where "AST_LABEL = 23"
definition AST_SEQ :: ast_tag where "AST_SEQ = 24"
definition AST_WHILE :: ast_tag where "AST_WHILE = 25"
definition AST_DOWHILE :: ast_tag where "AST_DOWHILE = 26"
definition AST_FOR :: ast_tag where "AST_FOR = 27"
definition AST_FOR_IN :: ast_tag where "AST_FOR_IN = 28"
definition AST_COND :: ast_tag where "AST_COND = 29"
definition AST_DEBUGGER :: ast_tag where "AST_DEBUGGER = 30"
definition AST_BREAK :: ast_tag where "AST_BREAK = 31"
definition AST_LABELED_BREAK :: ast_tag where "AST_LABELED_BREAK = 32"
definition AST_CONTINUE :: ast_tag where "AST_CONTINUE = 33"
definition AST_LABELED_CONTINUE :: ast_tag where "AST_LABELED_CONTINUE = 34"
definition AST_RETURN :: ast_tag where "AST_RETURN = 35"
definition AST_VALUE_RETURN :: ast_tag where "AST_VALUE_RETURN = 36"
definition AST_THROW :: ast_tag where "AST_THROW = 37"
definition AST_TRY :: ast_tag where "AST_TRY = 38"
definition AST_SWITCH :: ast_tag where "AST_SWITCH = 39"
definition AST_CASE :: ast_tag where "AST_CASE = 40"
definition AST_DEFAULT :: ast_tag where "AST_DEFAULT = 41"
definition AST_WITH :: ast_tag where "AST_WITH = 42"
definition AST_LOGICAL_OR :: ast_tag where "AST_LOGICAL_OR = 43"
definition AST_LOGICAL_AND :: ast_tag where "AST_LOGICAL_AND = 44"
definition AST_OR :: ast_tag where "AST_OR = 45"
definition AST_XOR :: ast_tag where "AST_XOR = 46"
definition AST_AND :: ast_tag where "AST_AND = 47"
definition AST_EQ :: ast_tag where "AST_EQ = 48"
definition AST_EQ_EQ :: ast_tag where "AST_EQ_EQ = 49"
definition AST_NE :: ast_tag where "AST_NE = 50"
definition AST_NE_NE :: ast_tag where "AST_NE_NE = 51"
definition AST_LE :: ast_tag where "AST_LE = 52"
definition AST_LT :: ast_tag where "AST_LT = 53"
definition AST_GE :: ast_tag where "AST_GE = 54"
definition AST_GT :: ast_tag where "AST_GT = 55"
definition AST_IN :: ast_tag where "AST_IN = 56"
definition AST_INSTANCEOF :: ast_tag where "AST_INSTANCEOF = 57"
definition AST_LSHIFT :: ast_tag where "AST_LSHIFT = 58"
definition AST_RSHIFT :: ast_tag where "AST_RSHIFT = 59"
definition AST_URSHIFT :: ast_tag where "AST_URSHIFT = 60"
definition AST_ADD :: ast_tag where "AST_ADD = 61"
definition AST_SUB :: ast_tag where "AST_SUB = 62"
definition AST_REM :: ast_tag where "AST_REM = 63"
definition AST_MUL :: ast_tag where "AST_MUL = 64"
definition AST_DIV :: ast_tag where "AST_DIV = 65"
definition AST_POSITIVE :: ast_tag where "AST_POSITIVE = 66"
definition AST_NEGATIVE :: ast_tag where "AST_NEGATIVE = 67"
definition AST_NOT :: ast_tag where "AST_NOT = 68"
definition AST_LOGICAL_NOT :: ast_tag where "AST_LOGICAL_NOT = 69"
definition AST_VOID :: ast_tag where "AST_VOID = 70"
definition AST_DELETE :: ast_tag where "AST_DELETE = 71"
definition AST_TYPEOF :: ast_tag where "AST_TYPEOF = 72"
definition AST_PREINC :: ast_tag where "AST_PREINC = 73"
definition AST_PREDEC :: ast_tag where "AST_PREDEC = 74"
definition AST_POSTINC :: ast_tag where "AST_POSTINC = 75"
definition AST_POSTDEC :: ast_tag where "AST_POSTDEC = 76"
definition AST_MEMBER :: ast_tag where "AST_MEMBER = 77"
definition AST_INDEX :: ast_tag where "AST_INDEX = 78"
definition AST_CALL :: ast_tag where "AST_CALL = 79"
definition AST_NEW :: ast_tag where "AST_NEW = 80"
definition AST_ARRAY :: ast_tag where "AST_ARRAY = 81"
definition AST_OBJECT :: ast_tag where "AST_OBJECT = 82"
definition AST_PROP :: ast_tag where "AST_PROP = 83"
definition AST_GETTER :: ast_tag where "AST_GETTER = 84"
definition AST_SETTER :: ast_tag where "AST_SETTER = 85"
definition AST_THIS :: ast_tag where "AST_THIS = 86"
definition AST_TRUE :: ast_tag where "AST_TRUE = 87"
definition AST_FALSE :: ast_tag where "AST_FALSE = 88"
definition AST_NULL :: ast_tag where "AST_NULL = 89"
definition AST_UNDEFINED :: ast_tag where "AST_UNDEFINED = 90"
definition AST_USE_STRICT :: ast_tag where "AST_USE_STRICT = 91"
definition AST_MAX_TAG :: ast_tag where "AST_MAX_TAG = 92"

record ast_node_def =
  node_name :: string
  has_varint :: bool
  has_inlined :: bool
  num_skips :: nat
  num_subtrees :: nat

definition AST_ENTRY :: "string \<Rightarrow> nat \<Rightarrow> nat \<Rightarrow> nat \<Rightarrow> nat \<Rightarrow> ast_node_def" where
  "AST_ENTRY name v i skips subtrees =
     \<lparr>node_name = name, has_varint = (v \<noteq> 0), has_inlined = (i \<noteq> 0), num_skips = skips, num_subtrees = subtrees\<rparr>"

definition ast_node_defs :: "ast_node_def list" where
  "ast_node_defs =
    [AST_ENTRY ''NOP'' 0 0 0 0, AST_ENTRY ''SCRIPT'' 0 0 2 0, AST_ENTRY ''VAR'' 0 0 2 0,
     AST_ENTRY ''VAR_DECL'' 1 1 0 1, AST_ENTRY ''FUNC_DECL'' 1 1 0 1, AST_ENTRY ''IF'' 0 0 2 1,
     AST_ENTRY ''FUNC'' 0 0 3 1, AST_ENTRY ''ASSIGN'' 0 0 0 2, AST_ENTRY ''REM_ASSIGN'' 0 0 0 2,
     AST_ENTRY ''MUL_ASSIGN'' 0 0 0 2, AST_ENTRY ''DIV_ASSIGN'' 0 0 0 2, AST_ENTRY ''XOR_ASSIGN'' 0 0 0 2,
     AST_ENTRY ''PLUS_ASSIGN'' 0 0 0 2, AST_ENTRY ''MINUS_ASSIGN'' 0 0 0 2, AST_ENTRY ''OR_ASSIGN'' 0 0 0 2,
     AST_ENTRY ''AND_ASSIGN'' 0 0 0 2, AST_ENTRY ''LSHIFT_ASSIGN'' 0 0 0 2, AST_ENTRY ''RSHIFT_ASSIGN'' 0 0 0 2,
     AST_ENTRY ''URSHIFT_ASSIGN'' 0 0 0 2, AST_ENTRY ''NUM'' 1 1 0 0, AST_ENTRY ''IDENT'' 1 1 0 0,
     AST_ENTRY ''STRING'' 1 1 0 0, AST_ENTRY ''REGEX'' 1 1 0 0, AST_ENTRY ''LABEL'' 1 1 0 0,
     AST_ENTRY ''SEQ'' 0 0 1 0, AST_ENTRY ''WHILE'' 0 0 1 1, AST_ENTRY ''DOWHILE'' 0 0 2 0,
     AST_ENTRY ''FOR'' 0 0 2 3, AST_ENTRY ''FOR_IN'' 0 0 2 3, AST_ENTRY ''COND'' 0 0 0 3,
     AST_ENTRY ''DEBUGGER'' 0 0 0 0, AST_ENTRY ''BREAK'' 0 0 0 0, AST_ENTRY ''LAB_BREAK'' 0 0 0 1,
     AST_ENTRY ''CONTINUE'' 0 0 0 0, AST_ENTRY ''LAB_CONTINUE'' 0 0 0 1, AST_ENTRY ''RETURN'' 0 0 0 0,
     AST_ENTRY ''VAL_RETURN'' 0 0 0 1, AST_ENTRY ''THROW'' 0 0 0 1, AST_ENTRY ''TRY'' 0 0 3 1,
     AST_ENTRY ''SWITCH'' 0 0 2 1, AST_ENTRY ''CASE'' 0 0 1 1, AST_ENTRY ''DEFAULT'' 0 0 1 0,
     AST_ENTRY ''WITH'' 0 0 1 1, AST_ENTRY ''LOG_OR'' 0 0 0 2, AST_ENTRY ''LOG_AND'' 0 0 0 2,
     AST_ENTRY ''OR'' 0 0 0 2, AST_ENTRY ''XOR'' 0 0 0 2, AST_ENTRY ''AND'' 0 0 0 2, AST_ENTRY ''EQ'' 0 0 0 2,
     AST_ENTRY ''EQ_EQ'' 0 0 0 2, AST_ENTRY ''NE'' 0 0 0 2, AST_ENTRY ''NE_NE'' 0 0 0 2, AST_ENTRY ''LE'' 0 0 0 2,
     AST_ENTRY ''LT'' 0 0 0 2, AST_ENTRY ''GE'' 0 0 0 2, AST_ENTRY ''GT'' 0 0 0 2, AST_ENTRY ''IN'' 0 0 0 2,
     AST_ENTRY ''INSTANCEOF'' 0 0 0 2, AST_ENTRY ''LSHIFT'' 0 0 0 2, AST_ENTRY ''RSHIFT'' 0 0 0 2,
     AST_ENTRY ''URSHIFT'' 0 0 0 2, AST_ENTRY ''ADD'' 0 0 0 2, AST_ENTRY ''SUB'' 0 0 0 2, AST_ENTRY ''REM'' 0 0 0 2,
     AST_ENTRY ''MUL'' 0 0 0 2, AST_ENTRY ''DIV'' 0 0 0 2, AST_ENTRY ''POS'' 0 0 0 1, AST_ENTRY ''NEG'' 0 0 0 1,
     AST_ENTRY ''NOT'' 0 0 0 1, AST_ENTRY ''LOGICAL_NOT'' 0 0 0 1, AST_ENTRY ''VOID'' 0 0 0 1,
     AST_ENTRY ''DELETE'' 0 0 0 1, AST_ENTRY ''TYPEOF'' 0 0 0 1, AST_ENTRY ''PREINC'' 0 0 0 1,
     AST_ENTRY ''PREDEC'' 0 0 0 1, AST_ENTRY ''POSTINC'' 0 0 0 1, AST_ENTRY ''POSTDEC'' 0 0 0 1,
     AST_ENTRY ''MEMBER'' 1 1 0 1, AST_ENTRY ''INDEX'' 0 0 0 2, AST_ENTRY ''CALL'' 0 0 1 1,
     AST_ENTRY ''NEW'' 0 0 1 1, AST_ENTRY ''ARRAY'' 0 0 1 0, AST_ENTRY ''OBJECT'' 0 0 1 0,
     AST_ENTRY ''PROP'' 1 1 0 1, AST_ENTRY ''GETTER'' 0 0 0 1, AST_ENTRY ''SETTER'' 0 0 0 1,
     AST_ENTRY ''THIS'' 0 0 0 0, AST_ENTRY ''TRUE'' 0 0 0 0, AST_ENTRY ''FALSE'' 0 0 0 0, AST_ENTRY ''NULL'' 0 0 0 0,
     AST_ENTRY ''UNDEF'' 0 0 0 0, AST_ENTRY ''USE_STRICT'' 0 0 0 0]"

text \<open>\<open>&ast_node_defs[tag]\<close>.\<close>

definition node_def :: "ast_tag \<Rightarrow> ast_node_def option" where
  "node_def tag = (if tag < length ast_node_defs then Some (ast_node_defs ! tag) else None)"

subsection \<open>Writing\<close>

record ast =
  ast_mbuf :: mbuf
  ast_refcnt :: "32 word"
  has_overflow :: bool

definition AST_SKIP_MAX :: u64 where "AST_SKIP_MAX = 0xFFFF"

definition AST_END_SKIP :: nat where "AST_END_SKIP = 0"
definition AST_VAR_NEXT_SKIP :: nat where "AST_VAR_NEXT_SKIP = 1"
definition AST_FUNC_BODY_SKIP :: nat where "AST_FUNC_BODY_SKIP = 2"

definition skips_size :: "ast_node_def \<Rightarrow> u64" where "skips_size d = 2 * of_nat (num_skips d)"

definition ast_add_node :: "allocator \<Rightarrow> ast \<Rightarrow> ast_tag \<Rightarrow> (u64 \<times> ast) option" where
  "ast_add_node A a tag =
     do { let start = mb_len (ast_mbuf a);
          d \<leftarrow> (if tag < AST_MAX_TAG then node_def tag else None);
          (_, m) \<leftarrow> mbuf_append A (ast_mbuf a) (Some [of_nat tag]) 1;
          (_, m) \<leftarrow> mbuf_append A m None (skips_size d);
          Some (start + 1, a\<lparr>ast_mbuf := m\<rparr>) }"

definition ast_modify_skip :: "ast \<Rightarrow> u64 \<Rightarrow> u64 \<Rightarrow> nat \<Rightarrow> (u64 \<times> ast) option" where
  "ast_modify_skip a start target skip =
     do { let m = ast_mbuf a;
          let delta = (ucast (target - start) :: u16);
          tag \<leftarrow> (if start = 0 then None else byte_at (mb_data m) (unat start - 1));
          d \<leftarrow> node_def (unat tag);
          a \<leftarrow> (if start \<le> target then Some a else None);
          let a = (if target - start > AST_SKIP_MAX then a\<lparr>has_overflow := True\<rparr> else a);
          m \<leftarrow> (if skip < num_skips d then store (unat start + skip * 2) [ucast (drop_bit 8 delta), ucast (delta AND 0xFF)] m
               else None);
          Some (target, a\<lparr>ast_mbuf := m\<rparr>) }"

definition ast_set_skip :: "ast \<Rightarrow> u64 \<Rightarrow> nat \<Rightarrow> (u64 \<times> ast) option" where
  "ast_set_skip a start skip = ast_modify_skip a start (mb_len (ast_mbuf a)) skip"

definition ast_insert_node :: "allocator \<Rightarrow> ast \<Rightarrow> u64 \<Rightarrow> ast_tag \<Rightarrow> (u64 \<times> ast) option" where
  "ast_insert_node A a start tag =
     do { d \<leftarrow> (if tag < AST_MAX_TAG then node_def tag else None);
          (_, m) \<leftarrow> mbuf_insert A (ast_mbuf a) start None (skips_size d);
          (_, m) \<leftarrow> mbuf_insert A m start (Some [of_nat tag]) 1;
          let a = a\<lparr>ast_mbuf := m\<rparr>;
          a \<leftarrow> (if num_skips d \<noteq> 0 then map_option snd (ast_set_skip a (start + 1) AST_END_SKIP) else Some a);
          Some (start + 1, a) }"

definition ast_add_inlined_node :: "memory \<Rightarrow> allocator \<Rightarrow> ast \<Rightarrow> ast_tag \<Rightarrow> char_ptr \<Rightarrow> u64 \<Rightarrow> ast option" where
  "ast_add_inlined_node M A a tag name len =
     do { d \<leftarrow> node_def tag;
          (off, a) \<leftarrow> (if has_inlined d then ast_add_node A a tag else None);
          m \<leftarrow> embed_string M A (ast_mbuf a) off name len False True;
          Some (a\<lparr>ast_mbuf := m\<rparr>) }"

definition ast_insert_inlined_node ::
  "memory \<Rightarrow> allocator \<Rightarrow> ast \<Rightarrow> u64 \<Rightarrow> ast_tag \<Rightarrow> char_ptr \<Rightarrow> u64 \<Rightarrow> ast option" where
  "ast_insert_inlined_node M A a start tag name len =
     do { d \<leftarrow> node_def tag;
          (off, a) \<leftarrow> (if has_inlined d then ast_insert_node A a start tag else None);
          m \<leftarrow> embed_string M A (ast_mbuf a) off name len False True;
          Some (a\<lparr>ast_mbuf := m\<rparr>) }"

subsection \<open>Reading\<close>

definition ast_get_skip :: "ast \<Rightarrow> u64 \<Rightarrow> nat \<Rightarrow> u64 option" where
  "ast_get_skip a pos skip =
     do { let m = ast_mbuf a;
          p \<leftarrow> (if pos + of_nat skip * 2 < mb_len m then Some (unat pos + skip * 2) else None);
          p1 \<leftarrow> byte_at (mb_data m) (p + 1);
          p0 \<leftarrow> byte_at (mb_data m) p;
          Some (pos + (ucast p1 OR push_bit 8 (ucast p0))) }"

definition ast_fetch_tag :: "ast \<Rightarrow> u64 \<Rightarrow> (ast_tag \<times> u64) option" where
  "ast_fetch_tag a pos =
     (if pos < mb_len (ast_mbuf a)
      then do { b \<leftarrow> byte_at (mb_data (ast_mbuf a)) (unat pos); Some (unat b, pos + 1) }
      else None)"

definition ast_move_to_children :: "ast \<Rightarrow> u64 \<Rightarrow> u64 option" where
  "ast_move_to_children a pos =
     do { let m = ast_mbuf a;
          tag \<leftarrow> (if pos = 0 then None else byte_at (mb_data m) (unat pos - 1));
          d \<leftarrow> node_def (unat tag);
          pos \<leftarrow> (if pos - 1 < mb_len m then Some pos else None);
          pos \<leftarrow> (if has_varint d
                 then do { (slen, llen) \<leftarrow> decode_varint (drop (unat pos) (mb_data m));
                           Some (pos + of_nat llen + (if has_inlined d then slen else 0)) }
                 else Some pos);
          Some (pos + skips_size d) }"

text \<open>Where the text starts in the buffer, and its length.\<close>

definition ast_get_inlined_data :: "ast \<Rightarrow> u64 \<Rightarrow> (u64 \<times> u64) option" where
  "ast_get_inlined_data a pos =
     (if pos < mb_len (ast_mbuf a)
      then do { (n, llen) \<leftarrow> decode_varint (drop (unat pos) (mb_data (ast_mbuf a))); Some (pos + of_nat llen, n) }
      else None)"

text \<open>
  \<open>strncpy\<close> stops at a zero byte; the copy ends in one. From 12 bytes on it is allocated, without a check of
  \<open>malloc\<close> (\<open>room\<close>: whether it answers a block).
\<close>

definition ast_get_num :: "(u8 list \<Rightarrow> 'd) \<Rightarrow> (u64 \<Rightarrow> bool) \<Rightarrow> ast \<Rightarrow> u64 \<Rightarrow> 'd option" where
  "ast_get_num strtod room a pos =
     do { (str, str_len) \<leftarrow> ast_get_inlined_data a pos;
          p \<leftarrow> (if unat str + unat str_len \<le> unat (mb_len (ast_mbuf a)) then Some str else None);
          _ \<leftarrow> (if str_len > 11 \<and> \<not> room (str_len + 1) then None else Some ());
          Some (strtod (takeWhile (\<lambda>b. b \<noteq> 0) (take (unat str_len) (drop (unat p) (mb_data (ast_mbuf a)))) @ [0])) }"

text \<open>The recursion and its two loops, with fuel: every call takes a byte.\<close>

fun ast_skip_tree :: "nat \<Rightarrow> ast \<Rightarrow> u64 \<Rightarrow> u64 option"
  and skip_subtrees :: "nat \<Rightarrow> ast \<Rightarrow> nat \<Rightarrow> u64 \<Rightarrow> u64 option"
  and skip_until :: "nat \<Rightarrow> ast \<Rightarrow> u64 \<Rightarrow> u64 \<Rightarrow> u64 option" where
  "ast_skip_tree 0 a pos = None"
| "ast_skip_tree (Suc n) a pos =
     do { (tag, pos) \<leftarrow> ast_fetch_tag a pos;
          d \<leftarrow> node_def tag;
          let skips = pos;
          pos \<leftarrow> ast_move_to_children a pos;
          pos \<leftarrow> skip_subtrees n a (num_subtrees d) pos;
          if num_skips d \<noteq> 0
          then do { end' \<leftarrow> ast_get_skip a skips AST_END_SKIP; skip_until n a end' pos }
          else Some pos }"
| "skip_subtrees n a 0 pos = Some pos"
| "skip_subtrees 0 a (Suc i) pos = None"
| "skip_subtrees (Suc n) a (Suc i) pos = do { pos \<leftarrow> ast_skip_tree n a pos; skip_subtrees n a i pos }"
| "skip_until 0 a end' pos = None"
| "skip_until (Suc n) a end' pos =
     (if pos < end' then do { pos \<leftarrow> ast_skip_tree n a pos; skip_until n a end' pos } else Some pos)"

subsection \<open>Beginning and end\<close>

definition ast_init :: "allocator \<Rightarrow> u64 \<Rightarrow> ast" where
  "ast_init A len = \<lparr>ast_mbuf = mbuf_init A len, ast_refcnt = 0, has_overflow = False\<rparr>"

definition ast_optimize :: "allocator \<Rightarrow> ast \<Rightarrow> ast" where
  "ast_optimize A a = a\<lparr>ast_mbuf := mbuf_resize A (ast_mbuf a) (mb_len (ast_mbuf a) + 1)\<rparr>"

definition ast_free :: "allocator \<Rightarrow> ast \<Rightarrow> ast" where
  "ast_free A a = \<lparr>ast_mbuf = mbuf_free A (ast_mbuf a), ast_refcnt = 0, has_overflow = False\<rparr>"

text \<open>Whether the block of the tree is freed, and the tree before that.\<close>

definition release_ast :: "allocator \<Rightarrow> ast \<Rightarrow> bool \<times> ast" where
  "release_ast A a =
     (let a = (if ast_refcnt a \<noteq> 0 then a\<lparr>ast_refcnt := ast_refcnt a - 1\<rparr> else a)
      in if ast_refcnt a = 0 then (True, ast_free A a) else (False, a))"

end
