(* ===== verification/StringsCorrect.thy ===== *)
theory StringsCorrect
  imports Strings
begin

text \<open>
  Correctness of Strings. The buffer of owned strings is a NUL byte and the blocks of the strings one
  after the other (\<open>strings_ok\<close>); a value \<open>live\<close> refers to one of them. Creating a string answers a value
  that reads back, and keeps what other values denote as long as sequence numbers do not run out.
\<close>

subsection \<open>Sequence numbers\<close>

lemma next_asn_eq: "next_asn v = (gc_next_asn v, v\<lparr>gc_next_asn := gc_next_asn v + 1\<rparr>)"
proof (cases "gc_next_asn v = 0xFFFF")
  case True
  have "(0xFFFF :: u16) + 1 = 0" by simp
  with True show ?thesis by (simp add: next_asn_def)
qed (simp add: next_asn_def)

text \<open>Whether a number is valid is its distance from the least one in use.\<close>

lemma valid_asn_iff: "gc_is_valid_allocation_seqn v n \<longleftrightarrow> n - gc_min_asn v < gc_next_asn v - gc_min_asn v"
proof -
  have un: "unat (x - m) = (if m \<le> x then unat x - unat m else unat x + 65536 - unat m)" for x m :: u16
    using unat_sub_if' [of x m] by (simp add: word_le_nat_alt)
  have b: "unat x < 65536" for x :: u16 using unsigned_less [of x, where ?'a = nat] by simp
  show ?thesis
    unfolding gc_is_valid_allocation_seqn_def word_less_nat_alt un
    using b [of n] b [of "gc_min_asn v"] b [of "gc_next_asn v"]
    by (auto simp: word_le_nat_alt word_less_nat_alt)
qed

text \<open>How many numbers were given since the last collection, up to 65536.\<close>

definition asn_used :: "v7 \<Rightarrow> nat" where
  "asn_used v = unat (gc_next_asn v - gc_min_asn v)"

lemma asn_used_next:
  assumes "asn_used v < 65535" "v' = snd (next_asn v)"
  shows "asn_used v' = Suc (asn_used v)"
    and "gc_is_valid_allocation_seqn v n \<Longrightarrow> gc_is_valid_allocation_seqn v' n"
    and "gc_is_valid_allocation_seqn v' (fst (next_asn v))"
proof -
  have "gc_next_asn v' - gc_min_asn v' = (gc_next_asn v - gc_min_asn v) + 1"
    by (simp add: assms(2) next_asn_eq)
  then show u: "asn_used v' = Suc (asn_used v)"
    using assms(1) by (simp add: asn_used_def unat_word_ariths)
  have m: "gc_min_asn v' = gc_min_asn v" by (simp add: assms(2) next_asn_eq)
  show "gc_is_valid_allocation_seqn v n \<Longrightarrow> gc_is_valid_allocation_seqn v' n"
    using u by (simp add: valid_asn_iff m asn_used_def word_less_nat_alt)
  show "gc_is_valid_allocation_seqn v' (fst (next_asn v))"
    using u by (simp add: valid_asn_iff m asn_used_def word_less_nat_alt next_asn_eq)
qed

lemma asn_exhausted:
  assumes "asn_used v = 65535" "v' = snd (next_asn v)"
  shows "\<not> gc_is_valid_allocation_seqn v' n"
proof -
  have "unat (gc_next_asn v - gc_min_asn v + 1) = 0"
    using assms(1) by (simp add: asn_used_def unat_word_ariths)
  then have "gc_next_asn v' - gc_min_asn v' = 0" by (simp add: assms(2) next_asn_eq unat_eq_0 algebra_simps)
  then show ?thesis by (simp add: valid_asn_iff)
qed

subsection \<open>Reading the buffer\<close>

definition fits :: "mbuf \<Rightarrow> bool" where
  "fits m \<longleftrightarrow> mbuf_ok m \<and> mb_addr m \<noteq> 0 \<and> unat (mb_addr m) + unat (mb_size m) < 2 ^ 48"

lemma peek_in:
  assumes "fits m" "i < unat (mb_size m)"
  shows "peek M m (mb_addr m + of_nat i) = Some (mb_data m ! i)"
proof -
  have u: "unat (mb_addr m + of_nat i) = unat (mb_addr m) + i"
    using assms by (simp add: fits_def unat_word_ariths unat_of_nat)
  have i: "unat (of_nat i :: u64) = i" using assms by (simp add: fits_def unat_of_nat)
  show ?thesis
    using assms by (simp add: peek_def in_buffer_def word_le_nat_alt word_less_nat_alt u i)
qed

lemma peeks_in:
  "fits m \<Longrightarrow> i + n \<le> unat (mb_size m) \<Longrightarrow>
     peeks M m (mb_addr m + of_nat i) n = Some (take n (drop i (mb_data m)))"
proof (induction n arbitrary: i)
  case (Suc n)
  then have "peek M m (mb_addr m + of_nat i) = Some (mb_data m ! i)" by (intro peek_in) simp_all
  moreover have "peeks M m (mb_addr m + of_nat i + 1) n = Some (take n (drop (Suc i) (mb_data m)))"
    using Suc.IH [of "Suc i"] Suc.prems by (simp add: ac_simps)
  moreover have "take (Suc n) (drop i (mb_data m)) = mb_data m ! i # take n (drop (Suc i) (mb_data m))"
    using Suc.prems by (simp add: fits_def mbuf_ok_def flip: Cons_nth_drop_Suc)
  ultimately show ?case by simp
qed simp

text \<open>A text outside the buffer: it is read the same whatever the buffer is.\<close>

definition outside :: "memory \<Rightarrow> mbuf \<Rightarrow> bool" where
  "outside M m \<longleftrightarrow> (\<forall>a. in_buffer m a \<longrightarrow> M a = None)"

fun mem_text :: "memory \<Rightarrow> u64 \<Rightarrow> u8 list \<Rightarrow> bool" where
  "mem_text M a [] \<longleftrightarrow> True"
| "mem_text M a (b # bs) \<longleftrightarrow> M a = Some b \<and> mem_text M (a + 1) bs"

fun text_at :: "memory \<Rightarrow> char_ptr \<Rightarrow> u8 list \<Rightarrow> bool" where
  "text_at M (Static xs) bs \<longleftrightarrow> length bs \<le> length xs \<and> take (length bs) xs = bs"
| "text_at M (Address a) bs \<longleftrightarrow> a \<noteq> 0 \<and> mem_text M a bs"

lemma peeks_text: "mem_text M a bs \<Longrightarrow> outside M m \<Longrightarrow> peeks M m a (length bs) = Some bs"
proof (induction bs arbitrary: a)
  case (Cons b bs)
  then have "peek M m a = Some b" by (auto simp: peek_def outside_def)
  with Cons show ?case by simp
qed simp

lemma fetch_text: "text_at M p bs \<Longrightarrow> outside M m \<Longrightarrow> fetch M m p (length bs) = Some bs"
  by (cases p) (auto simp: peeks_text)

subsection \<open>The layout of the buffer\<close>

definition varint_of :: "u8 list \<Rightarrow> u8 list" where
  "varint_of s = the (encode_varint (of_nat (length s)))"

definition block :: "u8 list \<Rightarrow> u8 list" where
  "block s = varint_of s @ s @ [0]"

definition packed :: "u8 list list \<Rightarrow> u8 list" where
  "packed ss = 0 # concat (map block ss)"

definition offset :: "u8 list list \<Rightarrow> nat \<Rightarrow> nat" where
  "offset ss i = length (packed (take i ss))"

definition sizes_ok :: "u8 list list \<Rightarrow> bool" where
  "sizes_ok ss \<longleftrightarrow> (\<forall>s \<in> set ss. 5 < length s \<and> length s < 2 ^ 31) \<and> length (packed ss) < 2 ^ 32"

definition strings_ok :: "v7 \<Rightarrow> u8 list list \<Rightarrow> bool" where
  "strings_ok v ss \<longleftrightarrow> fits (owned_strings v) \<and> content (owned_strings v) = packed ss \<and> sizes_ok ss"

definition asn_of :: "val_t \<Rightarrow> u16" where
  "asn_of x = ucast (drop_bit 32 x AND 0xFFFF)"

definition live :: "v7 \<Rightarrow> u8 list list \<Rightarrow> val_t \<Rightarrow> u8 list \<Rightarrow> bool" where
  "live v ss x s \<longleftrightarrow> tag_of x = 0xFFF8 \<and> gc_is_valid_allocation_seqn v (asn_of x) \<and>
     (\<exists>i < length ss. ss ! i = s \<and> unat (gc_string_val_to_offset x) = offset ss i)"

lemma varint_of:
  assumes "length s < 2 ^ 31"
  shows "encode_varint (of_nat (length s)) = Some (varint_of s)"
    "decode_varint (varint_of s @ rest) = Some (of_nat (length s), length (varint_of s))"
    "0 < length (varint_of s)" "length (varint_of s) \<le> 5"
proof -
  have n: "unat (of_nat (length s) :: u64) < 2 ^ 31" using assms by (simp add: unat_of_nat)
  then have "unat (of_nat (length s) :: u64) < 2 ^ 56" by simp
  from encode_varint_some [OF this] obtain bs
    where bs: "encode_varint (of_nat (length s)) = Some bs" "length bs = calc_llen (of_nat (length s))"
    by blast
  then show "encode_varint (of_nat (length s)) = Some (varint_of s)" by (simp add: varint_of_def)
  show "decode_varint (varint_of s @ rest) = Some (of_nat (length s), length (varint_of s))"
    using varint.dec_enc [OF n, of rest] by (simp add: varint_of_def)
  show "0 < length (varint_of s)" using bs calc_llen_pos by (simp add: varint_of_def)
  have "calc_llen (of_nat (length s)) \<le> Suc 4" using n by (intro calc_llen_bound) simp
  then show "length (varint_of s) \<le> 5" using bs by (simp add: varint_of_def)
qed

lemma packed_split: "i < length ss \<Longrightarrow> drop (offset ss i) (packed ss) = concat (map block (drop i ss))"
proof -
  have "packed ss = packed (take i ss) @ concat (map block (drop i ss))"
    unfolding packed_def by (metis append_Cons append_take_drop_id concat_append map_append)
  then show ?thesis by (simp add: offset_def)
qed

lemma offset_bound: "i < length ss \<Longrightarrow> offset ss i + length (block (ss ! i)) \<le> length (packed ss)"
proof -
  assume i: "i < length ss"
  have "length (packed ss) = offset ss i + length (concat (map block (drop i ss)))"
    using i packed_split [OF i]
    by (metis append_take_drop_id packed_def length_Cons length_append length_concat map_append offset_def
        concat_append add_Suc)
  also have "drop i ss = ss ! i # drop (Suc i) ss" using i by (simp add: Cons_nth_drop_Suc)
  finally show ?thesis by simp
qed

text \<open>The data of the buffer from a string on.\<close>

lemma data_from:
  assumes "strings_ok v ss" "i < length ss"
  obtains rest where "drop (offset ss i) (mb_data (owned_strings v)) = varint_of (ss ! i) @ ss ! i @ 0 # rest"
    "offset ss i + length (varint_of (ss ! i)) + length (ss ! i) < unat (mb_size (owned_strings v))"
proof -
  let ?m = "owned_strings v"
  have ok: "mbuf_ok ?m" "content ?m = packed ss" using assms(1) by (simp_all add: strings_ok_def fits_def)
  then have len: "length (packed ss) \<le> length (mb_data ?m)" "length (mb_data ?m) = unat (mb_size ?m)"
    by (simp_all add: content_def mbuf_ok_def flip: \<open>content ?m = packed ss\<close>)
  have "mb_data ?m = packed ss @ drop (length (packed ss)) (mb_data ?m)"
    using ok by (metis append_take_drop_id content_def length_take min.absorb2 length_content take_all_iff linear)
  then have "drop (offset ss i) (mb_data ?m)
      = drop (offset ss i) (packed ss) @ drop (length (packed ss)) (mb_data ?m)"
    using offset_bound [OF assms(2)] by (metis (no_types) add_leE drop_append diff_is_0_eq drop0)
  also have "drop (offset ss i) (packed ss) = block (ss ! i) @ concat (map block (drop (Suc i) ss))"
    using assms(2) by (simp add: packed_split flip: Cons_nth_drop_Suc)
  finally have d: "drop (offset ss i) (mb_data ?m) = varint_of (ss ! i) @ ss ! i @ 0 #
      concat (map block (drop (Suc i) ss)) @ drop (length (packed ss)) (mb_data ?m)"
    by (simp add: block_def)
  have "offset ss i + length (varint_of (ss ! i)) + length (ss ! i) < unat (mb_size ?m)"
    using offset_bound [OF assms(2)] len by (simp add: block_def)
  with d show thesis by (rule that)
qed

subsection \<open>Reading back\<close>

lemma owned_get:
  assumes ok: "strings_ok v ss" and i: "i < length ss" "unat (gc_string_val_to_offset x) = offset ss i"
    and t: "tag_of x = 0xFFF8" "gc_is_valid_allocation_seqn v (asn_of x)"
  shows "v7_get_string_data v x = Some (Address (mb_addr (owned_strings v) +
      of_nat (offset ss i + length (varint_of (ss ! i)))), of_nat (length (ss ! i)))"
proof -
  let ?s = "ss ! i"
  obtain rest where d: "drop (offset ss i) (mb_data (owned_strings v)) = varint_of ?s @ ?s @ 0 # rest"
    using data_from [OF ok i(1)] by metis
  have len: "length ?s < 2 ^ 31" using ok i by (auto simp: strings_ok_def sizes_ok_def)
  have off: "gc_string_val_to_offset x = of_nat (offset ss i)" "unat (of_nat (offset ss i) :: u64) = offset ss i"
    by (simp_all add: i(2) [symmetric])
  show ?thesis
    using t d(1) varint_of(2) [OF len, of "?s @ 0 # rest"]
    by (simp add: v7_get_string_data_def kinds(7) and_tag_mask tags tagged_eq_iff Let_def off
        gc_check_valid_allocation_seqn_def asn_of_def add.assoc)
qed

lemma live_data:
  assumes ok: "strings_ok v ss" and l: "live v ss x s"
  obtains p where "v7_get_string_data v x = Some (Address p, of_nat (length s))" "length s < 2 ^ 31"
    "peeks M (owned_strings v) p (length s) = Some s"
    "peeks M (owned_strings v) p (Suc (length s)) = Some (s @ [0])"
proof -
  let ?m = "owned_strings v"
  obtain i where i: "i < length ss" "ss ! i = s" "unat (gc_string_val_to_offset x) = offset ss i"
    and t: "tag_of x = 0xFFF8" "gc_is_valid_allocation_seqn v (asn_of x)"
    using l by (auto simp: live_def)
  obtain rest where d: "drop (offset ss i) (mb_data ?m) = varint_of s @ s @ 0 # rest"
    "offset ss i + length (varint_of s) + length s < unat (mb_size ?m)"
    using data_from [OF ok i(1)] i(2) by metis
  have fit: "fits ?m" using ok by (simp add: strings_ok_def)
  have len: "length s < 2 ^ 31" using ok i by (auto simp: strings_ok_def sizes_ok_def)
  let ?k = "offset ss i + length (varint_of s)"
  have data: "drop ?k (mb_data ?m) = s @ 0 # rest"
    using d(1) by (metis (no_types) add.commute append_eq_conv_conj drop_drop)
  have "peeks M ?m (mb_addr ?m + of_nat ?k) (length s) = Some s"
    "peeks M ?m (mb_addr ?m + of_nat ?k) (Suc (length s)) = Some (s @ [0])"
    using peeks_in [OF fit, of ?k "length s" M] peeks_in [OF fit, of ?k "Suc (length s)" M] d(2)
    by (simp_all add: data del: peeks.simps)
  with owned_get [OF ok i(1,3) t] i(2) len show thesis by (intro that) simp_all
qed

lemma live_bytes:
  assumes "strings_ok v ss" "live v ss x s"
  shows "string_bytes M v x = Some s"
    and "v7_to_cstring M v x = Some (if 0 \<in> set s then None else Some s)"
proof -
  obtain p where p: "v7_get_string_data v x = Some (Address p, of_nat (length s))" "length s < 2 ^ 31"
    "peeks M (owned_strings v) p (length s) = Some s"
    "peeks M (owned_strings v) p (Suc (length s)) = Some (s @ [0])"
    by (rule live_data [OF assms])
  have n: "unat (of_nat (length s) :: u64) = length s" using p(2) by (simp add: unat_of_nat)
  show "string_bytes M v x = Some s" using p n by (simp add: string_bytes_def)
  show "v7_to_cstring M v x = Some (if 0 \<in> set s then None else Some s)"
    using p n by (simp add: v7_to_cstring_def nth_append del: peeks.simps)
qed

text \<open>Strings that lie in the value, and dictionary strings.\<close>

lemma le_val_small: "length bs \<le> 6 \<Longrightarrow> unat (of_nat (le_val bs) :: u64) = le_val bs \<and> le_val bs < 2 ^ 48"
proof -
  assume "length bs \<le> 6"
  then have "(256 :: nat) ^ length bs \<le> 256 ^ 6" by (intro power_increasing) simp_all
  with le_val_bound [of bs] have "le_val bs < 2 ^ 48" by simp
  then show ?thesis by (simp add: unat_of_nat)
qed

lemma unat_tagged: "unat (tagged t x) = unat (payload x) + 2 ^ 48 * unat t"
proof -
  have t: "unat t < 65536" using unsigned_less [of t, where ?'a = nat] by simp
  have p: "unat (payload x) < 2 ^ 48" 
    using take_bit_nat_less_exp [of 48 "unat x"] by (simp add: payload_def unsigned_take_bit_eq)
  have "tagged t x = payload x + push_bit 48 (ucast t)"
    unfolding tagged_def payload_def by (rule disjunctive_add [symmetric]) (auto simp: bit_simps)
  moreover have "unat (push_bit 48 (ucast t :: u64)) = 2 ^ 48 * unat t"
    using t by (simp add: push_bit_eq_mult unat_word_ariths unsigned_ucast_eq take_bit_eq_mod)
  ultimately show ?thesis using t p by (simp add: unat_word_ariths)
qed

lemma le_bytes_add: "le_bytes (n + m) x = le_bytes n x @ le_bytes m (x div 256 ^ n)"
  by (induction n arbitrary: x) (simp_all add: div_mult2_eq)

lemma le_bytes_0: "le_bytes n 0 = replicate n 0"
  by (induction n) simp_all

lemma le_bytes_pad: "length bs \<le> n \<Longrightarrow> le_bytes n (le_val bs) = bs @ replicate (n - length bs) 0"
  using le_bytes_add [of "length bs" "n - length bs" "le_val bs"] le_val_bound [of bs]
  by (simp add: le_bytes_le_val le_bytes_0)

lemma inline_string:
  assumes "length bs \<le> 6"
  shows "tag_of (inline_payload bs AND NOT V7_TAG_MASK OR tagged t 0) = t"
    and "le_bytes 8 (unat (inline_payload bs AND NOT V7_TAG_MASK OR tagged t 0))
       = bs @ replicate (6 - length bs) 0 @ le_bytes 2 (unat t)"
proof -
  let ?n = "le_val bs" and ?x = "inline_payload bs AND NOT V7_TAG_MASK OR tagged t 0"
  note small = le_val_small [OF assms]
  have x: "?x = tagged t (inline_payload bs)" by (simp only: and_not_tag_mask set_tag)
  show "tag_of ?x = t" by (simp add: x)
  have "unat (payload (inline_payload bs)) = ?n"
    using small by (simp add: payload_def inline_payload_def unsigned_take_bit_eq take_bit_nat_eq_self)
  then have n: "unat ?x = ?n + 2 ^ 48 * unat t" by (simp only: x unat_tagged)
  have "unat ?x mod 256 ^ 6 = ?n" "unat ?x div 256 ^ 6 = unat t" using small by (simp_all add: n)
  moreover have "le_bytes 6 (unat ?x) = le_bytes 6 (unat ?x mod 256 ^ 6)"
    by (metis le_bytes_le_val le_val_le_bytes length_le_bytes)
  ultimately show "le_bytes 8 (unat ?x) = bs @ replicate (6 - length bs) 0 @ le_bytes 2 (unat t)"
    using le_bytes_add [of 6 2 "unat ?x"] le_bytes_pad [OF assms] by simp
qed

lemma text_not_null: "text_at M p bs \<Longrightarrow> p \<noteq> NULL"
  by (cases p) (auto simp: NULL_def)

lemma of_nat_len:
  assumes "n < 2 ^ 31"
  shows "unat (of_nat n :: u64) = n \<and> (of_nat n :: u64) \<noteq> - 1"
proof -
  have "unat (of_nat (Suc n) :: u64) = Suc n" using assms by (simp only: unat_of_nat) simp
  then have "(of_nat n :: u64) + 1 \<noteq> 0" by (metis of_nat_Suc add.commute nat.distinct(1) unsigned_0)
  then have "(of_nat n :: u64) \<noteq> - 1" by (metis add.left_inverse)
  then show ?thesis using assms by (simp add: unat_of_nat)
qed

lemma get_string_data_tag:
  "tag_of x = 0xFFFA \<Longrightarrow> v7_get_string_data v x =
     Some (Static (drop 1 (le_bytes 8 (unat x))), scast (hd (le_bytes 8 (unat x))))"
  "tag_of x = 0xFFF9 \<Longrightarrow> v7_get_string_data v x = Some (Static (le_bytes 8 (unat x)), 5)"
  "tag_of x = 0xFFF3 \<Longrightarrow> unat (hd (le_bytes 8 (unat x))) < 164 \<Longrightarrow> v7_get_string_data v x =
     Some (Static (v_dictionary_strings ! unat (hd (le_bytes 8 (unat x))) @ [0]),
           of_nat (length (v_dictionary_strings ! unat (hd (le_bytes 8 (unat x))))))"
  by (simp_all only: v7_get_string_data_def kinds(7) and_tag_mask tags tagged_eq_iff Let_def dictionary_size) simp_all

lemma mk_string_short:
  assumes t: "text_at M p bs" and out: "outside M (owned_strings v)" and l: "length bs \<le> 4"
  obtains x where "v7_mk_string M A p (of_nat (length bs)) copy v = Some (x, v)" "string_bytes M v x = Some bs"
    "tag_of x \<in> {0xFFFA, 0xFFF9, 0xFFF3}"
proof -
  let ?c = "ucast (of_nat (length bs) :: u64) :: u8"
  let ?x = "inline_payload (?c # bs) AND NOT V7_TAG_MASK OR V7_TAG_STRING_I"
  note n = of_nat_len [of "length bs"]
  have le: "(of_nat (length bs) :: u64) \<le> 4" using l n by (simp add: word_le_nat_alt)
  have mk: "v7_mk_string M A p (of_nat (length bs)) copy v = Some (?x, v)"
    using fetch_text [OF t out] text_not_null [OF t] n l le
    by (simp add: v7_mk_string_def)
  have inl: "tag_of ?x = 0xFFFA" "le_bytes 8 (unat ?x) = (?c # bs) @ replicate (5 - length bs) 0 @ le_bytes 2 0xFFFA"
    using inline_string [of "?c # bs" "0xFFFA"] l by (simp_all add: tags(6))
  have c: "scast ?c = (of_nat (length bs) :: u64)"
  proof -
    consider "length bs = 0" | "length bs = 1" | "length bs = 2" | "length bs = 3" | "length bs = 4"
      using l by linarith
    then show ?thesis by cases simp_all
  qed
  have "v7_get_string_data v ?x = Some (Static (bs @ replicate (5 - length bs) 0 @ le_bytes 2 0xFFFA), of_nat (length bs))"
    by (simp add: get_string_data_tag(1) [OF inl(1)] inl(2) c)
  then have "string_bytes M v ?x = Some bs" using n l by (simp add: string_bytes_def)
  with mk inl(1) show thesis by (intro that [of ?x]) simp_all
qed

lemma mk_string_five:
  assumes t: "text_at M p bs" and out: "outside M (owned_strings v)" and l: "length bs = 5"
  obtains x where "v7_mk_string M A p 5 copy v = Some (x, v)" "string_bytes M v x = Some bs"
    "tag_of x \<in> {0xFFFA, 0xFFF9, 0xFFF3}"
proof -
  let ?x = "inline_payload bs AND NOT V7_TAG_MASK OR V7_TAG_STRING_5"
  have mk: "v7_mk_string M A p 5 copy v = Some (?x, v)"
    using fetch_text [OF t out] text_not_null [OF t] l by (simp add: v7_mk_string_def)
  have inl: "tag_of ?x = 0xFFF9" "le_bytes 8 (unat ?x) = bs @ [0] @ le_bytes 2 0xFFF9"
    using inline_string [of bs "0xFFF9"] l by (simp_all add: tags(7))
  have "v7_get_string_data v ?x = Some (Static (bs @ [0] @ le_bytes 2 0xFFF9), 5)"
    by (simp add: get_string_data_tag(2) [OF inl(1)] inl(2))
  then have "string_bytes M v ?x = Some bs" using l by (simp add: string_bytes_def)
  with mk inl(1) show thesis by (intro that [of ?x]) simp_all
qed

lemma mk_string_dictionary:
  assumes t: "text_at M p bs" and out: "outside M (owned_strings v)" and l: "5 < length bs" "bs \<in> set v_dictionary_strings"
  obtains x where "v7_mk_string M A p (of_nat (length bs)) copy v = Some (x, v)" "string_bytes M v x = Some bs"
    "tag_of x \<in> {0xFFFA, 0xFFF9, 0xFFF3}"
proof -
  obtain i where i: "i < 164" "v_dictionary_strings ! i = bs"
    using l(2) by (auto simp: in_set_conv_nth dictionary_size)
  have len: "length bs < 2 ^ 31" using dictionary_entries [OF l(2)] by simp
  let ?x = "inline_payload [of_nat i] AND NOT V7_TAG_MASK OR V7_TAG_STRING_D"
  note n = of_nat_len [OF len]
  have big: "\<not> (of_nat (length bs) :: u64) \<le> 4" "(of_nat (length bs) :: u64) \<noteq> 5"
    using l n by (auto simp: word_le_nat_alt)
  have dict: "v_find_string_in_dictionary (Some bs) = Some i" using i len find_in_dictionary by blast
  have mk: "v7_mk_string M A p (of_nat (length bs)) copy v = Some (?x, v)"
    using fetch_text [OF t out] text_not_null [OF t] n big dict by (simp add: v7_mk_string_def)
  have inl: "tag_of ?x = 0xFFF3" "hd (le_bytes 8 (unat ?x)) = of_nat i"
    using inline_string [of "[of_nat i]" "0xFFF3"] by (simp_all add: tags(13))
  have "unat (of_nat i :: u8) = i" using i(1) by (simp add: unat_of_nat)
  then have "v7_get_string_data v ?x = Some (Static (bs @ [0]), of_nat (length bs))"
    using i get_string_data_tag(3) [OF inl(1)] inl(2) by simp
  then have "string_bytes M v ?x = Some bs" using n by (simp add: string_bytes_def)
  with mk inl(1) show thesis by (intro that [of ?x]) simp_all
qed

subsection \<open>Creating an owned string\<close>

text \<open>An allocator that does not fail and answers blocks of user space outside all other memory.\<close>

definition alloc_ok :: "memory \<Rightarrow> allocator \<Rightarrow> bool" where
  "alloc_ok M A \<longleftrightarrow> (\<forall>old n. 0 < n \<and> unat n < 2 ^ 40 \<longrightarrow>
     new_addr A old n \<noteq> 0 \<and> unat (new_addr A old n) + unat n < 2 ^ 48 \<and>
     (\<forall>a. new_addr A old n \<le> a \<and> a - new_addr A old n < n \<longrightarrow> M a = None))"

lemma alloc_okD:
  assumes "alloc_ok M A" "0 < n" "unat n < 2 ^ 40"
  shows "new_addr A old n \<noteq> 0" "unat (new_addr A old n) + unat n < 2 ^ 48"
    "new_addr A old n \<le> a \<Longrightarrow> a - new_addr A old n < n \<Longrightarrow> M a = None"
  using assms unfolding alloc_ok_def by blast+

lemma resize_fits:
  assumes "fits m" "outside M m" "alloc_ok M A" "0 < n" "unat n < 2 ^ 40"
  shows "fits (mbuf_resize A m n)" "outside M (mbuf_resize A m n)"
    "content (mbuf_resize A m n) = content m" "mb_len (mbuf_resize A m n) = mb_len m"
    "mb_size m < n \<Longrightarrow> mb_size (mbuf_resize A m n) = n"
proof -
  note spec = mbuf_resize_spec [of m A n] and a = alloc_okD [OF assms(3-5)]
  show "content (mbuf_resize A m n) = content m" "mb_len (mbuf_resize A m n) = mb_len m"
    using spec assms(1) by (simp_all add: fits_def)
  show "fits (mbuf_resize A m n)"
    using spec assms(1) a(1,2) by (auto simp: fits_def mbuf_resize_def Let_def)
  show "outside M (mbuf_resize A m n)"
    using assms(2) a(3) by (auto simp: outside_def in_buffer_def mbuf_resize_def Let_def)
  show "mb_size m < n \<Longrightarrow> mb_size (mbuf_resize A m n) = n"
    using a(1) by (simp add: mbuf_resize_def Let_def)
qed

text \<open>Making room at the end.\<close>

lemma insert_room:
  assumes fit: "fits m" and out: "outside M m" and A: "alloc_ok M A"
    and small: "unat (mb_len m) < 2 ^ 32" "unat n < 2 ^ 32"
  obtains m' where "mbuf_insert A m (mb_len m) None n = Some (n, m')" "fits m'" "outside M m'"
    "mb_len m' = mb_len m + n" "take (unat (mb_len m)) (mb_data m') = content m"
    "unat (mb_len m) + unat n \<le> length (mb_data m')"
proof -
  have ok: "mbuf_ok m" "mb_len m \<le> mb_size m" "length (mb_data m) = unat (mb_size m)"
    using fit by (simp_all add: fits_def mbuf_ok_def)
  have add: "unat (mb_len m + n) = unat (mb_len m) + unat n"
      "unat (times_1_5 (mb_len m + n)) = (unat (mb_len m) + unat n) * 3 div 2"
    using unat_small_add [of "mb_len m" n] small by simp_all
  have "unat (mb_addr m) < 2 ^ 48" using fit by (simp add: fits_def)
  then have room: "\<not> - 1 - mb_addr m < n"
    using small(2) by (simp add: word_less_nat_alt unat_sub_if' unsigned_minus_1_eq_mask mask_eq_exp_minus_1)
  have same: "insert_data (unat (mb_len m)) k None (unat (mb_len m)) xs = xs"
    if "unat (mb_len m) + k \<le> length xs" for k and xs :: "u8 list"
    using that by (simp add: insert_data_def overwrite_def)
  show thesis
  proof (cases "mb_len m + n \<le> mb_size m")
    case True
    then have le: "unat (mb_len m) + unat n \<le> length (mb_data m)"
      using ok(3) add(1) by (simp add: word_le_nat_alt)
    let ?m = "m\<lparr>mb_len := mb_len m + n\<rparr>"
    have "mbuf_insert A m (mb_len m) None n = Some (n, ?m)"
      using ok room True same [OF le] by (simp add: mbuf_insert_def)
    moreover have "fits ?m" "outside M ?m"
      using fit out True by (simp_all add: fits_def mbuf_ok_def outside_def in_buffer_def)
    ultimately show thesis using le by (intro that [of ?m]) (simp_all add: content_def)
  next
    case False
    let ?n = "times_1_5 (mb_len m + n)"
    have n: "0 < ?n" "unat ?n < 2 ^ 40" using add(2) small False
      by (auto simp: word_less_nat_alt word_le_nat_alt add(1))
    note a = alloc_okD [OF A n, of "mb_addr m"]
    let ?d = "realloc_data A (unat ?n) (mb_data m)"
    let ?m = "\<lparr>mb_addr = new_addr A (mb_addr m) ?n, mb_data = ?d, mb_len = mb_len m + n, mb_size = ?n\<rparr>"
    have le: "unat (mb_len m) + unat n \<le> length ?d" using add(2) by simp
    have "mbuf_insert A m (mb_len m) None n = Some (n, ?m)"
      using ok room False same [OF le] a(1) by (simp add: mbuf_insert_def Let_def)
    moreover have "fits ?m" "outside M ?m"
      using a add by (auto simp: fits_def mbuf_ok_def outside_def in_buffer_def word_le_nat_alt)
    moreover have "take (unat (mb_len m)) ?d = content m"
      using le ok by (simp add: content_def take_realloc_data word_le_nat_alt)
    ultimately show thesis using le by (intro that [of ?m]) simp_all
  qed
qed

lemma overwrite_twice:
  assumes "off + length a + length b \<le> length xs"
  shows "overwrite (off + length a) b (overwrite off a xs) = overwrite off (a @ b) xs"
  using assms by (simp add: overwrite_def add.commute add.left_commute)

lemma store_twice:
  assumes "off + length a + length b \<le> length (mb_data m)"
  shows "do { m1 \<leftarrow> store off a m; store (off + length a) b m1 } = store off (a @ b) m"
  using assms by (simp add: store_def length_overwrite overwrite_twice)

lemma store_tail:
  assumes "fits m" "outside M m" "mb_len m = of_nat (off + length bs)" "off + length bs \<le> length (mb_data m)"
    "off + length bs < 2 ^ 40"
  obtains m' where "store off bs m = Some m'" "fits m'" "outside M m'" "mb_addr m' = mb_addr m"
    "mb_size m' = mb_size m" "mb_len m' = mb_len m" "content m' = take off (mb_data m) @ bs"
proof -
  let ?m = "m\<lparr>mb_data := overwrite off bs (mb_data m)\<rparr>"
  have "length (overwrite off bs (mb_data m)) = length (mb_data m)"
    using assms(4) by (simp add: length_overwrite)
  then have "fits ?m" "outside M ?m"
    using assms(1,2) by (simp_all add: fits_def mbuf_ok_def outside_def in_buffer_def)
  moreover have "unat (mb_len m) = off + length bs" using assms(3,5) by (simp only: unat_of_nat) simp
  then have "content ?m = take off (mb_data m) @ bs"
    using assms(4) by (simp add: content_def overwrite_def)
  ultimately show thesis using assms(4) by (intro that [of ?m]) (simp_all add: store_def)
qed

lemma store_bind:
  assumes "off + length a + length b \<le> length (mb_data m)"
  shows "Option.bind (store off a m) (\<lambda>m1. store (off + length a) b m1) = store off (a @ b) m"
  using store_twice [OF assms] .

lemma store_same: "off + n \<le> length (mb_data m) \<Longrightarrow> store off (take n (drop off (mb_data m))) m = Some m"
proof -
  assume le: "off + n \<le> length (mb_data m)"
  have "overwrite off (take n (drop off (mb_data m))) (mb_data m)
      = take off (mb_data m) @ take n (drop off (mb_data m)) @ drop n (drop off (mb_data m))"
    using le by (simp add: overwrite_def add.commute)
  also have "\<dots> = mb_data m" by (simp only: append_take_drop_id)
  finally show ?thesis using le by (simp add: store_def)
qed

lemma in_data:
  assumes fit: "fits m" and a: "mb_addr m \<le> a" "a < mb_addr m + mb_len m"
  shows "in_buffer m a"
proof -
  have le: "unat (mb_len m) \<le> unat (mb_size m)"
    using fit by (simp add: fits_def mbuf_ok_def word_le_nat_alt)
  have "unat (mb_addr m) + unat (mb_size m) < 2 ^ 48" using fit by (simp add: fits_def)
  with le have "unat (mb_addr m) + unat (mb_len m) < 2 ^ 64" by simp
  then have "unat (mb_addr m + mb_len m) = unat (mb_addr m) + unat (mb_len m)"
    by (simp add: unat_word_ariths)
  then have "unat a < unat (mb_addr m) + unat (mb_len m)" using a(2) by (simp add: word_less_nat_alt)
  moreover have "unat (a - mb_addr m) = unat a - unat (mb_addr m)" using a(1) by (rule unat_sub)
  moreover have "unat (mb_addr m) \<le> unat a" using a(1) by (simp add: word_le_nat_alt)
  ultimately have "unat (a - mb_addr m) < unat (mb_size m)" using le by linarith
  then show ?thesis using a(1) by (simp add: in_buffer_def word_less_nat_alt)
qed

lemma not_backed:
  assumes "fits m" "outside M m" "p = NULL \<or> (text_at M p bs \<and> bs \<noteq> [])"
  shows "\<not> (case p of Address a \<Rightarrow> mb_addr m \<le> a \<and> a < mb_addr m + mb_len m | Static _ \<Rightarrow> False)"
proof (cases p)
  case (Address a)
  show ?thesis
  proof
    assume "case p of Address a \<Rightarrow> mb_addr m \<le> a \<and> a < mb_addr m + mb_len m | Static _ \<Rightarrow> False"
    with Address have a: "mb_addr m \<le> a" "a < mb_addr m + mb_len m" by simp_all
    with assms(1,2) have "M a = None" using in_data by (auto simp: outside_def)
    moreover have "a \<noteq> 0" using a(1) assms(1) by (auto simp: fits_def)
    ultimately show False using assms(3) Address by (cases bs) (auto simp: NULL_def)
  qed
qed simp

text \<open>Embedding at the end, from a text outside the buffer or without a text.\<close>

lemma embed_end:
  assumes fit: "fits m" and out: "outside M m" and A: "alloc_ok M A"
    and t: "p = NULL \<or> (text_at M p bs \<and> bs \<noteq> [])" and l: "length bs < 2 ^ 31"
    and small: "unat (mb_len m) + 2 ^ 31 + 8 < 2 ^ 32"
  obtains m' xs where "embed_string M A m (mb_len m) p (of_nat (length bs)) True False = Some m'"
    "fits m'" "outside M m'" "content m' = content m @ varint_of bs @ xs @ [0]"
    "length xs = length bs" "p \<noteq> NULL \<Longrightarrow> xs = bs"
proof -
  let ?k = "length (varint_of bs)" and ?n = "of_nat (length bs) :: u64" and ?off = "unat (mb_len m)"
  let ?tot = "of_nat ?k + ?n + 1"
  note v = varint_of [OF l]
  have ut: "unat ?tot = ?k + length bs + 1"
    using v(4) l by (simp add: unat_word_ariths unat_of_nat)
  obtain m1 where m1: "mbuf_insert A m (mb_len m) None ?tot = Some (?tot, m1)" "fits m1" "outside M m1"
    "mb_len m1 = mb_len m + ?tot" "take ?off (mb_data m1) = content m"
    "?off + unat ?tot \<le> length (mb_data m1)"
    by (rule insert_room [OF fit out A, of ?tot]) (use small ut v(4) l in simp_all)
  have room: "?off + ?k + length bs + 1 \<le> length (mb_data m1)" using m1(6) ut by simp
  define xs where "xs = (if p = NULL then take (length bs) (drop (?off + ?k) (mb_data m1)) else bs)"
  have xs: "length xs = length bs" using room by (simp add: xs_def)
  let ?all = "varint_of bs @ xs @ [0]"
  obtain m2 where m2: "store ?off ?all m1 = Some m2" "fits m2" "outside M m2" "mb_addr m2 = mb_addr m1"
      "mb_size m2 = mb_size m1" "mb_len m2 = mb_len m1" "content m2 = take ?off (mb_data m1) @ ?all"
  proof (rule store_tail [OF m1(2,3), of ?off ?all])
    show "mb_len m1 = of_nat (?off + length ?all)" using m1(4) xs by (simp add: ac_simps)
    show "?off + length ?all \<le> length (mb_data m1)" "?off + length ?all < 2 ^ 40"
      using room xs small v(4) l by simp_all
  qed
  obtain m3 where m3: "store ?off (varint_of bs) m1 = Some m3" "length (mb_data m3) = length (mb_data m1)"
      "take (length bs) (drop (?off + ?k) (mb_data m3)) = take (length bs) (drop (?off + ?k) (mb_data m1))"
      "outside M m3"
    using room m1(3)
    by (auto simp: store_def length_overwrite overwrite_def outside_def in_buffer_def)
  have put: "p = NULL \<Longrightarrow> store (?off + ?k) xs m3 = Some m3" "p \<noteq> NULL \<Longrightarrow> fetch M m3 p (length bs) = Some xs"
    using t fetch_text [of M p bs m3] m3 room store_same [of "?off + ?k" "length bs" m3] by (auto simp: xs_def)
  have last: "unat (mb_len m + (of_nat ?k + ?n)) = ?off + ?k + length xs"
  proof -
    have "mb_len m + (of_nat ?k + ?n) = mb_len m + of_nat (?k + length xs)" using xs by simp
    then show ?thesis
      using small v(4) l xs by (simp add: unat_word_ariths unat_of_nat del: of_nat_add)
  qed
  have "Option.bind (store (?off + ?k) xs m3) (\<lambda>m4. store (?off + ?k + length xs) [0] m4)
      = store (?off + ?k) (xs @ [0]) m3"
    by (rule store_bind) (use room xs m3(2) in simp)
  also have "\<dots> = Some m2"
    using store_bind [of ?off "varint_of bs" "xs @ [0]" m1] room xs m2(1) m3(1) by simp
  finally have fin: "Option.bind (store (?off + ?k) xs m3) (\<lambda>m4. store (?off + ?k + length xs) [0] m4) = Some m2" .
  have n: "unat ?n = length bs" using l by (simp add: unat_of_nat)
  have p: "(case q of Address a \<Rightarrow> if False then Address (f a) else q | Static _ \<Rightarrow> q) = q" for q f
    by (cases q) simp_all
  have "embed_string M A m (mb_len m) p ?n True False = Some m2"
    using not_backed [OF fit out t] v(1) m1(1) m3(1) put fin n
    by (cases "p = NULL") (simp_all add: embed_string_def Let_def p last)
  then show thesis using m2 m1(5) xs by (intro that [of m2 xs]) (simp_all add: xs_def)
qed

text \<open>A new owned string, from a text outside the buffer or (for \<open>s_concat\<close>) with bytes still to be filled.\<close>

lemma heap_append: "packed (ss @ [s]) = packed ss @ block s"
  by (simp add: packed_def)

lemma mk_string_owned:
  assumes ok: "strings_ok v ss" and out: "outside M (owned_strings v)" and A: "alloc_ok M A"
    and t: "p = NULL \<or> (text_at M p bs \<and> bs \<notin> set v_dictionary_strings)"
    and l: "5 < length bs" "length bs < 2 ^ 31" and room: "length (packed ss) + length bs + 520 < 2 ^ 31"
  obtains x v' m xs where "v7_mk_string M A p (of_nat (length bs)) True v = Some (x, v')"
    "x = tagged 0xFFF8 (of_nat (length (packed ss)) OR push_bit 32 (ucast (gc_next_asn v)))"
    "v' = v\<lparr>owned_strings := m, need_gc := need_gc v', gc_next_asn := gc_next_asn v + 1\<rparr>"
    "fits m" "outside M m" "content m = packed ss @ varint_of bs @ xs @ [0]" "length xs = length bs"
    "p \<noteq> NULL \<longrightarrow> xs = bs"
proof -
  let ?m = "owned_strings v" and ?n = "of_nat (length bs) :: u64" and ?v = "compute_need_gc v"
  have fit: "fits ?m" and c: "content ?m = packed ss" using ok by (simp_all add: strings_ok_def)
  have cv: "owned_strings ?v = ?m" "foreign_strings ?v = foreign_strings v" "gc_next_asn ?v = gc_next_asn v"
      "?v = v\<lparr>need_gc := need_gc ?v\<rparr>"
    by (simp_all add: compute_need_gc_def)
  have lenm: "unat (mb_len ?m) = length (packed ss)"
    using length_content [of ?m] fit c by (simp add: fits_def)
  note n = of_nat_len [OF l(2)]
  have big: "\<not> ?n \<le> 4" "?n \<noteq> 5" using l n by (auto simp: word_le_nat_alt)
  have dict: "p \<noteq> NULL \<Longrightarrow> fetch M ?m p (length bs) = Some bs"
    "p \<noteq> NULL \<Longrightarrow> v_find_string_in_dictionary (Some bs) = None" "v_find_string_in_dictionary None = None"
  proof -
    show "p \<noteq> NULL \<Longrightarrow> fetch M ?m p (length bs) = Some bs"
      using t fetch_text [OF _ out, of p bs] by auto
    show "p \<noteq> NULL \<Longrightarrow> v_find_string_in_dictionary (Some bs) = None"
      using t find_in_dictionary [OF l(2)] by (metis dictionary_size nth_mem option.exhaust)
  qed (simp add: v_find_string_in_dictionary_def)
  define m where "m = (if mb_len ?m + ?n > mb_size ?m then mbuf_resize A ?m (mb_len ?m + ?n + V7_STRING_BUF_RESERVE) else ?m)"
  have sum: "unat (mb_len ?m + ?n + V7_STRING_BUF_RESERVE) = length (packed ss) + length bs + 500"
    using lenm n room by (simp add: V7_STRING_BUF_RESERVE_def unat_word_ariths)
  have m: "fits m" "outside M m" "content m = packed ss" "mb_len m = mb_len ?m"
    using resize_fits [OF fit out A, of "mb_len ?m + ?n + V7_STRING_BUF_RESERVE"] fit out c sum room
    by (auto simp: m_def word_less_nat_alt)
  have "p = NULL \<or> (text_at M p bs \<and> bs \<noteq> [])" using t l by auto
  from embed_end [OF m(1,2) A this l(2)] obtain m' xs where
    e: "embed_string M A m (mb_len m) p ?n True False = Some m'" "fits m'" "outside M m'"
      "content m' = content m @ varint_of bs @ xs @ [0]" "length xs = length bs" "p \<noteq> NULL \<Longrightarrow> xs = bs"
    using m(4) lenm room by auto
  let ?x = "(mb_len ?m OR push_bit 32 (ucast (gc_next_asn v))) AND NOT V7_TAG_MASK OR V7_TAG_STRING_O"
  let ?v' = "?v\<lparr>owned_strings := m', gc_next_asn := gc_next_asn v + 1\<rparr>"
  have mk: "v7_mk_string M A p ?n True v = Some (?x, ?v')"
    using n big dict e(1) [unfolded m_def] cv(1-3)
    by (cases "p = NULL"; cases "mb_size ?m < mb_len ?m + ?n")
       (simp_all add: v7_mk_string_def gc_next_allocation_seqn_def next_asn_eq Let_def)
  have "mb_len ?m = of_nat (length (packed ss))" by (simp flip: lenm)
  then have "?x = tagged 0xFFF8 (of_nat (length (packed ss)) OR push_bit 32 (ucast (gc_next_asn v)))"
    by (simp only: and_not_tag_mask tags set_tag)
  moreover have "?v' = v\<lparr>owned_strings := m', need_gc := need_gc ?v', gc_next_asn := gc_next_asn v + 1\<rparr>"
    by (simp add: compute_need_gc_def)
  ultimately show thesis using mk e m(3) by (intro that [of ?x ?v' m' xs]) simp_all
qed

text \<open>The fields of the value of an owned string.\<close>

definition owned_val :: "nat \<Rightarrow> u16 \<Rightarrow> val_t" where
  "owned_val off asn = tagged 0xFFF8 (of_nat off OR push_bit 32 (ucast asn))"

lemma val_to_offset: "gc_string_val_to_offset x = take_bit 32 x"
proof -
  have m: "(0xFFFFFFFF :: u64) = mask 32" by (simp add: mask_eq_exp_minus_1)
  show ?thesis
    unfolding gc_string_val_to_offset_def v7_to_pointer_payload tag_mask m payload_def
    by (rule bit_word_eqI) (auto simp: bit_simps)
qed

lemma owned_val_fields:
  assumes "off < 2 ^ 32"
  shows "tag_of (owned_val off asn) = 0xFFF8" "unat (gc_string_val_to_offset (owned_val off asn)) = off"
    "asn_of (owned_val off asn) = asn"
proof -
  show "tag_of (owned_val off asn) = 0xFFF8" by (simp add: owned_val_def)
  have u: "unat (of_nat off :: u64) = off" using assms by (simp add: unat_of_nat)
  then have o: "take_bit 32 (of_nat off :: u64) = of_nat off"
    using assms by (simp add: word_unat_eq_iff unsigned_take_bit_eq take_bit_nat_eq_self)
  have "take_bit 32 (owned_val off asn) = take_bit 32 (of_nat off :: u64)"
    unfolding owned_val_def tagged_def by (rule bit_word_eqI) (auto simp: bit_simps)
  then show "unat (gc_string_val_to_offset (owned_val off asn)) = off" by (simp add: val_to_offset o u)
  have m: "(0xFFFF :: u64) = mask 16" by (simp add: mask_eq_exp_minus_1)
  have "asn_of (tagged t y) = ucast (drop_bit 32 y)" for t y
    unfolding asn_of_def tagged_def m by (rule bit_word_eqI) (auto simp: bit_simps)
  moreover have "drop_bit 32 (of_nat off :: u64) = 0"
    by (subst o [symmetric], rule bit_word_eqI) (simp add: bit_simps)
  then have "ucast (drop_bit 32 (of_nat off OR push_bit 32 (ucast asn) :: u64)) = asn"
    by (simp add: drop_bit_or) (rule bit_word_eqI, auto simp: bit_simps)
  ultimately show "asn_of (owned_val off asn) = asn" by (simp add: owned_val_def)
qed

lemma offset_append: "i \<le> length ss \<Longrightarrow> offset (ss @ ts) i = offset ss i"
  by (simp add: offset_def)

lemma offset_length: "offset ss (length ss) = length (packed ss)"
  by (simp add: offset_def)

text \<open>One more string in the buffer.\<close>

lemma strings_ok_append:
  assumes ok: "strings_ok v ss" and m: "fits m" "content m = packed (ss @ [bs])" and l: "5 < length bs" "length bs < 2 ^ 31"
    and room: "length (packed (ss @ [bs])) < 2 ^ 32"
    and v': "owned_strings v' = m" "gc_next_asn v' = gc_next_asn v + 1" "gc_min_asn v' = gc_min_asn v"
    and asn: "asn_used v < 65535"
  shows "strings_ok v' (ss @ [bs])" "live v' (ss @ [bs]) (owned_val (length (packed ss)) (gc_next_asn v)) bs"
    "live v ss y s \<Longrightarrow> live v' (ss @ [bs]) y s"
proof -
  show "strings_ok v' (ss @ [bs])"
    using ok m l room by (simp add: strings_ok_def sizes_ok_def v')
  have valid: "gc_is_valid_allocation_seqn v' n \<longleftrightarrow> gc_is_valid_allocation_seqn (snd (next_asn v)) n" for n
    by (simp add: valid_asn_iff v' next_asn_eq)
  note a = asn_used_next [OF asn refl]
  have "length (packed ss) < 2 ^ 32" using room by (simp add: heap_append)
  note f = owned_val_fields [OF this, of "gc_next_asn v"]
  show "live v' (ss @ [bs]) (owned_val (length (packed ss)) (gc_next_asn v)) bs"
    unfolding live_def
  proof (intro conjI exI [of _ "length ss"])
    show "unat (gc_string_val_to_offset (owned_val (length (packed ss)) (gc_next_asn v))) = offset (ss @ [bs]) (length ss)"
      by (simp add: f offset_append offset_length)
  qed (use a(3) in \<open>simp_all add: f valid next_asn_eq\<close>)
  assume "live v ss y s"
  then obtain i where i: "i < length ss" "ss ! i = s" "unat (gc_string_val_to_offset y) = offset ss i"
      "tag_of y = 0xFFF8" "gc_is_valid_allocation_seqn v (asn_of y)"
    by (auto simp: live_def)
  then show "live v' (ss @ [bs]) y s"
    using a(2) [of "asn_of y"] by (auto simp: live_def valid nth_append offset_append intro!: exI [of _ i])
qed

lemma block_length: "length (block bs) = length (varint_of bs) + length bs + 1"
  by (simp add: block_def)

subsection \<open>Concatenation\<close>

text \<open>A value that denotes a string, in the buffer or by itself.\<close>

definition denotes :: "memory \<Rightarrow> v7 \<Rightarrow> u8 list list \<Rightarrow> val_t \<Rightarrow> u8 list \<Rightarrow> bool" where
  "denotes M v ss x s \<longleftrightarrow>
     live v ss x s \<or> (tag_of x \<in> {0xFFFA, 0xFFF9, 0xFFF3} \<and> string_bytes M v x = Some s \<and> length s < 2 ^ 31)"

lemma inline_data:
  assumes "tag_of x \<in> {0xFFFA, 0xFFF9, 0xFFF3}" "string_bytes M v x = Some s"
  obtains bs where "\<And>v. v7_get_string_data v x = Some (Static bs, of_nat (length s))" "take (length s) bs = s"
    "length s \<le> length bs"
proof -
  obtain bs n where d: "v7_get_string_data v x = Some (Static bs, n)" "unat n \<le> length bs" "take (unat n) bs = s"
    "\<And>v. v7_get_string_data v x = Some (Static bs, n)"
  proof -
    consider "tag_of x = 0xFFFA" | "tag_of x = 0xFFF9" | "tag_of x = 0xFFF3" using assms(1) by blast
    then obtain bs n where "\<And>v. v7_get_string_data v x = Some (Static bs, n)"
    proof cases
      case 3
      have "unat (hd (le_bytes 8 (unat x))) < 164"
      proof (rule ccontr)
        assume "\<not> unat (hd (le_bytes 8 (unat x))) < 164"
        then have "v7_get_string_data v x = None"
          using 3 by (simp only: v7_get_string_data_def kinds(7) and_tag_mask tags tagged_eq_iff Let_def dictionary_size) simp
        with assms(2) show False by (simp add: string_bytes_def)
      qed
      from get_string_data_tag(3) [OF 3 this] that show thesis by blast
    qed (use get_string_data_tag that in blast)+
    with assms(2) that show thesis by (auto simp: string_bytes_def split: if_splits)
  qed
  have "unat n = length s" using d(2,3) by auto
  then have "n = of_nat (length s)" by (simp flip: \<open>unat n = length s\<close>)
  with d \<open>unat n = length s\<close> show thesis by (intro that [of bs]) simp_all
qed

lemma denotes_data:
  assumes "strings_ok v ss" "denotes M v ss x s"
  obtains p where "v7_get_string_data v x = Some (p, of_nat (length s))" "length s < 2 ^ 31"
    "fetch M (owned_strings v) p (length s) = Some s"
proof (cases "live v ss x s")
  case True
  from live_data [OF assms(1) True, of M] that show thesis by (metis fetch.simps(2))
next
  case False
  then have i: "tag_of x \<in> {0xFFFA, 0xFFF9, 0xFFF3}" "string_bytes M v x = Some s" "length s < 2 ^ 31"
    using assms(2) by (auto simp: denotes_def)
  obtain bs where "v7_get_string_data v x = Some (Static bs, of_nat (length s))" "take (length s) bs = s"
    "length s \<le> length bs"
    by (rule inline_data [OF i(1,2)]) blast
  with i(3) that show thesis by simp
qed

lemma denotes_mono:
  assumes "denotes M v ss x s" "\<And>y s. live v ss y s \<Longrightarrow> live v' ss' y s"
  shows "denotes M v' ss' x s"
proof (cases "live v ss x s")
  case False
  then have i: "tag_of x \<in> {0xFFFA, 0xFFF9, 0xFFF3}" "string_bytes M v x = Some s" "length s < 2 ^ 31"
    using assms(1) by (auto simp: denotes_def)
  obtain bs where "v7_get_string_data v' x = Some (Static bs, of_nat (length s))" "take (length s) bs = s"
    "length s \<le> length bs"
    by (rule inline_data [OF i(1,2)]) blast
  then have "string_bytes M v' x = Some s" using i(3) by (simp add: string_bytes_def unat_of_nat)
  with i show ?thesis by (simp add: denotes_def)
qed (use assms(2) in \<open>simp add: denotes_def\<close>)

lemma denotes_bytes: "strings_ok v ss \<Longrightarrow> denotes M v ss x s \<Longrightarrow> string_bytes M v x = Some s"
  using live_bytes(1) by (auto simp: denotes_def)

text \<open>Creating any string: it reads back, and the other strings still read the same.\<close>

lemma mk_string_spec:
  assumes ok: "strings_ok v ss" and out: "outside M (owned_strings v)" and A: "alloc_ok M A"
    and t: "text_at M p bs" and l: "length bs < 2 ^ 31" and room: "length (packed ss) + length bs + 520 < 2 ^ 31"
    and asn: "asn_used v < 65535"
  obtains x v' ss' where "v7_mk_string M A p (of_nat (length bs)) True v = Some (x, v')"
    "denotes M v' ss' x bs" "strings_ok v' ss'" "outside M (owned_strings v')"
    "\<And>y s. live v ss y s \<Longrightarrow> live v' ss' y s" "asn_used v' \<le> Suc (asn_used v)"
proof (cases "length bs \<le> 5 \<or> bs \<in> set v_dictionary_strings")
  case True
  consider "length bs \<le> 4" | "length bs = 5" | "5 < length bs" "bs \<in> set v_dictionary_strings"
    using True by linarith
  then obtain x where "v7_mk_string M A p (of_nat (length bs)) True v = Some (x, v)" "denotes M v ss x bs"
  proof cases
    case 1
    obtain x where "v7_mk_string M A p (of_nat (length bs)) True v = Some (x, v)" "string_bytes M v x = Some bs"
      "tag_of x \<in> {0xFFFA, 0xFFF9, 0xFFF3}"
      by (rule mk_string_short [OF t out 1])
    with l that [of x] show thesis by (simp add: denotes_def)
  next
    case 2
    obtain x where "v7_mk_string M A p 5 True v = Some (x, v)" "string_bytes M v x = Some bs"
      "tag_of x \<in> {0xFFFA, 0xFFF9, 0xFFF3}"
      by (rule mk_string_five [OF t out 2])
    with l 2 that [of x] show thesis by (simp add: denotes_def)
  next
    case 3
    obtain x where "v7_mk_string M A p (of_nat (length bs)) True v = Some (x, v)" "string_bytes M v x = Some bs"
      "tag_of x \<in> {0xFFFA, 0xFFF9, 0xFFF3}"
      by (rule mk_string_dictionary [OF t out 3])
    with l that [of x] show thesis by (simp add: denotes_def)
  qed
  with ok out show thesis by (intro that [of x v ss]) simp_all
next
  case False
  then have l': "5 < length bs" and t': "p = NULL \<or> (text_at M p bs \<and> bs \<notin> set v_dictionary_strings)"
    using t by auto
  obtain x v' m xs where mk: "v7_mk_string M A p (of_nat (length bs)) True v = Some (x, v')"
      "x = tagged 0xFFF8 (of_nat (length (packed ss)) OR push_bit 32 (ucast (gc_next_asn v)))"
      "v' = v\<lparr>owned_strings := m, need_gc := need_gc v', gc_next_asn := gc_next_asn v + 1\<rparr>"
      "fits m" "outside M m" "content m = packed ss @ varint_of bs @ xs @ [0]" "p \<noteq> NULL \<longrightarrow> xs = bs"
    by (rule mk_string_owned [OF ok out A t' l' l room])
  have v': "owned_strings v' = m" "gc_next_asn v' = gc_next_asn v + 1" "gc_min_asn v' = gc_min_asn v"
    by (subst mk(3), simp)+
  have c: "content m = packed (ss @ [bs])"
    using mk(6,7) text_not_null [OF t] by (simp add: heap_append block_def)
  have r: "length (packed (ss @ [bs])) < 2 ^ 32"
    using room varint_of(4) [OF l] by (simp add: heap_append block_length)
  note app = strings_ok_append [OF ok mk(4) c l' l r v' asn]
  have "denotes M v' (ss @ [bs]) x bs" using app(2) by (simp add: denotes_def mk(2) owned_val_def)
  moreover have "asn_used v' \<le> Suc (asn_used v)"
    using asn_used_next(1) [OF asn refl] by (simp add: asn_used_def v' next_asn_eq)
  ultimately show thesis using mk(1,5) app(1,3) v'(1) by (intro that [of x v' "ss @ [bs]"]) simp_all
qed

lemma s_cmp_spec:
  assumes "strings_ok v ss" "denotes M v ss x s" "denotes M v ss y t"
  shows "s_cmp M v x y = Some (if length s = length t then memcmp s t else if length s > length t then 1 else - 1)"
proof -
  obtain p where p: "v7_get_string_data v x = Some (p, of_nat (length s))" "length s < 2 ^ 31"
    "fetch M (owned_strings v) p (length s) = Some s"
    by (rule denotes_data [OF assms(1,2)])
  obtain q where q: "v7_get_string_data v y = Some (q, of_nat (length t))" "length t < 2 ^ 31"
    "fetch M (owned_strings v) q (length t) = Some t"
    by (rule denotes_data [OF assms(1,3)])
  have n: "unat (of_nat (length s) :: u64) = length s" "unat (of_nat (length t) :: u64) = length t"
    using p(2) q(2) by (simp_all add: unat_of_nat)
  then have eq: "(of_nat (length s) :: u64) = of_nat (length t) \<longleftrightarrow> length s = length t"
    "(of_nat (length s) :: u64) > of_nat (length t) \<longleftrightarrow> length s > length t"
    by (metis, simp add: word_less_nat_alt)
  show ?thesis using p q n eq by (auto simp: s_cmp_def)
qed

text \<open>A short concatenation is the value that creating the string answers.\<close>

lemma word_of_bytes: "le_bytes 8 (unat (x :: u64)) = bs \<Longrightarrow> of_nat (le_val bs) = x"
proof -
  assume "le_bytes 8 (unat x) = bs"
  moreover have "unat x mod 256 ^ 8 = unat x" using unsigned_less [of x, where ?'a = nat] by simp
  ultimately have "le_val bs = unat x" using le_val_le_bytes [of 8 "unat x"] by simp
  then show ?thesis by simp
qed

lemma unat_add_lengths: "n + m < 2 ^ 31 \<Longrightarrow> (of_nat n + of_nat m :: u64) = of_nat (n + m)"
  by simp

lemma mk_null_short:
  assumes "n \<le> 4"
  shows "v7_mk_string M A NULL (of_nat n) True v
    = Some (inline_payload (ucast (of_nat n :: u64) # replicate n 0) AND NOT V7_TAG_MASK OR V7_TAG_STRING_I, v)"
proof -
  have "(of_nat n :: u64) \<noteq> - 1" "unat (of_nat n :: u64) = n" using of_nat_len [of n] assms by simp_all
  moreover have "(of_nat n :: u64) \<le> 4" using assms calculation(2) by (simp add: word_le_nat_alt)
  ultimately show ?thesis by (simp add: v7_mk_string_def NULL_def)
qed

lemma concat_short:
  assumes ok: "strings_ok v ss" and x: "denotes M v ss x s" and y: "denotes M v ss y t" and l: "length (s @ t) \<le> 4"
    and p: "text_at M p (s @ t)" and out: "outside M (owned_strings v)"
  shows "s_concat M A x y v = v7_mk_string M A p (of_nat (length (s @ t))) True v"
proof -
  define w where "w = s @ t"
  let ?n = "length w"
  let ?c = "ucast (of_nat ?n :: u64) :: u8"
  have l': "?n \<le> 4" using l by (simp add: w_def)
  obtain p1 where p1: "v7_get_string_data v x = Some (p1, of_nat (length s))" "length s < 2 ^ 31"
    "fetch M (owned_strings v) p1 (length s) = Some s"
    by (rule denotes_data [OF ok x])
  obtain p2 where p2: "v7_get_string_data v y = Some (p2, of_nat (length t))" "length t < 2 ^ 31"
    "fetch M (owned_strings v) p2 (length t) = Some t"
    by (rule denotes_data [OF ok y])
  let ?z = "inline_payload (?c # replicate ?n 0) AND NOT V7_TAG_MASK OR V7_TAG_STRING_I"
  let ?r = "inline_payload (?c # w) AND NOT V7_TAG_MASK OR V7_TAG_STRING_I"
  have zf: "tag_of ?z = 0xFFFA" "le_bytes 8 (unat ?z) = (?c # replicate ?n 0) @ replicate (5 - ?n) 0 @ le_bytes 2 0xFFFA"
    using inline_string [of "?c # replicate ?n 0" "0xFFFA"] l' by (simp_all add: tags(6))
  have r: "le_bytes 8 (unat ?r) = (?c # w) @ replicate (5 - ?n) 0 @ le_bytes 2 0xFFFA"
    using inline_string(2) [of "?c # w" "0xFFFA"] l' by (simp add: tags(6))
  have "overwrite 1 w (le_bytes 8 (unat ?z)) = le_bytes 8 (unat ?r)"
    unfolding zf(2) r using l' by (simp add: overwrite_def)
  then have val: "of_nat (le_val (overwrite 1 w (le_bytes 8 (unat ?z)))) = ?r"
    by (simp add: word_of_bytes)
  have "s_concat M A x y v = Some (?r, v)"
    using p1 p2 mk_null_short [OF l', of M A v] get_string_data_tag(1) [OF zf(1), of v] val l'
    by (simp add: s_concat_def unat_of_nat Let_def w_def)
  moreover have "v7_mk_string M A p (of_nat ?n) True v = Some (?r, v)"
  proof -
    have "(of_nat ?n :: u64) \<le> 4" "unat (of_nat ?n :: u64) = ?n" "(of_nat ?n :: u64) \<noteq> - 1"
      using l' of_nat_len [of ?n] by (simp_all add: word_le_nat_alt)
    then show ?thesis
      using fetch_text [OF p out] text_not_null [OF p] by (simp add: v7_mk_string_def flip: w_def)
  qed
  ultimately show ?thesis by (simp add: w_def)
qed

lemma concat_five:
  assumes ok: "strings_ok v ss" and x: "denotes M v ss x s" and y: "denotes M v ss y t" and l: "length (s @ t) = 5"
    and p: "text_at M p (s @ t)" and out: "outside M (owned_strings v)"
  shows "s_concat M A x y v = v7_mk_string M A p 5 True v"
proof -
  define w where "w = s @ t"
  have l': "length w = 5" using l by (simp add: w_def)
  obtain p1 where p1: "v7_get_string_data v x = Some (p1, of_nat (length s))" "length s < 2 ^ 31"
    "fetch M (owned_strings v) p1 (length s) = Some s"
    by (rule denotes_data [OF ok x])
  obtain p2 where p2: "v7_get_string_data v y = Some (p2, of_nat (length t))" "length t < 2 ^ 31"
    "fetch M (owned_strings v) p2 (length t) = Some t"
    by (rule denotes_data [OF ok y])
  let ?z = "inline_payload (replicate 5 0) AND NOT V7_TAG_MASK OR V7_TAG_STRING_5"
  let ?r = "inline_payload w AND NOT V7_TAG_MASK OR V7_TAG_STRING_5"
  have zf: "tag_of ?z = 0xFFF9" "le_bytes 8 (unat ?z) = replicate 5 0 @ replicate 1 0 @ le_bytes 2 0xFFF9"
    using inline_string [of "replicate 5 0" "0xFFF9"] by (simp_all add: tags(7))
  have r: "le_bytes 8 (unat ?r) = w @ replicate 1 0 @ le_bytes 2 0xFFF9"
    using inline_string(2) [of w "0xFFF9"] l' by (simp add: tags(7))
  have "overwrite 0 w (le_bytes 8 (unat ?z)) = le_bytes 8 (unat ?r)"
    unfolding zf(2) r using l' by (simp add: overwrite_def)
  then have val: "of_nat (le_val (overwrite 0 w (le_bytes 8 (unat ?z)))) = ?r"
    by (simp add: word_of_bytes)
  have null: "v7_mk_string M A NULL 5 True v = Some (?z, v)" by (simp add: v7_mk_string_def NULL_def)
  have five: "(of_nat (length s) + of_nat (length t) :: u64) = 5"
    using l by (metis length_append of_nat_add of_nat_numeral)
  have "s_concat M A x y v = Some (?r, v)"
    using p1 p2 null five get_string_data_tag(2) [OF zf(1), of v] val l
    by (simp add: s_concat_def unat_of_nat Let_def w_def)
  moreover have "v7_mk_string M A p 5 True v = Some (?r, v)"
    using fetch_text [OF p out] text_not_null [OF p] l' by (simp add: v7_mk_string_def flip: w_def)
  ultimately show ?thesis by simp
qed

lemma content_overwrite:
  assumes "mbuf_ok m" "content m = pre @ xs @ post" "length w = length xs"
  shows "content (m\<lparr>mb_data := overwrite (length pre) w (mb_data m)\<rparr>) = pre @ w @ post"
proof -
  let ?n = "unat (mb_len m)" and ?d = "mb_data m"
  have n: "?n = length pre + length xs + length post"
    using length_content [OF assms(1)] assms(2) by simp
  have d: "?d = (pre @ xs @ post) @ drop ?n ?d"
    using assms(2) by (metis append_take_drop_id content_def)
  have "overwrite (length pre) w ?d = (pre @ w @ post) @ drop ?n ?d"
    by (subst d) (simp add: overwrite_def assms(3))
  then show ?thesis using n assms(3) by (simp add: content_def)
qed

lemma concat_long:
  assumes ok: "strings_ok v ss" and out: "outside M (owned_strings v)" and A: "alloc_ok M A"
    and x: "denotes M v ss x s" and y: "denotes M v ss y t"
    and l: "5 < length (s @ t)" "length (s @ t) < 2 ^ 31" and room: "length (packed ss) + length (s @ t) + 520 < 2 ^ 31"
    and asn: "asn_used v < 65535"
  obtains v' where "s_concat M A x y v = Some (owned_val (length (packed ss)) (gc_next_asn v), v')"
    "strings_ok v' (ss @ [s @ t])" "outside M (owned_strings v')"
    "live v' (ss @ [s @ t]) (owned_val (length (packed ss)) (gc_next_asn v)) (s @ t)"
    "\<And>z u. live v ss z u \<Longrightarrow> live v' (ss @ [s @ t]) z u"
proof -
  define w where "w = s @ t"
  note l' = l [folded w_def]
  obtain r v1 m xs where mk: "v7_mk_string M A NULL (of_nat (length w)) True v = Some (r, v1)"
      "r = tagged 0xFFF8 (of_nat (length (packed ss)) OR push_bit 32 (ucast (gc_next_asn v)))"
      "v1 = v\<lparr>owned_strings := m, need_gc := need_gc v1, gc_next_asn := gc_next_asn v + 1\<rparr>"
      "fits m" "outside M m" "content m = packed ss @ varint_of w @ xs @ [0]" "length xs = length w"
    by (rule mk_string_owned [OF ok out A _ l' room [folded w_def], of NULL]) simp_all
  have r: "r = owned_val (length (packed ss)) (gc_next_asn v)" by (simp add: mk(2) owned_val_def)
  have v1: "owned_strings v1 = m" "gc_next_asn v1 = gc_next_asn v + 1" "gc_min_asn v1 = gc_min_asn v"
    by (subst mk(3), simp)+
  have vo: "varint_of xs = varint_of w" by (simp add: varint_of_def mk(7))
  have c1: "content m = packed (ss @ [xs])" using mk(6) vo by (simp add: heap_append block_def)
  have l1: "5 < length xs" "length xs < 2 ^ 31" using mk(7) l' by simp_all
  have big: "length (packed (ss @ [xs])) < 2 ^ 32"
    using room varint_of(4) [OF l1(2)] mk(7) by (simp add: heap_append block_length w_def)
  note app = strings_ok_append [OF ok mk(4) c1 l1 big v1 asn]
  obtain p1 where p1: "v7_get_string_data v1 x = Some (p1, of_nat (length s))"
      "fetch M (owned_strings v1) p1 (length s) = Some s" "length s < 2 ^ 31"
    by (rule denotes_data [OF app(1) denotes_mono [OF x app(3)]]) auto
  obtain p2 where p2: "v7_get_string_data v1 y = Some (p2, of_nat (length t))"
      "fetch M (owned_strings v1) p2 (length t) = Some t" "length t < 2 ^ 31"
    by (rule denotes_data [OF app(1) denotes_mono [OF y app(3)]]) auto
  let ?off = "length (packed ss) + length (varint_of w)"
  have get: "v7_get_string_data v1 r = Some (Address (mb_addr m + of_nat ?off), of_nat (length w))"
  proof -
    have "live v1 (ss @ [xs]) r xs" using app(2) by (simp add: r)
    then have "tag_of r = 0xFFF8" "gc_is_valid_allocation_seqn v1 (asn_of r)" by (simp_all add: live_def)
    moreover have "unat (gc_string_val_to_offset r) = offset (ss @ [xs]) (length ss)"
      using big by (simp add: r owned_val_fields(2) heap_append offset_append offset_length)
    ultimately show ?thesis
      using owned_get [OF app(1), of "length ss" r] v1(1) vo mk(7)
      by (simp add: offset_append offset_length)
  qed
  have dlen: "length (packed (ss @ [xs])) \<le> length (mb_data m)"
    using mk(4) by (simp add: fits_def mbuf_ok_def content_def flip: c1)
  have lens: "length (packed (ss @ [xs])) = ?off + length w + 1"
    by (simp add: heap_append block_length vo mk(7))
  have pos: "unat (mb_addr m + of_nat ?off - mb_addr m) = ?off"
    using big lens by (simp add: unat_of_nat del: of_nat_add)
  let ?m = "m\<lparr>mb_data := overwrite ?off w (mb_data m)\<rparr>"
  have st: "store ?off w m = Some ?m" using dlen lens by (simp add: store_def)
  have len: "length (overwrite ?off w (mb_data m)) = length (mb_data m)"
    using dlen lens by (simp add: length_overwrite)
  have c2: "content ?m = packed (ss @ [w])"
    using content_overwrite [of m "packed ss @ varint_of w" xs "[0]" w] mk(4,6,7)
    by (simp add: heap_append block_def fits_def)
  have m2: "fits ?m" "outside M ?m" using mk(4,5) len by (simp_all add: fits_def mbuf_ok_def outside_def in_buffer_def)
  let ?v = "v1\<lparr>owned_strings := ?m\<rparr>"
  have sum: "(of_nat (length s) + of_nat (length t) :: u64) = of_nat (length w)" by (simp add: w_def)
  have "s_concat M A x y v = Some (r, ?v)"
  proof -
    obtain q1 where q1: "v7_get_string_data v x = Some (q1, of_nat (length s))" by (rule denotes_data [OF ok x])
    obtain q2 where q2: "v7_get_string_data v y = Some (q2, of_nat (length t))" by (rule denotes_data [OF ok y])
    show ?thesis
      using q1 q2 mk(1) p1 p2 get st pos
      by (simp add: s_concat_def sum unat_of_nat v1(1) w_def [symmetric] del: of_nat_add)
  qed
  moreover have "length (packed (ss @ [w])) < 2 ^ 32" using big vo mk(7) by (simp add: heap_append block_length)
  note app2 = strings_ok_append [OF ok m2(1) c2 l' this _ _ _ asn, of ?v]
  have "strings_ok ?v (ss @ [w])" "live ?v (ss @ [w]) r w" "\<And>z u. live v ss z u \<Longrightarrow> live ?v (ss @ [w]) z u"
    using app2 v1 by (simp_all add: r)
  ultimately show thesis using m2(2) by (intro that [of ?v]) (simp_all add: r w_def)
qed

lemma s_concat_spec:
  assumes ok: "strings_ok v ss" and out: "outside M (owned_strings v)" and A: "alloc_ok M A"
    and x: "denotes M v ss x s" and y: "denotes M v ss y t" and l: "length (s @ t) < 2 ^ 31"
    and room: "length (packed ss) + length (s @ t) + 520 < 2 ^ 31" and asn: "asn_used v < 65535"
  obtains r v' ss' where "s_concat M A x y v = Some (r, v')" "denotes M v' ss' r (s @ t)"
    "strings_ok v' ss'" "\<And>z u. live v ss z u \<Longrightarrow> live v' ss' z u"
proof -
  have p: "text_at M (Static (s @ t)) (s @ t)" by simp
  consider "length (s @ t) \<le> 4" | "length (s @ t) = 5" | "5 < length (s @ t)" by linarith
  then show thesis
  proof cases
    case 1
    show thesis
      using mk_string_spec [OF ok out A p l room asn] that concat_short [OF ok x y 1 p out] by metis
  next
    case 2
    then have "(of_nat (length (s @ t)) :: u64) = 5" by (metis of_nat_numeral)
    with mk_string_spec [OF ok out A p l room asn] that concat_five [OF ok x y 2 p out] show thesis by metis
  next
    case 3
    show thesis
    proof (rule concat_long [OF ok out A x y 3 l room asn])
      fix v'
      assume v': "s_concat M A x y v = Some (owned_val (length (packed ss)) (gc_next_asn v), v')"
        "strings_ok v' (ss @ [s @ t])" "\<And>z u. live v ss z u \<Longrightarrow> live v' (ss @ [s @ t]) z u"
        and l: "live v' (ss @ [s @ t]) (owned_val (length (packed ss)) (gc_next_asn v)) (s @ t)"
      from l have "denotes M v' (ss @ [s @ t]) (owned_val (length (packed ss)) (gc_next_asn v)) (s @ t)"
        by (simp add: denotes_def)
      with v' show thesis by (intro that)
    qed
  qed
qed

subsection \<open>A substring of an owned string\<close>

text \<open>
  \<open>v7_mk_string\<close> may be given a text in the buffer of owned strings, as \<open>trim\<close> and \<open>split\<close> do. When
  the buffer is full it is moved before \<open>embed_string\<close> notes where it was: the text is then read
  where the buffer no longer is.
\<close>

lemma room_after_resize:
  assumes "mbuf_ok m" "unat (mb_addr m) + unat (mb_size m) < 2 ^ 48" "unat (mb_len m) + unat n \<le> unat (mb_size m)"
  shows "mbuf_insert A m (mb_len m) None n = Some (n, m\<lparr>mb_len := mb_len m + n\<rparr>)"
proof -
  have u: "unat (mb_len m + n) = unat (mb_len m) + unat n" using assms(2,3) by (simp add: unat_word_ariths)
  have room: "\<not> - 1 - mb_addr m < n" "mb_len m \<le> mb_size m" "mb_len m + n \<le> mb_size m"
    using assms by (simp_all add: word_less_nat_alt word_le_nat_alt unat_sub_if' unsigned_minus_1_eq_mask
        mask_eq_exp_minus_1 u)
  have "insert_data (unat (mb_len m)) (unat n) None (unat (mb_len m)) (mb_data m) = mb_data m"
    using assms by (simp add: insert_data_def overwrite_def mbuf_ok_def)
  with room show ?thesis by (simp add: mbuf_insert_def)
qed

lemma mk_string_dangling:
  assumes ok: "strings_ok v ss" and out: "outside M (owned_strings v)" and A: "alloc_ok M A"
    and a: "in_buffer (owned_strings v) a" and bs: "fetch M (owned_strings v) (Address a) (length bs) = Some bs"
    and l: "5 < length bs" "length bs < 2 ^ 31" "bs \<notin> set v_dictionary_strings"
    and small: "length (packed ss) + length bs + 520 < 2 ^ 31"
    and full: "unat (mb_size (owned_strings v)) < length (packed ss) + length bs"
    and moved: "\<And>n. \<not> (new_addr A (mb_addr (owned_strings v)) n \<le> a \<and> a - new_addr A (mb_addr (owned_strings v)) n < n)"
  shows "v7_mk_string M A (Address a) (of_nat (length bs)) True v = None"
proof -
  let ?m = "owned_strings v" and ?n = "of_nat (length bs) :: u64" and ?v = "compute_need_gc v"
  let ?size = "mb_len ?m + ?n + V7_STRING_BUF_RESERVE"
  let ?r = "mbuf_resize A ?m ?size"
  have fit: "fits ?m" and c: "content ?m = packed ss" using ok by (simp_all add: strings_ok_def)
  have lenm: "unat (mb_len ?m) = length (packed ss)"
    using length_content [of ?m] fit c by (simp add: fits_def)
  note n = of_nat_len [OF l(2)]
  have sum: "unat ?size = length (packed ss) + length bs + 500" "unat (mb_len ?m + ?n) = length (packed ss) + length bs"
    using lenm n small by (simp_all add: V7_STRING_BUF_RESERVE_def unat_word_ariths)
  have grow: "mb_size ?m < mb_len ?m + ?n" "mb_size ?m < ?size" "0 < ?size" "unat ?size < 2 ^ 40"
    using full sum small by (simp_all add: word_less_nat_alt)
  note r = resize_fits [OF fit out A grow(3,4)]
  have size: "mb_size ?r = ?size" "mb_addr ?r = new_addr A (mb_addr ?m) ?size"
    using r(5) [OF grow(2)] alloc_okD(1) [OF A grow(3,4), of "mb_addr ?m"] grow(2)
    by (simp_all add: mbuf_resize_def Let_def)
  have gone: "\<not> in_buffer ?r a" using moved [of ?size] size by (simp add: in_buffer_def)
  have Ma: "M a = None" using a out by (simp add: outside_def)
  let ?k = "length (varint_of bs)"
  let ?tot = "of_nat ?k + ?n + 1"
  note v = varint_of [OF l(2)]
  have ut: "unat ?tot = ?k + length bs + 1" using v(4) l by (simp add: unat_word_ariths unat_of_nat)
  have ins: "mbuf_insert A ?r (mb_len ?r) None ?tot = Some (?tot, ?r\<lparr>mb_len := mb_len ?r + ?tot\<rparr>)"
    using r(1,4) size(1) sum(1) ut v(4) lenm by (intro room_after_resize) (simp_all add: fits_def)
  have backed: "\<not> (mb_addr ?r \<le> a \<and> a < mb_addr ?r + mb_len ?r)"
    using in_data [OF r(1)] gone by blast
  obtain k where k: "length bs = Suc k" using l(1) by (cases "length bs") simp_all
  have no: "fetch M m1 (Address a) (length bs) = None"
    if "mb_addr m1 = mb_addr ?r" "mb_size m1 = mb_size ?r" for m1
  proof -
    have "\<not> in_buffer m1 a" using gone unfolding in_buffer_def that .
    then have "peek M m1 a = None" by (simp add: peek_def Ma)
    then show ?thesis by (simp add: k)
  qed
  have null: "Address a \<noteq> NULL"
    using a fit by (auto simp: NULL_def in_buffer_def fits_def)
  have emb: "embed_string M A ?r (mb_len ?r) (Address a) ?n True False = None"
    using v(1) ins backed null n no by (simp add: embed_string_def store_def Let_def)
  have big: "\<not> ?n \<le> 4" "?n \<noteq> 5" using l n by (auto simp: word_le_nat_alt)
  have dict: "v_find_string_in_dictionary (Some bs) = None"
    using find_in_dictionary [OF l(2)] l(3) by (metis dictionary_size nth_mem option.exhaust)
  have cv: "owned_strings ?v = ?m" by (simp add: compute_need_gc_def)
  show ?thesis
    using n big dict bs null emb grow(1) cv by (simp add: v7_mk_string_def Let_def)
qed

end
