(* ===== verification/AstTrees.thy ===== *)
theory AstTrees
  imports Ast StringsCorrect
begin

text \<open>
  Syntax trees as trees, and their bytes. Reading over the bytes of a tree ends behind them; the functions that write
  nodes, from the front, from the back or around what is there, leave the bytes of the tree that is meant.
\<close>

subsection \<open>Trees and their bytes\<close>

text \<open>A tag, the inlined text, the skips after the first one, and the children.\<close>

datatype ast_tree = Node ast_tag "u8 list" "u16 list" "ast_tree list"

definition be16 :: "u16 \<Rightarrow> u8 list" where
  "be16 x = [ucast (drop_bit 8 x), ucast (x AND 0xFF)]"

definition skip_bytes :: "ast_node_def \<Rightarrow> nat \<Rightarrow> u16 list \<Rightarrow> u8 list" where
  "skip_bytes d n ks = (if num_skips d = 0 then [] else be16 (of_nat (2 * num_skips d + n)) @ concat (map be16 ks))"

definition text_bytes :: "ast_node_def \<Rightarrow> u8 list \<Rightarrow> u8 list" where
  "text_bytes d s = (if has_varint d then varint_of s @ s else [])"

definition node_bytes :: "ast_tag \<Rightarrow> u8 list \<Rightarrow> u16 list \<Rightarrow> u8 list \<Rightarrow> u8 list" where
  "node_bytes t s ks body =
     (let d = ast_node_defs ! t in of_nat t # text_bytes d s @ skip_bytes d (length body) ks @ body)"

fun enc :: "ast_tree \<Rightarrow> u8 list" where
  "enc (Node t s ks cs) = node_bytes t s ks (concat (map enc cs))"

definition node_ok :: "ast_tag \<Rightarrow> u8 list \<Rightarrow> u16 list \<Rightarrow> nat \<Rightarrow> nat \<Rightarrow> bool" where
  "node_ok t s ks n kids \<longleftrightarrow>
     t < AST_MAX_TAG \<and> length s < 2 ^ 31 \<and>
     (let d = ast_node_defs ! t in
      if num_skips d = 0 then ks = [] \<and> kids = num_subtrees d
      else length ks + 1 = num_skips d \<and> num_subtrees d \<le> kids \<and> 2 * num_skips d + n < 2 ^ 16)"

fun wf :: "ast_tree \<Rightarrow> bool" where
  "wf (Node t s ks cs) \<longleftrightarrow> node_ok t s ks (length (concat (map enc cs))) (length cs) \<and> (\<forall>c \<in> set cs. wf c)"

subsection \<open>The table\<close>

lemma defs_length: "length ast_node_defs = AST_MAX_TAG"
  by (simp add: ast_node_defs_def AST_MAX_TAG_def)

lemma defs_entries:
  "\<forall>d \<in> set ast_node_defs. has_varint d = has_inlined d \<and> (num_skips d = 0 \<or> \<not> has_varint d) \<and> num_skips d \<le> 3 \<and> num_subtrees d \<le> 3"
  by (simp add: ast_node_defs_def AST_ENTRY_def)

lemma node_def_eq: "t < AST_MAX_TAG \<Longrightarrow> node_def t = Some (ast_node_defs ! t)"
  by (simp add: node_def_def defs_length)

lemma def_entry:
  assumes "t < AST_MAX_TAG" "d = ast_node_defs ! t"
  shows "has_varint d = has_inlined d" "num_skips d \<noteq> 0 \<Longrightarrow> \<not> has_varint d" "num_skips d \<le> 3" "num_subtrees d \<le> 3"
proof -
  have "d \<in> set ast_node_defs" using assms by (simp add: defs_length)
  from bspec [OF defs_entries this] show "has_varint d = has_inlined d" "num_skips d \<noteq> 0 \<Longrightarrow> \<not> has_varint d" "num_skips d \<le> 3" "num_subtrees d \<le> 3"
    by auto
qed

lemma tag_byte: "t < AST_MAX_TAG \<Longrightarrow> unat (of_nat t :: u8) = t"
  by (simp add: AST_MAX_TAG_def unat_of_nat)

lemma length_be16 [simp]: "length (be16 x) = 2"
  by (simp add: be16_def)

lemma length_be16s [simp]: "length (concat (map be16 ks)) = 2 * length ks"
  by (induction ks) simp_all

lemma enc_pos: "0 < length (enc t)"
  by (cases t) (simp add: node_bytes_def Let_def)

lemma be16_value: "(ucast (ucast (x AND 0xFF) :: u8) OR push_bit 8 (ucast (ucast (drop_bit 8 x) :: u8)) :: u64) = ucast (x :: u16)"
proof -
  have m: "(0xFF :: u16) = mask 8" by (simp add: mask_eq_exp_minus_1)
  show ?thesis unfolding m
  proof (rule bit_word_eqI)
    fix n assume "n < LENGTH(64)"
    have "bit x n \<Longrightarrow> n < 16" using bit_imp_le_length [of x n] by simp
    then show "bit (ucast (ucast (x AND mask 8) :: u8) OR push_bit 8 (ucast (ucast (drop_bit 8 x) :: u8)) :: u64) n = bit (ucast x :: u64) n"
      using \<open>n < LENGTH(64)\<close> by (cases "n < 8") (auto simp: bit_simps)
  qed
qed

subsection \<open>Reading\<close>

text \<open>A buffer that has bytes from a place on, all of them within its length.\<close>

definition holds :: "mbuf \<Rightarrow> nat \<Rightarrow> u8 list \<Rightarrow> bool" where
  "holds m i bs \<longleftrightarrow> i + length bs \<le> unat (mb_len m) \<and> take (length bs) (drop i (mb_data m)) = bs \<and>
     unat (mb_len m) \<le> length (mb_data m) \<and> unat (mb_len m) < 2 ^ 52"

lemma holds_append: "holds m i (xs @ ys) \<longleftrightarrow> holds m i xs \<and> holds m (i + length xs) ys"
proof (cases "i + length (xs @ ys) \<le> unat (mb_len m) \<and> unat (mb_len m) \<le> length (mb_data m)")
  case True
  have "take (length (xs @ ys)) (drop i (mb_data m)) = take (length xs) (drop i (mb_data m)) @ take (length ys) (drop (i + length xs) (mb_data m))"
    by (simp add: take_add add.commute)
  moreover have "length (take (length xs) (drop i (mb_data m))) = length xs" using True by (simp add: min_def) linarith
  ultimately show ?thesis using True by (auto simp: holds_def)
qed (auto simp: holds_def)

lemma holds_Cons: "holds m i (b # bs) \<longleftrightarrow> holds m i [b] \<and> holds m (i + 1) bs"
  using holds_append [of m i "[b]" bs] by simp

lemma holds_byte: "holds m i [b] \<Longrightarrow> byte_at (mb_data m) i = Some b"
  by (auto simp: holds_def take_Suc_conv_app_nth hd_drop_conv_nth take_Suc)

lemma holds_pos: "holds m i bs \<Longrightarrow> i \<le> unat (mb_len m) \<and> unat (of_nat i :: u64) = i"
  by (simp add: holds_def unat_of_nat)

lemma holds_less: "holds m i (b # bs) \<Longrightarrow> (of_nat i :: u64) < mb_len m"
  by (simp add: holds_def word_less_nat_alt unat_of_nat)

lemma fetch_holds:
  assumes "holds (ast_mbuf a) i [of_nat t]" "t < AST_MAX_TAG"
  shows "ast_fetch_tag a (of_nat i) = Some (t, of_nat (i + 1))"
  using holds_byte [OF assms(1)] holds_pos [OF assms(1)] holds_less [OF assms(1)] tag_byte [OF assms(2)]
  by (simp add: ast_fetch_tag_def)

lemma varint_holds:
  assumes "holds m i (varint_of s @ s)" "length s < 2 ^ 31"
  shows "decode_varint (drop i (mb_data m)) = Some (of_nat (length s), length (varint_of s))"
proof -
  have "holds m i (varint_of s)" using assms(1) by (simp add: holds_append)
  then have "drop i (mb_data m) = varint_of s @ drop (length (varint_of s)) (drop i (mb_data m))"
    by (metis append_take_drop_id holds_def)
  then show ?thesis using varint_of(2) [OF assms(2)] by metis
qed

lemma skips_size_eq: "t < AST_MAX_TAG \<Longrightarrow> skips_size (ast_node_defs ! t) = of_nat (2 * num_skips (ast_node_defs ! t))"
  by (simp add: skips_size_def)

lemma move_holds:
  assumes t: "t < AST_MAX_TAG" "length s < 2 ^ 31" "d = ast_node_defs ! t"
    and h: "holds (ast_mbuf a) i (of_nat t # text_bytes d s @ skip_bytes d n ks)" and ks: "num_skips d \<noteq> 0 \<Longrightarrow> length ks + 1 = num_skips d"
  shows "ast_move_to_children a (of_nat (i + 1)) = Some (of_nat (i + 1 + length (text_bytes d s @ skip_bytes d n ks)))"
proof -
  let ?m = "ast_mbuf a"
  have h1: "holds ?m i [of_nat t]" and h2: "holds ?m (i + 1) (text_bytes d s)"
    using h by (simp_all add: holds_Cons [of ?m i "of_nat t" "_ @ _"] holds_append)
  have "holds ?m (i + 1) []" using h2 by (auto simp: holds_def)
  from holds_pos [OF this] have u: "unat (of_nat (i + 1) :: u64) = i + 1" by simp
  then have nz: "(of_nat (i + 1) :: u64) \<noteq> 0" by (metis add_is_0 one_neq_zero unat_0)
  have b: "byte_at (mb_data ?m) (unat (of_nat (i + 1) :: u64) - 1) = Some (of_nat t)"
    using holds_byte [OF h1] unfolding u by simp
  have l: "of_nat (i + 1) - 1 < mb_len ?m" using holds_less [OF h1] by simp
  have sk: "skips_size d = of_nat (length (skip_bytes d n ks))"
  proof (cases "num_skips d = 0")
    case False
    then have "length (skip_bytes d n ks) = 2 * num_skips d" using ks by (simp add: skip_bytes_def)
    then show ?thesis by (simp add: skips_size_def)
  qed (simp add: skips_size_def skip_bytes_def)
  have v: "has_varint d \<Longrightarrow> decode_varint (drop (i + 1) (mb_data ?m)) = Some (of_nat (length s), length (varint_of s))"
    using varint_holds [OF _ t(2), of ?m "i + 1"] h2 by (simp add: text_bytes_def)
  have hv: "has_inlined d = has_varint d" using def_entry(1) [OF t(1,3)] by simp
  show ?thesis
    unfolding ast_move_to_children_def Let_def
    using b nz l v sk hv node_def_eq [OF t(1)] tag_byte [OF t(1)] t(3) u
    by (cases "has_varint d") (simp_all add: text_bytes_def ac_simps del: byte_at.simps)
qed

lemma get_skip_holds:
  assumes "holds (ast_mbuf a) i (be16 x)"
  shows "ast_get_skip a (of_nat i) 0 = Some (of_nat i + ucast x)"
proof -
  let ?m = "ast_mbuf a"
  have h: "holds ?m i [ucast (drop_bit 8 x)]" "holds ?m (i + 1) [ucast (x AND 0xFF)]"
    using assms by (simp_all add: be16_def holds_Cons [of ?m i _ "[_]"])
  show ?thesis
    unfolding ast_get_skip_def Let_def
    using holds_byte [OF h(1)] holds_byte [OF h(2)] holds_pos [OF h(1)] holds_less [OF h(1)] be16_value [of x] by simp
qed

lemma fuel_less: "2 * (x + y) < Suc n \<Longrightarrow> 0 < x \<Longrightarrow> 2 * y < n" for x y n :: nat
  by arith

lemma ucast_small: "n < 2 ^ 16 \<Longrightarrow> ucast (of_nat n :: u16) = (of_nat n :: u64)"
  by (simp add: word_unat_eq_iff unsigned_ucast_eq unat_of_nat take_bit_nat_eq_self)

text \<open>The two loops, given that every child is skipped.\<close>

lemma skip_subtrees_kids:
  assumes "\<And>c i f. c \<in> set cs \<Longrightarrow> holds (ast_mbuf a) i (enc c) \<Longrightarrow> 2 * length (enc c) \<le> f \<Longrightarrow> ast_skip_tree f a (of_nat i) = Some (of_nat (i + length (enc c)))"
  shows "holds (ast_mbuf a) i (concat (map enc cs)) \<Longrightarrow> 2 * length (concat (map enc cs)) < f \<Longrightarrow>
    skip_subtrees f a (length cs) (of_nat i) = Some (of_nat (i + length (concat (map enc cs))))"
  using assms
proof (induction cs arbitrary: i f)
  case (Cons c cs)
  obtain f' where f: "f = Suc f'" using Cons.prems(2) by (cases f) auto
  have h: "holds (ast_mbuf a) i (enc c)" "holds (ast_mbuf a) (i + length (enc c)) (concat (map enc cs))"
    using Cons.prems(1) by (simp_all add: holds_append)
  have "ast_skip_tree f' a (of_nat i) = Some (of_nat (i + length (enc c)))"
    using Cons.prems(3) [OF _ h(1)] Cons.prems(2) f by simp
  moreover have "skip_subtrees f' a (length cs) (of_nat (i + length (enc c))) = Some (of_nat (i + length (enc c) + length (concat (map enc cs))))"
  proof (rule Cons.IH [OF h(2)])
    have "2 * (length (enc c) + length (concat (map enc cs))) < Suc f'" using Cons.prems(2) f by simp
    then show "2 * length (concat (map enc cs)) < f'" using enc_pos [of c] by (rule fuel_less)
  qed (use Cons.prems(3) in simp)
  ultimately show ?case using f by (simp add: add.assoc)
qed simp

lemma skip_until_kids:
  assumes "\<And>c i f. c \<in> set cs \<Longrightarrow> holds (ast_mbuf a) i (enc c) \<Longrightarrow> 2 * length (enc c) \<le> f \<Longrightarrow> ast_skip_tree f a (of_nat i) = Some (of_nat (i + length (enc c)))"
  shows "holds (ast_mbuf a) i (concat (map enc cs)) \<Longrightarrow> 2 * length (concat (map enc cs)) < f \<Longrightarrow> e = i + length (concat (map enc cs)) \<Longrightarrow>
    skip_until f a (of_nat e) (of_nat i) = Some (of_nat e)"
  using assms
proof (induction cs arbitrary: i f)
  case Nil
  then show ?case by (cases f) simp_all
next
  case (Cons c cs)
  obtain f' where f: "f = Suc f'" using Cons.prems(2) by (cases f) auto
  have h: "holds (ast_mbuf a) i (enc c)" "holds (ast_mbuf a) (i + length (enc c)) (concat (map enc cs))"
    using Cons.prems(1) by (simp_all add: holds_append)
  have "e < 2 ^ 52" "i < e" using Cons.prems(1,3) enc_pos [of c] by (auto simp: holds_def)
  then have less: "(of_nat i :: u64) < of_nat e" by (simp add: word_less_nat_alt unat_of_nat)
  have "ast_skip_tree f' a (of_nat i) = Some (of_nat (i + length (enc c)))"
    using Cons.prems(4) [OF _ h(1)] Cons.prems(2) f by simp
  moreover have "skip_until f' a (of_nat e) (of_nat (i + length (enc c))) = Some (of_nat e)"
  proof (rule Cons.IH [OF h(2)])
    have "2 * (length (enc c) + length (concat (map enc cs))) < Suc f'" using Cons.prems(2) f by simp
    then show "2 * length (concat (map enc cs)) < f'" using enc_pos [of c] by (rule fuel_less)
  qed (use Cons.prems(3,4) in \<open>simp_all add: add.assoc\<close>)
  ultimately show ?case using f less by simp
qed

lemma skip_tree_holds:
  "wf t \<Longrightarrow> holds (ast_mbuf a) i (enc t) \<Longrightarrow> 2 * length (enc t) \<le> f \<Longrightarrow> ast_skip_tree f a (of_nat i) = Some (of_nat (i + length (enc t)))"
proof (induction t arbitrary: i f)
  case (Node t s ks cs)
  let ?d = "ast_node_defs ! t" and ?kids = "concat (map enc cs)" and ?m = "ast_mbuf a"
  let ?head = "text_bytes ?d s @ skip_bytes ?d (length ?kids) ks"
  have ok: "node_ok t s ks (length ?kids) (length cs)" "\<And>c. c \<in> set cs \<Longrightarrow> wf c" using Node.prems(1) by simp_all
  have t: "t < AST_MAX_TAG" "length s < 2 ^ 31" using ok(1) by (simp_all add: node_ok_def)
  have ks: "num_skips ?d \<noteq> 0 \<Longrightarrow> length ks + 1 = num_skips ?d" using ok(1) by (simp add: node_ok_def Let_def)
  have e: "enc (Node t s ks cs) = of_nat t # ?head @ ?kids" by (simp add: node_bytes_def Let_def)
  have h: "holds ?m i (of_nat t # ?head)" "holds ?m (i + 1 + length ?head) ?kids" "holds ?m i [of_nat t]" "holds ?m (i + 1) ?head"
    using Node.prems(2) unfolding e by (simp_all add: holds_Cons [of ?m i "of_nat t" "_ @ _"] holds_append add.assoc)
  obtain f' where f: "f = Suc f'" using Node.prems(3) e by (cases f) auto
  have f': "2 * length ?kids < f'" using Node.prems(3) e f by simp
  have kid: "ast_skip_tree f a (of_nat i) = Some (of_nat (i + length (enc c)))"
    if "c \<in> set cs" "holds ?m i (enc c)" "2 * length (enc c) \<le> f" for c i f using Node.IH ok(2) that by blast
  let ?p = "i + 1 + length ?head"
  have go: "ast_fetch_tag a (of_nat i) = Some (t, of_nat (i + 1))" "node_def t = Some ?d" "ast_move_to_children a (of_nat (i + 1)) = Some (of_nat ?p)"
    using fetch_holds [OF h(3) t(1)] node_def_eq [OF t(1)] move_holds [OF t refl h(1) ks] by (simp_all add: add.assoc)
  have l: "i + length (enc (Node t s ks cs)) = ?p + length ?kids" unfolding e by simp
  note run = ast_skip_tree.simps go Option.bind.simps prod.case Let_def
  show ?case
  proof (cases "num_skips ?d = 0")
    case True
    then have "length cs = num_subtrees ?d" using ok(1) by (simp add: node_ok_def Let_def)
    then have "skip_subtrees f' a (num_subtrees ?d) (of_nat ?p) = Some (of_nat (?p + length ?kids))"
      using skip_subtrees_kids [OF kid h(2) f'] by simp
    then show ?thesis unfolding f l using True by (simp only: run) simp
  next
    case False
    let ?n = "num_subtrees ?d" and ?b = "2 * num_skips ?d + length ?kids"
    define xs ys where "xs = take ?n cs" and "ys = drop ?n cs"
    have n: "?n \<le> length cs" "?b < 2 ^ 16" using ok(1) False by (simp_all add: node_ok_def Let_def)
    have cs: "cs = xs @ ys" "length xs = ?n" using n(1) by (simp_all add: xs_def ys_def)
    have kids: "?kids = concat (map enc xs) @ concat (map enc ys)" unfolding cs(1) by simp
    have hk: "holds ?m ?p (concat (map enc xs))" "holds ?m (?p + length (concat (map enc xs))) (concat (map enc ys))"
      using h(2) unfolding kids holds_append by simp_all
    have f2: "2 * length (concat (map enc xs)) < f'" "2 * length (concat (map enc ys)) < f'" using f' unfolding kids by simp_all
    have 1: "skip_subtrees f' a ?n (of_nat ?p) = Some (of_nat (?p + length (concat (map enc xs))))"
      using skip_subtrees_kids [OF kid hk(1) f2(1)] cs by auto
    have "text_bytes ?d s = []" using def_entry(2) [OF t(1) refl False] by (simp add: text_bytes_def)
    then have head: "?head = be16 (of_nat ?b) @ concat (map be16 ks)" using False by (simp add: skip_bytes_def)
    then have lh: "length ?head = 2 * num_skips ?d" using ks [OF False] by simp
    have "holds ?m (i + 1) (be16 (of_nat ?b))" using h(4) unfolding head holds_append by simp
    from get_skip_holds [OF this] have "ast_get_skip a (of_nat (i + 1)) AST_END_SKIP = Some (of_nat (i + 1) + ucast (of_nat ?b :: u16))"
      by (simp add: AST_END_SKIP_def)
    moreover have "ucast (of_nat ?b :: u16) = (of_nat ?b :: u64)"
      by (rule ucast_small [OF n(2)])
    ultimately have 2: "ast_get_skip a (of_nat (i + 1)) AST_END_SKIP = Some (of_nat (?p + length ?kids))"
      using lh by (simp add: add.assoc)
    have "?p + length ?kids = ?p + length (concat (map enc xs)) + length (concat (map enc ys))" unfolding kids by simp
    from skip_until_kids [OF _ hk(2) f2(2) this, of] kid cs(1)
    have "skip_until f' a (of_nat (?p + length ?kids)) (of_nat (?p + length (concat (map enc xs)))) = Some (of_nat (?p + length ?kids))" by auto
    then show ?thesis unfolding f l using False by (simp only: run 1 2) simp
  qed
qed

subsection \<open>Buffers that grow\<close>

text \<open>A buffer in user space with memory for more.\<close>

definition writable :: "memory \<Rightarrow> allocator \<Rightarrow> mbuf \<Rightarrow> bool" where
  "writable M A m \<longleftrightarrow> fits m \<and> outside M m \<and> alloc_ok M A"

lemma insert_data_some:
  assumes "off \<le> alen" "alen + n \<le> length xs" "case buf of None \<Rightarrow> True | Some bs \<Rightarrow> length bs = n"
  obtains bs where "length bs = n" "insert_data off n buf alen xs = insert_data off n (Some bs) alen xs" "buf \<noteq> None \<Longrightarrow> buf = Some bs"
proof (cases buf)
  case None
  let ?ys = "overwrite (off + n) (take (alen - off) (drop off xs)) xs"
  have l: "length ?ys = length xs" using assms by (intro length_overwrite) simp
  have "overwrite off (take n (drop off ?ys)) ?ys = take off ?ys @ take n (drop off ?ys) @ drop n (drop off ?ys)"
    using assms l by (simp add: overwrite_def add.commute)
  also have "\<dots> = ?ys" by (simp only: append_take_drop_id)
  finally show thesis using None assms l by (intro that [of "take n (drop off ?ys)"]) (simp_all add: insert_data_def)
next
  case (Some bs)
  then show thesis using assms(3) by (intro that [of bs]) simp_all
qed

lemma insert_any:
  assumes w: "writable M A m" and off: "off \<le> mb_len m" and small: "unat (mb_len m) < 2 ^ 32" "unat n < 2 ^ 32"
    and buf: "case buf of None \<Rightarrow> True | Some bs \<Rightarrow> length bs = unat n"
  obtains m' bs where "mbuf_insert A m off buf n = Some (n, m')" "writable M A m'" "mb_len m' = mb_len m + n"
    "content m' = take (unat off) (content m) @ bs @ drop (unat off) (content m)" "length bs = unat n" "buf \<noteq> None \<Longrightarrow> buf = Some bs"
proof -
  have fit: "fits m" "outside M m" "alloc_ok M A" using w by (simp_all add: writable_def)
  have ok: "mbuf_ok m" "mb_len m \<le> mb_size m" "length (mb_data m) = unat (mb_size m)" "unat (mb_len m) \<le> length (mb_data m)"
    using fit(1) by (simp_all add: fits_def mbuf_ok_def word_le_nat_alt)
  have le: "unat off \<le> unat (mb_len m)" using off by (simp add: word_le_nat_alt)
  have add: "unat (mb_len m + n) = unat (mb_len m) + unat n"
      "unat (times_1_5 (mb_len m + n)) = (unat (mb_len m) + unat n) * 3 div 2"
    using unat_small_add [of "mb_len m" n] small by simp_all
  have "unat (mb_addr m) < 2 ^ 48" using fit by (simp add: fits_def)
  then have room: "\<not> - 1 - mb_addr m < n"
    using small(2) by (simp add: word_less_nat_alt unat_sub_if' unsigned_minus_1_eq_mask mask_eq_exp_minus_1)
  show thesis
  proof (cases "mb_len m + n \<le> mb_size m")
    case True
    then have l: "unat (mb_len m) + unat n \<le> length (mb_data m)" using ok(3) add(1) by (simp add: word_le_nat_alt)
    obtain bs where bs: "length bs = unat n" "insert_data (unat off) (unat n) buf (unat (mb_len m)) (mb_data m) =
        insert_data (unat off) (unat n) (Some bs) (unat (mb_len m)) (mb_data m)" "buf \<noteq> None \<Longrightarrow> buf = Some bs"
      by (rule insert_data_some [OF le l buf]) (rule that, assumption+)
    let ?m = "m\<lparr>mb_data := insert_data (unat off) (unat n) (Some bs) (unat (mb_len m)) (mb_data m), mb_len := mb_len m + n\<rparr>"
    note ins = insert_data_spec [OF le l bs(1)]
    have r: "mbuf_insert A m off buf n = Some (n, ?m)" using ok off room True bs(2) by (simp add: mbuf_insert_def)
    have w: "writable M A ?m"
      using fit True ins(1) by (simp add: writable_def fits_def mbuf_ok_def outside_def in_buffer_def)
    have c: "content ?m = take (unat off) (content m) @ bs @ drop (unat off) (content m)"
      using ins(2) add(1) le by (simp add: content_def min_def)
    show thesis by (rule that [OF r w _ c bs(1,3)]) (simp, assumption)
  next
    case False
    let ?n = "times_1_5 (mb_len m + n)"
    have n: "0 < ?n" "unat ?n < 2 ^ 40" using add(2) small False
      by (auto simp: word_less_nat_alt word_le_nat_alt add(1))
    note a = alloc_okD [OF fit(3) n, of "mb_addr m"]
    let ?d = "realloc_data A (unat ?n) (mb_data m)"
    have l: "unat (mb_len m) + unat n \<le> length ?d" using add(2) by simp
    obtain bs where bs: "length bs = unat n" "insert_data (unat off) (unat n) buf (unat (mb_len m)) ?d =
        insert_data (unat off) (unat n) (Some bs) (unat (mb_len m)) ?d" "buf \<noteq> None \<Longrightarrow> buf = Some bs"
      by (rule insert_data_some [OF le l buf]) (rule that, assumption+)
    let ?m = "\<lparr>mb_addr = new_addr A (mb_addr m) ?n, mb_data = insert_data (unat off) (unat n) (Some bs) (unat (mb_len m)) ?d,
        mb_len = mb_len m + n, mb_size = ?n\<rparr>"
    note ins = insert_data_spec [OF le l bs(1)]
    have d: "take (unat off) ?d = take (unat off) (mb_data m)" "take (unat (mb_len m)) ?d = take (unat (mb_len m)) (mb_data m)"
      using l ok(4) le by (simp_all add: take_realloc_data)
    have r: "mbuf_insert A m off buf n = Some (n, ?m)" using ok off room False bs(2) a(1) by (simp add: mbuf_insert_def Let_def)
    have w: "writable M A ?m"
      using a add fit(3) ins(1) by (auto simp: writable_def fits_def mbuf_ok_def outside_def in_buffer_def word_le_nat_alt)
    have c: "content ?m = take (unat off) (content m) @ bs @ drop (unat off) (content m)"
      using ins(2) add(1) d le by (simp add: content_def min_def)
    show thesis by (rule that [OF r w _ c bs(1,3)]) (simp, assumption)
  qed
qed

text \<open>Writing within the content.\<close>

lemma store_content:
  assumes w: "writable M A m" and le: "off + length bs \<le> unat (mb_len m)"
  obtains m' where "store off bs m = Some m'" "writable M A m'" "mb_len m' = mb_len m" "content m' = overwrite off bs (content m)"
proof -
  let ?m = "m\<lparr>mb_data := overwrite off bs (mb_data m)\<rparr>"
  have l: "off + length bs \<le> length (mb_data m)" "unat (mb_len m) \<le> length (mb_data m)"
    using w le by (auto simp: writable_def fits_def mbuf_ok_def word_le_nat_alt)
  have "writable M A ?m" using w l
    by (simp add: writable_def fits_def mbuf_ok_def outside_def in_buffer_def length_overwrite)
  moreover have "content ?m = overwrite off bs (content m)"
  proof -
    obtain k where k: "unat (mb_len m) = off + length bs + k" using le by (auto simp: le_iff_add)
    show ?thesis using l unfolding content_def overwrite_def by (simp add: k drop_take)
  qed
  ultimately show thesis using l by (intro that [of ?m]) (simp_all add: store_def)
qed

lemma writable_length: "writable M A m \<Longrightarrow> length (content m) = unat (mb_len m)"
  by (simp add: writable_def fits_def)

lemma content_byte: "writable M A m \<Longrightarrow> content m = pre @ b # post \<Longrightarrow> byte_at (mb_data m) (length pre) = Some b"
proof -
  assume w: "writable M A m" and c: "content m = pre @ b # post"
  have "length pre < unat (mb_len m)" using writable_length [OF w] c by simp
  moreover have "unat (mb_len m) \<le> length (mb_data m)" using w by (simp add: writable_def fits_def mbuf_ok_def word_le_nat_alt)
  moreover have "take (unat (mb_len m)) (mb_data m) ! length pre = b" using c by (simp add: content_def)
  ultimately show ?thesis by simp
qed

subsection \<open>Writing\<close>

lemma modify_skip_spec:
  assumes w: "writable M A (ast_mbuf a)" and t: "t < AST_MAX_TAG" "k < num_skips (ast_node_defs ! t)"
    and c: "content (ast_mbuf a) = pre @ of_nat t # slots @ post" "length slots = 2 * num_skips (ast_node_defs ! t)"
    and small: "unat (mb_len (ast_mbuf a)) < 2 ^ 32" and to: "length pre + 1 + x \<le> unat (mb_len (ast_mbuf a))"
  obtains a' where "ast_modify_skip a (of_nat (length pre + 1)) (of_nat (length pre + 1 + x)) k = Some (of_nat (length pre + 1 + x), a')"
    "writable M A (ast_mbuf a')" "mb_len (ast_mbuf a') = mb_len (ast_mbuf a)"
    "content (ast_mbuf a') = pre @ of_nat t # overwrite (2 * k) (be16 (of_nat x)) slots @ post"
    "has_overflow a' \<longleftrightarrow> has_overflow a \<or> 2 ^ 16 \<le> x" "ast_refcnt a' = ast_refcnt a"
proof -
  let ?m = "ast_mbuf a" and ?d = "ast_node_defs ! t" and ?i = "length pre + 1"
  have len: "unat (mb_len ?m) = ?i + 2 * num_skips ?d + length post" using writable_length [OF w] c by simp
  have u: "unat (of_nat ?i :: u64) = ?i" "unat (of_nat (?i + x) :: u64) = ?i + x"
    using small to by (simp_all only: unat_of_nat) simp_all
  have le: "(of_nat ?i :: u64) \<le> of_nat (?i + x)" unfolding word_le_nat_alt u by simp
  have diff: "of_nat (?i + x) - of_nat ?i = (of_nat x :: u64)" by simp
  have nz: "(of_nat ?i :: u64) \<noteq> 0" using u(1) by (metis add_is_0 one_neq_zero unat_0)
  have tag: "byte_at (mb_data ?m) (unat (of_nat ?i :: u64) - 1) = Some (of_nat t)"
    using content_byte [OF w c(1)] unfolding u by simp
  have uc: "ucast (of_nat x :: u64) = (of_nat x :: u16)"
    by (rule bit_word_eqI) (auto simp: bit_simps)
  have big: "(of_nat x :: u64) > AST_SKIP_MAX \<longleftrightarrow> 2 ^ 16 \<le> x"
    using small to by (auto simp: AST_SKIP_MAX_def word_less_nat_alt unat_of_nat)
  have k: "2 * k + 2 \<le> length slots" using t(2) c(2) by simp
  obtain m' where m': "store (?i + k * 2) (be16 (of_nat x)) ?m = Some m'" "writable M A m'" "mb_len m' = mb_len ?m"
      "content m' = overwrite (?i + k * 2) (be16 (of_nat x)) (content ?m)"
    by (rule store_content [OF w, of "?i + k * 2" "be16 (of_nat x)"]) (use len t(2) in simp, rule that, assumption+)
  have c': "content m' = pre @ of_nat t # overwrite (2 * k) (be16 (of_nat x)) slots @ post"
    unfolding m'(4) c(1) using k by (simp add: overwrite_def mult.commute numeral_eq_Suc)
  let ?a = "(if 2 ^ 16 \<le> x then a\<lparr>has_overflow := True\<rparr> else a)\<lparr>ast_mbuf := m'\<rparr>"
  have "ast_modify_skip a (of_nat ?i) (of_nat (?i + x)) k = Some (of_nat (?i + x), ?a)"
    unfolding ast_modify_skip_def Let_def diff uc big
    using tag nz node_def_eq [OF t(1)] tag_byte [OF t(1)] le t(2) m'(1) u(1)
    by (simp add: be16_def del: byte_at.simps of_nat_Suc of_nat_add)
  then show thesis using m'(2,3) c' by (intro that [of ?a]) simp_all
qed

lemma add_node_spec:
  assumes w: "writable M A (ast_mbuf a)" and t: "t < AST_MAX_TAG" and small: "unat (mb_len (ast_mbuf a)) + 7 < 2 ^ 32"
  obtains a' slots where "ast_add_node A a t = Some (mb_len (ast_mbuf a) + 1, a')" "writable M A (ast_mbuf a')"
    "content (ast_mbuf a') = content (ast_mbuf a) @ of_nat t # slots" "length slots = 2 * num_skips (ast_node_defs ! t)"
    "has_overflow a' = has_overflow a" "mb_len (ast_mbuf a') = mb_len (ast_mbuf a) + 1 + of_nat (length slots)"
proof -
  let ?m = "ast_mbuf a" and ?d = "ast_node_defs ! t"
  have d: "num_skips ?d \<le> 3" using def_entry(3) [OF t refl] .
  obtain m1 b1 where 1: "mbuf_insert A ?m (mb_len ?m) (Some [of_nat t]) 1 = Some (1, m1)" "writable M A m1" "mb_len m1 = mb_len ?m + 1"
      "content m1 = take (unat (mb_len ?m)) (content ?m) @ b1 @ drop (unat (mb_len ?m)) (content ?m)" "b1 = [of_nat t]"
    by (rule insert_any [OF w order_refl, of 1 "Some [of_nat t]"]) (use small in \<open>simp_all\<close>)
  have c1: "content m1 = content ?m @ [of_nat t]" using 1(4,5) writable_length [OF w] by simp
  have u1: "unat (mb_len m1) = unat (mb_len ?m) + 1" using small by (simp add: 1(3) unat_word_ariths)
  have us: "unat (skips_size ?d) = 2 * num_skips ?d" using d unfolding skips_size_eq [OF t] by (subst unat_of_nat) simp
  obtain m2 slots where 2: "mbuf_insert A m1 (mb_len m1) None (skips_size ?d) = Some (skips_size ?d, m2)" "writable M A m2"
      "mb_len m2 = mb_len m1 + skips_size ?d" "length slots = unat (skips_size ?d)"
      "content m2 = take (unat (mb_len m1)) (content m1) @ slots @ drop (unat (mb_len m1)) (content m1)"
    by (rule insert_any [OF 1(2) order_refl, of "skips_size ?d" None]) (use small u1 us d in \<open>simp_all\<close>)
  have c2: "content m2 = content ?m @ of_nat t # slots" using 2(5) writable_length [OF 1(2)] c1 by simp
  have l2: "mb_len m2 = mb_len ?m + 1 + of_nat (length slots)" using 2(3,4) 1(3) by simp
  have r: "ast_add_node A a t = Some (mb_len ?m + 1, a\<lparr>ast_mbuf := m2\<rparr>)"
    using 1(1) 2(1) node_def_eq [OF t] t by (simp add: ast_add_node_def mbuf_append_def)
  show thesis
  proof (rule that [OF r])
    show "length slots = 2 * num_skips ?d" using 2(4) us by simp
    show "mb_len (ast_mbuf (a\<lparr>ast_mbuf := m2\<rparr>)) = mb_len ?m + 1 + of_nat (length slots)" using l2 by simp
  qed (use 2(2) c2 in simp_all)
qed

lemma insert_node_spec:
  assumes w: "writable M A (ast_mbuf a)" and t: "t < AST_MAX_TAG" and small: "unat (mb_len (ast_mbuf a)) + 7 < 2 ^ 32"
    and c: "content (ast_mbuf a) = pre @ post" and d: "d = ast_node_defs ! t"
  obtains a' ys where "ast_insert_node A a (of_nat (length pre)) t = Some (of_nat (length pre + 1), a')" "writable M A (ast_mbuf a')"
    "content (ast_mbuf a') = pre @ of_nat t # (if num_skips d = 0 then [] else be16 (of_nat (2 * num_skips d + length post)) @ ys) @ post"
    "num_skips d \<noteq> 0 \<Longrightarrow> length ys = 2 * (num_skips d - 1)"
    "has_overflow a' \<longleftrightarrow> has_overflow a \<or> num_skips d \<noteq> 0 \<and> 2 ^ 16 \<le> 2 * num_skips d + length post"
    "unat (mb_len (ast_mbuf a')) = unat (mb_len (ast_mbuf a)) + 1 + 2 * num_skips d"
proof -
  let ?m = "ast_mbuf a"
  have d3: "num_skips d \<le> 3" using def_entry(3) [OF t d] .
  have us: "unat (skips_size d) = 2 * num_skips d" using d3 unfolding d skips_size_eq [OF t] by (subst unat_of_nat) simp
  have len: "unat (mb_len ?m) = length pre + length post" using writable_length [OF w] c by simp
  have u: "unat (of_nat (length pre) :: u64) = length pre" using len small by (simp add: unat_of_nat)
  have le: "(of_nat (length pre) :: u64) \<le> mb_len ?m" unfolding word_le_nat_alt u using len by simp
  obtain m1 slots where 1: "mbuf_insert A ?m (of_nat (length pre)) None (skips_size d) = Some (skips_size d, m1)" "writable M A m1"
      "mb_len m1 = mb_len ?m + skips_size d" "length slots = unat (skips_size d)"
      "content m1 = take (unat (of_nat (length pre) :: u64)) (content ?m) @ slots @ drop (unat (of_nat (length pre) :: u64)) (content ?m)"
    by (rule insert_any [OF w le, of "skips_size d" None]) (use small us d3 in \<open>simp_all\<close>)
  have c1: "content m1 = pre @ slots @ post" using 1(5) u c by simp
  have u1: "unat (mb_len m1) = unat (mb_len ?m) + 2 * num_skips d"
    using small us d3 unfolding 1(3) by (subst unat_word_ariths) simp
  have le1: "(of_nat (length pre) :: u64) \<le> mb_len m1" unfolding word_le_nat_alt u u1 using len by simp
  obtain m2 bs where 2: "mbuf_insert A m1 (of_nat (length pre)) (Some [of_nat t]) 1 = Some (1, m2)" "writable M A m2"
      "mb_len m2 = mb_len m1 + 1" "bs = [of_nat t]"
      "content m2 = take (unat (of_nat (length pre) :: u64)) (content m1) @ bs @ drop (unat (of_nat (length pre) :: u64)) (content m1)"
    by (rule insert_any [OF 1(2) le1, of 1 "Some [of_nat t]"]) (use small u1 d3 in \<open>simp_all\<close>)
  have c2: "content m2 = pre @ of_nat t # slots @ post" using 2(4,5) u c1 by simp
  have u2: "unat (mb_len m2) = unat (mb_len ?m) + 2 * num_skips d + 1"
    using small u1 d3 unfolding 2(3) by (subst unat_word_ariths) simp
  let ?a = "a\<lparr>ast_mbuf := m2\<rparr>"
  show thesis
  proof (cases "num_skips d = 0")
    case True
    have r: "ast_insert_node A a (of_nat (length pre)) t = Some (of_nat (length pre + 1), ?a)"
      using 1(1) 2(1) True node_def_eq [OF t] t d by (simp add: ast_insert_node_def add.commute)
    show thesis by (rule that [OF r, of "[]"]) (use 2(2) c2 u2 True 1(4) us in simp_all)
  next
    case False
    have sl: "length slots = 2 * num_skips d" using 1(4) us by simp
    have k: "0 < num_skips (ast_node_defs ! t)" using False d by simp
    have small2: "unat (mb_len (ast_mbuf ?a)) < 2 ^ 32" using u2 small d3 by simp
    have x: "unat (mb_len (ast_mbuf ?a)) = length pre + 1 + (2 * num_skips d + length post)" using u2 len by simp
    have to: "length pre + 1 + (2 * num_skips d + length post) \<le> unat (mb_len (ast_mbuf ?a))" using x by simp
    have mx: "mb_len m2 = of_nat (length pre + 1 + (2 * num_skips d + length post))"
    proof -
      have "mb_len m2 = of_nat (unat (mb_len m2))" by simp
      also have "unat (mb_len m2) = length pre + 1 + (2 * num_skips d + length post)" using x by simp
      finally show ?thesis .
    qed
    have w2: "writable M A (ast_mbuf ?a)" and c3: "content (ast_mbuf ?a) = pre @ of_nat t # slots @ post"
      and sl3: "length slots = 2 * num_skips (ast_node_defs ! t)" using 2(2) c2 sl d by simp_all
    obtain a' where a': "ast_modify_skip ?a (of_nat (length pre + 1)) (of_nat (length pre + 1 + (2 * num_skips d + length post))) 0
          = Some (of_nat (length pre + 1 + (2 * num_skips d + length post)), a')"
        "writable M A (ast_mbuf a')" "mb_len (ast_mbuf a') = mb_len (ast_mbuf ?a)"
        "content (ast_mbuf a') = pre @ of_nat t # overwrite (2 * 0) (be16 (of_nat (2 * num_skips d + length post))) slots @ post"
        "has_overflow a' \<longleftrightarrow> has_overflow ?a \<or> 2 ^ 16 \<le> 2 * num_skips d + length post"
        "ast_refcnt a' = ast_refcnt ?a"
      by (rule modify_skip_spec [OF w2 t k c3 sl3 small2 to]) (rule that, assumption+)
    have "overwrite (2 * 0) (be16 x) slots = be16 x @ drop 2 slots" for x by (simp add: overwrite_def numeral_2_eq_2)
    note ov = this
    have "ast_set_skip ?a (of_nat (length pre + 1)) AST_END_SKIP = Some (of_nat (length pre + 1 + (2 * num_skips d + length post)), a')"
      using a'(1) mx by (simp add: ast_set_skip_def AST_END_SKIP_def)
    then have r: "ast_insert_node A a (of_nat (length pre)) t = Some (of_nat (length pre + 1), a')"
      using 1(1) 2(1) False node_def_eq [OF t] t d by (simp add: ast_insert_node_def add.commute)
    show thesis by (rule that [OF r, of "drop 2 slots"]) (use a' ov u2 sl False in simp_all)
  qed
qed

text \<open>Any bytes of skips are some skips.\<close>

lemma be16_bytes: "be16 (push_bit 8 (ucast a) OR ucast b) = [a, b]" for a b :: u8
proof -
  have m: "(0xFF :: u16) = mask 8" by (simp add: mask_eq_exp_minus_1)
  have "ucast (drop_bit 8 (push_bit 8 (ucast a) OR ucast b :: u16)) = a"
    by (rule bit_word_eqI) (auto simp: bit_simps dest: bit_imp_le_length)
  moreover have "ucast ((push_bit 8 (ucast a) OR ucast b :: u16) AND 0xFF) = b" unfolding m
    by (rule bit_word_eqI) (auto simp: bit_simps dest: bit_imp_le_length)
  ultimately show ?thesis by (simp add: be16_def)
qed

lemma bytes_be16: "length bs = 2 * n \<Longrightarrow> \<exists>ks. length ks = n \<and> bs = concat (map be16 ks)"
proof (induction n arbitrary: bs)
  case (Suc n)
  then obtain a b bs' where bs: "bs = a # b # bs'" "length bs' = 2 * n"
    by (cases bs; cases "tl bs") auto
  then obtain ks where "length ks = n" "bs' = concat (map be16 ks)" using Suc.IH by blast
  then show ?case using bs(1) by (intro exI [of _ "(push_bit 8 (ucast a) OR ucast b) # ks"]) (simp add: be16_bytes)
qed simp

text \<open>\<open>ast_insert_node\<close> in front of trees: they become the children of one that is new.\<close>

lemma insert_node_tree:
  assumes w: "writable M A (ast_mbuf a)" and t: "t < AST_MAX_TAG" and small: "unat (mb_len (ast_mbuf a)) + 7 < 2 ^ 32"
    and c: "content (ast_mbuf a) = pre @ concat (map enc cs)" and d: "d = ast_node_defs ! t" "\<not> has_varint d"
  obtains a' ks where "ast_insert_node A a (of_nat (length pre)) t = Some (of_nat (length pre + 1), a')" "writable M A (ast_mbuf a')"
    "content (ast_mbuf a') = pre @ enc (Node t [] ks cs)" "length ks = num_skips d - 1"
    "has_overflow a' \<longleftrightarrow> has_overflow a \<or> num_skips d \<noteq> 0 \<and> 2 ^ 16 \<le> 2 * num_skips d + length (concat (map enc cs))"
proof -
  obtain a' ys where a': "ast_insert_node A a (of_nat (length pre)) t = Some (of_nat (length pre + 1), a')" "writable M A (ast_mbuf a')"
      "content (ast_mbuf a') = pre @ of_nat t # (if num_skips d = 0 then [] else be16 (of_nat (2 * num_skips d + length (concat (map enc cs)))) @ ys) @ concat (map enc cs)"
      "num_skips d \<noteq> 0 \<Longrightarrow> length ys = 2 * (num_skips d - 1)"
      "has_overflow a' \<longleftrightarrow> has_overflow a \<or> num_skips d \<noteq> 0 \<and> 2 ^ 16 \<le> 2 * num_skips d + length (concat (map enc cs))"
    by (rule insert_node_spec [OF w t small c d(1)]) (rule that, assumption+)
  show thesis
  proof (cases "num_skips d = 0")
    case True
    then show thesis using d a'(3,5) by (intro that [OF a'(1,2), of "[]"]) (simp_all add: node_bytes_def text_bytes_def skip_bytes_def)
  next
    case False
    then obtain ks where "length ks = num_skips d - 1" "ys = concat (map be16 ks)" using bytes_be16 [OF a'(4)] by blast
    then show thesis using d False a'(3,5)
      by (intro that [OF a'(1,2), of ks]) (simp_all add: node_bytes_def text_bytes_def skip_bytes_def)
  qed
qed

text \<open>\<open>ast_set_skip\<close> at the end: the trees behind a node become children of it.\<close>

lemma set_skip_tree:
  assumes w: "writable M A (ast_mbuf a)" and t: "t < AST_MAX_TAG" and d: "d = ast_node_defs ! t" "num_skips d \<noteq> 0"
    and small: "unat (mb_len (ast_mbuf a)) < 2 ^ 32"
    and c: "content (ast_mbuf a) = pre @ of_nat t # slots @ concat (map enc cs)" "length slots = 2 * num_skips d"
  obtains a' ks where "ast_set_skip a (of_nat (length pre + 1)) AST_END_SKIP = Some (mb_len (ast_mbuf a), a')" "writable M A (ast_mbuf a')"
    "content (ast_mbuf a') = pre @ enc (Node t [] ks cs)" "length ks = num_skips d - 1" "drop 2 slots = concat (map be16 ks)"
    "has_overflow a' \<longleftrightarrow> has_overflow a \<or> 2 ^ 16 \<le> 2 * num_skips d + length (concat (map enc cs))"
proof -
  let ?b = "concat (map enc cs)" and ?m = "ast_mbuf a"
  let ?x = "2 * num_skips d + length ?b"
  have nv: "\<not> has_varint d" using def_entry(2) [OF t d(1)] d(2) by simp
  have x: "unat (mb_len ?m) = length pre + 1 + ?x" using writable_length [OF w] c by simp
  have mx: "mb_len ?m = of_nat (length pre + 1 + ?x)" unfolding x [symmetric] by simp
  have k: "0 < num_skips (ast_node_defs ! t)" and to: "length pre + 1 + ?x \<le> unat (mb_len ?m)" using d x by simp_all
  have sl: "length slots = 2 * num_skips (ast_node_defs ! t)" using c(2) d(1) by simp
  obtain a' where a': "ast_modify_skip a (of_nat (length pre + 1)) (of_nat (length pre + 1 + ?x)) 0 = Some (of_nat (length pre + 1 + ?x), a')"
      "writable M A (ast_mbuf a')" "mb_len (ast_mbuf a') = mb_len ?m"
      "content (ast_mbuf a') = pre @ of_nat t # overwrite (2 * 0) (be16 (of_nat ?x)) slots @ ?b"
      "has_overflow a' \<longleftrightarrow> has_overflow a \<or> 2 ^ 16 \<le> ?x" "ast_refcnt a' = ast_refcnt a"
    by (rule modify_skip_spec [OF w t k c(1) sl small to])
  have "length (drop 2 slots) = 2 * (num_skips d - 1)" using c(2) by simp
  then obtain ks where ks: "length ks = num_skips d - 1" "drop 2 slots = concat (map be16 ks)" using bytes_be16 by blast
  have ov: "overwrite (2 * 0) (be16 y) slots = be16 y @ concat (map be16 ks)" for y
    using ks(2) by (simp add: overwrite_def numeral_2_eq_2)
  have "content (ast_mbuf a') = pre @ enc (Node t [] ks cs)"
    unfolding a'(4) ov using d nv by (simp add: node_bytes_def text_bytes_def skip_bytes_def Let_def)
  moreover have "ast_set_skip a (of_nat (length pre + 1)) AST_END_SKIP = Some (mb_len ?m, a')"
    using a'(1) mx by (simp add: ast_set_skip_def AST_END_SKIP_def)
  ultimately show thesis using a'(2,5) ks by (intro that [of a' ks])
qed

text \<open>What is set is read.\<close>

lemma get_modified_skip:
  assumes w: "writable M A (ast_mbuf a)" and t: "t < AST_MAX_TAG" "k < num_skips (ast_node_defs ! t)"
    and c: "content (ast_mbuf a) = pre @ of_nat t # slots @ post" "length slots = 2 * num_skips (ast_node_defs ! t)"
    and small: "unat (mb_len (ast_mbuf a)) < 2 ^ 32" and to: "length pre + 1 + x \<le> unat (mb_len (ast_mbuf a))" and x: "x < 2 ^ 16"
  obtains a' where "ast_modify_skip a (of_nat (length pre + 1)) (of_nat (length pre + 1 + x)) k = Some (of_nat (length pre + 1 + x), a')"
    "ast_get_skip a' (of_nat (length pre + 1)) k = Some (of_nat (length pre + 1 + x))" "has_overflow a' = has_overflow a"
proof -
  obtain a' where a': "ast_modify_skip a (of_nat (length pre + 1)) (of_nat (length pre + 1 + x)) k = Some (of_nat (length pre + 1 + x), a')"
      "writable M A (ast_mbuf a')" "mb_len (ast_mbuf a') = mb_len (ast_mbuf a)"
      "content (ast_mbuf a') = pre @ of_nat t # overwrite (2 * k) (be16 (of_nat x)) slots @ post"
      "has_overflow a' \<longleftrightarrow> has_overflow a \<or> 2 ^ 16 \<le> x" "ast_refcnt a' = ast_refcnt a"
    by (rule modify_skip_spec [OF w t c small to])
  let ?i = "length pre + 1" and ?m = "ast_mbuf a'"
  have d3: "num_skips (ast_node_defs ! t) \<le> 3" using def_entry(3) [OF t(1) refl] .
  have l: "unat (mb_len ?m) = ?i + length slots + length post" using writable_length [OF w] c a'(3) by simp
  have sp: "content ?m = (pre @ of_nat t # take (2 * k) slots) @ be16 (of_nat x) @ drop (2 * k + 2) slots @ post"
    unfolding a'(4) using t(2) c(2) by (simp add: overwrite_def)
  have lp: "length (pre @ of_nat t # take (2 * k) slots) = ?i + k * 2" using t(2) c(2) by simp
  let ?h = "ucast (drop_bit 8 (of_nat x :: u16)) :: u8" and ?l = "ucast ((of_nat x :: u16) AND 0xFF) :: u8"
  have "content ?m = (pre @ of_nat t # take (2 * k) slots) @ ?h # ([?l] @ drop (2 * k + 2) slots @ post)" using sp by (simp add: be16_def)
  from content_byte [OF a'(2) this] have b0: "byte_at (mb_data ?m) (?i + k * 2) = Some ?h" unfolding lp .
  have "content ?m = ((pre @ of_nat t # take (2 * k) slots) @ [?h]) @ ?l # (drop (2 * k + 2) slots @ post)" using sp by (simp add: be16_def)
  from content_byte [OF a'(2) this] have b1: "byte_at (mb_data ?m) (?i + k * 2 + 1) = Some ?l"
    using lp by (simp only: length_append [of "_ @ _ # _" "[_]"] list.size add_0 plus_nat.add_0 One_nat_def)
  have small': "?i + length slots + length post < 2 ^ 32" using l small a'(3) by simp
  have u: "unat (of_nat ?i :: u64) = ?i" using small' by (simp add: unat_of_nat del: of_nat_Suc of_nat_add)
  have "unat (of_nat ?i + of_nat k * 2 :: u64) = ?i + k * 2"
    using small' d3 t(2) u by (simp add: unat_word_ariths unat_of_nat)
  then have less: "(of_nat ?i + of_nat k * 2 :: u64) < mb_len ?m" using l t(2) c(2) by (simp add: word_less_nat_alt)
  have "ast_get_skip a' (of_nat ?i) k = Some (of_nat ?i + ucast (of_nat x :: u16))"
    unfolding ast_get_skip_def Let_def using less b0 b1 u be16_value [of "of_nat x"] by (simp del: byte_at.simps of_nat_Suc of_nat_add)
  also have "ucast (of_nat x :: u16) = (of_nat x :: u64)" using x by (rule ucast_small)
  finally show thesis using a'(1,5) x by (intro that [of a']) simp_all
qed

subsection \<open>Texts\<close>

lemma embed_unescaped:
  assumes w: "writable M A m" and t: "text_at M p bs" "bs \<noteq> []" and u: "unescape bs (int (length bs)) = Some out"
    and l: "length bs < 2 ^ 31" "length out < 2 ^ 31" and small: "unat (mb_len m) + 2 ^ 31 + 8 < 2 ^ 32" and off: "off \<le> mb_len m"
  obtains m' where "embed_string M A m off p (of_nat (length bs)) False True = Some m'" "writable M A m'"
    "content m' = take (unat off) (content m) @ varint_of out @ out @ drop (unat off) (content m)"
    "unat (mb_len m') = unat (mb_len m) + length (varint_of out) + length out"
proof -
  let ?k = "length (varint_of out)" and ?n = "of_nat (length out) :: u64" and ?tot = "of_nat (length (varint_of out)) + of_nat (length out) :: u64"
  note v = varint_of [OF l(2)]
  have ut: "unat ?tot = ?k + length out" using v(4) l by (simp add: unat_word_ariths unat_of_nat)
  have fit: "fits m" "outside M m" using w by (simp_all add: writable_def)
  have o: "unat off \<le> unat (mb_len m)" using off by (simp add: word_le_nat_alt)
  obtain m1 xs where m1: "mbuf_insert A m off None ?tot = Some (?tot, m1)" "writable M A m1" "mb_len m1 = mb_len m + ?tot"
      "content m1 = take (unat off) (content m) @ xs @ drop (unat off) (content m)" "length xs = unat ?tot"
    by (rule insert_any [OF w off, of ?tot None]) (use small ut v(4) l in \<open>simp_all\<close>)
  have lm: "unat (mb_len m1) = unat (mb_len m) + ?k + length out"
    using small ut v(4) l unfolding m1(3) by (subst unat_word_ariths) simp
  have room1: "unat off + length (varint_of out) \<le> unat (mb_len m1)" using o lm by simp
  obtain m2 where m2: "store (unat off) (varint_of out) m1 = Some m2" "writable M A m2" "mb_len m2 = mb_len m1"
      "content m2 = overwrite (unat off) (varint_of out) (content m1)"
    by (rule store_content [OF m1(2) room1])
  have room2: "unat off + ?k + length out \<le> unat (mb_len m2)" using o lm m2(3) by simp
  obtain m3 where m3: "store (unat off + ?k) out m2 = Some m3" "writable M A m3" "mb_len m3 = mb_len m2"
      "content m3 = overwrite (unat off + ?k) out (content m2)"
    by (rule store_content [OF m2(2) room2])
  have lt: "length (take (unat off) (content m)) = unat off" using o writable_length [OF w] by simp
  have c: "content m3 = take (unat off) (content m) @ varint_of out @ out @ drop (unat off) (content m)"
    unfolding m3(4) m2(4) m1(4) using lt m1(5) ut by (simp add: overwrite_def)
  have f: "fetch M m p (length bs) = Some bs" "fetch M m2 p (length bs) = Some bs"
    using fetch_text [OF t(1)] fit m2(2) by (simp_all add: writable_def)
  have n: "unat (of_nat (length bs) :: u64) = length bs" using l by (simp add: unat_of_nat)
  have np: "p \<noteq> NULL" using t(1) by (rule text_not_null)
  have q: "(case q of Address a \<Rightarrow> if False then Address (f a) else q | Static _ \<Rightarrow> q) = q" for q f
    by (cases q) simp_all
  have "embed_string M A m off p (of_nat (length bs)) False True = Some m3"
    using not_backed [OF fit, of p bs] t np v(1) m1(1) m2(1) m3(1) f u n by (simp add: embed_string_def Let_def q)
  then show thesis using m3 lm m2(3) c by (intro that [of m3]) simp_all
qed

text \<open>\<open>ast_add_inlined_node\<close>: a leaf at the end.\<close>

lemma add_inlined_tree:
  assumes w: "writable M A (ast_mbuf a)" and t: "tag < AST_MAX_TAG" "has_inlined (ast_node_defs ! tag)"
    and p: "text_at M p bs" "bs \<noteq> []" "unescape bs (int (length bs)) = Some out"
    and l: "length bs < 2 ^ 31" "length out < 2 ^ 31" and small: "unat (mb_len (ast_mbuf a)) + 2 ^ 31 + 9 < 2 ^ 32"
  obtains a' where "ast_add_inlined_node M A a tag p (of_nat (length bs)) = Some a'" "writable M A (ast_mbuf a')"
    "content (ast_mbuf a') = content (ast_mbuf a) @ enc (Node tag out [] [])" "has_overflow a' = has_overflow a"
proof -
  let ?m = "ast_mbuf a" and ?d = "ast_node_defs ! tag"
  have d: "has_varint ?d" "num_skips ?d = 0" using def_entry [OF t(1) refl] t(2) by auto
  have small1: "unat (mb_len ?m) + 7 < 2 ^ 32" using small by simp
  obtain a1 slots where a1: "ast_add_node A a tag = Some (mb_len ?m + 1, a1)" "writable M A (ast_mbuf a1)"
      "content (ast_mbuf a1) = content ?m @ of_nat tag # slots" "length slots = 2 * num_skips ?d"
      "has_overflow a1 = has_overflow a" "mb_len (ast_mbuf a1) = mb_len ?m + 1 + of_nat (length slots)"
    by (rule add_node_spec [OF w t(1) small1])
  have s: "slots = []" using a1(4) d by simp
  have l1: "mb_len (ast_mbuf a1) = mb_len ?m + 1" using a1(6) s by simp
  have u1: "unat (mb_len ?m + 1) = unat (mb_len ?m) + 1" using small by (simp add: unat_word_ariths)
  have small2: "unat (mb_len (ast_mbuf a1)) + 2 ^ 31 + 8 < 2 ^ 32" using small l1 u1 by simp
  have off: "mb_len ?m + 1 \<le> mb_len (ast_mbuf a1)" using l1 by simp
  obtain m' where m': "embed_string M A (ast_mbuf a1) (mb_len ?m + 1) p (of_nat (length bs)) False True = Some m'" "writable M A m'"
      "content m' = take (unat (mb_len ?m + 1)) (content (ast_mbuf a1)) @ varint_of out @ out @ drop (unat (mb_len ?m + 1)) (content (ast_mbuf a1))"
      "unat (mb_len m') = unat (mb_len (ast_mbuf a1)) + length (varint_of out) + length out"
    by (rule embed_unescaped [OF a1(2) p l small2 off])
  have "length (content (ast_mbuf a1)) = unat (mb_len ?m + 1)" using writable_length [OF a1(2)] l1 by simp
  then have "content m' = content ?m @ enc (Node tag out [] [])"
    using m'(3) a1(3) s d by (simp add: node_bytes_def text_bytes_def skip_bytes_def Let_def)
  then show thesis using a1(1,5) m'(1,2) t node_def_eq [OF t(1)]
    by (intro that [of "a1\<lparr>ast_mbuf := m'\<rparr>"]) (simp_all add: ast_add_inlined_node_def)
qed

text \<open>The text of an inlined leaf, read.\<close>

lemma inlined_holds:
  assumes h: "holds (ast_mbuf a) i (enc (Node t s ks cs))" and t: "t < AST_MAX_TAG" "has_varint (ast_node_defs ! t)" "length s < 2 ^ 31"
  obtains p where "ast_get_inlined_data a (of_nat (i + 1)) = Some (p, of_nat (length s))" "take (length s) (drop (unat p) (mb_data (ast_mbuf a))) = s"
proof -
  let ?m = "ast_mbuf a" and ?d = "ast_node_defs ! t" and ?k = "length (varint_of s)"
  have "enc (Node t s ks cs) = of_nat t # (varint_of s @ s) @ skip_bytes ?d (length (concat (map enc cs))) ks @ concat (map enc cs)"
    using t(2) by (simp add: node_bytes_def text_bytes_def Let_def)
  then have "holds ?m i (of_nat t # ((varint_of s @ s) @ skip_bytes ?d (length (concat (map enc cs))) ks @ concat (map enc cs)))" using h by simp
  then have h1: "holds ?m (i + 1) (varint_of s @ s)" unfolding holds_Cons [of ?m i "of_nat t" "_ @ _"] holds_append by simp
  then have h2: "holds ?m (i + 1) (varint_of s)" "holds ?m (i + 1 + ?k) s" by (simp_all add: holds_append)
  have u: "unat (of_nat (i + 1) :: u64) = i + 1" "unat (of_nat (i + 1 + ?k) :: u64) = i + 1 + ?k"
    using holds_pos [OF h2(1)] holds_pos [OF h2(2)] by simp_all
  obtain b bs where b: "varint_of s = b # bs" using varint_of(3) [OF t(3)] by (cases "varint_of s") auto
  have less: "(of_nat (i + 1) :: u64) < mb_len ?m" using holds_less h1 unfolding b append_Cons by blast
  have "ast_get_inlined_data a (of_nat (i + 1)) = Some (of_nat (i + 1 + ?k), of_nat (length s))"
    unfolding ast_get_inlined_data_def u(1) varint_holds [OF h1 t(3)] using less by simp
  moreover have "take (length s) (drop (unat (of_nat (i + 1 + ?k) :: u64)) (mb_data ?m)) = s"
    using h2(2) unfolding u(2) by (simp add: holds_def)
  ultimately show thesis by (rule that)
qed

lemma writable_holds: "writable M A m \<Longrightarrow> content m = pre @ bs @ post \<Longrightarrow> unat (mb_len m) < 2 ^ 52 \<Longrightarrow> holds m (length pre) bs"
proof -
  assume w: "writable M A m" and c: "content m = pre @ bs @ post" and s: "unat (mb_len m) < 2 ^ 52"
  have le: "unat (mb_len m) \<le> length (mb_data m)" using w by (simp add: writable_def fits_def mbuf_ok_def word_le_nat_alt)
  have l: "unat (mb_len m) = length pre + length bs + length post" using writable_length [OF w] c by simp
  have "take (length bs) (drop (length pre) (content m)) = bs" using c by simp
  then have "take (length bs) (drop (length pre) (mb_data m)) = bs" using l by (simp add: content_def drop_take)
  then show ?thesis using le l s by (simp add: holds_def)
qed

end
