(* ===== verification/StringGc.thy ===== *)
theory StringGc
  imports Strings
begin

text \<open>
  The collection of strings (\<open>gc_mark_string\<close> and \<open>gc_compact_strings\<close> of \<open>gc.c\<close>, \<open>v7/v7.c\<close>). Marking a
  value threads it into a chain that starts in the first six bytes of its string; compaction walks the
  buffer, gives every value of a chain the new place of the string and moves the string down. The cells
  of memory that hold values are a map from addresses to values; \<open>int\<close> lengths that overflow, reads
  and writes beyond the buffer and reads of addresses that are no cell have no result.
\<close>

type_synonym cells = "u64 \<Rightarrow> val_t option"

definition gc_mark_string :: "u64 \<Rightarrow> v7 \<times> cells \<Rightarrow> (v7 \<times> cells) option" where
  "gc_mark_string a st =
     (let (v, cells) = st; m = owned_strings v in
      do { x \<leftarrow> cells a;
           if x AND V7_TAG_MASK \<noteq> V7_TAG_STRING_O then Some st
           else
             do { _ \<leftarrow> gc_check_valid_allocation_seqn v (ucast (drop_bit 32 x AND 0xFFFF));
                  let s = unat (gc_string_val_to_offset x);
                  if \<not> s < unat (mb_len m) \<or> s = 0 \<or> length (mb_data m) < s + 6 then None
                  else
                    do { let chunk = of_nat (le_val (take 6 (drop s (mb_data m))));
                         let tmp = chunk OR (if mb_data m ! (s - 1) = 0 then V7_TAG_STRING_C else V7_TAG_FOREIGN);
                         m \<leftarrow> store (s - 1) [1] m;
                         m \<leftarrow> store s (le_bytes 6 (unat a)) m;
                         Some (v\<lparr>owned_strings := m\<rparr>, cells(a \<mapsto> tmp)) } } })"

text \<open>The inner loop of \<open>gc_compact_strings\<close>: \<open>new\<close> is what every value of the chain becomes.\<close>

partial_function (option) relocate :: "val_t \<Rightarrow> cells \<Rightarrow> val_t \<Rightarrow> (val_t \<times> cells) option" where
  "relocate new cells h =
     (if h AND V7_TAG_MASK = V7_TAG_STRING_C then Some (h, cells)
      else
        do { let a = h AND NOT V7_TAG_MASK;
             nxt \<leftarrow> cells a;
             relocate new (cells(a \<mapsto> new)) nxt })"

function compact_loop :: "nat \<Rightarrow> nat \<Rightarrow> nat \<Rightarrow> v7 \<times> cells \<Rightarrow> (nat \<times> v7 \<times> cells) option" where
  "compact_loop stop p head st =
     (let (v, cells) = st; m = owned_strings v in
      if p < stop then
        if mb_data m ! (p - 1) = 1 then
          do { let (asn, v) = next_asn v;
               let h = of_nat (le_val (take 6 (drop p (mb_data m))));
               (h, cells) \<leftarrow> relocate (gc_string_val_from_offset (of_nat head) OR push_bit 32 (ucast asn)) cells h;
               let h = h AND NOT V7_TAG_MASK;
               (n, llen) \<leftarrow> decode_varint (le_bytes 8 (unat h));
               let len = unat n + llen + 1;
               m \<leftarrow> store p (le_bytes 6 (unat h)) m;
               if 2 ^ 31 \<le> len \<or> length (mb_data m) < p + len then None
               else
                 do { m \<leftarrow> store head (take len (drop p (mb_data m))) m;
                      m \<leftarrow> store (head - 1) [0] m;
                      compact_loop stop (p + len) (head + len) (v\<lparr>owned_strings := m\<rparr>, cells) } }
        else
          do { (n, llen) \<leftarrow> decode_varint (drop p (mb_data m));
               let len = unat n + llen + 1;
               if 2 ^ 31 \<le> len then None else compact_loop stop (p + len) head st }
      else Some (head, st))"
  by pat_completeness auto
termination by (relation "measure (\<lambda>(stop, p, head, st). stop - p)") auto

declare compact_loop.simps [simp del]

definition gc_compact_strings :: "v7 \<times> cells \<Rightarrow> (v7 \<times> cells) option" where
  "gc_compact_strings st =
     (let (v, cells) = st; v = v\<lparr>gc_min_asn := gc_next_asn v\<rparr> in
      do { (head, v, cells) \<leftarrow> compact_loop (unat (mb_len (owned_strings v))) 1 1 (v, cells);
           Some (v\<lparr>owned_strings := (owned_strings v)\<lparr>mb_len := of_nat head\<rparr>\<rparr>, cells) })"

text \<open>Marking the values at a list of addresses.\<close>

fun gc_mark_strings :: "u64 list \<Rightarrow> v7 \<times> cells \<Rightarrow> (v7 \<times> cells) option" where
  "gc_mark_strings [] st = Some st"
| "gc_mark_strings (a # as) st = do { st \<leftarrow> gc_mark_string a st; gc_mark_strings as st }"

text \<open>The strings part of \<open>v7_gc\<close>: \<open>full\<close> also gives memory back.\<close>

definition gc_strings :: "allocator \<Rightarrow> u64 list \<Rightarrow> bool \<Rightarrow> v7 \<times> cells \<Rightarrow> (v7 \<times> cells) option" where
  "gc_strings A roots full st =
     do { st \<leftarrow> gc_mark_strings roots st;
          (v, cells) \<leftarrow> gc_compact_strings st;
          let m = owned_strings v;
          let trimmed_size = mb_len m + V7_STRING_BUF_RESERVE;
          Some (if full \<and> trimmed_size < mb_size m then v\<lparr>owned_strings := mbuf_resize A m trimmed_size\<rparr> else v, cells) }"

end
