(* ===== verification/StringGcCorrect.thy ===== *)
theory StringGcCorrect
  imports StringGc StringsCorrect "HOL-Library.Sublist"
begin

text \<open>
  Correctness of StringGc. While values are threaded the buffer is the \<open>layout\<close> of the strings with
  their chains of addresses; a collection keeps exactly the strings that some root refers to, in
  order, and every root denotes the string it denoted before.
\<close>

subsection \<open>The buffer with chains\<close>

definition body :: "u8 list \<Rightarrow> u8 list" where
  "body s = varint_of s @ s"

definition mark :: "u64 list \<Rightarrow> u8" where
  "mark c = (if c = [] then 0 else 1)"

definition threaded :: "u8 list \<Rightarrow> u64 list \<Rightarrow> u8 list" where
  "threaded s c = (if c = [] then body s else le_bytes 6 (unat (hd c)) @ drop 6 (body s))"

definition cell :: "u8 list \<times> u64 list \<Rightarrow> u8 list" where
  "cell e = mark (snd e) # threaded (fst e) (snd e)"

definition layout :: "(u8 list \<times> u64 list) list \<Rightarrow> u8 list" where
  "layout xs = concat (map cell xs) @ [0]"

text \<open>The first six bytes of a string, as the last value of its chain keeps them.\<close>

definition chunk :: "u8 list \<Rightarrow> u64" where
  "chunk s = of_nat (le_val (take 6 (body s)))"

fun chain_ok :: "cells \<Rightarrow> u8 list \<Rightarrow> u64 list \<Rightarrow> bool" where
  "chain_ok cells s [] \<longleftrightarrow> True"
| "chain_ok cells s (a # as) \<longleftrightarrow>
     cells a = Some (case as of [] \<Rightarrow> tagged 0xFFF6 (chunk s) | b # _ \<Rightarrow> tagged 0xFFFE b) \<and> chain_ok cells s as"

definition gc_inv :: "(u8 list \<times> u64 list) list \<Rightarrow> v7 \<Rightarrow> cells \<Rightarrow> bool" where
  "gc_inv xs v cells \<longleftrightarrow> fits (owned_strings v) \<and> content (owned_strings v) = layout xs \<and>
     sizes_ok (map fst xs) \<and> (\<forall>e \<in> set xs. chain_ok cells (fst e) (snd e)) \<and>
     distinct (concat (map snd xs)) \<and> (\<forall>a \<in> set (concat (map snd xs)). tag_of a = 0)"

lemma body_length:
  assumes "5 < length s" "length s < 2 ^ 31"
  shows "7 \<le> length (body s)" "length (body s) \<le> length s + 5" "length (block s) = Suc (length (body s))"
  using varint_of(3,4) [OF assms(2)] assms(1) by (auto simp: body_def block_def simp del: length_greater_0_conv)

lemma threaded_length: "5 < length s \<Longrightarrow> length s < 2 ^ 31 \<Longrightarrow> length (threaded s c) = length (body s)"
  using body_length [of s] by (simp add: threaded_def)

lemma concat_cells:
  assumes "\<forall>e \<in> set xs. 5 < length (fst e) \<and> length (fst e) < 2 ^ 31"
  shows "Suc (length (concat (map cell xs))) = length (packed (map fst xs))"
  using assms
proof (induction xs)
  case (Cons e xs)
  then show ?case
    using threaded_length [of "fst e" "snd e"] body_length(3) [of "fst e"] by (simp add: cell_def packed_def)
qed (simp add: packed_def)

lemma packed_layout: "packed ss = layout (map (\<lambda>s. (s, [])) ss)"
proof -
  have "0 # concat (map block ss) = concat (map (\<lambda>s. 0 # body s) ss) @ [0]"
    by (induction ss) (simp_all add: block_def body_def)
  then show ?thesis
    by (simp add: packed_def layout_def cell_def threaded_def mark_def comp_def)
qed

lemma chunk_payload: "payload (chunk s) = chunk s" "tag_of (chunk s) = 0" "unat (chunk s) = le_val (take 6 (body s))"
proof -
  have l: "length (take 6 (body s)) \<le> 6" by simp
  note s = le_val_small [OF l]
  then show u: "unat (chunk s) = le_val (take 6 (body s))" by (simp add: chunk_def)
  have "unat (payload (chunk s)) = unat (chunk s)"
    using s u by (simp add: payload_def unsigned_take_bit_eq take_bit_nat_eq_self)
  then show p: "payload (chunk s) = chunk s" by (simp only: word_unat_eq_iff)
  then show "tag_of (chunk s) = 0" by (simp only: payload_small)
qed

lemma addr_bytes: "tag_of a = 0 \<Longrightarrow> of_nat (le_val (le_bytes 6 (unat a))) = a"
proof -
  assume "tag_of a = 0"
  then have p: "payload a = a" by (simp only: payload_small)
  have "unat (payload a) < 2 ^ 48"
    using take_bit_nat_less_exp [of 48 "unat a"] by (simp add: payload_def unsigned_take_bit_eq)
  then have "unat a < 2 ^ 48" by (simp only: p)
  then have "unat a mod 256 ^ 6 = unat a" by simp
  then show ?thesis by (simp only: le_val_le_bytes) simp
qed

lemma or_tag_small:
  assumes "tag_of x = 0"
  shows "x OR V7_TAG_STRING_C = tagged 0xFFF6 x" "x OR V7_TAG_FOREIGN = tagged 0xFFFE x"
    "x OR V7_TAG_STRING_O = tagged 0xFFF8 x"
  using assms payload_small [of x] set_tag [of x] by (simp_all add: tags)

subsection \<open>Marking\<close>

lemma chain_tags: "chain_ok cells s c \<Longrightarrow> a \<in> set c \<Longrightarrow> \<exists>x. cells a = Some x \<and> tag_of x \<noteq> 0xFFF8"
proof (induction c)
  case (Cons b c)
  then show ?case by (cases c) auto
qed simp

lemma chain_update: "chain_ok cells s c \<Longrightarrow> a \<notin> set c \<Longrightarrow> chain_ok (cells(a \<mapsto> x)) s c"
  by (induction c) auto

lemma inv_not_in_chain:
  assumes "gc_inv xs v cells" "cells a = Some x" "tag_of x = 0xFFF8" "e \<in> set xs"
  shows "a \<notin> set (snd e)"
  using assms chain_tags [of cells "fst e" "snd e" a] by (auto simp: gc_inv_def)

lemma mark_one:
  assumes inv: "gc_inv xs v cells" and i: "i < length xs" and a: "tag_of a = 0"
    and x: "cells a = Some x" "tag_of x = 0xFFF8" "gc_is_valid_allocation_seqn v (asn_of x)"
      "unat (gc_string_val_to_offset x) = offset (map fst xs) i"
  obtains m y where "gc_mark_string a (v, cells) = Some (v\<lparr>owned_strings := m\<rparr>, cells(a \<mapsto> y))"
    "gc_inv (xs[i := (fst (xs ! i), a # snd (xs ! i))]) (v\<lparr>owned_strings := m\<rparr>) (cells(a \<mapsto> y))"
proof -
  let ?m = "owned_strings v" and ?xs = "xs[i := (fst (xs ! i), a # snd (xs ! i))]"
  obtain s c where e: "xs ! i = (s, c)" by (cases "xs ! i")
  let ?pre = "concat (map cell (take i xs))" and ?post = "concat (map cell (drop (Suc i) xs)) @ [0]"
  have xs: "xs = take i xs @ (s, c) # drop (Suc i) xs" using id_take_nth_drop [OF i] e by simp
  have sz: "\<forall>e \<in> set xs. 5 < length (fst e) \<and> length (fst e) < 2 ^ 31"
    using inv by (auto simp: gc_inv_def sizes_ok_def)
  have l: "5 < length s" "length s < 2 ^ 31" using sz nth_mem [OF i] e by auto
  note bl = body_length [OF l] threaded_length [OF l]
  have off: "offset (map fst xs) i = Suc (length ?pre)"
  proof -
    have "\<forall>e \<in> set (take i xs). 5 < length (fst e) \<and> length (fst e) < 2 ^ 31"
      using sz by (auto dest: in_set_takeD)
    from concat_cells [OF this] show ?thesis by (simp add: offset_def take_map)
  qed
  have c0: "content ?m = ?pre @ mark c # threaded s c @ ?post"
  proof -
    have "layout xs = ?pre @ mark c # threaded s c @ ?post"
      by (subst xs) (simp add: layout_def cell_def)
    then show ?thesis using inv by (simp add: gc_inv_def)
  qed
  have ok: "mbuf_ok ?m" using inv by (simp add: gc_inv_def fits_def)
  have dat: "mb_data ?m = (?pre @ mark c # threaded s c @ ?post) @ drop (unat (mb_len ?m)) (mb_data ?m)"
    using c0 by (metis append_take_drop_id content_def)
  let ?s = "Suc (length ?pre)"
  have len: "?s + length (body s) + length ?post \<le> length (mb_data ?m)" "?s < unat (mb_len ?m)"
  proof -
    have n: "unat (mb_len ?m) = length (content ?m)" using ok by simp
    have "length (content ?m) \<le> length (mb_data ?m)" by (simp add: content_def)
    then show "?s + length (body s) + length ?post \<le> length (mb_data ?m)" by (simp add: c0 bl(4))
    show "?s < unat (mb_len ?m)" using bl by (simp add: n c0)
  qed
  have at: "mb_data ?m ! length ?pre = mark c" "take 6 (drop ?s (mb_data ?m)) = take 6 (threaded s c)"
    using bl by (subst dat, simp add: nth_append)+
  define y where "y = (if c = [] then tagged 0xFFF6 (chunk s) else tagged 0xFFFE (hd c))"
  have y: "of_nat (le_val (take 6 (drop ?s (mb_data ?m)))) OR
      (if mb_data ?m ! length ?pre = 0 then V7_TAG_STRING_C else V7_TAG_FOREIGN) = y"
  proof (cases "c = []")
    case True
    then show ?thesis
      using or_tag_small(1) [OF chunk_payload(2) [of s]]
      by (simp add: at threaded_def mark_def y_def chunk_def)
  next
    case False
    then have "tag_of (hd c) = 0" using inv nth_mem [OF i] e by (force simp: gc_inv_def)
    with False show ?thesis
      using or_tag_small(2) [of "hd c"] addr_bytes [of "hd c"]
      by (simp add: at threaded_def mark_def y_def)
  qed
  let ?m1 = "?m\<lparr>mb_data := overwrite (length ?pre) [1] (mb_data ?m)\<rparr>"
  have m1: "store (length ?pre) [1] ?m = Some ?m1" "content ?m1 = ?pre @ [1] @ threaded s c @ ?post" "mbuf_ok ?m1"
    using len(1) content_overwrite [of ?m ?pre "[mark c]" "threaded s c @ ?post" "[1]"] ok c0
    by (simp_all add: store_def mbuf_ok_def length_overwrite)
  let ?m2 = "?m1\<lparr>mb_data := overwrite ?s (le_bytes 6 (unat a)) (mb_data ?m1)\<rparr>"
  have len1: "length (mb_data ?m1) = length (mb_data ?m)" using len(1) by (simp add: length_overwrite)
  have m2: "store ?s (le_bytes 6 (unat a)) ?m1 = Some ?m2" "length (mb_data ?m2) = length (mb_data ?m)"
    using len(1) len1 bl by (simp_all add: store_def length_overwrite)
  have "content ?m1 = (?pre @ [1]) @ take 6 (threaded s c) @ drop 6 (threaded s c) @ ?post" by (simp add: m1(2))
  from content_overwrite [OF m1(3) this, of "le_bytes 6 (unat a)"]
  have c2: "content ?m2 = ?pre @ [1] @ le_bytes 6 (unat a) @ drop 6 (body s) @ ?post"
    using bl by (simp add: threaded_def)
  have upd: "?xs = take i xs @ (s, a # c) # drop (Suc i) xs" using i e by (simp add: upd_conv_take_nth_drop)
  have c3: "content ?m2 = layout ?xs"
    unfolding upd c2 by (simp add: layout_def cell_def mark_def threaded_def)
  have "gc_mark_string a (v, cells) = Some (v\<lparr>owned_strings := ?m2\<rparr>, cells(a \<mapsto> y))"
    using x m1(1) m2(1) len y i off bl(1)
    by (simp add: gc_mark_string_def Let_def and_tag_mask tags tagged_eq_iff gc_check_valid_allocation_seqn_def
        asn_of_def)
  moreover have "gc_inv ?xs (v\<lparr>owned_strings := ?m2\<rparr>) (cells(a \<mapsto> y))"
    unfolding gc_inv_def
  proof (intro conjI ballI)
    have fresh: "\<forall>e \<in> set xs. a \<notin> set (snd e)" using inv_not_in_chain [OF inv x(1,2)] by blast
    show "fits (owned_strings (v\<lparr>owned_strings := ?m2\<rparr>))"
      using inv m2(2) len1 by (simp add: gc_inv_def fits_def mbuf_ok_def)
    show "content (owned_strings (v\<lparr>owned_strings := ?m2\<rparr>)) = layout ?xs" using c3 by simp
    have "map fst ?xs = map fst xs" by (simp add: map_update list_update_id flip: nth_map [OF i])
    then show "sizes_ok (map fst ?xs)" using inv by (simp add: gc_inv_def)
    have chain: "chain_ok (cells(a \<mapsto> y)) (fst e) (snd e)" if "e \<in> set xs" for e
      using that inv fresh by (intro chain_update) (auto simp: gc_inv_def)
    show "chain_ok (cells(a \<mapsto> y)) (fst f) (snd f)" if "f \<in> set ?xs" for f
    proof (cases "f \<in> set xs")
      case False
      then have "f = (s, a # c)" using that set_update_subset_insert [of xs i] e by auto
      then show ?thesis using chain [OF nth_mem [OF i]] e by (cases c) (simp_all add: y_def)
    qed (rule chain)
    have cs: "concat (map snd xs) = concat (map snd (take i xs)) @ c @ concat (map snd (drop (Suc i) xs))"
      by (subst xs) simp
    have "a \<notin> set (concat (map snd xs))" using fresh by auto
    moreover have "distinct (concat (map snd xs))" using inv by (simp add: gc_inv_def)
    ultimately have "distinct (concat (map snd (take i xs)) @ (a # c) @ concat (map snd (drop (Suc i) xs)))"
      unfolding cs by auto
    then show "distinct (concat (map snd ?xs))" unfolding upd by simp
    show "tag_of b = 0" if "b \<in> set (concat (map snd ?xs))" for b
      using that set_update_subset_insert [of xs i "(s, a # c)"] inv a e nth_mem [OF i]
      by (force simp: gc_inv_def)
  qed
  ultimately show thesis by (rule that)
qed

text \<open>The roots that refer to string \<open>i\<close>, and roots that can be marked.\<close>

definition refers :: "u8 list list \<Rightarrow> cells \<Rightarrow> u64 \<Rightarrow> nat \<Rightarrow> bool" where
  "refers ss cells a i \<longleftrightarrow> (\<exists>x. cells a = Some x \<and> tag_of x = 0xFFF8 \<and>
     unat (gc_string_val_to_offset x) = offset ss i)"

definition markable :: "u8 list list \<Rightarrow> v7 \<Rightarrow> cells \<Rightarrow> u64 \<Rightarrow> bool" where
  "markable ss v cells a \<longleftrightarrow> tag_of a = 0 \<and> (\<exists>x. cells a = Some x \<and>
     (tag_of x = 0xFFF8 \<longrightarrow> gc_is_valid_allocation_seqn v (asn_of x) \<and>
        (\<exists>i < length ss. unat (gc_string_val_to_offset x) = offset ss i)))"

lemma offset_step: "i < length ss \<Longrightarrow> offset ss (Suc i) = offset ss i + length (block (ss ! i))"
  by (simp add: offset_def packed_def take_Suc_conv_app_nth)

lemma offset_less: "i < j \<Longrightarrow> j \<le> length ss \<Longrightarrow> offset ss i < offset ss j"
proof (induction j)
  case (Suc j)
  have "offset ss j < offset ss (Suc j)" using Suc.prems by (simp add: offset_step block_def)
  with Suc show ?case by (cases "i = j") simp_all
qed simp

lemma offset_inj: "i < length ss \<Longrightarrow> j < length ss \<Longrightarrow> offset ss i = offset ss j \<longleftrightarrow> i = j"
  using offset_less [of i j ss] offset_less [of j i ss] by (metis less_imp_le linorder_neqE_nat nat_neq_iff)

lemma mark_all:
  assumes "gc_inv xs v cells" "\<forall>a \<in> set roots. markable (map fst xs) v cells a"
  shows "\<exists>m cells' xs'. gc_mark_strings roots (v, cells) = Some (v\<lparr>owned_strings := m\<rparr>, cells') \<and>
     gc_inv xs' (v\<lparr>owned_strings := m\<rparr>) cells' \<and> map fst xs' = map fst xs \<and>
     (\<forall>i < length xs. set (snd (xs' ! i)) = set (snd (xs ! i)) \<union> {a \<in> set roots. refers (map fst xs) cells a i}) \<and>
     (\<forall>a. a \<notin> set roots \<or> (\<exists>x. cells a = Some x \<and> tag_of x \<noteq> 0xFFF8) \<longrightarrow> cells' a = cells a)"
  using assms
proof (induction roots arbitrary: xs v cells)
  case Nil
  then show ?case by (intro exI [of _ "owned_strings v"] exI [of _ cells] exI [of _ xs]) simp
next
  case (Cons a roots)
  let ?ss = "map fst xs"
  obtain x where x: "tag_of a = 0" "cells a = Some x"
    "tag_of x = 0xFFF8 \<Longrightarrow> gc_is_valid_allocation_seqn v (asn_of x) \<and>
       (\<exists>i < length ?ss. unat (gc_string_val_to_offset x) = offset ?ss i)"
    using Cons.prems(2) by (auto simp: markable_def)
  show ?case
  proof (cases "tag_of x = 0xFFF8")
    case False
    then have "gc_mark_string a (v, cells) = Some (v, cells)"
      using x(2) by (simp add: gc_mark_string_def and_tag_mask tags tagged_eq_iff)
    moreover have "\<not> refers ?ss cells a i" for i using False x(2) by (simp add: refers_def)
    then have "{b \<in> set (a # roots). refers ?ss cells b i} = {b \<in> set roots. refers ?ss cells b i}" for i by auto
    moreover obtain m cells' xs' where IH: "gc_mark_strings roots (v, cells) = Some (v\<lparr>owned_strings := m\<rparr>, cells')"
        "gc_inv xs' (v\<lparr>owned_strings := m\<rparr>) cells'" "map fst xs' = ?ss"
        "\<forall>j < length xs. set (snd (xs' ! j)) = set (snd (xs ! j)) \<union> {b \<in> set roots. refers ?ss cells b j}"
        "\<forall>b. b \<notin> set roots \<or> (\<exists>x. cells b = Some x \<and> tag_of x \<noteq> 0xFFF8) \<longrightarrow> cells' b = cells b"
      using Cons.IH [OF Cons.prems(1)] Cons.prems(2) by auto
    moreover have "\<forall>b. b \<notin> set (a # roots) \<or> (\<exists>x. cells b = Some x \<and> tag_of x \<noteq> 0xFFF8) \<longrightarrow> cells' b = cells b"
      using IH(5) by auto
    ultimately show ?thesis by (intro exI [of _ m] exI [of _ cells'] exI [of _ xs']) simp
  next
    case True
    then obtain i where i: "i < length xs" "unat (gc_string_val_to_offset x) = offset ?ss i"
      and asn: "gc_is_valid_allocation_seqn v (asn_of x)"
      using x(3) by auto
    let ?xs = "xs[i := (fst (xs ! i), a # snd (xs ! i))]"
    obtain m y where my: "gc_mark_string a (v, cells) = Some (v\<lparr>owned_strings := m\<rparr>, cells(a \<mapsto> y))"
      "gc_inv ?xs (v\<lparr>owned_strings := m\<rparr>) (cells(a \<mapsto> y))"
      by (rule mark_one [OF Cons.prems(1) i(1) x(1,2) True asn i(2)])
    have ss: "map fst ?xs = ?ss" by (simp add: map_update list_update_id flip: nth_map [OF i(1)])
    have y: "tag_of y \<noteq> 0xFFF8"
    proof -
      have "(fst (xs ! i), a # snd (xs ! i)) \<in> set ?xs" by (rule set_update_memI [OF i(1)])
      then have "chain_ok (cells(a \<mapsto> y)) (fst (xs ! i)) (a # snd (xs ! i))"
        using my(2) by (fastforce simp: gc_inv_def)
      from chain_tags [OF this, of a] show ?thesis by simp
    qed
    have ready: "\<forall>b \<in> set roots. markable (map fst ?xs) (v\<lparr>owned_strings := m\<rparr>) (cells(a \<mapsto> y)) b"
      using Cons.prems(2) y unfolding ss by (auto simp: markable_def valid_asn_iff)
    have refs: "refers ?ss (cells(a \<mapsto> y)) b j \<longleftrightarrow> b \<noteq> a \<and> refers ?ss cells b j" for b j
      using y by (simp add: refers_def)
    have refs_a: "j < length xs \<Longrightarrow> refers ?ss cells a j \<longleftrightarrow> j = i" for j
      using x(2) True i offset_inj [of i ?ss j] by (auto simp: refers_def)
    from Cons.IH [OF my(2) ready] obtain m' cells' xs' where
      IH: "gc_mark_strings roots (v\<lparr>owned_strings := m\<rparr>, cells(a \<mapsto> y)) = Some (v\<lparr>owned_strings := m'\<rparr>, cells')"
        "gc_inv xs' (v\<lparr>owned_strings := m'\<rparr>) cells'" "map fst xs' = ?ss"
        "\<forall>j < length xs. set (snd (xs' ! j)) = set (snd (?xs ! j)) \<union> {b \<in> set roots. refers ?ss (cells(a \<mapsto> y)) b j}"
        "\<forall>b. b \<notin> set roots \<or> (\<exists>x. (cells(a \<mapsto> y)) b = Some x \<and> tag_of x \<noteq> 0xFFF8) \<longrightarrow> cells' b = (cells(a \<mapsto> y)) b"
      unfolding ss by (auto simp del: fun_upd_apply)
    have "set (snd (xs' ! j)) = set (snd (xs ! j)) \<union> {b \<in> set (a # roots). refers ?ss cells b j}" if "j < length xs" for j
      using IH(4) that refs refs_a [OF that] i(1) by (auto simp: nth_list_update)
    moreover have "cells' b = cells b"
      if "b \<notin> set (a # roots) \<or> (\<exists>x. cells b = Some x \<and> tag_of x \<noteq> 0xFFF8)" for b
    proof -
      have "b \<noteq> a" using that x(2) True by auto
      with that IH(5) show ?thesis by auto
    qed
    ultimately show ?thesis
      using my(1) IH(1-3) by (intro exI [of _ m'] exI [of _ cells'] exI [of _ xs']) simp
  qed
qed

subsection \<open>Unthreading a chain\<close>

lemma relocate_chain:
  assumes "chain_ok cells s c" "c \<noteq> []" "distinct c" "\<forall>a \<in> set c. tag_of a = 0"
    and "payload h = hd c" "tag_of h \<noteq> 0xFFF6"
  shows "relocate new cells h
    = Some (tagged 0xFFF6 (chunk s), \<lambda>b. if b \<in> set c then Some new else cells b)"
  using assms
proof (induction c arbitrary: cells h)
  case (Cons a c)
  have h: "h AND V7_TAG_MASK \<noteq> V7_TAG_STRING_C" "h AND NOT V7_TAG_MASK = a"
    using Cons.prems by (simp_all add: and_tag_mask and_not_tag_mask tags tagged_eq_iff)
  show ?case
  proof (cases c)
    case Nil
    then have "relocate new cells h = relocate new (cells(a \<mapsto> new)) (tagged 0xFFF6 (chunk s))"
      using Cons.prems h by (subst relocate.simps) simp
    also have "\<dots> = Some (tagged 0xFFF6 (chunk s), cells(a \<mapsto> new))"
      by (subst relocate.simps) (simp add: and_tag_mask tags)
    finally show ?thesis using Nil by (auto simp: fun_eq_iff)
  next
    case (Cons b c')
    then have "relocate new cells h = relocate new (cells(a \<mapsto> new)) (tagged 0xFFFE b)"
      using Cons.prems(1) h by (subst relocate.simps) simp
    also have "\<dots> = Some (tagged 0xFFF6 (chunk s), \<lambda>x. if x \<in> set c then Some new else (cells(a \<mapsto> new)) x)"
    proof (rule Cons.IH)
      show "chain_ok (cells(a \<mapsto> new)) s c" using Cons.prems by (intro chain_update) simp_all
      show "payload (tagged 0xFFFE b) = hd c" using Cons.prems(4) Cons by (simp add: payload_small)
    qed (use Cons.prems Cons in auto)
    finally show ?thesis by (auto simp: fun_eq_iff)
  qed
qed simp

lemma chunk_bytes:
  assumes "5 < length s" "length s < 2 ^ 31"
  shows "le_bytes 8 (unat (chunk s)) = take 6 (body s) @ [0, 0]" "le_bytes 6 (unat (chunk s)) = take 6 (body s)"
    "decode_varint (le_bytes 8 (unat (chunk s))) = Some (of_nat (length s), length (varint_of s))"
proof -
  have l: "length (take 6 (body s)) = 6" using body_length(1) [OF assms] by simp
  show b: "le_bytes 8 (unat (chunk s)) = take 6 (body s) @ [0, 0]"
    using le_bytes_pad [of "take 6 (body s)" 8] l by (simp add: chunk_payload numeral_2_eq_2)
  show "le_bytes 6 (unat (chunk s)) = take 6 (body s)"
    using le_bytes_le_val [of "take 6 (body s)"] l by (simp add: chunk_payload)
  have "take 6 (body s) = varint_of s @ take (6 - length (varint_of s)) s"
    using varint_of(4) [OF assms(2)] by (simp add: body_def)
  then show "decode_varint (le_bytes 8 (unat (chunk s))) = Some (of_nat (length s), length (varint_of s))"
    using varint_of(2) [OF assms(2)] by (simp add: b)
qed

subsection \<open>Compaction\<close>

text \<open>
  The buffer while it is compacted: what was kept, a gap, and what is still to come. The gap starts
  with the byte that will end the last kept string: it is a mark only if the next string is marked.
\<close>

definition shape :: "u8 list \<Rightarrow> u8 list list \<Rightarrow> nat \<Rightarrow> (u8 list \<times> u64 list) list \<Rightarrow> u8 list \<Rightarrow> bool" where
  "shape D ks p ys T \<longleftrightarrow> (\<exists>G. D = butlast (packed ks) @ G @ layout ys @ T \<and> p = length (packed ks) + length G \<and>
     (G \<noteq> [] \<longrightarrow> hd G = 0 \<or> (ys \<noteq> [] \<and> snd (hd ys) \<noteq> [])))"

lemma heap_last: "packed ks = butlast (packed ks) @ [0]"
  by (cases ks rule: rev_cases) (simp_all add: packed_def block_def butlast_append)

lemma heap_butlast: "butlast (packed (ks @ [s])) = packed ks @ body s"
  by (simp add: heap_append block_def body_def butlast_append)

lemma layout_Cons: "layout (e # ys) = mark (snd e) # threaded (fst e) (snd e) @ layout ys"
  by (simp add: layout_def cell_def)

lemma layout_hd: "layout ys = hd (layout ys) # tl (layout ys)"
    "hd (layout ys) = 0 \<or> (ys \<noteq> [] \<and> snd (hd ys) \<noteq> [])"
  by (cases ys; auto simp: layout_def cell_def mark_def)+

text \<open>What one live string does to the bytes.\<close>

definition move_string :: "u8 list \<Rightarrow> nat \<Rightarrow> nat \<Rightarrow> u8 list \<Rightarrow> u8 list" where
  "move_string s p head D =
     (let D1 = overwrite p (take 6 (body s)) D;
          D2 = overwrite head (take (length (block s)) (drop p D1)) D1
      in overwrite (head - 1) [0] D2)"

lemma overwrite_mid: "length w = length xs \<Longrightarrow> n = length pre \<Longrightarrow> overwrite n w (pre @ xs @ post) = pre @ w @ post"
  by (simp add: overwrite_def)

lemma shape_move:
  assumes "shape D ks p ((s, c) # ys) T" "c \<noteq> []" "5 < length s" "length s < 2 ^ 31"
  shows "shape (move_string s p (length (packed ks)) D) (ks @ [s]) (p + length (block s)) ys T"
proof -
  obtain G where G: "D = butlast (packed ks) @ G @ layout ((s, c) # ys) @ T" "p = length (packed ks) + length G"
    using assms(1) by (auto simp: shape_def)
  define Bl where "Bl = butlast (packed ks)"
  have hk: "packed ks = Bl @ [0]" unfolding Bl_def by (rule heap_last)
  note bl = body_length [OF assms(3,4)]
  have B: "length (packed ks) = Suc (length Bl)" by (simp add: hk)
  have D: "D = Bl @ G @ 1 # le_bytes 6 (unat (hd c)) @ drop 6 (body s) @ layout ys @ T"
    using assms(2) by (simp add: G(1) layout_Cons mark_def threaded_def Bl_def)
  have D1: "overwrite p (take 6 (body s)) D = Bl @ G @ 1 # body s @ layout ys @ T"
  proof -
    have "D = (Bl @ G @ [1]) @ le_bytes 6 (unat (hd c)) @ drop 6 (body s) @ layout ys @ T" by (simp add: D)
    then have "overwrite p (take 6 (body s)) D = (Bl @ G @ [1]) @ take 6 (body s) @ drop 6 (body s) @ layout ys @ T"
      using bl(1) B G(2) by (simp only:) (rule overwrite_mid, simp_all)
    also have "take 6 (body s) @ drop 6 (body s) @ layout ys @ T = body s @ layout ys @ T"
      by (metis append_assoc append_take_drop_id)
    finally show ?thesis by simp
  qed
  obtain m L where L: "layout ys = m # L" and m: "m = 0 \<or> (ys \<noteq> [] \<and> snd (hd ys) \<noteq> [])"
    using layout_hd by metis
  have p: "p = length (Bl @ G @ [1])" using B G(2) by simp
  have "drop p (Bl @ G @ 1 # body s @ layout ys @ T) = (body s @ [m]) @ L @ T"
    by (simp add: p L)
  then have mv: "take (length (block s)) (drop p (Bl @ G @ 1 # body s @ layout ys @ T)) = body s @ [m]"
    by (simp only: bl(3)) simp
  have K: "butlast (packed (ks @ [s])) = Bl @ 0 # body s" "length (packed (ks @ [s])) = length (packed ks) + length (block s)"
    unfolding heap_butlast by (simp_all add: hk heap_append)
  show ?thesis
  proof (cases G)
    case Nil
    have eq: "Bl @ G @ 1 # body s @ layout ys @ T = (Bl @ [1]) @ (body s @ [m]) @ L @ T" by (simp add: Nil L)
    have "overwrite (length (packed ks)) (body s @ [m]) (Bl @ G @ 1 # body s @ layout ys @ T)
        = (Bl @ [1]) @ (body s @ [m]) @ L @ T"
      unfolding eq by (rule overwrite_mid) (simp_all add: B)
    also have "\<dots> = Bl @ [1] @ body s @ layout ys @ T" by (simp add: L)
    finally have "move_string s p (length (packed ks)) D = overwrite (length Bl) [0] (Bl @ [1] @ body s @ layout ys @ T)"
      by (simp only: move_string_def Let_def D1 mv) (simp add: B)
    also have "\<dots> = Bl @ [0] @ body s @ layout ys @ T" by (rule overwrite_mid) simp_all
    finally have "move_string s p (length (packed ks)) D = Bl @ [0] @ body s @ layout ys @ T" .
    then show ?thesis
      unfolding shape_def by (intro exI [of _ "[]"]) (simp add: K G(2) Nil)
  next
    case (Cons x G1)
    let ?r = "drop (length (block s)) (G1 @ 1 # body s)"
    have r: "length ?r = length G1" using bl(3) by simp
    have eq: "Bl @ G @ 1 # body s @ layout ys @ T
        = (Bl @ [x]) @ take (length (block s)) (G1 @ 1 # body s) @ ?r @ layout ys @ T"
    proof -
      have "Bl @ G @ 1 # body s @ layout ys @ T = (Bl @ [x]) @ (G1 @ 1 # body s) @ layout ys @ T"
        by (simp add: Cons)
      also have "(G1 @ 1 # body s) @ layout ys @ T
          = take (length (block s)) (G1 @ 1 # body s) @ ?r @ layout ys @ T"
        by (metis append_assoc append_take_drop_id)
      finally show ?thesis .
    qed
    have "overwrite (length (packed ks)) (body s @ [m]) (Bl @ G @ 1 # body s @ layout ys @ T)
        = (Bl @ [x]) @ (body s @ [m]) @ ?r @ layout ys @ T"
      unfolding eq by (rule overwrite_mid) (use bl(3) B in simp_all)
    then have "move_string s p (length (packed ks)) D
        = overwrite (length Bl) [0] (Bl @ [x] @ body s @ m # ?r @ layout ys @ T)"
      by (simp only: move_string_def Let_def D1 mv) (simp add: B)
    also have "\<dots> = Bl @ [0] @ body s @ m # ?r @ layout ys @ T" by (rule overwrite_mid) simp_all
    finally have "move_string s p (length (packed ks)) D = Bl @ [0] @ body s @ m # ?r @ layout ys @ T" .
    then show ?thesis
      using m r unfolding shape_def
      by (intro exI [of _ "m # ?r"]) (simp add: K G(2) Cons)
  qed
qed

lemma shape_skip:
  assumes "shape D ks p ((s, []) # ys) T"
  shows "shape D ks (p + length (block s)) ys T"
proof -
  obtain G where G: "D = butlast (packed ks) @ G @ layout ((s, []) # ys) @ T" "p = length (packed ks) + length G"
      "G \<noteq> [] \<longrightarrow> hd G = 0"
    using assms by (auto simp: shape_def)
  have "hd (G @ 0 # body s) = 0" using G(3) by (cases G) simp_all
  then show ?thesis
    unfolding shape_def
    by (intro exI [of _ "G @ 0 # body s"]) (simp add: G layout_Cons mark_def threaded_def block_def body_def)
qed

lemma shape_next:
  assumes "shape D ks p ((s, c) # ys) T"
  shows "D ! (p - 1) = mark c" "drop p D = threaded s c @ layout ys @ T" "0 < p"
    "length D = p + length (threaded s c) + length (layout ys) + length T" "length (packed ks) \<le> p"
proof -
  define Bl where "Bl = butlast (packed ks)"
  have hk: "packed ks = Bl @ [0]" unfolding Bl_def by (rule heap_last)
  obtain G where G: "D = Bl @ G @ mark c # threaded s c @ layout ys @ T" "p = Suc (length Bl + length G)"
    using assms by (auto simp: shape_def layout_Cons hk)
  show "D ! (p - 1) = mark c" using G by (simp add: nth_append)
  have "D = (Bl @ G @ [mark c]) @ threaded s c @ layout ys @ T" "p = length (Bl @ G @ [mark c])" using G by simp_all
  then show "drop p D = threaded s c @ layout ys @ T" by simp
  show "0 < p" "length D = p + length (threaded s c) + length (layout ys) + length T" "length (packed ks) \<le> p"
    using G by (simp_all add: hk)
qed

lemma shape_end:
  assumes "shape D ks p [] T"
  shows "take (length (packed ks)) D = packed ks" "length D = p + length T"
proof -
  define Bl where "Bl = butlast (packed ks)"
  have hk: "packed ks = Bl @ [0]" unfolding Bl_def by (rule heap_last)
  obtain G where G: "D = Bl @ G @ 0 # T" "p = Suc (length Bl + length G)" "G \<noteq> [] \<longrightarrow> hd G = 0"
    using assms by (auto simp: shape_def layout_def hk)
  then show "take (length (packed ks)) D = packed ks" by (cases G) (simp_all add: hk)
  show "length D = p + length T" using G by simp
qed

lemma length_move: "p + length (block s) \<le> length D \<Longrightarrow> 0 < head \<Longrightarrow> head \<le> p \<Longrightarrow> 6 \<le> length (block s) \<Longrightarrow>
   length (move_string s p head D) = length D"
  by (simp add: move_string_def Let_def length_overwrite)

lemma new_value:
  assumes "head < 2 ^ 32"
  shows "gc_string_val_from_offset (of_nat head) OR push_bit 32 (ucast (asn :: u16)) = owned_val head asn"
proof -
  have h: "tag_of (of_nat head :: u64) = 0"
  proof -
    have u: "unat (of_nat head :: u64) = head" using assms by (simp add: unat_of_nat)
    then have "unat (payload (of_nat head :: u64)) = unat (of_nat head :: u64)"
      using assms by (simp add: payload_def unsigned_take_bit_eq take_bit_nat_eq_self)
    then have "payload (of_nat head :: u64) = of_nat head" by (simp only: word_unat_eq_iff)
    then show ?thesis by (simp only: payload_small)
  qed
  have y: "payload (push_bit 32 (ucast asn :: u64)) = push_bit 32 (ucast asn)"
    unfolding payload_def by (rule bit_word_eqI) (auto simp: bit_simps dest: bit_imp_le_length)
  have "tagged 0xFFF8 (of_nat head) OR payload (push_bit 32 (ucast asn))
      = tagged 0xFFF8 (of_nat head OR push_bit 32 (ucast asn))"
    by (rule tagged_or)
  then show ?thesis
    unfolding gc_string_val_from_offset_def or_tag_small(3) [OF h] y owned_val_def .
qed

text \<open>The strings a collection keeps, and what the loop does to buffer and cells.\<close>

definition kept :: "(u8 list \<times> u64 list) list \<Rightarrow> (u8 list \<times> u64 list) list" where
  "kept ys = filter (\<lambda>e. snd e \<noteq> []) ys"

lemma kept_simps [simp]: "kept [] = []" "kept ((s, []) # ys) = kept ys" "c \<noteq> [] \<Longrightarrow> kept ((s, c) # ys) = (s, c) # kept ys"
  by (simp_all add: kept_def)

definition compacted ::
  "u8 list list \<Rightarrow> (u8 list \<times> u64 list) list \<Rightarrow> v7 \<times> cells \<Rightarrow> nat \<times> v7 \<times> cells \<Rightarrow> bool" where
  "compacted ks ys st r \<longleftrightarrow>
     (let (v, cells) = st; (head, v', cells') = r; ks' = ks @ map fst (kept ys) in
      head = length (packed ks') \<and>
      (\<exists>D. v' = v\<lparr>owned_strings := (owned_strings v)\<lparr>mb_data := D\<rparr>,
                  gc_next_asn := gc_next_asn v + of_nat (length (kept ys))\<rparr> \<and>
           length D = length (mb_data (owned_strings v)) \<and> take head D = packed ks') \<and>
      (\<forall>j < length (kept ys). \<forall>a \<in> set (snd (kept ys ! j)).
         cells' a = Some (owned_val (offset ks' (length ks + j)) (gc_next_asn v + of_nat j))) \<and>
      (\<forall>a. a \<notin> set (concat (map snd ys)) \<longrightarrow> cells' a = cells a))"

lemma compact_step:
  assumes sh: "shape (mb_data (owned_strings v)) ks p ((s, c) # ys) T" and c: "c \<noteq> []"
    and stop: "stop = length (mb_data (owned_strings v)) - length T" "stop < 2 ^ 31"
    and l: "5 < length s" "length s < 2 ^ 31"
    and ch: "chain_ok cells s c" "distinct c" "\<forall>a \<in> set c. tag_of a = 0"
  shows "compact_loop stop p (length (packed ks)) (v, cells) =
     compact_loop stop (p + length (block s)) (length (packed (ks @ [s])))
       (v\<lparr>gc_next_asn := gc_next_asn v + 1,
          owned_strings := (owned_strings v)\<lparr>mb_data := move_string s p (length (packed ks)) (mb_data (owned_strings v))\<rparr>\<rparr>,
        \<lambda>b. if b \<in> set c then Some (owned_val (length (packed ks)) (gc_next_asn v)) else cells b)"
proof -
  let ?D = "mb_data (owned_strings v)" and ?head = "length (packed ks)"
  note n = shape_next [OF sh] and bl = body_length [OF l] threaded_length [OF l, of c] and cb = chunk_bytes [OF l]
  have p: "p < stop" "length ?D \<ge> p + length (block s)" "?D ! (p - Suc 0) = 1"
  proof -
    have ly: "0 < length (layout ys)" by (simp add: layout_def)
    show "p < stop" "length ?D \<ge> p + length (block s)"
      using n(4) stop(1) bl ly by linarith+
    show "?D ! (p - Suc 0) = 1" using n(1) c by (simp add: mark_def)
  qed
  have small: "?head < 2 ^ 32" using p(1) stop(2) n(5) by simp
  let ?new = "owned_val ?head (gc_next_asn v)"
  have h: "payload (of_nat (le_val (take 6 (drop p ?D)))) = hd c" "tag_of (of_nat (le_val (take 6 (drop p ?D)))) \<noteq> 0xFFF6"
  proof -
    have "take 6 (drop p ?D) = le_bytes 6 (unat (hd c))" using c by (simp add: n(2) threaded_def)
    then have "of_nat (le_val (take 6 (drop p ?D))) = hd c" using ch(3) c addr_bytes [of "hd c"] by simp
    then show "payload (of_nat (le_val (take 6 (drop p ?D)))) = hd c" "tag_of (of_nat (le_val (take 6 (drop p ?D)))) \<noteq> 0xFFF6"
      using ch(3) c payload_small [of "hd c"] by simp_all
  qed
  note rel = relocate_chain [OF ch(1) c ch(2,3) h, of ?new]
  have len: "unat (of_nat (length s) :: u64) + length (varint_of s) + 1 = length (block s)"
    using l(2) by (simp add: unat_of_nat block_length)
  have lb: "length (block s) < 2 ^ 31" using p(2) n(4) stop bl(3,4) by (simp add: layout_def)
  let ?D1 = "overwrite p (take 6 (body s)) ?D"
  have st1: "store p (take 6 (body s)) (owned_strings v) = Some ((owned_strings v)\<lparr>mb_data := ?D1\<rparr>)"
    using p(2) bl(3) by (simp add: store_def)
  have l1: "length ?D1 = length ?D" using p(2) bl(3) by (simp add: length_overwrite)
  let ?D2 = "overwrite ?head (take (length (block s)) (drop p ?D1)) ?D1"
  have st2: "store ?head (take (length (block s)) (drop p ?D1)) ((owned_strings v)\<lparr>mb_data := ?D1\<rparr>)
      = Some ((owned_strings v)\<lparr>mb_data := ?D2\<rparr>)"
    using p(2) n(5) l1 by (simp add: store_def)
  have l2: "length ?D2 = length ?D" using p(2) n(5) l1 by (simp add: length_overwrite)
  have st3: "store (?head - 1) [0] ((owned_strings v)\<lparr>mb_data := ?D2\<rparr>)
      = Some ((owned_strings v)\<lparr>mb_data := move_string s p ?head ?D\<rparr>)"
    using p(2) n(5) l2 bl by (simp add: store_def move_string_def Let_def)
  have u: "unat (of_nat (length s) :: u64) = length s" using l(2) by (simp add: unat_of_nat)
  have bk: "length (block s) = Suc (length s + length (varint_of s))" by (simp add: block_length)
  have st3': "store (?head - Suc 0) [0] ((owned_strings v)\<lparr>mb_data := ?D2\<rparr>)
      = Some ((owned_strings v)\<lparr>mb_data := move_string s p ?head ?D\<rparr>)"
    using st3 by simp
  have room: "\<not> (2147483647 \<le> length s + length (varint_of s) \<or> length ?D < Suc (p + (length s + length (varint_of s))))"
    using lb p(2) by (simp add: bk)
  show ?thesis
    by (subst compact_loop.simps)
       (simp add: p(1,3) next_asn_eq new_value [OF small] rel and_not_tag_mask chunk_payload(1) cb(2,3) Let_def
         st1 st2 [unfolded bk] st3' [unfolded bk] u room l1 heap_append bk)
qed

lemma compact_skip:
  assumes sh: "shape (mb_data (owned_strings v)) ks p ((s, []) # ys) T"
    and stop: "stop = length (mb_data (owned_strings v)) - length T" "stop < 2 ^ 31"
    and l: "5 < length s" "length s < 2 ^ 31"
  shows "compact_loop stop p (length (packed ks)) (v, cells)
    = compact_loop stop (p + length (block s)) (length (packed ks)) (v, cells)"
proof -
  note n = shape_next [OF sh] and bl = body_length [OF l] threaded_length [OF l, of "[]"]
  have ly: "0 < length (layout ys)" by (simp add: layout_def)
  then have p: "p < stop" using n(4) stop(1) bl by linarith
  have m: "mb_data (owned_strings v) ! (p - Suc 0) \<noteq> 1" using n(1) by (simp add: mark_def)
  have dec: "decode_varint (drop p (mb_data (owned_strings v))) = Some (of_nat (length s), length (varint_of s))"
    using varint_of(2) [OF l(2)] by (simp add: n(2) threaded_def body_def)
  have u: "unat (of_nat (length s) :: u64) = length s" using l(2) by (simp add: unat_of_nat)
  have bk: "length (block s) = Suc (length s + length (varint_of s))" by (simp add: block_length)
  have "\<not> 2147483647 \<le> length s + length (varint_of s)"
    using n(3,4) stop bl(3,4) bk by simp
  then show ?thesis
    by (subst compact_loop.simps) (simp add: p m dec u bk Let_def)
qed

lemma chain_cong: "\<forall>a \<in> set c. cells' a = cells a \<Longrightarrow> chain_ok cells' s c = chain_ok cells s c"
  by (induction c) simp_all

lemma compacted_Cons:
  assumes v1_def: "v1 = v\<lparr>gc_next_asn := gc_next_asn v + 1, owned_strings := (owned_strings v)\<lparr>mb_data := D\<rparr>\<rparr>"
    and cells1_def: "cells1 = (\<lambda>b. if b \<in> set c then Some (owned_val (length (packed ks)) (gc_next_asn v)) else cells b)"
    and c: "c \<noteq> []" and dis: "set c \<inter> set (concat (map snd ys)) = {}"
    and r: "compacted (ks @ [s]) ys (v1, cells1) r" and len: "length D = length (mb_data (owned_strings v))"
  shows "compacted ks ((s, c) # ys) (v, cells) r"
proof -
  obtain head v' cells' where rr: "r = (head, v', cells')" by (cases r)
  let ?ks = "(ks @ [s]) @ map fst (kept ys)"
  obtain D' where D': "v' = v1\<lparr>owned_strings := (owned_strings v1)\<lparr>mb_data := D'\<rparr>,
                  gc_next_asn := gc_next_asn v1 + of_nat (length (kept ys))\<rparr>"
      "length D' = length (mb_data (owned_strings v1))" "take head D' = packed ?ks" "head = length (packed ?ks)"
    and cells: "\<And>j a. j < length (kept ys) \<Longrightarrow> a \<in> set (snd (kept ys ! j)) \<Longrightarrow>
         cells' a = Some (owned_val (offset ?ks (length (ks @ [s]) + j)) (gc_next_asn v1 + of_nat j))"
      "\<And>a. a \<notin> set (concat (map snd ys)) \<Longrightarrow> cells' a = cells1 a"
    using r by (auto simp: compacted_def rr Let_def)
  have "cells' a = Some (owned_val (offset ?ks (length ks + j)) (gc_next_asn v + of_nat j))"
    if j: "j < length (kept ((s, c) # ys))" "a \<in> set (snd (kept ((s, c) # ys) ! j))" for j a
  proof (cases j)
    case 0
    then have a: "a \<in> set c" using j(2) c by simp
    then have "a \<notin> set (concat (map snd ys))" using dis by blast
    moreover have "offset ?ks (length ks) = length (packed ks)"
      using offset_append [of "length ks" ks "s # map fst (kept ys)"] by (simp add: offset_length)
    ultimately show ?thesis using a by (simp add: cells(2) cells1_def 0)
  next
    case (Suc i)
    then show ?thesis using cells(1) [of i a] j c by (simp add: v1_def ac_simps)
  qed
  moreover have "cells' a = cells a" if "a \<notin> set (concat (map snd ((s, c) # ys)))" for a
    using that cells(2) [of a] by (simp add: cells1_def)
  moreover have "v' = v\<lparr>owned_strings := (owned_strings v)\<lparr>mb_data := D'\<rparr>,
                  gc_next_asn := gc_next_asn v + of_nat (length (kept ((s, c) # ys)))\<rparr>"
    using D'(1) c by (simp add: v1_def ac_simps)
  ultimately show ?thesis
    using D'(2-4) len c by (auto simp: compacted_def rr v1_def Let_def intro!: exI [of _ D'])
qed

lemma compact_run:
  assumes "shape (mb_data (owned_strings v)) ks p ys T"
    and "stop = length (mb_data (owned_strings v)) - length T" "stop < 2 ^ 31"
    and "\<forall>e \<in> set ys. 5 < length (fst e) \<and> length (fst e) < 2 ^ 31"
    and "\<forall>e \<in> set ys. chain_ok cells (fst e) (snd e)" "distinct (concat (map snd ys))"
    and "\<forall>a \<in> set (concat (map snd ys)). tag_of a = 0"
  shows "\<exists>r. compact_loop stop p (length (packed ks)) (v, cells) = Some r \<and> compacted ks ys (v, cells) r"
  using assms
proof (induction ys arbitrary: v ks p cells)
  case Nil
  note e = shape_end [OF Nil.prems(1)]
  have "compact_loop stop p (length (packed ks)) (v, cells) = Some (length (packed ks), v, cells)"
    using e(2) Nil.prems(2) by (subst compact_loop.simps) simp
  moreover have "compacted ks [] (v, cells) (length (packed ks), v, cells)"
    using e(1) by (auto simp: compacted_def intro: exI [of _ "mb_data (owned_strings v)"])
  ultimately show ?case by blast
next
  case (Cons e ys)
  obtain s c where e: "e = (s, c)" by (cases e)
  have l: "5 < length s" "length s < 2 ^ 31" using Cons.prems(4) e by auto
  show ?case
  proof (cases "c = []")
    case True
    note sh = Cons.prems(1) [unfolded e True]
    have step: "compact_loop stop p (length (packed ks)) (v, cells)
        = compact_loop stop (p + length (block s)) (length (packed ks)) (v, cells)"
      by (rule compact_skip [OF sh Cons.prems(2,3) l])
    have "\<exists>r. compact_loop stop (p + length (block s)) (length (packed ks)) (v, cells) = Some r \<and>
        compacted ks ys (v, cells) r"
      using Cons.prems(4-7) by (intro Cons.IH [OF shape_skip [OF sh] Cons.prems(2,3)]) (simp_all add: e True)
    then obtain r where "compact_loop stop (p + length (block s)) (length (packed ks)) (v, cells) = Some r"
        "compacted ks ys (v, cells) r" by blast
    then show ?thesis
      by (intro exI [of _ r]) (simp add: step e True compacted_def)
  next
    case False
    note sh = Cons.prems(1) [unfolded e]
    let ?D = "move_string s p (length (packed ks)) (mb_data (owned_strings v))"
    let ?v = "v\<lparr>gc_next_asn := gc_next_asn v + 1, owned_strings := (owned_strings v)\<lparr>mb_data := ?D\<rparr>\<rparr>"
    let ?cells = "\<lambda>b. if b \<in> set c then Some (owned_val (length (packed ks)) (gc_next_asn v)) else cells b"
    have ch: "chain_ok cells s c" "distinct c" "\<forall>a \<in> set c. tag_of a = 0"
      using Cons.prems(5-7) by (auto simp: e)
    have step: "compact_loop stop p (length (packed ks)) (v, cells)
        = compact_loop stop (p + length (block s)) (length (packed (ks @ [s]))) (?v, ?cells)"
      by (rule compact_step [OF sh False Cons.prems(2,3) l ch])
    have len: "length ?D = length (mb_data (owned_strings v))"
      using shape_next(4,5) [OF sh] threaded_length [OF l, of c] body_length [OF l] 
      by (intro length_move) (simp_all add: layout_def packed_def)
    have dis: "set c \<inter> set (concat (map snd ys)) = {}" using Cons.prems(6) by (simp add: e)
    have chains: "\<forall>f \<in> set ys. chain_ok ?cells (fst f) (snd f)"
    proof
      fix f assume f: "f \<in> set ys"
      then have "\<forall>a \<in> set (snd f). ?cells a = cells a" using dis by auto
      then have "chain_ok ?cells (fst f) (snd f) = chain_ok cells (fst f) (snd f)" by (rule chain_cong)
      with f Cons.prems(5) show "chain_ok ?cells (fst f) (snd f)" by simp
    qed
    have "\<exists>r. compact_loop stop (p + length (block s)) (length (packed (ks @ [s]))) (?v, ?cells) = Some r \<and>
        compacted (ks @ [s]) ys (?v, ?cells) r"
      using Cons.IH [of ?v "ks @ [s]" "p + length (block s)" ?cells]
        shape_move [OF sh False l] Cons.prems chains len by (simp add: e)
    then obtain r where r: "compact_loop stop (p + length (block s)) (length (packed (ks @ [s]))) (?v, ?cells) = Some r"
        "compacted (ks @ [s]) ys (?v, ?cells) r" by blast
    have "compacted ks ((s, c) # ys) (v, cells) r"
      using compacted_Cons [OF refl refl False dis r(2)] len by simp
    with r(1) step show ?thesis by (auto simp: e)
  qed
qed

subsection \<open>A collection\<close>

text \<open>What a collection does: the strings some root refers to are kept in order, and each root that was
  an owned string denotes what it denoted; nothing else in the cells changes.\<close>

lemma shape_start:
  assumes "gc_inv xs v cells"
  shows "shape (mb_data (owned_strings v)) [] 1 xs (drop (unat (mb_len (owned_strings v))) (mb_data (owned_strings v)))"
proof -
  let ?m = "owned_strings v"
  have "mb_data ?m = content ?m @ drop (unat (mb_len ?m)) (mb_data ?m)" by (simp add: content_def)
  also have "content ?m = layout xs" using assms by (simp add: gc_inv_def)
  finally show ?thesis by (auto simp: shape_def packed_def)
qed

lemma kept_refers:
  assumes "j < length (kept xs)"
  obtains i where "i < length xs" "kept xs ! j = xs ! i" "snd (xs ! i) \<noteq> []"
proof -
  have "kept xs ! j \<in> set (kept xs)" using assms by simp
  then have "kept xs ! j \<in> set xs" "snd (kept xs ! j) \<noteq> []" by (auto simp: kept_def)
  then show thesis using that by (metis in_set_conv_nth)
qed

lemma kept_heap_le: "length (packed (map fst (kept xs))) \<le> length (packed (map fst xs))"
proof (induction xs)
  case (Cons e xs)
  then show ?case by (cases e; cases "snd e = []") (auto simp: packed_def)
qed simp

lemma gc_strings_spec:
  assumes ok: "strings_ok v ss" and small: "length (packed ss) < 2 ^ 31" "length ss < 65536"
    and roots: "\<forall>a \<in> set roots. markable ss v cells a"
  obtains v1 cells1 ss1 where "gc_strings A roots False (v, cells) = Some (v1, cells1)"
    "strings_ok v1 ss1" "subseq ss1 ss"
    "\<And>a x s. a \<in> set roots \<Longrightarrow> cells a = Some x \<Longrightarrow> live v ss x s \<Longrightarrow>
        \<exists>x1. cells1 a = Some x1 \<and> live v1 ss1 x1 s"
    "\<And>a. a \<notin> set roots \<or> (\<exists>x. cells a = Some x \<and> tag_of x \<noteq> 0xFFF8) \<Longrightarrow> cells1 a = cells a"
    "set ss1 = {ss ! i | i. i < length ss \<and> (\<exists>a \<in> set roots. refers ss cells a i)}" "asn_used v1 = length ss1"
proof -
  let ?xs = "map (\<lambda>s. (s, [])) ss"
  have fst: "map fst ?xs = ss" by (simp add: comp_def)
  have "concat (map (\<lambda>s. [] :: u64 list) ss) = []" by simp
  then have inv: "gc_inv ?xs v cells"
    using ok unfolding gc_inv_def by (simp add: strings_ok_def packed_layout comp_def del: concat_eq_Nil_conv)
  obtain m cells' xs where mk: "gc_mark_strings roots (v, cells) = Some (v\<lparr>owned_strings := m\<rparr>, cells')"
      "gc_inv xs (v\<lparr>owned_strings := m\<rparr>) cells'" "map fst xs = ss"
      "\<forall>i < length ss. set (snd (xs ! i)) = {a \<in> set roots. refers ss cells a i}"
      "\<forall>a. a \<notin> set roots \<or> (\<exists>x. cells a = Some x \<and> tag_of x \<noteq> 0xFFF8) \<longrightarrow> cells' a = cells a"
    using mark_all [OF inv, of roots] roots unfolding fst by auto
  let ?v3 = "v\<lparr>owned_strings := m, gc_min_asn := gc_next_asn v\<rparr>" and ?K = "length (kept xs)"
  let ?ks = "map fst (kept xs)" and ?T = "drop (unat (mb_len m)) (mb_data m)"
  have m: "fits m" "content m = layout xs" and sz: "sizes_ok ss"
    using mk(2,3) by (simp_all add: gc_inv_def)
  have each: "\<forall>e \<in> set xs. 5 < length (fst e) \<and> length (fst e) < 2 ^ 31"
    using sz unfolding mk(3) [symmetric] sizes_ok_def by simp
  have stop: "unat (mb_len m) = length (packed ss)" "unat (mb_len m) \<le> length (mb_data m)"
  proof -
    have "length (layout xs) = length (packed ss)" using concat_cells [OF each] mk(3) by (simp add: layout_def)
    then show "unat (mb_len m) = length (packed ss)" using length_content [of m] m by (simp add: fits_def)
    show "unat (mb_len m) \<le> length (mb_data m)" using m(1) by (simp add: fits_def mbuf_ok_def word_le_nat_alt)
  qed
  have sh: "shape (mb_data (owned_strings ?v3)) [] 1 xs ?T" using shape_start [OF mk(2)] by simp
  have "\<exists>r. compact_loop (unat (mb_len m)) 1 (length (packed [])) (?v3, cells') = Some r \<and> compacted [] xs (?v3, cells') r"
    by (rule compact_run [OF sh]) (use stop small(1) each mk(2) in \<open>auto simp: gc_inv_def\<close>)
  then obtain head v4 cells1 where run: "compact_loop (unat (mb_len m)) 1 1 (?v3, cells') = Some (head, v4, cells1)"
      "compacted [] xs (?v3, cells') (head, v4, cells1)"
    by (auto simp: packed_def)
  then obtain D where D: "v4 = ?v3\<lparr>owned_strings := m\<lparr>mb_data := D\<rparr>, gc_next_asn := gc_next_asn v + of_nat ?K\<rparr>"
      "length D = length (mb_data m)" "take head D = packed ?ks" "head = length (packed ?ks)"
    and cells1: "\<And>j a. j < ?K \<Longrightarrow> a \<in> set (snd (kept xs ! j)) \<Longrightarrow>
         cells1 a = Some (owned_val (offset ?ks j) (gc_next_asn v + of_nat j))"
      "\<And>a. a \<notin> set (concat (map snd xs)) \<Longrightarrow> cells1 a = cells' a"
    by (auto simp: compacted_def Let_def)
  let ?v1 = "v4\<lparr>owned_strings := (owned_strings v4)\<lparr>mb_len := of_nat head\<rparr>\<rparr>"
  have K: "?K < 65536"
  proof -
    have "?K \<le> length xs" unfolding kept_def by (rule length_filter_le)
    then show ?thesis using small(2) arg_cong [OF mk(3), of length] by simp
  qed
  have head: "head \<le> length (packed ss)" using kept_heap_le [of xs] mk(3) D(4) by simp
  have uh: "unat (of_nat head :: u64) = head" using head small(1) by (simp add: unat_of_nat)
  have gc: "gc_strings A roots False (v, cells) = Some (?v1, cells1)"
    using mk(1) run(1) by (simp add: gc_strings_def gc_compact_strings_def Let_def)
  have ok1: "strings_ok ?v1 ?ks"
  proof -
    have "fits (owned_strings ?v1)"
      using m(1) D(2) head stop uh by (simp add: D(1) fits_def mbuf_ok_def word_le_nat_alt)
    moreover have "content (owned_strings ?v1) = packed ?ks" using D(3) uh by (simp add: D(1) content_def)
    moreover have "sizes_ok ?ks"
      using each head small(1) D(4) by (auto simp: sizes_ok_def kept_def)
    ultimately show ?thesis by (simp add: strings_ok_def)
  qed
  have sub: "subseq ?ks ss"
    unfolding kept_def mk(3) [symmetric] by (intro subseq_map subseq_filter_left)
  have alive: "\<exists>x1. cells1 a = Some x1 \<and> live ?v1 ?ks x1 s"
    if a: "a \<in> set roots" "cells a = Some x" "live v ss x s" for a x s
  proof -
    obtain i where i: "i < length ss" "ss ! i = s" "refers ss cells a i"
      using a by (auto simp: live_def refers_def)
    then have ai: "a \<in> set (snd (xs ! i))" using mk(4) a(1) by blast
    have li: "i < length xs" "fst (xs ! i) = s" using i(1,2) by (auto simp flip: mk(3))
    then have "xs ! i \<in> set (kept xs)" using ai by (auto simp: kept_def)
    then obtain j where j: "j < ?K" "kept xs ! j = xs ! i" by (metis in_set_conv_nth)
    have off: "offset ?ks j < 2 ^ 32"
      using offset_bound [of j ?ks] j(1) head D(4) small(1) by simp
    note f = owned_val_fields [OF off, of "gc_next_asn v + of_nat j"]
    have "cells1 a = Some (owned_val (offset ?ks j) (gc_next_asn v + of_nat j))"
      using cells1(1) [OF j(1)] j(2) ai by simp
    moreover have "live ?v1 ?ks (owned_val (offset ?ks j) (gc_next_asn v + of_nat j)) s"
      unfolding live_def
    proof (intro conjI exI [of _ j])
      have "(of_nat j :: u16) < of_nat ?K"
        using j(1) K by (simp add: word_less_nat_alt unat_of_nat)
      then show "gc_is_valid_allocation_seqn ?v1 (asn_of (owned_val (offset ?ks j) (gc_next_asn v + of_nat j)))"
        by (simp add: valid_asn_iff f D(1))
    qed (use f j li in simp_all)
    ultimately show ?thesis by blast
  qed
  have others: "cells1 a = cells a" if "a \<notin> set roots \<or> (\<exists>x. cells a = Some x \<and> tag_of x \<noteq> 0xFFF8)" for a
  proof -
    have "a \<notin> set (snd (xs ! i))" if "i < length ss" for i
      using mk(4) that \<open>a \<notin> set roots \<or> _\<close> by (auto simp: refers_def)
    moreover have "length xs = length ss" using arg_cong [OF mk(3), of length] by simp
    ultimately have "\<forall>e \<in> set xs. a \<notin> set (snd e)" by (metis in_set_conv_nth)
    then have "a \<notin> set (concat (map snd xs))" by simp
    with cells1(2) mk(5) that show ?thesis by simp
  qed
  have all: "set ?ks = {ss ! i | i. i < length ss \<and> (\<exists>a \<in> set roots. refers ss cells a i)}"
  proof -
    have lx: "length xs = length ss" using arg_cong [OF mk(3), of length] by simp
    have nth: "fst (xs ! i) = ss ! i" if "i < length ss" for i
      using that lx mk(3) by (metis nth_map)
    have ne: "snd (xs ! i) \<noteq> [] \<longleftrightarrow> (\<exists>a \<in> set roots. refers ss cells a i)" if "i < length ss" for i
    proof -
      have "set (snd (xs ! i)) = {a \<in> set roots. refers ss cells a i}" using mk(4) that by blast
      then show ?thesis by (metis (mono_tags, lifting) Collect_empty_eq set_empty)
    qed
    have "set ?ks = {fst (xs ! i) | i. i < length xs \<and> snd (xs ! i) \<noteq> []}"
      by (force simp: kept_def in_set_conv_nth)
    also have "\<dots> = {ss ! i | i. i < length ss \<and> (\<exists>a \<in> set roots. refers ss cells a i)}"
      unfolding lx by (rule Collect_cong) (use nth ne in \<open>metis (no_types, lifting)\<close>)
    finally show ?thesis .
  qed
  have used: "asn_used ?v1 = length ?ks" using K by (simp add: asn_used_def D(1) unat_of_nat)
  show thesis by (rule that [OF gc ok1 sub alive others all used])
qed

text \<open>A full collection also gives memory back.\<close>

lemma shrink_ok:
  assumes "strings_ok v ss" "alloc_ok M A" "0 < n" "unat n < 2 ^ 40"
  shows "strings_ok (v\<lparr>owned_strings := mbuf_resize A (owned_strings v) n\<rparr>) ss"
proof -
  have "alloc_ok (\<lambda>_. None) A" "outside (\<lambda>_. None) (owned_strings v)"
    using assms(2) by (simp_all add: alloc_ok_def outside_def)
  with resize_fits(1,3) [of "owned_strings v" "\<lambda>_. None" A n] assms(1,3,4) show ?thesis
    by (simp add: strings_ok_def)
qed

lemma live_buffer [simp]: "live (v\<lparr>owned_strings := m\<rparr>) ss x s \<longleftrightarrow> live v ss x s"
  by (simp add: live_def valid_asn_iff)

lemma trim_ok:
  assumes ok: "strings_ok v ss" and A: "alloc_ok M A"
  shows "strings_ok (v\<lparr>owned_strings := mbuf_resize A (owned_strings v) (mb_len (owned_strings v) + V7_STRING_BUF_RESERVE)\<rparr>) ss"
proof -
  let ?m = "owned_strings v" and ?n = "mb_len (owned_strings v) + V7_STRING_BUF_RESERVE"
  have "length (packed ss) < 2 ^ 32" "content ?m = packed ss" "mbuf_ok ?m"
    using ok by (simp_all add: strings_ok_def sizes_ok_def fits_def)
  then have "unat (mb_len ?m) < 2 ^ 32" by (metis length_content)
  then have "unat ?n = unat (mb_len ?m) + 500" by (simp add: V7_STRING_BUF_RESERVE_def unat_word_ariths)
  then have "0 < ?n" "unat ?n < 2 ^ 40" using \<open>unat (mb_len ?m) < 2 ^ 32\<close> by (simp_all add: word_less_nat_alt)
  then show ?thesis by (rule shrink_ok [OF ok A])
qed

lemma gc_strings_any:
  assumes ok: "strings_ok v ss" and A: "alloc_ok M A" and small: "length (packed ss) < 2 ^ 31" "length ss < 65536"
    and roots: "\<forall>a \<in> set roots. markable ss v cells a"
  shows "\<exists>v1 cells1 ss1. gc_strings A roots full (v, cells) = Some (v1, cells1) \<and>
     strings_ok v1 ss1 \<and> subseq ss1 ss \<and>
     set ss1 = {ss ! i | i. i < length ss \<and> (\<exists>a \<in> set roots. refers ss cells a i)} \<and>
     (\<forall>a \<in> set roots. \<forall>x s. cells a = Some x \<longrightarrow> live v ss x s \<longrightarrow> (\<exists>x1. cells1 a = Some x1 \<and> live v1 ss1 x1 s)) \<and>
     (\<forall>a. a \<notin> set roots \<longrightarrow> cells1 a = cells a) \<and> asn_used v1 = length ss1"
proof (rule gc_strings_spec [OF ok small roots, where A = A])
  fix v1 cells1 ss1
  assume gc: "gc_strings A roots False (v, cells) = Some (v1, cells1)" and ok1: "strings_ok v1 ss1" "subseq ss1 ss"
    and kept: "\<And>a x s. a \<in> set roots \<Longrightarrow> cells a = Some x \<Longrightarrow> live v ss x s \<Longrightarrow>
        \<exists>x1. cells1 a = Some x1 \<and> live v1 ss1 x1 s"
    and others: "\<And>a. a \<notin> set roots \<or> (\<exists>x. cells a = Some x \<and> tag_of x \<noteq> 0xFFF8) \<Longrightarrow> cells1 a = cells a"
    and all: "set ss1 = {ss ! i | i. i < length ss \<and> (\<exists>a \<in> set roots. refers ss cells a i)}" and used: "asn_used v1 = length ss1"
  let ?m = "owned_strings v1" and ?n = "mb_len (owned_strings v1) + V7_STRING_BUF_RESERVE"
  let ?v = "if full \<and> ?n < mb_size ?m then v1\<lparr>owned_strings := mbuf_resize A ?m ?n\<rparr> else v1"
  from gc obtain st where "gc_mark_strings roots (v, cells) = Some st" "gc_compact_strings st = Some (v1, cells1)"
    by (auto simp: gc_strings_def Let_def bind_eq_Some_conv)
  then have "gc_strings A roots full (v, cells) = Some (?v, cells1)" by (simp add: gc_strings_def Let_def)
  moreover have "strings_ok ?v ss1" using ok1(1) trim_ok [OF ok1(1) A] by simp
  moreover have "asn_used ?v = length ss1" using used by (simp add: asn_used_def)
  ultimately show ?thesis using ok1(2) kept others all by (intro exI [of _ ?v] exI [of _ cells1] exI [of _ ss1]) auto
qed

end
