(* ===== verification/OwnedValues.thy ===== *)
theory OwnedValues
  imports StringsCorrect "HOL-Library.Multiset"
begin

text \<open>
  The values C code holds (\<open>v7_own\<close> and \<open>v7_disown\<close>): \<open>owned_values\<close> is a buffer of pointers, a bag.
  Owning adds a pointer exactly if there is memory for it, disowning takes one occurrence out.
\<close>

definition pointers :: "mbuf \<Rightarrow> u64 list \<Rightarrow> bool" where
  "pointers m ps \<longleftrightarrow> mbuf_ok m \<and> content m = concat (map ptr_key ps) \<and> unat (mb_len m) < 2 ^ 51"

lemma length_ptr_key [simp]: "length (ptr_key p) = 8"
  by (simp add: ptr_key_def)

lemma length_ptr_keys [simp]: "length (concat (map ptr_key ps)) = 8 * length ps"
  by (induction ps) simp_all

lemma pointers_len: "pointers m ps \<Longrightarrow> unat (mb_len m) = 8 * length ps"
  using length_content [of m] by (simp add: pointers_def)

lemma ptr_keys_nth: "i < length ps \<Longrightarrow> take 8 (drop (8 * i) (concat (map ptr_key ps))) = ptr_key (ps ! i)"
proof -
  assume i: "i < length ps"
  have "concat (map ptr_key ps) = concat (map ptr_key (take i ps)) @ ptr_key (ps ! i) @ concat (map ptr_key (drop (Suc i) ps))"
    by (subst id_take_nth_drop [OF i]) simp
  with i show ?thesis by simp
qed

lemma pointers_nth:
  assumes "pointers m ps" "i < length ps"
  shows "take 8 (drop (8 * i) (mb_data m)) = ptr_key (ps ! i)"
proof -
  have "mb_data m = concat (map ptr_key ps) @ drop (unat (mb_len m)) (mb_data m)"
    using assms(1) by (metis append_take_drop_id content_def pointers_def)
  then have "drop (8 * i) (mb_data m) = drop (8 * i) (concat (map ptr_key ps)) @ drop (unat (mb_len m)) (mb_data m)"
    using assms(2) by (metis drop_append diff_is_0_eq drop0 length_ptr_keys less_imp_le mult_le_mono2)
  moreover have "8 \<le> length (drop (8 * i) (concat (map ptr_key ps)))" using assms(2) by simp
  ultimately have "take 8 (drop (8 * i) (mb_data m)) = take 8 (drop (8 * i) (concat (map ptr_key ps)))"
    by (simp del: length_drop)
  with ptr_keys_nth [OF assms(2)] show ?thesis by simp
qed

text \<open>Appending changes nothing and answers 0 when \<open>realloc\<close> fails or the address would wrap, and succeeds otherwise.\<close>

definition append_fits :: "allocator \<Rightarrow> mbuf \<Rightarrow> u64 \<Rightarrow> bool" where
  "append_fits A m n \<longleftrightarrow> n \<le> - 1 - mb_addr m \<and>
     (mb_len m + n \<le> mb_size m \<or> new_addr A (mb_addr m) (times_1_5 (mb_len m + n)) \<noteq> 0)"

lemma append_answer: "mbuf_append A m b n = Some (r, m') \<Longrightarrow> r = (if append_fits A m n then n else 0)"
  by (auto simp: mbuf_append_def mbuf_insert_def append_fits_def Let_def split: if_splits)

lemma own_exact:
  assumes "pointers (owned_values v) ps" "unat (mb_len (owned_values v)) < 2 ^ 50"
  obtains m where "v7_own A p v = Some (v\<lparr>owned_values := m\<rparr>)"
    "if append_fits A (owned_values v) 8 then pointers m (ps @ [p]) else m = owned_values v"
proof -
  have "mbuf_ok (owned_values v)" "length (ptr_key p) = unat (8 :: u64)" "unat (mb_len (owned_values v)) < 2 ^ 52" "unat (8 :: u64) < 2 ^ 52"
    using assms by (simp_all add: pointers_def)
  from mbuf_append_spec [OF this, of A] obtain r m where a: "mbuf_append A (owned_values v) (Some (ptr_key p)) 8 = Some (r, m)"
    "(r = 8 \<and> mbuf_ok m \<and> mb_len m = mb_len (owned_values v) + 8 \<and> content m = content (owned_values v) @ ptr_key p) \<or>
     (r = 0 \<and> m = owned_values v)"
    by blast
  moreover have "unat (mb_len (owned_values v) + 8) < 2 ^ 51"
    using assms(2) by (simp add: unat_word_ariths)
  ultimately show thesis
    using assms append_answer [OF a(1)] by (intro that [of m]) (auto simp: v7_own_def pointers_def split: if_splits)
qed

lemma own_spec:
  assumes "pointers (owned_values v) ps" "unat (mb_len (owned_values v)) < 2 ^ 50"
  obtains m where "v7_own A p v = Some (v\<lparr>owned_values := m\<rparr>)" "pointers m (ps @ [p]) \<or> m = owned_values v"
proof -
  obtain m where "v7_own A p v = Some (v\<lparr>owned_values := m\<rparr>)"
    "if append_fits A (owned_values v) 8 then pointers m (ps @ [p]) else m = owned_values v"
    by (rule own_exact [OF assms])
  then show thesis by (intro that [of m]) (simp_all split: if_splits)
qed

text \<open>The last pointer takes the place of the one that goes.\<close>

lemma swap_last:
  assumes m: "pointers m ps" and i: "i < length ps"
  obtains m' where "store (8 * i) (take 8 (drop (unat (mb_len m) - 8) (mb_data m))) m = Some m'"
    "pointers (m'\<lparr>mb_len := mb_len m - 8\<rparr>) (butlast (ps[i := last ps]))"
proof -
  have ne: "ps \<noteq> []" using i by auto
  have len: "unat (mb_len m) = 8 * length ps" by (rule pointers_len [OF m])
  have l: "take 8 (drop (unat (mb_len m) - 8) (mb_data m)) = ptr_key (last ps)"
    using pointers_nth [OF m, of "length ps - 1"] ne by (simp add: len last_conv_nth diff_mult_distrib2)
  have "8 * length ps \<le> length (mb_data m)"
    using m len by (simp add: pointers_def mbuf_ok_def word_le_nat_alt)
  then have room: "8 * i + 8 \<le> length (mb_data m)" using i by simp
  let ?d = "overwrite (8 * i) (ptr_key (last ps)) (mb_data m)"
  let ?m = "m\<lparr>mb_data := ?d\<rparr>"
  have "content m = concat (map ptr_key (take i ps)) @ ptr_key (ps ! i) @ concat (map ptr_key (drop (Suc i) ps))"
    using m by (subst (asm) pointers_def, subst (asm) id_take_nth_drop [OF i]) simp
  from content_overwrite [OF _ this, of "ptr_key (last ps)"]
  have "content ?m = concat (map ptr_key (take i ps)) @ ptr_key (last ps) @ concat (map ptr_key (drop (Suc i) ps))"
    using m i by (simp add: pointers_def)
  then have c: "content ?m = concat (map ptr_key (ps[i := last ps]))"
    using i by (simp add: upd_conv_take_nth_drop)
  have sub: "unat (mb_len m - 8) = 8 * (length ps - 1)"
    using len ne by (subst unat_sub) (auto simp: word_le_nat_alt diff_mult_distrib2 neq_Nil_conv)
  have "content (?m\<lparr>mb_len := mb_len m - 8\<rparr>) = take (8 * (length ps - 1)) (content ?m)"
    using len by (simp add: content_def sub min_def)
  also have "\<dots> = concat (map ptr_key (butlast (ps[i := last ps])))"
  proof -
    have "concat (map ptr_key qs) = concat (map ptr_key (butlast qs)) @ ptr_key (last qs)" if "qs \<noteq> []" for qs
      using that by (cases qs rule: rev_cases) simp_all
    then have "concat (map ptr_key (ps[i := last ps]))
        = concat (map ptr_key (butlast (ps[i := last ps]))) @ ptr_key (last (ps[i := last ps]))"
      using ne by simp
    then show ?thesis unfolding c by simp
  qed
  finally have c': "content (?m\<lparr>mb_len := mb_len m - 8\<rparr>) = concat (map ptr_key (butlast (ps[i := last ps])))" .
  have "unat (mb_len m - 8) \<le> unat (mb_len m)" by (simp add: sub len)
  then have "pointers (?m\<lparr>mb_len := mb_len m - 8\<rparr>) (butlast (ps[i := last ps]))"
    using m room c' by (simp add: pointers_def mbuf_ok_def length_overwrite word_le_nat_alt)
  with room show thesis by (intro that [of ?m]) (simp_all add: store_def l)
qed

lemma butlast_swap_mset:
  assumes "i < length ps"
  shows "mset (butlast (ps[i := last ps])) = mset ps - {#ps ! i#}"
proof -
  have ne: "ps \<noteq> []" using assms by auto
  then have "mset (ps[i := last ps]) = mset (butlast (ps[i := last ps])) + {#last (ps[i := last ps])#}"
    by (metis append_butlast_last_id list_update_nonempty mset.simps(1,2) mset_append add_mset_add_single add_0)
  moreover have "last (ps[i := last ps]) = last ps"
    using ne assms by (simp add: last_list_update)
  moreover have "mset (ps[i := last ps]) = add_mset (last ps) (mset ps - {#ps ! i#})"
    using assms by (simp add: mset_update)
  ultimately show ?thesis by simp
qed

lemma disown_loop_spec:
  assumes "pointers m ps" "i \<le> length ps" "\<forall>j < length ps. i \<le> j \<longrightarrow> ps ! j \<noteq> p"
  shows "\<exists>m' ps'. disown_loop p i m = Some (p \<in> set ps, m') \<and> pointers m' ps' \<and> mset ps' = mset ps - {#p#}"
  using assms(2,3)
proof (induction i)
  case 0
  then have "p \<notin> set ps" by (auto simp: in_set_conv_nth)
  with assms(1) show ?case by (auto intro!: exI [of _ ps] simp: diff_single_trivial)
next
  case (Suc i)
  have i: "i < length ps" using Suc.prems by simp
  have key: "take 8 (drop (8 * i) (mb_data m)) = ptr_key p \<longleftrightarrow> ps ! i = p"
    by (simp add: pointers_nth [OF assms(1) i])
  show ?case
  proof (cases "ps ! i = p")
    case True
    obtain m' where "store (8 * i) (take 8 (drop (unat (mb_len m) - 8) (mb_data m))) m = Some m'"
      "pointers (m'\<lparr>mb_len := mb_len m - 8\<rparr>) (butlast (ps[i := last ps]))"
      by (rule swap_last [OF assms(1) i])
    moreover have "p \<in> set ps" using i True by auto
    ultimately show ?thesis
      using butlast_swap_mset [OF i] True
      by (intro exI [of _ "m'\<lparr>mb_len := mb_len m - 8\<rparr>"] exI [of _ "butlast (ps[i := last ps])"]) (simp add: key)
  next
    case False
    have "\<forall>j < length ps. i \<le> j \<longrightarrow> ps ! j \<noteq> p"
      using Suc.prems(2) False by (metis Suc_leI le_neq_implies_less)
    with Suc False i show ?thesis by (simp add: key)
  qed
qed

lemma disown_spec:
  assumes "pointers (owned_values v) ps"
  obtains m ps' where "v7_disown p v = Some (p \<in> set ps, v\<lparr>owned_values := m\<rparr>)" "pointers m ps'"
    "mset ps' = mset ps - {#p#}"
  using disown_loop_spec [OF assms, of "length ps" p] pointers_len [OF assms] that
  by (auto simp: v7_disown_def)

end
