(* ===== verification/StringProps.thy ===== *)
theory StringProps
  imports StringGcCorrect OwnedValues
begin

text \<open>
  The properties of values and strings: NaN boxing, the dictionary, creation, concatenation and
  comparison of strings, sequence numbers, the compacting collector, the values C code holds, and the
  quoting of JSON strings.
\<close>

subsection \<open>Samples\<close>

text \<open>A full buffer that holds the string \<open>abcdef\<close>, no other memory, and an allocator that moves it.\<close>

definition M0 :: memory where "M0 = (\<lambda>_. None)"

definition A1 :: allocator where "A1 = \<lparr>new_addr = (\<lambda>_ _. 4096), undef = (\<lambda>_. 0)\<rparr>"

definition A2 :: allocator where "A2 = \<lparr>new_addr = (\<lambda>_ _. 131072), undef = (\<lambda>_. 0)\<rparr>"

definition abcdef :: "u8 list" where "abcdef = [97, 98, 99, 100, 101, 102]"

definition v0 :: v7 where
  "v0 = \<lparr>owned_strings = \<lparr>mb_addr = 65536, mb_data = 0 # 6 # abcdef @ [0], mb_len = 9, mb_size = 9\<rparr>,
     foreign_strings = \<lparr>mb_addr = 0, mb_data = [], mb_len = 0, mb_size = 0\<rparr>,
     owned_values = \<lparr>mb_addr = 0, mb_data = [], mb_len = 0, mb_size = 0\<rparr>,
     need_gc = False, gc_next_asn = 1, gc_min_asn = 0\<rparr>"

definition x0 :: val_t where "x0 = owned_val 1 0"

lemma sample_varint: "varint_of abcdef = [6]"
  by (simp add: varint_of_def encode_varint_def abcdef_def calc_llen.simps)

lemma sample_heap: "packed [abcdef] = 0 # 6 # abcdef @ [0]"
  by (simp add: packed_def block_def sample_varint)

lemma sample_sizes: "length abcdef = 6" "length (packed [abcdef]) = 9"
  by (simp_all add: sample_heap, simp_all add: abcdef_def)

lemma sample_ok: "strings_ok v0 [abcdef]" "outside M0 m" "alloc_ok M0 A1" "asn_used v0 = 1"
proof -
  show "strings_ok v0 [abcdef]"
    by (simp add: strings_ok_def fits_def mbuf_ok_def content_def sizes_ok_def sample_heap)
       (simp add: v0_def abcdef_def)
  show "outside M0 m" "alloc_ok M0 A1" by (simp_all add: outside_def M0_def alloc_ok_def A1_def)
  show "asn_used v0 = 1" by (simp add: asn_used_def v0_def)
qed

lemma sample_live: "live v0 [abcdef] x0 abcdef"
proof -
  have "gc_is_valid_allocation_seqn v0 0" by (simp add: gc_is_valid_allocation_seqn_def v0_def)
  then show ?thesis
    by (auto simp: live_def x0_def owned_val_fields offset_def packed_def intro!: exI [of _ 0])
qed

subsection \<open>Values\<close>

text \<open>C40: of the eight tests for a number, a boolean, undefined, a foreign pointer, a generic object, a function, a C function
  and a string no two hold of one value. The test for an object holds of generic objects and functions, the test for
  null exactly of the foreign pointer 0. Packing a double gives a number, which is unpacked to the same double unless that
  was a NaN, and then to a NaN; packing a truth value gives a boolean that is unpacked to 0 or 1.\<close>

theorem values_boxed:
  "length (filter (\<lambda>k. k v) kind_tests) \<le> 1 \<and>
   (v7_is_object v \<longleftrightarrow> v7_is_generic_object v \<or> is_js_function v) \<and>
   (v7_is_null v \<longleftrightarrow> v7_is_foreign v \<and> v7_to_foreign v = 0) \<and>
   v7_is_number (v7_mk_number d) \<and> isnan (v7_to_number (v7_mk_number d)) = isnan d \<and>
   (isnan d \<or> v7_to_number (v7_mk_number d) = d) \<and>
   v7_is_boolean (v7_mk_boolean b) \<and> v7_to_boolean (v7_mk_boolean b) = (if b \<noteq> 0 then 1 else 0)"
  using kinds_exclusive objects_and_null mk_number_is_number mk_number_round boolean_round by blast

text \<open>A pointer that can be packed (its top 16 bits are all clear or all set) is unpacked to the same
  pointer exactly when they are clear: nothing sign extends it, as the comment in \<open>vm.h\<close> asks.\<close>

theorem foreign_roundtrip:
  "(v7_mk_foreign p = None \<longleftrightarrow> tag_of p \<noteq> 0 \<and> tag_of p \<noteq> 0xFFFF) \<and>
   (v7_mk_foreign p = None \<or> (v7_is_foreign (the (v7_mk_foreign p)) \<and>
     (v7_to_foreign (the (v7_mk_foreign p)) = p \<longleftrightarrow> tag_of p = 0)))"
proof (cases "v7_mk_foreign p")
  case None
  then show ?thesis by (simp add: v7_mk_foreign_def pointer_to_value_None)
next
  case (Some v)
  then have "pointer_to_value p \<noteq> None" by (auto simp: v7_mk_foreign_def)
  then show ?thesis
    using Some pointer_to_value_None [of p] boxed_pointer(1) [OF Some] foreign_round [OF Some]
    by (simp add: kinds)
qed

subsection \<open>Strings\<close>

text \<open>The binary search finds a text shorter than \<open>2 ^ 31\<close> exactly when it is an entry of the
  dictionary, and answers its index.\<close>

theorem dictionary_lookup:
  assumes "length s < 2 ^ 31"
  shows "v_find_string_in_dictionary (Some s) = Some i \<longleftrightarrow> i < 164 \<and> v_dictionary_strings ! i = s"
  by (rule find_in_dictionary [OF assms])

theorem dictionary_lookup_witness:
  "v_find_string_in_dictionary (Some (bytes_of ''Boolean'')) = Some 1"
proof -
  have "v_dictionary_strings ! 1 = bytes_of ''Boolean''" by (simp add: v_dictionary_strings_def)
  then show ?thesis using dictionary_lookup [of "bytes_of ''Boolean''" 1] by (simp add: bytes_of_def)
qed

text \<open>C34: a string made from a text outside the buffer of strings denotes that text, whether it is kept
  in the value, in the dictionary or in the buffer; the buffer stays well formed and every other
  string in it still denotes what it did.\<close>

theorem mk_string_reads_back:
  assumes "strings_ok v ss" "outside M (owned_strings v)" "alloc_ok M A" "text_at M p bs"
    and "length bs < 2 ^ 31" "length (packed ss) + length bs + 520 < 2 ^ 31" "asn_used v < 65535"
  shows "\<exists>x v' ss'. v7_mk_string M A p (of_nat (length bs)) True v = Some (x, v') \<and>
     string_bytes M v' x = Some bs \<and> strings_ok v' ss' \<and>
     (\<forall>y s. live v ss y s \<longrightarrow> string_bytes M v' y = Some s)"
proof (rule mk_string_spec [OF assms])
  fix x v' ss'
  assume n: "v7_mk_string M A p (of_nat (length bs)) True v = Some (x, v')" "denotes M v' ss' x bs"
    "strings_ok v' ss'" "\<And>y s. live v ss y s \<Longrightarrow> live v' ss' y s"
  then show ?thesis using denotes_bytes [OF n(3,2)] live_bytes(1) [OF n(3)] by blast
qed

theorem mk_string_reads_back_witness:
  "\<exists>x v'. v7_mk_string M0 A1 (Static [120, 121, 122, 120, 121, 122, 33]) 7 True v0 = Some (x, v') \<and>
     string_bytes M0 v' x = Some [120, 121, 122, 120, 121, 122, 33] \<and> string_bytes M0 v' x0 = Some abcdef"
proof -
  let ?t = "[120, 121, 122, 120, 121, 122, 33] :: u8 list"
  have "text_at M0 (Static ?t) ?t" "length ?t < 2 ^ 31" "length (packed [abcdef]) + length ?t + 520 < 2 ^ 31"
    "asn_used v0 < 65535" "of_nat (length ?t) = (7 :: u64)"
    by (simp_all add: sample_sizes sample_ok(4))
  then show ?thesis
    using mk_string_reads_back [OF sample_ok(1,2,3), of "Static ?t" ?t] sample_live by auto
qed

text \<open>C35: the concatenation of two strings, of any kinds, denotes the one text after the other; every
  string of the buffer still denotes what it did.\<close>

theorem s_concat_joins:
  assumes "strings_ok v ss" "outside M (owned_strings v)" "alloc_ok M A" "denotes M v ss x s" "denotes M v ss y t"
    and "length (s @ t) < 2 ^ 31" "length (packed ss) + length (s @ t) + 520 < 2 ^ 31" "asn_used v < 65535"
  shows "\<exists>r v' ss'. s_concat M A x y v = Some (r, v') \<and> string_bytes M v' r = Some (s @ t) \<and>
     strings_ok v' ss' \<and> (\<forall>z u. live v ss z u \<longrightarrow> string_bytes M v' z = Some u)"
proof (rule s_concat_spec [OF assms])
  fix r v' ss'
  assume n: "s_concat M A x y v = Some (r, v')" "denotes M v' ss' r (s @ t)"
    "strings_ok v' ss'" "\<And>z u. live v ss z u \<Longrightarrow> live v' ss' z u"
  then show ?thesis using denotes_bytes [OF n(3,2)] live_bytes(1) [OF n(3)] by blast
qed

theorem s_concat_joins_witness:
  "\<exists>r v'. s_concat M0 A1 x0 x0 v0 = Some (r, v') \<and> string_bytes M0 v' r = Some (abcdef @ abcdef)"
proof -
  have "denotes M0 v0 [abcdef] x0 abcdef" using sample_live by (simp add: denotes_def)
  from s_concat_joins [OF sample_ok(1,2,3) this this] show ?thesis
    by (auto simp: sample_sizes sample_ok(4))
qed

text \<open>The comparison of two strings is 0 exactly for equal texts; a shorter string is always less,
  whatever its characters are (so the operator \<open><\<close>, which uses it, does not sort words).\<close>

theorem s_cmp_shortlex:
  assumes "strings_ok v ss" "denotes M v ss x s" "denotes M v ss y t"
  shows "\<exists>c. s_cmp M v x y = Some c \<and> (c = 0 \<longleftrightarrow> s = t) \<and>
     (c < 0 \<longleftrightarrow> length s < length t \<or> (length s = length t \<and> s < t))"
  using s_cmp_spec [OF assms] memcmp_lex [of s t] by auto

theorem s_cmp_shortlex_witness: "s_cmp M0 v0 x0 x0 = Some 0"
proof -
  have "denotes M0 v0 [abcdef] x0 abcdef" using sample_live by (simp add: denotes_def)
  from s_cmp_shortlex [OF sample_ok(1) this this] show ?thesis by auto
qed

text \<open>C36: a string made from a text inside the full buffer of strings itself (as the parts of a split
  string are) has no result when the allocator moves the buffer to make room: the buffer is resized
  before \<open>embed_string\<close> looks whether the text lies in it, and then reads freed memory.\<close>

theorem mk_string_use_after_free:
  assumes "strings_ok v ss" "outside M (owned_strings v)" "alloc_ok M A"
    and "in_buffer (owned_strings v) a" "fetch M (owned_strings v) (Address a) (length bs) = Some bs"
    and "5 < length bs" "length bs < 2 ^ 31" "bs \<notin> set v_dictionary_strings"
    and "length (packed ss) + length bs + 520 < 2 ^ 31"
    and "unat (mb_size (owned_strings v)) < length (packed ss) + length bs"
    and "\<And>n. \<not> (new_addr A (mb_addr (owned_strings v)) n \<le> a \<and> a - new_addr A (mb_addr (owned_strings v)) n < n)"
  shows "v7_mk_string M A (Address a) (of_nat (length bs)) True v = None"
  by (rule mk_string_dangling [OF assms])

theorem mk_string_use_after_free_witness:
  "fetch M0 (owned_strings v0) (Address 65538) 6 = Some abcdef \<and> v7_mk_string M0 A2 (Address 65538) 6 True v0 = None"
proof -
  have f: "fetch M0 (owned_strings v0) (Address 65538) (length abcdef) = Some abcdef"
  proof -
    have "fits (owned_strings v0)" using sample_ok(1) by (simp add: strings_ok_def)
    then have "peeks M0 (owned_strings v0) (mb_addr (owned_strings v0) + of_nat 2) 6
        = Some (take 6 (drop 2 (mb_data (owned_strings v0))))"
      by (rule peeks_in) (simp add: v0_def)
    moreover have "mb_addr (owned_strings v0) + of_nat 2 = 65538" "take 6 (drop 2 (mb_data (owned_strings v0))) = abcdef"
      by (simp_all add: v0_def abcdef_def)
    ultimately show ?thesis by (simp only: fetch.simps sample_sizes)
  qed
  have A: "alloc_ok M0 A2" by (simp add: alloc_ok_def A2_def M0_def)
  have d: "abcdef \<notin> set v_dictionary_strings"
    by (simp add: v_dictionary_strings_def abcdef_def bytes_of_def)
  have "in_buffer (owned_strings v0) 65538" by (simp add: v0_def in_buffer_def)
  moreover have "unat (mb_size (owned_strings v0)) < length (packed [abcdef]) + length abcdef"
    by (simp add: sample_sizes) (simp add: v0_def)
  moreover have "\<not> (new_addr A2 (mb_addr (owned_strings v0)) n \<le> 65538 \<and>
      65538 - new_addr A2 (mb_addr (owned_strings v0)) n < n)" for n
    by (simp add: A2_def)
  ultimately have "v7_mk_string M0 A2 (Address 65538) (of_nat (length abcdef)) True v0 = None"
    using mk_string_use_after_free [OF sample_ok(1,2) A _ f _ _ d] by (simp add: sample_sizes)
  with f show ?thesis by (simp add: sample_sizes)
qed

subsection \<open>Sequence numbers and the collector\<close>

text \<open>The state after \<open>k\<close> numbers were given.\<close>

definition given :: "nat \<Rightarrow> v7 \<Rightarrow> v7" where
  "given k = (snd \<circ> gc_next_allocation_seqn) ^^ k"

lemma given_eq: "given k v = v\<lparr>gc_next_asn := gc_next_asn v + of_nat k\<rparr>"
  by (induction k) (simp_all add: given_def gc_next_allocation_seqn_def next_asn_eq ac_simps)

lemma valid_used: "gc_is_valid_allocation_seqn v n \<longleftrightarrow> unat (n - gc_min_asn v) < asn_used v"
  by (simp add: valid_asn_iff asn_used_def word_less_nat_alt)

lemma used_given:
  assumes "asn_used v + k < 65536"
  shows "asn_used (given k v) = asn_used v + k" "gc_min_asn (given k v) = gc_min_asn v"
    "unat (fst (gc_next_allocation_seqn (given k v)) - gc_min_asn v) = asn_used v + k"
proof -
  let ?d = "gc_next_asn v - gc_min_asn v"
  have "unat (?d + of_nat k) = asn_used v + k" using assms by (simp add: asn_used_def unat_word_ariths unat_of_nat)
  moreover have "gc_next_asn v + of_nat k - gc_min_asn v = ?d + of_nat k" by simp
  ultimately have "unat (gc_next_asn v + of_nat k - gc_min_asn v) = asn_used v + k" by (simp only:)
  then show "asn_used (given k v) = asn_used v + k" "gc_min_asn (given k v) = gc_min_asn v"
    "unat (fst (gc_next_allocation_seqn (given k v)) - gc_min_asn v) = asn_used v + k"
    unfolding asn_used_def [of "given k v"] by (simp_all add: given_eq gc_next_allocation_seqn_def next_asn_eq)
qed

lemma given_valid:
  assumes "asn_used v + k < 65536"
  shows "gc_is_valid_allocation_seqn v n \<Longrightarrow> gc_is_valid_allocation_seqn (given k v) n"
    and "j < k \<Longrightarrow> gc_is_valid_allocation_seqn (given k v) (fst (gc_next_allocation_seqn (given j v)))"
  using used_given [OF assms] used_given(3) [of v j] assms by (simp_all add: valid_used)

lemma given_all_gone:
  assumes "tag_of x = 0xFFF8"
  shows "v7_get_string_data (given (65536 - asn_used v) v) x = None"
proof -
  have "unat (gc_next_asn v - gc_min_asn v) < 2 ^ LENGTH(16)" by (rule unsigned_less)
  then have "asn_used v < 65536" by (simp add: asn_used_def)
  moreover have "of_nat (asn_used v) = gc_next_asn v - gc_min_asn v" by (simp add: asn_used_def)
  moreover have "(of_nat 65536 :: u16) = 0" by (simp only: word_unat_eq_iff unat_of_nat) simp
  ultimately have "(of_nat (65536 - asn_used v) :: u16) = gc_min_asn v - gc_next_asn v" by (simp add: of_nat_diff)
  then have "\<not> gc_is_valid_allocation_seqn (given (65536 - asn_used v) v) n" for n by (simp add: given_eq valid_asn_iff)
  with assms show ?thesis
    by (simp add: v7_get_string_data_def gc_check_valid_allocation_seqn_def kinds(7) and_tag_mask tags tagged_eq_iff Let_def)
qed

text \<open>C37: after a collection that kept some strings, which number the kept ones anew, so many strings can be allocated
  that both together are 65535, and every number that was valid or is given then stays valid; with one more every number
  becomes invalid and every read of an owned string, old or new, aborts.\<close>

theorem sequence_numbers_run_out:
  assumes "strings_ok v ss" "alloc_ok M A" "length (packed ss) < 2 ^ 31" "length ss < 65536"
    and "\<forall>a \<in> set roots. markable ss v cells a"
  shows "\<exists>v1 cells1 kept. gc_strings A roots full (v, cells) = Some (v1, cells1) \<and> strings_ok v1 kept \<and> subseq kept ss \<and>
     set kept = {ss ! i | i. i < length ss \<and> (\<exists>a \<in> set roots. refers ss cells a i)} \<and>
     (\<forall>k. length kept + k < 65536 \<longrightarrow>
        (\<forall>n. gc_is_valid_allocation_seqn v1 n \<longrightarrow> gc_is_valid_allocation_seqn (given k v1) n) \<and>
        (\<forall>j < k. gc_is_valid_allocation_seqn (given k v1) (fst (gc_next_allocation_seqn (given j v1))))) \<and>
     (\<forall>x. tag_of x = 0xFFF8 \<longrightarrow> v7_get_string_data (given (65536 - length kept) v1) x = None)"
proof -
  obtain v1 cells1 kept where "gc_strings A roots full (v, cells) = Some (v1, cells1)" "strings_ok v1 kept" "subseq kept ss"
    "set kept = {ss ! i | i. i < length ss \<and> (\<exists>a \<in> set roots. refers ss cells a i)}" "asn_used v1 = length kept"
    using gc_strings_any [OF assms, of full] by (elim exE conjE)
  then show ?thesis
    using given_valid [of v1] given_all_gone [of _ v1]
    by (intro exI [of _ v1] exI [of _ cells1] exI [of _ kept]) (intro conjI; simp)
qed

theorem sequence_numbers_run_out_witness:
  "\<exists>v1 cells1. gc_strings A1 [4096] True (v0, [4096 \<mapsto> x0]) = Some (v1, cells1) \<and>
     gc_is_valid_allocation_seqn (given 65534 v1) (fst (gc_next_allocation_seqn (given 65533 v1))) \<and>
     v7_get_string_data (given 65535 v1) x0 = None"
proof -
  have roots: "\<forall>a \<in> set [4096]. markable [abcdef] v0 [4096 \<mapsto> x0] a"
    using sample_live by (auto simp: markable_def live_def tag_of_def)
  have sz: "length (packed [abcdef]) < 2 ^ 31" "length [abcdef] < 65536" by (simp_all add: sample_sizes)
  have all: "{[abcdef] ! i | i. i < length [abcdef] \<and> (\<exists>a \<in> set [4096]. refers [abcdef] [4096 \<mapsto> x0] a i)} = {abcdef}"
    using sample_live by (auto simp: live_def refers_def)
  obtain v1 cells1 kept where g: "gc_strings A1 [4096] True (v0, [4096 \<mapsto> x0]) = Some (v1, cells1)"
    "subseq kept [abcdef]" "set kept = {abcdef}"
    "\<forall>k. length kept + k < 65536 \<longrightarrow> (\<forall>j < k. gc_is_valid_allocation_seqn (given k v1) (fst (gc_next_allocation_seqn (given j v1))))"
    "\<forall>x. tag_of x = 0xFFF8 \<longrightarrow> v7_get_string_data (given (65536 - length kept) v1) x = None"
    using sequence_numbers_run_out [OF sample_ok(1,3) sz roots, of True, unfolded all] by (elim exE conjE) simp
  from g(2,3) have k: "length kept = 1" by (cases kept) (auto split: if_splits)
  have "tag_of x0 = 0xFFF8" using sample_live by (simp add: live_def)
  then show ?thesis using g(1,5) g(4) [rule_format, of 65534 65533] k by auto
qed

text \<open>C33: a collection ends and keeps in the buffer, in their order, exactly the strings that some root
  refers to; every root that was an owned string reads the text it read before, through the new value
  in its cell, and no other cell changes.\<close>

theorem gc_keeps_rooted_strings:
  assumes "strings_ok v ss" "alloc_ok M A" "length (packed ss) < 2 ^ 31" "length ss < 65536"
    and "\<forall>a \<in> set roots. markable ss v cells a"
  shows "\<exists>v1 cells1 ss1. gc_strings A roots full (v, cells) = Some (v1, cells1) \<and>
     strings_ok v1 ss1 \<and> subseq ss1 ss \<and>
     set ss1 = {ss ! i | i. i < length ss \<and> (\<exists>a \<in> set roots. refers ss cells a i)} \<and>
     (\<forall>a \<in> set roots. \<forall>x s. cells a = Some x \<longrightarrow> live v ss x s \<longrightarrow>
        (\<exists>x1. cells1 a = Some x1 \<and> string_bytes M v1 x1 = Some s)) \<and>
     (\<forall>a. a \<notin> set roots \<longrightarrow> cells1 a = cells a)"
proof -
  obtain v1 cells1 ss1 where "gc_strings A roots full (v, cells) = Some (v1, cells1)" and ok: "strings_ok v1 ss1"
    and "subseq ss1 ss" "set ss1 = {ss ! i | i. i < length ss \<and> (\<exists>a \<in> set roots. refers ss cells a i)}"
    "\<forall>a. a \<notin> set roots \<longrightarrow> cells1 a = cells a"
    and kept: "\<forall>a \<in> set roots. \<forall>x s. cells a = Some x \<longrightarrow> live v ss x s \<longrightarrow> (\<exists>x1. cells1 a = Some x1 \<and> live v1 ss1 x1 s)"
    using gc_strings_any [OF assms, of full] by (elim exE conjE)
  moreover have "\<forall>a \<in> set roots. \<forall>x s. cells a = Some x \<longrightarrow> live v ss x s \<longrightarrow>
      (\<exists>x1. cells1 a = Some x1 \<and> string_bytes M v1 x1 = Some s)"
    using kept live_bytes(1) [OF ok] by blast
  ultimately show ?thesis by (intro exI conjI)
qed

theorem gc_keeps_rooted_strings_witness:
  "\<exists>v1 cells1 x1. gc_strings A1 [4096, 4096] True (v0, [4096 \<mapsto> x0]) = Some (v1, cells1) \<and>
     cells1 4096 = Some x1 \<and> string_bytes M0 v1 x1 = Some abcdef \<and> content (owned_strings v1) = packed [abcdef]"
proof -
  have roots: "\<forall>a \<in> set [4096, 4096]. markable [abcdef] v0 [4096 \<mapsto> x0] a"
    using sample_live by (auto simp: markable_def live_def tag_of_def)
  have all: "{[abcdef] ! i | i. i < length [abcdef] \<and> (\<exists>a \<in> set [4096, 4096]. refers [abcdef] [4096 \<mapsto> x0] a i)} = {abcdef}"
    using sample_live by (auto simp: live_def refers_def)
  have sz: "length (packed [abcdef]) < 2 ^ 31" "length [abcdef] < 65536" by (simp_all add: sample_sizes)
  obtain v1 cells1 ss1 where g: "gc_strings A1 [4096, 4096] True (v0, [4096 \<mapsto> x0]) = Some (v1, cells1)"
    "strings_ok v1 ss1" "subseq ss1 [abcdef]" "set ss1 = {abcdef}"
    "\<exists>x1. cells1 4096 = Some x1 \<and> string_bytes M0 v1 x1 = Some abcdef"
    using gc_keeps_rooted_strings [OF sample_ok(1,3) sz roots, of True, unfolded all] sample_live by auto
  from g(3,4) have "ss1 = [abcdef]" by (cases ss1) (auto split: if_splits)
  with g show ?thesis by (auto simp: strings_ok_def)
qed

text \<open>C39: the values that C code holds are a bag: owning a pointer adds one occurrence of it, and changes nothing exactly
  when \<open>realloc\<close> has no memory or the address would wrap (\<open>append_fits\<close>); disowning says whether it was held and takes
  exactly one occurrence out. Nothing else of the state changes.\<close>

theorem owned_values_bag:
  assumes "pointers (owned_values v) ps" "unat (mb_len (owned_values v)) < 2 ^ 50"
  shows "(\<exists>m qs. v7_own A p v = Some (v\<lparr>owned_values := m\<rparr>) \<and> pointers m qs \<and>
        mset qs = (if append_fits A (owned_values v) 8 then add_mset p (mset ps) else mset ps) \<and>
        (\<not> append_fits A (owned_values v) 8 \<longrightarrow> m = owned_values v)) \<and>
     (\<exists>m qs. v7_disown p v = Some (p \<in> set ps, v\<lparr>owned_values := m\<rparr>) \<and> pointers m qs \<and> mset qs = mset ps - {#p#})"
proof
  obtain m where m: "v7_own A p v = Some (v\<lparr>owned_values := m\<rparr>)"
    "if append_fits A (owned_values v) 8 then pointers m (ps @ [p]) else m = owned_values v"
    by (rule own_exact [OF assms])
  then show "\<exists>m qs. v7_own A p v = Some (v\<lparr>owned_values := m\<rparr>) \<and> pointers m qs \<and>
      mset qs = (if append_fits A (owned_values v) 8 then add_mset p (mset ps) else mset ps) \<and>
      (\<not> append_fits A (owned_values v) 8 \<longrightarrow> m = owned_values v)"
    using assms(1)
    by (intro exI [of _ m] exI [of _ "if append_fits A (owned_values v) 8 then ps @ [p] else ps"]) (simp split: if_splits)
  obtain m qs where "v7_disown p v = Some (p \<in> set ps, v\<lparr>owned_values := m\<rparr>)" "pointers m qs" "mset qs = mset ps - {#p#}"
    by (rule disown_spec [OF assms(1)])
  then show "\<exists>m qs. v7_disown p v = Some (p \<in> set ps, v\<lparr>owned_values := m\<rparr>) \<and> pointers m qs \<and> mset qs = mset ps - {#p#}"
    by blast
qed

text \<open>A buffer that holds 4096 and has no room for a second pointer.\<close>

definition held :: v7 where
  "held = v0\<lparr>owned_values := \<lparr>mb_addr = 512, mb_data = ptr_key 4096 @ [9, 9, 9, 9], mb_len = 8, mb_size = 12\<rparr>\<rparr>"

theorem owned_values_bag_witness:
  "(\<exists>m. v7_disown 4096 held = Some (True, held\<lparr>owned_values := m\<rparr>) \<and> pointers m []) \<and>
   (\<exists>m qs. v7_own A1 8192 held = Some (held\<lparr>owned_values := m\<rparr>) \<and> pointers m qs \<and> mset qs = {#4096, 8192#}) \<and>
   v7_own \<lparr>new_addr = (\<lambda>_ _. 0), undef = (\<lambda>_. 0)\<rparr> 8192 held = Some held"
proof -
  have "pointers (owned_values held) [4096]" "unat (mb_len (owned_values held)) < 2 ^ 50"
    by (simp_all add: held_def pointers_def mbuf_ok_def content_def)
  note bag = owned_values_bag [OF this]
  have f: "append_fits A1 (owned_values held) 8"
    "\<not> append_fits \<lparr>new_addr = (\<lambda>_ _. 0), undef = (\<lambda>_. 0)\<rparr> (owned_values held) 8"
    by (simp_all add: append_fits_def held_def A1_def)
  have same: "held\<lparr>owned_values := owned_values held\<rparr> = held" by simp
  have "\<exists>m. v7_disown 4096 held = Some (True, held\<lparr>owned_values := m\<rparr>) \<and> pointers m []"
    using bag [of A1 4096] by auto
  moreover have "\<exists>m qs. v7_own A1 8192 held = Some (held\<lparr>owned_values := m\<rparr>) \<and> pointers m qs \<and> mset qs = {#4096, 8192#}"
    using bag [of A1 8192] f(1) by (auto simp: add_mset_commute)
  moreover have "v7_own \<lparr>new_addr = (\<lambda>_ _. 0), undef = (\<lambda>_. 0)\<rparr> 8192 held = Some held"
    using bag [of "\<lparr>new_addr = (\<lambda>_ _. 0), undef = (\<lambda>_. 0)\<rparr>" 8192] f(2) same by auto
  ultimately show ?thesis by blast
qed

subsection \<open>Quoting\<close>

text \<open>C38: the JSON quoting of a text of whole 16-bit characters, given room, is between two quotes, and the
  engine's \<open>unescape\<close> gives the text back.\<close>

theorem json_quote_roundtrip:
  assumes "text = concat (map runetochar rs)" "length (quoted text) < n"
  shows "\<exists>body. fst (snquote n text) = 34 # body @ [34, 0] \<and> unescape body (int (length body)) = Some text"
proof -
  let ?body = "concat (map quote_byte text)"
  have "fst (snquote n text) = 34 # ?body @ [34, 0]" using assms(2) by (simp add: snquote_spec quoted_def)
  moreover have "unescape ?body (int (length ?body)) = Some text"
    using unescape_quoted [of rs "[]"] by (simp add: assms(1))
  ultimately show ?thesis by blast
qed

theorem json_quote_roundtrip_witness:
  "\<exists>body. fst (snquote 16 [97, 34, 10]) = 34 # body @ [34, 0] \<and> unescape body (int (length body)) = Some [97, 34, 10]"
proof -
  have "concat (map runetochar [97, 34, 10]) = [97, 34, 10]" by code_simp
  moreover have "length (quoted [97, 34, 10]) < 16" by code_simp
  ultimately show ?thesis using json_quote_roundtrip [of "[97, 34, 10]" "[97, 34, 10]" 16] by simp
qed

text \<open>Quoting does not count the six bytes of a control character: a caller that makes the buffer as
  large as the count asks (one more than it, for the terminating zero) still gets a truncated text.\<close>

theorem snquote_undercounts:
  assumes "c \<in> set s" "control c" "n = snd (snquote 1 s) + 1"
  shows "fst (snquote n s) \<noteq> quoted s @ [0] \<and> snd (snquote n s) < n"
proof -
  have k: "0 < length (filter control s)" using assms(1,2) by (auto simp: filter_empty_conv)
  have "length (filter control s) \<le> length s" by simp
  have n: "n = length (quoted s) - 6 * length (filter control s) + 1" by (simp add: assms(3) snquote_spec)
  have "length (quoted s) = 2 + length (concat (map quote_byte s))" by (simp add: quoted_def)
  then have "n - 1 < length (quoted s)" using k n by linarith
  then have "length (fst (snquote n s)) < length (quoted s @ [0])" using n by (simp add: snquote_spec)
  moreover have "snd (snquote n s) < n" using n by (simp add: snquote_spec)
  ultimately show ?thesis by auto
qed

theorem snquote_undercounts_witness: "fst (snquote 3 [1]) \<noteq> quoted [1] @ [0] \<and> snd (snquote 3 [1]) < 3"
proof -
  have "control 1" "3 = snd (snquote 1 [1]) + 1" by code_simp+
  then show ?thesis using snquote_undercounts [of 1 "[1]" 3] by simp
qed

end
