(* ===== verification/AstProps.thy ===== *)
theory AstProps
  imports AstTrees StringProps
begin

text \<open>
  Properties of the buffers that hold syntax trees: what writing leaves, what reading and skipping find.
\<close>

subsection \<open>Samples\<close>

text \<open>The script \<open>a\<close>, and a buffer that holds its bytes.\<close>

definition tree_a :: ast_tree where "tree_a = Node AST_IDENT [97] [] []"
definition script_a :: ast_tree where "script_a = Node AST_SCRIPT [] [0] [tree_a]"

definition ast_of :: "u8 list \<Rightarrow> ast" where
  "ast_of bs = \<lparr>ast_mbuf = \<lparr>mb_addr = 65536, mb_data = bs, mb_len = of_nat (length bs), mb_size = of_nat (length bs)\<rparr>,
     ast_refcnt = 1, has_overflow = False\<rparr>"

lemma ast_of_writable: "length bs < 2 ^ 20 \<Longrightarrow> writable M0 A1 (ast_mbuf (ast_of bs))"
  using sample_ok(2,3) by (simp add: writable_def ast_of_def fits_def mbuf_ok_def unat_of_nat)

lemma ast_of_content: "length bs < 2 ^ 20 \<Longrightarrow> content (ast_mbuf (ast_of bs)) = bs \<and> unat (mb_len (ast_mbuf (ast_of bs))) = length bs"
  by (simp add: ast_of_def content_def unat_of_nat)

lemma script_a_bytes: "enc tree_a = [20, 1, 97]" "enc script_a = [1, 0, 7, 0, 0, 20, 1, 97]"
proof -
  have v: "varint_of [97] = [1]" by (simp add: varint_of_def encode_varint_def calc_llen.simps)
  show a: "enc tree_a = [20, 1, 97]"
    by (simp add: tree_a_def node_bytes_def text_bytes_def skip_bytes_def v AST_IDENT_def ast_node_defs_def AST_ENTRY_def)
  show "enc script_a = [1, 0, 7, 0, 0, 20, 1, 97]"
    unfolding script_a_def
    by (simp add: a node_bytes_def text_bytes_def skip_bytes_def be16_def AST_SCRIPT_def ast_node_defs_def AST_ENTRY_def)
qed

lemma script_a_wf: "wf script_a"
  using script_a_bytes(1)
  by (simp add: script_a_def tree_a_def node_ok_def Let_def AST_SCRIPT_def AST_IDENT_def AST_MAX_TAG_def ast_node_defs_def AST_ENTRY_def)

subsection \<open>Writing\<close>

text \<open>C12: a node with skips that is opened at the end of the buffer, followed by any trees and closed by its end skip
  is the node with these trees as children; whatever its other skips were set to meanwhile they stay. The tree is
  marked as too large exactly if the distance does not fit the 16 bits of a skip.\<close>

theorem node_written:
  assumes "writable M A (ast_mbuf a)" "t < AST_MAX_TAG" "num_skips (ast_node_defs ! t) \<noteq> 0" "unat (mb_len (ast_mbuf a)) + 7 < 2 ^ 32"
  shows "\<exists>a1 slots. ast_add_node A a t = Some (mb_len (ast_mbuf a) + 1, a1) \<and> writable M A (ast_mbuf a1) \<and>
     content (ast_mbuf a1) = content (ast_mbuf a) @ of_nat t # slots \<and> length slots = 2 * num_skips (ast_node_defs ! t) \<and>
     has_overflow a1 = has_overflow a \<and>
     (\<forall>a2 slots2 cs. writable M A (ast_mbuf a2) \<longrightarrow> unat (mb_len (ast_mbuf a2)) < 2 ^ 32 \<longrightarrow> length slots2 = length slots \<longrightarrow>
        content (ast_mbuf a2) = content (ast_mbuf a) @ of_nat t # slots2 @ concat (map enc cs) \<longrightarrow>
        (\<exists>a3 ks. ast_set_skip a2 (mb_len (ast_mbuf a) + 1) AST_END_SKIP = Some (mb_len (ast_mbuf a2), a3) \<and>
           content (ast_mbuf a3) = content (ast_mbuf a) @ enc (Node t [] ks cs) \<and> concat (map be16 ks) = drop 2 slots2 \<and>
           (has_overflow a3 \<longleftrightarrow> has_overflow a2 \<or> 2 ^ 16 \<le> length slots + length (concat (map enc cs)))))"
proof -
  obtain a1 slots where a1: "ast_add_node A a t = Some (mb_len (ast_mbuf a) + 1, a1)" "writable M A (ast_mbuf a1)"
      "content (ast_mbuf a1) = content (ast_mbuf a) @ of_nat t # slots" "length slots = 2 * num_skips (ast_node_defs ! t)"
      "has_overflow a1 = has_overflow a" "mb_len (ast_mbuf a1) = mb_len (ast_mbuf a) + 1 + of_nat (length slots)"
    by (rule add_node_spec [OF assms(1,2,4)])
  have pos: "mb_len (ast_mbuf a) + 1 = of_nat (length (content (ast_mbuf a)) + 1)" using writable_length [OF assms(1)] by simp
  have "\<exists>a3 ks. ast_set_skip a2 (mb_len (ast_mbuf a) + 1) AST_END_SKIP = Some (mb_len (ast_mbuf a2), a3) \<and>
      content (ast_mbuf a3) = content (ast_mbuf a) @ enc (Node t [] ks cs) \<and> concat (map be16 ks) = drop 2 slots2 \<and>
      (has_overflow a3 \<longleftrightarrow> has_overflow a2 \<or> 2 ^ 16 \<le> length slots + length (concat (map enc cs)))"
    if 2: "writable M A (ast_mbuf a2)" "unat (mb_len (ast_mbuf a2)) < 2 ^ 32" "length slots2 = length slots"
      "content (ast_mbuf a2) = content (ast_mbuf a) @ of_nat t # slots2 @ concat (map enc cs)" for a2 slots2 cs
  proof -
    have l: "length slots2 = 2 * num_skips (ast_node_defs ! t)" using 2(3) a1(4) by simp
    obtain a3 ks where "ast_set_skip a2 (of_nat (length (content (ast_mbuf a)) + 1)) AST_END_SKIP = Some (mb_len (ast_mbuf a2), a3)"
        "writable M A (ast_mbuf a3)" "content (ast_mbuf a3) = content (ast_mbuf a) @ enc (Node t [] ks cs)"
        "length ks = num_skips (ast_node_defs ! t) - 1" "drop 2 slots2 = concat (map be16 ks)"
        "has_overflow a3 \<longleftrightarrow> has_overflow a2 \<or> 2 ^ 16 \<le> 2 * num_skips (ast_node_defs ! t) + length (concat (map enc cs))"
      by (rule set_skip_tree [OF 2(1) assms(2) refl assms(3) 2(2,4) l])
    then show ?thesis using a1(4) unfolding pos by auto
  qed
  then show ?thesis using a1 by blast
qed

theorem node_written_witness:
  "\<exists>a1. ast_add_node A1 (ast_of []) AST_SCRIPT = Some (1, a1) \<and>
     (\<exists>a3. ast_set_skip (ast_of [1, 7, 7, 0, 0, 20, 1, 97]) 1 AST_END_SKIP = Some (8, a3) \<and> content (ast_mbuf a3) = enc script_a)"
proof -
  let ?a = "ast_of []" and ?b = "ast_of [1, 7, 7, 0, 0, 20, 1, 97]"
  have d: "num_skips (ast_node_defs ! AST_SCRIPT) = 2" by (simp add: AST_SCRIPT_def ast_node_defs_def AST_ENTRY_def)
  have t: "AST_SCRIPT < AST_MAX_TAG" by (simp add: AST_SCRIPT_def AST_MAX_TAG_def)
  note w = ast_of_writable [of "[]"] and c = ast_of_content [of "[]"]
  have l0: "mb_len (ast_mbuf ?a) = 0" by (simp add: ast_of_def)
  have p: "writable M0 A1 (ast_mbuf ?a)" "num_skips (ast_node_defs ! AST_SCRIPT) \<noteq> 0" "unat (mb_len (ast_mbuf ?a)) + 7 < 2 ^ 32"
    using w d l0 by simp_all
  have b: "writable M0 A1 (ast_mbuf ?b)" "unat (mb_len (ast_mbuf ?b)) < 2 ^ 32"
      "content (ast_mbuf ?b) = content (ast_mbuf ?a) @ of_nat AST_SCRIPT # [7, 7, 0, 0] @ concat (map enc [tree_a])"
    using ast_of_writable [of "[1, 7, 7, 0, 0, 20, 1, 97]"] ast_of_content [of "[1, 7, 7, 0, 0, 20, 1, 97]"] c
    by (simp_all add: script_a_bytes AST_SCRIPT_def)
  show ?thesis using node_written [OF p(1) t p(2,3)]
  proof (elim exE conjE)
    fix a1 slots
    assume 1: "ast_add_node A1 ?a AST_SCRIPT = Some (mb_len (ast_mbuf ?a) + 1, a1)" "length slots = 2 * num_skips (ast_node_defs ! AST_SCRIPT)"
      and 2: "\<forall>a2 slots2 cs. writable M0 A1 (ast_mbuf a2) \<longrightarrow> unat (mb_len (ast_mbuf a2)) < 2 ^ 32 \<longrightarrow> length slots2 = length slots \<longrightarrow>
        content (ast_mbuf a2) = content (ast_mbuf ?a) @ of_nat AST_SCRIPT # slots2 @ concat (map enc cs) \<longrightarrow>
        (\<exists>a3 ks. ast_set_skip a2 (mb_len (ast_mbuf ?a) + 1) AST_END_SKIP = Some (mb_len (ast_mbuf a2), a3) \<and>
           content (ast_mbuf a3) = content (ast_mbuf ?a) @ enc (Node AST_SCRIPT [] ks cs) \<and> concat (map be16 ks) = drop 2 slots2 \<and>
           (has_overflow a3 \<longleftrightarrow> has_overflow a2 \<or> 2 ^ 16 \<le> length slots + length (concat (map enc cs))))"
    have "length [7, 7, 0, 0 :: u8] = length slots" using 1(2) d by simp
    from 2 [rule_format, OF b(1,2) this b(3)] obtain a3 ks where
      3: "ast_set_skip ?b 1 AST_END_SKIP = Some (mb_len (ast_mbuf ?b), a3)"
        "content (ast_mbuf a3) = enc (Node AST_SCRIPT [] ks [tree_a])" "concat (map be16 ks) = [0, 0]"
      unfolding l0 using c by (auto simp del: enc.simps)
    have "concat (map be16 ks) = concat (map be16 [0])" using 3(3) by (simp add: be16_def)
    then have "enc (Node AST_SCRIPT [] ks [tree_a]) = enc script_a" by (simp add: script_a_def node_bytes_def skip_bytes_def Let_def)
    then show ?thesis using 1(1) 3(1,2) l0 by (simp add: ast_of_def)
  qed
qed

text \<open>C13: a node inserted in front of the trees that end the buffer encloses them: whatever was written before stays,
  and the new tree has them as children. It is marked as too large exactly if the distance does not fit its skip.\<close>

theorem insert_encloses:
  assumes "writable M A (ast_mbuf a)" "t < AST_MAX_TAG" "unat (mb_len (ast_mbuf a)) + 7 < 2 ^ 32" "\<not> has_varint (ast_node_defs ! t)"
    and "content (ast_mbuf a) = pre @ concat (map enc cs)"
  shows "\<exists>a' ks. ast_insert_node A a (of_nat (length pre)) t = Some (of_nat (length pre + 1), a') \<and> writable M A (ast_mbuf a') \<and>
     content (ast_mbuf a') = pre @ enc (Node t [] ks cs) \<and> length ks = num_skips (ast_node_defs ! t) - 1 \<and>
     (has_overflow a' \<longleftrightarrow> has_overflow a \<or> num_skips (ast_node_defs ! t) \<noteq> 0 \<and>
        2 ^ 16 \<le> 2 * num_skips (ast_node_defs ! t) + length (concat (map enc cs)))"
proof -
  obtain a' ks where "ast_insert_node A a (of_nat (length pre)) t = Some (of_nat (length pre + 1), a')" "writable M A (ast_mbuf a')"
    "content (ast_mbuf a') = pre @ enc (Node t [] ks cs)" "length ks = num_skips (ast_node_defs ! t) - 1"
    "has_overflow a' \<longleftrightarrow> has_overflow a \<or> num_skips (ast_node_defs ! t) \<noteq> 0 \<and>
        2 ^ 16 \<le> 2 * num_skips (ast_node_defs ! t) + length (concat (map enc cs))"
    by (rule insert_node_tree [OF assms(1-3,5) refl assms(4)])
  then show ?thesis by blast
qed

text \<open>\<open>a, a\<close> becomes a sequence.\<close>

theorem insert_encloses_witness:
  "\<exists>a'. ast_insert_node A1 (ast_of [1, 20, 1, 97, 20, 1, 97]) 1 AST_SEQ = Some (2, a') \<and>
     content (ast_mbuf a') = 1 # enc (Node AST_SEQ [] [] [tree_a, tree_a])"
proof -
  let ?bs = "[1, 20, 1, 97, 20, 1, 97] :: u8 list"
  have d: "num_skips (ast_node_defs ! AST_SEQ) = 1" "\<not> has_varint (ast_node_defs ! AST_SEQ)" "AST_SEQ < AST_MAX_TAG"
    by (simp_all add: AST_SEQ_def AST_MAX_TAG_def ast_node_defs_def AST_ENTRY_def)
  have p: "writable M0 A1 (ast_mbuf (ast_of ?bs))" "unat (mb_len (ast_mbuf (ast_of ?bs))) + 7 < 2 ^ 32"
      "content (ast_mbuf (ast_of ?bs)) = [1] @ concat (map enc [tree_a, tree_a])"
    using ast_of_writable [of ?bs] ast_of_content [of ?bs] by (simp_all add: script_a_bytes)
  from insert_encloses [OF p(1) d(3) p(2) d(2) p(3)] show ?thesis using d(1) by auto
qed

text \<open>C14: a leaf with a text, added at the end, leaves what was written and is followed by nothing; its text, read back
  from where the leaf starts, is the given one with its escapes replaced.\<close>

theorem inlined_text_roundtrip:
  assumes "writable M A (ast_mbuf a)" "tag < AST_MAX_TAG" "has_inlined (ast_node_defs ! tag)"
    and "text_at M p bs" "bs \<noteq> []" "unescape bs (int (length bs)) = Some out"
    and "length bs < 2 ^ 31" "length out < 2 ^ 31" "unat (mb_len (ast_mbuf a)) + 2 ^ 31 + 9 < 2 ^ 32"
  shows "\<exists>a' q. ast_add_inlined_node M A a tag p (of_nat (length bs)) = Some a' \<and> writable M A (ast_mbuf a') \<and>
     content (ast_mbuf a') = content (ast_mbuf a) @ enc (Node tag out [] []) \<and>
     ast_get_inlined_data a' (mb_len (ast_mbuf a) + 1) = Some (q, of_nat (length out)) \<and>
     take (length out) (drop (unat q) (mb_data (ast_mbuf a'))) = out"
proof -
  obtain a' where a': "ast_add_inlined_node M A a tag p (of_nat (length bs)) = Some a'" "writable M A (ast_mbuf a')"
    "content (ast_mbuf a') = content (ast_mbuf a) @ enc (Node tag out [] [])" "has_overflow a' = has_overflow a"
    by (rule add_inlined_tree [OF assms])
  let ?i = "length (content (ast_mbuf a))"
  have v: "has_varint (ast_node_defs ! tag)" "num_skips (ast_node_defs ! tag) = 0" using def_entry [OF assms(2) refl] assms(3) by auto
  have "length (enc (Node tag out [] [])) \<le> 6 + length out"
    using v varint_of(4) [OF assms(8)] by (simp add: node_bytes_def text_bytes_def skip_bytes_def Let_def)
  then have "unat (mb_len (ast_mbuf a')) < 2 ^ 52"
    using writable_length [OF a'(2)] writable_length [OF assms(1)] a'(3) assms(8,9) by (simp del: enc.simps)
  then have h: "holds (ast_mbuf a') ?i (enc (Node tag out [] []))"
    using writable_holds [OF a'(2), of "content (ast_mbuf a)" "enc (Node tag out [] [])" "[]"] a'(3) by (simp del: enc.simps)
  have pos: "mb_len (ast_mbuf a) + 1 = of_nat (?i + 1)" using writable_length [OF assms(1)] by simp
  obtain q where "ast_get_inlined_data a' (of_nat (?i + 1)) = Some (q, of_nat (length out))"
      "take (length out) (drop (unat q) (mb_data (ast_mbuf a'))) = out"
    by (rule inlined_holds [OF h assms(2) v(1) assms(8)])
  then show ?thesis using a' unfolding pos by blast
qed

text \<open>The string \<open>a\<backslash>n\<close> of four characters with its quotes, two of them an escape.\<close>

theorem inlined_text_roundtrip_witness:
  "\<exists>a' q. ast_add_inlined_node M0 A1 (ast_of [1]) AST_STRING (Static [97, 92, 110, 34]) 3 = Some a' \<and>
     ast_get_inlined_data a' 2 = Some (q, 2) \<and> take 2 (drop (unat q) (mb_data (ast_mbuf a'))) = [97, 10]"
proof -
  let ?bs = "[97, 92, 110] :: u8 list"
  have d: "AST_STRING < AST_MAX_TAG" "has_inlined (ast_node_defs ! AST_STRING)"
    by (simp_all add: AST_STRING_def AST_MAX_TAG_def ast_node_defs_def AST_ENTRY_def)
  have u: "unescape ?bs (int (length ?bs)) = Some [97, 10]" by code_simp
  have t: "text_at M0 (Static [97, 92, 110, 34]) ?bs" by simp
  have w: "writable M0 A1 (ast_mbuf (ast_of [1]))" "unat (mb_len (ast_mbuf (ast_of [1]))) + 2 ^ 31 + 9 < 2 ^ 32"
    using ast_of_writable [of "[1]"] ast_of_content [of "[1]"] by simp_all
  have l: "mb_len (ast_mbuf (ast_of [1])) = 1" by (simp add: ast_of_def)
  from inlined_text_roundtrip [OF w(1) d t _ u _ _ w(2)] show ?thesis by (simp add: l numeral_2_eq_2 [symmetric]) blast
qed

subsection \<open>Skips\<close>

text \<open>C15: a skip that is set to a place less than \<open>2 ^ 16\<close> bytes behind its node is read as that place, and the tree is
  not marked as too large by it.\<close>

theorem skip_roundtrip:
  assumes "writable M A (ast_mbuf a)" "t < AST_MAX_TAG" "k < num_skips (ast_node_defs ! t)"
    and "content (ast_mbuf a) = pre @ of_nat t # slots @ post" "length slots = 2 * num_skips (ast_node_defs ! t)"
    and "unat (mb_len (ast_mbuf a)) < 2 ^ 32" "length pre + 1 + x \<le> unat (mb_len (ast_mbuf a))" "x < 2 ^ 16"
  shows "\<exists>a'. ast_modify_skip a (of_nat (length pre + 1)) (of_nat (length pre + 1 + x)) k = Some (of_nat (length pre + 1 + x), a') \<and>
     ast_get_skip a' (of_nat (length pre + 1)) k = Some (of_nat (length pre + 1 + x)) \<and> has_overflow a' = has_overflow a"
proof -
  obtain a' where "ast_modify_skip a (of_nat (length pre + 1)) (of_nat (length pre + 1 + x)) k = Some (of_nat (length pre + 1 + x), a')"
    "ast_get_skip a' (of_nat (length pre + 1)) k = Some (of_nat (length pre + 1 + x))" "has_overflow a' = has_overflow a"
    by (rule get_modified_skip [OF assms])
  then show ?thesis by blast
qed

theorem skip_roundtrip_witness:
  "\<exists>a'. ast_modify_skip (ast_of [1, 0, 7, 0, 0, 20, 1, 97]) 1 5 1 = Some (5, a') \<and> ast_get_skip a' 1 1 = Some 5"
proof -
  let ?bs = "[1, 0, 7, 0, 0, 20, 1, 97] :: u8 list"
  have d: "AST_SCRIPT < AST_MAX_TAG" "1 < num_skips (ast_node_defs ! AST_SCRIPT)" "num_skips (ast_node_defs ! AST_SCRIPT) = 2"
    by (simp_all add: AST_SCRIPT_def AST_MAX_TAG_def ast_node_defs_def AST_ENTRY_def)
  have p: "writable M0 A1 (ast_mbuf (ast_of ?bs))" "unat (mb_len (ast_mbuf (ast_of ?bs))) < 2 ^ 32"
      "content (ast_mbuf (ast_of ?bs)) = [] @ of_nat AST_SCRIPT # [0, 7, 0, 0] @ [20, 1, 97]"
      "length ([] :: u8 list) + 1 + 4 \<le> unat (mb_len (ast_mbuf (ast_of ?bs)))"
    using ast_of_writable [of ?bs] ast_of_content [of ?bs] by (simp_all add: AST_SCRIPT_def)
  have "length [0, 7, 0, 0 :: u8] = 2 * num_skips (ast_node_defs ! AST_SCRIPT)" "(4 :: nat) < 2 ^ 16" using d(3) by simp_all
  from skip_roundtrip [OF p(1) d(1,2) p(3) this(1) p(2,4) this(2)] show ?thesis by auto
qed

text \<open>C11: skipping over the bytes of a well-formed tree, wherever they stand in the buffer, ends exactly behind them, with
  two units of fuel for each of its bytes.\<close>

theorem skip_passes_tree:
  assumes "writable M A (ast_mbuf a)" "unat (mb_len (ast_mbuf a)) < 2 ^ 52" "wf t" "content (ast_mbuf a) = pre @ enc t @ post"
  shows "ast_skip_tree (2 * length (enc t)) a (of_nat (length pre)) = Some (of_nat (length pre + length (enc t)))"
  by (rule skip_tree_holds [OF assms(3) writable_holds [OF assms(1,4,2)] order_refl])

theorem skip_passes_tree_witness: "ast_skip_tree 16 (ast_of [1, 0, 7, 0, 0, 20, 1, 97]) 0 = Some 8"
proof -
  let ?bs = "[1, 0, 7, 0, 0, 20, 1, 97] :: u8 list"
  have "writable M0 A1 (ast_mbuf (ast_of ?bs))" "unat (mb_len (ast_mbuf (ast_of ?bs))) < 2 ^ 52"
      "content (ast_mbuf (ast_of ?bs)) = [] @ enc script_a @ []"
    using ast_of_writable [of ?bs] ast_of_content [of ?bs] by (simp_all add: script_a_bytes del: enc.simps)
  from skip_passes_tree [OF this(1,2) script_a_wf this(3)] show ?thesis by (simp add: script_a_bytes del: enc.simps)
qed

end
