(* ===== verification/UtfClasses.thy ===== *)
theory UtfClasses
  imports Utf UtfTables
begin

text \<open>
  The character classes and case maps of \<open>common/utf.c\<close>: a binary search in the tables of UtfTables.
  A table pointer is an offset in the flat array. Correctness: the tables are sorted, so the search
  finds the last row that starts at or before the rune, and every function agrees with a plain look
  at all the rows (\<open>in_ranges\<close>, \<open>conversion\<close>).
\<close>

function bsearch_loop :: "rune \<Rightarrow> u16 list \<Rightarrow> nat \<Rightarrow> nat \<Rightarrow> nat \<Rightarrow> nat \<times> nat" where
  "bsearch_loop c tbl t n ne =
     (if n > 1
      then let m = n div 2; p = t + m * ne
           in if tbl ! p \<le> c then bsearch_loop c tbl p (n - m) ne else bsearch_loop c tbl t m ne
      else (t, n))"
  by pat_completeness auto
termination by (relation "measure (\<lambda>(c, tbl, t, n, ne). n)") auto

declare bsearch_loop.simps [simp del]

definition rune_bsearch :: "rune \<Rightarrow> u16 list \<Rightarrow> nat \<Rightarrow> nat \<Rightarrow> nat option" where
  "rune_bsearch c tbl n ne =
     (case bsearch_loop c tbl 0 n ne of
        (t, n) \<Rightarrow> if n \<noteq> 0 \<and> tbl ! t \<le> c then Some t else None)"

definition in_row2 :: "rune \<Rightarrow> u16 list \<Rightarrow> nat \<Rightarrow> nat option" where
  "in_row2 c tbl ne =
     (case rune_bsearch c tbl (length tbl div ne) ne of
        None \<Rightarrow> None
      | Some p \<Rightarrow> if tbl ! p \<le> c \<and> c \<le> tbl ! (p + 1) then Some p else None)"

definition in_row1 :: "rune \<Rightarrow> u16 list \<Rightarrow> nat \<Rightarrow> nat option" where
  "in_row1 c tbl ne =
     (case rune_bsearch c tbl (length tbl div ne) ne of
        None \<Rightarrow> None
      | Some p \<Rightarrow> if c = tbl ! p then Some p else None)"

definition tolowerrune :: "rune \<Rightarrow> rune" where
  "tolowerrune c =
     (case in_row2 c tolower2 3 of
        Some p \<Rightarrow> c + tolower2 ! (p + 2) - 500
      | None \<Rightarrow>
          (case in_row1 c tolower1 2 of
             Some p \<Rightarrow> c + tolower1 ! (p + 1) - 500
           | None \<Rightarrow> c))"

definition toupperrune :: "rune \<Rightarrow> rune" where
  "toupperrune c =
     (case in_row2 c toupper2 3 of
        Some p \<Rightarrow> c + toupper2 ! (p + 2) - 500
      | None \<Rightarrow>
          (case in_row1 c toupper1 2 of
             Some p \<Rightarrow> c + toupper1 ! (p + 1) - 500
           | None \<Rightarrow> c))"

definition islowerrune :: "rune \<Rightarrow> bool" where
  "islowerrune c = (in_row2 c toupper2 3 \<noteq> None \<or> in_row1 c toupper1 2 \<noteq> None)"

definition isupperrune :: "rune \<Rightarrow> bool" where
  "isupperrune c = (in_row2 c tolower2 3 \<noteq> None \<or> in_row1 c tolower1 2 \<noteq> None)"

definition isdigitrune :: "rune \<Rightarrow> bool" where
  "isdigitrune c = (48 \<le> c \<and> c \<le> 57)"

definition isnewline :: "rune \<Rightarrow> bool" where
  "isnewline c = (c = 0xA \<or> c = 0xD \<or> c = 0x2028 \<or> c = 0x2029)"

definition iswordchar :: "rune \<Rightarrow> bool" where
  "iswordchar c = (c = 95 \<or> isdigitrune c \<or> (97 \<le> c \<and> c \<le> 122) \<or> (65 \<le> c \<and> c \<le> 90))"

definition isalpharune :: "rune \<Rightarrow> bool" where
  "isalpharune c =
     (isupperrune c \<or> islowerrune c \<or> in_row2 c alpha2 2 \<noteq> None \<or> in_row1 c alpha1 1 \<noteq> None)"

definition isspacerune :: "rune \<Rightarrow> bool" where
  "isspacerune c = (in_row2 c space2 2 \<noteq> None)"

subsection \<open>The binary search\<close>

definition ascending :: "u16 list \<Rightarrow> nat \<Rightarrow> nat \<Rightarrow> bool" where
  "ascending tbl N ne \<longleftrightarrow> (\<forall>i j. i < j \<longrightarrow> j < N \<longrightarrow> tbl ! (i * ne) < tbl ! (j * ne))"

lemma bsearch_loop_spec:
  assumes "ascending tbl N ne" "b + n \<le> N" "0 < n"
    and "b = 0 \<or> tbl ! (b * ne) \<le> c" "\<forall>j. b + n \<le> j \<longrightarrow> j < N \<longrightarrow> c < tbl ! (j * ne)"
  shows "\<exists>i < N. bsearch_loop c tbl (b * ne) n ne = (i * ne, 1) \<and> (i = 0 \<or> tbl ! (i * ne) \<le> c) \<and>
     (\<forall>j. i < j \<longrightarrow> j < N \<longrightarrow> c < tbl ! (j * ne))"
  using assms(2-)
proof (induction n arbitrary: b rule: less_induct)
  case (less n)
  show ?case
  proof (cases "n > 1")
    case False
    then have "n = 1" using less.prems by simp
    with less.prems show ?thesis by (subst bsearch_loop.simps) (auto intro!: exI [of _ b])
  next
    case True
    let ?m = "n div 2" and ?p = "b + n div 2"
    have m: "0 < ?m" "?m < n" "b * ne + ?m * ne = ?p * ne" using True by (auto simp: add_mult_distrib)
    show ?thesis
    proof (cases "tbl ! (?p * ne) \<le> c")
      case le: True
      have "\<exists>i < N. bsearch_loop c tbl (?p * ne) (n - ?m) ne = (i * ne, 1) \<and> (i = 0 \<or> tbl ! (i * ne) \<le> c) \<and>
          (\<forall>j. i < j \<longrightarrow> j < N \<longrightarrow> c < tbl ! (j * ne))"
        using less.prems m le by (intro less.IH) auto
      then show ?thesis
        by (subst bsearch_loop.simps) (simp only: True if_True Let_def m(3) le)
    next
      case gt: False
      have "c < tbl ! (j * ne)" if "?p \<le> j" "j < N" for j
      proof (cases "j = ?p")
        case False
        then have "tbl ! (?p * ne) < tbl ! (j * ne)"
          using assms(1) that unfolding ascending_def by auto
        with gt show ?thesis by auto
      qed (use gt in auto)
      then have "\<exists>i < N. bsearch_loop c tbl (b * ne) ?m ne = (i * ne, 1) \<and> (i = 0 \<or> tbl ! (i * ne) \<le> c) \<and>
          (\<forall>j. i < j \<longrightarrow> j < N \<longrightarrow> c < tbl ! (j * ne))"
        using less.prems m by (intro less.IH) auto
      then show ?thesis
        by (subst bsearch_loop.simps) (simp only: True if_True if_False Let_def m(3) gt)
    qed
  qed
qed

lemma rune_bsearch_some:
  assumes asc: "ascending tbl N ne" and N: "0 < N"
  shows "rune_bsearch c tbl N ne = Some p \<longleftrightarrow>
    (\<exists>i < N. p = i * ne \<and> tbl ! (i * ne) \<le> c \<and> (\<forall>j. i < j \<longrightarrow> j < N \<longrightarrow> c < tbl ! (j * ne)))"
proof -
  obtain i where i: "i < N" "bsearch_loop c tbl 0 N ne = (i * ne, 1)" "i = 0 \<or> tbl ! (i * ne) \<le> c"
      "\<forall>j. i < j \<longrightarrow> j < N \<longrightarrow> c < tbl ! (j * ne)"
    using bsearch_loop_spec [OF asc, of 0 N c] N by auto
  have uniq: "k = i" if "k < N" "tbl ! (k * ne) \<le> c" "\<forall>j. k < j \<longrightarrow> j < N \<longrightarrow> c < tbl ! (j * ne)" for k
  proof -
    have "\<not> i < k" using i(4) that(1,2) by (meson leD)
    moreover have "\<not> k < i"
    proof
      assume "k < i"
      with that(3) i(1) have "c < tbl ! (i * ne)" by blast
      with i(3) have "i = 0" by auto
      with \<open>k < i\<close> show False by simp
    qed
    ultimately show ?thesis by simp
  qed
  have val: "rune_bsearch c tbl N ne = (if tbl ! (i * ne) \<le> c then Some (i * ne) else None)"
    using i(2) by (simp add: rune_bsearch_def)
  show ?thesis
  proof
    assume "rune_bsearch c tbl N ne = Some p"
    then have "tbl ! (i * ne) \<le> c" "p = i * ne" using val by (simp_all split: if_splits)
    with i(1,4) show "\<exists>i < N. p = i * ne \<and> tbl ! (i * ne) \<le> c \<and> (\<forall>j. i < j \<longrightarrow> j < N \<longrightarrow> c < tbl ! (j * ne))"
      by blast
  next
    assume "\<exists>i < N. p = i * ne \<and> tbl ! (i * ne) \<le> c \<and> (\<forall>j. i < j \<longrightarrow> j < N \<longrightarrow> c < tbl ! (j * ne))"
    then obtain k where k: "k < N" "p = k * ne" "tbl ! (k * ne) \<le> c" "\<forall>j. k < j \<longrightarrow> j < N \<longrightarrow> c < tbl ! (j * ne)"
      by blast
    then have "k = i" by (intro uniq)
    with k val show "rune_bsearch c tbl N ne = Some p" by simp
  qed
qed

subsection \<open>Against all rows\<close>

definition ranges_apart :: "u16 list \<Rightarrow> nat \<Rightarrow> bool" where
  "ranges_apart tbl ne \<longleftrightarrow> (let N = length tbl div ne in
     ascending tbl N ne \<and> 0 < N \<and>
     (\<forall>i j. i < j \<longrightarrow> j < N \<longrightarrow> tbl ! (i * ne + 1) < tbl ! (j * ne)))"

lemma in_row2_iff:
  assumes "ranges_apart tbl ne"
  shows "in_row2 c tbl ne = Some p \<longleftrightarrow>
     (\<exists>i < length tbl div ne. p = i * ne \<and> tbl ! (i * ne) \<le> c \<and> c \<le> tbl ! (i * ne + 1))"
proof -
  let ?N = "length tbl div ne"
  have asc: "ascending tbl ?N ne" and N: "0 < ?N"
    and apart: "\<And>i j. i < j \<Longrightarrow> j < ?N \<Longrightarrow> tbl ! (i * ne + 1) < tbl ! (j * ne)"
    using assms by (simp_all add: ranges_apart_def Let_def)
  have "in_row2 c tbl ne = Some p \<longleftrightarrow> rune_bsearch c tbl ?N ne = Some p \<and> tbl ! p \<le> c \<and> c \<le> tbl ! (p + 1)"
    by (auto simp: in_row2_def split: option.splits)
  also have "\<dots> \<longleftrightarrow> (\<exists>i < ?N. p = i * ne \<and> tbl ! (i * ne) \<le> c \<and> c \<le> tbl ! (i * ne + 1))"
    unfolding rune_bsearch_some [OF asc N] using apart by (auto intro: le_less_trans)
  finally show ?thesis .
qed

lemma in_row1_iff:
  assumes "ascending tbl (length tbl div ne) ne" "0 < length tbl div ne"
  shows "in_row1 c tbl ne = Some p \<longleftrightarrow> (\<exists>i < length tbl div ne. p = i * ne \<and> c = tbl ! (i * ne))"
proof -
  have "in_row1 c tbl ne = Some p \<longleftrightarrow> rune_bsearch c tbl (length tbl div ne) ne = Some p \<and> c = tbl ! p"
    by (auto simp: in_row1_def split: option.splits)
  also have "\<dots> \<longleftrightarrow> (\<exists>i < length tbl div ne. p = i * ne \<and> c = tbl ! (i * ne))"
    unfolding rune_bsearch_some [OF assms] using assms(1) by (auto simp: ascending_def)
  finally show ?thesis .
qed

subsection \<open>The tables are in order\<close>

fun rows2 :: "'a list \<Rightarrow> ('a \<times> 'a) list" where
  "rows2 (a # b # xs) = (a, b) # rows2 xs"
| "rows2 xs = []"

fun rows3 :: "'a list \<Rightarrow> ('a \<times> 'a \<times> 'a) list" where
  "rows3 (a # b # c # xs) = (a, b, c) # rows3 xs"
| "rows3 xs = []"

lemma length_rows2 [simp]: "length (rows2 xs) = length xs div 2"
  by (induction xs rule: rows2.induct) simp_all

lemma length_rows3 [simp]: "length (rows3 xs) = length xs div 3"
  by (induction xs rule: rows3.induct) simp_all

lemma nth_rows2: "i < length xs div 2 \<Longrightarrow> rows2 xs ! i = (xs ! (i * 2), xs ! (i * 2 + 1))"
proof (induction xs arbitrary: i rule: rows2.induct)
  case (1 a b xs)
  then show ?case by (cases i) simp_all
qed simp_all

lemma nth_rows3: "i < length xs div 3 \<Longrightarrow> rows3 xs ! i = (xs ! (i * 3), xs ! (i * 3 + 1), xs ! (i * 3 + 2))"
proof (induction xs arbitrary: i rule: rows3.induct)
  case (1 a b c xs)
  show ?case
  proof (cases i)
    case (Suc j)
    have "i * 3 = Suc (Suc (Suc (j * 3)))" using Suc by simp
    moreover have "j < length xs div 3" using 1(2) Suc by simp
    ultimately show ?thesis using 1(1) [of j] Suc by simp
  qed simp
qed simp_all

definition before :: "u16 \<times> u16 \<Rightarrow> u16 \<times> u16 \<Rightarrow> bool" where
  "before = (\<lambda>(a, b) (c, d). a \<le> b \<and> b < c \<and> c \<le> d)"

lemma transp_before: "transp before"
  by (rule transpI) (auto simp: before_def)

lemma apart_rows2:
  assumes "successively before (rows2 tbl)" "rows2 tbl \<noteq> []"
  shows "ranges_apart tbl 2"
proof -
  have "sorted_wrt before (rows2 tbl)"
    using assms(1) successively_conv_sorted_wrt [OF transp_before] by blast
  then have *: "before (rows2 tbl ! i) (rows2 tbl ! j)" if "i < j" "j < length tbl div 2" for i j
    using that by (simp add: sorted_wrt_iff_nth_less)
  then have "tbl ! (i * 2 + 1) < tbl ! (j * 2) \<and> tbl ! (i * 2) < tbl ! (j * 2)"
    if "i < j" "j < length tbl div 2" for i j
    using *[OF that] nth_rows2 [of i tbl] nth_rows2 [of j tbl] that by (auto simp: before_def)
  moreover have "0 < length tbl div 2" using assms(2) by (metis length_greater_0_conv length_rows2)
  ultimately show ?thesis unfolding ranges_apart_def ascending_def Let_def by blast
qed

lemma apart_rows3:
  assumes "successively before (map (\<lambda>(a, b, c). (a, b)) (rows3 tbl))" "rows3 tbl \<noteq> []"
  shows "ranges_apart tbl 3"
proof -
  let ?r = "map (\<lambda>(a, b, c). (a, b)) (rows3 tbl)"
  have "sorted_wrt before ?r"
    using assms(1) successively_conv_sorted_wrt [OF transp_before] by blast
  then have *: "before (?r ! i) (?r ! j)" if "i < j" "j < length tbl div 3" for i j
    using that by (simp add: sorted_wrt_iff_nth_less)
  then have "tbl ! (i * 3 + 1) < tbl ! (j * 3) \<and> tbl ! (i * 3) < tbl ! (j * 3)"
    if "i < j" "j < length tbl div 3" for i j
    using *[OF that] nth_rows3 [of i tbl] nth_rows3 [of j tbl] that by (auto simp: before_def)
  moreover have "0 < length tbl div 3" using assms(2) by (metis length_greater_0_conv length_rows3)
  ultimately show ?thesis unfolding ranges_apart_def ascending_def Let_def by blast
qed

lemma ascending_rows2:
  assumes "successively (<) (map fst (rows2 tbl))"
  shows "ascending tbl (length tbl div 2) 2"
proof -
  have "sorted_wrt (<) (map fst (rows2 tbl))"
    using assms successively_conv_sorted_wrt [of "(<) :: u16 \<Rightarrow> u16 \<Rightarrow> bool"] by (simp add: transp_on_less)
  then show ?thesis
    unfolding ascending_def by (auto simp: sorted_wrt_iff_nth_less nth_rows2)
qed

lemma ascending_rows1:
  assumes "successively (<) tbl"
  shows "ascending tbl (length tbl div 1) 1"
proof -
  have "sorted_wrt (<) tbl"
    using assms successively_conv_sorted_wrt [of "(<) :: u16 \<Rightarrow> u16 \<Rightarrow> bool"] by (simp add: transp_on_less)
  then show ?thesis
    unfolding ascending_def by (auto simp: sorted_wrt_iff_nth_less)
qed

lemma space2_apart: "ranges_apart space2 2"
  by (rule apart_rows2) code_simp+

lemma alpha2_apart: "ranges_apart alpha2 2"
  by (rule apart_rows2) code_simp+

lemma tolower2_apart: "ranges_apart tolower2 3"
  by (rule apart_rows3) code_simp+

lemma toupper2_apart: "ranges_apart toupper2 3"
  by (rule apart_rows3) code_simp+

lemma alpha1_ascending: "ascending alpha1 (length alpha1 div 1) 1"
  by (rule ascending_rows1) code_simp

lemma toupper1_ascending: "ascending toupper1 (length toupper1 div 2) 2"
  by (rule ascending_rows2) code_simp

lemma tolower1_ascending: "ascending tolower1 (length tolower1 div 2) 2"
  by (rule ascending_rows2) code_simp

subsection \<open>Every function against its table\<close>

lemma in_row2_rows2:
  assumes "ranges_apart tbl 2"
  shows "in_row2 c tbl 2 \<noteq> None \<longleftrightarrow> (\<exists>(a, b) \<in> set (rows2 tbl). a \<le> c \<and> c \<le> b)"
proof -
  have "in_row2 c tbl 2 \<noteq> None \<longleftrightarrow> (\<exists>i < length (rows2 tbl). fst (rows2 tbl ! i) \<le> c \<and> c \<le> snd (rows2 tbl ! i))"
    using in_row2_iff [OF assms] nth_rows2 [of _ tbl] by (auto simp: not_None_eq)
  also have "\<dots> \<longleftrightarrow> (\<exists>x \<in> set (rows2 tbl). fst x \<le> c \<and> c \<le> snd x)"
    unfolding in_set_conv_nth Bex_def by blast
  finally show ?thesis by (simp add: case_prod_unfold)
qed

lemma in_row1_rows2:
  assumes "ascending tbl (length tbl div 2) 2" "0 < length tbl div 2"
  shows "in_row1 c tbl 2 \<noteq> None \<longleftrightarrow> c \<in> fst ` set (rows2 tbl)"
proof -
  have "in_row1 c tbl 2 \<noteq> None \<longleftrightarrow> (\<exists>i < length (rows2 tbl). c = fst (rows2 tbl ! i))"
    using in_row1_iff [OF assms] nth_rows2 [of _ tbl] by (auto simp: not_None_eq)
  also have "\<dots> \<longleftrightarrow> c \<in> fst ` set (rows2 tbl)"
    unfolding in_set_conv_nth image_iff Bex_def by blast
  finally show ?thesis .
qed

lemma in_row1_rows1:
  assumes "ascending tbl (length tbl div 1) 1" "0 < length tbl div 1"
  shows "in_row1 c tbl 1 \<noteq> None \<longleftrightarrow> c \<in> set tbl"
  using in_row1_iff [OF assms] by (auto simp: not_None_eq in_set_conv_nth)

text \<open>The conversion of a rune: of the range it lies in, else of its own entry, else none.\<close>

definition conversion :: "u16 list \<Rightarrow> u16 list \<Rightarrow> rune \<Rightarrow> rune" where
  "conversion t2 t1 c =
     (case find (\<lambda>(a, b, d). a \<le> c \<and> c \<le> b) (rows3 t2) of
        Some (a, b, d) \<Rightarrow> c + d - 500
      | None \<Rightarrow> (case map_of (rows2 t1) c of Some d \<Rightarrow> c + d - 500 | None \<Rightarrow> c))"

lemma in_row2_find:
  assumes ap: "ranges_apart tbl 3"
  shows "map_option (\<lambda>p. tbl ! (p + 2)) (in_row2 c tbl 3) =
     map_option (\<lambda>(a, b, d). d) (find (\<lambda>(a, b, d). a \<le> c \<and> c \<le> b) (rows3 tbl))"
proof (cases "in_row2 c tbl 3")
  case None
  have "\<not> (tbl ! (i * 3) \<le> c \<and> c \<le> tbl ! (i * 3 + 1))" if "i < length tbl div 3" for i
    using in_row2_iff [OF ap, of c "i * 3"] that None by auto
  then have "find (\<lambda>(a, b, d). a \<le> c \<and> c \<le> b) (rows3 tbl) = None"
    unfolding find_None_iff by (auto simp: in_set_conv_nth nth_rows3)
  with None show ?thesis by simp
next
  case (Some p)
  then obtain i where i: "i < length tbl div 3" "p = i * 3" "tbl ! (i * 3) \<le> c" "c \<le> tbl ! (i * 3 + 1)"
    using in_row2_iff [OF ap] by blast
  have "\<not> (tbl ! (j * 3) \<le> c \<and> c \<le> tbl ! (j * 3 + 1))" if "j < i" for j
    using ap that i(1,3) by (fastforce simp: ranges_apart_def Let_def)
  then have "find (\<lambda>(a, b, d). a \<le> c \<and> c \<le> b) (rows3 tbl) = Some (rows3 tbl ! i)"
    unfolding find_Some_iff using i by (intro exI [of _ i]) (auto simp: nth_rows3)
  with Some i(1,2) show ?thesis by (simp add: nth_rows3)
qed

lemma map_of_rows2:
  assumes asc: "ascending tbl (length tbl div 2) 2" "0 < length tbl div 2"
  shows "map_option (\<lambda>p. tbl ! (p + 1)) (in_row1 c tbl 2) = map_of (rows2 tbl) c"
proof -
  have "sorted_wrt (<) (map fst (rows2 tbl))"
    using asc(1) unfolding ascending_def by (auto simp: sorted_wrt_iff_nth_less nth_rows2)
  then have dist: "distinct (map fst (rows2 tbl))" by (simp add: strict_sorted_iff)
  show ?thesis
  proof (cases "in_row1 c tbl 2")
    case None
    then have "c \<notin> fst ` set (rows2 tbl)" using in_row1_rows2 [OF asc, of c] by simp
    with None show ?thesis by (simp add: map_of_eq_None_iff [THEN iffD2])
  next
    case (Some p)
    then obtain i where i: "i < length tbl div 2" "p = i * 2" "c = tbl ! (i * 2)"
      using in_row1_iff [OF asc] by blast
    then have "(c, tbl ! (i * 2 + 1)) \<in> set (rows2 tbl)"
      using nth_rows2 [of i tbl] by (metis length_rows2 nth_mem)
    with Some i(2) dist show ?thesis by simp
  qed
qed

lemma conversion_eq:
  assumes "ranges_apart t2 3" "ascending t1 (length t1 div 2) 2" "0 < length t1 div 2"
  shows "(case in_row2 c t2 3 of Some p \<Rightarrow> c + t2 ! (p + 2) - 500
     | None \<Rightarrow> (case in_row1 c t1 2 of Some p \<Rightarrow> c + t1 ! (p + 1) - 500 | None \<Rightarrow> c)) = conversion t2 t1 c"
  using in_row2_find [OF assms(1), of c] map_of_rows2 [OF assms(2,3), of c, symmetric]
  by (auto simp: conversion_def split: option.splits)

lemma tables_nonempty: "0 < length alpha1 div 1" "0 < length toupper1 div 2" "0 < length tolower1 div 2"
  by code_simp+

lemma tolowerrune_conversion: "tolowerrune c = conversion tolower2 tolower1 c"
  unfolding tolowerrune_def by (rule conversion_eq [OF tolower2_apart tolower1_ascending tables_nonempty(3)])

lemma toupperrune_conversion: "toupperrune c = conversion toupper2 toupper1 c"
  unfolding toupperrune_def by (rule conversion_eq [OF toupper2_apart toupper1_ascending tables_nonempty(2)])

lemma isspacerune_rows: "isspacerune c \<longleftrightarrow> (\<exists>(a, b) \<in> set (rows2 space2). a \<le> c \<and> c \<le> b)"
  unfolding isspacerune_def by (rule in_row2_rows2 [OF space2_apart])

lemma in_row2_rows3:
  assumes "ranges_apart tbl 3"
  shows "in_row2 c tbl 3 \<noteq> None \<longleftrightarrow> (\<exists>(a, b, d) \<in> set (rows3 tbl). a \<le> c \<and> c \<le> b)"
proof -
  have "in_row2 c tbl 3 \<noteq> None \<longleftrightarrow> find (\<lambda>(a, b, d). a \<le> c \<and> c \<le> b) (rows3 tbl) \<noteq> None"
    using in_row2_find [OF assms, of c] by (metis map_option_is_None)
  then show ?thesis by (auto simp: find_None_iff)
qed

lemma isalpharune_rows:
  "isalpharune c \<longleftrightarrow>
     (\<exists>(a, b, d) \<in> set (rows3 tolower2 @ rows3 toupper2). a \<le> c \<and> c \<le> b) \<or>
     c \<in> fst ` set (rows2 tolower1 @ rows2 toupper1) \<or>
     (\<exists>(a, b) \<in> set (rows2 alpha2). a \<le> c \<and> c \<le> b) \<or> c \<in> set alpha1"
  unfolding isalpharune_def isupperrune_def islowerrune_def
    in_row2_rows3 [OF tolower2_apart] in_row2_rows3 [OF toupper2_apart] in_row2_rows2 [OF alpha2_apart]
    in_row1_rows2 [OF tolower1_ascending tables_nonempty(3)] in_row1_rows2 [OF toupper1_ascending tables_nonempty(2)]
    in_row1_rows1 [OF alpha1_ascending tables_nonempty(1)]
  by auto

end
