(* ===== verification/Slre.thy ===== *)
theory Slre
  imports UtfClasses Escapes
begin

text \<open>
  The compiler of regular expressions (\<open>slre.c\<close> of \<open>v7/v7.c\<close>): lexer, recursive descent parser and generation of
  instructions. A \<open>longjmp\<close> with an error code is an \<open>Inl\<close>. The pattern is the memory from its first byte on,
  which may go on after its end; a read beyond what is known of it and a write beyond the buffers of nodes and
  instructions have no result. Pointers to nodes are trees (a node is not changed once it is complete), and
  \<open>NULL\<close> is one of them. The code uses the results of \<open>malloc\<close> without a check, so memory is taken to be there.
\<close>

subsection \<open>Error codes and limits\<close>

definition SLRE_OK :: int where "SLRE_OK = 0"
definition SLRE_INVALID_DEC_DIGIT :: int where "SLRE_INVALID_DEC_DIGIT = 1"
definition SLRE_SYNTAX_ERROR :: int where "SLRE_SYNTAX_ERROR = 5"
definition SLRE_UNMATCH_LBR :: int where "SLRE_UNMATCH_LBR = 6"
definition SLRE_UNMATCH_RBR :: int where "SLRE_UNMATCH_RBR = 7"
definition SLRE_NUM_OVERFLOW :: int where "SLRE_NUM_OVERFLOW = 8"
definition SLRE_INF_LOOP_M_EMP_STR :: int where "SLRE_INF_LOOP_M_EMP_STR = 9"
definition SLRE_TOO_MANY_CHARSETS :: int where "SLRE_TOO_MANY_CHARSETS = 10"
definition SLRE_INV_CHARSET_RANGE :: int where "SLRE_INV_CHARSET_RANGE = 11"
definition SLRE_CHARSET_TOO_LARGE :: int where "SLRE_CHARSET_TOO_LARGE = 12"
definition SLRE_MALFORMED_CHARSET :: int where "SLRE_MALFORMED_CHARSET = 13"
definition SLRE_INVALID_BACK_REFERENCE :: int where "SLRE_INVALID_BACK_REFERENCE = 14"
definition SLRE_TOO_MANY_CAPTURES :: int where "SLRE_TOO_MANY_CAPTURES = 15"
definition SLRE_INVALID_QUANTIFIER :: int where "SLRE_INVALID_QUANTIFIER = 16"
definition SLRE_BAD_CHAR_AFTER_USD :: int where "SLRE_BAD_CHAR_AFTER_USD = 17"

definition SLRE_MAX_RANGES :: nat where "SLRE_MAX_RANGES = 32"
definition SLRE_MAX_SETS :: nat where "SLRE_MAX_SETS = 16"
definition SLRE_MAX_REP :: u16 where "SLRE_MAX_REP = 0xFFFF"
definition SLRE_MAX_CAPS :: nat where "SLRE_MAX_CAPS = 32"

definition SLRE_FLAG_G :: u32 where "SLRE_FLAG_G = 1"
definition SLRE_FLAG_I :: u32 where "SLRE_FLAG_I = 2"
definition SLRE_FLAG_M :: u32 where "SLRE_FLAG_M = 4"
definition SLRE_FLAG_RE :: u32 where "SLRE_FLAG_RE = 8"

type_synonym slre_class = "(rune \<times> rune) list"

datatype slre_node =
    NULL_node
  | P_ALT slre_node slre_node | P_ANY | P_BOL | P_BRA slre_node nat | P_CAT slre_node slre_node | P_CH rune
  | P_EOL | P_EOS | P_LA slre_node | P_LA_N slre_node | P_REF slre_node nat
  | P_REP slre_node bool u16 u16 | P_SET slre_class | P_SET_N slre_class | P_WORD | P_WORD_N

text \<open>The lookahead: a character (0 is the end) or one of the constants from \<open>L_CH\<close> on.\<close>

datatype lexeme =
    Sym rune | L_CH | L_COUNT | L_EOS | L_LA | L_LA_CAP | L_LA_N | L_REF | L_CHSET | L_SET_N | L_WORD | L_WORD_N

record pattern =
  is_regex :: bool
  pat :: "u8 list"
  src_end :: nat
  nodes_max :: nat

record slre_env =
  src :: nat
  curr_rune :: rune
  pend :: nat
  caps_nd :: "slre_node list"
  num_captures :: nat
  sets_num :: nat
  lookahead :: lexeme
  curr_set :: slre_class
  min_rep :: int
  max_rep :: int

type_synonym 'a re = "(int + 'a) option"

definition SLRE_THROW :: "int \<Rightarrow> 'a re" where "SLRE_THROW err = Some (Inl err)"

definition ok :: "'a \<Rightarrow> 'a re" where "ok x = Some (Inr x)"

definition seq :: "'a re \<Rightarrow> ('a \<Rightarrow> 'b re) \<Rightarrow> 'b re" where
  "seq m f = (case m of None \<Rightarrow> None | Some (Inl err) \<Rightarrow> Some (Inl err) | Some (Inr x) \<Rightarrow> f x)"

subsection \<open>Characters of the pattern\<close>

text \<open>\<open>dec\<close> answers the error code without a minus sign, so \<open>re_dec_digit\<close> never throws.\<close>

definition dec :: "int \<Rightarrow> int" where
  "dec c = (if isdigitrune (word_of_int c) then c - 48 else SLRE_INVALID_DEC_DIGIT)"

definition re_dec_digit :: "int \<Rightarrow> int re" where
  "re_dec_digit c = (if dec c < 0 then SLRE_THROW SLRE_INVALID_DEC_DIGIT else ok (dec c))"

text \<open>Whether the character was escaped, the character, and where the next one starts.\<close>

definition re_nextc :: "u8 list \<Rightarrow> nat \<Rightarrow> nat \<Rightarrow> (bool \<times> rune \<times> nat) option" where
  "re_nextc text s s_end =
     (if s \<ge> s_end then Some (False, 0, s)
      else
        do { (r, k) \<leftarrow> chartorune (drop s text);
             if r = 92
             then
               do { (i, j) \<leftarrow> nextesc (drop (s + k) text);
                    if i = - SLRE_INVALID_ESC_CHAR
                    then do { (r, l) \<leftarrow> chartorune (drop (s + k) text); Some (True, r, s + k + l) }
                    else Some (True, word_of_int i, s + k + j) }
             else Some (False, r, s + k) })"

definition re_nextc_raw :: "u8 list \<Rightarrow> nat \<Rightarrow> nat \<Rightarrow> (rune \<times> nat) option" where
  "re_nextc_raw text s s_end =
     (if s \<ge> s_end then Some (0, s) else do { (r, k) \<leftarrow> chartorune (drop s text); Some (r, s + k) })"

definition re_nextc_env :: "pattern \<Rightarrow> slre_env \<Rightarrow> (bool \<times> slre_env) re" where
  "re_nextc_env p e =
     do { (esc, r, s) \<leftarrow> re_nextc (pat p) (src e) (src_end p); ok (esc, e\<lparr>curr_rune := r, src := s\<rparr>) }"

subsection \<open>Character classes\<close>

definition re_nchset :: "slre_env \<Rightarrow> slre_env re" where
  "re_nchset e =
     (if sets_num e \<ge> SLRE_MAX_SETS then SLRE_THROW SLRE_TOO_MANY_CHARSETS
      else ok (e\<lparr>curr_set := [], sets_num := sets_num e + 1\<rparr>))"

definition re_rng2set :: "rune \<Rightarrow> rune \<Rightarrow> slre_env \<Rightarrow> slre_env re" where
  "re_rng2set s t e =
     (if s > t then SLRE_THROW SLRE_INV_CHARSET_RANGE
      else if length (curr_set e) + 2 = SLRE_MAX_RANGES then SLRE_THROW SLRE_CHARSET_TOO_LARGE
      else ok (e\<lparr>curr_set := curr_set e @ [(s, t)]\<rparr>))"

definition re_char2set :: "rune \<Rightarrow> slre_env \<Rightarrow> slre_env re" where "re_char2set c e = re_rng2set c c e"

definition re_d_2set :: "slre_env \<Rightarrow> slre_env re" where "re_d_2set e = re_rng2set 48 57 e"

definition re_D_2set :: "slre_env \<Rightarrow> slre_env re" where
  "re_D_2set e = seq (re_rng2set 0 47 e) (re_rng2set 58 0xFFFF)"

definition re_s_2set :: "slre_env \<Rightarrow> slre_env re" where
  "re_s_2set e =
     seq (re_char2set 0x9 e) (\<lambda>e. seq (re_rng2set 0xA 0xD e) (\<lambda>e. seq (re_char2set 0x20 e) (\<lambda>e.
     seq (re_char2set 0xA0 e) (\<lambda>e. seq (re_rng2set 0x2028 0x2029 e) (re_char2set 0xFEFF)))))"

definition re_S_2set :: "slre_env \<Rightarrow> slre_env re" where
  "re_S_2set e =
     seq (re_rng2set 0 8 e) (\<lambda>e. seq (re_rng2set 14 31 e) (\<lambda>e. seq (re_rng2set 33 0x9F e) (\<lambda>e.
     seq (re_rng2set 0xA1 0x2027 e) (\<lambda>e. seq (re_rng2set 0x202A 0xFEFE e) (re_rng2set 0xFF00 0xFFFF)))))"

definition re_w_2set :: "slre_env \<Rightarrow> slre_env re" where
  "re_w_2set e =
     seq (re_d_2set e) (\<lambda>e. seq (re_rng2set 65 90 e) (\<lambda>e. seq (re_char2set 95 e) (re_rng2set 97 122)))"

definition re_W_2set :: "slre_env \<Rightarrow> slre_env re" where
  "re_W_2set e =
     seq (re_rng2set 0 47 e) (\<lambda>e. seq (re_rng2set 58 64 e) (\<lambda>e. seq (re_rng2set 91 94 e) (\<lambda>e.
     seq (re_rng2set 96 96 e) (re_rng2set 123 0xFFFF))))"

text \<open>The class of a letter after a backslash; other characters add nothing.\<close>

definition class_2set :: "rune \<Rightarrow> slre_env \<Rightarrow> slre_env re" where
  "class_2set c e =
     (if c = 68 then re_D_2set e else if c = 100 then re_d_2set e else if c = 83 then re_S_2set e
      else if c = 115 then re_s_2set e else if c = 87 then re_W_2set e else if c = 119 then re_w_2set e else ok e)"

text \<open>\<open>strchr("DdSsWw", c)\<close> looks for the character of the low byte of \<open>c\<close>, and finds the final zero too.\<close>

definition class_letter :: "rune \<Rightarrow> bool" where
  "class_letter c \<longleftrightarrow> (ucast c :: u8) \<in> set [68, 100, 83, 115, 87, 119, 0]"

text \<open>The body of the loop of \<open>re_lexset\<close>, with \<open>ch\<close>, \<open>ch_fl\<close> and \<open>dash_fl\<close>.\<close>

definition lexset_item :: "bool \<Rightarrow> rune \<times> bool \<times> bool \<Rightarrow> slre_env \<Rightarrow> ((rune \<times> bool \<times> bool) \<times> slre_env) re" where
  "lexset_item esc st e =
     (case st of (ch, ch_fl, dash_fl) \<Rightarrow>
      if esc \<and> class_letter (curr_rune e)
      then
        seq (if ch_fl then seq (re_char2set ch e) (\<lambda>e. if dash_fl then re_char2set 45 e else ok e) else ok e) (\<lambda>e.
        seq (class_2set (curr_rune e) e) (\<lambda>e. ok ((ch, False, False), e)))
      else if \<not> esc \<and> curr_rune e = 45
      then
        if ch_fl
        then if dash_fl then seq (re_rng2set ch 45 e) (\<lambda>e. ok ((ch, False, False), e)) else ok ((ch, ch_fl, True), e)
        else ok ((45, True, dash_fl), e)
      else
        let r = (if esc \<and> curr_rune e = 48 then 0 else if esc \<and> curr_rune e = 98 then 8 else curr_rune e);
            e = e\<lparr>curr_rune := r\<rparr>
        in if ch_fl
           then if dash_fl then seq (re_rng2set ch r e) (\<lambda>e. ok ((ch, False, False), e))
                else seq (re_char2set ch e) (\<lambda>e. ok ((r, ch_fl, dash_fl), e))
           else ok ((r, True, dash_fl), e))"

text \<open>The loop takes a character each time and throws at the end of the pattern: \<open>src_end + 2\<close> rounds are enough.\<close>

fun lexset_loop ::
  "nat \<Rightarrow> pattern \<Rightarrow> bool \<Rightarrow> rune \<times> bool \<times> bool \<Rightarrow> slre_env \<Rightarrow> ((rune \<times> bool \<times> bool) \<times> slre_env) re" where
  "lexset_loop 0 p esc st e = None"
| "lexset_loop (Suc n) p esc st e =
     (if \<not> esc \<and> curr_rune e = 93 then ok (st, e)
      else if curr_rune e = 0 then SLRE_THROW SLRE_MALFORMED_CHARSET
      else seq (lexset_item esc st e) (\<lambda>(st, e). seq (re_nextc_env p e) (\<lambda>(esc, e). lexset_loop n p esc st e)))"

definition re_lexset :: "pattern \<Rightarrow> slre_env \<Rightarrow> (lexeme \<times> slre_env) re" where
  "re_lexset p e =
     seq (re_nchset e) (\<lambda>e.
     seq (re_nextc_env p e) (\<lambda>(esc, e).
     seq (if \<not> esc \<and> curr_rune e = 94 then seq (re_nextc_env p e) (\<lambda>(esc, e). ok (L_SET_N, esc, e)) else ok (L_CHSET, esc, e)) (\<lambda>(type, esc, e).
     seq (lexset_loop (src_end p + 2) p esc (0, False, False) e) (\<lambda>((ch, ch_fl, dash_fl), e).
     if ch_fl then seq (re_char2set ch e) (\<lambda>e. seq (if dash_fl then re_char2set 45 e else ok e) (\<lambda>e. ok (type, e)))
     else ok (type, e)))))"

subsection \<open>Counts\<close>

definition re_endofcount :: "rune \<Rightarrow> bool" where "re_endofcount c \<longleftrightarrow> c = 44 \<or> c = 125"

text \<open>\<open>*e->src++\<close> as a \<open>Rune\<close>: a \<open>char\<close> is signed.\<close>

definition src_byte :: "pattern \<Rightarrow> slre_env \<Rightarrow> slre_env re" where
  "src_byte p e = do { b \<leftarrow> byte_at (pat p) (src e); ok (e\<lparr>curr_rune := scast b, src := src e + 1\<rparr>) }"

fun count_min :: "nat \<Rightarrow> pattern \<Rightarrow> slre_env \<Rightarrow> slre_env re" where
  "count_min 0 p e = None"
| "count_min (Suc n) p e =
     (if src e < src_end p
      then
        seq (src_byte p e) (\<lambda>e.
        if re_endofcount (curr_rune e) then ok e
        else
          seq (re_dec_digit (uint (curr_rune e))) (\<lambda>d.
          let m = min_rep e * 10 + d in
          if m \<ge> uint SLRE_MAX_REP then SLRE_THROW SLRE_NUM_OVERFLOW else count_min n p (e\<lparr>min_rep := m\<rparr>)))
      else ok e)"

fun count_max :: "nat \<Rightarrow> pattern \<Rightarrow> slre_env \<Rightarrow> slre_env re" where
  "count_max 0 p e = None"
| "count_max (Suc n) p e =
     (if src e < src_end p
      then
        seq (src_byte p e) (\<lambda>e.
        if curr_rune e = 125 then ok e
        else
          seq (re_dec_digit (uint (curr_rune e))) (\<lambda>d.
          let m = max_rep e * 10 + d in
          if m \<ge> uint SLRE_MAX_REP then SLRE_THROW SLRE_NUM_OVERFLOW else count_max n p (e\<lparr>max_rep := m\<rparr>)))
      else ok e)"

definition re_countrep :: "pattern \<Rightarrow> slre_env \<Rightarrow> (lexeme \<times> slre_env) re" where
  "re_countrep p e =
     seq (count_min (src_end p + 1) p (e\<lparr>min_rep := 0\<rparr>)) (\<lambda>e.
     if curr_rune e \<noteq> 44 then ok (L_COUNT, e\<lparr>max_rep := min_rep e\<rparr>)
     else
       seq (count_max (src_end p + 1) p (e\<lparr>max_rep := 0\<rparr>)) (\<lambda>e.
       ok (L_COUNT, if max_rep e = 0 then e\<lparr>max_rep := uint SLRE_MAX_REP\<rparr> else e)))"

subsection \<open>The lexer\<close>

definition char_at :: "pattern \<Rightarrow> nat \<Rightarrow> u8 re" where
  "char_at p s = map_option Inr (byte_at (pat p) s)"

definition re_lexer :: "pattern \<Rightarrow> slre_env \<Rightarrow> (lexeme \<times> slre_env) re" where
  "re_lexer p e =
     seq (re_nextc_env p e) (\<lambda>(esc, e).
     let c = curr_rune e in
     if esc then
       if c = 48 then ok (L_EOS, e\<lparr>curr_rune := 0\<rparr>)
       else if c = 98 then ok (L_WORD, e)
       else if c = 66 then ok (L_WORD_N, e)
       else if c = 100 then seq (seq (re_nchset e) re_d_2set) (\<lambda>e. ok (L_CHSET, e))
       else if c = 68 then seq (seq (re_nchset e) re_d_2set) (\<lambda>e. ok (L_SET_N, e))
       else if c = 115 then seq (seq (re_nchset e) re_s_2set) (\<lambda>e. ok (L_CHSET, e))
       else if c = 83 then seq (seq (re_nchset e) re_s_2set) (\<lambda>e. ok (L_SET_N, e))
       else if c = 119 then seq (seq (re_nchset e) re_w_2set) (\<lambda>e. ok (L_CHSET, e))
       else if c = 87 then seq (seq (re_nchset e) re_w_2set) (\<lambda>e. ok (L_SET_N, e))
       else if isdigitrune c then
         seq (char_at p (src e)) (\<lambda>b.
         if isdigitrune (scast b)
         then ok (L_REF, e\<lparr>curr_rune := (c - 48) * 10 + scast b - 48, src := src e + 1\<rparr>)
         else ok (L_REF, e\<lparr>curr_rune := c - 48\<rparr>))
       else ok (L_CH, e)
     else if is_regex p then
       if c \<in> set [0, 36, 41, 42, 43, 46, 63, 94, 124] then ok (Sym c, e)
       else if c = 123 then re_countrep p e
       else if c = 91 then re_lexset p e
       else if c = 40 then
         seq (char_at p (src e)) (\<lambda>b.
         if b = 63 then
           seq (char_at p (src e + 1)) (\<lambda>d.
           if d = 61 then ok (L_LA, e\<lparr>src := src e + 2\<rparr>)
           else if d = 58 then ok (L_LA_CAP, e\<lparr>src := src e + 2\<rparr>)
           else if d = 33 then ok (L_LA_N, e\<lparr>src := src e + 2\<rparr>)
           else ok (Sym 40, e))
         else ok (Sym 40, e))
       else ok (L_CH, e)
     else if c = 0 then ok (Sym 0, e)
     else ok (L_CH, e))"

definition RE_NEXT :: "pattern \<Rightarrow> slre_env \<Rightarrow> slre_env re" where
  "RE_NEXT p e = seq (re_lexer p e) (\<lambda>(t, e). ok (e\<lparr>lookahead := t\<rparr>))"

definition RE_ACCEPT :: "pattern \<Rightarrow> rune \<Rightarrow> slre_env \<Rightarrow> (bool \<times> slre_env) re" where
  "RE_ACCEPT p t e = (if lookahead e = Sym t then seq (RE_NEXT p e) (\<lambda>e. ok (True, e)) else ok (False, e))"

subsection \<open>The parser\<close>

definition re_nnode :: "pattern \<Rightarrow> slre_env \<Rightarrow> slre_env re" where
  "re_nnode p e = (if pend e < nodes_max p then ok (e\<lparr>pend := pend e + 1\<rparr>) else None)"

fun re_isemptynd :: "slre_node \<Rightarrow> bool" where
  "re_isemptynd NULL_node = True"
| "re_isemptynd P_ANY = False"
| "re_isemptynd (P_CH c) = False"
| "re_isemptynd (P_SET cp) = False"
| "re_isemptynd (P_SET_N cp) = False"
| "re_isemptynd (P_BRA x n) = re_isemptynd x"
| "re_isemptynd (P_REF x n) = re_isemptynd x"
| "re_isemptynd (P_CAT x y) = (re_isemptynd x \<and> re_isemptynd y)"
| "re_isemptynd (P_ALT x y) = (re_isemptynd x \<or> re_isemptynd y)"
| "re_isemptynd (P_REP x ng mn mx) = (re_isemptynd x \<or> mn = 0)"
| "re_isemptynd _ = True"

definition re_nrep :: "pattern \<Rightarrow> slre_node \<Rightarrow> bool \<Rightarrow> u16 \<Rightarrow> u16 \<Rightarrow> slre_env \<Rightarrow> (slre_node \<times> slre_env) re" where
  "re_nrep p nd ng mn mx e =
     seq (re_nnode p e) (\<lambda>e.
     if mx = SLRE_MAX_REP \<and> re_isemptynd nd then SLRE_THROW SLRE_INF_LOOP_M_EMP_STR
     else ok (P_REP nd ng mn mx, e))"

definition re_endofcat :: "lexeme \<Rightarrow> bool \<Rightarrow> bool" where
  "re_endofcat c re \<longleftrightarrow> c = Sym 0 \<or> (c = Sym 124 \<or> c = Sym 41) \<and> re"

text \<open>A node without children, for the lookahead that was read.\<close>

definition leaf :: "pattern \<Rightarrow> slre_node \<Rightarrow> slre_env \<Rightarrow> (slre_node \<times> slre_env) re" where
  "leaf p nd e = seq (re_nnode p e) (\<lambda>e. seq (RE_NEXT p e) (\<lambda>e. ok (nd, e)))"

text \<open>What ends a group.\<close>

definition closing :: "pattern \<Rightarrow> slre_env \<Rightarrow> slre_env re" where
  "closing p e = seq (RE_ACCEPT p 41 e) (\<lambda>(yes, e). if yes then ok e else SLRE_THROW SLRE_UNMATCH_LBR)"

text \<open>The quantifier after an atom.\<close>

definition quantified :: "pattern \<Rightarrow> slre_node \<Rightarrow> slre_env \<Rightarrow> (slre_node \<times> slre_env) re" where
  "quantified p nd e =
     (if lookahead e = Sym 42 then
        seq (RE_NEXT p e) (\<lambda>e. seq (RE_ACCEPT p 63 e) (\<lambda>(ng, e). re_nrep p nd ng 0 SLRE_MAX_REP e))
      else if lookahead e = Sym 43 then
        seq (RE_NEXT p e) (\<lambda>e. seq (RE_ACCEPT p 63 e) (\<lambda>(ng, e). re_nrep p nd ng 1 SLRE_MAX_REP e))
      else if lookahead e = Sym 63 then
        seq (RE_NEXT p e) (\<lambda>e. seq (RE_ACCEPT p 63 e) (\<lambda>(ng, e). re_nrep p nd ng 0 1 e))
      else if lookahead e = L_COUNT then
        (let mn = min_rep e; mx = max_rep e in
         seq (RE_NEXT p e) (\<lambda>e.
         if mx < mn then SLRE_THROW SLRE_INVALID_QUANTIFIER
         else seq (RE_ACCEPT p 63 e) (\<lambda>(ng, e). re_nrep p nd ng (word_of_int mn) (word_of_int mx) e)))
      else ok (nd, e))"

text \<open>A back reference; the array of groups has \<open>SLRE_MAX_CAPS\<close> elements.\<close>

definition back_reference :: "pattern \<Rightarrow> slre_env \<Rightarrow> (slre_node \<times> slre_env) re" where
  "back_reference p e =
     seq (re_nnode p e) (\<lambda>e.
     let n = unat (curr_rune e) in
     if n = 0 \<or> n > num_captures e then SLRE_THROW SLRE_INVALID_BACK_REFERENCE
     else if n \<ge> length (caps_nd e) then None
     else if caps_nd e ! n = NULL_node then SLRE_THROW SLRE_INVALID_BACK_REFERENCE
     else seq (RE_NEXT p e) (\<lambda>e'. ok (P_REF (caps_nd e ! n) n, e')))"

text \<open>
  The functions call each other once per token at most: the fuel is the depth. \<open>cat_loop\<close> is the loop of \<open>re_parser\<close>.
\<close>

fun re_parser :: "nat \<Rightarrow> pattern \<Rightarrow> slre_env \<Rightarrow> (slre_node \<times> slre_env) re"
  and cat_loop :: "nat \<Rightarrow> pattern \<Rightarrow> slre_node \<Rightarrow> slre_env \<Rightarrow> (slre_node \<times> slre_env) re"
  and re_parse_la :: "nat \<Rightarrow> pattern \<Rightarrow> slre_env \<Rightarrow> (slre_node \<times> slre_env) re" where
  "re_parser 0 p e = None"
| "re_parser (Suc n) p e =
     seq (if re_endofcat (lookahead e) (is_regex p) then ok (NULL_node, e)
          else seq (re_parse_la n p e) (\<lambda>(cat, e). cat_loop n p cat e)) (\<lambda>(alt, e).
     if lookahead e = Sym 124 then
       seq (RE_NEXT p e) (\<lambda>e. seq (re_nnode p e) (\<lambda>e. seq (re_parser n p e) (\<lambda>(y, e). ok (P_ALT alt y, e))))
     else ok (alt, e))"
| "cat_loop 0 p cat e = None"
| "cat_loop (Suc n) p cat e =
     (if re_endofcat (lookahead e) (is_regex p) then ok (cat, e)
      else seq (re_nnode p e) (\<lambda>e. seq (re_parse_la n p e) (\<lambda>(y, e). cat_loop n p (P_CAT cat y) e)))"
| "re_parse_la 0 p e = None"
| "re_parse_la (Suc n) p e =
     (case lookahead e of
        Sym c \<Rightarrow>
          if c = 94 then seq (RE_NEXT p e) (\<lambda>e. seq (re_nnode p e) (\<lambda>e. ok (P_BOL, e)))
          else if c = 36 then seq (RE_NEXT p e) (\<lambda>e. seq (re_nnode p e) (\<lambda>e. ok (P_EOL, e)))
          else if c = 46 then
            seq (RE_NEXT p e) (\<lambda>e. seq (re_nnode p e) (\<lambda>e. quantified p P_ANY e))
          else if c = 40 then
            seq (RE_NEXT p e) (\<lambda>e. seq (re_nnode p e) (\<lambda>e.
            let k = num_captures e in
            if k = SLRE_MAX_CAPS then SLRE_THROW SLRE_TOO_MANY_CAPTURES
            else
              seq (re_parser n p (e\<lparr>num_captures := k + 1\<rparr>)) (\<lambda>(x, e).
              let nd = P_BRA x k; e = e\<lparr>caps_nd := (caps_nd e)[k := nd]\<rparr> in
              seq (closing p e) (quantified p nd))))
          else SLRE_THROW SLRE_SYNTAX_ERROR
      | L_EOS \<Rightarrow> seq (RE_NEXT p e) (\<lambda>e. seq (re_nnode p e) (\<lambda>e. ok (P_EOS, e)))
      | L_WORD \<Rightarrow> seq (RE_NEXT p e) (\<lambda>e. seq (re_nnode p e) (\<lambda>e. ok (P_WORD, e)))
      | L_WORD_N \<Rightarrow> seq (RE_NEXT p e) (\<lambda>e. seq (re_nnode p e) (\<lambda>e. ok (P_WORD_N, e)))
      | L_CH \<Rightarrow> seq (leaf p (P_CH (curr_rune e)) e) (\<lambda>(nd, e). quantified p nd e)
      | L_CHSET \<Rightarrow> seq (leaf p (P_SET (curr_set e)) e) (\<lambda>(nd, e). quantified p nd e)
      | L_SET_N \<Rightarrow> seq (leaf p (P_SET_N (curr_set e)) e) (\<lambda>(nd, e). quantified p nd e)
      | L_REF \<Rightarrow> seq (back_reference p e) (\<lambda>(nd, e). quantified p nd e)
      | L_LA \<Rightarrow>
          seq (RE_NEXT p e) (\<lambda>e. seq (re_nnode p e) (\<lambda>e. seq (re_parser n p e) (\<lambda>(x, e).
          seq (closing p e) (quantified p (P_LA x)))))
      | L_LA_CAP \<Rightarrow>
          seq (RE_NEXT p e) (\<lambda>e. seq (re_parser n p e) (\<lambda>(x, e). seq (closing p e) (quantified p x)))
      | L_LA_N \<Rightarrow>
          seq (RE_NEXT p e) (\<lambda>e. seq (re_nnode p e) (\<lambda>e. seq (re_parser n p e) (\<lambda>(x, e).
          seq (closing p e) (quantified p (P_LA_N x)))))
      | L_COUNT \<Rightarrow> SLRE_THROW SLRE_SYNTAX_ERROR)"

subsection \<open>Instructions\<close>

text \<open>Targets are indices of instructions in the program.\<close>

datatype slre_instruction =
    I_END | I_ANY | I_ANYNL | I_BOL | I_CH rune | I_EOL | I_EOS | I_JUMP nat | I_LA nat nat | I_LA_N nat nat
  | I_LBRA nat | I_REF nat | I_REP nat u16 u16 | I_REP_INI u16 u16 | I_RBRA nat
  | I_SET slre_class | I_SET_N slre_class | I_SPLIT nat nat | I_WORD | I_WORD_N

fun re_nodelen :: "slre_node \<Rightarrow> nat" where
  "re_nodelen NULL_node = 0"
| "re_nodelen (P_ALT x y) = re_nodelen x + re_nodelen y + 2"
| "re_nodelen (P_CAT x y) = re_nodelen x + re_nodelen y"
| "re_nodelen (P_BRA x n) = re_nodelen x + 2"
| "re_nodelen (P_LA x) = re_nodelen x + 2"
| "re_nodelen (P_LA_N x) = re_nodelen x + 2"
| "re_nodelen (P_REP x ng mn mx) =
     (if mn = 0 \<and> mn = mx then 0
      else if mn = 0 \<and> mx \<ge> SLRE_MAX_REP then re_nodelen x + 2
      else if mn = 1 \<and> mn = mx then re_nodelen x
      else if mn = 1 \<and> mx \<ge> SLRE_MAX_REP then re_nodelen x + 1
      else if mx \<ge> SLRE_MAX_REP then re_nodelen x + 5 else re_nodelen x + 4)"
| "re_nodelen _ = 1"

text \<open>A new instruction in a buffer of \<open>m\<close> instructions, and one that is completed later.\<close>

definition re_newinst :: "nat \<Rightarrow> slre_instruction \<Rightarrow> slre_instruction list \<Rightarrow> slre_instruction list option" where
  "re_newinst m i P = (if length P < m then Some (P @ [i]) else None)"

definition split_at :: "bool \<Rightarrow> nat \<Rightarrow> nat \<Rightarrow> slre_instruction" where
  "split_at ng x y = (if ng then I_SPLIT y x else I_SPLIT x y)"

fun re_compile :: "nat \<Rightarrow> slre_node \<Rightarrow> slre_instruction list \<Rightarrow> slre_instruction list option" where
  "re_compile m NULL_node P = Some P"
| "re_compile m (P_ALT x y) P =
     do { let split = length P;
          P \<leftarrow> re_newinst m (I_SPLIT 0 0) P;
          P \<leftarrow> re_compile m x P;
          let jump = length P;
          P \<leftarrow> re_newinst m (I_JUMP 0) P;
          P \<leftarrow> re_compile m y P;
          Some (P[split := I_SPLIT (split + 1) (jump + 1), jump := I_JUMP (length P)]) }"
| "re_compile m P_ANY P = re_newinst m I_ANY P"
| "re_compile m P_BOL P = re_newinst m I_BOL P"
| "re_compile m (P_BRA x n) P =
     do { P \<leftarrow> re_newinst m (I_LBRA n) P; P \<leftarrow> re_compile m x P; re_newinst m (I_RBRA n) P }"
| "re_compile m (P_CAT x y) P = do { P \<leftarrow> re_compile m x P; re_compile m y P }"
| "re_compile m (P_CH c) P = re_newinst m (I_CH c) P"
| "re_compile m P_EOL P = re_newinst m I_EOL P"
| "re_compile m P_EOS P = re_newinst m I_EOS P"
| "re_compile m (P_LA x) P =
     do { let split = length P;
          P \<leftarrow> re_newinst m (I_LA 0 0) P;
          P \<leftarrow> re_compile m x P;
          P \<leftarrow> re_newinst m I_END P;
          Some (P[split := I_LA (split + 1) (length P)]) }"
| "re_compile m (P_LA_N x) P =
     do { let split = length P;
          P \<leftarrow> re_newinst m (I_LA_N 0 0) P;
          P \<leftarrow> re_compile m x P;
          P \<leftarrow> re_newinst m I_END P;
          Some (P[split := I_LA_N (split + 1) (length P)]) }"
| "re_compile m (P_REF x n) P = re_newinst m (I_REF n) P"
| "re_compile m (P_REP x ng mn mx) P =
     (let n = mx - mn in
      if mn = 0 \<and> n = 0 then Some P
      else if mn = 0 \<and> mx \<ge> SLRE_MAX_REP then
        do { let split = length P;
             P \<leftarrow> re_newinst m (I_SPLIT 0 0) P;
             P \<leftarrow> re_compile m x P;
             P \<leftarrow> re_newinst m (I_JUMP split) P;
             Some (P[split := split_at ng (split + 1) (length P)]) }
      else if mn = 1 \<and> n = 0 then re_compile m x P
      else if mn = 1 \<and> mx \<ge> SLRE_MAX_REP then
        do { let inst = length P;
             P \<leftarrow> re_compile m x P;
             let split = length P;
             P \<leftarrow> re_newinst m (I_SPLIT 0 0) P;
             Some (P[split := split_at ng inst (length P)]) }
      else
        do { P \<leftarrow> re_newinst m (I_REP_INI mn n) P;
             let rep = length P;
             P \<leftarrow> re_newinst m (I_REP 0 0 0) P;
             let split = length P;
             P \<leftarrow> re_newinst m (I_SPLIT 0 0) P;
             P \<leftarrow> re_compile m x P;
             P \<leftarrow> re_newinst m (I_JUMP rep) P;
             let P = P[rep := I_REP (length P) 0 0, split := split_at ng (split + 1) (length P)];
             if mx \<ge> SLRE_MAX_REP then
               do { let inst = split + 1;
                    let split = length P;
                    P \<leftarrow> re_newinst m (I_SPLIT 0 0) P;
                    Some (P[split := split_at ng inst (length P)]) }
             else Some P })"
| "re_compile m (P_SET cp) P = re_newinst m (I_SET cp) P"
| "re_compile m (P_SET_N cp) P = re_newinst m (I_SET_N cp) P"
| "re_compile m P_WORD P = re_newinst m I_WORD P"
| "re_compile m P_WORD_N P = re_newinst m I_WORD_N P"

subsection \<open>The compiler\<close>

record slre_prog =
  insts :: "slre_instruction list"
  prog_captures :: nat
  flags :: u32

fun flag_of :: "u8 \<Rightarrow> u32" where
  "flag_of c = (if c = 103 then SLRE_FLAG_G else if c = 105 then SLRE_FLAG_I else if c = 109 then SLRE_FLAG_M else 0)"

definition re_flags :: "u8 list \<Rightarrow> bool \<Rightarrow> u32" where
  "re_flags fl re = fold (\<lambda>c f. f OR flag_of c) (rev fl) (if re then SLRE_FLAG_RE else 0)"

text \<open>The nodes and the number of groups of a pattern of \<open>n\<close> bytes.\<close>

definition re_parse :: "u8 list \<Rightarrow> nat \<Rightarrow> bool \<Rightarrow> (slre_node \<times> slre_env) re" where
  "re_parse text n re =
     (let p = \<lparr>is_regex = re, pat = text, src_end = n, nodes_max = n * 2\<rparr>;
          e = \<lparr>src = 0, curr_rune = 0, pend = 0, caps_nd = replicate SLRE_MAX_CAPS NULL_node, num_captures = 1, sets_num = 0,
               lookahead = Sym 0, curr_set = [], min_rep = 0, max_rep = 0\<rparr>
      in seq (RE_NEXT p e) (\<lambda>e.
         seq (re_parser (2 * n + 3) p e) (\<lambda>(nd, e).
         if lookahead e = Sym 41 then SLRE_THROW SLRE_UNMATCH_RBR
         else if lookahead e \<noteq> Sym 0 then SLRE_THROW SLRE_SYNTAX_ERROR
         else ok (nd, e))))"

text \<open>The program starts with a loop that tries every position of the text.\<close>

definition re_program :: "slre_node \<Rightarrow> slre_instruction list option" where
  "re_program nd =
     (let m = re_nodelen nd + 6 in
      do { P \<leftarrow> re_newinst m (I_SPLIT 3 1) [];
           P \<leftarrow> re_newinst m I_ANYNL P;
           P \<leftarrow> re_newinst m (I_JUMP 0) P;
           P \<leftarrow> re_newinst m (I_LBRA 0) P;
           P \<leftarrow> re_compile m nd P;
           P \<leftarrow> re_newinst m (I_RBRA 0) P;
           re_newinst m I_END P })"

definition slre_compile :: "u8 list \<Rightarrow> nat \<Rightarrow> u8 list \<Rightarrow> bool \<Rightarrow> slre_prog re" where
  "slre_compile text n fl re =
     seq (re_parse text n re) (\<lambda>(nd, e).
     do { P \<leftarrow> re_program nd; ok \<lparr>insts = P, prog_captures = num_captures e, flags = re_flags fl re\<rparr> })"

end
