(* ===== verification/SlreCode.thy ===== *)
theory SlreCode
  imports Slre
begin

text \<open>
  The instructions a node is compiled to, as a function of the node and the address they start at, and that
  the compiler writes them: exactly as many as \<open>re_nodelen\<close> counts, so that the program fits its buffer.
\<close>

fun node_code :: "slre_node \<Rightarrow> nat \<Rightarrow> slre_instruction list" where
  "node_code NULL_node a = []"
| "node_code (P_ALT x y) a =
     I_SPLIT (a + 1) (a + re_nodelen x + 2) # node_code x (a + 1) @
       I_JUMP (a + re_nodelen x + re_nodelen y + 2) # node_code y (a + re_nodelen x + 2)"
| "node_code P_ANY a = [I_ANY]"
| "node_code P_BOL a = [I_BOL]"
| "node_code (P_BRA x n) a = I_LBRA n # node_code x (a + 1) @ [I_RBRA n]"
| "node_code (P_CAT x y) a = node_code x a @ node_code y (a + re_nodelen x)"
| "node_code (P_CH c) a = [I_CH c]"
| "node_code P_EOL a = [I_EOL]"
| "node_code P_EOS a = [I_EOS]"
| "node_code (P_LA x) a = I_LA (a + 1) (a + re_nodelen x + 2) # node_code x (a + 1) @ [I_END]"
| "node_code (P_LA_N x) a = I_LA_N (a + 1) (a + re_nodelen x + 2) # node_code x (a + 1) @ [I_END]"
| "node_code (P_REF x n) a = [I_REF n]"
| "node_code (P_REP x ng mn mx) a =
     (let l = re_nodelen x in
      if mn = 0 \<and> mn = mx then []
      else if mn = 0 \<and> mx \<ge> SLRE_MAX_REP then split_at ng (a + 1) (a + l + 2) # node_code x (a + 1) @ [I_JUMP a]
      else if mn = 1 \<and> mn = mx then node_code x a
      else if mn = 1 \<and> mx \<ge> SLRE_MAX_REP then node_code x a @ [split_at ng a (a + l + 1)]
      else [I_REP_INI mn (mx - mn), I_REP (a + l + 4) 0 0, split_at ng (a + 3) (a + l + 4)] @ node_code x (a + 3) @ [I_JUMP (a + 1)] @
        (if mx \<ge> SLRE_MAX_REP then [split_at ng (a + 3) (a + l + 5)] else []))"
| "node_code (P_SET cp) a = [I_SET cp]"
| "node_code (P_SET_N cp) a = [I_SET_N cp]"
| "node_code P_WORD a = [I_WORD]"
| "node_code P_WORD_N a = [I_WORD_N]"

lemma length_node_code [simp]: "length (node_code nd a) = re_nodelen nd"
proof (induction nd arbitrary: a)
  case (P_REP x ng mn mx)
  then show ?case by (cases "mn = 0"; cases "mn = mx") (auto simp: Let_def)
qed simp_all

lemma newinst_room: "length P < m \<Longrightarrow> re_newinst m i P = Some (P @ [i])"
  by (simp add: re_newinst_def)

lemma list_update_middle: "length xs = i \<Longrightarrow> (xs @ y # zs)[i := z] = xs @ z # zs"
  by (simp add: list_update_append)

text \<open>The compiler writes the code of a node at the end of the program.\<close>

lemma compile_code: "length P + re_nodelen nd \<le> m \<Longrightarrow> re_compile m nd P = Some (P @ node_code nd (length P))"
proof (induction nd arbitrary: P)
  case (P_ALT x y)
  let ?P = "P @ I_SPLIT 0 0 # node_code x (length P + 1)"
  have x: "re_compile m x (P @ [I_SPLIT 0 0]) = Some ?P"
    using P_ALT.IH(1) [of "P @ [I_SPLIT 0 0]"] P_ALT.prems by simp
  have y: "re_compile m y (?P @ [I_JUMP 0]) = Some (?P @ I_JUMP 0 # node_code y (length P + re_nodelen x + 2))"
    using P_ALT.IH(2) [of "?P @ [I_JUMP 0]"] P_ALT.prems by simp
  show ?case
    using P_ALT.prems x y by (simp add: newinst_room Let_def list_update_append list_update_middle)
next
  case (P_BRA x n)
  have x: "re_compile m x (P @ [I_LBRA n]) = Some (P @ I_LBRA n # node_code x (length P + 1))"
    using P_BRA.IH [of "P @ [I_LBRA n]"] P_BRA.prems by simp
  then show ?case using P_BRA.prems by (simp add: newinst_room)
next
  case (P_CAT x y)
  have "re_compile m x P = Some (P @ node_code x (length P))" using P_CAT by simp
  moreover have "re_compile m y (P @ node_code x (length P)) = Some (P @ node_code x (length P) @ node_code y (length P + re_nodelen x))"
    using P_CAT.IH(2) [of "P @ node_code x (length P)"] P_CAT.prems by simp
  ultimately show ?case by simp
next
  case (P_LA x)
  have "re_compile m x (P @ [I_LA 0 0]) = Some (P @ I_LA 0 0 # node_code x (length P + 1))"
    using P_LA.IH [of "P @ [I_LA 0 0]"] P_LA.prems by simp
  then show ?case using P_LA.prems by (simp add: newinst_room Let_def list_update_append)
next
  case (P_LA_N x)
  have "re_compile m x (P @ [I_LA_N 0 0]) = Some (P @ I_LA_N 0 0 # node_code x (length P + 1))"
    using P_LA_N.IH [of "P @ [I_LA_N 0 0]"] P_LA_N.prems by simp
  then show ?case using P_LA_N.prems by (simp add: newinst_room Let_def list_update_append)
next
  case (P_REP x ng mn mx)
  note IH = P_REP.IH and len = P_REP.prems
  have n: "mx - mn = 0 \<longleftrightarrow> mn = mx" by auto
  consider "mn = 0" "mn = mx" | "mn = 0" "mn \<noteq> mx" "mx \<ge> SLRE_MAX_REP" | "mn = 1" "mn = mx"
    | "mn = 1" "mn \<noteq> mx" "mx \<ge> SLRE_MAX_REP"
    | "\<not> (mn = 0 \<and> (mn = mx \<or> mx \<ge> SLRE_MAX_REP))" "\<not> (mn = 1 \<and> (mn = mx \<or> mx \<ge> SLRE_MAX_REP))" by blast
  then show ?case
  proof cases
    case 2
    have "re_compile m x (P @ [I_SPLIT 0 0]) = Some (P @ I_SPLIT 0 0 # node_code x (length P + 1))"
      using IH [of "P @ [I_SPLIT 0 0]"] len 2 by simp
    then show ?thesis using len 2 by (simp add: newinst_room Let_def list_update_append)
  next
    case 3
    then show ?thesis using IH [of P] len by simp
  next
    case 4
    have "re_compile m x P = Some (P @ node_code x (length P))" using IH [of P] len 4 by simp
    then show ?thesis using len 4 by (simp add: newinst_room Let_def list_update_append)
  next
    case 5
    let ?P = "P @ [I_REP_INI mn (mx - mn), I_REP 0 0 0, I_SPLIT 0 0]"
    have len': "length P + re_nodelen x + 4 \<le> m" "SLRE_MAX_REP \<le> mx \<Longrightarrow> length P + re_nodelen x + 5 \<le> m"
      using len 5 by (auto split: if_splits)
    have "re_compile m x ?P = Some (?P @ node_code x (length P + 3))"
    proof -
      have e: "length ?P = length P + 3" by simp
      show ?thesis by (rule IH [of ?P, unfolded e]) (use len' in simp)
    qed
    moreover have "\<not> (mn = 0 \<and> mx - mn = 0)" "\<not> (mn = 0 \<and> SLRE_MAX_REP \<le> mx)" "\<not> (mn = 1 \<and> mx - mn = 0)"
      "\<not> (mn = 1 \<and> SLRE_MAX_REP \<le> mx)" "\<not> (mn = 0 \<and> mn = mx)" "\<not> (mn = 1 \<and> mn = mx)" using 5 n by blast+
    ultimately show ?thesis
      using len' by (cases "SLRE_MAX_REP \<le> mx") (auto simp: newinst_room Let_def list_update_append numeral_eq_Suc)
  qed (simp add: Let_def)
qed (simp_all add: newinst_room)

definition program :: "slre_node \<Rightarrow> slre_instruction list" where
  "program nd = [I_SPLIT 3 1, I_ANYNL, I_JUMP 0, I_LBRA 0] @ node_code nd 4 @ [I_RBRA 0, I_END]"

lemma program_code: "re_program nd = Some (program nd)"
  using compile_code [of "[I_SPLIT 3 1, I_ANYNL, I_JUMP 0, I_LBRA 0]" nd "re_nodelen nd + 6"]
  by (simp add: re_program_def program_def newinst_room Let_def numeral_eq_Suc)

end
