(* ===== verification/SlreMatch.thy ===== *)
theory SlreMatch
  imports Slre
begin

text \<open>
  The matcher of regular expressions (\<open>slre.c\<close>): a machine that runs threads from a stack, the last split first.
  Pointers into the text are offsets from the start of the memory known of it; \<open>current[-1]\<close> and other single
  bytes are signed. The counters of \<open>I_REP\<close> lie in the program, which running it changes. A read outside of
  the memory known, a target outside of the program and a wild number of a group have no result.
\<close>

type_synonym slre_cap = "nat option \<times> nat option"

text \<open>The text with the parameters of \<open>re_match\<close>; whether \<open>malloc\<close> has memory for one more thread on so many.\<close>

record re_ctx =
  m_text :: "u8 list"
  m_end :: nat
  m_bol :: nat
  m_flags :: u32
  m_room :: "nat \<Rightarrow> bool"

type_synonym re_thread = "nat \<times> nat \<times> slre_cap list"

definition signed_rune :: "u8 \<Rightarrow> rune" where "signed_rune b = scast b"

definition ignore_case :: "re_ctx \<Rightarrow> bool" where "ignore_case X \<longleftrightarrow> m_flags X AND SLRE_FLAG_I \<noteq> 0"

definition multiline :: "re_ctx \<Rightarrow> bool" where "multiline X \<longleftrightarrow> m_flags X AND SLRE_FLAG_M \<noteq> 0"

subsection \<open>Characters\<close>

text \<open>The character at a place before the end, unless it is zero, and the place after it.\<close>

definition text_rune :: "re_ctx \<Rightarrow> nat \<Rightarrow> (rune \<times> nat) option option" where
  "text_rune X cur =
     (if cur < m_end X
      then do { (c, k) \<leftarrow> chartorune (drop cur (m_text X)); Some (if c \<noteq> 0 then Some (c, cur + k) else None) }
      else Some None)"

text \<open>\<open>for (r = p->s; r <= p->e; ++r)\<close>: with \<open>p->e = 0xFFFF\<close> the condition always holds.\<close>

partial_function (option) range_ci :: "rune \<Rightarrow> rune \<Rightarrow> rune \<Rightarrow> bool option" where
  "range_ci c e r =
     (if r \<le> e then if tolowerrune c = tolowerrune r then Some True else range_ci c e (r + 1) else Some False)"

fun in_class :: "bool \<Rightarrow> rune \<Rightarrow> slre_class \<Rightarrow> bool option" where
  "in_class ci c [] = Some False"
| "in_class ci c ((s, e) # ps) =
     (if ci then do { found \<leftarrow> range_ci c e s; if found then Some True else in_class ci c ps }
      else if s \<le> c \<and> c \<le> e then Some True else in_class ci c ps)"

subsection \<open>Back references\<close>

text \<open>\<open>strncmp(current, start, i) == 0\<close>.\<close>

fun same_bytes :: "u8 list \<Rightarrow> nat \<Rightarrow> nat \<Rightarrow> nat \<Rightarrow> bool option" where
  "same_bytes T 0 a b = Some True"
| "same_bytes T (Suc i) a b =
     do { x \<leftarrow> byte_at T a; y \<leftarrow> byte_at T b;
          if x \<noteq> y then Some False else if x = 0 then Some True else same_bytes T i (a + 1) (b + 1) }"

text \<open>The loop without regard to case counts characters, up to the number of bytes.\<close>

fun same_runes :: "u8 list \<Rightarrow> nat \<Rightarrow> nat \<Rightarrow> nat \<Rightarrow> bool option" where
  "same_runes T 0 s p = Some True"
| "same_runes T (Suc num) s p =
     do { a \<leftarrow> byte_at T s;
          if a = 0 then Some False
          else
            do { b \<leftarrow> byte_at T p;
                 if b = 0 then Some False
                 else
                   do { (r, k) \<leftarrow> chartorune (drop s T); (rr, l) \<leftarrow> chartorune (drop p T);
                        if tolowerrune r \<noteq> tolowerrune rr then Some False else same_runes T num (s + k) (p + l) } } }"

definition cap_len :: "slre_cap \<Rightarrow> nat option" where
  "cap_len c =
     (case c of (None, None) \<Rightarrow> Some 0 | (Some s, Some e) \<Rightarrow> if s \<le> e then Some (e - s) else None | _ \<Rightarrow> None)"

definition ref_matches :: "re_ctx \<Rightarrow> slre_cap \<Rightarrow> nat \<Rightarrow> nat \<Rightarrow> bool option" where
  "ref_matches X c i cur =
     (let s = (case fst c of Some s \<Rightarrow> s | None \<Rightarrow> 0) in
      if ignore_case X then same_runes (m_text X) i cur s else same_bytes (m_text X) i cur s)"

subsection \<open>One instruction\<close>

text \<open>Where the machine goes on: \<open>None\<close> if the instruction does not match. Ends and splits are in \<open>re_action\<close>.\<close>

type_synonym re_state = "slre_instruction list \<times> nat \<times> nat \<times> slre_cap list"

definition char_if :: "re_ctx \<Rightarrow> (rune \<Rightarrow> bool option) \<Rightarrow> slre_instruction list \<Rightarrow> nat \<Rightarrow> nat \<Rightarrow> slre_cap list \<Rightarrow> re_state option option" where
  "char_if X test P pc cur sub =
     do { r \<leftarrow> text_rune X cur;
          case r of
            None \<Rightarrow> Some None
          | Some (c, cur) \<Rightarrow> do { yes \<leftarrow> test c; Some (if yes then Some (P, pc + 1, cur, sub) else None) } }"

definition word_boundary :: "re_ctx \<Rightarrow> nat \<Rightarrow> bool option" where
  "word_boundary X cur =
     do { prev \<leftarrow> (if cur > m_bol X then map_option (\<lambda>b. iswordchar (signed_rune b)) (byte_at (m_text X) (cur - 1)) else Some False);
          b \<leftarrow> byte_at (m_text X) cur;
          Some (if iswordchar (signed_rune b) then \<not> prev else prev) }"

fun re_step ::
  "re_ctx \<Rightarrow> slre_instruction \<Rightarrow> slre_instruction list \<Rightarrow> nat \<Rightarrow> nat \<Rightarrow> slre_cap list \<Rightarrow> re_state option option" where
  "re_step X I_ANY P pc cur sub = char_if X (\<lambda>c. Some (\<not> isnewline c)) P pc cur sub"
| "re_step X I_ANYNL P pc cur sub = char_if X (\<lambda>c. Some True) P pc cur sub"
| "re_step X I_BOL P pc cur sub =
     (if cur = m_bol X then Some (Some (P, pc + 1, cur, sub))
      else if multiline X then
        if cur = 0 then None
        else do { b \<leftarrow> byte_at (m_text X) (cur - 1);
                  Some (if isnewline (signed_rune b) then Some (P, pc + 1, cur, sub) else None) }
      else Some None)"
| "re_step X (I_CH c) P pc cur sub =
     char_if X (\<lambda>r. Some (r = c \<or> ignore_case X \<and> tolowerrune r = tolowerrune c)) P pc cur sub"
| "re_step X I_EOL P pc cur sub =
     (if cur \<ge> m_end X then Some (Some (P, pc + 1, cur, sub))
      else if multiline X then
        do { b \<leftarrow> byte_at (m_text X) cur; Some (if isnewline (signed_rune b) then Some (P, pc + 1, cur, sub) else None) }
      else Some None)"
| "re_step X I_EOS P pc cur sub = Some (if cur \<ge> m_end X then Some (P, pc + 1, cur, sub) else None)"
| "re_step X (I_JUMP x) P pc cur sub = Some (Some (P, x, cur, sub))"
| "re_step X (I_LBRA n) P pc cur sub =
     (if n < length sub then Some (Some (P, pc + 1, cur, sub[n := (Some cur, snd (sub ! n))])) else None)"
| "re_step X (I_RBRA n) P pc cur sub =
     (if n < length sub then Some (Some (P, pc + 1, cur, sub[n := (fst (sub ! n), Some cur)])) else None)"
| "re_step X (I_REF n) P pc cur sub =
     (if n < length sub
      then do { i \<leftarrow> cap_len (sub ! n); yes \<leftarrow> ref_matches X (sub ! n) i cur;
                Some (if yes then Some (P, pc + 1, cur + i, sub) else None) }
      else None)"
| "re_step X (I_REP x mn mx) P pc cur sub =
     Some (Some (if mn \<noteq> 0 then (P[pc := I_REP x (mn - 1) mx], pc + 2, cur, sub)
                 else if mx = 0 then (P[pc := I_REP x mn (mx - 1)], x, cur, sub)
                 else (P[pc := I_REP x mn (mx - 1)], pc + 1, cur, sub)))"
| "re_step X (I_REP_INI mn mx) P pc cur sub =
     (if pc + 1 < length P
      then (case P ! (pc + 1) of I_REP x _ _ \<Rightarrow> Some (Some (P[pc + 1 := I_REP x mn mx], pc + 1, cur, sub)) | _ \<Rightarrow> None)
      else None)"
| "re_step X (I_SET cp) P pc cur sub = char_if X (\<lambda>c. in_class (ignore_case X) c cp) P pc cur sub"
| "re_step X (I_SET_N cp) P pc cur sub =
     char_if X (\<lambda>c. map_option Not (in_class (ignore_case X) c cp)) P pc cur sub"
| "re_step X I_WORD P pc cur sub =
     do { b \<leftarrow> word_boundary X cur; Some (if b then Some (P, pc + 1, cur, sub) else None) }"
| "re_step X I_WORD_N P pc cur sub =
     do { b \<leftarrow> word_boundary X cur; Some (if \<not> b then Some (P, pc + 1, cur, sub) else None) }"
| "re_step X _ P pc cur sub = None"

subsection \<open>The machine\<close>

datatype re_action = Found | Next "re_state option" | Fork nat nat | Look bool nat nat

definition re_action :: "re_ctx \<Rightarrow> slre_instruction list \<Rightarrow> nat \<Rightarrow> nat \<Rightarrow> slre_cap list \<Rightarrow> re_action option" where
  "re_action X P pc cur sub =
     (if pc < length P
      then
        (case P ! pc of
           I_END \<Rightarrow> Some Found
         | I_SPLIT x y \<Rightarrow> Some (Fork x y)
         | I_LA x y \<Rightarrow> Some (Look True x y)
         | I_LA_N x y \<Rightarrow> Some (Look False x y)
         | i \<Rightarrow> map_option Next (re_step X i P pc cur sub))
      else None)"

partial_function (option) re_run ::
  "re_ctx \<Rightarrow> slre_instruction list \<Rightarrow> re_thread list \<Rightarrow> (slre_cap list option \<times> slre_instruction list) option" where
  "re_run X P stack =
     (if stack = [] then Some (None, P)
      else
        do { let (pc, cur, sub) = hd stack;
             let rest = tl stack;
             a \<leftarrow> re_action X P pc cur sub;
             case a of
               Found \<Rightarrow> Some (Some sub, P)
             | Fork x y \<Rightarrow>
                 if m_room X (length rest) then re_run X P ((x, cur, sub) # (y, cur, sub) # rest) else Some (None, P)
             | Look pos x y \<Rightarrow>
                 if m_room X 0
                 then do { (r, P) \<leftarrow> re_run X P [(x, cur, sub)];
                           re_run X P (if (r \<noteq> None) = pos then (y, cur, if pos then the r else sub) # rest else rest) }
                 else None
             | Next a \<Rightarrow>
                 (case a of
                    None \<Rightarrow> re_run X P rest
                  | Some (P, pc, cur, sub) \<Rightarrow> re_run X P ((pc, cur, sub) # rest)) })"

definition re_match ::
  "re_ctx \<Rightarrow> slre_instruction list \<Rightarrow> nat \<Rightarrow> nat \<Rightarrow> slre_cap list \<Rightarrow> (slre_cap list option \<times> slre_instruction list) option" where
  "re_match X P pc cur loot = (if m_room X 0 then re_run X P [(pc, cur, loot)] else None)"

subsection \<open>Execution\<close>

record slre_loot =
  loot_captures :: nat
  loot_caps :: "slre_cap list"

definition no_caps :: "slre_cap list" where "no_caps = replicate SLRE_MAX_CAPS (None, None)"

definition exec_ctx :: "(nat \<Rightarrow> bool) \<Rightarrow> slre_prog \<Rightarrow> u8 list \<Rightarrow> nat \<Rightarrow> nat \<Rightarrow> re_ctx" where
  "exec_ctx room prog text start t_end =
     \<lparr>m_text = text, m_end = t_end, m_bol = start, m_flags = flags prog, m_room = room\<rparr>"

text \<open>The loop for all matches; \<open>tmpsub\<close> is not initialized before it.\<close>

partial_function (option) exec_all ::
  "re_ctx \<Rightarrow> nat \<Rightarrow> slre_instruction list \<Rightarrow> nat \<Rightarrow> slre_cap list \<Rightarrow> slre_loot \<Rightarrow> (slre_loot \<times> slre_instruction list) option" where
  "exec_all X n P st tmpsub loot =
     do { (r, P) \<leftarrow> re_match X P 0 st tmpsub;
          case r of
            None \<Rightarrow> Some (loot, P)
          | Some tmpsub \<Rightarrow>
              (case snd (tmpsub ! 0) of
                 None \<Rightarrow> None
               | Some st \<Rightarrow>
                   if loot_captures loot + n \<le> SLRE_MAX_CAPS
                   then exec_all X n P st tmpsub
                          (loot\<lparr>loot_captures := loot_captures loot + n,
                             loot_caps := take (loot_captures loot) (loot_caps loot) @ take n tmpsub @
                               drop (loot_captures loot + n) (loot_caps loot)\<rparr>)
                   else None) }"

text \<open>\<open>slre_exec\<close> answers 0 for a match: here whether there is none.\<close>

definition slre_exec ::
  "(nat \<Rightarrow> bool) \<Rightarrow> slre_prog \<Rightarrow> bool \<Rightarrow> slre_cap list \<Rightarrow> u8 list \<Rightarrow> nat \<Rightarrow> nat \<Rightarrow> (bool \<times> slre_loot \<times> slre_prog) option" where
  "slre_exec room prog flag_g junk text start t_end =
     (let X = exec_ctx room prog text start t_end in
      if \<not> flag_g
      then do { (r, P) \<leftarrow> re_match X (insts prog) 0 start no_caps;
                Some (r = None, \<lparr>loot_captures = prog_captures prog, loot_caps = (case r of Some caps \<Rightarrow> caps | None \<Rightarrow> no_caps)\<rparr>,
                      prog\<lparr>insts := P\<rparr>) }
      else do { (loot, P) \<leftarrow> exec_all X (prog_captures prog) (insts prog) start junk \<lparr>loot_captures = 0, loot_caps = no_caps\<rparr>;
                Some (loot_captures loot = 0, loot, prog\<lparr>insts := P\<rparr>) })"

text \<open>\<open>slre_match\<close>: the answer of the compiler, or 0 for a match and 1 for none; its flag for all matches is that of the pattern.\<close>

definition slre_match ::
  "(nat \<Rightarrow> bool) \<Rightarrow> u8 list \<Rightarrow> nat \<Rightarrow> u8 list \<Rightarrow> slre_cap list \<Rightarrow> u8 list \<Rightarrow> nat \<Rightarrow> nat \<Rightarrow> (int \<times> slre_loot option) option" where
  "slre_match room re n fl junk str t_start t_end =
     do { x \<leftarrow> slre_compile re n fl True;
          case x of
            Inl err \<Rightarrow> Some (err, None)
          | Inr prog \<Rightarrow>
              do { (none, loot, prog) \<leftarrow> slre_exec room prog (flags prog AND SLRE_FLAG_G \<noteq> 0) junk str t_start t_end;
                   Some (if none then 1 else 0, Some loot) } }"

subsection \<open>Replacement\<close>

text \<open>A piece of the result: of the text (a group, or around the match), or of the replacement.\<close>

datatype slre_piece = From_text "nat option" "nat option" | From_rstr nat nat

definition add_piece :: "slre_piece \<Rightarrow> slre_piece list \<Rightarrow> slre_piece list option" where
  "add_piece x dst = (if length dst < SLRE_MAX_CAPS then Some (dst @ [x]) else None)"

text \<open>What a dollar sign and the character \<open>c\<close> after it, up to \<open>r\<close>, add: \<open>Inl\<close> an error code, else the size and the pieces.\<close>

definition dollar ::
  "slre_loot \<Rightarrow> nat \<Rightarrow> nat \<Rightarrow> u8 list \<Rightarrow> nat \<Rightarrow> rune \<Rightarrow> nat \<Rightarrow> slre_piece list \<Rightarrow> (int + int \<times> nat \<times> slre_piece list) option" where
  "dollar loot src0 src_len rstr r_end c r dst =
     (let group = (\<lambda>n r. if n \<ge> loot_captures loot then Some (Inr (0, r, dst))
                         else if n \<ge> length (loot_caps loot) then None
                         else do { sz \<leftarrow> cap_len (loot_caps loot ! n);
                                   dst \<leftarrow> add_piece (From_text (fst (loot_caps loot ! n)) (snd (loot_caps loot ! n))) dst;
                                   Some (Inr (int sz, r, dst)) });
          cap0 = loot_caps loot ! 0
      in if c = 38 then
           do { sz \<leftarrow> cap_len cap0; dst \<leftarrow> add_piece (From_text (fst cap0) (snd cap0)) dst; Some (Inr (int sz, r, dst)) }
         else if isdigitrune c then
           if c = 48 then
             do { b \<leftarrow> byte_at rstr r;
                  if b \<noteq> 0 \<and> isdigitrune (signed_rune b)
                  then do { (esc, c, r) \<leftarrow> re_nextc rstr r r_end; group (nat (dec (uint c))) r }
                  else group 0 r }
           else group (unat c - 48) r
         else if c = 96 then
           do { s \<leftarrow> fst cap0; dst \<leftarrow> add_piece (From_text (Some src0) (Some s)) dst; Some (Inr (int s - int src0, r, dst)) }
         else if c = 39 then
           do { e \<leftarrow> snd cap0; dst \<leftarrow> add_piece (From_text (Some e) (Some (src0 + src_len))) dst;
                Some (Inr (int (src0 + src_len) - int e, r, dst)) }
         else if c = 36 then do { dst \<leftarrow> add_piece (From_rstr (r - 1) r) dst; Some (Inr (1, r, dst)) }
         else Some (Inl SLRE_BAD_CHAR_AFTER_USD))"

text \<open>A literal character, whose encoding is taken to be the bytes before \<open>r\<close>; it may extend the last piece.\<close>

definition literal :: "rune \<Rightarrow> nat \<Rightarrow> slre_piece list \<Rightarrow> (int \<times> slre_piece list) option" where
  "literal c r dst =
     (let sz = length (runetochar c) in
      if r < sz then None
      else
        (case rev dst of
           From_rstr s e # front \<Rightarrow>
             if e = r - sz then Some (int sz, rev (From_rstr s r # front))
             else map_option (\<lambda>dst. (int sz, dst)) (add_piece (From_rstr (r - sz) r) dst)
         | _ \<Rightarrow> map_option (\<lambda>dst. (int sz, dst)) (add_piece (From_rstr (r - sz) r) dst)))"

partial_function (option) replace_loop ::
  "slre_loot \<Rightarrow> nat \<Rightarrow> nat \<Rightarrow> u8 list \<Rightarrow> nat \<Rightarrow> nat \<Rightarrow> int \<Rightarrow> slre_piece list \<Rightarrow> (int \<times> slre_piece list) option" where
  "replace_loop loot src0 src_len rstr r_end r amount dst =
     (if r \<ge> r_end then Some (amount, dst)
      else
        do { (c, r) \<leftarrow> re_nextc_raw rstr r r_end;
             if c = 0 then Some (amount, dst)
             else if c = 36 then
               do { (esc, c, r) \<leftarrow> re_nextc rstr r r_end;
                    x \<leftarrow> dollar loot src0 src_len rstr r_end c r dst;
                    case x of
                      Inl err \<Rightarrow> Some (err, dst)
                    | Inr (sz, r, dst) \<Rightarrow> replace_loop loot src0 src_len rstr r_end r (amount + sz) dst }
             else do { (sz, dst) \<leftarrow> literal c r dst; replace_loop loot src0 src_len rstr r_end r (amount + sz) dst } })"

definition slre_replace :: "slre_loot \<Rightarrow> nat \<Rightarrow> nat \<Rightarrow> u8 list \<Rightarrow> nat \<Rightarrow> (int \<times> slre_piece list) option" where
  "slre_replace loot src0 src_len rstr rstr_len = replace_loop loot src0 src_len rstr rstr_len 0 0 []"

end
