(* ===== verification/SlreCorrect.thy ===== *)
theory SlreCorrect
  imports SlreCode SlreMatch
begin

text \<open>
  What the matcher does with the code of a node. \<open>results\<close> is the meaning of a node: from a place in the text with
  its groups, the list of the places where a match of the node can end, the preferred one first. The machine
  that runs the code tries exactly these, in this order.
\<close>

type_synonym re_pos = "nat \<times> slre_cap list"

subsection \<open>Meaning\<close>

definition class_has :: "re_ctx \<Rightarrow> slre_class \<Rightarrow> rune \<Rightarrow> bool" where
  "class_has X cp c \<longleftrightarrow>
     (\<exists>(s, e) \<in> set cp. if ignore_case X then \<exists>r. s \<le> r \<and> r \<le> e \<and> tolowerrune c = tolowerrune r else s \<le> c \<and> c \<le> e)"

definition char_results :: "re_ctx \<Rightarrow> (rune \<Rightarrow> bool) \<Rightarrow> re_pos \<Rightarrow> re_pos list" where
  "char_results X test p =
     (case text_rune X (fst p) of
        Some (Some (c, cur)) \<Rightarrow> if test c then [(cur, snd p)] else []
      | _ \<Rightarrow> [])"

definition byte_is :: "re_ctx \<Rightarrow> (rune \<Rightarrow> bool) \<Rightarrow> nat \<Rightarrow> bool" where
  "byte_is X test i \<longleftrightarrow> i < length (m_text X) \<and> test (signed_rune (m_text X ! i))"

definition at_bol :: "re_ctx \<Rightarrow> nat \<Rightarrow> bool" where
  "at_bol X cur \<longleftrightarrow> cur = m_bol X \<or> multiline X \<and> byte_is X isnewline (cur - 1)"

definition at_eol :: "re_ctx \<Rightarrow> nat \<Rightarrow> bool" where
  "at_eol X cur \<longleftrightarrow> cur \<ge> m_end X \<or> multiline X \<and> byte_is X isnewline cur"

definition at_word_boundary :: "re_ctx \<Rightarrow> nat \<Rightarrow> bool" where
  "at_word_boundary X cur \<longleftrightarrow> (cur > m_bol X \<and> byte_is X iswordchar (cur - 1)) \<noteq> byte_is X iswordchar cur"

text \<open>\<open>m\<close> times, and up to \<open>n\<close> times more: as often as possible first, or as seldom as possible.\<close>

fun reps :: "(re_pos \<Rightarrow> re_pos list) \<Rightarrow> bool \<Rightarrow> nat \<Rightarrow> nat \<Rightarrow> re_pos \<Rightarrow> re_pos list" where
  "reps f ng (Suc m) n p = concat (map (reps f ng m n) (f p))"
| "reps f ng 0 (Suc n) p =
     (if ng then p # concat (map (reps f ng 0 n) (f p)) else concat (map (reps f ng 0 n) (f p)) @ [p])"
| "reps f ng 0 0 p = [p]"

definition opened_cap :: "nat \<Rightarrow> re_pos \<Rightarrow> re_pos" where
  "opened_cap n p = (fst p, (snd p)[n := (Some (fst p), snd (snd p ! n))])"

definition closed_cap :: "nat \<Rightarrow> re_pos \<Rightarrow> re_pos" where
  "closed_cap n p = (fst p, (snd p)[n := (fst (snd p ! n), Some (fst p))])"

fun results :: "re_ctx \<Rightarrow> slre_node \<Rightarrow> re_pos \<Rightarrow> re_pos list" where
  "results X NULL_node p = [p]"
| "results X (P_ALT x y) p = results X x p @ results X y p"
| "results X P_ANY p = char_results X (\<lambda>c. \<not> isnewline c) p"
| "results X P_BOL p = (if at_bol X (fst p) then [p] else [])"
| "results X (P_BRA x n) p = map (closed_cap n) (results X x (opened_cap n p))"
| "results X (P_CAT x y) p = concat (map (results X y) (results X x p))"
| "results X (P_CH c) p = char_results X (\<lambda>r. r = c \<or> ignore_case X \<and> tolowerrune r = tolowerrune c) p"
| "results X P_EOL p = (if at_eol X (fst p) then [p] else [])"
| "results X P_EOS p = (if fst p \<ge> m_end X then [p] else [])"
| "results X (P_LA x) p = (case results X x p of [] \<Rightarrow> [] | q # _ \<Rightarrow> [(fst p, snd q)])"
| "results X (P_LA_N x) p = (if results X x p = [] then [p] else [])"
| "results X (P_REF x n) p = []"
| "results X (P_REP x ng mn mx) p =
     reps (results X x) ng (unat mn) (if mx = SLRE_MAX_REP then m_end X - fst p else unat mx - unat mn) p"
| "results X (P_SET cp) p = char_results X (class_has X cp) p"
| "results X (P_SET_N cp) p = char_results X (\<lambda>c. \<not> class_has X cp c) p"
| "results X P_WORD p = (if at_word_boundary X (fst p) then [p] else [])"
| "results X P_WORD_N p = (if \<not> at_word_boundary X (fst p) then [p] else [])"

text \<open>
  The nodes this is right for: no back references; a loop without an upper bound takes at least one character each
  time and starts at 0 or 1; a counted loop is greedy and its body leaves no choice (the counters of others are not
  restored when the machine backtracks); a class that ignores case does not reach the last character.
\<close>

fun det :: "slre_node \<Rightarrow> bool" where
  "det (P_CAT x y) \<longleftrightarrow> det x \<and> det y"
| "det (P_BRA x n) \<longleftrightarrow> det x"
| "det (P_ALT x y) = False"
| "det (P_LA x) = False"
| "det (P_LA_N x) = False"
| "det (P_REF x n) = False"
| "det (P_REP x ng mn mx) = False"
| "det _ = True"

definition class_ok :: "re_ctx \<Rightarrow> slre_class \<Rightarrow> bool" where
  "class_ok X cp \<longleftrightarrow> (ignore_case X \<longrightarrow> (\<forall>(s, e) \<in> set cp. e \<noteq> 0xFFFF))"

fun plain :: "re_ctx \<Rightarrow> slre_node \<Rightarrow> bool" where
  "plain X (P_ALT x y) \<longleftrightarrow> plain X x \<and> plain X y"
| "plain X (P_BRA x n) \<longleftrightarrow> plain X x \<and> n < SLRE_MAX_CAPS"
| "plain X (P_CAT x y) \<longleftrightarrow> plain X x \<and> plain X y"
| "plain X (P_LA x) \<longleftrightarrow> plain X x"
| "plain X (P_LA_N x) \<longleftrightarrow> plain X x"
| "plain X (P_REF x n) \<longleftrightarrow> False"
| "plain X (P_REP x ng mn mx) \<longleftrightarrow>
     plain X x \<and> mn \<le> mx \<and>
     (if mx = SLRE_MAX_REP then mn \<le> 1 \<and> \<not> re_isemptynd x else mx = 0 \<or> mn = 1 \<and> mx = 1 \<or> det x \<and> \<not> ng)"
| "plain X (P_SET cp) \<longleftrightarrow> class_ok X cp"
| "plain X (P_SET_N cp) \<longleftrightarrow> class_ok X cp"
| "plain X _ \<longleftrightarrow> True"

subsection \<open>Runs\<close>

inductive runs ::
  "re_ctx \<Rightarrow> slre_instruction list \<Rightarrow> re_thread list \<Rightarrow> slre_cap list option \<Rightarrow> slre_instruction list \<Rightarrow> bool" for X where
  runs_nil: "runs X P [] None P"
| runs_found: "re_action X P pc cur sub = Some Found \<Longrightarrow> runs X P ((pc, cur, sub) # S) (Some sub) P"
| runs_fork: "re_action X P pc cur sub = Some (Fork x y) \<Longrightarrow> \<forall>n. m_room X n \<Longrightarrow>
    runs X P ((x, cur, sub) # (y, cur, sub) # S) r P' \<Longrightarrow> runs X P ((pc, cur, sub) # S) r P'"
| runs_look: "re_action X P pc cur sub = Some (Look pos x y) \<Longrightarrow> m_room X 0 \<Longrightarrow> runs X P [(x, cur, sub)] r1 P1 \<Longrightarrow>
    runs X P1 ((if (r1 \<noteq> None) = pos then [(y, cur, if pos then the r1 else sub)] else []) @ S) r P' \<Longrightarrow>
    runs X P ((pc, cur, sub) # S) r P'"
| runs_fail: "re_action X P pc cur sub = Some (Next None) \<Longrightarrow> runs X P S r P' \<Longrightarrow> runs X P ((pc, cur, sub) # S) r P'"
| runs_next: "re_action X P pc cur sub = Some (Next (Some (P1, pc1, cur1, sub1))) \<Longrightarrow>
    runs X P1 ((pc1, cur1, sub1) # S) r P' \<Longrightarrow> runs X P ((pc, cur, sub) # S) r P'"

lemma runs_run: "runs X P S r P' \<Longrightarrow> re_run X P S = Some (r, P')"
proof (induction rule: runs.induct)
  case (runs_look P pc cur sub pos x y r1 P1 S r P')
  then show ?case by (subst re_run.simps) (auto simp: Let_def split: if_splits)
qed (subst re_run.simps, simp add: Let_def)+

lemma runs_append: "runs X P S r P' \<Longrightarrow> (case r of None \<Rightarrow> runs X P' T q P'' \<longrightarrow> runs X P (S @ T) q P'' | Some x \<Rightarrow> runs X P (S @ T) r P')"
proof (induction rule: runs.induct)
  case (runs_look P pc cur sub pos x y r1 P1 S r P')
  then show ?case
    by (cases r) (auto intro: runs.runs_look [OF runs_look.hyps(1-3)] simp: append_assoc [symmetric] simp del: append_assoc)
qed (auto intro: runs.intros split: option.splits)

lemmas runs_append_none = runs_append [where r = None, simplified, rule_format]
lemmas runs_append_some = runs_append [where r = "Some x" for x, simplified, rule_format]

subsection \<open>Programs up to their counters\<close>

fun erase :: "slre_instruction \<Rightarrow> slre_instruction" where
  "erase (I_REP x mn mx) = I_REP x 0 0"
| "erase i = i"

fun counter :: "slre_instruction \<Rightarrow> bool" where
  "counter (I_REP x mn mx) = True"
| "counter i = False"

lemma erase_id: "\<not> counter i \<Longrightarrow> erase j = i \<Longrightarrow> j = i"
  by (cases j) auto

lemma erase_code [simp]: "map erase (node_code nd a) = node_code nd a"
  by (induction nd arbitrary: a) (simp_all add: Let_def split_at_def)

definition at :: "slre_instruction list \<Rightarrow> nat \<Rightarrow> slre_instruction list \<Rightarrow> bool" where
  "at Q a cs \<longleftrightarrow> (\<exists>pre post. Q = pre @ cs @ post \<and> length pre = a)"

lemma at_append: "at Q a (xs @ ys) \<longleftrightarrow> at Q a xs \<and> at Q (a + length xs) ys"
proof
  assume "at Q a (xs @ ys)"
  then obtain pre post where "Q = pre @ xs @ ys @ post" "length pre = a" by (auto simp: at_def)
  then show "at Q a xs \<and> at Q (a + length xs) ys"
    unfolding at_def by (intro conjI exI [of _ pre] exI [of _ "ys @ post"] exI [of _ "pre @ xs"] exI [of _ post]) auto
next
  assume h: "at Q a xs \<and> at Q (a + length xs) ys"
  from h obtain pre post where 1: "Q = pre @ xs @ post" "length pre = a" unfolding at_def by blast
  from h obtain pre' post' where 2: "Q = pre' @ ys @ post'" "length pre' = a + length xs" unfolding at_def by blast
  from 1 2 have "(pre @ xs) @ post = pre' @ (ys @ post')" "length (pre @ xs) = length pre'" by simp_all
  then have "post = ys @ post'" by (blast dest: append_eq_append_conv [THEN iffD1, rotated])
  with 1 show "at Q a (xs @ ys)" by (auto simp: at_def)
qed

lemma at_Cons: "at Q a (i # cs) \<longleftrightarrow> (a < length Q \<and> Q ! a = i) \<and> at Q (a + 1) cs"
proof -
  have "at Q a [i] \<longleftrightarrow> a < length Q \<and> Q ! a = i"
  proof
    assume "a < length Q \<and> Q ! a = i"
    then show "at Q a [i]" using id_take_nth_drop [of a Q] unfolding at_def
      by (intro exI [of _ "take a Q"] exI [of _ "drop (Suc a) Q"]) simp
  qed (auto simp: at_def)
  then show ?thesis using at_append [of Q a "[i]" cs] by simp
qed

lemma erase_at:
  assumes "map erase P = Q" "a < length Q" "Q ! a = i" "\<not> counter i"
  shows "a < length P \<and> P ! a = i"
proof -
  have "erase (P ! a) = i" "a < length P" using assms(1-3) by auto
  with erase_id [OF assms(4)] show ?thesis by blast
qed

subsection \<open>Outcomes\<close>

text \<open>What a thread comes to, whatever the counters are.\<close>

definition yields :: "re_ctx \<Rightarrow> slre_instruction list \<Rightarrow> nat \<Rightarrow> re_pos \<Rightarrow> slre_cap list option \<Rightarrow> bool" where
  "yields X Q pc p r \<longleftrightarrow>
     (\<forall>P. map erase P = Q \<longrightarrow> (\<exists>P'. map erase P' = Q \<and> runs X P [(pc, fst p, snd p)] r P'))"

fun first_some :: "'a option list \<Rightarrow> 'a option" where
  "first_some [] = None"
| "first_some (None # xs) = first_some xs"
| "first_some (Some x # xs) = Some x"

lemma first_some_append: "first_some (xs @ ys) = (case first_some xs of None \<Rightarrow> first_some ys | Some x \<Rightarrow> Some x)"
  by (induction xs rule: first_some.induct) auto

lemma first_some_concat: "first_some (concat xss) = first_some (map first_some xss)"
proof (induction xss)
  case (Cons xs xss)
  then show ?case by (cases "first_some xs") (simp_all add: first_some_append)
qed simp

text \<open>Two threads, the second under the first.\<close>

lemma runs_two:
  assumes "runs X P [t] r1 P1" "map erase P = Q" "map erase P1 = Q" "\<And>P. map erase P = Q \<Longrightarrow> \<exists>P'. map erase P' = Q \<and> runs X P [u] r2 P'"
  shows "\<exists>P'. map erase P' = Q \<and> runs X P [t, u] (case r1 of None \<Rightarrow> r2 | Some x \<Rightarrow> Some x) P'"
proof (cases r1)
  case None
  obtain P' where "map erase P' = Q" "runs X P1 [u] r2 P'" using assms(4) [OF assms(3)] by blast
  then show ?thesis using None assms(1) runs_append_none [of X P "[t]" P1 "[u]" r2 P'] by auto
next
  case (Some x)
  then show ?thesis using assms(1,3) runs_append_some [of X P "[t]" x P1 "[u]"] by auto
qed

lemma yields_found:
  assumes "pc < length Q" "Q ! pc = I_END"
  shows "yields X Q pc p (Some (snd p))"
proof -
  have "re_action X P pc (fst p) (snd p) = Some Found" if "map erase P = Q" for P
    using erase_at [OF that assms] by (simp add: re_action_def)
  then show ?thesis unfolding yields_def by (blast intro: runs_found)
qed

lemma yields_fork:
  assumes "pc < length Q" "Q ! pc = I_SPLIT x y" "\<forall>n. m_room X n" "yields X Q x p r1" "yields X Q y p r2"
  shows "yields X Q pc p (case r1 of None \<Rightarrow> r2 | Some z \<Rightarrow> Some z)"
  unfolding yields_def
proof (intro allI impI)
  fix P assume P: "map erase P = Q"
  have a: "re_action X P pc (fst p) (snd p) = Some (Fork x y)"
    using erase_at [OF P assms(1,2)] by (simp add: re_action_def)
  obtain P1 where "map erase P1 = Q" "runs X P [(x, fst p, snd p)] r1 P1" using assms(4) P by (auto simp: yields_def)
  from runs_two [OF this(2) P this(1)] assms(5) obtain P' where
    "map erase P' = Q" "runs X P [(x, fst p, snd p), (y, fst p, snd p)] (case r1 of None \<Rightarrow> r2 | Some z \<Rightarrow> Some z) P'"
    unfolding yields_def by blast
  with runs_fork [OF a assms(3)] show "\<exists>P'. map erase P' = Q \<and> runs X P [(pc, fst p, snd p)] (case r1 of None \<Rightarrow> r2 | Some z \<Rightarrow> Some z) P'"
    by blast
qed

lemma yields_look:
  assumes "pc < length Q" "Q ! pc = (if pos then I_LA x y else I_LA_N x y)" "\<forall>n. m_room X n" "yields X Q x p r1"
    and "(r1 \<noteq> None) = pos \<Longrightarrow> yields X Q y (fst p, if pos then the r1 else snd p) r2" "(r1 \<noteq> None) \<noteq> pos \<Longrightarrow> r2 = None"
  shows "yields X Q pc p r2"
  unfolding yields_def
proof (intro allI impI)
  fix P assume P: "map erase P = Q"
  have a: "re_action X P pc (fst p) (snd p) = Some (Look pos x y)"
    using erase_at [OF P assms(1,2)] by (cases pos) (simp_all add: re_action_def)
  obtain P1 where P1: "map erase P1 = Q" "runs X P [(x, fst p, snd p)] r1 P1" using assms(4) P by (auto simp: yields_def)
  show "\<exists>P'. map erase P' = Q \<and> runs X P [(pc, fst p, snd p)] r2 P'"
  proof (cases "(r1 \<noteq> None) = pos")
    case True
    obtain P' where "map erase P' = Q" "runs X P1 [(y, fst p, if pos then the r1 else snd p)] r2 P'"
      using assms(5) [OF True] P1(1) by (auto simp: yields_def)
    with runs_look [OF a _ P1(2), of "[]" r2 P'] assms(3) True show ?thesis by auto
  next
    case False
    then show ?thesis using runs_look [OF a _ P1(2), of "[]" None P1] assms(3,6) P1(1) by (auto intro: runs_nil)
  qed
qed

text \<open>Instructions that only move on or fail.\<close>

fun moving :: "slre_instruction \<Rightarrow> bool" where
  "moving I_END = False"
| "moving (I_SPLIT x y) = False"
| "moving (I_LA x y) = False"
| "moving (I_LA_N x y) = False"
| "moving (I_REP x mn mx) = False"
| "moving (I_REP_INI mn mx) = False"
| "moving i = True"

lemma moving_action:
  assumes "map erase P = Q" "pc < length Q" "Q ! pc = i" "moving i"
  shows "re_action X P pc cur sub = map_option Next (re_step X i P pc cur sub)"
proof -
  have "\<not> counter i" using assms(4) by (cases i) auto
  from erase_at [OF assms(1-3) this] assms(4) show ?thesis by (cases i) (simp_all add: re_action_def)
qed

lemma yields_next:
  assumes "pc < length Q" "Q ! pc = i" "moving i" "\<And>P. re_step X i P pc (fst p) (snd p) = Some (Some (P, pc', fst p', snd p'))"
    and "yields X Q pc' p' r"
  shows "yields X Q pc p r"
  unfolding yields_def
proof (intro allI impI)
  fix P assume P: "map erase P = Q"
  obtain P' where "map erase P' = Q" "runs X P [(pc', fst p', snd p')] r P'" using assms(5) P by (auto simp: yields_def)
  moreover have "re_action X P pc (fst p) (snd p) = Some (Next (Some (P, pc', fst p', snd p')))"
    using moving_action [OF P assms(1-3)] assms(4) by simp
  ultimately show "\<exists>P'. map erase P' = Q \<and> runs X P [(pc, fst p, snd p)] r P'" by (blast intro: runs_next)
qed

lemma yields_fail:
  assumes "pc < length Q" "Q ! pc = i" "moving i" "\<And>P. re_step X i P pc (fst p) (snd p) = Some None"
  shows "yields X Q pc p None"
  unfolding yields_def
proof (intro allI impI)
  fix P assume P: "map erase P = Q"
  have "re_action X P pc (fst p) (snd p) = Some (Next None)" using moving_action [OF P assms(1-3)] assms(4) by simp
  with P show "\<exists>P'. map erase P' = Q \<and> runs X P [(pc, fst p, snd p)] None P'" by (blast intro: runs_fail runs_nil)
qed

end
