(* ===== verification/SlreSound.thy ===== *)
theory SlreSound
  imports SlreCorrect
begin

text \<open>
  The machine on the code of a node does what the meaning of the node says: every thread that starts at the code ends
  as the first of the node's results that the rest of the program accepts.
\<close>

subsection \<open>Characters of a text with a zero at its end\<close>

definition text_ok :: "re_ctx \<Rightarrow> bool" where
  "text_ok X \<longleftrightarrow> m_end X < length (m_text X) \<and> m_text X ! m_end X = 0 \<and> m_bol X \<le> m_end X \<and> (\<forall>n. m_room X n)"

lemma text_rune_ok:
  assumes "text_ok X" "text_rune X cur = r"
  shows "r = Some None \<or> (\<exists>c cur'. r = Some (Some (c, cur')) \<and> cur < cur' \<and> cur' \<le> m_end X)"
proof (cases "cur < m_end X")
  case True
  then have "m_end X - cur < length (drop cur (m_text X))" "drop cur (m_text X) ! (m_end X - cur) = 0"
    using assms(1) by (auto simp: text_ok_def)
  from chartorune_zero [OF this] obtain c k where
    "chartorune (drop cur (m_text X)) = Some (c, k)" "0 < k" "k \<le> max 1 (m_end X - cur)" by blast
  with True assms(2) show ?thesis by (auto simp: text_rune_def split: if_splits)
qed (use assms in \<open>auto simp: text_rune_def\<close>)

lemma range_ci_has:
  assumes "e \<noteq> 0xFFFF"
  shows "range_ci c e r = Some (\<exists>x. r \<le> x \<and> x \<le> e \<and> tolowerrune c = tolowerrune x)"
proof (induction "unat e - unat r" arbitrary: r rule: less_induct)
  case less
  show ?case
  proof (cases "r \<le> e")
    case True
    have "unat e < 2 ^ 16 - 1"
    proof -
      have "unat e \<noteq> 0xFFFF" using assms by (simp add: word_unat_eq_iff)
      moreover have "unat e < 2 ^ LENGTH(16)" by (rule unsigned_less)
      ultimately show ?thesis by simp
    qed
    then have u: "unat (r + 1) = Suc (unat r)" using True by (simp add: word_le_nat_alt unat_word_ariths)
    have i: "range_ci c e (r + 1) = Some (\<exists>x. r + 1 \<le> x \<and> x \<le> e \<and> tolowerrune c = tolowerrune x)"
    proof (cases "r = e")
      case True
      then show ?thesis using u by (subst range_ci.simps) (auto simp: word_le_nat_alt)
    next
      case False
      then have "unat r < unat e" using True by (simp add: word_le_nat_alt order_le_less word_unat_eq_iff)
      then show ?thesis using less u by simp
    qed
    have "r \<le> x \<longleftrightarrow> x = r \<or> r + 1 \<le> x" for x using u by (auto simp: word_le_nat_alt word_unat_eq_iff)
    then show ?thesis using True i by (subst range_ci.simps) auto
  qed (subst range_ci.simps, auto)
qed

lemma class_has_Cons:
  "class_has X ((s, e) # cp) c \<longleftrightarrow>
     (if ignore_case X then \<exists>r. s \<le> r \<and> r \<le> e \<and> tolowerrune c = tolowerrune r else s \<le> c \<and> c \<le> e) \<or> class_has X cp c"
  by (simp add: class_has_def)

lemma in_class_has: "class_ok X cp \<Longrightarrow> in_class (ignore_case X) c cp = Some (class_has X cp c)"
proof (induction cp)
  case (Cons x cp)
  obtain s e where x: "x = (s, e)" by (cases x)
  have "in_class (ignore_case X) c cp = Some (class_has X cp c)" "ignore_case X \<Longrightarrow> e \<noteq> 0xFFFF"
    using Cons x by (auto simp: class_ok_def)
  then show ?case unfolding x class_has_Cons by (cases "ignore_case X") (simp_all add: range_ci_has, blast+)
qed (simp add: class_has_def)

subsection \<open>Places that stay in the text\<close>

definition pos_ok :: "re_ctx \<Rightarrow> re_pos \<Rightarrow> bool" where
  "pos_ok X p \<longleftrightarrow> m_bol X \<le> fst p \<and> fst p \<le> m_end X \<and> length (snd p) = SLRE_MAX_CAPS"

text \<open>From a place to a later one, strictly later unless \<open>b\<close>.\<close>

definition onward :: "re_ctx \<Rightarrow> bool \<Rightarrow> re_pos \<Rightarrow> re_pos \<Rightarrow> bool" where
  "onward X b p q \<longleftrightarrow> pos_ok X q \<and> fst p \<le> fst q \<and> (b \<or> fst p < fst q)"

lemma onward_refl: "pos_ok X p \<Longrightarrow> onward X True p p"
  by (simp add: onward_def)

lemma onward_trans: "onward X b p q \<Longrightarrow> onward X c q r \<Longrightarrow> onward X (b \<and> c) p r"
  by (auto simp: onward_def)

lemma onward_weak: "onward X b p q \<Longrightarrow> (b \<Longrightarrow> c) \<Longrightarrow> onward X c p q"
  by (auto simp: onward_def)

lemma onward_pos: "onward X b p q \<Longrightarrow> pos_ok X q"
  by (simp add: onward_def)

lemma char_results_onward: "text_ok X \<Longrightarrow> pos_ok X p \<Longrightarrow> q \<in> set (char_results X t p) \<Longrightarrow> onward X b p q"
  using text_rune_ok [of X "fst p"] by (auto simp: char_results_def onward_def pos_ok_def split: if_splits)

lemma reps_onward_more:
  assumes f: "\<And>p q. pos_ok X p \<Longrightarrow> q \<in> set (f p) \<Longrightarrow> onward X b p q"
  shows "pos_ok X p \<Longrightarrow> q \<in> set (reps f ng 0 n p) \<Longrightarrow> onward X True p q"
proof (induction n arbitrary: p)
  case (Suc n)
  then have "q = p \<or> (\<exists>p'. p' \<in> set (f p) \<and> q \<in> set (reps f ng 0 n p'))" by (auto split: if_splits)
  then show ?case
  proof (elim disjE exE conjE)
    fix p' assume p': "p' \<in> set (f p)" "q \<in> set (reps f ng 0 n p')"
    have "onward X b p p'" using f Suc.prems(1) p'(1) by blast
    with Suc.IH [OF onward_pos p'(2)] show ?thesis using onward_trans onward_weak by blast
  qed (use Suc.prems onward_refl in blast)
qed (use onward_refl in auto)

lemma reps_onward:
  assumes f: "\<And>p q. pos_ok X p \<Longrightarrow> q \<in> set (f p) \<Longrightarrow> onward X b p q"
  shows "pos_ok X p \<Longrightarrow> q \<in> set (reps f ng m n p) \<Longrightarrow> onward X (b \<or> m = 0) p q"
proof (induction m arbitrary: p)
  case 0
  then show ?case using reps_onward_more [of X f b p q ng n] f by simp
next
  case (Suc m)
  then obtain p' where p': "p' \<in> set (f p)" "q \<in> set (reps f ng m n p')" by auto
  have b: "onward X b p p'" using f Suc.prems(1) p'(1) by blast
  have "onward X (b \<and> (b \<or> m = 0)) p q" by (rule onward_trans [OF b Suc.IH [OF onward_pos [OF b] p'(2)]])
  then show ?case by (rule onward_weak) blast
qed

lemma results_onward:
  assumes X: "text_ok X"
  shows "pos_ok X p \<Longrightarrow> q \<in> set (results X nd p) \<Longrightarrow> onward X (re_isemptynd nd) p q"
proof (induction nd arbitrary: p q)
  case (P_ALT x y)
  from P_ALT.prems consider "q \<in> set (results X x p)" | "q \<in> set (results X y p)" by auto
  then show ?case
  proof cases
    case 1
    then have "onward X (re_isemptynd x) p q" using P_ALT by blast
    then show ?thesis by (rule onward_weak) simp
  next
    case 2
    then have "onward X (re_isemptynd y) p q" using P_ALT by blast
    then show ?thesis by (rule onward_weak) simp
  qed
next
  case (P_BRA x n)
  then obtain q' where q': "q' \<in> set (results X x (opened_cap n p))" "q = closed_cap n q'" by auto
  have "pos_ok X (opened_cap n p)" using P_BRA.prems by (simp add: pos_ok_def opened_cap_def)
  from P_BRA.IH [OF this q'(1)] show ?case using q'(2) by (simp add: onward_def pos_ok_def opened_cap_def closed_cap_def)
next
  case (P_CAT x y)
  then obtain p' where p': "p' \<in> set (results X x p)" "q \<in> set (results X y p')" by auto
  have b: "onward X (re_isemptynd x) p p'" using P_CAT.IH(1) P_CAT.prems(1) p'(1) .
  show ?case using onward_trans [OF b P_CAT.IH(2) [OF onward_pos [OF b] p'(2)]] by simp
next
  case (P_LA x)
  then obtain q' where "q' \<in> set (results X x p)" "q = (fst p, snd q')" by (cases "results X x p") auto
  have "onward X (re_isemptynd x) p q'" using P_LA.IH P_LA.prems(1) \<open>q' \<in> set (results X x p)\<close> .
  with P_LA.prems(1) \<open>q = (fst p, snd q')\<close> show ?case by (simp add: onward_def pos_ok_def)
next
  case (P_REP x ng mn mx)
  have "onward X (re_isemptynd x \<or> unat mn = 0) p q" using P_REP.prems by (intro reps_onward [of X "results X x"] P_REP.IH) auto
  then show ?case by (simp add: unat_eq_zero)
qed (auto simp: char_results_onward [OF X] onward_refl split: if_splits)

subsection \<open>Nodes that leave no choice\<close>

text \<open>
  Such a node changes no counter: from any stack the machine goes to the place after the code with the node's only
  result, or drops the thread.
\<close>

definition leads :: "re_ctx \<Rightarrow> slre_instruction list \<Rightarrow> nat \<Rightarrow> re_pos \<Rightarrow> nat \<Rightarrow> re_pos list \<Rightarrow> bool" where
  "leads X Q a p b qs \<longleftrightarrow>
     (\<forall>P S r P'. map erase P = Q \<longrightarrow> runs X P (map (\<lambda>q. (b, fst q, snd q)) qs @ S) r P' \<longrightarrow> runs X P ((a, fst p, snd p) # S) r P')"

lemma at_Nil [simp]: "at Q a [] \<longleftrightarrow> a \<le> length Q"
  unfolding at_def by (metis append.left_neutral append_take_drop_id le_add1 length_append length_take min.absorb2)

lemma leads_step:
  assumes "at Q a [i]" "moving i"
    and "\<And>P. re_step X i P a (fst p) (snd p) = Some (case qs of [] \<Rightarrow> None | q # _ \<Rightarrow> Some (P, b, fst q, snd q))" "length qs \<le> 1"
  shows "leads X Q a p b qs"
  unfolding leads_def
proof (intro allI impI)
  fix P S r P' assume P: "map erase P = Q" and r: "runs X P (map (\<lambda>q. (b, fst q, snd q)) qs @ S) r P'"
  have a: "re_action X P a (fst p) (snd p) = Some (Next (case qs of [] \<Rightarrow> None | q # _ \<Rightarrow> Some (P, b, fst q, snd q)))"
    using moving_action [OF P] assms(1-3) by (simp add: at_Cons)
  show "runs X P ((a, fst p, snd p) # S) r P'"
  proof (cases qs)
    case Nil
    then show ?thesis using runs_fail [of X P a "fst p" "snd p" S r P'] a r by simp
  next
    case (Cons q qs')
    then show ?thesis using runs_next [of X P a "fst p" "snd p" P b "fst q" "snd q" S r P'] a r assms(4) by simp
  qed
qed

lemma leads_trans:
  assumes "leads X Q a p b qs" "length qs \<le> 1" "\<And>q. q \<in> set qs \<Longrightarrow> leads X Q b q c (f q)"
  shows "leads X Q a p c (concat (map f qs))"
proof (cases qs)
  case Nil
  then show ?thesis using assms(1) by (simp add: leads_def)
next
  case (Cons q qs')
  then have "qs = [q]" using assms(2) by simp
  then show ?thesis using assms(1,3) by (simp add: leads_def)
qed

lemma char_results_length: "length (char_results X t p) \<le> 1"
  by (simp add: char_results_def split: option.split)

lemma det_length: "det nd \<Longrightarrow> length (results X nd p) \<le> 1"
proof (induction nd arbitrary: p)
  case (P_CAT x y)
  show ?case
  proof (cases "results X x p")
    case (Cons q qs)
    then have "results X x p = [q]" using P_CAT.IH(1) [of p] P_CAT.prems by simp
    then show ?thesis using P_CAT.IH(2) [of q] P_CAT.prems by simp
  qed simp
qed (use char_results_length in auto)

lemma char_if_results:
  assumes "text_ok X" "\<And>c. test c = Some (t c)"
  shows "char_if X test P pc (fst p) (snd p) =
    Some (case char_results X t p of [] \<Rightarrow> None | q # _ \<Rightarrow> Some (P, pc + 1, fst q, snd q))"
  using text_rune_ok [OF assms(1) refl, of "fst p"] assms(2) by (auto simp: char_if_def char_results_def)

lemma leads_char:
  assumes "text_ok X" "at Q a [i]" "moving i" "\<And>c. test c = Some (t c)"
    and "\<And>P. re_step X i P a (fst p) (snd p) = char_if X test P a (fst p) (snd p)"
  shows "leads X Q a p (a + 1) (char_results X t p)"
  using assms char_if_results char_results_length by (intro leads_step) auto

lemma leads_test:
  assumes "at Q a [i]" "moving i" "\<And>P. re_step X i P a (fst p) (snd p) = Some (if t then Some (P, a + 1, fst p, snd p) else None)"
  shows "leads X Q a p (a + 1) (if t then [p] else [])"
  using assms by (intro leads_step) auto

lemma boundary_ok: "text_ok X \<Longrightarrow> pos_ok X p \<Longrightarrow> word_boundary X (fst p) = Some (at_word_boundary X (fst p))"
  by (auto simp: text_ok_def pos_ok_def word_boundary_def at_word_boundary_def byte_is_def)

lemma det_leads:
  assumes X: "text_ok X"
  shows "det nd \<Longrightarrow> plain X nd \<Longrightarrow> pos_ok X p \<Longrightarrow> at Q a (node_code nd a) \<Longrightarrow> leads X Q a p (a + re_nodelen nd) (results X nd p)"
proof (induction nd arbitrary: p a)
  case NULL_node
  then show ?case by (simp add: leads_def)
next
  case (P_BRA x n)
  have n: "n < length (snd p)" and x: "at Q (a + 1) (node_code x (a + 1))" and l: "at Q a [I_LBRA n]" and r: "at Q (a + 1 + re_nodelen x) [I_RBRA n]"
    using P_BRA.prems by (simp_all add: pos_ok_def at_append at_Cons)
  have o: "pos_ok X (opened_cap n p)" using P_BRA.prems by (simp add: pos_ok_def opened_cap_def)
  have "leads X Q a p (a + 1) [opened_cap n p]" using l n by (intro leads_step) (auto simp: opened_cap_def)
  moreover have "leads X Q (a + 1) (opened_cap n p) (a + 1 + re_nodelen x) (results X x (opened_cap n p))"
    using P_BRA.IH [of "opened_cap n p" "a + 1"] P_BRA.prems o x by simp
  moreover have "leads X Q (a + 1 + re_nodelen x) q (a + 2 + re_nodelen x) [closed_cap n q]" if "q \<in> set (results X x (opened_cap n p))" for q
    using r P_BRA.prems onward_pos [OF results_onward [OF X o that]]
    by (intro leads_step) (auto simp: closed_cap_def pos_ok_def)
  ultimately have "leads X Q a p (a + 2 + re_nodelen x) (concat (map (\<lambda>q. [closed_cap n q]) (concat (map (\<lambda>p. results X x p) [opened_cap n p]))))"
    using det_length [of x X "opened_cap n p"] P_BRA.prems by (intro leads_trans) auto
  then show ?case by (simp add: add.commute add.left_commute concat_map_singleton)
next
  case (P_CAT x y)
  have "leads X Q a p (a + re_nodelen x) (results X x p)" using P_CAT by (simp add: at_append)
  moreover have "leads X Q (a + re_nodelen x) q (a + re_nodelen x + re_nodelen y) (results X y q)" if "q \<in> set (results X x p)" for q
    using P_CAT onward_pos [OF results_onward [OF X P_CAT.prems(3) that]] by (simp add: at_append)
  ultimately have "leads X Q a p (a + re_nodelen x + re_nodelen y) (concat (map (results X y) (results X x p)))"
    using det_length [of x X p] P_CAT.prems by (intro leads_trans) auto
  then show ?case by (simp add: add.assoc)
next
  case P_ANY
  show ?case using leads_char [OF X, of Q a I_ANY "\<lambda>c. Some (\<not> isnewline c)"] P_ANY.prems by simp
next
  case (P_CH c)
  then show ?case using leads_char [OF X, of Q a "I_CH c" "\<lambda>r. Some (r = c \<or> ignore_case X \<and> tolowerrune r = tolowerrune c)"] by simp
next
  case (P_SET cp)
  then show ?case using leads_char [OF X, of Q a "I_SET cp" "\<lambda>c. in_class (ignore_case X) c cp"] by (simp add: in_class_has)
next
  case (P_SET_N cp)
  then show ?case using leads_char [OF X, of Q a "I_SET_N cp" "\<lambda>c. map_option Not (in_class (ignore_case X) c cp)"] by (simp add: in_class_has)
next
  case P_BOL
  have "re_step X I_BOL P a (fst p) (snd p) = Some (if at_bol X (fst p) then Some (P, a + 1, fst p, snd p) else None)" for P
    using X P_BOL.prems(3) by (auto simp: at_bol_def byte_is_def text_ok_def pos_ok_def)
  then show ?case using leads_test [of Q a I_BOL X p "at_bol X (fst p)"] P_BOL.prems by (simp del: re_step.simps)
next
  case P_EOL
  have "re_step X I_EOL P a (fst p) (snd p) = Some (if at_eol X (fst p) then Some (P, a + 1, fst p, snd p) else None)" for P
    using X P_EOL.prems(3) by (auto simp: at_eol_def byte_is_def text_ok_def pos_ok_def)
  then show ?case using leads_test [of Q a I_EOL X p "at_eol X (fst p)"] P_EOL.prems by (simp del: re_step.simps)
next
  case P_EOS
  then show ?case using leads_test [of Q a I_EOS X p "fst p \<ge> m_end X"] by simp
next
  case P_WORD
  then show ?case using leads_test [of Q a I_WORD X p "at_word_boundary X (fst p)"] boundary_ok [OF X] by simp
next
  case P_WORD_N
  then show ?case using leads_test [of Q a I_WORD_N X p "\<not> at_word_boundary X (fst p)"] boundary_ok [OF X] by simp
qed simp_all

subsection \<open>Outcomes of the code of a node\<close>

lemma first_some_single [simp]: "first_some [x] = x"
  by (cases x) simp_all

text \<open>If every result of the node has the outcome \<open>K\<close> where the code ends, the code has the first outcome of the results.\<close>

definition computes ::
  "re_ctx \<Rightarrow> slre_instruction list \<Rightarrow> nat \<Rightarrow> re_pos \<Rightarrow> nat \<Rightarrow> re_pos list \<Rightarrow> (re_pos \<Rightarrow> slre_cap list option) \<Rightarrow> bool" where
  "computes X Q a p b qs K \<longleftrightarrow>
     ((\<forall>q \<in> set qs. yields X Q b q (K q)) \<longrightarrow> yields X Q a p (first_some (map K qs)))"

lemma computesI: "((\<And>q. q \<in> set qs \<Longrightarrow> yields X Q b q (K q)) \<Longrightarrow> yields X Q a p (first_some (map K qs))) \<Longrightarrow> computes X Q a p b qs K"
  by (simp add: computes_def)

lemma computesD: "computes X Q a p b qs K \<Longrightarrow> (\<And>q. q \<in> set qs \<Longrightarrow> yields X Q b q (K q)) \<Longrightarrow> yields X Q a p (first_some (map K qs))"
  by (simp add: computes_def)

lemma computes_leads:
  assumes "leads X Q a p b qs" "length qs \<le> 1"
  shows "computes X Q a p b qs K"
proof (rule computesI)
  assume K: "\<And>q. q \<in> set qs \<Longrightarrow> yields X Q b q (K q)"
  show "yields X Q a p (first_some (map K qs))"
  proof (cases qs)
    case Nil
    have "runs X P [(a, fst p, snd p)] None P" if "map erase P = Q" for P
      using assms(1) that runs_nil [of X P] unfolding leads_def Nil by fastforce
    then show ?thesis unfolding yields_def Nil by auto
  next
    case (Cons q qs')
    then have q: "qs = [q]" using assms(2) by simp
    show ?thesis unfolding yields_def
    proof (intro allI impI)
      fix P assume P: "map erase P = Q"
      obtain P' where "map erase P' = Q" "runs X P [(b, fst q, snd q)] (K q) P'"
        using K [of q] q P by (auto simp: yields_def)
      then show "\<exists>P'. map erase P' = Q \<and> runs X P [(a, fst p, snd p)] (first_some (map K qs)) P'"
        using assms(1) q P unfolding leads_def by fastforce
    qed
  qed
qed

lemma first_some_flat: "first_some (map K (concat (map f qs))) = first_some (map (\<lambda>q. first_some (map K (f q))) qs)"
  by (simp add: map_concat first_some_concat comp_def)

lemma computes_trans:
  assumes "computes X Q a p b qs (\<lambda>q. first_some (map K (f q)))" "\<And>q. q \<in> set qs \<Longrightarrow> computes X Q b q c (f q) K"
  shows "computes X Q a p c (concat (map f qs)) K"
proof (rule computesI)
  assume K: "\<And>r. r \<in> set (concat (map f qs)) \<Longrightarrow> yields X Q c r (K r)"
  have "yields X Q b q (first_some (map K (f q)))" if "q \<in> set qs" for q
    using computesD [OF assms(2) [OF that]] K that by auto
  from computesD [OF assms(1) this] show "yields X Q a p (first_some (map K (concat (map f qs))))"
    by (simp add: first_some_flat)
qed

lemma computes_split:
  assumes "a < length Q" "Q ! a = I_SPLIT x y" "text_ok X" "computes X Q x p b qs K" "computes X Q y p b rs K"
  shows "computes X Q a p b (qs @ rs) K"
proof (rule computesI)
  assume K: "\<And>r. r \<in> set (qs @ rs) \<Longrightarrow> yields X Q b r (K r)"
  have "yields X Q x p (first_some (map K qs))" "yields X Q y p (first_some (map K rs))"
    using computesD [OF assms(4)] computesD [OF assms(5)] K by simp_all
  from yields_fork [OF assms(1,2) _ this] show "yields X Q a p (first_some (map K (qs @ rs)))"
    using assms(3) by (simp add: text_ok_def first_some_append)
qed

lemma computes_split_at:
  assumes "a < length Q" "Q ! a = split_at ng x y" "text_ok X" "computes X Q x p b qs K" "computes X Q y p b rs K"
  shows "computes X Q a p b (if ng then rs @ qs else qs @ rs) K"
  using computes_split [OF assms(1) _ assms(3)] assms(2,4,5) by (simp add: split_at_def)

lemma computes_here [simp]: "computes X Q b p b [p] K"
  by (simp add: computes_def)

lemma computes_jump:
  assumes "a < length Q" "Q ! a = I_JUMP x" "computes X Q x p b qs K"
  shows "computes X Q a p b qs K"
proof (rule computesI)
  assume "\<And>q. q \<in> set qs \<Longrightarrow> yields X Q b q (K q)"
  with computesD [OF assms(3)] show "yields X Q a p (first_some (map K qs))"
    using yields_next [OF assms(1,2), of X p x p] by simp
qed

subsection \<open>Loops\<close>

text \<open>A loop of a split at \<open>s\<close> whose body takes at least a character and comes back to \<open>s\<close>.\<close>

lemma loop_computes:
  assumes X: "text_ok X" and s: "s < length Q" "Q ! s = split_at ng x b"
    and f: "\<And>p q. pos_ok X p \<Longrightarrow> q \<in> set (f p) \<Longrightarrow> onward X False p q"
    and body: "\<And>p K. pos_ok X p \<Longrightarrow> computes X Q x p s (f p) K"
  shows "pos_ok X p \<Longrightarrow> m_end X - fst p \<le> n \<Longrightarrow> computes X Q s p b (reps f ng 0 n p) K"
proof (induction n arbitrary: p)
  case 0
  have "q \<notin> set (f p)" for q using f [OF 0(1), of q] 0(2) by (auto simp: onward_def pos_ok_def)
  then have "f p = []" by (metis list.set_intros(1) neq_Nil_conv)
  then have "computes X Q x p b [] K" using body [OF 0(1), of K] by (simp add: computes_def)
  from computes_split_at [OF s X this computes_here] show ?case by (simp split: if_splits)
next
  case (Suc n)
  have "computes X Q s q b (reps f ng 0 n q) K" if "q \<in> set (f p)" for q
  proof (rule Suc.IH)
    have "onward X False p q" by (rule f [OF Suc.prems(1) that])
    then have "pos_ok X q" "fst p < fst q" by (simp_all add: onward_def)
    then show "pos_ok X q" "m_end X - fst q \<le> n" using Suc.prems(2) by linarith+
  qed
  then have "computes X Q x p b (concat (map (reps f ng 0 n) (f p))) K" using body [OF Suc.prems(1)] by (intro computes_trans)
  from computes_split_at [OF s X this computes_here] show ?case by (simp split: if_splits)
qed

text \<open>A counted loop whose counter is at \<open>r\<close> and whose body leaves no choice.\<close>

lemma counted_round:
  assumes "map erase P = Q" "leads X Q x p j qs" "length qs \<le> 1" "j < length Q" "Q ! j = I_JUMP r"
    and rest: "\<And>q. q \<in> set qs \<Longrightarrow> \<exists>P'. map erase P' = Q \<and> runs X P [(r, fst q, snd q)] (first_some (map K (g q))) P'"
  shows "\<exists>P'. map erase P' = Q \<and> runs X P [(x, fst p, snd p)] (first_some (map K (concat (map g qs)))) P'"
proof (cases qs)
  case Nil
  have "runs X P [(x, fst p, snd p)] None P"
    using assms(1,2) runs_nil [of X P] unfolding leads_def Nil by fastforce
  then show ?thesis using assms(1) Nil by auto
next
  case (Cons q qs')
  then have q: "qs = [q]" using assms(3) by simp
  obtain P' where P': "map erase P' = Q" "runs X P [(r, fst q, snd q)] (first_some (map K (g q))) P'"
    using rest [of q] q by auto
  have "re_action X P j (fst q) (snd q) = Some (Next (Some (P, r, fst q, snd q)))"
    using moving_action [OF assms(1,4,5)] by simp
  from runs_next [OF this P'(2)] have "runs X P [(x, fst p, snd p)] (first_some (map K (g q))) P'"
    using assms(1,2) q unfolding leads_def by fastforce
  then show ?thesis using P'(1) q by auto
qed

lemma erase_update: "map erase P = Q \<Longrightarrow> Q ! r = I_REP b 0 0 \<Longrightarrow> map erase (P[r := I_REP b m n]) = Q"
  by (metis erase.simps(1) list_update_id map_update)

lemma rep_action:
  assumes "r < length P" "P ! r = I_REP b m n"
  shows "re_action X P r cur sub = Some (Next (Some
    (if m \<noteq> 0 then (P[r := I_REP b (m - 1) n], r + 2, cur, sub)
     else if n = 0 then (P[r := I_REP b m (n - 1)], b, cur, sub)
     else (P[r := I_REP b m (n - 1)], r + 1, cur, sub))))"
  using assms by (simp add: re_action_def)

lemma runs_counter:
  assumes "map erase P = Q" "r < length P" "P ! r = I_REP b m n"
    and "re_action X P r (fst p) (snd p) = Some (Next (Some (P1, pc1, fst p, snd p)))"
    and "\<exists>P'. map erase P' = Q \<and> runs X P1 [(pc1, fst p, snd p)] y P'"
  shows "\<exists>P'. map erase P' = Q \<and> runs X P [(r, fst p, snd p)] y P'"
  using assms(5) runs_next [OF assms(4)] by blast

lemma counted_runs:
  assumes X: "text_ok X" and Q: "r + 1 < length Q" "Q ! r = I_REP b 0 0" "Q ! (r + 1) = I_SPLIT (r + 2) b" "j < length Q" "Q ! j = I_JUMP r"
    and body: "\<And>p. pos_ok X p \<Longrightarrow> leads X Q (r + 2) p j (f p)" "\<And>p. length (f p) \<le> 1"
    and f: "\<And>p q. pos_ok X p \<Longrightarrow> q \<in> set (f p) \<Longrightarrow> pos_ok X q"
  shows "map erase P = Q \<Longrightarrow> P ! r = I_REP b m n \<Longrightarrow> pos_ok X p \<Longrightarrow>
    (\<And>q. q \<in> set (reps f False (unat m) (unat n) p) \<Longrightarrow> yields X Q b q (K q)) \<Longrightarrow>
    \<exists>P'. map erase P' = Q \<and> runs X P [(r, fst p, snd p)] (first_some (map K (reps f False (unat m) (unat n) p))) P'"
proof (induction "unat m + unat n" arbitrary: m n p P)
  case 0
  then have z: "m = 0" "n = 0" by (simp_all add: unat_eq_zero)
  have len: "r < length P" using 0 Q(1) by auto
  have k: "yields X Q b p (K p)" using 0 z by simp
  have "map erase (P[r := I_REP b 0 (- 1)]) = Q" using erase_update 0 Q(2) by blast
  then have "\<exists>P'. map erase P' = Q \<and> runs X (P[r := I_REP b 0 (- 1)]) [(b, fst p, snd p)] (K p) P'"
    using k by (simp add: yields_def)
  from runs_counter [OF _ len _ _ this] show ?case using 0 z rep_action [OF len, of b m n X "fst p" "snd p"] by simp
next
  case (Suc k)
  have len: "r < length P" using Suc Q(1) by auto
  note round = counted_round [OF _ body(1) [OF Suc.prems(3)] body(2) Q(4,5)]
  show ?case
  proof (cases "m = 0")
    case False
    then have um: "unat m = Suc (unat (m - 1))" by (simp add: unat_minus_one unat_gt_0)
    let ?P = "P[r := I_REP b (m - 1) n]"
    have e: "map erase ?P = Q" using erase_update Suc.prems(1) Q(2) by blast
    have "\<exists>P'. map erase P' = Q \<and> runs X ?P [(r, fst q, snd q)] (first_some (map K (reps f False (unat (m - 1)) (unat n) q))) P'"
      if q: "q \<in> set (f p)" for q
    proof -
      have "yields X Q b r (K r)" if "r \<in> set (reps f False (unat (m - 1)) (unat n) q)" for r using Suc.prems(4) [of r] um q that by auto
      moreover have "pos_ok X q" by (rule f [OF Suc.prems(3) q])
      moreover have "?P ! r = I_REP b (m - 1) n" using len by simp
      ultimately show ?thesis using Suc.hyps(1) [of "m - 1" "n" ?P q] Suc.hyps(2) um e by simp
    qed
    from round [OF e this] um
    have "\<exists>P'. map erase P' = Q \<and> runs X ?P [(r + 2, fst p, snd p)] (first_some (map K (reps f False (unat m) (unat n) p))) P'" by simp
    from runs_counter [OF Suc.prems(1) len Suc.prems(2) _ this] show ?thesis using False rep_action [OF len Suc.prems(2)] by simp
  next
    case True
    then have n: "n \<noteq> 0" using Suc.hyps(2) by auto
    then have un: "unat n = Suc (unat (n - 1))" by (simp add: unat_minus_one unat_gt_0)
    let ?P = "P[r := I_REP b 0 (n - 1)]" and ?g = "reps f False 0 (unat (n - 1))"
    have e: "map erase ?P = Q" using erase_update Suc.prems(1) Q(2) by blast
    have "\<exists>P'. map erase P' = Q \<and> runs X ?P [(r, fst q, snd q)] (first_some (map K (?g q))) P'"
      if q: "q \<in> set (f p)" for q
    proof -
      have "yields X Q b r (K r)" if "r \<in> set (?g q)" for r using Suc.prems(4) [of r] un True q that by auto
      moreover have "pos_ok X q" by (rule f [OF Suc.prems(3) q])
      moreover have "?P ! r = I_REP b 0 (n - 1)" using len by simp
      ultimately show ?thesis using Suc.hyps(1) [of "0" "n - 1" ?P q] Suc.hyps(2) un True e by simp
    qed
    from round [OF e this]
    obtain P1 where P1: "map erase P1 = Q" "runs X ?P [(r + 2, fst p, snd p)] (first_some (map K (concat (map ?g (f p))))) P1" by auto
    have k: "yields X Q b p (K p)" using Suc.prems(4) True un by simp
    have a: "re_action X ?P (r + 1) (fst p) (snd p) = Some (Fork (r + 2) b)"
      using erase_at [OF e Q(1,3)] by (simp add: re_action_def)
    obtain P2 where P2: "map erase P2 = Q" "runs X ?P [(r + 2, fst p, snd p), (b, fst p, snd p)]
        (case first_some (map K (concat (map ?g (f p)))) of None \<Rightarrow> K p | Some x \<Rightarrow> Some x) P2"
      using runs_two [OF P1(2) e P1(1)] k unfolding yields_def by blast
    from runs_fork [OF a _ P2(2)] X P2(1)
    have "\<exists>P'. map erase P' = Q \<and> runs X ?P [(r + 1, fst p, snd p)] (first_some (map K (reps f False (unat m) (unat n) p))) P'"
      using True un by (auto simp: text_ok_def first_some_append split: option.splits)
    from runs_counter [OF Suc.prems(1) len Suc.prems(2) _ this] show ?thesis using True n rep_action [OF len Suc.prems(2)] by simp
  qed
qed

subsection \<open>The code of a node\<close>

lemma counted_computes:
  assumes X: "text_ok X" and Q: "r < length Q" "Q ! r = I_REP_INI m n" "r + 2 < length Q" "Q ! (r + 1) = I_REP b 0 0"
      "Q ! (r + 2) = I_SPLIT (r + 3) b" "j < length Q" "Q ! j = I_JUMP (r + 1)"
    and body: "\<And>p. pos_ok X p \<Longrightarrow> leads X Q (r + 3) p j (f p)" "\<And>p. length (f p) \<le> 1"
    and f: "\<And>p q. pos_ok X p \<Longrightarrow> q \<in> set (f p) \<Longrightarrow> pos_ok X q" and p: "pos_ok X p"
  shows "computes X Q r p b (reps f False (unat m) (unat n) p) K"
proof (rule computesI)
  assume K: "\<And>q. q \<in> set (reps f False (unat m) (unat n) p) \<Longrightarrow> yields X Q b q (K q)"
  show "yields X Q r p (first_some (map K (reps f False (unat m) (unat n) p)))"
    unfolding yields_def
  proof (intro allI impI)
    fix P assume P: "map erase P = Q"
    have len: "r < length P" "r + 1 < length P" "r + 2 < length P" using P Q(3) by auto
    have "P ! r = I_REP_INI m n" using erase_at [OF P Q(1,2)] by simp
    moreover have "erase (P ! (r + 1)) = I_REP b 0 0" using P Q(4) len by auto
    then obtain m' n' where "P ! (r + 1) = I_REP b m' n'" by (cases "P ! (r + 1)") auto
    ultimately have a: "re_action X P r (fst p) (snd p) = Some (Next (Some (P[r + 1 := I_REP b m n], r + 1, fst p, snd p)))"
      using len by (simp add: re_action_def)
    have e: "map erase (P[r + 1 := I_REP b m n]) = Q" using erase_update [OF P Q(4)] .
    have "\<exists>P'. map erase P' = Q \<and> runs X (P[r + 1 := I_REP b m n]) [(r + 1, fst p, snd p)]
        (first_some (map K (reps f False (unat m) (unat n) p))) P'"
      by (rule counted_runs [OF X _ Q(4) _ Q(6,7) _ body(2) f e _ p K]) (use Q body(1) len in \<open>simp_all add: numeral_eq_Suc\<close>)
    then show "\<exists>P'. map erase P' = Q \<and> runs X P [(r, fst p, snd p)] (first_some (map K (reps f False (unat m) (unat n) p))) P'"
      using runs_next [OF a] by blast
  qed
qed

lemma look_computes:
  assumes X: "text_ok X" and Q: "a < length Q" "Q ! a = (if pos then I_LA x b else I_LA_N x b)" "j < length Q" "Q ! j = I_END"
    and body: "\<And>K. computes X Q x p j qs K"
  shows "computes X Q a p b (if pos then case qs of [] \<Rightarrow> [] | q # _ \<Rightarrow> [(fst p, snd q)] else if qs = [] then [p] else []) K"
proof (rule computesI)
  assume K: "\<And>q. q \<in> set (if pos then case qs of [] \<Rightarrow> [] | q # _ \<Rightarrow> [(fst p, snd q)] else if qs = [] then [p] else []) \<Longrightarrow> yields X Q b q (K q)"
  have "yields X Q x p (first_some (map (\<lambda>q. Some (snd q)) qs))"
    using computesD [OF body] yields_found [OF Q(3,4)] by simp
  from yields_look [OF Q(1,2) _ this]
  show "yields X Q a p (first_some (map K (if pos then case qs of [] \<Rightarrow> [] | q # _ \<Rightarrow> [(fst p, snd q)] else if qs = [] then [p] else [])))"
    using K X by (cases pos; cases qs) (simp_all add: text_ok_def)
qed

lemma rep_code:
  assumes "mx = SLRE_MAX_REP \<and> mn = 0 \<Longrightarrow> A" "mx = SLRE_MAX_REP \<and> mn = 1 \<Longrightarrow> A" "mx = 0 \<Longrightarrow> mn = 0 \<Longrightarrow> A" "mn = 1 \<Longrightarrow> mx = 1 \<Longrightarrow> A"
    "mx \<noteq> SLRE_MAX_REP \<Longrightarrow> mx \<noteq> 0 \<Longrightarrow> \<not> (mn = 1 \<and> mx = 1) \<Longrightarrow> det x \<Longrightarrow> \<not> ng \<Longrightarrow> A" "plain X (P_REP x ng mn mx)"
  shows A
proof -
  have "mn = 0 \<or> mn = 1" if "mn \<le> 1"
    using that by (auto simp: word_le_nat_alt word_unat_eq_iff)
  moreover have "mn = 0" if "mn \<le> mx" "mx = 0" using that by simp
  ultimately show A using assms by (cases "mx = 0") (auto split: if_splits)
qed

lemma det_computes:
  "text_ok X \<Longrightarrow> det nd \<Longrightarrow> plain X nd \<Longrightarrow> pos_ok X p \<Longrightarrow> at Q a (node_code nd a) \<Longrightarrow>
    \<forall>K. computes X Q a p (a + re_nodelen nd) (results X nd p) K"
  by (intro allI computes_leads det_leads det_length)

lemma below_max_rep: "mx = SLRE_MAX_REP \<or> \<not> SLRE_MAX_REP \<le> mx"
proof (cases "SLRE_MAX_REP \<le> mx")
  case True
  then have "65535 \<le> unat mx" by (simp add: SLRE_MAX_REP_def word_le_nat_alt)
  moreover have "unat mx < 2 ^ LENGTH(16)" by (rule unsigned_less)
  ultimately show ?thesis by (simp add: SLRE_MAX_REP_def word_unat_eq_iff)
qed simp

lemma node_computes:
  assumes X: "text_ok X"
  shows "plain X nd \<Longrightarrow> pos_ok X p \<Longrightarrow> at Q a (node_code nd a) \<Longrightarrow> \<forall>K. computes X Q a p (a + re_nodelen nd) (results X nd p) K"
proof (induction nd arbitrary: p a)
  case (P_ALT x y)
  let ?b = "a + re_nodelen (P_ALT x y)"
  have x: "computes X Q (a + 1) p (a + 1 + re_nodelen x) (results X x p) K" for K
    using P_ALT.IH(1) [of p "a + 1"] P_ALT.prems by (simp add: at_append at_Cons)
  have "computes X Q (a + 1) p ?b (concat (map (\<lambda>q. [q]) (results X x p))) K" for K
    by (rule computes_trans [OF x computes_jump [OF _ _ computes_here]]) (use P_ALT.prems in \<open>simp_all add: at_append at_Cons add.assoc\<close>)
  moreover have "computes X Q (a + re_nodelen x + 2) p ?b (results X y p) K" for K
    using P_ALT.IH(2) [of p "a + re_nodelen x + 2"] P_ALT.prems by (simp add: at_append at_Cons numeral_eq_Suc add.assoc)
  ultimately show ?case
    using computes_split [OF _ _ X, of a Q "a + 1" "a + re_nodelen x + 2" p ?b "results X x p" _ "results X y p"] P_ALT.prems
    by (simp add: at_Cons)
next
  case (P_BRA x n)
  let ?b = "a + 1 + re_nodelen x"
  have n: "n < SLRE_MAX_CAPS" "n < length (snd p)" and x: "at Q (a + 1) (node_code x (a + 1))" and l: "at Q a [I_LBRA n]" and r: "at Q ?b [I_RBRA n]"
    using P_BRA.prems by (auto simp: pos_ok_def at_append at_Cons)
  have o: "pos_ok X (opened_cap n p)" using P_BRA.prems by (simp add: pos_ok_def opened_cap_def)
  have 1: "computes X Q a p (a + 1) [opened_cap n p] K" for K
    using l n by (intro computes_leads leads_step) (auto simp: opened_cap_def)
  have 2: "computes X Q (a + 1) (opened_cap n p) ?b (results X x (opened_cap n p)) K" for K
    using P_BRA.IH [of "opened_cap n p" "a + 1"] P_BRA.prems o x by simp
  have 3: "computes X Q ?b q (a + 2 + re_nodelen x) [closed_cap n q] K" if "q \<in> set (results X x (opened_cap n p))" for q K
    using r n onward_pos [OF results_onward [OF X o that]]
    by (intro computes_leads leads_step) (auto simp: closed_cap_def pos_ok_def)
  have 4: "computes X Q (a + 1) (opened_cap n p) (a + 2 + re_nodelen x) (concat (map (\<lambda>q. [closed_cap n q]) (results X x (opened_cap n p)))) K" for K
    by (rule computes_trans [OF 2 3])
  have "computes X Q a p (a + 2 + re_nodelen x) (concat (map (\<lambda>q. concat (map (\<lambda>q. [closed_cap n q]) (results X x q))) [opened_cap n p])) K" for K
    by (rule computes_trans [OF 1]) (use 4 in simp)
  then show ?case by (simp add: add.commute add.left_commute concat_map_singleton)
next
  case (P_CAT x y)
  have x: "computes X Q a p (a + re_nodelen x) (results X x p) K" for K using P_CAT by (simp add: at_append)
  have y: "computes X Q (a + re_nodelen x) q (a + re_nodelen x + re_nodelen y) (results X y q) K" if "q \<in> set (results X x p)" for q K
    using P_CAT onward_pos [OF results_onward [OF X P_CAT.prems(2) that]] by (simp add: at_append)
  show ?case using computes_trans [OF x y] by (simp add: add.assoc)
next
  case (P_LA x)
  have "computes X Q (a + 1) p (a + 1 + re_nodelen x) (results X x p) K" for K
    using P_LA.IH [of p "a + 1"] P_LA.prems by (simp add: at_append at_Cons)
  from look_computes [OF X _ _ _ _ this, of a True "a + re_nodelen x + 2"] show ?case
    using P_LA.prems by (simp add: at_append at_Cons numeral_eq_Suc)
next
  case (P_LA_N x)
  have "computes X Q (a + 1) p (a + 1 + re_nodelen x) (results X x p) K" for K
    using P_LA_N.IH [of p "a + 1"] P_LA_N.prems by (simp add: at_append at_Cons)
  from look_computes [OF X _ _ _ _ this, of a False "a + re_nodelen x + 2"] show ?case
    using P_LA_N.prems by (simp add: at_append at_Cons numeral_eq_Suc)
next
  case (P_REP x ng mn mx)
  let ?f = "results X x" and ?l = "re_nodelen x"
  have f: "onward X (re_isemptynd x) p q" if "pos_ok X p" "q \<in> set (?f p)" for p q using results_onward [OF X that] .
  have big: "SLRE_MAX_REP \<noteq> 0" "SLRE_MAX_REP \<noteq> 1" by (simp_all add: SLRE_MAX_REP_def)
  have px: "plain X x" using P_REP.prems by simp
  show ?case
  proof (rule rep_code [OF _ _ _ _ _ P_REP.prems(1)])
    assume m: "mx = SLRE_MAX_REP \<and> mn = 0"
    then have strict: "onward X False p q" if "pos_ok X p" "q \<in> set (?f p)" for p q
      using f [OF that] P_REP.prems(1) by simp
    have Q: "a < length Q" "Q ! a = split_at ng (a + 1) (a + ?l + 2)" "at Q (a + 1) (node_code x (a + 1))" "a + 1 + ?l < length Q" "Q ! (a + 1 + ?l) = I_JUMP a"
      using P_REP.prems(3) m big by (simp_all add: at_append at_Cons)
    have x: "computes X Q (a + 1) p (a + 1 + ?l) (?f p) K" if "pos_ok X p" for p K
      using P_REP.IH [OF px that Q(3)] by simp
    have "computes X Q (a + 1) p a (?f p) K" if "pos_ok X p" for p K
      using computes_trans [OF x [OF that] computes_jump [OF Q(4,5) computes_here]] by simp
    from loop_computes [OF X Q(1,2) strict this P_REP.prems(2) order_refl] show ?thesis using m big by simp
  next
    assume m: "mx = SLRE_MAX_REP \<and> mn = 1"
    then have strict: "onward X False p q" if "pos_ok X p" "q \<in> set (?f p)" for p q
      using f [OF that] P_REP.prems(1) by simp
    have Q: "a + ?l < length Q" "Q ! (a + ?l) = split_at ng a (a + ?l + 1)" "at Q a (node_code x a)"
      using P_REP.prems(3) m big by (simp_all add: at_append at_Cons)
    have x: "computes X Q a p (a + ?l) (?f p) K" if "pos_ok X p" for p K
      using P_REP.IH [OF px that Q(3)] by simp
    have "computes X Q (a + ?l) q (a + ?l + 1) (reps ?f ng 0 (m_end X - fst p) q) K" if "q \<in> set (?f p)" for q K
      using strict [OF P_REP.prems(2) that]
      by (intro loop_computes [OF X Q(1,2) strict x]) (auto simp: onward_def)
    from computes_trans [OF x [OF P_REP.prems(2)] this] show ?thesis using m big by simp
  next
    assume "mx = 0" "mn = 0"
    then show ?thesis using big by simp
  next
    assume m: "mn = 1" "mx = 1"
    have "at Q a (node_code x a)" using P_REP.prems(3) m big by simp
    moreover have "reps ?f ng 0 0 = (\<lambda>p. [p])" by (rule ext) simp
    ultimately show ?thesis using P_REP.IH [OF px P_REP.prems(2), of a] m big by simp
  next
    assume m: "mx \<noteq> SLRE_MAX_REP" "mx \<noteq> 0" "\<not> (mn = 1 \<and> mx = 1)" "det x" "\<not> ng"
    have le: "mn \<le> mx" using P_REP.prems(1) by simp
    have "\<not> SLRE_MAX_REP \<le> mx" using m(1) below_max_rep by blast
    then have c: "node_code (P_REP x ng mn mx) a = [I_REP_INI mn (mx - mn), I_REP (a + ?l + 4) 0 0, split_at ng (a + 3) (a + ?l + 4)] @ node_code x (a + 3) @ [I_JUMP (a + 1)]"
      and l: "re_nodelen (P_REP x ng mn mx) = ?l + 4"
      using m by (auto simp: Let_def)
    have Q: "a < length Q" "Q ! a = I_REP_INI mn (mx - mn)" "a + 2 < length Q" "Q ! (a + 1) = I_REP (a + ?l + 4) 0 0"
        "Q ! (a + 2) = I_SPLIT (a + 3) (a + ?l + 4)" "a + 3 + ?l < length Q" "Q ! (a + 3 + ?l) = I_JUMP (a + 1)" "at Q (a + 3) (node_code x (a + 3))"
      using P_REP.prems(3) m unfolding c by (simp_all add: at_append at_Cons split_at_def numeral_eq_Suc)
    have n: "unat (mx - mn) = unat mx - unat mn" using le by (simp add: unat_sub)
    show ?thesis unfolding l
      using counted_computes [OF X Q(1-7) det_leads [OF X m(4) px _ Q(8)] det_length [OF m(4)] onward_pos [OF f] P_REP.prems(2)] m n
      by (simp add: add.assoc)
  qed
next
  case (P_REF x n)
  then show ?case by simp
qed (rule det_computes [OF X]; simp)+

subsection \<open>A whole program\<close>

text \<open>
  The places where a match can start are tried from the first one on; the whole match is the group 0.
\<close>

definition matches :: "re_ctx \<Rightarrow> slre_node \<Rightarrow> nat \<Rightarrow> slre_cap list \<Rightarrow> re_pos list" where
  "matches X nd cur caps =
     concat (map (results X (P_BRA nd 0)) (reps (char_results X (\<lambda>c. True)) True 0 (m_end X - cur) (cur, caps)))"

lemma program_yields:
  assumes X: "text_ok X" "plain X nd" "m_bol X \<le> cur" "cur \<le> m_end X" "length caps = SLRE_MAX_CAPS"
  shows "yields X (program nd) 0 (cur, caps) (map_option snd (case matches X nd cur caps of [] \<Rightarrow> None | q # _ \<Rightarrow> Some q))"
proof -
  let ?Q = "program nd" and ?any = "char_results X (\<lambda>c. True)"
  have p: "pos_ok X (cur, caps)" using X by (simp add: pos_ok_def)
  have "at ?Q 0 (program nd)" unfolding at_def by (intro exI [of _ "[]"]) simp
  then have Q: "0 < length ?Q" "?Q ! 0 = split_at True 1 3" "at ?Q 1 [I_ANYNL]" "2 < length ?Q" "?Q ! 2 = I_JUMP 0"
      "at ?Q 3 (node_code (P_BRA nd 0) 3)" "re_nodelen nd + 5 < length ?Q" "?Q ! (re_nodelen nd + 5) = I_END"
    unfolding program_def by (auto simp: at_append at_Cons split_at_def numeral_eq_Suc nth_append)
  have any: "onward X False p q" if "pos_ok X p" "q \<in> set (?any p)" for p q
    using char_results_onward [OF X(1) that] .
  have 1: "computes X ?Q 1 p 2 (?any p) K" for p K
    using leads_char [OF X(1) Q(3), of "\<lambda>c. Some True" "\<lambda>c. True" p] char_results_length
    by (intro computes_leads) (simp_all add: numeral_eq_Suc)
  have "computes X ?Q 1 p 0 (?any p) K" for p K
    using computes_trans [OF 1 computes_jump [OF Q(4,5) computes_here], of p] by simp
  then have start: "computes X ?Q 0 (cur, caps) 3 (reps ?any True 0 (m_end X - cur) (cur, caps)) K" for K
    by (intro loop_computes [OF X(1) Q(1,2) any]) (auto simp: p)
  have "computes X ?Q 3 q (re_nodelen nd + 5) (results X (P_BRA nd 0) q) K"
    if "q \<in> set (reps ?any True 0 (m_end X - cur) (cur, caps))" for q K
  proof -
    have "pos_ok X q" using reps_onward [of X ?any False "(cur, caps)" q] any p that by (auto simp: onward_def)
    then show ?thesis using node_computes [OF X(1), of "P_BRA nd 0" q ?Q 3] X(2) Q(6)
      by (simp add: SLRE_MAX_CAPS_def add.commute del: node_code.simps results.simps)
  qed
  from computes_trans [OF start this] have "computes X ?Q 0 (cur, caps) (re_nodelen nd + 5) (matches X nd cur caps) K" for K
    by (simp add: matches_def del: results.simps)
  from computesD [OF this, of "\<lambda>q. Some (snd q)"] yields_found [OF Q(7,8)]
  have "yields X ?Q 0 (cur, caps) (first_some (map (\<lambda>q. Some (snd q)) (matches X nd cur caps)))" by simp
  then show ?thesis by (cases "matches X nd cur caps") simp_all
qed


end
