(* ===== verification/SlreSafe.thy ===== *)
theory SlreSafe
  imports Slre
begin

text \<open>
  The parser of regular expressions on any pattern that a zero follows: it never reads beyond the zero, never writes
  beyond its buffer of nodes, and the fuel of the model is enough. What is left to read bounds all three.
\<close>

subsection \<open>Outcomes\<close>

text \<open>A result that is there and, when it is no error, has a property.\<close>

definition safe :: "'a re \<Rightarrow> ('a \<Rightarrow> bool) \<Rightarrow> bool" where
  "safe r S \<longleftrightarrow> (case r of None \<Rightarrow> False | Some (Inl err) \<Rightarrow> True | Some (Inr x) \<Rightarrow> S x)"

lemma safe_throw [simp]: "safe (SLRE_THROW err) S"
  by (simp add: safe_def SLRE_THROW_def)

lemma safe_ok [simp]: "safe (ok x) S \<longleftrightarrow> S x"
  by (simp add: safe_def ok_def)

lemma safe_seq: "safe r R \<Longrightarrow> (\<And>x. R x \<Longrightarrow> safe (f x) S) \<Longrightarrow> safe (seq r f) S"
  by (cases r; cases "the r") (auto simp: safe_def seq_def)

lemma safe_if: "(b \<Longrightarrow> safe x S) \<Longrightarrow> (\<not> b \<Longrightarrow> safe y S) \<Longrightarrow> safe (if b then x else y) S"
  by simp

lemma seq_assoc: "seq (seq r f) g = seq r (\<lambda>x. seq (f x) g)"
  by (simp add: seq_def split: option.split sum.split)

lemma safe_weak: "safe r R \<Longrightarrow> (\<And>x. R x \<Longrightarrow> S x) \<Longrightarrow> safe r S"
  by (auto simp: safe_def split: option.splits sum.splits)

subsection \<open>Characters\<close>

definition pat_ok :: "pattern \<Rightarrow> bool" where
  "pat_ok p \<longleftrightarrow> src_end p < length (pat p) \<and> pat p ! src_end p = 0 \<and> nodes_max p = 2 * src_end p"

lemma xdigits_zero:
  "d < length s \<Longrightarrow> s ! d = 0 \<Longrightarrow> sorted is \<Longrightarrow> distinct is \<Longrightarrow> d \<in> set is \<Longrightarrow> xdigits s is = Some []"
proof (induction "is")
  case (Cons i "is")
  have d: "\<not> isxdigit 0" by (simp add: isxdigit_def)
  show ?case
  proof (cases "i = d")
    case False
    then have "d \<in> set is" "i \<le> d" "is \<noteq> []" using Cons.prems by auto
    then show ?thesis using Cons by auto
  qed (use Cons.prems d in simp)
qed simp

lemma xdigits_some: "\<forall>i \<in> set is. i < length s \<Longrightarrow> \<exists>xs. xdigits s is = Some xs"
  by (induction "is") auto

lemma xdigits_four: "\<exists>xs. (xs = [] \<or> d > 4) \<and> xdigits s [1, 2, 3, 4] = Some xs" "\<exists>xs. (xs = [] \<or> d > 2) \<and> xdigits s [1, 2] = Some xs"
  if "d < length s" "s ! d = 0" "d \<noteq> 0"
  using xdigits_zero [OF that(1,2), of "[1, 2, 3, 4]"] xdigits_some [of "[1, 2, 3, 4]" s]
    xdigits_zero [OF that(1,2), of "[1, 2]"] xdigits_some [of "[1, 2]" s] that
  by (cases "d \<le> 4"; cases "d \<le> 2"; auto simp: numeral_eq_Suc le_Suc_eq)+

lemma xdigits_nonneg: "xdigits s is = Some xs \<Longrightarrow> x \<in> set xs \<Longrightarrow> 0 \<le> x"
proof (induction "is" arbitrary: xs)
  case (Cons i "is")
  have "0 \<le> hex c" if "isxdigit c" for c
    using that by (auto simp: isxdigit_def hex_def word_le_def)
  then show ?case using Cons by (auto split: if_splits bind_splits)
qed simp

text \<open>An escape sequence may take the zero, but then it is no digit.\<close>

lemma nextesc_zero:
  assumes "d < length s" "s ! d = 0"
  shows "\<exists>i j. nextesc s = Some (i, j) \<and> 0 < j \<and> j \<le> d + 1 \<and> (j = d + 1 \<longrightarrow> \<not> isdigitrune (word_of_int i)) \<and>
    (i = - SLRE_INVALID_ESC_CHAR \<longrightarrow> 0 < d \<and> j = 1)"
proof (cases "s ! 0 = 0")
  case True
  then show ?thesis using assms
    by (auto simp: nextesc_def SLRE_UNTERM_ESC_SEQ_def SLRE_INVALID_ESC_CHAR_def isdigitrune_def)
next
  case False
  then have d: "d \<noteq> 0" "0 < length s" using assms by (metis, auto)
  obtain xs ys where "xdigits s [1, 2, 3, 4] = Some xs" "xs = [] \<or> d > 4" "xdigits s [1, 2] = Some ys" "ys = [] \<or> d > 2"
    using xdigits_four [OF assms d(1)] by blast
  moreover have "push_bit 12 a OR push_bit 8 b OR push_bit 4 c OR e \<noteq> - 3" if "xs = [a, b, c, e]" for a b c e
  proof -
    have "0 \<le> push_bit 12 a OR push_bit 8 b OR push_bit 4 c OR e"
      using xdigits_nonneg [OF \<open>xdigits s [1, 2, 3, 4] = Some xs\<close>] that by (simp add: or_nonnegative_int_iff)
    then show ?thesis by linarith
  qed
  moreover have "push_bit 4 a OR b \<noteq> - 3" if "ys = [a, b]" for a b
  proof -
    have "0 \<le> push_bit 4 a OR b"
      using xdigits_nonneg [OF \<open>xdigits s [1, 2] = Some ys\<close>] that by (simp add: or_nonnegative_int_iff)
    then show ?thesis by linarith
  qed
  moreover have "\<not> isdigitrune 3" by (simp add: isdigitrune_def)
  ultimately show ?thesis using d False
    by (auto simp: nextesc_def SLRE_INVALID_HEX_DIGIT_def SLRE_INVALID_ESC_CHAR_def simp del: xdigits.simps split: list.split)
qed

text \<open>The next character, where \<open>s'\<close> may be one behind the end.\<close>

definition next_ok :: "pattern \<Rightarrow> nat \<Rightarrow> bool \<Rightarrow> rune \<Rightarrow> nat \<Rightarrow> bool" where
  "next_ok p s esc r s' \<longleftrightarrow>
     (if s \<ge> src_end p then s' = s \<and> \<not> esc \<and> r = 0
      else s < s' \<and> (esc \<longrightarrow> isdigitrune r \<longrightarrow> s' \<le> src_end p) \<and>
        (\<not> esc \<longrightarrow> s' \<le> src_end p \<and> (r < 128 \<longrightarrow> pat p ! s = ucast r)))"

lemma nextc_ok:
  assumes p: "pat_ok p"
  shows "\<exists>esc r s'. re_nextc (pat p) s (src_end p) = Some (esc, r, s') \<and> next_ok p s esc r s'"
proof (cases "s < src_end p")
  case True
  let ?T = "pat p" and ?n = "src_end p"
  have z: "?n - t < length (drop t ?T)" "drop t ?T ! (?n - t) = 0" if "t \<le> ?n" for t
    using p that by (auto simp: pat_ok_def)
  obtain r k where r: "chartorune (drop s ?T) = Some (r, k)" "0 < k" "k \<le> ?n - s"
    using chartorune_zero [OF z, of s] True by fastforce
  have sk: "s + k \<le> ?n" using r \<open>s < ?n\<close> by linarith
  show ?thesis
  proof (cases "r = 92")
    case False
    then have "re_nextc ?T s ?n = Some (False, r, s + k)" using r(1) True by (simp add: re_nextc_def)
    moreover have "r < 128 \<Longrightarrow> ?T ! s = ucast r" using chartorune_small [OF r(1)] True p by (auto simp: pat_ok_def)
    ultimately show ?thesis using r(2) sk \<open>s < ?n\<close> by (intro exI [of _ False] exI [of _ r] exI [of _ "s + k"]) (simp add: next_ok_def)
  next
    case True
    obtain i j where i: "nextesc (drop (s + k) ?T) = Some (i, j)" "0 < j" "j \<le> ?n - (s + k) + 1"
        "j = ?n - (s + k) + 1 \<longrightarrow> \<not> isdigitrune (word_of_int i)" "i = - SLRE_INVALID_ESC_CHAR \<longrightarrow> 0 < ?n - (s + k) \<and> j = 1"
      using nextesc_zero [OF z [OF sk]] by (elim exE conjE) (rule that)
    show ?thesis
    proof (cases "i = - SLRE_INVALID_ESC_CHAR")
      case True
      obtain r' l where "chartorune (drop (s + k) ?T) = Some (r', l)" "0 < l" "l \<le> max 1 (?n - (s + k))"
        using chartorune_zero [OF z [OF sk]] by blast
      moreover from this have "re_nextc ?T s ?n = Some (True, r', s + k + l)"
        using True \<open>r = 92\<close> r(1) i(1) \<open>s < ?n\<close> by (simp add: re_nextc_def)
      moreover have "s + k + l \<le> ?n" using i(5) True \<open>l \<le> max 1 (?n - (s + k))\<close> sk by auto
      ultimately show ?thesis using \<open>s < ?n\<close> r(2) by (intro exI [of _ True] exI [of _ r'] exI [of _ "s + k + l"]) (simp add: next_ok_def)
    next
      case False
      have "isdigitrune (word_of_int i) \<longrightarrow> s + k + j \<le> ?n" using i(3,4) sk by linarith
      moreover have "re_nextc ?T s ?n = Some (True, word_of_int i, s + k + j)"
        using False \<open>r = 92\<close> r(1) i(1) \<open>s < ?n\<close> by (simp add: re_nextc_def)
      ultimately show ?thesis using \<open>s < ?n\<close> r(2)
        by (intro exI [of _ True] exI [of _ "word_of_int i"] exI [of _ "s + k + j"]) (simp add: next_ok_def)
    qed
  qed
qed (auto simp: re_nextc_def next_ok_def)

subsection \<open>Lexer\<close>

definition frame :: "slre_env \<Rightarrow> slre_env \<Rightarrow> bool" where
  "frame e e' \<longleftrightarrow> pend e' = pend e \<and> caps_nd e' = caps_nd e \<and> num_captures e' = num_captures e \<and> src e \<le> src e'"

definition still :: "slre_env \<Rightarrow> slre_env \<Rightarrow> bool" where
  "still e e' \<longleftrightarrow> frame e e' \<and> src e' = src e"

lemma frame_trans: "frame e e' \<Longrightarrow> frame e' e'' \<Longrightarrow> frame e e''"
  by (simp add: frame_def)

lemma still_seq:
  assumes "safe r (still e)" "\<And>e'. safe (f e') (still e')"
  shows "safe (seq r f) (still e)"
proof (rule safe_seq [OF assms(1)])
  fix x assume "still e x"
  then show "safe (f x) (still e)" by (intro safe_weak [OF assms(2)]) (simp add: still_def frame_def)
qed

lemma nextc_env_safe:
  "pat_ok p \<Longrightarrow> safe (re_nextc_env p e) (\<lambda>(esc, e'). frame e e' \<and> next_ok p (src e) esc (curr_rune e') (src e'))"
  using nextc_ok [of p "src e"] by (auto simp: re_nextc_env_def frame_def next_ok_def split: if_splits)

lemma rng2set_still: "safe (re_rng2set s t e) (still e)"
  by (simp add: re_rng2set_def still_def frame_def)

lemma classes_still:
  "safe (re_char2set c e) (still e)" "safe (re_nchset e) (still e)" "safe (re_d_2set e) (still e)" "safe (re_D_2set e) (still e)"
  "safe (re_s_2set e) (still e)" "safe (re_S_2set e) (still e)" "safe (re_w_2set e) (still e)" "safe (re_W_2set e) (still e)"
proof -
  note r = rng2set_still
  show c: "safe (re_char2set c e) (still e)" for c e using r by (simp add: re_char2set_def)
  show "safe (re_nchset e) (still e)" by (simp add: re_nchset_def still_def frame_def)
  show d: "safe (re_d_2set e) (still e)" for e using r by (simp add: re_d_2set_def)
  show "safe (re_D_2set e) (still e)" "safe (re_s_2set e) (still e)" "safe (re_S_2set e) (still e)"
      "safe (re_w_2set e) (still e)" "safe (re_W_2set e) (still e)"
    unfolding re_D_2set_def re_s_2set_def re_S_2set_def re_w_2set_def re_W_2set_def by (intro still_seq r c d)+
qed

lemma ok_still: "safe (ok e) (still e)"
  by (simp add: still_def frame_def)

lemma class_2set_still: "safe (class_2set c e) (still e)"
  using classes_still ok_still by (simp add: class_2set_def)

lemma frame_rune [simp]: "still (e\<lparr>curr_rune := r\<rparr>) e' \<longleftrightarrow> still e e'"
  by (simp add: still_def frame_def)

lemma still_refl [simp]: "still e e"
  by (simp add: still_def frame_def)

lemma still_pair: "safe r (still e) \<Longrightarrow> safe (seq r (\<lambda>e. ok (x, e))) (\<lambda>(st, e'). still e e')"
  by (rule safe_seq) simp_all

lemma item_still: "safe (lexset_item esc st e) (\<lambda>(st', e'). still e e')"
proof -
  obtain ch ch_fl dash_fl where st: "st = (ch, ch_fl, dash_fl)" by (cases st) auto
  let ?r = "if ch_fl then seq (re_char2set ch e) (\<lambda>e. if dash_fl then re_char2set 45 e else ok e) else ok e"
  have "safe ?r (still e)" using ok_still classes_still(1) by (auto intro!: still_seq)
  then have "safe (seq ?r (\<lambda>e. seq (class_2set (curr_rune e) e) (\<lambda>e. ok (x, e)))) (\<lambda>(st', e'). still e e')" for x :: "rune \<times> bool \<times> bool"
  proof (rule safe_seq)
    fix e' assume e': "still e e'"
    show "safe (seq (class_2set (curr_rune e') e') (\<lambda>e. ok (x, e))) (\<lambda>(st', e'). still e e')"
      by (rule safe_weak [OF still_pair [OF class_2set_still]]) (use e' in \<open>auto simp: still_def frame_def\<close>)
  qed
  moreover have "safe (seq (re_rng2set ch c (e\<lparr>curr_rune := r\<rparr>)) (\<lambda>e. ok (x, e))) (\<lambda>(st', e'). still e e')"
      "safe (seq (re_char2set ch (e\<lparr>curr_rune := r\<rparr>)) (\<lambda>e. ok (x, e))) (\<lambda>(st', e'). still e e')"
      "safe (seq (re_rng2set ch c e) (\<lambda>e. ok (x, e))) (\<lambda>(st', e'). still e e')"
      "safe (seq (re_char2set ch e) (\<lambda>e. ok (x, e))) (\<lambda>(st', e'). still e e')" for c r and x :: "rune \<times> bool \<times> bool"
    using still_pair [OF rng2set_still [of ch c "e\<lparr>curr_rune := r\<rparr>"], of x] still_pair [OF rng2set_still [of ch c e], of x]
      still_pair [OF classes_still(1) [of ch "e\<lparr>curr_rune := r\<rparr>"], of x]
      still_pair [OF classes_still(1) [of ch e], of x] by simp_all
  moreover have "still e (e\<lparr>curr_rune := r\<rparr>)" for r by (simp add: still_def frame_def)
  ultimately show ?thesis unfolding st lexset_item_def by (cases ch_fl; cases dash_fl) (simp_all add: Let_def)
qed

lemma next_rest: "next_ok p s esc r s' \<Longrightarrow> src_end p - s' < src_end p - s \<or> src_end p - s' = 0 \<and> s \<ge> src_end p \<and> \<not> esc \<and> r = 0"
  by (auto simp: next_ok_def split: if_splits)

lemma lexset_loop_safe:
  "pat_ok p \<Longrightarrow> src_end p - src e + 2 \<le> f \<or> 0 < f \<and> curr_rune e = 0 \<and> \<not> esc \<Longrightarrow>
    safe (lexset_loop f p esc st e) (\<lambda>(st', e'). frame e e')"
proof (induction f arbitrary: esc st e)
  case (Suc f)
  have e: "frame e e" by (simp add: frame_def)
  have step: "safe (lexset_loop f p esc2 st2 e2) (\<lambda>(st', e'). frame e e')"
    if "src_end p - src e + 2 \<le> Suc f" "still e e1" "frame e1 e2" "next_ok p (src e1) esc2 (curr_rune e2) (src e2)" for esc2 st2 e1 e2
  proof -
    have "src_end p - src e2 + 2 \<le> f \<or> 0 < f \<and> curr_rune e2 = 0 \<and> \<not> esc2"
      using next_rest [OF that(4)] that(1,2) by (auto simp: still_def)
    from Suc.IH [OF Suc.prems(1) this] show ?thesis
      by (rule safe_weak) (use that(2,3) in \<open>auto simp: still_def frame_def\<close>)
  qed
  have "safe (seq (lexset_item esc st e) (\<lambda>(st, e). seq (re_nextc_env p e) (\<lambda>(esc, e). lexset_loop f p esc st e))) (\<lambda>(st', e'). frame e e')"
    if f: "src_end p - src e + 2 \<le> Suc f"
  proof (rule safe_seq [OF item_still], clarify)
    fix a b c e1 assume e1: "still e e1"
    show "safe (seq (re_nextc_env p e1) (\<lambda>(esc, e). lexset_loop f p esc (a, b, c) e)) (\<lambda>(st', e'). frame e e')"
      by (rule safe_seq [OF nextc_env_safe [OF Suc.prems(1)]]) (use step [OF f e1] in auto)
  qed
  then have "\<not> (curr_rune e = 0 \<and> \<not> esc) \<Longrightarrow> curr_rune e \<noteq> 0 \<Longrightarrow> ?case" using Suc.prems(2) e by simp
  then show ?case using e by (cases "curr_rune e = 0") simp_all
qed simp

lemma frame_refl [simp]: "frame e e"
  by (simp add: frame_def)

lemma frame_still: "frame e e' \<Longrightarrow> still e' e'' \<Longrightarrow> frame e e''"
  by (simp add: still_def frame_def)

lemma re_lexset_safe:
  assumes p: "pat_ok p"
  shows "safe (re_lexset p e) (\<lambda>(t, e'). frame e e' \<and> (t = L_CHSET \<or> t = L_SET_N))"
  unfolding re_lexset_def
proof (rule safe_seq [OF classes_still(2)])
  fix e1 assume e1: "still e e1"
  show "safe (seq (re_nextc_env p e1) (\<lambda>(esc, e).
     seq (if \<not> esc \<and> curr_rune e = 94 then seq (re_nextc_env p e) (\<lambda>(esc, e). ok (L_SET_N, esc, e)) else ok (L_CHSET, esc, e)) (\<lambda>(type, esc, e).
     seq (lexset_loop (src_end p + 2) p esc (0, False, False) e) (\<lambda>((ch, ch_fl, dash_fl), e).
     if ch_fl then seq (re_char2set ch e) (\<lambda>e. seq (if dash_fl then re_char2set 45 e else ok e) (\<lambda>e. ok (type, e)))
     else ok (type, e))))) (\<lambda>(t, e'). frame e e' \<and> (t = L_CHSET \<or> t = L_SET_N))"
  proof (rule safe_seq [OF nextc_env_safe [OF p]], clarify)
    fix esc e2 assume e2: "frame e1 e2"
    let ?R = "\<lambda>(type, esc' :: bool, e3). frame e2 e3 \<and> (type = L_CHSET \<or> type = L_SET_N)"
    show "safe (seq (if \<not> esc \<and> curr_rune e2 = 94 then seq (re_nextc_env p e2) (\<lambda>(esc, e). ok (L_SET_N, esc, e)) else ok (L_CHSET, esc, e2)) (\<lambda>(type, esc, e).
     seq (lexset_loop (src_end p + 2) p esc (0, False, False) e) (\<lambda>((ch, ch_fl, dash_fl), e).
     if ch_fl then seq (re_char2set ch e) (\<lambda>e. seq (if dash_fl then re_char2set 45 e else ok e) (\<lambda>e. ok (type, e)))
     else ok (type, e)))) (\<lambda>(t, e'). frame e e' \<and> (t = L_CHSET \<or> t = L_SET_N))"
    proof (rule safe_seq [of _ ?R])
      show "safe (if \<not> esc \<and> curr_rune e2 = 94 then seq (re_nextc_env p e2) (\<lambda>(esc, e). ok (L_SET_N, esc, e)) else ok (L_CHSET, esc, e2)) ?R"
        using safe_seq [OF nextc_env_safe [OF p, of e2], of "\<lambda>(esc, e). ok (L_SET_N, esc, e)" ?R] by auto
    next
      fix x assume "?R x"
      then obtain type esc' e3 where x: "x = (type, esc', e3)" "frame e2 e3" "type = L_CHSET \<or> type = L_SET_N" by (cases x) auto
      have fr: "frame e e3" using e1 e2 x(2) by (simp add: still_def frame_def)
      have "safe (seq (lexset_loop (src_end p + 2) p esc' (0, False, False) e3) (\<lambda>((ch, ch_fl, dash_fl), e).
         if ch_fl then seq (re_char2set ch e) (\<lambda>e. seq (if dash_fl then re_char2set 45 e else ok e) (\<lambda>e. ok (type, e)))
         else ok (type, e))) (\<lambda>(t, e'). frame e e' \<and> (t = L_CHSET \<or> t = L_SET_N))"
      proof (rule safe_seq [OF lexset_loop_safe [OF p]], goal_cases)
        case (2 y)
        then obtain ch ch_fl dash_fl e4 where y: "y = ((ch, ch_fl, dash_fl), e4)" "frame e3 e4" by (cases y) auto
        have "safe (seq (re_char2set ch e4) (\<lambda>e. if dash_fl then re_char2set 45 e else ok e)) (still e4)"
          using ok_still classes_still(1) by (auto intro!: still_seq)
        then have "safe (seq (seq (re_char2set ch e4) (\<lambda>e. if dash_fl then re_char2set 45 e else ok e)) (\<lambda>e. ok (type, e)))
          (\<lambda>(t, e'). frame e e' \<and> (t = L_CHSET \<or> t = L_SET_N))"
          by (rule safe_seq) (use frame_trans [OF fr y(2)] frame_still x(3) in auto)
        then show ?case using frame_trans [OF fr y(2)] x(3) by (simp add: y(1) seq_assoc)
      qed simp
      then show "safe (case x of (type, esc, e) \<Rightarrow>
         seq (lexset_loop (src_end p + 2) p esc (0, False, False) e) (\<lambda>((ch, ch_fl, dash_fl), e).
         if ch_fl then seq (re_char2set ch e) (\<lambda>e. seq (if dash_fl then re_char2set 45 e else ok e) (\<lambda>e. ok (type, e)))
         else ok (type, e))) (\<lambda>(t, e'). frame e e' \<and> (t = L_CHSET \<or> t = L_SET_N))" by (simp add: x(1))
    qed
  qed
qed

lemma src_byte_safe: "src e < length (pat p) \<Longrightarrow> safe (src_byte p e) (\<lambda>e'. frame e e' \<and> src e' = src e + 1)"
  by (simp add: src_byte_def frame_def)

lemma dec_digit_safe: "safe (re_dec_digit c) (\<lambda>d. True)"
  by (simp add: re_dec_digit_def)

lemma count_min_safe: "src_end p < length (pat p) \<Longrightarrow> src_end p - src e + 1 \<le> f \<Longrightarrow> safe (count_min f p e) (frame e)"
proof (induction f arbitrary: e)
  case (Suc f)
  show ?case
  proof (cases "src e < src_end p")
    case True
    then have b: "src e < length (pat p)" using Suc.prems(1) by simp
    have "safe (seq (src_byte p e) (\<lambda>e. if re_endofcount (curr_rune e) then ok e
        else seq (re_dec_digit (uint (curr_rune e))) (\<lambda>d. let m = min_rep e * 10 + d in
          if m \<ge> uint SLRE_MAX_REP then SLRE_THROW SLRE_NUM_OVERFLOW else count_min f p (e\<lparr>min_rep := m\<rparr>)))) (frame e)"
    proof (rule safe_seq [OF src_byte_safe [OF b]])
      fix e1 assume e1: "frame e e1 \<and> src e1 = src e + 1"
      have "safe (count_min f p (e1\<lparr>min_rep := m\<rparr>)) (frame e)" for m
        by (rule safe_weak [OF Suc.IH]) (use Suc.prems e1 True in \<open>auto simp: frame_def\<close>)
      then show "safe (if re_endofcount (curr_rune e1) then ok e1 else seq (re_dec_digit (uint (curr_rune e1))) (\<lambda>d. let m = min_rep e1 * 10 + d in
          if m \<ge> uint SLRE_MAX_REP then SLRE_THROW SLRE_NUM_OVERFLOW else count_min f p (e1\<lparr>min_rep := m\<rparr>))) (frame e)"
        using e1 by (auto simp: Let_def intro: safe_seq [OF dec_digit_safe])
    qed
    then show ?thesis using True by simp
  qed simp
qed simp

lemma count_max_safe: "src_end p < length (pat p) \<Longrightarrow> src_end p - src e + 1 \<le> f \<Longrightarrow> safe (count_max f p e) (frame e)"
proof (induction f arbitrary: e)
  case (Suc f)
  show ?case
  proof (cases "src e < src_end p")
    case True
    then have b: "src e < length (pat p)" using Suc.prems(1) by simp
    have "safe (seq (src_byte p e) (\<lambda>e. if curr_rune e = 125 then ok e
        else seq (re_dec_digit (uint (curr_rune e))) (\<lambda>d. let m = max_rep e * 10 + d in
          if m \<ge> uint SLRE_MAX_REP then SLRE_THROW SLRE_NUM_OVERFLOW else count_max f p (e\<lparr>max_rep := m\<rparr>)))) (frame e)"
    proof (rule safe_seq [OF src_byte_safe [OF b]])
      fix e1 assume e1: "frame e e1 \<and> src e1 = src e + 1"
      have "safe (count_max f p (e1\<lparr>max_rep := m\<rparr>)) (frame e)" for m
        by (rule safe_weak [OF Suc.IH]) (use Suc.prems e1 True in \<open>auto simp: frame_def\<close>)
      then show "safe (if curr_rune e1 = 125 then ok e1 else seq (re_dec_digit (uint (curr_rune e1))) (\<lambda>d. let m = max_rep e1 * 10 + d in
          if m \<ge> uint SLRE_MAX_REP then SLRE_THROW SLRE_NUM_OVERFLOW else count_max f p (e1\<lparr>max_rep := m\<rparr>))) (frame e)"
        using e1 by (auto simp: Let_def intro: safe_seq [OF dec_digit_safe])
    qed
    then show ?thesis using True by simp
  qed simp
qed simp

lemma frame_counts [simp]: "frame e (e'\<lparr>max_rep := m\<rparr>) \<longleftrightarrow> frame e e'" "frame (e\<lparr>max_rep := m\<rparr>) e' \<longleftrightarrow> frame e e'"
  "frame (e\<lparr>min_rep := m\<rparr>) e' \<longleftrightarrow> frame e e'"
  by (simp_all add: frame_def)

lemma re_countrep_safe:
  assumes p: "pat_ok p"
  shows "safe (re_countrep p e) (\<lambda>(t, e'). frame e e' \<and> t = L_COUNT)"
  unfolding re_countrep_def
proof (rule safe_seq)
  show "safe (count_min (src_end p + 1) p (e\<lparr>min_rep := 0\<rparr>)) (frame e)"
    by (rule safe_weak [OF count_min_safe]) (use p in \<open>auto simp: pat_ok_def\<close>)
next
  fix e1 assume e1: "frame e e1"
  have "safe (count_max (src_end p + 1) p (e1\<lparr>max_rep := 0\<rparr>)) (frame e1)"
    by (rule safe_weak [OF count_max_safe]) (use p in \<open>auto simp: pat_ok_def\<close>)
  then have "safe (seq (count_max (src_end p + 1) p (e1\<lparr>max_rep := 0\<rparr>))
       (\<lambda>e. ok (L_COUNT, if max_rep e = 0 then e\<lparr>max_rep := uint SLRE_MAX_REP\<rparr> else e))) (\<lambda>(t, e'). frame e e' \<and> t = L_COUNT)"
    by (rule safe_seq) (use frame_trans [OF e1] in auto)
  then show "safe (if curr_rune e1 \<noteq> 44 then ok (L_COUNT, e1\<lparr>max_rep := min_rep e1\<rparr>)
     else seq (count_max (src_end p + 1) p (e1\<lparr>max_rep := 0\<rparr>))
       (\<lambda>e. ok (L_COUNT, if max_rep e = 0 then e\<lparr>max_rep := uint SLRE_MAX_REP\<rparr> else e))) (\<lambda>(t, e'). frame e e' \<and> t = L_COUNT)"
    using e1 by simp
qed

text \<open>The opening parentheses that are left.\<close>

definition parens :: "pattern \<Rightarrow> nat \<Rightarrow> nat" where
  "parens p s = card {i. s \<le> i \<and> i < src_end p \<and> pat p ! i = 40}"

lemma parens_mono: "s \<le> s' \<Longrightarrow> parens p s' \<le> parens p s"
  unfolding parens_def by (rule card_mono) auto

lemma parens_less:
  assumes "s < s'" "s < src_end p" "pat p ! s = 40"
  shows "parens p s' + 1 \<le> parens p s"
proof -
  have "parens p s' + 1 = card (insert s {i. s' \<le> i \<and> i < src_end p \<and> pat p ! i = 40})"
    using assms(1) by (simp add: parens_def)
  also have "\<dots> \<le> parens p s" unfolding parens_def by (rule card_mono) (use assms in auto)
  finally show ?thesis .
qed

text \<open>What a token takes.\<close>

definition token :: "pattern \<Rightarrow> slre_env \<Rightarrow> lexeme \<Rightarrow> slre_env \<Rightarrow> bool" where
  "token p e t e' \<longleftrightarrow>
     frame e e' \<and> (if src e < src_end p then src e < src e' else t = Sym 0) \<and>
     parens p (src e') + (if t = Sym 40 then 1 else 0) \<le> parens p (src e)"

lemma tokenI:
  "frame e e' \<Longrightarrow> src e < src_end p \<Longrightarrow> src e < src e' \<Longrightarrow> t \<noteq> Sym 40 \<Longrightarrow> token p e t e'"
  using parens_mono [of "src e" "src e'" p] by (simp add: token_def)

lemma re_lexer_safe:
  assumes p: "pat_ok p"
  shows "safe (re_lexer p e) (\<lambda>(t, e'). token p e t e')"
  unfolding re_lexer_def
proof (rule safe_seq [OF nextc_env_safe [OF p]], clarify)
  fix esc e1 assume e1: "frame e e1" and n: "next_ok p (src e) esc (curr_rune e1) (src e1)"
  let ?c = "curr_rune e1"
  have len: "src_end p < length (pat p)" using p by (simp add: pat_ok_def)
  show "safe (let c = curr_rune e1 in
     if esc then
       if c = 48 then ok (L_EOS, e1\<lparr>curr_rune := 0\<rparr>)
       else if c = 98 then ok (L_WORD, e1)
       else if c = 66 then ok (L_WORD_N, e1)
       else if c = 100 then seq (seq (re_nchset e1) re_d_2set) (\<lambda>e. ok (L_CHSET, e))
       else if c = 68 then seq (seq (re_nchset e1) re_d_2set) (\<lambda>e. ok (L_SET_N, e))
       else if c = 115 then seq (seq (re_nchset e1) re_s_2set) (\<lambda>e. ok (L_CHSET, e))
       else if c = 83 then seq (seq (re_nchset e1) re_s_2set) (\<lambda>e. ok (L_SET_N, e))
       else if c = 119 then seq (seq (re_nchset e1) re_w_2set) (\<lambda>e. ok (L_CHSET, e))
       else if c = 87 then seq (seq (re_nchset e1) re_w_2set) (\<lambda>e. ok (L_SET_N, e))
       else if isdigitrune c then
         seq (char_at p (src e1)) (\<lambda>b.
         if isdigitrune (scast b)
         then ok (L_REF, e1\<lparr>curr_rune := (c - 48) * 10 + scast b - 48, src := src e1 + 1\<rparr>)
         else ok (L_REF, e1\<lparr>curr_rune := c - 48\<rparr>))
       else ok (L_CH, e1)
     else if is_regex p then
       if c \<in> set [0, 36, 41, 42, 43, 46, 63, 94, 124] then ok (Sym c, e1)
       else if c = 123 then re_countrep p e1
       else if c = 91 then re_lexset p e1
       else if c = 40 then
         seq (char_at p (src e1)) (\<lambda>b.
         if b = 63 then
           seq (char_at p (src e1 + 1)) (\<lambda>d.
           if d = 61 then ok (L_LA, e1\<lparr>src := src e1 + 2\<rparr>)
           else if d = 58 then ok (L_LA_CAP, e1\<lparr>src := src e1 + 2\<rparr>)
           else if d = 33 then ok (L_LA_N, e1\<lparr>src := src e1 + 2\<rparr>)
           else ok (Sym 40, e1))
         else ok (Sym 40, e1))
       else ok (L_CH, e1)
     else if c = 0 then ok (Sym 0, e1)
     else ok (L_CH, e1)) (\<lambda>(t, e'). token p e t e')"
  proof (cases "src e < src_end p")
    case False
    then have "\<not> esc" "?c = 0" "src e1 = src e" using n by (auto simp: next_ok_def)
    then show ?thesis using e1 False by (simp add: token_def)
  next
    case True
    have s: "src e < src e1" using n True by (simp add: next_ok_def)
    have t: "token p e t e2" if "frame e1 e2" "t \<noteq> Sym 40" for t e2
      using frame_trans [OF e1 that(1)] s that by (intro tokenI [OF _ True]) (auto simp: frame_def)
    have set: "safe (seq (seq (re_nchset e1) f) (\<lambda>e. ok (t, e))) (\<lambda>(t, e'). token p e t e')"
      if "\<And>e. safe (f e) (still e)" "t \<noteq> Sym 40" for f t
      by (rule safe_seq [OF still_seq [OF classes_still(2) that(1)]]) (use t that(2) in \<open>simp add: still_def\<close>)
    have dig: "safe (seq (char_at p (src e1)) (\<lambda>b. if isdigitrune (scast b)
         then ok (L_REF, e1\<lparr>curr_rune := (?c - 48) * 10 + scast b - 48, src := src e1 + 1\<rparr>)
         else ok (L_REF, e1\<lparr>curr_rune := ?c - 48\<rparr>))) (\<lambda>(t, e'). token p e t e')" if "esc" "isdigitrune ?c"
    proof (rule safe_seq [of _ "\<lambda>b. True"])
      have "src e1 < length (pat p)" using n that True len by (simp add: next_ok_def)
      then show "safe (char_at p (src e1)) (\<lambda>b. True)" by (simp add: char_at_def safe_def)
    qed (auto intro!: t simp: frame_def)
    have cnt: "safe (re_countrep p e1) (\<lambda>(t, e'). token p e t e')" "safe (re_lexset p e1) (\<lambda>(t, e'). token p e t e')"
      by (rule safe_weak [OF re_countrep_safe [OF p]], use t in auto)
        (rule safe_weak [OF re_lexset_safe [OF p]], use t in auto)
    have par: "safe (seq (char_at p (src e1)) (\<lambda>b.
         if b = 63 then
           seq (char_at p (src e1 + 1)) (\<lambda>d.
           if d = 61 then ok (L_LA, e1\<lparr>src := src e1 + 2\<rparr>)
           else if d = 58 then ok (L_LA_CAP, e1\<lparr>src := src e1 + 2\<rparr>)
           else if d = 33 then ok (L_LA_N, e1\<lparr>src := src e1 + 2\<rparr>)
           else ok (Sym 40, e1))
         else ok (Sym 40, e1))) (\<lambda>(t, e'). token p e t e')" if "\<not> esc" "?c = 40"
    proof -
      have n': "src e1 \<le> src_end p" "pat p ! src e = 40" using n that True by (auto simp: next_ok_def)
      have k: "token p e (Sym 40) e1" using parens_less [OF s True n'(2)] e1 s by (simp add: token_def True)
      have l: "token p e t (e1\<lparr>src := src e1 + 2\<rparr>)" if "t \<noteq> Sym 40" for t by (rule t) (use that in \<open>simp_all add: frame_def\<close>)
      have "safe (char_at p (src e1)) (\<lambda>b. b = 63 \<longrightarrow> src e1 < src_end p)"
        using n'(1) p by (cases "src e1 = src_end p") (auto simp: char_at_def safe_def pat_ok_def)
      then show ?thesis
      proof (rule safe_seq)
        fix b :: u8 assume b: "b = 63 \<longrightarrow> src e1 < src_end p"
        have "safe (char_at p (src e1 + 1)) (\<lambda>b. True)" if "b = 63"
          using b that len by (simp add: char_at_def safe_def)
        then have "safe (seq (char_at p (src e1 + 1)) (\<lambda>d.
           if d = 61 then ok (L_LA, e1\<lparr>src := src e1 + 2\<rparr>)
           else if d = 58 then ok (L_LA_CAP, e1\<lparr>src := src e1 + 2\<rparr>)
           else if d = 33 then ok (L_LA_N, e1\<lparr>src := src e1 + 2\<rparr>)
           else ok (Sym 40, e1))) (\<lambda>(t, e'). token p e t e')" if "b = 63"
          by (rule safe_seq) (use k l that in auto)
        then show "safe (if b = 63 then
           seq (char_at p (src e1 + 1)) (\<lambda>d.
           if d = 61 then ok (L_LA, e1\<lparr>src := src e1 + 2\<rparr>)
           else if d = 58 then ok (L_LA_CAP, e1\<lparr>src := src e1 + 2\<rparr>)
           else if d = 33 then ok (L_LA_N, e1\<lparr>src := src e1 + 2\<rparr>)
           else ok (Sym 40, e1))
         else ok (Sym 40, e1)) (\<lambda>(t, e'). token p e t e')" using k by simp
      qed
    qed
    have sym: "safe (ok (Sym ?c, e1)) (\<lambda>(t, e'). token p e t e')" if "?c \<in> set [0, 36, 41, 42, 43, 46, 63, 94, 124]"
      using that t [of e1 "Sym ?c"] by auto
    have frame: "frame e1 (e1\<lparr>curr_rune := 0\<rparr>)" by (simp add: frame_def)
    show ?thesis
      unfolding Let_def
      by (intro safe_if set classes_still dig par cnt sym; (assumption | (simp add: t frame; fail))?)
  qed
qed

subsection \<open>Parser\<close>

text \<open>
  The tokens that are left at most, and what they bound: a token adds two nodes at most, and with fewer than 31 opening
  parentheses there are at most 31 groups.
\<close>

definition left :: "pattern \<Rightarrow> slre_env \<Rightarrow> nat" where
  "left p e = (src_end p - src e) + (if lookahead e = Sym 0 then 0 else 1)"

definition groups :: "pattern \<Rightarrow> slre_env \<Rightarrow> nat" where
  "groups p e = num_captures e + parens p (src e) + (if lookahead e = Sym 40 then 1 else 0)"

definition good :: "pattern \<Rightarrow> nat \<Rightarrow> nat \<Rightarrow> slre_env \<Rightarrow> bool" where
  "good p N m e \<longleftrightarrow> length (caps_nd e) = SLRE_MAX_CAPS \<and> groups p e < SLRE_MAX_CAPS \<and> pend e + 2 * left p e \<le> N \<and> left p e \<le> m"

lemma good_weak: "good p N m e \<Longrightarrow> N \<le> N' \<Longrightarrow> m \<le> m' \<Longrightarrow> good p N' m' e"
  by (simp add: good_def)

lemma good_more: "good p N m e \<Longrightarrow> lookahead e \<noteq> Sym 0 \<Longrightarrow> 2 \<le> N \<and> 1 \<le> m \<and> pend e + 2 \<le> N"
  by (simp add: good_def left_def)

lemma next_safe:
  assumes p: "pat_ok p" and g: "good p N m e" "lookahead e \<noteq> Sym 0"
  shows "safe (RE_NEXT p e) (\<lambda>e'. good p (N - 2) (m - 1) e' \<and> (lookahead e = Sym 40 \<longrightarrow> Suc (groups p e') < SLRE_MAX_CAPS))"
  unfolding RE_NEXT_def
proof (rule safe_seq [OF re_lexer_safe [OF p]], clarify)
  fix t e' assume t: "token p e t e'"
  let ?e = "e'\<lparr>lookahead := t\<rparr>"
  have "left p ?e + 1 \<le> left p e" using t g(2) by (auto simp: token_def frame_def left_def split: if_splits)
  moreover have "pend ?e = pend e" "length (caps_nd ?e) = length (caps_nd e)" using t by (simp_all add: token_def frame_def)
  moreover have "groups p ?e + (if lookahead e = Sym 40 then 1 else 0) \<le> groups p e"
    using t by (auto simp: token_def groups_def frame_def)
  ultimately show "safe (ok ?e) (\<lambda>e'. good p (N - 2) (m - 1) e' \<and> (lookahead e = Sym 40 \<longrightarrow> Suc (groups p e') < SLRE_MAX_CAPS))"
    using g(1) by (auto simp: good_def)
qed

lemma next_good: "pat_ok p \<Longrightarrow> good p N m e \<Longrightarrow> lookahead e \<noteq> Sym 0 \<Longrightarrow> safe (RE_NEXT p e) (good p (N - 2) (m - 1))"
  by (rule safe_weak [OF next_safe]) auto

lemma accept_good:
  assumes p: "pat_ok p" and g: "good p N m e" "t \<noteq> 0"
  shows "safe (RE_ACCEPT p t e) (\<lambda>(b, e'). good p N m e')"
proof (cases "lookahead e = Sym t")
  case True
  then have "lookahead e \<noteq> Sym 0" using g(2) by simp
  have "safe (seq (RE_NEXT p e) (\<lambda>e. ok (True, e))) (\<lambda>(b, e'). good p N m e')"
    by (rule safe_seq [OF next_good [OF p g(1) \<open>lookahead e \<noteq> Sym 0\<close>]]) (auto intro: good_weak)
  then show ?thesis using True by (simp add: RE_ACCEPT_def)
qed (simp add: RE_ACCEPT_def g(1))

lemma closing_good: "pat_ok p \<Longrightarrow> good p N m e \<Longrightarrow> safe (closing p e) (good p N m)"
  unfolding closing_def by (rule safe_seq [OF accept_good]) auto

lemma nnode_good:
  "pat_ok p \<Longrightarrow> good p N m e \<Longrightarrow> N < 2 * src_end p \<or> N = 2 * src_end p \<and> lookahead e \<noteq> Sym 0 \<Longrightarrow>
    safe (re_nnode p e) (\<lambda>e'. good p (Suc N) m e' \<and> e' = e\<lparr>pend := pend e + 1\<rparr>)"
  by (auto simp: re_nnode_def good_def pat_ok_def left_def groups_def)

lemma nrep_good:
  assumes "pat_ok p" "good p N m e" "N < 2 * src_end p"
  shows "safe (re_nrep p nd ng mn mx e) (\<lambda>(nd, e'). good p (Suc N) m e')"
  unfolding re_nrep_def by (rule safe_seq [OF nnode_good [OF assms(1,2)]]) (use assms(3) in auto)

lemma quantified_good:
  assumes p: "pat_ok p" and g: "good p N m e" "N \<le> 2 * src_end p"
  shows "safe (quantified p nd e) (\<lambda>(nd, e'). good p N m e')"
proof -
  have r: "safe (seq (RE_NEXT p e) (\<lambda>e. if b then SLRE_THROW SLRE_INVALID_QUANTIFIER
      else seq (RE_ACCEPT p 63 e) (\<lambda>(ng, e). re_nrep p nd ng mn mx e))) (\<lambda>(nd, e'). good p N m e')"
    if l: "lookahead e \<noteq> Sym 0" for b mn mx
  proof (rule safe_seq [OF next_good [OF p g(1) l]])
    fix e1 assume e1: "good p (N - 2) (m - 1) e1"
    have nrep: "safe (re_nrep p nd ng mn mx e') (\<lambda>(nd, e'). good p N m e')" if "good p (N - 2) (m - 1) e'" for ng e'
      by (rule safe_weak [OF nrep_good [OF p that]]) (use good_more [OF g(1) l] g(2) in \<open>auto intro: good_weak\<close>)
    have "safe (seq (RE_ACCEPT p 63 e1) (\<lambda>(ng, e). re_nrep p nd ng mn mx e)) (\<lambda>(nd, e'). good p N m e')"
      by (rule safe_seq [OF accept_good [OF p e1]]) (use nrep in auto)
    then show "safe (if b then SLRE_THROW SLRE_INVALID_QUANTIFIER
      else seq (RE_ACCEPT p 63 e1) (\<lambda>(ng, e). re_nrep p nd ng mn mx e)) (\<lambda>(nd, e'). good p N m e')" by simp
  qed
  show ?thesis using r [of False] r g(1) unfolding quantified_def by (auto simp: Let_def)
qed

lemma leaf_good:
  assumes p: "pat_ok p" and g: "good p N m e" "N \<le> 2 * src_end p" "lookahead e \<noteq> Sym 0"
  shows "safe (leaf p nd e) (\<lambda>(nd, e'). good p (N - 1) (m - 1) e')"
  unfolding leaf_def
proof (rule safe_seq [OF nnode_good [OF p g(1)]])
  show "N < 2 * src_end p \<or> N = 2 * src_end p \<and> lookahead e \<noteq> Sym 0" using g by auto
  fix e1 assume e1: "good p (Suc N) m e1 \<and> e1 = e\<lparr>pend := pend e + 1\<rparr>"
  then have "safe (RE_NEXT p e1) (good p (Suc N - 2) (m - 1))" using g(3) by (intro next_good [OF p]) auto
  then show "safe (seq (RE_NEXT p e1) (\<lambda>e. ok (nd, e))) (\<lambda>(nd, e'). good p (N - 1) (m - 1) e')"
    by (rule safe_seq) simp
qed

lemma back_reference_good:
  assumes p: "pat_ok p" and g: "good p N m e" "N \<le> 2 * src_end p" "lookahead e \<noteq> Sym 0"
  shows "safe (back_reference p e) (\<lambda>(nd, e'). good p (N - 1) (m - 1) e')"
  unfolding back_reference_def
proof (rule safe_seq [OF nnode_good [OF p g(1)]])
  show "N < 2 * src_end p \<or> N = 2 * src_end p \<and> lookahead e \<noteq> Sym 0" using g by auto
  fix e1 assume e1: "good p (Suc N) m e1 \<and> e1 = e\<lparr>pend := pend e + 1\<rparr>"
  then have "safe (RE_NEXT p e1) (good p (Suc N - 2) (m - 1))" using g(3) by (intro next_good [OF p]) auto
  then have "safe (seq (RE_NEXT p e1) (\<lambda>e. ok (nd, e))) (\<lambda>(nd, e'). good p (N - 1) (m - 1) e')" for nd
    by (rule safe_seq) simp
  moreover have "num_captures e1 < length (caps_nd e1)" using e1 by (auto simp: good_def groups_def)
  ultimately show "safe (let n = unat (curr_rune e1) in
     if n = 0 \<or> n > num_captures e1 then SLRE_THROW SLRE_INVALID_BACK_REFERENCE
     else if n \<ge> length (caps_nd e1) then None
     else if caps_nd e1 ! n = NULL_node then SLRE_THROW SLRE_INVALID_BACK_REFERENCE
     else seq (RE_NEXT p e1) (\<lambda>e'. ok (P_REF (caps_nd e1 ! n) n, e'))) (\<lambda>(nd, e'). good p (N - 1) (m - 1) e')"
    by (auto simp: Let_def)
qed

text \<open>The three functions, by the depth of their calls.\<close>

definition parser_ok :: "pattern \<Rightarrow> nat \<Rightarrow> bool" where
  "parser_ok p f \<longleftrightarrow> (\<forall>N m e. good p N m e \<longrightarrow> N \<le> 2 * src_end p \<longrightarrow> 2 * m + 1 \<le> f \<longrightarrow> safe (re_parser f p e) (\<lambda>(nd, e'). good p N m e'))"

definition cat_ok :: "pattern \<Rightarrow> nat \<Rightarrow> bool" where
  "cat_ok p f \<longleftrightarrow> (\<forall>N m cat e. good p N m e \<longrightarrow> N < 2 * src_end p \<longrightarrow> 2 * m + 1 \<le> f \<longrightarrow> safe (cat_loop f p cat e) (\<lambda>(nd, e'). good p N m e'))"

definition la_ok :: "pattern \<Rightarrow> nat \<Rightarrow> bool" where
  "la_ok p f \<longleftrightarrow> (\<forall>N m e. good p N m e \<longrightarrow> N \<le> 2 * src_end p \<longrightarrow> lookahead e \<noteq> Sym 0 \<longrightarrow> 2 * m \<le> f \<longrightarrow>
     safe (re_parse_la f p e) (\<lambda>(nd, e'). good p (N - 1) (m - 1) e'))"

lemma la_okD:
  "la_ok p f \<Longrightarrow> good p N m e \<Longrightarrow> N \<le> 2 * src_end p \<Longrightarrow> lookahead e \<noteq> Sym 0 \<Longrightarrow> 2 * m \<le> f \<Longrightarrow>
     safe (re_parse_la f p e) (\<lambda>(nd, e'). good p (N - 1) (m - 1) e')"
  by (simp add: la_ok_def)

lemma parser_okD:
  "parser_ok p f \<Longrightarrow> good p N m e \<Longrightarrow> N \<le> 2 * src_end p \<Longrightarrow> 2 * m + 1 \<le> f \<Longrightarrow> safe (re_parser f p e) (\<lambda>(nd, e'). good p N m e')"
  by (simp add: parser_ok_def)

lemma parser_step:
  assumes p: "pat_ok p" and ok: "parser_ok p f" "cat_ok p f" "la_ok p f"
  shows "parser_ok p (Suc f)"
  unfolding parser_ok_def
proof (intro allI impI)
  fix N m e assume g: "good p N m e" "N \<le> 2 * src_end p" "2 * m + 1 \<le> Suc f"
  have head: "safe (if re_endofcat (lookahead e) (is_regex p) then ok (NULL_node, e)
          else seq (re_parse_la f p e) (\<lambda>(cat, e). cat_loop f p cat e)) (\<lambda>(nd, e'). good p N m e')"
  proof (rule safe_if)
    assume "\<not> re_endofcat (lookahead e) (is_regex p)"
    then have l: "lookahead e \<noteq> Sym 0" by (simp add: re_endofcat_def)
    have la: "safe (re_parse_la f p e) (\<lambda>(nd, e'). good p (N - 1) (m - 1) e')" using ok(3) g l by (simp add: la_ok_def)
    have "safe (cat_loop f p cat e') (\<lambda>(nd, e'). good p N m e')" if "good p (N - 1) (m - 1) e'" for cat e'
    proof (rule safe_weak)
      show "safe (cat_loop f p cat e') (\<lambda>(nd, e'). good p (N - 1) (m - 1) e')"
        using ok(2) that g good_more [OF g(1) l] by (auto simp: cat_ok_def)
    qed (auto intro: good_weak)
    then show "safe (seq (re_parse_la f p e) (\<lambda>(cat, e). cat_loop f p cat e)) (\<lambda>(nd, e'). good p N m e')"
      by (intro safe_seq [OF la]) auto
  qed (use g(1) in simp)
  have tail: "safe (seq (RE_NEXT p e1) (\<lambda>e. seq (re_nnode p e) (\<lambda>e. seq (re_parser f p e) (\<lambda>(y, e). ok (P_ALT alt y, e)))))
      (\<lambda>(nd, e'). good p N m e')" if g1: "good p N m e1" and l: "lookahead e1 = Sym 124" for alt e1
  proof -
    have l': "lookahead e1 \<noteq> Sym 0" using l by simp
    note more = good_more [OF g1 l']
    show ?thesis
    proof (rule safe_seq [OF next_good [OF p g1 l']], rule safe_seq [OF nnode_good [OF p]], assumption)
      show "N - 2 < 2 * src_end p \<or> N - 2 = 2 * src_end p \<and> lookahead e \<noteq> Sym 0" for e using more g(2) by auto
      fix e2 e3 assume "good p (Suc (N - 2)) (m - 1) e3 \<and> e3 = e2\<lparr>pend := pend e2 + 1\<rparr>"
      then have "safe (re_parser f p e3) (\<lambda>(nd, e'). good p (Suc (N - 2)) (m - 1) e')"
        using ok(1) more g(2,3) by (auto simp: parser_ok_def)
      then show "safe (seq (re_parser f p e3) (\<lambda>(y, e). ok (P_ALT alt y, e))) (\<lambda>(nd, e'). good p N m e')"
        by (rule safe_seq) (use more in \<open>auto elim!: good_weak\<close>)
    qed
  qed
  show "safe (re_parser (Suc f) p e) (\<lambda>(nd, e'). good p N m e')"
    unfolding re_parser.simps by (rule safe_seq [OF head]) (use tail in auto)
qed

lemma cat_step:
  assumes p: "pat_ok p" and ok: "cat_ok p f" "la_ok p f"
  shows "cat_ok p (Suc f)"
  unfolding cat_ok_def
proof (intro allI impI)
  fix N m cat e assume g: "good p N m e" "N < 2 * src_end p" "2 * m + 1 \<le> Suc f"
  show "safe (cat_loop (Suc f) p cat e) (\<lambda>(nd, e'). good p N m e')"
  proof (cases "re_endofcat (lookahead e) (is_regex p)")
    case False
    then have l: "lookahead e \<noteq> Sym 0" by (simp add: re_endofcat_def)
    have "safe (seq (re_nnode p e) (\<lambda>e. seq (re_parse_la f p e) (\<lambda>(y, e). cat_loop f p (P_CAT cat y) e))) (\<lambda>(nd, e'). good p N m e')"
    proof (rule safe_seq [OF nnode_good [OF p g(1)]])
      fix e1 assume e1: "good p (Suc N) m e1 \<and> e1 = e\<lparr>pend := pend e + 1\<rparr>"
      have "safe (re_parse_la f p e1) (\<lambda>(nd, e'). good p (Suc N - 1) (m - 1) e')"
        using la_okD [OF ok(2), of "Suc N" m e1] conjunct1 [OF e1] conjunct2 [OF e1] g(2,3) l by simp
      moreover have "safe (cat_loop f p c e') (\<lambda>(nd, e'). good p N m e')" if "good p N (m - 1) e'" for c e'
      proof (rule safe_weak)
        show "safe (cat_loop f p c e') (\<lambda>(nd, e'). good p N (m - 1) e')"
          using ok(1) that g good_more [OF g(1) l] by (auto simp: cat_ok_def)
      qed (auto intro: good_weak)
      ultimately show "safe (seq (re_parse_la f p e1) (\<lambda>(y, e). cat_loop f p (P_CAT cat y) e)) (\<lambda>(nd, e'). good p N m e')"
        by (elim safe_seq) auto
    qed (use g(2) in simp)
    then show ?thesis using False by simp
  qed (use g(1) in simp)
qed

lemma la_step:
  assumes p: "pat_ok p" and ok: "parser_ok p f"
  shows "la_ok p (Suc f)"
  unfolding la_ok_def
proof (intro allI impI)
  fix N m e assume g: "good p N m e" "N \<le> 2 * src_end p" "lookahead e \<noteq> Sym 0" "2 * m \<le> Suc f"
  note more = good_more [OF g(1,3)]
  have n: "N - 2 < 2 * src_end p" "Suc (N - 2) = N - 1" using more g(2) by auto
  have quant: "safe (quantified p nd e') (\<lambda>(nd, e'). good p (N - 1) (m - 1) e')" if "good p (N - 1) (m - 1) e'" for nd e'
    by (rule quantified_good [OF p that]) (use g(2) in simp)
  have node: "safe (re_nnode p e') (\<lambda>e''. good p (N - 1) (m - 1) e'' \<and> e'' = e'\<lparr>pend := pend e' + 1\<rparr>)" if "good p (N - 2) (m - 1) e'" for e'
    using nnode_good [OF p that] n by simp
  have simple: "safe (seq (RE_NEXT p e) (\<lambda>e. seq (re_nnode p e) (\<lambda>e. ok (nd, e)))) (\<lambda>(nd, e'). good p (N - 1) (m - 1) e')" for nd :: slre_node
    by (rule safe_seq [OF next_good [OF p g(1,3)]], rule safe_seq [OF node]) auto
  have dot: "safe (seq (RE_NEXT p e) (\<lambda>e. seq (re_nnode p e) (\<lambda>e. quantified p P_ANY e))) (\<lambda>(nd, e'). good p (N - 1) (m - 1) e')"
    by (rule safe_seq [OF next_good [OF p g(1,3)]], rule safe_seq [OF node]) (auto intro: quant simp del: One_nat_def)
  have inner: "safe (seq (re_parser f p e1) (\<lambda>(x, e). seq (closing p e) (quantified p (h x)))) (\<lambda>(nd, e'). good p (N - 1) (m - 1) e')"
    if e1: "good p (N - 1) (m - 1) e1" for e1 h
  proof (rule safe_seq [OF parser_okD [OF ok e1]])
    fix y :: "slre_node \<times> slre_env" assume "case y of (nd, e') \<Rightarrow> good p (N - 1) (m - 1) e'"
    then show "safe (case y of (x, e) \<Rightarrow> seq (closing p e) (quantified p (h x))) (\<lambda>(nd, e'). good p (N - 1) (m - 1) e')"
      by (cases y) (auto intro!: safe_seq [OF closing_good [OF p]] quant simp del: One_nat_def)
  qed (use g(2,4) more in auto)
  have look: "safe (seq (RE_NEXT p e) (\<lambda>e. seq (re_nnode p e) (\<lambda>e. seq (re_parser f p e) (\<lambda>(x, e). seq (closing p e) (quantified p (h x))))))
      (\<lambda>(nd, e'). good p (N - 1) (m - 1) e')" for h
    by (rule safe_seq [OF next_good [OF p g(1,3)]], rule safe_seq [OF node]) (auto intro: inner simp del: One_nat_def)
  have cap: "safe (seq (RE_NEXT p e) (\<lambda>e. seq (re_parser f p e) (\<lambda>(x, e). seq (closing p e) (quantified p x)))) (\<lambda>(nd, e'). good p (N - 1) (m - 1) e')"
    by (rule safe_seq [OF next_good [OF p g(1,3)]]) (auto intro!: inner [of _ "\<lambda>x. x"] elim: good_weak simp del: One_nat_def)
  have atom: "safe (seq (leaf p nd e) (\<lambda>(nd, e). quantified p nd e)) (\<lambda>(nd, e'). good p (N - 1) (m - 1) e')" for nd
    by (rule safe_seq [OF leaf_good [OF p g(1-3)]]) (auto intro: quant simp del: One_nat_def)
  have ref: "safe (seq (back_reference p e) (\<lambda>(nd, e). quantified p nd e)) (\<lambda>(nd, e'). good p (N - 1) (m - 1) e')"
    by (rule safe_seq [OF back_reference_good [OF p g(1-3)]]) (auto intro: quant simp del: One_nat_def)
  have group: "safe (seq (RE_NEXT p e) (\<lambda>e. seq (re_nnode p e) (\<lambda>e. let k = num_captures e in
            if k = SLRE_MAX_CAPS then SLRE_THROW SLRE_TOO_MANY_CAPTURES
            else seq (re_parser f p (e\<lparr>num_captures := k + 1\<rparr>)) (\<lambda>(x, e).
              let nd = P_BRA x k; e = e\<lparr>caps_nd := (caps_nd e)[k := nd]\<rparr> in
              seq (closing p e) (quantified p nd))))) (\<lambda>(nd, e'). good p (N - 1) (m - 1) e')" if l: "lookahead e = Sym 40"
  proof (rule safe_seq [OF next_safe [OF p g(1,3)]], rule safe_seq [OF node], blast)
    fix e1 e2 assume e1: "good p (N - 2) (m - 1) e1 \<and> (lookahead e = Sym 40 \<longrightarrow> Suc (groups p e1) < SLRE_MAX_CAPS)"
      and e2: "good p (N - 1) (m - 1) e2 \<and> e2 = e1\<lparr>pend := pend e1 + 1\<rparr>"
    have k: "good p (N - 1) (m - 1) (e2\<lparr>num_captures := num_captures e2 + 1\<rparr>)"
      using e1 e2 l by (auto simp: good_def groups_def left_def)
    have set: "good p (N - 1) (m - 1) (e'\<lparr>caps_nd := (caps_nd e')[i := nd]\<rparr>)" if "good p (N - 1) (m - 1) e'" for e' i nd
      using that by (simp add: good_def groups_def left_def)
    have "safe (seq (re_parser f p (e2\<lparr>num_captures := num_captures e2 + 1\<rparr>)) (\<lambda>(x, e).
              let nd = P_BRA x (num_captures e2); e = e\<lparr>caps_nd := (caps_nd e)[num_captures e2 := nd]\<rparr> in
              seq (closing p e) (quantified p nd))) (\<lambda>(nd, e'). good p (N - 1) (m - 1) e')"
    proof (rule safe_seq [OF parser_okD [OF ok k]])
      fix y :: "slre_node \<times> slre_env" assume "case y of (nd, e') \<Rightarrow> good p (N - 1) (m - 1) e'"
      then show "safe (case y of (x, e) \<Rightarrow> let nd = P_BRA x (num_captures e2); e = e\<lparr>caps_nd := (caps_nd e)[num_captures e2 := nd]\<rparr> in
              seq (closing p e) (quantified p nd)) (\<lambda>(nd, e'). good p (N - 1) (m - 1) e')"
        by (cases y) (auto simp: Let_def simp del: One_nat_def intro!: safe_seq [OF closing_good [OF p set]] quant)
    qed (use g(2,4) more in auto)
    then show "safe (let k = num_captures e2 in
            if k = SLRE_MAX_CAPS then SLRE_THROW SLRE_TOO_MANY_CAPTURES
            else seq (re_parser f p (e2\<lparr>num_captures := k + 1\<rparr>)) (\<lambda>(x, e).
              let nd = P_BRA x k; e = e\<lparr>caps_nd := (caps_nd e)[k := nd]\<rparr> in
              seq (closing p e) (quantified p nd))) (\<lambda>(nd, e'). good p (N - 1) (m - 1) e')"
      unfolding Let_def by (intro safe_if) simp_all
  qed
  show "safe (re_parse_la (Suc f) p e) (\<lambda>(nd, e'). good p (N - 1) (m - 1) e')"
  proof (cases "lookahead e")
    case (Sym c)
    then show ?thesis using simple dot group by simp
  qed (use simple look [of P_LA] look [of P_LA_N] cap atom ref in simp_all)
qed

lemma parsers_ok:
  assumes "pat_ok p"
  shows "parser_ok p f \<and> cat_ok p f \<and> la_ok p f"
proof (induction f)
  case 0
  have "lookahead e = Sym 0" if "left p e = 0" for e using that by (simp add: left_def split: if_splits)
  then show ?case by (auto simp: parser_ok_def cat_ok_def la_ok_def good_def)
next
  case (Suc f)
  then show ?case using parser_step cat_step la_step assms by blast
qed

subsection \<open>The compiler\<close>

lemma parens_count: "parens p 0 = length (filter (\<lambda>b. b = 40) (take (src_end p) (pat p)))" if "src_end p \<le> length (pat p)"
proof -
  have "{i. i < length (take (src_end p) (pat p)) \<and> take (src_end p) (pat p) ! i = 40} = {i. 0 \<le> i \<and> i < src_end p \<and> pat p ! i = 40}"
    using that by auto
  then show ?thesis by (simp add: parens_def length_filter_conv_card)
qed

lemma re_parse_some:
  assumes "n < length text" "text ! n = 0" "length (filter (\<lambda>b. b = 40) (take n text)) < 31"
  shows "\<exists>r. re_parse text n re = Some r"
proof -
  let ?p = "\<lparr>is_regex = re, pat = text, src_end = n, nodes_max = n * 2\<rparr>"
  let ?e = "\<lparr>src = 0, curr_rune = 0, pend = 0, caps_nd = replicate SLRE_MAX_CAPS NULL_node, num_captures = 1, sets_num = 0,
               lookahead = Sym 0, curr_set = [], min_rep = 0, max_rep = 0\<rparr>"
  have p: "pat_ok ?p" using assms by (simp add: pat_ok_def)
  have par: "parens ?p 0 < 31" using parens_count [of ?p] assms by simp
  have start: "safe (RE_NEXT ?p ?e) (good ?p (2 * n) n)"
    unfolding RE_NEXT_def
  proof (rule safe_seq [OF re_lexer_safe [OF p]], clarify)
    fix t e' assume t: "token ?p ?e t e'"
    then show "safe (ok (e'\<lparr>lookahead := t\<rparr>)) (good ?p (2 * n) n)"
      using par by (auto simp: token_def frame_def good_def groups_def left_def SLRE_MAX_CAPS_def split: if_splits)
  qed
  have "safe (re_parse text n re) (\<lambda>x. True)"
    unfolding re_parse_def Let_def
  proof (rule safe_seq [OF start])
    fix e assume e: "good ?p (2 * n) n e"
    have "safe (re_parser (2 * n + 3) ?p e) (\<lambda>(nd, e'). good ?p (2 * n) n e')"
      by (rule parser_okD [OF conjunct1 [OF parsers_ok [OF p]] e]) simp_all
    then show "safe (seq (re_parser (2 * n + 3) ?p e) (\<lambda>(nd, e).
         if lookahead e = Sym 41 then SLRE_THROW SLRE_UNMATCH_RBR
         else if lookahead e \<noteq> Sym 0 then SLRE_THROW SLRE_SYNTAX_ERROR
         else ok (nd, e))) (\<lambda>x. True)" by (rule safe_seq) auto
  qed
  then show ?thesis by (auto simp: safe_def split: option.splits)
qed


end
