(* ===== verification/SlreProps.thy ===== *)
theory SlreProps
  imports SlreSound SlreSafe
begin

text \<open>
  Properties of regular expressions: the size of a compiled program and its targets, what a search finds, and what
  goes wrong with counted groups.
\<close>

subsection \<open>Programs\<close>

fun targets :: "slre_instruction \<Rightarrow> nat set" where
  "targets (I_JUMP x) = {x}"
| "targets (I_SPLIT x y) = {x, y}"
| "targets (I_LA x y) = {x, y}"
| "targets (I_LA_N x y) = {x, y}"
| "targets (I_REP x mn mx) = {x}"
| "targets i = {}"

lemma code_targets: "i \<in> set (node_code nd a) \<Longrightarrow> t \<in> targets i \<Longrightarrow> a \<le> t \<and> t \<le> a + re_nodelen nd"
proof (induction nd arbitrary: a)
  case (P_ALT x y)
  have "i \<in> set (node_code x (a + 1)) \<Longrightarrow> a \<le> t \<and> t \<le> a + re_nodelen x + 1" using P_ALT.IH(1) [of "a + 1"] P_ALT.prems by auto
  moreover have "i \<in> set (node_code y (a + re_nodelen x + 2)) \<Longrightarrow> a \<le> t \<and> t \<le> a + re_nodelen x + 2 + re_nodelen y"
    using P_ALT.IH(2) [of "a + re_nodelen x + 2"] P_ALT.prems by auto
  ultimately show ?case using P_ALT.prems by auto
next
  case (P_BRA x n)
  show ?case using P_BRA.prems P_BRA.IH [of "a + 1"] by auto
next
  case (P_CAT x y)
  show ?case using P_CAT.prems P_CAT.IH(1) [of a] P_CAT.IH(2) [of "a + re_nodelen x"] by auto
next
  case (P_LA x)
  show ?case using P_LA.prems P_LA.IH [of "a + 1"] by auto
next
  case (P_LA_N x)
  show ?case using P_LA_N.prems P_LA_N.IH [of "a + 1"] by auto
next
  case (P_REP x ng mn mx)
  have s: "t \<in> targets (split_at ng u v) \<Longrightarrow> t = u \<or> t = v" for u v by (auto simp: split_at_def split: if_splits)
  show ?case using P_REP.prems P_REP.IH [of a] P_REP.IH [of "a + 1"] P_REP.IH [of "a + 3"]
    by (auto simp: Let_def dest!: s split: if_splits)
qed auto

text \<open>C16: the instructions of every pattern fill their buffer exactly, and no jump, split, lookahead or loop leaves
  the program.\<close>

theorem program_fits:
  "\<exists>P. re_program nd = Some P \<and> length P = re_nodelen nd + 6 \<and> \<Union> (targets ` set P) \<subseteq> {..<length P}"
proof -
  have "length (program nd) = re_nodelen nd + 6" by (simp add: program_def)
  moreover have "t < re_nodelen nd + 6" if "i \<in> set (program nd)" "t \<in> targets i" for i t
    using that code_targets [of i nd 4 t] by (auto simp: program_def)
  ultimately show ?thesis using program_code [of nd] by (intro exI [of _ "program nd"]) auto
qed

subsection \<open>Compiling\<close>

text \<open>C6: a pattern with a zero behind it and fewer than 31 opening parentheses, whatever its bytes are, is compiled or
  refused with an error code: no read passes the zero, no write leaves the buffers of nodes and instructions, no group
  number leaves the array of groups, and every loop and recursion ends.\<close>

theorem compile_safe:
  assumes "n < length text" "text ! n = 0" "length (filter (\<lambda>b. b = 40) (take n text)) < 31"
  shows "slre_compile text n fl re \<noteq> None"
proof -
  obtain r where "re_parse text n re = Some r" using re_parse_some [OF assms] by blast
  then show ?thesis using program_code by (cases r) (auto simp: slre_compile_def seq_def ok_def)
qed

theorem compile_safe_witness: "slre_compile [40, 97, 92, 0] 3 [] True \<noteq> None"
  by (rule compile_safe) simp_all

subsection \<open>Searching\<close>

text \<open>C5: a search with a compiled pattern whose nodes are \<open>plain\<close> ends, when every allocation of a thread succeeds
  (\<open>room\<close>). It answers the first of the matches that the meaning of the nodes gives: the leftmost place where one
  starts, and there the preferred one, with its groups; or that there is none. However often the program was used before,
  the answer is the same. A \<open>plain\<close> pattern has no back reference; no \<open>{n,}\<close> with \<open>n > 1\<close>; no loop without an upper bound
  over a body that may be empty, which the parser refuses too; \<open>?\<close>, \<open>{n}\<close>, \<open>{n,m}\<close> (all but \<open>{1}\<close>) only greedy and over a
  body without choice, that is without alternatives, lookaheads and further loops; and, if it ignores case, no class
  with a range up to 0xFFFF. For the patterns left out the answer of the machine may differ from the meaning.\<close>

theorem search_finds_first:
  assumes "re_parse re n rx = Some (Inr (nd, e))" "slre_compile re n fl rx = Some (Inr prog)" "map erase P = insts prog"
    and "t_end < length text" "text ! t_end = 0" "start \<le> t_end" "\<forall>k. room k"
    and "plain (exec_ctx room prog text start t_end) nd"
  shows "\<exists>P'. map erase P' = insts prog \<and>
    slre_exec room (prog\<lparr>insts := P\<rparr>) False junk text start t_end =
      (case matches (exec_ctx room prog text start t_end) nd start no_caps of
         [] \<Rightarrow> Some (True, \<lparr>loot_captures = num_captures e, loot_caps = no_caps\<rparr>, prog\<lparr>insts := P'\<rparr>)
       | (cur, caps) # _ \<Rightarrow> Some (False, \<lparr>loot_captures = num_captures e, loot_caps = caps\<rparr>, prog\<lparr>insts := P'\<rparr>))"
proof -
  let ?X = "exec_ctx room prog text start t_end"
  have prog: "insts prog = program nd" "prog_captures prog = num_captures e"
    using assms(1,2) program_code [of nd] by (auto simp: slre_compile_def seq_def ok_def)
  have X: "text_ok ?X" "m_end ?X = t_end" "m_bol ?X = start" using assms(4-7) by (auto simp: text_ok_def exec_ctx_def)
  have "yields ?X (program nd) 0 (start, no_caps) (map_option snd (case matches ?X nd start no_caps of [] \<Rightarrow> None | q # _ \<Rightarrow> Some q))"
    using assms(6,8) X by (intro program_yields) (simp_all add: no_caps_def)
  then obtain P' where P': "map erase P' = program nd"
      "runs ?X P [(0, start, no_caps)] (map_option snd (case matches ?X nd start no_caps of [] \<Rightarrow> None | q # _ \<Rightarrow> Some q)) P'"
    using assms(3) prog(1) by (auto simp: yields_def)
  have e: "exec_ctx room (prog\<lparr>insts := P\<rparr>) text start t_end = ?X" by (simp add: exec_ctx_def)
  have m: "re_match ?X P 0 start no_caps = Some (map_option snd (case matches ?X nd start no_caps of [] \<Rightarrow> None | q # _ \<Rightarrow> Some q), P')"
    using runs_run [OF P'(2)] assms(7) by (simp add: re_match_def exec_ctx_def)
  show ?thesis using P'(1) prog e m by (intro exI [of _ P']) (auto simp: slre_exec_def Let_def split: list.split)
qed

text \<open>\<open>/(a+)b/\<close> on \<open>xaab\<close>.\<close>

definition sample_re :: "u8 list" where "sample_re = [40, 97, 43, 41, 98, 0]"
definition sample_node :: slre_node where
  "sample_node = P_CAT (P_BRA (P_REP (P_CH 97) False 1 SLRE_MAX_REP) 1) (P_CH 98)"
definition sample_caps :: "slre_cap list" where
  "sample_caps = no_caps[0 := (Some 1, Some 4), 1 := (Some 1, Some 3)]"

theorem search_finds_first_witness:
  "\<exists>prog P' loot. slre_compile sample_re 5 [] True = Some (Inr prog) \<and>
     slre_exec (\<lambda>_. True) prog False [] [120, 97, 97, 98, 0] 0 4 = Some (False, loot, P') \<and> loot_caps loot = sample_caps"
proof -
  define e where "e = snd (projr (the (re_parse sample_re 5 True)))"
  define prog where "prog = projr (the (slre_compile sample_re 5 [] True))"
  have 1: "re_parse sample_re 5 True = Some (Inr (sample_node, e))" unfolding e_def by code_simp
  have 2: "slre_compile sample_re 5 [] True = Some (Inr prog)" unfolding prog_def by code_simp
  have 3: "map erase (insts prog) = insts prog" unfolding prog_def by code_simp
  have 4: "plain (exec_ctx (\<lambda>_. True) prog [120, 97, 97, 98, 0] 0 4) sample_node" unfolding prog_def by code_simp
  have 5: "hd (matches (exec_ctx (\<lambda>_. True) prog [120, 97, 97, 98, 0] 0 4) sample_node 0 no_caps) = (4, sample_caps)"
    "matches (exec_ctx (\<lambda>_. True) prog [120, 97, 97, 98, 0] 0 4) sample_node 0 no_caps \<noteq> []"
    unfolding prog_def by code_simp+
  then obtain qs where 6: "matches (exec_ctx (\<lambda>_. True) prog [120, 97, 97, 98, 0] 0 4) sample_node 0 no_caps = (4, sample_caps) # qs"
    by (metis list.exhaust_sel)
  show ?thesis using search_finds_first [OF 1 2 3 _ _ _ _ 4, of "[]"] 2 unfolding 6 by (auto simp: no_caps_def)
qed

subsection \<open>Counted groups\<close>

definition counted_re :: "u8 list" where "counted_re = [40, 63, 58, 97, 124, 97, 98, 41, 123, 50, 125, 99, 0]"

definition twice_re :: "u8 list" where
  "twice_re = [40, 63, 58, 97, 124, 97, 98, 41, 40, 63, 58, 97, 124, 97, 98, 41, 99, 0]"

definition found :: "u8 list \<Rightarrow> nat \<Rightarrow> u8 list \<Rightarrow> slre_cap option option" where
  "found re n text =
     (case slre_compile re n [] True of
        Some (Inr prog) \<Rightarrow>
          map_option (\<lambda>(none, loot, prog). if none then None else Some (loot_caps loot ! 0))
            (slre_exec (\<lambda>_. True) prog False [] text 0 (length text - 1))
      | _ \<Rightarrow> None)"

definition meant :: "u8 list \<Rightarrow> nat \<Rightarrow> u8 list \<Rightarrow> slre_cap list" where
  "meant re n text =
     (case re_parse re n True of
        Some (Inr (nd, e)) \<Rightarrow>
          map (\<lambda>q. snd q ! 0) (matches \<lparr>m_text = text, m_end = length text - 1, m_bol = 0, m_flags = 8, m_room = \<lambda>_. True\<rparr> nd 0 no_caps)
      | _ \<Rightarrow> [])"

declare re_run.simps [code]

text \<open>An instance of what \<open>plain\<close> leaves out: in \<open>/(?:a|ab){2}c/\<close> the counter of the loop is not restored when the machine backtracks: on \<open>abac\<close>, which
  the pattern matches, the search finds nothing, while \<open>/(?:a|ab)(?:a|ab)c/\<close> finds the whole text.\<close>

lemma counter_not_restored:
  "found counted_re 12 [97, 98, 97, 99, 0] = Some None \<and> meant counted_re 12 [97, 98, 97, 99, 0] = [(Some 0, Some 4)] \<and>
   found twice_re 17 [97, 98, 97, 99, 0] = Some (Some (Some 0, Some 4)) \<and> meant twice_re 17 [97, 98, 97, 99, 0] = [(Some 0, Some 4)]"
  by code_simp

end
