(* ===== verification/Arena.thy ===== *)
theory Arena
  imports StringGc
begin

text \<open>
  The memory of objects (\<open>gc.h\<close>, \<open>gc.c\<close> of \<open>v7/v7.c\<close>): arenas of cells of one size. Memory is a map
  from addresses that are multiples of 8 to 64-bit words, the same map in which StringGc finds the
  values that refer to strings. The first word of a cell, its head, is the link of the free list in a
  free cell and a pointer in a used one; its two lowest bits are the marks of the collector. \<open>calloc\<close>
  is an oracle that answers an address for a size, given the memory in use. An access of memory
  that is not allocated has no result.
\<close>

record arena =
  arena_blocks :: "(u64 \<times> u64) list"
  size_increment :: u64
  free_cells :: u64
  cell_size :: u64
  allocations :: u64
  garbage :: u64
  alive :: u64

datatype arena_kind = Generic_object | Function | Property

text \<open>
  The parts of \<open>struct v7\<close> that the collector uses: the strings, the memory, the arenas and the
  places of the roots. Of a byte code block the collector uses the vector of literals, the count of
  references and whether it is in read-only memory. \<open>vals\<close> is the address of the values of \<open>struct v7_vals\<close>, \<open>call_stack\<close> those of the
  values of each frame, \<open>stack\<close> the address and length in bytes of the value stack.
\<close>

record bcode =
  lit_p :: u64
  lit_len :: u64
  refcnt :: u8
  frozen :: bool

record js =
  vm :: v7
  words :: cells
  bcodes :: "u64 \<Rightarrow> bcode option"
  generic_object_arena :: arena
  function_arena :: arena
  property_arena :: arena
  vals :: u64
  call_stack :: "u64 list"
  stack :: "u64 \<times> u64"
  tmp_stack :: mbuf
  act_bcodes :: mbuf
  strict_mode :: bool
  inhibit_gc :: bool

fun arena_of :: "arena_kind \<Rightarrow> js \<Rightarrow> arena" where
  "arena_of Generic_object st = generic_object_arena st"
| "arena_of Function st = function_arena st"
| "arena_of Property st = property_arena st"

fun set_arena :: "arena_kind \<Rightarrow> arena \<Rightarrow> js \<Rightarrow> js" where
  "set_arena Generic_object a st = st\<lparr>generic_object_arena := a\<rparr>"
| "set_arena Function a st = st\<lparr>function_arena := a\<rparr>"
| "set_arena Property a st = st\<lparr>property_arena := a\<rparr>"

subsection \<open>Marks\<close>

definition MARK :: "u64 \<Rightarrow> cells \<Rightarrow> cells option" where
  "MARK p W = map_option (\<lambda>w. W(p \<mapsto> w OR 1)) (W p)"

definition UNMARK :: "u64 \<Rightarrow> cells \<Rightarrow> cells option" where
  "UNMARK p W = map_option (\<lambda>w. W(p \<mapsto> w AND NOT 1)) (W p)"

definition MARKED :: "u64 \<Rightarrow> cells \<Rightarrow> bool option" where
  "MARKED p W = map_option (\<lambda>w. w AND 1 \<noteq> 0) (W p)"

definition MARK_FREE :: "u64 \<Rightarrow> cells \<Rightarrow> cells option" where
  "MARK_FREE p W = map_option (\<lambda>w. W(p \<mapsto> w OR 2)) (W p)"

definition UNMARK_FREE :: "u64 \<Rightarrow> cells \<Rightarrow> cells option" where
  "UNMARK_FREE p W = map_option (\<lambda>w. W(p \<mapsto> w AND NOT 2)) (W p)"

definition MARKED_FREE :: "u64 \<Rightarrow> cells \<Rightarrow> bool option" where
  "MARKED_FREE p W = map_option (\<lambda>w. w AND 2 \<noteq> 0) (W p)"

subsection \<open>Blocks\<close>

text \<open>The cells of a block, in the order of the loops over \<open>GC_CELL_OP\<close>.\<close>

definition GC_CELL_OP :: "u64 \<Rightarrow> u64 \<Rightarrow> nat \<Rightarrow> u64" where
  "GC_CELL_OP sz cell arg = cell + of_nat arg * sz"

definition block_cells :: "u64 \<Rightarrow> u64 \<times> u64 \<Rightarrow> u64 list" where
  "block_cells sz b = map (GC_CELL_OP sz (fst b)) [0..<unat (snd b)]"

text \<open>\<open>memset\<close> to zero of allocated words, \<open>calloc\<close> and \<open>free\<close>.\<close>

definition clear :: "u64 \<Rightarrow> u64 \<Rightarrow> cells \<Rightarrow> cells" where
  "clear p n W = (\<lambda>a. if a - p < n \<and> W a \<noteq> None then Some 0 else W a)"

definition calloc :: "(cells \<Rightarrow> u64 \<Rightarrow> u64) \<Rightarrow> u64 \<Rightarrow> cells \<Rightarrow> u64 \<times> cells" where
  "calloc C n W =
     (let p = C W n in
      if p = 0 then (0, W) else (p, \<lambda>a. if a - p < n \<and> (a - p) AND 7 = 0 then Some 0 else W a))"

definition release :: "u64 \<Rightarrow> u64 \<Rightarrow> cells \<Rightarrow> cells" where
  "release p n W = (\<lambda>a. if a - p < n then None else W a)"

fun link_cells :: "u64 list \<Rightarrow> u64 \<Rightarrow> cells \<Rightarrow> u64 \<times> cells" where
  "link_cells [] free W = (free, W)"
| "link_cells (cur # cs) free W = link_cells cs cur (W(cur \<mapsto> free))"

definition gc_new_block ::
  "(cells \<Rightarrow> u64 \<Rightarrow> u64) \<Rightarrow> arena \<Rightarrow> u64 \<Rightarrow> cells \<Rightarrow> ((u64 \<times> u64) \<times> arena \<times> cells) option" where
  "gc_new_block C a n W =
     (let (base, W) = calloc C (cell_size a * n) W in
      if base = 0 then None
      else (let (f, W) = link_cells (block_cells (cell_size a) (base, n)) (free_cells a) W
            in Some ((base, n), a\<lparr>free_cells := f\<rparr>, W)))"

definition gc_arena_init ::
  "(cells \<Rightarrow> u64 \<Rightarrow> u64) \<Rightarrow> u64 \<Rightarrow> u64 \<Rightarrow> u64 \<Rightarrow> cells \<Rightarrow> (arena \<times> cells) option" where
  "gc_arena_init C sz initial_size increment W =
     (if sz < 8 then None
      else do { let a = \<lparr>arena_blocks = [], size_increment = increment, free_cells = 0, cell_size = sz,
                   allocations = 0, garbage = 0, alive = 0\<rparr>;
                (b, a, W) \<leftarrow> gc_new_block C a initial_size W;
                Some (a\<lparr>arena_blocks := [b]\<rparr>, W) })"

text \<open>\<open>collect\<close> is what \<open>maybe_gc\<close> does.\<close>

definition gc_alloc_cell ::
  "(cells \<Rightarrow> u64 \<Rightarrow> u64) \<Rightarrow> (js \<Rightarrow> js option) \<Rightarrow> arena_kind \<Rightarrow> js \<Rightarrow> (u64 \<times> js) option" where
  "gc_alloc_cell C collect k st =
     do { st \<leftarrow>
            (if free_cells (arena_of k st) = 0
             then do { st \<leftarrow> collect st;
                       if free_cells (arena_of k st) = 0
                       then do { (b, a, W) \<leftarrow> gc_new_block C (arena_of k st) (size_increment (arena_of k st)) (words st);
                                 Some (set_arena k (a\<lparr>arena_blocks := b # arena_blocks a\<rparr>) (st\<lparr>words := W\<rparr>)) }
                       else Some st }
             else Some st);
          let a = arena_of k st;
          let r = free_cells a;
          W \<leftarrow> UNMARK r (words st);
          link \<leftarrow> W r;
          Some (r, set_arena k (a\<lparr>free_cells := link, allocations := allocations a + 1, alive := alive a + 1\<rparr>)
                     (st\<lparr>words := clear r (cell_size a) W\<rparr>)) }"

definition gc_check_ptr :: "arena \<Rightarrow> u64 \<Rightarrow> bool" where
  "gc_check_ptr a p =
     list_ex (\<lambda>(base, n). base \<le> p \<and> p < GC_CELL_OP (cell_size a) base (unat n)) (arena_blocks a)"

subsection \<open>The sweep\<close>

text \<open>The pass over the free list, which ends if the list does.\<close>

partial_function (option) mark_free_cells :: "u64 \<Rightarrow> cells \<Rightarrow> cells option" where
  "mark_free_cells cur W =
     (if cur = 0 then Some W
      else do { next \<leftarrow> W cur; W \<leftarrow> MARK_FREE cur W; mark_free_cells next W })"

text \<open>The body of the loop over the cells of a block, with the number of cells freed; \<open>D\<close> is the
  destructor of the arena.\<close>

definition sweep_cell ::
  "(u64 \<Rightarrow> js \<Rightarrow> js option) \<Rightarrow> arena_kind \<Rightarrow> u64 \<Rightarrow> nat \<times> js \<Rightarrow> (nat \<times> js) option" where
  "sweep_cell D k cur x =
     (let (freed, st) = x in
      do { m \<leftarrow> MARKED cur (words st);
           if m then
             do { W \<leftarrow> UNMARK cur (words st);
                  let a = arena_of k st;
                  Some (freed, set_arena k (a\<lparr>alive := alive a + 1\<rparr>) (st\<lparr>words := W\<rparr>)) }
           else
             do { f \<leftarrow> MARKED_FREE cur (words st);
                  st \<leftarrow> (if f then map_option (\<lambda>W. st\<lparr>words := W\<rparr>) (UNMARK_FREE cur (words st))
                        else map_option (\<lambda>st. st\<lparr>words := clear cur (cell_size (arena_of k st)) (words st)\<rparr>) (D cur st));
                  let a = arena_of k st;
                  Some (Suc freed, set_arena k (a\<lparr>free_cells := cur, garbage := garbage a + 1\<rparr>)
                                     (st\<lparr>words := (words st)(cur \<mapsto> free_cells a)\<rparr>)) } })"

fun sweep_cells ::
  "(u64 \<Rightarrow> js \<Rightarrow> js option) \<Rightarrow> arena_kind \<Rightarrow> u64 list \<Rightarrow> nat \<times> js \<Rightarrow> (nat \<times> js) option" where
  "sweep_cells D k [] x = Some x"
| "sweep_cells D k (cur # cs) x = do { x \<leftarrow> sweep_cell D k cur x; sweep_cells D k cs x }"

text \<open>The loop over the blocks, which answers the blocks that stay: a block whose cells are all free goes,
  unless it is the last.\<close>

fun sweep_blocks ::
  "(u64 \<Rightarrow> js \<Rightarrow> js option) \<Rightarrow> arena_kind \<Rightarrow> (u64 \<times> u64) list \<Rightarrow> js \<Rightarrow> ((u64 \<times> u64) list \<times> js) option" where
  "sweep_blocks D k [] st = Some ([], st)"
| "sweep_blocks D k (b # bs) st =
     (let prev_free = free_cells (arena_of k st); sz = cell_size (arena_of k st) in
      do { (freed_in_block, st) \<leftarrow> sweep_cells D k (block_cells sz b) (0, st);
           if bs \<noteq> [] \<and> freed_in_block = unat (snd b) then
             sweep_blocks D k bs
               (set_arena k ((arena_of k st)\<lparr>free_cells := prev_free\<rparr>)
                 (st\<lparr>words := release (fst b) (sz * snd b) (words st)\<rparr>))
           else do { (kept, st) \<leftarrow> sweep_blocks D k bs st; Some (b # kept, st) } })"

definition gc_sweep :: "(u64 \<Rightarrow> js \<Rightarrow> js option) \<Rightarrow> arena_kind \<Rightarrow> js \<Rightarrow> js option" where
  "gc_sweep D k st =
     do { let a = arena_of k st;
          W \<leftarrow> mark_free_cells (free_cells a) (words st);
          (kept, st) \<leftarrow> sweep_blocks D k (arena_blocks a)
             (set_arena k (a\<lparr>alive := 0, free_cells := 0\<rparr>) (st\<lparr>words := W\<rparr>));
          Some (set_arena k ((arena_of k st)\<lparr>arena_blocks := kept\<rparr>) st) }"

end
