(* ===== verification/Objects.thy ===== *)
theory Objects
  imports Arena
begin

text \<open>
  Objects and their properties in memory (\<open>core.h\<close>, \<open>object.c\<close> of \<open>v7/v7.c\<close>), up to the lookup. On the
  64-bit platform the words of an object are its list of properties, its attributes and its prototype, of a
  function the list, the attributes, the scope and the byte code, of a property the next one, the
  attributes, the name and the value. Objects whose elements are a dense array do not exist in
  this build (\<open>V7_ENABLE_DENSE_ARRAYS\<close> is not defined): their branches have no result.
\<close>

text \<open>What the engine is surrounded by: other memory, \<open>realloc\<close> of the string buffer and \<open>calloc\<close>.\<close>

record env =
  other_memory :: memory
  reallocator :: allocator
  calloc_at :: "cells \<Rightarrow> u64 \<Rightarrow> u64"

definition V7_PROPERTY_NON_WRITABLE :: u16 where "V7_PROPERTY_NON_WRITABLE = 1"
definition V7_PROPERTY_NON_ENUMERABLE :: u16 where "V7_PROPERTY_NON_ENUMERABLE = 2"
definition V7_PROPERTY_NON_CONFIGURABLE :: u16 where "V7_PROPERTY_NON_CONFIGURABLE = 4"
definition V7_PROPERTY_GETTER :: u16 where "V7_PROPERTY_GETTER = 8"
definition V7_PROPERTY_SETTER :: u16 where "V7_PROPERTY_SETTER = 16"
definition V7_PROPERTY_HIDDEN :: u16 where "V7_PROPERTY_HIDDEN = 32"
definition V7_PROPERTY_OFF_HEAP :: u16 where "V7_PROPERTY_OFF_HEAP = 64"

definition V7_OBJ_NOT_EXTENSIBLE :: u8 where "V7_OBJ_NOT_EXTENSIBLE = 1"
definition V7_OBJ_DENSE_ARRAY :: u8 where "V7_OBJ_DENSE_ARRAY = 2"
definition V7_OBJ_FUNCTION :: u8 where "V7_OBJ_FUNCTION = 4"
definition V7_OBJ_OFF_HEAP :: u8 where "V7_OBJ_OFF_HEAP = 8"

subsection \<open>Fields\<close>

definition obj_attributes :: "cells \<Rightarrow> u64 \<Rightarrow> u8 option" where
  "obj_attributes W obj = map_option ucast (W (obj + 8))"

definition prop_attributes :: "cells \<Rightarrow> u64 \<Rightarrow> u16 option" where
  "prop_attributes W p = map_option ucast (W (p + 8))"

abbreviation (input) prop_name :: "cells \<Rightarrow> u64 \<Rightarrow> val_t option" where "prop_name W p \<equiv> W (p + 16)"
abbreviation (input) prop_value :: "cells \<Rightarrow> u64 \<Rightarrow> val_t option" where "prop_value W p \<equiv> W (p + 24)"
abbreviation (input) prototype :: "cells \<Rightarrow> u64 \<Rightarrow> u64 option" where "prototype W obj \<equiv> W (obj + 16)"
abbreviation (input) func_scope :: "cells \<Rightarrow> u64 \<Rightarrow> u64 option" where "func_scope W f \<equiv> W (f + 16)"
abbreviation (input) func_bcode :: "cells \<Rightarrow> u64 \<Rightarrow> u64 option" where "func_bcode W f \<equiv> W (f + 24)"

text \<open>\<open>v7->vals.function_prototype\<close> is the twelfth value of \<open>struct v7_vals\<close>.\<close>

definition function_prototype :: "js \<Rightarrow> val_t option" where
  "function_prototype st = words st (vals st + 88)"

subsection \<open>Prototypes\<close>

definition v7_object_to_value :: "cells \<Rightarrow> u64 \<Rightarrow> val_t option" where
  "v7_object_to_value W obj =
     (if obj = 0 then Some V7_NULL
      else do { attrs \<leftarrow> obj_attributes W obj;
                if attrs AND V7_OBJ_FUNCTION \<noteq> 0 then js_function_to_value obj
                else map_option (\<lambda>x. x OR V7_TAG_OBJECT) (pointer_to_value obj) })"

definition obj_prototype :: "js \<Rightarrow> u64 \<Rightarrow> u64 option" where
  "obj_prototype st obj =
     do { attrs \<leftarrow> obj_attributes (words st) obj;
          if attrs AND V7_OBJ_FUNCTION \<noteq> 0 then do { fp \<leftarrow> function_prototype st; v7_to_object fp }
          else prototype (words st) obj }"

definition obj_prototype_v :: "js \<Rightarrow> val_t \<Rightarrow> val_t option" where
  "obj_prototype_v st v =
     (if is_js_function v \<or> is_cfunction_lite v then function_prototype st
      else do { obj \<leftarrow> v7_to_object v; p \<leftarrow> obj_prototype st obj; v7_object_to_value (words st) p })"

subsection \<open>Looking up properties\<close>

fun strncmp :: "u8 list \<Rightarrow> u8 list \<Rightarrow> int" where
  "strncmp (x # xs) (y # ys) =
     (if x \<noteq> y then uint x - uint y else if x = 0 then 0 else strncmp xs ys)"
| "strncmp _ _ = 0"

text \<open>The first property from \<open>p\<close> on that passes a test; 0 is \<open>NULL\<close>.\<close>

partial_function (option) find_property :: "(u64 \<Rightarrow> bool option) \<Rightarrow> cells \<Rightarrow> u64 \<Rightarrow> u64 option" where
  "find_property test W p =
     (if p = 0 then Some 0
      else do { ok \<leftarrow> test p;
                if ok then Some p else do { next \<leftarrow> W p; find_property test W next } })"

text \<open>Whether the name of a property is a text, as \<open>v7_del\<close> and the lookup of long names ask.\<close>

definition named :: "env \<Rightarrow> js \<Rightarrow> u8 list \<Rightarrow> u64 \<Rightarrow> bool option" where
  "named E st name p =
     do { x \<leftarrow> prop_name (words st) p;
          (s, n) \<leftarrow> v7_get_string_data (vm st) x;
          if n = of_nat (length name)
          then map_option (\<lambda>bs. strncmp bs name = 0) (fetch (other_memory E) (owned_strings (vm st)) s (length name))
          else Some False }"

definition v7_get_own_property2 :: "env \<Rightarrow> js \<Rightarrow> val_t \<Rightarrow> u8 list \<Rightarrow> u16 \<Rightarrow> u64 option" where
  "v7_get_own_property2 E st obj name attrs =
     (if \<not> v7_is_object obj then Some 0
      else
        do { p \<leftarrow> v7_to_object obj;
             oa \<leftarrow> obj_attributes (words st) p;
             if oa AND V7_OBJ_DENSE_ARRAY \<noteq> 0 \<and> 0 < length name then None
             else
               do { head \<leftarrow> words st p;
                    let passes = (\<lambda>p. map_option (\<lambda>a. attrs = 0 \<or> a AND attrs \<noteq> 0) (prop_attributes (words st) p));
                    if length name \<le> 5 then
                      do { (ss, _) \<leftarrow> v7_mk_string (other_memory E) (reallocator E) (Static name)
                                       (of_nat (length name)) True (vm st);
                           find_property (\<lambda>p. do { x \<leftarrow> prop_name (words st) p; ok \<leftarrow> passes p; Some (x = ss \<and> ok) })
                             (words st) head }
                    else find_property (\<lambda>p. do { eq \<leftarrow> named E st name p; ok \<leftarrow> passes p; Some (eq \<and> ok) })
                           (words st) head } })"

definition v7_get_own_property :: "env \<Rightarrow> js \<Rightarrow> val_t \<Rightarrow> u8 list \<Rightarrow> u64 option" where
  "v7_get_own_property E st obj name = v7_get_own_property2 E st obj name 0"

partial_function (option) get_property_loop :: "env \<Rightarrow> js \<Rightarrow> val_t \<Rightarrow> u8 list \<Rightarrow> u64 option" where
  "get_property_loop E st obj name =
     (if obj = V7_NULL then Some 0
      else do { p \<leftarrow> v7_get_own_property E st obj name;
                if p \<noteq> 0 then Some p
                else do { obj \<leftarrow> obj_prototype_v st obj; get_property_loop E st obj name } })"

definition v7_get_property :: "env \<Rightarrow> js \<Rightarrow> val_t \<Rightarrow> u8 list \<Rightarrow> u64 option" where
  "v7_get_property E st obj name =
     (if \<not> v7_is_object obj then Some 0 else get_property_loop E st obj name)"

partial_function (option) is_prototype_of_loop :: "js \<Rightarrow> val_t \<Rightarrow> val_t \<Rightarrow> bool option" where
  "is_prototype_of_loop st obj p =
     (if v7_is_null obj then Some False
      else do { x \<leftarrow> obj_prototype_v st obj;
                if x = p then Some True else is_prototype_of_loop st x p })"

definition is_prototype_of :: "js \<Rightarrow> val_t \<Rightarrow> val_t \<Rightarrow> bool option" where
  "is_prototype_of st obj p =
     (if \<not> v7_is_object obj \<or> \<not> v7_is_object p then Some False else is_prototype_of_loop st obj p)"

end
