(* ===== verification/Gc.thy ===== *)
theory Gc
  imports Objects
begin

text \<open>
  The collector of \<open>gc.c\<close> (\<open>v7/v7.c\<close>): marking from the roots through the graph of objects, the destructors, and the
  whole of \<open>v7_gc\<close>. The recursion of \<open>gc_mark\<close> and its loops take fuel; GcMarkRun says how much is enough. The program of a regular expression is not part of memory, so \<open>slre_free\<close> has no effect.
\<close>

subsection \<open>Byte code blocks\<close>

definition retain_bcode :: "u64 \<Rightarrow> js \<Rightarrow> js option" where
  "retain_bcode b st =
     do { bc \<leftarrow> bcodes st b;
          Some (if \<not> frozen bc then st\<lparr>bcodes := (bcodes st)(b \<mapsto> bc\<lparr>refcnt := refcnt bc + 1\<rparr>)\<rparr> else st) }"

text \<open>\<open>bcode_free\<close> and \<open>free\<close> of the block; the instructions are not part of memory.\<close>

definition bcode_free :: "u64 \<Rightarrow> bcode \<Rightarrow> js \<Rightarrow> js" where
  "bcode_free b bc st =
     st\<lparr>bcodes := (bcodes st)(b := None), words := release (lit_p bc) (lit_len bc) (words st)\<rparr>"

definition release_bcode :: "u64 \<Rightarrow> js \<Rightarrow> js option" where
  "release_bcode b st =
     do { bc \<leftarrow> bcodes st b;
          if frozen bc then Some st
          else if refcnt bc = 0 then None
          else (let bc = bc\<lparr>refcnt := refcnt bc - 1\<rparr> in
                Some (if refcnt bc = 0 then bcode_free b bc st
                      else st\<lparr>bcodes := (bcodes st)(b \<mapsto> bc)\<rparr>)) }"

subsection \<open>Destructors\<close>

definition generic_object_destructor :: "env \<Rightarrow> u64 \<Rightarrow> js \<Rightarrow> js option" where
  "generic_object_destructor E obj st =
     do { v \<leftarrow> v7_object_to_value (words st) obj;
          p \<leftarrow> v7_get_own_property2 E st v [] V7_PROPERTY_HIDDEN;
          st \<leftarrow>
            (if p = 0 then Some st
             else
               do { x \<leftarrow> prop_value (words st) p;
                    if x AND V7_TAG_MASK = V7_TAG_REGEXP
                    then do { let rp = v7_to_pointer x;
                              (_, v) \<leftarrow> v7_disown rp (vm st);
                              Some (st\<lparr>vm := v, words := release rp 24 (words st)\<rparr>) }
                    else Some st });
          attrs \<leftarrow> obj_attributes (words st) obj;
          if attrs AND V7_OBJ_DENSE_ARRAY \<noteq> 0 then None else Some st }"

definition function_destructor :: "u64 \<Rightarrow> js \<Rightarrow> js option" where
  "function_destructor f st =
     (if f = 0 then Some st
      else do { b \<leftarrow> func_bcode (words st) f; if b \<noteq> 0 then release_bcode b st else Some st })"

subsection \<open>Marking\<close>

definition gc_check_val :: "js \<Rightarrow> val_t \<Rightarrow> bool option" where
  "gc_check_val st v =
     (if is_js_function v then map_option (gc_check_ptr (function_arena st)) (to_js_function v)
      else if v7_is_object v then map_option (gc_check_ptr (generic_object_arena st)) (v7_to_object v)
      else Some True)"

definition mark_string :: "u64 \<Rightarrow> js \<Rightarrow> js option" where
  "mark_string a st =
     map_option (\<lambda>(v, W). st\<lparr>vm := v, words := W\<rparr>) (gc_mark_string a (vm st, words st))"

definition mark_head :: "u64 \<Rightarrow> js \<Rightarrow> js option" where
  "mark_head p st = map_option (\<lambda>W. st\<lparr>words := W\<rparr>) (MARK p (words st))"

fun gc_mark :: "nat \<Rightarrow> val_t \<Rightarrow> js \<Rightarrow> js option"
  and gc_mark_props :: "nat \<Rightarrow> u64 \<Rightarrow> js \<Rightarrow> js option"
  and gc_mark_val_array :: "nat \<Rightarrow> u64 \<Rightarrow> nat \<Rightarrow> js \<Rightarrow> js option" where
  "gc_mark 0 v st = None"
| "gc_mark (Suc n) v st =
     (if \<not> v7_is_object v then Some st
      else
        do { obj \<leftarrow> v7_to_object v;
             attrs \<leftarrow> obj_attributes (words st) obj;
             if attrs AND V7_OBJ_OFF_HEAP \<noteq> 0 then Some st
             else
               do { ok \<leftarrow> gc_check_val st v;
                    if \<not> ok then None
                    else
                      do { m \<leftarrow> MARKED obj (words st);
                           if m then Some st
                           else if attrs AND V7_OBJ_DENSE_ARRAY \<noteq> 0 then None
                           else
                             do { prop \<leftarrow> words st obj;
                                  st \<leftarrow> mark_head obj st;
                                  st \<leftarrow> gc_mark_props n prop st;
                                  proto \<leftarrow> obj_prototype_v st v;
                                  st \<leftarrow> gc_mark n proto st;
                                  if is_js_function v then
                                    do { scope \<leftarrow> func_scope (words st) obj;
                                         sv \<leftarrow> v7_object_to_value (words st) scope;
                                         st \<leftarrow> gc_mark n sv st;
                                         b \<leftarrow> func_bcode (words st) obj;
                                         if b \<noteq> 0
                                         then do { bc \<leftarrow> bcodes st b;
                                                   gc_mark_val_array n (lit_p bc) (unat (lit_len bc) div 8) st }
                                         else Some st }
                                  else Some st } } } })"
| "gc_mark_props 0 prop st = None"
| "gc_mark_props (Suc n) prop st =
     (if prop = 0 then Some st
      else
        do { attrs \<leftarrow> prop_attributes (words st) prop;
             if attrs AND V7_PROPERTY_OFF_HEAP \<noteq> 0 then Some st
             else if \<not> gc_check_ptr (property_arena st) prop then None
             else
               do { st \<leftarrow> mark_string (prop + 24) st;
                    st \<leftarrow> mark_string (prop + 16) st;
                    v \<leftarrow> prop_value (words st) prop;
                    st \<leftarrow> gc_mark n v st;
                    next \<leftarrow> words st prop;
                    st \<leftarrow> mark_head prop st;
                    gc_mark_props n next st } })"
| "gc_mark_val_array 0 vp len st = None"
| "gc_mark_val_array (Suc n) vp len st =
     (case len of 0 \<Rightarrow> Some st
      | Suc len' \<Rightarrow>
          do { v \<leftarrow> words st vp;
               st \<leftarrow> gc_mark n v st;
               st \<leftarrow> mark_string vp st;
               gc_mark_val_array n (vp + 8) len' st })"

text \<open>Buffers of pointers: to values, and to byte code blocks.\<close>

definition mbuf_pointers :: "mbuf \<Rightarrow> u64 list" where
  "mbuf_pointers m = map (\<lambda>i. of_nat (le_val (take 8 (drop (8 * i) (mb_data m))))) [0..<(unat (mb_len m) + 7) div 8]"

fun gc_mark_pointers :: "nat \<Rightarrow> u64 list \<Rightarrow> js \<Rightarrow> js option" where
  "gc_mark_pointers n [] st = Some st"
| "gc_mark_pointers n (vp # vps) st =
     do { v \<leftarrow> words st vp;
          st \<leftarrow> gc_mark n v st;
          st \<leftarrow> mark_string vp st;
          gc_mark_pointers n vps st }"

fun gc_mark_vecs :: "nat \<Rightarrow> (u64 \<times> u64) list \<Rightarrow> js \<Rightarrow> js option" where
  "gc_mark_vecs n [] st = Some st"
| "gc_mark_vecs n ((p, len) # vecs) st =
     do { st \<leftarrow> gc_mark_val_array n p (unat len div 8) st; gc_mark_vecs n vecs st }"

fun gc_mark_bcodes :: "nat \<Rightarrow> u64 list \<Rightarrow> js \<Rightarrow> js option" where
  "gc_mark_bcodes n [] st = Some st"
| "gc_mark_bcodes n (b # bs) st =
     do { bc \<leftarrow> bcodes st b;
          st \<leftarrow> gc_mark_val_array n (lit_p bc) (unat (lit_len bc) div 8) st;
          gc_mark_bcodes n bs st }"

subsection \<open>The collection\<close>

text \<open>The number of values in \<open>struct v7_vals\<close>.\<close>

definition vals_count :: nat where "vals_count = 22"

definition gc_roots :: "env \<Rightarrow> nat \<Rightarrow> js \<Rightarrow> js option" where
  "gc_roots E n st =
     do { st \<leftarrow> gc_mark_vecs n (map (\<lambda>f. (f, 24)) (call_stack st)) st;
          st \<leftarrow> gc_mark_val_array n (vals st) vals_count st;
          st \<leftarrow> gc_mark_val_array n (fst (stack st)) (unat (snd (stack st)) div 8) st;
          st \<leftarrow> gc_mark_bcodes n (mbuf_pointers (act_bcodes st)) st;
          st \<leftarrow> gc_mark_pointers n (mbuf_pointers (tmp_stack st)) st;
          gc_mark_pointers n (mbuf_pointers (owned_values (vm st))) st }"

definition compact_strings :: "js \<Rightarrow> js option" where
  "compact_strings st =
     map_option (\<lambda>(v, W). st\<lparr>vm := v, words := W\<rparr>) (gc_compact_strings (vm st, words st))"

definition trim_strings :: "env \<Rightarrow> bool \<Rightarrow> js \<Rightarrow> js" where
  "trim_strings E full st =
     (let v = vm st; m = owned_strings v; trimmed_size = mb_len m + V7_STRING_BUF_RESERVE in
      if full \<and> trimmed_size < mb_size m
      then st\<lparr>vm := v\<lparr>owned_strings := mbuf_resize (reallocator E) m trimmed_size\<rparr>\<rparr> else st)"

definition v7_gc :: "env \<Rightarrow> nat \<Rightarrow> bool \<Rightarrow> js \<Rightarrow> js option" where
  "v7_gc E n full st =
     do { st \<leftarrow> gc_roots E n st;
          st \<leftarrow> compact_strings st;
          st \<leftarrow> gc_sweep (generic_object_destructor E) Generic_object st;
          st \<leftarrow> gc_sweep function_destructor Function st;
          st \<leftarrow> gc_sweep (\<lambda>p st. Some st) Property st;
          Some (trim_strings E full st) }"

definition maybe_gc :: "env \<Rightarrow> nat \<Rightarrow> js \<Rightarrow> js option" where
  "maybe_gc E n st = (if \<not> inhibit_gc st then v7_gc E n False st else Some st)"

end
