(* ===== verification/ObjectWrites.thy ===== *)
theory ObjectWrites
  imports Gc
begin

text \<open>
  Making objects and changing their properties (\<open>object.c\<close> of \<open>v7/v7.c\<close>). Values in variables of C that the
  collector has to see (\<open>v7_own\<close>, \<open>tmp_stack_push\<close>) have addresses, which are arguments. Throwing an
  exception and running a setter are work of the evaluator and arguments too (\<open>hooks\<close>); a function that can throw
  answers whether it did not. Off the heap an object has no end of memory: \<open>new_property\<close> never answers \<open>NULL\<close>.
\<close>

record hooks =
  throwf :: "string \<Rightarrow> js \<Rightarrow> js option"
  invoke_setter :: "u64 \<Rightarrow> val_t \<Rightarrow> val_t \<Rightarrow> js \<Rightarrow> (bool \<times> js) option"

definition V7_DESC_PRESERVE_VALUE :: u64 where "V7_DESC_PRESERVE_VALUE = 128"
definition V7_DESC_SHIFT :: nat where "V7_DESC_SHIFT = 16"
definition V7_DESC_MASK :: u64 where "V7_DESC_MASK = push_bit V7_DESC_SHIFT 1 - 1"
definition V7_DEFAULT_PROPERTY_ATTRS :: u16 where "V7_DEFAULT_PROPERTY_ATTRS = 0"

text \<open>\<open>_V7_MK_DESC\<close> and \<open>_V7_MK_DESC_INV\<close>.\<close>

definition V7_MK_DESC :: "bool \<Rightarrow> u16 \<Rightarrow> u64" where
  "V7_MK_DESC v n = push_bit V7_DESC_SHIFT (ucast n) OR (if v then ucast n else 0)"

definition V7_DESC_WRITABLE :: "bool \<Rightarrow> u64" where "V7_DESC_WRITABLE v = V7_MK_DESC (\<not> v) V7_PROPERTY_NON_WRITABLE"
definition V7_DESC_ENUMERABLE :: "bool \<Rightarrow> u64" where "V7_DESC_ENUMERABLE v = V7_MK_DESC (\<not> v) V7_PROPERTY_NON_ENUMERABLE"
definition V7_DESC_CONFIGURABLE :: "bool \<Rightarrow> u64" where "V7_DESC_CONFIGURABLE v = V7_MK_DESC (\<not> v) V7_PROPERTY_NON_CONFIGURABLE"

subsection \<open>Writing words\<close>

definition put :: "u64 \<Rightarrow> u64 \<Rightarrow> js \<Rightarrow> js option" where
  "put a x st = (if words st a = None then None else Some (st\<lparr>words := (words st)(a \<mapsto> x)\<rparr>))"

text \<open>The two bytes of the attributes; the other six of the word keep what they are.\<close>

definition put_attributes :: "u64 \<Rightarrow> u16 \<Rightarrow> js \<Rightarrow> js option" where
  "put_attributes p a st = do { w \<leftarrow> words st (p + 8); put (p + 8) (w AND NOT 0xFFFF OR ucast a) st }"

subsection \<open>Making cells\<close>

definition new_cell :: "env \<Rightarrow> nat \<Rightarrow> arena_kind \<Rightarrow> js \<Rightarrow> (u64 \<times> js) option" where
  "new_cell E n k st = gc_alloc_cell (calloc_at E) (maybe_gc E n) k st"

definition obj_prototype_set :: "u64 \<Rightarrow> u64 \<Rightarrow> js \<Rightarrow> (int \<times> js) option" where
  "obj_prototype_set obj proto st =
     do { attrs \<leftarrow> obj_attributes (words st) obj;
          if attrs AND V7_OBJ_FUNCTION \<noteq> 0 then Some (- 1, st)
          else do { st \<leftarrow> put (obj + 16) proto st; Some (0, st) } }"

definition mk_object :: "env \<Rightarrow> nat \<Rightarrow> val_t \<Rightarrow> js \<Rightarrow> (val_t \<times> js) option" where
  "mk_object E n proto st =
     do { (obj, st) \<leftarrow> new_cell E n Generic_object st;
          if obj = 0 then Some (V7_NULL, st)
          else do { st \<leftarrow> put obj 0 st;
                    p \<leftarrow> v7_to_object proto;
                    (_, st) \<leftarrow> obj_prototype_set obj p st;
                    v \<leftarrow> v7_object_to_value (words st) obj;
                    Some (v, st) } }"

definition v7_mk_property :: "env \<Rightarrow> nat \<Rightarrow> js \<Rightarrow> (u64 \<times> js) option" where
  "v7_mk_property E n st =
     do { (p, st) \<leftarrow> new_cell E n Property st;
          st \<leftarrow> put p 0 st;
          st \<leftarrow> put (p + 16) v7_mk_undefined st;
          st \<leftarrow> put (p + 24) v7_mk_undefined st;
          st \<leftarrow> put_attributes p 0 st;
          Some (p, st) }"

definition v7_set_proto :: "val_t \<Rightarrow> val_t \<Rightarrow> js \<Rightarrow> (val_t \<times> js) option" where
  "v7_set_proto obj proto st =
     (if v7_is_generic_object obj then
        do { o' \<leftarrow> v7_to_object obj;
             old \<leftarrow> obj_prototype st o';
             old_proto \<leftarrow> v7_object_to_value (words st) old;
             p \<leftarrow> v7_to_object proto;
             (_, st) \<leftarrow> obj_prototype_set o' p st;
             Some (old_proto, st) }
      else Some (v7_mk_undefined, st))"

subsection \<open>Defining properties\<close>

definition apply_attrs_desc :: "u64 \<Rightarrow> u16 \<Rightarrow> u16" where
  "apply_attrs_desc attrs_desc old_attrs =
     (if old_attrs AND V7_PROPERTY_NON_CONFIGURABLE \<noteq> 0 then
        (if drop_bit V7_DESC_SHIFT attrs_desc AND ucast V7_PROPERTY_NON_WRITABLE \<noteq> 0 \<and>
            attrs_desc AND ucast V7_PROPERTY_NON_WRITABLE \<noteq> 0
         then old_attrs OR V7_PROPERTY_NON_WRITABLE else old_attrs)
      else ucast ((ucast old_attrs AND NOT (drop_bit V7_DESC_SHIFT attrs_desc)) OR (attrs_desc AND V7_DESC_MASK)))"

text \<open>The parts of \<open>def_property_v\<close>: a new property, a change of a property (\<open>s_cmp\<close> for values that are both
  strings), and the choice between the two. They answer whether nothing was thrown, and the property.\<close>

definition create_property ::
  "env \<Rightarrow> hooks \<Rightarrow> nat \<Rightarrow> u64 \<Rightarrow> u64 \<Rightarrow> u64 \<Rightarrow> u64 \<Rightarrow> bool \<Rightarrow> js \<Rightarrow> (bool \<times> u64 \<times> js) option" where
  "create_property E G n name_at val_at obj attrs_desc as_assign st =
     do { attrs \<leftarrow> obj_attributes (words st) obj;
          if attrs AND V7_OBJ_NOT_EXTENSIBLE \<noteq> 0 then
            (if strict_mode st \<or> \<not> as_assign
             then do { st \<leftarrow> throwf G ''Object is not extensible'' st; Some (False, 0, st) }
             else Some (True, 0, st))
          else
            do { (p, st) \<leftarrow> v7_mk_property E n st;
                 name \<leftarrow> words st name_at;
                 st \<leftarrow> put (p + 16) name st;
                 val \<leftarrow> words st val_at;
                 st \<leftarrow> put (p + 24) val st;
                 st \<leftarrow> put_attributes p (apply_attrs_desc attrs_desc V7_DEFAULT_PROPERTY_ATTRS) st;
                 head \<leftarrow> words st obj;
                 st \<leftarrow> put p head st;
                 st \<leftarrow> put obj p st;
                 Some (True, p, st) } }"

definition same_value :: "env \<Rightarrow> js \<Rightarrow> val_t \<Rightarrow> val_t \<Rightarrow> bool option" where
  "same_value E st val x =
     (if v7_is_string val \<and> v7_is_string x
      then map_option (\<lambda>r. r = 0) (s_cmp (other_memory E) (vm st) val x) else Some (val = x))"

definition change_property ::
  "env \<Rightarrow> hooks \<Rightarrow> u64 \<Rightarrow> u64 \<Rightarrow> val_t \<Rightarrow> u64 \<Rightarrow> bool \<Rightarrow> js \<Rightarrow> (bool \<times> u64 \<times> js) option" where
  "change_property E G val_at p obj attrs_desc as_assign st =
     do { attrs \<leftarrow> prop_attributes (words st) p;
          val \<leftarrow> words st val_at;
          old \<leftarrow> prop_value (words st) p;
          let assign =
            do { st \<leftarrow> (if attrs_desc AND V7_DESC_PRESERVE_VALUE = 0 then put (p + 24) val st else Some st);
                 st \<leftarrow> put_attributes p (apply_attrs_desc attrs_desc attrs) st;
                 Some (True, p, st) };
          if attrs AND V7_PROPERTY_NON_WRITABLE \<noteq> 0 then
            (if as_assign then
               (if strict_mode st
                then do { st \<leftarrow> throwf G ''Cannot assign to read-only property'' st; Some (False, p, st) }
                else Some (True, 0, st))
             else if attrs AND V7_PROPERTY_NON_CONFIGURABLE \<noteq> 0 \<and> attrs_desc AND V7_DESC_PRESERVE_VALUE = 0 then
               do { equal \<leftarrow> same_value E st val old;
                    if \<not> equal
                    then do { st \<leftarrow> throwf G ''Cannot redefine read-only property'' st; Some (False, p, st) }
                    else assign }
             else assign)
          else if attrs AND V7_PROPERTY_SETTER \<noteq> 0 then
            do { (ok, st) \<leftarrow> invoke_setter G p obj val st; Some (ok, if ok then 0 else p, st) }
          else assign }"

definition define_own ::
  "env \<Rightarrow> hooks \<Rightarrow> nat \<Rightarrow> u64 \<Rightarrow> u64 \<Rightarrow> val_t \<Rightarrow> u8 list \<Rightarrow> u64 \<Rightarrow> bool \<Rightarrow> js \<Rightarrow> (bool \<times> u64 \<times> js) option" where
  "define_own E G n name_at val_at obj bytes attrs_desc as_assign st =
     (if \<not> v7_is_object obj then Some (True, 0, st)
      else
        do { p \<leftarrow> v7_get_own_property E st obj bytes;
             if p = 0 then do { o' \<leftarrow> v7_to_object obj; create_property E G n name_at val_at o' attrs_desc as_assign st }
             else change_property E G val_at p obj attrs_desc as_assign st })"

definition def_property_v ::
  "env \<Rightarrow> hooks \<Rightarrow> nat \<Rightarrow> u64 \<Rightarrow> u64 \<Rightarrow> val_t \<Rightarrow> val_t \<Rightarrow> u64 \<Rightarrow> val_t \<Rightarrow> bool \<Rightarrow> js \<Rightarrow> (bool \<times> u64 \<times> js) option" where
  "def_property_v E G n name_at val_at obj name attrs_desc val as_assign st =
     do { (s, len) \<leftarrow> v7_get_string_data (vm st) name;
          bytes \<leftarrow> fetch (other_memory E) (owned_strings (vm st)) s (unat len);
          v \<leftarrow> v7_own (reallocator E) name_at (vm st);
          v \<leftarrow> v7_own (reallocator E) val_at v;
          let st = st\<lparr>vm := v, words := (words st)(name_at \<mapsto> name, val_at \<mapsto> val)\<rparr>;
          (ok, p, st) \<leftarrow> define_own E G n name_at val_at obj bytes attrs_desc as_assign st;
          (_, v) \<leftarrow> v7_disown val_at (vm st);
          (_, v) \<leftarrow> v7_disown name_at v;
          Some (ok, p, st\<lparr>vm := v\<rparr>) }"

definition set_property_v ::
  "env \<Rightarrow> hooks \<Rightarrow> nat \<Rightarrow> u64 \<Rightarrow> u64 \<Rightarrow> val_t \<Rightarrow> val_t \<Rightarrow> val_t \<Rightarrow> js \<Rightarrow> (bool \<times> u64 \<times> js) option" where
  "set_property_v E G n name_at val_at obj name val st = def_property_v E G n name_at val_at obj name 0 val True st"

subsection \<open>Temporary roots\<close>

definition tmp_stack_push :: "env \<Rightarrow> u64 \<Rightarrow> js \<Rightarrow> js option" where
  "tmp_stack_push E a st =
     do { (_, m) \<leftarrow> mbuf_append (reallocator E) (tmp_stack st) (Some (ptr_key a)) 8; Some (st\<lparr>tmp_stack := m\<rparr>) }"

definition tmp_frame_cleanup :: "u64 \<Rightarrow> js \<Rightarrow> js" where
  "tmp_frame_cleanup pos st = st\<lparr>tmp_stack := (tmp_stack st)\<lparr>mb_len := pos\<rparr>\<rparr>"

text \<open>\<open>def_property\<close> has the variables \<open>val\<close> and \<open>name_val\<close>, \<open>def_property_v\<close> its own copies of both.\<close>

definition def_property ::
  "env \<Rightarrow> hooks \<Rightarrow> nat \<Rightarrow> u64 \<times> u64 \<Rightarrow> u64 \<times> u64 \<Rightarrow> val_t \<Rightarrow> u8 list \<Rightarrow> u64 \<Rightarrow> val_t \<Rightarrow> bool \<Rightarrow> js \<Rightarrow>
     (bool \<times> u64 \<times> js) option" where
  "def_property E G n outer inner obj name attrs_desc val as_assign st =
     do { let st = st\<lparr>words := (words st)(snd outer \<mapsto> val, fst outer \<mapsto> v7_mk_undefined)\<rparr>;
          let pos = mb_len (tmp_stack st);
          st \<leftarrow> tmp_stack_push E (snd outer) st;
          st \<leftarrow> tmp_stack_push E (fst outer) st;
          (name_val, v) \<leftarrow> v7_mk_string (other_memory E) (reallocator E) (Static name) (of_nat (length name)) True (vm st);
          let st = st\<lparr>vm := v, words := (words st)(fst outer \<mapsto> name_val)\<rparr>;
          (ok, p, st) \<leftarrow> def_property_v E G n (fst inner) (snd inner) obj name_val attrs_desc val as_assign st;
          Some (ok, p, tmp_frame_cleanup pos st) }"

subsection \<open>Deleting a property\<close>

partial_function (option) del_loop :: "env \<Rightarrow> u8 list \<Rightarrow> u64 \<Rightarrow> u64 \<Rightarrow> u64 \<Rightarrow> js \<Rightarrow> (int \<times> js) option" where
  "del_loop E name obj prev p st =
     (if p = 0 then Some (- 1, st)
      else
        do { found \<leftarrow> named E st name p;
             next \<leftarrow> words st p;
             if found then do { st \<leftarrow> put (if prev \<noteq> 0 then prev else obj) next st; Some (0, st) }
             else del_loop E name obj p next st })"

definition v7_del :: "env \<Rightarrow> val_t \<Rightarrow> u8 list \<Rightarrow> js \<Rightarrow> (int \<times> js) option" where
  "v7_del E obj name st =
     (if \<not> v7_is_object obj then Some (- 1, st)
      else do { o' \<leftarrow> v7_to_object obj; head \<leftarrow> words st o'; del_loop E name o' 0 head st })"

end
