(* ===== verification/HeapOk.thy ===== *)
theory HeapOk
  imports Gc StringGcCorrect
begin

text \<open>
  What a well-formed memory of objects is. \<open>fl\<close> gives the free list of each arena, \<open>pl\<close> the property
  cells of each object and \<open>ss\<close> the strings in the buffer; all other cells of the arenas are used.
\<close>

subsection \<open>Lists in memory\<close>

fun chain :: "cells \<Rightarrow> u64 \<Rightarrow> u64 list \<Rightarrow> bool" where
  "chain W p [] \<longleftrightarrow> p = 0"
| "chain W p (q # qs) \<longleftrightarrow> p = q \<and> q \<noteq> 0 \<and> (\<exists>n. W q = Some n \<and> chain W n qs)"

lemma chain_words: "chain W p qs \<Longrightarrow> \<forall>q \<in> set qs. W' q = W q \<Longrightarrow> chain W' p qs"
  by (induction qs arbitrary: p) auto

lemma chain_null [simp]: "chain W 0 qs \<longleftrightarrow> qs = []"
  by (cases qs) auto

subsection \<open>Cells and their words\<close>

fun offsets :: "arena_kind \<Rightarrow> u64 set" where
  "offsets Generic_object = {0, 8, 16}"
| "offsets Function = {0, 8, 16, 24}"
| "offsets Property = {0, 8, 16, 24}"

fun csize :: "arena_kind \<Rightarrow> u64" where
  "csize Generic_object = 24"
| "csize Function = 32"
| "csize Property = 32"

definition arena_cells :: "arena \<Rightarrow> u64 list" where
  "arena_cells a = concat (map (block_cells (cell_size a)) (arena_blocks a))"

definition cells_of :: "arena_kind \<Rightarrow> js \<Rightarrow> u64 set" where
  "cells_of k st = set (arena_cells (arena_of k st))"

definition used :: "(arena_kind \<Rightarrow> u64 list) \<Rightarrow> js \<Rightarrow> arena_kind \<Rightarrow> u64 set" where
  "used fl st k = cells_of k st - set (fl k)"

abbreviation objs :: "(arena_kind \<Rightarrow> u64 list) \<Rightarrow> js \<Rightarrow> u64 set" where
  "objs fl st \<equiv> used fl st Generic_object \<union> used fl st Function"

abbreviation props :: "(arena_kind \<Rightarrow> u64 list) \<Rightarrow> js \<Rightarrow> u64 set" where
  "props fl st \<equiv> used fl st Property"

text \<open>Words are at multiples of 8. No two words of cells are at the same address, and no word is outside
  user space.\<close>

definition spaced :: "js \<Rightarrow> bool" where
  "spaced st \<longleftrightarrow>
     (\<forall>k k'. \<forall>c \<in> cells_of k st. \<forall>d \<in> cells_of k' st. \<forall>x \<in> offsets k. \<forall>y \<in> offsets k'.
        c + x = d + y \<longrightarrow> k = k' \<and> c = d \<and> x = y) \<and>
     (\<forall>k. \<forall>c \<in> cells_of k st. c \<noteq> 0 \<and> c AND 7 = 0 \<and> (\<forall>x \<in> offsets k. tag_of (c + x) = 0))"

definition outside_cells :: "js \<Rightarrow> u64 \<Rightarrow> bool" where
  "outside_cells st a \<longleftrightarrow> a AND 7 = 0 \<and> (\<forall>k. \<forall>c \<in> cells_of k st. \<forall>x \<in> offsets k. a \<noteq> c + x)"

definition arena_ok :: "arena_kind \<Rightarrow> u64 list \<Rightarrow> js \<Rightarrow> bool" where
  "arena_ok k f st \<longleftrightarrow>
     (let a = arena_of k st in
      cell_size a = csize k \<and>
      (\<forall>(b, n) \<in> set (arena_blocks a). unat b + unat n * unat (csize k) < 2 ^ 48) \<and>
      distinct (arena_cells a) \<and> chain (words st) (free_cells a) f \<and> distinct f \<and> set f \<subseteq> cells_of k st \<and>
      (\<forall>c \<in> cells_of k st. \<forall>x \<in> offsets k. words st (c + x) \<noteq> None))"

definition arenas_ok :: "(arena_kind \<Rightarrow> u64 list) \<Rightarrow> js \<Rightarrow> bool" where
  "arenas_ok fl st \<longleftrightarrow> spaced st \<and> (\<forall>k. arena_ok k (fl k) st)"

subsection \<open>References\<close>

definition ref_ok :: "(arena_kind \<Rightarrow> u64 list) \<Rightarrow> js \<Rightarrow> val_t \<Rightarrow> bool" where
  "ref_ok fl st x \<longleftrightarrow>
     (tag_of x = 0xFFFF \<longrightarrow> payload x \<in> used fl st Generic_object) \<and>
     (tag_of x = 0xFFF5 \<longrightarrow> payload x \<in> used fl st Function)"

definition string_ok :: "u8 list list \<Rightarrow> v7 \<Rightarrow> val_t \<Rightarrow> bool" where
  "string_ok ss v x \<longleftrightarrow>
     (tag_of x = 0xFFF8 \<longrightarrow> gc_is_valid_allocation_seqn v (asn_of x) \<and>
        (\<exists>i < length ss. unat (gc_string_val_to_offset x) = offset ss i))"

definition slot_ok :: "u8 list list \<Rightarrow> (arena_kind \<Rightarrow> u64 list) \<Rightarrow> js \<Rightarrow> u64 \<Rightarrow> bool" where
  "slot_ok ss fl st a \<longleftrightarrow>
     tag_of a = 0 \<and> (\<exists>x. words st a = Some x \<and> ref_ok fl st x \<and> string_ok ss (vm st) x)"

definition is_func :: "js \<Rightarrow> u64 \<Rightarrow> bool" where
  "is_func st f \<longleftrightarrow> f \<in> cells_of Function st"

text \<open>The words of the literals of a function.\<close>

definition vec_slots :: "u64 \<Rightarrow> nat \<Rightarrow> u64 list" where
  "vec_slots p n = map (\<lambda>i. p + 8 * of_nat i) [0..<n]"

definition bcode_slots :: "js \<Rightarrow> u64 \<Rightarrow> u64 list" where
  "bcode_slots st b =
     (case bcodes st b of Some bc \<Rightarrow> vec_slots (lit_p bc) (unat (lit_len bc) div 8) | None \<Rightarrow> [])"

definition func_slots :: "js \<Rightarrow> u64 \<Rightarrow> u64 list" where
  "func_slots st f =
     (if is_func st f then (case words st (f + 24) of Some b \<Rightarrow> if b = 0 then [] else bcode_slots st b | None \<Rightarrow> [])
      else [])"

definition prop_slots :: "u64 list \<Rightarrow> u64 list" where
  "prop_slots ps = concat (map (\<lambda>p. [p + 24, p + 16]) ps)"

definition slots :: "(u64 \<Rightarrow> u64 list) \<Rightarrow> js \<Rightarrow> u64 \<Rightarrow> u64 list" where
  "slots pl st obj = prop_slots (pl obj) @ func_slots st obj"

subsection \<open>Objects and properties\<close>

text \<open>The name of a property is no object: marking only follows its value.\<close>

definition prop_ok :: "u8 list list \<Rightarrow> (arena_kind \<Rightarrow> u64 list) \<Rightarrow> js \<Rightarrow> u64 \<Rightarrow> bool" where
  "prop_ok ss fl st p \<longleftrightarrow>
     (\<exists>n. words st p = Some n \<and> n AND 3 = 0) \<and>
     (\<exists>a. prop_attributes (words st) p = Some a \<and> a AND V7_PROPERTY_OFF_HEAP = 0) \<and>
     slot_ok ss fl st (p + 16) \<and> slot_ok ss fl st (p + 24) \<and>
     (\<forall>x. words st (p + 16) = Some x \<longrightarrow> \<not> v7_is_object x)"

definition obj_ok :: "(arena_kind \<Rightarrow> u64 list) \<Rightarrow> (u64 \<Rightarrow> u64 list) \<Rightarrow> js \<Rightarrow> u64 \<Rightarrow> bool" where
  "obj_ok fl pl st obj \<longleftrightarrow>
     (\<exists>h. words st obj = Some h \<and> h AND 3 = 0 \<and> chain (words st) h (pl obj)) \<and>
     distinct (pl obj) \<and> set (pl obj) \<subseteq> props fl st \<and>
     (\<exists>a. obj_attributes (words st) obj = Some a \<and> a AND V7_OBJ_OFF_HEAP = 0 \<and> a AND V7_OBJ_DENSE_ARRAY = 0 \<and>
        (a AND V7_OBJ_FUNCTION \<noteq> 0 \<longleftrightarrow> is_func st obj))"

definition generic_ok :: "(arena_kind \<Rightarrow> u64 list) \<Rightarrow> js \<Rightarrow> u64 \<Rightarrow> bool" where
  "generic_ok fl st obj \<longleftrightarrow> (\<exists>q. words st (obj + 16) = Some q \<and> (q = 0 \<or> q \<in> objs fl st))"

definition func_ok :: "u8 list list \<Rightarrow> (arena_kind \<Rightarrow> u64 list) \<Rightarrow> js \<Rightarrow> u64 \<Rightarrow> bool" where
  "func_ok ss fl st f \<longleftrightarrow>
     (\<exists>s. words st (f + 16) = Some s \<and> (s = 0 \<or> s \<in> objs fl st)) \<and>
     (\<exists>b. words st (f + 24) = Some b \<and> (b = 0 \<or> bcodes st b \<noteq> None)) \<and>
     (\<forall>a \<in> set (func_slots st f). slot_ok ss fl st a \<and> outside_cells st a)"

definition root_ok :: "u8 list list \<Rightarrow> (arena_kind \<Rightarrow> u64 list) \<Rightarrow> js \<Rightarrow> u64 \<Rightarrow> bool" where
  "root_ok ss fl st a \<longleftrightarrow> slot_ok ss fl st a \<and> outside_cells st a"

text \<open>The whole memory. The prototype of functions is one of the roots.\<close>

definition heap_ok :: "u8 list list \<Rightarrow> (arena_kind \<Rightarrow> u64 list) \<Rightarrow> (u64 \<Rightarrow> u64 list) \<Rightarrow> js \<Rightarrow> bool" where
  "heap_ok ss fl pl st \<longleftrightarrow>
     strings_ok (vm st) ss \<and> arenas_ok fl st \<and>
     (\<forall>p \<in> props fl st. prop_ok ss fl st p) \<and>
     (\<forall>obj \<in> objs fl st. obj_ok fl pl st obj) \<and>
     (\<forall>obj \<in> objs fl st. \<forall>obj' \<in> objs fl st. obj \<noteq> obj' \<longrightarrow> set (pl obj) \<inter> set (pl obj') = {}) \<and>
     (\<forall>obj \<in> used fl st Generic_object. generic_ok fl st obj) \<and>
     (\<forall>f \<in> used fl st Function. func_ok ss fl st f) \<and>
     root_ok ss fl st (vals st + 88) \<and> (\<exists>fp. function_prototype st = Some fp \<and> v7_is_object fp)"

subsection \<open>Addresses of cells\<close>

lemma offsets_0 [simp]: "0 \<in> offsets k" "8 \<in> offsets k" "16 \<in> offsets k"
  by (cases k; simp)+

lemma spacedD:
  assumes "spaced st" "c \<in> cells_of k st" "d \<in> cells_of k' st" "x \<in> offsets k" "y \<in> offsets k'" "c + x = d + y"
  shows "k = k'" "c = d" "x = y"
  using assms unfolding spaced_def by blast+

lemma cell_small:
  assumes "spaced st" "c \<in> cells_of k st"
  shows "c \<noteq> 0" "c AND 7 = 0" "x \<in> offsets k \<Longrightarrow> tag_of (c + x) = 0" "tag_of c = 0" "payload c = c"
proof -
  show c: "c \<noteq> 0" "c AND 7 = 0" "x \<in> offsets k \<Longrightarrow> tag_of (c + x) = 0" for x
    using assms unfolding spaced_def by blast+
  from c(3) [of 0] show "tag_of c = 0" by simp
  then show "payload c = c" by (simp only: payload_small)
qed

lemma used_cells: "c \<in> used fl st k \<Longrightarrow> c \<in> cells_of k st"
  by (simp add: used_def)

lemma is_func_used:
  assumes "spaced st"
  shows "f \<in> used fl st Function \<Longrightarrow> is_func st f" "obj \<in> used fl st Generic_object \<Longrightarrow> \<not> is_func st obj"
proof -
  show "f \<in> used fl st Function \<Longrightarrow> is_func st f" by (simp add: is_func_def used_def)
  show "\<not> is_func st obj" if "obj \<in> used fl st Generic_object"
    using spacedD(1) [OF assms, of obj Generic_object obj Function 0 0] that by (auto simp: is_func_def used_def)
qed

text \<open>\<open>gc_check_ptr\<close> accepts every cell.\<close>

lemma check_cell:
  assumes "arena_ok k f st" "c \<in> cells_of k st"
  shows "gc_check_ptr (arena_of k st) c"
proof -
  let ?a = "arena_of k st"
  obtain b n where b: "(b, n) \<in> set (arena_blocks ?a)" "c \<in> set (block_cells (csize k) (b, n))"
    using assms by (auto simp: arena_ok_def cells_of_def arena_cells_def Let_def)
  then obtain i where i: "i < unat n" "c = b + of_nat i * csize k"
    by (auto simp: block_cells_def GC_CELL_OP_def)
  have room: "unat b + unat n * unat (csize k) < 2 ^ 48" using b(1) assms(1) by (auto simp: arena_ok_def Let_def)
  have pos: "0 < unat (csize k)" by (cases k) simp_all
  have less: "i * unat (csize k) < unat n * unat (csize k)" using i(1) pos by simp
  have in64: "unat n < 2 ^ 64" using unsigned_less [of n] by simp
  have u: "unat (of_nat j * csize k) = j * unat (csize k)" "unat (b + of_nat j * csize k) = unat b + j * unat (csize k)"
    if "j \<le> unat n" for j
  proof -
    have "j * unat (csize k) \<le> unat n * unat (csize k)" using that by simp
    then have s: "unat b + j * unat (csize k) < 2 ^ 48" using room by linarith
    have "unat (of_nat j :: u64) = j" using that in64 by (simp add: unat_of_nat)
    then show "unat (of_nat j * csize k) = j * unat (csize k)" using s by (simp add: unat_word_ariths)
    then show "unat (b + of_nat j * csize k) = unat b + j * unat (csize k)" using s by (simp add: unat_word_ariths)
  qed
  have "b \<le> c" "c < b + of_nat (unat n) * csize k"
    unfolding word_le_nat_alt word_less_nat_alt i(2) using u(2) [of i] u(2) [of "unat n"] i(1) less by simp_all
  then show ?thesis
    using b(1) assms(1) by (auto simp: gc_check_ptr_def list_ex_iff GC_CELL_OP_def arena_ok_def Let_def)
qed

subsection \<open>Boxed objects\<close>

definition boxed :: "js \<Rightarrow> u64 \<Rightarrow> val_t" where
  "boxed st obj = tagged (if is_func st obj then 0xFFF5 else 0xFFFF) obj"

lemma boxed_object: "v7_is_object (boxed st obj)" "is_js_function (boxed st obj) \<longleftrightarrow> is_func st obj"
    "payload (boxed st obj) = payload obj" "\<not> is_cfunction_lite (boxed st obj)"
  by (simp_all add: boxed_def kinds)

lemma object_not_null: "v7_is_object v \<Longrightarrow> \<not> v7_is_null v"
  by (auto simp: null_foreign kinds)

lemma to_object: "v7_is_object v \<Longrightarrow> v7_to_object v = Some (payload v)"
  by (simp add: v7_to_object_def object_not_null v7_to_pointer_payload)

lemma object_boxed:
  assumes "spaced st" "v7_is_object v" "ref_ok fl st v"
  shows "payload v \<in> objs fl st" "v = boxed st (payload v)"
proof -
  show o: "payload v \<in> objs fl st" using assms(2,3) by (auto simp: ref_ok_def kinds)
  have "tag_of v = (if is_func st (payload v) then 0xFFF5 else 0xFFFF)"
    using assms(2,3) is_func_used [OF assms(1), of "payload v" fl] by (auto simp: ref_ok_def kinds)
  then show "v = boxed st (payload v)" using tagged_ident [of v] by (simp add: boxed_def)
qed

lemma object_to_value:
  assumes "obj_ok fl pl st obj" "obj \<noteq> 0" "tag_of obj = 0" "words st (obj + 8) = W (obj + 8)"
  shows "v7_object_to_value W obj = Some (boxed st obj)"
proof -
  have p: "pointer_to_value obj = Some obj" using assms(3) pointer_to_value_user [of obj] payload_small [of obj] by simp
  have "obj OR V7_TAG_FUNCTION = tagged 0xFFF5 obj" "obj OR V7_TAG_OBJECT = tagged 0xFFFF obj"
    using assms(3) payload_small [of obj] set_tag [of obj] by (simp_all add: tags)
  moreover obtain a where "obj_attributes W obj = Some a" "a AND V7_OBJ_FUNCTION \<noteq> 0 \<longleftrightarrow> is_func st obj"
    using assms(1,4) by (auto simp: obj_ok_def obj_attributes_def)
  ultimately show ?thesis
    using assms(2) p by (simp add: v7_object_to_value_def js_function_to_value_def boxed_def)
qed

end
