(* ===== verification/GcMarkCorrect.thy ===== *)
theory GcMarkCorrect
  imports HeapOk
begin

text \<open>
  Correctness of marking: from a well-formed memory without marks, \<open>gc_mark\<close> with enough fuel ends, marks
  every object it can reach that was not marked, with its properties, and threads every value there that
  refers to a string.
\<close>

subsection \<open>Threading strings\<close>

lemma chain_tags_marked:
  "chain_ok cells s c \<Longrightarrow> a \<in> set c \<Longrightarrow> \<exists>y. cells a = Some y \<and> (tag_of y = 0xFFF6 \<or> tag_of y = 0xFFFE)"
proof (induction c)
  case (Cons b c)
  then show ?case by (cases c) auto
qed simp

lemma threaded_run:
  assumes ok: "strings_ok v ss" and S: "\<forall>a \<in> set S. markable ss v W a"
  obtains v' W' where "gc_mark_strings S (v, W) = Some (v', W')"
    "\<forall>a. a \<notin> set S \<or> (\<exists>x. W a = Some x \<and> tag_of x \<noteq> 0xFFF8) \<longrightarrow> W' a = W a"
    "\<forall>a \<in> set S. \<forall>x. W a = Some x \<longrightarrow> tag_of x = 0xFFF8 \<longrightarrow>
       (\<exists>y. W' a = Some y \<and> (tag_of y = 0xFFF6 \<or> tag_of y = 0xFFFE))"
    "\<exists>m. v' = v\<lparr>owned_strings := m\<rparr>"
proof -
  let ?xs = "map (\<lambda>s. (s, [])) ss"
  have fst: "map fst ?xs = ss" by (simp add: comp_def)
  have "concat (map (\<lambda>s. [] :: u64 list) ss) = []" by simp
  then have inv: "gc_inv ?xs v W"
    using ok unfolding gc_inv_def by (simp add: strings_ok_def packed_layout comp_def del: concat_eq_Nil_conv)
  obtain m W' xs where mk: "gc_mark_strings S (v, W) = Some (v\<lparr>owned_strings := m\<rparr>, W')"
      "gc_inv xs (v\<lparr>owned_strings := m\<rparr>) W'" "map fst xs = ss"
      "\<forall>i < length ss. set (snd (xs ! i)) = {a \<in> set S. refers ss W a i}"
      "\<forall>a. a \<notin> set S \<or> (\<exists>x. W a = Some x \<and> tag_of x \<noteq> 0xFFF8) \<longrightarrow> W' a = W a"
    using mark_all [OF inv, of S] S unfolding fst by auto
  have "\<exists>y. W' a = Some y \<and> (tag_of y = 0xFFF6 \<or> tag_of y = 0xFFFE)"
    if a: "a \<in> set S" "W a = Some x" "tag_of x = 0xFFF8" for a x
  proof -
    obtain i where i: "i < length ss" "refers ss W a i" using S a by (auto simp: markable_def refers_def)
    then have "a \<in> set (snd (xs ! i))" using mk(4) a(1) by blast
    moreover have "xs ! i \<in> set xs" using i(1) arg_cong [OF mk(3), of length] by simp
    then have "chain_ok W' (fst (xs ! i)) (snd (xs ! i))" using mk(2) by (simp add: gc_inv_def)
    ultimately show ?thesis by (rule chain_tags_marked [rotated])
  qed
  with that [OF mk(1,5)] show thesis by blast
qed

text \<open>Marks of other words do not matter to the threading.\<close>

definition mark_bits :: "u64 set \<Rightarrow> cells \<Rightarrow> cells" where
  "mark_bits X W = (\<lambda>a. if a \<in> X then map_option (\<lambda>w. w OR 1) (W a) else W a)"

lemma mark_bits_out [simp]: "a \<notin> X \<Longrightarrow> mark_bits X W a = W a"
  by (simp add: mark_bits_def)

lemma mark_string_local:
  "\<exists>f. \<forall>W. gc_mark_string a (v, W) = (case W a of None \<Rightarrow> None | Some x \<Rightarrow> map_option (\<lambda>(v', t). (v', W(a \<mapsto> t))) (f x))"
proof (rule exI [of _ "\<lambda>x. map_option (\<lambda>(v', W'). (v', the (W' a))) (gc_mark_string a (v, [a \<mapsto> x]))"], rule allI)
  fix W
  show "gc_mark_string a (v, W) = (case W a of None \<Rightarrow> None | Some x \<Rightarrow> map_option (\<lambda>(v', t). (v', W(a \<mapsto> t)))
      (map_option (\<lambda>(v', W'). (v', the (W' a))) (gc_mark_string a (v, [a \<mapsto> x]))))"
  proof (cases "W a")
    case (Some x)
    then have "W(a \<mapsto> x) = W" by (simp add: fun_upd_idem)
    with Some show ?thesis
      by (simp add: gc_mark_string_def Let_def option.map_comp comp_def split: Option.bind_split)
  qed (simp add: gc_mark_string_def)
qed

lemma mark_string_bits:
  assumes "a \<notin> X" "gc_mark_string a (v, W) = Some (v', W')"
  shows "gc_mark_string a (v, mark_bits X W) = Some (v', mark_bits X W')"
proof -
  have "mark_bits X (W(a \<mapsto> t)) = (mark_bits X W)(a \<mapsto> t)" for t
    using assms(1) by (auto simp: mark_bits_def)
  moreover obtain f where "\<forall>W. gc_mark_string a (v, W) =
      (case W a of None \<Rightarrow> None | Some x \<Rightarrow> map_option (\<lambda>(v', t). (v', W(a \<mapsto> t))) (f x))"
    using mark_string_local [of a v] by blast
  ultimately show ?thesis using assms by (auto split: option.splits)
qed

lemma mark_strings_bits:
  "set S \<inter> X = {} \<Longrightarrow> gc_mark_strings S (v, W) = Some (v', W') \<Longrightarrow>
     gc_mark_strings S (v, mark_bits X W) = Some (v', mark_bits X W')"
proof (induction S arbitrary: v W)
  case (Cons a S)
  then obtain v1 W1 where "gc_mark_string a (v, W) = Some (v1, W1)" "gc_mark_strings S (v1, W1) = Some (v', W')"
    by (auto simp: bind_eq_Some_conv)
  with Cons mark_string_bits [of a X v W v1 W1] show ?case by simp
qed simp

lemma mark_strings_append:
  "gc_mark_strings (S @ T) st = do { st \<leftarrow> gc_mark_strings S st; gc_mark_strings T st }"
proof (induction S arbitrary: st)
  case (Cons a S)
  then show ?case by (cases "gc_mark_string a st") simp_all
qed simp

subsection \<open>States while marking\<close>

abbreviation heads :: "(arena_kind \<Rightarrow> u64 list) \<Rightarrow> js \<Rightarrow> u64 set" where
  "heads fl st \<equiv> objs fl st \<union> props fl st"

text \<open>The words that hold values: of properties, or outside the cells.\<close>

definition slot :: "u8 list list \<Rightarrow> (arena_kind \<Rightarrow> u64 list) \<Rightarrow> js \<Rightarrow> u64 \<Rightarrow> bool" where
  "slot ss fl st a \<longleftrightarrow> slot_ok ss fl st a \<and>
     (outside_cells st a \<or> (\<exists>p \<in> cells_of Property st. a = p + 16 \<or> a = p + 24))"

text \<open>\<open>X\<close> are the cells marked and \<open>S\<close> the words threaded since the state \<open>st0\<close>.\<close>

definition marked_by :: "js \<Rightarrow> u64 set \<Rightarrow> u64 list \<Rightarrow> js \<Rightarrow> bool" where
  "marked_by st0 X S st \<longleftrightarrow>
     (\<exists>v W. gc_mark_strings S (vm st0, words st0) = Some (v, W) \<and> st = st0\<lparr>vm := v, words := mark_bits X W\<rparr>)"

definition marking :: "u8 list list \<Rightarrow> (arena_kind \<Rightarrow> u64 list) \<Rightarrow> js \<Rightarrow> u64 set \<Rightarrow> u64 list \<Rightarrow> js \<Rightarrow> bool" where
  "marking ss fl st0 X S st \<longleftrightarrow> marked_by st0 X S st \<and> X \<subseteq> heads fl st0 \<and> (\<forall>a \<in> set S. slot ss fl st0 a)"

lemma markable_slot: "slot ss fl st a \<Longrightarrow> markable ss (vm st) (words st) a"
  by (auto simp: slot_def slot_ok_def markable_def string_ok_def)

lemma slot_no_field:
  assumes "spaced st" "slot ss fl st a" "c \<in> cells_of k st" "x \<in> offsets k" "k = Property \<longrightarrow> x = 0 \<or> x = 8"
  shows "a \<noteq> c + x"
proof
  assume eq: "a = c + x"
  then obtain p y where p: "p \<in> cells_of Property st" "y = 16 \<or> y = 24" "c + x = p + y"
    using assms(2-4) unfolding slot_def outside_cells_def by blast
  then have "y \<in> offsets Property" by auto
  from spacedD [OF assms(1,3) p(1) assms(4) this p(3)] have "k = Property" "x = y" by simp_all
  with p(2) assms(5) show False by auto
qed

lemma slot_no_head:
  assumes "spaced st" "slot ss fl st a"
  shows "a \<notin> heads fl st"
proof -
  have "a \<noteq> c + 0" if "c \<in> cells_of k st" for c k
    by (rule slot_no_field [OF assms that]) simp_all
  then show ?thesis by (auto dest: used_cells)
qed

lemma marking_frame:
  assumes "marking ss fl st0 X S st"
  shows "arena_of k st = arena_of k st0" "bcodes st = bcodes st0" "vals st = vals st0" "call_stack st = call_stack st0"
    "stack st = stack st0" "tmp_stack st = tmp_stack st0" "act_bcodes st = act_bcodes st0" "inhibit_gc st = inhibit_gc st0"
    "strict_mode st = strict_mode st0"
proof -
  obtain v W where st: "st = st0\<lparr>vm := v, words := W\<rparr>" using assms by (auto simp: marking_def marked_by_def)
  show "arena_of k st = arena_of k st0" unfolding st by (cases k) simp_all
  show "bcodes st = bcodes st0" "vals st = vals st0" "call_stack st = call_stack st0"
    "stack st = stack st0" "tmp_stack st = tmp_stack st0" "act_bcodes st = act_bcodes st0" "inhibit_gc st = inhibit_gc st0"
    "strict_mode st = strict_mode st0"
    unfolding st by simp_all
qed

text \<open>What the words are.\<close>

lemma marking_words:
  assumes ok: "strings_ok (vm st0) ss" "spaced st0" and mk: "marking ss fl st0 X S st"
  shows marking_field: "c \<in> cells_of k st0 \<Longrightarrow> x \<in> offsets k \<Longrightarrow> x \<noteq> 0 \<Longrightarrow> k = Property \<longrightarrow> x = 8 \<Longrightarrow>
      words st (c + x) = words st0 (c + x)"
    and marking_head: "c \<in> cells_of k st0 \<Longrightarrow>
      words st c = (if c \<in> X then map_option (\<lambda>w. w OR 1) (words st0 c) else words st0 c)"
    and marking_slot: "slot ss fl st0 a \<Longrightarrow> words st0 a = Some x \<Longrightarrow>
      \<exists>y. words st a = Some y \<and> (y = x \<or> (tag_of x = 0xFFF8 \<and> (tag_of y = 0xFFF6 \<or> tag_of y = 0xFFFE)))"
proof -
  have S: "\<forall>a \<in> set S. slot ss fl st0 a" and X: "X \<subseteq> heads fl st0" using mk by (simp_all add: marking_def)
  then have m: "\<forall>a \<in> set S. markable ss (vm st0) (words st0) a" using markable_slot by blast
  obtain v' W' where
    W': "gc_mark_strings S (vm st0, words st0) = Some (v', W')"
      "\<forall>a. a \<notin> set S \<or> (\<exists>x. words st0 a = Some x \<and> tag_of x \<noteq> 0xFFF8) \<longrightarrow> W' a = words st0 a"
      "\<forall>a \<in> set S. \<forall>x. words st0 a = Some x \<longrightarrow> tag_of x = 0xFFF8 \<longrightarrow>
         (\<exists>y. W' a = Some y \<and> (tag_of y = 0xFFF6 \<or> tag_of y = 0xFFFE))"
    by (rule threaded_run [OF ok(1) m]) (rule that)
  have w: "words st = mark_bits X W'" using mk W'(1) by (auto simp: marking_def marked_by_def)
  show "words st (c + x) = words st0 (c + x)"
    if c: "c \<in> cells_of k st0" "x \<in> offsets k" "x \<noteq> 0" "k = Property \<longrightarrow> x = 8"
  proof -
    have "c + x \<noteq> d + 0" if "d \<in> cells_of k' st0" for d k'
      using spacedD(3) [OF ok(2) c(1) that c(2) offsets_0(1)] c(3) by metis
    then have "c + x \<notin> X" using X by (auto dest!: used_cells subsetD)
    moreover have "c + x \<notin> set S" using S slot_no_field [OF ok(2) _ c(1,2)] c(4) by blast
    ultimately show ?thesis using W'(2) by (simp add: w)
  qed
  show "words st c = (if c \<in> X then map_option (\<lambda>w. w OR 1) (words st0 c) else words st0 c)"
    if c: "c \<in> cells_of k st0"
  proof -
    have "a \<noteq> c + 0" if "slot ss fl st0 a" for a by (rule slot_no_field [OF ok(2) that c]) simp_all
    then have "c \<notin> set S" using S by auto
    then show ?thesis using W'(2) by (simp add: w mark_bits_def)
  qed
  show "\<exists>y. words st a = Some y \<and> (y = x \<or> (tag_of x = 0xFFF8 \<and> (tag_of y = 0xFFF6 \<or> tag_of y = 0xFFFE)))"
    if a: "slot ss fl st0 a" "words st0 a = Some x"
  proof -
    have "a \<notin> X" using slot_no_head [OF ok(2) a(1)] X by blast
    then have "words st a = W' a" by (simp add: w)
    then show ?thesis using W'(2,3) a(2) by metis
  qed
qed

subsection \<open>The two marks\<close>

lemma mark_head_step:
  assumes mk: "marking ss fl st0 X S st" and c: "c \<in> heads fl st0" "words st c \<noteq> None"
  obtains st' where "mark_head c st = Some st'" "marking ss fl st0 (insert c X) S st'"
proof -
  obtain w where w: "words st c = Some w" using c(2) by blast
  obtain v W where W: "gc_mark_strings S (vm st0, words st0) = Some (v, W)"
    and st: "st = st0\<lparr>vm := v, words := mark_bits X W\<rparr>"
    using mk by (auto simp: marking_def marked_by_def)
  let ?st = "st0\<lparr>vm := v, words := mark_bits (insert c X) W\<rparr>"
  have "w = (case W c of Some u \<Rightarrow> if c \<in> X then u OR 1 else u)" "W c \<noteq> None"
    using w by (auto simp: st mark_bits_def split: if_splits)
  then have "(mark_bits X W)(c \<mapsto> w OR 1) = mark_bits (insert c X) W"
    by (auto simp: mark_bits_def fun_eq_iff or.assoc)
  then have h: "mark_head c st = Some ?st" using w by (simp add: mark_head_def MARK_def st)
  have "marking ss fl st0 (insert c X) S ?st"
    using mk c(1) W(1) by (auto simp: marking_def marked_by_def)
  with h show thesis by (rule that)
qed

lemma mark_string_step:
  assumes ok: "strings_ok (vm st0) ss" "spaced st0" and mk: "marking ss fl st0 X S st" and a: "slot ss fl st0 a"
  obtains st' where "mark_string a st = Some st'" "marking ss fl st0 X (S @ [a]) st'"
proof -
  obtain v W where W: "gc_mark_strings S (vm st0, words st0) = Some (v, W)"
    and st: "st = st0\<lparr>vm := v, words := mark_bits X W\<rparr>" and S: "\<forall>a \<in> set (S @ [a]). slot ss fl st0 a"
    using mk a by (auto simp: marking_def marked_by_def)
  then have m: "\<forall>a \<in> set (S @ [a]). markable ss (vm st0) (words st0) a" using markable_slot by blast
  obtain v' W' where run: "gc_mark_strings (S @ [a]) (vm st0, words st0) = Some (v', W')"
    by (rule threaded_run [OF ok(1) m]) (rule that)
  have g: "gc_mark_string a (v, W) = Some (v', W')"
    using run unfolding mark_strings_append W by (cases "gc_mark_string a (v, W)") simp_all
  have "a \<notin> X" using slot_no_head [OF ok(2) a] mk by (auto simp: marking_def)
  from mark_string_bits [OF this g] have "mark_string a st = Some (st0\<lparr>vm := v', words := mark_bits X W'\<rparr>)"
    by (simp add: mark_string_def st)
  moreover have "marking ss fl st0 X (S @ [a]) (st0\<lparr>vm := v', words := mark_bits X W'\<rparr>)"
    using mk S run by (auto simp: marking_def marked_by_def)
  ultimately show thesis by (rule that)
qed

subsection \<open>The graph\<close>

text \<open>The values that marking an object goes on to: the values of its properties, its prototype, and of a
  function its scope and its literals.\<close>

definition refs :: "(u64 \<Rightarrow> u64 list) \<Rightarrow> js \<Rightarrow> u64 \<Rightarrow> val_t set" where
  "refs pl st obj =
     {x. \<exists>p \<in> set (pl obj). words st (p + 24) = Some x} \<union> {x. obj_prototype_v st (boxed st obj) = Some x} \<union>
     (if is_func st obj
      then {x. \<exists>s. words st (obj + 16) = Some s \<and> v7_object_to_value (words st) s = Some x} \<union>
           {x. \<exists>a \<in> set (func_slots st obj). words st a = Some x}
      else {})"

inductive reach :: "(u64 \<Rightarrow> u64 list) \<Rightarrow> js \<Rightarrow> val_t set \<Rightarrow> u64 \<Rightarrow> bool" for pl st R where
  reach_root: "x \<in> R \<Longrightarrow> v7_is_object x \<Longrightarrow> reach pl st R (payload x)"
| reach_step: "reach pl st R obj \<Longrightarrow> x \<in> refs pl st obj \<Longrightarrow> v7_is_object x \<Longrightarrow> reach pl st R (payload x)"

lemma reach_mono: "reach pl st R obj \<Longrightarrow> R \<subseteq> R' \<Longrightarrow> reach pl st R' obj"
  by (induction rule: reach.induct) (auto intro: reach.intros)

text \<open>A stretch of marking: \<open>M\<close> is marked before, \<open>N\<close> are the objects marked in it, on the way to the values
  \<open>V\<close>; besides the words of their values, \<open>T\<close> is threaded.\<close>

definition stretch ::
  "(arena_kind \<Rightarrow> u64 list) \<Rightarrow> (u64 \<Rightarrow> u64 list) \<Rightarrow> js \<Rightarrow> u64 set \<Rightarrow> u64 list \<Rightarrow> val_t set \<Rightarrow> u64 set \<Rightarrow> u64 set \<Rightarrow> u64 list \<Rightarrow> bool" where
  "stretch fl pl st0 M S V T N S' \<longleftrightarrow>
     N \<subseteq> objs fl st0 - M \<and> (\<forall>x \<in> V. v7_is_object x \<longrightarrow> payload x \<in> M \<union> N) \<and>
     (\<forall>obj \<in> N. \<forall>x \<in> refs pl st0 obj. v7_is_object x \<longrightarrow> payload x \<in> M \<union> N) \<and>
     (\<forall>obj \<in> N. reach pl st0 V obj) \<and>
     set S' = set S \<union> T \<union> (\<Union>obj \<in> N. set (slots pl st0 obj))"

lemma stretch_append:
  assumes "stretch fl pl st0 M S V T N S1" "stretch fl pl st0 (M \<union> N) S1 V2 U N2 S2"
  shows "stretch fl pl st0 M S (V \<union> V2) (T \<union> U) (N \<union> N2) S2"
proof -
  have "\<forall>obj \<in> N \<union> N2. reach pl st0 (V \<union> V2) obj"
    using assms unfolding stretch_def by (auto intro: reach_mono)
  with assms show ?thesis unfolding stretch_def by auto
qed

lemma stretch_none:
  assumes "\<forall>x \<in> V. v7_is_object x \<longrightarrow> payload x \<in> M" "set S' = set S \<union> T"
  shows "stretch fl pl st0 M S V T {} S'"
  using assms by (simp add: stretch_def)

text \<open>An object with all it refers to.\<close>

lemma stretch_object:
  assumes "stretch fl pl st0 (insert obj M) S V T N S'" "V = refs pl st0 obj" "T = set (slots pl st0 obj)"
    and "obj \<in> objs fl st0 - M" "v7_is_object v" "payload v = obj"
  shows "stretch fl pl st0 M S {v} {} (insert obj N) S'"
proof -
  have v: "reach pl st0 {v} obj" using reach_root [of v "{v}" pl st0] assms(5,6) by simp
  have "reach pl st0 {v} obj'" if "reach pl st0 V obj'" for obj'
    using that unfolding assms(2)
    by (induction rule: reach.induct) (auto intro: reach_step [OF v] reach_step)
  with assms v show ?thesis unfolding stretch_def by auto
qed

subsection \<open>Marking\<close>

definition grow :: "(u64 \<Rightarrow> u64 list) \<Rightarrow> u64 set \<Rightarrow> u64 set \<Rightarrow> u64 set" where
  "grow pl X N = X \<union> N \<union> (\<Union>obj \<in> N. set (pl obj))"

text \<open>No property of an unmarked object is marked.\<close>

definition clean :: "(arena_kind \<Rightarrow> u64 list) \<Rightarrow> (u64 \<Rightarrow> u64 list) \<Rightarrow> js \<Rightarrow> u64 set \<Rightarrow> bool" where
  "clean fl pl st0 X \<longleftrightarrow> (\<forall>obj \<in> objs fl st0 - X. set (pl obj) \<inter> X = {})"

definition need :: "nat \<Rightarrow> nat \<Rightarrow> nat" where
  "need L k = k * (L + 1) + 1"

definition unmarked :: "(arena_kind \<Rightarrow> u64 list) \<Rightarrow> js \<Rightarrow> u64 set \<Rightarrow> nat" where
  "unmarked fl st0 X = card (objs fl st0 - X)"

text \<open>\<open>L\<close> bounds the properties and the literals of an object.\<close>

definition short :: "(arena_kind \<Rightarrow> u64 list) \<Rightarrow> (u64 \<Rightarrow> u64 list) \<Rightarrow> js \<Rightarrow> nat \<Rightarrow> bool" where
  "short fl pl st0 L \<longleftrightarrow> (\<forall>obj \<in> objs fl st0. length (pl obj) \<le> L \<and> length (func_slots st0 obj) \<le> L)"

definition marks_value where
  "marks_value ss fl pl st0 L n \<longleftrightarrow>
     (\<forall>X S st v. marking ss fl st0 X S st \<longrightarrow> clean fl pl st0 X \<longrightarrow> ref_ok fl st0 v \<longrightarrow>
        need L (unmarked fl st0 X) \<le> n \<longrightarrow>
        (\<exists>st' N S'. gc_mark n v st = Some st' \<and> marking ss fl st0 (grow pl X N) S' st' \<and>
           stretch fl pl st0 (X \<inter> objs fl st0) S {v} {} N S'))"

definition marks_props where
  "marks_props ss fl pl st0 L n \<longleftrightarrow>
     (\<forall>X S st p ps obj. marking ss fl st0 X S st \<longrightarrow> clean fl pl st0 X \<longrightarrow> chain (words st0) p ps \<longrightarrow>
        obj \<in> X \<inter> objs fl st0 \<longrightarrow> set ps \<subseteq> set (pl obj) \<longrightarrow> distinct ps \<longrightarrow> set ps \<inter> X = {} \<longrightarrow>
        length ps + need L (unmarked fl st0 X) \<le> n \<longrightarrow>
        (\<exists>st' N S'. gc_mark_props n p st = Some st' \<and> marking ss fl st0 (grow pl X N \<union> set ps) S' st' \<and>
           stretch fl pl st0 (X \<inter> objs fl st0) S {x. \<exists>p \<in> set ps. words st0 (p + 24) = Some x}
             (set (prop_slots ps)) N S'))"

definition marks_vec where
  "marks_vec ss fl pl st0 L n \<longleftrightarrow>
     (\<forall>X S st vp len. marking ss fl st0 X S st \<longrightarrow> clean fl pl st0 X \<longrightarrow>
        (\<forall>a \<in> set (vec_slots vp len). slot ss fl st0 a) \<longrightarrow> len + need L (unmarked fl st0 X) \<le> n \<longrightarrow>
        (\<exists>st' N S'. gc_mark_val_array n vp len st = Some st' \<and> marking ss fl st0 (grow pl X N) S' st' \<and>
           stretch fl pl st0 (X \<inter> objs fl st0) S {x. \<exists>a \<in> set (vec_slots vp len). words st0 a = Some x}
             (set (vec_slots vp len)) N S'))"

end
