(* ===== verification/GcMarkRun.thy ===== *)
theory GcMarkRun
  imports GcMarkCorrect
begin

text \<open>
  \<open>gc_mark\<close>, its loop over properties and its loop over vectors of values end with enough fuel, and each is
  a stretch of marking.
\<close>

subsection \<open>Marked sets\<close>

lemma finite_objs [simp]: "finite (objs fl st)" "finite (props fl st)"
  by (simp_all add: used_def cells_of_def)

lemma objs_props:
  assumes "spaced st"
  shows "objs fl st \<inter> props fl st = {}"
  using spacedD(1) [OF assms, of _ Generic_object _ Property 0 0] spacedD(1) [OF assms, of _ Function _ Property 0 0]
  by (auto dest!: used_cells)

lemma heap_okD:
  assumes "heap_ok ss fl pl st"
  shows "strings_ok (vm st) ss" "spaced st" "arena_ok k (fl k) st"
    "p \<in> props fl st \<Longrightarrow> prop_ok ss fl st p"
    "obj \<in> objs fl st \<Longrightarrow> obj_ok fl pl st obj"
    "obj \<in> objs fl st \<Longrightarrow> obj' \<in> objs fl st \<Longrightarrow> obj \<noteq> obj' \<Longrightarrow> set (pl obj) \<inter> set (pl obj') = {}"
    "obj \<in> used fl st Generic_object \<Longrightarrow> generic_ok fl st obj"
    "f \<in> used fl st Function \<Longrightarrow> func_ok ss fl st f"
    "root_ok ss fl st (vals st + 88)" "\<exists>fp. function_prototype st = Some fp \<and> v7_is_object fp"
  using assms unfolding heap_ok_def arenas_ok_def by blast+

lemma obj_props: "heap_ok ss fl pl st \<Longrightarrow> obj \<in> objs fl st \<Longrightarrow> set (pl obj) \<subseteq> props fl st"
  using heap_okD(5) by (auto simp: obj_ok_def)

lemma grow_objs:
  assumes ok: "heap_ok ss fl pl st" and N: "N \<subseteq> objs fl st" and Q: "Q \<subseteq> props fl st"
  shows "(grow pl X N \<union> Q) \<inter> objs fl st = (X \<inter> objs fl st) \<union> N"
proof -
  have "(\<Union>obj \<in> N. set (pl obj)) \<union> Q \<subseteq> props fl st" using obj_props [OF ok] N Q by blast
  then show ?thesis using objs_props [OF heap_okD(2) [OF ok], of fl] N unfolding grow_def by blast
qed

lemma clean_grow:
  assumes ok: "heap_ok ss fl pl st" and X: "clean fl pl st X" and N: "N \<subseteq> objs fl st"
    and obj: "obj \<in> X \<inter> objs fl st" and Q: "Q \<subseteq> set (pl obj)"
  shows "clean fl pl st (grow pl X N \<union> Q)"
  unfolding clean_def
proof
  fix o' assume o': "o' \<in> objs fl st - (grow pl X N \<union> Q)"
  then have o'': "o' \<in> objs fl st" "o' \<notin> X" "o' \<notin> N" by (auto simp: grow_def)
  have "set (pl o') \<inter> X = {}" using X o'' by (auto simp: clean_def)
  moreover have "set (pl o') \<inter> N = {}" using obj_props [OF ok o''(1)] objs_props [OF heap_okD(2) [OF ok], of fl] N by blast
  moreover have "set (pl o') \<inter> set (pl x) = {}" if "x \<in> N \<or> x = obj" for x
    using heap_okD(6) [OF ok o''(1), of x] that o'' N obj by blast
  ultimately show "set (pl o') \<inter> (grow pl X N \<union> Q) = {}" using Q unfolding grow_def by blast
qed

lemma clean_grow0:
  assumes ok: "heap_ok ss fl pl st" and X: "clean fl pl st X" and N: "N \<subseteq> objs fl st"
  shows "clean fl pl st (grow pl X N)"
  unfolding clean_def
proof
  fix o' assume o': "o' \<in> objs fl st - grow pl X N"
  then have o'': "o' \<in> objs fl st" "o' \<notin> X" "o' \<notin> N" by (auto simp: grow_def)
  have "set (pl o') \<inter> X = {}" using X o'' by (auto simp: clean_def)
  moreover have "set (pl o') \<inter> N = {}" using obj_props [OF ok o''(1)] objs_props [OF heap_okD(2) [OF ok], of fl] N by blast
  moreover have "set (pl o') \<inter> set (pl x) = {}" if "x \<in> N" for x
    using heap_okD(6) [OF ok o''(1), of x] that o'' N by blast
  ultimately show "set (pl o') \<inter> grow pl X N = {}" unfolding grow_def by blast
qed

lemma unmarked_mono: "X \<subseteq> X' \<Longrightarrow> unmarked fl st X' \<le> unmarked fl st X"
  unfolding unmarked_def by (rule card_mono) auto

lemma unmarked_insert: "obj \<in> objs fl st - X \<Longrightarrow> unmarked fl st X = Suc (unmarked fl st (insert obj X))"
proof -
  assume obj: "obj \<in> objs fl st - X"
  have "objs fl st - insert obj X = (objs fl st - X) - {obj}" by blast
  then show ?thesis using card_Suc_Diff1 [of "objs fl st - X" obj] obj by (simp add: unmarked_def)
qed

lemma need_mono: "k \<le> k' \<Longrightarrow> need L k \<le> need L k'"
  unfolding need_def by (intro add_le_mono mult_le_mono1) simp_all

lemma need_grow: "X \<subseteq> X' \<Longrightarrow> need L (unmarked fl st X') \<le> need L (unmarked fl st X)"
  by (rule need_mono) (rule unmarked_mono)

lemma grow_le: "X \<subseteq> grow pl X N" "X \<subseteq> grow pl X N \<union> Q"
  by (auto simp: grow_def)

lemma grow_empty [simp]: "grow pl X {} = X"
  by (simp add: grow_def)

lemma grow_grow: "grow pl (grow pl X N) N' = grow pl X (N \<union> N')"
  by (auto simp: grow_def)

subsection \<open>What a marked state still shows of the objects\<close>

lemma objs_cell: "obj \<in> objs fl st \<Longrightarrow> \<exists>k. obj \<in> cells_of k st \<and> k \<noteq> Property"
  by (auto dest: used_cells)

lemma marking_obj:
  assumes ok: "heap_ok ss fl pl st0" and mk: "marking ss fl st0 X S st" and obj: "obj \<in> objs fl st0"
  shows "words st (obj + 8) = words st0 (obj + 8)" "words st (obj + 16) = words st0 (obj + 16)"
    "obj_attributes (words st) obj = obj_attributes (words st0) obj"
    "v7_object_to_value (words st) obj = Some (boxed st0 obj)"
    "is_func st obj = is_func st0 obj"
proof -
  obtain k where k: "obj \<in> cells_of k st0" "k \<noteq> Property" using objs_cell [OF obj] by blast
  note f = marking_field [OF heap_okD(1,2) [OF ok] mk k(1)]
  show 8: "words st (obj + 8) = words st0 (obj + 8)" by (rule f) (use k(2) in simp_all)
  show "words st (obj + 16) = words st0 (obj + 16)" by (rule f) (use k(2) in simp_all)
  show "obj_attributes (words st) obj = obj_attributes (words st0) obj" by (simp add: obj_attributes_def 8)
  show "v7_object_to_value (words st) obj = Some (boxed st0 obj)"
    using object_to_value [OF heap_okD(5) [OF ok obj], of "words st"] cell_small [OF heap_okD(2) [OF ok] k(1)] 8 by simp
  show "is_func st obj = is_func st0 obj"
    using marking_frame(1) [OF mk] by (simp add: is_func_def cells_of_def)
qed

lemma box_ok:
  assumes "heap_ok ss fl pl st" "obj \<in> objs fl st"
  shows "ref_ok fl st (boxed st obj)" "payload (boxed st obj) = obj"
proof -
  obtain k where k: "obj \<in> cells_of k st" using objs_cell [OF assms(2)] by blast
  have p: "payload obj = obj" using cell_small(5) [OF heap_okD(2) [OF assms(1)] k] by simp
  then show "payload (boxed st obj) = obj" by (simp add: boxed_object)
  show "ref_ok fl st (boxed st obj)"
    using assms(2) p is_func_used [OF heap_okD(2) [OF assms(1)], of obj fl] by (auto simp: ref_ok_def boxed_def)
qed

lemma root_slot: "root_ok ss fl st a \<Longrightarrow> slot ss fl st a"
  by (simp add: root_ok_def slot_def)

lemma marking_function_prototype:
  assumes ok: "heap_ok ss fl pl st0" and mk: "marking ss fl st0 X S st"
  shows "\<exists>fp. function_prototype st = Some fp \<and> function_prototype st0 = Some fp \<and> v7_is_object fp \<and> ref_ok fl st0 fp"
proof -
  obtain fp where fp: "function_prototype st0 = Some fp" "v7_is_object fp" using heap_okD(10) [OF ok] by blast
  have r: "root_ok ss fl st0 (vals st0 + 88)" by (rule heap_okD(9) [OF ok])
  have w: "words st0 (vals st0 + 88) = Some fp" using fp(1) by (simp add: function_prototype_def)
  have "words st (vals st0 + 88) = Some fp"
    using marking_slot [OF heap_okD(1,2) [OF ok] mk root_slot [OF r] w] fp(2) by (auto simp: kinds)
  moreover have "ref_ok fl st0 fp" using r w by (auto simp: root_ok_def slot_ok_def)
  ultimately show ?thesis using fp by (simp add: function_prototype_def marking_frame(3) [OF mk])
qed

lemma marking_value_of:
  assumes ok: "heap_ok ss fl pl st0" and mk: "marking ss fl st0 X S st" and q: "q = 0 \<or> q \<in> objs fl st0"
  shows "\<exists>x. v7_object_to_value (words st) q = Some x \<and> v7_object_to_value (words st0) q = Some x \<and> ref_ok fl st0 x"
proof (cases "q = 0")
  case True
  then show ?thesis by (simp add: v7_object_to_value_def ref_ok_def V7_NULL_def tags)
next
  case False
  with q have q: "q \<in> objs fl st0" by simp
  then obtain k where k: "q \<in> cells_of k st0" using objs_cell by blast
  have "v7_object_to_value (words st0) q = Some (boxed st0 q)"
    using object_to_value [OF heap_okD(5) [OF ok q], of "words st0"] cell_small [OF heap_okD(2) [OF ok] k] by simp
  then show ?thesis using marking_obj(4) [OF ok mk q] box_ok(1) [OF ok q] by blast
qed

lemma marking_prototype:
  assumes ok: "heap_ok ss fl pl st0" and mk: "marking ss fl st0 X S st" and obj: "obj \<in> objs fl st0"
  shows "\<exists>x. obj_prototype_v st (boxed st0 obj) = Some x \<and> obj_prototype_v st0 (boxed st0 obj) = Some x \<and> ref_ok fl st0 x"
proof (cases "is_func st0 obj")
  case True
  with marking_function_prototype [OF ok mk] show ?thesis
    by (auto simp: obj_prototype_v_def boxed_object)
next
  case False
  then have gen: "obj \<in> used fl st0 Generic_object"
    using obj is_func_used(1) [OF heap_okD(2) [OF ok], of obj fl] by blast
  obtain q where q: "words st0 (obj + 16) = Some q" "q = 0 \<or> q \<in> objs fl st0"
    using heap_okD(7) [OF ok gen] by (auto simp: generic_ok_def)
  obtain a where a: "obj_attributes (words st0) obj = Some a" "a AND V7_OBJ_FUNCTION = 0"
    using heap_okD(5) [OF ok obj] False by (auto simp: obj_ok_def)
  have "v7_to_object (boxed st0 obj) = Some obj" using to_object box_ok(2) [OF ok obj] boxed_object(1) by simp
  then show ?thesis
    using False a q(1) marking_obj(2,3) [OF ok mk obj] marking_value_of [OF ok mk q(2)]
    by (auto simp: obj_prototype_v_def boxed_object obj_prototype_def)
qed

text \<open>A word that holds a value gives the same object as before, if it gives one.\<close>

lemma marking_value:
  assumes ok: "heap_ok ss fl pl st0" and mk: "marking ss fl st0 X S st" and a: "slot ss fl st0 a"
  obtains x y where "words st0 a = Some x" "words st a = Some y" "ref_ok fl st0 y"
    "v7_is_object x \<Longrightarrow> y = x" "v7_is_object y \<Longrightarrow> y = x"
proof -
  obtain x where x: "words st0 a = Some x" "ref_ok fl st0 x" using a by (auto simp: slot_def slot_ok_def)
  obtain y where y: "words st a = Some y" "y = x \<or> (tag_of x = 0xFFF8 \<and> (tag_of y = 0xFFF6 \<or> tag_of y = 0xFFFE))"
    using marking_slot [OF heap_okD(1,2) [OF ok] mk a x(1)] by blast
  from y(2) have "ref_ok fl st0 y" "v7_is_object x \<longrightarrow> y = x" "v7_is_object y \<longrightarrow> y = x"
    using x(2) by (elim disjE conjE; simp add: ref_ok_def kinds)+
  with that [OF x(1) y(1)] show thesis by blast
qed

subsection \<open>Vectors of values\<close>

lemma reach_no_object: "reach pl st R obj \<Longrightarrow> \<exists>x \<in> R. v7_is_object x"
  by (induction rule: reach.induct) blast+

lemma stretch_value:
  assumes "stretch fl pl st0 M S {y} T N S'" "v7_is_object x \<Longrightarrow> y = x" "v7_is_object y \<Longrightarrow> y = x"
  shows "stretch fl pl st0 M S {x} T N S'"
proof (cases "y = x")
  case False
  then have "\<not> v7_is_object x" "\<not> v7_is_object y" using assms(2,3) by blast+
  moreover have "\<forall>obj \<in> N. reach pl st0 {y} obj" using assms(1) by (simp add: stretch_def)
  ultimately have "N = {}" using reach_no_object [of pl st0 "{y}"] by blast
  then show ?thesis using assms(1) \<open>\<not> v7_is_object x\<close> by (simp add: stretch_def)
qed (use assms(1) in simp)

lemma vec_slots_Suc: "vec_slots p (Suc n) = p # vec_slots (p + 8) n"
  unfolding vec_slots_def map_upt_Suc by (simp add: algebra_simps)

lemma vec_slots_0 [simp]: "vec_slots p 0 = []"
  by (simp add: vec_slots_def)

lemma stretch_marked: "stretch fl pl st0 M S V T N S' \<Longrightarrow> N \<subseteq> objs fl st0"
  by (auto simp: stretch_def)

lemma marks_valueD:
  assumes "marks_value ss fl pl st0 L n" "heap_ok ss fl pl st0"
    and "marking ss fl st0 X S st" "clean fl pl st0 X" "ref_ok fl st0 v" "need L (unmarked fl st0 X) \<le> n"
  obtains st' N S' where "gc_mark n v st = Some st'" "marking ss fl st0 (grow pl X N) S' st'"
    "stretch fl pl st0 (X \<inter> objs fl st0) S {v} {} N S'" "clean fl pl st0 (grow pl X N)"
    "grow pl X N \<inter> objs fl st0 = X \<inter> objs fl st0 \<union> N" "N \<subseteq> objs fl st0"
proof -
  obtain st' N S' where r: "gc_mark n v st = Some st'" "marking ss fl st0 (grow pl X N) S' st'"
    "stretch fl pl st0 (X \<inter> objs fl st0) S {v} {} N S'"
    using assms(1,3-6) unfolding marks_value_def by blast
  note N = stretch_marked [OF r(3)]
  show thesis
    by (rule that [OF r clean_grow0 [OF assms(2,4) N] _ N]) (use grow_objs [OF assms(2) N, of "{}" X] in simp)
qed

lemma marks_vec_Suc:
  assumes ok: "heap_ok ss fl pl st0" and val: "marks_value ss fl pl st0 L n" and vec: "marks_vec ss fl pl st0 L n"
  shows "marks_vec ss fl pl st0 L (Suc n)"
  unfolding marks_vec_def
proof (intro allI impI)
  fix X S st vp len
  assume mk: "marking ss fl st0 X S st" and X: "clean fl pl st0 X"
    and slots: "\<forall>a \<in> set (vec_slots vp len). slot ss fl st0 a" and fuel: "len + need L (unmarked fl st0 X) \<le> Suc n"
  show "\<exists>st' N S'. gc_mark_val_array (Suc n) vp len st = Some st' \<and> marking ss fl st0 (grow pl X N) S' st' \<and>
      stretch fl pl st0 (X \<inter> objs fl st0) S {x. \<exists>a \<in> set (vec_slots vp len). words st0 a = Some x}
        (set (vec_slots vp len)) N S'"
  proof (cases len)
    case 0
    have "stretch fl pl st0 (X \<inter> objs fl st0) S {} {} {} S" by (rule stretch_none) simp_all
    then show ?thesis using mk by (intro exI [of _ st] exI [of _ "{}"] exI [of _ S]) (simp add: 0)
  next
    case (Suc l)
    note slots = slots [unfolded Suc vec_slots_Suc]
    then have vp: "slot ss fl st0 vp" by simp
    obtain x y where xy: "words st0 vp = Some x" "words st vp = Some y" "ref_ok fl st0 y"
      "v7_is_object x \<Longrightarrow> y = x" "v7_is_object y \<Longrightarrow> y = x"
      by (rule marking_value [OF ok mk vp]) blast
    have f1: "need L (unmarked fl st0 X) \<le> n" using fuel Suc by simp
    obtain st1 N1 S1 where r1: "gc_mark n y st = Some st1" "marking ss fl st0 (grow pl X N1) S1 st1"
      "stretch fl pl st0 (X \<inter> objs fl st0) S {y} {} N1 S1" "clean fl pl st0 (grow pl X N1)"
      "grow pl X N1 \<inter> objs fl st0 = X \<inter> objs fl st0 \<union> N1" "N1 \<subseteq> objs fl st0"
      by (rule marks_valueD [OF val ok mk X xy(3) f1])
    obtain st2 where r2: "mark_string vp st1 = Some st2" "marking ss fl st0 (grow pl X N1) (S1 @ [vp]) st2"
      by (rule mark_string_step [OF heap_okD(1,2) [OF ok] r1(2) vp])
    have "l + need L (unmarked fl st0 (grow pl X N1)) \<le> n"
      using fuel Suc need_grow [where L = L and fl = fl and st = st0, OF grow_le(1) [of X pl N1]] by simp
    moreover have "\<forall>a \<in> set (vec_slots (vp + 8) l). slot ss fl st0 a" using slots by simp
    ultimately obtain st3 N3 S3 where r3: "gc_mark_val_array n (vp + 8) l st2 = Some st3"
      "marking ss fl st0 (grow pl (grow pl X N1) N3) S3 st3"
      "stretch fl pl st0 (grow pl X N1 \<inter> objs fl st0) (S1 @ [vp])
         {x. \<exists>a \<in> set (vec_slots (vp + 8) l). words st0 a = Some x} (set (vec_slots (vp + 8) l)) N3 S3"
      using vec r2(2) r1(4) unfolding marks_vec_def by blast
    have "stretch fl pl st0 (X \<inter> objs fl st0 \<union> N1) S1 {} {vp} {} (S1 @ [vp])"
      by (rule stretch_none) auto
    from stretch_append [OF stretch_value [OF r1(3) xy(4,5)] this]
    have "stretch fl pl st0 (X \<inter> objs fl st0) S {x} {vp} N1 (S1 @ [vp])" by simp
    from stretch_append [OF this r3(3) [unfolded r1(5)]]
    have "stretch fl pl st0 (X \<inter> objs fl st0) S ({x} \<union> {x. \<exists>a \<in> set (vec_slots (vp + 8) l). words st0 a = Some x})
        ({vp} \<union> set (vec_slots (vp + 8) l)) (N1 \<union> N3) S3" .
    moreover have "{x} \<union> {x. \<exists>a \<in> set (vec_slots (vp + 8) l). words st0 a = Some x} =
        {x. \<exists>a \<in> set (vec_slots vp len). words st0 a = Some x}"
      using xy(1) by (auto simp: Suc vec_slots_Suc)
    moreover have "{vp} \<union> set (vec_slots (vp + 8) l) = set (vec_slots vp len)" by (simp add: Suc vec_slots_Suc)
    moreover have "gc_mark_val_array (Suc n) vp len st = Some st3"
      using xy(2) r1(1) r2(1) r3(1) by (simp add: Suc)
    ultimately show ?thesis using r3(2) by (auto simp: grow_grow)
  qed
qed

subsection \<open>Properties\<close>

lemma prop_slot:
  assumes ok: "heap_ok ss fl pl st" and p: "p \<in> props fl st"
  shows "slot ss fl st (p + 16)" "slot ss fl st (p + 24)"
  using heap_okD(4) [OF ok p] used_cells [OF p] by (auto simp: prop_ok_def slot_def)

text \<open>The properties of an object that is being marked are no properties of others.\<close>

lemma own_props:
  assumes ok: "heap_ok ss fl pl st" and obj: "obj \<in> X \<inter> objs fl st" and ps: "set ps \<subseteq> set (pl obj)" "set ps \<inter> X = {}"
    and N: "N \<subseteq> objs fl st - (X \<inter> objs fl st)"
  shows "set ps \<inter> grow pl X N = {}"
proof -
  have "set ps \<inter> N = {}"
    using obj_props [OF ok, of obj] objs_props [OF heap_okD(2) [OF ok], of fl] obj ps(1) N by blast
  moreover have "set ps \<inter> set (pl x) = {}" if "x \<in> N" for x
    using heap_okD(6) [OF ok, of obj x] obj ps(1) N that by blast
  ultimately show ?thesis using ps(2) unfolding grow_def by blast
qed

lemma marks_props_Suc:
  assumes ok: "heap_ok ss fl pl st0" and val: "marks_value ss fl pl st0 L n" and props: "marks_props ss fl pl st0 L n"
  shows "marks_props ss fl pl st0 L (Suc n)"
  unfolding marks_props_def
proof (intro allI impI)
  fix X S st p ps obj
  assume mk: "marking ss fl st0 X S st" and X: "clean fl pl st0 X" and chain: "chain (words st0) p ps"
    and obj: "obj \<in> X \<inter> objs fl st0" and sub: "set ps \<subseteq> set (pl obj)" and dist: "distinct ps"
    and new: "set ps \<inter> X = {}" and fuel: "length ps + need L (unmarked fl st0 X) \<le> Suc n"
  note str = heap_okD(1,2) [OF ok]
  show "\<exists>st' N S'. gc_mark_props (Suc n) p st = Some st' \<and> marking ss fl st0 (grow pl X N \<union> set ps) S' st' \<and>
      stretch fl pl st0 (X \<inter> objs fl st0) S {x. \<exists>p \<in> set ps. words st0 (p + 24) = Some x} (set (prop_slots ps)) N S'"
  proof (cases ps)
    case Nil
    have "stretch fl pl st0 (X \<inter> objs fl st0) S {} {} {} S" by (rule stretch_none) simp_all
    then show ?thesis
      using mk chain by (intro exI [of _ st] exI [of _ "{}"] exI [of _ S]) (simp add: Nil prop_slots_def)
  next
    case (Cons q qs)
    then obtain nx where q: "q = p" "p \<noteq> 0" "words st0 p = Some nx" "chain (words st0) nx qs"
      using chain by auto
    have pr: "p \<in> props fl st0" using obj_props [OF ok, of obj] obj sub Cons q(1) by auto
    note slot = prop_slot [OF ok pr] and cell = used_cells [OF pr]
    obtain a where a: "prop_attributes (words st0) p = Some a" "a AND V7_PROPERTY_OFF_HEAP = 0"
      using heap_okD(4) [OF ok pr] by (auto simp: prop_ok_def)
    have "words st (p + 8) = words st0 (p + 8)" by (rule marking_field [OF str mk cell]) simp_all
    then have a': "prop_attributes (words st) p = Some a" using a(1) by (simp add: prop_attributes_def)
    have check: "gc_check_ptr (property_arena st) p"
      using check_cell [OF heap_okD(3) [OF ok] cell] marking_frame(1) [OF mk, of Property] by simp
    obtain st1 where r1: "mark_string (p + 24) st = Some st1" "marking ss fl st0 X (S @ [p + 24]) st1"
      by (rule mark_string_step [OF str mk slot(2)])
    obtain st2 where r2: "mark_string (p + 16) st1 = Some st2" "marking ss fl st0 X ((S @ [p + 24]) @ [p + 16]) st2"
      by (rule mark_string_step [OF str r1(2) slot(1)])
    obtain x y where xy: "words st0 (p + 24) = Some x" "words st2 (p + 24) = Some y" "ref_ok fl st0 y"
      "v7_is_object x \<Longrightarrow> y = x" "v7_is_object y \<Longrightarrow> y = x"
      by (rule marking_value [OF ok r2(2) slot(2)]) blast
    have f1: "need L (unmarked fl st0 X) \<le> n" using fuel Cons by simp
    obtain st3 N1 S1 where r3: "gc_mark n y st2 = Some st3" "marking ss fl st0 (grow pl X N1) S1 st3"
      "stretch fl pl st0 (X \<inter> objs fl st0) ((S @ [p + 24]) @ [p + 16]) {y} {} N1 S1" "clean fl pl st0 (grow pl X N1)"
      "grow pl X N1 \<inter> objs fl st0 = X \<inter> objs fl st0 \<union> N1" "N1 \<subseteq> objs fl st0"
      by (rule marks_valueD [OF val ok r2(2) X xy(3) f1])
    have N1: "N1 \<subseteq> objs fl st0 - (X \<inter> objs fl st0)" using r3(3) by (simp add: stretch_def)
    have own: "set ps \<inter> grow pl X N1 = {}" by (rule own_props [OF ok obj sub new N1])
    have nx: "words st3 p = Some nx"
      using marking_head [OF str r3(2) cell] q(1,3) own Cons by simp
    obtain st4 where r4: "mark_head p st3 = Some st4" "marking ss fl st0 (insert p (grow pl X N1)) S1 st4"
      by (rule mark_head_step [OF r3(2), of p]) (use pr nx in auto)
    let ?X = "grow pl X N1 \<union> {p}"
    have "{p} \<subseteq> set (pl obj)" "{p} \<subseteq> props fl st0" using sub Cons q(1) pr by auto
    note X' = clean_grow [OF ok X r3(6) obj this(1)] and O' = grow_objs [OF ok r3(6) this(2), of X]
    have "length qs + need L (unmarked fl st0 ?X) \<le> n"
      using fuel Cons need_grow [where L = L and fl = fl and st = st0, OF grow_le(2) [of X pl N1 "{p}"]] by simp
    moreover have "obj \<in> ?X \<inter> objs fl st0" using obj O' by blast
    moreover have "set qs \<subseteq> set (pl obj)" "distinct qs" "set qs \<inter> ?X = {}" using sub dist own Cons q(1) by auto
    moreover have "marking ss fl st0 ?X S1 st4" using r4(2) by simp
    ultimately obtain st5 N2 S2 where r5: "gc_mark_props n nx st4 = Some st5"
      "marking ss fl st0 (grow pl ?X N2 \<union> set qs) S2 st5"
      "stretch fl pl st0 (?X \<inter> objs fl st0) S1 {x. \<exists>p \<in> set qs. words st0 (p + 24) = Some x} (set (prop_slots qs)) N2 S2"
      using props X' q(4) unfolding marks_props_def by blast
    have "stretch fl pl st0 (X \<inter> objs fl st0) S {} {p + 24, p + 16} {} ((S @ [p + 24]) @ [p + 16])"
      by (rule stretch_none) auto
    from stretch_append [OF this] stretch_value [OF r3(3) xy(4,5)]
    have "stretch fl pl st0 (X \<inter> objs fl st0) S {x} {p + 24, p + 16} N1 S1" by fastforce
    from stretch_append [OF this r5(3) [unfolded O']]
    have "stretch fl pl st0 (X \<inter> objs fl st0) S ({x} \<union> {x. \<exists>p \<in> set qs. words st0 (p + 24) = Some x})
        ({p + 24, p + 16} \<union> set (prop_slots qs)) (N1 \<union> N2) S2" .
    moreover have "{x} \<union> {x. \<exists>p \<in> set qs. words st0 (p + 24) = Some x} = {x. \<exists>p \<in> set ps. words st0 (p + 24) = Some x}"
      using xy(1) by (auto simp: Cons q(1))
    moreover have "{p + 24, p + 16} \<union> set (prop_slots qs) = set (prop_slots ps)" by (simp add: Cons q(1) prop_slots_def)
    moreover have "grow pl ?X N2 \<union> set qs = grow pl X (N1 \<union> N2) \<union> set ps" by (auto simp: grow_def Cons q(1))
    moreover have "gc_mark_props (Suc n) p st = Some st5"
      using q(2) a(2) a' check r1(1) r2(1) xy(2) r3(1) nx r4(1) r5(1) by simp
    ultimately show ?thesis using r5(2) by auto
  qed
qed

subsection \<open>Objects\<close>

text \<open>The last part of \<open>gc_mark\<close>, for functions.\<close>

definition mark_function :: "nat \<Rightarrow> u64 \<Rightarrow> js \<Rightarrow> js option" where
  "mark_function n obj st =
     do { scope \<leftarrow> words st (obj + 16);
          sv \<leftarrow> v7_object_to_value (words st) scope;
          st \<leftarrow> gc_mark n sv st;
          b \<leftarrow> words st (obj + 24);
          if b \<noteq> 0 then do { bc \<leftarrow> bcodes st b; gc_mark_val_array n (lit_p bc) (unat (lit_len bc) div 8) st }
          else Some st }"

lemma func_slots_slot:
  assumes ok: "heap_ok ss fl pl st" and f: "f \<in> used fl st Function" and a: "a \<in> set (func_slots st f)"
  shows "slot ss fl st a"
  using heap_okD(8) [OF ok f] a by (auto simp: func_ok_def slot_def)

lemma marks_function:
  assumes ok: "heap_ok ss fl pl st0" and val: "marks_value ss fl pl st0 L n" and vec: "marks_vec ss fl pl st0 L n"
    and mk: "marking ss fl st0 X S st" and X: "clean fl pl st0 X" and f: "f \<in> used fl st0 Function"
    and fuel: "length (func_slots st0 f) + need L (unmarked fl st0 X) \<le> n"
  obtains st' N S' where "mark_function n f st = Some st'" "marking ss fl st0 (grow pl X N) S' st'"
    "stretch fl pl st0 (X \<inter> objs fl st0) S
       ({x. \<exists>s. words st0 (f + 16) = Some s \<and> v7_object_to_value (words st0) s = Some x} \<union>
        {x. \<exists>a \<in> set (func_slots st0 f). words st0 a = Some x}) (set (func_slots st0 f)) N S'"
proof -
  let ?vals = "{x. \<exists>a \<in> set (func_slots st0 f). words st0 a = Some x}"
  have obj: "f \<in> objs fl st0" using f by simp
  have cell: "f \<in> cells_of Function st0" by (rule used_cells [OF f])
  have isf: "is_func st0 f" using cell by (simp add: is_func_def)
  obtain s where s: "words st0 (f + 16) = Some s" "s = 0 \<or> s \<in> objs fl st0"
    using heap_okD(8) [OF ok f] by (auto simp: func_ok_def)
  obtain b where b: "words st0 (f + 24) = Some b" "b = 0 \<or> bcodes st0 b \<noteq> None"
    using heap_okD(8) [OF ok f] by (auto simp: func_ok_def)
  obtain x where x: "v7_object_to_value (words st) s = Some x" "v7_object_to_value (words st0) s = Some x" "ref_ok fl st0 x"
    using marking_value_of [OF ok mk s(2)] by blast
  have f1: "need L (unmarked fl st0 X) \<le> n" using fuel by simp
  obtain st1 N1 S1 where r1: "gc_mark n x st = Some st1" "marking ss fl st0 (grow pl X N1) S1 st1"
    "stretch fl pl st0 (X \<inter> objs fl st0) S {x} {} N1 S1" "clean fl pl st0 (grow pl X N1)"
    "grow pl X N1 \<inter> objs fl st0 = X \<inter> objs fl st0 \<union> N1" "N1 \<subseteq> objs fl st0"
    by (rule marks_valueD [OF val ok mk X x(3) f1])
  have b': "words st1 (f + 24) = Some b"
    using marking_field [OF heap_okD(1,2) [OF ok] r1(2) cell, of 24] b(1) by simp
  have V: "{x. \<exists>s. words st0 (f + 16) = Some s \<and> v7_object_to_value (words st0) s = Some x} = {x}"
    using s(1) x(2) by auto
  show thesis
  proof (cases "b = 0")
    case True
    then have none: "func_slots st0 f = []" using b(1) by (simp add: func_slots_def)
    have "mark_function n f st = Some st1"
      using marking_obj(2) [OF ok mk obj] s(1) x(1) r1(1) b' True by (simp add: mark_function_def)
    from that [OF this r1(2)] show thesis using r1(3) unfolding V none by simp
  next
    case False
    then obtain bc where bc: "bcodes st0 b = Some bc" using b(2) by blast
    let ?vp = "lit_p bc" and ?len = "unat (lit_len bc) div 8"
    have sl: "func_slots st0 f = vec_slots ?vp ?len"
      using isf b(1) False bc by (simp add: func_slots_def bcode_slots_def)
    have "\<forall>a \<in> set (vec_slots ?vp ?len). slot ss fl st0 a"
      using func_slots_slot [OF ok f] unfolding sl by blast
    moreover have "?len + need L (unmarked fl st0 (grow pl X N1)) \<le> n"
      using fuel need_grow [where L = L and fl = fl and st = st0, OF grow_le(1) [of X pl N1]]
      by (simp add: sl vec_slots_def)
    ultimately obtain st2 N2 S2 where r2: "gc_mark_val_array n ?vp ?len st1 = Some st2"
      "marking ss fl st0 (grow pl (grow pl X N1) N2) S2 st2"
      "stretch fl pl st0 (grow pl X N1 \<inter> objs fl st0) S1 {x. \<exists>a \<in> set (vec_slots ?vp ?len). words st0 a = Some x}
         (set (vec_slots ?vp ?len)) N2 S2"
      using vec r1(2,4) unfolding marks_vec_def by blast
    have "mark_function n f st = Some st2"
      using marking_obj(2) [OF ok mk obj] s(1) x(1) r1(1) b' False bc r2(1) marking_frame(2) [OF r1(2)]
      by (simp add: mark_function_def)
    from that [OF this r2(2) [unfolded grow_grow]]
    show thesis using stretch_append [OF r1(3) r2(3) [unfolded r1(5)]] unfolding V sl by simp
  qed
qed

lemma and_3_1: "(h :: u64) AND 3 = 0 \<Longrightarrow> h AND 1 = 0"
proof -
  assume h: "h AND 3 = 0"
  have "h AND 1 = (h AND 3) AND 1" by (simp add: and.assoc)
  with h show ?thesis by simp
qed

lemma or_1_1: "((h :: u64) OR 1) AND 1 \<noteq> 0"
  by (simp add: bit.conj_disj_distrib2)

lemma marks_value_Suc:
  assumes ok: "heap_ok ss fl pl st0" and L: "short fl pl st0 L" and val: "marks_value ss fl pl st0 L n"
    and props: "marks_props ss fl pl st0 L n" and vec: "marks_vec ss fl pl st0 L n"
  shows "marks_value ss fl pl st0 L (Suc n)"
  unfolding marks_value_def
proof (intro allI impI)
  fix X S st v
  assume mk: "marking ss fl st0 X S st" and X: "clean fl pl st0 X" and v: "ref_ok fl st0 v"
    and fuel: "need L (unmarked fl st0 X) \<le> Suc n"
  note str = heap_okD(1,2) [OF ok]
  show "\<exists>st' N S'. gc_mark (Suc n) v st = Some st' \<and> marking ss fl st0 (grow pl X N) S' st' \<and>
      stretch fl pl st0 (X \<inter> objs fl st0) S {v} {} N S'"
  proof (cases "v7_is_object v")
    case False
    have "stretch fl pl st0 (X \<inter> objs fl st0) S {v} {} {} S" by (rule stretch_none) (use False in simp_all)
    then show ?thesis using mk False by (intro exI [of _ st] exI [of _ "{}"] exI [of _ S]) simp
  next
    case obj_v: True
    define obj where "obj = payload v"
    have obj: "obj \<in> objs fl st0" "v = boxed st0 obj" unfolding obj_def by (rule object_boxed [OF str(2) obj_v v])+
    obtain k where cell: "obj \<in> cells_of k st0" using objs_cell [OF obj(1)] by blast
    obtain h where h: "words st0 obj = Some h" "h AND 3 = 0" "chain (words st0) h (pl obj)" "distinct (pl obj)"
      using heap_okD(5) [OF ok obj(1)] by (auto simp: obj_ok_def)
    obtain a where a: "obj_attributes (words st0) obj = Some a" "a AND V7_OBJ_OFF_HEAP = 0" "a AND V7_OBJ_DENSE_ARRAY = 0"
      using heap_okD(5) [OF ok obj(1)] by (auto simp: obj_ok_def)
    have a': "obj_attributes (words st) obj = Some a" using marking_obj(3) [OF ok mk obj(1)] a(1) by simp
    have to: "v7_to_object v = Some obj" using to_object [OF obj_v] by (simp add: obj_def)
    have fn: "is_js_function v \<longleftrightarrow> is_func st0 obj" unfolding obj(2) by (rule boxed_object(2))
    have used: "obj \<in> used fl st0 (if is_func st0 obj then Function else Generic_object)"
      using obj(1) is_func_used [OF str(2), of obj fl] by auto
    have check: "gc_check_val st v = Some True"
    proof (cases "is_func st0 obj")
      case True
      then have "obj \<in> cells_of Function st0" by (simp add: is_func_def)
      from check_cell [OF heap_okD(3) [OF ok] this] show ?thesis
        using True fn marking_frame(1) [OF mk, of Function] v7_to_pointer_payload [of v]
        by (simp add: gc_check_val_def to_js_function_def obj_def)
    next
      case False
      then have "obj \<in> cells_of Generic_object st0" using used used_cells by auto
      from check_cell [OF heap_okD(3) [OF ok] this] show ?thesis
        using False fn marking_frame(1) [OF mk, of Generic_object] obj_v to by (simp add: gc_check_val_def)
    qed
    note head = marking_head [OF str mk cell]
    show ?thesis
    proof (cases "obj \<in> X")
      case True
      then have "MARKED obj (words st) = Some True" using head h(1) or_1_1 [of h] by (simp add: MARKED_def)
      then have g: "gc_mark (Suc n) v st = Some st" using obj_v to a' a(2) check by simp
      have "stretch fl pl st0 (X \<inter> objs fl st0) S {v} {} {} S"
        by (rule stretch_none) (use True obj(1) obj_def in auto)
      then show ?thesis using mk g by (intro exI [of _ st] exI [of _ "{}"] exI [of _ S]) simp
    next
      case False
      then have w: "words st obj = Some h" "MARKED obj (words st) = Some False"
        using head h(1) and_3_1 [OF h(2)] by (simp_all add: MARKED_def)
      have un: "unmarked fl st0 X = Suc (unmarked fl st0 (insert obj X))"
        using unmarked_insert [of obj fl st0 X] obj(1) False by simp
      have lens: "length (pl obj) \<le> L" "length (func_slots st0 obj) \<le> L" using L obj(1) by (auto simp: short_def)
      have f: "L + need L (unmarked fl st0 (insert obj X)) \<le> n" using fuel by (simp add: un need_def)
      obtain st1 where r1: "mark_head obj st = Some st1" "marking ss fl st0 (insert obj X) S st1"
        by (rule mark_head_step [OF mk, of obj]) (use obj(1) w(1) in auto)
      have "set (pl obj) \<inter> insert obj X = {}"
        using X obj(1) False obj_props [OF ok obj(1)] objs_props [OF str(2), of fl] unfolding clean_def by blast
      moreover have X1: "clean fl pl st0 (insert obj X)"
        using clean_def X obj_props [OF ok] objs_props [OF str(2), of fl] obj(1) by blast
      moreover have "length (pl obj) + need L (unmarked fl st0 (insert obj X)) \<le> n" using f lens by simp
      moreover have "obj \<in> insert obj X \<inter> objs fl st0" using obj(1) by simp
      ultimately obtain st2 N2 S2 where r2: "gc_mark_props n h st1 = Some st2"
        "marking ss fl st0 (grow pl (insert obj X) N2 \<union> set (pl obj)) S2 st2"
        "stretch fl pl st0 (insert obj X \<inter> objs fl st0) S {x. \<exists>p \<in> set (pl obj). words st0 (p + 24) = Some x}
           (set (prop_slots (pl obj))) N2 S2"
        using props r1(2) h(3,4) unfolding marks_props_def by blast
      let ?X2 = "grow pl (insert obj X) N2 \<union> set (pl obj)"
      note N2 = stretch_marked [OF r2(3)]
      have X2: "clean fl pl st0 ?X2" by (rule clean_grow [OF ok X1 N2, of obj]) (use obj(1) in auto)
      have O2: "?X2 \<inter> objs fl st0 = insert obj X \<inter> objs fl st0 \<union> N2"
        by (rule grow_objs [OF ok N2 obj_props [OF ok obj(1)]])
      have f2: "L + need L (unmarked fl st0 ?X2) \<le> n"
        using f need_grow [where L = L and fl = fl and st = st0, OF grow_le(2) [of "insert obj X" pl N2 "set (pl obj)"]]
        by simp
      obtain q where q: "obj_prototype_v st2 v = Some q" "obj_prototype_v st0 v = Some q" "ref_ok fl st0 q"
        using marking_prototype [OF ok r2(2) obj(1)] unfolding obj(2) by blast
      obtain st3 N3 S3 where r3: "gc_mark n q st2 = Some st3" "marking ss fl st0 (grow pl ?X2 N3) S3 st3"
        "stretch fl pl st0 (?X2 \<inter> objs fl st0) S2 {q} {} N3 S3" "clean fl pl st0 (grow pl ?X2 N3)"
        "grow pl ?X2 N3 \<inter> objs fl st0 = ?X2 \<inter> objs fl st0 \<union> N3" "N3 \<subseteq> objs fl st0"
        by (rule marks_valueD [OF val ok r2(2) X2 q(3)]) (use f2 in simp)
      note s23 = stretch_append [OF r2(3) r3(3) [unfolded O2]]
      have ins: "insert obj X \<inter> objs fl st0 = insert obj (X \<inter> objs fl st0)" using obj(1) by auto
      have new: "obj \<in> objs fl st0 - X \<inter> objs fl st0" using obj(1) False by simp
      have q': "obj_prototype_v st0 (boxed st0 obj) = Some q" using q(2) unfolding obj(2) .
      show ?thesis
      proof (cases "is_func st0 obj")
        case fn_obj: False
        have "gc_mark (Suc n) v st = Some st3"
          using obj_v to a' a(2,3) check w r1(1) r2(1) q(1) r3(1) fn fn_obj by simp
        moreover have "marking ss fl st0 (grow pl X (insert obj (N2 \<union> N3))) S3 st3"
          using r3(2) by (simp add: grow_def ac_simps)
        moreover have "stretch fl pl st0 (X \<inter> objs fl st0) S {v} {} (insert obj (N2 \<union> N3)) S3"
        proof (rule stretch_object [OF s23 [unfolded ins] _ _ new obj_v])
          show "{x. \<exists>p \<in> set (pl obj). words st0 (p + 24) = Some x} \<union> {q} = refs pl st0 obj"
            using fn_obj q' by (auto simp: refs_def)
          show "set (prop_slots (pl obj)) \<union> {} = set (slots pl st0 obj)"
            using fn_obj by (simp add: slots_def func_slots_def)
        qed (rule obj_def [symmetric])
        ultimately show ?thesis by blast
      next
        case fn_obj: True
        have usedf: "obj \<in> used fl st0 Function" using used fn_obj by simp
        have "length (func_slots st0 obj) + need L (unmarked fl st0 (grow pl ?X2 N3)) \<le> n"
          using f2 lens need_grow [where L = L and fl = fl and st = st0, OF grow_le(1) [of ?X2 pl N3]] by simp
        from marks_function [OF ok val vec r3(2,4) usedf this] obtain st4 N4 S4 where
          r4: "mark_function n obj st3 = Some st4" "marking ss fl st0 (grow pl (grow pl ?X2 N3) N4) S4 st4"
          "stretch fl pl st0 (grow pl ?X2 N3 \<inter> objs fl st0) S3
             ({x. \<exists>s. words st0 (obj + 16) = Some s \<and> v7_object_to_value (words st0) s = Some x} \<union>
              {x. \<exists>a \<in> set (func_slots st0 obj). words st0 a = Some x}) (set (func_slots st0 obj)) N4 S4"
          by blast
        have "gc_mark (Suc n) v st = Some st4"
          using obj_v to a' a(2,3) check w r1(1) r2(1) q(1) r3(1) fn fn_obj r4(1) by (simp add: mark_function_def)
        moreover have "marking ss fl st0 (grow pl X (insert obj (N2 \<union> N3 \<union> N4))) S4 st4"
          using r4(2) by (simp add: grow_def ac_simps)
        moreover have "stretch fl pl st0 (X \<inter> objs fl st0) S {v} {} (insert obj (N2 \<union> N3 \<union> N4)) S4"
        proof (rule stretch_object [OF stretch_append [OF s23 [unfolded ins]] _ _ new obj_v])
          show "stretch fl pl st0 (insert obj (X \<inter> objs fl st0) \<union> (N2 \<union> N3)) S3
             ({x. \<exists>s. words st0 (obj + 16) = Some s \<and> v7_object_to_value (words st0) s = Some x} \<union>
              {x. \<exists>a \<in> set (func_slots st0 obj). words st0 a = Some x}) (set (func_slots st0 obj)) N4 S4"
            using r4(3) by (simp only: r3(5) O2 ins Un_assoc)
          show "{x. \<exists>p \<in> set (pl obj). words st0 (p + 24) = Some x} \<union> {q} \<union>
              ({x. \<exists>s. words st0 (obj + 16) = Some s \<and> v7_object_to_value (words st0) s = Some x} \<union>
               {x. \<exists>a \<in> set (func_slots st0 obj). words st0 a = Some x}) = refs pl st0 obj"
            using fn_obj q' by (auto simp: refs_def)
          show "set (prop_slots (pl obj)) \<union> {} \<union> set (func_slots st0 obj) = set (slots pl st0 obj)"
            by (simp add: slots_def)
        qed (rule obj_def [symmetric])
        ultimately show ?thesis by blast
      qed
    qed
  qed
qed

subsection \<open>All of marking\<close>

lemma marks:
  assumes "heap_ok ss fl pl st0" "short fl pl st0 L"
  shows "marks_value ss fl pl st0 L n \<and> marks_props ss fl pl st0 L n \<and> marks_vec ss fl pl st0 L n"
proof (induction n)
  case 0
  then show ?case by (simp add: marks_value_def marks_props_def marks_vec_def need_def)
next
  case (Suc n)
  with marks_value_Suc [OF assms] marks_props_Suc [OF assms(1)] marks_vec_Suc [OF assms(1)] show ?case by blast
qed

text \<open>The addresses of the roots, in the order of \<open>v7_gc\<close>.\<close>

definition root_slots :: "js \<Rightarrow> u64 list" where
  "root_slots st =
     concat (map (\<lambda>f. vec_slots f 3) (call_stack st)) @ vec_slots (vals st) vals_count @
     vec_slots (fst (stack st)) (unat (snd (stack st)) div 8) @
     concat (map (bcode_slots st) (mbuf_pointers (act_bcodes st))) @
     mbuf_pointers (tmp_stack st) @ mbuf_pointers (owned_values (vm st))"

definition slot_values :: "js \<Rightarrow> u64 list \<Rightarrow> val_t set" where
  "slot_values st as = {x. \<exists>a \<in> set as. words st a = Some x}"

text \<open>\<open>ran\<close>: what every part of marking from the roots does.\<close>

definition ran where
  "ran ss fl pl st0 X S as st' \<longleftrightarrow>
     (\<exists>N S'. marking ss fl st0 (grow pl X N) S' st' \<and> clean fl pl st0 (grow pl X N) \<and>
        stretch fl pl st0 (X \<inter> objs fl st0) S (slot_values st0 as) (set as) N S')"

lemma ran_trans:
  assumes "heap_ok ss fl pl st0" "ran ss fl pl st0 X S as st1"
    and "\<And>X' S'. marking ss fl st0 X' S' st1 \<Longrightarrow> clean fl pl st0 X' \<Longrightarrow> X \<subseteq> X' \<Longrightarrow> ran ss fl pl st0 X' S' bs st2"
  shows "ran ss fl pl st0 X S (as @ bs) st2"
proof -
  obtain N S1 where r1: "marking ss fl st0 (grow pl X N) S1 st1" "clean fl pl st0 (grow pl X N)"
    "stretch fl pl st0 (X \<inter> objs fl st0) S (slot_values st0 as) (set as) N S1"
    using assms(2) unfolding ran_def by blast
  from assms(3) [OF r1(1,2) grow_le(1)] obtain N2 S2 where r2: "marking ss fl st0 (grow pl X (N \<union> N2)) S2 st2"
    "clean fl pl st0 (grow pl X (N \<union> N2))"
    "stretch fl pl st0 (grow pl X N \<inter> objs fl st0) S1 (slot_values st0 bs) (set bs) N2 S2"
    unfolding ran_def grow_grow by blast
  have "grow pl X N \<inter> objs fl st0 = X \<inter> objs fl st0 \<union> N"
    using grow_objs [OF assms(1) stretch_marked [OF r1(3)], of "{}" X] by simp
  from stretch_append [OF r1(3) r2(3) [unfolded this]]
  have "stretch fl pl st0 (X \<inter> objs fl st0) S (slot_values st0 (as @ bs)) (set (as @ bs)) (N \<union> N2) S2"
    by (simp add: slot_values_def Collect_disj_eq bex_Un)
  with r2(1,2) show ?thesis unfolding ran_def by blast
qed

lemma ran_then:
  assumes ok: "heap_ok ss fl pl st0" and ran: "ran ss fl pl st0 X S as st1"
    and f: "\<And>X' S'. marking ss fl st0 X' S' st1 \<Longrightarrow> clean fl pl st0 X' \<Longrightarrow> \<exists>st'. f st1 = Some st' \<and> ran ss fl pl st0 X' S' bs st'"
  obtains st2 where "f st1 = Some st2" "ran ss fl pl st0 X S (as @ bs) st2"
proof -
  obtain N S1 where "marking ss fl st0 (grow pl X N) S1 st1" "clean fl pl st0 (grow pl X N)"
    using ran unfolding ran_def by blast
  from f [OF this] obtain st2 where st2: "f st1 = Some st2" by blast
  have "ran ss fl pl st0 X S (as @ bs) st2"
    by (rule ran_trans [OF ok ran]) (use f st2 in fastforce)
  with st2 show thesis by (rule that)
qed

lemma ran_none: "marking ss fl st0 X S st \<Longrightarrow> clean fl pl st0 X \<Longrightarrow> ran ss fl pl st0 X S [] st"
  unfolding ran_def
  by (intro exI [of _ "{}"] exI [of _ S]) (simp add: slot_values_def stretch_none)

text \<open>The loops.\<close>

lemma ran_vec:
  assumes ok: "heap_ok ss fl pl st0" and L: "short fl pl st0 L"
    and mk: "marking ss fl st0 X S st" "clean fl pl st0 X" and slots: "\<forall>a \<in> set (vec_slots p len). slot ss fl st0 a"
    and fuel: "len + need L (card (objs fl st0)) \<le> n"
  obtains st' where "gc_mark_val_array n p len st = Some st'" "ran ss fl pl st0 X S (vec_slots p len) st'"
proof -
  have "unmarked fl st0 X \<le> card (objs fl st0)" unfolding unmarked_def by (rule card_mono) auto
  then have "len + need L (unmarked fl st0 X) \<le> n" using fuel need_mono [of "unmarked fl st0 X" _ L] by fastforce
  then obtain st' N S' where r: "gc_mark_val_array n p len st = Some st'" "marking ss fl st0 (grow pl X N) S' st'"
    "stretch fl pl st0 (X \<inter> objs fl st0) S {x. \<exists>a \<in> set (vec_slots p len). words st0 a = Some x}
       (set (vec_slots p len)) N S'"
    using marks [OF ok L, of n] mk slots unfolding marks_vec_def by blast
  have "clean fl pl st0 (grow pl X N)" by (rule clean_grow0 [OF ok mk(2) stretch_marked [OF r(3)]])
  with r have "ran ss fl pl st0 X S (vec_slots p len) st'" unfolding ran_def slot_values_def by blast
  with r(1) show thesis by (rule that)
qed

lemma ran_vecs:
  assumes ok: "heap_ok ss fl pl st0" and L: "short fl pl st0 L"
  shows "marking ss fl st0 X S st \<Longrightarrow> clean fl pl st0 X \<Longrightarrow>
    \<forall>(p, len) \<in> set vs. (\<forall>a \<in> set (vec_slots p (unat len div 8)). slot ss fl st0 a) \<and>
      unat len div 8 + need L (card (objs fl st0)) \<le> n \<Longrightarrow>
    \<exists>st'. gc_mark_vecs n vs st = Some st' \<and>
      ran ss fl pl st0 X S (concat (map (\<lambda>(p, len). vec_slots p (unat len div 8)) vs)) st'"
proof (induction vs arbitrary: X S st)
  case Nil
  then show ?case by (simp add: ran_none)
next
  case (Cons e vs)
  obtain p len where e: "e = (p, len)" by (cases e)
  have slots: "\<forall>a \<in> set (vec_slots p (unat len div 8)). slot ss fl st0 a"
    and fuel: "unat len div 8 + need L (card (objs fl st0)) \<le> n" using Cons.prems(3) e by auto
  obtain st1 where r1: "gc_mark_val_array n p (unat len div 8) st = Some st1"
    "ran ss fl pl st0 X S (vec_slots p (unat len div 8)) st1"
    by (rule ran_vec [OF ok L Cons.prems(1,2) slots fuel])
  obtain st2 where "gc_mark_vecs n vs st1 = Some st2"
    "ran ss fl pl st0 X S (vec_slots p (unat len div 8) @ concat (map (\<lambda>(p, len). vec_slots p (unat len div 8)) vs)) st2"
    by (rule ran_then [OF ok r1(2), of "gc_mark_vecs n vs"], rule Cons.IH) (use Cons.prems(3) in auto)
  then show ?case using r1(1) by (simp add: e)
qed

lemma ran_bcodes:
  assumes ok: "heap_ok ss fl pl st0" and L: "short fl pl st0 L"
  shows "marking ss fl st0 X S st \<Longrightarrow> clean fl pl st0 X \<Longrightarrow>
    \<forall>b \<in> set bs. bcodes st0 b \<noteq> None \<and> (\<forall>a \<in> set (bcode_slots st0 b). slot ss fl st0 a) \<and>
      length (bcode_slots st0 b) + need L (card (objs fl st0)) \<le> n \<Longrightarrow>
    \<exists>st'. gc_mark_bcodes n bs st = Some st' \<and> ran ss fl pl st0 X S (concat (map (bcode_slots st0) bs)) st'"
proof (induction bs arbitrary: X S st)
  case Nil
  then show ?case by (simp add: ran_none)
next
  case (Cons b bs)
  obtain bc where bc: "bcodes st0 b = Some bc" using Cons.prems(3) by auto
  let ?p = "lit_p bc" and ?len = "unat (lit_len bc) div 8"
  have sl: "bcode_slots st0 b = vec_slots ?p ?len" by (simp add: bcode_slots_def bc)
  have slots: "\<forall>a \<in> set (vec_slots ?p ?len). slot ss fl st0 a"
    and fuel: "?len + need L (card (objs fl st0)) \<le> n" using Cons.prems(3) by (auto simp: sl vec_slots_def)
  obtain st1 where r1: "gc_mark_val_array n ?p ?len st = Some st1" "ran ss fl pl st0 X S (bcode_slots st0 b) st1"
    using ran_vec [OF ok L Cons.prems(1,2) slots fuel] unfolding sl by blast
  obtain st2 where "gc_mark_bcodes n bs st1 = Some st2"
    "ran ss fl pl st0 X S (bcode_slots st0 b @ concat (map (bcode_slots st0) bs)) st2"
    by (rule ran_then [OF ok r1(2), of "gc_mark_bcodes n bs"], rule Cons.IH) (use Cons.prems(3) in auto)
  then show ?case using r1(1) bc marking_frame(2) [OF Cons.prems(1)] by auto
qed

lemma ran_pointers:
  assumes ok: "heap_ok ss fl pl st0" and L: "short fl pl st0 L" and fuel: "need L (card (objs fl st0)) \<le> n"
  shows "marking ss fl st0 X S st \<Longrightarrow> clean fl pl st0 X \<Longrightarrow> \<forall>a \<in> set vps. slot ss fl st0 a \<Longrightarrow>
    \<exists>st'. gc_mark_pointers n vps st = Some st' \<and> ran ss fl pl st0 X S vps st'"
proof (induction vps arbitrary: X S st)
  case Nil
  then show ?case by (simp add: ran_none)
next
  case (Cons a vps)
  have a: "slot ss fl st0 a" using Cons.prems(3) by simp
  obtain x y where xy: "words st0 a = Some x" "words st a = Some y" "ref_ok fl st0 y"
    "v7_is_object x \<Longrightarrow> y = x" "v7_is_object y \<Longrightarrow> y = x"
    by (rule marking_value [OF ok Cons.prems(1) a]) blast
  have "unmarked fl st0 X \<le> card (objs fl st0)" unfolding unmarked_def by (rule card_mono) auto
  then have f: "need L (unmarked fl st0 X) \<le> n" using fuel need_mono [of "unmarked fl st0 X" _ L] by fastforce
  have v: "marks_value ss fl pl st0 L n" using marks [OF ok L, of n] by blast
  obtain st1 N S1 where r1: "gc_mark n y st = Some st1" "marking ss fl st0 (grow pl X N) S1 st1"
    "stretch fl pl st0 (X \<inter> objs fl st0) S {y} {} N S1" "clean fl pl st0 (grow pl X N)"
    "grow pl X N \<inter> objs fl st0 = X \<inter> objs fl st0 \<union> N" "N \<subseteq> objs fl st0"
    by (rule marks_valueD [OF v ok Cons.prems(1,2) xy(3) f])
  obtain st2 where r2: "mark_string a st1 = Some st2" "marking ss fl st0 (grow pl X N) (S1 @ [a]) st2"
    by (rule mark_string_step [OF heap_okD(1,2) [OF ok] r1(2) a])
  have "stretch fl pl st0 (X \<inter> objs fl st0 \<union> N) S1 {} {a} {} (S1 @ [a])" by (rule stretch_none) auto
  from stretch_append [OF stretch_value [OF r1(3) xy(4,5)] this]
  have "stretch fl pl st0 (X \<inter> objs fl st0) S (slot_values st0 [a]) (set [a]) N (S1 @ [a])"
    using xy(1) by (simp add: slot_values_def)
  with r2(2) r1(4) have ran: "ran ss fl pl st0 X S [a] st2" unfolding ran_def by blast
  obtain st3 where "gc_mark_pointers n vps st2 = Some st3" "ran ss fl pl st0 X S ([a] @ vps) st3"
    by (rule ran_then [OF ok ran, of "gc_mark_pointers n vps"], rule Cons.IH) (use Cons.prems(3) in auto)
  then show ?case using xy(2) r1(1) r2(1) by simp
qed

lemma marking_owned: "strings_ok (vm st0) ss \<Longrightarrow> marking ss fl st0 X S st \<Longrightarrow> owned_values (vm st) = owned_values (vm st0)"
proof -
  assume ok: "strings_ok (vm st0) ss" and mk: "marking ss fl st0 X S st"
  then have m: "\<forall>a \<in> set S. markable ss (vm st0) (words st0) a" using markable_slot unfolding marking_def by blast
  obtain v' W' m where "gc_mark_strings S (vm st0, words st0) = Some (v', W')" "v' = (vm st0)\<lparr>owned_strings := m\<rparr>"
    by (rule threaded_run [OF ok m]) (elim exE, rule that)
  then show ?thesis using mk by (auto simp: marking_def marked_by_def)
qed

text \<open>Marking from the roots marks what they reach and threads every value that refers to a string.\<close>

theorem gc_roots_run:
  assumes ok: "heap_ok ss fl pl st0" and L: "short fl pl st0 L"
    and roots: "\<forall>a \<in> set (root_slots st0). root_ok ss fl st0 a"
    and act: "\<forall>b \<in> set (mbuf_pointers (act_bcodes st0)). bcodes st0 b \<noteq> None"
    and fuel: "length (root_slots st0) + need L (card (objs fl st0)) \<le> n"
  obtains st N S where "gc_roots E n st0 = Some st" "marking ss fl st0 (grow pl {} N) S st"
    "N = {obj. reach pl st0 (slot_values st0 (root_slots st0)) obj}" "N \<subseteq> objs fl st0"
    "set S = set (root_slots st0) \<union> (\<Union>obj \<in> N. set (slots pl st0 obj))"
proof -
  let ?A1 = "concat (map (\<lambda>f. vec_slots f 3) (call_stack st0))" and ?A2 = "vec_slots (vals st0) vals_count"
  let ?A3 = "vec_slots (fst (stack st0)) (unat (snd (stack st0)) div 8)"
  let ?A4 = "concat (map (bcode_slots st0) (mbuf_pointers (act_bcodes st0)))"
  let ?A5 = "mbuf_pointers (tmp_stack st0)" and ?A6 = "mbuf_pointers (owned_values (vm st0))"
  have all: "root_slots st0 = ?A1 @ ?A2 @ ?A3 @ ?A4 @ ?A5 @ ?A6" by (simp add: root_slots_def)
  have slots: "\<forall>a \<in> set (root_slots st0). slot ss fl st0 a" using roots root_slot by blast
  have len: "length (vec_slots p k) = k" for p k by (simp add: vec_slots_def)
  have fuel0: "need L (card (objs fl st0)) \<le> n" using fuel by simp
  have mk0: "marking ss fl st0 {} [] st0" by (simp add: marking_def marked_by_def mark_bits_def)
  have cl0: "clean fl pl st0 {}" by (simp add: clean_def)
  have len1: "k + need L (card (objs fl st0)) \<le> n" if "k \<le> length (root_slots st0)" for k using that fuel by simp
  have "length ?A1 = length (call_stack st0) * 3" by (simp add: length_concat comp_def len sum_list_triv)
  then have frames: "set (vec_slots f 3) \<subseteq> set ?A1" "3 \<le> length ?A1" if f: "f \<in> set (call_stack st0)" for f
    using f by (auto, cases "call_stack st0", auto)
  have "3 + need L (card (objs fl st0)) \<le> n" if "f \<in> set (call_stack st0)" for f
    using frames(2) [OF that] len1 [of 3] by (simp add: all)
  moreover have "\<forall>a \<in> set (vec_slots f 3). slot ss fl st0 a" if "f \<in> set (call_stack st0)" for f
    using frames(1) [OF that] slots unfolding all by auto
  ultimately have "\<forall>(p, len) \<in> set (map (\<lambda>f. (f, 24)) (call_stack st0)). (\<forall>a \<in> set (vec_slots p (unat (len :: u64) div 8)). slot ss fl st0 a) \<and>
      unat len div 8 + need L (card (objs fl st0)) \<le> n"
    by auto
  from ran_vecs [OF ok L mk0 cl0 this]
  obtain st1 where r1: "gc_mark_vecs n (map (\<lambda>f. (f, 24)) (call_stack st0)) st0 = Some st1"
    "ran ss fl pl st0 {} [] ?A1 st1"
    by (auto simp: comp_def)
  obtain st2 where r2: "gc_mark_val_array n (vals st1) vals_count st1 = Some st2" "ran ss fl pl st0 {} [] (?A1 @ ?A2) st2"
  proof (rule ran_then [OF ok r1(2), of "\<lambda>st. gc_mark_val_array n (vals st) vals_count st"])
    fix X' S' assume mk: "marking ss fl st0 X' S' st1" "clean fl pl st0 X'"
    have "\<forall>a \<in> set ?A2. slot ss fl st0 a" "vals_count + need L (card (objs fl st0)) \<le> n"
      using slots len1 [of vals_count] by (auto simp: all len)
    from ran_vec [OF ok L mk this] show "\<exists>st'. gc_mark_val_array n (vals st1) vals_count st1 = Some st' \<and>
        ran ss fl pl st0 X' S' ?A2 st'"
      unfolding marking_frame(3) [OF mk(1)] by blast
  qed
  obtain st3 where r3: "gc_mark_val_array n (fst (stack st2)) (unat (snd (stack st2)) div 8) st2 = Some st3"
    "ran ss fl pl st0 {} [] ((?A1 @ ?A2) @ ?A3) st3"
  proof (rule ran_then [OF ok r2(2), of "\<lambda>st. gc_mark_val_array n (fst (stack st)) (unat (snd (stack st)) div 8) st"])
    fix X' S' assume mk: "marking ss fl st0 X' S' st2" "clean fl pl st0 X'"
    have "\<forall>a \<in> set ?A3. slot ss fl st0 a" "unat (snd (stack st0)) div 8 + need L (card (objs fl st0)) \<le> n"
      using slots len1 [of "unat (snd (stack st0)) div 8"] by (auto simp: all len)
    from ran_vec [OF ok L mk this] show "\<exists>st'. gc_mark_val_array n (fst (stack st2)) (unat (snd (stack st2)) div 8) st2 = Some st' \<and>
        ran ss fl pl st0 X' S' ?A3 st'"
      unfolding marking_frame(5) [OF mk(1)] by blast
  qed
  obtain st4 where r4: "gc_mark_bcodes n (mbuf_pointers (act_bcodes st3)) st3 = Some st4"
    "ran ss fl pl st0 {} [] (((?A1 @ ?A2) @ ?A3) @ ?A4) st4"
  proof (rule ran_then [OF ok r3(2), of "\<lambda>st. gc_mark_bcodes n (mbuf_pointers (act_bcodes st)) st"])
    fix X' S' assume mk: "marking ss fl st0 X' S' st3" "clean fl pl st0 X'"
    have "length (bcode_slots st0 b) \<le> length ?A4" if "b \<in> set (mbuf_pointers (act_bcodes st0))" for b
      using that member_le_sum_list [of "length (bcode_slots st0 b)" "map (length \<circ> bcode_slots st0) (mbuf_pointers (act_bcodes st0))"]
      by (auto simp: length_concat comp_def)
    then have "length (bcode_slots st0 b) + need L (card (objs fl st0)) \<le> n" if "b \<in> set (mbuf_pointers (act_bcodes st0))" for b
      using that len1 [of "length (bcode_slots st0 b)"] by (fastforce simp: all)
    then have "\<forall>b \<in> set (mbuf_pointers (act_bcodes st0)). bcodes st0 b \<noteq> None \<and> (\<forall>a \<in> set (bcode_slots st0 b). slot ss fl st0 a) \<and>
      length (bcode_slots st0 b) + need L (card (objs fl st0)) \<le> n"
      using act slots by (auto simp: all)
    from ran_bcodes [OF ok L mk this] show "\<exists>st'. gc_mark_bcodes n (mbuf_pointers (act_bcodes st3)) st3 = Some st' \<and>
        ran ss fl pl st0 X' S' ?A4 st'"
      unfolding marking_frame(7) [OF mk(1)] by blast
  qed
  obtain st5 where r5: "gc_mark_pointers n (mbuf_pointers (tmp_stack st4)) st4 = Some st5"
    "ran ss fl pl st0 {} [] ((((?A1 @ ?A2) @ ?A3) @ ?A4) @ ?A5) st5"
  proof (rule ran_then [OF ok r4(2), of "\<lambda>st. gc_mark_pointers n (mbuf_pointers (tmp_stack st)) st"])
    fix X' S' assume mk: "marking ss fl st0 X' S' st4" "clean fl pl st0 X'"
    have "\<forall>a \<in> set ?A5. slot ss fl st0 a" using slots by (auto simp: all)
    from ran_pointers [OF ok L fuel0 mk this] show "\<exists>st'. gc_mark_pointers n (mbuf_pointers (tmp_stack st4)) st4 = Some st' \<and>
        ran ss fl pl st0 X' S' ?A5 st'"
      unfolding marking_frame(6) [OF mk(1)] .
  qed
  obtain st6 where r6: "gc_mark_pointers n (mbuf_pointers (owned_values (vm st5))) st5 = Some st6"
    "ran ss fl pl st0 {} [] (((((?A1 @ ?A2) @ ?A3) @ ?A4) @ ?A5) @ ?A6) st6"
  proof (rule ran_then [OF ok r5(2), of "\<lambda>st. gc_mark_pointers n (mbuf_pointers (owned_values (vm st))) st"])
    fix X' S' assume mk: "marking ss fl st0 X' S' st5" "clean fl pl st0 X'"
    have "\<forall>a \<in> set ?A6. slot ss fl st0 a" using slots by (auto simp: all)
    from ran_pointers [OF ok L fuel0 mk this] show "\<exists>st'. gc_mark_pointers n (mbuf_pointers (owned_values (vm st5))) st5 = Some st' \<and>
        ran ss fl pl st0 X' S' ?A6 st'"
      unfolding marking_owned [OF heap_okD(1) [OF ok] mk(1)] .
  qed
  have g: "gc_roots E n st0 = Some st6"
    using r1(1) r2(1) r3(1) r4(1) r5(1) r6(1) by (simp add: gc_roots_def)
  let ?V = "slot_values st0 (root_slots st0)"
  have "ran ss fl pl st0 {} [] (root_slots st0) st6" using r6(2) by (simp add: all)
  then obtain N S where NS: "marking ss fl st0 (grow pl {} N) S st6" "stretch fl pl st0 {} [] ?V (set (root_slots st0)) N S"
    unfolding ran_def by auto
  have "obj \<in> N" if "reach pl st0 ?V obj" for obj
    using that by (induction rule: reach.induct) (use NS(2) in \<open>auto simp: stretch_def\<close>)
  then have "N = {obj. reach pl st0 ?V obj}" using NS(2) by (auto simp: stretch_def)
  with that [OF g NS(1)] NS(2) show thesis by (simp add: stretch_def)
qed

end
