(* ===== verification/GcSweep.thy ===== *)
theory GcSweep
  imports GcMarkRun "HOL-Library.Sublist"
begin

text \<open>
  The sweep of an arena. Whatever the destructor, it ends; the marked cells lose their mark and keep their
  words, and the free list holds all other cells of the blocks that stay.
\<close>

subsection \<open>Addresses\<close>

lemma aligned_bits: "a AND 7 = (0 :: u64) \<longleftrightarrow> take_bit 3 a = 0"
  by (simp add: take_bit_eq_mask mask_eq_exp_minus_1)

lemma aligned_dvd: "a AND 7 = (0 :: u64) \<longleftrightarrow> 8 dvd a"
  unfolding aligned_bits take_bit_eq_0_iff by simp

lemma aligned_add: "a AND 7 = 0 \<Longrightarrow> b AND 7 = 0 \<Longrightarrow> (a + b) AND 7 = (0 :: u64)"
  unfolding aligned_dvd by (rule dvd_add)

lemma aligned_diff: "a AND 7 = 0 \<Longrightarrow> b AND 7 = 0 \<Longrightarrow> (a - b) AND 7 = (0 :: u64)"
  unfolding aligned_dvd by (rule dvd_diff)

lemma offsets_aligned: "x \<in> offsets k \<Longrightarrow> x AND 7 = 0" "x \<in> offsets k \<Longrightarrow> x < csize k" "csize k AND 7 = 0" "0 < csize k"
  by (cases k; auto)+

lemma aligned_offset: "x AND 7 = 0 \<Longrightarrow> x < csize k \<Longrightarrow> x \<in> offsets k"
proof -
  assume x: "x AND 7 = 0" "x < csize k"
  have "take_bit 3 (unat x) = 0"
    using arg_cong [OF x(1) [unfolded aligned_bits], of unat] by (simp only: unsigned_take_bit_eq unat_0)
  then have "unat x mod 8 = 0" by (simp add: take_bit_eq_mod)
  then obtain q where q: "unat x = 8 * q" by (auto elim: dvdE)
  have "q < unat (csize k) div 8" using x(2) q by (cases k) (simp_all add: word_less_nat_alt)
  then have "q = 0 \<or> q = 1 \<or> q = 2 \<or> (q = 3 \<and> k \<noteq> Generic_object)" by (cases k) auto
  moreover have "of_nat (unat x) = x" by simp
  then have "x = of_nat (8 * q)" unfolding q(1) by (rule sym)
  ultimately show ?thesis by (cases k) auto
qed

lemma cell_aligned: "spaced st \<Longrightarrow> c \<in> cells_of k st \<Longrightarrow> x \<in> offsets k \<Longrightarrow> (c + x) AND 7 = 0"
  by (rule aligned_add) (simp_all add: cell_small(2) offsets_aligned)

lemma in_cell:
  assumes "spaced st" "c \<in> cells_of k st" "a AND 7 = 0" "a - c < csize k"
  shows "\<exists>x \<in> offsets k. a = c + x"
proof -
  have "(a - c) AND 7 = 0" by (rule aligned_diff) (use assms cell_small(2) in auto)
  from aligned_offset [OF this assms(4)] show ?thesis by (intro bexI [of _ "a - c"]) simp_all
qed

lemma clear_cell:
  assumes "spaced st" "c \<in> cells_of k st"
  shows "d \<in> cells_of k' st \<Longrightarrow> y \<in> offsets k' \<Longrightarrow> k' \<noteq> k \<or> d \<noteq> c \<Longrightarrow> clear c (csize k) W (d + y) = W (d + y)"
    and "outside_cells st a \<Longrightarrow> clear c (csize k) W a = W a"
    and "x \<in> offsets k \<Longrightarrow> clear c (csize k) W (c + x) = map_option (\<lambda>_. 0) (W (c + x))"
proof -
  show "clear c (csize k) W (d + y) = W (d + y)" if d: "d \<in> cells_of k' st" "y \<in> offsets k'" "k' \<noteq> k \<or> d \<noteq> c"
  proof -
    have "\<not> d + y - c < csize k"
    proof
      assume "d + y - c < csize k"
      then obtain x where "x \<in> offsets k" "d + y = c + x"
        using in_cell [OF assms cell_aligned [OF assms(1) d(1,2)]] by blast
      then show False using spacedD(1,2) [OF assms(1) d(1) assms(2) d(2)] d(3) by blast
    qed
    then show ?thesis by (simp add: clear_def)
  qed
  show "clear c (csize k) W a = W a" if a: "outside_cells st a"
    using in_cell [OF assms, of a] a assms(2) unfolding outside_cells_def clear_def by auto
  show "clear c (csize k) W (c + x) = map_option (\<lambda>_. 0) (W (c + x))" if "x \<in> offsets k"
    using offsets_aligned(2) [OF that] by (cases "W (c + x)") (simp_all add: clear_def)
qed

subsection \<open>The marks of the free cells\<close>

definition free_bits :: "u64 set \<Rightarrow> cells \<Rightarrow> cells" where
  "free_bits F W = (\<lambda>a. if a \<in> F then map_option (\<lambda>w. w OR 2) (W a) else W a)"

lemma free_cells_marked:
  "chain W p f \<Longrightarrow> distinct f \<Longrightarrow> mark_free_cells p W = Some (free_bits (set f) W)"
proof (induction f arbitrary: p W)
  case Nil
  then show ?case by (subst mark_free_cells.simps) (simp add: free_bits_def)
next
  case (Cons q f)
  then obtain n where q: "p = q" "q \<noteq> 0" "W q = Some n" "chain W n f" by auto
  have "chain (W(q \<mapsto> n OR 2)) n f" by (rule chain_words [OF q(4)]) (use Cons.prems(2) in auto)
  with Cons have "mark_free_cells n (W(q \<mapsto> n OR 2)) = Some (free_bits (set f) (W(q \<mapsto> n OR 2)))" by simp
  moreover have "free_bits (set f) (W(q \<mapsto> n OR 2)) = free_bits (set (q # f)) W"
    using q(3) Cons.prems(2) by (auto simp: free_bits_def)
  ultimately show ?case
    using q by (subst mark_free_cells.simps) (simp add: MARK_FREE_def)
qed

subsection \<open>The states of a sweep\<close>

text \<open>The arena before the sweep proper: the head of a cell has one mark at most.\<close>

definition tidy :: "arena_kind \<Rightarrow> js \<Rightarrow> bool" where
  "tidy k st \<longleftrightarrow> spaced st \<and> cell_size (arena_of k st) = csize k \<and>
     (\<forall>(b, n) \<in> set (arena_blocks (arena_of k st)). unat b + unat n * unat (csize k) < 2 ^ 48) \<and>
     distinct (arena_cells (arena_of k st)) \<and>
     (\<forall>c \<in> cells_of k st. \<forall>x \<in> offsets k. words st (c + x) \<noteq> None) \<and>
     (\<forall>c \<in> cells_of k st. \<forall>w. words st c = Some w \<longrightarrow> w AND 1 = 0 \<or> w AND 2 = 0)"

definition marked :: "arena_kind \<Rightarrow> js \<Rightarrow> u64 set" where
  "marked k st = {c \<in> cells_of k st. \<exists>w. words st c = Some w \<and> w AND 1 \<noteq> 0}"

definition free_marked :: "arena_kind \<Rightarrow> js \<Rightarrow> u64 set" where
  "free_marked k st = {c \<in> cells_of k st. \<exists>w. words st c = Some w \<and> w AND 2 \<noteq> 0}"

definition dead :: "arena_kind \<Rightarrow> js \<Rightarrow> u64 set" where
  "dead k st = cells_of k st - marked k st - free_marked k st"

text \<open>What the sweep of an arena may change.\<close>

definition same_but :: "arena_kind \<Rightarrow> js \<Rightarrow> js \<Rightarrow> bool" where
  "same_but k st0 st \<longleftrightarrow>
     (\<exists>a W B. st = set_arena k a (st0\<lparr>words := W, bcodes := B\<rparr>) \<and>
        arena_blocks a = arena_blocks (arena_of k st0) \<and> cell_size a = cell_size (arena_of k st0))"

definition keeps :: "arena_kind \<Rightarrow> u64 set \<Rightarrow> js \<Rightarrow> js \<Rightarrow> bool" where
  "keeps k past st0 st \<longleftrightarrow> same_but k st0 st \<and>
     (\<forall>k'. \<forall>c \<in> cells_of k' st0. \<forall>x \<in> offsets k'. (k' = k \<longrightarrow> c \<notin> past) \<longrightarrow> words st (c + x) = words st0 (c + x))"

lemma arena_of_set [simp]: "arena_of k (set_arena k a st) = a" "k' \<noteq> k \<Longrightarrow> arena_of k' (set_arena k a st) = arena_of k' st"
  by (cases k; simp) (cases k; cases k'; simp)

lemma set_arena_fields [simp]: "words (set_arena k a st) = words st" "bcodes (set_arena k a st) = bcodes st"
    "vm (set_arena k a st) = vm st" "vals (set_arena k a st) = vals st" "call_stack (set_arena k a st) = call_stack st"
    "stack (set_arena k a st) = stack st" "tmp_stack (set_arena k a st) = tmp_stack st"
    "act_bcodes (set_arena k a st) = act_bcodes st"
  by (cases k; simp)+

lemma set_arena_again [simp]: "set_arena k a (set_arena k b st) = set_arena k a st"
    "(set_arena k a st)\<lparr>words := W\<rparr> = set_arena k a (st\<lparr>words := W\<rparr>)"
    "(set_arena k a st)\<lparr>bcodes := B\<rparr> = set_arena k a (st\<lparr>bcodes := B\<rparr>)"
    "arena_of k' (st\<lparr>words := W\<rparr>) = arena_of k' st" "arena_of k' (st\<lparr>bcodes := B\<rparr>) = arena_of k' st"
  by (cases k; simp | cases k'; simp)+

lemma same_but_frame:
  assumes "same_but k st0 st"
  shows "vm st = vm st0" "vals st = vals st0" "call_stack st = call_stack st0" "stack st = stack st0"
    "tmp_stack st = tmp_stack st0" "act_bcodes st = act_bcodes st0" "k' \<noteq> k \<Longrightarrow> arena_of k' st = arena_of k' st0"
    "arena_blocks (arena_of k' st) = arena_blocks (arena_of k' st0)" "cell_size (arena_of k' st) = cell_size (arena_of k' st0)"
    "cells_of k' st = cells_of k' st0"
proof -
  obtain a W B where st: "st = set_arena k a (st0\<lparr>words := W, bcodes := B\<rparr>)"
      and a: "arena_blocks a = arena_blocks (arena_of k st0)" "cell_size a = cell_size (arena_of k st0)"
    using assms unfolding same_but_def by blast
  show "vm st = vm st0" "vals st = vals st0" "call_stack st = call_stack st0" "stack st = stack st0"
    "tmp_stack st = tmp_stack st0" "act_bcodes st = act_bcodes st0" "k' \<noteq> k \<Longrightarrow> arena_of k' st = arena_of k' st0"
    unfolding st by simp_all
  show b: "arena_blocks (arena_of k' st) = arena_blocks (arena_of k' st0)" "cell_size (arena_of k' st) = cell_size (arena_of k' st0)"
    unfolding st by (cases "k' = k"; simp add: a)+
  show "cells_of k' st = cells_of k' st0" by (simp add: cells_of_def arena_cells_def b)
qed

lemma same_but_step:
  assumes "same_but k st0 st" "arena_blocks a = arena_blocks (arena_of k st)" "cell_size a = cell_size (arena_of k st)"
  shows "same_but k st0 (set_arena k a (st\<lparr>words := W, bcodes := B\<rparr>))"
proof -
  obtain a' W' B' where "st = set_arena k a' (st0\<lparr>words := W', bcodes := B'\<rparr>)"
    using assms(1) unfolding same_but_def by blast
  then have "set_arena k a (st\<lparr>words := W, bcodes := B\<rparr>) = set_arena k a (st0\<lparr>words := W, bcodes := B\<rparr>)" by simp
  then show ?thesis using assms(2,3) same_but_frame(8,9) [OF assms(1), of k] unfolding same_but_def by metis
qed

text \<open>The sweep so far, over the cells \<open>past\<close>, from the state \<open>st0\<close>; \<open>fr\<close> is the free list. \<open>J\<close> says what the
  destructor has done elsewhere.\<close>

definition swept :: "arena_kind \<Rightarrow> (js \<Rightarrow> u64 set \<Rightarrow> js \<Rightarrow> bool) \<Rightarrow> js \<Rightarrow> u64 set \<Rightarrow> u64 list \<Rightarrow> js \<Rightarrow> bool" where
  "swept k J st0 past fr st \<longleftrightarrow>
     keeps k past st0 st \<and> J st0 (past \<inter> dead k st0) st \<and>
     chain (words st) (free_cells (arena_of k st)) fr \<and> distinct fr \<and> set fr \<subseteq> past - marked k st0 \<and>
     (\<forall>c \<in> past \<inter> marked k st0. \<forall>x \<in> offsets k. words st (c + x) =
        (if x = 0 then map_option (\<lambda>w. w AND NOT 1) (words st0 c) else words st0 (c + x))) \<and>
     (\<forall>c \<in> set fr. \<forall>x \<in> offsets k. words st (c + x) \<noteq> None)"

definition others :: "arena_kind \<Rightarrow> u64 \<Rightarrow> js \<Rightarrow> cells \<Rightarrow> cells \<Rightarrow> bool" where
  "others k c st0 W W' \<longleftrightarrow>
     (\<forall>k'. \<forall>d \<in> cells_of k' st0. \<forall>y \<in> offsets k'. k' \<noteq> k \<or> d \<noteq> c \<longrightarrow> W' (d + y) = W (d + y))"

lemma othersD: "others k c st0 W W' \<Longrightarrow> d \<in> cells_of k' st0 \<Longrightarrow> y \<in> offsets k' \<Longrightarrow> k' \<noteq> k \<or> d \<noteq> c \<Longrightarrow> W' (d + y) = W (d + y)"
  by (simp add: others_def)

lemma others_trans: "others k c st0 W W' \<Longrightarrow> others k c st0 W' W'' \<Longrightarrow> others k c st0 W W''"
  by (simp add: others_def)

lemma others_upd: "spaced st0 \<Longrightarrow> c \<in> cells_of k st0 \<Longrightarrow> others k c st0 W (W(c \<mapsto> w))"
  unfolding others_def using spacedD [of st0 _ _ c k _ 0] by fastforce

lemma others_clear: "spaced st0 \<Longrightarrow> c \<in> cells_of k st0 \<Longrightarrow> others k c st0 W (clear c (csize k) W)"
  unfolding others_def using clear_cell(1) by blast

lemma keeps_words: "keeps k past st0 st \<Longrightarrow> c \<in> cells_of k' st0 \<Longrightarrow> x \<in> offsets k' \<Longrightarrow> (k' = k \<Longrightarrow> c \<notin> past) \<Longrightarrow>
    words st (c + x) = words st0 (c + x)"
  by (auto simp: keeps_def)

lemma swept_step:
  assumes sw: "swept k J st0 past fr st" and c: "c \<in> cells_of k st0 - past" and past: "past \<subseteq> cells_of k st0"
    and oth: "others k c st0 (words st) W" and a: "arena_blocks a = arena_blocks (arena_of k st)" "cell_size a = cell_size (arena_of k st)"
    and J: "J st0 (insert c past \<inter> dead k st0) (set_arena k a (st\<lparr>words := W, bcodes := B\<rparr>))"
    and kept: "c \<in> marked k st0 \<Longrightarrow> fr' = fr \<and> free_cells a = free_cells (arena_of k st) \<and> (\<forall>x \<in> offsets k. W (c + x) =
        (if x = 0 then map_option (\<lambda>w. w AND NOT 1) (words st0 c) else words st0 (c + x)))"
    and free: "c \<notin> marked k st0 \<Longrightarrow> fr' = c # fr \<and> free_cells a = c \<and> c \<noteq> 0 \<and> W c = Some (free_cells (arena_of k st)) \<and>
        (\<forall>x \<in> offsets k. W (c + x) \<noteq> None)"
  shows "swept k J st0 (insert c past) fr' (set_arena k a (st\<lparr>words := W, bcodes := B\<rparr>))"
proof -
  have ks: "keeps k past st0 st" using sw by (simp add: swept_def)
  have same: "W (d + y) = words st (d + y)" if "d \<in> cells_of k' st0" "y \<in> offsets k'" "k' \<noteq> k \<or> d \<noteq> c" for d k' y
    by (rule othersD [OF oth that])
  have "same_but k st0 (set_arena k a (st\<lparr>words := W, bcodes := B\<rparr>))"
    using ks a by (intro same_but_step) (simp_all add: keeps_def)
  then have "keeps k (insert c past) st0 (set_arena k a (st\<lparr>words := W, bcodes := B\<rparr>))"
    using ks same by (auto simp: keeps_def)
  moreover have ch: "chain W (free_cells (arena_of k st)) fr"
  proof (rule chain_words)
    show "chain (words st) (free_cells (arena_of k st)) fr" using sw by (simp add: swept_def)
    show "\<forall>q \<in> set fr. W q = words st q"
      using sw past c same [of _ k 0] by (auto simp: swept_def)
  qed
  then have "chain W (free_cells a) fr'" using kept free by (cases "c \<in> marked k st0") auto
  moreover have "distinct fr'" "set fr' \<subseteq> insert c past - marked k st0"
    using sw c kept free by (cases "c \<in> marked k st0"; auto simp: swept_def)+
  moreover have "W (d + x) = (if x = 0 then map_option (\<lambda>w. w AND NOT 1) (words st0 d) else words st0 (d + x))"
    if "d \<in> insert c past \<inter> marked k st0" "x \<in> offsets k" for d x
  proof (cases "d = c")
    case False
    then have "W (d + x) = words st (d + x)" using that past by (intro same [of _ k]) auto
    with sw that False show ?thesis by (auto simp: swept_def)
  qed (use kept that in auto)
  moreover have "W (d + x) \<noteq> None" if "d \<in> set fr'" "x \<in> offsets k" for d x
  proof (cases "d = c")
    case True
    have "distinct fr \<and> set fr \<subseteq> past" using sw by (auto simp: swept_def)
    with True that c kept free show ?thesis by (cases "c \<in> marked k st0") auto
  next
    case False
    then have d: "d \<in> set fr" using that(1) kept free by (cases "c \<in> marked k st0") auto
    then have "W (d + x) = words st (d + x)" using that(2) sw past False by (intro same [of _ k]) (auto simp: swept_def)
    with sw d that(2) show ?thesis by (auto simp: swept_def)
  qed
  ultimately show ?thesis using J by (simp add: swept_def)
qed

subsection \<open>Blocks\<close>

lemma chain_head: "chain W p qs \<Longrightarrow> p = (case qs of [] \<Rightarrow> 0 | q # _ \<Rightarrow> q)"
  by (cases qs) auto

lemma chain_append: "chain W p (xs @ ys) \<Longrightarrow> \<exists>q. chain W q ys"
  by (induction xs arbitrary: p) auto

lemma chain_suffix: "chain W p (xs @ ys) \<Longrightarrow> chain W' q ys \<Longrightarrow> chain W q ys"
  using chain_append [of W p xs ys] chain_head by metis

lemma in_block:
  assumes sp: "spaced st" and b: "(b, n) \<in> set (arena_blocks (arena_of k st))" "cell_size (arena_of k st) = csize k"
    and room: "unat b + unat n * unat (csize k) < 2 ^ 48" and a: "a AND 7 = 0" "a - b < csize k * n"
  shows "\<exists>c \<in> set (block_cells (csize k) (b, n)). \<exists>x \<in> offsets k. a = c + x"
proof -
  let ?s = "unat (csize k)" and ?d = "unat (a - b)"
  have s: "0 < ?s" by (cases k) simp_all
  have bl: "block_cells (csize k) (b, n) = map (\<lambda>i. b + of_nat i * csize k) [0..<unat n]"
    by (simp add: block_cells_def GC_CELL_OP_def)
  have cells: "set (block_cells (csize k) (b, n)) \<subseteq> cells_of k st" using b by (auto simp: cells_of_def arena_cells_def)
  have prod: "unat (csize k * n) = ?s * unat n" using room by (simp add: unat_word_ariths mult.commute)
  have d: "?d < ?s * unat n" using a(2) by (simp add: word_less_nat_alt prod)
  define i where "i = ?d div ?s"
  have i: "i < unat n" using d s by (simp add: i_def less_mult_imp_div_less mult.commute)
  let ?c = "b + of_nat i * csize k"
  have c: "?c \<in> set (block_cells (csize k) (b, n))" using i by (auto simp: bl)
  then have ca: "?c AND 7 = 0" using cells cell_small(2) [OF sp] by blast
  have "of_nat (i * ?s + ?d mod ?s) = (of_nat ?d :: u64)" by (simp only: i_def div_mult_mod_eq)
  then have ad: "of_nat i * csize k + of_nat (?d mod ?s) = a - b" by simp
  then have x: "a = ?c + of_nat (?d mod ?s)" by (simp add: algebra_simps)
  have "of_nat (?d mod ?s) = a - ?c" using ad by (simp add: algebra_simps)
  then have "(of_nat (?d mod ?s) :: u64) AND 7 = 0" using aligned_diff [OF a(1) ca] by simp
  moreover have "(of_nat (?d mod ?s) :: u64) < csize k"
    using s by (simp add: word_less_nat_alt unat_of_nat order.strict_trans1 [OF mod_less_eq_dividend])
  ultimately show ?thesis using c x aligned_offset by blast
qed

lemma release_block:
  assumes "spaced st" "(b, n) \<in> set (arena_blocks (arena_of k st))" "cell_size (arena_of k st) = csize k"
    "unat b + unat n * unat (csize k) < 2 ^ 48"
  shows "d \<in> cells_of k' st \<Longrightarrow> y \<in> offsets k' \<Longrightarrow> k' = k \<Longrightarrow> d \<notin> set (block_cells (csize k) (b, n)) \<Longrightarrow>
      release b (csize k * n) W (d + y) = W (d + y)"
    and "d \<in> cells_of k' st \<Longrightarrow> y \<in> offsets k' \<Longrightarrow> k' \<noteq> k \<Longrightarrow> release b (csize k * n) W (d + y) = W (d + y)"
    and "outside_cells st a \<Longrightarrow> release b (csize k * n) W a = W a"
proof -
  note ib = in_block [OF assms]
  have cells: "set (block_cells (csize k) (b, n)) \<subseteq> cells_of k st" using assms(2,3) by (auto simp: cells_of_def arena_cells_def)
  have "\<not> d + y - b < csize k * n"
    if d: "d \<in> cells_of k' st" "y \<in> offsets k'" "k' = k \<longrightarrow> d \<notin> set (block_cells (csize k) (b, n))" for d k' y
  proof
    assume "d + y - b < csize k * n"
    then obtain c x where c: "c \<in> set (block_cells (csize k) (b, n))" "x \<in> offsets k" "d + y = c + x"
      using ib [OF cell_aligned [OF assms(1) d(1,2)]] by blast
    then show False using spacedD(1,2) [OF assms(1) d(1) _ d(2) c(2,3)] cells d(3) by blast
  qed
  then show "d \<in> cells_of k' st \<Longrightarrow> y \<in> offsets k' \<Longrightarrow> k' = k \<Longrightarrow> d \<notin> set (block_cells (csize k) (b, n)) \<Longrightarrow>
      release b (csize k * n) W (d + y) = W (d + y)"
    "d \<in> cells_of k' st \<Longrightarrow> y \<in> offsets k' \<Longrightarrow> k' \<noteq> k \<Longrightarrow> release b (csize k * n) W (d + y) = W (d + y)"
    by (simp_all add: release_def)
  show "release b (csize k * n) W a = W a" if "outside_cells st a"
    using that ib [of a] cells unfolding outside_cells_def release_def by auto
qed

text \<open>The arena after the sweep: the marked cells \<open>M\<close> and the free ones \<open>fr\<close> are the cells of the blocks left.\<close>

definition sweep_result :: "arena_kind \<Rightarrow> u64 set \<Rightarrow> u64 list \<Rightarrow> js \<Rightarrow> js \<Rightarrow> bool" where
  "sweep_result k M fr st st' \<longleftrightarrow>
     (\<exists>a W B. st' = set_arena k a (st\<lparr>words := W, bcodes := B\<rparr>) \<and>
        subseq (arena_blocks a) (arena_blocks (arena_of k st)) \<and> cell_size a = csize k) \<and>
     cells_of k st' = set fr \<union> M \<and> set fr \<inter> M = {} \<and> distinct fr \<and>
     chain (words st') (free_cells (arena_of k st')) fr \<and>
     (\<forall>k'. \<forall>c \<in> cells_of k' st. \<forall>x \<in> offsets k'. k' \<noteq> k \<longrightarrow> words st' (c + x) = words st (c + x)) \<and>
     (\<forall>c \<in> M. \<forall>x \<in> offsets k. words st' (c + x) =
        (if x = 0 then map_option (\<lambda>w. w AND NOT 1) (words st c) else words st (c + x))) \<and>
     (\<forall>c \<in> set fr. \<forall>x \<in> offsets k. words st' (c + x) \<noteq> None)"

text \<open>Before the sweep.\<close>

definition sweepable :: "arena_kind \<Rightarrow> u64 list \<Rightarrow> js \<Rightarrow> bool" where
  "sweepable k f st \<longleftrightarrow> spaced st \<and> arena_ok k f st \<and>
     (\<forall>c \<in> set f. \<forall>w. words st c = Some w \<longrightarrow> w AND 3 = 0) \<and>
     (\<forall>c \<in> cells_of k st - set f. \<forall>w. words st c = Some w \<longrightarrow> w AND 2 = 0)"

definition opened_sweep :: "arena_kind \<Rightarrow> u64 list \<Rightarrow> js \<Rightarrow> js" where
  "opened_sweep k f st =
     set_arena k ((arena_of k st)\<lparr>alive := 0, free_cells := 0\<rparr>) (st\<lparr>words := free_bits (set f) (words st)\<rparr>)"

lemma and3: "w AND 3 = 0 \<longleftrightarrow> w AND 1 = 0 \<and> w AND 2 = (0 :: u64)"
proof -
  have "w AND 3 = (w AND 1) OR (w AND 2)" by (simp flip: bit.conj_disj_distrib)
  then show ?thesis by (simp add: or_eq_0_iff)
qed

lemma opened:
  assumes "sweepable k f st"
  shows "tidy k (opened_sweep k f st)" "cells_of k' (opened_sweep k f st) = cells_of k' st"
    "marked k (opened_sweep k f st) = marked k st" "marked k st \<inter> set f = {}"
    "dead k (opened_sweep k f st) = cells_of k st - marked k st - set f"
    "x \<in> offsets k' \<Longrightarrow> c \<in> cells_of k' st \<Longrightarrow> k' = k \<longrightarrow> x \<noteq> 0 \<or> c \<notin> set f \<Longrightarrow> words (opened_sweep k f st) (c + x) = words st (c + x)"
    "spaced (opened_sweep k f st)"
proof -
  let ?o = "opened_sweep k f st"
  have sp: "spaced st" and f: "set f \<subseteq> cells_of k st" and ok: "arena_ok k f st" using assms by (auto simp: sweepable_def arena_ok_def Let_def)
  have blocks: "arena_blocks (arena_of k' ?o) = arena_blocks (arena_of k' st)" "cell_size (arena_of k' ?o) = cell_size (arena_of k' st)" for k'
    by (cases "k' = k"; simp add: opened_sweep_def)+
  then show cells: "cells_of k' ?o = cells_of k' st" for k' by (simp add: cells_of_def arena_cells_def)
  show w: "words ?o (c + x) = words st (c + x)"
    if x: "x \<in> offsets k'" and c: "c \<in> cells_of k' st" and n: "k' = k \<longrightarrow> x \<noteq> 0 \<or> c \<notin> set f" for k' c x
  proof -
    have "c + x \<notin> set f"
    proof
      assume "c + x \<in> set f"
      then have q: "c + x \<in> cells_of k st" using f by blast
      have "c + x = (c + x) + 0" by simp
      from spacedD [OF sp c q x offsets_0(1) this] have "k' = k" "x = 0" by simp_all
      with n \<open>c + x \<in> set f\<close> show False by simp
    qed
    then show ?thesis by (simp add: opened_sweep_def free_bits_def)
  qed
  have wf: "words ?o c = map_option (\<lambda>w. w OR 2) (words st c)" if "c \<in> set f" for c
    using that by (simp add: opened_sweep_def free_bits_def)
  have wn: "words ?o c = words st c" if "c \<in> cells_of k st" "c \<notin> set f" for c
    using w [of 0 k c] that by simp
  have or12: "(w OR 2) AND 1 = w AND 1" "(w OR 2) AND 2 = (2 :: u64)" for w
    by (simp_all add: bit.conj_disj_distrib2)
  have bits: "w AND 1 = 0" "w AND 2 = 0" if "c \<in> set f" "words st c = Some w" for c w
    using assms that by (auto simp: sweepable_def and3)
  have head: "\<exists>w. words st c = Some w" if "c \<in> cells_of k st" for c
    using ok that by (fastforce simp: arena_ok_def Let_def dest: bspec [of _ _ "0"])
  have m: "c \<in> marked k ?o \<longleftrightarrow> c \<in> marked k st" for c
  proof (cases "c \<in> set f")
    case True
    then show ?thesis using wf [of c] or12(1) bits(1) by (auto simp: marked_def)
  next
    case False
    then show ?thesis using wn [of c] unfolding marked_def cells by (cases "c \<in> cells_of k st") simp_all
  qed
  then show mm: "marked k ?o = marked k st" by blast
  show "marked k st \<inter> set f = {}" using bits by (auto simp: marked_def)
  have "c \<in> free_marked k ?o \<longleftrightarrow> c \<in> set f" for c
  proof (cases "c \<in> set f")
    case True
    then obtain w where "words st c = Some w" using head f by blast
    then have "words ?o c = Some (w OR 2)" "(w OR 2) AND 2 \<noteq> 0" using wf [OF True] or12(2) by simp_all
    then show ?thesis using True f unfolding free_marked_def cells by blast
  next
    case False
    then show ?thesis using wn [of c] assms unfolding free_marked_def cells sweepable_def by auto
  qed
  then show "dead k ?o = cells_of k st - marked k st - set f" unfolding dead_def mm cells by blast
  show sp': "spaced ?o" using sp by (simp add: spaced_def cells)
  have "words ?o (c + x) \<noteq> None" if "c \<in> cells_of k st" "x \<in> offsets k" for c x
    using w [OF that(2,1)] wf [of c] head [OF that(1)] ok that by (cases "x = 0 \<and> c \<in> set f") (auto simp: arena_ok_def Let_def)
  moreover have "w AND 1 = 0 \<or> w AND 2 = 0" if c: "c \<in> cells_of k st" "words ?o c = Some w" for c w
  proof (cases "c \<in> set f")
    case True
    then obtain u where u: "words st c = Some u" using head f by blast
    then have "w = u OR 2" using wf [OF True] c(2) by simp
    then have "w AND 1 = 0" using or12(1) [of u] bits(1) [OF True u] by simp
    then show ?thesis ..
  next
    case False
    then show ?thesis using wn [of c] c assms by (auto simp: sweepable_def)
  qed
  ultimately show "tidy k ?o"
    using sp' ok blocks [of k] by (auto simp: tidy_def cells arena_ok_def Let_def arena_cells_def)
qed

subsection \<open>The contract of a destructor\<close>

locale destructor =
  fixes D :: "u64 \<Rightarrow> js \<Rightarrow> js option" and k :: arena_kind and J :: "js \<Rightarrow> u64 set \<Rightarrow> js \<Rightarrow> bool"
  assumes runs: "tidy k st0 \<Longrightarrow> keeps k past st0 st \<Longrightarrow> c \<in> dead k st0 - past \<Longrightarrow> J st0 (past \<inter> dead k st0) st \<Longrightarrow>
      \<exists>W B. D c st = Some (st\<lparr>words := W, bcodes := B\<rparr>) \<and>
        (\<forall>k'. \<forall>d \<in> cells_of k' st0. \<forall>x \<in> offsets k'. W (d + x) = words st (d + x)) \<and>
        J st0 (insert c (past \<inter> dead k st0)) (st\<lparr>words := W, bcodes := B\<rparr>)"
    and frame: "J st0 Z st \<Longrightarrow> bcodes st' = bcodes st \<Longrightarrow> (\<And>a. outside_cells st0 a \<Longrightarrow> words st' a = words st a) \<Longrightarrow>
      J st0 Z st'"
begin

lemma cell_swept:
  assumes t: "tidy k st0" and sw: "swept k J st0 past fr st" and c: "c \<in> cells_of k st0 - past" and past: "past \<subseteq> cells_of k st0"
  shows "\<exists>st'. sweep_cell D k c (m, st) = Some (if c \<in> marked k st0 then m else Suc m, st') \<and>
    swept k J st0 (insert c past) (if c \<in> marked k st0 then fr else c # fr) st'"
proof -
  have sp: "spaced st0" and cs: "cell_size (arena_of k st) = csize k"
    using t sw same_but_frame(9) [of k st0 st k] by (auto simp: tidy_def swept_def keeps_def)
  have ks: "keeps k past st0 st" and J: "J st0 (past \<inter> dead k st0) st" using sw by (simp_all add: swept_def)
  have at: "words st (c + x) = words st0 (c + x)" "words st0 (c + x) \<noteq> None" if "x \<in> offsets k" for x
    using keeps_words [OF ks _ that] c t that by (auto simp: tidy_def)
  obtain w where w: "words st c = Some w" "words st0 c = Some w" using at [of 0] by auto
  have bits: "w AND 1 = 0 \<or> w AND 2 = 0" using t c w by (auto simp: tidy_def)
  have mk: "c \<in> marked k st0 \<longleftrightarrow> w AND 1 \<noteq> 0" and fm: "c \<in> free_marked k st0 \<longleftrightarrow> w AND 2 \<noteq> 0"
    using c w by (auto simp: marked_def free_marked_def)
  have c0: "c \<noteq> 0" using cell_small(1) [OF sp] c by blast
  have upd: "others k c st0 W (W(c \<mapsto> u))" for W u using others_upd [OF sp] c by blast
  have out: "(W(c \<mapsto> u)) a = W a" if "outside_cells st0 a" for W :: cells and u a
  proof -
    have "a \<noteq> c + 0" using that c offsets_0(1) unfolding outside_cells_def by blast
    then show ?thesis by simp
  qed
  let ?a = "arena_of k st"
  show ?thesis
  proof (cases "w AND 1 = 0")
    case False
    let ?st = "set_arena k (?a\<lparr>alive := alive ?a + 1\<rparr>) (st\<lparr>words := (words st)(c \<mapsto> w AND NOT 1), bcodes := bcodes st\<rparr>)"
    have cm: "c \<in> marked k st0" using False mk by simp
    then have "insert c past \<inter> dead k st0 = past \<inter> dead k st0" by (auto simp: dead_def)
    then have J': "J st0 (insert c past \<inter> dead k st0) ?st" using frame [OF J, of ?st] out by simp
    have at': "((words st)(c \<mapsto> w AND NOT 1)) (c + x) =
        (if x = 0 then map_option (\<lambda>w. w AND NOT 1) (words st0 c) else words st0 (c + x))" if "x \<in> offsets k" for x
      using at that w by simp
    have "swept k J st0 (insert c past) fr ?st"
      by (rule swept_step [OF sw c past upd _ _ J']) (use cm at' in simp_all)
    then show ?thesis using False cm w by (simp add: sweep_cell_def MARKED_def UNMARK_def Let_def)
  next
    case True
    then have cm: "c \<notin> marked k st0" using mk by simp
    have fin: "swept k J st0 (insert c past) (c # fr) (set_arena k (?a\<lparr>free_cells := c, garbage := garbage ?a + 1\<rparr>)
        (st\<lparr>words := W(c \<mapsto> free_cells ?a), bcodes := B\<rparr>))"
      if W: "others k c st0 (words st) W" "\<And>x. x \<in> offsets k \<Longrightarrow> W (c + x) \<noteq> None"
        and J: "J st0 (insert c past \<inter> dead k st0) (st\<lparr>words := W, bcodes := B\<rparr>)" for W B
    proof (rule swept_step [OF sw c past others_trans [OF W(1) upd]])
      show "J st0 (insert c past \<inter> dead k st0) (set_arena k (?a\<lparr>free_cells := c, garbage := garbage ?a + 1\<rparr>)
        (st\<lparr>words := W(c \<mapsto> free_cells ?a), bcodes := B\<rparr>))"
        by (rule frame [OF J]) (simp_all add: out del: fun_upd_apply)
    qed (use cm c0 W(2) in auto)
    show ?thesis
    proof (cases "w AND 2 = 0")
      case False
      then have cd: "insert c past \<inter> dead k st0 = past \<inter> dead k st0" using fm by (auto simp: dead_def)
      have J': "J st0 (insert c past \<inter> dead k st0) (st\<lparr>words := (words st)(c \<mapsto> w AND NOT 2), bcodes := bcodes st\<rparr>)"
        unfolding cd by (rule frame [OF J]) (simp_all add: out del: fun_upd_apply)
      have "((words st)(c \<mapsto> w AND NOT 2)) (c + x) \<noteq> None" if "x \<in> offsets k" for x using at that by auto
      from fin [OF upd this J'] True False cm w show ?thesis
        by (simp add: sweep_cell_def MARKED_def MARKED_FREE_def UNMARK_FREE_def Let_def)
    next
      case nofree: True
      then have cd: "c \<in> dead k st0 - past" using c cm fm by (simp add: dead_def)
      then have ins: "insert c past \<inter> dead k st0 = insert c (past \<inter> dead k st0)" by blast
      obtain W B where D: "D c st = Some (st\<lparr>words := W, bcodes := B\<rparr>)"
        "\<And>k' d x. d \<in> cells_of k' st0 \<Longrightarrow> x \<in> offsets k' \<Longrightarrow> W (d + x) = words st (d + x)"
        "J st0 (insert c (past \<inter> dead k st0)) (st\<lparr>words := W, bcodes := B\<rparr>)"
        using runs [OF t ks cd J] by blast
      have W: "others k c st0 (words st) (clear c (csize k) W)"
        by (rule others_trans [of _ _ _ _ W]) (use D(2) others_clear [OF sp] c in \<open>auto simp: others_def\<close>)
      have cl: "clear c (csize k) W (c + x) \<noteq> None" if "x \<in> offsets k" for x
        using clear_cell(3) [OF sp _ that, of c W] D(2) [of c k x] at [OF that] that c by simp
      have J': "J st0 (insert c past \<inter> dead k st0) (st\<lparr>words := clear c (csize k) W, bcodes := B\<rparr>)"
        unfolding ins by (rule frame [OF D(3)]) (use clear_cell(2) [OF sp] c in auto)
      have ord: "st\<lparr>bcodes := B, words := V\<rparr> = st\<lparr>words := V, bcodes := B\<rparr>" for V by simp
      from fin [OF W cl J'] True nofree cm w D(1) cs show ?thesis
        by (simp add: ord sweep_cell_def MARKED_def MARKED_FREE_def Let_def)
    qed
  qed
qed

lemma cells_swept:
  assumes t: "tidy k st0"
  shows "swept k J st0 past fr st \<Longrightarrow> past \<subseteq> cells_of k st0 \<Longrightarrow> set cs \<subseteq> cells_of k st0 - past \<Longrightarrow> distinct cs \<Longrightarrow>
    \<exists>st'. sweep_cells D k cs (m, st) = Some (m + length (filter (\<lambda>c. c \<notin> marked k st0) cs), st') \<and>
      swept k J st0 (past \<union> set cs) (rev (filter (\<lambda>c. c \<notin> marked k st0) cs) @ fr) st'"
proof (induction cs arbitrary: past fr st m)
  case Nil
  then show ?case by simp
next
  case (Cons c cs)
  let ?n = "if c \<in> marked k st0 then m else Suc m" and ?fr = "if c \<in> marked k st0 then fr else c # fr"
  obtain st1 where s1: "sweep_cell D k c (m, st) = Some (?n, st1)" "swept k J st0 (insert c past) ?fr st1"
    using cell_swept [OF t Cons.prems(1), of c m] Cons.prems by auto
  obtain st2 where s2: "sweep_cells D k cs (?n, st1) = Some (?n + length (filter (\<lambda>c. c \<notin> marked k st0) cs), st2)"
    "swept k J st0 (insert c past \<union> set cs) (rev (filter (\<lambda>c. c \<notin> marked k st0) cs) @ ?fr) st2"
    using Cons.IH [OF s1(2), of ?n] Cons.prems by auto
  then show ?case using s1(1) by (simp split: if_splits)
qed

lemma blocks_swept:
  assumes t: "tidy k st0"
  shows "swept k J st0 past fr st \<Longrightarrow> past \<subseteq> cells_of k st0 \<Longrightarrow> set bs \<subseteq> set (arena_blocks (arena_of k st0)) \<Longrightarrow>
    set (concat (map (block_cells (csize k)) bs)) \<inter> past = {} \<Longrightarrow> distinct (concat (map (block_cells (csize k)) bs)) \<Longrightarrow>
    \<exists>kept fr' st'. sweep_blocks D k bs st = Some (kept, st') \<and>
      swept k J st0 (past \<union> set (concat (map (block_cells (csize k)) bs))) (fr' @ fr) st' \<and> subseq kept bs \<and>
      set (concat (map (block_cells (csize k)) kept)) =
        set fr' \<union> (marked k st0 \<inter> set (concat (map (block_cells (csize k)) bs)))"
proof (induction bs arbitrary: past fr st)
  case Nil
  then show ?case by simp
next
  case (Cons b bs)
  obtain p n where b: "b = (p, n)" by (cases b)
  let ?cs = "block_cells (csize k) b" and ?P = "\<lambda>c. c \<notin> marked k st0"
  let ?rest = "set (concat (map (block_cells (csize k)) bs))"
  have sp: "spaced st0" and cs0: "cell_size (arena_of k st0) = csize k" and room: "unat p + unat n * unat (csize k) < 2 ^ 48"
    and bin: "(p, n) \<in> set (arena_blocks (arena_of k st0))"
    using t Cons.prems(3) b by (auto simp: tidy_def)
  have cs: "cell_size (arena_of k st) = csize k"
    using cs0 Cons.prems(1) same_but_frame(9) [of k st0 st k] by (auto simp: swept_def keeps_def)
  have all: "set ?cs \<subseteq> cells_of k st0" "?rest \<subseteq> cells_of k st0" using Cons.prems(3) cs0 by (auto simp: cells_of_def arena_cells_def)
  then have in0: "set ?cs \<subseteq> cells_of k st0 - past" "distinct ?cs" using Cons.prems(4,5) by auto
  obtain st1 where s1: "sweep_cells D k ?cs (0, st) = Some (length (filter ?P ?cs), st1)"
    "swept k J st0 (past \<union> set ?cs) (rev (filter ?P ?cs) @ fr) st1"
    using cells_swept [OF t Cons.prems(1,2) in0, of 0] by auto
  have len: "length ?cs = unat (snd b)" by (simp add: block_cells_def)
  have past': "past \<union> set ?cs \<subseteq> cells_of k st0" "?rest \<inter> (past \<union> set ?cs) = {}"
    "distinct (concat (map (block_cells (csize k)) bs))" "set bs \<subseteq> set (arena_blocks (arena_of k st0))"
    using Cons.prems(2-5) all by auto
  show ?case
  proof (cases "bs \<noteq> [] \<and> length (filter ?P ?cs) = unat (snd b)")
    case True
    then have unm: "\<forall>c \<in> set ?cs. ?P c" using len length_filter_less [of _ ?cs ?P] by (metis nat_less_le)
    let ?st2 = "set_arena k ((arena_of k st1)\<lparr>free_cells := free_cells (arena_of k st)\<rparr>)
        (st1\<lparr>words := release (fst b) (csize k * snd b) (words st1)\<rparr>)"
    note rel = release_block [OF sp bin cs0 room, where W = "words st1"]
    have ks1: "keeps k (past \<union> set ?cs) st0 st1" using s1(2) by (simp add: swept_def)
    then have "same_but k st0 ?st2"
      using same_but_step [of k st0 st1 "(arena_of k st1)\<lparr>free_cells := free_cells (arena_of k st)\<rparr>", where B = "bcodes st1"]
      by (simp add: keeps_def)
    moreover have w2: "words ?st2 (d + y) = words st1 (d + y)"
      if "d \<in> cells_of k' st0" "y \<in> offsets k'" "k' = k \<longrightarrow> d \<notin> set ?cs" for d k' y
      using rel(1,2) [OF that(1,2)] that(3) b by (cases "k' = k") auto
    ultimately have "keeps k (past \<union> set ?cs) st0 ?st2" using ks1 unfolding keeps_def by (metis UnCI)
    moreover have "J st0 ((past \<union> set ?cs) \<inter> dead k st0) ?st2"
      by (rule frame [of _ _ st1]) (use s1(2) rel(3) b in \<open>simp_all add: swept_def\<close>)
    moreover have "chain (words ?st2) (free_cells (arena_of k st)) fr"
    proof (rule chain_words)
      show "chain (words st1) (free_cells (arena_of k st)) fr"
        using s1(2) Cons.prems(1) chain_suffix unfolding swept_def by metis
      show "\<forall>q \<in> set fr. words ?st2 q = words st1 q"
        using w2 [of _ k 0] Cons.prems(1,2) in0 by (fastforce simp: swept_def)
    qed
    moreover have at: "words ?st2 (c + x) = words st1 (c + x)" if "c \<in> past" "x \<in> offsets k" for c x
      using that Cons.prems(2) in0 by (intro w2 [of _ k]) auto
    have "\<forall>c \<in> (past \<union> set ?cs) \<inter> marked k st0. \<forall>x \<in> offsets k. words ?st2 (c + x) =
        (if x = 0 then map_option (\<lambda>w. w AND NOT 1) (words st0 c) else words st0 (c + x))"
    proof (intro ballI)
      fix c x assume c: "c \<in> (past \<union> set ?cs) \<inter> marked k st0" and x: "x \<in> offsets k"
      then have "words ?st2 (c + x) = words st1 (c + x)" using at unm by blast
      with c x s1(2) show "words ?st2 (c + x) =
          (if x = 0 then map_option (\<lambda>w. w AND NOT 1) (words st0 c) else words st0 (c + x))"
        unfolding swept_def by metis
    qed
    moreover have "\<forall>c \<in> set fr. \<forall>x \<in> offsets k. words ?st2 (c + x) \<noteq> None"
    proof (intro ballI)
      fix c x assume c: "c \<in> set fr" and x: "x \<in> offsets k"
      then have "words ?st2 (c + x) = words st1 (c + x)" using at Cons.prems(1) by (auto simp: swept_def)
      with c x s1(2) show "words ?st2 (c + x) \<noteq> None" by (auto simp: swept_def)
    qed
    moreover have "distinct fr" "set fr \<subseteq> (past \<union> set ?cs) - marked k st0" using Cons.prems(1) by (auto simp: swept_def)
    ultimately have sw2: "swept k J st0 (past \<union> set ?cs) fr ?st2"
      unfolding swept_def by (simp del: set_arena_fields)
    obtain kept fr' st' where IH: "sweep_blocks D k bs ?st2 = Some (kept, st')"
      "swept k J st0 (past \<union> set ?cs \<union> ?rest) (fr' @ fr) st'" "subseq kept bs"
      "set (concat (map (block_cells (csize k)) kept)) = set fr' \<union> (marked k st0 \<inter> ?rest)"
      using Cons.IH [OF sw2 past'(1,4,2,3)] by blast
    have "sweep_blocks D k (b # bs) st = Some (kept, st')"
      using True s1(1) IH(1) by (simp add: cs Let_def)
    moreover have "subseq kept (b # bs)" using IH(3) by (rule list_emb_Cons)
    ultimately show ?thesis using IH(2,4) unm by (auto simp: Un_assoc)
  next
    case False
    obtain kept fr' st' where IH: "sweep_blocks D k bs st1 = Some (kept, st')"
      "swept k J st0 (past \<union> set ?cs \<union> ?rest) (fr' @ rev (filter ?P ?cs) @ fr) st'" "subseq kept bs"
      "set (concat (map (block_cells (csize k)) kept)) = set fr' \<union> (marked k st0 \<inter> ?rest)"
      using Cons.IH [OF s1(2) past'(1,4,2,3)] by blast
    have "sweep_blocks D k (b # bs) st = Some (b # kept, st')"
      using False s1(1) IH(1) by (auto simp: cs Let_def)
    moreover have "swept k J st0 (past \<union> set (concat (map (block_cells (csize k)) (b # bs)))) ((fr' @ rev (filter ?P ?cs)) @ fr) st'"
      using IH(2) by (simp add: Un_assoc)
    moreover have "set (concat (map (block_cells (csize k)) (b # kept))) =
        set (fr' @ rev (filter ?P ?cs)) \<union> (marked k st0 \<inter> set (concat (map (block_cells (csize k)) (b # bs))))"
      using IH(4) by auto
    ultimately show ?thesis using IH(3) by (metis subseq_Cons2)
  qed
qed

theorem arena_swept:
  assumes ok: "sweepable k f st" and J: "J (opened_sweep k f st) {} (opened_sweep k f st)"
  obtains st' fr where "gc_sweep D k st = Some st'" "sweep_result k (marked k st) fr st st'"
    "J (opened_sweep k f st) (cells_of k st - marked k st - set f) st'"
proof -
  let ?o = "opened_sweep k f st"
  note o = opened [OF ok]
  have ar: "chain (words st) (free_cells (arena_of k st)) f" "distinct f" "cell_size (arena_of k st) = csize k"
    "distinct (arena_cells (arena_of k st))"
    using ok by (auto simp: sweepable_def arena_ok_def Let_def)
  have free: "mark_free_cells (free_cells (arena_of k st)) (words st) = Some (free_bits (set f) (words st))"
    by (rule free_cells_marked [OF ar(1,2)])
  have oa: "arena_blocks (arena_of k ?o) = arena_blocks (arena_of k st)" "cell_size (arena_of k ?o) = csize k"
    "free_cells (arena_of k ?o) = 0" using ar(3) by (simp_all add: opened_sweep_def)
  have self: "set_arena k (arena_of k ?o) (?o\<lparr>words := words ?o, bcodes := bcodes ?o\<rparr>) = ?o"
    by (simp add: opened_sweep_def)
  then have "same_but k ?o ?o" unfolding same_but_def by metis
  then have start: "swept k J ?o {} [] ?o" using J oa(3) by (simp add: swept_def keeps_def)
  have m: "marked k st \<subseteq> cells_of k st" by (auto simp: marked_def)
  have cells: "set (concat (map (block_cells (csize k)) (arena_blocks (arena_of k st)))) = cells_of k st"
    using ar(3) by (simp add: cells_of_def arena_cells_def)
  obtain kept fr st' where r: "sweep_blocks D k (arena_blocks (arena_of k st)) ?o = Some (kept, st')"
    "swept k J ?o (cells_of k st) fr st'" "subseq kept (arena_blocks (arena_of k st))"
    "set (concat (map (block_cells (csize k)) kept)) = set fr \<union> marked k st"
    using blocks_swept [OF o(1) start, of "arena_blocks (arena_of k st)"] ar(3,4) oa(1) m
    unfolding o(3) cells arena_cells_def by (auto simp del: set_concat simp: Int_absorb2)
  let ?st = "set_arena k ((arena_of k st')\<lparr>arena_blocks := kept\<rparr>) st'"
  have run: "gc_sweep D k st = Some ?st"
    using free r(1) by (simp add: gc_sweep_def Let_def opened_sweep_def)
  have ks: "keeps k (cells_of k st) ?o st'" using r(2) by (simp add: swept_def)
  then obtain a W B where st': "st' = set_arena k a (?o\<lparr>words := W, bcodes := B\<rparr>)" "cell_size a = csize k"
    using oa(2) by (auto simp: keeps_def same_but_def)
  have z: "cells_of k st \<inter> (cells_of k st - marked k st - set f) = cells_of k st - marked k st - set f" by blast
  show thesis
  proof (rule that [OF run])
    show "J ?o (cells_of k st - marked k st - set f) ?st"
      by (rule frame [of _ _ st']) (use r(2) in \<open>simp_all add: swept_def o(5) z\<close>)
    show "sweep_result k (marked k st) fr st ?st"
      unfolding sweep_result_def
    proof (intro conjI)
      have "?st = set_arena k (a\<lparr>arena_blocks := kept\<rparr>) (st\<lparr>words := W, bcodes := B\<rparr>)"
        by (simp add: st'(1) opened_sweep_def)
      then show "\<exists>a W B. ?st = set_arena k a (st\<lparr>words := W, bcodes := B\<rparr>) \<and>
          subseq (arena_blocks a) (arena_blocks (arena_of k st)) \<and> cell_size a = csize k"
        using r(3) st'(2) by (intro exI [of _ "a\<lparr>arena_blocks := kept\<rparr>"]) auto
      show "cells_of k ?st = set fr \<union> marked k st"
        using r(4) st' by (simp add: cells_of_def arena_cells_def)
      show "set fr \<inter> marked k st = {}" "distinct fr" using r(2) o(3) by (auto simp: swept_def)
      show "chain (words ?st) (free_cells (arena_of k ?st)) fr" using r(2) by (simp add: swept_def)
      show "\<forall>c \<in> set fr. \<forall>x \<in> offsets k. words ?st (c + x) \<noteq> None" using r(2) by (simp add: swept_def)
      show "\<forall>k'. \<forall>c \<in> cells_of k' st. \<forall>x \<in> offsets k'. k' \<noteq> k \<longrightarrow> words ?st (c + x) = words st (c + x)"
      proof (intro allI ballI impI)
        fix k' c x assume c: "c \<in> cells_of k' st" "x \<in> offsets k'" "k' \<noteq> k"
        have "words st' (c + x) = words ?o (c + x)" by (rule keeps_words [OF ks _ c(2)]) (use c o(2) in simp_all)
        also have "\<dots> = words st (c + x)" by (rule o(6) [OF c(2,1)]) (use c(3) in simp)
        finally show "words ?st (c + x) = words st (c + x)" by simp
      qed
      show "\<forall>c \<in> marked k st. \<forall>x \<in> offsets k. words ?st (c + x) =
          (if x = 0 then map_option (\<lambda>w. w AND NOT 1) (words st c) else words st (c + x))"
      proof (intro ballI)
        fix c x assume c: "c \<in> marked k st" and x: "x \<in> offsets k"
        have "words ?o c = words st c" "words ?o (c + x) = words st (c + x)"
          using o(6) [of 0 k c] o(6) [OF x, of c] c m o(4) by auto
        moreover have "words st' (c + x) = (if x = 0 then map_option (\<lambda>w. w AND NOT 1) (words ?o c) else words ?o (c + x))"
          using r(2) c x m o(3) unfolding swept_def by blast
        ultimately show "words ?st (c + x) =
          (if x = 0 then map_option (\<lambda>w. w AND NOT 1) (words st c) else words st (c + x))" by simp
      qed
    qed
  qed
qed

end

end
