(* ===== verification/GcDestroy.thy ===== *)
theory GcDestroy
  imports GcSweep
begin

text \<open>The three destructors keep the contract of the sweep: of properties, objects and functions.\<close>

subsection \<open>Properties\<close>

definition untouched :: "js \<Rightarrow> u64 set \<Rightarrow> js \<Rightarrow> bool" where
  "untouched st0 Z st \<longleftrightarrow> bcodes st = bcodes st0 \<and> (\<forall>a. outside_cells st0 a \<longrightarrow> words st a = words st0 a)"

interpretation property_sweep: destructor "\<lambda>p st. Some st" Property untouched
proof
  show "\<exists>W B. Some st = Some (st\<lparr>words := W, bcodes := B\<rparr>) \<and>
      (\<forall>k'. \<forall>d \<in> cells_of k' st0. \<forall>x \<in> offsets k'. W (d + x) = words st (d + x)) \<and>
      untouched st0 (insert c (past \<inter> dead Property st0)) (st\<lparr>words := W, bcodes := B\<rparr>)"
    if "untouched st0 (past \<inter> dead Property st0) st" for st0 past st c
    using that by (intro exI [of _ "words st"] exI [of _ "bcodes st"]) (simp add: untouched_def)
qed (simp add: untouched_def)

subsection \<open>Objects\<close>

text \<open>An object without a regular expression.\<close>

definition plain_object :: "js \<Rightarrow> u64 \<Rightarrow> bool" where
  "plain_object st c \<longleftrightarrow>
     (\<exists>a. obj_attributes (words st) c = Some a \<and> a AND V7_OBJ_DENSE_ARRAY = 0 \<and> a AND V7_OBJ_FUNCTION = 0) \<and>
     (\<exists>h ps. words st c = Some h \<and> chain (words st) h ps \<and> set ps \<subseteq> cells_of Property st \<and>
        (\<forall>p \<in> set ps. \<exists>a x v. prop_attributes (words st) p = Some a \<and> words st (p + 16) = Some x \<and>
           words st (p + 24) = Some v \<and> v AND V7_TAG_MASK \<noteq> V7_TAG_REGEXP))"

definition plainly :: "js \<Rightarrow> u64 set \<Rightarrow> js \<Rightarrow> bool" where
  "plainly st0 Z st \<longleftrightarrow> untouched st0 Z st \<and> (\<forall>c \<in> dead Generic_object st0. plain_object st0 c)"

lemma find_property_total:
  "chain W p ps \<Longrightarrow> \<forall>q \<in> set ps. test q \<noteq> None \<Longrightarrow>
    \<exists>r. find_property test W p = Some r \<and> (r = 0 \<or> r \<in> set ps)"
proof (induction ps arbitrary: p)
  case Nil
  then show ?case by (subst find_property.simps) simp
next
  case (Cons q ps)
  then obtain n ok where q: "p = q" "q \<noteq> 0" "W q = Some n" "chain W n ps" "test q = Some ok" by auto
  show ?case
  proof (cases ok)
    case True
    with q show ?thesis by (subst find_property.simps) simp
  next
    case False
    obtain r where "find_property test W n = Some r" "r = 0 \<or> r \<in> set ps" using Cons.IH [OF q(4)] Cons.prems(2) by auto
    with q False show ?thesis by (subst find_property.simps) auto
  qed
qed

lemma generic_destructor_plain:
  assumes "spaced st" "c \<in> cells_of Generic_object st" "plain_object st c"
  shows "generic_object_destructor E c st = Some st"
proof -
  obtain a h ps where o: "obj_attributes (words st) c = Some a" "a AND V7_OBJ_DENSE_ARRAY = 0" "a AND V7_OBJ_FUNCTION = 0"
    "words st c = Some h" "chain (words st) h ps"
    "\<forall>p \<in> set ps. \<exists>a x v. prop_attributes (words st) p = Some a \<and> words st (p + 16) = Some x \<and>
       words st (p + 24) = Some v \<and> v AND V7_TAG_MASK \<noteq> V7_TAG_REGEXP"
    using assms(3) unfolding plain_object_def by blast
  note small = cell_small [OF assms(1,2)]
  have v: "v7_object_to_value (words st) c = Some (tagged 0xFFFF c)"
    using o(1,3) small(1,4) pointer_to_value_user [of c] payload_small [of c] set_tag [of c]
    by (simp add: v7_object_to_value_def tags)
  obtain ss where ss: "v7_mk_string (other_memory E) (reallocator E) (Static []) 0 True (vm st) = Some (ss, vm st)"
    by (simp add: v7_mk_string_def NULL_def)
  let ?test = "\<lambda>p. do { x \<leftarrow> words st (p + 16); ok \<leftarrow> map_option (\<lambda>a. a AND V7_PROPERTY_HIDDEN \<noteq> 0) (prop_attributes (words st) p);
     Some (x = ss \<and> ok) }"
  have "\<forall>p \<in> set ps. ?test p \<noteq> None" using o(6) by fastforce
  from find_property_total [OF o(5) this]
  obtain r where r: "find_property ?test (words st) h = Some r" "r = 0 \<or> r \<in> set ps" by blast
  have "v7_is_object (tagged 0xFFFF c)" "payload (tagged 0xFFFF c) = c" using small(5) by (simp_all add: kinds)
  then have "v7_get_own_property2 E st (tagged 0xFFFF c) [] V7_PROPERTY_HIDDEN = Some r"
    using o(1,4) ss r(1) by (simp add: v7_get_own_property2_def to_object V7_PROPERTY_HIDDEN_def)
  with v r(2) o(1,2,6) show ?thesis by (fastforce simp: generic_object_destructor_def)
qed

lemma plain_object_kept:
  assumes sp: "spaced st0" and k: "keeps Generic_object past st0 st" and c: "c \<in> cells_of Generic_object st0 - past"
    and p: "plain_object st0 c"
  shows "plain_object st c"
proof -
  have cells: "cells_of k' st = cells_of k' st0" for k' using k same_but_frame(10) by (auto simp: keeps_def)
  have own: "words st (c + x) = words st0 (c + x)" if "x \<in> offsets Generic_object" for x
    by (rule keeps_words [OF k _ that]) (use c in simp_all)
  have pr: "words st (p + x) = words st0 (p + x)" if "p \<in> cells_of Property st0" "x \<in> offsets Property" for p x
    by (rule keeps_words [OF k that]) simp
  obtain h ps where ps: "words st0 c = Some h" "chain (words st0) h ps" "set ps \<subseteq> cells_of Property st0"
    "\<forall>p \<in> set ps. \<exists>a x v. prop_attributes (words st0) p = Some a \<and> words st0 (p + 16) = Some x \<and>
       words st0 (p + 24) = Some v \<and> v AND V7_TAG_MASK \<noteq> V7_TAG_REGEXP"
    using p unfolding plain_object_def by blast
  have "chain (words st) h ps" by (rule chain_words [OF ps(2)]) (use pr [of _ 0] ps(3) in auto)
  moreover have "\<exists>a x v. prop_attributes (words st) q = Some a \<and> words st (q + 16) = Some x \<and>
       words st (q + 24) = Some v \<and> v AND V7_TAG_MASK \<noteq> V7_TAG_REGEXP" if "q \<in> set ps" for q
    using ps(3,4) that pr [of q 8] pr [of q 16] pr [of q 24] by (auto simp: prop_attributes_def)
  ultimately show ?thesis
    using p ps(1,3) own [of 0] own [of 8] unfolding plain_object_def obj_attributes_def by (auto simp: cells)
qed

interpretation object_sweep: destructor "generic_object_destructor E" Generic_object plainly for E
proof
  fix st0 past st c
  assume t: "tidy Generic_object st0" and k: "keeps Generic_object past st0 st" and c: "c \<in> dead Generic_object st0 - past"
    and J: "plainly st0 (past \<inter> dead Generic_object st0) st"
  have sp: "spaced st0" using t by (simp add: tidy_def)
  have c': "c \<in> cells_of Generic_object st0 - past" using c by (simp add: dead_def)
  have cells: "cells_of k' st = cells_of k' st0" for k' using k same_but_frame(10) by (auto simp: keeps_def)
  have "plain_object st c" by (rule plain_object_kept [OF sp k c']) (use c J in \<open>simp add: plainly_def\<close>)
  moreover have "spaced st" using sp by (simp add: spaced_def cells)
  ultimately have "generic_object_destructor E c st = Some st" using c' cells by (intro generic_destructor_plain) simp_all
  then show "\<exists>W B. generic_object_destructor E c st = Some (st\<lparr>words := W, bcodes := B\<rparr>) \<and>
      (\<forall>k'. \<forall>d \<in> cells_of k' st0. \<forall>x \<in> offsets k'. W (d + x) = words st (d + x)) \<and>
      plainly st0 (insert c (past \<inter> dead Generic_object st0)) (st\<lparr>words := W, bcodes := B\<rparr>)"
    using J by (intro exI [of _ "words st"] exI [of _ "bcodes st"]) (simp add: plainly_def untouched_def)
qed (simp add: plainly_def untouched_def)

subsection \<open>Functions\<close>

definition holders :: "js \<Rightarrow> u64 set \<Rightarrow> u64 \<Rightarrow> u64 set" where
  "holders st Z b = {c \<in> Z. words st (c + 24) = Some b}"

text \<open>Every function counts in its byte code, and the literals that may be freed lie outside the cells.\<close>

definition counted :: "js \<Rightarrow> bool" where
  "counted st \<longleftrightarrow>
     bcodes st 0 = None \<and>
     (\<forall>c \<in> dead Function st. \<exists>b. words st (c + 24) = Some b \<and> (b = 0 \<or> bcodes st b \<noteq> None)) \<and>
     (\<forall>b bc. bcodes st b = Some bc \<longrightarrow> \<not> frozen bc \<longrightarrow>
        card (holders st (dead Function st) b) \<le> unat (refcnt bc) \<and>
        (\<forall>k. \<forall>c \<in> cells_of k st. \<forall>x \<in> offsets k. \<not> c + x - lit_p bc < lit_len bc))"

text \<open>The byte code left when the functions \<open>Z\<close> are gone.\<close>

definition left :: "js \<Rightarrow> u64 set \<Rightarrow> u64 \<Rightarrow> bcode option" where
  "left st Z b =
     (case bcodes st b of None \<Rightarrow> None
      | Some bc \<Rightarrow>
          (let n = card (holders st Z b) in
           if frozen bc \<or> n = 0 then Some bc
           else if unat (refcnt bc) \<le> n then None
           else Some (bc\<lparr>refcnt := refcnt bc - of_nat n\<rparr>)))"

definition released :: "js \<Rightarrow> u64 set \<Rightarrow> js \<Rightarrow> bool" where
  "released st0 Z st \<longleftrightarrow> counted st0 \<and> bcodes st = left st0 Z \<and>
     (\<forall>a. outside_cells st0 a \<longrightarrow>
        (\<forall>b bc. bcodes st0 b = Some bc \<longrightarrow> bcodes st b = None \<longrightarrow> \<not> a - lit_p bc < lit_len bc) \<longrightarrow>
        words st a = words st0 a)"

lemma holders_insert:
  "c \<notin> Z \<Longrightarrow> finite Z \<Longrightarrow> words st (c + 24) = Some b \<Longrightarrow>
     card (holders st (insert c Z) b') = (if b' = b then Suc (card (holders st Z b')) else card (holders st Z b'))"
proof -
  assume c: "c \<notin> Z" "finite Z" "words st (c + 24) = Some b"
  have "holders st (insert c Z) b' = (if b' = b then insert c (holders st Z b') else holders st Z b')"
    using c(3) by (auto simp: holders_def)
  with c(1,2) show ?thesis by (simp add: holders_def)
qed

lemma function_destroyed:
  assumes cnt: "counted st0" and Z: "Z \<subseteq> dead Function st0" "c \<in> dead Function st0 - Z" "c \<noteq> 0"
    and B: "bcodes st = left st0 Z" and w: "words st (c + 24) = words st0 (c + 24)"
  obtains W where "function_destructor c st = Some (st\<lparr>words := W, bcodes := left st0 (insert c Z)\<rparr>)"
    "W = words st \<or> (\<exists>b bc. bcodes st0 b = Some bc \<and> left st0 (insert c Z) b = None \<and> \<not> frozen bc \<and>
       W = release (lit_p bc) (lit_len bc) (words st))"
proof -
  have fin: "finite (dead Function st0)" by (simp add: dead_def cells_of_def)
  then have finZ: "finite Z" using Z(1) finite_subset by blast
  obtain b where b: "words st0 (c + 24) = Some b" "b = 0 \<or> bcodes st0 b \<noteq> None"
    using cnt Z(2) by (auto simp: counted_def)
  have card: "card (holders st0 (insert c Z) b') = (if b' = b then Suc (card (holders st0 Z b')) else card (holders st0 Z b'))" for b'
    by (rule holders_insert [OF _ finZ b(1)]) (use Z(2) in simp)
  have other: "left st0 (insert c Z) b' = left st0 Z b'" if "b' \<noteq> b \<or> bcodes st0 b' = None" for b'
    using that card [of b'] by (auto simp: left_def split: option.splits)
  show thesis
  proof (cases "b = 0")
    case True
    then have "left st0 (insert c Z) = bcodes st" unfolding B using other cnt by (intro ext) (metis counted_def)
    then have "function_destructor c st = Some (st\<lparr>words := words st, bcodes := left st0 (insert c Z)\<rparr>)"
      using Z(3) w b(1) True by (simp add: function_destructor_def)
    from that [OF this] show thesis by blast
  next
    case False
    then obtain bc where bc: "bcodes st0 b = Some bc" using b(2) by blast
    let ?n = "card (holders st0 Z b)"
    have run: "function_destructor c st = release_bcode b st" using Z(3) w b(1) False by (simp add: function_destructor_def)
    have upd: "(bcodes st)(b := x) = left st0 (insert c Z)" if "left st0 (insert c Z) b = x" for x
      using that other unfolding B by (intro ext) auto
    show thesis
    proof (cases "frozen bc")
      case True
      then have "left st0 (insert c Z) b = left st0 Z b" by (simp add: left_def bc)
      then have "left st0 (insert c Z) = bcodes st" unfolding B using other by (intro ext) metis
      moreover have "bcodes st b = Some bc" using True by (simp add: B left_def bc)
      ultimately have "function_destructor c st = Some (st\<lparr>words := words st, bcodes := left st0 (insert c Z)\<rparr>)"
        using True run by (simp add: release_bcode_def)
      from that [OF this] show thesis by blast
    next
      case unfrozen: False
      have "holders st0 (insert c Z) b \<subseteq> holders st0 (dead Function st0) b" using Z by (auto simp: holders_def)
      moreover have "finite (holders st0 (dead Function st0) b)" using fin by (simp add: holders_def)
      ultimately have "card (holders st0 (insert c Z) b) \<le> card (holders st0 (dead Function st0) b)" by (intro card_mono)
      then have "Suc ?n \<le> card (holders st0 (dead Function st0) b)" using card [of b] by simp
      then have n: "Suc ?n \<le> unat (refcnt bc)" using cnt bc unfrozen by (force simp: counted_def)
      define r where "r = refcnt bc - of_nat ?n"
      have "unat (refcnt bc) < 256" using unsigned_less [of "refcnt bc"] by simp
      then have u: "unat (of_nat ?n :: u8) = ?n" using n by (simp add: unat_of_nat)
      then have ur: "unat r = unat (refcnt bc) - ?n" using n by (simp add: r_def unat_sub word_le_nat_alt)
      have now: "bcodes st b = Some (bc\<lparr>refcnt := r\<rparr>)" using n unfrozen by (auto simp: B left_def bc r_def Let_def)
      have r0: "r \<noteq> 0" using ur n by auto
      have r1: "r - 1 = refcnt bc - of_nat (Suc ?n)" by (simp add: r_def)
      show thesis
      proof (cases "unat (refcnt bc) = Suc ?n")
        case True
        then have "r - 1 = 0" using ur by (metis diff_add_inverse2 plus_1_eq_Suc right_minus_eq unat_1 word_unat_eq_iff)
        moreover have l: "left st0 (insert c Z) b = None" using card [of b] True unfrozen by (simp add: left_def bc Let_def)
        ultimately have "function_destructor c st =
            Some (st\<lparr>words := release (lit_p bc) (lit_len bc) (words st), bcodes := left st0 (insert c Z)\<rparr>)"
          using unfrozen r0 by (simp add: run release_bcode_def now bcode_free_def upd [OF l])
        then show thesis by (rule that) (use bc l unfrozen in blast)
      next
        case False
        then have "unat r \<noteq> 1" using ur n by simp
        then have rm: "r - 1 \<noteq> 0" by (metis right_minus_eq unat_1)
        have l: "left st0 (insert c Z) b = Some (bc\<lparr>refcnt := r - 1\<rparr>)"
          using card [of b] False unfrozen n unfolding r1 by (simp add: left_def bc Let_def)
        have "function_destructor c st = Some (st\<lparr>words := words st, bcodes := left st0 (insert c Z)\<rparr>)"
          using unfrozen r0 rm by (simp add: run release_bcode_def now upd [OF l])
        from that [OF this] show thesis by blast
      qed
    qed
  qed
qed

interpretation function_sweep: destructor function_destructor Function released
proof
  fix st0 past st c
  assume t: "tidy Function st0" and k: "keeps Function past st0 st" and c: "c \<in> dead Function st0 - past"
    and J: "released st0 (past \<inter> dead Function st0) st"
  let ?Z = "past \<inter> dead Function st0"
  have sp: "spaced st0" using t by (simp add: tidy_def)
  have c': "c \<in> cells_of Function st0 - past" using c by (simp add: dead_def)
  have c0: "c \<noteq> 0" using cell_small(1) [OF sp] c' by blast
  have w: "words st (c + 24) = words st0 (c + 24)" by (rule keeps_words [OF k, of _ Function]) (use c' in simp_all)
  have J': "counted st0" "bcodes st = left st0 ?Z" using J by (simp_all add: released_def)
  have cZ: "c \<in> dead Function st0 - ?Z" using c by blast
  obtain W where W: "function_destructor c st = Some (st\<lparr>words := W, bcodes := left st0 (insert c ?Z)\<rparr>)"
    "W = words st \<or> (\<exists>b bc. bcodes st0 b = Some bc \<and> left st0 (insert c ?Z) b = None \<and> \<not> frozen bc \<and>
       W = release (lit_p bc) (lit_len bc) (words st))"
    by (rule function_destroyed [OF J'(1) _ cZ c0 J'(2) w]) simp
  have "W (d + x) = words st (d + x)" if d: "d \<in> cells_of k' st0" "x \<in> offsets k'" for d k' x
  proof -
    have "\<not> d + x - lit_p bc < lit_len bc" if "bcodes st0 b = Some bc" "\<not> frozen bc" for b bc
      using J'(1) that d unfolding counted_def by blast
    with W(2) show ?thesis by (auto simp: release_def)
  qed
  moreover have "released st0 (insert c ?Z) (st\<lparr>words := W, bcodes := left st0 (insert c ?Z)\<rparr>)"
    unfolding released_def
  proof (intro conjI allI impI)
    fix a
    assume a: "outside_cells st0 a"
      and n: "\<forall>b bc. bcodes st0 b = Some bc \<longrightarrow> bcodes (st\<lparr>words := W, bcodes := left st0 (insert c ?Z)\<rparr>) b = None \<longrightarrow>
         \<not> a - lit_p bc < lit_len bc"
    have gone: "left st0 (insert c ?Z) b = None" if "left st0 ?Z b = None" for b
    proof -
      have "card (holders st0 ?Z b) \<le> card (holders st0 (insert c ?Z) b)"
        by (rule card_mono) (auto simp: holders_def dead_def cells_of_def)
      with that show ?thesis by (auto simp: left_def Let_def split: option.splits if_splits)
    qed
    have "W a = words st a" using W(2) n by (auto simp: release_def)
    also have "\<dots> = words st0 a" using J a n gone unfolding released_def by auto
    finally show "words (st\<lparr>words := W, bcodes := left st0 (insert c ?Z)\<rparr>) a = words st0 a" by simp
  qed (use J'(1) in simp_all)
  ultimately show "\<exists>W B. function_destructor c st = Some (st\<lparr>words := W, bcodes := B\<rparr>) \<and>
      (\<forall>k'. \<forall>d \<in> cells_of k' st0. \<forall>x \<in> offsets k'. W (d + x) = words st (d + x)) \<and>
      released st0 (insert c ?Z) (st\<lparr>words := W, bcodes := B\<rparr>)"
    using W(1) by blast
qed (auto simp: released_def)

end
