(* ===== verification/GcSweeps.thy ===== *)
theory GcSweeps
  imports GcDestroy
begin

text \<open>
  The compaction of the strings after marking, and the three sweeps after it, one arena after the other.
\<close>

subsection \<open>The strings\<close>

lemma compact_loop_frame:
  "compact_loop stop p head (v, W) = Some (h, v', W') \<Longrightarrow>
     owned_values v' = owned_values v \<and> foreign_strings v' = foreign_strings v"
proof (induction stop p head "(v, W)" arbitrary: v W rule: compact_loop.induct)
  case (1 stop p head v W)
  show ?case
    using "1.prems" "1.hyps"
    by (subst (asm) compact_loop.simps)
      (auto simp: Let_def next_asn_eq bind_eq_Some_conv split: if_splits prod.splits)
qed

lemma strings_compacted:
  assumes ok: "heap_ok ss fl pl st0" and mk: "marking ss fl st0 X S st"
    and small: "length (packed ss) < 2 ^ 31" "length ss < 65536"
  obtains v W ss1 where "compact_strings st = Some (st0\<lparr>vm := v, words := W\<rparr>)" "strings_ok v ss1" "subseq ss1 ss"
    "\<And>a. a \<notin> set S \<or> (\<exists>x. words st0 a = Some x \<and> tag_of x \<noteq> 0xFFF8) \<Longrightarrow> W a = mark_bits X (words st0) a"
    "\<And>a x s. a \<in> set S \<Longrightarrow> words st0 a = Some x \<Longrightarrow> live (vm st0) ss x s \<Longrightarrow> \<exists>y. W a = Some y \<and> live v ss1 y s"
    "set ss1 = {ss ! i | i. i < length ss \<and> (\<exists>a \<in> set S. refers ss (words st0) a i)}"
    "owned_values v = owned_values (vm st0)"
proof -
  let ?W = "mark_bits X (words st0)"
  obtain v1 W1 where m: "gc_mark_strings S (vm st0, words st0) = Some (v1, W1)"
    and st: "st = st0\<lparr>vm := v1, words := mark_bits X W1\<rparr>" and S: "\<forall>a \<in> set S. slot ss fl st0 a"
    using mk by (auto simp: marking_def marked_by_def)
  have "X \<subseteq> heads fl st0" using mk by (simp add: marking_def)
  then have SX: "a \<notin> X" if "a \<in> set S" for a using slot_no_head [OF heap_okD(2) [OF ok]] S that by blast
  then have same: "?W a = words st0 a" if "a \<in> set S" for a using that by simp
  have "set S \<inter> X = {}" using SX by blast
  from mark_strings_bits [OF this m] have m': "gc_mark_strings S (vm st0, ?W) = Some (v1, mark_bits X W1)" .
  have able: "\<forall>a \<in> set S. markable ss (vm st0) ?W a" using S markable_slot same by (fastforce simp: markable_def)
  obtain v W ss1 where r: "gc_strings A S False (vm st0, ?W) = Some (v, W)" "strings_ok v ss1" "subseq ss1 ss"
    "\<And>a x s. a \<in> set S \<Longrightarrow> ?W a = Some x \<Longrightarrow> live (vm st0) ss x s \<Longrightarrow> \<exists>y. W a = Some y \<and> live v ss1 y s"
    "\<And>a. a \<notin> set S \<or> (\<exists>x. ?W a = Some x \<and> tag_of x \<noteq> 0xFFF8) \<Longrightarrow> W a = ?W a"
    "set ss1 = {ss ! i | i. i < length ss \<and> (\<exists>a \<in> set S. refers ss ?W a i)}"
    by (rule gc_strings_spec [OF heap_okD(1) [OF ok] small able, where A = A]) (rule that, assumption+)
  have c: "gc_compact_strings (v1, mark_bits X W1) = Some (v, W)"
    using r(1) m' by (auto simp: gc_strings_def Let_def bind_eq_Some_conv)
  have ov: "owned_values v = owned_values v1"
    using c compact_loop_frame by (fastforce simp: gc_compact_strings_def Let_def bind_eq_Some_conv split: prod.splits)
  have ref: "refers ss ?W a i \<longleftrightarrow> refers ss (words st0) a i" if "a \<in> set S" for a i
    using same [OF that] by (simp add: refers_def)
  show thesis
  proof (rule that [OF _ r(2,3)])
    show "compact_strings st = Some (st0\<lparr>vm := v, words := W\<rparr>)" using c by (simp add: compact_strings_def st)
    show "owned_values v = owned_values (vm st0)" using ov marking_owned [OF heap_okD(1) [OF ok] mk] by (simp add: st)
    show "set ss1 = {ss ! i | i. i < length ss \<and> (\<exists>a \<in> set S. refers ss (words st0) a i)}"
      unfolding r(6) using ref by blast
    show "\<exists>y. W a = Some y \<and> live v ss1 y s" if "a \<in> set S" "words st0 a = Some x" "live (vm st0) ss x s" for a x s
      by (rule r(4) [OF that(1) _ that(3)]) (simp only: same [OF that(1)] that(2))
    show "W a = ?W a" if "a \<notin> set S \<or> (\<exists>x. words st0 a = Some x \<and> tag_of x \<noteq> 0xFFF8)" for a
      by (rule r(5)) (use that same [of a] in \<open>cases "a \<in> set S"; simp\<close>)
  qed
qed

subsection \<open>Before the sweeps\<close>

lemma chain_next: "chain W p qs \<Longrightarrow> q \<in> set qs \<Longrightarrow> \<exists>n. W q = Some n \<and> (n = 0 \<or> n \<in> set qs)"
proof (induction qs arbitrary: p)
  case (Cons r qs)
  then obtain n where n: "W r = Some n" "chain W n qs" by auto
  show ?case
  proof (cases "q = r")
    case True
    then show ?thesis using n by (cases qs) auto
  next
    case False
    then show ?thesis using Cons.IH [OF n(2)] Cons.prems(2) by auto
  qed
qed simp

lemma arena_okD:
  assumes "arena_ok k f st"
  shows "cell_size (arena_of k st) = csize k" "chain (words st) (free_cells (arena_of k st)) f" "distinct f"
    "set f \<subseteq> cells_of k st" "c \<in> cells_of k st \<Longrightarrow> x \<in> offsets k \<Longrightarrow> \<exists>w. words st (c + x) = Some w"
    "distinct (arena_cells (arena_of k st))"
    "(b, n) \<in> set (arena_blocks (arena_of k st)) \<Longrightarrow> unat b + unat n * unat (csize k) < 2 ^ 48"
  using assms by (auto simp: arena_ok_def Let_def)

lemma head_bits:
  assumes ok: "heap_ok ss fl pl st" and c: "c \<in> cells_of k st" and w: "words st c = Some w"
  shows "w AND 3 = 0"
proof (cases "c \<in> set (fl k)")
  case True
  note a = arena_okD [OF heap_okD(3) [OF ok, of k]]
  obtain n where "words st c = Some n" "n = 0 \<or> n \<in> set (fl k)" using chain_next [OF a(2) True] by blast
  then have "w = 0 \<or> w \<in> cells_of k st" using a(4) w by auto
  then have "w AND 7 = 0" using cell_small(2) [OF heap_okD(2) [OF ok]] by auto
  then have "(w AND 7) AND 3 = 0" by simp
  then show ?thesis by (simp add: and.assoc)
next
  case False
  then have u: "c \<in> used fl st k" using c by (simp add: used_def)
  show ?thesis
  proof (cases "k = Property")
    case True
    then show ?thesis using heap_okD(4) [OF ok, of c] u w by (auto simp: prop_ok_def)
  next
    case False
    then have "c \<in> objs fl st" using u by (cases k) auto
    then show ?thesis using heap_okD(5) [OF ok, of c] w by (auto simp: obj_ok_def)
  qed
qed

text \<open>Arena \<open>k\<close> is as in \<open>st0\<close>, but for the marks.\<close>

definition unswept :: "js \<Rightarrow> u64 set \<Rightarrow> arena_kind \<Rightarrow> js \<Rightarrow> bool" where
  "unswept st0 X k st \<longleftrightarrow> spaced st \<and> arena_of k st = arena_of k st0 \<and>
     (\<forall>c \<in> cells_of k st0. words st c = mark_bits X (words st0) c) \<and>
     (\<forall>c \<in> cells_of k st0. \<forall>x \<in> offsets k. words st (c + x) \<noteq> None)"

lemma or1_bits: "w AND 3 = 0 \<Longrightarrow> (w OR 1) AND 1 \<noteq> 0 \<and> (w OR 1) AND 2 = 0 \<and> (w OR 1) AND NOT 1 = (w :: u64)"
proof -
  assume "w AND 3 = 0"
  then have w: "w AND 1 = 0" "w AND 2 = 0" by (simp_all add: and3)
  then have "w AND NOT 1 = w" using bit.conj_disj_distrib [of w 1 "NOT 1"] by simp
  then show ?thesis using w by (simp add: bit.conj_disj_distrib2)
qed

lemma unswept_sweepable:
  assumes ok: "heap_ok ss fl pl st0" and X: "X \<subseteq> heads fl st0" and u: "unswept st0 X k st"
  shows "sweepable k (fl k) st" "marked k st = X \<inter> cells_of k st0" "cells_of k st = cells_of k st0"
    "cells_of k st - marked k st - set (fl k) = used fl st0 k - X" "X \<inter> set (fl k) = {}"
proof -
  note a = arena_okD [OF heap_okD(3) [OF ok, of k]]
  have ar: "arena_of k st = arena_of k st0" "spaced st" using u by (simp_all add: unswept_def)
  then show cells: "cells_of k st = cells_of k st0" by (simp add: cells_of_def)
  have Xk: "X \<inter> cells_of k st0 \<subseteq> used fl st0 k"
  proof
    fix c assume c: "c \<in> X \<inter> cells_of k st0"
    then obtain k' where k': "c \<in> used fl st0 k'" using X by blast
    then have "c \<in> cells_of k' st0" by (rule used_cells)
    then have "k' = k" using spacedD(1) [OF heap_okD(2) [OF ok], of c k' c k 0 0] c by simp
    with k' show "c \<in> used fl st0 k" by simp
  qed
  then show Xf: "X \<inter> set (fl k) = {}" using a(4) by (auto simp: used_def)
  have head: "\<exists>w. words st0 c = Some w \<and> w AND 3 = 0 \<and> words st c = Some (if c \<in> X then w OR 1 else w)"
    if c: "c \<in> cells_of k st0" for c
  proof -
    obtain w where w: "words st0 c = Some w" using a(5) [OF c offsets_0(1)] by auto
    then show ?thesis using head_bits [OF ok c w] u c by (auto simp: unswept_def mark_bits_def)
  qed
  have "c \<in> marked k st \<longleftrightarrow> c \<in> X \<inter> cells_of k st0" for c
    using head [of c] or1_bits by (cases "c \<in> cells_of k st0"; cases "c \<in> X") (auto simp: marked_def cells and3)
  then show m: "marked k st = X \<inter> cells_of k st0" by blast
  show "cells_of k st - marked k st - set (fl k) = used fl st0 k - X"
    unfolding m cells by (auto simp: used_def)
  have "chain (words st) (free_cells (arena_of k st)) (fl k)"
    unfolding ar(1) by (rule chain_words [OF a(2)]) (use u a(4) Xf in \<open>force simp: unswept_def mark_bits_def disjoint_iff subset_iff\<close>)
  then have "arena_ok k (fl k) st"
    using a u unfolding arena_ok_def Let_def ar(1) cells by (auto simp: unswept_def)
  moreover have "w AND 3 = 0" if "c \<in> set (fl k)" "words st c = Some w" for c w
    using head [of c] that a(4) Xf by (auto simp: disjoint_iff subset_iff)
  moreover have "w AND 2 = 0" if "c \<in> cells_of k st - set (fl k)" "words st c = Some w" for c w
    using head [of c] that or1_bits by (auto simp: cells and3 split: if_splits)
  ultimately show "sweepable k (fl k) st" using ar(2) by (auto simp: sweepable_def)
qed

subsection \<open>From sweep to sweep\<close>

text \<open>An arena that has not been swept yet, and one that has.\<close>

definition waiting :: "js \<Rightarrow> cells \<Rightarrow> arena_kind \<Rightarrow> js \<Rightarrow> bool" where
  "waiting st0 W k st \<longleftrightarrow> spaced st \<and> arena_of k st = arena_of k st0 \<and>
     (\<forall>c \<in> cells_of k st0. \<forall>x \<in> offsets k. words st (c + x) = W (c + x))"

definition swept_arena :: "js \<Rightarrow> u64 set \<Rightarrow> cells \<Rightarrow> arena_kind \<Rightarrow> u64 list \<Rightarrow> js \<Rightarrow> bool" where
  "swept_arena st0 X W k fr st \<longleftrightarrow>
     subseq (arena_blocks (arena_of k st)) (arena_blocks (arena_of k st0)) \<and> cell_size (arena_of k st) = csize k \<and>
     cells_of k st = set fr \<union> X \<inter> cells_of k st0 \<and> set fr \<inter> X = {} \<and> distinct fr \<and>
     chain (words st) (free_cells (arena_of k st)) fr \<and>
     (\<forall>c \<in> X \<inter> cells_of k st0. words st c = words st0 c \<and> (\<forall>x \<in> offsets k. x \<noteq> 0 \<longrightarrow> words st (c + x) = W (c + x))) \<and>
     (\<forall>c \<in> set fr. \<forall>x \<in> offsets k. words st (c + x) \<noteq> None)"

definition marked_words :: "js \<Rightarrow> u64 set \<Rightarrow> cells \<Rightarrow> bool" where
  "marked_words st0 X W \<longleftrightarrow>
     (\<forall>k. \<forall>c \<in> cells_of k st0. W c = mark_bits X (words st0) c \<and> (\<forall>x \<in> offsets k. W (c + x) \<noteq> None))"

lemma waiting_unswept: "marked_words st0 X W \<Longrightarrow> waiting st0 W k st \<Longrightarrow> unswept st0 X k st"
proof -
  assume W: "marked_words st0 X W" and wt: "waiting st0 W k st"
  have "words st c = mark_bits X (words st0) c" if "c \<in> cells_of k st0" for c
  proof -
    have "words st (c + 0) = W (c + 0)" using wt that offsets_0(1) unfolding waiting_def by blast
    then show ?thesis using W that by (simp add: marked_words_def)
  qed
  then show ?thesis using W wt by (simp add: marked_words_def waiting_def unswept_def)
qed

lemma subseq_cells: "subseq bs bs' \<Longrightarrow> subseq (concat (map f bs)) (concat (map f bs'))"
proof (induction rule: list_emb.induct)
  case (list_emb_Cons xs ys y)
  then show ?case by (auto intro: subseq_order.trans [OF _ list_emb_append2 [OF subseq_order.refl]])
next
  case (list_emb_Cons2 x y xs ys)
  then show ?case by (auto intro: list_emb_append_mono)
qed simp

lemma sweep_resultD:
  assumes "sweep_result k M fr st st'"
  shows "k' \<noteq> k \<Longrightarrow> arena_of k' st' = arena_of k' st" "k' \<noteq> k \<Longrightarrow> cells_of k' st' = cells_of k' st"
    "k' \<noteq> k \<Longrightarrow> c \<in> cells_of k' st \<Longrightarrow> x \<in> offsets k' \<Longrightarrow> words st' (c + x) = words st (c + x)"
    "vm st' = vm st" "vals st' = vals st" "call_stack st' = call_stack st" "stack st' = stack st"
    "tmp_stack st' = tmp_stack st" "act_bcodes st' = act_bcodes st"
    "subseq (arena_blocks (arena_of k st')) (arena_blocks (arena_of k st))" "cell_size (arena_of k st') = csize k"
proof -
  obtain a W B where st': "st' = set_arena k a (st\<lparr>words := W, bcodes := B\<rparr>)"
    and a: "subseq (arena_blocks a) (arena_blocks (arena_of k st))" "cell_size a = csize k"
    using assms unfolding sweep_result_def by blast
  show "vm st' = vm st" "vals st' = vals st" "call_stack st' = call_stack st" "stack st' = stack st"
    "tmp_stack st' = tmp_stack st" "act_bcodes st' = act_bcodes st" "k' \<noteq> k \<Longrightarrow> arena_of k' st' = arena_of k' st"
    "subseq (arena_blocks (arena_of k st')) (arena_blocks (arena_of k st))" "cell_size (arena_of k st') = csize k"
    by (simp_all add: st' a)
  then show "k' \<noteq> k \<Longrightarrow> cells_of k' st' = cells_of k' st" by (simp add: cells_of_def)
  show "k' \<noteq> k \<Longrightarrow> c \<in> cells_of k' st \<Longrightarrow> x \<in> offsets k' \<Longrightarrow> words st' (c + x) = words st (c + x)"
    using assms unfolding sweep_result_def by blast
qed

lemma sweep_cells_less: "sweep_result k M fr st st' \<Longrightarrow> cell_size (arena_of k st) = csize k \<Longrightarrow> cells_of k' st' \<subseteq> cells_of k' st"
proof (cases "k' = k")
  case True
  assume r: "sweep_result k M fr st st'" "cell_size (arena_of k st) = csize k"
  have "subseq (arena_cells (arena_of k st')) (arena_cells (arena_of k st))"
    using sweep_resultD(10,11) [OF r(1)] r(2) unfolding arena_cells_def by (auto intro: subseq_cells)
  then show ?thesis unfolding True cells_of_def by (auto dest: list_emb_set)
qed (use sweep_resultD(2) in blast)

lemma spaced_less: "spaced st \<Longrightarrow> (\<And>k. cells_of k st' \<subseteq> cells_of k st) \<Longrightarrow> spaced st'"
  unfolding spaced_def by blast

lemma waiting_sweep:
  assumes "waiting st0 W k st" "sweep_result k' M fr st st'" "cell_size (arena_of k' st) = csize k'" "k' \<noteq> k"
  shows "waiting st0 W k st'"
proof -
  have "spaced st'" by (rule spaced_less [OF _ sweep_cells_less [OF assms(2,3)]]) (use assms(1) in \<open>simp add: waiting_def\<close>)
  moreover have "cells_of k st = cells_of k st0" using assms(1) by (simp add: waiting_def cells_of_def)
  ultimately show ?thesis using assms(1,4) sweep_resultD(1,3) [OF assms(2), of k] by (simp add: waiting_def)
qed

lemma swept_sweep:
  assumes s: "swept_arena st0 X W k fr st" and r: "sweep_result k' M fr' st st'" and k: "k' \<noteq> k"
  shows "swept_arena st0 X W k fr st'"
proof -
  have w: "words st' (c + x) = words st (c + x)" if "c \<in> cells_of k st" "x \<in> offsets k" for c x
    by (rule sweep_resultD(3) [OF r _ that]) (use k in simp)
  have ar: "arena_of k st' = arena_of k st" by (rule sweep_resultD(1) [OF r]) (use k in simp)
  have in_cells: "set fr \<subseteq> cells_of k st" "X \<inter> cells_of k st0 \<subseteq> cells_of k st" using s by (auto simp: swept_arena_def)
  have w0: "words st' c = words st c" if "c \<in> cells_of k st" for c using w [OF that offsets_0(1)] by simp
  have "chain (words st') (free_cells (arena_of k st')) fr"
    unfolding ar by (rule chain_words [of "words st"]) (use s w0 in_cells in \<open>auto simp: swept_arena_def\<close>)
  with s show ?thesis
    using w w0 in_cells unfolding swept_arena_def cells_of_def ar by (auto simp: subset_iff)
qed

lemma sweep_swept:
  assumes ok: "heap_ok ss fl pl st0" and X: "X \<subseteq> heads fl st0" and W: "marked_words st0 X W"
    and wt: "waiting st0 W k st" and r: "sweep_result k (marked k st) fr st st'"
  shows "swept_arena st0 X W k fr st'"
proof -
  note u = unswept_sweepable [OF ok X waiting_unswept [OF W wt]]
  have "words st c = mark_bits X (words st0) c" if "c \<in> cells_of k st0" for c
    using waiting_unswept [OF W wt] that by (simp add: unswept_def)
  moreover have "\<exists>w. words st0 c = Some w \<and> w AND 3 = 0" if "c \<in> cells_of k st0" for c
    using arena_okD(5) [OF heap_okD(3) [OF ok] that offsets_0(1)] head_bits [OF ok that] by auto
  ultimately have head: "map_option (\<lambda>w. w AND NOT 1) (words st c) = words st0 c" if "c \<in> X \<inter> cells_of k st0" for c
    using that or1_bits by (fastforce simp: mark_bits_def)
  have ar: "arena_of k st = arena_of k st0" "\<forall>c \<in> cells_of k st0. \<forall>x \<in> offsets k. words st (c + x) = W (c + x)"
    using wt by (simp_all add: waiting_def)
  have cells: "cells_of k st' \<subseteq> cells_of k st0"
    using sweep_cells_less [OF r, of k] arena_okD(1) [OF heap_okD(3) [OF ok]] u(3) ar(1) by simp
  have "words st' c = words st0 c \<and> (\<forall>x \<in> offsets k. x \<noteq> 0 \<longrightarrow> words st' (c + x) = W (c + x))"
    if c: "c \<in> X \<inter> cells_of k st0" for c
  proof -
    have m: "c \<in> marked k st" using c u(2) by simp
    have "words st' (c + x) = (if x = 0 then map_option (\<lambda>w. w AND NOT 1) (words st c) else words st (c + x))"
      if "x \<in> offsets k" for x using r m that unfolding sweep_result_def by blast
    from this [of 0] this show ?thesis using head [OF c] ar(2) c by simp
  qed
  moreover have "set fr \<inter> X = {}" "cells_of k st' = set fr \<union> X \<inter> cells_of k st0"
    using r cells unfolding sweep_result_def u(2) by blast+
  ultimately show ?thesis
    using r sweep_resultD(10,11) [OF r] unfolding swept_arena_def sweep_result_def ar(1) by blast
qed

subsection \<open>The three sweeps\<close>

text \<open>A function counts once in its byte code, and so does a running activation. The literals that may be
  freed overlap with nothing else.\<close>

definition literals_ok :: "(arena_kind \<Rightarrow> u64 list) \<Rightarrow> js \<Rightarrow> bool" where
  "literals_ok fl st \<longleftrightarrow>
     bcodes st 0 = None \<and>
     (\<forall>b bc. bcodes st b = Some bc \<longrightarrow> \<not> frozen bc \<longrightarrow>
        card (holders st (used fl st Function) b) + count_list (mbuf_pointers (act_bcodes st)) b \<le> unat (refcnt bc) \<and>
        (\<forall>k. \<forall>c \<in> cells_of k st. \<forall>x \<in> offsets k. \<not> c + x - lit_p bc < lit_len bc) \<and>
        (\<forall>a \<in> set (root_slots st). a - lit_p bc < lit_len bc \<longrightarrow> b \<in> set (mbuf_pointers (act_bcodes st))) \<and>
        (\<forall>b'. b' \<noteq> b \<longrightarrow> (\<forall>a \<in> set (bcode_slots st b'). \<not> a - lit_p bc < lit_len bc)))"

lemma opened_outside:
  assumes "sweepable k f st"
  shows "outside_cells (opened_sweep k f st) a = outside_cells st a"
    "outside_cells st a \<Longrightarrow> words (opened_sweep k f st) a = words st a" "bcodes (opened_sweep k f st) = bcodes st"
    "keeps k (set f) st (opened_sweep k f st)"
proof -
  show o: "outside_cells (opened_sweep k f st) a = outside_cells st a" by (simp add: outside_cells_def opened(2) [OF assms])
  show "bcodes (opened_sweep k f st) = bcodes st" by (simp add: opened_sweep_def)
  have f: "set f \<subseteq> cells_of k st" using assms by (auto simp: sweepable_def arena_ok_def Let_def)
  show "words (opened_sweep k f st) a = words st a" if out: "outside_cells st a"
  proof -
    have "a \<noteq> c + 0" if "c \<in> set f" for c using that f out offsets_0(1) unfolding outside_cells_def by blast
    then have "a \<notin> set f" by auto
    then show ?thesis by (simp add: opened_sweep_def free_bits_def)
  qed
  have "opened_sweep k f st = set_arena k ((arena_of k st)\<lparr>alive := 0, free_cells := 0\<rparr>)
      (st\<lparr>words := free_bits (set f) (words st), bcodes := bcodes st\<rparr>)"
    by (simp add: opened_sweep_def)
  then have "same_but k st (opened_sweep k f st)" unfolding same_but_def
    by (intro exI [of _ "(arena_of k st)\<lparr>alive := 0, free_cells := 0\<rparr>"] exI [of _ "free_bits (set f) (words st)"]
      exI [of _ "bcodes st"]) simp
  then show "keeps k (set f) st (opened_sweep k f st)"
    using opened(6) [OF assms] by (simp add: keeps_def)
qed

lemma outside_less: "outside_cells st a \<Longrightarrow> (\<And>k. cells_of k st' \<subseteq> cells_of k st) \<Longrightarrow> outside_cells st' a"
  unfolding outside_cells_def by blast

lemma functions_counted:
  assumes ok: "heap_ok ss fl pl st0" and X: "X \<subseteq> heads fl st0" and W: "marked_words st0 X W" and lit: "literals_ok fl st0"
    and wt: "waiting st0 W Function st" and b: "bcodes st = bcodes st0" and less: "\<And>k. cells_of k st \<subseteq> cells_of k st0"
    and fields: "\<And>c. c \<in> cells_of Function st0 \<Longrightarrow> W (c + 24) = words st0 (c + 24)"
  defines "ost \<equiv> opened_sweep Function (fl Function) st"
  shows "counted ost" "left ost (used fl st0 Function - X) = left st0 (used fl st0 Function - X)"
    "dead Function ost = used fl st0 Function - X" "bcodes ost = bcodes st0"
proof -
  note u = unswept_sweepable [OF ok X waiting_unswept [OF W wt]]
  note o = opened [OF u(1)]
  show bo: "bcodes ost = bcodes st0" unfolding ost_def opened_outside(3) [OF u(1)] by (rule b)
  show dd: "dead Function ost = used fl st0 Function - X" unfolding ost_def o(5) by (rule u(4))
  have w24: "words ost (c + 24) = words st0 (c + 24)" if "c \<in> cells_of Function st0" for c
  proof -
    have "words ost (c + 24) = words st (c + 24)" unfolding ost_def by (rule o(6) [of _ Function]) (use that u(3) in simp_all)
    also have "\<dots> = W (c + 24)" using wt that by (simp add: waiting_def)
    finally show ?thesis using fields [OF that] by simp
  qed
  have h: "holders ost (used fl st0 Function - X) b = holders st0 (used fl st0 Function - X) b" for b
    using w24 by (auto simp: holders_def dest: used_cells)
  show "left ost (used fl st0 Function - X) = left st0 (used fl st0 Function - X)"
    by (rule ext) (simp only: left_def bo h)
  have hl: "card (holders st0 (used fl st0 Function - X) b) \<le> card (holders st0 (used fl st0 Function) b)" for b
    by (rule card_mono) (auto simp: holders_def used_def cells_of_def)
  have cells: "cells_of k ost \<subseteq> cells_of k st0" for k unfolding ost_def o(2) by (rule less)
  show "counted ost"
    unfolding counted_def bo dd h
  proof (intro conjI ballI allI impI)
    show "bcodes st0 0 = None" using lit by (simp add: literals_ok_def)
    show "\<exists>b. words ost (c + 24) = Some b \<and> (b = 0 \<or> bcodes st0 b \<noteq> None)" if "c \<in> used fl st0 Function - X" for c
      using heap_okD(8) [OF ok, of c] that w24 [of c] by (auto simp: func_ok_def dest: used_cells)
    fix b bc assume bc: "bcodes st0 b = Some bc" "\<not> frozen bc"
    show "card (holders st0 (used fl st0 Function - X) b) \<le> unat (refcnt bc)"
      using lit bc hl [of b] unfolding literals_ok_def by fastforce
    show "\<not> c + x - lit_p bc < lit_len bc" if "c \<in> cells_of k ost" "x \<in> offsets k" for k c x
      using lit bc that cells unfolding literals_ok_def by blast
  qed
qed

definition gc_sweeps :: "env \<Rightarrow> js \<Rightarrow> js option" where
  "gc_sweeps E st =
     do { st \<leftarrow> gc_sweep (generic_object_destructor E) Generic_object st;
          st \<leftarrow> gc_sweep function_destructor Function st;
          gc_sweep (\<lambda>p st. Some st) Property st }"

lemma swept_all:
  assumes ok: "heap_ok ss fl pl st0" and X: "X \<subseteq> heads fl st0" and W: "marked_words st0 X W" and lit: "literals_ok fl st0"
    and st2: "st2 = st0\<lparr>vm := v, words := W\<rparr>"
    and plain: "\<And>c. c \<in> used fl st0 Generic_object - X \<Longrightarrow> plain_object st2 c"
    and fields: "\<And>c. c \<in> cells_of Function st0 \<Longrightarrow> W (c + 24) = words st0 (c + 24)"
  obtains st fr where "gc_sweeps E st2 = Some st" "\<And>k. swept_arena st0 X W k (fr k) st" "vm st = v" "vals st = vals st0"
    "call_stack st = call_stack st0" "stack st = stack st0" "tmp_stack st = tmp_stack st0" "act_bcodes st = act_bcodes st0"
    "bcodes st = left st0 (used fl st0 Function - X)"
    "\<forall>a. outside_cells st0 a \<longrightarrow>
       (\<forall>b bc. bcodes st0 b = Some bc \<longrightarrow> bcodes st b = None \<longrightarrow> \<not> a - lit_p bc < lit_len bc) \<longrightarrow> words st a = W a"
proof -
  have wt2: "waiting st0 W k st2" for k
  proof -
    have "arena_of k st2 = arena_of k st0" by (cases k) (simp_all add: st2)
    moreover have "spaced st2"
      by (rule spaced_less [OF heap_okD(2) [OF ok]]) (rename_tac k, case_tac k; simp add: st2 cells_of_def)
    ultimately show ?thesis by (simp add: waiting_def st2)
  qed
  have size0: "cell_size (arena_of k st0) = csize k" for k by (rule arena_okD(1) [OF heap_okD(3) [OF ok]])
  note u2 = unswept_sweepable [OF ok X waiting_unswept [OF W wt2]]
  have "plain_object (opened_sweep Generic_object (fl Generic_object) st2) c" if "c \<in> used fl st0 Generic_object - X" for c
    by (rule plain_object_kept [OF _ opened_outside(4) [OF u2(1)] _ plain [OF that]])
      (use that wt2 u2(3) in \<open>auto simp: waiting_def used_def\<close>)
  then have J1: "plainly (opened_sweep Generic_object (fl Generic_object) st2) {} (opened_sweep Generic_object (fl Generic_object) st2)"
    unfolding plainly_def untouched_def opened(5) [OF u2(1)] u2(4) by simp
  obtain st3 fr1 where s3: "gc_sweep (generic_object_destructor E) Generic_object st2 = Some st3"
    "sweep_result Generic_object (marked Generic_object st2) fr1 st2 st3"
    "plainly (opened_sweep Generic_object (fl Generic_object) st2)
      (cells_of Generic_object st2 - marked Generic_object st2 - set (fl Generic_object)) st3"
    by (rule object_sweep.arena_swept [OF u2(1) J1])
  have size: "cell_size (arena_of k st2) = csize k" for k using wt2 size0 by (simp add: waiting_def)
  have less3: "cells_of k st3 \<subseteq> cells_of k st0" for k using sweep_cells_less [OF s3(2) size, of k] u2(3) by blast
  have "bcodes st3 = bcodes st2" using s3(3) by (simp add: plainly_def untouched_def opened_outside(3) [OF u2(1)])
  then have b3: "bcodes st3 = bcodes st0" by (simp add: st2)
  have out2: "outside_cells st2 a" if "outside_cells st0 a" for a by (rule outside_less [OF that]) (simp add: u2(3))
  have w3: "words st3 a = W a" if a: "outside_cells st0 a" for a
  proof -
    have "words st3 a = words (opened_sweep Generic_object (fl Generic_object) st2) a"
      using s3(3) out2 [OF a] by (simp add: plainly_def untouched_def opened_outside(1) [OF u2(1)])
    also have "\<dots> = words st2 a" by (rule opened_outside(2) [OF u2(1) out2 [OF a]])
    finally show ?thesis by (simp add: st2)
  qed
  have wt3: "waiting st0 W Function st3" "waiting st0 W Property st3"
    by (rule waiting_sweep [OF wt2 s3(2) size]; simp)+
  have sw3: "swept_arena st0 X W Generic_object fr1 st3" by (rule sweep_swept [OF ok X W wt2 s3(2)])
  note u3 = unswept_sweepable [OF ok X waiting_unswept [OF W wt3(1)]]
  let ?o = "opened_sweep Function (fl Function) st3"
  note c = functions_counted [OF ok X W lit wt3(1) b3 less3 fields]
  have J2: "released ?o {} ?o"
    using c(1) unfolding released_def by (auto simp: left_def holders_def fun_eq_iff split: option.splits)
  obtain st4 fr2 where s4: "gc_sweep function_destructor Function st3 = Some st4"
    "sweep_result Function (marked Function st3) fr2 st3 st4"
    "released ?o (cells_of Function st3 - marked Function st3 - set (fl Function)) st4"
    by (rule function_sweep.arena_swept [OF u3(1) J2])
  have s4': "released ?o (used fl st0 Function - X) st4" using s4(3) unfolding u3(4) .
  have b4: "bcodes st4 = left st0 (used fl st0 Function - X)" using s4' c(2) by (simp add: released_def)
  have size3: "cell_size (arena_of k st3) = csize k" for k
    using sweep_resultD(1,11) [OF s3(2)] size by (cases "k = Generic_object") simp_all
  have less4: "cells_of k st4 \<subseteq> cells_of k st0" for k using sweep_cells_less [OF s4(2) size3, of k] less3 by blast
  have w4: "words st4 a = W a"
    if a: "outside_cells st0 a" and n: "\<And>b bc. bcodes st0 b = Some bc \<Longrightarrow> bcodes st4 b = None \<Longrightarrow> \<not> a - lit_p bc < lit_len bc" for a
  proof -
    have a3: "outside_cells st3 a" by (rule outside_less [OF a less3])
    have "words st4 a = words ?o a"
    proof -
      have "\<forall>b bc. bcodes ?o b = Some bc \<longrightarrow> bcodes st4 b = None \<longrightarrow> \<not> a - lit_p bc < lit_len bc"
        using n by (simp add: c(4))
      with s4' a3 show ?thesis unfolding released_def opened_outside(1) [OF u3(1)] by blast
    qed
    also have "\<dots> = words st3 a" by (rule opened_outside(2) [OF u3(1) a3])
    finally show ?thesis using w3 [OF a] by simp
  qed
  have wt4: "waiting st0 W Property st4" by (rule waiting_sweep [OF wt3(2) s4(2) size3]) simp
  have sw4: "swept_arena st0 X W Generic_object fr1 st4" "swept_arena st0 X W Function fr2 st4"
    using swept_sweep [OF sw3 s4(2)] sweep_swept [OF ok X W wt3(1) s4(2)] by simp_all
  note u4 = unswept_sweepable [OF ok X waiting_unswept [OF W wt4]]
  let ?p = "opened_sweep Property (fl Property) st4"
  have J3: "untouched ?p {} ?p" by (simp add: untouched_def)
  obtain st5 fr3 where s5: "gc_sweep (\<lambda>p st. Some st) Property st4 = Some st5"
    "sweep_result Property (marked Property st4) fr3 st4 st5"
    "untouched ?p (cells_of Property st4 - marked Property st4 - set (fl Property)) st5"
    by (rule property_sweep.arena_swept [OF u4(1) J3])
  have b5: "bcodes st5 = bcodes st4" using s5(3) by (simp add: untouched_def opened_outside(3) [OF u4(1)])
  have w5: "words st5 a = words st4 a" if a: "outside_cells st0 a" for a
  proof -
    have a4: "outside_cells st4 a" by (rule outside_less [OF a less4])
    have "words st5 a = words ?p a" using s5(3) a4 by (simp add: untouched_def opened_outside(1) [OF u4(1)])
    then show ?thesis using opened_outside(2) [OF u4(1) a4] by simp
  qed
  let ?fr = "\<lambda>k. case k of Generic_object \<Rightarrow> fr1 | Function \<Rightarrow> fr2 | Property \<Rightarrow> fr3"
  show thesis
  proof (rule that [of st5 ?fr])
    show "gc_sweeps E st2 = Some st5" by (simp add: gc_sweeps_def s3(1) s4(1) s5(1))
    show "swept_arena st0 X W k (?fr k) st5" for k
      using swept_sweep [OF sw4(1) s5(2)] swept_sweep [OF sw4(2) s5(2)] sweep_swept [OF ok X W wt4 s5(2)] by (cases k) simp_all
    show "vm st5 = v" "vals st5 = vals st0" "call_stack st5 = call_stack st0" "stack st5 = stack st0"
      "tmp_stack st5 = tmp_stack st0" "act_bcodes st5 = act_bcodes st0"
      using sweep_resultD(4-9) [OF s3(2)] sweep_resultD(4-9) [OF s4(2)] sweep_resultD(4-9) [OF s5(2)] by (simp_all add: st2)
    show "bcodes st5 = left st0 (used fl st0 Function - X)" by (simp add: b5 b4)
    show "\<forall>a. outside_cells st0 a \<longrightarrow>
      (\<forall>b bc. bcodes st0 b = Some bc \<longrightarrow> bcodes st5 b = None \<longrightarrow> \<not> a - lit_p bc < lit_len bc) \<longrightarrow> words st5 a = W a"
      using w5 w4 b5 by simp
  qed
qed

end
