(* ===== verification/GcCorrect.thy ===== *)
theory GcCorrect
  imports GcSweeps
begin

text \<open>
  The whole collection: it ends, keeps the objects that the roots reach, with their words, and the strings
  these refer to, and leaves a well-formed memory without the rest.
\<close>

subsection \<open>Ready for a collection\<close>

definition no_regexps :: "(arena_kind \<Rightarrow> u64 list) \<Rightarrow> (u64 \<Rightarrow> u64 list) \<Rightarrow> js \<Rightarrow> bool" where
  "no_regexps fl pl st \<longleftrightarrow>
     (\<forall>obj \<in> used fl st Generic_object. \<forall>p \<in> set (pl obj). \<forall>v. words st (p + 24) = Some v \<longrightarrow> tag_of v \<noteq> 0xFFF2)"

definition gc_ready :: "u8 list list \<Rightarrow> (arena_kind \<Rightarrow> u64 list) \<Rightarrow> (u64 \<Rightarrow> u64 list) \<Rightarrow> js \<Rightarrow> bool" where
  "gc_ready ss fl pl st \<longleftrightarrow>
     heap_ok ss fl pl st \<and> (\<forall>a \<in> set (root_slots st). root_ok ss fl st a) \<and>
     (\<forall>b \<in> set (mbuf_pointers (act_bcodes st)). bcodes st b \<noteq> None) \<and>
     literals_ok fl st \<and> no_regexps fl pl st \<and> length (packed ss) < 2 ^ 31 \<and> length ss < 65536"

text \<open>The objects that the roots reach.\<close>

definition live_objects :: "(u64 \<Rightarrow> u64 list) \<Rightarrow> js \<Rightarrow> u64 set" where
  "live_objects pl st = {obj. reach pl st (slot_values st (root_slots st)) obj}"

definition live_slots :: "(u64 \<Rightarrow> u64 list) \<Rightarrow> js \<Rightarrow> u64 set" where
  "live_slots pl st = set (root_slots st) \<union> (\<Union>obj \<in> live_objects pl st. set (slots pl st obj))"

text \<open>A state after the collection of \<open>st0\<close>: \<open>W\<close> are the words between compaction and sweep.\<close>

definition collected ::
  "u8 list list \<Rightarrow> (arena_kind \<Rightarrow> u64 list) \<Rightarrow> (u64 \<Rightarrow> u64 list) \<Rightarrow> js \<Rightarrow> u8 list list \<Rightarrow> cells \<Rightarrow>
     (arena_kind \<Rightarrow> u64 list) \<Rightarrow> js \<Rightarrow> bool" where
  "collected ss fl pl st0 ss1 W fr st \<longleftrightarrow>
     (let N = live_objects pl st0; X = grow pl {} N; S = live_slots pl st0 in
      N \<subseteq> objs fl st0 \<and> (\<forall>a \<in> S. slot ss fl st0 a) \<and>
      strings_ok (vm st) ss1 \<and> owned_values (vm st) = owned_values (vm st0) \<and>
      (\<forall>a. a \<notin> S \<or> (\<exists>x. words st0 a = Some x \<and> tag_of x \<noteq> 0xFFF8) \<longrightarrow> W a = mark_bits X (words st0) a) \<and>
      (\<forall>a \<in> S. \<forall>x s. words st0 a = Some x \<longrightarrow> live (vm st0) ss x s \<longrightarrow> (\<exists>y. W a = Some y \<and> live (vm st) ss1 y s)) \<and>
      (\<forall>k. swept_arena st0 X W k (fr k) st) \<and>
      vals st = vals st0 \<and> call_stack st = call_stack st0 \<and> stack st = stack st0 \<and>
      tmp_stack st = tmp_stack st0 \<and> act_bcodes st = act_bcodes st0 \<and>
      bcodes st = left st0 (used fl st0 Function - X) \<and>
      (\<forall>a. outside_cells st0 a \<longrightarrow>
         (\<forall>b bc. bcodes st0 b = Some bc \<longrightarrow> bcodes st b = None \<longrightarrow> \<not> a - lit_p bc < lit_len bc) \<longrightarrow> words st a = W a))"

subsection \<open>The words before the sweeps\<close>

lemma slot_value:
  assumes a: "slot ss fl st0 a" and x: "words st0 a = Some x" and tag: "tag_of x = 0xFFF8"
  shows "\<exists>s. live (vm st0) ss x s"
  using a x tag by (fastforce simp: slot_def slot_ok_def string_ok_def live_def)

lemma heap_heads: "heap_ok ss fl pl st0 \<Longrightarrow> N \<subseteq> objs fl st0 \<Longrightarrow> grow pl {} N \<subseteq> heads fl st0"
  using obj_props by (fastforce simp: grow_def)

lemma words_between:
  assumes ok: "heap_ok ss fl pl st0" and X: "X \<subseteq> heads fl st0" and S: "\<forall>a \<in> S. slot ss fl st0 a"
    and W1': "\<forall>a. a \<notin> S \<or> (\<exists>x. words st0 a = Some x \<and> tag_of x \<noteq> 0xFFF8) \<longrightarrow> W a = mark_bits X (words st0) a"
    and W2': "\<forall>a \<in> S. \<forall>x s. words st0 a = Some x \<longrightarrow> live (vm st0) ss x s \<longrightarrow> (\<exists>y. W a = Some y \<and> live v ss1 y s)"
  shows between_marked: "marked_words st0 X W"
    and between_field: "c \<in> cells_of k st0 \<Longrightarrow> x \<in> offsets k \<Longrightarrow> x \<noteq> 0 \<Longrightarrow> k = Property \<longrightarrow> x = 8 \<Longrightarrow> W (c + x) = words st0 (c + x)"
    and between_slot: "a \<in> S \<Longrightarrow> \<exists>x y. words st0 a = Some x \<and> W a = Some y \<and>
      (if tag_of x = 0xFFF8 then \<exists>s. live (vm st0) ss x s \<and> live v ss1 y s else y = x)"
    and between_other: "a \<notin> X \<Longrightarrow> a \<notin> S \<Longrightarrow> W a = words st0 a"
proof -
  note sp = heap_okD(2) [OF ok] and W1 = W1' [rule_format] and W2 = W2' [rule_format]
  have SX: "a \<notin> X" if "a \<in> S" for a using slot_no_head [OF sp] S X that by blast
  show slotW: "\<exists>x y. words st0 a = Some x \<and> W a = Some y \<and>
      (if tag_of x = 0xFFF8 then \<exists>s. live (vm st0) ss x s \<and> live v ss1 y s else y = x)" if a: "a \<in> S" for a
  proof -
    have sl: "slot ss fl st0 a" using S a by blast
    then obtain x where x: "words st0 a = Some x" by (auto simp: slot_def slot_ok_def)
    show ?thesis
    proof (cases "tag_of x = 0xFFF8")
      case True
      then obtain s where s: "live (vm st0) ss x s" using slot_value [OF sl x] by blast
      from W2 [OF a x s] x s True show ?thesis by auto
    next
      case False
      then have "W a = words st0 a" using W1 [of a] x SX [OF a] by auto
      with x False show ?thesis by simp
    qed
  qed
  have headS: "c \<notin> S" if "c \<in> cells_of k st0" for c k
  proof
    assume "c \<in> S"
    then have "c \<noteq> c + 0" using slot_no_field [OF sp _ that, of ss fl c 0] S by simp
    then show False by simp
  qed
  show "marked_words st0 X W"
    unfolding marked_words_def
  proof (intro allI ballI conjI)
    fix k c assume c: "c \<in> cells_of k st0"
    show "W c = mark_bits X (words st0) c" by (rule W1) (use headS [OF c] in simp)
    fix x assume x: "x \<in> offsets k"
    show "W (c + x) \<noteq> None"
    proof (cases "c + x \<in> S")
      case True
      then show ?thesis using slotW by blast
    next
      case False
      then show ?thesis using W1 [of "c + x"] arena_okD(5) [OF heap_okD(3) [OF ok] c x] by (auto simp: mark_bits_def)
    qed
  qed
  show "W (c + x) = words st0 (c + x)"
    if c: "c \<in> cells_of k st0" and x: "x \<in> offsets k" "x \<noteq> 0" "k = Property \<longrightarrow> x = 8"
  proof -
    have "c + x \<notin> S" using slot_no_field [OF sp _ c x(1)] S x(3) by blast
    moreover have "c + x \<noteq> d + 0" if "d \<in> cells_of k' st0" for d k'
      using spacedD(3) [OF sp c that x(1) offsets_0(1)] x(2) by metis
    then have "c + x \<notin> X" using X by (auto dest!: used_cells subsetD)
    ultimately show ?thesis using W1 [of "c + x"] by simp
  qed
  show "a \<notin> X \<Longrightarrow> a \<notin> S \<Longrightarrow> W a = words st0 a" using W1 [of a] by simp
qed

subsection \<open>The collection ends\<close>

lemma gc_readyD:
  assumes "gc_ready ss fl pl st"
  shows "heap_ok ss fl pl st" "\<forall>a \<in> set (root_slots st). root_ok ss fl st a"
    "\<forall>b \<in> set (mbuf_pointers (act_bcodes st)). bcodes st b \<noteq> None" "literals_ok fl st" "no_regexps fl pl st"
    "length (packed ss) < 2 ^ 31" "length ss < 65536"
  using assms by (simp_all add: gc_ready_def)

lemma literals_okD:
  assumes "literals_ok fl st"
  shows "bcodes st 0 = None" "bcodes st b = Some bc \<Longrightarrow> \<not> frozen bc \<Longrightarrow>
      card (holders st (used fl st Function) b) + count_list (mbuf_pointers (act_bcodes st)) b \<le> unat (refcnt bc)"
    "bcodes st b = Some bc \<Longrightarrow> \<not> frozen bc \<Longrightarrow> c \<in> cells_of k st \<Longrightarrow> x \<in> offsets k \<Longrightarrow> \<not> c + x - lit_p bc < lit_len bc"
    "bcodes st b = Some bc \<Longrightarrow> \<not> frozen bc \<Longrightarrow> a \<in> set (root_slots st) \<Longrightarrow> a - lit_p bc < lit_len bc \<Longrightarrow>
      b \<in> set (mbuf_pointers (act_bcodes st))"
    "bcodes st b = Some bc \<Longrightarrow> \<not> frozen bc \<Longrightarrow> b' \<noteq> b \<Longrightarrow> a \<in> set (bcode_slots st b') \<Longrightarrow> \<not> a - lit_p bc < lit_len bc"
  using assms unfolding literals_ok_def by blast+

lemma func_slotsD:
  assumes "a \<in> set (func_slots st obj)"
  obtains b where "is_func st obj" "words st (obj + 24) = Some b" "b \<noteq> 0" "a \<in> set (bcode_slots st b)"
proof -
  have f: "is_func st obj" using assms by (cases "is_func st obj") (simp_all add: func_slots_def)
  obtain b where w: "words st (obj + 24) = Some b" using assms f by (cases "words st (obj + 24)") (simp_all add: func_slots_def)
  then have "b \<noteq> 0 \<and> a \<in> set (bcode_slots st b)" using assms f by (cases "b = 0") (simp_all add: func_slots_def)
  with that f w show thesis by blast
qed

lemma prop_slot_inj:
  assumes "spaced st" "p \<in> cells_of Property st" "q \<in> cells_of Property st" "x \<in> {16, 24}" "y \<in> {16, 24}" "p + x = q + y"
  shows "p = q" "x = y"
  using spacedD(2,3) [OF assms(1-3) _ _ assms(6)] assms(4,5) by auto

lemma dead_plain:
  assumes rd: "gc_ready ss fl pl st0" and N: "N \<subseteq> objs fl st0"
    and S: "S = set (root_slots st0) \<union> (\<Union>obj \<in> N. set (slots pl st0 obj))"
    and W: "\<And>a. a \<notin> grow pl {} N \<Longrightarrow> a \<notin> S \<Longrightarrow> W a = words st0 a"
    and field: "\<And>k c x. c \<in> cells_of k st0 \<Longrightarrow> x \<in> offsets k \<Longrightarrow> x \<noteq> 0 \<Longrightarrow> k = Property \<longrightarrow> x = 8 \<Longrightarrow> W (c + x) = words st0 (c + x)"
    and mk: "marked_words st0 (grow pl {} N) W"
    and c: "c \<in> used fl st0 Generic_object - grow pl {} N"
  shows "plain_object (st0\<lparr>vm := v, words := W\<rparr>) c"
proof -
  let ?X = "grow pl {} N"
  note ok = gc_readyD(1) [OF rd]
  note sp = heap_okD(2) [OF ok]
  have cells: "cells_of k (st0\<lparr>vm := v, words := W\<rparr>) = cells_of k st0" for k by (cases k) (simp_all add: cells_of_def)
  have co: "c \<in> objs fl st0" and cc: "c \<in> cells_of Generic_object st0" using c used_cells by blast+
  have cl: "clean fl pl st0 ?X" by (rule clean_grow0 [OF ok _ N]) (simp add: clean_def)
  then have pX: "p \<notin> ?X" if "p \<in> set (pl c)" for p using that co c by (auto simp: clean_def)
  have pc: "p \<in> cells_of Property st0" if "p \<in> set (pl c)" for p using obj_props [OF ok co] that used_cells by blast
  obtain h where h: "words st0 c = Some h" "chain (words st0) h (pl c)" using heap_okD(5) [OF ok co] by (auto simp: obj_ok_def)
  have nof: "\<not> is_func st0 c" using is_func_used(2) [OF sp] c by blast
  obtain a where a: "obj_attributes (words st0) c = Some a" "a AND V7_OBJ_DENSE_ARRAY = 0" "a AND V7_OBJ_FUNCTION = 0"
    using heap_okD(5) [OF ok co] nof by (auto simp: obj_ok_def)
  have "W c = words st0 c" using mk cc c by (simp add: marked_words_def)
  moreover have "W q = words st0 q" if "q \<in> set (pl c)" for q
    using mk pc [OF that] pX [OF that] by (auto simp: marked_words_def)
  then have "chain W h (pl c)" by (intro chain_words [OF h(2)] ballI)
  moreover have "obj_attributes W c = Some a" using field [OF cc, of 8] a(1) by (simp add: obj_attributes_def)
  moreover have "\<exists>a x v. prop_attributes W p = Some a \<and> W (p + 16) = Some x \<and> W (p + 24) = Some v \<and> v AND V7_TAG_MASK \<noteq> V7_TAG_REGEXP"
    if p: "p \<in> set (pl c)" for p
  proof -
    have pu: "p \<in> props fl st0" using obj_props [OF ok co] p by blast
    obtain at where at: "prop_attributes (words st0) p = Some at" using heap_okD(4) [OF ok pu] by (auto simp: prop_ok_def)
    have "prop_attributes W p = Some at" using field [OF pc [OF p], of 8] at by (simp add: prop_attributes_def)
    moreover have "\<exists>x. W (p + 16) = Some x" using mk pc [OF p] by (auto simp: marked_words_def)
    moreover have "W (p + 24) = words st0 (p + 24)"
    proof (rule W)
      have "p + 24 \<noteq> d + 0" if "d \<in> cells_of k st0" for d k
        using spacedD(3) [OF sp pc [OF p] that, of 24 0] by fastforce
      then show "p + 24 \<notin> ?X" using heap_heads [OF ok N] by (auto dest!: used_cells subsetD)
      show "p + 24 \<notin> S"
      proof
        assume "p + 24 \<in> S"
        moreover have out: "\<not> outside_cells st0 (p + 24)" using pc [OF p] unfolding outside_cells_def by force
        then have "p + 24 \<notin> set (root_slots st0)" using gc_readyD(2) [OF rd] by (auto simp: root_ok_def)
        ultimately obtain obj where obj: "obj \<in> N" "p + 24 \<in> set (slots pl st0 obj)" unfolding S by blast
        have "p + 24 \<notin> set (func_slots st0 obj)"
        proof (cases "obj \<in> used fl st0 Function")
          case True
          then show ?thesis using heap_okD(8) [OF ok True] out by (auto simp: func_ok_def)
        next
          case False
          then have "\<not> is_func st0 obj" using is_func_used(2) [OF sp] N obj(1) by blast
          then show ?thesis by (simp add: func_slots_def)
        qed
        then have "p + 24 \<in> set (prop_slots (pl obj))" using obj(2) by (simp add: slots_def)
        then have "\<exists>q \<in> set (pl obj). p + 24 = q + 24 \<or> p + 24 = q + 16"
          unfolding prop_slots_def set_concat set_map by fastforce
        then obtain q y where q: "q \<in> set (pl obj)" "y \<in> {16, 24}" "p + 24 = q + y" by blast
        have "q \<in> cells_of Property st0" using obj_props [OF ok, of obj] N obj(1) q(1) used_cells by blast
        then have "p = q" using prop_slot_inj(1) [OF sp pc [OF p] _ _ q(2,3)] by simp
        then show False using pX [OF p] q(1) obj(1) by (auto simp: grow_def)
      qed
    qed
    moreover obtain v where v: "words st0 (p + 24) = Some v" using heap_okD(4) [OF ok pu] by (auto simp: prop_ok_def slot_ok_def)
    moreover have "tag_of v \<noteq> 0xFFF2" using gc_readyD(5) [OF rd] c p v by (auto simp: no_regexps_def)
    then have "v AND V7_TAG_MASK \<noteq> V7_TAG_REGEXP" by (simp add: and_tag_mask tags tagged_eq_iff)
    ultimately show ?thesis by auto
  qed
  ultimately show ?thesis using h(1) a pc unfolding plain_object_def by (auto simp: cells)
qed

lemma gc_as_sweeps:
  "v7_gc E n full st = do { st \<leftarrow> gc_roots E n st; st \<leftarrow> compact_strings st; map_option (trim_strings E full) (gc_sweeps E st) }"
  by (simp add: v7_gc_def gc_sweeps_def map_conv_bind_option comp_def)

lemma gc_collects:
  assumes rd: "gc_ready ss fl pl st0" and L: "short fl pl st0 L"
    and fuel: "length (root_slots st0) + need L (card (objs fl st0)) \<le> n" and A: "alloc_ok M (reallocator E)"
  obtains st ss1 W fr where "v7_gc E n full st0 = Some st" "collected ss fl pl st0 ss1 W fr st" "subseq ss1 ss"
    "set ss1 = {ss ! i | i. i < length ss \<and> (\<exists>a \<in> live_slots pl st0. refers ss (words st0) a i)}"
proof -
  note r = gc_readyD [OF rd]
  obtain st1 N S where s1: "gc_roots E n st0 = Some st1" "marking ss fl st0 (grow pl {} N) S st1"
    "N = {obj. reach pl st0 (slot_values st0 (root_slots st0)) obj}" "N \<subseteq> objs fl st0"
    "set S = set (root_slots st0) \<union> (\<Union>obj \<in> N. set (slots pl st0 obj))"
    by (rule gc_roots_run [OF r(1) L r(2,3) fuel])
  let ?X = "grow pl {} N"
  have N: "N = live_objects pl st0" using s1(3) by (simp add: live_objects_def)
  have S: "set S = live_slots pl st0" using s1(5) N by (simp add: live_slots_def)
  have slots: "\<forall>a \<in> set S. slot ss fl st0 a" using s1(2) by (simp add: marking_def)
  obtain v W ss1 where s2: "compact_strings st1 = Some (st0\<lparr>vm := v, words := W\<rparr>)" "strings_ok v ss1" "subseq ss1 ss"
    "\<And>a. a \<notin> set S \<or> (\<exists>x. words st0 a = Some x \<and> tag_of x \<noteq> 0xFFF8) \<Longrightarrow> W a = mark_bits ?X (words st0) a"
    "\<And>a x s. a \<in> set S \<Longrightarrow> words st0 a = Some x \<Longrightarrow> live (vm st0) ss x s \<Longrightarrow> \<exists>y. W a = Some y \<and> live v ss1 y s"
    "set ss1 = {ss ! i | i. i < length ss \<and> (\<exists>a \<in> set S. refers ss (words st0) a i)}"
    "owned_values v = owned_values (vm st0)"
    by (rule strings_compacted [OF r(1) s1(2) r(6,7)]) blast
  have W: "\<forall>a. a \<notin> set S \<or> (\<exists>x. words st0 a = Some x \<and> tag_of x \<noteq> 0xFFF8) \<longrightarrow> W a = mark_bits ?X (words st0) a"
    "\<forall>a \<in> set S. \<forall>x s. words st0 a = Some x \<longrightarrow> live (vm st0) ss x s \<longrightarrow> (\<exists>y. W a = Some y \<and> live v ss1 y s)"
    using s2(4,5) by blast+
  note between = words_between [OF r(1) heap_heads [OF r(1) s1(4)] slots W]
  obtain st fr where s3: "gc_sweeps E (st0\<lparr>vm := v, words := W\<rparr>) = Some st" "\<And>k. swept_arena st0 ?X W k (fr k) st" "vm st = v" "vals st = vals st0"
    "call_stack st = call_stack st0" "stack st = stack st0" "tmp_stack st = tmp_stack st0" "act_bcodes st = act_bcodes st0"
    "bcodes st = left st0 (used fl st0 Function - ?X)"
    "\<forall>a. outside_cells st0 a \<longrightarrow>
       (\<forall>b bc. bcodes st0 b = Some bc \<longrightarrow> bcodes st b = None \<longrightarrow> \<not> a - lit_p bc < lit_len bc) \<longrightarrow> words st a = W a"
  proof (rule swept_all [OF r(1) heap_heads [OF r(1) s1(4)] between(1) r(4) refl])
    show "plain_object (st0\<lparr>vm := v, words := W\<rparr>) c" if "c \<in> used fl st0 Generic_object - ?X" for c
      by (rule dead_plain [OF rd s1(4,5) between(4,2,1) that]) auto
    show "W (c + 24) = words st0 (c + 24)" if "c \<in> cells_of Function st0" for c by (rule between(2) [OF that]) simp_all
  qed (rule that)
  let ?st = "trim_strings E full st"
  have run: "v7_gc E n full st0 = Some ?st" unfolding gc_as_sweeps using s1(1) s2(1) s3(1) by simp
  have st: "\<exists>m. ?st = st\<lparr>vm := v\<lparr>owned_strings := m\<rparr>\<rparr> \<and> strings_ok (v\<lparr>owned_strings := m\<rparr>) ss1"
  proof (cases "?st = st")
    case True
    have "st = st\<lparr>vm := v\<lparr>owned_strings := owned_strings v\<rparr>\<rparr>" using s3(3) by simp
    with True s2(2) show ?thesis by (intro exI [of _ "owned_strings v"]) simp
  next
    case False
    then have "?st = st\<lparr>vm := v\<lparr>owned_strings := mbuf_resize (reallocator E) (owned_strings v)
        (mb_len (owned_strings v) + V7_STRING_BUF_RESERVE)\<rparr>\<rparr>"
      by (auto simp: trim_strings_def Let_def s3(3))
    then show ?thesis using trim_ok [OF s2(2) A] by blast
  qed
  then obtain m where m: "?st = st\<lparr>vm := v\<lparr>owned_strings := m\<rparr>\<rparr>" "strings_ok (v\<lparr>owned_strings := m\<rparr>) ss1" by blast
  have "arena_of k ?st = arena_of k st" for k unfolding m(1) by (cases k) simp_all
  then have "swept_arena st0 ?X W k (fr k) ?st" for k using s3(2) [of k] by (simp add: swept_arena_def cells_of_def m(1))
  then have "collected ss fl pl st0 ss1 W fr ?st"
    using s1(4) slots s2(4,5,7) s3(4-10) m(2) unfolding collected_def Let_def N [symmetric] S [symmetric] m(1) by auto
  with that run s2(3,6) S show thesis by simp
qed

subsection \<open>What is left\<close>

abbreviation kept_cells :: "(u64 \<Rightarrow> u64 list) \<Rightarrow> js \<Rightarrow> u64 set" where
  "kept_cells pl st \<equiv> grow pl {} (live_objects pl st)"

lemma collectedD:
  assumes "collected ss fl pl st0 ss1 W fr st"
  shows "live_objects pl st0 \<subseteq> objs fl st0" "\<forall>a \<in> live_slots pl st0. slot ss fl st0 a"
    "strings_ok (vm st) ss1" "owned_values (vm st) = owned_values (vm st0)"
    "\<forall>a. a \<notin> live_slots pl st0 \<or> (\<exists>x. words st0 a = Some x \<and> tag_of x \<noteq> 0xFFF8) \<longrightarrow> W a = mark_bits (kept_cells pl st0) (words st0) a"
    "\<forall>a \<in> live_slots pl st0. \<forall>x s. words st0 a = Some x \<longrightarrow> live (vm st0) ss x s \<longrightarrow> (\<exists>y. W a = Some y \<and> live (vm st) ss1 y s)"
    "swept_arena st0 (kept_cells pl st0) W k (fr k) st"
    "vals st = vals st0" "call_stack st = call_stack st0" "stack st = stack st0" "tmp_stack st = tmp_stack st0"
    "act_bcodes st = act_bcodes st0" "bcodes st = left st0 (used fl st0 Function - kept_cells pl st0)"
    "outside_cells st0 a \<Longrightarrow> \<forall>b bc. bcodes st0 b = Some bc \<longrightarrow> bcodes st b = None \<longrightarrow> \<not> a - lit_p bc < lit_len bc \<Longrightarrow> words st a = W a"
  using assms unfolding collected_def Let_def by blast+

lemma kept_used:
  assumes ok: "heap_ok ss fl pl st0" and X: "X \<subseteq> heads fl st0"
  shows "X \<inter> cells_of k st0 = X \<inter> used fl st0 k"
proof -
  have "c \<in> used fl st0 k" if c: "c \<in> X" "c \<in> cells_of k st0" for c
  proof -
    obtain k' where k': "c \<in> used fl st0 k'" using X c(1) by blast
    then have "c \<in> cells_of k' st0" by (rule used_cells)
    then have "k' = k" using spacedD(1) [OF heap_okD(2) [OF ok], of c k' c k 0 0] c by simp
    with k' show ?thesis by simp
  qed
  then show ?thesis using used_cells by blast
qed

lemma collected_cells:
  assumes ok: "heap_ok ss fl pl st0" and c: "collected ss fl pl st0 ss1 W fr st"
  shows "used fr st k = kept_cells pl st0 \<inter> used fl st0 k" "cells_of k st \<subseteq> cells_of k st0"
    "objs fr st = live_objects pl st0" "props fr st = (\<Union>obj \<in> live_objects pl st0. set (pl obj))" "spaced st"
    "obj \<in> kept_cells pl st0 \<Longrightarrow> is_func st obj \<longleftrightarrow> is_func st0 obj" "set (fr k) \<inter> kept_cells pl st0 = {}"
proof -
  let ?N = "live_objects pl st0" and ?X = "kept_cells pl st0"
  note N = collectedD(1) [OF c] and sw = collectedD(7) [OF c]
  note X = heap_heads [OF ok N]
  show fX: "set (fr k) \<inter> ?X = {}" for k using sw [of k] by (simp add: swept_arena_def)
  show less: "cells_of k st \<subseteq> cells_of k st0" for k
  proof -
    have "subseq (arena_cells (arena_of k st)) (arena_cells (arena_of k st0))"
      using sw [of k] arena_okD(1) [OF heap_okD(3) [OF ok]] unfolding swept_arena_def arena_cells_def by (auto intro: subseq_cells)
    then show ?thesis unfolding cells_of_def by (auto dest: list_emb_set)
  qed
  then show "spaced st" by (rule spaced_less [OF heap_okD(2) [OF ok]])
  show u: "used fr st k = ?X \<inter> used fl st0 k" for k
    using sw [of k] fX [of k] unfolding kept_used [OF ok X, symmetric] used_def [of fr] swept_arena_def by blast
  have "(?X \<union> {}) \<inter> objs fl st0 = ({} \<inter> objs fl st0) \<union> ?N" by (rule grow_objs [OF ok N]) simp
  then show "objs fr st = ?N" unfolding u by blast
  have "?N \<inter> props fl st0 = {}" using objs_props [OF heap_okD(2) [OF ok], of fl] N by blast
  moreover have "(\<Union>obj \<in> ?N. set (pl obj)) \<subseteq> props fl st0" using obj_props [OF ok] N by blast
  ultimately show "props fr st = (\<Union>obj \<in> ?N. set (pl obj))" unfolding u grow_def by blast
  show "is_func st obj \<longleftrightarrow> is_func st0 obj" if "obj \<in> ?X"
    using sw [of Function] fX [of Function] that unfolding is_func_def swept_arena_def by blast
qed

text \<open>The words of the cells and the values that are left.\<close>

lemma collected_words:
  assumes rd: "gc_ready ss fl pl st0" and c: "collected ss fl pl st0 ss1 W fr st"
  shows collected_field: "d \<in> used fr st k \<Longrightarrow> x \<in> offsets k \<Longrightarrow> k = Property \<longrightarrow> x = 0 \<or> x = 8 \<Longrightarrow> words st (d + x) = words st0 (d + x)"
    and collected_bcodes: "b \<noteq> 0 \<Longrightarrow> (\<exists>f \<in> used fr st Function. words st0 (f + 24) = Some b) \<or> b \<in> set (mbuf_pointers (act_bcodes st0)) \<Longrightarrow>
      bcodes st0 b = Some bc \<Longrightarrow> \<exists>bc'. bcodes st b = Some bc' \<and> lit_p bc' = lit_p bc \<and> lit_len bc' = lit_len bc"
    and collected_slot: "a \<in> live_slots pl st0 \<Longrightarrow> \<exists>x y. words st0 a = Some x \<and> words st a = Some y \<and>
      (if tag_of x = 0xFFF8 then \<exists>s. live (vm st0) ss x s \<and> live (vm st) ss1 y s else y = x)"
proof -
  let ?N = "live_objects pl st0" and ?X = "kept_cells pl st0" and ?F = "used fl st0 Function"
  note r = gc_readyD [OF rd] and cd = collectedD [OF c] and cells = collected_cells [OF gc_readyD(1) [OF rd] c]
  note X = heap_heads [OF r(1) cd(1)]
  note between = words_between [OF r(1) X cd(2,5,6)]
  show "words st (d + x) = words st0 (d + x)" if d: "d \<in> used fr st k" "x \<in> offsets k" "k = Property \<longrightarrow> x = 0 \<or> x = 8" for d k x
  proof -
    have d': "d \<in> ?X \<inter> cells_of k st0" using d(1) cells(1) used_cells by blast
    show ?thesis
    proof (cases "x = 0")
      case True
      then show ?thesis using cd(7) [of k] d' by (simp add: swept_arena_def)
    next
      case False
      then have "words st (d + x) = W (d + x)" using cd(7) [of k] d' d(2) by (simp add: swept_arena_def)
      also have "\<dots> = words st0 (d + x)" by (rule between(2)) (use d' d False in auto)
      finally show ?thesis .
    qed
  qed
  have freed: "\<not> frozen bc \<and> unat (refcnt bc) \<le> card (holders st0 (?F - ?X) b)"
    if "bcodes st b = None" "bcodes st0 b = Some bc" for b bc
    using that unfolding cd(13) by (auto simp: left_def Let_def split: if_splits)
  have fin: "finite (holders st0 ?F b)" for b by (simp add: holders_def used_def cells_of_def)
  have held: "\<exists>bc'. bcodes st b = Some bc' \<and> lit_p bc' = lit_p bc \<and> lit_len bc' = lit_len bc"
    if b: "b \<noteq> 0" "(\<exists>f \<in> used fr st Function. words st0 (f + 24) = Some b) \<or> b \<in> set (mbuf_pointers (act_bcodes st0))"
      and bc: "bcodes st0 b = Some bc" for b bc
  proof (cases "bcodes st b")
    case None
    note fd = freed [OF None bc]
    have le: "card (holders st0 ?F b) + count_list (mbuf_pointers (act_bcodes st0)) b \<le> unat (refcnt bc)"
      using r(4) bc fd unfolding literals_ok_def by blast
    have mono: "card (holders st0 (?F - ?X) b) \<le> card (holders st0 ?F b)"
      by (rule card_mono [OF fin]) (auto simp: holders_def)
    from b(2) show ?thesis
    proof
      assume "\<exists>f \<in> used fr st Function. words st0 (f + 24) = Some b"
      then obtain f where f: "f \<in> ?X" "f \<in> ?F" "words st0 (f + 24) = Some b" unfolding cells(1) by blast
      then have "holders st0 (?F - ?X) b \<subset> holders st0 ?F b" by (auto simp: holders_def)
      from psubset_card_mono [OF fin this] le fd show ?thesis by simp
    next
      assume "b \<in> set (mbuf_pointers (act_bcodes st0))"
      then have "count_list (mbuf_pointers (act_bcodes st0)) b \<noteq> 0" by (simp add: count_list_0_iff)
      with le fd mono show ?thesis by simp
    qed
  next
    case (Some bc')
    then show ?thesis using bc unfolding cd(13) by (auto simp: left_def Let_def split: if_splits)
  qed
  then show "\<exists>bc'. bcodes st b = Some bc' \<and> lit_p bc' = lit_p bc \<and> lit_len bc' = lit_len bc"
    if "b \<noteq> 0" "(\<exists>f \<in> used fr st Function. words st0 (f + 24) = Some b) \<or> b \<in> set (mbuf_pointers (act_bcodes st0))"
      "bcodes st0 b = Some bc" using that by blast
  have "words st a = W a" if a: "a \<in> live_slots pl st0" for a
  proof (cases "a \<in> set (root_slots st0)")
    case True
    have zero: "b \<noteq> 0" if "bcodes st0 b = Some bc" for b bc using r(4) that by (auto simp: literals_ok_def)
    have "\<not> a - lit_p bc < lit_len bc" if bc: "bcodes st0 b = Some bc" "bcodes st b = None" for b bc
    proof
      assume "a - lit_p bc < lit_len bc"
      then have "b \<in> set (mbuf_pointers (act_bcodes st0))"
        using r(4) bc(1) freed [OF bc(2,1)] True unfolding literals_ok_def by blast
      then show False using held [OF zero [OF bc(1)] _ bc(1)] bc(2) by simp
    qed
    moreover have "outside_cells st0 a" using r(2) True by (simp add: root_ok_def)
    ultimately show ?thesis using cd(14) by blast
  next
    case False
    then obtain obj where obj: "obj \<in> ?N" "a \<in> set (slots pl st0 obj)" using a unfolding live_slots_def by blast
    show ?thesis
    proof (cases "a \<in> set (prop_slots (pl obj))")
      case True
      then obtain p y where p: "p \<in> set (pl obj)" "y = 24 \<or> y = 16" "a = p + y" by (auto simp: prop_slots_def)
      have "p \<in> ?X \<inter> cells_of Property st0" using p(1) obj(1) obj_props [OF r(1)] cd(1) used_cells by (fastforce simp: grow_def)
      moreover have "y \<in> offsets Property" "y \<noteq> 0" using p(2) by auto
      ultimately show ?thesis using cd(7) [of Property] unfolding p(3) swept_arena_def by blast
    next
      case False
      then have a: "a \<in> set (func_slots st0 obj)" using obj(2) by (simp add: slots_def)
      then obtain b where b: "is_func st0 obj" "words st0 (obj + 24) = Some b" "b \<noteq> 0" "a \<in> set (bcode_slots st0 b)"
        by (rule func_slotsD)
      have F: "obj \<in> ?F" using b(1) obj(1) cd(1) is_func_used(2) [OF heap_okD(2) [OF r(1)]] by blast
      then have "obj \<in> used fr st Function" using obj(1) unfolding cells(1) by (auto simp: grow_def)
      obtain bc where bc: "bcodes st0 b = Some bc" using b(4) by (cases "bcodes st0 b") (auto simp: bcode_slots_def)
      then have nb: "bcodes st b \<noteq> None" using held [OF b(3) _ bc] b(2) \<open>obj \<in> used fr st Function\<close> by auto
      have "\<not> a - lit_p bc' < lit_len bc'" if "bcodes st0 b' = Some bc'" "bcodes st b' = None" for b' bc'
        by (rule literals_okD(5) [OF r(4) that(1) _ _ b(4)]) (use that nb freed [OF that(2,1)] in auto)
      moreover have "outside_cells st0 a" using heap_okD(8) [OF r(1) F] a by (simp add: func_ok_def)
      ultimately show ?thesis using cd(14) by blast
    qed
  qed
  with between(3) show "a \<in> live_slots pl st0 \<Longrightarrow> \<exists>x y. words st0 a = Some x \<and> words st a = Some y \<and>
      (if tag_of x = 0xFFF8 then \<exists>s. live (vm st0) ss x s \<and> live (vm st) ss1 y s else y = x)"
    by simp
qed

subsection \<open>Reachable objects\<close>

lemma live_root: "a \<in> set (root_slots st) \<Longrightarrow> words st a = Some x \<Longrightarrow> v7_is_object x \<Longrightarrow> payload x \<in> live_objects pl st"
  unfolding live_objects_def slot_values_def by (auto intro: reach_root)

lemma live_step: "obj \<in> live_objects pl st \<Longrightarrow> x \<in> refs pl st obj \<Longrightarrow> v7_is_object x \<Longrightarrow> payload x \<in> live_objects pl st"
  unfolding live_objects_def by (auto intro: reach_step)

lemma live_value: "obj \<in> live_objects pl st \<Longrightarrow> p \<in> set (pl obj) \<Longrightarrow> words st (p + 24) = Some x \<Longrightarrow> v7_is_object x \<Longrightarrow>
    payload x \<in> live_objects pl st"
  by (rule live_step) (auto simp: refs_def)

lemma live_literal: "obj \<in> live_objects pl st \<Longrightarrow> a \<in> set (func_slots st obj) \<Longrightarrow> words st a = Some x \<Longrightarrow> v7_is_object x \<Longrightarrow>
    payload x \<in> live_objects pl st"
proof -
  assume l: "obj \<in> live_objects pl st" and a: "a \<in> set (func_slots st obj)" and x: "words st a = Some x" "v7_is_object x"
  have "is_func st obj" by (rule func_slotsD [OF a])
  then have "x \<in> refs pl st obj" using a x(1) by (auto simp: refs_def)
  then show ?thesis by (rule live_step [OF l _ x(2)])
qed

text \<open>The third word of an object: the prototype, or the scope of a function.\<close>

lemma live_third:
  assumes ok: "heap_ok ss fl pl st" and N: "live_objects pl st \<subseteq> objs fl st" and obj: "obj \<in> live_objects pl st"
    and q: "words st (obj + 16) = Some q" "q \<noteq> 0"
  shows "q \<in> live_objects pl st"
proof -
  note sp = heap_okD(2) [OF ok]
  have oo: "obj \<in> objs fl st" using obj N by blast
  have qo: "q \<in> objs fl st"
  proof (cases "obj \<in> used fl st Generic_object")
    case True
    then show ?thesis using heap_okD(7) [OF ok True] q by (auto simp: generic_ok_def)
  next
    case False
    then have "obj \<in> used fl st Function" using oo by blast
    then show ?thesis using heap_okD(8) [OF ok, of obj] q by (auto simp: func_ok_def)
  qed
  obtain k where k: "q \<in> cells_of k st" using objs_cell [OF qo] by blast
  have v: "v7_object_to_value (words st) q = Some (boxed st q)"
    using object_to_value [OF heap_okD(5) [OF ok qo], of "words st"] cell_small [OF sp k] by simp
  have "boxed st q \<in> refs pl st obj"
  proof (cases "is_func st obj")
    case True
    then show ?thesis using q v by (auto simp: refs_def)
  next
    case False
    obtain a where a: "obj_attributes (words st) obj = Some a" "a AND V7_OBJ_FUNCTION = 0"
      using heap_okD(5) [OF ok oo] False by (auto simp: obj_ok_def)
    have "v7_to_object (boxed st obj) = Some obj" using to_object box_ok(2) [OF ok oo] boxed_object(1) by simp
    then have "obj_prototype_v st (boxed st obj) = Some (boxed st q)"
      using False a q v by (simp add: obj_prototype_v_def boxed_object obj_prototype_def)
    then show ?thesis by (simp add: refs_def)
  qed
  from live_step [OF obj this boxed_object(1)] box_ok(2) [OF ok qo] show ?thesis by simp
qed

lemma slot_left:
  assumes rd: "gc_ready ss fl pl st0" and c: "collected ss fl pl st0 ss1 W fr st" and a: "a \<in> live_slots pl st0"
    and obj: "\<And>x. words st0 a = Some x \<Longrightarrow> v7_is_object x \<Longrightarrow> payload x \<in> live_objects pl st0"
  shows "slot_ok ss1 fr st a"
proof -
  have sl: "slot_ok ss fl st0 a" using collectedD(2) [OF c] a by (simp add: slot_def)
  obtain x y where xy: "words st0 a = Some x" "words st a = Some y"
    "if tag_of x = 0xFFF8 then \<exists>s. live (vm st0) ss x s \<and> live (vm st) ss1 y s else y = x"
    using collected_slot [OF rd c a] by blast
  have rx: "ref_ok fl st0 x" using sl xy(1) by (simp add: slot_ok_def)
  have "ref_ok fr st y \<and> string_ok ss1 (vm st) y"
  proof (cases "tag_of x = 0xFFF8")
    case True
    then obtain s where "live (vm st) ss1 y s" using xy(3) by auto
    then show ?thesis by (auto simp: live_def ref_ok_def string_ok_def)
  next
    case False
    then have y: "y = x" using xy(3) by simp
    have "payload x \<in> kept_cells pl st0" if "v7_is_object x" using obj [OF xy(1) that] by (simp add: grow_def)
    then show ?thesis
      using rx False unfolding y ref_ok_def string_ok_def collected_cells(1) [OF gc_readyD(1) [OF rd] c] by (auto simp: kinds)
  qed
  then show ?thesis using sl xy(2) by (simp add: slot_ok_def)
qed

subsection \<open>The memory is well-formed again\<close>

lemma subseq_distinct: "subseq xs ys \<Longrightarrow> distinct ys \<Longrightarrow> distinct xs"
  by (induction rule: list_emb.induct) (auto dest: list_emb_set)

lemma collected_bcode_slots:
  assumes rd: "gc_ready ss fl pl st0" and c: "collected ss fl pl st0 ss1 W fr st" and b: "b \<noteq> 0"
    "(\<exists>f \<in> used fr st Function. words st0 (f + 24) = Some b) \<or> b \<in> set (mbuf_pointers (act_bcodes st0))" "bcodes st0 b \<noteq> None"
  shows "bcodes st b \<noteq> None" "bcode_slots st b = bcode_slots st0 b"
proof -
  obtain bc where bc: "bcodes st0 b = Some bc" using b(3) by blast
  show "bcodes st b \<noteq> None" "bcode_slots st b = bcode_slots st0 b"
    using collected_bcodes [OF rd c b(1,2) bc] bc by (auto simp: bcode_slots_def)
qed

lemma collected_roots:
  assumes rd: "gc_ready ss fl pl st0" and c: "collected ss fl pl st0 ss1 W fr st"
  shows "root_slots st = root_slots st0"
proof -
  note r = gc_readyD [OF rd] and cd = collectedD [OF c]
  have "bcode_slots st b = bcode_slots st0 b" if b: "b \<in> set (mbuf_pointers (act_bcodes st0))" for b
  proof -
    have n: "bcodes st0 b \<noteq> None" using r(3) b by blast
    then have "b \<noteq> 0" using literals_okD(1) [OF r(4)] by metis
    then show ?thesis using collected_bcode_slots(2) [OF rd c _ _ n] b by blast
  qed
  then have m: "map (bcode_slots st) (mbuf_pointers (act_bcodes st0)) = map (bcode_slots st0) (mbuf_pointers (act_bcodes st0))" by simp
  show ?thesis unfolding root_slots_def cd(4,8-12) m ..
qed

lemma collected_func_slots:
  assumes rd: "gc_ready ss fl pl st0" and c: "collected ss fl pl st0 ss1 W fr st" and f: "f \<in> used fr st Function"
  shows "func_slots st f = func_slots st0 f" "\<exists>b. words st (f + 24) = Some b \<and> (b = 0 \<or> bcodes st b \<noteq> None)"
proof -
  note r = gc_readyD [OF rd] and cells = collected_cells [OF gc_readyD(1) [OF rd] c]
  have f0: "f \<in> used fl st0 Function" "f \<in> kept_cells pl st0" using f unfolding cells(1) by simp_all
  obtain b where b: "words st0 (f + 24) = Some b" "b = 0 \<or> bcodes st0 b \<noteq> None" using heap_okD(8) [OF r(1) f0(1)] by (auto simp: func_ok_def)
  have w: "words st (f + 24) = Some b" using collected_field [OF rd c f, of 24] b(1) by simp
  have fn: "is_func st f = is_func st0 f" by (rule cells(6) [OF f0(2)])
  have "b = 0 \<or> bcodes st b \<noteq> None \<and> bcode_slots st b = bcode_slots st0 b"
    using collected_bcode_slots [OF rd c, of b] b f by blast
  with w b(1) fn show "func_slots st f = func_slots st0 f" "\<exists>b. words st (f + 24) = Some b \<and> (b = 0 \<or> bcodes st b \<noteq> None)"
    by (auto simp: func_slots_def)
qed

lemma collected_root:
  assumes rd: "gc_ready ss fl pl st0" and c: "collected ss fl pl st0 ss1 W fr st" and a: "a \<in> set (root_slots st0)"
  shows "root_ok ss1 fr st a"
proof -
  have "slot_ok ss1 fr st a" by (rule slot_left [OF rd c]) (use a live_root in \<open>auto simp: live_slots_def\<close>)
  moreover have "outside_cells st a"
    by (rule outside_less [OF _ collected_cells(2) [OF gc_readyD(1) [OF rd] c]]) (use gc_readyD(2) [OF rd] a in \<open>simp add: root_ok_def\<close>)
  ultimately show ?thesis by (simp add: root_ok_def)
qed

lemma collected_heap:
  assumes rd: "gc_ready ss fl pl st0" and c: "collected ss fl pl st0 ss1 W fr st"
  shows "heap_ok ss1 fr pl st"
proof -
  let ?N = "live_objects pl st0" and ?X = "kept_cells pl st0"
  note r = gc_readyD [OF rd] and cd = collectedD [OF c] and cells = collected_cells [OF gc_readyD(1) [OF rd] c]
  note field = collected_field [OF rd c]
  have pin: "p \<in> used fr st Property" "p \<in> props fl st0" if "obj \<in> ?N" "p \<in> set (pl obj)" for obj p
    using that obj_props [OF r(1), of obj] cd(1) unfolding cells(1) grow_def by blast+
  have p0: "words st p = words st0 p" if "p \<in> used fr st Property" for p using field [OF that, of 0] by simp
  have arena: "arena_ok k (fr k) st" for k
  proof -
    note sw = cd(7) [of k, unfolded swept_arena_def]
    have sub: "subseq (arena_cells (arena_of k st)) (arena_cells (arena_of k st0))"
      using sw arena_okD(1) [OF heap_okD(3) [OF r(1)], of k] unfolding arena_cells_def by (auto intro: subseq_cells)
    have "\<forall>(b, n) \<in> set (arena_blocks (arena_of k st)). unat b + unat n * unat (csize k) < 2 ^ 48"
      using arena_okD(7) [OF heap_okD(3) [OF r(1)], of _ _ k] sw by (auto dest: list_emb_set)
    moreover have "distinct (arena_cells (arena_of k st))"
      by (rule subseq_distinct [OF sub arena_okD(6) [OF heap_okD(3) [OF r(1)]]])
    moreover have "words st (d + x) \<noteq> None" if d: "d \<in> cells_of k st" "x \<in> offsets k" for d x
    proof (cases "d \<in> set (fr k)")
      case True
      then show ?thesis using sw d(2) by blast
    next
      case False
      then have dX: "d \<in> ?X \<inter> cells_of k st0" using sw d(1) by blast
      have "\<exists>w. words st0 d = Some w" using arena_okD(5) [OF heap_okD(3) [OF r(1)], of d k 0] dX by simp
      moreover have "W (d + x) \<noteq> None"
        using between_marked [OF r(1) heap_heads [OF r(1) cd(1)] cd(2,5,6)] dX d(2) unfolding marked_words_def by blast
      moreover have "words st d = words st0 d" "x \<noteq> 0 \<Longrightarrow> words st (d + x) = W (d + x)" using sw dX d(2) by blast+
      ultimately show ?thesis by (cases "x = 0") simp_all
    qed
    moreover have "set (fr k) \<subseteq> cells_of k st" using sw by simp
    ultimately show ?thesis using sw unfolding arena_ok_def Let_def by simp
  qed
  have pr_ok: "prop_ok ss1 fr st p" if p: "p \<in> props fr st" for p
  proof -
    obtain obj where obj: "obj \<in> ?N" "p \<in> set (pl obj)" using p unfolding cells(4) by blast
    have ok0: "prop_ok ss fl st0 p" by (rule heap_okD(4) [OF r(1) pin(2) [OF obj]])
    have live: "p + 16 \<in> live_slots pl st0" "p + 24 \<in> live_slots pl st0"
    proof -
      have "set [p + 24, p + 16] \<subseteq> set (slots pl st0 obj)"
        unfolding slots_def prop_slots_def set_append set_concat set_map using obj(2) by blast
      then show "p + 16 \<in> live_slots pl st0" "p + 24 \<in> live_slots pl st0" using obj(1) unfolding live_slots_def by auto
    qed
    have "slot_ok ss1 fr st (p + 16)" by (rule slot_left [OF rd c live(1)]) (use ok0 in \<open>auto simp: prop_ok_def\<close>)
    moreover have "slot_ok ss1 fr st (p + 24)" by (rule slot_left [OF rd c live(2)]) (use live_value [OF obj] in blast)
    moreover have "\<not> v7_is_object y" if "words st (p + 16) = Some y" for y
      using collected_slot [OF rd c live(1)] ok0 that by (auto simp: prop_ok_def live_def kinds split: if_splits)
    ultimately show ?thesis using ok0 p0 [OF p] field [OF p, of 8] by (simp add: prop_ok_def prop_attributes_def)
  qed
  have objk: "\<exists>k. k \<noteq> Property \<and> obj \<in> used fr st k" if "obj \<in> ?N" for obj using that cells(3) by blast
  have w: "words st obj = words st0 obj" "words st (obj + 8) = words st0 (obj + 8)" "words st (obj + 16) = words st0 (obj + 16)"
    if obj: "obj \<in> ?N" for obj
  proof -
    obtain k where k: "k \<noteq> Property" "obj \<in> used fr st k" using objk [OF obj] by blast
    show "words st obj = words st0 obj" "words st (obj + 8) = words st0 (obj + 8)" "words st (obj + 16) = words st0 (obj + 16)"
      using field [OF k(2), of 0] field [OF k(2), of 8] field [OF k(2), of 16] k(1) by simp_all
  qed
  have object: "obj_ok fr pl st obj" if obj: "obj \<in> ?N" for obj
  proof -
    have ok0: "obj_ok fl pl st0 obj" by (rule heap_okD(5) [OF r(1)]) (use obj cd(1) in blast)
    have fn: "is_func st obj = is_func st0 obj" by (rule cells(6)) (use obj in \<open>simp add: grow_def\<close>)
    have "chain (words st) h (pl obj)" if "chain (words st0) h (pl obj)" for h
      by (rule chain_words [OF that]) (use p0 pin(1) [OF obj] in blast)
    moreover have "set (pl obj) \<subseteq> props fr st" using pin(1) [OF obj] by blast
    ultimately show ?thesis using ok0 w [OF obj] fn by (auto simp: obj_ok_def obj_attributes_def)
  qed
  have third: "\<exists>q. words st (obj + 16) = Some q \<and> (q = 0 \<or> q \<in> objs fr st)" if obj: "obj \<in> ?N" for obj
  proof -
    have "obj \<in> objs fl st0" using obj cd(1) by blast
    then obtain q where q: "words st0 (obj + 16) = Some q"
      using heap_okD(7,8) [OF r(1), of obj] by (auto simp: generic_ok_def func_ok_def)
    then show ?thesis using live_third [OF r(1) cd(1) obj q] w(3) [OF obj] unfolding cells(3) by auto
  qed
  have func: "func_ok ss1 fr st f" if f: "f \<in> used fr st Function" for f
  proof -
    have fN: "f \<in> ?N" using f cells(3) by blast
    have f0: "f \<in> used fl st0 Function" using f unfolding cells(1) by simp
    note fs = collected_func_slots [OF rd c f]
    have "slot_ok ss1 fr st a \<and> outside_cells st a" if a: "a \<in> set (func_slots st f)" for a
    proof
      have a0: "a \<in> set (func_slots st0 f)" using a fs(1) by simp
      show "slot_ok ss1 fr st a"
        by (rule slot_left [OF rd c]) (use a0 fN live_literal [OF fN a0] in \<open>auto simp: live_slots_def slots_def\<close>)
      show "outside_cells st a"
        by (rule outside_less [OF _ cells(2)]) (use heap_okD(8) [OF r(1) f0] a0 in \<open>simp add: func_ok_def\<close>)
    qed
    then show ?thesis using third [OF fN] fs(2) unfolding func_ok_def by blast
  qed
  have v88: "vals st0 + 88 \<in> set (root_slots st0)"
    by (auto simp: root_slots_def vec_slots_def vals_count_def intro!: image_eqI [of _ _ 11])
  then have root: "root_ok ss1 fr st (vals st + 88)" using collected_root [OF rd c] cd(8) by simp
  obtain fp where fp: "function_prototype st0 = Some fp" "v7_is_object fp" using heap_okD(10) [OF r(1)] by blast
  have "vals st0 + 88 \<in> live_slots pl st0" using v88 by (simp add: live_slots_def)
  from collected_slot [OF rd c this] fp cd(8)
  have proto: "\<exists>fp. function_prototype st = Some fp \<and> v7_is_object fp" by (auto simp: function_prototype_def kinds)
  have generic: "generic_ok fr st obj" if "obj \<in> used fr st Generic_object" for obj
    unfolding generic_ok_def by (rule third) (use that cells(3) in blast)
  have disj: "set (pl obj) \<inter> set (pl obj') = {}" if "obj \<in> ?N" "obj' \<in> ?N" "obj \<noteq> obj'" for obj obj'
    by (rule heap_okD(6) [OF r(1)]) (use that cd(1) in blast)+
  show ?thesis
    unfolding heap_ok_def arenas_ok_def cells(3)
    by (intro conjI ballI allI impI) (rule cd(3) cells(5) arena pr_ok object disj generic func root proto; assumption)+
qed

lemma left_counts:
  assumes "left st Z b = Some bc'" "\<not> frozen bc'"
  shows "\<exists>bc. bcodes st b = Some bc \<and> \<not> frozen bc \<and> lit_p bc' = lit_p bc \<and> lit_len bc' = lit_len bc \<and>
    unat (refcnt bc') = unat (refcnt bc) - card (holders st Z b)"
proof -
  obtain bc where bc: "bcodes st b = Some bc" using assms(1) by (cases "bcodes st b") (simp_all add: left_def)
  let ?n = "card (holders st Z b)"
  show ?thesis
  proof (cases "frozen bc \<or> ?n = 0")
    case True
    then show ?thesis using assms bc by (auto simp: left_def Let_def)
  next
    case False
    then have n: "?n < unat (refcnt bc)" and bc': "bc' = bc\<lparr>refcnt := refcnt bc - of_nat ?n\<rparr>"
      using assms(1) bc by (simp_all add: left_def Let_def split: if_splits)
    have "unat (refcnt bc) < 256" using unsigned_less [of "refcnt bc"] by simp
    then have "unat (of_nat ?n :: u8) = ?n" using n by (simp add: unat_of_nat)
    then have "unat (refcnt bc - of_nat ?n) = unat (refcnt bc) - ?n" using n by (simp add: unat_sub word_le_nat_alt)
    then show ?thesis using bc False bc' by auto
  qed
qed

lemma collected_literals:
  assumes rd: "gc_ready ss fl pl st0" and c: "collected ss fl pl st0 ss1 W fr st"
  shows "literals_ok fr st"
proof -
  let ?X = "kept_cells pl st0" and ?F = "used fl st0 Function"
  note r = gc_readyD [OF rd] and cd = collectedD [OF c] and cells = collected_cells [OF gc_readyD(1) [OF rd] c]
  note lit = literals_okD [OF r(4)]
  show ?thesis
    unfolding literals_ok_def collected_roots [OF rd c] cd(12)
  proof (intro conjI allI impI ballI)
    show "bcodes st 0 = None" using lit(1) by (simp add: cd(13) left_def)
    fix b bc' assume bc': "bcodes st b = Some bc'" "\<not> frozen bc'"
    obtain bc where bc: "bcodes st0 b = Some bc" "\<not> frozen bc" "lit_p bc' = lit_p bc" "lit_len bc' = lit_len bc"
      "unat (refcnt bc') = unat (refcnt bc) - card (holders st0 (?F - ?X) b)"
      using left_counts [OF bc'(1) [unfolded cd(13)] bc'(2)] by blast
    have fin: "finite (holders st0 Z b)" if "Z \<subseteq> ?F" for Z
      using that finite_subset [of Z ?F] by (auto simp: holders_def used_def cells_of_def)
    have "holders st (used fr st Function) b = holders st0 (?X \<inter> ?F) b"
      using collected_field [OF rd c, of _ Function 24] unfolding cells(1) holders_def by auto
    moreover have "holders st0 ?F b = holders st0 (?F - ?X) b \<union> holders st0 (?X \<inter> ?F) b" by (auto simp: holders_def)
    moreover have "holders st0 (?F - ?X) b \<inter> holders st0 (?X \<inter> ?F) b = {}" by (auto simp: holders_def)
    ultimately have "card (holders st0 ?F b) = card (holders st0 (?F - ?X) b) + card (holders st (used fr st Function) b)"
      using card_Un_disjoint [OF fin fin, of "?F - ?X" "?X \<inter> ?F"] by simp
    then show "card (holders st (used fr st Function) b) + count_list (mbuf_pointers (act_bcodes st0)) b \<le> unat (refcnt bc')"
      using lit(2) [OF bc(1,2)] bc(5) by simp
    show "\<not> d + x - lit_p bc' < lit_len bc'" if "d \<in> cells_of k st" "x \<in> offsets k" for k d x
      unfolding bc(3,4) by (rule lit(3) [OF bc(1,2) _ that(2)]) (use that(1) cells(2) in blast)
    show "b \<in> set (mbuf_pointers (act_bcodes st0))" if "a \<in> set (root_slots st0)" "a - lit_p bc' < lit_len bc'" for a
      using lit(4) [OF bc(1,2) that(1)] that(2) unfolding bc(3,4) by blast
    show "\<not> a - lit_p bc' < lit_len bc'" if "b' \<noteq> b" "a \<in> set (bcode_slots st b')" for b' a
    proof -
      have "a \<in> set (bcode_slots st0 b')"
        using that(2) by (auto simp: bcode_slots_def cd(13) left_def Let_def split: option.splits if_splits)
      then show ?thesis unfolding bc(3,4) by (rule lit(5) [OF bc(1,2) that(1)])
    qed
  qed
qed

lemma subseq_packed: "subseq ss' ss \<Longrightarrow> length (packed ss') \<le> length (packed ss)"
  by (induction rule: list_emb.induct) (auto simp: packed_def)

lemma collected_ready:
  assumes rd: "gc_ready ss fl pl st0" and c: "collected ss fl pl st0 ss1 W fr st" and sub: "subseq ss1 ss"
  shows "gc_ready ss1 fr pl st"
  unfolding gc_ready_def collected_roots [OF rd c]
proof (intro conjI ballI)
  note r = gc_readyD [OF rd] and cd = collectedD [OF c] and cells = collected_cells [OF gc_readyD(1) [OF rd] c]
  show "heap_ok ss1 fr pl st" by (rule collected_heap [OF rd c])
  show "root_ok ss1 fr st a" if "a \<in> set (root_slots st0)" for a by (rule collected_root [OF rd c that])
  show "literals_ok fr st" by (rule collected_literals [OF rd c])
  show "bcodes st b \<noteq> None" if b: "b \<in> set (mbuf_pointers (act_bcodes st))" for b
  proof -
    have b0: "b \<in> set (mbuf_pointers (act_bcodes st0))" "bcodes st0 b \<noteq> None" using r(3) b unfolding cd(12) by blast+
    then have "b \<noteq> 0" using literals_okD(1) [OF r(4)] by metis
    then show ?thesis using collected_bcode_slots(1) [OF rd c _ _ b0(2)] b0(1) by blast
  qed
  show "no_regexps fr pl st"
    unfolding no_regexps_def
  proof (intro ballI allI impI)
    fix obj p y assume o: "obj \<in> used fr st Generic_object" and p: "p \<in> set (pl obj)" and y: "words st (p + 24) = Some y"
    have oN: "obj \<in> live_objects pl st0" using o cells(3) by blast
    have "set [p + 24, p + 16] \<subseteq> set (slots pl st0 obj)"
      unfolding slots_def prop_slots_def set_append set_concat set_map using p by blast
    then have "p + 24 \<in> live_slots pl st0" using oN unfolding live_slots_def by auto
    from collected_slot [OF rd c this] y obtain x where x: "words st0 (p + 24) = Some x"
      "if tag_of x = 0xFFF8 then \<exists>s. live (vm st0) ss x s \<and> live (vm st) ss1 y s else y = x" by auto
    have "tag_of x \<noteq> 0xFFF2" using r(5) o p x(1) unfolding cells(1) no_regexps_def by blast
    with x(2) show "tag_of y \<noteq> 0xFFF2" by (auto simp: live_def split: if_splits)
  qed
  show "length (packed ss1) < 2 ^ 31" using subseq_packed [OF sub] r(6) by simp
  show "length ss1 < 65536" using list_emb_length [OF sub] r(7) by simp
qed

end
