(* ===== verification/PropertyLists.thy ===== *)
theory PropertyLists
  imports ObjectWrites GcCorrect OwnedValues
begin

text \<open>
  Objects as lists of named properties: what the lookup, the definition and the deletion of a property
  do to the list of an object. A short name is the value that denotes it, a long one is compared as a text.
\<close>

subsection \<open>Names\<close>

definition short_string :: "u8 list \<Rightarrow> val_t" where
  "short_string s =
     (if length s \<le> 4 then inline_payload (of_nat (length s) # s) AND NOT V7_TAG_MASK OR V7_TAG_STRING_I
      else inline_payload s AND NOT V7_TAG_MASK OR V7_TAG_STRING_5)"

lemma mk_short:
  assumes "length s \<le> 5"
  shows "v7_mk_string M A (Static s) (of_nat (length s)) True v = Some (short_string s, v)"
proof -
  consider "length s = 0" | "length s = 1" | "length s = 2" | "length s = 3" | "length s = 4" | "length s = 5"
    using assms by linarith
  then show ?thesis by cases (simp_all add: v7_mk_string_def short_string_def NULL_def)
qed

lemma short_string_data:
  assumes "length s \<le> 5"
  shows "tag_of (short_string s) \<in> {0xFFFA, 0xFFF9, 0xFFF3}" "string_bytes M v (short_string s) = Some s"
proof -
  let ?A = "undefined :: allocator"
  obtain x where x: "v7_mk_string (\<lambda>_. None) ?A (Static s) (of_nat (length s)) True v = Some (x, v)"
    "string_bytes (\<lambda>_. None) v x = Some s" "tag_of x \<in> {0xFFFA, 0xFFF9, 0xFFF3}"
  proof (cases "length s = 5")
    case True
    have "text_at (\<lambda>_. None) (Static s) s" "outside (\<lambda>_. None) (owned_strings v)" by (simp_all add: outside_def)
    from mk_string_five [OF this True, of ?A True] obtain x where "v7_mk_string (\<lambda>_. None) ?A (Static s) 5 True v = Some (x, v)"
      "string_bytes (\<lambda>_. None) v x = Some s" "tag_of x \<in> {0xFFFA, 0xFFF9, 0xFFF3}" by blast
    with True that [of x] show thesis by simp
  next
    case False
    have "text_at (\<lambda>_. None) (Static s) s" "outside (\<lambda>_. None) (owned_strings v)" "length s \<le> 4"
      using assms False by (simp_all add: outside_def)
    from mk_string_short [OF this, of ?A True] that show thesis by blast
  qed
  have e: "x = short_string s" using x(1) mk_short [OF assms] by simp
  show "tag_of (short_string s) \<in> {0xFFFA, 0xFFF9, 0xFFF3}" using x(3) unfolding e .
  obtain bs where "\<And>v. v7_get_string_data v x = Some (Static bs, of_nat (length s))" "take (length s) bs = s"
    "length s \<le> length bs" by (rule inline_data [OF x(3,2)]) blast
  then show "string_bytes M v (short_string s) = Some s"
    using assms unfolding e by (simp add: string_bytes_def unat_of_nat)
qed

definition is_name :: "env \<Rightarrow> v7 \<Rightarrow> u8 list list \<Rightarrow> val_t \<Rightarrow> u8 list \<Rightarrow> bool" where
  "is_name E v ss x s \<longleftrightarrow> denotes (other_memory E) v ss x s \<and> (length s \<le> 5 \<longrightarrow> x = short_string s)"

lemma short_is_name: "length s \<le> 5 \<Longrightarrow> is_name E v ss (short_string s) s"
  using short_string_data [of s] by (simp add: is_name_def denotes_def)

lemma is_name_unique:
  assumes "strings_ok v ss" "is_name E v ss x s" "is_name E v ss x t"
  shows "s = t"
proof -
  have "denotes (other_memory E) v ss x s" "denotes (other_memory E) v ss x t" using assms(2,3) by (simp_all add: is_name_def)
  with denotes_bytes [OF assms(1)] show ?thesis by (metis option.inject)
qed

lemma is_name_short:
  assumes "strings_ok v ss" "is_name E v ss x s" "length t \<le> 5"
  shows "x = short_string t \<longleftrightarrow> s = t"
proof
  show "s = t" if "x = short_string t"
    by (rule is_name_unique [OF assms(1,2)]) (simp add: that short_is_name assms(3))
  show "x = short_string t" if "s = t" using assms(2,3) that by (simp add: is_name_def)
qed

lemma strncmp_nul: "strncmp (xs @ 0 # ys) (xs @ 0 # zs) = 0"
  by (induction xs) auto

lemma strncmp_eq: "length xs = length ys \<Longrightarrow> 0 \<notin> set xs \<or> 0 \<notin> set ys \<Longrightarrow> strncmp xs ys = 0 \<longleftrightarrow> xs = ys"
proof (induction xs ys rule: list_induct2)
  case (Cons x xs y ys)
  then show ?case by (auto simp: word_uint_eq_iff)
qed simp

lemma named_text:
  assumes ok: "strings_ok (vm st) ss" and w: "words st (p + 16) = Some x"
    and d: "denotes (other_memory E) (vm st) ss x s" and len: "length name < 2 ^ 31"
  shows "named E st name p = Some (length s = length name \<and> strncmp s name = 0)"
proof -
  obtain q where q: "v7_get_string_data (vm st) x = Some (q, of_nat (length s))" "length s < 2 ^ 31"
    "fetch (other_memory E) (owned_strings (vm st)) q (length s) = Some s"
    by (rule denotes_data [OF ok d])
  have "of_nat (length s) = (of_nat (length name) :: u64) \<longleftrightarrow> length s = length name"
    using q(2) len by (simp add: word_unat_eq_iff unat_of_nat)
  then show ?thesis
    using w q(1,3) by (cases "length s = length name") (simp_all add: named_def)
qed

subsection \<open>The list of an object\<close>

fun first_named :: "u8 list \<Rightarrow> (u64 \<times> u8 list) list \<Rightarrow> u64" where
  "first_named name [] = 0"
| "first_named name ((p, s) # ps) = (if s = name then p else first_named name ps)"

fun remove_named :: "u8 list \<Rightarrow> (u64 \<times> u8 list) list \<Rightarrow> (u64 \<times> u8 list) list" where
  "remove_named name [] = []"
| "remove_named name ((p, s) # ps) = (if s = name then ps else (p, s) # remove_named name ps)"

definition prop_named :: "env \<Rightarrow> u8 list list \<Rightarrow> js \<Rightarrow> u64 \<Rightarrow> u8 list \<Rightarrow> bool" where
  "prop_named E ss st p s \<longleftrightarrow>
     (\<exists>x. words st (p + 16) = Some x \<and> is_name E (vm st) ss x s) \<and> words st (p + 8) \<noteq> None \<and> words st (p + 24) \<noteq> None"

definition has_props :: "env \<Rightarrow> u8 list list \<Rightarrow> js \<Rightarrow> u64 \<Rightarrow> (u64 \<times> u8 list) list \<Rightarrow> bool" where
  "has_props E ss st obj ps \<longleftrightarrow>
     strings_ok (vm st) ss \<and>
     (\<exists>h. words st obj = Some h \<and> chain (words st) h (map fst ps)) \<and> distinct (map fst ps) \<and>
     (\<exists>a. obj_attributes (words st) obj = Some a \<and> a AND V7_OBJ_DENSE_ARRAY = 0) \<and>
     (\<forall>(p, s) \<in> set ps. prop_named E ss st p s)"

definition in_cells :: "js \<Rightarrow> u64 \<Rightarrow> (u64 \<times> u8 list) list \<Rightarrow> bool" where
  "in_cells st obj ps \<longleftrightarrow>
     spaced st \<and> obj \<in> cells_of Generic_object st \<union> cells_of Function st \<and> fst ` set ps \<subseteq> cells_of Property st"

lemma find_named:
  assumes "chain W h (map fst ps)" "\<forall>(p, s) \<in> set ps. test p = Some (s = name)"
  shows "find_property test W h = Some (first_named name ps)"
  using assms
proof (induction ps arbitrary: h)
  case (Cons q ps)
  then show ?case by (cases q) (subst find_property.simps, auto)
qed (subst find_property.simps, simp)

text \<open>The lookup finds the first property of the name.\<close>

lemma own_property:
  assumes "has_props E ss st (payload v) ps" "v7_is_object v" "0 \<notin> set name" "length name < 2 ^ 31"
  shows "v7_get_own_property E st v name = Some (first_named name ps)"
proof -
  obtain h a where h: "words st (payload v) = Some h" "chain (words st) h (map fst ps)"
    "obj_attributes (words st) (payload v) = Some a" "a AND V7_OBJ_DENSE_ARRAY = 0" "strings_ok (vm st) ss"
    using assms(1) by (auto simp: has_props_def)
  have p: "\<exists>x. words st (p + 16) = Some x \<and> is_name E (vm st) ss x s" "\<exists>b. prop_attributes (words st) p = Some b"
    if "(p, s) \<in> set ps" for p s
    using assms(1) that by (auto simp: has_props_def prop_named_def prop_attributes_def)
  note r = v7_get_own_property_def v7_get_own_property2_def
  show ?thesis
  proof (cases "length name \<le> 5")
    case True
    have t: "\<forall>(p, s) \<in> set ps. do { x \<leftarrow> prop_name (words st) p;
        ok \<leftarrow> map_option (\<lambda>a. True) (prop_attributes (words st) p); Some (x = short_string name \<and> ok) } = Some (s = name)"
      using p is_name_short [OF h(5) _ True] by fastforce
    show ?thesis
      using find_named [OF h(2) t] assms(2) h(1,3,4) True
      by (simp add: r to_object mk_short)
  next
    case False
    have "named E st name p = Some (s = name)" if "(p, s) \<in> set ps" for p s
      using p(1) [OF that] named_text [OF h(5) _ _ assms(4)] strncmp_eq [of s name] assms(3) by (fastforce simp: is_name_def)
    then have t: "\<forall>(p, s) \<in> set ps. do { eq \<leftarrow> named E st name p;
        ok \<leftarrow> map_option (\<lambda>a. True) (prop_attributes (words st) p); Some (eq \<and> ok) } = Some (s = name)"
      using p(2) by fastforce
    show ?thesis
      using find_named [OF h(2) t] assms(2) h(1,3,4) False by (simp add: r to_object)
  qed
qed

text \<open>Words of the object and of its properties are at different places.\<close>

lemma in_cellsD:
  assumes "in_cells st obj ps" "p \<in> fst ` set ps"
  shows "p \<in> cells_of Property st" "q \<in> fst ` set ps \<Longrightarrow> x \<in> {8, 16, 24} \<Longrightarrow> q \<noteq> p + x"
    "x \<in> {0, 8, 16, 24} \<Longrightarrow> y \<in> {0, 8} \<Longrightarrow> p + x \<noteq> obj + y" "p \<noteq> obj"
proof -
  have sp: "spaced st" and o: "\<exists>k. obj \<in> cells_of k st \<and> k \<noteq> Property"
    using assms(1) unfolding in_cells_def by blast+
  show p: "p \<in> cells_of Property st" using assms by (auto simp: in_cells_def)
  show "q \<noteq> p + x" if "q \<in> fst ` set ps" "x \<in> {8, 16, 24}"
  proof
    assume "q = p + x"
    moreover have "q \<in> cells_of Property st" using assms that(1) by (auto simp: in_cells_def)
    ultimately have "(0 :: u64) = x" using spacedD(3) [OF sp _ p, of q Property 0 x] that(2) by auto
    with that(2) show False by auto
  qed
  obtain k where k: "obj \<in> cells_of k st" "k \<noteq> Property" using o by blast
  show x: "p + x \<noteq> obj + y" if "x \<in> {0, 8, 16, 24}" "y \<in> {0, 8}" for x y
    using spacedD(1) [OF sp p k(1), of x y] k(2) that by (cases k) auto
  show "p \<noteq> obj" using x [of 0 0] by simp
qed

lemma prop_named_words:
  assumes "prop_named E ss st p s" "\<forall>x \<in> {8, 16, 24}. W (p + x) = words st (p + x)"
  shows "prop_named E ss (st\<lparr>words := W\<rparr>) p s"
  using assms by (auto simp: prop_named_def)

subsection \<open>Deletion\<close>

lemma del_loop_none:
  assumes "chain (words st) p qs" "\<forall>q \<in> set qs. named E st name q = Some False"
  shows "del_loop E name obj prev p st = Some (- 1, st)"
  using assms
proof (induction qs arbitrary: prev p)
  case (Cons q qs)
  then obtain n where "p = q" "q \<noteq> 0" "words st q = Some n" "chain (words st) n qs" by auto
  with Cons.IH [of n] Cons.prems(2) show ?case by (subst del_loop.simps) simp
qed (subst del_loop.simps, simp)

lemma del_loop_found:
  assumes "chain (words st) p (us @ q # vs)" "\<forall>u \<in> set us. named E st name u = Some False" "named E st name q = Some True"
    "words st q = Some n"
  shows "del_loop E name obj prev p st =
     do { st \<leftarrow> put (if last (prev # us) \<noteq> 0 then last (prev # us) else obj) n st; Some (0, st) }"
  using assms(1,2)
proof (induction us arbitrary: prev p)
  case Nil
  with assms(3,4) show ?case by (subst del_loop.simps) auto
next
  case (Cons u us)
  then obtain m where "p = u" "u \<noteq> 0" "words st u = Some m" "chain (words st) m (us @ q # vs)" by auto
  with Cons.IH [of m u] Cons.prems(2) show ?case by (subst del_loop.simps) simp
qed

lemma chain_split: "chain W h (us @ q # vs) \<Longrightarrow> \<exists>n. W q = Some n \<and> q \<noteq> 0 \<and> chain W n vs"
  by (induction us arbitrary: h) auto

lemma chain_unlink:
  assumes "chain W h (us @ q # vs)" "us \<noteq> []" "distinct (us @ q # vs)" "W q = Some n"
  shows "chain (W(last us \<mapsto> n)) h (us @ vs)"
  using assms
proof (induction us arbitrary: h)
  case (Cons u us)
  show ?case
  proof (cases "us = []")
    case True
    then have "chain W n vs" "u \<notin> set vs" using Cons.prems by auto
    then have "chain (W(u \<mapsto> n)) n vs" by - (rule chain_words [of W], auto)
    with True Cons.prems show ?thesis by (simp add: fun_upd_def cong: if_cong)
  next
    case False
    moreover obtain m where m: "h = u" "u \<noteq> 0" "W u = Some m" "chain W m (us @ q # vs)" using Cons.prems(1) by auto
    moreover have "u \<noteq> last us" using False Cons.prems(3) by auto
    ultimately show ?thesis using Cons.IH [OF m(4)] Cons.prems(3,4) by simp
  qed
qed simp

lemma remove_named_split:
  assumes "name \<in> snd ` set ps"
  obtains us p vs where "ps = us @ (p, name) # vs" "name \<notin> snd ` set us" "remove_named name ps = us @ vs"
proof -
  have "\<exists>us p vs. ps = us @ (p, name) # vs \<and> name \<notin> snd ` set us \<and> remove_named name ps = us @ vs"
    using assms
  proof (induction ps)
    case (Cons a ps)
    obtain p s where a: "a = (p, s)" by (cases a)
    show ?case
    proof (cases "s = name")
      case True
      with a show ?thesis by (intro exI [of _ "[]"] exI [of _ p] exI [of _ ps]) simp
    next
      case False
      with Cons a obtain us q vs where "ps = us @ (q, name) # vs" "name \<notin> snd ` set us" "remove_named name ps = us @ vs" by auto
      with a False show ?thesis by (intro exI [of _ "a # us"] exI [of _ q] exI [of _ vs]) auto
    qed
  qed simp
  with that show thesis by blast
qed

lemma named_props:
  assumes "has_props E ss st obj ps" "0 \<notin> set name" "length name < 2 ^ 31" "(p, s) \<in> set ps"
  shows "named E st name p = Some (s = name)"
proof -
  obtain x where x: "words st (p + 16) = Some x" "denotes (other_memory E) (vm st) ss x s" "strings_ok (vm st) ss"
    using assms(1,4) by (auto simp: has_props_def prop_named_def is_name_def)
  show ?thesis using named_text [OF x(3,1,2) assms(3)] strncmp_eq [of s name] assms(2) by auto
qed

lemma del_spec:
  assumes h: "has_props E ss st (payload v) ps" and c: "in_cells st (payload v) ps" and v: "v7_is_object v"
    and n: "0 \<notin> set name" "length name < 2 ^ 31"
  shows "\<exists>W. v7_del E v name st = Some (if name \<in> snd ` set ps then 0 else - 1, st\<lparr>words := W\<rparr>) \<and>
     has_props E ss (st\<lparr>words := W\<rparr>) (payload v) (remove_named name ps) \<and>
     (\<forall>a. a \<notin> insert (payload v) (fst ` set ps) \<longrightarrow> W a = words st a) \<and> (name \<notin> snd ` set ps \<longrightarrow> W = words st)"
proof (cases "name \<in> snd ` set ps")
  case False
  then have e: "remove_named name ps = ps" by (induction ps rule: remove_named.induct) auto
  obtain hd where "words st (payload v) = Some hd" "chain (words st) hd (map fst ps)" using h by (auto simp: has_props_def)
  moreover have "\<forall>q \<in> set (map fst ps). named E st name q = Some False"
    using named_props [OF h n] False by force
  ultimately have "v7_del E v name st = Some (- 1, st)"
    using v del_loop_none [of st hd "map fst ps" E name "payload v" 0] by (simp add: v7_del_def to_object)
  with False h e show ?thesis by (intro exI [of _ "words st"]) simp
next
  case True
  obtain us p vs where ps: "ps = us @ (p, name) # vs" "name \<notin> snd ` set us" "remove_named name ps = us @ vs"
    by (rule remove_named_split [OF True])
  obtain hd a where hd: "words st (payload v) = Some hd" "chain (words st) hd (map fst us @ p # map fst vs)"
    "distinct (map fst us @ p # map fst vs)" "obj_attributes (words st) (payload v) = Some a" "a AND V7_OBJ_DENSE_ARRAY = 0"
    using h by (auto simp: has_props_def ps)
  obtain n where nx: "words st p = Some n" "p \<noteq> 0" "chain (words st) n (map fst vs)" using chain_split [OF hd(2)] by blast
  let ?l = "if us = [] then payload v else fst (last us)"
  let ?W = "(words st)(?l \<mapsto> n)"
  have l: "?l \<in> insert (payload v) (fst ` set us)" by simp
  have nz: "us \<noteq> [] \<Longrightarrow> fst (last us) \<noteq> 0 \<and> words st (fst (last us)) \<noteq> None"
  proof -
    assume "us \<noteq> []"
    then have e: "us = butlast us @ [last us]" by simp
    have "map fst us @ p # map fst vs = map fst (butlast us) @ fst (last us) # p # map fst vs"
      by (subst e) (simp only: map_append list.map append_assoc append_Cons append_Nil)
    with chain_split [of "words st" hd "map fst (butlast us)" "fst (last us)" "p # map fst vs"] hd(2) show ?thesis by auto
  qed
  have t: "\<forall>u \<in> set (map fst us). named E st name u = Some False" "named E st name p = Some True"
    using named_props [OF h assms(4,5)] ps(1,2) by force+
  have "last (0 # map fst us) = (if us = [] then 0 else fst (last us))" by (simp add: last_map)
  then have run: "v7_del E v name st = Some (0, st\<lparr>words := ?W\<rparr>)"
    using v hd(1) nz del_loop_found [OF hd(2) t nx(1), of "payload v" 0] by (simp add: v7_del_def to_object put_def)
  have ch: "chain ?W (if us = [] then n else hd) (map fst (us @ vs))"
  proof (cases "us = []")
    case True
    have "q \<noteq> payload v" if "q \<in> set (map fst vs)" for q
      by (rule in_cellsD(4) [OF c]) (use that ps(1) in auto)
    then have "\<forall>q \<in> set (map fst vs). ((words st)(payload v \<mapsto> n)) q = words st q" by simp
    then have "chain ((words st)(payload v \<mapsto> n)) n (map fst vs)" by (rule chain_words [OF nx(3)])
    with True show ?thesis by simp
  next
    case False
    with chain_unlink [OF hd(2) _ hd(3) nx(1)] show ?thesis by (simp add: last_map)
  qed
  have pn: "prop_named E ss (st\<lparr>words := ?W\<rparr>) q s" if q: "(q, s) \<in> set (us @ vs)" for q s
  proof (rule prop_named_words)
    have qs: "(q, s) \<in> set ps" using q ps(1) by auto
    then show "prop_named E ss st q s" using h by (auto simp: has_props_def)
    have qf: "q \<in> fst ` set ps" using qs by force
    have "q + x \<noteq> ?l" if x: "x \<in> {8, 16, 24}" for x
    proof (cases "us = []")
      case True
      with in_cellsD(3) [OF c qf, of x 0] x show ?thesis by auto
    next
      case False
      then have "fst (last us) \<in> fst ` set ps" using ps(1) by auto
      from in_cellsD(2) [OF c qf this x] False show ?thesis by simp
    qed
    then show "\<forall>x \<in> {8, 16, 24}. ?W (q + x) = words st (q + x)" by simp
  qed
  have hd': "?W (payload v) = Some (if us = [] then n else hd)"
  proof (cases "us = []")
    case False
    then have "fst (last us) \<in> fst ` set ps" using ps(1) by auto
    from in_cellsD(4) [OF c this] hd(1) False show ?thesis by simp
  qed simp
  have "?W (payload v + 8) = words st (payload v + 8)"
  proof (cases "us = []")
    case False
    then have "fst (last us) \<in> fst ` set ps" using ps(1) by auto
    from in_cellsD(3) [OF c this, of 0 8] False show ?thesis by simp
  qed simp
  then have at: "obj_attributes ?W (payload v) = Some a" using hd(4) by (simp add: obj_attributes_def)
  have "has_props E ss (st\<lparr>words := ?W\<rparr>) (payload v) (us @ vs)"
    using h hd' ch hd(3,5) at pn unfolding has_props_def by auto
  with run True ps l show ?thesis by (intro exI [of _ ?W]) auto
qed

subsection \<open>Allocation\<close>

lemma alloc_head:
  assumes "spaced st" "arena_ok k (c # f) st"
  shows "\<exists>st'. gc_alloc_cell C collect k st = Some (c, st') \<and> c \<in> cells_of k st \<and> c \<notin> set f \<and> arena_ok k f st' \<and>
     (\<forall>x \<in> offsets k. words st' (c + x) = Some 0) \<and>
     (\<forall>k'. \<forall>d \<in> cells_of k' st. \<forall>y \<in> offsets k'. k' \<noteq> k \<or> d \<noteq> c \<longrightarrow> words st' (d + y) = words st (d + y)) \<and>
     (\<forall>a. outside_cells st a \<longrightarrow> words st' a = words st a) \<and>
     vm st' = vm st \<and> (\<forall>k'. cells_of k' st' = cells_of k' st) \<and> strict_mode st' = strict_mode st"
proof -
  note a = arena_okD [OF assms(2)]
  let ?a = "arena_of k st"
  have c: "free_cells ?a = c" "c \<noteq> 0" "c \<in> cells_of k st" using a(2,4) by auto
  obtain l where l: "words st c = Some l" "chain (words st) l f" using a(2) by auto
  have "l = 0 \<or> l \<in> cells_of k st" using chain_head [OF l(2)] a(4) by (cases f) auto
  then have "l AND 7 = 0" using cell_small(2) [OF assms(1)] by auto
  then have "(l AND 7) AND 1 = 0" by simp
  then have "l AND 1 = 0" by (simp add: and.assoc)
  then have "l AND NOT 1 = l" using bit.conj_disj_distrib [of l 1 "NOT 1"] by simp
  then have upd: "(words st)(c \<mapsto> l AND NOT 1) = words st" using l(1) by (simp add: fun_upd_idem)
  let ?st = "set_arena k (?a\<lparr>free_cells := l, allocations := allocations ?a + 1, alive := alive ?a + 1\<rparr>)
      (st\<lparr>words := clear c (csize k) (words st)\<rparr>)"
  have run: "gc_alloc_cell C collect k st = Some (c, ?st)"
    using c(1,2) l(1) upd a(1) by (simp add: gc_alloc_cell_def UNMARK_def Let_def)
  note cl = clear_cell [OF assms(1) c(3)]
  have z: "words ?st (c + x) = Some 0" if "x \<in> offsets k" for x
    using cl(3) [OF that, of "words st"] a(5) [OF c(3) that] by auto
  have oth: "words ?st (d + y) = words st (d + y)" if "d \<in> cells_of k' st" "y \<in> offsets k'" "k' \<noteq> k \<or> d \<noteq> c" for k' d y
    using cl(1) [OF that] by simp
  have cells': "cells_of k' ?st = cells_of k' st" for k'
    by (cases k; cases k') (simp_all add: cells_of_def arena_cells_def)
  note cells = cells' [of k]
  have "chain (words ?st) l f"
    by (rule chain_words [OF l(2)]) (use oth [of _ k 0] a(3,4) in auto)
  moreover have "words ?st (d + y) \<noteq> None" if "d \<in> cells_of k st" "y \<in> offsets k" for d y
    using z [OF that(2)] oth [OF that] a(5) [OF that] by (cases "d = c") auto
  moreover have "arena_cells (arena_of k ?st) = arena_cells ?a" by (simp add: arena_cells_def)
  ultimately have "arena_ok k f ?st"
    using assms(2) unfolding arena_ok_def Let_def cells by simp
  moreover have "vm ?st = vm st" "strict_mode ?st = strict_mode st" by (cases k; simp)+
  ultimately show ?thesis
    using run c(3) a(3) z oth cl(2) cells' by (intro exI [of _ ?st]) simp
qed

subsection \<open>Making a property\<close>

lemma put_some: "words st a = Some y \<Longrightarrow> put a x st = Some (st\<lparr>words := (words st)(a \<mapsto> x)\<rparr>)"
  by (simp add: put_def)

lemma put_attributes_some:
  "words st (p + 8) = Some w \<Longrightarrow>
     put_attributes p a st = Some (st\<lparr>words := (words st)(p + 8 \<mapsto> w AND NOT 0xFFFF OR ucast a)\<rparr>)"
  by (simp add: put_attributes_def put_def)

lemma low_attributes: "ucast (w AND NOT 0xFFFF OR ucast (a :: u16) :: u64) = a"
proof -
  have m: "(0xFFFF :: u64) = mask 16" by (simp add: mask_eq_exp_minus_1)
  show ?thesis unfolding m by (rule bit_word_eqI) (auto simp: bit_simps)
qed

text \<open>What a step on one property cell leaves alone: the words of all other cells, and those outside the cells.\<close>

definition only_cell :: "u64 \<Rightarrow> js \<Rightarrow> js \<Rightarrow> bool" where
  "only_cell c st st' \<longleftrightarrow>
     (\<forall>k. \<forall>d \<in> cells_of k st. \<forall>y \<in> offsets k. k \<noteq> Property \<or> d \<noteq> c \<longrightarrow> words st' (d + y) = words st (d + y)) \<and>
     (\<forall>a. outside_cells st a \<longrightarrow> words st' a = words st a) \<and>
     vm st' = vm st \<and> (\<forall>k. cells_of k st' = cells_of k st) \<and> strict_mode st' = strict_mode st"

lemma cells_words: "cells_of k (st\<lparr>words := W\<rparr>) = cells_of k st"
  by (cases k) (simp_all add: cells_of_def)

lemma arena_ok_words:
  assumes "arena_ok k f st" "\<forall>q \<in> set f. W q = words st q" "\<forall>c \<in> cells_of k st. \<forall>x \<in> offsets k. W (c + x) \<noteq> None"
  shows "arena_ok k f (st\<lparr>words := W\<rparr>)"
proof -
  have a: "arena_of k (st\<lparr>words := W\<rparr>) = arena_of k st" "cells_of k (st\<lparr>words := W\<rparr>) = cells_of k st"
    by (cases k; simp add: cells_of_def)+
  have "chain W (free_cells (arena_of k st)) f"
    by (rule chain_words [OF _ assms(2)]) (rule arena_okD(2) [OF assms(1)])
  with assms(1,3) show ?thesis unfolding arena_ok_def Let_def a by simp
qed

lemma map_upd_some: "W a \<noteq> None \<Longrightarrow> (W(b \<mapsto> x)) a \<noteq> None"
  by simp

lemma mk_property_spec:
  assumes "spaced st" "arena_ok Property (c # f) st"
  shows "\<exists>st'. v7_mk_property E n st = Some (c, st') \<and> c \<in> cells_of Property st \<and> c \<notin> set f \<and> arena_ok Property f st' \<and>
     words st' c = Some 0 \<and> words st' (c + 8) = Some 0 \<and> words st' (c + 16) = Some v7_mk_undefined \<and>
     words st' (c + 24) = Some v7_mk_undefined \<and> only_cell c st st'"
proof -
  obtain st1 where a: "gc_alloc_cell (calloc_at E) (maybe_gc E n) Property st = Some (c, st1)" "c \<in> cells_of Property st"
      "c \<notin> set f" "arena_ok Property f st1" "\<forall>x \<in> offsets Property. words st1 (c + x) = Some 0"
      "\<forall>k. \<forall>d \<in> cells_of k st. \<forall>y \<in> offsets k. k \<noteq> Property \<or> d \<noteq> c \<longrightarrow> words st1 (d + y) = words st (d + y)"
      "\<forall>a. outside_cells st a \<longrightarrow> words st1 a = words st a" "vm st1 = vm st" "\<forall>k. cells_of k st1 = cells_of k st"
      "strict_mode st1 = strict_mode st"
    using alloc_head [OF assms] by metis
  have w: "words st1 c = Some 0" "words st1 (c + 8) = Some 0" "words st1 (c + 16) = Some 0" "words st1 (c + 24) = Some 0"
    using a(5) bspec [OF a(5), of 0] by simp_all
  let ?W = "(words st1)(c \<mapsto> 0, c + 16 \<mapsto> v7_mk_undefined, c + 24 \<mapsto> v7_mk_undefined, c + 8 \<mapsto> 0)"
  let ?st = "st1\<lparr>words := ?W\<rparr>"
  have run: "v7_mk_property E n st = Some (c, ?st)"
    using a(1) w by (simp add: v7_mk_property_def new_cell_def put_some put_attributes_some)
  have far: "d + y \<noteq> c + x" if "d \<in> cells_of k st" "y \<in> offsets k" "k \<noteq> Property \<or> d \<noteq> c" "x \<in> offsets Property" for d k y x
    using spacedD(1,2) [OF assms(1) that(1) a(2) that(2,4)] that(3) by blast
  have o1: "words ?st (d + y) = words st (d + y)" if "d \<in> cells_of k st" "y \<in> offsets k" "k \<noteq> Property \<or> d \<noteq> c" for d k y
    using a(6) that far [OF that, of 0] far [OF that, of 8] far [OF that, of 16] far [OF that, of 24] by simp
  have o2: "words ?st b = words st b" if "outside_cells st b" for b
  proof -
    have "b \<noteq> c + x" if "x \<in> {0, 8, 16, 24}" for x
      using \<open>outside_cells st b\<close> a(2) that unfolding outside_cells_def by fastforce
    from this [of 0] this [of 8] this [of 16] this [of 24] show ?thesis using a(7) that by simp
  qed
  have q: "\<forall>q \<in> set f. ?W q = words st1 q"
  proof
    fix q assume "q \<in> set f"
    then have q: "q \<in> cells_of Property st" "q \<noteq> c" using arena_okD(4) [OF assms(2)] a(3) by auto
    have "?W (q + 0) = words st1 (q + 0)"
      using far [OF q(1), of 0 0] far [OF q(1), of 0 8] far [OF q(1), of 0 16] far [OF q(1), of 0 24] q(2) by simp
    then show "?W q = words st1 q" by simp
  qed
  have m: "\<forall>d \<in> cells_of Property st1. \<forall>x \<in> offsets Property. ?W (d + x) \<noteq> None"
  proof (intro ballI)
    fix d x assume "d \<in> cells_of Property st1" "x \<in> offsets Property"
    with arena_okD(5) [OF a(4)] have "words st1 (d + x) \<noteq> None" by blast
    then show "?W (d + x) \<noteq> None" by (intro map_upd_some)
  qed
  have "arena_ok Property f ?st" by (rule arena_ok_words [OF a(4) q m])
  moreover have "only_cell c st ?st"
    unfolding only_cell_def using o1 o2 a(8,9,10) by (auto simp: cells_of_def)
  moreover have "words ?st c = Some 0" "words ?st (c + 8) = Some 0" "words ?st (c + 16) = Some v7_mk_undefined"
    "words ?st (c + 24) = Some v7_mk_undefined" by simp_all
  ultimately show ?thesis using run a(2,3) by blast
qed

lemma create_spec:
  assumes sp: "arena_ok Property (c # f) st" and h: "has_props E ss st obj ps" and c: "in_cells st obj ps"
    and new: "c \<notin> fst ` set ps" and ext: "obj_attributes (words st) obj = Some a" "a AND V7_OBJ_NOT_EXTENSIBLE = 0"
    and at: "outside_cells st name_at" "outside_cells st val_at" "words st name_at = Some x" "words st val_at = Some y"
    and x: "is_name E (vm st) ss x name"
  shows "\<exists>st'. create_property E G n name_at val_at obj desc asg st = Some (True, c, st') \<and>
     c \<in> cells_of Property st \<and> has_props E ss st' obj ((c, name) # ps) \<and> in_cells st' obj ((c, name) # ps) \<and>
     arena_ok Property f st' \<and> words st' (c + 24) = Some y \<and> prop_attributes (words st') c = Some (apply_attrs_desc desc 0) \<and>
     only_cell c st (st'\<lparr>words := (words st')(obj := words st obj)\<rparr>)"
proof -
  have sp0: "spaced st" using c by (simp add: in_cells_def)
  obtain st1 where m: "v7_mk_property E n st = Some (c, st1)" "c \<in> cells_of Property st" "c \<notin> set f" "arena_ok Property f st1"
     "words st1 c = Some 0" "words st1 (c + 8) = Some 0" "words st1 (c + 16) = Some v7_mk_undefined"
     "words st1 (c + 24) = Some v7_mk_undefined" "only_cell c st st1"
    using mk_property_spec [OF sp0 sp] by blast
  obtain hd where hd: "words st obj = Some hd" "chain (words st) hd (map fst ps)" using h by (auto simp: has_props_def)
  have ob: "obj \<in> cells_of Generic_object st \<or> obj \<in> cells_of Function st" using c by (auto simp: in_cells_def)
  then obtain ko where ko: "obj \<in> cells_of ko st" "ko \<noteq> Property" by blast
  have o1: "words st1 (d + y) = words st (d + y)" if "d \<in> cells_of k st" "y \<in> offsets k" "k \<noteq> Property \<or> d \<noteq> c" for d k y
    using m(9) that unfolding only_cell_def by blast
  have o2: "words st1 b = words st b" if "outside_cells st b" for b using m(9) that unfolding only_cell_def by blast
  have o3: "vm st1 = vm st" "\<And>k. cells_of k st1 = cells_of k st" "strict_mode st1 = strict_mode st"
    using m(9) unfolding only_cell_def by blast+
  have far: "d + y \<noteq> c + x" if "d \<in> cells_of k st" "y \<in> offsets k" "k \<noteq> Property \<or> d \<noteq> c" "x \<in> {0, 8, 16, 24}" for d k y x
    using spacedD(1,2) [OF sp0 that(1) m(2) that(2), of x] that(3,4) by auto
  have out: "b \<noteq> c + x" "b \<noteq> obj" if "outside_cells st b" "x \<in> {0, 8, 16, 24}" for b x
    using that m(2) ko offsets_0(1) [of ko] unfolding outside_cells_def by fastforce+
  have obj: "words st1 obj = Some hd" "words st1 (obj + 8) = words st (obj + 8)"
    using o1 [OF ko(1), of 0] o1 [OF ko(1), of 8] ko(2) hd(1) by simp_all
  have objc: "obj \<noteq> c + x" "obj + 8 \<noteq> c + x" if "x \<in> {0, 8, 16, 24}" for x
    using far [OF ko(1), of 0 x] far [OF ko(1), of 8 x] ko(2) that by simp_all
  have objc': "obj \<noteq> c" "obj \<noteq> c + 8" "obj \<noteq> c + 16" "obj \<noteq> c + 24" "obj + 8 \<noteq> c" "obj + 8 \<noteq> c + 8" "obj + 8 \<noteq> c + 16" "obj + 8 \<noteq> c + 24"
    using objc [of 0] objc [of 8] objc [of 16] objc [of 24] by simp_all
  let ?A = "0 AND NOT 0xFFFF OR ucast (apply_attrs_desc desc V7_DEFAULT_PROPERTY_ATTRS) :: u64"
  let ?W = "(words st1)(c + 16 \<mapsto> x, c + 24 \<mapsto> y, c + 8 \<mapsto> ?A, c \<mapsto> hd, obj \<mapsto> c)"
  let ?st = "st1\<lparr>words := ?W\<rparr>"
  have v: "words st1 name_at = Some x" "words st1 val_at = Some y" "val_at \<noteq> c + 16"
    using o2 [OF at(1)] o2 [OF at(2)] at(3,4) out(1) [OF at(2), of 16] by simp_all
  have run: "create_property E G n name_at val_at obj desc asg st = Some (True, c, ?st)"
    using ext m(1,5-8) v obj objc' by (simp add: create_property_def put_some put_attributes_some)
  have keep: "?W (d + y) = words st (d + y)" if "d \<in> cells_of k st" "y \<in> offsets k" "k \<noteq> Property \<or> d \<noteq> c" "d + y \<noteq> obj" for d k y
    using o1 [OF that(1-3)] far [OF that(1-3), of 0] far [OF that(1-3), of 8] far [OF that(1-3), of 16] far [OF that(1-3), of 24] that(4) by simp
  have keep2: "?W b = words st b" if "outside_cells st b" for b
    using o2 [OF that] out [OF that, of 0] out [OF that, of 8] out [OF that, of 16] out [OF that, of 24] by simp
  have pw: "?W (p + x) = words st (p + x)" if "p \<in> fst ` set ps" "x \<in> {0, 8, 16, 24}" for p x
  proof (rule keep [of p Property])
    show "p \<in> cells_of Property st" by (rule in_cellsD(1) [OF c that(1)])
    show "p + x \<noteq> obj" using in_cellsD(3) [OF c that(1), of x 0] that(2) by simp
  qed (use that new in auto)
  have "chain ?W hd (map fst ps)"
    by (rule chain_words [OF hd(2)]) (use pw [of _ 0] in auto)
  moreover have c0: "c \<noteq> 0" using cell_small(1) [OF sp0 m(2)] .
  ultimately have ch: "chain ?W c (map fst ((c, name) # ps))" using objc' by simp
  have pn: "prop_named E ss ?st p s" if "(p, s) \<in> set ps" for p s
  proof -
    have "p \<in> fst ` set ps" using that by force
    then have "\<forall>x \<in> {8, 16, 24}. ?W (p + x) = words st (p + x)" using pw by blast
    moreover have "prop_named E ss st p s" using h that by (auto simp: has_props_def)
    ultimately show ?thesis using o3(1) by (simp add: prop_named_def)
  qed
  have pc: "prop_named E ss ?st c name"
    using x o3(1) objc' by (simp add: prop_named_def)
  have oa: "obj_attributes ?W obj = obj_attributes (words st) obj" using obj(2) objc' by (simp add: obj_attributes_def)
  have hp: "has_props E ss ?st obj ((c, name) # ps)"
    using h ch new pn pc oa o3(1) unfolding has_props_def by auto
  have cl: "cells_of k (st1\<lparr>words := W\<rparr>) = cells_of k st" for k W
    using o3(2) [of k] by (simp add: cells_words)
  have ic: "in_cells ?st obj ((c, name) # ps)"
  proof -
    have "spaced ?st = spaced st" by (simp only: spaced_def cl)
    moreover have "fst ` set ((c, name) # ps) \<subseteq> cells_of Property st" using c m(2) by (simp add: in_cells_def)
    moreover have "spaced st" "obj \<in> cells_of Generic_object st \<union> cells_of Function st" using c by (simp_all add: in_cells_def)
    ultimately show ?thesis unfolding in_cells_def cl by blast
  qed
  have q: "\<forall>q \<in> set f. ?W q = words st1 q"
  proof
    fix q assume "q \<in> set f"
    then have q: "q \<in> cells_of Property st" "q \<noteq> c" using arena_okD(4) [OF sp] m(3) by auto
    have "q + 0 \<noteq> obj" using spacedD(1) [OF sp0 q(1) ko(1), of 0 0] ko(2) by auto
    then have "?W (q + 0) = words st (q + 0)" using keep [OF q(1), of 0] q(2) by simp
    moreover have "words st1 (q + 0) = words st (q + 0)" using o1 [OF q(1), of 0] q(2) by simp
    ultimately show "?W q = words st1 q" by simp
  qed
  have "\<forall>d \<in> cells_of Property st1. \<forall>x \<in> offsets Property. ?W (d + x) \<noteq> None"
  proof (intro ballI)
    fix d x assume "d \<in> cells_of Property st1" "x \<in> offsets Property"
    with arena_okD(5) [OF m(4)] have "words st1 (d + x) \<noteq> None" by blast
    then show "?W (d + x) \<noteq> None" by (intro map_upd_some)
  qed
  from arena_ok_words [OF m(4) q this] have ar: "arena_ok Property f ?st" .
  have pa: "words ?st (c + 24) = Some y" "prop_attributes (words ?st) c = Some (apply_attrs_desc desc 0)"
    using objc' low_attributes [of 0 "apply_attrs_desc desc 0"] by (simp_all add: prop_attributes_def V7_DEFAULT_PROPERTY_ATTRS_def)
  have "only_cell c st (?st\<lparr>words := ?W(obj := words st obj)\<rparr>)"
    unfolding only_cell_def using keep keep2 out(2) [of _ 0] o3 cl by (auto simp: fun_upd_def)
  with run m(2) hp ic ar pa m(9) show ?thesis by (intro exI [of _ ?st]) auto
qed

subsection \<open>Variables the collector knows\<close>

text \<open>The bag of values C code holds does not matter for strings.\<close>

lemma string_data_owned [simp]: "v7_get_string_data (v\<lparr>owned_values := m\<rparr>) x = v7_get_string_data v x"
  unfolding v7_get_string_data_def gc_check_valid_allocation_seqn_def gc_is_valid_allocation_seqn_def Let_def
  by (simp cong: if_cong)

lemma strings_owned [simp]: "strings_ok (v\<lparr>owned_values := m\<rparr>) ss \<longleftrightarrow> strings_ok v ss"
  by (simp add: strings_ok_def)

lemma is_name_owned [simp]: "is_name E (v\<lparr>owned_values := m\<rparr>) ss x s \<longleftrightarrow> is_name E v ss x s"
  by (simp add: is_name_def denotes_def live_def gc_is_valid_allocation_seqn_def string_bytes_def)

lemma own_both:
  assumes p: "pointers (owned_values v) qs" "unat (mb_len (owned_values v)) < 2 ^ 49"
    and d: "a \<notin> set qs" "b \<notin> set qs" "a \<noteq> b"
  obtains m where "do { v \<leftarrow> v7_own A a v; v7_own A b v } = Some (v\<lparr>owned_values := m\<rparr>)"
    "\<And>v'. owned_values v' = m \<Longrightarrow> \<exists>m' qs' r. do { (_, v') \<leftarrow> v7_disown b v'; v7_disown a v' } = Some (r, v'\<lparr>owned_values := m'\<rparr>) \<and>
       pointers m' qs' \<and> mset qs' = mset qs"
proof -
  obtain m1 where m1: "v7_own A a v = Some (v\<lparr>owned_values := m1\<rparr>)" "pointers m1 (qs @ [a]) \<or> m1 = owned_values v"
    by (rule own_spec [OF p(1)]) (use p(2) in auto)
  then obtain qs1 where q1: "pointers m1 qs1" "qs1 = qs @ [a] \<or> qs1 = qs" using p(1) by blast
  let ?v = "v\<lparr>owned_values := m1\<rparr>"
  have "unat (mb_len m1) \<le> 8 * length qs + 8" using pointers_len [OF q1(1)] q1(2) by auto
  then have "unat (mb_len (owned_values ?v)) < 2 ^ 50" using pointers_len [OF p(1)] p(2) by simp
  moreover have o: "pointers (owned_values ?v) qs1" using q1(1) by simp
  ultimately obtain m2 where m2: "v7_own A b ?v = Some (?v\<lparr>owned_values := m2\<rparr>)" "pointers m2 (qs1 @ [b]) \<or> m2 = owned_values ?v"
    using own_spec [OF o, where A = A and p = b] by blast
  then obtain qs2 where q2: "pointers m2 qs2" "qs2 = qs1 @ [b] \<or> qs2 = qs1" using q1(1) by auto
  have ms: "mset qs2 - {#b#} - {#a#} = mset qs"
    using q1(2) q2(2) d by (auto simp: diff_single_trivial)
  have "\<exists>m' qs' r. do { (_, v') \<leftarrow> v7_disown b v'; v7_disown a v' } = Some (r, v'\<lparr>owned_values := m'\<rparr>) \<and>
       pointers m' qs' \<and> mset qs' = mset qs" if ov: "owned_values v' = m2" for v'
  proof -
    obtain m3 qs3 where d3: "v7_disown b v' = Some (b \<in> set qs2, v'\<lparr>owned_values := m3\<rparr>)" "pointers m3 qs3" "mset qs3 = mset qs2 - {#b#}"
      by (rule disown_spec [of v' qs2 b]) (use q2(1) ov in auto)
    let ?v3 = "v'\<lparr>owned_values := m3\<rparr>"
    obtain m4 qs4 where d4: "v7_disown a ?v3 = Some (a \<in> set qs3, ?v3\<lparr>owned_values := m4\<rparr>)" "pointers m4 qs4" "mset qs4 = mset qs3 - {#a#}"
      by (rule disown_spec [of ?v3 qs3 a]) (use d3(2) in auto)
    then show ?thesis using d3 ms by (intro exI [of _ m4] exI [of _ qs4] exI [of _ "a \<in> set qs3"]) simp
  qed
  with m1(1) m2(1) show thesis by (intro that [of m2]) simp_all
qed

text \<open>The state \<open>def_property_v\<close> works in: both arguments are variables, and owned if there was memory for it.\<close>

definition entered :: "u64 \<Rightarrow> u64 \<Rightarrow> val_t \<Rightarrow> val_t \<Rightarrow> mbuf \<Rightarrow> js \<Rightarrow> js" where
  "entered name_at val_at x y m st =
     st\<lparr>vm := (vm st)\<lparr>owned_values := m\<rparr>, words := (words st)(name_at \<mapsto> x, val_at \<mapsto> y)\<rparr>"

lemma def_property_v_run:
  assumes s: "strings_ok (vm st) ss" "is_name E (vm st) ss x name"
    and p: "pointers (owned_values (vm st)) qs" "unat (mb_len (owned_values (vm st))) < 2 ^ 49"
    and d: "name_at \<notin> set qs" "val_at \<notin> set qs" "name_at \<noteq> val_at"
    and inner: "\<And>m. define_own E G n name_at val_at obj name desc asg (entered name_at val_at x y m st) = Some (ok, r, st' m) \<and>
       owned_values (vm (st' m)) = m"
  shows "\<exists>m m' qs'. def_property_v E G n name_at val_at obj x desc y asg st =
     Some (ok, r, st' m\<lparr>vm := vm (st' m)\<lparr>owned_values := m'\<rparr>\<rparr>) \<and> pointers m' qs' \<and> mset qs' = mset qs"
proof -
  have "denotes (other_memory E) (vm st) ss x name" using s(2) by (simp add: is_name_def)
  then obtain q where q: "v7_get_string_data (vm st) x = Some (q, of_nat (length name))" "length name < 2 ^ 31"
    "fetch (other_memory E) (owned_strings (vm st)) q (length name) = Some name"
    by (rule denotes_data [OF s(1)])
  obtain m where m: "do { v \<leftarrow> v7_own (reallocator E) name_at (vm st); v7_own (reallocator E) val_at v } =
      Some ((vm st)\<lparr>owned_values := m\<rparr>)"
    "\<And>v'. owned_values v' = m \<Longrightarrow> \<exists>m' qs' r. do { (_, v') \<leftarrow> v7_disown val_at v'; v7_disown name_at v' } =
       Some (r, v'\<lparr>owned_values := m'\<rparr>) \<and> pointers m' qs' \<and> mset qs' = mset qs"
    by (rule own_both [OF p d]) blast
  have "owned_values (vm (st' m)) = m" using inner [of m] by blast
  from m(2) [OF this] obtain m' qs' b where m': "do { (_, v') \<leftarrow> v7_disown val_at (vm (st' m)); v7_disown name_at v' } =
       Some (b, vm (st' m)\<lparr>owned_values := m'\<rparr>)" "pointers m' qs'" "mset qs' = mset qs" by blast
  have "def_property_v E G n name_at val_at obj x desc y asg st =
     do { v \<leftarrow> do { v \<leftarrow> v7_own (reallocator E) name_at (vm st); v7_own (reallocator E) val_at v };
          (ok, p, st) \<leftarrow> define_own E G n name_at val_at obj name desc asg
             (st\<lparr>vm := v, words := (words st)(name_at \<mapsto> x, val_at \<mapsto> y)\<rparr>);
          (_, v) \<leftarrow> do { (_, v') \<leftarrow> v7_disown val_at (vm st); v7_disown name_at v' };
          Some (ok, p, st\<lparr>vm := v\<rparr>) }"
    using q by (simp add: def_property_v_def unat_of_nat Let_def split_def)
  also have "\<dots> = Some (ok, r, st' m\<lparr>vm := vm (st' m)\<lparr>owned_values := m'\<rparr>\<rparr>)"
  proof -
    have i: "define_own E G n name_at val_at obj name desc asg
        (st\<lparr>vm := (vm st)\<lparr>owned_values := m\<rparr>, words := (words st)(name_at \<mapsto> x, val_at \<mapsto> y)\<rparr>) = Some (ok, r, st' m)"
      using inner [of m] by (simp add: entered_def)
    show ?thesis unfolding m(1) by (simp only: Option.bind.bind_lunit i m'(1) prod.case)
  qed
  finally show ?thesis using m'(2,3) by blast
qed

lemma entered_simps [simp]:
  "vm (entered a b x y m st) = (vm st)\<lparr>owned_values := m\<rparr>" "strict_mode (entered a b x y m st) = strict_mode st"
  "words (entered a b x y m st) = (words st)(a \<mapsto> x, b \<mapsto> y)" "arena_of k (entered a b x y m st) = arena_of k st"
  "cells_of k (entered a b x y m st) = cells_of k st"
  by (cases k; simp add: entered_def cells_of_def)+

lemma entered_outside [simp]:
  "spaced (entered a b x y m st) = spaced st" "outside_cells (entered a b x y m st) = outside_cells st"
  "in_cells (entered a b x y m st) obj ps = in_cells st obj ps"
  by (simp_all add: spaced_def outside_cells_def in_cells_def fun_eq_iff)

lemma entered_words:
  assumes "outside_cells st a" "outside_cells st b" "c \<in> cells_of k st" "z \<in> offsets k"
  shows "((words st)(a \<mapsto> x, b \<mapsto> y)) (c + z) = words st (c + z)"
proof -
  have "c + z \<noteq> a" "c + z \<noteq> b" using assms unfolding outside_cells_def by blast+
  then show ?thesis by simp
qed

lemma entered_props:
  assumes o: "outside_cells st a" "outside_cells st b" and h: "has_props E ss st obj ps" and c: "in_cells st obj ps"
  shows "has_props E ss (entered a b x y m st) obj ps"
proof -
  note e = entered_words [OF o, where x = x and y = y]
  obtain k where k: "obj \<in> cells_of k st" using c by (auto simp: in_cells_def)
  have ob: "((words st)(a \<mapsto> x, b \<mapsto> y)) obj = words st obj" "((words st)(a \<mapsto> x, b \<mapsto> y)) (obj + 8) = words st (obj + 8)"
    using e [OF k, of 0] e [OF k, of 8] by simp_all
  have p: "((words st)(a \<mapsto> x, b \<mapsto> y)) (p + z) = words st (p + z)" if "p \<in> fst ` set ps" "z \<in> {0, 8, 16, 24}" for p z
    using e [of p Property z] in_cellsD(1) [OF c that(1)] that(2) by simp
  obtain hd where hd: "words st obj = Some hd" "chain (words st) hd (map fst ps)" using h by (auto simp: has_props_def)
  have "chain ((words st)(a \<mapsto> x, b \<mapsto> y)) hd (map fst ps)"
    by (rule chain_words [OF hd(2)]) (use p [of _ 0] in auto)
  moreover have "prop_named E ss (entered a b x y m st) q s" if "(q, s) \<in> set ps" for q s
  proof -
    have "q \<in> fst ` set ps" using that by force
    then have "\<forall>z \<in> {8, 16, 24}. ((words st)(a \<mapsto> x, b \<mapsto> y)) (q + z) = words st (q + z)" using p by blast
    moreover have "prop_named E ss st q s" using h that by (auto simp: has_props_def)
    ultimately show ?thesis unfolding prop_named_def entered_simps is_name_owned by simp
  qed
  ultimately show ?thesis
    using h hd(1) ob unfolding has_props_def entered_simps strings_owned obj_attributes_def by auto
qed

subsection \<open>Definition of a new property\<close>

lemma first_named_none: "name \<notin> snd ` set ps \<Longrightarrow> first_named name ps = 0"
  by (induction ps rule: first_named.induct) auto

lemma vm_owned_words [simp]:
  "words (st\<lparr>vm := v\<rparr>) = words st" "cells_of k (st\<lparr>vm := v\<rparr>) = cells_of k st" "arena_of k (st\<lparr>vm := v\<rparr>) = arena_of k st"
  by (cases k; simp add: cells_of_def)+

lemma in_vm: "in_cells (st\<lparr>vm := v\<rparr>) obj ps = in_cells st obj ps"
  by (simp add: in_cells_def spaced_def)

lemma arena_vm: "arena_ok k f (st\<lparr>vm := v\<rparr>) = arena_ok k f st"
  by (simp add: arena_ok_def)

lemma has_props_owned: "has_props E ss (st\<lparr>vm := (vm st)\<lparr>owned_values := m\<rparr>\<rparr>) obj ps = has_props E ss st obj ps"
  by (simp add: has_props_def prop_named_def)

lemma def_new_spec:
  assumes h: "has_props E ss st (payload v) ps" and c: "in_cells st (payload v) ps" and v: "v7_is_object v"
    and n: "0 \<notin> set name" "length name < 2 ^ 31" "is_name E (vm st) ss x name" "name \<notin> snd ` set ps"
    and free: "arena_ok Property (c # f) st" "c \<notin> fst ` set ps"
    and ext: "obj_attributes (words st) (payload v) = Some a" "a AND V7_OBJ_NOT_EXTENSIBLE = 0"
    and at: "outside_cells st name_at" "outside_cells st val_at" "name_at \<noteq> val_at" "name_at \<notin> set qs" "val_at \<notin> set qs"
    and p: "pointers (owned_values (vm st)) qs" "unat (mb_len (owned_values (vm st))) < 2 ^ 49"
  shows "\<exists>st' m qs'. def_property_v E G n' name_at val_at v x desc y asg st = Some (True, c, st') \<and>
     vm st' = (vm st)\<lparr>owned_values := m\<rparr> \<and> pointers m qs' \<and> mset qs' = mset qs \<and>
     has_props E ss st' (payload v) ((c, name) # ps) \<and> in_cells st' (payload v) ((c, name) # ps) \<and> arena_ok Property f st' \<and>
     words st' (c + 24) = Some y \<and> prop_attributes (words st') c = Some (apply_attrs_desc desc 0) \<and>
     (\<forall>k. \<forall>d \<in> cells_of k st. \<forall>z \<in> offsets k. (k \<noteq> Property \<or> d \<noteq> c) \<and> d + z \<noteq> payload v \<longrightarrow> words st' (d + z) = words st (d + z))"
proof -
  let ?o = "payload v"
  note e = entered_words [OF at(1,2), where x = x and y = y]
  have st1: "\<exists>st1. define_own E G n' name_at val_at v name desc asg (entered name_at val_at x y m st) = Some (True, c, st1) \<and>
     vm st1 = (vm st)\<lparr>owned_values := m\<rparr> \<and> has_props E ss st1 ?o ((c, name) # ps) \<and> in_cells st1 ?o ((c, name) # ps) \<and> arena_ok Property f st1 \<and>
     words st1 (c + 24) = Some y \<and> prop_attributes (words st1) c = Some (apply_attrs_desc desc 0) \<and>
     (\<forall>k. \<forall>d \<in> cells_of k st. \<forall>z \<in> offsets k. (k \<noteq> Property \<or> d \<noteq> c) \<and> d + z \<noteq> ?o \<longrightarrow> words st1 (d + z) = words st (d + z))" for m
  proof -
    let ?e = "entered name_at val_at x y m st"
    have h': "has_props E ss ?e ?o ps" by (rule entered_props [OF at(1,2) h c])
    have own: "v7_get_own_property E ?e v name = Some 0"
      using own_property [OF h' v n(1,2)] first_named_none [OF n(4)] by simp
    obtain k where k: "?o \<in> cells_of k st" using c by (auto simp: in_cells_def)
    have ea: "obj_attributes (words ?e) ?o = Some a"
      using ext(1) e [OF k, of 8] by (simp add: obj_attributes_def)
    have q: "\<forall>q \<in> set (c # f). ((words st)(name_at \<mapsto> x, val_at \<mapsto> y)) q = words st q"
    proof
      fix q assume "q \<in> set (c # f)"
      then have "q \<in> cells_of Property st" using arena_okD(4) [OF free(1)] by auto
      from e [OF this, of 0] show "((words st)(name_at \<mapsto> x, val_at \<mapsto> y)) q = words st q" by simp
    qed
    have "arena_ok Property (c # f) (st\<lparr>words := (words st)(name_at \<mapsto> x, val_at \<mapsto> y)\<rparr>)"
      by (rule arena_ok_words [OF free(1) q]) (use e arena_okD(5) [OF free(1)] in fastforce)
    then have ar: "arena_ok Property (c # f) ?e" unfolding arena_ok_def entered_simps cells_words by (simp add: entered_def)
    obtain st1 where st1: "create_property E G n' name_at val_at ?o desc asg ?e = Some (True, c, st1)"
     "has_props E ss st1 ?o ((c, name) # ps)" "in_cells st1 ?o ((c, name) # ps)"
     "arena_ok Property f st1" "words st1 (c + 24) = Some y" "prop_attributes (words st1) c = Some (apply_attrs_desc desc 0)"
     "only_cell c ?e (st1\<lparr>words := (words st1)(?o := words ?e ?o)\<rparr>)"
      using create_spec [OF ar h' _ free(2) ea ext(2), of name_at val_at x y name G n' desc asg] c at(1-3) n(3) by auto
    have "words st1 (d + z) = words st (d + z)" if "d \<in> cells_of k st" "z \<in> offsets k" "k \<noteq> Property \<or> d \<noteq> c" "d + z \<noteq> ?o" for k d z
    proof -
      have "d \<in> cells_of k ?e" using that(1) by simp
      with st1(7) that(2,3) have "words (st1\<lparr>words := (words st1)(?o := words ?e ?o)\<rparr>) (d + z) = words ?e (d + z)"
        unfolding only_cell_def by blast
      then show ?thesis using that(4) e [OF that(1,2)] by simp
    qed
    moreover have "vm st1 = (vm st)\<lparr>owned_values := m\<rparr>" using st1(7) by (simp add: only_cell_def)
    ultimately show ?thesis
      using st1(1-6) own v by (intro exI [of _ st1]) (simp add: define_own_def to_object)
  qed
  then obtain f1 where f1: "define_own E G n' name_at val_at v name desc asg (entered name_at val_at x y m st) = Some (True, c, f1 m)"
     "vm (f1 m) = (vm st)\<lparr>owned_values := m\<rparr>" "has_props E ss (f1 m) ?o ((c, name) # ps)" "in_cells (f1 m) ?o ((c, name) # ps)" "arena_ok Property f (f1 m)"
     "words (f1 m) (c + 24) = Some y" "prop_attributes (words (f1 m)) c = Some (apply_attrs_desc desc 0)"
     "\<forall>k. \<forall>d \<in> cells_of k st. \<forall>z \<in> offsets k. (k \<noteq> Property \<or> d \<noteq> c) \<and> d + z \<noteq> ?o \<longrightarrow> words (f1 m) (d + z) = words st (d + z)" for m
    by metis
  have s: "strings_ok (vm st) ss" using h by (simp add: has_props_def)
  have i: "define_own E G n' name_at val_at v name desc asg (entered name_at val_at x y m st) = Some (True, c, f1 m) \<and>
      owned_values (vm (f1 m)) = m" for m using f1(1,2) [of m] by simp
  from def_property_v_run [OF s n(3) p at(4,5,3) i]
  obtain m m' qs' where r: "def_property_v E G n' name_at val_at v x desc y asg st =
     Some (True, c, f1 m\<lparr>vm := vm (f1 m)\<lparr>owned_values := m'\<rparr>\<rparr>)" "pointers m' qs'" "mset qs' = mset qs" by blast
  let ?st = "f1 m\<lparr>vm := vm (f1 m)\<lparr>owned_values := m'\<rparr>\<rparr>"
  have "in_cells ?st ?o ((c, name) # ps)" using f1(4) [of m] by (simp only: in_vm)
  moreover have "arena_ok Property f ?st" using f1(5) [of m] by (simp only: arena_vm)
  ultimately show ?thesis
    using r f1(2,3,6-8) [of m] has_props_owned [where E = E and ss = ss and st = "f1 m" and m = m' and obj = ?o and ps = "(c, name) # ps"]
    by (intro exI [of _ ?st] exI [of _ m'] exI [of _ qs']) auto
qed

subsection \<open>Assignment to a property\<close>

lemma first_named_in: "name \<in> snd ` set ps \<Longrightarrow> (first_named name ps, name) \<in> set ps"
  by (induction ps rule: first_named.induct) auto

lemma apply_none: "apply_attrs_desc 0 a = a"
proof -
  have "NOT 0 = (- 1 :: u64)" by simp
  moreover have "ucast (ucast a :: u64) = a" by (rule bit_word_eqI) (auto simp: bit_simps)
  ultimately show ?thesis by (simp add: apply_attrs_desc_def)
qed

lemma same_attributes: "w AND NOT 0xFFFF OR ucast (ucast w :: u16) = (w :: u64)"
proof -
  have m: "(0xFFFF :: u64) = mask 16" by (simp add: mask_eq_exp_minus_1)
  show ?thesis unfolding m by (rule bit_word_eqI) (auto simp: bit_simps)
qed

lemma change_assign:
  assumes w: "words st (p + 8) = Some w" "words st val_at = Some y" "words st (p + 24) = Some z"
    and s: "ucast w AND V7_PROPERTY_SETTER = (0 :: u16)"
  shows "ucast w AND V7_PROPERTY_NON_WRITABLE = (0 :: u16) \<Longrightarrow>
       change_property E G val_at p v 0 True st = Some (True, p, st\<lparr>words := (words st)(p + 24 \<mapsto> y, p + 8 \<mapsto> w)\<rparr>)"
    "ucast w AND V7_PROPERTY_NON_WRITABLE \<noteq> (0 :: u16) \<Longrightarrow> \<not> strict_mode st \<Longrightarrow>
       change_property E G val_at p v 0 True st = Some (True, 0, st)"
    "ucast w AND V7_PROPERTY_NON_WRITABLE \<noteq> (0 :: u16) \<Longrightarrow> strict_mode st \<Longrightarrow>
       change_property E G val_at p v 0 True st =
         map_option (\<lambda>st. (False, p, st)) (throwf G ''Cannot assign to read-only property'' st)"
  using assms by (simp_all add: change_property_def prop_attributes_def put_some put_attributes_some apply_none
      same_attributes [simplified]
      map_option_case split: option.splits)

lemma assign_spec:
  assumes h: "has_props E ss st (payload v) ps" and c: "in_cells st (payload v) ps" and v: "v7_is_object v"
    and n: "0 \<notin> set name" "length name < 2 ^ 31" "is_name E (vm st) ss x name" "name \<in> snd ` set ps"
    and a: "prop_attributes (words st) (first_named name ps) = Some a" "a AND V7_PROPERTY_SETTER = 0"
      "a AND V7_PROPERTY_NON_WRITABLE \<noteq> 0 \<longrightarrow> \<not> strict_mode st"
    and at: "outside_cells st name_at" "outside_cells st val_at" "name_at \<noteq> val_at" "name_at \<notin> set qs" "val_at \<notin> set qs"
    and p: "pointers (owned_values (vm st)) qs" "unat (mb_len (owned_values (vm st))) < 2 ^ 49"
  shows "\<exists>st' m qs'. set_property_v E G n' name_at val_at v x y st =
       Some (True, if a AND V7_PROPERTY_NON_WRITABLE = 0 then first_named name ps else 0, st') \<and>
     vm st' = (vm st)\<lparr>owned_values := m\<rparr> \<and> pointers m qs' \<and> mset qs' = mset qs \<and> has_props E ss st' (payload v) ps \<and>
     (\<forall>k. \<forall>d \<in> cells_of k st. \<forall>z \<in> offsets k. words st' (d + z) =
        (if a AND V7_PROPERTY_NON_WRITABLE = 0 \<and> d + z = first_named name ps + 24 then Some y else words st (d + z)))"
proof -
  let ?p = "first_named name ps" and ?W = "\<lambda>m. words (entered name_at val_at x y m st)"
  note e = entered_words [OF at(1,2), where x = x and y = y]
  have pin: "?p \<in> fst ` set ps" using first_named_in [OF n(4)] by force
  have pc: "?p \<in> cells_of Property st" by (rule in_cellsD(1) [OF c pin])
  have p0: "?p \<noteq> 0" using c cell_small(1) [OF _ pc] by (simp add: in_cells_def)
  obtain w where w: "words st (?p + 8) = Some w" "a = ucast w" using a(1) by (auto simp: prop_attributes_def)
  obtain z where z: "words st (?p + 24) = Some z"
    using h first_named_in [OF n(4)] by (fastforce simp: has_props_def prop_named_def)
  have we: "?W m (?p + 8) = Some w" "?W m (?p + 24) = Some z" "?W m val_at = Some y" for m
    using e [OF pc, of 8] e [OF pc, of 24] w z by simp_all
  have own: "v7_get_own_property E (entered name_at val_at x y m st) v name = Some ?p" for m
    by (rule own_property [OF entered_props [OF at(1,2) h c] v n(1,2)])
  let ?f = "\<lambda>m. if a AND V7_PROPERTY_NON_WRITABLE = 0
      then (entered name_at val_at x y m st)\<lparr>words := (?W m)(?p + 24 \<mapsto> y, ?p + 8 \<mapsto> w)\<rparr> else entered name_at val_at x y m st"
  have "change_property E G val_at ?p v 0 True (entered name_at val_at x y m st) =
      Some (True, if a AND V7_PROPERTY_NON_WRITABLE = 0 then ?p else 0, ?f m)" for m
  proof (cases "a AND V7_PROPERTY_NON_WRITABLE = 0")
    case True
    then show ?thesis using change_assign(1) [OF we(1,3,2)] a(2) w(2) by simp
  next
    case False
    then show ?thesis using change_assign(2) [OF we(1,3,2)] a(2,3) w(2) by simp
  qed
  then have i: "define_own E G n' name_at val_at v name 0 True (entered name_at val_at x y m st) =
      Some (True, if a AND V7_PROPERTY_NON_WRITABLE = 0 then ?p else 0, ?f m) \<and> owned_values (vm (?f m)) = m" for m
    using own p0 v by (simp add: define_own_def)
  have s: "strings_ok (vm st) ss" using h by (simp add: has_props_def)
  from def_property_v_run [OF s n(3) p at(4,5,3) i]
  obtain m m' qs' where r: "set_property_v E G n' name_at val_at v x y st = Some (True, if a AND V7_PROPERTY_NON_WRITABLE = 0 then ?p else 0,
      ?f m\<lparr>vm := vm (?f m)\<lparr>owned_values := m'\<rparr>\<rparr>)" "pointers m' qs'" "mset qs' = mset qs"
    unfolding set_property_v_def by blast
  let ?st = "?f m\<lparr>vm := vm (?f m)\<lparr>owned_values := m'\<rparr>\<rparr>"
  have wd: "words ?st (d + z) = (if a AND V7_PROPERTY_NON_WRITABLE = 0 \<and> d + z = ?p + 24 then Some y else words st (d + z))"
    if "d \<in> cells_of k st" "z \<in> offsets k" for d k z
    using e [OF that] w(1) by simp
  have "has_props E ss (?f m) (payload v) ps"
  proof -
    note h' = entered_props [OF at(1,2) h c, of x y m]
    obtain hd where hd: "?W m (payload v) = Some hd" "chain (?W m) hd (map fst ps)" using h' by (auto simp: has_props_def)
    let ?W' = "(?W m)(?p + 24 \<mapsto> y, ?p + 8 \<mapsto> w)"
    have c': "in_cells (entered name_at val_at x y m st) (payload v) ps" using c by simp
    have ob: "?W' (payload v) = ?W m (payload v)" "?W' (payload v + 8) = ?W m (payload v + 8)"
      using in_cellsD(3) [OF c pin, of 24 0] in_cellsD(3) [OF c pin, of 8 0] in_cellsD(3) [OF c pin, of 24 8] in_cellsD(3) [OF c pin, of 8 8]
      by (auto simp del: entered_simps)
    have ch: "chain ?W' hd (map fst ps)"
    proof (rule chain_words [OF hd(2)], rule)
      fix q assume "q \<in> set (map fst ps)"
      then have "q \<in> fst ` set ps" by simp
      from in_cellsD(2) [OF c pin this, of 24] in_cellsD(2) [OF c pin this, of 8] show "?W' q = ?W m q" by (simp del: entered_simps)
    qed
    have pn: "prop_named E ss (entered name_at val_at x y m st\<lparr>words := ?W'\<rparr>) q s" if qs: "(q, s) \<in> set ps" for q s
    proof -
      have q: "q \<in> cells_of Property st" by (rule in_cellsD(1) [OF c]) (use qs in force)
      have sp: "spaced st" using c by (simp add: in_cells_def)
      have "q + 16 \<noteq> ?p + 24" "q + 16 \<noteq> ?p + 8" using spacedD(3) [OF sp q pc, of 16 24] spacedD(3) [OF sp q pc, of 16 8] by auto
      moreover have "prop_named E ss (entered name_at val_at x y m st) q s" using h' qs by (auto simp: has_props_def)
      ultimately show ?thesis by (auto simp: prop_named_def simp del: entered_simps)
    qed
    have "has_props E ss (entered name_at val_at x y m st\<lparr>words := ?W'\<rparr>) (payload v) ps"
      using h' hd(1) ch ob pn unfolding has_props_def obj_attributes_def by (auto simp del: entered_simps fun_upd_apply)
    with h' show ?thesis by simp
  qed
  then have "has_props E ss ?st (payload v) ps" by (rule has_props_owned [THEN iffD2])
  with r wd show ?thesis by (intro exI [of _ ?st] exI [of _ m'] exI [of _ qs']) simp
qed

end
