(* ===== verification/GcProps.thy ===== *)
theory GcProps
  imports GcCorrect StringProps
begin

text \<open>
  The properties of the memory of objects: what the collection does to a well-formed memory, and the
  limits of the counts of byte code and of the comparison of names.
\<close>

subsection \<open>A sample memory\<close>

text \<open>The object at 65536, whose property is the string \<open>abcdef\<close>, is the prototype of functions and so a root;
  the object at 65560 and its property are not reachable, and the one cell for functions is free.\<close>

definition words0 :: cells where
  "words0 a =
     (if a - 262144 < 176 \<and> a AND 7 = 0 then Some (if a = 262232 then V7_TAG_OBJECT OR 65536 else V7_UNDEFINED)
      else map_of [(65536, 196608), (65544, 0), (65552, 0), (65560, 196640), (65568, 0), (65576, 65536),
        (131072, 0), (131080, 0), (131088, 0), (131096, 0),
        (196608, 0), (196616, 0), (196624, V7_TAG_STRING_I), (196632, x0),
        (196640, 0), (196648, 0), (196656, V7_TAG_STRING_I), (196664, V7_TAG_OBJECT OR 65536)] a)"

definition arena0 :: "u64 \<Rightarrow> u64 \<Rightarrow> u64 \<Rightarrow> u64 \<Rightarrow> arena" where
  "arena0 base n free sz = \<lparr>arena_blocks = [(base, n)], size_increment = 10, free_cells = free, cell_size = sz,
     allocations = 0, garbage = 0, alive = 0\<rparr>"

definition js0 :: js where
  "js0 = \<lparr>vm = v0, words = words0, bcodes = Map.empty, generic_object_arena = arena0 65536 2 0 24,
     function_arena = arena0 131072 1 131072 32, property_arena = arena0 196608 2 0 32,
     vals = 262144, call_stack = [], stack = (0, 0), tmp_stack = owned_values v0, act_bcodes = owned_values v0,
     strict_mode = False, inhibit_gc = False\<rparr>"

fun fl0 :: "arena_kind \<Rightarrow> u64 list" where
  "fl0 Generic_object = []"
| "fl0 Function = [131072]"
| "fl0 Property = []"

definition pl0 :: "u64 \<Rightarrow> u64 list" where
  "pl0 obj = (if obj = 65536 then [196608] else if obj = 65560 then [196640] else [])"

lemma js0_cells:
  "cells_of Generic_object js0 = {65536, 65560}" "cells_of Function js0 = {131072}" "cells_of Property js0 = {196608, 196640}"
  "generic_object_arena js0 = arena0 65536 2 0 24" "function_arena js0 = arena0 131072 1 131072 32"
  "property_arena js0 = arena0 196608 2 0 32"
  by (simp_all add: cells_of_def arena_cells_def js0_def arena0_def block_cells_def GC_CELL_OP_def upt_rec)

lemma js0_used:
  "used fl0 js0 Generic_object = {65536, 65560}" "used fl0 js0 Function = {}" "used fl0 js0 Property = {196608, 196640}"
  by (simp_all add: used_def js0_cells)

lemma js0_words:
  "words js0 65536 = Some 196608" "words js0 65544 = Some 0" "words js0 65552 = Some 0"
  "words js0 65560 = Some 196640" "words js0 65568 = Some 0" "words js0 65576 = Some 65536"
  "words js0 131072 = Some 0" "words js0 131080 = Some 0" "words js0 131088 = Some 0" "words js0 131096 = Some 0"
  "words js0 196608 = Some 0" "words js0 196616 = Some 0" "words js0 196624 = Some V7_TAG_STRING_I" "words js0 196632 = Some x0"
  "words js0 196640 = Some 0" "words js0 196648 = Some 0" "words js0 196656 = Some V7_TAG_STRING_I"
  "words js0 196664 = Some (V7_TAG_OBJECT OR 65536)"
  by (simp_all add: js0_def words0_def)

lemma js0_spaced: "spaced js0"
  unfolding spaced_def
proof (intro conjI allI)
  fix k k'
  show "\<forall>c \<in> cells_of k js0. \<forall>d \<in> cells_of k' js0. \<forall>x \<in> offsets k. \<forall>y \<in> offsets k'.
        c + x = d + y \<longrightarrow> k = k' \<and> c = d \<and> x = y"
    by (cases k; cases k'; simp add: js0_cells)
  show "\<forall>c \<in> cells_of k js0. c \<noteq> 0 \<and> c AND 7 = 0 \<and> (\<forall>x \<in> offsets k. tag_of (c + x) = 0)"
    by (cases k; simp add: js0_cells tag_of_def)
qed

lemma js0_arena: "arena_ok k (fl0 k) js0"
  by (cases k; simp add: arena_ok_def js0_cells js0_words Let_def; simp add: arena0_def arena_cells_def block_cells_def GC_CELL_OP_def upt_rec)

lemma js0_slots:
  "root_slots js0 = map (\<lambda>i. 262144 + 8 * of_nat i) [0..<22]" "act_bcodes js0 = owned_values v0" "bcodes js0 = Map.empty"
  "mbuf_pointers (owned_values v0) = []" "vals js0 = 262144"
  by (simp_all add: root_slots_def js0_def vec_slots_def vals_count_def mbuf_pointers_def v0_def)

lemma js0_root:
  assumes "a \<in> set (root_slots js0)"
  shows "root_ok [abcdef] fl0 js0 a" "words js0 a = Some (if a = 262232 then V7_TAG_OBJECT OR 65536 else V7_UNDEFINED)"
proof -
  obtain i where i: "i < 22" "a = 262144 + 8 * of_nat i" using assms by (auto simp: js0_slots)
  define d :: u64 where "d = 8 * of_nat i"
  have "unat (of_nat i :: u64) = i" using i(1) by (simp add: unat_of_nat)
  then have d: "unat d = 8 * i" using i(1) by (simp add: d_def unat_word_ariths)
  then have d176: "d < 176" using i(1) by (simp add: word_less_nat_alt)
  have "8 dvd d" by (simp add: d_def)
  then have d7: "d AND 7 = 0" by (simp add: aligned_dvd)
  have ad: "a = 262144 + d" "unat a = 262144 + 8 * i" using d i by (simp_all add: d_def unat_word_ariths)
  have a7: "a AND 7 = 0" unfolding ad(1) by (rule aligned_add) (use d7 in simp_all)
  have big: "262144 \<le> a" by (simp add: word_le_nat_alt ad(2))
  show w: "words js0 a = Some (if a = 262232 then V7_TAG_OBJECT OR 65536 else V7_UNDEFINED)"
    using a7 d176 by (simp add: js0_def words0_def ad(1))
  have "tag_of (V7_TAG_OBJECT OR 65536) = 0xFFFF" "payload (V7_TAG_OBJECT OR 65536) = 65536" "tag_of V7_UNDEFINED = 0xFFFD"
    by (simp_all add: tag_values tag_of_def payload_def V7_UNDEFINED_def)
  moreover have "unat (a div 2 ^ 48) = 0" using i(1) by (simp add: unat_div ad(2))
  then have "drop_bit 48 a = 0" by (simp add: unat_eq_0 drop_bit_eq_div)
  then have "tag_of a = 0" by (simp add: tag_of_def)
  ultimately have "slot_ok [abcdef] fl0 js0 a" by (auto simp: slot_ok_def w ref_ok_def string_ok_def js0_used)
  moreover have "outside_cells js0 a"
    unfolding outside_cells_def
  proof (intro conjI allI)
    show "a AND 7 = 0" by (rule a7)
    show "\<forall>c \<in> cells_of k js0. \<forall>x \<in> offsets k. a \<noteq> c + x" for k using big by (cases k) (auto simp: js0_cells)
  qed
  ultimately show "root_ok [abcdef] fl0 js0 a" by (simp add: root_ok_def)
qed

lemma js0_fp_slot: "262232 \<in> set (root_slots js0)"
  unfolding js0_slots(1) set_map by (rule image_eqI [of _ _ 11]) simp_all

lemma js0_tags: "tag_of (V7_TAG_OBJECT OR 65536) = 0xFFFF" "payload (V7_TAG_OBJECT OR 65536) = 65536"
    "tag_of V7_UNDEFINED = 0xFFFD" "tag_of V7_TAG_STRING_I = 0xFFFA" "tag_of x0 = 0xFFF8"
  using sample_live by (simp_all add: tag_values tag_of_def payload_def V7_UNDEFINED_def live_def)

lemma js0_object:
  "obj_attributes (words js0) 65536 = Some 0" "obj_attributes (words js0) 65560 = Some 0" "\<not> is_func js0 65536" "\<not> is_func js0 65560"
  "chain (words js0) 196608 [196608]" "chain (words js0) 196640 [196640]"
  by (simp_all add: obj_attributes_def js0_words is_func_def js0_cells)

lemma js0_string: "slot_ok [abcdef] fl0 js0 196632"
proof -
  have "string_ok [abcdef] (vm js0) x0" using sample_live by (auto simp: string_ok_def live_def js0_def)
  then show ?thesis by (simp add: slot_ok_def js0_words ref_ok_def js0_tags) (simp add: tag_of_def)
qed

lemma js0_heap: "heap_ok [abcdef] fl0 pl0 js0"
  unfolding heap_ok_def arenas_ok_def js0_used Un_empty_right
proof (intro conjI ballI allI impI)
  show "strings_ok (vm js0) [abcdef]" using sample_ok(1) by (simp add: js0_def)
  show "spaced js0" "arena_ok k (fl0 k) js0" for k by (rule js0_spaced js0_arena)+
  have nobj: "\<not> v7_is_object V7_TAG_STRING_I" by (simp add: js0_tags kinds)
  have "slot_ok [abcdef] fl0 js0 196624" "slot_ok [abcdef] fl0 js0 196656"
    by (simp_all add: slot_ok_def ref_ok_def string_ok_def js0_tags js0_words) (simp_all add: tag_of_def)
  moreover have "slot_ok [abcdef] fl0 js0 196664"
    by (simp add: slot_ok_def js0_words ref_ok_def string_ok_def js0_tags js0_used) (simp add: tag_of_def)
  ultimately show "prop_ok [abcdef] fl0 js0 p" if "p \<in> {196608, 196640}" for p
    using that js0_string nobj by (elim insertE emptyE) (simp_all add: prop_ok_def js0_words prop_attributes_def)
  show "obj_ok fl0 pl0 js0 obj" if "obj \<in> {65536, 65560}" for obj
    using that by (auto simp: obj_ok_def js0_words js0_object pl0_def js0_used)
  show "set (pl0 obj) \<inter> set (pl0 obj') = {}" if "obj \<in> {65536, 65560}" "obj' \<in> {65536, 65560}" "obj \<noteq> obj'" for obj obj'
    using that by (auto simp: pl0_def)
  show "generic_ok fl0 js0 obj" if "obj \<in> {65536, 65560}" for obj
    using that by (auto simp: generic_ok_def js0_words js0_used)
  have v: "vals js0 + 88 \<in> set (root_slots js0)" using js0_fp_slot by (simp add: js0_slots(5))
  show "root_ok [abcdef] fl0 js0 (vals js0 + 88)" by (rule js0_root(1) [OF v])
  show "\<exists>fp. function_prototype js0 = Some fp \<and> v7_is_object fp"
    using js0_root(2) [OF v] by (simp add: function_prototype_def js0_slots js0_tags kinds)
qed simp

lemma js0_ready: "gc_ready [abcdef] fl0 pl0 js0"
  unfolding gc_ready_def
proof (intro conjI ballI)
  show "heap_ok [abcdef] fl0 pl0 js0" by (rule js0_heap)
  show "root_ok [abcdef] fl0 js0 a" if "a \<in> set (root_slots js0)" for a by (rule js0_root(1) [OF that])
  show "literals_ok fl0 js0" by (simp add: literals_ok_def js0_slots)
  show "no_regexps fl0 pl0 js0" by (auto simp: no_regexps_def js0_used pl0_def js0_words js0_tags)
  show "length (packed [abcdef]) < 2 ^ 31" "length [abcdef] < 65536" by (simp_all add: sample_sizes)
qed (simp add: js0_slots)

lemma js0_live: "live_objects pl0 js0 = {65536}"
proof -
  have root: "x = V7_TAG_OBJECT OR 65536" if "x \<in> slot_values js0 (root_slots js0)" "v7_is_object x" for x
    using that js0_root(2) by (auto simp: slot_values_def js0_tags kinds split: if_splits)
  have p: "payload 65536 = 65536" by (simp add: payload_def)
  have "obj_prototype_v js0 (boxed js0 65536) = Some V7_NULL"
    by (simp add: obj_prototype_v_def boxed_object js0_object to_object p obj_prototype_def js0_words v7_object_to_value_def)
  then have leaf: "\<not> v7_is_object x" if "x \<in> refs pl0 js0 65536" for x
    using that by (auto simp: refs_def js0_object pl0_def js0_words js0_tags kinds V7_NULL_def tags)
  have "obj = 65536" if "reach pl0 js0 (slot_values js0 (root_slots js0)) obj" for obj
    using that
  proof (induction rule: reach.induct)
    case (reach_root x)
    then show ?case using root js0_tags(2) by blast
  qed (use leaf in blast)
  moreover have "V7_TAG_OBJECT OR 65536 \<in> slot_values js0 (root_slots js0)"
    using js0_root(2) [OF js0_fp_slot, simplified] js0_fp_slot unfolding slot_values_def by blast
  from reach_root [OF this, of pl0] have "reach pl0 js0 (slot_values js0 (root_slots js0)) 65536" by (simp add: js0_tags kinds)
  ultimately show ?thesis unfolding live_objects_def by blast
qed

definition E0 :: env where "E0 = \<lparr>other_memory = M0, reallocator = A1, calloc_at = \<lambda>_ _. 0\<rparr>"

lemma js0_fuel: "short fl0 pl0 js0 1" "length (root_slots js0) + need 1 (card (objs fl0 js0)) \<le> 27"
proof -
  show "short fl0 pl0 js0 1" by (auto simp: short_def js0_used pl0_def func_slots_def js0_object)
  show "length (root_slots js0) + need 1 (card (objs fl0 js0)) \<le> 27" by (simp add: js0_slots js0_used need_def)
qed

subsection \<open>The collection\<close>

text \<open>C3: from a well-formed memory, \<open>v7_gc\<close> ends, with fuel for one pass over the roots and, for each object, over
  its properties or literals, and leaves a well-formed memory with the same roots. The cells in use are
  the objects that the roots reach and their properties; their links, attributes, prototypes, scopes and
  byte code are as before, and every root, name, value or literal is the same value or a new reference to
  the same text. The strings kept are those that are referred to.\<close>

theorem v7_gc_correct:
  assumes "gc_ready ss fl pl st" "short fl pl st L" "alloc_ok M (reallocator E)"
    "length (root_slots st) + need L (card (objs fl st)) \<le> n"
  shows "\<exists>st' fl' ss'. v7_gc E n full st = Some st' \<and> gc_ready ss' fl' pl st' \<and> root_slots st' = root_slots st \<and>
     objs fl' st' = live_objects pl st \<and> props fl' st' = (\<Union>obj \<in> live_objects pl st. set (pl obj)) \<and>
     (\<forall>k. \<forall>c \<in> used fl' st' k. \<forall>x \<in> offsets k. (k = Property \<longrightarrow> x = 0 \<or> x = 8) \<longrightarrow> words st' (c + x) = words st (c + x)) \<and>
     (\<forall>a \<in> live_slots pl st. \<exists>x y. words st a = Some x \<and> words st' a = Some y \<and>
        (if tag_of x = 0xFFF8 then \<exists>s. string_bytes M (vm st) x = Some s \<and> string_bytes M (vm st') y = Some s else y = x)) \<and>
     set ss' = {ss ! i | i. i < length ss \<and> (\<exists>a \<in> live_slots pl st. refers ss (words st) a i)}"
proof -
  obtain st' ss' W fl' where r: "v7_gc E n full st = Some st'" "collected ss fl pl st ss' W fl' st'" "subseq ss' ss"
    "set ss' = {ss ! i | i. i < length ss \<and> (\<exists>a \<in> live_slots pl st. refers ss (words st) a i)}"
    by (rule gc_collects [OF assms(1,2,4,3)])
  note c = collected_cells [OF gc_readyD(1) [OF assms(1)] r(2)]
  have ok: "strings_ok (vm st) ss" "strings_ok (vm st') ss'"
    using heap_okD(1) [OF gc_readyD(1) [OF assms(1)]] collectedD(3) [OF r(2)] by simp_all
  have "\<exists>x y. words st a = Some x \<and> words st' a = Some y \<and>
      (if tag_of x = 0xFFF8 then \<exists>s. string_bytes M (vm st) x = Some s \<and> string_bytes M (vm st') y = Some s else y = x)"
    if "a \<in> live_slots pl st" for a
    using collected_slot [OF assms(1) r(2) that] live_bytes(1) [OF ok(1)] live_bytes(1) [OF ok(2)] by (metis (no_types))
  with r collected_ready [OF assms(1) r(2,3)] collected_roots [OF assms(1) r(2)] c(3,4) collected_field [OF assms(1) r(2)]
  show ?thesis by (intro exI [of _ st'] exI [of _ fl'] exI [of _ ss']) auto
qed

theorem v7_gc_correct_witness:
  "\<exists>st' fl'. v7_gc E0 27 True js0 = Some st' \<and> objs fl' st' = {65536} \<and> props fl' st' = {196608} \<and>
     (\<exists>y. words st' 196632 = Some y \<and> string_bytes M0 (vm st') y = Some abcdef)"
proof -
  have A: "alloc_ok M0 (reallocator E0)" using sample_ok(3) by (simp add: E0_def)
  obtain st' fl' where r: "v7_gc E0 27 True js0 = Some st'" "objs fl' st' = {65536}" "props fl' st' = {196608}"
    "\<forall>a \<in> live_slots pl0 js0. \<exists>x y. words js0 a = Some x \<and> words st' a = Some y \<and>
        (if tag_of x = 0xFFF8 then \<exists>s. string_bytes M0 (vm js0) x = Some s \<and> string_bytes M0 (vm st') y = Some s else y = x)"
    using v7_gc_correct [OF js0_ready js0_fuel(1) A js0_fuel(2), of True] by (auto simp: js0_live pl0_def)
  have "196632 \<in> live_slots pl0 js0" by (simp add: live_slots_def js0_live slots_def prop_slots_def pl0_def)
  moreover have "string_bytes M0 (vm js0) x0 = Some abcdef"
    using live_bytes(1) [OF sample_ok(1) sample_live] by (simp add: js0_def)
  ultimately show ?thesis using r(1-3) bspec [OF r(4), of 196632] by (auto simp: js0_words js0_tags)
qed

text \<open>C4: marking ends, and then exactly the cells of the objects that the roots reach and of their properties
  carry the mark.\<close>

theorem gc_marks_reachable:
  assumes "gc_ready ss fl pl st" "short fl pl st L" "length (root_slots st) + need L (card (objs fl st)) \<le> n"
  shows "\<exists>st'. gc_roots E n st = Some st' \<and>
     (\<forall>obj \<in> objs fl st. MARKED obj (words st') = Some (obj \<in> live_objects pl st)) \<and>
     (\<forall>p \<in> props fl st. MARKED p (words st') = Some (\<exists>obj \<in> live_objects pl st. p \<in> set (pl obj)))"
proof -
  note ok = gc_readyD(1) [OF assms(1)]
  obtain st' N S where r: "gc_roots E n st = Some st'" "marking ss fl st (grow pl {} N) S st'" "N = live_objects pl st" "N \<subseteq> objs fl st"
    by (rule gc_roots_run [OF ok assms(2) gc_readyD(2,3) [OF assms(1)] assms(3), folded live_objects_def]) (rule that)
  let ?X = "grow pl {} N"
  have head: "MARKED c (words st') = Some (c \<in> ?X)" if c: "c \<in> cells_of k st" for c k
  proof -
    obtain w where w: "words st c = Some w" using arena_okD(5) [OF heap_okD(3) [OF ok] c offsets_0(1)] by auto
    then have "w AND 3 = 0" by (rule head_bits [OF ok c])
    with w show ?thesis using marking_head [OF heap_okD(1,2) [OF ok] r(2) c] or1_bits by (auto simp: MARKED_def and3)
  qed
  have "(?X \<union> {}) \<inter> objs fl st = ({} \<inter> objs fl st) \<union> N" by (rule grow_objs [OF ok r(4)]) simp
  then have "obj \<in> ?X \<longleftrightarrow> obj \<in> N" if "obj \<in> objs fl st" for obj using that by blast
  moreover have "MARKED obj (words st') = Some (obj \<in> ?X)" if "obj \<in> objs fl st" for obj
    using head objs_cell [OF that] by blast
  ultimately have "MARKED obj (words st') = Some (obj \<in> N)" if "obj \<in> objs fl st" for obj using that by simp
  moreover have "p \<in> ?X \<longleftrightarrow> (\<exists>obj \<in> N. p \<in> set (pl obj))" if "p \<in> props fl st" for p
    using that objs_props [OF heap_okD(2) [OF ok], of fl] r(4) by (auto simp: grow_def)
  then have "MARKED p (words st') = Some (\<exists>obj \<in> N. p \<in> set (pl obj))" if "p \<in> props fl st" for p
    using head [OF used_cells [OF that]] that by simp
  ultimately show ?thesis using r(1,3) by blast
qed

theorem gc_marks_reachable_witness:
  "\<exists>st'. gc_roots E0 27 js0 = Some st' \<and> MARKED 65536 (words st') = Some True \<and> MARKED 65560 (words st') = Some False \<and>
     MARKED 196608 (words st') = Some True \<and> MARKED 196640 (words st') = Some False"
  using gc_marks_reachable [OF js0_ready js0_fuel, of E0] by (auto simp: js0_live js0_used pl0_def)

end
