(* ===== verification/WriteProps.thy ===== *)
theory WriteProps
  imports PropertyLists GcProps
begin

text \<open>
  Properties of the lookup, definition, assignment and deletion of the properties of an object, seen as a list of
  named cells (\<open>has_props\<close>).
\<close>

subsection \<open>Attributes\<close>

lemma apply_attrs_bit:
  assumes "a AND V7_PROPERTY_NON_CONFIGURABLE = 0" "i < 16"
  shows "bit (apply_attrs_desc d a) i \<longleftrightarrow> (bit a i \<and> \<not> bit d (16 + i)) \<or> bit d i"
proof -
  have m: "V7_DESC_MASK = mask 16" by (simp add: V7_DESC_MASK_def V7_DESC_SHIFT_def mask_eq_exp_minus_1)
  show ?thesis using assms unfolding apply_attrs_desc_def m V7_DESC_SHIFT_def by (auto simp: bit_simps add.commute)
qed

lemma desc_bit:
  "i < 16 \<Longrightarrow> bit (V7_MK_DESC v n) i \<longleftrightarrow> v \<and> bit n i"
  "i < 16 \<Longrightarrow> bit (V7_MK_DESC v n) (16 + i) \<longleftrightarrow> bit n i"
  using bit_imp_le_length [of n "16 + i"] by (auto simp: V7_MK_DESC_def V7_DESC_SHIFT_def bit_simps)

text \<open>C32: a descriptor that sets or clears attributes does exactly that to a configurable property; of a
  non-configurable one only the writable flag can change, and only to read-only. The flag that keeps the
  value is taken for an attribute.\<close>

theorem attributes_described:
  "(a AND V7_PROPERTY_NON_CONFIGURABLE = 0 \<longrightarrow>
      apply_attrs_desc (V7_MK_DESC v n OR V7_MK_DESC v' n') a = ((a AND NOT (n OR n')) OR (if v then n else 0) OR (if v' then n' else 0))) \<and>
   (a AND V7_PROPERTY_NON_CONFIGURABLE = 0 \<longrightarrow>
      apply_attrs_desc (d OR V7_DESC_PRESERVE_VALUE) a = apply_attrs_desc d a OR 128) \<and>
   (a AND V7_PROPERTY_NON_CONFIGURABLE \<noteq> 0 \<longrightarrow>
      apply_attrs_desc (V7_MK_DESC v n OR V7_MK_DESC v' n') a =
        (if V7_PROPERTY_NON_WRITABLE AND ((if v then n else 0) OR (if v' then n' else 0)) \<noteq> 0 then a OR V7_PROPERTY_NON_WRITABLE else a))"
proof (intro conjI impI)
  show "apply_attrs_desc (V7_MK_DESC v n OR V7_MK_DESC v' n') a = ((a AND NOT (n OR n')) OR (if v then n else 0) OR (if v' then n' else 0))"
    if "a AND V7_PROPERTY_NON_CONFIGURABLE = 0"
    by (rule bit_word_eqI) (auto simp: apply_attrs_bit [OF that] desc_bit bit_simps)
  have "bit V7_DESC_PRESERVE_VALUE i = bit (128 :: u16) i" if "i < 16" for i
  proof -
    have "(128 :: u64) = push_bit 7 1" "(128 :: u16) = push_bit 7 1" by simp_all
    then show ?thesis using that unfolding V7_DESC_PRESERVE_VALUE_def by (simp only: bit_simps) auto
  qed
  moreover have "\<not> bit V7_DESC_PRESERVE_VALUE (16 + i)" if "i < 16" for i
  proof -
    have "(128 :: u64) = push_bit 7 1" by simp
    then show ?thesis unfolding V7_DESC_PRESERVE_VALUE_def by (simp only: bit_simps) auto
  qed
  ultimately show "apply_attrs_desc (d OR V7_DESC_PRESERVE_VALUE) a = apply_attrs_desc d a OR 128"
    if "a AND V7_PROPERTY_NON_CONFIGURABLE = 0"
    by (intro bit_word_eqI) (auto simp: apply_attrs_bit [OF that] bit_or_iff)
  show "apply_attrs_desc (V7_MK_DESC v n OR V7_MK_DESC v' n') a =
        (if V7_PROPERTY_NON_WRITABLE AND ((if v then n else 0) OR (if v' then n' else 0)) \<noteq> 0 then a OR V7_PROPERTY_NON_WRITABLE else a)"
    if "a AND V7_PROPERTY_NON_CONFIGURABLE \<noteq> 0"
  proof -
    have one: "(x AND 1 \<noteq> 0) = bit x 0" for x :: "'a :: len word" by (simp add: and_one_eq odd_iff_mod_2_eq_one bit_0)
    have one': "(1 AND x \<noteq> 0) = bit x 0" for x :: "'a :: len word" using one [of x] by (simp add: ac_simps)
    have c: "ucast (1 :: u16) = (1 :: u64)" by simp
    show ?thesis
      unfolding apply_attrs_desc_def V7_PROPERTY_NON_WRITABLE_def c one one' V7_DESC_SHIFT_def using that desc_bit [of 0]
      by (auto simp: bit_simps)
  qed
qed

theorem attributes_described_witness:
  "apply_attrs_desc (V7_DESC_WRITABLE False OR V7_DESC_ENUMERABLE True) 2 = 1 \<and>
   apply_attrs_desc (V7_DESC_WRITABLE True OR V7_DESC_CONFIGURABLE True) 5 = 5"
proof -
  note w = V7_DESC_WRITABLE_def V7_DESC_ENUMERABLE_def V7_DESC_CONFIGURABLE_def
    V7_PROPERTY_NON_WRITABLE_def V7_PROPERTY_NON_ENUMERABLE_def V7_PROPERTY_NON_CONFIGURABLE_def
  show ?thesis
    using attributes_described [of 2 True V7_PROPERTY_NON_WRITABLE False V7_PROPERTY_NON_ENUMERABLE 0]
      attributes_described [of 5 False V7_PROPERTY_NON_WRITABLE False V7_PROPERTY_NON_CONFIGURABLE 0]
    unfolding w by simp
qed

subsection \<open>Lookup\<close>

text \<open>The prototypes of a value, from itself on to the end of the chain.\<close>

fun proto_chain :: "js \<Rightarrow> val_t \<Rightarrow> val_t list \<Rightarrow> bool" where
  "proto_chain st v [] \<longleftrightarrow> v = V7_NULL"
| "proto_chain st v (x # xs) \<longleftrightarrow> x = v \<and> v7_is_object v \<and> (\<exists>u. obj_prototype_v st v = Some u \<and> proto_chain st u xs)"

lemma first_named_append:
  "0 \<notin> fst ` set ps \<Longrightarrow> first_named name (ps @ qs) = (if first_named name ps = 0 then first_named name qs else first_named name ps)"
  by (induction name ps rule: first_named.induct) auto

lemma chain_not_null: "chain W h qs \<Longrightarrow> 0 \<notin> set qs"
  by (induction qs arbitrary: h) auto

lemma null_no_object: "\<not> v7_is_object V7_NULL" "v7_is_null V7_NULL"
  by (simp_all add: kinds tag_values V7_NULL_def v7_is_null_def tag_of_def)

lemma property_loop:
  assumes "proto_chain st v vs" "\<forall>x \<in> set vs. has_props E ss st (payload x) (pl x)" "0 \<notin> set name" "length name < 2 ^ 31"
  shows "get_property_loop E st v name = Some (first_named name (concat (map pl vs)))"
  using assms(1,2)
proof (induction vs arbitrary: v)
  case (Cons x vs)
  then obtain u where u: "x = v" "v7_is_object v" "obj_prototype_v st v = Some u" "proto_chain st u vs" by auto
  have h: "has_props E ss st (payload v) (pl v)" using Cons.prems(2) u(1) by simp
  have "0 \<notin> fst ` set (pl v)" using h chain_not_null by (force simp: has_props_def)
  moreover have "v \<noteq> V7_NULL" using u(2) null_no_object by auto
  ultimately show ?case
    using own_property [OF h u(2) assms(3,4)] Cons.IH [OF u(4)] Cons.prems(2) u(1,3)
    by (subst get_property_loop.simps) (simp add: first_named_append)
qed (subst get_property_loop.simps, simp)

lemma prototype_loop:
  assumes "proto_chain st v vs" "vs \<noteq> []"
  shows "is_prototype_of_loop st v p = Some (p \<in> set (tl vs) \<or> p = V7_NULL)"
  using assms
proof (induction vs arbitrary: v)
  case (Cons x vs)
  then obtain u where u: "x = v" "v7_is_object v" "obj_prototype_v st v = Some u" "proto_chain st u vs" by auto
  have n: "\<not> v7_is_null v" using u(2) by (rule object_not_null)
  show ?case
  proof (cases vs)
    case Nil
    then have "u = V7_NULL" using u(4) by simp
    then show ?thesis using n u(3) Nil null_no_object
      by (subst is_prototype_of_loop.simps) (auto, subst is_prototype_of_loop.simps, simp)
  next
    case (Cons y ys)
    then have "u = y" using u(4) by simp
    then show ?thesis using n u Cons.IH [OF u(4)] Cons by (subst is_prototype_of_loop.simps) auto
  qed
qed simp

text \<open>C9: the lookup of a property by a name without a NUL inside finds the first property of the name in the object or, in order, its
  prototypes, and answers \<open>NULL\<close> when none has it; \<open>is_prototype_of\<close> answers whether an object is one of
  the prototypes. Both end when the chain of prototypes does.\<close>

theorem lookup_inherits:
  assumes "proto_chain st v vs" "v7_is_object v" "\<forall>x \<in> set vs. has_props E ss st (payload x) (pl x)"
    and "0 \<notin> set name" "length name < 2 ^ 31" "v7_is_object p"
  shows "v7_get_property E st v name = Some (first_named name (concat (map pl vs))) \<and>
    v7_get_own_property E st v name = Some (first_named name (pl v)) \<and>
    is_prototype_of st v p = Some (p \<in> set (tl vs))"
proof -
  have ne: "vs \<noteq> []" using assms(1,2) null_no_object(1) by auto
  then have "v \<in> set vs" using assms(1) by (cases vs) auto
  then have "has_props E ss st (payload v) (pl v)" using assms(3) by blast
  moreover have "p \<noteq> V7_NULL" using assms(6) null_no_object(1) by auto
  ultimately show ?thesis
    using property_loop [OF assms(1,3-5)] own_property [OF _ assms(2,4,5)] prototype_loop [OF assms(1) ne, of p] assms(2,6)
    by (simp add: v7_get_property_def is_prototype_of_def)
qed

text \<open>Here the object at 65560 has a property with the empty name, and its prototype at 65536 one named \<open>abcdef\<close>.\<close>

definition js1 :: js where "js1 = js0\<lparr>words := words0(196624 \<mapsto> x0)\<rparr>"
definition obj1 :: val_t where "obj1 = V7_TAG_OBJECT OR 65536"
definition obj2 :: val_t where "obj2 = V7_TAG_OBJECT OR 65560"

lemma js1_objects: "v7_is_object obj1" "v7_is_object obj2" "payload obj1 = 65536" "payload obj2 = 65560"
  by (simp_all add: obj1_def obj2_def kinds tag_values tag_of_def payload_def)

lemma js1_words: "words js1 = (words js0)(196624 \<mapsto> x0)" "vm js1 = vm js0" "cells_of k js1 = cells_of k js0"
    "arena_of k js1 = arena_of k js0" "strict_mode js1 = False"
  by (cases k; simp add: js1_def js0_def cells_of_def)+

lemma js1_named: "prop_named E0 [abcdef] js1 196608 abcdef" "prop_named E0 [abcdef] js1 196640 []"
proof -
  have "is_name E0 (vm js1) [abcdef] x0 abcdef" using sample_live by (simp add: is_name_def denotes_def js1_def js0_def abcdef_def)
  then show "prop_named E0 [abcdef] js1 196608 abcdef" by (simp add: prop_named_def js1_words js0_words)
  have "short_string [] = V7_TAG_STRING_I" by (simp add: short_string_def inline_payload_def)
  then show "prop_named E0 [abcdef] js1 196640 []"
    using short_is_name [of "[]" E0 "vm js1" "[abcdef]"] by (simp add: prop_named_def js1_words js0_words)
qed

lemma js1_props: "has_props E0 [abcdef] js1 65536 [(196608, abcdef)]" "has_props E0 [abcdef] js1 65560 [(196640, [])]"
  using js1_named sample_ok(1) js0_words js0_object
  by (simp_all add: has_props_def js1_words obj_attributes_def js0_def)

lemma js1_cells: "in_cells js1 65536 [(196608, abcdef)]" "in_cells js1 65560 [(196640, [])]"
proof -
  have "spaced js1" using js0_spaced by (simp add: spaced_def js1_words)
  then show "in_cells js1 65536 [(196608, abcdef)]" "in_cells js1 65560 [(196640, [])]"
    by (simp_all add: in_cells_def js1_words js0_cells)
qed

theorem lookup_inherits_witness:
  "v7_get_property E0 js1 obj2 abcdef = Some 196608 \<and> v7_get_own_property E0 js1 obj2 abcdef = Some 0 \<and>
   is_prototype_of js1 obj2 obj1 = Some True"
proof -
  let ?pl = "\<lambda>x. if x = obj1 then [(196608, abcdef)] else [(196640, [])]"
  have ne: "obj1 \<noteq> obj2" using js1_objects by auto
  have "proto_chain js1 obj2 [obj2, obj1]"
  proof -
    have f: "\<not> is_js_function v \<and> \<not> is_cfunction_lite v" if "v \<in> {obj1, obj2}" for v
      using that by (auto simp: obj1_def obj2_def kinds tag_values tag_of_def)
    have "pointer_to_value 65536 = Some 65536" using pointer_to_value_user [of 65536] payload_small [of 65536] by (simp add: tag_of_def)
    then have "v7_object_to_value (words js1) 65536 = Some obj1"
      by (simp add: v7_object_to_value_def obj_attributes_def js1_words js0_words obj1_def or.commute)
    then have "obj_prototype_v js1 obj2 = Some obj1"
      using f [of obj2] by (simp add: obj_prototype_v_def to_object js1_objects obj_prototype_def obj_attributes_def js1_words js0_words)
    moreover have "obj_prototype_v js1 obj1 = Some V7_NULL"
      using f [of obj1] by (simp add: obj_prototype_v_def to_object js1_objects obj_prototype_def obj_attributes_def js1_words js0_words v7_object_to_value_def)
    ultimately show ?thesis by (simp add: js1_objects)
  qed
  from lookup_inherits [OF this js1_objects(2), of E0 "[abcdef]" ?pl abcdef obj1] show ?thesis
    using js1_props js1_objects ne by (simp add: abcdef_def)
qed

subsection \<open>Deletion\<close>

text \<open>C8: deleting a property by a name without a NUL inside takes the first property of the name out of the list of the
  object and answers 0; without one it answers -1 and changes nothing. Only links change: the remaining properties keep
  their names, values and attributes, and the lookup of every other such name finds what it found before.\<close>

theorem del_removes_first:
  assumes "has_props E ss st (payload v) ps" "in_cells st (payload v) ps" "v7_is_object v" "0 \<notin> set name" "length name < 2 ^ 31"
  shows "\<exists>W. v7_del E v name st = Some (if name \<in> snd ` set ps then 0 else - 1, st\<lparr>words := W\<rparr>) \<and>
     has_props E ss (st\<lparr>words := W\<rparr>) (payload v) (remove_named name ps) \<and>
     (\<forall>a. a \<notin> insert (payload v) (fst ` set ps) \<longrightarrow> W a = words st a) \<and> (name \<notin> snd ` set ps \<longrightarrow> W = words st) \<and>
     (\<forall>other. other \<noteq> name \<longrightarrow> 0 \<notin> set other \<longrightarrow> length other < 2 ^ 31 \<longrightarrow>
        v7_get_own_property E (st\<lparr>words := W\<rparr>) v other = v7_get_own_property E st v other)"
proof -
  obtain W where W: "v7_del E v name st = Some (if name \<in> snd ` set ps then 0 else - 1, st\<lparr>words := W\<rparr>)"
    "has_props E ss (st\<lparr>words := W\<rparr>) (payload v) (remove_named name ps)"
    "\<forall>a. a \<notin> insert (payload v) (fst ` set ps) \<longrightarrow> W a = words st a" "name \<notin> snd ` set ps \<longrightarrow> W = words st"
    using del_spec [OF assms] by blast
  have "first_named other (remove_named name ps) = first_named other ps" if "other \<noteq> name" for other
    using that by (induction name ps rule: remove_named.induct) auto
  then show ?thesis
    using W own_property [OF W(2) assms(3)] own_property [OF assms(1,3)] by (intro exI [of _ W]) simp
qed

theorem del_removes_first_witness:
  "(\<exists>W. v7_del E0 obj1 abcdef js1 = Some (0, js1\<lparr>words := W\<rparr>) \<and> has_props E0 [abcdef] (js1\<lparr>words := W\<rparr>) 65536 []) \<and>
   v7_del E0 obj1 [97] js1 = Some (- 1, js1)"
proof -
  have h: "has_props E0 [abcdef] js1 (payload obj1) [(196608, abcdef)]" "in_cells js1 (payload obj1) [(196608, abcdef)]"
    using js1_props(1) js1_cells(1) by (simp_all add: js1_objects)
  note d = del_removes_first [OF h js1_objects(1)]
  have a: "0 \<notin> set abcdef" "length abcdef < 2 ^ 31" "abcdef \<noteq> [97]" by (simp_all add: abcdef_def)
  obtain W where "v7_del E0 obj1 abcdef js1 = Some (0, js1\<lparr>words := W\<rparr>)" "has_props E0 [abcdef] (js1\<lparr>words := W\<rparr>) 65536 []"
    using d [OF a(1,2)] by (auto simp: js1_objects)
  moreover obtain W' where "v7_del E0 obj1 [97] js1 = Some (- 1, js1\<lparr>words := W'\<rparr>)" "W' = words js1"
    using d [of "[97]"] a(3) by auto
  ultimately show ?thesis by (intro conjI exI [of _ W]) simp_all
qed

subsection \<open>Definition and assignment\<close>

text \<open>C7: defining a property of a new name (without a NUL inside) on an extensible object, when the arena of
  properties has a free cell, by a descriptor without the flag \<open>V7_DESC_PRESERVE_VALUE\<close>, puts a cell with the name, the
  value and the attributes described at the front of the object's list. The lookup then finds the new cell for the
  name and what it found before for every other one without a NUL inside; all other cells but the head of the list keep
  their words, and the values C code holds are the same as before.\<close>

theorem def_adds_property:
  assumes h: "has_props E ss st (payload v) ps" "in_cells st (payload v) ps" and v: "v7_is_object v"
    and n: "0 \<notin> set name" "length name < 2 ^ 31" "is_name E (vm st) ss x name" "name \<notin> snd ` set ps"
    and free: "arena_ok Property (c # f) st" "c \<notin> fst ` set ps"
    and ext: "obj_attributes (words st) (payload v) = Some a" "a AND V7_OBJ_NOT_EXTENSIBLE = 0"
    and at: "outside_cells st name_at" "outside_cells st val_at" "name_at \<noteq> val_at" "name_at \<notin> set qs" "val_at \<notin> set qs"
    and p: "pointers (owned_values (vm st)) qs" "unat (mb_len (owned_values (vm st))) < 2 ^ 49"
    and d: "desc AND V7_DESC_PRESERVE_VALUE = 0"
  shows "\<exists>st' m qs'. def_property_v E G n' name_at val_at v x desc y asg st = Some (True, c, st') \<and>
     vm st' = (vm st)\<lparr>owned_values := m\<rparr> \<and> pointers m qs' \<and> mset qs' = mset qs \<and>
     has_props E ss st' (payload v) ((c, name) # ps) \<and> in_cells st' (payload v) ((c, name) # ps) \<and> arena_ok Property f st' \<and>
     words st' (c + 24) = Some y \<and> prop_attributes (words st') c = Some (apply_attrs_desc desc 0) \<and>
     (\<forall>k. \<forall>d \<in> cells_of k st. \<forall>z \<in> offsets k. (k \<noteq> Property \<or> d \<noteq> c) \<and> d + z \<noteq> payload v \<longrightarrow> words st' (d + z) = words st (d + z)) \<and>
     (\<forall>other. 0 \<notin> set other \<longrightarrow> length other < 2 ^ 31 \<longrightarrow>
        v7_get_own_property E st' v other = (if other = name then Some c else v7_get_own_property E st v other))"
proof -
  obtain st' m qs' where r: "def_property_v E G n' name_at val_at v x desc y asg st = Some (True, c, st')"
    "has_props E ss st' (payload v) ((c, name) # ps)"
    "vm st' = (vm st)\<lparr>owned_values := m\<rparr> \<and> pointers m qs' \<and> mset qs' = mset qs \<and>
     in_cells st' (payload v) ((c, name) # ps) \<and> arena_ok Property f st' \<and>
     words st' (c + 24) = Some y \<and> prop_attributes (words st') c = Some (apply_attrs_desc desc 0) \<and>
     (\<forall>k. \<forall>d \<in> cells_of k st. \<forall>z \<in> offsets k. (k \<noteq> Property \<or> d \<noteq> c) \<and> d + z \<noteq> payload v \<longrightarrow> words st' (d + z) = words st (d + z))"
    using def_new_spec [OF h v n free ext at p, where G = G and n' = n' and desc = desc and y = y and asg = asg] by blast
  have "v7_get_own_property E st' v other = (if other = name then Some c else v7_get_own_property E st v other)"
    if "0 \<notin> set other" "length other < 2 ^ 31" for other
    using own_property [OF r(2) v that] own_property [OF h(1) v that] by simp
  with r show ?thesis by (intro exI [of _ st'] exI [of _ m] exI [of _ qs']) simp
qed

definition G0 :: hooks where
  "G0 = \<lparr>throwf = (\<lambda>_ _. None), invoke_setter = (\<lambda>_ _ _ _. None)\<rparr>"

definition js2 :: js where
  "js2 = js1\<lparr>property_arena := arena0 196608 3 196672 32,
     words := (words js1)(196672 \<mapsto> 0, 196680 \<mapsto> 0, 196688 \<mapsto> 0, 196696 \<mapsto> 0)\<rparr>"

lemma js2_cells: "cells_of Generic_object js2 = {65536, 65560}" "cells_of Function js2 = {131072}"
    "cells_of Property js2 = {196608, 196640, 196672}"
  by (simp_all add: cells_of_def arena_cells_def js2_def js1_def js0_def arena0_def block_cells_def GC_CELL_OP_def upt_rec)

lemma js2_words: "words js2 = (words js1)(196672 \<mapsto> 0, 196680 \<mapsto> 0, 196688 \<mapsto> 0, 196696 \<mapsto> 0)" "vm js2 = v0"
  by (simp_all add: js2_def js1_def js0_def)

lemma js2_spaced: "spaced js2"
  unfolding spaced_def
proof (intro conjI allI)
  fix k k'
  show "\<forall>c \<in> cells_of k js2. \<forall>d \<in> cells_of k' js2. \<forall>x \<in> offsets k. \<forall>y \<in> offsets k'.
        c + x = d + y \<longrightarrow> k = k' \<and> c = d \<and> x = y"
    by (cases k; cases k'; simp add: js2_cells)
  show "\<forall>c \<in> cells_of k js2. c \<noteq> 0 \<and> c AND 7 = 0 \<and> (\<forall>x \<in> offsets k. tag_of (c + x) = 0)"
    by (cases k; simp add: js2_cells tag_of_def)
qed

lemma js2_free: "arena_ok Property [196672] js2"
  by (simp add: arena_ok_def js2_cells js2_words js1_words js0_words Let_def;
      simp add: js2_def arena0_def arena_cells_def block_cells_def GC_CELL_OP_def upt_rec)

lemma js2_props: "has_props E0 [abcdef] js2 65536 [(196608, abcdef)]" "in_cells js2 65536 [(196608, abcdef)]"
proof -
  have "prop_named E0 [abcdef] js2 196608 abcdef" using js1_named(1) by (simp add: prop_named_def js2_words js1_words js0_def)
  then show "has_props E0 [abcdef] js2 65536 [(196608, abcdef)]"
    using js1_props(1) js0_words by (simp add: has_props_def js2_words js1_words obj_attributes_def js0_def)
  show "in_cells js2 65536 [(196608, abcdef)]" using js2_spaced by (simp add: in_cells_def js2_cells)
qed

theorem def_adds_property_witness:
  "\<exists>st'. def_property_v E0 G0 0 262144 262152 obj1 (short_string [97]) (V7_DESC_WRITABLE False) 5 False js2 = Some (True, 196672, st') \<and>
     v7_get_own_property E0 st' obj1 [97] = Some 196672 \<and> v7_get_own_property E0 st' obj1 abcdef = Some 196608 \<and>
     words st' 196696 = Some 5 \<and> prop_attributes (words st') 196672 = Some 1"
proof -
  have o: "outside_cells js2 262144" "outside_cells js2 262152"
    unfolding outside_cells_def by (intro conjI allI; simp; case_tac k; simp add: js2_cells)+
  have at: "obj_attributes (words js2) (payload obj1) = Some 0"
    by (simp add: js1_objects obj_attributes_def js2_words js1_words js0_words)
  have p: "pointers (owned_values (vm js2)) []" "unat (mb_len (owned_values (vm js2))) < 2 ^ 49"
    using sample_ok by (simp_all add: js2_words pointers_def v0_def mbuf_ok_def content_def)
  have h: "has_props E0 [abcdef] js2 (payload obj1) [(196608, abcdef)]" "in_cells js2 (payload obj1) [(196608, abcdef)]"
    using js2_props by (simp_all add: js1_objects)
  have n: "is_name E0 (vm js2) [abcdef] (short_string [97]) [97]" by (rule short_is_name) simp
  have d: "apply_attrs_desc (V7_DESC_WRITABLE False) 0 = 1"
    by (simp add: apply_attrs_desc_def V7_DESC_WRITABLE_def V7_MK_DESC_def V7_DESC_SHIFT_def V7_DESC_MASK_def V7_PROPERTY_NON_WRITABLE_def
        V7_PROPERTY_NON_CONFIGURABLE_def)
  have keep: "V7_DESC_WRITABLE False AND V7_DESC_PRESERVE_VALUE = 0"
    by (simp add: V7_DESC_WRITABLE_def V7_MK_DESC_def V7_DESC_SHIFT_def V7_PROPERTY_NON_WRITABLE_def V7_DESC_PRESERVE_VALUE_def)
  obtain st' where r: "def_property_v E0 G0 0 262144 262152 obj1 (short_string [97]) (V7_DESC_WRITABLE False) 5 False js2 = Some (True, 196672, st')"
    "words st' (196672 + 24) = Some 5" "prop_attributes (words st') 196672 = Some (apply_attrs_desc (V7_DESC_WRITABLE False) 0)"
    "\<forall>other. 0 \<notin> set other \<longrightarrow> length other < 2 ^ 31 \<longrightarrow>
        v7_get_own_property E0 st' obj1 other = (if other = [97] then Some 196672 else v7_get_own_property E0 js2 obj1 other)"
    using def_adds_property [OF h js1_objects(1) _ _ n _ js2_free _ at _ o _ _ _ p keep, of G0 0 5 False]
    by (auto simp: abcdef_def)
  have "v7_get_own_property E0 js2 obj1 abcdef = Some 196608"
    using own_property [OF h(1) js1_objects(1), of abcdef] by (simp add: abcdef_def)
  with r(1,2,3) r(4) [rule_format, of "[97]"] r(4) [rule_format, of abcdef] d show ?thesis by (auto simp: abcdef_def)
qed

text \<open>C10: assigning to an existing property without a setter, by a name without a NUL inside, replaces the value of the first property of the name and
  nothing else, and outside of strict mode the assignment to a read-only property changes nothing; the values C
  code holds are the same as before.\<close>

theorem assign_replaces_value:
  assumes h: "has_props E ss st (payload v) ps" "in_cells st (payload v) ps" and v: "v7_is_object v"
    and n: "0 \<notin> set name" "length name < 2 ^ 31" "is_name E (vm st) ss x name" "name \<in> snd ` set ps"
    and a: "prop_attributes (words st) (first_named name ps) = Some a" "a AND V7_PROPERTY_SETTER = 0"
      "a AND V7_PROPERTY_NON_WRITABLE \<noteq> 0 \<longrightarrow> \<not> strict_mode st"
    and at: "outside_cells st name_at" "outside_cells st val_at" "name_at \<noteq> val_at" "name_at \<notin> set qs" "val_at \<notin> set qs"
    and p: "pointers (owned_values (vm st)) qs" "unat (mb_len (owned_values (vm st))) < 2 ^ 49"
  shows "\<exists>st' m qs'. set_property_v E G n' name_at val_at v x y st =
       Some (True, if a AND V7_PROPERTY_NON_WRITABLE = 0 then first_named name ps else 0, st') \<and>
     vm st' = (vm st)\<lparr>owned_values := m\<rparr> \<and> pointers m qs' \<and> mset qs' = mset qs \<and> has_props E ss st' (payload v) ps \<and>
     (\<forall>k. \<forall>d \<in> cells_of k st. \<forall>z \<in> offsets k. words st' (d + z) =
        (if a AND V7_PROPERTY_NON_WRITABLE = 0 \<and> d + z = first_named name ps + 24 then Some y else words st (d + z)))"
  by (rule assign_spec [OF h v n a at p])

theorem assign_replaces_value_witness:
  "\<exists>st'. set_property_v E0 G0 0 262144 262152 obj1 x0 5 js1 = Some (True, 196608, st') \<and> words st' 196632 = Some 5 \<and>
     words st' 196608 = Some 0 \<and> words st' 196624 = Some x0"
proof -
  have o: "outside_cells js1 262144" "outside_cells js1 262152"
    unfolding outside_cells_def by (intro conjI allI; simp; case_tac k; simp add: js1_words js0_cells)+
  have p: "pointers (owned_values (vm js1)) []" "unat (mb_len (owned_values (vm js1))) < 2 ^ 49"
    using sample_ok by (simp_all add: js1_words js0_def pointers_def v0_def mbuf_ok_def content_def)
  have h: "has_props E0 [abcdef] js1 (payload obj1) [(196608, abcdef)]" "in_cells js1 (payload obj1) [(196608, abcdef)]"
    using js1_props js1_cells by (simp_all add: js1_objects)
  have n: "is_name E0 (vm js1) [abcdef] x0 abcdef" using js1_named(1) by (simp add: prop_named_def js1_words)
  have a: "prop_attributes (words js1) (first_named abcdef [(196608, abcdef)]) = Some 0"
    by (simp add: prop_attributes_def js1_words js0_words)
  obtain st' where r: "set_property_v E0 G0 0 262144 262152 obj1 x0 5 js1 = Some (True, 196608, st')"
    "\<forall>k. \<forall>d \<in> cells_of k js1. \<forall>z \<in> offsets k. words st' (d + z) = (if d + z = 196632 then Some 5 else words js1 (d + z))"
    using assign_replaces_value [OF h js1_objects(1) _ _ n _ a _ _ o _ _ _ p, of G0 0 5] by (auto simp: abcdef_def)
  have c: "196608 \<in> cells_of Property js1" by (simp add: js1_words js0_cells)
  have "words st' (196608 + z) = (if 196608 + z = 196632 then Some 5 else words js1 (196608 + z))" if "z \<in> offsets Property" for z
    using r(2) c that by blast
  from this [of 0] this [of 16] this [of 24] r(1) show ?thesis by (simp add: js1_words js0_words)
qed

end
