(* ===== verification/ObjProps.thy ===== *)
theory ObjProps
  imports WriteProps
begin

text \<open>
  More properties of objects: the sweep and the allocation of cells, the count of references of byte code,
  and the lookup of properties.
\<close>

subsection \<open>Cells\<close>

text \<open>The sweep of an arena whose cells need no destructor ends; of the blocks that stay, the marked cells lose
  their mark and keep their words, and the free list holds all the others, once each; other arenas
  keep their words.\<close>

theorem gc_sweep_frees:
  assumes "sweepable Property f st"
  shows "\<exists>st' fr. gc_sweep (\<lambda>p st. Some st) Property st = Some st' \<and>
     cells_of Property st' = set fr \<union> marked Property st \<and> set fr \<inter> marked Property st = {} \<and> distinct fr \<and>
     chain (words st') (free_cells (property_arena st')) fr \<and>
     (\<forall>c \<in> marked Property st. words st' c = map_option (\<lambda>w. w AND NOT 1) (words st c) \<and>
        (\<forall>x \<in> {8, 16, 24}. words st' (c + x) = words st (c + x))) \<and>
     (\<forall>k'. \<forall>c \<in> cells_of k' st. \<forall>x \<in> offsets k'. k' \<noteq> Property \<longrightarrow> words st' (c + x) = words st (c + x))"
proof -
  obtain st' fr where r: "gc_sweep (\<lambda>p st. Some st) Property st = Some st'"
    "sweep_result Property (marked Property st) fr st st'"
    by (rule property_sweep.arena_swept [OF assms]) (simp add: untouched_def, rule that)
  then show ?thesis unfolding sweep_result_def by (intro exI [of _ st'] exI [of _ fr]) auto
qed

lemma js1_sweepable: "sweepable Property [] (js0\<lparr>words := words0(196608 \<mapsto> 1)\<rparr>)"
proof -
  let ?js = "js0\<lparr>words := words0(196608 \<mapsto> 1)\<rparr>"
  have cells: "cells_of k ?js = cells_of k js0" "arena_of k ?js = arena_of k js0" for k by (cases k; simp add: cells_of_def)+
  have w: "words ?js = (words js0)(196608 \<mapsto> 1)" by (simp add: js0_def)
  have "spaced ?js" using js0_spaced by (simp add: spaced_def cells)
  moreover have "arena_ok Property [] ?js"
    using js0_arena [of Property] unfolding arena_ok_def Let_def cells w by (auto simp: js0_cells)
  ultimately show ?thesis
    unfolding sweepable_def cells w by (auto simp: js0_cells js0_words)
qed

theorem gc_sweep_frees_witness:
  "\<exists>st'. gc_sweep (\<lambda>p st. Some st) Property (js0\<lparr>words := words0(196608 \<mapsto> 1)\<rparr>) = Some st' \<and> words st' 196608 = Some 0"
proof -
  let ?js = "js0\<lparr>words := words0(196608 \<mapsto> 1)\<rparr>"
  have "marked Property ?js = {196608}" by (auto simp: marked_def cells_of_def arena_cells_def js0_def arena0_def block_cells_def
      GC_CELL_OP_def upt_rec words0_def)
  with gc_sweep_frees [OF js1_sweepable] show ?thesis by auto
qed

text \<open>With a free cell, allocation does not collect: it answers the head of the free list, cleared, and the
  rest of the list stays; all other words, and so all objects in use, are as before.\<close>

theorem gc_alloc_takes_head:
  assumes "spaced st" "arena_ok k (c # f) st"
  shows "\<exists>st'. gc_alloc_cell C collect k st = Some (c, st') \<and> c \<in> cells_of k st \<and> c \<notin> set f \<and> arena_ok k f st' \<and>
     (\<forall>x \<in> offsets k. words st' (c + x) = Some 0) \<and>
     (\<forall>k'. \<forall>d \<in> cells_of k' st. \<forall>y \<in> offsets k'. k' \<noteq> k \<or> d \<noteq> c \<longrightarrow> words st' (d + y) = words st (d + y)) \<and>
     (\<forall>a. outside_cells st a \<longrightarrow> words st' a = words st a)"
  using alloc_head [OF assms] by blast

theorem gc_alloc_takes_head_witness:
  "\<exists>st'. gc_alloc_cell (\<lambda>_ _. 0) (\<lambda>_. None) Function js0 = Some (131072, st') \<and> arena_ok Function [] st'"
  using gc_alloc_takes_head [OF js0_spaced, of Function 131072 "[]"] js0_arena [of Function] by fastforce

subsection \<open>The count of references of byte code\<close>

fun retain_times :: "nat \<Rightarrow> u64 \<Rightarrow> js \<Rightarrow> js option" where
  "retain_times 0 b st = Some st"
| "retain_times (Suc n) b st = do { st \<leftarrow> retain_bcode b st; retain_times n b st }"

lemma retain_count:
  "bcodes st b = Some bc \<Longrightarrow> \<not> frozen bc \<Longrightarrow>
     retain_times n b st = Some (st\<lparr>bcodes := (bcodes st)(b \<mapsto> bc\<lparr>refcnt := refcnt bc + of_nat n\<rparr>)\<rparr>)"
proof (induction n arbitrary: st bc)
  case 0
  then show ?case by (simp add: fun_upd_idem)
next
  case (Suc n)
  let ?bc = "bc\<lparr>refcnt := refcnt bc + 1\<rparr>" and ?st = "st\<lparr>bcodes := (bcodes st)(b \<mapsto> bc\<lparr>refcnt := refcnt bc + 1\<rparr>)\<rparr>"
  have "retain_times n b ?st = Some (?st\<lparr>bcodes := (bcodes ?st)(b \<mapsto> ?bc\<lparr>refcnt := refcnt ?bc + of_nat n\<rparr>)\<rparr>)"
    by (rule Suc.IH) (use Suc.prems(2) in simp_all)
  moreover have "retain_bcode b st = Some ?st" using Suc.prems by (simp add: retain_bcode_def)
  moreover have e: "bc\<lparr>refcnt := refcnt bc + of_nat (Suc n)\<rparr> = bc\<lparr>refcnt := refcnt bc + 1 + of_nat n\<rparr>"
    by (simp only: of_nat_Suc add.assoc)
  ultimately show ?case unfolding e by (simp add: fun_upd_def cong: if_cong)
qed

text \<open>The count of references of byte code has eight bits. 256 more references to a function's byte code
  leave the count as it was: when it was one, the next release frees the code while they still use it.\<close>

theorem refcnt_wraps:
  assumes "bcodes st b = Some bc" "\<not> frozen bc"
  shows "retain_times 256 b st = Some st \<and>
     (refcnt bc = 1 \<longrightarrow> (\<exists>st1 st2. retain_times 256 b st = Some st1 \<and> release_bcode b st1 = Some st2 \<and> bcodes st2 b = None)) \<and>
     (refcnt bc = 0 \<longrightarrow> (\<forall>n. n mod 256 = 0 \<longrightarrow> (\<exists>st1. retain_times n b st = Some st1 \<and> release_bcode b st1 = None)))"
proof (intro conjI impI allI)
  have "(of_nat 256 :: u8) = 0" by (simp only: word_unat_eq_iff unat_of_nat) simp
  then have "bc\<lparr>refcnt := refcnt bc + of_nat 256\<rparr> = bc" by (simp only: add_0_right) simp
  then show same: "retain_times 256 b st = Some st" using retain_count [OF assms, of 256] assms(1) by (simp add: fun_upd_idem)
  show "\<exists>st1 st2. retain_times 256 b st = Some st1 \<and> release_bcode b st1 = Some st2 \<and> bcodes st2 b = None" if "refcnt bc = 1"
    using same assms that by (simp add: release_bcode_def bcode_free_def)
  fix n :: nat
  assume r: "refcnt bc = 0" and "n mod 256 = 0"
  then have n: "(of_nat n :: u8) = 0" by (simp only: word_unat_eq_iff unat_of_nat) simp
  show "\<exists>st1. retain_times n b st = Some st1 \<and> release_bcode b st1 = None"
    using retain_count [OF assms, of n] assms(2) r n by (simp add: release_bcode_def)
qed

theorem refcnt_wraps_witness:
  "let st = js0\<lparr>bcodes := [4096 \<mapsto> \<lparr>lit_p = 8192, lit_len = 8, refcnt = 1, frozen = False\<rparr>]\<rparr> in
     retain_times 256 4096 st = Some st \<and> (\<exists>st2. release_bcode 4096 st = Some st2 \<and> bcodes st2 4096 = None)"
proof -
  let ?st = "js0\<lparr>bcodes := [4096 \<mapsto> \<lparr>lit_p = 8192, lit_len = 8, refcnt = 1, frozen = False\<rparr>]\<rparr>"
  have "bcodes ?st 4096 = Some \<lparr>lit_p = 8192, lit_len = 8, refcnt = 1, frozen = False\<rparr>" by simp
  from refcnt_wraps [OF this] obtain st1 st2 where "retain_times 256 4096 ?st = Some ?st" "retain_times 256 4096 ?st = Some st1"
    "release_bcode 4096 st1 = Some st2" "bcodes st2 4096 = None" by auto
  then show ?thesis by (simp only: Let_def) simp
qed

subsection \<open>Names\<close>

text \<open>Whether a property in the string buffer has a long name (\<open>v7_get_own_property2\<close>, \<open>v7_del\<close>): the texts of
  the same length are compared up to a zero byte only, so the answer is right when one of them has none, and
  two different names that agree up to a zero byte are taken for one.\<close>

theorem named_up_to_nul:
  assumes ok: "strings_ok (vm st) ss" and w: "words st (p + 16) = Some x" and l: "live (vm st) ss x s"
    and len: "length name < 2 ^ 31"
  shows "(0 \<notin> set s \<or> 0 \<notin> set name \<longrightarrow> named E st name p = Some (s = name)) \<and>
     (\<forall>a u v. s = a @ 0 # u \<longrightarrow> name = a @ 0 # v \<longrightarrow> length u = length v \<longrightarrow> named E st name p = Some True)"
proof -
  have "denotes (other_memory E) (vm st) ss x s" using l by (simp add: denotes_def)
  from named_text [OF ok w this len] show ?thesis by (auto simp: strncmp_nul strncmp_eq)
qed

theorem named_up_to_nul_witness:
  "named E0 (js0\<lparr>words := words0(196624 \<mapsto> x0)\<rparr>) abcdef 196608 = Some True \<and>
   named E0 (js0\<lparr>words := words0(196624 \<mapsto> x0)\<rparr>) [97, 98, 99, 100, 101, 103] 196608 = Some False"
proof -
  let ?st = "js0\<lparr>words := words0(196624 \<mapsto> x0)\<rparr>"
  have "strings_ok (vm ?st) [abcdef]" "live (vm ?st) [abcdef] x0 abcdef" using sample_ok(1) sample_live by (simp_all add: js0_def)
  note n = named_up_to_nul [OF this(1) _ this(2), of 196608]
  have "0 \<notin> set abcdef" "abcdef \<noteq> [97, 98, 99, 100, 101, 103]" "length abcdef < 2 ^ 31" by (simp_all add: abcdef_def)
  then show ?thesis using n [of abcdef E0] n [of "[97, 98, 99, 100, 101, 103]" E0] by simp
qed

end
