(* ===== verification/PlatMem.thy ===== *)
theory PlatMem
  imports Prelude
begin

text \<open>
  The heap and \<open>platform/plat_mem.h\<close>. A heap is a finite map from block addresses to byte
  lists; a pointer is a block and an offset into it, so that a read or a write outside a block
  is seen (\<open>None\<close>). \<open>malloc\<close> is the C library's: which address it answers is taken from an
  oracle (\<open>pick\<close>, one answer per call), and whatever the oracle says the block is new and its
  address is not NULL; an oracle that picks 0 or an allocated address makes the call fail. The
  bytes of a new block come from the oracle too (\<open>junk\<close>). \<open>plat_mem_allocate\<close> takes an
  \<open>unsigned int\<close>, which is where a \<open>size_t\<close> of a caller loses its upper half.
\<close>

type_synonym addr = u64

datatype ptr = Null | Ptr addr nat

record mem =
  blocks :: "addr \<Rightarrow> u8 list option"
  tick :: nat

record libc =
  pick :: "nat \<Rightarrow> nat \<Rightarrow> addr"
  junk :: "nat \<Rightarrow> nat \<Rightarrow> u8"

definition empty_mem :: mem where
  "empty_mem = \<lparr>blocks = Map.empty, tick = 0\<rparr>"

subsection \<open>The C library's allocator and byte operations\<close>

definition malloc :: "libc \<Rightarrow> nat \<Rightarrow> mem \<Rightarrow> ptr \<times> mem" where
  "malloc L n m =
     (let a = pick L (tick m) n; m' = m\<lparr>tick := Suc (tick m)\<rparr> in
      if a = 0 \<or> blocks m a \<noteq> None then (Null, m')
      else (Ptr a 0, m'\<lparr>blocks := (blocks m)(a \<mapsto> map (junk L (tick m)) [0..<n])\<rparr>))"

fun free :: "ptr \<Rightarrow> mem \<Rightarrow> mem option" where
  "free Null m = Some m"
| "free (Ptr a off) m =
     (if off = 0 \<and> blocks m a \<noteq> None
      then Some (m\<lparr>blocks := (blocks m)(a := None)\<rparr>) else None)"

fun mem_load :: "ptr \<Rightarrow> nat \<Rightarrow> mem \<Rightarrow> u8 list option" where
  "mem_load Null n m = (if n = 0 then Some [] else None)"
| "mem_load (Ptr a off) n m =
     (case blocks m a of
        None \<Rightarrow> None
      | Some bs \<Rightarrow> if off + n \<le> length bs then Some (take n (drop off bs)) else None)"

fun mem_store :: "ptr \<Rightarrow> u8 list \<Rightarrow> mem \<Rightarrow> mem option" where
  "mem_store Null vs m = (if vs = [] then Some m else None)"
| "mem_store (Ptr a off) vs m =
     (case blocks m a of
        None \<Rightarrow> None
      | Some bs \<Rightarrow>
          if off + length vs \<le> length bs
          then Some (m\<lparr>blocks := (blocks m)
                 (a \<mapsto> take off bs @ vs @ drop (off + length vs) bs)\<rparr>)
          else None)"

fun ptr_add :: "ptr \<Rightarrow> nat \<Rightarrow> ptr" where
  "ptr_add Null n = Null"
| "ptr_add (Ptr a off) n = Ptr a (off + n)"

fun overlapping :: "ptr \<Rightarrow> ptr \<Rightarrow> nat \<Rightarrow> bool" where
  "overlapping (Ptr a i) (Ptr b j) n = (a = b \<and> i < j + n \<and> j < i + n)"
| "overlapping p q n = False"

subsection \<open>The operations of plat_mem.h\<close>

definition plat_mem_allocate :: "libc \<Rightarrow> u32 \<Rightarrow> mem \<Rightarrow> (ptr \<times> mem) option" where
  "plat_mem_allocate L sz m =
     (case malloc L (unat sz) m of (p, m1) \<Rightarrow>
        if p \<noteq> Null
        then do { m2 \<leftarrow> mem_store p (replicate (unat sz) 0) m1; Some (p, m2) }
        else Some (p, m1))"

definition plat_mem_release :: "ptr \<Rightarrow> mem \<Rightarrow> mem option" where
  "plat_mem_release p m = (if p \<noteq> Null then free p m else Some m)"

definition plat_mem_copy :: "ptr \<Rightarrow> ptr \<Rightarrow> u32 \<Rightarrow> mem \<Rightarrow> mem option" where
  "plat_mem_copy dest src sz m =
     (if overlapping dest src (unat sz) then None
      else do { bs \<leftarrow> mem_load src (unat sz) m; mem_store dest bs m })"

definition plat_mem_move :: "ptr \<Rightarrow> ptr \<Rightarrow> u32 \<Rightarrow> mem \<Rightarrow> mem option" where
  "plat_mem_move dest src sz m =
     do { bs \<leftarrow> mem_load src (unat sz) m; mem_store dest bs m }"

definition plat_mem_set :: "ptr \<Rightarrow> u8 \<Rightarrow> u32 \<Rightarrow> mem \<Rightarrow> mem option" where
  "plat_mem_set dest v sz m = mem_store dest (replicate (unat sz) v) m"

subsection \<open>Facts about the heap\<close>

lemma map_junk_store:
  "take 0 (map f [0..<n]) @ replicate n x @ drop (0 + length (replicate n x)) (map f [0..<n])
     = replicate n x"
  by simp

text \<open>An allocation either fails and changes nothing but the clock, or answers a new zeroed block.\<close>

lemma plat_mem_allocate_cases:
  obtains (fail) "plat_mem_allocate L sz m = Some (Null, m\<lparr>tick := Suc (tick m)\<rparr>)"
  | (ok) a where "a \<noteq> 0" "blocks m a = None"
      "plat_mem_allocate L sz m =
         Some (Ptr a 0, \<lparr>blocks = (blocks m)(a \<mapsto> replicate (unat sz) 0), tick = Suc (tick m)\<rparr>)"
proof (cases "pick L (tick m) (unat sz) = 0 \<or> blocks m (pick L (tick m) (unat sz)) \<noteq> None")
  case True
  then show ?thesis
    by (intro fail) (auto simp: plat_mem_allocate_def malloc_def Let_def)
next
  case False
  then show ?thesis
    by (intro ok [of "pick L (tick m) (unat sz)"])
       (auto simp: plat_mem_allocate_def malloc_def Let_def)
qed

lemma plat_mem_allocate_total: "plat_mem_allocate L sz m \<noteq> None"
  by (cases rule: plat_mem_allocate_cases [of L sz m]) auto

lemma free_ok:
  "blocks m a = Some bs \<Longrightarrow> plat_mem_release (Ptr a 0) m = Some (m\<lparr>blocks := (blocks m)(a := None)\<rparr>)"
  by (simp add: plat_mem_release_def)

lemma release_Null [simp]: "plat_mem_release Null m = Some m"
  by (simp add: plat_mem_release_def)

lemma mem_store_length:
  assumes "mem_store p vs m = Some m'"
  shows "map_option length (blocks m' b) = map_option length (blocks m b)"
  using assms by (cases p) (auto split: option.splits if_splits)

lemma mem_store_other:
  "mem_store (Ptr a off) vs m = Some m' \<Longrightarrow> b \<noteq> a \<Longrightarrow> blocks m' b = blocks m b"
  by (auto split: option.splits if_splits)

lemma mem_store_load:
  assumes "mem_store p vs m = Some m'"
  shows "mem_load p (length vs) m' = Some vs"
  using assms by (cases p) (auto split: option.splits if_splits)

lemma mem_store_tick: "mem_store p vs m = Some m' \<Longrightarrow> tick m' = tick m"
  by (cases p) (auto split: option.splits if_splits)

end
