(* ===== verification/Stdio.thy ===== *)
theory Stdio
  imports PlatMem
begin

text \<open>
  The part of the C library and of POSIX that the file commands, \<open>main.c\<close> and \<open>platform/plat_io.h\<close>
  use: streams over files and over commands, the working directory, the two output streams.
  Paths and file contents are byte strings. What the outside decides is the record \<open>host\<close>: the
  address of a new \<open>FILE\<close>, which paths can be written, what a command prints, how a path is made
  absolute, which paths are directories, what \<open>glob\<close> matches. A \<open>FILE*\<close> is its address, 0 is NULL.
  Closing or using a stream that is not open is undefined in C: the address is recorded in
  \<open>misused\<close>. Regular files only: a directory cannot be opened, a short read happens at the end of
  the file only.
\<close>

record stream =
  spath :: "u8 list"
  spipe :: bool
  sout :: "u8 list"
  spos :: nat
  sread :: bool
  swrite :: bool
  sappend :: bool

record fsys =
  files :: "u8 list \<Rightarrow> u8 list option"
  streams :: "u64 \<Rightarrow> stream option"
  opens :: nat
  misused :: "u64 list"
  cwd :: "u8 list"
  std_out :: "u8 list"
  std_err :: "u8 list"

record host =
  new_file :: "nat \<Rightarrow> u64"
  can_write :: "u8 list \<Rightarrow> bool"
  command :: "u8 list \<Rightarrow> u8 list option"
  absolute :: "u8 list \<Rightarrow> u8 list \<Rightarrow> u8 list"
  is_dir :: "u8 list \<Rightarrow> bool"
  glob_matches :: "u8 list \<Rightarrow> u8 list \<Rightarrow> u8 list list option"
  real_path :: "u8 list \<Rightarrow> u8 list \<Rightarrow> u8 list option"

record mode_flags =
  m_read :: bool
  m_write :: bool
  m_append :: bool
  m_trunc :: bool
  m_create :: bool

fun fopen_mode :: "u8 list \<Rightarrow> mode_flags option" where
  "fopen_mode [] = None"
| "fopen_mode (c # cs) =
     (let plus = (43 \<in> set cs) in
      if c = 114 then Some \<lparr>m_read = True, m_write = plus, m_append = False, m_trunc = False, m_create = False\<rparr>
      else if c = 119 then Some \<lparr>m_read = plus, m_write = True, m_append = False, m_trunc = True, m_create = True\<rparr>
      else if c = 97 then Some \<lparr>m_read = plus, m_write = True, m_append = True, m_trunc = False, m_create = True\<rparr>
      else None)"

text \<open>Handing out an address: \<open>open_stream\<close> fails when there is none.\<close>

definition open_stream :: "host \<Rightarrow> stream \<Rightarrow> fsys \<Rightarrow> u64 \<times> fsys" where
  "open_stream H st w =
     (let f = new_file H (opens w); w' = w\<lparr>opens := Suc (opens w)\<rparr> in
      if f = 0 \<or> streams w f \<noteq> None then (0, w')
      else (f, w'\<lparr>streams := (streams w)(f \<mapsto> st)\<rparr>))"

definition fopen :: "host \<Rightarrow> u8 list \<Rightarrow> u8 list \<Rightarrow> fsys \<Rightarrow> u64 \<times> fsys" where
  "fopen H path mode w =
     (let p = absolute H (cwd w) path in
      case fopen_mode mode of
        None \<Rightarrow> (0, w)
      | Some fl \<Rightarrow>
          if is_dir H p \<or> (m_write fl \<and> \<not> can_write H p) \<or> (files w p = None \<and> \<not> m_create fl)
          then (0, w)
          else
            (case open_stream H \<lparr>spath = p, spipe = False, sout = [], spos = 0, sread = m_read fl,
                        swrite = m_write fl, sappend = m_append fl\<rparr> w of
               (f, w1) \<Rightarrow>
                 if f = 0 then (0, w1)
                 else (f, if m_trunc fl \<or> files w p = None then w1\<lparr>files := (files w1)(p \<mapsto> [])\<rparr> else w1)))"

definition popen :: "host \<Rightarrow> u8 list \<Rightarrow> u8 list \<Rightarrow> fsys \<Rightarrow> u64 \<times> fsys" where
  "popen H cmd type w =
     (case command H cmd of
        None \<Rightarrow> (0, w)
      | Some out \<Rightarrow>
          if type = [114] \<or> type = [119]
          then open_stream H \<lparr>spath = cmd, spipe = True, sout = (if type = [114] then out else []),
                 spos = 0, sread = (type = [114]), swrite = (type = [119]), sappend = True\<rparr> w
          else (0, w))"

definition close_stream :: "bool \<Rightarrow> u64 \<Rightarrow> fsys \<Rightarrow> fsys" where
  "close_stream pipe f w =
     (case streams w f of
        None \<Rightarrow> w\<lparr>misused := misused w @ [f]\<rparr>
      | Some st \<Rightarrow>
          if spipe st = pipe then w\<lparr>streams := (streams w)(f := None)\<rparr>
          else w\<lparr>misused := misused w @ [f]\<rparr>)"

definition fclose :: "u64 \<Rightarrow> fsys \<Rightarrow> fsys" where "fclose = close_stream False"
definition pclose :: "u64 \<Rightarrow> fsys \<Rightarrow> fsys" where "pclose = close_stream True"

text \<open>A working directory without a path (it was removed) is the empty string.\<close>

definition getcwd :: "fsys \<Rightarrow> u8 list option" where
  "getcwd w = (if cwd w = [] then None else Some (cwd w))"

definition stream_data :: "stream \<Rightarrow> fsys \<Rightarrow> u8 list" where
  "stream_data st w =
     (if spipe st then sout st else case files w (spath st) of None \<Rightarrow> [] | Some bs \<Rightarrow> bs)"

definition seek_to :: "u64 \<Rightarrow> nat \<Rightarrow> fsys \<Rightarrow> fsys" where
  "seek_to f n w =
     (case streams w f of
        None \<Rightarrow> w\<lparr>misused := misused w @ [f]\<rparr>
      | Some st \<Rightarrow> w\<lparr>streams := (streams w)(f \<mapsto> st\<lparr>spos := n\<rparr>)\<rparr>)"

definition can_seek :: "u64 \<Rightarrow> fsys \<Rightarrow> bool" where
  "can_seek f w = (case streams w f of None \<Rightarrow> False | Some st \<Rightarrow> \<not> spipe st)"

text \<open>\<open>fseek(fp, 0, SEEK_SET)\<close> and \<open>fseek(fp, 0, SEEK_END)\<close>: true is the result 0.\<close>

definition fseek_set :: "u64 \<Rightarrow> fsys \<Rightarrow> bool \<times> fsys" where
  "fseek_set f w = (if can_seek f w then (True, seek_to f 0 w) else (False, w))"

definition fseek_end :: "u64 \<Rightarrow> fsys \<Rightarrow> bool \<times> fsys" where
  "fseek_end f w =
     (if can_seek f w
      then (True, seek_to f (length (case streams w f of None \<Rightarrow> [] | Some st \<Rightarrow> stream_data st w)) w)
      else (False, w))"

definition ftell :: "u64 \<Rightarrow> fsys \<Rightarrow> u64" where
  "ftell f w = (case streams w f of None \<Rightarrow> - 1 | Some st \<Rightarrow> of_nat (spos st))"

text \<open>\<open>fread\<close> answers the number of complete items and the bytes it stored.\<close>

definition fread :: "u64 \<Rightarrow> u64 \<Rightarrow> u64 \<Rightarrow> fsys \<Rightarrow> u64 \<times> u8 list \<times> fsys" where
  "fread sz n f w =
     (case streams w f of
        None \<Rightarrow> (0, [], w\<lparr>misused := misused w @ [f]\<rparr>)
      | Some st \<Rightarrow>
          if \<not> sread st \<or> sz = 0 \<or> n = 0 then (0, [], w)
          else let bs = take (unat sz * unat n) (drop (spos st) (stream_data st w))
               in (of_nat (length bs div unat sz), bs, seek_to f (spos st + length bs) w))"

definition write_at :: "nat \<Rightarrow> u8 list \<Rightarrow> u8 list \<Rightarrow> u8 list" where
  "write_at pos bs old =
     take pos old @ replicate (pos - length old) 0 @ bs @ drop (pos + length bs) old"

definition fwrite :: "u8 list \<Rightarrow> u64 \<Rightarrow> fsys \<Rightarrow> fsys" where
  "fwrite bs f w =
     (case streams w f of
        None \<Rightarrow> w\<lparr>misused := misused w @ [f]\<rparr>
      | Some st \<Rightarrow>
          if \<not> swrite st then w
          else if spipe st
          then w\<lparr>streams := (streams w)(f \<mapsto> st\<lparr>sout := sout st @ bs, spos := spos st + length bs\<rparr>)\<rparr>
          else
            let old = stream_data st w; pos = (if sappend st then length old else spos st)
            in w\<lparr>files := (files w)(spath st \<mapsto> write_at pos bs old),
                 streams := (streams w)(f \<mapsto> st\<lparr>spos := pos + length bs\<rparr>)\<rparr>)"

definition first_line :: "u8 list \<Rightarrow> u8 list" where
  "first_line bs = (let l = takeWhile (\<lambda>b. b \<noteq> 10) bs in if l = bs then l else l @ [10])"

text \<open>\<open>getline\<close>: the line read with its end, nothing at the end of the stream (the result -1).\<close>

definition getline :: "u64 \<Rightarrow> fsys \<Rightarrow> u8 list option \<times> fsys" where
  "getline f w =
     (case streams w f of
        None \<Rightarrow> (None, w\<lparr>misused := misused w @ [f]\<rparr>)
      | Some st \<Rightarrow>
          let l = (if sread st then first_line (drop (spos st) (stream_data st w)) else [])
          in if l = [] then (None, w) else (Some l, seek_to f (spos st + length l) w))"

definition c_string :: "u8 list \<Rightarrow> u8 list" where
  "c_string bs = takeWhile (\<lambda>b. b \<noteq> 0) bs"

end
