(* ===== verification/Uthash.thy ===== *)
theory Uthash
  imports PlatMem
begin

text \<open>
  The hash table of \<open>js-clib/uthash.h\<close> (version 1.9.9, the copy that \<open>js-clib/common.c\<close>
  includes) with its default configuration: Jenkins' hash, no Bloom filter, no debug checks.
  An element is the address of the client's struct; its \<open>UT_hash_handle\<close> is modelled by its
  key bytes and its hash value, the \<open>prev\<close>/\<open>next\<close> links by the list \<open>apporder\<close> (insertion
  order, last = tail) and the \<open>hh_prev\<close>/\<open>hh_next\<close> links of a bucket by the list \<open>chain\<close>.
  The table pointer that every macro takes (\<open>head\<close>) is an option: None is the NULL head.
  Running out of memory inside the macros ends the process (\<open>uthash_fatal\<close>) and is not modelled.
\<close>

subsection \<open>Handles, buckets and tables\<close>

record handle =
  hkey :: "u8 list"
  hashv :: u32

record bucket =
  chain :: "addr list"
  bcount :: u32
  expand_mult :: u32

record hashtab =
  handles :: "addr \<Rightarrow> handle option"
  apporder :: "addr list"
  buckets :: "bucket list"
  num_buckets :: u32
  log2_num_buckets :: u32
  num_items :: u32
  ideal_chain_maxlen :: u32
  nonideal_items :: u32
  ineff_expands :: u32
  noexpand :: u32

type_synonym head = "hashtab option"

subsection \<open>Jenkins' hash\<close>

definition hash_jen_mix :: "u32 \<Rightarrow> u32 \<Rightarrow> u32 \<Rightarrow> u32 \<times> u32 \<times> u32" where
  "hash_jen_mix a b c =
     (let a = a - b; a = a - c; a = a XOR drop_bit 13 c;
          b = b - c; b = b - a; b = b XOR push_bit 8 a;
          c = c - a; c = c - b; c = c XOR drop_bit 13 b;
          a = a - b; a = a - c; a = a XOR drop_bit 12 c;
          b = b - c; b = b - a; b = b XOR push_bit 16 a;
          c = c - a; c = c - b; c = c XOR drop_bit 5 b;
          a = a - b; a = a - c; a = a XOR drop_bit 3 c;
          b = b - c; b = b - a; b = b XOR push_bit 10 a;
          c = c - a; c = c - b; c = c XOR drop_bit 15 b
      in (a, b, c))"

definition key_at :: "u8 list \<Rightarrow> nat \<Rightarrow> u32" where
  "key_at key i = ucast (key ! i)"

definition key_word :: "u8 list \<Rightarrow> nat \<Rightarrow> u32" where
  "key_word key i = key_at key i + push_bit 8 (key_at key (i + 1))
     + push_bit 16 (key_at key (i + 2)) + push_bit 24 (key_at key (i + 3))"

function hash_jen_loop :: "u8 list \<Rightarrow> u32 \<Rightarrow> u32 \<Rightarrow> u32 \<Rightarrow> u8 list \<times> u32 \<times> u32 \<times> u32" where
  "hash_jen_loop key i j hv =
     (if 12 \<le> length key then
        (case hash_jen_mix (i + key_word key 0) (j + key_word key 4) (hv + key_word key 8) of
           (i', j', hv') \<Rightarrow> hash_jen_loop (drop 12 key) i' j' hv')
      else (key, i, j, hv))"
  by pat_completeness auto
termination
  by (relation "measure (\<lambda>(key, i, j, hv). length key)") auto

declare hash_jen_loop.simps [simp del]

definition add_if :: "bool \<Rightarrow> u32 \<Rightarrow> u32 \<Rightarrow> u32" where
  "add_if c w x = (if c then x + w else x)"

definition hash_jen :: "u8 list \<Rightarrow> u32" where
  "hash_jen key =
     (case hash_jen_loop key 0x9e3779b9 0x9e3779b9 0xfeedbeef of
        (k, i, j, hv) \<Rightarrow>
          let n = length k;
              hv = hv + of_nat (length key);
              hv = add_if (11 \<le> n) (push_bit 24 (key_at k 10)) hv;
              hv = add_if (10 \<le> n) (push_bit 16 (key_at k 9)) hv;
              hv = add_if (9 \<le> n) (push_bit 8 (key_at k 8)) hv;
              j = add_if (8 \<le> n) (push_bit 24 (key_at k 7)) j;
              j = add_if (7 \<le> n) (push_bit 16 (key_at k 6)) j;
              j = add_if (6 \<le> n) (push_bit 8 (key_at k 5)) j;
              j = add_if (5 \<le> n) (key_at k 4) j;
              i = add_if (4 \<le> n) (push_bit 24 (key_at k 3)) i;
              i = add_if (3 \<le> n) (push_bit 16 (key_at k 2)) i;
              i = add_if (2 \<le> n) (push_bit 8 (key_at k 1)) i;
              i = add_if (1 \<le> n) (key_at k 0) i
          in snd (snd (hash_jen_mix i j hv)))"

definition hash_to_bkt :: "u32 \<Rightarrow> u32 \<Rightarrow> nat" where
  "hash_to_bkt hv n = unat (hv AND (n - 1))"

subsection \<open>The macros\<close>

definition empty_bucket :: bucket where
  "empty_bucket = \<lparr>chain = [], bcount = 0, expand_mult = 0\<rparr>"

definition hash_make_table :: "addr \<Rightarrow> hashtab" where
  "hash_make_table a =
     \<lparr>handles = Map.empty, apporder = [a], buckets = replicate 32 empty_bucket,
      num_buckets = 32, log2_num_buckets = 5, num_items = 0, ideal_chain_maxlen = 0,
      nonideal_items = 0, ineff_expands = 0, noexpand = 0\<rparr>"

definition hv_of :: "hashtab \<Rightarrow> addr \<Rightarrow> u32" where
  "hv_of t a = (case handles t a of None \<Rightarrow> 0 | Some h \<Rightarrow> hashv h)"

definition hash_move :: "hashtab \<Rightarrow> u32 \<Rightarrow> bucket list \<times> u32 \<Rightarrow> addr \<Rightarrow> bucket list \<times> u32" where
  "hash_move t ideal acc a =
     (case acc of (bs, nonideal) \<Rightarrow>
        let i = hash_to_bkt (hv_of t a) (num_buckets t * 2);
            b = bs ! i;
            c = bcount b + 1;
            over = (c > ideal)
        in (bs[i := \<lparr>chain = a # chain b, bcount = c,
                     expand_mult = (if over then c div ideal else expand_mult b)\<rparr>],
            if over then nonideal + 1 else nonideal))"

definition ideal_maxlen :: "hashtab \<Rightarrow> u32" where
  "ideal_maxlen t =
     drop_bit (unat (log2_num_buckets t + 1)) (num_items t)
     + (if num_items t AND (num_buckets t * 2 - 1) \<noteq> 0 then 1 else 0)"

definition hash_expand_buckets :: "hashtab \<Rightarrow> hashtab" where
  "hash_expand_buckets t =
     (let ideal = ideal_maxlen t;
          res = foldl (hash_move t ideal)
                  (replicate (2 * unat (num_buckets t)) empty_bucket, 0)
                  (concat (map chain (buckets t)));
          ineff = (if snd res > drop_bit 1 (num_items t) then ineff_expands t + 1 else 0)
      in t\<lparr>buckets := fst res, num_buckets := num_buckets t * 2,
           log2_num_buckets := log2_num_buckets t + 1,
           ideal_chain_maxlen := ideal, nonideal_items := snd res, ineff_expands := ineff,
           noexpand := (if ineff > 1 then 1 else noexpand t)\<rparr>)"

definition hash_add_to_bkt :: "nat \<Rightarrow> addr \<Rightarrow> hashtab \<Rightarrow> hashtab" where
  "hash_add_to_bkt i a t =
     (let b = buckets t ! i;
          b' = b\<lparr>chain := a # chain b, bcount := bcount b + 1\<rparr>;
          t' = t\<lparr>buckets := (buckets t)[i := b']\<rparr>
      in if bcount b' \<ge> (expand_mult b' + 1) * 10 \<and> noexpand t' \<noteq> 1
         then hash_expand_buckets t' else t')"

definition hash_add :: "addr \<Rightarrow> u8 list \<Rightarrow> head \<Rightarrow> head" where
  "hash_add a key head =
     (let t = (case head of
                 None \<Rightarrow> hash_make_table a
               | Some t \<Rightarrow> t\<lparr>apporder := apporder t @ [a]\<rparr>);
          hv = hash_jen key;
          t = t\<lparr>num_items := num_items t + 1,
                handles := (handles t)(a \<mapsto> \<lparr>hkey = key, hashv = hv\<rparr>)\<rparr>
      in Some (hash_add_to_bkt (hash_to_bkt hv (num_buckets t)) a t))"

fun hash_find_in_bkt :: "(addr \<Rightarrow> handle option) \<Rightarrow> addr list \<Rightarrow> u8 list \<Rightarrow> addr option" where
  "hash_find_in_bkt hs [] key = None"
| "hash_find_in_bkt hs (a # as) key =
     (case hs a of
        None \<Rightarrow> None
      | Some h \<Rightarrow> if length (hkey h) = length key \<and> hkey h = key then Some a
                  else hash_find_in_bkt hs as key)"

definition hash_find :: "head \<Rightarrow> u8 list \<Rightarrow> addr option" where
  "hash_find head key =
     (case head of
        None \<Rightarrow> None
      | Some t \<Rightarrow> hash_find_in_bkt (handles t)
                    (chain (buckets t ! hash_to_bkt (hash_jen key) (num_buckets t))) key)"

definition hash_del_in_bkt :: "addr \<Rightarrow> bucket \<Rightarrow> bucket" where
  "hash_del_in_bkt a b = b\<lparr>bcount := bcount b - 1, chain := remove1 a (chain b)\<rparr>"

definition hash_delete :: "addr \<Rightarrow> head \<Rightarrow> head option" where
  "hash_delete a head =
     (case head of
        None \<Rightarrow> None
      | Some t \<Rightarrow>
          (case handles t a of
             None \<Rightarrow> None
           | Some h \<Rightarrow>
               if apporder t = [a] then Some None
               else
                 let i = hash_to_bkt (hashv h) (num_buckets t)
                 in Some (Some (t\<lparr>apporder := remove1 a (apporder t),
                      buckets := (buckets t)[i := hash_del_in_bkt a (buckets t ! i)],
                      handles := (handles t)(a := None),
                      num_items := num_items t - 1\<rparr>))))"

definition hash_iter :: "head \<Rightarrow> addr list" where
  "hash_iter head = (case head of None \<Rightarrow> [] | Some t \<Rightarrow> apporder t)"

definition hash_count :: "head \<Rightarrow> u32" where
  "hash_count head = (case head of None \<Rightarrow> 0 | Some t \<Rightarrow> num_items t)"

end
