(* ===== verification/UthashCorrect.thy ===== *)
theory UthashCorrect
  imports Uthash
begin

text \<open>
  Correctness of the \<open>uthash\<close> model: the invariant of a table (every element lies in exactly
  the bucket of its hash value, the counters agree with the lists, the number of buckets is a
  power of two), that every macro keeps it, and that a table refines a list of key/element pairs
  in insertion order. That interface is the locale \<open>keyed_list\<close>; the interpretation at the end
  is what the resource manager and the memory pool use.
\<close>

subsection \<open>The interface: a list of entries with unique keys\<close>

locale keyed_list =
  fixes ok :: "'t \<Rightarrow> bool"
    and room :: "'t \<Rightarrow> bool"
    and none :: "'t"
    and entries :: "'t \<Rightarrow> ('k \<times> 'e) list"
    and find :: "'t \<Rightarrow> 'k \<Rightarrow> 'e option"
    and add :: "'e \<Rightarrow> 'k \<Rightarrow> 't \<Rightarrow> 't"
    and del :: "'e \<Rightarrow> 't \<Rightarrow> 't option"
  assumes ok_none: "ok none"
    and entries_none: "entries none = []"
    and keys_distinct: "ok t \<Longrightarrow> distinct (map fst (entries t))"
    and elems_distinct: "ok t \<Longrightarrow> distinct (map snd (entries t))"
    and find_entries: "ok t \<Longrightarrow> find t k = map_of (entries t) k"
    and add_ok: "ok t \<Longrightarrow> room t \<Longrightarrow> k \<notin> fst ` set (entries t) \<Longrightarrow>
                   e \<notin> snd ` set (entries t) \<Longrightarrow> ok (add e k t)"
    and add_entries: "ok t \<Longrightarrow> room t \<Longrightarrow> k \<notin> fst ` set (entries t) \<Longrightarrow>
                   e \<notin> snd ` set (entries t) \<Longrightarrow> entries (add e k t) = entries t @ [(k, e)]"
    and del_some: "ok t \<Longrightarrow> e \<in> snd ` set (entries t) \<Longrightarrow> \<exists>t'. del e t = Some t'"
    and del_ok: "ok t \<Longrightarrow> del e t = Some t' \<Longrightarrow> ok t'"
    and del_entries: "ok t \<Longrightarrow> del e t = Some t' \<Longrightarrow>
                   entries t' = filter (\<lambda>x. snd x \<noteq> e) (entries t)"
begin

lemma find_none_iff: "ok t \<Longrightarrow> find t k = None \<longleftrightarrow> k \<notin> fst ` set (entries t)"
  by (simp add: find_entries map_of_eq_None_iff)

lemma find_some_iff: "ok t \<Longrightarrow> find t k = Some e \<longleftrightarrow> (k, e) \<in> set (entries t)"
  by (simp add: find_entries keys_distinct map_of_eq_Some_iff)

lemma find_add:
  assumes "ok t" "room t" "k \<notin> fst ` set (entries t)" "e \<notin> snd ` set (entries t)"
  shows "find (add e k t) k' = (if k' = k then Some e else find t k')"
proof -
  have "map_of (entries t) k = None"
    using assms(3) by (simp add: map_of_eq_None_iff)
  then show ?thesis
    using assms by (auto simp: find_entries add_ok add_entries map_add_def split: option.splits)
qed

lemma elem_key_unique:
  assumes "ok t" "(k, e) \<in> set (entries t)" "(k', e) \<in> set (entries t)"
  shows "k' = k"
  using elems_distinct [OF assms(1)] assms(2,3) by (rule distinct_snd_unique)

lemma find_del:
  assumes "ok t" "del e t = Some t'" "(k, e) \<in> set (entries t)"
  shows "find t' k' = (if k' = k then None else find t k')"
proof (cases "k' = k")
  case True
  have "k \<notin> fst ` set (entries t')"
  proof
    assume "k \<in> fst ` set (entries t')"
    then obtain e' where "(k, e') \<in> set (entries t)" "e' \<noteq> e"
      using del_entries [OF assms(1,2)] by auto
    with assms(3) distinct_fst_unique [OF keys_distinct [OF assms(1)]] show False
      by blast
  qed
  then show ?thesis
    using True del_ok [OF assms(1,2)] by (simp add: find_none_iff)
next
  case False
  have "find t' k' = Some x \<longleftrightarrow> find t k' = Some x" for x
    using del_ok [OF assms(1,2)] assms False elem_key_unique
    by (auto simp: find_some_iff del_entries [OF assms(1,2)])
  then show ?thesis
    using False by (metis not_None_eq)
qed

lemma del_length:
  assumes "ok t" "del e t = Some t'" "e \<in> snd ` set (entries t)"
  shows "Suc (length (entries t')) = length (entries t)"
  using length_filter_snd [OF elems_distinct [OF assms(1)] assms(3)]
    del_entries [OF assms(1,2)] by simp

end

subsection \<open>The invariant of a table\<close>

definition bkt_of :: "hashtab \<Rightarrow> addr \<Rightarrow> nat" where
  "bkt_of t a = unat (hv_of t a) mod length (buckets t)"

definition counters_ok :: "hashtab \<Rightarrow> bool" where
  "counters_ok t \<longleftrightarrow>
     length (buckets t) = 2 ^ unat (log2_num_buckets t) \<and> unat (log2_num_buckets t) < 32 \<and>
     num_buckets t = 2 ^ unat (log2_num_buckets t) \<and>
     num_items t = of_nat (length (apporder t))"

definition chains_in :: "hashtab \<Rightarrow> addr set \<Rightarrow> bool" where
  "chains_in t S \<longleftrightarrow>
     (\<forall>i < length (buckets t).
        distinct (chain (buckets t ! i)) \<and>
        set (chain (buckets t ! i)) = {a \<in> S. bkt_of t a = i} \<and>
        bcount (buckets t ! i) = of_nat (length (chain (buckets t ! i))))"

definition handles_ok :: "hashtab \<Rightarrow> bool" where
  "handles_ok t \<longleftrightarrow>
     apporder t \<noteq> [] \<and> distinct (apporder t) \<and> dom (handles t) = set (apporder t) \<and>
     (\<forall>a h. handles t a = Some h \<longrightarrow> hashv h = hash_jen (hkey h)) \<and>
     distinct (map (\<lambda>a. hkey (the (handles t a))) (apporder t))"

definition hash_ok :: "head \<Rightarrow> bool" where
  "hash_ok head = (case head of None \<Rightarrow> True
     | Some t \<Rightarrow> counters_ok t \<and> chains_in t (set (apporder t)) \<and> handles_ok t)"

definition hash_entries :: "head \<Rightarrow> (u8 list \<times> addr) list" where
  "hash_entries head = (case head of None \<Rightarrow> []
     | Some t \<Rightarrow> map (\<lambda>a. (hkey (the (handles t a)), a)) (apporder t))"

text \<open>
  Room: the number of buckets can still be doubled in 32 bits. (A table gets there only with
  bucket arrays of 32 GiB.)
\<close>

definition hash_room :: "head \<Rightarrow> bool" where
  "hash_room head = (case head of None \<Rightarrow> True | Some t \<Rightarrow> unat (log2_num_buckets t) < 31)"

lemma map_snd_entries: "map snd (hash_entries head) = hash_iter head"
  by (auto simp: hash_entries_def hash_iter_def o_def split: option.splits)

subsection \<open>Bucket numbers\<close>

lemma hash_to_bkt_mod: "n = 2 ^ k \<Longrightarrow> hash_to_bkt hv n = unat hv mod 2 ^ k"
  by (simp add: hash_to_bkt_def and_pow2_minus1)

lemma length_buckets_pos: "counters_ok t \<Longrightarrow> 0 < length (buckets t)"
  by (simp add: counters_ok_def)

lemma hash_to_bkt_length:
  "counters_ok t \<Longrightarrow> hash_to_bkt hv (num_buckets t) = unat hv mod length (buckets t)"
  by (simp add: counters_ok_def hash_to_bkt_mod)

subsection \<open>Expansion\<close>

lemma foldl_hash_move:
  assumes "num_buckets t * 2 = 2 ^ m" "length bs = 2 ^ m"
    and "foldl (hash_move t ideal) (bs, ni) ys = (bs', ni')"
  shows "length bs' = 2 ^ m \<and>
    (\<forall>i < 2 ^ m. chain (bs' ! i)
         = rev (filter (\<lambda>a. unat (hv_of t a) mod 2 ^ m = i) ys) @ chain (bs ! i) \<and>
       (bcount (bs ! i) = of_nat (length (chain (bs ! i))) \<longrightarrow>
        bcount (bs' ! i) = of_nat (length (chain (bs' ! i)))))"
  using assms(2,3)
proof (induction ys arbitrary: bs ni)
  case Nil
  then show ?case by simp
next
  case (Cons a ys)
  let ?i = "unat (hv_of t a) mod 2 ^ m"
  obtain b1 n1 where step: "hash_move t ideal (bs, ni) a = (b1, n1)"
    by (cases "hash_move t ideal (bs, ni) a")
  have i: "hash_to_bkt (hv_of t a) (num_buckets t * 2) = ?i"
    by (rule hash_to_bkt_mod [OF assms(1)])
  have b1: "b1 = bs[?i := b1 ! ?i]" "chain (b1 ! ?i) = a # chain (bs ! ?i)"
      "bcount (b1 ! ?i) = bcount (bs ! ?i) + 1"
    using step i Cons.prems(1) by (auto simp: hash_move_def Let_def)
  have len: "length b1 = 2 ^ m"
    using b1(1) Cons.prems(1) by (metis length_list_update)
  have other: "b1 ! j = bs ! j" if "j \<noteq> ?i" for j
    using b1(1) that by (metis nth_list_update_neq)
  from Cons.prems(2) step have "foldl (hash_move t ideal) (b1, n1) ys = (bs', ni')"
    by simp
  from Cons.IH [OF len this] show ?case
    using b1 other by (auto simp: add.commute)
qed

lemma concat_chains:
  assumes "chains_in t S" "\<And>a. a \<in> S \<Longrightarrow> bkt_of t a < length (buckets t)"
  shows "distinct (concat (map chain (buckets t)))" "set (concat (map chain (buckets t))) = S"
proof -
  let ?f = "\<lambda>i. chain (buckets t ! i)"
  have eq: "map chain (buckets t) = map ?f [0..<length (buckets t)]"
    by (rule nth_equalityI) auto
  show "distinct (concat (map chain (buckets t)))"
    unfolding eq using assms(1)
    by (intro distinct_concat_indexed [where g = "bkt_of t"]) (auto simp: chains_in_def)
  show "set (concat (map chain (buckets t))) = S"
    unfolding eq using assms by (auto simp: chains_in_def)
qed

lemma hash_expand_ok:
  assumes t: "counters_ok t" "chains_in t S" and room: "unat (log2_num_buckets t) < 31"
  shows "counters_ok (hash_expand_buckets t) \<and> chains_in (hash_expand_buckets t) S"
proof -
  let ?k = "unat (log2_num_buckets t)" and ?ys = "concat (map chain (buckets t))"
  let ?bs0 = "replicate (2 * unat (num_buckets t)) empty_bucket"
  let ?t' = "hash_expand_buckets t"
  obtain bs' ni' where fold: "foldl (hash_move t (ideal_maxlen t)) (?bs0, 0) ?ys = (bs', ni')"
    by (cases "foldl (hash_move t (ideal_maxlen t)) (?bs0, 0) ?ys")
  have nb: "num_buckets t * 2 = 2 ^ Suc ?k" and unb: "2 * unat (num_buckets t) = 2 ^ Suc ?k"
    using t(1) room by (auto simp: counters_ok_def unat_pow2)
  have pos: "\<And>a. bkt_of t a < length (buckets t)"
    using length_buckets_pos [OF t(1)] by (simp add: bkt_of_def)
  note ys = concat_chains [OF t(2) pos]
  have k1: "unat (log2_num_buckets t + 1) = Suc ?k"
    using room by (simp add: unat_word_ariths)
  have res: "length bs' = 2 ^ Suc ?k"
      "\<And>i. i < 2 ^ Suc ?k \<Longrightarrow>
         chain (bs' ! i) = rev (filter (\<lambda>a. unat (hv_of t a) mod 2 ^ Suc ?k = i) ?ys) \<and>
         bcount (bs' ! i) = of_nat (length (chain (bs' ! i)))"
    using foldl_hash_move [OF nb _ fold] unb by (auto simp: empty_bucket_def)
  have t': "buckets ?t' = bs'" "num_buckets ?t' = 2 ^ Suc ?k"
      "unat (log2_num_buckets ?t') = Suc ?k" "num_items ?t' = num_items t"
      "apporder ?t' = apporder t" "handles ?t' = handles t"
    using fold nb k1 by (simp_all add: hash_expand_buckets_def Let_def)
  have hv: "hv_of ?t' = hv_of t"
    using t'(6) by (auto simp: hv_of_def fun_eq_iff)
  have "chains_in ?t' S"
    unfolding chains_in_def t'(1) bkt_of_def hv
    using res ys by (auto simp: rev_filter)
  moreover have "counters_ok ?t'"
    using t(1) room res(1) t' by (simp add: counters_ok_def)
  ultimately show ?thesis by simp
qed

subsection \<open>Insertion\<close>

lemma hash_expand_frame:
  "apporder (hash_expand_buckets t) = apporder t" "handles (hash_expand_buckets t) = handles t"
  by (simp_all add: hash_expand_buckets_def Let_def)

lemma hash_add_to_bkt_frame:
  "apporder (hash_add_to_bkt i a t) = apporder t" "handles (hash_add_to_bkt i a t) = handles t"
  by (simp_all add: hash_add_to_bkt_def Let_def hash_expand_frame)

lemma hash_add_to_bkt_ok:
  assumes t: "counters_ok t" "chains_in t S" and a: "a \<notin> S"
    and room: "unat (log2_num_buckets t) < 31"
  shows "counters_ok (hash_add_to_bkt (bkt_of t a) a t)
       \<and> chains_in (hash_add_to_bkt (bkt_of t a) a t) (insert a S)"
proof -
  let ?i = "bkt_of t a"
  let ?b = "(buckets t ! ?i)\<lparr>chain := a # chain (buckets t ! ?i), bcount := bcount (buckets t ! ?i) + 1\<rparr>"
  let ?t = "t\<lparr>buckets := (buckets t)[?i := ?b]\<rparr>"
  have i: "?i < length (buckets t)"
    using length_buckets_pos [OF t(1)] by (simp add: bkt_of_def)
  have c: "counters_ok ?t"
    using t(1) by (simp add: counters_ok_def)
  have bkt: "bkt_of ?t = bkt_of t"
    by (simp add: bkt_of_def hv_of_def fun_eq_iff)
  have "chains_in ?t (insert a S)"
    unfolding chains_in_def bkt
  proof (intro allI impI)
    fix j assume j: "j < length (buckets ?t)"
    show "distinct (chain (buckets ?t ! j)) \<and>
        set (chain (buckets ?t ! j)) = {x \<in> insert a S. bkt_of t x = j} \<and>
        bcount (buckets ?t ! j) = of_nat (length (chain (buckets ?t ! j)))"
    proof (cases "j = ?i")
      case True
      with t(2) i a show ?thesis by (auto simp: chains_in_def)
    next
      case False
      with t(2) j show ?thesis by (auto simp: chains_in_def)
    qed
  qed
  with c hash_expand_ok [OF c this] room show ?thesis
    by (simp add: hash_add_to_bkt_def Let_def)
qed

definition hash_link :: "addr \<Rightarrow> u8 list \<Rightarrow> head \<Rightarrow> hashtab" where
  "hash_link a key head =
     (let t = (case head of
                 None \<Rightarrow> hash_make_table a
               | Some t \<Rightarrow> t\<lparr>apporder := apporder t @ [a]\<rparr>)
      in t\<lparr>num_items := num_items t + 1,
           handles := (handles t)(a \<mapsto> \<lparr>hkey = key, hashv = hash_jen key\<rparr>)\<rparr>)"

lemma chains_in_cong:
  assumes "chains_in t S" "buckets t' = buckets t" "\<And>a. a \<in> S \<Longrightarrow> hv_of t' a = hv_of t a"
  shows "chains_in t' S"
proof -
  have "{a \<in> S. bkt_of t' a = i} = {a \<in> S. bkt_of t a = i}" for i
    using assms(2,3) by (auto simp: bkt_of_def)
  with assms(1,2) show ?thesis by (simp add: chains_in_def)
qed

lemma hash_link_ok:
  assumes "hash_ok head" "hash_room head" "a \<notin> set (hash_iter head)"
  shows "counters_ok (hash_link a key head) \<and> unat (log2_num_buckets (hash_link a key head)) < 31
       \<and> chains_in (hash_link a key head) (set (hash_iter head))"
proof (cases head)
  case None
  then show ?thesis
    by (simp add: hash_link_def hash_make_table_def counters_ok_def chains_in_def
        hash_iter_def empty_bucket_def)
next
  case (Some t)
  have hv: "hv_of (hash_link a key head) x = hv_of t x" if "x \<noteq> a" for x
    using that Some by (simp add: hash_link_def hv_of_def Let_def)
  have "chains_in (hash_link a key head) (set (apporder t))"
  proof (rule chains_in_cong)
    show "chains_in t (set (apporder t))" using assms(1) Some by (simp add: hash_ok_def)
    show "buckets (hash_link a key head) = buckets t" using Some by (simp add: hash_link_def Let_def)
    show "hv_of (hash_link a key head) x = hv_of t x" if "x \<in> set (apporder t)" for x
      using that assms(3) Some by (intro hv) (auto simp: hash_iter_def)
  qed
  with assms Some show ?thesis
    by (simp add: hash_link_def hash_ok_def hash_room_def hash_iter_def counters_ok_def Let_def)
qed

lemma hash_add_link:
  assumes "hash_ok head" "hash_room head" "a \<notin> set (hash_iter head)"
  shows "hash_add a key head =
     Some (hash_add_to_bkt (bkt_of (hash_link a key head) a) a (hash_link a key head))"
proof -
  have c: "counters_ok (hash_link a key head)"
    using hash_link_ok [OF assms] by simp
  have hv: "hv_of (hash_link a key head) a = hash_jen key"
    by (simp add: hash_link_def hv_of_def Let_def)
  have "hash_add a key head = Some (hash_add_to_bkt
      (hash_to_bkt (hash_jen key) (num_buckets (hash_link a key head))) a (hash_link a key head))"
    by (simp add: hash_add_def hash_link_def Let_def)
  with hash_to_bkt_length [OF c] hv show ?thesis
    by (simp add: bkt_of_def)
qed

lemma hash_iter_entries: "set (hash_iter head) = snd ` set (hash_entries head)"
  by (metis list.set_map map_snd_entries)

lemma hash_add_entries:
  assumes "hash_ok head" "hash_room head" "a \<notin> set (hash_iter head)"
  shows "hash_entries (hash_add a key head) = hash_entries head @ [(key, a)]"
  using assms(3) unfolding hash_add_link [OF assms]
  by (auto simp: hash_entries_def hash_add_to_bkt_frame hash_link_def Let_def
      hash_make_table_def hash_iter_def split: option.splits)

lemma handles_ok_entries:
  "handles_ok t \<longleftrightarrow> apporder t \<noteq> [] \<and> distinct (apporder t) \<and> dom (handles t) = set (apporder t) \<and>
     (\<forall>a h. handles t a = Some h \<longrightarrow> hashv h = hash_jen (hkey h)) \<and>
     distinct (map fst (hash_entries (Some t)))"
  by (simp add: handles_ok_def hash_entries_def o_def)

lemma hash_ok_distinct:
  assumes "hash_ok head"
  shows "distinct (hash_iter head)" "distinct (map fst (hash_entries head))"
  using assms by (auto simp: hash_ok_def hash_iter_def handles_ok_entries hash_entries_def
      split: option.splits)

lemma hash_add_ok:
  assumes ok: "hash_ok head" "hash_room head" and a: "a \<notin> set (hash_iter head)"
    and key: "key \<notin> fst ` set (hash_entries head)"
  shows "hash_ok (hash_add a key head)"
proof -
  let ?l = "hash_link a key head"
  let ?t = "hash_add_to_bkt (bkt_of ?l a) a ?l"
  have eq: "hash_add a key head = Some ?t"
    by (rule hash_add_link [OF ok a])
  have l: "counters_ok ?t" "chains_in ?t (insert a (set (hash_iter head)))"
    using hash_link_ok [OF ok a] hash_add_to_bkt_ok [OF _ _ a] by blast+
  have ord: "apporder ?t = hash_iter head @ [a]"
    by (auto simp: hash_add_to_bkt_frame hash_link_def Let_def hash_iter_def hash_make_table_def
        split: option.splits)
  have hs: "handles ?t = (case head of None \<Rightarrow> Map.empty | Some t \<Rightarrow> handles t)
      (a \<mapsto> \<lparr>hkey = key, hashv = hash_jen key\<rparr>)"
    by (auto simp: hash_add_to_bkt_frame hash_link_def Let_def hash_make_table_def
        split: option.splits)
  have "distinct (map fst (hash_entries (Some ?t)))"
    using hash_add_entries [OF ok a, of key] hash_ok_distinct(2) [OF ok(1)] key
    by (simp add: eq)
  then have "handles_ok ?t"
    using ok(1) a hash_ok_distinct(1) [OF ok(1)] ord hs
    by (auto simp: handles_ok_entries hash_ok_def hash_iter_def split: option.splits)
  with l ord show ?thesis
    by (simp add: eq hash_ok_def)
qed

subsection \<open>Lookup\<close>

lemma hash_find_in_bkt_map_of:
  "\<forall>a \<in> set as. hs a \<noteq> None \<Longrightarrow>
     hash_find_in_bkt hs as key = map_of (map (\<lambda>a. (hkey (the (hs a)), a)) as) key"
  by (induction as) auto

lemma hash_find_map_of:
  assumes "hash_ok head"
  shows "hash_find head key = map_of (hash_entries head) key"
proof (cases head)
  case None
  then show ?thesis by (simp add: hash_find_def hash_entries_def)
next
  case (Some t)
  with assms have t: "counters_ok t" "chains_in t (set (apporder t))" "handles_ok t"
    by (simp_all add: hash_ok_def)
  let ?i = "unat (hash_jen key) mod length (buckets t)"
  let ?as = "chain (buckets t ! ?i)"
  let ?pair = "\<lambda>a. (hkey (the (handles t a)), a)"
  have i: "?i < length (buckets t)"
    using length_buckets_pos [OF t(1)] by simp
  have as: "set ?as = {a \<in> set (apporder t). bkt_of t a = ?i}"
    using t(2) i by (simp add: chains_in_def)
  have known: "\<forall>a \<in> set (apporder t). handles t a \<noteq> None"
    using t(3) by (auto simp: handles_ok_def)
  have "hash_find head key = map_of (map ?pair ?as) key"
    using Some known as hash_to_bkt_length [OF t(1)]
    by (simp add: hash_find_def hash_find_in_bkt_map_of)
  also have "\<dots> = map_of (hash_entries head) key"
  proof (rule map_of_subset [OF hash_ok_distinct(2) [OF assms]])
    show "set (map ?pair ?as) \<subseteq> set (hash_entries head)"
      using as Some by (auto simp: hash_entries_def)
    show "(key, v) \<in> set (map ?pair ?as)" if "(key, v) \<in> set (hash_entries head)" for v
    proof -
      from that Some have v: "v \<in> set (apporder t)" "key = hkey (the (handles t v))"
        by (auto simp: hash_entries_def)
      then have "bkt_of t v = ?i"
        using t(3) known by (auto simp: bkt_of_def hv_of_def handles_ok_def split: option.splits)
      with v as show ?thesis by auto
    qed
  qed
  finally show ?thesis .
qed

subsection \<open>Deletion\<close>

lemma hash_delete_some:
  assumes "hash_ok head" "a \<in> set (hash_iter head)"
  shows "\<exists>head'. hash_delete a head = Some head'"
proof -
  obtain t where t: "head = Some t" "a \<in> set (apporder t)"
    using assms(2) by (auto simp: hash_iter_def split: option.splits)
  with assms(1) have "handles t a \<noteq> None"
    by (auto simp: hash_ok_def handles_ok_def)
  with t show ?thesis by (auto simp: hash_delete_def Let_def)
qed

lemma hash_delete_cases:
  assumes "hash_ok head" "hash_delete a head = Some head'"
  obtains (last) t where "head = Some t" "apporder t = [a]" "head' = None"
  | (more) t where "head = Some t" "a \<in> set (apporder t)" "apporder t \<noteq> [a]"
      "head' = Some (t\<lparr>apporder := remove1 a (apporder t),
         buckets := (buckets t)[bkt_of t a := hash_del_in_bkt a (buckets t ! bkt_of t a)],
         handles := (handles t)(a := None), num_items := num_items t - 1\<rparr>)"
proof -
  obtain t h where t: "head = Some t" "handles t a = Some h"
    using assms(2) by (auto simp: hash_delete_def split: option.splits)
  have ok: "counters_ok t" "handles_ok t"
    using assms(1) t by (simp_all add: hash_ok_def)
  have mem: "a \<in> set (apporder t)"
    using ok(2) t(2) by (auto simp: handles_ok_def)
  have i: "hash_to_bkt (hashv h) (num_buckets t) = bkt_of t a"
    using hash_to_bkt_length [OF ok(1)] t(2) by (simp add: bkt_of_def hv_of_def)
  show ?thesis
  proof (cases "apporder t = [a]")
    case True
    with t assms(2) show ?thesis by (intro last) (auto simp: hash_delete_def)
  next
    case False
    with t assms(2) i mem show ?thesis by (intro more) (auto simp: hash_delete_def Let_def)
  qed
qed

lemma hash_delete_entries:
  assumes "hash_ok head" "hash_delete a head = Some head'"
  shows "hash_entries head' = filter (\<lambda>x. snd x \<noteq> a) (hash_entries head)"
  using assms
proof (cases rule: hash_delete_cases)
  case (last t)
  then show ?thesis by (simp add: hash_entries_def)
next
  case (more t)
  have "distinct (apporder t)"
    using assms(1) more(1) by (simp add: hash_ok_def handles_ok_def)
  then have "remove1 a (apporder t) = filter (\<lambda>x. x \<noteq> a) (apporder t)"
    by (rule remove1_filter)
  with more show ?thesis
    by (auto simp: hash_entries_def filter_map o_def)
qed

lemma of_nat_length_remove1:
  "a \<in> set xs \<Longrightarrow> of_nat (length xs) - 1 = (of_nat (length (remove1 a xs)) :: u32)"
  by (cases "length xs") (auto simp: length_remove1)

lemma hash_delete_ok:
  assumes ok: "hash_ok head" and del: "hash_delete a head = Some head'"
  shows "hash_ok head'"
  using ok del
proof (cases rule: hash_delete_cases)
  case last
  then show ?thesis by (simp add: hash_ok_def)
next
  case (more t)
  let ?i = "bkt_of t a" and ?b = "buckets t ! bkt_of t a"
  let ?t = "t\<lparr>apporder := remove1 a (apporder t),
         buckets := (buckets t)[?i := hash_del_in_bkt a ?b],
         handles := (handles t)(a := None), num_items := num_items t - 1\<rparr>"
  have t: "counters_ok t" "chains_in t (set (apporder t))" "handles_ok t"
    using ok more(1) by (simp_all add: hash_ok_def)
  have dist: "distinct (apporder t)"
    using t(3) by (simp add: handles_ok_def)
  have i: "?i < length (buckets t)"
    using length_buckets_pos [OF t(1)] by (simp add: bkt_of_def)
  have b: "distinct (chain ?b)" "set (chain ?b) = {x \<in> set (apporder t). bkt_of t x = ?i}"
      "bcount ?b = of_nat (length (chain ?b))"
    using t(2) i by (simp_all add: chains_in_def)
  have bkt: "bkt_of ?t x = bkt_of t x" if "x \<noteq> a" for x
    using that by (simp add: bkt_of_def hv_of_def)
  have "chains_in ?t (set (apporder ?t))"
    unfolding chains_in_def
  proof (intro allI impI)
    fix j assume j: "j < length (buckets ?t)"
    have set_eq: "{x \<in> set (apporder ?t). bkt_of ?t x = j}
        = {x \<in> set (apporder t). bkt_of t x = j} - {a}"
      using dist bkt by auto
    show "distinct (chain (buckets ?t ! j)) \<and>
        set (chain (buckets ?t ! j)) = {x \<in> set (apporder ?t). bkt_of ?t x = j} \<and>
        bcount (buckets ?t ! j) = of_nat (length (chain (buckets ?t ! j)))"
    proof (cases "j = ?i")
      case True
      have "a \<in> set (chain ?b)" using b(2) more(2) by simp
      with True i b show ?thesis
        unfolding set_eq by (simp add: hash_del_in_bkt_def of_nat_length_remove1)
    next
      case False
      then have "{x \<in> set (apporder t). bkt_of t x = j} - {a} = {x \<in> set (apporder t). bkt_of t x = j}"
        by auto
      with False j t(2) show ?thesis
        unfolding set_eq by (simp add: chains_in_def)
    qed
  qed
  moreover have "counters_ok ?t"
    using t(1) more(2) by (simp add: counters_ok_def of_nat_length_remove1)
  moreover have "distinct (map fst (hash_entries (Some ?t)))"
    using hash_delete_entries [OF ok del] more(4) hash_ok_distinct(2) [OF ok]
    by (simp add: distinct_map_filter)
  then have "handles_ok ?t"
    using t(3) dist more(2,3) unfolding handles_ok_entries
    by (auto simp: remove1_Nil_iff)
  ultimately show ?thesis
    by (simp add: more(4) hash_ok_def)
qed

subsection \<open>The table implements the interface\<close>

interpretation ht: keyed_list hash_ok hash_room None hash_entries hash_find hash_add hash_delete
proof unfold_locales
  show "distinct (map snd (hash_entries head))" if "hash_ok head" for head
    using hash_ok_distinct(1) [OF that] by (simp add: map_snd_entries)
  show "hash_ok (hash_add e k head)"
    if "hash_ok head" "hash_room head" "k \<notin> fst ` set (hash_entries head)"
      "e \<notin> snd ` set (hash_entries head)" for head e k
    using that by (intro hash_add_ok) (simp_all add: hash_iter_entries)
  show "hash_entries (hash_add e k head) = hash_entries head @ [(k, e)]"
    if "hash_ok head" "hash_room head" "k \<notin> fst ` set (hash_entries head)"
      "e \<notin> snd ` set (hash_entries head)" for head e k
    using that by (intro hash_add_entries) (simp_all add: hash_iter_entries)
qed (auto simp: hash_ok_def [of None] hash_entries_def [of None] hash_ok_distinct hash_find_map_of
    hash_iter_entries [symmetric] intro: hash_delete_some hash_delete_ok hash_delete_entries)

end
