(* ===== verification/Resource.thy ===== *)
theory Resource
  imports UthashCorrect
begin

text \<open>
  The resource manager of \<open>js-clib/common.c\<close> (\<open>struct res_\<close>, \<open>struct res_mgn_\<close>, \<open>res_*\<close>):
  numbered heap blocks kept in a hash table under a mutex. A \<open>struct res_\<close> is a heap block whose
  first 64 bytes (\<open>int id\<close>, padding, the 56 bytes of \<open>UT_hash_handle\<close>) are the header and whose
  remaining bytes are the client's data; the \<open>id\<close> field is kept in \<open>rids\<close>. Identifiers are
  32-bit two's complement words; \<open>last_id++\<close> wraps where the C standard leaves the overflow
  undefined. The mutex is a flag: locking it twice is a deadlock and has no result.
\<close>

definition res_hdr :: nat where "res_hdr = 64"

definition res_mgn_size :: u32 where "res_mgn_size = 56"

record res_mgn =
  self :: ptr
  last_id :: u32
  rhead :: head
  rids :: "addr \<Rightarrow> u32 option"
  mlocked :: bool

definition mutex_lock :: "res_mgn \<Rightarrow> res_mgn option" where
  "mutex_lock g = (if mlocked g then None else Some (g\<lparr>mlocked := True\<rparr>))"

definition mutex_unlock :: "res_mgn \<Rightarrow> res_mgn option" where
  "mutex_unlock g = (if mlocked g then Some (g\<lparr>mlocked := False\<rparr>) else None)"

definition res_create_management :: "libc \<Rightarrow> mem \<Rightarrow> (res_mgn \<times> mem) option" where
  "res_create_management L m =
     do { (p, m1) \<leftarrow> plat_mem_allocate L res_mgn_size m;
          if p = Null then None
          else Some (\<lparr>self = p, last_id = 0, rhead = None, rids = Map.empty, mlocked = False\<rparr>, m1) }"

text \<open>
  The body of \<open>while(true)\<close> when the number is free: allocate header and data, write the header
  (which must fit the block that was allocated), link the element.
\<close>

definition res_new :: "libc \<Rightarrow> u64 \<Rightarrow> u32 \<Rightarrow> res_mgn \<Rightarrow> mem \<Rightarrow> (u32 \<times> ptr \<times> res_mgn \<times> mem) option" where
  "res_new L sz rid g m =
     do { (p, m1) \<leftarrow> plat_mem_allocate L (ucast (of_nat res_hdr + sz)) m;
          (case p of
             Null \<Rightarrow> None
           | Ptr a off \<Rightarrow>
               if unat (ucast (of_nat res_hdr + sz) :: u32) < res_hdr then None
               else
                 do { g' \<leftarrow> mutex_unlock (g\<lparr>rids := (rids g)(a \<mapsto> rid),
                                        rhead := hash_add a (int_key rid) (rhead g)\<rparr>);
                      Some (rid, Ptr a res_hdr, g', m1) }) }"

partial_function (option) res_create_loop ::
    "libc \<Rightarrow> u64 \<Rightarrow> res_mgn \<Rightarrow> mem \<Rightarrow> (u32 \<times> ptr \<times> res_mgn \<times> mem) option" where
  "res_create_loop L sz g m =
     (let rid = last_id g; g1 = g\<lparr>last_id := rid + 1\<rparr> in
      case hash_find (rhead g1) (int_key rid) of
        None \<Rightarrow> res_new L sz rid g1 m
      | Some a \<Rightarrow> res_create_loop L sz g1 m)"

definition res_create :: "libc \<Rightarrow> u64 \<Rightarrow> res_mgn \<Rightarrow> mem \<Rightarrow> (u32 \<times> ptr \<times> res_mgn \<times> mem) option" where
  "res_create L sz g m = do { g1 \<leftarrow> mutex_lock g; res_create_loop L sz g1 m }"

definition res_create_and_clone ::
    "libc \<Rightarrow> u64 \<Rightarrow> u8 list \<Rightarrow> res_mgn \<Rightarrow> mem \<Rightarrow> (u32 \<times> res_mgn \<times> mem) option" where
  "res_create_and_clone L sz src g m =
     do { (rid, data, g1, m1) \<leftarrow> res_create L sz g m;
          if 0 \<le> sint rid
          then do { m2 \<leftarrow> mem_store data (take (unat (ucast sz :: u32)) src) m1; Some (rid, g1, m2) }
          else Some (rid, g1, m1) }"

definition res_get :: "u32 \<Rightarrow> res_mgn \<Rightarrow> (ptr \<times> res_mgn) option" where
  "res_get rid g =
     do { g1 \<leftarrow> mutex_lock g;
          let res = hash_find (rhead g1) (int_key rid);
          g2 \<leftarrow> mutex_unlock g1;
          Some (case res of None \<Rightarrow> Null | Some a \<Rightarrow> Ptr a res_hdr, g2) }"

definition res_release :: "u32 \<Rightarrow> res_mgn \<Rightarrow> mem \<Rightarrow> (res_mgn \<times> mem) option" where
  "res_release rid g m =
     do { g1 \<leftarrow> mutex_lock g;
          (g2, m2) \<leftarrow> (case hash_find (rhead g1) (int_key rid) of
               None \<Rightarrow> Some (g1, m)
             | Some a \<Rightarrow>
                 do { h \<leftarrow> hash_delete a (rhead g1);
                      m' \<leftarrow> plat_mem_release (Ptr a 0) m;
                      Some (g1\<lparr>rhead := h, rids := (rids g1)(a := None)\<rparr>, m') });
          g3 \<leftarrow> mutex_unlock g2;
          Some (g3, m2) }"

text \<open>
  \<open>HASH_ITER\<close> fetches the successor before the body runs, so the loop visits the elements that
  were in the table at its start, in insertion order. The callback gets the number, the data
  pointer and the caller's own state.
\<close>

fun res_release_all_loop ::
    "(u32 \<Rightarrow> ptr \<Rightarrow> 's \<Rightarrow> mem \<Rightarrow> ('s \<times> mem) option) \<Rightarrow> addr list \<Rightarrow> res_mgn \<Rightarrow> 's \<Rightarrow> mem
       \<Rightarrow> (res_mgn \<times> 's \<times> mem) option" where
  "res_release_all_loop cb [] g s m = Some (g, s, m)"
| "res_release_all_loop cb (a # as) g s m =
     do { h \<leftarrow> hash_delete a (rhead g);
          rid \<leftarrow> rids g a;
          (s1, m1) \<leftarrow> cb rid (Ptr a res_hdr) s m;
          m2 \<leftarrow> plat_mem_release (Ptr a 0) m1;
          res_release_all_loop cb as (g\<lparr>rhead := h, rids := (rids g)(a := None)\<rparr>) s1 m2 }"

definition res_release_all ::
    "(u32 \<Rightarrow> ptr \<Rightarrow> 's \<Rightarrow> mem \<Rightarrow> ('s \<times> mem) option) \<Rightarrow> res_mgn \<Rightarrow> 's \<Rightarrow> mem
       \<Rightarrow> (res_mgn \<times> 's \<times> mem) option" where
  "res_release_all cb g s m =
     do { g1 \<leftarrow> mutex_lock g;
          (g2, s2, m2) \<leftarrow> res_release_all_loop cb (hash_iter (rhead g1)) g1 s m;
          g3 \<leftarrow> mutex_unlock g2;
          Some (g3, s2, m2) }"

definition res_any :: "res_mgn \<Rightarrow> (u32 \<times> res_mgn) option" where
  "res_any g =
     do { g1 \<leftarrow> mutex_lock g;
          rid \<leftarrow> (case hash_iter (rhead g1) of [] \<Rightarrow> Some (- 1) | as \<Rightarrow> rids g1 (last as));
          g2 \<leftarrow> mutex_unlock g1;
          Some (rid, g2) }"

definition res_release_management :: "res_mgn \<Rightarrow> mem \<Rightarrow> mem option" where
  "res_release_management g m = (if mlocked g then None else plat_mem_release (self g) m)"

end
