(* ===== verification/ResourceCorrect.thy ===== *)
theory ResourceCorrect
  imports Resource
begin

text \<open>
  Correctness of the resource manager: the invariant of a manager (a well-formed table whose keys
  are the numbers of its elements, every element a live heap block with a full header), that each
  operation keeps it and leaves the mutex released, and the abstract view of a manager as a list
  of numbered byte strings in creation order.
\<close>

subsection \<open>Invariant and abstract view\<close>

definition res_inv :: "res_mgn \<Rightarrow> mem \<Rightarrow> bool" where
  "res_inv g m \<longleftrightarrow>
     hash_ok (rhead g) \<and>
     (\<forall>k a. (k, a) \<in> set (hash_entries (rhead g)) \<longrightarrow> (\<exists>i. rids g a = Some i \<and> k = int_key i)) \<and>
     dom (rids g) = set (hash_iter (rhead g)) \<and>
     (\<forall>a \<in> set (hash_iter (rhead g)). \<exists>bs. blocks m a = Some bs \<and> res_hdr \<le> length bs) \<and>
     (\<exists>p. self g = Ptr p 0 \<and> blocks m p \<noteq> None \<and> p \<notin> set (hash_iter (rhead g)))"

definition res_ok :: "res_mgn \<Rightarrow> mem \<Rightarrow> bool" where
  "res_ok g m \<longleftrightarrow> res_inv g m \<and> \<not> mlocked g"

definition res_ids :: "res_mgn \<Rightarrow> u32 list" where
  "res_ids g = map (\<lambda>a. the (rids g a)) (hash_iter (rhead g))"

definition res_table :: "res_mgn \<Rightarrow> mem \<Rightarrow> (u32 \<times> u8 list) list" where
  "res_table g m =
     map (\<lambda>a. (the (rids g a), drop res_hdr (the (blocks m a)))) (hash_iter (rhead g))"

definition malloc_succeeds :: "libc \<Rightarrow> nat \<Rightarrow> mem \<Rightarrow> bool" where
  "malloc_succeeds L n m \<longleftrightarrow> pick L (tick m) n \<noteq> 0 \<and> blocks m (pick L (tick m) n) = None"

lemma plat_mem_allocate_succeeds:
  assumes "malloc_succeeds L (unat n) m"
  shows "plat_mem_allocate L n m = Some (Ptr (pick L (tick m) (unat n)) 0,
     \<lparr>blocks = (blocks m)(pick L (tick m) (unat n) \<mapsto> replicate (unat n) 0), tick = Suc (tick m)\<rparr>)"
  using assms by (simp add: malloc_succeeds_def plat_mem_allocate_def malloc_def Let_def)

lemma res_table_ids: "map fst (res_table g m) = res_ids g"
  by (simp add: res_table_def res_ids_def o_def)

lemma res_inv_entry:
  assumes "res_inv g m"
  shows "(int_key i, a) \<in> set (hash_entries (rhead g))
     \<longleftrightarrow> a \<in> set (hash_iter (rhead g)) \<and> rids g a = Some i"
proof
  assume e: "(int_key i, a) \<in> set (hash_entries (rhead g))"
  then have "a \<in> set (hash_iter (rhead g))"
    by (force simp: hash_iter_entries)
  with e assms show "a \<in> set (hash_iter (rhead g)) \<and> rids g a = Some i"
    by (fastforce simp: res_inv_def)
next
  assume a: "a \<in> set (hash_iter (rhead g)) \<and> rids g a = Some i"
  then obtain k where "(k, a) \<in> set (hash_entries (rhead g))"
    by (auto simp: hash_iter_entries)
  with a assms show "(int_key i, a) \<in> set (hash_entries (rhead g))"
    by (fastforce simp: res_inv_def)
qed

lemma res_inv_hash_ok: "res_inv g m \<Longrightarrow> hash_ok (rhead g)"
  by (simp add: res_inv_def)

lemma res_find_some:
  "res_inv g m \<Longrightarrow> hash_find (rhead g) (int_key i) = Some a
     \<longleftrightarrow> a \<in> set (hash_iter (rhead g)) \<and> rids g a = Some i"
  by (simp add: ht.find_some_iff res_inv_hash_ok res_inv_entry)

lemma rids_known: "res_inv g m \<Longrightarrow> a \<in> set (hash_iter (rhead g)) \<Longrightarrow> \<exists>i. rids g a = Some i"
  by (auto simp: res_inv_def)

lemma res_ids_iff:
  assumes "res_inv g m"
  shows "i \<in> set (res_ids g) \<longleftrightarrow> (\<exists>a \<in> set (hash_iter (rhead g)). rids g a = Some i)"
proof -
  have "\<And>a. a \<in> set (hash_iter (rhead g)) \<Longrightarrow> rids g a \<noteq> None"
    using assms by (auto simp: res_inv_def)
  then show ?thesis by (force simp: res_ids_def)
qed

lemma res_find_none:
  assumes "res_inv g m"
  shows "hash_find (rhead g) (int_key i) = None \<longleftrightarrow> i \<notin> set (res_ids g)"
  using res_find_some [OF assms, of i] res_ids_iff [OF assms, of i] by (metis not_None_eq)

lemma res_ids_distinct:
  assumes "res_inv g m"
  shows "distinct (res_ids g)"
proof -
  have "inj_on (\<lambda>a. the (rids g a)) (set (hash_iter (rhead g)))"
  proof (rule inj_onI)
    fix a b
    assume ab: "a \<in> set (hash_iter (rhead g))" "b \<in> set (hash_iter (rhead g))"
      "the (rids g a) = the (rids g b)"
    then obtain i where "rids g a = Some i" "rids g b = Some i"
      using rids_known [OF assms] by fastforce
    with ab res_find_some [OF assms, of i a] res_find_some [OF assms, of i b] show "a = b"
      by simp
  qed
  then show ?thesis
    using hash_ok_distinct(1) [OF res_inv_hash_ok [OF assms]]
    by (simp add: res_ids_def distinct_map)
qed

subsection \<open>Creation\<close>

definition next_free :: "res_mgn \<Rightarrow> nat" where
  "next_free g = (LEAST n. last_id g + of_nat n \<notin> set (res_ids g))"

lemma free_number_exists:
  assumes "length (res_ids g) < 2 ^ 32"
  shows "\<exists>n. last_id g + of_nat n \<notin> set (res_ids g)"
proof -
  have "card (set (res_ids g)) < CARD(u32)"
    using assms card_length [of "res_ids g"] by (simp add: card_word)
  then obtain i where i: "i \<notin> set (res_ids g)"
    by (metis UNIV_eq_I less_irrefl)
  have "last_id g + of_nat (unat (i - last_id g)) = i" by simp
  with i show ?thesis by metis
qed

lemma next_free_works:
  assumes "length (res_ids g) < 2 ^ 32"
  shows "last_id g + of_nat (next_free g) \<notin> set (res_ids g)"
    "k < next_free g \<Longrightarrow> last_id g + of_nat k \<in> set (res_ids g)"
  unfolding next_free_def
  using LeastI_ex [OF free_number_exists [OF assms]] not_less_Least by blast+

lemma res_create_loop_skips:
  assumes "res_inv g m" "\<And>k. k < n \<Longrightarrow> last_id g + of_nat k \<in> set (res_ids g)"
    and "last_id g + of_nat n \<notin> set (res_ids g)"
  shows "res_create_loop L sz g m
     = res_new L sz (last_id g + of_nat n) (g\<lparr>last_id := last_id g + of_nat n + 1\<rparr>) m"
  using assms
proof (induction n arbitrary: g)
  case 0
  then have "hash_find (rhead g) (int_key (last_id g)) = None"
    using res_find_none [OF 0(1)] by simp
  then show ?case
    by (simp add: res_create_loop.simps [of L sz g m] Let_def)
next
  case (Suc n)
  let ?g = "g\<lparr>last_id := last_id g + 1\<rparr>"
  have inv: "res_inv ?g m" and ids: "res_ids ?g = res_ids g"
    using Suc.prems(1) by (simp_all add: res_inv_def res_ids_def)
  have "hash_find (rhead g) (int_key (last_id g)) \<noteq> None"
    using Suc.prems(2) [of 0] res_find_none [OF Suc.prems(1), of "last_id g"] by simp
  then have "res_create_loop L sz g m = res_create_loop L sz ?g m"
    by (auto simp: res_create_loop.simps [of L sz g m] Let_def)
  also have "\<dots> = res_new L sz (last_id ?g + of_nat n) (?g\<lparr>last_id := last_id ?g + of_nat n + 1\<rparr>) m"
  proof (rule Suc.IH [OF inv])
    show "last_id ?g + of_nat k \<in> set (res_ids ?g)" if "k < n" for k
      using Suc.prems(2) [of "Suc k"] that by (simp add: ids add.assoc)
    show "last_id ?g + of_nat n \<notin> set (res_ids ?g)"
      using Suc.prems(3) by (simp add: ids add.assoc)
  qed
  finally show ?case by (simp add: ac_simps)
qed

lemma res_alloc_size:
  assumes "unat sz < 2 ^ 32 - 64"
  shows "unat (ucast (of_nat res_hdr + sz :: u64) :: u32) = 64 + unat sz"
proof -
  have "unat (64 + sz) = 64 + unat sz"
    using assms by (simp add: unat_word_ariths)
  then show ?thesis
    using assms by (simp add: res_hdr_def unsigned_ucast_eq take_bit_eq_mod)
qed

text \<open>What linking a new element into a manager does, whatever the rest of the program does next.\<close>

lemma res_link_ok:
  assumes inv: "res_inv g m" and room: "hash_room (rhead g)" and i: "i \<notin> set (res_ids g)"
    and a: "blocks m a = None" and bs: "res_hdr \<le> length bs"
  shows "res_inv (g\<lparr>rids := (rids g)(a \<mapsto> i), rhead := hash_add a (int_key i) (rhead g),
            last_id := l, mlocked := b\<rparr>) \<lparr>blocks = (blocks m)(a \<mapsto> bs), tick = n\<rparr>"
    and "hash_entries (hash_add a (int_key i) (rhead g)) = hash_entries (rhead g) @ [(int_key i, a)]"
    and "hash_iter (hash_add a (int_key i) (rhead g)) = hash_iter (rhead g) @ [a]"
proof -
  have a_new: "a \<notin> set (hash_iter (rhead g))"
    using inv a by (force simp: res_inv_def)
  have k_new: "int_key i \<notin> fst ` set (hash_entries (rhead g))"
    using i res_find_none [OF inv] ht.find_none_iff [OF res_inv_hash_ok [OF inv]] by metis
  note prems = res_inv_hash_ok [OF inv] room k_new a_new [unfolded hash_iter_entries]
  show entries: "hash_entries (hash_add a (int_key i) (rhead g))
      = hash_entries (rhead g) @ [(int_key i, a)]"
    by (rule ht.add_entries [OF prems])
  then show iter: "hash_iter (hash_add a (int_key i) (rhead g)) = hash_iter (rhead g) @ [a]"
    by (simp flip: map_snd_entries)
  have old: "x \<noteq> a" if "(k, x) \<in> set (hash_entries (rhead g))" for k x
    using that a_new by (force simp: hash_iter_entries)
  let ?g = "g\<lparr>rids := (rids g)(a \<mapsto> i), rhead := hash_add a (int_key i) (rhead g),
            last_id := l, mlocked := b\<rparr>"
  have keys: "\<exists>j. rids ?g x = Some j \<and> k = int_key j" if "(k, x) \<in> set (hash_entries (rhead ?g))" for k x
  proof (cases "x = a")
    case True
    with that old entries show ?thesis by auto
  next
    case False
    with that entries have "(k, x) \<in> set (hash_entries (rhead g))" by auto
    with inv False show ?thesis by (simp add: res_inv_def)
  qed
  have "dom (rids ?g) = set (hash_iter (rhead ?g))"
    using inv iter by (simp add: res_inv_def)
  moreover obtain p where "self g = Ptr p 0" "blocks m p \<noteq> None" "p \<notin> set (hash_iter (rhead g))"
    using inv by (auto simp: res_inv_def)
  moreover from this a have "p \<noteq> a" by auto
  moreover have "\<exists>cs. ((blocks m)(a \<mapsto> bs)) x = Some cs \<and> res_hdr \<le> length cs"
    if "x \<in> set (hash_iter (rhead ?g))" for x
    using that inv iter bs by (auto simp: res_inv_def)
  ultimately show "res_inv ?g \<lparr>blocks = (blocks m)(a \<mapsto> bs), tick = n\<rparr>"
    using keys ht.add_ok [OF prems] iter unfolding res_inv_def by simp
qed

lemma res_create_eq:
  assumes ok: "res_ok g m" and room: "hash_room (rhead g)" and few: "length (res_ids g) < 2 ^ 32"
    and sz: "unat sz < 2 ^ 32 - 64" and mal: "malloc_succeeds L (64 + unat sz) m"
  defines "i \<equiv> last_id g + of_nat (next_free g)" and "a \<equiv> pick L (tick m) (64 + unat sz)"
  shows "res_create L sz g m = Some (i, Ptr a res_hdr,
     g\<lparr>rids := (rids g)(a \<mapsto> i), rhead := hash_add a (int_key i) (rhead g),
       last_id := i + 1, mlocked := False\<rparr>,
     \<lparr>blocks = (blocks m)(a \<mapsto> replicate (64 + unat sz) 0), tick = Suc (tick m)\<rparr>)"
proof -
  let ?g = "g\<lparr>mlocked := True\<rparr>"
  have inv: "res_inv ?g m" and unl: "\<not> mlocked g"
    using ok by (simp_all add: res_ok_def res_inv_def)
  have same: "res_ids ?g = res_ids g" "next_free ?g = next_free g"
    by (simp_all add: res_ids_def next_free_def)
  have loop: "res_create_loop L sz ?g m = res_new L sz i (?g\<lparr>last_id := i + 1\<rparr>) m"
    using res_create_loop_skips [OF inv, of "next_free g" L sz] next_free_works [OF few] same
    by (simp add: i_def)
  have size_eq: "unat (ucast (of_nat res_hdr + sz :: u64) :: u32) = 64 + unat sz"
    by (rule res_alloc_size [OF sz])
  have "plat_mem_allocate L (ucast (of_nat res_hdr + sz)) m = Some (Ptr a 0,
      \<lparr>blocks = (blocks m)(a \<mapsto> replicate (64 + unat sz) 0), tick = Suc (tick m)\<rparr>)"
    using plat_mem_allocate_succeeds [of L "ucast (of_nat res_hdr + sz)" m] mal
    unfolding size_eq a_def by simp
  then show ?thesis
    using loop unl size_eq
    by (simp add: res_create_def mutex_lock_def res_new_def mutex_unlock_def res_hdr_def)
qed

text \<open>The contract of creation: a new number, a zeroed block of the right size, everything else kept.\<close>

lemma res_create_spec:
  assumes ok: "res_ok g m" and room: "hash_room (rhead g)" and few: "length (res_ids g) < 2 ^ 32"
    and sz: "unat sz < 2 ^ 32 - 64" and mal: "malloc_succeeds L (64 + unat sz) m"
  obtains i a g' m' where "res_create L sz g m = Some (i, Ptr a res_hdr, g', m')"
    "res_ok g' m'" "i \<notin> set (res_ids g)" "blocks m a = None"
    "res_table g' m' = res_table g m @ [(i, replicate (unat sz) 0)]"
    "blocks m' = (blocks m)(a \<mapsto> replicate (64 + unat sz) 0)"
    "hash_find (rhead g') (int_key i) = Some a"
proof -
  define i where "i = last_id g + of_nat (next_free g)"
  define a where "a = pick L (tick m) (64 + unat sz)"
  let ?g = "g\<lparr>rids := (rids g)(a \<mapsto> i), rhead := hash_add a (int_key i) (rhead g),
       last_id := i + 1, mlocked := False\<rparr>"
  let ?m = "\<lparr>blocks = (blocks m)(a \<mapsto> replicate (64 + unat sz) 0), tick = Suc (tick m)\<rparr>"
  have inv: "res_inv g m" using ok by (simp add: res_ok_def)
  have i: "i \<notin> set (res_ids g)"
    using next_free_works(1) [OF few] by (simp add: i_def)
  have a: "blocks m a = None"
    using mal by (simp add: malloc_succeeds_def a_def)
  have hdr: "res_hdr \<le> length (replicate (64 + unat sz) (0 :: u8))"
    by (simp add: res_hdr_def)
  note link = res_link_ok [OF inv room i a hdr]
  have ok': "res_ok ?g ?m"
    using link(1) by (simp add: res_ok_def)
  have a_new: "a \<notin> set (hash_iter (rhead g))"
    using inv a by (force simp: res_inv_def)
  have table: "res_table ?g ?m = res_table g m @ [(i, replicate (unat sz) 0)]"
    using a_new link(3) by (auto simp: res_table_def res_hdr_def)
  have "hash_find (rhead ?g) (int_key i) = Some a"
    using res_find_some [of ?g ?m i a] ok' link(3) by (simp add: res_ok_def)
  with that [of i a ?g ?m] res_create_eq [OF ok room few sz mal] ok' i a table show thesis
    by (simp add: i_def a_def)
qed

subsection \<open>Lookup\<close>

lemma res_get_known:
  "res_ok g m \<Longrightarrow> a \<in> set (hash_iter (rhead g)) \<Longrightarrow> rids g a = Some i \<Longrightarrow>
     res_get i g = Some (Ptr a res_hdr, g)"
  using res_find_some [of g m i a]
  by (simp add: res_ok_def res_get_def mutex_lock_def mutex_unlock_def)

lemma res_get_unknown:
  "res_ok g m \<Longrightarrow> i \<notin> set (res_ids g) \<Longrightarrow> res_get i g = Some (Null, g)"
  using res_find_none [of g m i]
  by (simp add: res_ok_def res_get_def mutex_lock_def mutex_unlock_def)

lemma res_get_load:
  assumes ok: "res_ok g m" and i: "map_of (res_table g m) i = Some bs"
  obtains a where "a \<in> set (hash_iter (rhead g))" "rids g a = Some i"
    "res_get i g = Some (Ptr a res_hdr, g)"
    "mem_load (Ptr a res_hdr) (length bs) m = Some bs"
proof -
  have inv: "res_inv g m" using ok by (simp add: res_ok_def)
  obtain a where a: "a \<in> set (hash_iter (rhead g))" "the (rids g a) = i"
      "bs = drop res_hdr (the (blocks m a))"
    using map_of_SomeD [OF i] by (auto simp: res_table_def)
  then have "rids g a = Some i" using rids_known [OF inv a(1)] by auto
  moreover obtain blk where "blocks m a = Some blk" "res_hdr \<le> length blk"
    using inv a(1) by (auto simp: res_inv_def)
  ultimately show thesis
    using that [of a] a res_get_known [OF ok a(1)] by simp
qed

subsection \<open>Release\<close>

lemma res_unlink_ok:
  assumes inv: "res_inv g m" and del: "hash_delete a (rhead g) = Some h"
    and a: "a \<in> set (hash_iter (rhead g))"
  shows "res_inv (g\<lparr>rhead := h, rids := (rids g)(a := None), mlocked := b\<rparr>)
           (m\<lparr>blocks := (blocks m)(a := None)\<rparr>)"
    and "hash_iter h = filter (\<lambda>x. x \<noteq> a) (hash_iter (rhead g))"
proof -
  have entries: "hash_entries h = filter (\<lambda>x. snd x \<noteq> a) (hash_entries (rhead g))"
    by (rule ht.del_entries [OF res_inv_hash_ok [OF inv] del])
  then show iter: "hash_iter h = filter (\<lambda>x. x \<noteq> a) (hash_iter (rhead g))"
    by (simp add: filter_map o_def flip: map_snd_entries)
  have "hash_ok h"
    by (rule ht.del_ok [OF res_inv_hash_ok [OF inv] del])
  then show "res_inv (g\<lparr>rhead := h, rids := (rids g)(a := None), mlocked := b\<rparr>)
           (m\<lparr>blocks := (blocks m)(a := None)\<rparr>)"
    using inv a unfolding res_inv_def by (auto simp: entries iter)
qed

lemma res_table_unlink:
  assumes "res_inv g m" "a \<in> set (hash_iter (rhead g))" "rids g a = Some i"
    and "hash_iter h = filter (\<lambda>x. x \<noteq> a) (hash_iter (rhead g))"
  shows "res_table (g\<lparr>rhead := h, rids := (rids g)(a := None), mlocked := b\<rparr>)
           (m\<lparr>blocks := (blocks m)(a := None)\<rparr>) = filter (\<lambda>x. fst x \<noteq> i) (res_table g m)"
proof -
  have "x \<noteq> a \<longleftrightarrow> the (rids g x) \<noteq> i" if "x \<in> set (hash_iter (rhead g))" for x
    using that assms rids_known [OF assms(1) that] res_find_some [OF assms(1), of i x]
      res_find_some [OF assms(1), of i a] by auto
  then have "filter (\<lambda>x. x \<noteq> a) (hash_iter (rhead g))
      = filter (\<lambda>x. the (rids g x) \<noteq> i) (hash_iter (rhead g))"
    by (intro filter_cong) auto
  with assms(3) show ?thesis
    by (auto simp: res_table_def assms(4) filter_map o_def)
qed

lemma res_release_spec:
  assumes ok: "res_ok g m"
  obtains g' m' where "res_release i g m = Some (g', m')" "res_ok g' m'"
    "res_table g' m' = filter (\<lambda>x. fst x \<noteq> i) (res_table g m)"
    "blocks m' = (\<lambda>x. if x \<in> set (hash_iter (rhead g)) \<and> rids g x = Some i then None else blocks m x)"
    "hash_iter (rhead g') = filter (\<lambda>x. rids g x \<noteq> Some i) (hash_iter (rhead g))"
    "rids g' = (\<lambda>x. if x \<in> set (hash_iter (rhead g)) \<and> rids g x = Some i then None else rids g x)"
    "self g' = self g"
proof (cases "i \<in> set (res_ids g)")
  case False
  have inv: "res_inv g m" and unl: "\<not> mlocked g"
    using ok by (simp_all add: res_ok_def)
  have "filter (\<lambda>x. fst x \<noteq> i) (res_table g m) = res_table g m"
    using False by (force simp: filter_id_conv simp flip: res_table_ids [of g m])
  moreover have "blocks m = (\<lambda>x. if x \<in> set (hash_iter (rhead g)) \<and> rids g x = Some i
      then None else blocks m x)"
    using False res_ids_iff [OF inv] by (auto simp: fun_eq_iff)
  moreover have "res_release i g m = Some (g, m)"
  proof -
    have "hash_find (rhead g) (int_key i) = None"
      using False res_find_none [OF inv, of i] by simp
    with unl show ?thesis
      by (simp add: res_release_def mutex_lock_def mutex_unlock_def)
  qed
  moreover have "rids g = (\<lambda>x. if x \<in> set (hash_iter (rhead g)) \<and> rids g x = Some i
      then None else rids g x)"
    using False res_ids_iff [OF inv] by (auto simp: fun_eq_iff)
  moreover have "hash_iter (rhead g) = filter (\<lambda>x. rids g x \<noteq> Some i) (hash_iter (rhead g))"
    using False res_ids_iff [OF inv] by (auto simp: filter_id_conv [THEN iffD2])
  ultimately show ?thesis using ok by (intro that [of g m]) auto
next
  case True
  have inv: "res_inv g m" and unl: "\<not> mlocked g"
    using ok by (simp_all add: res_ok_def)
  obtain a where a: "a \<in> set (hash_iter (rhead g))" "rids g a = Some i"
    using True res_ids_iff [OF inv] by auto
  obtain h where h: "hash_delete a (rhead g) = Some h"
    using ht.del_some [OF res_inv_hash_ok [OF inv]] a(1) by (auto simp: hash_iter_entries)
  obtain blk where "blocks m a = Some blk"
    using inv a(1) by (auto simp: res_inv_def)
  then have rel: "plat_mem_release (Ptr a 0) m = Some (m\<lparr>blocks := (blocks m)(a := None)\<rparr>)"
    by (rule free_ok)
  let ?g = "g\<lparr>rhead := h, rids := (rids g)(a := None), mlocked := False\<rparr>"
  let ?m = "m\<lparr>blocks := (blocks m)(a := None)\<rparr>"
  have "res_release i g m = Some (?g, ?m)"
    using a res_find_some [OF inv, of i a] h rel unl
    by (simp add: res_release_def mutex_lock_def mutex_unlock_def)
  moreover have "res_ok ?g ?m"
    using res_unlink_ok(1) [OF inv h a(1)] by (simp add: res_ok_def)
  moreover have only: "x \<in> set (hash_iter (rhead g)) \<and> rids g x = Some i \<longleftrightarrow> x = a" for x
    using a res_find_some [OF inv, of i x] res_find_some [OF inv, of i a] by auto
  moreover have "blocks ?m = (\<lambda>x. if x \<in> set (hash_iter (rhead g)) \<and> rids g x = Some i
      then None else blocks m x)"
    using only by (simp add: fun_eq_iff)
  moreover have "rids ?g = (\<lambda>x. if x \<in> set (hash_iter (rhead g)) \<and> rids g x = Some i
      then None else rids g x)"
    using only by (simp add: fun_eq_iff)
  moreover have "filter (\<lambda>x. x \<noteq> a) (hash_iter (rhead g))
      = filter (\<lambda>x. rids g x \<noteq> Some i) (hash_iter (rhead g))"
    using only by (intro filter_cong) auto
  then have "hash_iter (rhead ?g) = filter (\<lambda>x. rids g x \<noteq> Some i) (hash_iter (rhead g))"
    using res_unlink_ok(2) [OF inv h a(1)] by simp
  moreover note res_table_unlink [OF inv a res_unlink_ok(2) [OF inv h a(1)], of False]
  ultimately show ?thesis by (intro that [of ?g ?m]) simp_all
qed

subsection \<open>Release of everything, and any\<close>

definition remove_blocks :: "addr set \<Rightarrow> mem \<Rightarrow> mem" where
  "remove_blocks A m = m\<lparr>blocks := (\<lambda>x. if x \<in> A then None else blocks m x)\<rparr>"

text \<open>A callback that reads the data of the element it is given, where \<open>Q\<close> holds of it, and writes no memory.\<close>

definition reads_only :: "(u32 \<Rightarrow> u8 list \<Rightarrow> bool) \<Rightarrow>
    (u32 \<Rightarrow> ptr \<Rightarrow> 's \<Rightarrow> mem \<Rightarrow> ('s \<times> mem) option) \<Rightarrow> (u32 \<Rightarrow> u8 list \<Rightarrow> 's \<Rightarrow> 's) \<Rightarrow> bool" where
  "reads_only Q cb f \<longleftrightarrow> (\<forall>i a s m blk. blocks m a = Some blk \<longrightarrow> Q i (drop res_hdr blk) \<longrightarrow>
     cb i (Ptr a res_hdr) s m = Some (f i (drop res_hdr blk) s, m))"

lemma res_release_all_loop_spec:
  assumes "res_inv g m" "\<forall>x \<in> set (res_table g m). Q (fst x) (snd x)" "reads_only Q cb f"
  shows "\<exists>g'. res_release_all_loop cb (hash_iter (rhead g)) g s m =
      Some (g', foldl (\<lambda>s (i, bs). f i bs s) s (res_table g m), remove_blocks (set (hash_iter (rhead g))) m)
    \<and> hash_iter (rhead g') = [] \<and> mlocked g' = mlocked g \<and> self g' = self g
    \<and> res_inv g' (remove_blocks (set (hash_iter (rhead g))) m)"
  using assms(1,2)
proof (induction "hash_iter (rhead g)" arbitrary: g s m)
  case Nil
  have "remove_blocks (set (hash_iter (rhead g))) m = m"
    using Nil.hyps [symmetric] by (simp add: remove_blocks_def)
  then show ?case
    using Nil.hyps [symmetric] Nil.prems by (simp add: res_table_def)
next
  case (Cons a as)
  note inv = Cons.prems(1) and as = Cons.hyps(2) [symmetric]
  have a: "a \<in> set (hash_iter (rhead g))" by (simp add: as)
  have a_as: "a \<notin> set as"
    using hash_ok_distinct(1) [OF res_inv_hash_ok [OF inv]] by (simp add: as)
  obtain i where i: "rids g a = Some i" using rids_known [OF inv a] ..
  obtain h where h: "hash_delete a (rhead g) = Some h"
    using ht.del_some [OF res_inv_hash_ok [OF inv]] a by (auto simp: hash_iter_entries)
  obtain blk where blk: "blocks m a = Some blk" using inv a by (auto simp: res_inv_def)
  let ?g = "g\<lparr>rhead := h, rids := (rids g)(a := None)\<rparr>"
  let ?m = "m\<lparr>blocks := (blocks m)(a := None)\<rparr>"
  let ?s = "f i (drop res_hdr blk) s"
  have inv': "res_inv ?g ?m"
    using res_unlink_ok(1) [OF inv h a, of "mlocked g"] by simp
  have iter: "hash_iter (rhead ?g) = as"
    using res_unlink_ok(2) [OF inv h a] a_as by (simp add: as filter_id_conv) metis
  have rest: "remove_blocks (set as) ?m = remove_blocks (set (hash_iter (rhead g))) m"
    by (auto simp: remove_blocks_def as fun_eq_iff)
  have table: "res_table g m = (i, drop res_hdr blk) # res_table ?g ?m"
    using i blk a_as iter by (auto simp: res_table_def as)
  have cb: "cb i (Ptr a res_hdr) s m = Some (?s, m)"
    using assms(3) blk Cons.prems(2) by (simp add: reads_only_def table)
  have "plat_mem_release (Ptr a 0) m = Some ?m" by (rule free_ok [OF blk])
  then have "res_release_all_loop cb (a # as) g s m = res_release_all_loop cb as ?g ?s ?m"
    using h i cb by simp
  with Cons.hyps(1) [OF iter [symmetric] inv', of ?s] Cons.prems(2) show ?case
    unfolding as iter rest table by (auto simp: as)
qed

lemma res_release_all_spec:
  assumes ok: "res_ok g m" and Q: "\<forall>x \<in> set (res_table g m). Q (fst x) (snd x)" and cb: "reads_only Q cb f"
  obtains g' where "res_release_all cb g s m =
      Some (g', foldl (\<lambda>s (i, bs). f i bs s) s (res_table g m), remove_blocks (set (hash_iter (rhead g))) m)"
    "hash_iter (rhead g') = []" "self g' = self g"
    "res_ok g' (remove_blocks (set (hash_iter (rhead g))) m)"
proof -
  let ?g = "g\<lparr>mlocked := True\<rparr>"
  have inv: "res_inv ?g m" and unl: "\<not> mlocked g" and table: "res_table ?g m = res_table g m"
    using ok by (simp_all add: res_ok_def res_inv_def res_table_def)
  obtain g1 where g1: "res_release_all_loop cb (hash_iter (rhead ?g)) ?g s m =
      Some (g1, foldl (\<lambda>s (i, bs). f i bs s) s (res_table ?g m), remove_blocks (set (hash_iter (rhead ?g))) m)"
    "hash_iter (rhead g1) = []" "mlocked g1" "self g1 = self ?g"
    "res_inv g1 (remove_blocks (set (hash_iter (rhead ?g))) m)"
    using res_release_all_loop_spec [OF inv _ cb, of s] Q table by auto
  let ?h = "g1\<lparr>mlocked := False\<rparr>"
  have "res_release_all cb g s m = Some (?h, foldl (\<lambda>s (i, bs). f i bs s) s (res_table g m),
      remove_blocks (set (hash_iter (rhead g))) m)"
    using g1 unl table by (simp add: res_release_all_def mutex_lock_def mutex_unlock_def)
  moreover have "res_ok ?h (remove_blocks (set (hash_iter (rhead g))) m)"
    using g1(5) by (simp add: res_ok_def res_inv_def)
  ultimately show thesis using that [of ?h] g1 by simp
qed

lemma res_any_spec:
  assumes "res_ok g m"
  shows "res_any g = Some (if res_ids g = [] then - 1 else last (res_ids g), g)"
proof (cases "hash_iter (rhead g) = []")
  case True
  with assms show ?thesis
    by (simp add: res_any_def mutex_lock_def mutex_unlock_def res_ok_def res_ids_def)
next
  case False
  have "res_inv g m" using assms by (simp add: res_ok_def)
  then obtain i where "rids g (last (hash_iter (rhead g))) = Some i"
    using rids_known last_in_set [OF False] by blast
  with False assms show ?thesis
    by (auto simp: res_any_def mutex_lock_def mutex_unlock_def res_ok_def res_ids_def last_map
        split: list.splits)
qed

end
