(* ===== verification/Threads.thy ===== *)
theory Threads
  imports ResourceCorrect
begin

text \<open>
  Threads and managed threads of \<open>js-clib/common.c\<close> (\<open>run_thread\<close>, \<open>wait_thread\<close>,
  \<open>destroy_thread\<close>, \<open>run\<close>, \<open>run_cancel\<close>, \<open>run_done\<close>). A \<open>struct thread_struct\<close> is 24 bytes of
  memory: \<open>inst\<close> at offset 0, \<open>_should_free\<close> at 8, \<open>_param\<close> at 16. POSIX threads are the
  environment: which identifier \<open>pthread_create\<close> hands out and whether and with which value a
  thread ends come from an oracle. A \<open>pthread_join\<close> that never returns has no result. A
  \<open>pthread_join\<close> or \<open>pthread_cancel\<close> of an identifier that is not (or no longer) in use
  is recorded in \<open>stale\<close> (POSIX leaves it undefined).
\<close>

definition thread_size :: nat where "thread_size = 24"
definition off_inst :: nat where "off_inst = 0"
definition off_should_free :: nat where "off_should_free = 8"
definition off_param :: nat where "off_param = 16"

record pthread =
  tfunc :: nat
  tparam :: ptr
  cancelled :: bool

record os =
  alive :: "u64 \<Rightarrow> pthread option"
  created :: nat
  stale :: "u64 list"

record posix =
  new_tid :: "nat \<Rightarrow> u64"
  exits :: "u64 \<Rightarrow> u64 option"

subsection \<open>Pointers in memory\<close>

fun ptr_addr :: "ptr \<Rightarrow> u64" where
  "ptr_addr Null = 0"
| "ptr_addr (Ptr a off) = a + of_nat off"

definition store_ptr :: "ptr \<Rightarrow> ptr \<Rightarrow> mem \<Rightarrow> mem option" where
  "store_ptr p v m = mem_store p (le_bytes 8 (unat (ptr_addr v))) m"

definition load_word :: "ptr \<Rightarrow> mem \<Rightarrow> u64 option" where
  "load_word p m = do { bs \<leftarrow> mem_load p 8 m; Some (of_nat (le_val bs)) }"

text \<open>A stored pointer is read back as the start of a block: only such pointers are stored.\<close>

definition load_ptr :: "ptr \<Rightarrow> mem \<Rightarrow> ptr option" where
  "load_ptr p m = do { w \<leftarrow> load_word p m; Some (if w = 0 then Null else Ptr w 0) }"

subsection \<open>POSIX threads\<close>

definition pthread_create :: "posix \<Rightarrow> ptr \<Rightarrow> nat \<Rightarrow> ptr \<Rightarrow> os \<Rightarrow> mem \<Rightarrow> (os \<times> mem) option" where
  "pthread_create E inst f param w m =
     (let t = new_tid E (created w); w' = w\<lparr>created := Suc (created w)\<rparr> in
      if alive w t \<noteq> None then Some (w', m)
      else do { m' \<leftarrow> mem_store inst (le_bytes 8 (unat t)) m;
                Some (w'\<lparr>alive := (alive w)(t \<mapsto> \<lparr>tfunc = f, tparam = param, cancelled = False\<rparr>)\<rparr>, m') })"

definition pthread_join :: "posix \<Rightarrow> u64 \<Rightarrow> os \<Rightarrow> (u64 option \<times> os) option" where
  "pthread_join E t w =
     (case alive w t of
        None \<Rightarrow> Some (None, w\<lparr>stale := stale w @ [t]\<rparr>)
      | Some th \<Rightarrow>
          (case (if cancelled th then Some (- 1) else exits E t) of
             None \<Rightarrow> None
           | Some r \<Rightarrow> Some (Some r, w\<lparr>alive := (alive w)(t := None)\<rparr>)))"

definition pthread_cancel :: "u64 \<Rightarrow> os \<Rightarrow> os" where
  "pthread_cancel t w =
     (case alive w t of
        None \<Rightarrow> w\<lparr>stale := stale w @ [t]\<rparr>
      | Some th \<Rightarrow> w\<lparr>alive := (alive w)(t \<mapsto> th\<lparr>cancelled := True\<rparr>)\<rparr>)"

subsection \<open>thread\<close>

definition run_thread ::
    "libc \<Rightarrow> posix \<Rightarrow> ptr \<Rightarrow> nat \<Rightarrow> ptr \<Rightarrow> os \<Rightarrow> mem \<Rightarrow> (ptr \<times> os \<times> mem) option" where
  "run_thread L E thrd f param w m =
     do { (thrd, m1) \<leftarrow>
            (if thrd = Null
             then do { (p, m') \<leftarrow> plat_mem_allocate L (of_nat thread_size) m;
                       m'' \<leftarrow> mem_store (ptr_add p off_should_free) [1] m';
                       Some (p, m'') }
             else do { m' \<leftarrow> plat_mem_set thrd 0 (of_nat thread_size) m; Some (thrd, m') });
          (inst, m2) \<leftarrow> plat_mem_allocate L 8 m1;
          m3 \<leftarrow> store_ptr (ptr_add thrd off_inst) inst m2;
          (w1, m4) \<leftarrow> pthread_create E inst f param w m3;
          Some (thrd, w1, m4) }"

definition wait_thread :: "posix \<Rightarrow> ptr \<Rightarrow> os \<Rightarrow> mem \<Rightarrow> (u64 option \<times> os) option" where
  "wait_thread E thrd w m =
     do { inst \<leftarrow> load_ptr (ptr_add thrd off_inst) m;
          t \<leftarrow> load_word inst m;
          pthread_join E t w }"

definition destroy_thread :: "ptr \<Rightarrow> os \<Rightarrow> mem \<Rightarrow> (os \<times> mem) option" where
  "destroy_thread thrd w m =
     do { p \<leftarrow> load_ptr (ptr_add thrd off_inst) m;
          m1 \<leftarrow> store_ptr (ptr_add thrd off_inst) Null m;
          (w1, m2) \<leftarrow>
            (if p \<noteq> Null
             then do { t \<leftarrow> load_word p m1;
                       m' \<leftarrow> plat_mem_release p m1;
                       Some (pthread_cancel t w, m') }
             else Some (w, m1));
          sf \<leftarrow> mem_load (ptr_add thrd off_should_free) 1 m2;
          (if sf \<noteq> [0]
           then do { m3 \<leftarrow> mem_store (ptr_add thrd off_should_free) [0] m2;
                     m4 \<leftarrow> plat_mem_release thrd m3;
                     Some (w1, m4) }
           else Some (w1, m2)) }"

subsection \<open>run\<close>

text \<open>The state: the static \<open>_run_res_mgn\<close> (None is nil), the threads and the heap.\<close>

type_synonym rstate = "res_mgn option \<times> os \<times> mem"

text \<open>
  The size expression as C parses it: the comparison takes \<open>sizeof(*thrd) + param_size\<close>, and the
  conditional then answers \<open>param_size\<close> alone.
\<close>

definition run_size :: "u64 \<Rightarrow> u64" where
  "run_size param_size = (if of_nat thread_size + param_size > 8 then param_size else 8)"

definition run :: "libc \<Rightarrow> posix \<Rightarrow> nat \<Rightarrow> u64 \<Rightarrow> u8 list option \<Rightarrow> rstate \<Rightarrow> (u32 \<times> rstate) option" where
  "run L E f param_size param st =
     (case st of (mgn, w, m) \<Rightarrow>
        do { (g, m1) \<leftarrow> (case mgn of None \<Rightarrow> res_create_management L m | Some g \<Rightarrow> Some (g, m));
             (rid, thrd, g1, m2) \<leftarrow> res_create L (run_size param_size) g m1;
             m3 \<leftarrow> (case param of
                      Some bs \<Rightarrow> mem_store (ptr_add thrd off_param) (take (unat (ucast param_size :: u32)) bs) m2
                    | None \<Rightarrow> store_ptr (ptr_add thrd off_param) Null m2);
             (_, w1, m4) \<leftarrow> run_thread L E thrd f (ptr_add thrd off_param) w m3;
             Some (rid, Some g1, w1, m4) })"

definition run_cancel :: "u32 \<Rightarrow> rstate \<Rightarrow> rstate option" where
  "run_cancel rid st =
     (case st of
        (None, w, m) \<Rightarrow> Some (None, w, m)
      | (Some g, w, m) \<Rightarrow>
          do { (thrd, g1) \<leftarrow> res_get rid g;
               p \<leftarrow> load_ptr (ptr_add thrd off_inst) m;
               (if p \<noteq> Null
                then do { t \<leftarrow> load_word p m; Some (Some g1, pthread_cancel t w, m) }
                else Some (Some g1, w, m)) })"

partial_function (option) run_done_loop ::
    "posix \<Rightarrow> res_mgn \<Rightarrow> os \<Rightarrow> mem \<Rightarrow> (res_mgn \<times> os \<times> mem) option" where
  "run_done_loop E g w m =
     do { (rid, g1) \<leftarrow> res_any g;
          if 0 \<le> sint rid
          then do { (thrd, g2) \<leftarrow> res_get rid g1;
                    (_, w1) \<leftarrow> wait_thread E thrd w m;
                    (w2, m2) \<leftarrow> destroy_thread thrd w1 m;
                    (g3, m3) \<leftarrow> res_release rid g2 m2;
                    run_done_loop E g3 w2 m3 }
          else Some (g1, w, m) }"

definition run_done :: "posix \<Rightarrow> rstate \<Rightarrow> rstate option" where
  "run_done E st =
     (case st of
        (None, w, m) \<Rightarrow> Some (None, w, m)
      | (Some g, w, m) \<Rightarrow>
          do { (g1, w1, m1) \<leftarrow> run_done_loop E g w m;
               m2 \<leftarrow> res_release_management g1 m1;
               Some (None, w1, m2) })"

end
