(* ===== verification/ThreadsCorrect.thy ===== *)
theory ThreadsCorrect
  imports Threads
begin

text \<open>
  What \<open>run\<close> and \<open>run_done\<close> do. The size expression of \<open>run\<close> leaves no room for the
  \<open>struct thread_struct\<close> it then writes, so \<open>run\<close> writes outside its block in every call but one
  kind (\<open>run_out_of_bounds\<close>); where the block happens to be large enough it makes a thread whose
  parameter is its own, zeroed, \<open>_param\<close>. \<open>run_done\<close> waits for every managed thread, newest
  first, releases everything and cancels each thread again after it was joined.
\<close>

subsection \<open>The block that run writes into\<close>

lemma res_new_block:
  assumes "res_new L sz i g m = Some (rid, p, g', m')"
  shows "\<exists>a. p = Ptr a res_hdr \<and>
     map_option length (blocks m' a) = Some (unat (ucast (of_nat res_hdr + sz) :: u32))"
proof -
  let ?n = "ucast (of_nat res_hdr + sz) :: u32"
  show ?thesis
    using assms
    by (cases rule: plat_mem_allocate_cases [of L ?n m])
       (auto simp: res_new_def elim!: bind_SomeE split: if_splits)
qed

lemma res_create_block:
  assumes "res_create L sz g m = Some (rid, p, g', m')"
  shows "\<exists>a. p = Ptr a res_hdr \<and>
     map_option length (blocks m' a) = Some (unat (ucast (of_nat res_hdr + sz) :: u32))"
proof -
  obtain g1 where loop: "res_create_loop L sz g1 m = Some (rid, p, g', m')"
    using assms by (auto simp: res_create_def elim: bind_SomeE)
  have "case (rid, p, g', m') of (rid, p, g', m') \<Rightarrow> \<exists>a. p = Ptr a res_hdr \<and>
     map_option length (blocks m' a) = Some (unat (ucast (of_nat res_hdr + sz) :: u32))"
  proof (rule res_create_loop.raw_induct [where P = "\<lambda>L sz g m r. case r of (rid, p, g', m') \<Rightarrow>
        \<exists>a. p = Ptr a res_hdr \<and>
          map_option length (blocks m' a) = Some (unat (ucast (of_nat res_hdr + sz) :: u32))", OF _ loop])
    fix rcl :: "libc \<Rightarrow> u64 \<Rightarrow> res_mgn \<Rightarrow> mem \<Rightarrow> (u32 \<times> ptr \<times> res_mgn \<times> mem) option"
    fix L sz g m r
    assume IH: "\<And>L sz g m r. rcl L sz g m = Some r \<Longrightarrow> case r of (rid, p, g', m') \<Rightarrow>
        \<exists>a. p = Ptr a res_hdr \<and>
          map_option length (blocks m' a) = Some (unat (ucast (of_nat res_hdr + sz) :: u32))"
      and eq: "(let rid = last_id g; g1 = g\<lparr>last_id := rid + 1\<rparr> in
         case hash_find (rhead g1) (int_key rid) of
           None \<Rightarrow> res_new L sz rid g1 m | Some a \<Rightarrow> rcl L sz g1 m) = Some r"
    show "case r of (rid, p, g', m') \<Rightarrow> \<exists>a. p = Ptr a res_hdr \<and>
          map_option length (blocks m' a) = Some (unat (ucast (of_nat res_hdr + sz) :: u32))"
    proof (cases "hash_find (rhead g) (int_key (last_id g))")
      case None
      obtain i p' g2 m2 where r: "r = (i, p', g2, m2)" by (cases r)
      from None eq have "res_new L sz (last_id g) (g\<lparr>last_id := last_id g + 1\<rparr>) m = Some (i, p', g2, m2)"
        by (simp add: Let_def r)
      from res_new_block [OF this] show ?thesis by (simp add: r)
    next
      case (Some a)
      with eq have "rcl L sz (g\<lparr>last_id := last_id g + 1\<rparr>) m = Some r"
        by (simp add: Let_def)
      from IH [OF this] show ?thesis .
    qed
  qed
  then show ?thesis by simp
qed

lemma mem_store_fits:
  "mem_store (Ptr a off) vs m = Some m' \<Longrightarrow> map_option length (blocks m a) = Some n \<Longrightarrow>
     off + length vs \<le> n"
  by (auto split: option.splits if_splits)

lemma run_thread_fits:
  assumes "run_thread L E (Ptr a off) f param w m = Some r" "map_option length (blocks m a) = Some n"
  shows "off + 24 \<le> n"
  using assms mem_store_fits [OF _ assms(2), of off "replicate 24 0"]
  by (auto simp: run_thread_def plat_mem_set_def thread_size_def elim!: bind_SomeE)

lemma run_size_small: "unat n < 2 ^ 32 - 64 \<Longrightarrow> run_size n = n"
proof -
  assume n: "unat n < 2 ^ 32 - 64"
  then have "unat (24 + n) = 24 + unat n"
    by (simp add: unat_word_ariths)
  then have "24 + n > 8" by (simp add: word_less_nat_alt)
  then show ?thesis by (simp add: run_size_def thread_size_def)
qed

lemma run_param_fits:
  assumes "run L E f n param (mgn, w, m) = Some r" and n: "unat n < 2 ^ 32 - 64"
  shows "24 \<le> unat n"
    and "param = Some bs \<Longrightarrow> length bs = unat n \<Longrightarrow> 16 + unat n \<le> unat n"
proof -
  obtain g m1 rid thrd g1 m2 m3 where
    create: "res_create L (run_size n) g m1 = Some (rid, thrd, g1, m2)"
    and store: "(case param of
                      Some bs \<Rightarrow> mem_store (ptr_add thrd off_param) (take (unat (ucast n :: u32)) bs) m2
                    | None \<Rightarrow> store_ptr (ptr_add thrd off_param) Null m2) = Some m3"
    and thread: "\<exists>x. run_thread L E thrd f (ptr_add thrd off_param) w m3 = Some x"
    using assms(1) by (auto simp: run_def elim!: bind_SomeE)
  have size_eq: "unat (ucast (of_nat res_hdr + run_size n) :: u32) = 64 + unat n"
    using res_alloc_size [OF n] run_size_small [OF n] by simp
  obtain a where a: "thrd = Ptr a 64" "map_option length (blocks m2 a) = Some (64 + unat n)"
    using res_create_block [OF create] size_eq by (auto simp: res_hdr_def)
  have "map_option length (blocks m3 a) = map_option length (blocks m2 a)"
    using store by (auto simp: store_ptr_def dest!: mem_store_length [where b = a] split: option.splits)
  then show "24 \<le> unat n"
    using thread run_thread_fits [of L E a 64 f _ w m3 _ "64 + unat n"] a by auto
  have u: "unat (ucast n :: u32) = unat n"
    using n by (simp add: unsigned_ucast_eq take_bit_eq_mod)
  show "16 + unat n \<le> unat n" if "param = Some bs" "length bs = unat n"
    using store that a mem_store_fits [OF _ a(2), of 80 bs m3] u by (simp add: off_param_def)
qed

lemma run_none:
  assumes "unat n < 2 ^ 32 - 64"
    and "case param of None \<Rightarrow> unat n < 24 | Some bs \<Rightarrow> length bs = unat n"
  shows "run L E f n param st = None"
proof (rule ccontr)
  obtain mgn w m where st: "st = (mgn, w, m)" by (cases st)
  assume "run L E f n param st \<noteq> None"
  then obtain r where "run L E f n param (mgn, w, m) = Some r" using st by auto
  from run_param_fits [OF this assms(1)] assms(2) show False
    by (auto split: option.splits)
qed

subsection \<open>run_done\<close>

text \<open>
  A managed thread: the element \<open>a\<close> holds a thread structure whose \<open>inst\<close> is the block \<open>q\<close>
  with the identifier \<open>t\<close> of a thread that ends (or was cancelled).
\<close>

type_synonym managed = "addr \<times> addr \<times> u64"

definition thread_ends :: "posix \<Rightarrow> os \<Rightarrow> u64 \<Rightarrow> bool" where
  "thread_ends E w t \<longleftrightarrow> (case alive w t of None \<Rightarrow> False | Some th \<Rightarrow> cancelled th \<or> exits E t \<noteq> None)"

definition managed_ok :: "mem \<Rightarrow> managed \<Rightarrow> bool" where
  "managed_ok m x = (case x of (a, q, t) \<Rightarrow>
     (case blocks m a of None \<Rightarrow> False | Some blk \<Rightarrow>
        88 \<le> length blk \<and> take 8 (drop 64 blk) = le_bytes 8 (unat q) \<and> blk ! 72 = 0) \<and>
     q \<noteq> 0 \<and> blocks m q = Some (le_bytes 8 (unat t)))"

definition threads_ok :: "posix \<Rightarrow> res_mgn \<Rightarrow> os \<Rightarrow> mem \<Rightarrow> managed list \<Rightarrow> bool" where
  "threads_ok E g w m ts \<longleftrightarrow>
     res_ok g m \<and> map fst ts = hash_iter (rhead g) \<and> (\<forall>i \<in> set (res_ids g). 0 \<le> sint i) \<and>
     (\<forall>(a, q, t) \<in> set ts. managed_ok m (a, q, t) \<and> thread_ends E w t) \<and>
     distinct (map fst ts @ map (fst \<circ> snd) ts) \<and> distinct (map (snd \<circ> snd) ts) \<and>
     (\<forall>(a, q, t) \<in> set ts. self g \<noteq> Ptr q 0)"

lemma of_nat_le_val_u64: "of_nat (le_val (le_bytes 8 (unat (w :: u64)))) = w"
proof -
  have "unat w < 256 ^ 8" using unsigned_less [of w, where ?'a = nat] by simp
  then show ?thesis by (simp add: le_val_le_bytes)
qed

lemma load_word_block: "blocks m q = Some (le_bytes 8 (unat t)) \<Longrightarrow> load_word (Ptr q 0) m = Some t"
  by (simp add: load_word_def of_nat_le_val_u64)

lemma managed_load:
  assumes "managed_ok m (a, q, t)"
  shows "load_ptr (Ptr a 64) m = Some (Ptr q 0)" "load_word (Ptr q 0) m = Some t"
    "mem_load (Ptr a 72) 1 m = Some [0]"
proof -
  obtain blk where blk: "blocks m a = Some blk" "88 \<le> length blk"
      "take 8 (drop 64 blk) = le_bytes 8 (unat q)" "blk ! 72 = 0"
    using assms by (auto simp: managed_ok_def split: option.splits)
  then show "load_ptr (Ptr a 64) m = Some (Ptr q 0)"
    using assms by (simp add: load_ptr_def load_word_def of_nat_le_val_u64 managed_ok_def)
  show "load_word (Ptr q 0) m = Some t"
    using assms by (intro load_word_block) (simp add: managed_ok_def)
  have "take 1 (drop 72 blk) = [blk ! 72]"
    using blk(2) by (simp add: take_Suc_conv_app_nth)
  with blk show "mem_load (Ptr a 72) 1 m = Some [0]" by simp
qed

text \<open>
  One turn of the loop on one element: the thread is joined, its \<open>inst\<close> block is released, and
  \<open>pthread_cancel\<close> is called on the identifier that the join has just ended.
\<close>

lemma wait_destroy:
  assumes man: "managed_ok m (a, q, t)" and t: "thread_ends E w t" and aq: "a \<noteq> q"
  obtains r m2 blk' where "wait_thread E (Ptr a res_hdr) w m = Some (r, w\<lparr>alive := (alive w)(t := None)\<rparr>)"
    "destroy_thread (Ptr a res_hdr) (w\<lparr>alive := (alive w)(t := None)\<rparr>) m =
       Some (w\<lparr>alive := (alive w)(t := None), stale := stale w @ [t]\<rparr>, m2)"
    "blocks m2 = (blocks m)(a \<mapsto> blk', q := None)"
    "length blk' = length (the (blocks m a))" "tick m2 = tick m"
proof -
  obtain blk where blk: "blocks m a = Some blk" "88 \<le> length blk" "blk ! 72 = 0"
    using man by (auto simp: managed_ok_def split: option.splits)
  note load = managed_load [OF man]
  obtain th where th: "alive w t = Some th" "cancelled th \<or> exits E t \<noteq> None"
    using t by (auto simp: thread_ends_def split: option.splits)
  then obtain r where "pthread_join E t w = Some (r, w\<lparr>alive := (alive w)(t := None)\<rparr>)"
    by (cases "cancelled th") (auto simp: pthread_join_def)
  then have wait: "wait_thread E (Ptr a res_hdr) w m = Some (r, w\<lparr>alive := (alive w)(t := None)\<rparr>)"
    using load by (simp add: wait_thread_def res_hdr_def off_inst_def)
  let ?blk = "take 64 blk @ le_bytes 8 0 @ drop 72 blk"
  let ?m1 = "m\<lparr>blocks := (blocks m)(a \<mapsto> ?blk)\<rparr>"
  let ?m2 = "?m1\<lparr>blocks := (blocks ?m1)(q := None)\<rparr>"
  have store: "store_ptr (Ptr a 64) Null m = Some ?m1"
    using blk by (simp add: store_ptr_def)
  have q: "blocks ?m1 q = Some (le_bytes 8 (unat t))"
    using man aq by (simp add: managed_ok_def)
  have flag: "mem_load (Ptr a 72) 1 ?m2 = Some [0]"
  proof -
    have "drop 72 ?blk = drop 72 blk" using blk(2) by simp
    moreover have "take 1 (drop 72 blk) = [blk ! 72]"
      using blk(2) by (simp add: take_Suc_conv_app_nth)
    ultimately show ?thesis using blk aq by simp
  qed
  have "destroy_thread (Ptr a res_hdr) (w\<lparr>alive := (alive w)(t := None)\<rparr>) m =
       Some (w\<lparr>alive := (alive w)(t := None), stale := stale w @ [t]\<rparr>, ?m2)"
    using load(1) store load_word_block [OF q] free_ok [OF q] flag
    by (simp add: destroy_thread_def res_hdr_def off_inst_def off_should_free_def pthread_cancel_def)
  with wait show thesis
    using blk by (intro that [of r ?m2 ?blk]) auto
qed

lemma res_ok_blocks:
  assumes ok: "res_ok g m"
    and keep: "\<And>x. x \<in> set (hash_iter (rhead g)) \<Longrightarrow>
        map_option length (blocks m' x) = map_option length (blocks m x)"
    and self: "\<And>p. self g = Ptr p 0 \<Longrightarrow> blocks m p \<noteq> None \<Longrightarrow> blocks m' p \<noteq> None"
  shows "res_ok g m'"
proof -
  have "\<exists>bs. blocks m' x = Some bs \<and> res_hdr \<le> length bs" if "x \<in> set (hash_iter (rhead g))" for x
    using ok keep [OF that] that by (fastforce simp: res_ok_def res_inv_def map_option_eq_Some)
  with ok self show ?thesis by (auto simp: res_ok_def res_inv_def)
qed

lemma run_done_turn:
  assumes ok: "threads_ok E g w m (ts @ [(a, q, t)])"
  obtains g3 w2 m3 where "run_done_loop E g w m = run_done_loop E g3 w2 m3"
    "threads_ok E g3 w2 m3 ts" "self g3 = self g"
    "alive w2 = (alive w)(t := None)" "stale w2 = stale w @ [t]"
    "blocks m3 = (\<lambda>x. if x = a \<or> x = q then None else blocks m x)"
proof -
  have rok: "res_ok g m" and iter: "hash_iter (rhead g) = map fst ts @ [a]"
    and nonneg: "\<forall>i \<in> set (res_ids g). 0 \<le> sint i"
    and man: "\<And>a q t. (a, q, t) \<in> set ts \<Longrightarrow> managed_ok m (a, q, t) \<and> thread_ends E w t"
    and man_a: "managed_ok m (a, q, t)" "thread_ends E w t"
    and dist: "distinct (map fst ts @ [a] @ map (fst \<circ> snd) ts @ [q])"
    and tids: "distinct (map (snd \<circ> snd) ts @ [t])"
    and selfs: "\<And>a q t. (a, q, t) \<in> set ts \<Longrightarrow> self g \<noteq> Ptr q 0" "self g \<noteq> Ptr q 0"
    using ok by (auto simp: threads_ok_def)
  have inv: "res_inv g m" using rok by (simp add: res_ok_def)
  have a: "a \<in> set (hash_iter (rhead g))" and aq: "a \<noteq> q"
    using iter dist by auto
  obtain i where i: "rids g a = Some i" using rids_known [OF inv a] ..
  have any: "res_any g = Some (i, g)"
    using res_any_spec [OF rok] iter i by (simp add: res_ids_def)
  have pos: "0 \<le> sint i"
    using nonneg iter i by (simp add: res_ids_def)
  obtain r m2 blk' where wd: "wait_thread E (Ptr a res_hdr) w m = Some (r, w\<lparr>alive := (alive w)(t := None)\<rparr>)"
    "destroy_thread (Ptr a res_hdr) (w\<lparr>alive := (alive w)(t := None)\<rparr>) m =
       Some (w\<lparr>alive := (alive w)(t := None), stale := stale w @ [t]\<rparr>, m2)"
    "blocks m2 = (blocks m)(a \<mapsto> blk', q := None)" "length blk' = length (the (blocks m a))"
    by (rule wait_destroy [OF man_a aq])
  have blk_a: "blocks m a \<noteq> None" using inv a by (auto simp: res_inv_def)
  have q_iter: "q \<notin> set (hash_iter (rhead g))" using iter dist by auto
  have ok2: "res_ok g m2"
    by (rule res_ok_blocks [OF rok]) (use wd(3,4) blk_a q_iter selfs(2) a in auto)
  obtain g3 m3 where g3: "res_release i g m2 = Some (g3, m3)" "res_ok g3 m3"
      "res_table g3 m3 = filter (\<lambda>x. fst x \<noteq> i) (res_table g m2)"
      "blocks m3 = (\<lambda>x. if x \<in> set (hash_iter (rhead g)) \<and> rids g x = Some i then None else blocks m2 x)"
      "hash_iter (rhead g3) = filter (\<lambda>x. rids g x \<noteq> Some i) (hash_iter (rhead g))"
      "rids g3 = (\<lambda>x. if x \<in> set (hash_iter (rhead g)) \<and> rids g x = Some i then None else rids g x)"
      "self g3 = self g"
    by (rule res_release_spec [OF ok2])
  let ?w2 = "w\<lparr>alive := (alive w)(t := None), stale := stale w @ [t]\<rparr>"
  have only: "x \<in> set (hash_iter (rhead g)) \<and> rids g x = Some i \<longleftrightarrow> x = a" for x
    using a i res_find_some [OF inv, of i x] res_find_some [OF inv, of i a] by auto
  have blocks3: "blocks m3 = (\<lambda>x. if x = a \<or> x = q then None else blocks m x)"
    using g3(4) wd(3) only by (auto simp: fun_eq_iff)
  have "filter (\<lambda>x. rids g x \<noteq> Some i) (hash_iter (rhead g))
      = filter (\<lambda>x. x \<noteq> a) (hash_iter (rhead g))"
    using only by (intro filter_cong) auto
  then have iter3: "hash_iter (rhead g3) = map fst ts"
    using g3(5) iter dist by (auto simp: filter_id_conv)
  have ids3: "set (res_ids g3) \<subseteq> set (res_ids g)"
  proof -
    have "the (rids g3 x) = the (rids g x)" if "x \<in> fst ` set ts" for x
      using that g3(6) only dist by auto
    then show ?thesis by (auto simp: res_ids_def iter3 iter)
  qed
  have "threads_ok E g3 ?w2 m3 ts"
    unfolding threads_ok_def
  proof (intro conjI)
    show "\<forall>(x, y, z) \<in> set ts. managed_ok m3 (x, y, z) \<and> thread_ends E ?w2 z"
    proof clarify
      fix x y z assume xyz: "(x, y, z) \<in> set ts"
      have "x \<noteq> a" "x \<noteq> q" "y \<noteq> a" "y \<noteq> q" "z \<noteq> t"
        using xyz dist tids by (force simp: image_iff)+
      with man [OF xyz] show "managed_ok m3 (x, y, z) \<and> thread_ends E ?w2 z"
        by (simp add: managed_ok_def blocks3 thread_ends_def)
    qed
    show "\<forall>(x, y, z) \<in> set ts. self g3 \<noteq> Ptr y 0"
      using selfs(1) g3(7) by auto
  qed (use g3(2) iter3 ids3 nonneg dist tids in auto)
  moreover have "run_done_loop E g w m = run_done_loop E g3 ?w2 m3"
    using any pos res_get_known [OF rok a i] wd(1,2) g3(1)
    by (simp add: run_done_loop.simps [of E g w m])
  ultimately show thesis
    using blocks3 g3(7) by (intro that [of g3 ?w2 m3]) simp_all
qed

lemma run_done_loop_spec:
  assumes "threads_ok E g w m ts"
  shows "\<exists>g' w' m'. run_done_loop E g w m = Some (g', w', m') \<and>
     res_ok g' m' \<and> hash_iter (rhead g') = [] \<and> self g' = self g \<and>
     alive w' = (\<lambda>t. if t \<in> (snd \<circ> snd) ` set ts then None else alive w t) \<and>
     stale w' = stale w @ rev (map (snd \<circ> snd) ts) \<and>
     blocks m' = (\<lambda>x. if x \<in> fst ` set ts \<union> (fst \<circ> snd) ` set ts then None else blocks m x)"
  using assms
proof (induction ts arbitrary: g w m rule: rev_induct)
  case Nil
  then have ok: "res_ok g m" and "hash_iter (rhead g) = []"
    by (simp_all add: threads_ok_def)
  then have "res_any g = Some (- 1, g)"
    using res_any_spec [OF ok] by (simp add: res_ids_def)
  then have "run_done_loop E g w m = Some (g, w, m)"
    by (simp add: run_done_loop.simps [of E g w m])
  with ok \<open>hash_iter (rhead g) = []\<close> show ?case by simp
next
  case (snoc x ts)
  obtain a q t where x: "x = (a, q, t)" by (cases x)
  obtain g3 w2 m3 where turn: "run_done_loop E g w m = run_done_loop E g3 w2 m3"
      "threads_ok E g3 w2 m3 ts" "self g3 = self g"
      "alive w2 = (alive w)(t := None)" "stale w2 = stale w @ [t]"
      "blocks m3 = (\<lambda>x. if x = a \<or> x = q then None else blocks m x)"
    by (rule run_done_turn [OF snoc.prems [unfolded x]])
  from snoc.IH [OF turn(2)] obtain g' w' m' where
    "run_done_loop E g3 w2 m3 = Some (g', w', m')" "res_ok g' m'" "hash_iter (rhead g') = []"
    "self g' = self g3"
    "alive w' = (\<lambda>t. if t \<in> (snd \<circ> snd) ` set ts then None else alive w2 t)"
    "stale w' = stale w2 @ rev (map (snd \<circ> snd) ts)"
    "blocks m' = (\<lambda>x. if x \<in> fst ` set ts \<union> (fst \<circ> snd) ` set ts then None else blocks m3 x)"
    by blast
  with turn show ?case by (auto simp: x fun_eq_iff)
qed

end
