(* ===== verification/FileLib.thy ===== *)
theory FileLib
  imports Complex_Main Stdio ThreadsCorrect
begin

text \<open>
  The commands of \<open>js-clib/jsc_file.c\<close>, \<open>jsc_sys.c\<close>, \<open>jsc_net.c\<close> and the log of
  \<open>common.c\<close>. A command gets the list of its JavaScript arguments and answers an error code and
  a value; values are the datatype \<open>jsval\<close>, with what the commands test and build (the coding of
  \<open>v7_val_t\<close> is in the theories \<open>Values\<close> and \<open>Strings\<close>). \<open>opened_files\<close> is a resource manager
  of Resource whose blocks hold \<open>struct file_handle\<close>: 16 bytes, \<open>type\<close> at 0 and the \<open>FILE*\<close> at 8.
  Doubles are rationals or no number; double addition and the conversion to strings are parameters.
\<close>

datatype v7_err = V7_OK | V7_SYNTAX_ERROR | V7_EXEC_EXCEPTION | V7_STACK_OVERFLOW
  | V7_AST_TOO_LARGE | V7_INVALID_ARG | V7_INTERNAL_ERROR

datatype jsnum = Num rat | NaN | Infinite bool

datatype jsval = JUndefined | JNull | JBoolean bool | JNumber jsnum | JString "u8 list"
  | JArray "jsval list" | JObject nat

datatype handle_type = hdl_typ_nav | hdl_typ_file | hdl_typ_pfile | hdl_typ_socket
  | hdl_typ_thread | hdl_typ_memory

fun handle_code :: "handle_type \<Rightarrow> u32" where
  "handle_code hdl_typ_nav = 0"
| "handle_code hdl_typ_file = 1"
| "handle_code hdl_typ_pfile = 2"
| "handle_code hdl_typ_socket = 3"
| "handle_code hdl_typ_thread = 16"
| "handle_code hdl_typ_memory = 32"

subsection \<open>Arguments and values\<close>

definition arg :: "jsval list \<Rightarrow> nat \<Rightarrow> jsval" where
  "arg args i = (if i < length args then args ! i else JUndefined)"

text \<open>\<open>v7_to_cstring\<close>: no C string when there is a NUL inside.\<close>

definition to_cstring :: "u8 list \<Rightarrow> u8 list option" where
  "to_cstring s = (if 0 \<in> set s then None else Some s)"

text \<open>The conversion \<open>(int)\<close> of a double: truncation; out of range it has no result.\<close>

definition c_int :: "jsnum \<Rightarrow> u32 option" where
  "c_int x =
     (case x of
        Num q \<Rightarrow>
          let i = (if q \<ge> 0 then \<lfloor>q\<rfloor> else \<lceil>q\<rceil>)
          in if - (2 ^ 31) \<le> i \<and> i < 2 ^ 31 then Some (of_int i) else None
      | _ \<Rightarrow> None)"

definition as_result :: "jsval list \<Rightarrow> nat \<Rightarrow> jsval" where
  "as_result array c =
     (if c = 0 then JUndefined else if c = 1 then arg array 0 else JArray array)"

subsection \<open>The log\<close>

definition MAX_LOG_MSG :: nat where "MAX_LOG_MSG = 1024"
definition LOG_ERR :: u32 where "LOG_ERR = 0x01000000"
definition LOG_DBG :: u32 where "LOG_DBG = 0x02000000"
definition LOG_INFO :: u32 where "LOG_INFO = 0x04000000"

text \<open>\<open>text\<close> is what the format and its arguments expand to.\<close>

definition log_msg :: "u32 \<Rightarrow> u8 list \<Rightarrow> fsys \<Rightarrow> fsys" where
  "log_msg level text w =
     (let buffer = take (MAX_LOG_MSG - 1) (c_string text) in
      if level AND LOG_ERR \<noteq> 0 then w\<lparr>std_err := std_err w @ buffer\<rparr>
      else w\<lparr>std_out := std_out w @ buffer\<rparr>)"

definition log_err :: "u32 \<Rightarrow> u8 list \<Rightarrow> fsys \<Rightarrow> fsys" where
  "log_err level = log_msg (level OR LOG_ERR)"

subsection \<open>Directories and names\<close>

definition jsc_sum :: "(jsnum \<Rightarrow> jsnum \<Rightarrow> jsnum) \<Rightarrow> jsval list \<Rightarrow> v7_err \<times> jsval" where
  "jsc_sum dadd args =
     (let num = (\<lambda>v. case v of JNumber x \<Rightarrow> x | _ \<Rightarrow> NaN)
      in (V7_OK, JNumber (dadd (num (arg args 0)) (num (arg args 1)))))"

definition jsc_pwd :: "fsys \<Rightarrow> v7_err \<times> jsval" where
  "jsc_pwd w =
     (case getcwd w of Some path \<Rightarrow> (V7_OK, JString path) | None \<Rightarrow> (V7_INTERNAL_ERROR, JUndefined))"

definition chdir :: "host \<Rightarrow> u8 list \<Rightarrow> fsys \<Rightarrow> fsys" where
  "chdir H path w =
     (let p = absolute H (cwd w) path in if is_dir H p then w\<lparr>cwd := p\<rparr> else w)"

definition jsc_cd :: "host \<Rightarrow> jsval list \<Rightarrow> fsys \<Rightarrow> (v7_err \<times> jsval) \<times> fsys" where
  "jsc_cd H args w =
     (case args of
        [JString s] \<Rightarrow>
          (case to_cstring s of
             None \<Rightarrow> ((V7_INVALID_ARG, JUndefined), w)
           | Some cstr \<Rightarrow> let w' = chdir H cstr w in (jsc_pwd w', w'))
      | _ \<Rightarrow> ((V7_INVALID_ARG, JUndefined), w))"

text \<open>The loop of \<open>jsc_ls\<close>: the matches so far and the count of patterns that matched.\<close>

fun ls_loop :: "host \<Rightarrow> (u8 list \<Rightarrow> u8 list) \<Rightarrow> jsval list \<Rightarrow> u8 list list \<Rightarrow> nat \<Rightarrow> fsys
    \<Rightarrow> u8 list list \<times> nat \<times> fsys" where
  "ls_loop H msg [] paths c w = (paths, c, w)"
| "ls_loop H msg (v # args) paths c w =
     (case v of
        JString s \<Rightarrow>
          (case to_cstring s of
             None \<Rightarrow> ls_loop H msg args paths c w
           | Some cstr \<Rightarrow>
               (case glob_matches H (cwd w) cstr of
                  None \<Rightarrow> (paths, c, log_err 0 (msg cstr) w)
                | Some ms \<Rightarrow> ls_loop H msg args (if c > 0 then paths @ ms else ms) (c + 1) w))
      | _ \<Rightarrow> ls_loop H msg args paths c w)"

definition jsc_ls :: "host \<Rightarrow> (u8 list \<Rightarrow> u8 list) \<Rightarrow> jsval list \<Rightarrow> fsys \<Rightarrow> (v7_err \<times> jsval) \<times> fsys" where
  "jsc_ls H msg args w =
     (case (if args = [] then ls_loop H msg [JString [46]] [] 0 w else ls_loop H msg args [] 0 w) of
        (paths, c, w') \<Rightarrow>
          if c = 0 then ((V7_OK, JUndefined), w')
          else ((V7_OK, as_result (map JString paths) (length paths)), w'))"

text \<open>
  The loops of \<open>jsc_realpath\<close>: over the arguments, and over the items of an argument that is an
  array. The state is the result array and the count.
\<close>

fun realpath_item :: "host \<Rightarrow> fsys \<Rightarrow> jsval \<Rightarrow> jsval list \<times> nat \<Rightarrow> jsval list \<times> nat" where
  "realpath_item H w (JString s) (array, c) =
     (case to_cstring s of
        None \<Rightarrow> (array, c)
      | Some cstr \<Rightarrow>
          (case real_path H (cwd w) cstr of
             None \<Rightarrow> (array, c)
           | Some path \<Rightarrow> (array @ [JString path], c + 1)))"
| "realpath_item H w v (array, c) = (array, c)"

fun realpath_arg :: "host \<Rightarrow> fsys \<Rightarrow> jsval \<Rightarrow> jsval list \<times> nat \<Rightarrow> jsval list \<times> nat" where
  "realpath_arg H w (JArray items) st = fold (realpath_item H w) items st"
| "realpath_arg H w v st = realpath_item H w v st"

definition jsc_realpath :: "host \<Rightarrow> jsval list \<Rightarrow> fsys \<Rightarrow> v7_err \<times> jsval" where
  "jsc_realpath H args w =
     (case fold (realpath_arg H w) args ([], 0) of (array, c) \<Rightarrow> (V7_OK, as_result array c))"

subsection \<open>Whole files\<close>

definition read_text_file :: "libc \<Rightarrow> host \<Rightarrow> u8 list \<Rightarrow> fsys \<Rightarrow> mem \<Rightarrow> ((ptr \<times> u64) \<times> fsys \<times> mem) option" where
  "read_text_file L H path w m =
     (case fopen H path [114, 98] w of
        (fp, w1) \<Rightarrow>
          if fp = 0 then Some ((Null, 0), w1, m)
          else
            (case fseek_end fp w1 of
               (ok, w2) \<Rightarrow>
                 if \<not> ok then Some ((Null, 0), fclose fp w2, m)
                 else
                   let size = ftell fp w2 in
                   do { (data, m1) \<leftarrow> plat_mem_allocate L (ucast (size + 1)) m;
                        if data = Null then Some ((Null, size), fclose fp w2, m1)
                        else
                          case fseek_set fp w2 of
                            (_, w3) \<Rightarrow>
                              (case fread size 1 fp w3 of
                                 (n, bs, w4) \<Rightarrow>
                                   do { m2 \<leftarrow> mem_store data bs m1;
                                        if n \<noteq> size
                                        then do { m3 \<leftarrow> plat_mem_release data m2; Some ((Null, size), w4, m3) }
                                        else
                                          do { m3 \<leftarrow> mem_store (ptr_add data (unat size)) [0] m2;
                                               Some ((data, size), fclose fp w4, m3) } }) }))"

type_synonym cat_state = "jsval list \<times> nat \<times> fsys \<times> mem"

fun cat_item :: "libc \<Rightarrow> host \<Rightarrow> jsval \<Rightarrow> cat_state \<Rightarrow> cat_state option" where
  "cat_item L H (JString s) (array, c, w, m) =
     (case to_cstring s of
        None \<Rightarrow> Some (array, c, w, m)
      | Some cstr \<Rightarrow>
          do { ((buff, file_size), w1, m1) \<leftarrow> read_text_file L H cstr w m;
               (if buff \<noteq> Null
                then do { bs \<leftarrow> mem_load buff (unat file_size) m1;
                          m2 \<leftarrow> plat_mem_release buff m1;
                          Some (array @ [JString bs], c + 1, w1, m2) }
                else Some (array, c + 1, w1, m1)) })"
| "cat_item L H v st = Some st"

fun cat_items :: "libc \<Rightarrow> host \<Rightarrow> jsval list \<Rightarrow> cat_state \<Rightarrow> cat_state option" where
  "cat_items L H [] st = Some st"
| "cat_items L H (v # vs) st = do { st1 \<leftarrow> cat_item L H v st; cat_items L H vs st1 }"

fun cat_args :: "libc \<Rightarrow> host \<Rightarrow> jsval list \<Rightarrow> cat_state \<Rightarrow> cat_state option" where
  "cat_args L H [] st = Some st"
| "cat_args L H (v # vs) st =
     do { st1 \<leftarrow> (case v of JArray items \<Rightarrow> cat_items L H items st | _ \<Rightarrow> cat_item L H v st);
          cat_args L H vs st1 }"

definition jsc_cat :: "libc \<Rightarrow> host \<Rightarrow> jsval list \<Rightarrow> fsys \<Rightarrow> mem \<Rightarrow> ((v7_err \<times> jsval) \<times> fsys \<times> mem) option" where
  "jsc_cat L H args w m =
     do { (array, c, w1, m1) \<leftarrow> cat_args L H args ([], 0, w, m);
          Some ((V7_OK, as_result array c), w1, m1) }"

definition jsc_echo :: "host \<Rightarrow> jsval list \<Rightarrow> fsys \<Rightarrow> (v7_err \<times> jsval) \<times> fsys" where
  "jsc_echo H args w =
     ((V7_OK, JUndefined),
      (case args of
         [JString s0, JString s1] \<Rightarrow>
           (case (to_cstring s0, to_cstring s1) of
              (Some cstr0, Some cstr1) \<Rightarrow>
                (case fopen H cstr1 [119, 98] w of
                   (fp, w1) \<Rightarrow> if fp \<noteq> 0 then fclose fp (fwrite cstr0 fp w1) else w1)
            | _ \<Rightarrow> w)
       | _ \<Rightarrow> w))"

subsection \<open>Open files\<close>

definition handle_size :: u64 where "handle_size = 16"

definition handle_bytes :: "handle_type \<Rightarrow> u64 \<Rightarrow> u8 list" where
  "handle_bytes t f = le_bytes 4 (unat (handle_code t)) @ [0, 0, 0, 0] @ le_bytes 8 (unat f)"

definition load_handle :: "ptr \<Rightarrow> mem \<Rightarrow> (u32 \<times> u64) option" where
  "load_handle p m =
     do { t \<leftarrow> mem_load p 4 m;
          f \<leftarrow> mem_load (ptr_add p 8) 8 m;
          Some (of_nat (le_val t), of_nat (le_val f)) }"

definition jsc_file_close :: "u32 \<Rightarrow> ptr \<Rightarrow> fsys \<Rightarrow> mem \<Rightarrow> (fsys \<times> mem) option" where
  "jsc_file_close rid resource w m =
     do { (t, f) \<leftarrow> load_handle resource m;
          (if t = handle_code hdl_typ_file then Some (fclose f w, m)
           else if t = handle_code hdl_typ_pfile then Some (pclose f w, m)
           else Some (w, m)) }"

type_synonym lib_state = "res_mgn \<times> fsys \<times> mem"

text \<open>
  \<open>jsc_fopen\<close> and \<open>jsc_popen\<close> differ in the type of the handle and the call that opens. A string
  with a NUL inside makes \<open>v7_to_cstring\<close> answer NULL, which \<open>fopen\<close> must not get.
\<close>

definition open_handle :: "libc \<Rightarrow> handle_type \<Rightarrow> (u8 list \<Rightarrow> u8 list \<Rightarrow> fsys \<Rightarrow> u64 \<times> fsys)
    \<Rightarrow> jsval list \<Rightarrow> lib_state \<Rightarrow> ((v7_err \<times> jsval) \<times> lib_state) option" where
  "open_handle L t opn args st =
     (case st of (g, w, m) \<Rightarrow>
        (case args of
           JString s0 # JString s1 # _ \<Rightarrow>
             do { filename \<leftarrow> to_cstring s0;
                  mode \<leftarrow> to_cstring s1;
                  (case opn filename mode w of
                     (f, w1) \<Rightarrow>
                       if f \<noteq> 0
                       then
                         do { (rid, g1, m1) \<leftarrow> res_create_and_clone L handle_size (handle_bytes t f) g m;
                              Some (if 0 \<le> sint rid then (V7_OK, JNumber (Num (of_int (sint rid))))
                                    else (V7_OK, JUndefined), g1, w1, m1) }
                       else Some ((V7_OK, JUndefined), g, w1, m)) }
         | _ \<Rightarrow> Some ((V7_OK, JUndefined), g, w, m)))"

definition jsc_fopen :: "libc \<Rightarrow> host \<Rightarrow> jsval list \<Rightarrow> lib_state \<Rightarrow> ((v7_err \<times> jsval) \<times> lib_state) option" where
  "jsc_fopen L H args st = open_handle L hdl_typ_file (fopen H) args st"

definition jsc_popen :: "libc \<Rightarrow> host \<Rightarrow> jsval list \<Rightarrow> lib_state \<Rightarrow> ((v7_err \<times> jsval) \<times> lib_state) option" where
  "jsc_popen L H args st = open_handle L hdl_typ_pfile (popen H) args st"

text \<open>
  The four commands on a number: \<open>use\<close> is what each does with the number and the resource, which
  exists, and the result is undefined in every case.
\<close>

definition with_handle :: "(u32 \<Rightarrow> ptr \<Rightarrow> lib_state \<Rightarrow> lib_state option) \<Rightarrow> jsval list \<Rightarrow> lib_state
    \<Rightarrow> ((v7_err \<times> jsval) \<times> lib_state) option" where
  "with_handle use args st =
     (case st of (g, w, m) \<Rightarrow>
        do { st1 \<leftarrow>
               (case args of
                  JNumber x # _ \<Rightarrow>
                    do { rid \<leftarrow> c_int x;
                         if 0 \<le> sint rid
                         then do { (resource, g1) \<leftarrow> res_get rid g;
                                   if resource \<noteq> Null then use rid resource (g1, w, m)
                                   else Some (g1, w, m) }
                         else Some st }
                | _ \<Rightarrow> Some st);
             Some ((V7_OK, JUndefined), st1) })"

definition jsc_fclose :: "jsval list \<Rightarrow> lib_state \<Rightarrow> ((v7_err \<times> jsval) \<times> lib_state) option" where
  "jsc_fclose =
     with_handle (\<lambda>rid resource (g, w, m).
       do { (w1, m1) \<leftarrow> jsc_file_close rid resource w m;
            (g2, m2) \<leftarrow> res_release rid g m1;
            Some (g2, w1, m2) })"

definition jsc_pclose :: "jsval list \<Rightarrow> lib_state \<Rightarrow> ((v7_err \<times> jsval) \<times> lib_state) option" where
  "jsc_pclose =
     with_handle (\<lambda>rid resource (g, w, m).
       do { (w1, m1) \<leftarrow> jsc_file_close rid resource w m;
            (g2, m2) \<leftarrow> res_release rid g m1;
            Some (g2, w1, m2) })"

text \<open>
  \<open>jsc_readline\<close> builds a string of the line, or null, and then falls through to the assignment of
  undefined.
\<close>

definition jsc_readline :: "jsval list \<Rightarrow> lib_state \<Rightarrow> ((v7_err \<times> jsval) \<times> lib_state) option" where
  "jsc_readline =
     with_handle (\<lambda>rid resource (g, w, m).
       do { (t, f) \<leftarrow> load_handle resource m;
            (case getline f w of
               (Some line, w1) \<Rightarrow> let result = JString line in Some (g, w1, m)
             | (None, w1) \<Rightarrow> let result = JNull in Some (g, w1, m)) })"

text \<open>
  \<open>v7_stringify\<close> converts an object by its \<open>toString()\<close>, JavaScript code that can call any command: the conversion
  is a parameter that changes the whole state of the library. It answers nothing when the code throws, and then
  the text is empty.
\<close>

type_synonym to_string = "jsval \<Rightarrow> lib_state \<Rightarrow> (u8 list option \<times> lib_state) option"

definition v7_stringify :: "to_string \<Rightarrow> jsval \<Rightarrow> lib_state \<Rightarrow> (u8 list \<times> lib_state) option" where
  "v7_stringify str v st =
     do { (r, st1) \<leftarrow> str v st;
          Some (case r of None \<Rightarrow> [] | Some s \<Rightarrow> s, st1) }"

text \<open>The loop of \<open>jsc_writestring\<close>: \<open>hdl->file\<close> is read again for every argument.\<close>

fun writestring_loop :: "to_string \<Rightarrow> ptr \<Rightarrow> jsval list \<Rightarrow> lib_state \<Rightarrow> lib_state option" where
  "writestring_loop str hdl [] st = Some st"
| "writestring_loop str hdl (v # vs) st =
     do { (p, g, w, m) \<leftarrow> v7_stringify str v st;
          (t, f) \<leftarrow> load_handle hdl m;
          writestring_loop str hdl vs (g, fwrite (c_string p) f w, m) }"

definition jsc_writestring :: "to_string \<Rightarrow> jsval list \<Rightarrow> lib_state \<Rightarrow> ((v7_err \<times> jsval) \<times> lib_state) option" where
  "jsc_writestring str args = with_handle (\<lambda>rid hdl st. writestring_loop str hdl (tl args) st) args"

definition jsc_install_file_lib :: "libc \<Rightarrow> fsys \<Rightarrow> mem \<Rightarrow> lib_state option" where
  "jsc_install_file_lib L w m = do { (g, m1) \<leftarrow> res_create_management L m; Some (g, w, m1) }"

definition jsc_uninstall_file_lib :: "lib_state \<Rightarrow> lib_state option" where
  "jsc_uninstall_file_lib st = (case st of (g, w, m) \<Rightarrow> res_release_all jsc_file_close g w m)"

subsection \<open>Commands and servers\<close>

text \<open>
  \<open>jsc_exec\<close> turns its first argument to a string, which it frees, and runs nothing. It passes no buffer, so when
  \<open>toString()\<close> throws, \<open>v7_stringify\<close> writes to NULL.
\<close>

definition jsc_exec :: "to_string \<Rightarrow> jsval list \<Rightarrow> lib_state \<Rightarrow> ((v7_err \<times> jsval) \<times> lib_state) option" where
  "jsc_exec str args st =
     (case args of
        [] \<Rightarrow> Some ((V7_INVALID_ARG, JUndefined), st)
      | v # _ \<Rightarrow>
          do { (r, st1) \<leftarrow> str v st;
               (case r of None \<Rightarrow> None | Some path \<Rightarrow> Some ((V7_INVALID_ARG, JUndefined), st1)) })"

end
