(* ===== verification/FileLibCorrect.thy ===== *)
theory FileLibCorrect
  imports FileLib
begin

text \<open>
  Correctness of the file commands: every number the script holds names one open stream of the
  right kind (\<open>lib_ok\<close>), opening and closing keep that, \<open>jsc_uninstall_file_lib\<close> closes every stream
  and frees every block, nothing is closed twice; what \<open>echo\<close>, \<open>cat\<close>, \<open>readline\<close> and
  \<open>writestring\<close> do to files; and what \<open>_read_text_file\<close> reads.
\<close>

subsection \<open>Handles in memory\<close>

definition handle_of :: "u8 list \<Rightarrow> u32 \<times> u64" where
  "handle_of bs = (of_nat (le_val (take 4 bs)), of_nat (le_val (take 8 (drop 8 bs))))"

lemma of_nat_le_val_u32: "of_nat (le_val (le_bytes 4 (unat (w :: u32)))) = w"
proof -
  have "unat w < 256 ^ 4" using unsigned_less [of w, where ?'a = nat] by simp
  then show ?thesis by (simp add: le_val_le_bytes)
qed

lemma length_handle_bytes [simp]: "length (handle_bytes t f) = 16"
  by (simp add: handle_bytes_def)

lemma handle_of_bytes [simp]: "handle_of (handle_bytes t f) = (handle_code t, f)"
  by (simp add: handle_of_def handle_bytes_def of_nat_le_val_u32 of_nat_le_val_u64
      flip: numeral_eq_Suc)

lemma handle_code_inj: "handle_code s = handle_code t \<longleftrightarrow> s = t"
  by (cases s; cases t) simp_all

lemma load_handle_block:
  assumes "blocks m a = Some blk" "drop res_hdr blk = handle_bytes t f"
  shows "load_handle (Ptr a res_hdr) m = Some (handle_code t, f)"
proof -
  have len: "length blk = 80"
    using arg_cong [OF assms(2), of length] by (simp add: res_hdr_def)
  have "take 4 (drop 64 blk) = le_bytes 4 (unat (handle_code t))"
    using assms(2) by (simp add: res_hdr_def handle_bytes_def)
  moreover have "drop 8 (drop 64 blk) = le_bytes 8 (unat f)"
    unfolding assms(2) [unfolded res_hdr_def] by (simp add: handle_bytes_def)
  then have "take 8 (drop 72 blk) = le_bytes 8 (unat f)" by simp
  ultimately show ?thesis
    using assms(1) len by (simp add: load_handle_def res_hdr_def of_nat_le_val_u32 of_nat_le_val_u64)
qed

subsection \<open>The invariant of the library\<close>

definition handle_ok :: "fsys \<Rightarrow> u8 list \<Rightarrow> bool" where
  "handle_ok w bs \<longleftrightarrow>
     (\<exists>t f st. bs = handle_bytes t f \<and> t \<in> {hdl_typ_file, hdl_typ_pfile} \<and>
        streams w f = Some st \<and> (spipe st \<longleftrightarrow> t = hdl_typ_pfile))"

definition lib_files :: "res_mgn \<Rightarrow> mem \<Rightarrow> u64 list" where
  "lib_files g m = map (\<lambda>(i, bs). snd (handle_of bs)) (res_table g m)"

definition lib_ok :: "lib_state \<Rightarrow> bool" where
  "lib_ok st \<longleftrightarrow>
     (case st of (g, w, m) \<Rightarrow>
        res_ok g m \<and> misused w = [] \<and> distinct (lib_files g m) \<and>
        (\<forall>x \<in> set (res_table g m). handle_ok w (snd x)))"

lemma install_ok:
  assumes "misused w = []" "jsc_install_file_lib L w m = Some st"
  shows "lib_ok st" "\<exists>g m1. st = (g, w, m1) \<and> res_table g m1 = []"
proof -
  obtain g m1 where g: "res_create_management L m = Some (g, m1)" "st = (g, w, m1)"
    using assms(2) by (auto simp: jsc_install_file_lib_def elim!: bind_SomeE)
  have "res_ok g m1 \<and> res_table g m1 = []"
    using g(1)
    by (cases rule: plat_mem_allocate_cases [of L res_mgn_size m])
       (auto simp: res_create_management_def res_ok_def res_inv_def hash_ok_def hash_entries_def
          hash_iter_def res_table_def)
  with assms(1) g(2) show "lib_ok st" "\<exists>g m1. st = (g, w, m1) \<and> res_table g m1 = []"
    by (auto simp: lib_ok_def lib_files_def)
qed

subsection \<open>Creation with contents\<close>

lemma res_create_and_clone_spec:
  assumes ok: "res_ok g m" and room: "hash_room (rhead g)" and few: "length (res_ids g) < 2 ^ 32"
    and sz: "unat sz < 2 ^ 32 - 64" and mal: "malloc_succeeds L (64 + unat sz) m"
    and src: "length src = unat sz"
  obtains i g' m' where "res_create_and_clone L sz src g m = Some (i, g', m')" "res_ok g' m'"
    "i \<notin> set (res_ids g)"
    "res_table g' m' = res_table g m @ [(i, if 0 \<le> sint i then src else replicate (unat sz) 0)]"
proof -
  obtain i a g1 m1 where c: "res_create L sz g m = Some (i, Ptr a res_hdr, g1, m1)"
    "res_ok g1 m1" "i \<notin> set (res_ids g)" "blocks m a = None"
    "res_table g1 m1 = res_table g m @ [(i, replicate (unat sz) 0)]"
    "blocks m1 = (blocks m)(a \<mapsto> replicate (64 + unat sz) 0)"
    "hash_find (rhead g1) (int_key i) = Some a"
    by (rule res_create_spec [OF ok room few sz mal])
  show thesis
  proof (cases "0 \<le> sint i")
    case False
    with c show thesis by (intro that [of i g1 m1]) (simp_all add: res_create_and_clone_def)
  next
    case True
    have small: "unat (ucast sz :: u32) = unat sz"
      using sz by (simp add: unsigned_ucast_eq take_bit_eq_mod)
    let ?m = "m1\<lparr>blocks := (blocks m1)(a \<mapsto> replicate 64 0 @ src)\<rparr>"
    have store: "mem_store (Ptr a res_hdr) src m1 = Some ?m"
      using c(6) src by (simp add: res_hdr_def)
    have inv: "res_inv g1 m1" using c(2) by (simp add: res_ok_def)
    have a: "a \<in> set (hash_iter (rhead g1))" "rids g1 a = Some i"
      using c(7) res_find_some [OF inv] by auto
    have len: "map_option length (blocks ?m x) = map_option length (blocks m1 x)" for x
      using c(6) src by simp
    have ok': "res_ok g1 ?m"
      using len by (intro res_ok_blocks [OF c(2)]) auto
    have table: "res_table g1 ?m = map (\<lambda>(j, bs). (j, if j = i then src else bs)) (res_table g1 m1)"
    proof -
      have "(the (rids g1 x) = i) = (x = a)" if "x \<in> set (hash_iter (rhead g1))" for x
        using that a res_find_some [OF inv, of i x] res_find_some [OF inv, of i a] rids_known [OF inv that]
        by auto
      then show ?thesis using a(2) by (auto simp: res_table_def res_hdr_def)
    qed
    have "j \<noteq> i" if "(j, bs) \<in> set (res_table g m)" for j bs
      using that c(3) by (force simp flip: res_table_ids [of g m])
    then have "map (\<lambda>(j, bs). (j, if j = i then src else bs)) (res_table g m) = res_table g m"
      by (intro map_idI) auto
    with table c(5) True have "res_table g1 ?m = res_table g m @ [(i, src)]" by simp
    moreover have "res_create_and_clone L sz src g m = Some (i, g1, ?m)"
      using c(1) True store src small by (simp add: res_create_and_clone_def)
    ultimately show thesis using that [of i g1 ?m] ok' c(3) True by simp
  qed
qed

subsection \<open>Opening\<close>

text \<open>What \<open>fopen\<close> and \<open>popen\<close> have in common: they answer 0, or a new stream of their kind.\<close>

definition opens_new :: "bool \<Rightarrow> (fsys \<Rightarrow> u64 \<times> fsys) \<Rightarrow> bool" where
  "opens_new pipe opn \<longleftrightarrow>
     (\<forall>w f w1. opn w = (f, w1) \<longrightarrow> misused w1 = misused w \<and>
        (if f = 0 then streams w1 = streams w
         else streams w f = None \<and> (\<exists>st. streams w1 = (streams w)(f \<mapsto> st) \<and> spipe st = pipe)))"

lemma fopen_opens_new: "opens_new False (fopen H path mode)"
  by (auto simp: opens_new_def fopen_def open_stream_def Let_def split: option.splits if_splits prod.splits)

lemma popen_opens_new: "opens_new True (popen H cmd type)"
  by (auto simp: opens_new_def popen_def open_stream_def Let_def split: option.splits if_splits prod.splits)

lemma handle_ok_keep:
  assumes "handle_ok w bs" "streams w' (snd (handle_of bs)) = streams w (snd (handle_of bs))"
  shows "handle_ok w' bs"
proof -
  obtain t f st where "bs = handle_bytes t f" "t \<in> {hdl_typ_file, hdl_typ_pfile}"
      "streams w f = Some st" "spipe st \<longleftrightarrow> t = hdl_typ_pfile"
    using assms(1) unfolding handle_ok_def by blast
  moreover from this assms(2) have "streams w' f = Some st" by simp
  ultimately show ?thesis unfolding handle_ok_def by blast
qed

lemma handle_ok_open: "handle_ok w bs \<Longrightarrow> streams w (snd (handle_of bs)) \<noteq> None"
  by (auto simp: handle_ok_def)

lemma handle_ok_more:
  assumes "handle_ok w bs" "streams w f = None"
  shows "handle_ok (w1\<lparr>streams := (streams w)(f \<mapsto> st)\<rparr>) bs"
  by (rule handle_ok_keep [OF assms(1)]) (use handle_ok_open [OF assms(1)] assms(2) in auto)

lemma handle_ok_streams: "handle_ok w bs \<Longrightarrow> streams w1 = streams w \<Longrightarrow> handle_ok w1 bs"
  by (simp add: handle_ok_def)

lemma lib_files_open:
  assumes "\<forall>x \<in> set (res_table g m). handle_ok w (snd x)" "f \<in> set (lib_files g m)"
  shows "streams w f \<noteq> None"
  using assms by (force simp: lib_files_def handle_ok_def)

lemma open_handle_spec:
  assumes ok: "lib_ok (g, w, m)" and room: "hash_room (rhead g)" and few: "length (res_ids g) < 2 ^ 32"
    and mal: "malloc_succeeds L 80 m" and t: "t \<in> {hdl_typ_file, hdl_typ_pfile}"
    and cs: "to_cstring s0 = Some a" "to_cstring s1 = Some b"
    and opn: "opens_new (t = hdl_typ_pfile) (opn a b)"
  obtains f g1 w1 m1 i where "opn a b w = (f, w1)"
    "open_handle L t opn (JString s0 # JString s1 # rest) (g, w, m) =
       Some ((V7_OK, if f \<noteq> 0 \<and> 0 \<le> sint i then JNumber (Num (of_int (sint i))) else JUndefined), g1, w1, m1)"
    "f = 0 \<Longrightarrow> g1 = g \<and> m1 = m \<and> lib_ok (g1, w1, m1)"
    "f \<noteq> 0 \<Longrightarrow> 0 \<le> sint i \<Longrightarrow> i \<notin> set (res_ids g) \<and> lib_ok (g1, w1, m1) \<and>
       res_table g1 m1 = res_table g m @ [(i, handle_bytes t f)]"
    "f \<noteq> 0 \<Longrightarrow> i \<in> set (res_ids g1)"
proof -
  obtain f w1 where f: "opn a b w = (f, w1)" by fastforce
  have w1: "misused w1 = []" using ok opn f by (auto simp: opens_new_def lib_ok_def)
  have rok: "res_ok g m" using ok by (simp add: lib_ok_def)
  have all: "\<forall>x \<in> set (res_table g m). handle_ok w (snd x)" using ok by (simp add: lib_ok_def)
  show thesis
  proof (cases "f = 0")
    case True
    have "streams w1 = streams w" using opn f True by (simp add: opens_new_def)
    then have "lib_ok (g, w1, m)"
      using ok w1 handle_ok_streams by (auto simp: lib_ok_def)
    then show thesis using f True cs by (intro that [of f w1 0 g m]) (simp_all add: open_handle_def)
  next
    case False
    obtain st where st: "streams w1 = (streams w)(f \<mapsto> st)" "spipe st = (t = hdl_typ_pfile)" "streams w f = None"
      using opn [unfolded opens_new_def, rule_format, OF f] False by auto
    have sz: "unat handle_size < 2 ^ 32 - 64" "unat handle_size = 16"
      by (simp_all add: handle_size_def)
    obtain i g1 m1 where c: "res_create_and_clone L handle_size (handle_bytes t f) g m = Some (i, g1, m1)"
      "res_ok g1 m1" "i \<notin> set (res_ids g)"
      "res_table g1 m1 = res_table g m @ [(i, if 0 \<le> sint i then handle_bytes t f else replicate (unat handle_size) 0)]"
      by (rule res_create_and_clone_spec [OF rok room few sz(1), of L "handle_bytes t f"]) (use mal sz in simp_all)
    have res: "open_handle L t opn (JString s0 # JString s1 # rest) (g, w, m) =
        Some ((V7_OK, if f \<noteq> 0 \<and> 0 \<le> sint i then JNumber (Num (of_int (sint i))) else JUndefined), g1, w1, m1)"
      using f False cs c(1) by (simp add: open_handle_def)
    have "lib_ok (g1, w1, m1)" if i: "0 \<le> sint i"
    proof -
      have "handle_ok w1 bs" if "handle_ok w bs" for bs
        by (rule handle_ok_keep [OF that]) (use handle_ok_open [OF that] st(1,3) in auto)
      moreover have "handle_ok w1 (handle_bytes t f)"
        using st t by (auto simp: handle_ok_def)
      moreover have "f \<notin> set (lib_files g m)"
        using lib_files_open [OF all, of f] st(3) by auto
      ultimately show ?thesis
        using c i ok w1 by (auto simp: lib_ok_def lib_files_def)
    qed
    moreover have "i \<in> set (res_ids g1)"
      using c(4) by (simp flip: res_table_ids [of g1 m1])
    ultimately show thesis using f res c False by (intro that [of f w1 i g1 m1]) auto
  qed
qed

subsection \<open>Closing\<close>

definition close_effect :: "u8 list \<Rightarrow> fsys \<Rightarrow> fsys" where
  "close_effect bs w = (case handle_of bs of (t, f) \<Rightarrow>
     if t = handle_code hdl_typ_file then fclose f w
     else if t = handle_code hdl_typ_pfile then pclose f w else w)"

definition is_handle :: "u32 \<Rightarrow> u8 list \<Rightarrow> bool" where
  "is_handle i bs \<longleftrightarrow> (\<exists>t f. bs = handle_bytes t f)"

lemma file_close_reads: "reads_only is_handle jsc_file_close (\<lambda>i bs w. close_effect bs w)"
  unfolding reads_only_def
proof (intro allI impI)
  fix i :: u32 and a :: addr and w :: fsys and m :: mem and blk
  assume blk: "blocks m a = Some blk" "is_handle i (drop res_hdr blk)"
  then obtain t f where tf: "drop res_hdr blk = handle_bytes t f" by (auto simp: is_handle_def)
  show "jsc_file_close i (Ptr a res_hdr) w m = Some (close_effect (drop res_hdr blk) w, m)"
    using load_handle_block [OF blk(1) tf] by (simp add: jsc_file_close_def close_effect_def tf)
qed

lemma close_effect_ok:
  assumes "handle_ok w bs"
  shows "close_effect bs w = w\<lparr>streams := (streams w)(snd (handle_of bs) := None)\<rparr>"
  using assms
  by (auto simp: handle_ok_def close_effect_def fclose_def pclose_def close_stream_def handle_code_inj)

lemma close_all:
  assumes "\<forall>x \<in> set xs. handle_ok w (snd x)" "distinct (map (\<lambda>(i, bs). snd (handle_of bs)) xs)"
  shows "foldl (\<lambda>w (i, bs). close_effect bs w) w xs =
     w\<lparr>streams := (\<lambda>f. if f \<in> set (map (\<lambda>(i, bs). snd (handle_of bs)) xs) then None else streams w f)\<rparr>"
  using assms
proof (induction xs arbitrary: w)
  case (Cons x xs)
  obtain i bs where x: "x = (i, bs)" by fastforce
  let ?w = "w\<lparr>streams := (streams w)(snd (handle_of bs) := None)\<rparr>"
  have "close_effect bs w = ?w" using Cons.prems(1) x by (intro close_effect_ok) simp
  moreover have "handle_ok ?w (snd y)" if "y \<in> set xs" for y
  proof (rule handle_ok_keep [of w])
    show "handle_ok w (snd y)" using Cons.prems(1) that by simp
    have "snd (handle_of (snd y)) \<noteq> snd (handle_of bs)"
      using Cons.prems(2) that x by (force simp: case_prod_unfold)
    then show "streams ?w (snd (handle_of (snd y))) = streams w (snd (handle_of (snd y)))" by simp
  qed
  moreover have "(\<lambda>f. if f \<in> set (map (\<lambda>(i, bs). snd (handle_of bs)) xs) then None else streams ?w f)
      = (\<lambda>f. if f \<in> set (map (\<lambda>(i, bs). snd (handle_of bs)) (x # xs)) then None else streams w f)"
    by (auto simp: x fun_eq_iff)
  ultimately show ?case
    using Cons.IH [of ?w] Cons.prems(2) x by simp
qed simp

lemma uninstall_spec:
  assumes ok: "lib_ok (g, w, m)"
  obtains g' where "jsc_uninstall_file_lib (g, w, m) =
      Some (g', w\<lparr>streams := (\<lambda>f. if f \<in> set (lib_files g m) then None else streams w f)\<rparr>,
            remove_blocks (set (hash_iter (rhead g))) m)"
    "hash_iter (rhead g') = []"
proof -
  have rok: "res_ok g m" and hd: "\<forall>x \<in> set (res_table g m). handle_ok w (snd x)"
    using ok by (simp_all add: lib_ok_def)
  then have Q: "\<forall>x \<in> set (res_table g m). is_handle (fst x) (snd x)"
    by (force simp: is_handle_def handle_ok_def)
  obtain g' where "res_release_all jsc_file_close g w m =
      Some (g', foldl (\<lambda>w (i, bs). close_effect bs w) w (res_table g m), remove_blocks (set (hash_iter (rhead g))) m)"
    "hash_iter (rhead g') = []" "self g' = self g"
    "res_ok g' (remove_blocks (set (hash_iter (rhead g))) m)"
    by (rule res_release_all_spec [OF rok Q file_close_reads])
  then show thesis
    using that close_all [OF hd] ok by (simp add: jsc_uninstall_file_lib_def lib_ok_def lib_files_def)
qed

definition fclose_use :: "u32 \<Rightarrow> ptr \<Rightarrow> lib_state \<Rightarrow> lib_state option" where
  "fclose_use = (\<lambda>rid resource (g, w, m).
     do { (w1, m1) \<leftarrow> jsc_file_close rid resource w m;
          (g2, m2) \<leftarrow> res_release rid g m1;
          Some (g2, w1, m2) })"

lemma c_int_sint: "c_int (Num (of_int (sint (i :: u32)))) = Some i"
proof -
  have "- (2 ^ 31) \<le> sint i" "sint i < 2 ^ 31"
    using sint_greater_eq [of i] sint_less [of i] by simp_all
  moreover have "word_of_int (sint i) = i" by simp
  ultimately show ?thesis
    unfolding c_int_def Let_def jsnum.case floor_of_int ceiling_of_int if_cancel
    by (simp del: of_int_sint)
qed

lemma c_int_signed [simp]: "c_int (Num (signed (i :: u32))) = Some i"
  using c_int_sint [of i] by simp

text \<open>Closing the number \<open>i\<close>: its stream is closed, its entry and its block are gone.\<close>

lemma close_spec:
  assumes ok: "lib_ok (g, w, m)" and i: "0 \<le> sint i" "map_of (res_table g m) i = Some (handle_bytes t f)"
  obtains g' m' where "with_handle fclose_use (JNumber (Num (of_int (sint i))) # rest) (g, w, m) =
      Some ((V7_OK, JUndefined), g', w\<lparr>streams := (streams w)(f := None)\<rparr>, m')"
    "lib_ok (g', w\<lparr>streams := (streams w)(f := None)\<rparr>, m')"
    "res_table g' m' = filter (\<lambda>x. fst x \<noteq> i) (res_table g m)" "\<forall>a. rids g a = Some i \<longrightarrow> blocks m' a = None"
proof -
  let ?w = "w\<lparr>streams := (streams w)(f := None)\<rparr>"
  have rok: "res_ok g m" and mis: "misused w = []" and dist: "distinct (lib_files g m)"
    and hd: "\<forall>x \<in> set (res_table g m). handle_ok w (snd x)"
    using ok by (simp_all add: lib_ok_def)
  have mem: "(i, handle_bytes t f) \<in> set (res_table g m)" using i(2) by (rule map_of_SomeD)
  then have h: "handle_ok w (handle_bytes t f)" using hd by force
  obtain a where a: "a \<in> set (hash_iter (rhead g))" "rids g a = Some i"
    "res_get i g = Some (Ptr a res_hdr, g)"
    "mem_load (Ptr a res_hdr) (length (handle_bytes t f)) m = Some (handle_bytes t f)"
    by (rule res_get_load [OF rok i(2)])
  obtain blk where blk: "blocks m a = Some blk" "res_hdr \<le> length blk"
    using rok a(1) by (auto simp: res_ok_def res_inv_def)
  have "(i, drop res_hdr blk) \<in> set (res_table g m)"
    using a(1,2) blk by (force simp: res_table_def)
  moreover have "distinct (map fst (res_table g m))"
    using res_ids_distinct [of g m] rok by (simp add: res_table_ids res_ok_def)
  ultimately have data: "drop res_hdr blk = handle_bytes t f"
    using mem by (rule_tac distinct_fst_unique)
  have cl: "jsc_file_close i (Ptr a res_hdr) w m = Some (?w, m)"
    using file_close_reads [unfolded reads_only_def, rule_format, OF blk(1), of i w]
      close_effect_ok [OF h] data by (auto simp: is_handle_def)
  obtain g' m' where rel: "res_release i g m = Some (g', m')" "res_ok g' m'"
    "res_table g' m' = filter (\<lambda>x. fst x \<noteq> i) (res_table g m)"
    "blocks m' = (\<lambda>x. if x \<in> set (hash_iter (rhead g)) \<and> rids g x = Some i then None else blocks m x)"
    "hash_iter (rhead g') = filter (\<lambda>x. rids g x \<noteq> Some i) (hash_iter (rhead g))"
    "rids g' = (\<lambda>x. if x \<in> set (hash_iter (rhead g)) \<and> rids g x = Some i then None else rids g x)"
    "self g' = self g"
    by (rule res_release_spec [OF rok])
  have res: "with_handle fclose_use (JNumber (Num (of_int (sint i))) # rest) (g, w, m) =
      Some ((V7_OK, JUndefined), g', ?w, m')"
    using i(1) a(3) cl rel(1) by (simp add: with_handle_def fclose_use_def)
  have "handle_ok ?w (snd x)" if x: "x \<in> set (res_table g m)" "fst x \<noteq> i" for x
  proof -
    have "snd (handle_of (snd x)) \<noteq> f"
    proof
      assume eq: "snd (handle_of (snd x)) = f"
      have "inj_on (\<lambda>(i, bs). snd (handle_of bs)) (set (res_table g m))"
        using dist by (simp add: lib_files_def distinct_map)
      then have "x = (i, handle_bytes t f)"
        by (rule inj_onD) (use eq x(1) mem in \<open>simp_all add: case_prod_unfold\<close>)
      with x(2) show False by simp
    qed
    with hd x(1) show ?thesis by (intro handle_ok_keep [of w "snd x" ?w]) auto
  qed
  moreover have "distinct (lib_files g' m')"
    using dist by (simp add: lib_files_def rel(3) distinct_map_filter)
  ultimately have "lib_ok (g', ?w, m')"
    using rel(2) mis by (simp add: lib_ok_def rel(3))
  moreover have "blocks m' x = None" if "rids g x = Some i" for x
    using that rel(4) rok by (auto simp: res_ok_def res_inv_def dom_def)
  ultimately show thesis using res rel(3) by (intro that) auto
qed

lemma fclose_eq: "jsc_fclose = with_handle fclose_use" "jsc_pclose = with_handle fclose_use"
  by (simp_all add: jsc_fclose_def jsc_pclose_def fclose_use_def)

text \<open>A number that is not open: nothing happens.\<close>

lemma with_handle_unknown:
  assumes ok: "lib_ok (g, w, m)" and i: "i \<notin> set (res_ids g)"
  shows "with_handle use (JNumber (Num (of_int (sint i))) # rest) (g, w, m) =
     Some ((V7_OK, JUndefined), g, w, m)"
  using res_get_unknown [OF _ i, of m] ok by (simp add: with_handle_def lib_ok_def)

subsection \<open>Reading and writing\<close>

definition can_open :: "host \<Rightarrow> fsys \<Rightarrow> bool" where
  "can_open H w \<longleftrightarrow> new_file H (opens w) \<noteq> 0 \<and> streams w (new_file H (opens w)) = None"

lemma jsc_echo_spec:
  assumes cs: "to_cstring s0 = Some a" "to_cstring s1 = Some b" and p: "absolute H (cwd w) b = p"
    and ok: "\<not> is_dir H p" "can_write H p" "can_open H w"
  shows "jsc_echo H [JString s0, JString s1] w =
     ((V7_OK, JUndefined), w\<lparr>files := (files w)(p \<mapsto> a), opens := Suc (opens w)\<rparr>)"
  using assms
  by (simp add: jsc_echo_def fopen_def open_stream_def Let_def can_open_def fwrite_def stream_data_def
      write_at_def fclose_def close_stream_def fun_upd_idem)

lemma opened_read:
  assumes "absolute H (cwd w) b = p" "files w p = Some bs" "\<not> is_dir H p" "can_open H w"
  shows "fopen H b [114, 98] w = (new_file H (opens w), w\<lparr>opens := Suc (opens w),
     streams := (streams w)(new_file H (opens w) \<mapsto> \<lparr>spath = p, spipe = False, sout = [], spos = 0,
        sread = True, swrite = False, sappend = False\<rparr>)\<rparr>)"
  using assms by (simp add: fopen_def open_stream_def Let_def can_open_def)

text \<open>
  \<open>_read_text_file\<close> compares the number of items that \<open>fread(data, *size, 1, fp)\<close> read, 0 or 1,
  with the size in bytes: files of one byte or none are read; for every other size the answer is NULL,
  and the stream stays open.
\<close>

lemma read_text_file_spec:
  assumes p: "absolute H (cwd w) b = p" "files w p = Some bs" "\<not> is_dir H p" "can_open H w"
    and len: "length bs + 1 < 2 ^ 32" and mal: "malloc_succeeds L (length bs + 1) m"
  defines "f \<equiv> new_file H (opens w)" and "a \<equiv> pick L (tick m) (length bs + 1)"
  obtains w' m' where
    "read_text_file L H b w m = Some ((if length bs \<le> 1 then Ptr a 0 else Null, of_nat (length bs)), w', m')"
    "if length bs \<le> 1
     then streams w' = streams w \<and> blocks m' = (blocks m)(a \<mapsto> bs @ [0])
     else streams w' f \<noteq> None \<and> blocks m' = blocks m"
    "files w' = files w" "misused w' = misused w" "cwd w' = cwd w"
proof -
  let ?st = "\<lparr>spath = p, spipe = False, sout = [], spos = 0, sread = True, swrite = False, sappend = False\<rparr>"
  let ?w = "w\<lparr>opens := Suc (opens w), streams := (streams w)(f \<mapsto> ?st)\<rparr>"
  let ?n = "of_nat (length bs) :: u64"
  have f: "f \<noteq> 0" "streams w f = None" using p(4) by (simp_all add: can_open_def f_def)
  have open1: "fopen H b [114, 98] w = (f, ?w)"
    using opened_read [OF p] by (simp add: f_def)
  have n: "unat ?n = length bs" "unat (ucast (?n + 1) :: u32) = length bs + 1"
    using len by (simp_all add: unat_of_nat unsigned_ucast_eq take_bit_eq_mod unat_word_ariths)
  have a: "a \<noteq> 0" "blocks m a = None" using mal by (simp_all add: malloc_succeeds_def a_def)
  let ?m1 = "\<lparr>blocks = (blocks m)(a \<mapsto> replicate (length bs + 1) 0), tick = Suc (tick m)\<rparr>"
  have alloc: "plat_mem_allocate L (ucast (?n + 1)) m = Some (Ptr a 0, ?m1)"
    using plat_mem_allocate_succeeds [of L "ucast (?n + 1)" m] mal unfolding n(2) a_def by simp
  let ?w4 = "?w\<lparr>streams := (streams w)(f \<mapsto> ?st\<lparr>spos := length bs\<rparr>)\<rparr>"
  have seek: "fseek_end f ?w = (True, ?w4)" "fseek_set f ?w4 = (True, ?w)" "ftell f ?w4 = ?n"
    using p(2) by (simp_all add: fseek_end_def fseek_set_def can_seek_def seek_to_def stream_data_def ftell_def)
  have rd: "fread ?n 1 f ?w = (if bs = [] then 0 else 1, bs, ?w4)"
    using p(2) n(1) by (auto simp: fread_def seek_to_def stream_data_def Let_def)
  let ?m2 = "?m1\<lparr>blocks := (blocks m)(a \<mapsto> bs @ [0])\<rparr>"
  have st: "mem_store (Ptr a 0) bs ?m1 = Some ?m2"
    by (simp flip: replicate_append_same)
  have eq: "(if bs = [] then 0 else 1) = ?n \<longleftrightarrow> length bs \<le> 1"
    using n(1) by (cases bs) (auto simp: word_unat_eq_iff)
  show thesis
  proof (cases "length bs \<le> 1")
    case True
    have "mem_store (Ptr a (length bs)) [0] ?m2 = Some ?m2" by simp
    then have "read_text_file L H b w m = Some ((Ptr a 0, ?n), fclose f ?w4, ?m2)"
      using open1 seek alloc rd st eq True n(1) f(1) by (simp add: read_text_file_def Let_def)
    with True f show thesis
      by (intro that [of "fclose f ?w4" ?m2]) (auto simp: fclose_def close_stream_def fun_upd_idem)
  next
    case False
    have "blocks ?m2 a = Some (bs @ [0])" by simp
    from free_ok [OF this] have "read_text_file L H b w m = Some ((Null, ?n), ?w4, ?m2\<lparr>blocks := blocks m\<rparr>)"
      using open1 seek alloc rd st eq False f(1) a(2) by (simp add: read_text_file_def Let_def fun_upd_idem)
    with False show thesis by (intro that [of ?w4 "?m2\<lparr>blocks := blocks m\<rparr>"]) auto
  qed
qed

lemma jsc_cat_spec:
  assumes cs: "to_cstring s = Some b"
    and p: "absolute H (cwd w) b = p" "files w p = Some bs" "\<not> is_dir H p" "can_open H w"
    and len: "length bs + 1 < 2 ^ 32" and mal: "malloc_succeeds L (length bs + 1) m"
  obtains w' m' where
    "jsc_cat L H [JString s] w m = Some ((V7_OK, if length bs \<le> 1 then JString bs else JUndefined), w', m')"
    "length bs \<le> 1 \<Longrightarrow> streams w' = streams w" "1 < length bs \<Longrightarrow> streams w' (new_file H (opens w)) \<noteq> None"
    "blocks m' = blocks m"
proof -
  let ?a = "pick L (tick m) (length bs + 1)"
  have a: "?a \<noteq> 0" "blocks m ?a = None" using mal by (simp_all add: malloc_succeeds_def)
  obtain w' m' where r: "read_text_file L H b w m = Some ((if length bs \<le> 1 then Ptr ?a 0 else Null, of_nat (length bs)), w', m')"
    "if length bs \<le> 1
     then streams w' = streams w \<and> blocks m' = (blocks m)(?a \<mapsto> bs @ [0])
     else streams w' (new_file H (opens w)) \<noteq> None \<and> blocks m' = blocks m"
    "files w' = files w" "misused w' = misused w" "cwd w' = cwd w"
    by (rule read_text_file_spec [OF p len mal])
  show thesis
  proof (cases "length bs \<le> 1")
    case False
    with r cs show thesis
      by (intro that [of w' m']) (simp_all add: jsc_cat_def as_result_def arg_def)
  next
    case True
    have n: "unat (of_nat (length bs) :: u64) = length bs" using len by (simp add: unat_of_nat)
    have blk: "blocks m' ?a = Some (bs @ [0])" using r(2) True by simp
    from free_ok [OF this] n r True cs a(2) blk show thesis
      by (intro that [of w' "m'\<lparr>blocks := blocks m\<rparr>"])
         (simp_all add: jsc_cat_def as_result_def arg_def fun_upd_idem)
  qed
qed

text \<open>The handle behind an open number, as the commands on it load it.\<close>

lemma with_handle_known:
  assumes ok: "lib_ok (g, w, m)" and i: "0 \<le> sint i" "map_of (res_table g m) i = Some (handle_bytes t f)"
  obtains a where "load_handle (Ptr a res_hdr) m = Some (handle_code t, f)"
    "\<forall>use rest. with_handle use (JNumber (Num (of_int (sint i))) # rest) (g, w, m) =
       do { st1 \<leftarrow> use i (Ptr a res_hdr) (g, w, m); Some ((V7_OK, JUndefined), st1) }"
    "rids g a = Some i" "a \<in> set (hash_iter (rhead g))"
proof -
  have rok: "res_ok g m" using ok by (simp add: lib_ok_def)
  obtain a where a: "a \<in> set (hash_iter (rhead g))" "rids g a = Some i"
    "res_get i g = Some (Ptr a res_hdr, g)"
    "mem_load (Ptr a res_hdr) (length (handle_bytes t f)) m = Some (handle_bytes t f)"
    by (rule res_get_load [OF rok i(2)])
  obtain blk where blk: "blocks m a = Some blk" "res_hdr \<le> length blk"
    using rok a(1) by (auto simp: res_ok_def res_inv_def)
  have "(i, drop res_hdr blk) \<in> set (res_table g m)"
    using a(1,2) blk by (force simp: res_table_def)
  moreover have "distinct (map fst (res_table g m))"
    using res_ids_distinct [of g m] rok by (simp add: res_table_ids res_ok_def)
  moreover have "(i, handle_bytes t f) \<in> set (res_table g m)" using i(2) by (rule map_of_SomeD)
  ultimately have "drop res_hdr blk = handle_bytes t f"
    by (rule_tac distinct_fst_unique)
  with load_handle_block [OF blk(1)] i(1) a(1-3) show thesis
    by (intro that [of a]) (simp_all add: with_handle_def)
qed

lemma jsc_readline_spec:
  assumes "lib_ok (g, w, m)" "0 \<le> sint i" "map_of (res_table g m) i = Some (handle_bytes t f)"
  shows "jsc_readline (JNumber (Num (of_int (sint i))) # rest) (g, w, m)
     = Some ((V7_OK, JUndefined), g, snd (getline f w), m)"
proof -
  obtain a where "load_handle (Ptr a res_hdr) m = Some (handle_code t, f)"
    "\<forall>use rest. with_handle use (JNumber (Num (of_int (sint i))) # rest) (g, w, m) =
       do { st1 \<leftarrow> use i (Ptr a res_hdr) (g, w, m); Some ((V7_OK, JUndefined), st1) }"
    by (rule with_handle_known [OF assms])
  then show ?thesis
    unfolding jsc_readline_def by (cases "getline f w" rule: prod.exhaust) (simp split: option.split)
qed

text \<open>Conversions that run no command of the library: those of strings, numbers, truth values.\<close>

definition plain_strings :: "to_string \<Rightarrow> (jsval \<Rightarrow> u8 list) \<Rightarrow> jsval list \<Rightarrow> bool" where
  "plain_strings str txt vs \<longleftrightarrow> (\<forall>v \<in> set vs. \<forall>st. str v st = Some (Some (txt v), st))"

lemma writestring_loop_plain:
  assumes "load_handle hdl m = Some (t, f)" "plain_strings str txt vs"
  shows "writestring_loop str hdl vs (g, w, m) = Some (g, fold (\<lambda>v. fwrite (c_string (txt v)) f) vs w, m)"
  using assms by (induction vs arbitrary: w) (simp_all add: v7_stringify_def plain_strings_def)

lemma jsc_writestring_spec:
  assumes "lib_ok (g, w, m)" "0 \<le> sint i" "map_of (res_table g m) i = Some (handle_bytes t f)" "plain_strings str txt rest"
  shows "jsc_writestring str (JNumber (Num (of_int (sint i))) # rest) (g, w, m)
     = Some ((V7_OK, JUndefined), g, fold (\<lambda>v. fwrite (c_string (txt v)) f) rest w, m)"
proof -
  obtain a where "load_handle (Ptr a res_hdr) m = Some (handle_code t, f)"
    "\<forall>use rest. with_handle use (JNumber (Num (of_int (sint i))) # rest) (g, w, m) =
       do { st1 \<leftarrow> use i (Ptr a res_hdr) (g, w, m); Some ((V7_OK, JUndefined), st1) }"
    by (rule with_handle_known [OF assms(1-3)])
  then show ?thesis unfolding jsc_writestring_def using writestring_loop_plain [OF _ assms(4)] by simp
qed

text \<open>Several writes to a file opened for writing are one write of the concatenation.\<close>

lemma write_at_append:
  "write_at (pos + length a) b (write_at pos a old) = write_at pos (a @ b) old"
  by (cases "length old \<le> pos") (simp_all add: write_at_def add.commute add.left_commute)

lemma fwrite_fold:
  assumes "streams w f = Some st" "swrite st" "\<not> spipe st" "\<not> sappend st" "bss \<noteq> []"
  shows "fold (\<lambda>bs. fwrite bs f) bss w = fwrite (concat bss) f w"
  using assms
proof (induction bss arbitrary: w st)
  case (Cons bs bss)
  have one: "fwrite bs f w = w\<lparr>files := (files w)(spath st \<mapsto> write_at (spos st) bs (stream_data st w)),
      streams := (streams w)(f \<mapsto> st\<lparr>spos := spos st + length bs\<rparr>)\<rparr>"
    using Cons.prems by (simp add: fwrite_def Let_def)
  show ?case
  proof (cases bss)
    case Nil
    then show ?thesis by simp
  next
    case (Cons b bs')
    then have "fold (\<lambda>bs. fwrite bs f) bss (fwrite bs f w) = fwrite (concat bss) f (fwrite bs f w)"
      using Cons.prems one by (intro Cons.IH [of _ "st\<lparr>spos := spos st + length bs\<rparr>"]) simp_all
    then show ?thesis
      using Cons.prems
      by (simp add: one) (simp add: fwrite_def Let_def stream_data_def write_at_append add.assoc)
  qed
qed simp

subsection \<open>Reading whole files keeps what is open\<close>

text \<open>Nothing that was open or allocated is closed, freed or changed in kind.\<close>

definition extends :: "fsys \<times> mem \<Rightarrow> fsys \<times> mem \<Rightarrow> bool" where
  "extends s s' \<longleftrightarrow> misused (fst s') = misused (fst s) \<and>
     (\<forall>f st. streams (fst s) f = Some st \<longrightarrow> (\<exists>st'. streams (fst s') f = Some st' \<and> spipe st' = spipe st)) \<and>
     map_le (blocks (snd s)) (blocks (snd s'))"

lemma extends_refl [simp]: "extends s s"
  by (simp add: extends_def)

lemma extends_trans: "extends s1 s2 \<Longrightarrow> extends s2 s3 \<Longrightarrow> extends s1 s3"
  by (fastforce simp: extends_def intro: map_le_trans)

lemma lib_ok_extends: "lib_ok (g, w, m) \<Longrightarrow> extends (w, m) (w', m') \<Longrightarrow> lib_ok (g, w', m')"
proof -
  assume ok: "lib_ok (g, w, m)" and e: "extends (w, m) (w', m')"
  have inv: "res_inv g m" using ok by (simp add: lib_ok_def res_ok_def)
  have b: "blocks m a = Some bs \<Longrightarrow> blocks m' a = Some bs" for a bs using e by (auto simp: extends_def map_le_def dom_def)
  have "\<forall>a \<in> set (hash_iter (rhead g)). \<exists>bs. blocks m' a = Some bs \<and> res_hdr \<le> length bs"
    "\<exists>p. self g = Ptr p 0 \<and> blocks m' p \<noteq> None \<and> p \<notin> set (hash_iter (rhead g))"
    using inv b unfolding res_inv_def by blast+
  then have "res_inv g m'" using inv by (simp add: res_inv_def)
  moreover have "res_table g m' = res_table g m"
  proof -
    have "the (blocks m' a) = the (blocks m a)" if "a \<in> set (hash_iter (rhead g))" for a
      using inv b that by (fastforce simp: res_inv_def)
    then show ?thesis by (simp add: res_table_def)
  qed
  moreover have "handle_ok w' bs" if h: "handle_ok w bs" for bs
  proof -
    obtain t f st where 1: "bs = handle_bytes t f" "t \<in> {hdl_typ_file, hdl_typ_pfile}" "streams w f = Some st"
      "spipe st \<longleftrightarrow> t = hdl_typ_pfile" using h unfolding handle_ok_def by blast
    obtain st' where "streams w' f = Some st'" "spipe st' = spipe st" using e 1(3) by (fastforce simp: extends_def)
    then show ?thesis using 1 unfolding handle_ok_def by blast
  qed
  ultimately show "lib_ok (g, w', m')" using ok e by (auto simp: lib_ok_def res_ok_def lib_files_def extends_def)
qed

text \<open>Operations on one stream that is open and no pipe.\<close>

definition on_stream :: "u64 \<Rightarrow> fsys \<Rightarrow> fsys \<Rightarrow> bool" where
  "on_stream f w w' \<longleftrightarrow> misused w' = misused w \<and> (\<forall>x. x \<noteq> f \<longrightarrow> streams w' x = streams w x) \<and>
     (\<exists>st. streams w' f = Some st \<and> \<not> spipe st)"

lemma on_stream_seek: "on_stream f w w1 \<Longrightarrow> on_stream f w (seek_to f n w1)"
  by (auto simp: on_stream_def seek_to_def)

lemma on_stream_ops:
  assumes o: "on_stream f w w1"
  shows "fst (fseek_end f w1)" "on_stream f w (snd (fseek_end f w1))" "fst (fseek_set f w1)" "on_stream f w (snd (fseek_set f w1))"
    "on_stream f w (snd (snd (fread sz n f w1)))"
proof -
  obtain st where st: "streams w1 f = Some st" "\<not> spipe st" using o by (auto simp: on_stream_def)
  note seek = on_stream_seek [OF o]
  show "fst (fseek_end f w1)" "on_stream f w (snd (fseek_end f w1))" "fst (fseek_set f w1)" "on_stream f w (snd (fseek_set f w1))"
    "on_stream f w (snd (snd (fread sz n f w1)))"
    using o st seek by (simp_all add: fseek_end_def fseek_set_def fread_def can_seek_def Let_def)
qed

lemma on_stream_extends:
  assumes "on_stream f w w'" "streams w f = None" "map_le (blocks m) (blocks m')"
  shows "extends (w, m) (w', m')" "extends (w, m) (fclose f w', m')"
proof -
  obtain st where st: "streams w' f = Some st" "\<not> spipe st" using assms(1) by (auto simp: on_stream_def)
  then have c: "fclose f w' = w'\<lparr>streams := (streams w')(f := None)\<rparr>" by (simp add: fclose_def close_stream_def)
  have same: "streams w' x = streams w x" if "streams w x = Some y" for x y
    using assms(1,2) that by (metis on_stream_def option.distinct(1))
  then show "extends (w, m) (w', m')" using assms(1,3) by (auto simp: extends_def on_stream_def)
  have "x \<noteq> f" if "streams w x = Some y" for x y using that assms(2) by auto
  then show "extends (w, m) (fclose f w', m')" using assms(1,3) same by (auto simp: extends_def on_stream_def c)
qed

lemma mem_store_new:
  assumes "mem_store (Ptr a off) vs m1 = Some m2" "map_le (blocks m) (blocks m1)" "blocks m a = None" "blocks m1 a \<noteq> None"
  shows "map_le (blocks m) (blocks m2)" "blocks m2 a \<noteq> None"
proof -
  show "map_le (blocks m) (blocks m2)"
    using assms(2,3) mem_store_other [OF assms(1)] by (metis (no_types, lifting) domIff map_le_def)
  show "blocks m2 a \<noteq> None" using assms(4) mem_store_length [OF assms(1), of a] by (cases "blocks m2 a") auto
qed

text \<open>The answer is no block, or a new one.\<close>

definition new_block :: "ptr \<Rightarrow> mem \<Rightarrow> mem \<Rightarrow> bool" where
  "new_block p m m' \<longleftrightarrow> p = Null \<or> (\<exists>a. p = Ptr a 0 \<and> blocks m a = None \<and> blocks m' a \<noteq> None)"

lemma release_new:
  assumes "plat_mem_release p m1 = Some m2" "new_block p m m1" "extends (w, m) (w1, m1)"
  shows "extends (w, m) (w1, m2)"
proof (cases "p = Null")
  case False
  then obtain a where a: "p = Ptr a 0" "blocks m a = None" using assms(2) by (auto simp: new_block_def)
  then have "blocks m2 = (blocks m1)(a := None)" using assms(1) by (auto simp: plat_mem_release_def split: if_splits)
  then have "map_le (blocks m) (blocks m2)" using assms(3) a(2) by (auto simp: extends_def map_le_def dom_def)
  then show ?thesis using assms(3) by (simp add: extends_def)
qed (use assms in simp)

lemma read_text_file_keeps:
  assumes "read_text_file L H path w m = Some ((p, n), w', m')"
  shows "extends (w, m) (w', m') \<and> new_block p m m'"
proof -
  obtain fp w1 where o: "fopen H path [114, 98] w = (fp, w1)" by fastforce
  note new = fopen_opens_new [of H path "[114, 98]", unfolded opens_new_def, rule_format, OF o]
  show ?thesis
  proof (cases "fp = 0")
    case True
    then show ?thesis using assms o new by (auto simp: read_text_file_def extends_def new_block_def)
  next
    case False
    then have f: "streams w fp = None" "on_stream fp w w1" using new by (auto simp: on_stream_def)
    obtain w2 where s: "fseek_end fp w1 = (True, w2)" using on_stream_ops(1) [OF f(2)] by (metis prod.collapse)
    then have w2: "on_stream fp w w2" using on_stream_ops(2) [OF f(2)] by simp
    let ?size = "ftell fp w2"
    obtain b w3 where t: "fseek_set fp w2 = (b, w3)" by fastforce
    then have w3: "on_stream fp w w3" using on_stream_ops(4) [OF w2] by simp
    obtain k bs w4 where r: "fread ?size 1 fp w3 = (k, bs, w4)" by (metis prod.exhaust)
    then have w4: "on_stream fp w w4" using on_stream_ops(5) [OF w3, of ?size 1] by simp
    note run = assms [unfolded read_text_file_def o prod.case if_not_P [OF False] s Let_def t r]
    show ?thesis
    proof (cases rule: plat_mem_allocate_cases [of L "ucast (?size + 1)" m])
      case fail
      have "extends (w, m) (fclose fp w2, m\<lparr>tick := Suc (tick m)\<rparr>)" by (rule on_stream_extends(2) [OF w2 f(1)]) simp
      moreover have "p = Null" "w' = fclose fp w2" "m' = m\<lparr>tick := Suc (tick m)\<rparr>" using run fail by auto
      ultimately show ?thesis by (simp add: new_block_def)
    next
      case (ok a)
      let ?m1 = "\<lparr>blocks = (blocks m)(a \<mapsto> replicate (unat (ucast (?size + 1) :: u32)) 0), tick = Suc (tick m)\<rparr>"
      have m1: "map_le (blocks m) (blocks ?m1)" "blocks ?m1 a \<noteq> None" using ok(2) by (auto simp: map_le_def dom_def)
      obtain m2 where m2: "mem_store (Ptr a 0) bs ?m1 = Some m2"
        using run ok by (auto simp del: mem_store.simps elim!: bind_SomeE)
      note n2 = mem_store_new [OF m2 m1(1) ok(2) m1(2)]
      show ?thesis
      proof (cases "k = ?size")
        case False
        then have q: "plat_mem_release (Ptr a 0) m2 = Some m'" "p = Null" "w' = w4"
          using run ok m2 by (auto simp del: mem_store.simps elim!: bind_SomeE)
        have "new_block (Ptr a 0) m m2" using ok(2) n2(2) by (simp add: new_block_def)
        from release_new [OF q(1) this on_stream_extends(1) [OF w4 f(1) n2(1)]] show ?thesis using q by (simp add: new_block_def)
      next
        case True
        then obtain m3 where m3: "mem_store (Ptr a (unat ?size)) [0] m2 = Some m3" "p = Ptr a 0" "w' = fclose fp w4" "m' = m3"
          using run ok m2 by (auto simp del: mem_store.simps elim!: bind_SomeE)
        note n3 = mem_store_new [OF m3(1) n2(1) ok(2) n2(2)]
        show ?thesis using on_stream_extends(2) [OF w4 f(1) n3(1)] n3(2) m3 ok(2) by (auto simp: new_block_def)
      qed
    qed
  qed
qed

lemma cat_item_keeps: "cat_item L H v (array, c, w, m) = Some (array', c', w', m') \<Longrightarrow> extends (w, m) (w', m')"
proof (cases v)
  case (JString s)
  assume res: "cat_item L H v (array, c, w, m) = Some (array', c', w', m')"
  show ?thesis
  proof (cases "to_cstring s")
    case (Some cstr)
    obtain p n w1 m1 where r: "read_text_file L H cstr w m = Some ((p, n), w1, m1)"
      using res JString Some by (auto elim!: bind_SomeE)
    note k = read_text_file_keeps [OF r]
    show ?thesis
    proof (cases "p = Null")
      case False
      then have "plat_mem_release p m1 = Some m'" "w' = w1" using res JString Some r by (auto elim!: bind_SomeE)
      then show ?thesis using release_new k by blast
    qed (use res JString Some r k in auto)
  qed (use res JString in simp)
qed auto

lemma cat_items_keeps: "cat_items L H vs (array, c, w, m) = Some (array', c', w', m') \<Longrightarrow> extends (w, m) (w', m')"
proof (induction vs arbitrary: array c w m)
  case (Cons v vs)
  obtain a1 c1 w1 m1 where 1: "cat_item L H v (array, c, w, m) = Some (a1, c1, w1, m1)"
    "cat_items L H vs (a1, c1, w1, m1) = Some (array', c', w', m')" using Cons.prems by (auto elim!: bind_SomeE)
  show ?case using extends_trans [OF cat_item_keeps [OF 1(1)] Cons.IH [OF 1(2)]] .
qed simp

lemma cat_args_keeps: "cat_args L H vs (array, c, w, m) = Some (array', c', w', m') \<Longrightarrow> extends (w, m) (w', m')"
proof (induction vs arbitrary: array c w m)
  case (Cons v vs)
  obtain a1 c1 w1 m1 where 1: "(case v of JArray items \<Rightarrow> cat_items L H items (array, c, w, m) | _ \<Rightarrow> cat_item L H v (array, c, w, m)) = Some (a1, c1, w1, m1)"
    "cat_args L H vs (a1, c1, w1, m1) = Some (array', c', w', m')" using Cons.prems by (auto elim!: bind_SomeE)
  have "cat_item L H v (array, c, w, m) = Some (a1, c1, w1, m1) \<or> (\<exists>items. cat_items L H items (array, c, w, m) = Some (a1, c1, w1, m1))"
    using 1(1) by (cases v) (simp_all del: cat_item.simps, blast?)
  then have "extends (w, m) (w1, m1)"
    by (elim disjE exE) (erule cat_item_keeps, erule cat_items_keeps)
  then show ?case using extends_trans Cons.IH [OF 1(2)] by blast
qed simp

lemma cat_keeps:
  assumes "jsc_cat L H args w m = Some (r, w', m')" "lib_ok (g, w, m)"
  shows "lib_ok (g, w', m')"
proof -
  obtain array c where "cat_args L H args ([], 0, w, m) = Some (array, c, w', m')"
    using assms(1) by (auto simp: jsc_cat_def elim!: bind_SomeE)
  from lib_ok_extends [OF assms(2) cat_args_keeps [OF this]] show ?thesis .
qed

text \<open>With files of less than \<open>2 ^ 32 - 1\<close> bytes (\<open>plat_mem_allocate\<close> takes an \<open>unsigned int\<close>) \<open>cat\<close> returns.\<close>

definition files_small :: "fsys \<Rightarrow> bool" where
  "files_small w \<longleftrightarrow> (\<forall>p bs. files w p = Some bs \<longrightarrow> length bs + 1 < 2 ^ 32)"

lemma read_text_file_total:
  assumes "files_small w"
  obtains p n w' m' where "read_text_file L H path w m = Some ((p, n), w', m')" "files_small w'"
    "p = Null \<or> (\<exists>a bs. p = Ptr a 0 \<and> blocks m' a = Some bs \<and> unat n \<le> length bs)"
proof -
  obtain fp w1 where o: "fopen H path [114, 98] w = (fp, w1)" by fastforce
  let ?p = "absolute H (cwd w) path"
  show thesis
  proof (cases "fp = 0")
    case True
    have "files w1 = files w" using o True
      by (auto simp: fopen_def open_stream_def Let_def split: if_splits)
    then show thesis using o True assms by (intro that [of Null 0 w1 m]) (simp_all add: read_text_file_def files_small_def)
  next
    case False
    obtain bs where bs: "files w ?p = Some bs" "\<not> is_dir H ?p" "can_open H w"
      using o False by (auto simp: fopen_def open_stream_def can_open_def Let_def split: if_splits)
    have len: "length bs + 1 < 2 ^ 32" using assms bs(1) by (simp add: files_small_def)
    show thesis
    proof (cases "malloc_succeeds L (length bs + 1) m")
      case True
      obtain w' m' where r: "read_text_file L H path w m = Some ((if length bs \<le> 1 then Ptr (pick L (tick m) (length bs + 1)) 0 else Null, of_nat (length bs)), w', m')"
        "if length bs \<le> 1 then streams w' = streams w \<and> blocks m' = (blocks m)(pick L (tick m) (length bs + 1) \<mapsto> bs @ [0])
         else streams w' (new_file H (opens w)) \<noteq> None \<and> blocks m' = blocks m"
        "files w' = files w"
        by (rule read_text_file_spec [OF refl bs len True])
      have "unat (of_nat (length bs) :: u64) = length bs" using len by (simp add: unat_of_nat)
      then show thesis using r assms by (intro that [OF r(1)]) (auto simp: files_small_def)
    next
      case False
      let ?w = "w\<lparr>opens := Suc (opens w), streams := (streams w)(new_file H (opens w) \<mapsto> \<lparr>spath = ?p, spipe = False, sout = [], spos = 0,
        sread = True, swrite = False, sappend = False\<rparr>)\<rparr>"
      obtain w2 where s: "fseek_end fp ?w = (True, w2)" "files w2 = files w" "files (fclose fp w2) = files w" "ftell fp w2 = of_nat (length bs)"
        using bs opened_read [OF refl bs] o
        by (auto simp: fseek_end_def can_seek_def seek_to_def stream_data_def ftell_def fclose_def close_stream_def)
      have n: "unat (ucast (of_nat (length bs) + 1 :: u64) :: u32) = length bs + 1"
        using len by (simp add: unsigned_ucast_eq take_bit_eq_mod unat_word_ariths unat_of_nat)
      have a: "plat_mem_allocate L (ucast (of_nat (length bs) + 1 :: u64)) m = Some (Null, m\<lparr>tick := Suc (tick m)\<rparr>)"
        using False unfolding plat_mem_allocate_def n by (auto simp: malloc_def malloc_succeeds_def Let_def)
      have "read_text_file L H path w m = Some ((Null, of_nat (length bs)), fclose fp w2, m\<lparr>tick := Suc (tick m)\<rparr>)"
        using opened_read [OF refl bs] o s a \<open>fp \<noteq> 0\<close> by (simp add: read_text_file_def Let_def)
      from that [OF this] show thesis using s(3) assms by (simp add: files_small_def)
    qed
  qed
qed

lemma cat_item_total: "files_small w \<Longrightarrow> \<exists>array' c' w' m'. cat_item L H v (array, c, w, m) = Some (array', c', w', m') \<and> files_small w'"
proof (cases v)
  case (JString s)
  assume small: "files_small w"
  show ?thesis
  proof (cases "to_cstring s")
    case (Some cstr)
    obtain p n w1 m1 where r: "read_text_file L H cstr w m = Some ((p, n), w1, m1)" "files_small w1"
      "p = Null \<or> (\<exists>a bs. p = Ptr a 0 \<and> blocks m1 a = Some bs \<and> unat n \<le> length bs)"
      by (rule read_text_file_total [OF small])
    show ?thesis using r JString Some by (auto simp: plat_mem_release_def)
  qed (use small JString in simp)
qed auto

lemma cat_items_total: "files_small w \<Longrightarrow> \<exists>array' c' w' m'. cat_items L H vs (array, c, w, m) = Some (array', c', w', m') \<and> files_small w'"
proof (induction vs arbitrary: array c w m)
  case (Cons v vs)
  obtain a1 c1 w1 m1 where "cat_item L H v (array, c, w, m) = Some (a1, c1, w1, m1)" "files_small w1"
    using cat_item_total [OF Cons.prems] by blast
  then show ?case using Cons.IH [of w1 a1 c1 m1] by simp
qed simp

lemma cat_args_total: "files_small w \<Longrightarrow> \<exists>r. cat_args L H vs (array, c, w, m) = Some r"
proof (induction vs arbitrary: array c w m)
  case (Cons v vs)
  obtain a1 c1 w1 m1 where "(case v of JArray items \<Rightarrow> cat_items L H items (array, c, w, m) | _ \<Rightarrow> cat_item L H v (array, c, w, m)) = Some (a1, c1, w1, m1)"
      "files_small w1"
    using cat_item_total [OF Cons.prems, of L H v array c m] cat_items_total [OF Cons.prems]
    by (cases v) (auto simp del: cat_item.simps, meson)
  then show ?case using Cons.IH [of w1 a1 c1 m1] by (simp del: cat_item.simps)
qed simp

lemma cat_total: "files_small w \<Longrightarrow> jsc_cat L H args w m \<noteq> None"
  using cat_args_total [of w L H args "[]" 0 m] by (auto simp: jsc_cat_def)

subsection \<open>Names\<close>

definition arg_strings :: "jsval list \<Rightarrow> u8 list list" where
  "arg_strings vs = concat (map (\<lambda>v. case v of
     JString s \<Rightarrow> (case to_cstring s of None \<Rightarrow> [] | Some c \<Rightarrow> [c]) | _ \<Rightarrow> []) vs)"

definition flat_args :: "jsval list \<Rightarrow> u8 list list" where
  "flat_args args = concat (map (\<lambda>v. case v of JArray vs \<Rightarrow> arg_strings vs | _ \<Rightarrow> arg_strings [v]) args)"

lemma realpath_items:
  "fold (realpath_item H w) vs (array, c) =
     (let ps = List.map_filter (real_path H (cwd w)) (arg_strings vs)
      in (array @ map JString ps, c + length ps))"
proof (induction vs arbitrary: array c)
  case (Cons v vs)
  then show ?case
    by (cases v) (auto simp: arg_strings_def Let_def map_filter_simps split: option.splits)
qed (simp add: arg_strings_def map_filter_simps)

lemma map_filter_append: "List.map_filter f (xs @ ys) = List.map_filter f xs @ List.map_filter f ys"
  by (simp add: List.map_filter_def)

lemma realpath_args:
  "fold (realpath_arg H w) vs (array, c) =
     (let ps = List.map_filter (real_path H (cwd w)) (flat_args vs)
      in (array @ map JString ps, c + length ps))"
proof (induction vs arbitrary: array c)
  case (Cons v vs)
  have "realpath_arg H w v (array, c) = fold (realpath_item H w) (case v of JArray vs \<Rightarrow> vs | _ \<Rightarrow> [v]) (array, c)"
    by (cases v) simp_all
  also have "\<dots> = (let ps = List.map_filter (real_path H (cwd w)) (flat_args [v])
      in (array @ map JString ps, c + length ps))"
    by (cases v) (simp_all only: realpath_items flat_args_def list.map concat.simps append_Nil2 jsval.case)
  finally show ?case
    by (simp add: Cons.IH Let_def flat_args_def map_filter_append)
qed (simp add: flat_args_def map_filter_simps)

end
