(* ===== verification/Shell.thy ===== *)
theory Shell
  imports FileLibCorrect
begin

text \<open>
  The program itself, \<open>main.c\<close>: the scripts of the command line or the lines of the standard input
  are executed in turn, then the managed threads are awaited and the libraries uninstalled. The
  interpreter (\<open>v7_exec\<close>) is the parameter \<open>exec\<close>: it gets the C string and changes the whole state.
  Also \<open>plat_io_get_resource\<close> of \<open>platform/plat_io.h\<close> and \<open>jsc_httpd\<close> of \<open>jsc_net.c\<close>.
\<close>

record 'js shell =
  opened :: res_mgn
  running :: "res_mgn option"
  posix_os :: os
  sys :: fsys
  heap :: mem
  engine :: 'js

type_synonym 'js engine_exec = "u8 list \<Rightarrow> 'js shell \<Rightarrow> (v7_err \<times> u64) \<times> 'js shell"

definition errs_string :: "u8 list list" where
  "errs_string =
     [[79, 75],
      [83, 121, 110, 116, 97, 120, 32, 101, 114, 114, 111, 114],
      [69, 120, 101, 99, 32, 101, 120, 99, 101, 112, 116, 105, 111, 110],
      [83, 116, 97, 99, 107, 32, 111, 118, 101, 114, 102, 108, 111, 119],
      [65, 83, 84, 32, 116, 111, 32, 108, 97, 114, 103, 101],
      [73, 110, 118, 97, 108, 105, 100, 32, 97, 114, 103, 117, 109, 101, 110, 116, 115]]"

fun err_code :: "v7_err \<Rightarrow> nat" where
  "err_code V7_OK = 0"
| "err_code V7_SYNTAX_ERROR = 1"
| "err_code V7_EXEC_EXCEPTION = 2"
| "err_code V7_STACK_OVERFLOW = 3"
| "err_code V7_AST_TOO_LARGE = 4"
| "err_code V7_INVALID_ARG = 5"
| "err_code V7_INTERNAL_ERROR = 6"

fun hex_digits :: "nat \<Rightarrow> u8 list" where
  "hex_digits n =
     (let d = n mod 16; c = of_nat (if d < 10 then 48 + d else 87 + d)
      in if n < 16 then [c] else hex_digits (n div 16) @ [c])"

declare hex_digits.simps [simp del]

definition print_out :: "u8 list \<Rightarrow> fsys \<Rightarrow> fsys" where
  "print_out bs w = w\<lparr>std_out := std_out w @ bs\<rparr>"

text \<open>\<open>errs_string[err]\<close> past the end of the array has no result.\<close>

definition print_err_and_res :: "v7_err \<Rightarrow> u64 \<Rightarrow> fsys \<Rightarrow> fsys option" where
  "print_err_and_res err result w =
     (if err_code err < length errs_string
      then Some (print_out ([101, 114, 114, 58, 32] @ errs_string ! err_code err
             @ [44, 32, 114, 101, 115, 117, 108, 116, 58, 32] @ hex_digits (unat result) @ [10]) w)
      else None)"

text \<open>\<open>read_file\<close>: the data (NULL when it failed) and the size it wrote, if it wrote one.\<close>

definition read_file :: "libc \<Rightarrow> host \<Rightarrow> u8 list \<Rightarrow> fsys \<Rightarrow> mem \<Rightarrow> ((ptr \<times> u64 option) \<times> fsys \<times> mem) option" where
  "read_file L H path w m =
     (case fopen H path [114, 98] w of
        (fp, w1) \<Rightarrow>
          if fp = 0 then Some ((Null, None), w1, m)
          else
            (case fseek_end fp w1 of
               (ok, w2) \<Rightarrow>
                 if \<not> ok then Some ((Null, None), fclose fp w2, m)
                 else
                   let size = ftell fp w2 in
                   (case malloc L (unat (size + 1)) m of
                      (data, m1) \<Rightarrow>
                        if data = Null then Some ((Null, Some size), fclose fp w2, m1)
                        else
                          case fseek_set fp w2 of
                            (_, w3) \<Rightarrow>
                              (case fread 1 size fp w3 of
                                 (n, bs, w4) \<Rightarrow>
                                   do { m2 \<leftarrow> mem_store data bs m1;
                                        if n \<noteq> size
                                        then do { m3 \<leftarrow> free data m2; Some ((Null, Some size), w4, m3) }
                                        else
                                          do { m3 \<leftarrow> mem_store (ptr_add data (unat size)) [0] m2;
                                               Some ((data, Some size), fclose fp w4, m3) } }))))"

text \<open>
  The two loops over the first line: \<open>js_code\<close> is what the pointer points to, up to the end of the
  block. Running past the end has no result.
\<close>

fun line_tail :: "u8 list \<Rightarrow> u8 list option" where
  "line_tail [] = None"
| "line_tail (c # cs) = (if c \<noteq> 0 \<and> c \<noteq> 10 \<and> c \<noteq> 13 then line_tail cs else Some (c # cs))"

fun line_head :: "u8 list \<Rightarrow> u8 list option" where
  "line_head [] = None"
| "line_head (c # cs) = (if c \<noteq> 0 \<and> (c = 10 \<or> c = 13) then line_head cs else Some (c # cs))"

definition script_start :: "u8 list \<Rightarrow> u8 list option" where
  "script_start code =
     (if take 2 code = [35, 33]
      then do { t \<leftarrow> line_tail (drop 2 code); line_head t }
      else Some code)"

definition run_code :: "'js engine_exec \<Rightarrow> u8 list \<Rightarrow> 'js shell \<Rightarrow> 'js shell option" where
  "run_code exec code s =
     (case exec (c_string code) s of
        ((err, result), s1) \<Rightarrow>
          if err \<noteq> V7_OK
          then do { w \<leftarrow> print_err_and_res err result (sys s1); Some (s1\<lparr>sys := w\<rparr>) }
          else Some s1)"

definition run_script :: "libc \<Rightarrow> host \<Rightarrow> 'js engine_exec \<Rightarrow> u8 list \<Rightarrow> 'js shell \<Rightarrow> 'js shell option" where
  "run_script L H exec js_path s =
     do { ((js_code, size), w, m) \<leftarrow> read_file L H js_path (sys s) (heap s);
          let s1 = s\<lparr>sys := w, heap := m\<rparr>;
          let js_size = (case size of None \<Rightarrow> 0 | Some n \<Rightarrow> n);
          if js_size > 2
          then do { bytes \<leftarrow> mem_load js_code (unat js_size + 1) m;
                    code \<leftarrow> script_start bytes;
                    run_code exec code s1 }
          else Some s1 }"

fun run_scripts :: "libc \<Rightarrow> host \<Rightarrow> 'js engine_exec \<Rightarrow> u8 list list \<Rightarrow> 'js shell \<Rightarrow> 'js shell option" where
  "run_scripts L H exec [] s = Some s"
| "run_scripts L H exec (p # ps) s = do { s1 \<leftarrow> run_script L H exec p s; run_scripts L H exec ps s1 }"

text \<open>The interactive loop: \<open>lines\<close> is what \<open>getline\<close> reads before it answers -1.\<close>

definition prompt :: "u8 list" where "prompt = [62, 62, 62, 32]"

fun read_eval :: "'js engine_exec \<Rightarrow> u8 list list \<Rightarrow> 'js shell \<Rightarrow> 'js shell option" where
  "read_eval exec [] s = Some s"
| "read_eval exec (l # ls) s =
     do { s1 \<leftarrow> run_code exec l s;
          read_eval exec ls (s1\<lparr>sys := print_out prompt (sys s1)\<rparr>) }"

definition install_all_js_clibs :: "libc \<Rightarrow> os \<Rightarrow> fsys \<Rightarrow> mem \<Rightarrow> 'js \<Rightarrow> 'js shell option" where
  "install_all_js_clibs L os w m js =
     do { (g, w1, m1) \<leftarrow> jsc_install_file_lib L w m;
          Some \<lparr>opened = g, running = None, posix_os = os, sys = w1, heap = m1, engine = js\<rparr> }"

definition uninstall_all_js_clibs :: "'js shell \<Rightarrow> 'js shell option" where
  "uninstall_all_js_clibs s =
     do { (g, w, m) \<leftarrow> jsc_uninstall_file_lib (opened s, sys s, heap s);
          Some (s\<lparr>opened := g, sys := w, heap := m\<rparr>) }"

definition shell_run_done :: "posix \<Rightarrow> 'js shell \<Rightarrow> 'js shell option" where
  "shell_run_done E s =
     do { (r, os, m) \<leftarrow> run_done E (running s, posix_os s, heap s);
          Some (s\<lparr>running := r, posix_os := os, heap := m\<rparr>) }"

definition version_text :: "u8 list" where
  "version_text = [83, 104, 101, 108, 108, 46, 106, 115, 32, 48, 46, 49, 10, 62, 62, 62, 32]"

text \<open>\<open>main\<close>: \<open>js\<close> is the interpreter that \<open>v7_create\<close> answers, \<open>argv\<close> the arguments after the name.\<close>

definition shell_main :: "libc \<Rightarrow> posix \<Rightarrow> host \<Rightarrow> 'js engine_exec \<Rightarrow> u8 list list \<Rightarrow> u8 list list
    \<Rightarrow> os \<Rightarrow> fsys \<Rightarrow> mem \<Rightarrow> 'js \<Rightarrow> 'js shell option" where
  "shell_main L E H exec argv lines os w m js =
     do { s \<leftarrow> install_all_js_clibs L os w m js;
          s1 \<leftarrow> (if argv \<noteq> [] then run_scripts L H exec argv s
                 else read_eval exec lines (s\<lparr>sys := print_out version_text (sys s)\<rparr>));
          s2 \<leftarrow> shell_run_done E s1;
          uninstall_all_js_clibs s2 }"

definition jsc_httpd :: "libc \<Rightarrow> posix \<Rightarrow> nat \<Rightarrow> rstate \<Rightarrow> ((v7_err \<times> jsval) \<times> rstate) option" where
  "jsc_httpd L E httpd st =
     do { (_, st1) \<leftarrow> run L E httpd 0 None st; Some ((V7_OK, JUndefined), st1) }"

text \<open>
  \<open>plat_io_get_resource\<close>: result, and what it wrote to \<open>*content_memory\<close> and to \<open>*size\<close>, if it wrote.
\<close>

definition plat_io_get_resource :: "libc \<Rightarrow> host \<Rightarrow> u8 list \<Rightarrow> fsys \<Rightarrow> mem
    \<Rightarrow> ((bool \<times> ptr option \<times> u32 option) \<times> fsys \<times> mem) option" where
  "plat_io_get_resource L H name w m =
     (case fopen H name [114, 98] w of
        (f, w1) \<Rightarrow>
          if f = 0 then Some ((False, None, None), w1, m)
          else
            (case fseek_end f w1 of
               (_, w2) \<Rightarrow>
                 let size = (ucast (ftell f w2) :: u32) in
                 if size = 0 then Some ((True, Some Null, Some size), fclose f w2, m)
                 else
                   case fseek_set f w2 of
                     (_, w3) \<Rightarrow>
                       (case malloc L (unat size) m of
                          (p, m1) \<Rightarrow>
                            if p = Null then Some ((False, Some Null, Some size), fclose f w3, m1)
                            else
                              (case fread (ucast size) 1 f w3 of
                                 (_, bs, w4) \<Rightarrow>
                                   do { m2 \<leftarrow> mem_store p bs m1;
                                        Some ((True, Some p, Some size), fclose f w4, m2) }))))"

text \<open>\<open>plat_cstr_length\<close> of \<open>platform/plat_string.h\<close>, on the bytes from the pointer on.\<close>

definition plat_cstr_length :: "u8 list \<Rightarrow> u32 option" where
  "plat_cstr_length bs = (if 0 \<in> set bs then Some (of_nat (length (c_string bs))) else None)"

end
