(* ===== verification/Session.thy ===== *)
theory Session
  imports FileLibCorrect
begin

text \<open>
  A whole session of the file commands: any sequence of the commands of \<open>jsc_file.c\<close> and \<open>jsc_sys.c\<close>, with any
  arguments, from the installation of the library on. A step is a call that returns; the reachable states keep
  \<open>lib_ok\<close>, so no stream is used after it was closed or closed twice, and the end of the program closes all that
  is registered. \<open>writestring\<close> and \<open>exec\<close> convert arguments to strings, which can run JavaScript code: that code is a
  session itself, and during \<open>writestring\<close> it must not close the number that is being written to.
\<close>

subsection \<open>Steps\<close>

text \<open>
  Room for one more number: the tables are far from their limits of \<open>2 ^ 31\<close>, and the one
  allocation of the call succeeds. Numbers that are not negative: fewer than \<open>2 ^ 31\<close> were handed out.
\<close>

definition roomy :: "libc \<Rightarrow> lib_state \<Rightarrow> bool" where
  "roomy L st = (case st of (g, w, m) \<Rightarrow>
     hash_room (rhead g) \<and> length (res_ids g) < 2 ^ 32 \<and> malloc_succeeds L 80 m)"

definition numbers_ok :: "lib_state \<Rightarrow> bool" where
  "numbers_ok st = (\<forall>i \<in> set (res_ids (fst st)). 0 \<le> sint i)"

text \<open>The number \<open>i\<close> is not closed on the way from one state to the other.\<close>

definition stays_open :: "u32 \<Rightarrow> lib_state \<Rightarrow> lib_state \<Rightarrow> bool" where
  "stays_open i st st' \<longleftrightarrow> (\<forall>a. rids (fst st) a = Some i \<longrightarrow> rids (fst st') a = Some i)"

text \<open>The number and the resource that \<open>writestring\<close> writes to, if it writes.\<close>

definition written :: "jsval list \<Rightarrow> lib_state \<Rightarrow> (u32 \<times> ptr) option" where
  "written args st =
     (case args of
        JNumber x # _ \<Rightarrow>
          (case c_int x of
             Some i \<Rightarrow> if 0 \<le> sint i
                then (case res_get i (fst st) of Some (hdl, _) \<Rightarrow> if hdl \<noteq> Null then Some (i, hdl) else None | None \<Rightarrow> None)
                else None
           | None \<Rightarrow> None)
      | _ \<Rightarrow> None)"

text \<open>
  \<open>calm i hdl vs st\<close>: in the loop of \<open>writestring\<close> from \<open>st\<close> on, every conversion is a session that leaves the number \<open>i\<close>
  open.
\<close>

inductive lib_step :: "libc \<Rightarrow> host \<Rightarrow> to_string \<Rightarrow> lib_state \<Rightarrow> lib_state \<Rightarrow> bool"
  and lib_reach :: "libc \<Rightarrow> host \<Rightarrow> to_string \<Rightarrow> lib_state \<Rightarrow> lib_state \<Rightarrow> bool"
  and calm :: "libc \<Rightarrow> host \<Rightarrow> to_string \<Rightarrow> u32 \<Rightarrow> ptr \<Rightarrow> jsval list \<Rightarrow> lib_state \<Rightarrow> bool"
  for L :: libc and H :: host and str :: to_string where
  step_fopen: "jsc_fopen L H args st = Some (r, st') \<Longrightarrow> roomy L st \<Longrightarrow> numbers_ok st' \<Longrightarrow> lib_step L H str st st'"
| step_popen: "jsc_popen L H args st = Some (r, st') \<Longrightarrow> roomy L st \<Longrightarrow> numbers_ok st' \<Longrightarrow> lib_step L H str st st'"
| step_fclose: "jsc_fclose args st = Some (r, st') \<Longrightarrow> lib_step L H str st st'"
| step_pclose: "jsc_pclose args st = Some (r, st') \<Longrightarrow> lib_step L H str st st'"
| step_readline: "jsc_readline args st = Some (r, st') \<Longrightarrow> lib_step L H str st st'"
| step_writestring: "jsc_writestring str args st = Some (r, st') \<Longrightarrow>
    (\<forall>i hdl. written args st = Some (i, hdl) \<longrightarrow> calm L H str i hdl (tl args) st) \<Longrightarrow> lib_step L H str st st'"
| step_exec: "jsc_exec str args st = Some (r, st') \<Longrightarrow> lib_reach L H str st st' \<Longrightarrow> lib_step L H str st st'"
| step_echo: "jsc_echo H args w = (r, w') \<Longrightarrow> lib_step L H str (g, w, m) (g, w', m)"
| step_cat: "jsc_cat L H args w m = Some (r, w', m') \<Longrightarrow> lib_step L H str (g, w, m) (g, w', m')"
| step_cd: "jsc_cd H args w = (r, w') \<Longrightarrow> lib_step L H str (g, w, m) (g, w', m)"
| step_ls: "jsc_ls H msg args w = (r, w') \<Longrightarrow> lib_step L H str (g, w, m) (g, w', m)"
| step_pwd: "jsc_pwd w = r \<Longrightarrow> lib_step L H str (g, w, m) (g, w, m)"
| step_realpath: "jsc_realpath H args w = r \<Longrightarrow> lib_step L H str (g, w, m) (g, w, m)"
| step_sum: "jsc_sum dadd args = r \<Longrightarrow> lib_step L H str st st"
| reach_refl: "lib_reach L H str st st"
| reach_step: "lib_reach L H str st st1 \<Longrightarrow> lib_step L H str st1 st2 \<Longrightarrow> lib_reach L H str st st2"
| calm_end: "calm L H str i hdl [] st"
| calm_arg: "v7_stringify str v st = Some (p, g, w, m) \<Longrightarrow> lib_reach L H str st (g, w, m) \<Longrightarrow> stays_open i st (g, w, m) \<Longrightarrow>
    (\<forall>t f. load_handle hdl m = Some (t, f) \<longrightarrow> calm L H str i hdl vs (g, fwrite (c_string p) f w, m)) \<Longrightarrow>
    calm L H str i hdl (v # vs) st"

subsection \<open>Opening\<close>

lemma open_handle_other:
  assumes "\<nexists>s0 s1 rest. args = JString s0 # JString s1 # rest"
  shows "open_handle L t opn args st = Some ((V7_OK, JUndefined), st)"
  using assms by (auto simp: open_handle_def split: list.split jsval.split prod.split)

lemma open_handle_keeps:
  assumes res: "open_handle L t opn args st = Some (r, st')" and ok: "lib_ok st" and room: "roomy L st"
    and num: "numbers_ok st'" and t: "t \<in> {hdl_typ_file, hdl_typ_pfile}"
    and opn: "\<forall>a b. opens_new (t = hdl_typ_pfile) (opn a b)"
  shows "lib_ok st'"
proof -
  obtain g w m where st: "st = (g, w, m)" by (cases st)
  show ?thesis
  proof (cases "\<exists>s0 s1 rest. args = JString s0 # JString s1 # rest")
    case True
    then obtain s0 s1 rest where strings: "args = JString s0 # JString s1 # rest" by blast
    obtain a b where cs: "to_cstring s0 = Some a" "to_cstring s1 = Some b"
      using res strings by (auto simp: open_handle_def st elim!: bind_SomeE)
    have room': "hash_room (rhead g)" "length (res_ids g) < 2 ^ 32" "malloc_succeeds L 80 m"
      using room by (simp_all add: roomy_def st)
    obtain f g1 w1 m1 i where o: "opn a b w = (f, w1)"
      "open_handle L t opn (JString s0 # JString s1 # rest) (g, w, m) =
         Some ((V7_OK, if f \<noteq> 0 \<and> 0 \<le> sint i then JNumber (Num (of_int (sint i))) else JUndefined), g1, w1, m1)"
      "f = 0 \<Longrightarrow> g1 = g \<and> m1 = m \<and> lib_ok (g1, w1, m1)"
      "f \<noteq> 0 \<Longrightarrow> 0 \<le> sint i \<Longrightarrow> i \<notin> set (res_ids g) \<and> lib_ok (g1, w1, m1) \<and>
         res_table g1 m1 = res_table g m @ [(i, handle_bytes t f)]"
      "f \<noteq> 0 \<Longrightarrow> i \<in> set (res_ids g1)"
      by (rule open_handle_spec [OF ok [unfolded st] room' t cs, of opn rest]) (use opn in auto)
    have st': "st' = (g1, w1, m1)" using res o(2) strings st by simp
    show ?thesis using o(3-5) num by (cases "f = 0") (auto simp: st' numbers_ok_def)
  next
    case False
    with res ok show ?thesis using open_handle_other [OF False, of L t opn st] by simp
  qed
qed

subsection \<open>Using and closing\<close>

text \<open>An operation that leaves streams open or closed as they are, and what is open in its kind.\<close>

definition same_streams :: "fsys \<Rightarrow> fsys \<Rightarrow> bool" where
  "same_streams w w' \<longleftrightarrow> misused w' = misused w \<and>
     (\<forall>f. map_option spipe (streams w' f) = map_option spipe (streams w f))"

lemma same_streams_trans: "same_streams a b \<Longrightarrow> same_streams b c \<Longrightarrow> same_streams a c"
  by (simp add: same_streams_def)

lemma getline_same: "streams w f \<noteq> None \<Longrightarrow> same_streams w (snd (getline f w))"
  by (auto simp: same_streams_def getline_def seek_to_def Let_def)

lemma fwrite_same: "streams w f \<noteq> None \<Longrightarrow> same_streams w (fwrite bs f w)"
  by (auto simp: same_streams_def fwrite_def Let_def)

lemma same_open: "same_streams w w' \<Longrightarrow> streams w f \<noteq> None \<Longrightarrow> streams w' f \<noteq> None"
  by (metis same_streams_def option.map_disc_iff)

lemma handle_ok_same: "handle_ok w bs \<Longrightarrow> same_streams w w' \<Longrightarrow> handle_ok w' bs"
  (is "_ \<Longrightarrow> ?same \<Longrightarrow> _")
proof -
  assume "handle_ok w bs" ?same
  then obtain t f st where h: "bs = handle_bytes t f" "t \<in> {hdl_typ_file, hdl_typ_pfile}"
    "streams w f = Some st" "spipe st \<longleftrightarrow> t = hdl_typ_pfile"
    unfolding handle_ok_def by blast
  have "map_option spipe (streams w' f) = Some (spipe st)"
    using \<open>?same\<close> h(3) by (simp add: same_streams_def)
  then obtain st' where "streams w' f = Some st'" "spipe st' = spipe st"
    by (auto simp: map_option_eq_Some)
  with h show ?thesis unfolding handle_ok_def by blast
qed

lemma lib_ok_same: "lib_ok (g, w, m) \<Longrightarrow> same_streams w w' \<Longrightarrow> lib_ok (g, w', m)"
  by (auto simp: lib_ok_def intro: handle_ok_same) (simp add: same_streams_def)

text \<open>
  The four commands on a number that return do nothing, or found the number of an open stream.
\<close>

lemma with_handle_cases:
  assumes res: "with_handle use args (g, w, m) = Some (r, st')" and ok: "lib_ok (g, w, m)"
  obtains (nothing) "st' = (g, w, m)"
    | (known) x rest i t f where "args = JNumber x # rest" "c_int x = Some i" "0 \<le> sint i"
        "map_of (res_table g m) i = Some (handle_bytes t f)" "streams w f \<noteq> None"
proof -
  show thesis
  proof (cases "\<exists>x rest i. args = JNumber x # rest \<and> c_int x = Some i \<and> 0 \<le> sint i \<and> i \<in> set (res_ids g)")
    case True
    then obtain x rest i where x: "args = JNumber x # rest" "c_int x = Some i" "0 \<le> sint i" "i \<in> set (res_ids g)"
      by blast
    then obtain bs where bs: "map_of (res_table g m) i = Some bs"
      by (metis map_of_eq_None_iff option.exhaust list.set_map res_table_ids)
    then have "handle_ok w bs" using ok by (force simp: lib_ok_def dest: map_of_SomeD)
    then obtain t f where "bs = handle_bytes t f" "streams w f \<noteq> None" by (auto simp: handle_ok_def)
    with x bs show thesis by (intro known [of x rest i t f]) simp_all
  next
    case False
    have rok: "res_ok g m" using ok by (simp add: lib_ok_def)
    have "st' = (g, w, m)"
      using res False res_get_unknown [OF rok]
      by (auto simp: with_handle_def split: list.splits jsval.splits if_splits elim!: bind_SomeE)
    then show thesis by (rule nothing)
  qed
qed

lemma with_handle_number:
  "c_int x = Some i \<Longrightarrow> with_handle use (JNumber x # rest) st
     = with_handle use (JNumber (Num (of_int (sint i))) # rest) st"
  by (simp add: with_handle_def split: prod.split)

lemma close_keeps:
  assumes res: "with_handle fclose_use args st = Some (r, st')" and ok: "lib_ok st"
  shows "lib_ok st'"
proof -
  obtain g w m where st: "st = (g, w, m)" by (cases st)
  from res [unfolded st] ok [unfolded st] show ?thesis
  proof (cases rule: with_handle_cases)
    case nothing
    then show ?thesis using ok st by simp
  next
    case (known x rest i t f)
    obtain g' m' where "with_handle fclose_use (JNumber (Num (of_int (sint i))) # rest) (g, w, m) =
        Some ((V7_OK, JUndefined), g', w\<lparr>streams := (streams w)(f := None)\<rparr>, m')"
      "lib_ok (g', w\<lparr>streams := (streams w)(f := None)\<rparr>, m')"
      "res_table g' m' = filter (\<lambda>x. fst x \<noteq> i) (res_table g m)" "\<forall>a. rids g a = Some i \<longrightarrow> blocks m' a = None"
      by (rule close_spec [OF ok [unfolded st] known(3,4)])
    then show ?thesis using res known(1) with_handle_number [OF known(2)] st by simp
  qed
qed

lemma readline_keeps:
  assumes res: "jsc_readline args st = Some (r, st')" and ok: "lib_ok st"
  shows "lib_ok st'"
proof -
  obtain g w m where st: "st = (g, w, m)" by (cases st)
  note def = jsc_readline_def
  from res [unfolded st def] ok [unfolded st] show ?thesis
  proof (cases rule: with_handle_cases)
    case nothing
    then show ?thesis using ok st by simp
  next
    case (known x rest i t f)
    have "jsc_readline args st = Some ((V7_OK, JUndefined), g, snd (getline f w), m)"
      using jsc_readline_spec [OF ok [unfolded st] known(3,4), of rest] known(1) with_handle_number [OF known(2)] st
      by (simp add: def)
    then show ?thesis
      using res lib_ok_same [OF ok [unfolded st] getline_same [OF known(5)]] by simp
  qed
qed

text \<open>A registered block holds a handle of an open stream.\<close>

lemma registered_handle:
  assumes ok: "lib_ok (g, w, m)" and a: "rids g a = Some i"
  obtains t f where "load_handle (Ptr a res_hdr) m = Some (handle_code t, f)" "streams w f \<noteq> None"
proof -
  have inv: "res_inv g m" using ok by (simp add: lib_ok_def res_ok_def)
  then have it: "a \<in> set (hash_iter (rhead g))" using a by (auto simp: res_inv_def dom_def)
  then obtain blk where blk: "blocks m a = Some blk" using inv by (auto simp: res_inv_def)
  have "(i, drop res_hdr blk) \<in> set (res_table g m)" using a it blk by (force simp: res_table_def)
  then have "handle_ok w (drop res_hdr blk)" using ok by (force simp: lib_ok_def)
  then obtain t f where "drop res_hdr blk = handle_bytes t f" "streams w f \<noteq> None" by (auto simp: handle_ok_def)
  then show thesis using load_handle_block [OF blk] by (intro that [of t f]) auto
qed

lemma written_entry:
  assumes ok: "lib_ok (g, w, m)" and wr: "written args (g, w, m) = Some (i, hdl)"
  obtains a where "hdl = Ptr a res_hdr" "rids g a = Some i"
proof -
  have get: "\<exists>g1. res_get i g = Some (hdl, g1)" "hdl \<noteq> Null"
    using wr by (auto simp: written_def split: list.splits jsval.splits option.splits if_splits)
  have rok: "res_ok g m" using ok by (simp add: lib_ok_def)
  show thesis
  proof (cases "i \<in> set (res_ids g)")
    case True
    then obtain bs where bs: "map_of (res_table g m) i = Some bs"
      by (metis map_of_eq_None_iff option.exhaust list.set_map res_table_ids)
    obtain a where "rids g a = Some i" "res_get i g = Some (Ptr a res_hdr, g)" by (rule res_get_load [OF rok bs])
    then show thesis using get by (intro that [of a]) simp_all
  qed (use get res_get_unknown [OF rok] in auto)
qed

text \<open>The commands on a number act on the resource, or do nothing.\<close>

definition number_ok :: "jsval list \<Rightarrow> bool" where
  "number_ok args \<longleftrightarrow> (case args of JNumber x # _ \<Rightarrow> c_int x \<noteq> None | _ \<Rightarrow> True)"

lemma with_handle_written:
  assumes ok: "lib_ok (g, w, m)" and num: "number_ok args"
  shows "with_handle use args (g, w, m) =
     (case written args (g, w, m) of
        None \<Rightarrow> Some ((V7_OK, JUndefined), g, w, m)
      | Some (i, hdl) \<Rightarrow> map_option (\<lambda>st. ((V7_OK, JUndefined), st)) (use i hdl (g, w, m)))"
proof -
  have rok: "res_ok g m" using ok by (simp add: lib_ok_def)
  have get: "\<exists>p. res_get i g = Some (p, g)" for i
  proof (cases "i \<in> set (res_ids g)")
    case True
    then obtain bs where bs: "map_of (res_table g m) i = Some bs"
      by (metis map_of_eq_None_iff option.exhaust list.set_map res_table_ids)
    obtain a where "res_get i g = Some (Ptr a res_hdr, g)" by (rule res_get_load [OF rok bs])
    then show ?thesis by blast
  qed (use res_get_unknown [OF rok] in blast)
  show ?thesis
  proof (cases "\<exists>x rest i. args = JNumber x # rest \<and> c_int x = Some i")
    case True
    then obtain x rest i where x: "args = JNumber x # rest" "c_int x = Some i" by blast
    obtain p where "res_get i g = Some (p, g)" using get by blast
    then show ?thesis using x by (cases "use i p (g, w, m)") (simp_all add: with_handle_def written_def)
  next
    case False
    then show ?thesis using num by (auto simp: with_handle_def written_def number_ok_def split: list.splits jsval.splits)
  qed
qed

lemma with_handle_number_ok: "with_handle use args st = Some r \<Longrightarrow> number_ok args"
  by (auto simp: with_handle_def number_ok_def split: prod.splits list.splits jsval.splits elim!: bind_SomeE)

text \<open>One round of the loop of \<open>writestring\<close>, from a state in which its number is open.\<close>

lemma writestring_round:
  assumes ok: "lib_ok (g, w, m)" and a: "rids g a = Some i" and p: "v7_stringify str v st = Some (p, g, w, m)"
  obtains t f where "load_handle (Ptr a res_hdr) m = Some (t, f)" "lib_ok (g, fwrite (c_string p) f w, m)"
    "writestring_loop str (Ptr a res_hdr) (v # vs) st = writestring_loop str (Ptr a res_hdr) vs (g, fwrite (c_string p) f w, m)"
proof -
  obtain t f where h: "load_handle (Ptr a res_hdr) m = Some (handle_code t, f)" "streams w f \<noteq> None"
    by (rule registered_handle [OF ok a])
  from that [OF h(1) lib_ok_same [OF ok fwrite_same [OF h(2)]]] p h(1) show thesis by simp
qed

text \<open>\<open>echo\<close> closes the one stream it opens.\<close>

lemma echo_keeps:
  assumes res: "jsc_echo H args w = (r, w')" and ok: "lib_ok (g, w, m)"
  shows "lib_ok (g, w', m)"
proof (cases "w' = w")
  case False
  then obtain a b where ab: "(case fopen H b [119, 98] w of
      (fp, w1) \<Rightarrow> if fp \<noteq> 0 then fclose fp (fwrite a fp w1) else w1) = w'"
    using res by (auto simp: jsc_echo_def split: list.splits jsval.splits option.splits)
  obtain fp w1 where o: "fopen H b [119, 98] w = (fp, w1)" by fastforce
  note new = fopen_opens_new [of H b "[119, 98]", unfolded opens_new_def, rule_format, OF o]
  have "same_streams w w'"
  proof (cases "fp = 0")
    case True
    then show ?thesis using ab o new by (simp add: same_streams_def)
  next
    case False
    then obtain st where st: "streams w fp = None" "streams w1 = (streams w)(fp \<mapsto> st)" "\<not> spipe st"
      using new by auto
    have same: "same_streams w1 (fwrite a fp w1)" using st(2) by (intro fwrite_same) simp
    then have "map_option spipe (streams (fwrite a fp w1) fp) = Some False"
      using st by (simp add: same_streams_def)
    then obtain st' where st': "streams (fwrite a fp w1) fp = Some st'" "\<not> spipe st'"
      by (auto simp: map_option_eq_Some)
    have "w' = (fwrite a fp w1)\<lparr>streams := (streams (fwrite a fp w1))(fp := None)\<rparr>"
      using ab o False st' by (simp add: fclose_def close_stream_def)
    then show ?thesis using same st new by (auto simp: same_streams_def)
  qed
  then show ?thesis by (rule lib_ok_same [OF ok])
qed (use ok in simp)

subsection \<open>Sessions\<close>

text \<open>The directory, the list of matches, the log.\<close>

lemma cd_same: "jsc_cd H args w = (r, w') \<Longrightarrow> same_streams w w'"
  by (auto simp: jsc_cd_def chdir_def same_streams_def Let_def split: list.splits jsval.splits option.splits)

lemma ls_loop_same: "ls_loop H msg args paths c w = (paths', c', w') \<Longrightarrow> same_streams w w'"
proof (induction H msg args paths c w rule: ls_loop.induct)
  case (2 H msg v args paths c w)
  then show ?case
    by (auto simp: log_err_def log_msg_def same_streams_def Let_def split: jsval.splits option.splits if_splits)
qed (simp add: same_streams_def)

lemma ls_same: "jsc_ls H msg args w = (r, w') \<Longrightarrow> same_streams w w'"
proof -
  assume res: "jsc_ls H msg args w = (r, w')"
  obtain paths c w1 where l: "(if args = [] then ls_loop H msg [JString [46]] [] 0 w else ls_loop H msg args [] 0 w) = (paths, c, w1)"
    by (metis prod.exhaust)
  then have "w' = w1" using res by (auto simp: jsc_ls_def split: if_splits)
  then show ?thesis using l ls_loop_same by (metis (full_types))
qed

lemma lib_keeps:
  "lib_step L H str st st' \<Longrightarrow> lib_ok st \<longrightarrow> lib_ok st'"
  "lib_reach L H str st st' \<Longrightarrow> lib_ok st \<longrightarrow> lib_ok st'"
  "calm L H str i hdl vs st \<Longrightarrow> \<forall>a. hdl = Ptr a res_hdr \<longrightarrow> rids (fst st) a = Some i \<longrightarrow> lib_ok st \<longrightarrow>
     (\<exists>st'. writestring_loop str hdl vs st = Some st' \<and> lib_ok st')"
proof (induction rule: lib_step_lib_reach_calm.inducts)
  case (step_fopen args st r st')
  then show ?case
    using open_handle_keeps [OF step_fopen(1) [unfolded jsc_fopen_def] _ step_fopen(2,3)] by (simp add: fopen_opens_new)
next
  case (step_popen args st r st')
  then show ?case
    using open_handle_keeps [OF step_popen(1) [unfolded jsc_popen_def] _ step_popen(2,3)] by (simp add: popen_opens_new)
next
  case (step_fclose args st r st')
  then show ?case using close_keeps by (simp add: fclose_eq)
next
  case (step_pclose args st r st')
  then show ?case using close_keeps by (simp add: fclose_eq)
next
  case (step_readline args st r st')
  then show ?case using readline_keeps by blast
next
  case (step_writestring args st r st')
  obtain g w m where st: "st = (g, w, m)" by (cases st)
  show ?case
  proof
    assume ok: "lib_ok st"
    note res = step_writestring(1) [unfolded jsc_writestring_def st with_handle_written [OF ok [unfolded st]
        with_handle_number_ok [OF step_writestring(1) [unfolded jsc_writestring_def]]]]
    show "lib_ok st'"
    proof (cases "written args (g, w, m)")
      case (Some ih)
      obtain i hdl where ih: "ih = (i, hdl)" by fastforce
      obtain a where "hdl = Ptr a res_hdr" "rids g a = Some i" by (rule written_entry [OF ok [unfolded st] Some [unfolded ih]])
      then show ?thesis using step_writestring(2) ok res Some ih st by fastforce
    qed (use res ok st in simp)
  qed
next
  case (step_exec args st r st')
  then show ?case by blast
next
  case (step_echo args w r w' g m)
  then show ?case using echo_keeps by blast
next
  case (step_cat args w m r w' m' g)
  then show ?case using cat_keeps by blast
next
  case (step_cd args w r w' g m)
  then show ?case using lib_ok_same cd_same by blast
next
  case (step_ls msg args w r w' g m)
  then show ?case using lib_ok_same ls_same by blast
next
  case (calm_arg v st p g w m i hdl vs)
  show ?case
  proof (intro allI impI)
    fix a assume a: "hdl = Ptr a res_hdr" "rids (fst st) a = Some i" "lib_ok st"
    have ok: "lib_ok (g, w, m)" using calm_arg a(3) by blast
    have "stays_open i st (g, w, m)" using calm_arg by blast
    then have open1: "rids g a = Some i" using a(2) by (simp add: stays_open_def)
    obtain t f where t: "load_handle (Ptr a res_hdr) m = Some (t, f)" "lib_ok (g, fwrite (c_string p) f w, m)"
      "writestring_loop str (Ptr a res_hdr) (v # vs) st = writestring_loop str (Ptr a res_hdr) vs (g, fwrite (c_string p) f w, m)"
      by (rule writestring_round [OF ok open1 calm_arg(1)])
    show "\<exists>st'. writestring_loop str hdl (v # vs) st = Some st' \<and> lib_ok st'"
      using calm_arg a(1) open1 t by fastforce
  qed
qed simp_all

lemma lib_reach_ok: "lib_reach L H str st st' \<Longrightarrow> lib_ok st \<Longrightarrow> lib_ok st'"
  using lib_keeps(2) by blast

subsection \<open>Every call returns\<close>

text \<open>Names without a NUL byte inside: \<open>v7_to_cstring\<close> answers NULL for others, and \<open>fopen\<close> gets it.\<close>

definition names_ok :: "jsval list \<Rightarrow> bool" where
  "names_ok args \<longleftrightarrow> (case args of JString a # JString b # _ \<Rightarrow> 0 \<notin> set a \<and> 0 \<notin> set b | _ \<Rightarrow> True)"

lemma open_handle_returns:
  assumes ok: "lib_ok st" and room: "roomy L st" and names: "names_ok args" and t: "t \<in> {hdl_typ_file, hdl_typ_pfile}"
    and opn: "\<forall>a b. opens_new (t = hdl_typ_pfile) (opn a b)"
  shows "open_handle L t opn args st \<noteq> None"
proof (cases "\<exists>s0 s1 rest. args = JString s0 # JString s1 # rest")
  case True
  then obtain s0 s1 rest where a: "args = JString s0 # JString s1 # rest" by blast
  obtain g w m where st: "st = (g, w, m)" by (cases st)
  have cs: "to_cstring s0 = Some s0" "to_cstring s1 = Some s1" using names a by (simp_all add: names_ok_def to_cstring_def)
  have room': "hash_room (rhead g)" "length (res_ids g) < 2 ^ 32" "malloc_succeeds L 80 m"
    using room by (simp_all add: roomy_def st)
  show ?thesis
    by (rule open_handle_spec [OF ok [unfolded st] room' t cs, of opn rest]) (use opn a st in simp_all)
qed (use open_handle_other in simp)

lemma close_returns:
  assumes ok: "lib_ok st" and num: "number_ok args"
  shows "with_handle fclose_use args st \<noteq> None" "jsc_readline args st \<noteq> None"
proof -
  obtain g w m where st: "st = (g, w, m)" by (cases st)
  have "with_handle fclose_use args st \<noteq> None \<and> jsc_readline args st \<noteq> None"
  proof (cases "\<exists>x rest i. args = JNumber x # rest \<and> c_int x = Some i \<and> 0 \<le> sint i \<and> i \<in> set (res_ids g)")
    case True
    then obtain x rest i where x: "args = JNumber x # rest" "c_int x = Some i" "0 \<le> sint i" "i \<in> set (res_ids g)"
      by blast
    then obtain bs where bs: "map_of (res_table g m) i = Some bs"
      by (metis map_of_eq_None_iff option.exhaust list.set_map res_table_ids)
    then have "handle_ok w bs" using ok st by (force simp: lib_ok_def dest: map_of_SomeD)
    then obtain t f where tf: "bs = handle_bytes t f" by (auto simp: handle_ok_def)
    have "with_handle fclose_use args st \<noteq> None"
      by (rule close_spec [OF ok [unfolded st] x(3), of t f rest]) (use bs tf x(1) with_handle_number [OF x(2)] st in simp_all)
    moreover have "jsc_readline args st \<noteq> None"
      using jsc_readline_spec [OF ok [unfolded st] x(3), of t f rest] bs tf x(1) with_handle_number [OF x(2)] st
      by (simp add: jsc_readline_def)
    ultimately show ?thesis by blast
  next
    case False
    have rok: "res_ok g m" using ok st by (simp add: lib_ok_def)
    have "with_handle use args st \<noteq> None" for use
      using False res_get_unknown [OF rok] num
      by (auto simp: with_handle_def number_ok_def st split: list.splits jsval.splits)
    then show ?thesis by (simp add: jsc_readline_def)
  qed
  then show "with_handle fclose_use args st \<noteq> None" "jsc_readline args st \<noteq> None" by simp_all
qed

lemma writestring_returns:
  assumes ok: "lib_ok st" and num: "number_ok args"
    and calm: "\<forall>i hdl. written args st = Some (i, hdl) \<longrightarrow> calm L H str i hdl (tl args) st"
  shows "jsc_writestring str args st \<noteq> None"
proof -
  obtain g w m where st: "st = (g, w, m)" by (cases st)
  show ?thesis
  proof (cases "written args (g, w, m)")
    case (Some ih)
    obtain i hdl where ih: "ih = (i, hdl)" by fastforce
    obtain a where "hdl = Ptr a res_hdr" "rids g a = Some i" by (rule written_entry [OF ok [unfolded st] Some [unfolded ih]])
    then show ?thesis using lib_keeps(3) calm ok Some ih st with_handle_written [OF ok [unfolded st] num]
      by (fastforce simp: jsc_writestring_def)
  qed (use with_handle_written [OF ok [unfolded st] num] st in \<open>simp add: jsc_writestring_def\<close>)
qed

text \<open>
  A conversion that closes the number that is written to: the block of the handle is gone when the loop reads it.
\<close>

lemma writestring_closed:
  assumes ok: "lib_ok (g, w, m)" and i: "0 \<le> sint i" "map_of (res_table g m) i = Some (handle_bytes t f)"
    and str: "str v (g, w, m) = map_option (\<lambda>(_, st). (r, st)) (jsc_fclose [JNumber (Num (of_int (sint i)))] (g, w, m))"
  shows "jsc_writestring str (JNumber (Num (of_int (sint i))) # v # vs) (g, w, m) = None"
proof -
  obtain a where a: "\<forall>use rest. with_handle use (JNumber (Num (of_int (sint i))) # rest) (g, w, m) =
       do { st1 \<leftarrow> use i (Ptr a res_hdr) (g, w, m); Some ((V7_OK, JUndefined), st1) }" "rids g a = Some i"
    by (rule with_handle_known [OF ok i])
  obtain g' m' where c: "jsc_fclose [JNumber (Num (of_int (sint i)))] (g, w, m) =
      Some ((V7_OK, JUndefined), g', w\<lparr>streams := (streams w)(f := None)\<rparr>, m')" "\<forall>a. rids g a = Some i \<longrightarrow> blocks m' a = None"
    unfolding fclose_eq by (rule close_spec [OF ok i, of "[]"])
  have "load_handle (Ptr a res_hdr) m' = None" using c(2) a(2) by (simp add: load_handle_def)
  then show ?thesis using a(1) c(1) str by (simp add: jsc_writestring_def v7_stringify_def)
qed

lemma calm_plain: "plain_strings str txt vs \<Longrightarrow> calm L H str i hdl vs s"
proof (induction vs arbitrary: s)
  case (Cons v vs s)
  obtain g w m where s: "s = (g, w, m)" by (cases s)
  have "v7_stringify str v s = Some (txt v, g, w, m)" using Cons.prems s by (simp add: v7_stringify_def plain_strings_def)
  then show ?case
  proof (rule calm_arg)
    show "lib_reach L H str s (g, w, m)" by (simp add: s reach_refl)
  qed (use Cons s in \<open>simp_all add: stays_open_def plain_strings_def\<close>)
qed (simp add: calm_end)

subsection \<open>The end\<close>

text \<open>From the installation to the end of the program: all streams that are left are closed.\<close>

lemma session_end:
  assumes "misused w = []" "jsc_install_file_lib L w m = Some st0" "lib_reach L H str st0 (g, w1, m1)"
  obtains g' m' where "jsc_uninstall_file_lib (g, w1, m1) =
      Some (g', w1\<lparr>streams := (\<lambda>f. if f \<in> set (lib_files g m1) then None else streams w1 f)\<rparr>, m')"
    "hash_iter (rhead g') = []" "misused w1 = []"
    "\<forall>a \<in> set (hash_iter (rhead g)). blocks m' a = None"
proof -
  have ok: "lib_ok (g, w1, m1)" by (rule lib_reach_ok [OF assms(3) install_ok(1) [OF assms(1,2)]])
  obtain g' where "jsc_uninstall_file_lib (g, w1, m1) =
      Some (g', w1\<lparr>streams := (\<lambda>f. if f \<in> set (lib_files g m1) then None else streams w1 f)\<rparr>,
            remove_blocks (set (hash_iter (rhead g))) m1)" "hash_iter (rhead g') = []"
    by (rule uninstall_spec [OF ok])
  with ok show thesis
    by (intro that [of g' "remove_blocks (set (hash_iter (rhead g))) m1"]) (simp_all add: lib_ok_def remove_blocks_def)
qed

end
