(* ===== verification/ShellCorrect.thy ===== *)
theory ShellCorrect
  imports Shell Session
begin

text \<open>
  Facts about \<open>main.c\<close>: the first line of a script with an interpreter mark is skipped and nothing
  else, a script is read whole, the table of error texts has no entry for \<open>V7_INTERNAL_ERROR\<close>, and
  the program ends with every file of the library closed once.
\<close>

lemma line_tail_some: "0 \<in> set cs \<Longrightarrow> \<exists>ds. line_tail cs = Some ds \<and> 0 \<in> set ds"
  by (induction cs) auto

lemma line_head_some: "0 \<in> set cs \<Longrightarrow> \<exists>ds. line_head cs = Some ds"
  by (induction cs) auto

lemma line_tail_skip:
  "\<forall>c \<in> set l. c \<noteq> 0 \<and> c \<noteq> 10 \<and> c \<noteq> 13 \<Longrightarrow> line_tail (l @ cs) = line_tail cs"
  by (induction l) auto

lemma line_head_skip: "\<forall>c \<in> set l. c = 10 \<or> c = 13 \<Longrightarrow> line_head (l @ cs) = line_head cs"
  by (induction l) auto

lemma script_start_defined:
  assumes "0 \<in> set code"
  shows "script_start code \<noteq> None"
proof (cases "take 2 code = [35, 33]")
  case True
  have "0 \<in> set (take 2 code @ drop 2 code)" using assms by simp
  then have "0 \<in> set (drop 2 code)" unfolding set_append True by simp
  then obtain ds where "line_tail (drop 2 code) = Some ds" "0 \<in> set ds"
    using line_tail_some by blast
  with line_head_some [of ds] show ?thesis by (auto simp: script_start_def)
qed (simp add: script_start_def)

lemma script_start_shebang:
  assumes "\<forall>c \<in> set line. c \<noteq> 0 \<and> c \<noteq> 10 \<and> c \<noteq> 13" "nl \<noteq> []" "\<forall>c \<in> set nl. c = 10 \<or> c = 13"
    and "rest \<noteq> []" "hd rest \<noteq> 10" "hd rest \<noteq> 13"
  shows "script_start ([35, 33] @ line @ nl @ rest) = Some rest"
proof -
  have "line_tail (nl @ rest) = Some (nl @ rest)"
    using assms(2,3) by (cases nl) auto
  moreover have "line_head rest = Some rest"
    using assms(4-6) by (cases rest) auto
  ultimately show ?thesis
    using line_tail_skip [OF assms(1)] line_head_skip [OF assms(3)] by (simp add: script_start_def)
qed

lemma print_err_none: "print_err_and_res err r w = None \<longleftrightarrow> err = V7_INTERNAL_ERROR"
  by (cases err) (simp_all add: print_err_and_res_def errs_string_def)

text \<open>Running one code: total for an interpreter that never answers an internal error.\<close>

lemma run_code_some:
  assumes "exec (c_string code) s = ((err, r), s1)" "err \<noteq> V7_INTERNAL_ERROR"
  shows "\<exists>bs. run_code exec code s = Some (s1\<lparr>sys := print_out bs (sys s1)\<rparr>)"
proof (cases "err = V7_OK")
  case True
  then have "run_code exec code s = Some (s1\<lparr>sys := print_out [] (sys s1)\<rparr>)"
    using assms(1) by (simp add: run_code_def print_out_def)
  then show ?thesis by blast
next
  case False
  obtain w where w: "print_err_and_res err r (sys s1) = Some w"
    using print_err_none assms(2) by (cases "print_err_and_res err r (sys s1)") auto
  then obtain bs where "w = print_out bs (sys s1)"
    by (auto simp: print_err_and_res_def split: if_splits)
  with w assms(1) False show ?thesis by (auto simp: run_code_def)
qed

lemma read_file_spec:
  assumes p: "absolute H (cwd w) b = p" "files w p = Some bs" "\<not> is_dir H p" "can_open H w"
    and len: "length bs + 1 < 2 ^ 63" and mal: "malloc_succeeds L (length bs + 1) m"
  defines "a \<equiv> pick L (tick m) (length bs + 1)"
  shows "read_file L H b w m = Some ((Ptr a 0, Some (of_nat (length bs))),
     w\<lparr>opens := Suc (opens w)\<rparr>, \<lparr>blocks = (blocks m)(a \<mapsto> bs @ [0]), tick = Suc (tick m)\<rparr>)"
proof -
  let ?f = "new_file H (opens w)"
  let ?st = "\<lparr>spath = p, spipe = False, sout = [], spos = 0, sread = True, swrite = False, sappend = False\<rparr>"
  let ?w = "w\<lparr>opens := Suc (opens w), streams := (streams w)(?f \<mapsto> ?st)\<rparr>"
  let ?n = "of_nat (length bs) :: u64"
  have f: "?f \<noteq> 0" "streams w ?f = None" using p(4) by (simp_all add: can_open_def)
  note open1 = opened_read [OF p]
  have n: "unat ?n = length bs" "unat (?n + 1) = length bs + 1"
    using len by (simp_all add: unat_of_nat unat_word_ariths)
  have a: "a \<noteq> 0" "blocks m a = None" using mal by (simp_all add: malloc_succeeds_def a_def)
  have alloc: "\<exists>js. length js = length bs + 1 \<and>
      malloc L (length bs + 1) m = (Ptr a 0, \<lparr>blocks = (blocks m)(a \<mapsto> js), tick = Suc (tick m)\<rparr>)"
    using a by (intro exI [of _ "map (junk L (tick m)) [0..<length bs + 1]"]) (simp add: malloc_def a_def Let_def)
  then obtain js where js: "length js = length bs + 1"
      "malloc L (length bs + 1) m = (Ptr a 0, \<lparr>blocks = (blocks m)(a \<mapsto> js), tick = Suc (tick m)\<rparr>)"
    by blast
  let ?w4 = "?w\<lparr>streams := (streams w)(?f \<mapsto> ?st\<lparr>spos := length bs\<rparr>)\<rparr>"
  have seek: "fseek_end ?f ?w = (True, ?w4)" "fseek_set ?f ?w4 = (True, ?w)" "ftell ?f ?w4 = ?n"
    using p(2) by (simp_all add: fseek_end_def fseek_set_def can_seek_def seek_to_def stream_data_def ftell_def)
  have rd: "fread 1 ?n ?f ?w = (?n, bs, ?w4)"
    using p(2) n(1) by (auto simp: fread_def seek_to_def stream_data_def Let_def)
  let ?m1 = "\<lparr>blocks = (blocks m)(a \<mapsto> js), tick = Suc (tick m)\<rparr>"
  let ?m2 = "?m1\<lparr>blocks := (blocks m)(a \<mapsto> bs @ drop (length bs) js)\<rparr>"
  let ?m3 = "?m1\<lparr>blocks := (blocks m)(a \<mapsto> bs @ [0])\<rparr>"
  have "mem_store (Ptr a 0) bs ?m1 = Some ?m2" "mem_store (Ptr a (length bs)) [0] ?m2 = Some ?m3"
    using js(1) by simp_all
  then show ?thesis
    using open1 seek js(2) rd n f
    by (simp add: read_file_def Let_def fclose_def close_stream_def fun_upd_idem)
qed

text \<open>A script longer than two bytes: what the interpreter gets.\<close>

lemma run_script_spec:
  assumes p: "absolute H (cwd (sys s)) b = p" "files (sys s) p = Some bs" "\<not> is_dir H p" "can_open H (sys s)"
    and len: "2 < length bs" "length bs + 1 < 2 ^ 63" and mal: "malloc_succeeds L (length bs + 1) (heap s)"
  shows "run_script L H exec b s =
     (let a = pick L (tick (heap s)) (length bs + 1) in
      run_code exec (the (script_start (bs @ [0])))
        (s\<lparr>sys := (sys s)\<lparr>opens := Suc (opens (sys s))\<rparr>,
           heap := \<lparr>blocks = (blocks (heap s))(a \<mapsto> bs @ [0]), tick = Suc (tick (heap s))\<rparr>\<rparr>))"
proof -
  have n: "unat (of_nat (length bs) :: u64) = length bs" using len(2) by (simp add: unat_of_nat)
  then have "(2 :: u64) < of_nat (length bs)" using len(1) by (simp add: word_less_nat_alt)
  moreover obtain code where "script_start (bs @ [0]) = Some code"
    using script_start_defined [of "bs @ [0]"] by auto
  ultimately show ?thesis
    using read_file_spec [OF p len(2) mal] n by (simp add: run_script_def Let_def)
qed

subsection \<open>The whole program\<close>

definition shell_ok :: "'js shell \<Rightarrow> bool" where
  "shell_ok s \<longleftrightarrow> lib_ok (opened s, sys s, heap s) \<and> running s = None"

text \<open>
  An interpreter that reaches files, streams and the library only by the commands: running a code is a session.
  It has no internal error.
\<close>

definition engine_ok :: "libc \<Rightarrow> host \<Rightarrow> to_string \<Rightarrow> 'js engine_exec \<Rightarrow> bool" where
  "engine_ok L H str exec \<longleftrightarrow>
     (\<forall>code s. fst (fst (exec code s)) \<noteq> V7_INTERNAL_ERROR \<and> running (snd (exec code s)) = running s \<and>
        lib_reach L H str (opened s, sys s, heap s)
          (opened (snd (exec code s)), sys (snd (exec code s)), heap (snd (exec code s))))"

lemma engine_ok_keeps: "engine_ok L H str exec \<Longrightarrow> shell_ok s \<Longrightarrow> shell_ok (snd (exec code s))"
  unfolding engine_ok_def shell_ok_def by (metis lib_reach_ok)

lemma shell_ok_print: "shell_ok (s\<lparr>sys := print_out bs (sys s)\<rparr>) = shell_ok s"
  by (simp add: shell_ok_def lib_ok_def print_out_def handle_ok_def)

lemma run_code_ok:
  assumes "engine_ok L H str exec" "shell_ok s"
  shows "\<exists>s'. run_code exec code s = Some s' \<and> shell_ok s'"
proof -
  obtain err r s1 where e: "exec (c_string code) s = ((err, r), s1)" by (metis prod.exhaust)
  have "err \<noteq> V7_INTERNAL_ERROR" using assms(1) e by (auto simp: engine_ok_def dest!: spec [of _ "c_string code"] spec [of _ s])
  moreover have "shell_ok s1" using engine_ok_keeps [OF assms, of "c_string code"] e by simp
  moreover obtain bs where "run_code exec code s = Some (s1\<lparr>sys := print_out bs (sys s1)\<rparr>)"
    using run_code_some [of exec code s err r s1, OF e \<open>err \<noteq> V7_INTERNAL_ERROR\<close>] by blast
  ultimately show ?thesis by (simp add: shell_ok_print)
qed

lemma read_eval_ok:
  assumes "engine_ok L H str exec" "shell_ok s"
  shows "\<exists>s'. read_eval exec lines s = Some s' \<and> shell_ok s'"
  using assms(2)
proof (induction lines arbitrary: s)
  case (Cons l ls)
  obtain s1 where "run_code exec l s = Some s1" "shell_ok s1"
    using run_code_ok [OF assms(1) Cons.prems] by blast
  with Cons.IH [of "s1\<lparr>sys := print_out prompt (sys s1)\<rparr>"] show ?case by (simp add: shell_ok_print)
qed simp

text \<open>The end of the program: no thread is left to wait for, the files are closed.\<close>

lemma shell_end:
  assumes "shell_ok s"
  obtains s2 where "shell_run_done E s = Some s" "uninstall_all_js_clibs s = Some s2"
    "hash_iter (rhead (opened s2)) = []" "misused (sys s) = []"
    "sys s2 = (sys s)\<lparr>streams := (\<lambda>f. if f \<in> set (lib_files (opened s) (heap s)) then None else streams (sys s) f)\<rparr>"
    "heap s2 = remove_blocks (set (hash_iter (rhead (opened s)))) (heap s)"
    "\<forall>f \<in> set (lib_files (opened s) (heap s)). streams (sys s) f \<noteq> None"
proof -
  have ok: "lib_ok (opened s, sys s, heap s)" and run: "running s = None"
    using assms by (simp_all add: shell_ok_def)
  obtain g' where g': "jsc_uninstall_file_lib (opened s, sys s, heap s) =
      Some (g', (sys s)\<lparr>streams := (\<lambda>f. if f \<in> set (lib_files (opened s) (heap s)) then None else streams (sys s) f)\<rparr>,
            remove_blocks (set (hash_iter (rhead (opened s)))) (heap s))"
    "hash_iter (rhead g') = []"
    by (rule uninstall_spec [OF ok])
  have "shell_run_done E s = Some s"
    using run by (simp add: shell_run_done_def run_done_def)
  moreover have "misused (sys s) = []" using ok by (simp add: lib_ok_def)
  moreover have "\<forall>f \<in> set (lib_files (opened s) (heap s)). streams (sys s) f \<noteq> None"
    using ok lib_files_open by (auto simp: lib_ok_def)
  ultimately show thesis
    using g'
    by (intro that [of "s\<lparr>opened := g',
          sys := (sys s)\<lparr>streams := (\<lambda>f. if f \<in> set (lib_files (opened s) (heap s)) then None else streams (sys s) f)\<rparr>,
          heap := remove_blocks (set (hash_iter (rhead (opened s)))) (heap s)\<rparr>"])
       (simp_all add: uninstall_all_js_clibs_def)
qed

lemma shell_main_repl:
  assumes ok: "engine_ok L H str exec" and mis: "misused w = []" and g: "jsc_install_file_lib L w m = Some (g, w1, m1)"
  shows "\<exists>s1 s. read_eval exec lines \<lparr>opened = g, running = None, posix_os = os, sys = print_out version_text w1, heap = m1, engine = js\<rparr> = Some s1 \<and>
     shell_main L E H exec [] lines os w m js = Some s \<and>
     (\<forall>f \<in> set (lib_files (opened s1) (heap s1)). streams (sys s1) f \<noteq> None) \<and>
     sys s = (sys s1)\<lparr>streams := (\<lambda>f. if f \<in> set (lib_files (opened s1) (heap s1)) then None else streams (sys s1) f)\<rparr> \<and>
     heap s = remove_blocks (set (hash_iter (rhead (opened s1)))) (heap s1) \<and>
     hash_iter (rhead (opened s)) = [] \<and> misused (sys s1) = []"
proof -
  let ?s = "\<lparr>opened = g, running = None, posix_os = os, sys = w1, heap = m1, engine = js\<rparr>"
  have "lib_ok (g, w1, m1)" by (rule install_ok(1) [OF mis g])
  then have s: "shell_ok (?s\<lparr>sys := print_out version_text (sys ?s)\<rparr>)"
    unfolding shell_ok_print by (simp add: shell_ok_def)
  obtain s1 where s1: "read_eval exec lines (?s\<lparr>sys := print_out version_text (sys ?s)\<rparr>) = Some s1" "shell_ok s1"
    using read_eval_ok [OF ok s] by blast
  obtain s2 where e: "shell_run_done E s1 = Some s1" "uninstall_all_js_clibs s1 = Some s2"
    "hash_iter (rhead (opened s2)) = []" "misused (sys s1) = []"
    "sys s2 = (sys s1)\<lparr>streams := (\<lambda>f. if f \<in> set (lib_files (opened s1) (heap s1)) then None else streams (sys s1) f)\<rparr>"
    "heap s2 = remove_blocks (set (hash_iter (rhead (opened s1)))) (heap s1)"
    "\<forall>f \<in> set (lib_files (opened s1) (heap s1)). streams (sys s1) f \<noteq> None"
    by (rule shell_end [OF s1(2)])
  have "shell_main L E H exec [] lines os w m js = Some s2"
    using s1(1) g e(1,2) by (simp add: shell_main_def install_all_js_clibs_def)
  then show ?thesis using s1(1) e(3-7) by auto
qed

text \<open>\<open>httpd()\<close>: the block of the thread has no room for the thread, so the command has no result.\<close>

lemma httpd_none: "jsc_httpd L E httpd st = None"
  using run_none [of 0 None L E httpd st] by (simp add: jsc_httpd_def)

end
