(* ===== verification/MgnMem.thy ===== *)
theory MgnMem
  imports ResourceCorrect
begin

text \<open>
  The managed memory pool of \<open>platform/plat_mgn_mem.h\<close>: reference-counted heap blocks, found
  by their address in a hash table. A \<open>mgn_memory\<close> node is itself a heap block (80 bytes: \<open>m\<close>,
  \<open>s\<close>, \<open>r\<close> and the 56 bytes of the hash handle), whose three fields are kept in \<open>nodes\<close>. The
  header includes \<open>platform/uthash.h\<close>, version 2.0.2, whose lookup also compares the stored hash
  values before the keys; which element it finds is the same, and the table is the one of
  the theory Uthash. The debug prints write no state and are left out.
\<close>

record mgn_memory =
  mgn_m :: ptr
  mgn_s :: u64
  mgn_r :: u64

record pool =
  phead :: head
  nodes :: "addr \<Rightarrow> mgn_memory option"

definition empty_pool :: pool where
  "empty_pool = \<lparr>phead = None, nodes = Map.empty\<rparr>"

definition node_size :: u32 where "node_size = 80"

fun mem_key :: "ptr \<Rightarrow> u8 list" where
  "mem_key Null = ptr_key 0"
| "mem_key (Ptr a off) = ptr_key (a + of_nat off)"

definition mgn_find :: "pool \<Rightarrow> ptr \<Rightarrow> addr option" where
  "mgn_find p x = hash_find (phead p) (mem_key x)"

text \<open>The element \<open>a\<close> gets its fields and is linked under the address of its memory.\<close>

definition mgn_link :: "addr \<Rightarrow> mgn_memory \<Rightarrow> pool \<Rightarrow> pool" where
  "mgn_link a n p = \<lparr>phead = hash_add a (mem_key (mgn_m n)) (phead p), nodes = (nodes p)(a \<mapsto> n)\<rparr>"

text \<open>The block of a new node and its memory, as both \<open>ralloc\<close> branches get them.\<close>

definition mgn_new :: "libc \<Rightarrow> u64 \<Rightarrow> mem \<Rightarrow> ((ptr \<times> ptr) option \<times> mem) option" where
  "mgn_new L new_size m =
     do { (q, m1) \<leftarrow> plat_mem_allocate L node_size m;
          if q = Null then Some (None, m1)
          else
            do { (new_m, m2) \<leftarrow> plat_mem_allocate L (ucast new_size) m1;
                 if new_m = Null
                 then do { m3 \<leftarrow> plat_mem_release q m2; Some (None, m3) }
                 else Some (Some (q, new_m), m2) } }"

definition mgn_grow_owned :: "libc \<Rightarrow> addr \<Rightarrow> mgn_memory \<Rightarrow> u64 \<Rightarrow> pool \<Rightarrow> mem \<Rightarrow> (ptr \<times> pool \<times> mem) option" where
  "mgn_grow_owned L a n new_size p m =
     do { h \<leftarrow> hash_delete a (phead p);
          (new_m, m1) \<leftarrow> plat_mem_allocate L (ucast new_size) m;
          if new_m = Null then Some (Null, p\<lparr>phead := h\<rparr>, m1)
          else
            do { m2 \<leftarrow> plat_mem_copy new_m (mgn_m n) (ucast (mgn_s n)) m1;
                 m3 \<leftarrow> plat_mem_release (mgn_m n) m2;
                 Some (new_m, mgn_link a (n\<lparr>mgn_m := new_m, mgn_s := new_size\<rparr>) (p\<lparr>phead := h\<rparr>), m3) } }"

definition mgn_grow_shared :: "libc \<Rightarrow> addr \<Rightarrow> mgn_memory \<Rightarrow> ptr \<Rightarrow> u64 \<Rightarrow> pool \<Rightarrow> mem \<Rightarrow> (ptr \<times> pool \<times> mem) option" where
  "mgn_grow_shared L a n origin_mem new_size p m =
     (let p1 = (if mgn_r n > 0 then p\<lparr>nodes := (nodes p)(a \<mapsto> n\<lparr>mgn_r := mgn_r n - 1\<rparr>)\<rparr> else p) in
      do { (new, m1) \<leftarrow> mgn_new L new_size m;
           (case new of
              None \<Rightarrow> Some (Null, p1, m1)
            | Some (Null, _) \<Rightarrow> None
            | Some (Ptr q _, new_m) \<Rightarrow>
                do { m2 \<leftarrow> plat_mem_copy new_m origin_mem (ucast (mgn_s n)) m1;
                     Some (new_m, mgn_link q \<lparr>mgn_m = new_m, mgn_s = new_size, mgn_r = 1\<rparr> p1, m2) }) })"

definition mgn_mem_ralloc :: "libc \<Rightarrow> ptr \<Rightarrow> u64 \<Rightarrow> pool \<Rightarrow> mem \<Rightarrow> (ptr \<times> pool \<times> mem) option" where
  "mgn_mem_ralloc L origin_mem new_size p m =
     (if new_size = 0 then Some (Null, p, m)
      else
        case mgn_find p origin_mem of
          Some a \<Rightarrow>
            do { n \<leftarrow> nodes p a;
                 (if new_size > mgn_s n
                  then if mgn_r n = 1 then mgn_grow_owned L a n new_size p m
                       else mgn_grow_shared L a n origin_mem new_size p m
                  else Some (mgn_m n, p, m)) }
        | None \<Rightarrow>
            if origin_mem \<noteq> Null then Some (Null, p, m)
            else
              do { (new, m1) \<leftarrow> mgn_new L new_size m;
                   (case new of
                      None \<Rightarrow> Some (Null, p, m1)
                    | Some (Null, _) \<Rightarrow> None
                    | Some (Ptr q _, new_m) \<Rightarrow>
                        Some (new_m, mgn_link q \<lparr>mgn_m = new_m, mgn_s = new_size, mgn_r = 1\<rparr> p, m1)) })"

definition mgn_mem_alloc :: "libc \<Rightarrow> u64 \<Rightarrow> pool \<Rightarrow> mem \<Rightarrow> (ptr \<times> pool \<times> mem) option" where
  "mgn_mem_alloc L new_size p m = mgn_mem_ralloc L Null new_size p m"

definition mgn_mem_retain :: "ptr \<Rightarrow> pool \<Rightarrow> (ptr \<times> pool) option" where
  "mgn_mem_retain origin_mem p =
     (case mgn_find p origin_mem of
        None \<Rightarrow> Some (Null, p)
      | Some a \<Rightarrow>
          do { n \<leftarrow> nodes p a;
               Some (mgn_m n, p\<lparr>nodes := (nodes p)(a \<mapsto> n\<lparr>mgn_r := mgn_r n + 1\<rparr>)\<rparr>) })"

text \<open>Unlinking an element and releasing its memory and its node, as three operations do it.\<close>

definition mgn_drop :: "addr \<Rightarrow> mgn_memory \<Rightarrow> pool \<Rightarrow> mem \<Rightarrow> (pool \<times> mem) option" where
  "mgn_drop a n p m =
     do { h \<leftarrow> hash_delete a (phead p);
          m1 \<leftarrow> plat_mem_release (mgn_m n) m;
          m2 \<leftarrow> plat_mem_release (Ptr a 0) m1;
          Some (\<lparr>phead = h, nodes = (nodes p)(a := None)\<rparr>, m2) }"

definition mgn_mem_release_raw :: "bool \<Rightarrow> ptr \<Rightarrow> pool \<Rightarrow> mem \<Rightarrow> (pool \<times> mem) option" where
  "mgn_mem_release_raw release origin_mem p m =
     (case mgn_find p origin_mem of
        None \<Rightarrow> Some (p, m)
      | Some a \<Rightarrow>
          do { n \<leftarrow> nodes p a;
               if mgn_r n = 0 then Some (p, m)
               else
                 let n' = n\<lparr>mgn_r := mgn_r n - 1\<rparr>; p' = p\<lparr>nodes := (nodes p)(a \<mapsto> n')\<rparr>
                 in if mgn_r n' = 0 \<and> release then mgn_drop a n' p' m else Some (p', m) })"

definition mgn_mem_release :: "ptr \<Rightarrow> pool \<Rightarrow> mem \<Rightarrow> (pool \<times> mem) option" where
  "mgn_mem_release = mgn_mem_release_raw True"

definition mgn_mem_autorelease :: "ptr \<Rightarrow> pool \<Rightarrow> mem \<Rightarrow> (pool \<times> mem) option" where
  "mgn_mem_autorelease = mgn_mem_release_raw False"

fun mgn_release_loop :: "(mgn_memory \<Rightarrow> bool) \<Rightarrow> addr list \<Rightarrow> pool \<Rightarrow> mem \<Rightarrow> (pool \<times> mem) option" where
  "mgn_release_loop sel [] p m = Some (p, m)"
| "mgn_release_loop sel (a # as) p m =
     do { n \<leftarrow> nodes p a;
          (p1, m1) \<leftarrow> (if sel n then mgn_drop a n p m else Some (p, m));
          mgn_release_loop sel as p1 m1 }"

definition mgn_mem_release_unused :: "pool \<Rightarrow> mem \<Rightarrow> (pool \<times> mem) option" where
  "mgn_mem_release_unused p m = mgn_release_loop (\<lambda>n. mgn_r n = 0) (hash_iter (phead p)) p m"

definition mgn_mem_release_all :: "pool \<Rightarrow> mem \<Rightarrow> (pool \<times> mem) option" where
  "mgn_mem_release_all p m = mgn_release_loop (\<lambda>n. True) (hash_iter (phead p)) p m"

end
