(* ===== verification/MgnMemCorrect.thy ===== *)
theory MgnMemCorrect
  imports MgnMem
begin

text \<open>
  Correctness of the managed pool: the invariant of a pool, the effect of each operation on the
  abstract view (address, size, owners and contents of every managed block, in the order of the
  table), and what the two error paths of \<open>mgn_mem_ralloc\<close> leave behind.
\<close>

definition membase :: "pool \<Rightarrow> addr \<Rightarrow> addr" where
  "membase p a = (case nodes p a of None \<Rightarrow> 0
     | Some n \<Rightarrow> (case mgn_m n of Null \<Rightarrow> 0 | Ptr b off \<Rightarrow> b))"

definition node_ok :: "pool \<Rightarrow> mem \<Rightarrow> addr \<Rightarrow> bool" where
  "node_ok p m a \<longleftrightarrow>
     (\<exists>n bs nb. nodes p a = Some n \<and> mgn_m n = Ptr (membase p a) 0 \<and> membase p a \<noteq> 0 \<and>
        blocks m (membase p a) = Some bs \<and> length bs = unat (ucast (mgn_s n) :: u32) \<and>
        blocks m a = Some nb)"

definition pool_ok :: "pool \<Rightarrow> mem \<Rightarrow> bool" where
  "pool_ok p m \<longleftrightarrow>
     hash_ok (phead p) \<and> (\<forall>a \<in> set (hash_iter (phead p)). node_ok p m a) \<and>
     (\<forall>k a. (k, a) \<in> set (hash_entries (phead p)) \<longrightarrow> k = ptr_key (membase p a)) \<and>
     membase p ` set (hash_iter (phead p)) \<inter> set (hash_iter (phead p)) = {}"

definition pool_view :: "pool \<Rightarrow> mem \<Rightarrow> (addr \<times> u64 \<times> u64 \<times> u8 list) list" where
  "pool_view p m = map (\<lambda>a. (membase p a, mgn_s (the (nodes p a)), mgn_r (the (nodes p a)),
     the (blocks m (membase p a)))) (hash_iter (phead p))"

lemma pool_entry:
  assumes "pool_ok p m"
  shows "(ptr_key b, a) \<in> set (hash_entries (phead p))
     \<longleftrightarrow> a \<in> set (hash_iter (phead p)) \<and> membase p a = b"
proof
  assume e: "(ptr_key b, a) \<in> set (hash_entries (phead p))"
  then have "a \<in> set (hash_iter (phead p))" by (force simp: hash_iter_entries)
  with e assms show "a \<in> set (hash_iter (phead p)) \<and> membase p a = b"
    by (force simp: pool_ok_def)
next
  assume a: "a \<in> set (hash_iter (phead p)) \<and> membase p a = b"
  then obtain k where "(k, a) \<in> set (hash_entries (phead p))"
    by (auto simp: hash_iter_entries)
  with a assms show "(ptr_key b, a) \<in> set (hash_entries (phead p))"
    by (auto simp: pool_ok_def)
qed

lemma pool_hash_ok: "pool_ok p m \<Longrightarrow> hash_ok (phead p)"
  by (simp add: pool_ok_def)

lemma mgn_find_some:
  "pool_ok p m \<Longrightarrow> mgn_find p (Ptr b 0) = Some a
     \<longleftrightarrow> a \<in> set (hash_iter (phead p)) \<and> membase p a = b"
  by (simp add: mgn_find_def ht.find_some_iff pool_hash_ok pool_entry)

lemma mgn_find_Null: "pool_ok p m \<Longrightarrow> mgn_find p Null = None"
  using ht.find_some_iff [OF pool_hash_ok, of p m "ptr_key 0"] pool_entry [of p m 0]
  by (cases "mgn_find p Null") (auto simp: mgn_find_def pool_ok_def node_ok_def)

lemma membase_inj:
  assumes "pool_ok p m"
  shows "inj_on (membase p) (set (hash_iter (phead p)))"
proof (rule inj_onI)
  fix a c assume "a \<in> set (hash_iter (phead p))" "c \<in> set (hash_iter (phead p))" "membase p a = membase p c"
  then show "a = c"
    using mgn_find_some [OF assms, of "membase p c" a] mgn_find_some [OF assms, of "membase p c" c] by simp
qed

lemma mgn_find_none:
  assumes "pool_ok p m"
  shows "mgn_find p (Ptr b 0) = None \<longleftrightarrow> b \<notin> membase p ` set (hash_iter (phead p))"
proof (cases "mgn_find p (Ptr b 0)")
  case None
  then show ?thesis using mgn_find_some [OF assms, of b] by auto
next
  case (Some a)
  then show ?thesis using mgn_find_some [OF assms, of b a] by auto
qed

subsection \<open>Linking and unlinking\<close>

text \<open>
  Linking a node whose block and memory are allocated and unknown to the pool, in a memory that
  keeps the blocks of the pool.
\<close>

lemma mgn_link_ok:
  assumes ok: "pool_ok p m" and room: "hash_room (phead p)"
    and new: "a \<notin> set (hash_iter (phead p))" "b \<notin> membase p ` set (hash_iter (phead p))"
      "b \<notin> set (hash_iter (phead p))" "a \<notin> membase p ` set (hash_iter (phead p))" "a \<noteq> b" "b \<noteq> 0"
    and n: "mgn_m n = Ptr b 0" "blocks m b = Some bs" "length bs = unat (ucast (mgn_s n) :: u32)"
      "blocks m a = Some nb"
  shows "pool_ok (mgn_link a n p) m"
    and "pool_view (mgn_link a n p) m = pool_view p m @ [(b, mgn_s n, mgn_r n, bs)]"
    and "hash_iter (phead (mgn_link a n p)) = hash_iter (phead p) @ [a]"
    and "\<And>x. x \<noteq> a \<Longrightarrow> nodes (mgn_link a n p) x = nodes p x"
proof -
  let ?p = "mgn_link a n p"
  have k_new: "ptr_key b \<notin> fst ` set (hash_entries (phead p))"
    using new(2) pool_entry [OF ok, of b] by force
  have entries: "hash_entries (phead ?p) = hash_entries (phead p) @ [(ptr_key b, a)]"
    using ht.add_entries [OF pool_hash_ok [OF ok] room k_new, of a] new(1) n(1)
    by (simp add: mgn_link_def hash_iter_entries)
  then show iter: "hash_iter (phead ?p) = hash_iter (phead p) @ [a]"
    by (simp flip: map_snd_entries)
  have hok: "hash_ok (phead ?p)"
    using ht.add_ok [OF pool_hash_ok [OF ok] room k_new, of a] new(1) n(1)
    by (simp add: mgn_link_def hash_iter_entries)
  show keep: "nodes ?p x = nodes p x" if "x \<noteq> a" for x
    using that by (simp add: mgn_link_def)
  have base: "membase ?p a = b" "\<And>x. x \<noteq> a \<Longrightarrow> membase ?p x = membase p x"
    using n(1) by (simp_all add: mgn_link_def membase_def)
  have old: "x \<noteq> a" if "x \<in> set (hash_iter (phead p))" for x
    using that new(1) by auto
  have "node_ok ?p m x" if x: "x \<in> set (hash_iter (phead p))" for x
    using ok x old [OF x] base keep by (simp add: pool_ok_def node_ok_def)
  moreover have "node_ok ?p m a"
    using n new(6) base by (simp add: node_ok_def mgn_link_def)
  ultimately have nodes_ok: "\<forall>x \<in> set (hash_iter (phead ?p)). node_ok ?p m x"
    by (simp add: iter)
  have keys: "k = ptr_key (membase ?p x)" if "(k, x) \<in> set (hash_entries (phead ?p))" for k x
  proof (cases "x = a")
    case True
    with that entries new(1) base show ?thesis by (auto simp: hash_iter_entries image_iff)
  next
    case False
    with that entries base(2) ok show ?thesis by (auto simp: pool_ok_def)
  qed
  have "membase ?p ` set (hash_iter (phead p)) = membase p ` set (hash_iter (phead p))"
    using base(2) old by (intro image_cong) auto
  then have "membase ?p ` set (hash_iter (phead ?p)) \<inter> set (hash_iter (phead ?p)) = {}"
    using ok new base(1) by (auto simp: iter pool_ok_def)
  with hok nodes_ok keys show "pool_ok ?p m"
    by (simp add: pool_ok_def)
  have "map (\<lambda>x. (membase ?p x, mgn_s (the (nodes ?p x)), mgn_r (the (nodes ?p x)),
        the (blocks m (membase ?p x)))) (hash_iter (phead p)) = pool_view p m"
    using base(2) keep old by (simp add: pool_view_def)
  then show "pool_view ?p m = pool_view p m @ [(b, mgn_s n, mgn_r n, bs)]"
    using n base(1) by (simp add: pool_view_def iter) (simp add: mgn_link_def)
qed

text \<open>A change of memory that keeps the blocks a pool uses keeps the pool and its view.\<close>

lemma pool_ok_blocks:
  assumes ok: "pool_ok p m"
    and keep: "\<And>a. a \<in> set (hash_iter (phead p)) \<Longrightarrow>
       blocks m' a = blocks m a \<and> blocks m' (membase p a) = blocks m (membase p a)"
  shows "pool_ok p m'" "pool_view p m' = pool_view p m"
proof -
  have "node_ok p m' a" if "a \<in> set (hash_iter (phead p))" for a
    using that ok keep [OF that] by (simp add: pool_ok_def node_ok_def)
  with ok show "pool_ok p m'" by (simp add: pool_ok_def)
  show "pool_view p m' = pool_view p m"
    using keep by (simp add: pool_view_def)
qed

lemma pool_blocks_used:
  assumes "pool_ok p m" "a \<in> set (hash_iter (phead p))"
  shows "blocks m a \<noteq> None" "blocks m (membase p a) \<noteq> None"
  using assms by (auto simp: pool_ok_def node_ok_def)

lemma mgn_unlink_ok:
  assumes ok: "pool_ok p m" and a: "a \<in> set (hash_iter (phead p))"
  obtains h where "hash_delete a (phead p) = Some h" "hash_ok h"
    "hash_iter h = filter (\<lambda>x. x \<noteq> a) (hash_iter (phead p))"
    "hash_entries h = filter (\<lambda>x. snd x \<noteq> a) (hash_entries (phead p))"
proof -
  obtain h where h: "hash_delete a (phead p) = Some h"
    using ht.del_some [OF pool_hash_ok [OF ok]] a by (auto simp: hash_iter_entries)
  have e: "hash_entries h = filter (\<lambda>x. snd x \<noteq> a) (hash_entries (phead p))"
    by (rule ht.del_entries [OF pool_hash_ok [OF ok] h])
  then have "hash_iter h = filter (\<lambda>x. x \<noteq> a) (hash_iter (phead p))"
    by (simp add: filter_map o_def flip: map_snd_entries)
  with h e ht.del_ok [OF pool_hash_ok [OF ok] h] that show thesis by blast
qed

text \<open>The pool without the element \<open>a\<close>, in any memory that keeps the other blocks.\<close>

lemma mgn_unlinked:
  assumes ok: "pool_ok p m" and a: "a \<in> set (hash_iter (phead p))"
    and h: "hash_ok h" "hash_iter h = filter (\<lambda>x. x \<noteq> a) (hash_iter (phead p))"
      "hash_entries h = filter (\<lambda>x. snd x \<noteq> a) (hash_entries (phead p))"
    and ns: "\<And>x. x \<noteq> a \<Longrightarrow> ns x = nodes p x"
    and keep: "\<And>x. x \<noteq> a \<Longrightarrow> x \<noteq> membase p a \<Longrightarrow> blocks m' x = blocks m x"
  shows "pool_ok \<lparr>phead = h, nodes = ns\<rparr> m'"
    and "pool_view \<lparr>phead = h, nodes = ns\<rparr> m' = filter (\<lambda>v. fst v \<noteq> membase p a) (pool_view p m)"
proof -
  let ?p = "\<lparr>phead = h, nodes = ns\<rparr>"
  have base: "membase ?p x = membase p x" if "x \<noteq> a" for x
    using ns that by (simp add: membase_def)
  have other: "membase p x \<noteq> membase p a \<longleftrightarrow> x \<noteq> a" if "x \<in> set (hash_iter (phead p))" for x
    using membase_inj [OF ok] a that by (auto simp: inj_on_def)
  have apart: "x \<noteq> membase p y" if "x \<in> set (hash_iter (phead p))" "y \<in> set (hash_iter (phead p))" for x y
    using ok that by (auto simp: pool_ok_def)
  have nok: "node_ok ?p m' x" if x: "x \<in> set (hash_iter h)" for x
  proof -
    have x': "x \<in> set (hash_iter (phead p))" "x \<noteq> a" using x h(2) by auto
    then show ?thesis
      using ok base [OF x'(2)] ns [OF x'(2)] other [OF x'(1)] apart [OF x'(1) a] apart [OF a x'(1)]
        keep [of x] keep [of "membase p x"]
      by (simp add: pool_ok_def node_ok_def)
  qed
  have keys: "k = ptr_key (membase ?p x)" if "(k, x) \<in> set (hash_entries h)" for k x
    using that h(3) ok base by (auto simp: pool_ok_def)
  have "membase ?p ` set (hash_iter h) \<inter> set (hash_iter h) = {}"
    using ok h(2) base by (auto simp: pool_ok_def)
  with nok keys h(1) show "pool_ok ?p m'" by (simp add: pool_ok_def)
  have "filter (\<lambda>x. membase p x \<noteq> membase p a) (hash_iter (phead p)) = hash_iter h"
    unfolding h(2) using other by (intro filter_cong) auto
  moreover have "blocks m' (membase p x) = blocks m (membase p x)" if "x \<in> set (hash_iter h)" for x
    using that h(2) other apart a by (intro keep) auto
  ultimately show "pool_view ?p m' = filter (\<lambda>v. fst v \<noteq> membase p a) (pool_view p m)"
    using base ns h(2) by (auto simp: pool_view_def filter_map o_def)
qed

lemma mgn_drop_spec:
  assumes ok: "pool_ok p m" and a: "a \<in> set (hash_iter (phead p))" and n: "nodes p a = Some n"
  obtains p' m' where "mgn_drop a n p m = Some (p', m')" "pool_ok p' m'"
    "pool_view p' m' = filter (\<lambda>v. fst v \<noteq> membase p a) (pool_view p m)"
    "blocks m' = (blocks m)(membase p a := None, a := None)"
    "hash_iter (phead p') = filter (\<lambda>x. x \<noteq> a) (hash_iter (phead p))"
    "nodes p' = (nodes p)(a := None)"
proof -
  obtain h where h: "hash_delete a (phead p) = Some h" "hash_ok h"
    "hash_iter h = filter (\<lambda>x. x \<noteq> a) (hash_iter (phead p))"
    "hash_entries h = filter (\<lambda>x. snd x \<noteq> a) (hash_entries (phead p))"
    by (rule mgn_unlink_ok [OF ok a])
  obtain bs nb where nd: "mgn_m n = Ptr (membase p a) 0" "blocks m (membase p a) = Some bs"
      "blocks m a = Some nb"
    using ok a n by (auto simp: pool_ok_def node_ok_def)
  have apart: "a \<noteq> membase p a" using ok a by (auto simp: pool_ok_def)
  let ?m1 = "m\<lparr>blocks := (blocks m)(membase p a := None)\<rparr>"
  let ?m2 = "?m1\<lparr>blocks := (blocks ?m1)(a := None)\<rparr>"
  have "blocks ?m1 a = Some nb" using nd(3) apart by simp
  from free_ok [OF nd(2)] free_ok [OF this]
  have "mgn_drop a n p m = Some (\<lparr>phead = h, nodes = (nodes p)(a := None)\<rparr>, ?m2)"
    using h(1) nd(1) by (simp add: mgn_drop_def)
  with mgn_unlinked [OF ok a h(2-4), of "(nodes p)(a := None)" ?m2] h(3) show thesis
    by (intro that) auto
qed

lemma mgn_count_ok:
  fixes c :: u64
  assumes ok: "pool_ok p m" and a: "a \<in> set (hash_iter (phead p))" and n: "nodes p a = Some n"
  defines "p' \<equiv> p\<lparr>nodes := (nodes p)(a \<mapsto> n\<lparr>mgn_r := c\<rparr>)\<rparr>"
  shows "pool_ok p' m" "membase p' = membase p"
    "pool_view p' m = map (\<lambda>(b, s, r, bs). (b, s, if b = membase p a then c else r, bs)) (pool_view p m)"
proof -
  show base: "membase p' = membase p"
    using n by (auto simp: p'_def membase_def fun_eq_iff)
  have "node_ok p' m x" if "node_ok p m x" for x
    using that n base by (auto simp: node_ok_def p'_def)
  with ok base show "pool_ok p' m"
    by (simp add: pool_ok_def p'_def)
  have "membase p x = membase p a \<longleftrightarrow> x = a" if "x \<in> set (hash_iter (phead p))" for x
    using membase_inj [OF ok] a that by (auto simp: inj_on_def)
  then show "pool_view p' m = map (\<lambda>(b, s, r, bs). (b, s, if b = membase p a then c else r, bs)) (pool_view p m)"
    using n base by (auto simp: pool_view_def p'_def)
qed

subsection \<open>Allocation\<close>

lemma mgn_new_cases:
  obtains (fail) m' where "mgn_new L sz m = Some (None, m')" "blocks m' = blocks m"
  | (ok) q b m' where "mgn_new L sz m = Some (Some (Ptr q 0, Ptr b 0), m')"
      "q \<noteq> b" "b \<noteq> 0" "blocks m q = None" "blocks m b = None"
      "blocks m' = (blocks m)(q \<mapsto> replicate 80 0, b \<mapsto> replicate (unat (ucast sz :: u32)) 0)"
proof (cases rule: plat_mem_allocate_cases [of L node_size m])
  case fail
  then show thesis
    by (intro that(1) [of "m\<lparr>tick := Suc (tick m)\<rparr>"]) (auto simp: mgn_new_def)
next
  case (ok q)
  let ?m1 = "\<lparr>blocks = (blocks m)(q \<mapsto> replicate (unat node_size) 0), tick = Suc (tick m)\<rparr>"
  note q = ok
  show thesis
  proof (cases rule: plat_mem_allocate_cases [of L "ucast sz" ?m1])
    case fail
    have "blocks (?m1\<lparr>tick := Suc (tick ?m1)\<rparr>) q = Some (replicate (unat node_size) 0)" by simp
    from free_ok [OF this] q fail show thesis
      by (intro that(1) [of "m\<lparr>tick := Suc (Suc (tick m))\<rparr>"]) (auto simp: mgn_new_def fun_upd_idem)
  next
    case (ok b)
    with q show thesis
      by (intro that(2) [of q b "\<lparr>blocks = (blocks m)(q \<mapsto> replicate 80 0,
          b \<mapsto> replicate (unat (ucast sz :: u32)) 0), tick = Suc (Suc (tick m))\<rparr>"])
         (auto simp: mgn_new_def node_size_def split: if_splits)
  qed
qed

lemma mgn_link_new:
  assumes ok: "pool_ok p m" and room: "hash_room (phead p)"
    and new: "blocks m q = None" "blocks m b = None" "q \<noteq> b" "b \<noteq> 0"
    and m': "blocks m' = (blocks m)(q \<mapsto> nb, b \<mapsto> bs)" "length bs = unat (ucast sz :: u32)"
  shows "pool_ok (mgn_link q \<lparr>mgn_m = Ptr b 0, mgn_s = sz, mgn_r = 1\<rparr> p) m'"
    "pool_view (mgn_link q \<lparr>mgn_m = Ptr b 0, mgn_s = sz, mgn_r = 1\<rparr> p) m' = pool_view p m @ [(b, sz, 1, bs)]"
proof -
  let ?n = "\<lparr>mgn_m = Ptr b 0, mgn_s = sz, mgn_r = 1\<rparr>"
  have used: "\<And>x. x \<in> set (hash_iter (phead p)) \<Longrightarrow> x \<noteq> q \<and> x \<noteq> b \<and> membase p x \<noteq> q \<and> membase p x \<noteq> b"
    using pool_blocks_used [OF ok] new(1,2) by metis
  have ok': "pool_ok p m'" and view: "pool_view p m' = pool_view p m"
    using pool_ok_blocks [OF ok, of m'] used m'(1) by auto
  have n1: "q \<notin> set (hash_iter (phead p))" "b \<notin> membase p ` set (hash_iter (phead p))"
    "b \<notin> set (hash_iter (phead p))" "q \<notin> membase p ` set (hash_iter (phead p))"
    using used by auto
  have bs: "blocks m' b = Some bs" "blocks m' q = Some nb"
    using new(3) m'(1) by auto
  note link = mgn_link_ok [OF ok' room n1 new(3,4), of ?n bs nb]
  show "pool_ok (mgn_link q ?n p) m'"
    using bs m'(2) by (intro link(1)) simp_all
  show "pool_view (mgn_link q ?n p) m' = pool_view p m @ [(b, sz, 1, bs)]"
    using link(2) bs view m'(2) by simp
qed

lemma mgn_mem_alloc_spec:
  assumes ok: "pool_ok p m" and room: "hash_room (phead p)" and sz: "sz \<noteq> 0"
  obtains r p' m' where "mgn_mem_alloc L sz p m = Some (r, p', m')" "pool_ok p' m'"
    "(r = Null \<and> p' = p \<and> blocks m' = blocks m) \<or>
     (\<exists>b. r = Ptr b 0 \<and> blocks m b = None \<and>
        pool_view p' m' = pool_view p m @ [(b, sz, 1, replicate (unat (ucast sz :: u32)) 0)])"
proof (cases rule: mgn_new_cases [of L sz m])
  case (fail m')
  then have "mgn_mem_alloc L sz p m = Some (Null, p, m')"
    using sz mgn_find_Null [OF ok] by (simp add: mgn_mem_alloc_def mgn_mem_ralloc_def)
  moreover have "pool_ok p m'" using pool_ok_blocks(1) [OF ok] fail(2) by simp
  ultimately show thesis using fail(2) that by blast
next
  case (ok q b m')
  note new = ok
  let ?p = "mgn_link q \<lparr>mgn_m = Ptr b 0, mgn_s = sz, mgn_r = 1\<rparr> p"
  have "mgn_mem_alloc L sz p m = Some (Ptr b 0, ?p, m')"
    using sz mgn_find_Null [OF assms(1)] new(1) by (simp add: mgn_mem_alloc_def mgn_mem_ralloc_def)
  moreover have "pool_ok ?p m'"
      "pool_view ?p m' = pool_view p m @ [(b, sz, 1, replicate (unat (ucast sz :: u32)) 0)]"
    by (simp_all add: mgn_link_new [OF assms(1) room new(4,5,2,3,6)])
  ultimately show thesis using new(5) that by blast
qed

subsection \<open>Owners\<close>

lemma pool_view_mem:
  assumes "(b, s, r, bs) \<in> set (pool_view p m)" "pool_ok p m"
  obtains a n where "a \<in> set (hash_iter (phead p))" "membase p a = b" "nodes p a = Some n"
    "mgn_s n = s" "mgn_r n = r" "blocks m b = Some bs" "mgn_find p (Ptr b 0) = Some a"
    "mgn_m n = Ptr b 0"
proof -
  obtain a where a: "a \<in> set (hash_iter (phead p))" "membase p a = b"
      "mgn_s (the (nodes p a)) = s" "mgn_r (the (nodes p a)) = r" "the (blocks m b) = bs"
    using assms(1) by (auto simp: pool_view_def)
  moreover obtain n bs' where "nodes p a = Some n" "mgn_m n = Ptr (membase p a) 0"
      "blocks m (membase p a) = Some bs'"
    using assms(2) a(1) by (auto simp: pool_ok_def node_ok_def)
  ultimately show thesis using that mgn_find_some [OF assms(2)] by auto
qed

definition set_owners :: "addr \<Rightarrow> u64 \<Rightarrow> addr \<times> u64 \<times> u64 \<times> u8 list \<Rightarrow> addr \<times> u64 \<times> u64 \<times> u8 list" where
  "set_owners b c = (\<lambda>(b', s, r, bs). (b', s, if b' = b then c else r, bs))"

lemma mgn_mem_retain_spec:
  assumes ok: "pool_ok p m" and v: "(b, s, r, bs) \<in> set (pool_view p m)"
  obtains p' where "mgn_mem_retain (Ptr b 0) p = Some (Ptr b 0, p')" "pool_ok p' m"
    "pool_view p' m = map (set_owners b (r + 1)) (pool_view p m)"
proof -
  obtain a n where a: "a \<in> set (hash_iter (phead p))" "membase p a = b" "nodes p a = Some n"
    "mgn_s n = s" "mgn_r n = r" "blocks m b = Some bs" "mgn_find p (Ptr b 0) = Some a"
    "mgn_m n = Ptr b 0"
    by (rule pool_view_mem [OF v ok])
  note cnt = mgn_count_ok [OF ok a(1,3), of "r + 1"]
  show thesis
    using a cnt by (intro that) (simp_all add: mgn_mem_retain_def set_owners_def)
qed

lemma mgn_mem_release_spec:
  assumes ok: "pool_ok p m" and v: "(b, s, r, bs) \<in> set (pool_view p m)" and r: "r \<noteq> 0"
  obtains p' m' where "mgn_mem_release_raw rel (Ptr b 0) p m = Some (p', m')" "pool_ok p' m'"
    "pool_view p' m' = (if r = 1 \<and> rel then filter (\<lambda>x. fst x \<noteq> b) (pool_view p m)
        else map (set_owners b (r - 1)) (pool_view p m))"
    "blocks m' b = (if r = 1 \<and> rel then None else Some bs)"
proof -
  obtain a n where a: "a \<in> set (hash_iter (phead p))" "membase p a = b" "nodes p a = Some n"
    "mgn_s n = s" "mgn_r n = r" "blocks m b = Some bs" "mgn_find p (Ptr b 0) = Some a"
    "mgn_m n = Ptr b 0"
    by (rule pool_view_mem [OF v ok])
  let ?n = "n\<lparr>mgn_r := r - 1\<rparr>" and ?p = "p\<lparr>nodes := (nodes p)(a \<mapsto> n\<lparr>mgn_r := r - 1\<rparr>)\<rparr>"
  note cnt = mgn_count_ok [OF ok a(1,3), of "r - 1"]
  have zero: "r - 1 = 0 \<longleftrightarrow> r = 1" by auto
  have eq: "mgn_mem_release_raw rel (Ptr b 0) p m
      = (if r = 1 \<and> rel then mgn_drop a ?n ?p m else Some (?p, m))"
    using a(3,5,7) r zero by (simp add: mgn_mem_release_raw_def Let_def)
  show thesis
  proof (cases "r = 1 \<and> rel")
    case False
    with eq cnt a show thesis by (intro that) (auto simp: set_owners_def)
  next
    case True
    have a': "a \<in> set (hash_iter (phead ?p))" "nodes ?p a = Some ?n" using a(1) by simp_all
    obtain p' m' where d: "mgn_drop a ?n ?p m = Some (p', m')" "pool_ok p' m'"
      "pool_view p' m' = filter (\<lambda>v. fst v \<noteq> membase ?p a) (pool_view ?p m)"
      "blocks m' = (blocks m)(membase ?p a := None, a := None)"
      "hash_iter (phead p') = filter (\<lambda>x. x \<noteq> a) (hash_iter (phead ?p))"
      "nodes p' = (nodes ?p)(a := None)"
      by (rule mgn_drop_spec [OF cnt(1) a'])
    have "filter (\<lambda>v. fst v \<noteq> b) (pool_view ?p m) = filter (\<lambda>v. fst v \<noteq> b) (pool_view p m)"
      using cnt(3) a(2) by (auto simp: filter_map o_def case_prod_unfold intro!: map_idI)
    with True eq d cnt(2) a(2) show thesis by (intro that) auto
  qed
qed

subsection \<open>Reallocation\<close>

lemma copy_prefix:
  assumes "blocks m c = Some bs" "length bs = unat sz" "blocks m d = Some ds" "unat sz \<le> length ds" "d \<noteq> c"
  shows "plat_mem_copy (Ptr d 0) (Ptr c 0) sz m
     = Some (m\<lparr>blocks := (blocks m)(d \<mapsto> bs @ drop (unat sz) ds)\<rparr>)"
  using assms by (simp add: plat_mem_copy_def)

lemma delete_room: "hash_delete a head = Some h \<Longrightarrow> hash_room head \<Longrightarrow> hash_room h"
  by (auto simp: hash_delete_def hash_room_def Let_def split: option.splits if_splits)

text \<open>The bytes of the old block, then zeros.\<close>

definition grown :: "u8 list \<Rightarrow> u64 \<Rightarrow> u8 list" where
  "grown bs sz = bs @ replicate (unat sz - length bs) 0"

lemma small_size:
  fixes s sz :: u64
  assumes "s < sz" "unat sz < 2 ^ 32"
  shows "unat (ucast sz :: u32) = unat sz" "unat (ucast s :: u32) = unat s" "unat s < unat sz"
proof -
  show "unat s < unat sz" using assms(1) by (simp add: word_less_nat_alt)
  with assms show "unat (ucast sz :: u32) = unat sz" "unat (ucast s :: u32) = unat s"
    by (simp_all add: unsigned_ucast_eq take_bit_eq_mod)
qed

lemma hash_deleted:
  assumes ok: "pool_ok p m" and a: "a \<in> set (hash_iter (phead p))" and h: "hash_delete a (phead p) = Some h"
  shows "pool_ok (p\<lparr>phead := h\<rparr>) m"
    "pool_view (p\<lparr>phead := h\<rparr>) m = filter (\<lambda>v. fst v \<noteq> membase p a) (pool_view p m)"
    "hash_iter h = filter (\<lambda>x. x \<noteq> a) (hash_iter (phead p))"
proof -
  obtain h' where h': "hash_delete a (phead p) = Some h'" "hash_ok h'"
    "hash_iter h' = filter (\<lambda>x. x \<noteq> a) (hash_iter (phead p))"
    "hash_entries h' = filter (\<lambda>x. snd x \<noteq> a) (hash_entries (phead p))"
    by (rule mgn_unlink_ok [OF ok a])
  have eq: "p\<lparr>phead := h\<rparr> = \<lparr>phead = h', nodes = nodes p\<rparr>" using h h'(1) by simp
  show "pool_ok (p\<lparr>phead := h\<rparr>) m"
    "pool_view (p\<lparr>phead := h\<rparr>) m = filter (\<lambda>v. fst v \<noteq> membase p a) (pool_view p m)"
    unfolding eq using mgn_unlinked [OF ok a h'(2-4), of "nodes p" m] by simp_all
  show "hash_iter h = filter (\<lambda>x. x \<noteq> a) (hash_iter (phead p))" using h h' by simp
qed

lemma mgn_ralloc_owned_spec:
  assumes ok: "pool_ok p m" and room: "hash_room (phead p)"
    and v: "(b, s, 1, bs) \<in> set (pool_view p m)" and sz: "s < sz" "unat sz < 2 ^ 32"
  obtains r p' m' where "mgn_mem_ralloc L (Ptr b 0) sz p m = Some (r, p', m')" "pool_ok p' m'"
    "(r = Null \<and> pool_view p' m' = filter (\<lambda>x. fst x \<noteq> b) (pool_view p m) \<and> blocks m' = blocks m) \<or>
     (\<exists>c. r = Ptr c 0 \<and> blocks m c = None \<and> blocks m' b = None \<and>
        pool_view p' m' = filter (\<lambda>x. fst x \<noteq> b) (pool_view p m) @ [(c, sz, 1, grown bs sz)])"
proof -
  obtain a n where a: "a \<in> set (hash_iter (phead p))" "membase p a = b" "nodes p a = Some n"
    "mgn_s n = s" "mgn_r n = 1" "blocks m b = Some bs" "mgn_find p (Ptr b 0) = Some a"
    "mgn_m n = Ptr b 0"
    by (rule pool_view_mem [OF v ok])
  obtain nb where nb: "blocks m a = Some nb" using pool_blocks_used(1) [OF ok a(1)] by auto
  have len: "length bs = unat (ucast s :: u32)" using ok a by (auto simp: pool_ok_def node_ok_def)
  have apart: "x \<noteq> membase p y" if "x \<in> set (hash_iter (phead p))" "y \<in> set (hash_iter (phead p))" for x y
    using ok that by (auto simp: pool_ok_def)
  have "sz \<noteq> 0" using sz(1) by auto
  obtain h where h: "hash_delete a (phead p) = Some h"
    using ht.del_some [OF pool_hash_ok [OF ok]] a(1) by (auto simp: hash_iter_entries)
  let ?p = "p\<lparr>phead := h\<rparr>"
  note del = hash_deleted [OF ok a(1) h]
  have eq: "mgn_mem_ralloc L (Ptr b 0) sz p m = mgn_grow_owned L a n sz p m"
    using a sz \<open>sz \<noteq> 0\<close> by (simp add: mgn_mem_ralloc_def)
  show thesis
  proof (cases rule: plat_mem_allocate_cases [of L "ucast sz" m])
    case fail
    have "pool_ok ?p (m\<lparr>tick := Suc (tick m)\<rparr>)"
        "pool_view ?p (m\<lparr>tick := Suc (tick m)\<rparr>) = pool_view ?p m"
      using pool_ok_blocks [OF del(1), of "m\<lparr>tick := Suc (tick m)\<rparr>"] by simp_all
    with fail eq h a(2) del(2) show thesis
      by (intro that [of Null ?p "m\<lparr>tick := Suc (tick m)\<rparr>"]) (simp_all add: mgn_grow_owned_def)
  next
    case (ok c)
    note new = ok
    let ?m1 = "\<lparr>blocks = (blocks m)(c \<mapsto> replicate (unat (ucast sz :: u32)) 0), tick = Suc (tick m)\<rparr>"
    let ?m2 = "?m1\<lparr>blocks := (blocks ?m1)(c \<mapsto> grown bs sz)\<rparr>"
    let ?m3 = "?m2\<lparr>blocks := (blocks ?m2)(b := None)\<rparr>"
    let ?n = "n\<lparr>mgn_m := Ptr c 0, mgn_s := sz\<rparr>"
    have cb: "c \<noteq> b" "c \<noteq> a" using new(2) a(6) nb by auto
    have "bs @ drop (unat (ucast s :: u32)) (replicate (unat (ucast sz :: u32)) (0 :: u8)) = grown bs sz"
      using small_size [OF sz] len by (simp add: grown_def)
    then have copy: "plat_mem_copy (Ptr c 0) (Ptr b 0) (ucast s) ?m1 = Some ?m2"
      using copy_prefix [of ?m1 b bs "ucast s" c "replicate (unat (ucast sz :: u32)) 0"]
        a(6) len small_size [OF sz] cb(1) by simp
    have "blocks ?m2 b = Some bs" using cb(1) a(6) by simp
    from free_ok [OF this]
    have res: "mgn_mem_ralloc L (Ptr b 0) sz p m = Some (Ptr c 0, mgn_link a ?n ?p, ?m3)"
      using eq h new(3) copy a(4,8) by (simp add: mgn_grow_owned_def)
    have used: "x \<noteq> c \<and> x \<noteq> b \<and> membase p x \<noteq> c \<and> membase p x \<noteq> b" if "x \<in> set (hash_iter h)" for x
    proof -
      have x: "x \<in> set (hash_iter (phead p))" "x \<noteq> a" using that del(3) by auto
      with a(1,2) pool_blocks_used [OF assms(1) x(1)] new(2) apart membase_inj [OF assms(1)]
      show ?thesis by (auto simp: inj_on_def)
    qed
    have base: "membase ?p = membase p" by (simp add: membase_def fun_eq_iff)
    have p3: "pool_ok ?p ?m3" "pool_view ?p ?m3 = pool_view ?p m"
      using pool_ok_blocks [OF del(1), of ?m3] used base by auto
    have room': "hash_room (phead ?p)" using delete_room [OF h room] by simp
    have n1: "a \<notin> set (hash_iter (phead ?p))" "c \<notin> membase ?p ` set (hash_iter (phead ?p))"
      "c \<notin> set (hash_iter (phead ?p))" "a \<notin> membase ?p ` set (hash_iter (phead ?p))" "a \<noteq> c"
      using del(3) used base cb apart a(1) by auto
    have len3: "length (grown bs sz) = unat (ucast sz :: u32)"
      using small_size [OF sz] len by (simp add: grown_def)
    have b3: "blocks ?m3 c = Some (grown bs sz)" "blocks ?m3 a = Some nb"
      using cb nb apart [OF a(1) a(1)] a(2) by simp_all
    note link = mgn_link_ok [OF p3(1) room' n1 new(1), of ?n "grown bs sz" nb]
    have "pool_ok (mgn_link a ?n ?p) ?m3"
      using len3 b3 by (intro link(1)) simp_all
    moreover have "pool_view (mgn_link a ?n ?p) ?m3
        = filter (\<lambda>x. fst x \<noteq> b) (pool_view p m) @ [(c, sz, 1, grown bs sz)]"
      using link(2) len3 b3 p3(2) del(2) a(2,5) by simp
    moreover have "blocks ?m3 b = None" using cb(1) by simp
    ultimately show thesis using res new(2) that by blast
  qed
qed

text \<open>
  A block with several owners: the caller gives up its ownership, and gets a block of its own
  with the old bytes; the old block stays as it is for the other owners.
\<close>

lemma mgn_ralloc_shared_spec:
  assumes ok: "pool_ok p m" and room: "hash_room (phead p)"
    and v: "(b, s, r, bs) \<in> set (pool_view p m)" and r: "r \<noteq> 1"
    and sz: "s < sz" "unat sz < 2 ^ 32"
  obtains x p' m' where "mgn_mem_ralloc L (Ptr b 0) sz p m = Some (x, p', m')" "pool_ok p' m'"
    "(x = Null \<and> pool_view p' m' = map (set_owners b (if r > 0 then r - 1 else 0)) (pool_view p m)) \<or>
     (\<exists>c. x = Ptr c 0 \<and> blocks m c = None \<and>
        pool_view p' m' = map (set_owners b (if r > 0 then r - 1 else 0)) (pool_view p m)
          @ [(c, sz, 1, grown bs sz)])"
proof -
  obtain a n where a: "a \<in> set (hash_iter (phead p))" "membase p a = b" "nodes p a = Some n"
    "mgn_s n = s" "mgn_r n = r" "blocks m b = Some bs" "mgn_find p (Ptr b 0) = Some a"
    "mgn_m n = Ptr b 0"
    by (rule pool_view_mem [OF v ok])
  have len: "length bs = unat (ucast s :: u32)" using ok a by (auto simp: pool_ok_def node_ok_def)
  let ?c = "if r > 0 then r - 1 else 0"
  let ?p = "p\<lparr>nodes := (nodes p)(a \<mapsto> n\<lparr>mgn_r := ?c\<rparr>)\<rparr>"
  note cnt = mgn_count_ok [OF ok a(1,3), of ?c]
  have view1: "pool_view ?p m = map (set_owners b ?c) (pool_view p m)"
    using cnt(3) a(2) by (simp add: set_owners_def)
  have "(nodes p)(a \<mapsto> n\<lparr>mgn_r := 0\<rparr>) = nodes p" if "r = 0"
    using a(3,5) that by (auto simp: fun_eq_iff)
  then have p1: "(if mgn_r n > 0 then p\<lparr>nodes := (nodes p)(a \<mapsto> n\<lparr>mgn_r := mgn_r n - 1\<rparr>)\<rparr> else p) = ?p"
    using a(5) by (auto simp: word_gt_0)
  have "sz \<noteq> 0" using sz(1) by auto
  then have eq: "mgn_mem_ralloc L (Ptr b 0) sz p m = mgn_grow_shared L a n (Ptr b 0) sz p m"
    using a sz r by (simp add: mgn_mem_ralloc_def)
  show thesis
  proof (cases rule: mgn_new_cases [of L sz m])
    case (fail m')
    have "pool_ok ?p m'" "pool_view ?p m' = pool_view ?p m"
      using pool_ok_blocks [OF cnt(1), of m'] fail(2) by simp_all
    with fail eq view1 show thesis
      by (intro that [of Null ?p m']) (simp_all add: mgn_grow_shared_def p1 Let_def)
  next
    case (ok q c m')
    note new = ok
    let ?m = "m'\<lparr>blocks := (blocks m')(c \<mapsto> grown bs sz)\<rparr>"
    have bc: "blocks m' b = Some bs" "c \<noteq> b" using new a(6) by auto
    have "bs @ drop (unat (ucast s :: u32)) (replicate (unat (ucast sz :: u32)) (0 :: u8)) = grown bs sz"
      using small_size [OF sz] len by (simp add: grown_def)
    then have copy: "plat_mem_copy (Ptr c 0) (Ptr b 0) (ucast s) m' = Some ?m"
      using copy_prefix [of m' b bs "ucast s" c "replicate (unat (ucast sz :: u32)) 0"]
        bc len small_size [OF sz] new(6) by simp
    have m2: "blocks ?m = (blocks m)(q \<mapsto> replicate 80 0, c \<mapsto> grown bs sz)"
        "length (grown bs sz) = unat (ucast sz :: u32)"
      using new(6) small_size [OF sz] len by (simp_all add: grown_def)
    have room': "hash_room (phead ?p)" using room by simp
    note link = mgn_link_new [OF cnt(1) room' new(4,5,2,3) m2]
    show thesis
      using eq new(1,5) copy a(4) link view1
      by (intro that [of "Ptr c 0" "mgn_link q \<lparr>mgn_m = Ptr c 0, mgn_s = sz, mgn_r = 1\<rparr> ?p" ?m])
         (simp_all add: mgn_grow_shared_def p1 Let_def)
  qed
qed

lemma mgn_ralloc_same:
  assumes "pool_ok p m" "(b, s, r, bs) \<in> set (pool_view p m)" "sz \<noteq> 0" "sz \<le> s"
  shows "mgn_mem_ralloc L (Ptr b 0) sz p m = Some (Ptr b 0, p, m)"
  using assms(3,4) by (rule_tac pool_view_mem [OF assms(2,1)]) (auto simp: mgn_mem_ralloc_def)

lemma mgn_ralloc_unknown:
  assumes "pool_ok p m" "b \<notin> fst ` set (pool_view p m)"
  shows "mgn_mem_ralloc L (Ptr b 0) sz p m = Some (Null, p, m)"
proof -
  have "fst ` set (pool_view p m) = membase p ` set (hash_iter (phead p))"
    by (auto simp: pool_view_def image_image)
  with assms mgn_find_none [OF assms(1), of b] show ?thesis
    by (simp add: mgn_mem_ralloc_def)
qed

subsection \<open>Releasing many\<close>

definition owners :: "addr \<times> u64 \<times> u64 \<times> u8 list \<Rightarrow> u64" where
  "owners v = fst (snd (snd v))"

lemma mgn_release_loop_spec:
  assumes "pool_ok p m" "distinct as" "set as \<subseteq> set (hash_iter (phead p))"
  obtains p' m' where "mgn_release_loop (\<lambda>n. P (mgn_r n)) as p m = Some (p', m')" "pool_ok p' m'"
    "pool_view p' m' = filter (\<lambda>v. \<not> (P (owners v) \<and> fst v \<in> membase p ` set as)) (pool_view p m)"
    "\<forall>x. blocks m' x = None \<or> blocks m' x = blocks m x"
    "\<forall>a \<in> set as. P (mgn_r (the (nodes p a))) \<longrightarrow> blocks m' a = None \<and> blocks m' (membase p a) = None"
  using assms
proof (induction as arbitrary: p m thesis)
  case Nil
  show ?case by (rule Nil(1) [of p m]) (use Nil(2) in simp_all)
next
  case (Cons a as)
  from Cons.prems have a: "a \<in> set (hash_iter (phead p))" by simp
  obtain n where n: "nodes p a = Some n" using Cons.prems(2) a by (auto simp: pool_ok_def node_ok_def)
  have here: "fst v = membase p a \<Longrightarrow> v \<in> set (pool_view p m) \<Longrightarrow> owners v = mgn_r n" for v
    using membase_inj [OF Cons.prems(2)] a n by (auto simp: pool_view_def owners_def inj_on_def)
  show ?case
  proof (cases "P (mgn_r n)")
    case False
    obtain p' m' where *: "mgn_release_loop (\<lambda>n. P (mgn_r n)) as p m = Some (p', m')" "pool_ok p' m'"
      "pool_view p' m' = filter (\<lambda>v. \<not> (P (owners v) \<and> fst v \<in> membase p ` set as)) (pool_view p m)"
      "\<forall>x. blocks m' x = None \<or> blocks m' x = blocks m x"
      "\<forall>a \<in> set as. P (mgn_r (the (nodes p a))) \<longrightarrow> blocks m' a = None \<and> blocks m' (membase p a) = None"
      using Cons.IH [of p m] Cons.prems by auto
    have "pool_view p' m' = filter (\<lambda>v. \<not> (P (owners v) \<and> fst v \<in> membase p ` set (a # as))) (pool_view p m)"
      unfolding *(3) using here False by (intro filter_cong) auto
    with * n False show ?thesis by (intro Cons.prems(1)) auto
  next
    case True
    obtain p1 m1 where d: "mgn_drop a n p m = Some (p1, m1)" "pool_ok p1 m1"
      "pool_view p1 m1 = filter (\<lambda>v. fst v \<noteq> membase p a) (pool_view p m)"
      "blocks m1 = (blocks m)(membase p a := None, a := None)"
      "hash_iter (phead p1) = filter (\<lambda>x. x \<noteq> a) (hash_iter (phead p))"
      "nodes p1 = (nodes p)(a := None)"
      by (rule mgn_drop_spec [OF Cons.prems(2) a n])
    have sub: "distinct as" "set as \<subseteq> set (hash_iter (phead p1))"
      using Cons.prems d(5) by auto
    have same: "nodes p1 x = nodes p x" "membase p1 x = membase p x" if "x \<in> set as" for x
      using that Cons.prems(3) d(6) by (auto simp: membase_def)
    obtain p' m' where *: "mgn_release_loop (\<lambda>n. P (mgn_r n)) as p1 m1 = Some (p', m')" "pool_ok p' m'"
      "pool_view p' m' = filter (\<lambda>v. \<not> (P (owners v) \<and> fst v \<in> membase p1 ` set as)) (pool_view p1 m1)"
      "\<forall>x. blocks m' x = None \<or> blocks m' x = blocks m1 x"
      "\<forall>a \<in> set as. P (mgn_r (the (nodes p1 a))) \<longrightarrow> blocks m' a = None \<and> blocks m' (membase p1 a) = None"
      using Cons.IH [OF _ d(2) sub] by auto
    have img: "membase p1 ` set as = membase p ` set as"
      using same(2) by (intro image_cong) auto
    have "pool_view p' m' = filter (\<lambda>v. \<not> (P (owners v) \<and> fst v \<in> membase p ` set (a # as))) (pool_view p m)"
      unfolding *(3) d(3) img filter_filter using here True by (intro filter_cong) auto
    moreover have "blocks m' x = None \<or> blocks m' x = blocks m x" for x
      using spec [OF *(4), of x] d(4) by (auto split: if_splits)
    moreover have "blocks m' a = None" "blocks m' (membase p a) = None"
      using spec [OF *(4), of a] spec [OF *(4), of "membase p a"] d(4) by auto
    ultimately show ?thesis
      using *(1,2,5) d(1) n True same by (intro Cons.prems(1) [of p' m']) auto
  qed
qed

lemma mgn_release_unused_spec:
  assumes "pool_ok p m"
  obtains p' m' where "mgn_mem_release_unused p m = Some (p', m')" "pool_ok p' m'"
    "pool_view p' m' = filter (\<lambda>v. owners v \<noteq> 0) (pool_view p m)"
proof -
  have d: "distinct (hash_iter (phead p))"
    using ht.elems_distinct [OF pool_hash_ok [OF assms]] by (simp add: map_snd_entries)
  obtain p' m' where *: "mgn_release_loop (\<lambda>n. mgn_r n = 0) (hash_iter (phead p)) p m = Some (p', m')" "pool_ok p' m'"
      "pool_view p' m' = filter (\<lambda>v. \<not> (owners v = 0 \<and> fst v \<in> membase p ` set (hash_iter (phead p)))) (pool_view p m)"
    by (rule mgn_release_loop_spec [OF assms d order_refl, of "\<lambda>c. c = 0"])
  have "pool_view p' m' = filter (\<lambda>v. owners v \<noteq> 0) (pool_view p m)"
    unfolding *(3) by (intro filter_cong) (auto simp: pool_view_def)
  with * show thesis by (intro that) (simp_all add: mgn_mem_release_unused_def)
qed

lemma mgn_release_all_spec:
  assumes "pool_ok p m"
  obtains p' m' where "mgn_mem_release_all p m = Some (p', m')" "pool_ok p' m'" "hash_iter (phead p') = []" "pool_view p' m' = []"
    "\<And>b. b \<in> fst ` set (pool_view p m) \<Longrightarrow> blocks m' b = None"
proof -
  have d: "distinct (hash_iter (phead p))"
    using ht.elems_distinct [OF pool_hash_ok [OF assms]] by (simp add: map_snd_entries)
  obtain p' m' where *: "mgn_release_loop (\<lambda>n. True) (hash_iter (phead p)) p m = Some (p', m')" "pool_ok p' m'"
      "pool_view p' m' = filter (\<lambda>v. \<not> (True \<and> fst v \<in> membase p ` set (hash_iter (phead p)))) (pool_view p m)"
      "\<forall>x. blocks m' x = None \<or> blocks m' x = blocks m x"
      "\<forall>a \<in> set (hash_iter (phead p)). True \<longrightarrow> blocks m' a = None \<and> blocks m' (membase p a) = None"
    by (rule mgn_release_loop_spec [OF assms d order_refl, of "\<lambda>c. True"])
  have view: "pool_view p' m' = []" unfolding *(3) by (simp add: filter_empty_conv pool_view_def)
  then have "hash_iter (phead p') = []" by (simp add: pool_view_def)
  with * view show thesis by (intro that) (auto simp: mgn_mem_release_all_def pool_view_def)
qed

end
