(* ===== verification/Samples.thy ===== *)
theory Samples
  imports ShellCorrect MgnMemCorrect
begin

text \<open>
  Concrete surroundings for the witnesses: a C library whose allocator hands out the addresses 4096,
  8192, ... in turn, a host on which every path is writable and absolute, an empty file system,
  and the first states of the resource manager, the file library and the memory pool in them.
\<close>

subsection \<open>Surroundings\<close>

definition L0 :: libc where
  "L0 = \<lparr>pick = \<lambda>t n. 4096 * (of_nat t + 1), junk = \<lambda>t n. 170\<rparr>"

definition H0 :: host where
  "H0 = \<lparr>new_file = \<lambda>t. 256 * (of_nat t + 1), can_write = \<lambda>p. True, command = \<lambda>c. Some [104, 105, 10],
     absolute = \<lambda>d p. p, is_dir = \<lambda>p. False, glob_matches = \<lambda>d p. Some [p],
     real_path = \<lambda>d p. Some (47 # p)\<rparr>"

definition w0 :: fsys where
  "w0 = \<lparr>files = [[97] \<mapsto> [104, 105], [98] \<mapsto> [33], [115] \<mapsto> [35, 33, 120, 10, 118]],
     streams = Map.empty, opens = 0, misused = [], cwd = [47], std_out = [], std_err = []\<rparr>"

definition m0 :: mem where
  "m0 = \<lparr>blocks = [4096 \<mapsto> replicate 56 0], tick = 1\<rparr>"

definition g0 :: res_mgn where
  "g0 = \<lparr>self = Ptr 4096 0, last_id = 0, rhead = None, rids = Map.empty, mlocked = False\<rparr>"

lemma L0_pick [simp]: "pick L0 t n = 4096 * (of_nat t + 1)" by (simp add: L0_def)

lemma install_sample: "jsc_install_file_lib L0 w empty_mem = Some (g0, w, m0)"
  by (simp add: jsc_install_file_lib_def res_create_management_def plat_mem_allocate_def malloc_def
      empty_mem_def res_mgn_size_def g0_def m0_def)

lemma w0_simps [simp]: "streams w0 = Map.empty" "misused w0 = []" "opens w0 = 0"
  "files w0 [97] = Some [104, 105]" "files w0 [98] = Some [33]" "cwd w0 = [47]"
  "files w0 [115] = Some [35, 33, 120, 10, 118]"
  by (simp_all add: w0_def)

lemma H0_simps [simp]: "new_file H0 t = 256 * (of_nat t + 1)" "absolute H0 d p = p" "\<not> is_dir H0 p"
  "can_write H0 p" "real_path H0 d p = Some (47 # p)" "command H0 c = Some [104, 105, 10]"
  by (simp_all add: H0_def)

lemma lib_ok_sample: "lib_ok (g0, w0, m0)"
  using install_ok(1) [OF _ install_sample, of w0] by simp

lemma res_ok_sample: "res_ok g0 m0" using lib_ok_sample by (simp add: lib_ok_def)

lemma g0_simps [simp]: "rhead g0 = None" "res_ids g0 = []" "res_table g0 m = []" "last_id g0 = 0"
  by (simp_all add: g0_def res_ids_def res_table_def hash_iter_def)

lemma room_sample: "hash_room (rhead g0)" by (simp add: hash_room_def)

lemma malloc_sample: "malloc_succeeds L0 n m0"
  by (simp add: malloc_succeeds_def m0_def)

subsection \<open>One resource\<close>

lemma create_sample:
  assumes "unat sz < 2 ^ 32 - 64"
  obtains a g m where "res_create L0 sz g0 m0 = Some (0, Ptr a res_hdr, g, m)" "res_ok g m"
    "res_table g m = [(0, replicate (unat sz) 0)]" "hash_iter (rhead g) = [a]"
    "blocks m = (blocks m0)(a \<mapsto> replicate (64 + unat sz) 0)" "blocks m0 a = None"
    "self g = Ptr 4096 0" "a = 8192"
proof -
  obtain i a g m where c: "res_create L0 sz g0 m0 = Some (i, Ptr a res_hdr, g, m)"
    "res_ok g m" "i \<notin> set (res_ids g0)" "blocks m0 a = None"
    "res_table g m = res_table g0 m0 @ [(i, replicate (unat sz) 0)]"
    "blocks m = (blocks m0)(a \<mapsto> replicate (64 + unat sz) 0)"
    "hash_find (rhead g) (int_key i) = Some a"
    by (rule res_create_spec [OF res_ok_sample room_sample _ assms malloc_sample]) simp_all
  have g: "i = 0 \<and> self g = Ptr 4096 0"
    using c(1) by (auto simp: res_create_def mutex_lock_def mutex_unlock_def g0_def res_create_loop.simps
        hash_find_def res_new_def Let_def split: ptr.splits if_splits elim!: bind_SomeE)
  have a: "a = 8192"
    using c(1) res_create_eq [OF res_ok_sample room_sample _ assms malloc_sample] by (simp add: m0_def)
  have "length (hash_iter (rhead g)) = 1"
    using arg_cong [OF c(5), of length] by (simp add: res_table_def [of g])
  moreover have "a \<in> set (hash_iter (rhead g))"
    using res_find_some [of g m i a] c(2,7) by (simp add: res_ok_def)
  ultimately have "hash_iter (rhead g) = [a]" by (auto simp: length_Suc_conv)
  with c g a show thesis by (intro that [of a g m]) auto
qed

subsection \<open>One managed thread\<close>

definition E0 :: posix where
  "E0 = \<lparr>new_tid = \<lambda>n. of_nat n + 77, exits = \<lambda>t. Some 0\<rparr>"

definition os0 :: os where
  "os0 = \<lparr>alive = [77 \<mapsto> \<lparr>tfunc = 0, tparam = Null, cancelled = False\<rparr>], created = 1, stale = []\<rparr>"

lemma thread_sample:
  obtains a g m where "threads_ok E0 g os0 m [(a, 16, 77)]" "self g = Ptr 4096 0"
    "blocks m 4096 = Some (replicate 56 0)"
proof -
  obtain a g m where c: "res_create L0 24 g0 m0 = Some (0, Ptr a res_hdr, g, m)" "res_ok g m"
    "res_table g m = [(0, replicate (unat (24 :: u64)) 0)]" "hash_iter (rhead g) = [a]"
    "blocks m = (blocks m0)(a \<mapsto> replicate (64 + unat (24 :: u64)) 0)" "blocks m0 a = None" "self g = Ptr 4096 0"
    and a: "a = 8192"
    by (rule create_sample [of 24]) simp_all
  let ?m = "m\<lparr>blocks := (blocks m)(a \<mapsto> replicate 64 0 @ le_bytes 8 16 @ replicate 16 0, 16 \<mapsto> le_bytes 8 77)\<rparr>"
  have "length (replicate 64 0 @ le_bytes 8 16 @ replicate 16 0) = 88" by simp
  then have "map_option length (blocks ?m x) = map_option length (blocks m x)"
    if "x \<in> set (hash_iter (rhead g))" for x
    using that c(4,5) a by (simp del: length_append)
  then have "res_ok g ?m"
    by (rule res_ok_blocks [OF c(2)]) simp_all
  moreover have "res_ids g = [0]" using c(3) by (simp flip: res_table_ids [of g m])
  ultimately have "threads_ok E0 g os0 ?m [(a, 16, 77)]"
    using a c(4,7) by (simp add: threads_ok_def managed_ok_def thread_ends_def os0_def E0_def nth_append)
  then show thesis using c(5,7) a by (intro that [of g ?m a]) (simp_all add: m0_def)
qed

subsection \<open>One block in the pool\<close>

lemma pool_ok_empty: "pool_ok empty_pool m" "pool_view empty_pool m = []" "hash_room (phead empty_pool)"
  by (simp_all add: pool_ok_def pool_view_def empty_pool_def hash_ok_def hash_iter_def hash_entries_def hash_room_def)

lemma pool_sample:
  obtains p m where "mgn_mem_alloc L0 10 empty_pool empty_mem = Some (Ptr 8192 0, p, m)" "pool_ok p m"
    "pool_view p m = [(8192, 10, 1, replicate 10 0)]" "hash_room (phead p)"
proof -
  have find: "mgn_find empty_pool Null = None"
    by (simp add: mgn_find_def empty_pool_def hash_find_def)
  have new: "mgn_new L0 10 empty_mem = Some (Some (Ptr 4096 0, Ptr 8192 0),
      \<lparr>blocks = [4096 \<mapsto> replicate 80 0, 8192 \<mapsto> replicate 10 0], tick = 2\<rparr>)"
    by (simp add: mgn_new_def plat_mem_allocate_def malloc_def node_size_def empty_mem_def Let_def)
  let ?p = "mgn_link 4096 \<lparr>mgn_m = Ptr 8192 0, mgn_s = 10, mgn_r = 1\<rparr> empty_pool"
  let ?m = "\<lparr>blocks = [4096 \<mapsto> replicate 80 0, 8192 \<mapsto> replicate 10 (0 :: u8)], tick = 2\<rparr>"
  have "mgn_mem_alloc L0 10 empty_pool empty_mem = Some (Ptr 8192 0, ?p, ?m)"
    using find new by (simp add: mgn_mem_alloc_def mgn_mem_ralloc_def)
  moreover have "pool_ok ?p ?m" "pool_view ?p ?m = [(8192, 10, 1, replicate 10 0)]"
    using mgn_link_new [OF pool_ok_empty(1,3), of empty_mem 4096 8192 ?m "replicate 80 0" "replicate 10 0" 10]
    by (simp_all add: empty_mem_def pool_ok_empty)
  moreover have "hash_room (phead ?p)"
    by (simp add: mgn_link_def empty_pool_def hash_room_def hash_add_def hash_make_table_def Let_def
        hash_add_to_bkt_def empty_bucket_def nth_list_update hash_to_bkt_mod [of 32 5] word_le_nat_alt)
  ultimately show thesis by (rule that)
qed

subsection \<open>One open file\<close>

lemma fopen_sample: "fopen H0 [97] [119] w0 = (256, w0\<lparr>opens := 1, streams := [256 \<mapsto>
    \<lparr>spath = [97], spipe = False, sout = [], spos = 0, sread = False, swrite = True, sappend = False\<rparr>],
    files := (files w0)([97] \<mapsto> [])\<rparr>)"
  by (simp add: fopen_def open_stream_def Let_def)

lemma open_sample:
  obtains g w m where "jsc_fopen L0 H0 [JString [97], JString [119]] (g0, w0, m0)
       = Some ((V7_OK, JNumber (Num 0)), g, w, m)"
    "w = snd (fopen H0 [97] [119] w0)" "lib_ok (g, w, m)" "res_table g m = [(0, handle_bytes hdl_typ_file 256)]"
proof -
  obtain f g w m i where o: "fopen H0 [97] [119] w0 = (f, w)"
    "open_handle L0 hdl_typ_file (fopen H0) [JString [97], JString [119]] (g0, w0, m0) =
       Some ((V7_OK, if f \<noteq> 0 \<and> 0 \<le> sint i then JNumber (Num (of_int (sint i))) else JUndefined), g, w, m)"
    "f \<noteq> 0 \<Longrightarrow> 0 \<le> sint i \<Longrightarrow> i \<notin> set (res_ids g0) \<and> lib_ok (g, w, m) \<and>
       res_table g m = res_table g0 m0 @ [(i, handle_bytes hdl_typ_file f)]"
    "f \<noteq> 0 \<Longrightarrow> i \<in> set (res_ids g)"
    by (rule open_handle_spec [OF lib_ok_sample room_sample _ malloc_sample, of hdl_typ_file "[97]" "[97]" "[119]" "[119]" "fopen H0" "[]"])
       (simp_all add: to_cstring_def fopen_opens_new)
  obtain a g1 m1 where c: "res_create L0 16 g0 m0 = Some (0, Ptr a res_hdr, g1, m1)" "res_ok g1 m1"
    "res_table g1 m1 = [(0, replicate (unat (16 :: u64)) 0)]" "hash_iter (rhead g1) = [a]"
    "blocks m1 = (blocks m0)(a \<mapsto> replicate (64 + unat (16 :: u64)) 0)" "blocks m0 a = None" "self g1 = Ptr 4096 0"
    "a = 8192"
    by (rule create_sample [of 16]) simp_all
  have "g = g1" using o(1,2) fopen_sample c(1)
    by (auto simp: open_handle_def to_cstring_def res_create_and_clone_def handle_size_def elim!: bind_SomeE)
  moreover have "res_ids g1 = [0]" using c(3) by (simp flip: res_table_ids [of g1 m1])
  ultimately have "i = 0" using o(4) o(1) fopen_sample by simp
  then show thesis using o fopen_sample by (intro that [of g w m]) (simp_all add: jsc_fopen_def)
qed

text \<open>What \<open>fopen\<close> registers does not depend on the rest of the world.\<close>

lemma open_handle_world:
  assumes "open_handle L t opn args (g, w, m) = Some (r, g', w', m')" "\<And>a b. opn a b v = (fst (opn a b w), u a b)"
  shows "\<exists>v'. open_handle L t opn args (g, v, m) = Some (r, g', v', m') \<and>
     (v' = v \<or> (\<exists>s0 s1 rest. args = JString s0 # JString s1 # rest \<and> v' = u s0 s1))"
  using assms
  by (auto simp: open_handle_def to_cstring_def split: list.splits jsval.splits prod.splits if_splits elim!: bind_SomeE)

end
