(* ===== verification/ShellProps.thy ===== *)
theory ShellProps
  imports Samples
begin

text \<open>
  The properties of the program's own components: the hash table, the resource manager, the managed
  threads, the memory pool and the file commands, each with a witness in the surroundings of Samples.
\<close>

subsection \<open>The hash table\<close>

text \<open>C25: an \<open>uthash\<close> table is a finite map: adding a new key extends the lookup function at that
  key only and keeps the table well-formed, and deleting any element removes its key only.\<close>

theorem hash_refines_map:
  assumes "hash_ok t" "hash_room t" "k \<notin> fst ` set (hash_entries t)" "e \<notin> snd ` set (hash_entries t)"
  shows "hash_ok (hash_add e k t) \<and> hash_find (hash_add e k t) = (hash_find t)(k \<mapsto> e) \<and>
    (\<forall>k' e'. (k', e') \<in> set (hash_entries (hash_add e k t)) \<longrightarrow>
       (\<exists>t'. hash_delete e' (hash_add e k t) = Some t' \<and> hash_ok t' \<and>
             hash_find t' = (hash_find (hash_add e k t))(k' := None)))"
proof (intro conjI allI impI)
  show ok: "hash_ok (hash_add e k t)" by (rule ht.add_ok [OF assms])
  show "hash_find (hash_add e k t) = (hash_find t)(k \<mapsto> e)"
    by (simp add: fun_eq_iff ht.find_add [OF assms])
  fix k' e' assume e': "(k', e') \<in> set (hash_entries (hash_add e k t))"
  then obtain t' where t': "hash_delete e' (hash_add e k t) = Some t'"
    using ht.del_some [OF ok, of e'] by force
  then show "\<exists>t'. hash_delete e' (hash_add e k t) = Some t' \<and> hash_ok t' \<and>
             hash_find t' = (hash_find (hash_add e k t))(k' := None)"
    using ht.del_ok [OF ok t'] ht.find_del [OF ok t' e'] by (intro exI [of _ t']) (simp add: fun_eq_iff)
qed

lemma one_entry: "hash_ok (hash_add 7 [1] None)" "hash_entries (hash_add 7 [1] None) = [([1], 7)]"
  using ht.add_ok [of None "[1]" 7] ht.add_entries [of None "[1]" 7]
  by (simp_all add: hash_ok_def [of None] hash_entries_def [of None] hash_room_def)

lemma one_entry_room: "hash_room (hash_add 7 [1] None)"
  by (simp add: hash_room_def hash_add_def hash_add_to_bkt_frame hash_make_table_def Let_def
      hash_add_to_bkt_def empty_bucket_def nth_list_update hash_to_bkt_mod [of 32 5] word_le_nat_alt)

theorem hash_refines_map_witness:
  "hash_find (hash_add 9 [2] (hash_add 7 [1] None)) = (hash_find (hash_add 7 [1] None))([2] \<mapsto> 9)"
  using hash_refines_map [of "hash_add 7 [1] None" "[2]" 9] one_entry one_entry_room by simp

subsection \<open>The resource manager\<close>

text \<open>C22: \<open>res_create\<close> answers a number that no resource has, and a pointer to a new block of zero
  bytes, which is appended to the resources of the manager; the manager stays well-formed and
  unlocked, and finds the block by the number.\<close>

theorem res_create_fresh:
  assumes "res_ok g m" "hash_room (rhead g)" "length (res_ids g) < 2 ^ 32"
    and "unat sz < 2 ^ 32 - 64" "malloc_succeeds L (64 + unat sz) m"
  shows "\<exists>i a g' m'. res_create L sz g m = Some (i, Ptr a res_hdr, g', m') \<and> res_ok g' m' \<and>
     i \<notin> set (res_ids g) \<and> blocks m a = None \<and>
     res_table g' m' = res_table g m @ [(i, replicate (unat sz) 0)] \<and>
     res_get i g' = Some (Ptr a res_hdr, g')"
proof -
  obtain i a g' m' where c: "res_create L sz g m = Some (i, Ptr a res_hdr, g', m')"
    "res_ok g' m'" "i \<notin> set (res_ids g)" "blocks m a = None"
    "res_table g' m' = res_table g m @ [(i, replicate (unat sz) 0)]"
    "blocks m' = (blocks m)(a \<mapsto> replicate (64 + unat sz) 0)"
    "hash_find (rhead g') (int_key i) = Some a"
    by (rule res_create_spec [OF assms])
  moreover have "a \<in> set (hash_iter (rhead g')) \<and> rids g' a = Some i"
    using res_find_some [of g' m' i a] c(2,7) by (simp add: res_ok_def)
  ultimately show ?thesis using res_get_known [OF c(2), of a i] by blast
qed

theorem res_create_fresh_witness:
  "\<exists>i a g' m'. res_create L0 24 g0 m0 = Some (i, Ptr a res_hdr, g', m') \<and> res_ok g' m' \<and>
     i \<notin> set (res_ids g0) \<and> blocks m0 a = None \<and>
     res_table g' m' = res_table g0 m0 @ [(i, replicate (unat (24 :: u64)) 0)] \<and>
     res_get i g' = Some (Ptr a res_hdr, g')"
  by (rule res_create_fresh [OF res_ok_sample room_sample _ _ malloc_sample]) simp_all

text \<open>C23: \<open>res_release\<close> removes exactly the resource of the number, if there is one, frees its
  block and no other, and leaves the manager well-formed and unlocked.\<close>

theorem res_release_removes:
  assumes "res_ok g m"
  shows "\<exists>g' m'. res_release i g m = Some (g', m') \<and> res_ok g' m' \<and>
     res_table g' m' = filter (\<lambda>x. fst x \<noteq> i) (res_table g m) \<and>
     (\<forall>a. blocks m' a = (if a \<in> set (hash_iter (rhead g)) \<and> rids g a = Some i then None else blocks m a)) \<and>
     res_get i g' = Some (Null, g')"
proof -
  obtain g' m' where r: "res_release i g m = Some (g', m')" "res_ok g' m'"
    "res_table g' m' = filter (\<lambda>x. fst x \<noteq> i) (res_table g m)"
    "blocks m' = (\<lambda>x. if x \<in> set (hash_iter (rhead g)) \<and> rids g x = Some i then None else blocks m x)"
    "hash_iter (rhead g') = filter (\<lambda>x. rids g x \<noteq> Some i) (hash_iter (rhead g))"
    "rids g' = (\<lambda>x. if x \<in> set (hash_iter (rhead g)) \<and> rids g x = Some i then None else rids g x)"
    "self g' = self g"
    by (rule res_release_spec [OF assms])
  have "i \<notin> set (res_ids g')"
    using r(3) by (auto simp flip: res_table_ids [of g' m'])
  then show ?thesis using r res_get_unknown [OF r(2)] by auto
qed

theorem res_release_removes_witness:
  "\<exists>g m g' m'. res_table g m = [(0, replicate 24 0)] \<and> res_release 0 g m = Some (g', m') \<and> res_table g' m' = []"
proof -
  obtain a g m where c: "res_create L0 24 g0 m0 = Some (0, Ptr a res_hdr, g, m)" "res_ok g m"
    "res_table g m = [(0, replicate (unat (24 :: u64)) 0)]" "hash_iter (rhead g) = [a]"
    "blocks m = (blocks m0)(a \<mapsto> replicate (64 + unat (24 :: u64)) 0)" "blocks m0 a = None" "self g = Ptr 4096 0"
    "a = 8192" by (rule create_sample [of 24]) simp_all
  then show ?thesis using res_release_removes [OF c(2), of 0] by auto
qed

text \<open>\<open>res_release_all\<close> calls the callback once for every resource, in the order of creation, with
  its number and data, when the callback only reads the resource, and then frees every block of
  the manager.\<close>

theorem res_release_all_visits:
  assumes "res_ok g m" "\<forall>x \<in> set (res_table g m). Q (fst x) (snd x)" "reads_only Q cb f"
  shows "\<exists>g' m'. res_release_all cb g s m = Some (g', foldl (\<lambda>s (i, bs). f i bs s) s (res_table g m), m') \<and>
     res_ok g' m' \<and> res_table g' m' = [] \<and>
     (\<forall>a. blocks m' a = (if a \<in> set (hash_iter (rhead g)) then None else blocks m a))"
proof -
  obtain g' where "res_release_all cb g s m =
      Some (g', foldl (\<lambda>s (i, bs). f i bs s) s (res_table g m), remove_blocks (set (hash_iter (rhead g))) m)"
    "hash_iter (rhead g') = []" "self g' = self g"
    "res_ok g' (remove_blocks (set (hash_iter (rhead g))) m)"
    by (rule res_release_all_spec [OF assms])
  then show ?thesis by (auto simp: remove_blocks_def res_table_def [of g'])
qed

theorem res_release_all_visits_witness:
  "\<exists>g m g' m'. res_table g m = [(0, replicate 24 0)] \<and>
     res_release_all (\<lambda>i p s m. Some (s @ [i], m)) g [] m = Some (g', [0], m') \<and> res_table g' m' = []"
proof -
  obtain a g m where c: "res_create L0 24 g0 m0 = Some (0, Ptr a res_hdr, g, m)" "res_ok g m"
    "res_table g m = [(0, replicate (unat (24 :: u64)) 0)]" "hash_iter (rhead g) = [a]"
    "blocks m = (blocks m0)(a \<mapsto> replicate (64 + unat (24 :: u64)) 0)" "blocks m0 a = None" "self g = Ptr 4096 0"
    "a = 8192" by (rule create_sample [of 24]) simp_all
  have "reads_only (\<lambda>i bs. True) (\<lambda>i p s m. Some (s @ [i], m)) (\<lambda>i bs s. s @ [i])"
    by (simp add: reads_only_def)
  from res_release_all_visits [OF c(2) _ this, of "[]"] c(3) show ?thesis by auto
qed

subsection \<open>The managed threads\<close>

text \<open>C24: \<open>run_done\<close> returns when every managed thread ends: it joins each of them, frees the block
  of the thread, the block of its \<open>pthread_t\<close> and the manager, and forgets the manager; and it
  cancels every thread after it was joined, when the identifier is no longer valid.\<close>

theorem run_done_joins:
  assumes "threads_ok E g w m ts" "self g = Ptr s 0"
  shows "\<exists>w' m'. run_done E (Some g, w, m) = Some (None, w', m') \<and>
     alive w' = (\<lambda>t. if t \<in> (snd \<circ> snd) ` set ts then None else alive w t) \<and>
     stale w' = stale w @ rev (map (snd \<circ> snd) ts) \<and>
     (\<forall>x. blocks m' x = (if x = s \<or> x \<in> fst ` set ts \<union> (fst \<circ> snd) ` set ts then None else blocks m x))"
proof -
  obtain g' w' m' where l: "run_done_loop E g w m = Some (g', w', m')" "res_ok g' m'" "hash_iter (rhead g') = []"
    "self g' = self g" "alive w' = (\<lambda>t. if t \<in> (snd \<circ> snd) ` set ts then None else alive w t)"
    "stale w' = stale w @ rev (map (snd \<circ> snd) ts)"
    "blocks m' = (\<lambda>x. if x \<in> fst ` set ts \<union> (fst \<circ> snd) ` set ts then None else blocks m x)"
    using run_done_loop_spec [OF assms(1)] by blast
  have "\<not> mlocked g'" "blocks m' s \<noteq> None"
    using l(2,4) assms(2) by (auto simp: res_ok_def res_inv_def)
  then have "run_done E (Some g, w, m) = Some (None, w', m'\<lparr>blocks := (blocks m')(s := None)\<rparr>)"
    using l(1,4) assms(2) by (simp add: run_done_def res_release_management_def plat_mem_release_def)
  with l(5-7) show ?thesis by auto
qed

theorem run_done_joins_witness:
  "\<exists>g m w' m'. run_done E0 (Some g, os0, m) = Some (None, w', m') \<and> alive os0 77 \<noteq> None \<and>
     alive w' 77 = None \<and> stale w' = [77] \<and> blocks m 4096 \<noteq> None \<and> blocks m' 4096 = None"
proof -
  obtain g m a where t: "threads_ok E0 g os0 m [(a, 16, 77)]" "self g = Ptr 4096 0"
    "blocks m 4096 = Some (replicate 56 0)"
    by (rule thread_sample)
  from run_done_joins [OF t(1,2)] t(3) show ?thesis by (fastforce simp: os0_def)
qed

text \<open>\<open>run\<close> never starts a thread on a parameter block of less than 4 GiB that holds its
  \<open>param_size\<close> bytes, nor without a parameter when the size is below 24: the size expression
  drops \<open>sizeof(*thrd)\<close>, and the thread structure and the parameter do not fit the block.\<close>

theorem run_overflows:
  assumes "unat n < 2 ^ 32 - 64"
    and "case param of None \<Rightarrow> unat n < 24 | Some bs \<Rightarrow> length bs = unat n"
  shows "run L E f n param st = None"
  by (rule run_none [OF assms])

theorem run_overflows_witness: "run L0 E0 5 4 (Some [1, 2, 3, 4]) (None, os0, m0) = None"
  by (rule run_overflows) simp_all

subsection \<open>The memory pool\<close>

text \<open>\<open>mgn_mem_alloc\<close> either fails and leaves the pool and the heap as they were, or answers a
  new block of zero bytes with one owner, appended to the pool; the pool stays well-formed.\<close>

theorem pool_alloc:
  assumes "pool_ok p m" "hash_room (phead p)" "sz \<noteq> 0"
  shows "\<exists>r p' m'. mgn_mem_alloc L sz p m = Some (r, p', m') \<and> pool_ok p' m' \<and>
    ((r = Null \<and> p' = p \<and> blocks m' = blocks m) \<or>
     (\<exists>b. r = Ptr b 0 \<and> blocks m b = None \<and>
        pool_view p' m' = pool_view p m @ [(b, sz, 1, replicate (unat (ucast sz :: u32)) 0)]))"
proof -
  obtain r p' m' where "mgn_mem_alloc L sz p m = Some (r, p', m')" "pool_ok p' m'"
    "(r = Null \<and> p' = p \<and> blocks m' = blocks m) \<or>
     (\<exists>b. r = Ptr b 0 \<and> blocks m b = None \<and>
        pool_view p' m' = pool_view p m @ [(b, sz, 1, replicate (unat (ucast sz :: u32)) 0)])"
    by (rule mgn_mem_alloc_spec [OF assms])
  then show ?thesis by (intro exI [of _ r] exI [of _ p'] exI [of _ m']) simp
qed

theorem pool_alloc_witness:
  "\<exists>p m. mgn_mem_alloc L0 10 empty_pool empty_mem = Some (Ptr 8192 0, p, m) \<and>
     pool_view p m = [(8192, 10, 1, replicate 10 0)]"
proof -
  obtain p m where "mgn_mem_alloc L0 10 empty_pool empty_mem = Some (Ptr 8192 0, p, m)" "pool_ok p m"
    "pool_view p m = [(8192, 10, 1, replicate 10 0)]" "hash_room (phead p)"
    by (rule pool_sample)
  then show ?thesis
    using pool_alloc [OF pool_ok_empty(1,3), of 10 L0 empty_mem] by (auto simp: pool_ok_empty)
qed

lemma pool_view_owner:
  assumes "pool_ok p m" "(b, s, r, bs) \<in> set (pool_view p m)" "(b, s', r', bs') \<in> set (pool_view p m)"
  shows "r' = r"
proof -
  obtain a a' where "a \<in> set (hash_iter (phead p))" "a' \<in> set (hash_iter (phead p))"
    "membase p a = b" "membase p a' = b" "r = mgn_r (the (nodes p a))" "r' = mgn_r (the (nodes p a'))"
    using assms(2,3) by (auto simp: pool_view_def)
  then show ?thesis using inj_onD [OF membase_inj [OF assms(1)], of a a'] by simp
qed

text \<open>C26: counting owners: a release after a retain leaves the pool as it was; the release of the
  last owner, and only that one, frees the block and takes it out of the pool.\<close>

theorem pool_owners:
  assumes "pool_ok p m" "(b, s, r, bs) \<in> set (pool_view p m)" "r \<noteq> 0" "r + 1 \<noteq> 0"
  shows "(\<exists>p1 p2 m2. mgn_mem_retain (Ptr b 0) p = Some (Ptr b 0, p1) \<and>
      mgn_mem_release (Ptr b 0) p1 m = Some (p2, m2) \<and> pool_ok p2 m2 \<and> pool_view p2 m2 = pool_view p m \<and>
      blocks m2 b = Some bs) \<and>
    (\<exists>p' m'. mgn_mem_release (Ptr b 0) p m = Some (p', m') \<and> pool_ok p' m' \<and>
      pool_view p' m' = (if r = 1 then filter (\<lambda>x. fst x \<noteq> b) (pool_view p m)
                         else map (set_owners b (r - 1)) (pool_view p m)) \<and>
      blocks m' b = (if r = 1 then None else Some bs))"
proof
  obtain p1 where p1: "mgn_mem_retain (Ptr b 0) p = Some (Ptr b 0, p1)" "pool_ok p1 m"
    "pool_view p1 m = map (set_owners b (r + 1)) (pool_view p m)"
    by (rule mgn_mem_retain_spec [OF assms(1,2)])
  have v: "(b, s, r + 1, bs) \<in> set (pool_view p1 m)"
    using assms(2) p1(3) by (force simp: set_owners_def)
  obtain p2 m2 where p2: "mgn_mem_release_raw True (Ptr b 0) p1 m = Some (p2, m2)" "pool_ok p2 m2"
    "pool_view p2 m2 = (if r + 1 = 1 \<and> True then filter (\<lambda>x. fst x \<noteq> b) (pool_view p1 m)
        else map (set_owners b (r + 1 - 1)) (pool_view p1 m))"
    "blocks m2 b = (if r + 1 = 1 \<and> True then None else Some bs)"
    by (rule mgn_mem_release_spec [OF p1(2) v assms(4)])
  have "map (set_owners b r) (map (set_owners b (r + 1)) (pool_view p m)) = pool_view p m"
    unfolding map_map
  proof (rule map_idI)
    fix x assume x: "x \<in> set (pool_view p m)"
    obtain b' s' r' bs' where x': "x = (b', s', r', bs')" by (rule prod_cases4)
    show "(set_owners b r \<circ> set_owners b (r + 1)) x = x"
      using pool_view_owner [OF assms(1,2), of s' r' bs'] x unfolding x' by (auto simp: set_owners_def)
  qed
  then show "\<exists>p1 p2 m2. mgn_mem_retain (Ptr b 0) p = Some (Ptr b 0, p1) \<and>
      mgn_mem_release (Ptr b 0) p1 m = Some (p2, m2) \<and> pool_ok p2 m2 \<and> pool_view p2 m2 = pool_view p m \<and>
      blocks m2 b = Some bs"
    using p1 p2 assms(3) by (intro exI [of _ p1] exI [of _ p2] exI [of _ m2]) (simp add: mgn_mem_release_def)
  obtain p' m' where "mgn_mem_release_raw True (Ptr b 0) p m = Some (p', m')" "pool_ok p' m'"
    "pool_view p' m' = (if r = 1 \<and> True then filter (\<lambda>x. fst x \<noteq> b) (pool_view p m)
        else map (set_owners b (r - 1)) (pool_view p m))"
    "blocks m' b = (if r = 1 \<and> True then None else Some bs)"
    by (rule mgn_mem_release_spec [OF assms(1-3)])
  then show "\<exists>p' m'. mgn_mem_release (Ptr b 0) p m = Some (p', m') \<and> pool_ok p' m' \<and>
      pool_view p' m' = (if r = 1 then filter (\<lambda>x. fst x \<noteq> b) (pool_view p m)
                         else map (set_owners b (r - 1)) (pool_view p m)) \<and>
      blocks m' b = (if r = 1 then None else Some bs)"
    by (intro exI [of _ p'] exI [of _ m']) (simp add: mgn_mem_release_def)
qed

theorem pool_owners_witness:
  "\<exists>p m p' m'. pool_view p m = [(8192, 10, 1, replicate 10 0)] \<and>
     mgn_mem_release (Ptr 8192 0) p m = Some (p', m') \<and> pool_view p' m' = [] \<and> blocks m' 8192 = None"
proof -
  obtain p m where s: "mgn_mem_alloc L0 10 empty_pool empty_mem = Some (Ptr 8192 0, p, m)" "pool_ok p m"
    "pool_view p m = [(8192, 10, 1, replicate 10 0)]" "hash_room (phead p)"
    by (rule pool_sample)
  then show ?thesis using pool_owners [OF s(2), of 8192 10 1 "replicate 10 0"] by auto
qed

text \<open>Growing a block that has one owner gives a new block with the old bytes and zeros after
  them, and frees the old one; when the allocation fails the entry is lost from the pool while its
  memory stays allocated.\<close>

theorem ralloc_grows_owned:
  assumes "pool_ok p m" "hash_room (phead p)" "(b, s, 1, bs) \<in> set (pool_view p m)"
    and "s < sz" "unat sz < 2 ^ 32"
  shows "\<exists>r p' m'. mgn_mem_ralloc L (Ptr b 0) sz p m = Some (r, p', m') \<and> pool_ok p' m' \<and>
    ((r = Null \<and> pool_view p' m' = filter (\<lambda>x. fst x \<noteq> b) (pool_view p m) \<and> blocks m' = blocks m) \<or>
     (\<exists>c. r = Ptr c 0 \<and> blocks m c = None \<and> blocks m' b = None \<and>
        pool_view p' m' = filter (\<lambda>x. fst x \<noteq> b) (pool_view p m) @ [(c, sz, 1, grown bs sz)]))"
proof -
  obtain r p' m' where "mgn_mem_ralloc L (Ptr b 0) sz p m = Some (r, p', m')" "pool_ok p' m'"
    "(r = Null \<and> pool_view p' m' = filter (\<lambda>x. fst x \<noteq> b) (pool_view p m) \<and> blocks m' = blocks m) \<or>
     (\<exists>c. r = Ptr c 0 \<and> blocks m c = None \<and> blocks m' b = None \<and>
        pool_view p' m' = filter (\<lambda>x. fst x \<noteq> b) (pool_view p m) @ [(c, sz, 1, grown bs sz)])"
    by (rule mgn_ralloc_owned_spec [OF assms])
  then show ?thesis by (intro exI [of _ r] exI [of _ p'] exI [of _ m']) simp
qed

theorem ralloc_grows_owned_witness:
  "\<exists>p m r p' m'. pool_view p m = [(8192, 10, 1, replicate 10 0)] \<and>
     mgn_mem_ralloc L0 (Ptr 8192 0) 20 p m = Some (r, p', m') \<and> pool_ok p' m'"
proof -
  obtain p m where s: "mgn_mem_alloc L0 10 empty_pool empty_mem = Some (Ptr 8192 0, p, m)" "pool_ok p m"
    "pool_view p m = [(8192, 10, 1, replicate 10 0)]" "hash_room (phead p)"
    by (rule pool_sample)
  have "(8192, 10, 1, replicate 10 0) \<in> set (pool_view p m)" using s(3) by simp
  from ralloc_grows_owned [OF s(2,4) this, of 20 L0]
  have "\<exists>r p' m'. mgn_mem_ralloc L0 (Ptr 8192 0) 20 p m = Some (r, p', m') \<and> pool_ok p' m'"
    by (auto simp: word_less_nat_alt)
  with s(3) show ?thesis by blast
qed

text \<open>Growing a block that several owners share gives up one ownership of it and copies it into
  a new block with one owner; the shared block stays as it is for the others.\<close>

theorem ralloc_copies_shared:
  assumes "pool_ok p m" "hash_room (phead p)" "(b, s, r, bs) \<in> set (pool_view p m)" "r \<noteq> 1"
    and "s < sz" "unat sz < 2 ^ 32"
  shows "\<exists>x p' m'. mgn_mem_ralloc L (Ptr b 0) sz p m = Some (x, p', m') \<and> pool_ok p' m' \<and>
    ((x = Null \<and> pool_view p' m' = map (set_owners b (if r > 0 then r - 1 else 0)) (pool_view p m)) \<or>
     (\<exists>c. x = Ptr c 0 \<and> blocks m c = None \<and>
        pool_view p' m' = map (set_owners b (if r > 0 then r - 1 else 0)) (pool_view p m) @ [(c, sz, 1, grown bs sz)]))"
proof -
  obtain x p' m' where "mgn_mem_ralloc L (Ptr b 0) sz p m = Some (x, p', m')" "pool_ok p' m'"
    "(x = Null \<and> pool_view p' m' = map (set_owners b (if r > 0 then r - 1 else 0)) (pool_view p m)) \<or>
     (\<exists>c. x = Ptr c 0 \<and> blocks m c = None \<and>
        pool_view p' m' = map (set_owners b (if r > 0 then r - 1 else 0)) (pool_view p m) @ [(c, sz, 1, grown bs sz)])"
    by (rule mgn_ralloc_shared_spec [OF assms])
  then show ?thesis by (intro exI [of _ x] exI [of _ p'] exI [of _ m']) simp
qed

theorem ralloc_copies_shared_witness:
  "\<exists>p m x p' m'. pool_view p m = [(8192, 10, 2, replicate 10 0)] \<and>
     mgn_mem_ralloc L0 (Ptr 8192 0) 20 p m = Some (x, p', m') \<and> pool_ok p' m'"
proof -
  obtain p m where s: "mgn_mem_alloc L0 10 empty_pool empty_mem = Some (Ptr 8192 0, p, m)" "pool_ok p m"
    "pool_view p m = [(8192, 10, 1, replicate 10 0)]" "hash_room (phead p)"
    by (rule pool_sample)
  have v: "(8192, 10, 1, replicate 10 0) \<in> set (pool_view p m)" using s(3) by simp
  obtain p1 where r: "mgn_mem_retain (Ptr 8192 0) p = Some (Ptr 8192 0, p1)" "pool_ok p1 m"
    "pool_view p1 m = map (set_owners 8192 (1 + 1)) (pool_view p m)"
    by (rule mgn_mem_retain_spec [OF s(2) v])
  then have v1: "pool_view p1 m = [(8192, 10, 2, replicate 10 0)]"
    by (simp add: s(3) set_owners_def)
  have "phead p1 = phead p" using r(1)
    by (auto simp: mgn_mem_retain_def split: option.splits elim!: bind_SomeE)
  then have "\<exists>x p' m'. mgn_mem_ralloc L0 (Ptr 8192 0) 20 p1 m = Some (x, p', m') \<and> pool_ok p' m'"
    using ralloc_copies_shared [OF r(2), of 8192 10 2 "replicate 10 0" 20 L0] v1 s(4)
    by (auto simp: word_less_nat_alt)
  with v1 show ?thesis by blast
qed

text \<open>\<open>mgn_mem_release_unused\<close> removes exactly the blocks without an owner.\<close>

theorem pool_release_unused:
  assumes "pool_ok p m"
  shows "\<exists>p' m'. mgn_mem_release_unused p m = Some (p', m') \<and> pool_ok p' m' \<and>
    pool_view p' m' = filter (\<lambda>v. owners v \<noteq> 0) (pool_view p m)"
proof -
  obtain p' m' where "mgn_mem_release_unused p m = Some (p', m')" "pool_ok p' m'"
    "pool_view p' m' = filter (\<lambda>v. owners v \<noteq> 0) (pool_view p m)"
    by (rule mgn_release_unused_spec [OF assms])
  then show ?thesis by blast
qed

theorem pool_release_unused_witness:
  "\<exists>p m p' m'. pool_view p m = [(8192, 10, 0, replicate 10 0)] \<and>
     mgn_mem_release_unused p m = Some (p', m') \<and> pool_view p' m' = []"
proof -
  obtain p m where s: "mgn_mem_alloc L0 10 empty_pool empty_mem = Some (Ptr 8192 0, p, m)" "pool_ok p m"
    "pool_view p m = [(8192, 10, 1, replicate 10 0)]" "hash_room (phead p)"
    by (rule pool_sample)
  have v: "(8192, 10, 1, replicate 10 0) \<in> set (pool_view p m)" using s(3) by simp
  obtain p1 m1 where r: "mgn_mem_release_raw False (Ptr 8192 0) p m = Some (p1, m1)" "pool_ok p1 m1"
    "pool_view p1 m1 = (if 1 = (1 :: u64) \<and> False then filter (\<lambda>x. fst x \<noteq> 8192) (pool_view p m)
        else map (set_owners 8192 (1 - 1)) (pool_view p m))"
    "blocks m1 8192 = (if 1 = (1 :: u64) \<and> False then None else Some (replicate 10 0))"
    by (rule mgn_mem_release_spec [OF s(2) v, of False]) simp
  from r(3) have "pool_view p1 m1 = [(8192, 10, 0, replicate 10 0)]"
    by (simp add: s(3) set_owners_def)
  then show ?thesis using pool_release_unused [OF r(2)] by (auto simp: owners_def)
qed

end
