(* ===== verification/FileProps.thy ===== *)
theory FileProps
  imports Samples
begin

text \<open>
  The properties of the file commands of \<open>js-clib/jsc_file.c\<close>, each with a witness in the
  surroundings of Samples.
\<close>

subsection \<open>Opening and closing\<close>

text \<open>C20: \<open>fopen\<close> with a name and a mode answers undefined and registers nothing when the C library
  cannot open the file; otherwise the new stream is registered under a new number, which is the
  answer, and every number still names one open stream. Only once the counter has wrapped to a
  negative number is the answer undefined although the file is open.\<close>

theorem fopen_registers:
  assumes "lib_ok (g, w, m)" "hash_room (rhead g)" "length (res_ids g) < 2 ^ 32" "malloc_succeeds L 80 m"
    and "to_cstring s0 = Some a" "to_cstring s1 = Some b" "fopen H a b w = (f, w1)"
  shows "\<exists>r g1 m1 i. jsc_fopen L H (JString s0 # JString s1 # rest) (g, w, m) = Some ((V7_OK, r), g1, w1, m1) \<and>
     (if f = 0 then r = JUndefined \<and> g1 = g \<and> m1 = m \<and> lib_ok (g1, w1, m1)
      else if 0 \<le> sint i
      then r = JNumber (Num (of_int (sint i))) \<and> i \<notin> set (res_ids g) \<and> lib_ok (g1, w1, m1) \<and>
           res_table g1 m1 = res_table g m @ [(i, handle_bytes hdl_typ_file f)]
      else r = JUndefined \<and> i \<in> set (res_ids g1))"
proof -
  obtain f' g1 w' m1 i where o: "fopen H a b w = (f', w')"
    "open_handle L hdl_typ_file (fopen H) (JString s0 # JString s1 # rest) (g, w, m) =
       Some ((V7_OK, if f' \<noteq> 0 \<and> 0 \<le> sint i then JNumber (Num (of_int (sint i))) else JUndefined), g1, w', m1)"
    "f' = 0 \<Longrightarrow> g1 = g \<and> m1 = m \<and> lib_ok (g1, w', m1)"
    "f' \<noteq> 0 \<Longrightarrow> 0 \<le> sint i \<Longrightarrow> i \<notin> set (res_ids g) \<and> lib_ok (g1, w', m1) \<and>
       res_table g1 m1 = res_table g m @ [(i, handle_bytes hdl_typ_file f')]"
    "f' \<noteq> 0 \<Longrightarrow> i \<in> set (res_ids g1)"
    by (rule open_handle_spec [OF assms(1-4) _ assms(5,6), of hdl_typ_file "fopen H" rest])
       (auto simp: fopen_opens_new)
  have eq: "f' = f" "w' = w1" using o(1) assms(7) by simp_all
  show ?thesis
    unfolding jsc_fopen_def using o(2-5) unfolding eq
    by (intro exI [of _ "if f \<noteq> 0 \<and> 0 \<le> sint i then JNumber (Num (of_int (sint i))) else JUndefined"]
        exI [of _ g1] exI [of _ m1] exI [of _ i]) auto
qed

theorem fopen_registers_witness:
  "\<exists>g w m i. jsc_fopen L0 H0 [JString [97], JString [119]] (g0, w0, m0)
     = Some ((V7_OK, JNumber (Num (of_int (sint i)))), g, w, m) \<and> lib_ok (g, w, m) \<and>
     res_table g m = [(i, handle_bytes hdl_typ_file 256)]"
proof -
  obtain g w m where o: "jsc_fopen L0 H0 [JString [97], JString [119]] (g0, w0, m0)
       = Some ((V7_OK, JNumber (Num 0)), g, w, m)"
    "w = snd (fopen H0 [97] [119] w0)" "lib_ok (g, w, m)" "res_table g m = [(0, handle_bytes hdl_typ_file 256)]"
    by (rule open_sample)
  have f: "fopen H0 [97] [119] w0 = (256, w)" by (simp add: o(2) fopen_sample)
  obtain r g1 m1 i where r: "jsc_fopen L0 H0 (JString [97] # JString [119] # []) (g0, w0, m0) = Some ((V7_OK, r), g1, w, m1)"
    "if 0 \<le> sint i
      then r = JNumber (Num (of_int (sint i))) \<and> i \<notin> set (res_ids g0) \<and> lib_ok (g1, w, m1) \<and>
           res_table g1 m1 = res_table g0 m0 @ [(i, handle_bytes hdl_typ_file 256)]
      else r = JUndefined \<and> i \<in> set (res_ids g1)"
    using fopen_registers [OF lib_ok_sample room_sample _ malloc_sample _ _ f, of "[97]" "[119]" "[]"]
    by (auto simp: to_cstring_def)
  then show ?thesis using o(1) by (cases "0 \<le> sint i") auto
qed

text \<open>C21: \<open>fclose\<close> and \<open>pclose\<close> on an open number close its stream, of either kind, and no other,
  and forget the number; the library stays well-formed.\<close>

theorem fclose_closes:
  assumes "lib_ok (g, w, m)" "0 \<le> sint i" "map_of (res_table g m) i = Some (handle_bytes t f)"
    and "close \<in> {jsc_fclose, jsc_pclose}"
  shows "\<exists>g' m'. close (JNumber (Num (of_int (sint i))) # rest) (g, w, m) =
      Some ((V7_OK, JUndefined), g', w\<lparr>streams := (streams w)(f := None)\<rparr>, m') \<and>
    lib_ok (g', w\<lparr>streams := (streams w)(f := None)\<rparr>, m') \<and>
    res_table g' m' = filter (\<lambda>x. fst x \<noteq> i) (res_table g m)"
proof -
  obtain g' m' where "with_handle fclose_use (JNumber (Num (of_int (sint i))) # rest) (g, w, m) =
      Some ((V7_OK, JUndefined), g', w\<lparr>streams := (streams w)(f := None)\<rparr>, m')"
    "lib_ok (g', w\<lparr>streams := (streams w)(f := None)\<rparr>, m')"
    "res_table g' m' = filter (\<lambda>x. fst x \<noteq> i) (res_table g m)"
    by (rule close_spec [OF assms(1-3)])
  then show ?thesis using assms(4) by (auto simp: fclose_eq)
qed

theorem fclose_closes_witness:
  "\<exists>g w m g' m'. streams w 256 \<noteq> None \<and>
     jsc_fclose [JNumber (Num (of_int (sint 0)))] (g, w, m)
       = Some ((V7_OK, JUndefined), g', w\<lparr>streams := (streams w)(256 := None)\<rparr>, m') \<and> res_table g' m' = []"
proof -
  obtain g w m where o: "jsc_fopen L0 H0 [JString [97], JString [119]] (g0, w0, m0)
       = Some ((V7_OK, JNumber (Num 0)), g, w, m)"
    "w = snd (fopen H0 [97] [119] w0)" "lib_ok (g, w, m)" "res_table g m = [(0, handle_bytes hdl_typ_file 256)]"
    by (rule open_sample)
  have "streams w 256 \<noteq> None" by (simp add: o(2) fopen_sample)
  moreover have "map_of (res_table g m) 0 = Some (handle_bytes hdl_typ_file 256)" by (simp add: o(4))
  ultimately show ?thesis
    using fclose_closes [OF o(3) _ \<open>map_of _ _ = _\<close>, of jsc_fclose "[]"] by (fastforce simp: o(4))
qed

subsection \<open>Writing and reading\<close>

text \<open>\<open>writestring\<close> writes the string forms of all its further arguments, up to a NUL byte in
  each, one after the other at the position of the file, as one write of their concatenation, when the conversions
  run no code.\<close>

theorem writestring_writes:
  assumes "lib_ok (g, w, m)" "0 \<le> sint i" "map_of (res_table g m) i = Some (handle_bytes t f)"
    and "streams w f = Some st" "swrite st" "\<not> spipe st" "\<not> sappend st" "vs \<noteq> []"
    and "plain_strings str txt vs"
  defines "text \<equiv> concat (map (c_string \<circ> txt) vs)"
  shows "jsc_writestring str (JNumber (Num (of_int (sint i))) # vs) (g, w, m)
     = Some ((V7_OK, JUndefined), g, w\<lparr>files := (files w)(spath st \<mapsto> write_at (spos st) text (stream_data st w)),
         streams := (streams w)(f \<mapsto> st\<lparr>spos := spos st + length text\<rparr>)\<rparr>, m)"
proof -
  have "fold (\<lambda>v. fwrite (c_string (txt v)) f) vs w = fold (\<lambda>bs. fwrite bs f) (map (c_string \<circ> txt) vs) w"
    by (simp add: fold_map comp_def)
  also have "\<dots> = fwrite text f w"
    unfolding text_def using assms(8) by (subst fwrite_fold [OF assms(4-7)]) simp_all
  also have "\<dots> = w\<lparr>files := (files w)(spath st \<mapsto> write_at (spos st) text (stream_data st w)),
         streams := (streams w)(f \<mapsto> st\<lparr>spos := spos st + length text\<rparr>)\<rparr>"
    using assms(4-7) by (simp add: fwrite_def Let_def)
  finally show ?thesis unfolding jsc_writestring_spec [OF assms(1-3,9)] by simp
qed

theorem writestring_writes_witness:
  "\<exists>g w m w'. lib_ok (g, w, m) \<and>
     jsc_writestring (\<lambda>v st. Some (Some [120, 121], st)) (JNumber (Num (of_int (sint 0))) # [JNull, JNull]) (g, w, m)
       = Some ((V7_OK, JUndefined), g, w', m) \<and> files w' [97] = Some [120, 121, 120, 121]"
proof -
  obtain g w m where o: "jsc_fopen L0 H0 [JString [97], JString [119]] (g0, w0, m0)
       = Some ((V7_OK, JNumber (Num 0)), g, w, m)"
    "w = snd (fopen H0 [97] [119] w0)" "lib_ok (g, w, m)" "res_table g m = [(0, handle_bytes hdl_typ_file 256)]"
    by (rule open_sample)
  have mp: "map_of (res_table g m) 0 = Some (handle_bytes hdl_typ_file 256)" by (simp add: o(4))
  have w: "w = snd (fopen H0 [97] [119] w0)" by (fact o(2))
  have pl: "plain_strings (\<lambda>v st. Some (Some [120, 121], st)) (\<lambda>v. [120, 121]) [JNull, JNull]" by (simp add: plain_strings_def)
  from writestring_writes [OF o(3) _ mp, of _ "[JNull, JNull]", OF _ _ _ _ _ _ pl] o(3)
  show ?thesis
    by (fastforce simp: w fopen_sample stream_data_def write_at_def c_string_def)
qed



text \<open>\<open>readline\<close> consumes a line of the stream and answers undefined in every case.\<close>

theorem readline_undefined:
  assumes "lib_ok (g, w, m)" "0 \<le> sint i" "map_of (res_table g m) i = Some (handle_bytes t f)"
  shows "jsc_readline (JNumber (Num (of_int (sint i))) # rest) (g, w, m)
     = Some ((V7_OK, JUndefined), g, snd (getline f w), m)"
  by (rule jsc_readline_spec [OF assms])

theorem readline_undefined_witness:
  "\<exists>g w m. lib_ok (g, w, m) \<and> streams w 256 \<noteq> None \<and>
     jsc_readline [JNumber (Num (of_int (sint 0)))] (g, w, m)
       = Some ((V7_OK, JUndefined), g, snd (getline 256 w), m)"
proof -
  obtain g w m where o: "jsc_fopen L0 H0 [JString [97], JString [119]] (g0, w0, m0)
       = Some ((V7_OK, JNumber (Num 0)), g, w, m)"
    "w = snd (fopen H0 [97] [119] w0)" "lib_ok (g, w, m)" "res_table g m = [(0, handle_bytes hdl_typ_file 256)]"
    by (rule open_sample)
  have "streams w 256 \<noteq> None" by (simp add: o(2) fopen_sample)
  with readline_undefined [OF o(3), of 0 hdl_typ_file 256 "[]"] o(3,4) show ?thesis by auto
qed

text \<open>\<open>cat\<close> of one readable file answers its contents when it has at most one byte; for every
  longer file it answers undefined and leaves its stream open. The heap is as before.\<close>

theorem cat_reads_short:
  assumes "to_cstring s = Some b" "absolute H (cwd w) b = p" "files w p = Some bs" "\<not> is_dir H p" "can_open H w"
    and "length bs + 1 < 2 ^ 32" "malloc_succeeds L (length bs + 1) m"
  shows "\<exists>w' m'. jsc_cat L H [JString s] w m
       = Some ((V7_OK, if length bs \<le> 1 then JString bs else JUndefined), w', m') \<and>
     (if length bs \<le> 1 then streams w' = streams w else streams w' (new_file H (opens w)) \<noteq> None) \<and>
     blocks m' = blocks m"
proof -
  obtain w' m' where "jsc_cat L H [JString s] w m = Some ((V7_OK, if length bs \<le> 1 then JString bs else JUndefined), w', m')"
    "length bs \<le> 1 \<Longrightarrow> streams w' = streams w" "1 < length bs \<Longrightarrow> streams w' (new_file H (opens w)) \<noteq> None"
    "blocks m' = blocks m"
    by (rule jsc_cat_spec [OF assms]) auto
  then show ?thesis by (intro exI [of _ w'] exI [of _ m']) auto
qed

theorem cat_reads_short_witness:
  "\<exists>w' m'. jsc_cat L0 H0 [JString [97]] w0 m0 = Some ((V7_OK, JUndefined), w', m') \<and> streams w' 256 \<noteq> None"
proof -
  have "can_open H0 w0" by (simp add: can_open_def)
  then show ?thesis
    using cat_reads_short [of "[97]" "[97]" H0 w0 "[97]" "[104, 105]" L0 m0] malloc_sample
    by (auto simp: to_cstring_def)
qed

text \<open>\<open>echo\<close> with a string and a writable file replaces the contents of the file by the string
  and leaves no stream open.\<close>

theorem echo_writes:
  assumes "to_cstring s0 = Some a" "to_cstring s1 = Some b" "absolute H (cwd w) b = p"
    and "\<not> is_dir H p" "can_write H p" "can_open H w"
  shows "jsc_echo H [JString s0, JString s1] w =
     ((V7_OK, JUndefined), w\<lparr>files := (files w)(p \<mapsto> a), opens := Suc (opens w)\<rparr>)"
  by (rule jsc_echo_spec [OF assms])

theorem echo_writes_witness:
  "jsc_echo H0 [JString [120], JString [97]] w0
     = ((V7_OK, JUndefined), w0\<lparr>files := (files w0)([97] \<mapsto> [120]), opens := 1\<rparr>)"
  using echo_writes [of "[120]" "[120]" "[97]" "[97]" H0 w0 "[97]"] by (simp add: to_cstring_def can_open_def)

text \<open>\<open>realpath\<close> answers the resolved paths of its string arguments and of the strings in its
  array arguments, in order and without those that have no path: undefined for none, the path
  itself for one, an array for several.\<close>

theorem realpath_lists:
  "jsc_realpath H args w =
     (V7_OK, case List.map_filter (real_path H (cwd w)) (flat_args args) of
        [] \<Rightarrow> JUndefined | [p] \<Rightarrow> JString p | ps \<Rightarrow> JArray (map JString ps))"
  by (auto simp: jsc_realpath_def realpath_args Let_def as_result_def arg_def split: list.split)

end
