(* ===== verification/Lexer.thy ===== *)
theory Lexer
  imports UtfClasses
begin

text \<open>
  The tokenizer of \<open>v7/v7.c\<close> (\<open>tokenizer.c\<close>). A pointer into the source text is the list of the
  bytes from it to the end; the terminating NUL is implicit, \<open>ch\<close> reads it. Except in the scan of
  a regular expression literal, no byte past the terminator is read: there it is when the text ends with a
  backslash, which has no result. \<open>strtod\<close> (value and number of bytes) is a parameter.
\<close>

text \<open>\<open>enum v7_tok\<close>: the code computes with the numbers of the keywords.\<close>

type_synonym v7_tok = nat

abbreviation (input) TOK_END_OF_INPUT :: v7_tok where "TOK_END_OF_INPUT \<equiv> 0"
abbreviation (input) TOK_NUMBER :: v7_tok where "TOK_NUMBER \<equiv> 1"
abbreviation (input) TOK_STRING_LITERAL :: v7_tok where "TOK_STRING_LITERAL \<equiv> 2"
abbreviation (input) TOK_REGEX_LITERAL :: v7_tok where "TOK_REGEX_LITERAL \<equiv> 3"
abbreviation (input) TOK_IDENTIFIER :: v7_tok where "TOK_IDENTIFIER \<equiv> 4"
abbreviation (input) TOK_OPEN_CURLY :: v7_tok where "TOK_OPEN_CURLY \<equiv> 5"
abbreviation (input) TOK_CLOSE_CURLY :: v7_tok where "TOK_CLOSE_CURLY \<equiv> 6"
abbreviation (input) TOK_OPEN_PAREN :: v7_tok where "TOK_OPEN_PAREN \<equiv> 7"
abbreviation (input) TOK_CLOSE_PAREN :: v7_tok where "TOK_CLOSE_PAREN \<equiv> 8"
abbreviation (input) TOK_COMMA :: v7_tok where "TOK_COMMA \<equiv> 9"
abbreviation (input) TOK_OPEN_BRACKET :: v7_tok where "TOK_OPEN_BRACKET \<equiv> 10"
abbreviation (input) TOK_CLOSE_BRACKET :: v7_tok where "TOK_CLOSE_BRACKET \<equiv> 11"
abbreviation (input) TOK_DOT :: v7_tok where "TOK_DOT \<equiv> 12"
abbreviation (input) TOK_COLON :: v7_tok where "TOK_COLON \<equiv> 13"
abbreviation (input) TOK_SEMICOLON :: v7_tok where "TOK_SEMICOLON \<equiv> 14"
abbreviation (input) TOK_EQ :: v7_tok where "TOK_EQ \<equiv> 15"
abbreviation (input) TOK_EQ_EQ :: v7_tok where "TOK_EQ_EQ \<equiv> 16"
abbreviation (input) TOK_NE :: v7_tok where "TOK_NE \<equiv> 17"
abbreviation (input) TOK_NE_NE :: v7_tok where "TOK_NE_NE \<equiv> 18"
abbreviation (input) TOK_ASSIGN :: v7_tok where "TOK_ASSIGN \<equiv> 19"
abbreviation (input) TOK_REM_ASSIGN :: v7_tok where "TOK_REM_ASSIGN \<equiv> 20"
abbreviation (input) TOK_MUL_ASSIGN :: v7_tok where "TOK_MUL_ASSIGN \<equiv> 21"
abbreviation (input) TOK_DIV_ASSIGN :: v7_tok where "TOK_DIV_ASSIGN \<equiv> 22"
abbreviation (input) TOK_XOR_ASSIGN :: v7_tok where "TOK_XOR_ASSIGN \<equiv> 23"
abbreviation (input) TOK_PLUS_ASSIGN :: v7_tok where "TOK_PLUS_ASSIGN \<equiv> 24"
abbreviation (input) TOK_MINUS_ASSIGN :: v7_tok where "TOK_MINUS_ASSIGN \<equiv> 25"
abbreviation (input) TOK_OR_ASSIGN :: v7_tok where "TOK_OR_ASSIGN \<equiv> 26"
abbreviation (input) TOK_AND_ASSIGN :: v7_tok where "TOK_AND_ASSIGN \<equiv> 27"
abbreviation (input) TOK_LSHIFT_ASSIGN :: v7_tok where "TOK_LSHIFT_ASSIGN \<equiv> 28"
abbreviation (input) TOK_RSHIFT_ASSIGN :: v7_tok where "TOK_RSHIFT_ASSIGN \<equiv> 29"
abbreviation (input) TOK_URSHIFT_ASSIGN :: v7_tok where "TOK_URSHIFT_ASSIGN \<equiv> 30"
abbreviation (input) TOK_AND :: v7_tok where "TOK_AND \<equiv> 31"
abbreviation (input) TOK_LOGICAL_OR :: v7_tok where "TOK_LOGICAL_OR \<equiv> 32"
abbreviation (input) TOK_PLUS :: v7_tok where "TOK_PLUS \<equiv> 33"
abbreviation (input) TOK_MINUS :: v7_tok where "TOK_MINUS \<equiv> 34"
abbreviation (input) TOK_PLUS_PLUS :: v7_tok where "TOK_PLUS_PLUS \<equiv> 35"
abbreviation (input) TOK_MINUS_MINUS :: v7_tok where "TOK_MINUS_MINUS \<equiv> 36"
abbreviation (input) TOK_LOGICAL_AND :: v7_tok where "TOK_LOGICAL_AND \<equiv> 37"
abbreviation (input) TOK_OR :: v7_tok where "TOK_OR \<equiv> 38"
abbreviation (input) TOK_QUESTION :: v7_tok where "TOK_QUESTION \<equiv> 39"
abbreviation (input) TOK_TILDA :: v7_tok where "TOK_TILDA \<equiv> 40"
abbreviation (input) TOK_REM :: v7_tok where "TOK_REM \<equiv> 41"
abbreviation (input) TOK_MUL :: v7_tok where "TOK_MUL \<equiv> 42"
abbreviation (input) TOK_DIV :: v7_tok where "TOK_DIV \<equiv> 43"
abbreviation (input) TOK_XOR :: v7_tok where "TOK_XOR \<equiv> 44"
abbreviation (input) TOK_LE :: v7_tok where "TOK_LE \<equiv> 45"
abbreviation (input) TOK_LT :: v7_tok where "TOK_LT \<equiv> 46"
abbreviation (input) TOK_GE :: v7_tok where "TOK_GE \<equiv> 47"
abbreviation (input) TOK_GT :: v7_tok where "TOK_GT \<equiv> 48"
abbreviation (input) TOK_LSHIFT :: v7_tok where "TOK_LSHIFT \<equiv> 49"
abbreviation (input) TOK_RSHIFT :: v7_tok where "TOK_RSHIFT \<equiv> 50"
abbreviation (input) TOK_URSHIFT :: v7_tok where "TOK_URSHIFT \<equiv> 51"
abbreviation (input) TOK_NOT :: v7_tok where "TOK_NOT \<equiv> 52"
abbreviation (input) TOK_BREAK :: v7_tok where "TOK_BREAK \<equiv> 53"
abbreviation (input) TOK_CASE :: v7_tok where "TOK_CASE \<equiv> 54"
abbreviation (input) TOK_CATCH :: v7_tok where "TOK_CATCH \<equiv> 55"
abbreviation (input) TOK_CONTINUE :: v7_tok where "TOK_CONTINUE \<equiv> 56"
abbreviation (input) TOK_DEBUGGER :: v7_tok where "TOK_DEBUGGER \<equiv> 57"
abbreviation (input) TOK_DEFAULT :: v7_tok where "TOK_DEFAULT \<equiv> 58"
abbreviation (input) TOK_DELETE :: v7_tok where "TOK_DELETE \<equiv> 59"
abbreviation (input) TOK_DO :: v7_tok where "TOK_DO \<equiv> 60"
abbreviation (input) TOK_ELSE :: v7_tok where "TOK_ELSE \<equiv> 61"
abbreviation (input) TOK_FALSE :: v7_tok where "TOK_FALSE \<equiv> 62"
abbreviation (input) TOK_FINALLY :: v7_tok where "TOK_FINALLY \<equiv> 63"
abbreviation (input) TOK_FOR :: v7_tok where "TOK_FOR \<equiv> 64"
abbreviation (input) TOK_FUNCTION :: v7_tok where "TOK_FUNCTION \<equiv> 65"
abbreviation (input) TOK_IF :: v7_tok where "TOK_IF \<equiv> 66"
abbreviation (input) TOK_IN :: v7_tok where "TOK_IN \<equiv> 67"
abbreviation (input) TOK_INSTANCEOF :: v7_tok where "TOK_INSTANCEOF \<equiv> 68"
abbreviation (input) TOK_NEW :: v7_tok where "TOK_NEW \<equiv> 69"
abbreviation (input) TOK_NULL :: v7_tok where "TOK_NULL \<equiv> 70"
abbreviation (input) TOK_RETURN :: v7_tok where "TOK_RETURN \<equiv> 71"
abbreviation (input) TOK_SWITCH :: v7_tok where "TOK_SWITCH \<equiv> 72"
abbreviation (input) TOK_THIS :: v7_tok where "TOK_THIS \<equiv> 73"
abbreviation (input) TOK_THROW :: v7_tok where "TOK_THROW \<equiv> 74"
abbreviation (input) TOK_TRUE :: v7_tok where "TOK_TRUE \<equiv> 75"
abbreviation (input) TOK_TRY :: v7_tok where "TOK_TRY \<equiv> 76"
abbreviation (input) TOK_TYPEOF :: v7_tok where "TOK_TYPEOF \<equiv> 77"
abbreviation (input) TOK_VAR :: v7_tok where "TOK_VAR \<equiv> 78"
abbreviation (input) TOK_VOID :: v7_tok where "TOK_VOID \<equiv> 79"
abbreviation (input) TOK_WHILE :: v7_tok where "TOK_WHILE \<equiv> 80"
abbreviation (input) TOK_WITH :: v7_tok where "TOK_WITH \<equiv> 81"
abbreviation (input) TOK_CLASS :: v7_tok where "TOK_CLASS \<equiv> 82"
abbreviation (input) TOK_ENUM :: v7_tok where "TOK_ENUM \<equiv> 83"
abbreviation (input) TOK_EXTENDS :: v7_tok where "TOK_EXTENDS \<equiv> 84"
abbreviation (input) TOK_SUPER :: v7_tok where "TOK_SUPER \<equiv> 85"
abbreviation (input) TOK_CONST :: v7_tok where "TOK_CONST \<equiv> 86"
abbreviation (input) TOK_EXPORT :: v7_tok where "TOK_EXPORT \<equiv> 87"
abbreviation (input) TOK_IMPORT :: v7_tok where "TOK_IMPORT \<equiv> 88"
abbreviation (input) TOK_IMPLEMENTS :: v7_tok where "TOK_IMPLEMENTS \<equiv> 89"
abbreviation (input) TOK_LET :: v7_tok where "TOK_LET \<equiv> 90"
abbreviation (input) TOK_PRIVATE :: v7_tok where "TOK_PRIVATE \<equiv> 91"
abbreviation (input) TOK_PUBLIC :: v7_tok where "TOK_PUBLIC \<equiv> 92"
abbreviation (input) TOK_INTERFACE :: v7_tok where "TOK_INTERFACE \<equiv> 93"
abbreviation (input) TOK_PACKAGE :: v7_tok where "TOK_PACKAGE \<equiv> 94"
abbreviation (input) TOK_PROTECTED :: v7_tok where "TOK_PROTECTED \<equiv> 95"
abbreviation (input) TOK_STATIC :: v7_tok where "TOK_STATIC \<equiv> 96"
abbreviation (input) TOK_YIELD :: v7_tok where "TOK_YIELD \<equiv> 97"
abbreviation (input) NUM_TOKENS :: v7_tok where "NUM_TOKENS \<equiv> 98"

definition ch :: "u8 list \<Rightarrow> nat \<Rightarrow> u8" where
  "ch s i = (if i < length s then s ! i else 0)"

definition s_keywords :: "u8 list list" where
  "s_keywords =
    [[98, 114, 101, 97, 107],
     [99, 97, 115, 101],
     [99, 97, 116, 99, 104],
     [99, 111, 110, 116, 105, 110, 117, 101],
     [100, 101, 98, 117, 103, 103, 101, 114],
     [100, 101, 102, 97, 117, 108, 116],
     [100, 101, 108, 101, 116, 101],
     [100, 111],
     [101, 108, 115, 101],
     [102, 97, 108, 115, 101],
     [102, 105, 110, 97, 108, 108, 121],
     [102, 111, 114],
     [102, 117, 110, 99, 116, 105, 111, 110],
     [105, 102],
     [105, 110],
     [105, 110, 115, 116, 97, 110, 99, 101, 111, 102],
     [110, 101, 119],
     [110, 117, 108, 108],
     [114, 101, 116, 117, 114, 110],
     [115, 119, 105, 116, 99, 104],
     [116, 104, 105, 115],
     [116, 104, 114, 111, 119],
     [116, 114, 117, 101],
     [116, 114, 121],
     [116, 121, 112, 101, 111, 102],
     [118, 97, 114],
     [118, 111, 105, 100],
     [119, 104, 105, 108, 101],
     [119, 105, 116, 104]]"

definition is_reserved_word_token :: "v7_tok \<Rightarrow> bool" where
  "is_reserved_word_token tok = (TOK_BREAK \<le> tok \<and> tok \<le> TOK_WITH)"

subsection \<open>Character classes of the C library\<close>

definition is_space :: "u8 \<Rightarrow> bool" where
  "is_space c = (c = 32 \<or> (9 \<le> c \<and> c \<le> 13))"

definition is_digit :: "u8 \<Rightarrow> bool" where
  "is_digit c = (48 \<le> c \<and> c \<le> 57)"

definition is_alnum :: "u8 \<Rightarrow> bool" where
  "is_alnum c = (is_digit c \<or> (65 \<le> c \<and> c \<le> 90) \<or> (97 \<le> c \<and> c \<le> 122))"

definition is_xdigit :: "u8 \<Rightarrow> bool" where
  "is_xdigit c = (is_digit c \<or> (65 \<le> c \<and> c \<le> 70) \<or> (97 \<le> c \<and> c \<le> 102))"

subsection \<open>Spaces and comments\<close>

fun skip_spaces :: "u8 list \<Rightarrow> u8 list \<times> nat" where
  "skip_spaces [] = ([], 0)"
| "skip_spaces (c # s) =
     (if c \<noteq> 0 \<and> is_space c
      then (case skip_spaces s of (s', n) \<Rightarrow> (s', if c = 10 then n + 1 else n))
      else (c # s, 0))"

fun skip_line :: "u8 list \<Rightarrow> u8 list" where
  "skip_line [] = []"
| "skip_line (c # s) = (if c \<noteq> 0 \<and> c \<noteq> 10 then skip_line s else c # s)"

text \<open>The bytes before the pointer, \<open>s[-2]\<close> and \<open>s[-1]\<close>, come first.\<close>

fun skip_block :: "u8 \<Rightarrow> u8 \<Rightarrow> u8 list \<Rightarrow> u8 list \<times> nat" where
  "skip_block b2 b1 [] = ([], 0)"
| "skip_block b2 b1 (c # s) =
     (if c \<noteq> 0 \<and> \<not> (b1 = 47 \<and> b2 = 42)
      then (case skip_block b1 c s of (s', n) \<Rightarrow> (s', if c = 10 then n + 1 else n))
      else (c # s, 0))"

definition skip_once :: "u8 list \<Rightarrow> u8 list \<times> nat" where
  "skip_once s =
     (case skip_spaces s of
        (s1, n1) \<Rightarrow>
          let s2 = (if ch s1 0 = 47 \<and> ch s1 1 = 47 then skip_line (drop 2 s1) else s1)
          in if ch s2 0 = 47 \<and> ch s2 1 = 42
             then (case skip_block 47 42 (drop 2 s2) of (s3, n3) \<Rightarrow> (s3, n1 + n3))
             else (s2, n1))"

lemma length_skip_spaces: "length (fst (skip_spaces s)) \<le> length s"
  by (induction s) (auto split: prod.split simp: le_Suc_eq)

lemma length_skip_line: "length (skip_line s) \<le> length s"
  by (induction s) auto

lemma length_skip_block: "length (fst (skip_block a b s)) \<le> length s"
  by (induction a b s rule: skip_block.induct) (auto split: prod.split simp: le_Suc_eq)

lemma length_skip_once: "length (fst (skip_once s)) \<le> length s"
proof -
  obtain s1 n1 where s1: "skip_spaces s = (s1, n1)" by fastforce
  have 1: "length s1 \<le> length s" using length_skip_spaces [of s] s1 by simp
  let ?s2 = "if ch s1 0 = 47 \<and> ch s1 1 = 47 then skip_line (drop 2 s1) else s1"
  have 2: "length ?s2 \<le> length s1" using length_skip_line [of "drop 2 s1"] by auto
  obtain s3 n3 where s3: "skip_block 47 42 (drop 2 ?s2) = (s3, n3)" by fastforce
  have "length s3 \<le> length ?s2" using length_skip_block [of 47 42 "drop 2 ?s2"] s3 by simp
  then show ?thesis using 1 2 s1 s3 by (auto simp: skip_once_def Let_def)
qed

function skip_to_next_tok :: "u8 list \<Rightarrow> u8 list \<times> nat" where
  "skip_to_next_tok s =
     (if ch s 0 \<noteq> 0 \<and> (is_space (ch s 0) \<or> ch s 0 = 47)
      then
        (case skip_once s of
           (s', n) \<Rightarrow>
             if length s' = length s then (s', n)
             else (case skip_to_next_tok s' of (s'', n') \<Rightarrow> (s'', n + n')))
      else (s, 0))"
  by pat_completeness auto
termination
proof (relation "measure length", goal_cases)
  case (2 s s' n)
  then show ?case using length_skip_once [of s] by (cases "skip_once s") auto
qed simp

declare skip_to_next_tok.simps [simp del]

subsection \<open>Words\<close>

function ident :: "u8 list \<Rightarrow> u8 list" where
  "ident s =
     (let c = ch s 0 in
      if c = 0 then s
      else if c = 36 \<or> c = 95 \<or> is_alnum c then ident (drop 1 s)
      else if c = 92 \<and> ch s 1 = 117 \<and> is_xdigit (ch s 2) \<and> is_xdigit (ch s 3) \<and> is_xdigit (ch s 4)
           \<and> is_xdigit (ch s 5)
      then ident (drop 6 s)
      else
        (case chartorune (s @ [0]) of
           Some (r, n) \<Rightarrow> if n > 1 \<and> isalpharune r then ident (drop n s) else s
         | None \<Rightarrow> s))"
  by pat_completeness auto
termination by (relation "measure length") (auto simp: ch_def split: if_splits)

declare ident.simps [simp del]

text \<open>\<open>kw\<close> compares the bytes after the first: the caller has looked at that one.\<close>

fun kw_loop :: "u8 list \<Rightarrow> nat \<Rightarrow> nat \<Rightarrow> v7_tok \<Rightarrow> nat \<Rightarrow> v7_tok" where
  "kw_loop s len 0 tok i = TOK_IDENTIFIER"
| "kw_loop s len (Suc n) tok i =
     (let k = s_keywords ! (tok - TOK_BREAK + i) in
      if length k = len \<and> take (len - 1) (drop 1 k) = take (len - 1) (drop 1 s)
      then tok + i
      else kw_loop s len n tok (Suc i))"

definition kw :: "u8 list \<Rightarrow> nat \<Rightarrow> nat \<Rightarrow> v7_tok \<Rightarrow> v7_tok" where
  "kw s len ntoks tok = kw_loop s len ntoks tok 0"

subsection \<open>Punctuators\<close>

definition punct1 :: "u8 list \<Rightarrow> u8 \<Rightarrow> v7_tok \<Rightarrow> v7_tok \<Rightarrow> v7_tok \<times> u8 list" where
  "punct1 s ch1 tok1 tok2 =
     (let s = drop 1 s in if ch s 0 = ch1 then (tok1, drop 1 s) else (tok2, s))"

definition punct2 :: "u8 list \<Rightarrow> u8 \<Rightarrow> v7_tok \<Rightarrow> u8 \<Rightarrow> v7_tok \<Rightarrow> v7_tok \<Rightarrow> v7_tok \<times> u8 list" where
  "punct2 s ch1 tok1 ch2 tok2 tok3 =
     (if ch s 1 = ch1 \<and> ch s 2 = ch2 then (tok2, drop 3 s) else punct1 s ch1 tok1 tok3)"

definition punct3 :: "u8 list \<Rightarrow> u8 \<Rightarrow> v7_tok \<Rightarrow> u8 \<Rightarrow> v7_tok \<Rightarrow> v7_tok \<Rightarrow> v7_tok \<times> u8 list" where
  "punct3 s ch1 tok1 ch2 tok2 tok3 =
     (let s = drop 1 s in
      if ch s 0 = ch1 then (tok1, drop 1 s)
      else if ch s 0 = ch2 then (tok2, drop 1 s) else (tok3, s))"

subsection \<open>Literals\<close>

definition simple_escape :: "u8 \<Rightarrow> bool" where
  "simple_escape e = (e \<in> {98, 102, 110, 114, 116, 118, 92})"

text \<open>From after the opening quote to the closing quote or the end.\<close>

fun str_scan :: "u8 \<Rightarrow> u8 list \<Rightarrow> u8 list" where
  "str_scan quote [] = []"
| "str_scan quote (c # s) =
     (if c \<noteq> quote \<and> c \<noteq> 0
      then
        if c = 92
        then
          (case s of
             [] \<Rightarrow> []
           | e # s' \<Rightarrow>
               if simple_escape e \<or> e = quote then str_scan quote s'
               else str_scan quote s)
        else str_scan quote s
      else c # s)"

definition parse_str_literal :: "u8 list \<Rightarrow> v7_tok \<times> u8 list" where
  "parse_str_literal p =
     (let quote = ch p 0; s = str_scan quote (drop 1 p)
      in if ch s 0 = quote then (TOK_STRING_LITERAL, drop 1 s) else (TOK_END_OF_INPUT, p))"

text \<open>
  The scan of a regular expression after the slash: outside \<open>None\<close> when it leaves the text, inside
  \<open>None\<close> when there is no closing slash on the line.
\<close>

fun regex_scan :: "u8 list \<Rightarrow> u8 list option option" where
  "regex_scan [] = Some None"
| "regex_scan (c # p) =
     (if c = 0 \<or> c = 10 then Some None
      else if c = 92 then (case p of [] \<Rightarrow> None | e # p' \<Rightarrow> regex_scan p')
      else if c = 47 then Some (Some (dropWhile (\<lambda>b. b = 103 \<or> b = 105 \<or> b = 109) p))
      else regex_scan p)"

subsection \<open>The next token\<close>

text \<open>Keyword tables by first letter: how many keywords, from which token on.\<close>

definition kw_start :: "u8 \<Rightarrow> (nat \<times> v7_tok) option" where
  "kw_start c =
     (if c = 98 then Some (1, TOK_BREAK)
      else if c = 99 then Some (3, TOK_CASE)
      else if c = 100 then Some (4, TOK_DEBUGGER)
      else if c = 101 then Some (1, TOK_ELSE)
      else if c = 102 then Some (4, TOK_FALSE)
      else if c = 105 then Some (3, TOK_IF)
      else if c = 110 then Some (2, TOK_NEW)
      else if c = 114 then Some (1, TOK_RETURN)
      else if c = 115 then Some (1, TOK_SWITCH)
      else if c = 116 then Some (5, TOK_THIS)
      else if c = 118 then Some (2, TOK_VAR)
      else if c = 119 then Some (2, TOK_WHILE)
      else None)"

definition starts_word :: "u8 \<Rightarrow> bool" where
  "starts_word c = ((97 \<le> c \<and> c \<le> 122) \<or> c = 95 \<or> c = 36 \<or> (65 \<le> c \<and> c \<le> 90) \<or> c = 92)"

type_synonym 'd strtod_fn = "u8 list \<Rightarrow> 'd \<times> nat"

definition parse_number :: "'d strtod_fn \<Rightarrow> u8 list \<Rightarrow> 'd \<times> u8 list" where
  "parse_number strtod s = (case strtod s of (d, k) \<Rightarrow> (d, drop k s))"

text \<open>The operators that \<open>get_tok\<close> leaves to the \<open>punct\<close> functions and the single characters.\<close>

definition get_punct :: "u8 \<Rightarrow> u8 list \<Rightarrow> (v7_tok \<times> u8 list) option" where
  "get_punct c s =
     (if c = 61 then Some (punct2 s 61 TOK_EQ 61 TOK_EQ_EQ TOK_ASSIGN)
      else if c = 33 then Some (punct2 s 61 TOK_NE 61 TOK_NE_NE TOK_NOT)
      else if c = 37 then Some (punct1 s 61 TOK_REM_ASSIGN TOK_REM)
      else if c = 42 then Some (punct1 s 61 TOK_MUL_ASSIGN TOK_MUL)
      else if c = 94 then Some (punct1 s 61 TOK_XOR_ASSIGN TOK_XOR)
      else if c = 43 then Some (punct3 s 43 TOK_PLUS_PLUS 61 TOK_PLUS_ASSIGN TOK_PLUS)
      else if c = 45 then Some (punct3 s 45 TOK_MINUS_MINUS 61 TOK_MINUS_ASSIGN TOK_MINUS)
      else if c = 38 then Some (punct3 s 38 TOK_LOGICAL_AND 61 TOK_AND_ASSIGN TOK_AND)
      else if c = 124 then Some (punct3 s 124 TOK_LOGICAL_OR 61 TOK_OR_ASSIGN TOK_OR)
      else if c = 60
      then Some (if ch s 1 = 61 then (TOK_LE, drop 2 s)
                 else punct2 s 60 TOK_LSHIFT 61 TOK_LSHIFT_ASSIGN TOK_LT)
      else if c = 62
      then Some (if ch s 1 = 61 then (TOK_GE, drop 2 s)
                 else if ch s 1 = 62 \<and> ch s 2 = 62 \<and> ch s 3 = 61 then (TOK_URSHIFT_ASSIGN, drop 4 s)
                 else if ch s 1 = 62 \<and> ch s 2 = 62 then (TOK_URSHIFT, drop 3 s)
                 else punct2 s 62 TOK_RSHIFT 61 TOK_RSHIFT_ASSIGN TOK_GT)
      else if c = 123 then Some (TOK_OPEN_CURLY, drop 1 s)
      else if c = 125 then Some (TOK_CLOSE_CURLY, drop 1 s)
      else if c = 40 then Some (TOK_OPEN_PAREN, drop 1 s)
      else if c = 41 then Some (TOK_CLOSE_PAREN, drop 1 s)
      else if c = 91 then Some (TOK_OPEN_BRACKET, drop 1 s)
      else if c = 93 then Some (TOK_CLOSE_BRACKET, drop 1 s)
      else if c = 59 then Some (TOK_SEMICOLON, drop 1 s)
      else if c = 58 then Some (TOK_COLON, drop 1 s)
      else if c = 63 then Some (TOK_QUESTION, drop 1 s)
      else if c = 126 then Some (TOK_TILDA, drop 1 s)
      else if c = 44 then Some (TOK_COMMA, drop 1 s)
      else None)"

definition ends_operand :: "v7_tok \<Rightarrow> bool" where
  "ends_operand tok =
     (tok \<in> {TOK_CLOSE_CURLY, TOK_CLOSE_PAREN, TOK_CLOSE_BRACKET, TOK_IDENTIFIER, TOK_NUMBER})"

text \<open>\<open>get_tok\<close>: the token, the number if one was parsed, and the pointer after the token.\<close>

definition get_tok :: "'d strtod_fn \<Rightarrow> v7_tok \<Rightarrow> u8 list \<Rightarrow> (v7_tok \<times> 'd option \<times> u8 list) option" where
  "get_tok strtod prev_tok s =
     (let c = ch s 0 in
      if starts_word c
      then
        let s' = ident s in
        (case kw_start c of
           Some (n, tok) \<Rightarrow> Some (kw s (length s - length s') n tok, None, s')
         | None \<Rightarrow> Some (TOK_IDENTIFIER, None, s'))
      else if is_digit c \<or> (c = 46 \<and> is_digit (ch s 1))
      then (case parse_number strtod s of (d, s') \<Rightarrow> Some (TOK_NUMBER, Some d, s'))
      else if c = 39 \<or> c = 34
      then (case parse_str_literal s of (tok, s') \<Rightarrow> Some (tok, None, s'))
      else if c = 47
      then
        if ends_operand prev_tok
        then (case punct1 s 61 TOK_DIV_ASSIGN TOK_DIV of (tok, s') \<Rightarrow> Some (tok, None, s'))
        else
          (case regex_scan (drop 1 s) of
             None \<Rightarrow> None
           | Some (Some s') \<Rightarrow> Some (TOK_REGEX_LITERAL, None, s')
           | Some None \<Rightarrow>
               (case punct1 s 61 TOK_DIV_ASSIGN TOK_DIV of (tok, s') \<Rightarrow> Some (tok, None, s')))
      else if c = 46 then Some (TOK_DOT, None, drop 1 s)
      else
        (case get_punct c s of
           Some (tok, s') \<Rightarrow> Some (tok, None, s')
         | None \<Rightarrow>
             (case chartorune (s @ [0]) of
                Some (r, n) \<Rightarrow>
                  if n > 1 \<and> isalpharune r then Some (TOK_IDENTIFIER, None, ident s)
                  else Some (TOK_END_OF_INPUT, None, s)
              | None \<Rightarrow> Some (TOK_END_OF_INPUT, None, s))))"

end
