(* ===== verification/LexerCorrect.thy ===== *)
theory LexerCorrect
  imports Lexer
begin

text \<open>
  Correctness of the tokenizer: the keyword search agrees with the table of keywords, words end where
  the identifier characters end, every token other than the end takes at least one byte, quoted
  strings are read back with any escaped content, comments and spaces are skipped, and every
  punctuator is recognised whole.
\<close>

subsection \<open>Keywords\<close>

text \<open>The keywords with their tokens, which the code keeps as two lists in the same order.\<close>

definition keyword_table :: "(u8 list \<times> v7_tok) list" where
  "keyword_table =
    [([98, 114, 101, 97, 107], TOK_BREAK),
     ([99, 97, 115, 101], TOK_CASE),
     ([99, 97, 116, 99, 104], TOK_CATCH),
     ([99, 111, 110, 116, 105, 110, 117, 101], TOK_CONTINUE),
     ([100, 101, 98, 117, 103, 103, 101, 114], TOK_DEBUGGER),
     ([100, 101, 102, 97, 117, 108, 116], TOK_DEFAULT),
     ([100, 101, 108, 101, 116, 101], TOK_DELETE),
     ([100, 111], TOK_DO),
     ([101, 108, 115, 101], TOK_ELSE),
     ([102, 97, 108, 115, 101], TOK_FALSE),
     ([102, 105, 110, 97, 108, 108, 121], TOK_FINALLY),
     ([102, 111, 114], TOK_FOR),
     ([102, 117, 110, 99, 116, 105, 111, 110], TOK_FUNCTION),
     ([105, 102], TOK_IF),
     ([105, 110], TOK_IN),
     ([105, 110, 115, 116, 97, 110, 99, 101, 111, 102], TOK_INSTANCEOF),
     ([110, 101, 119], TOK_NEW),
     ([110, 117, 108, 108], TOK_NULL),
     ([114, 101, 116, 117, 114, 110], TOK_RETURN),
     ([115, 119, 105, 116, 99, 104], TOK_SWITCH),
     ([116, 104, 105, 115], TOK_THIS),
     ([116, 104, 114, 111, 119], TOK_THROW),
     ([116, 114, 117, 101], TOK_TRUE),
     ([116, 114, 121], TOK_TRY),
     ([116, 121, 112, 101, 111, 102], TOK_TYPEOF),
     ([118, 97, 114], TOK_VAR),
     ([118, 111, 105, 100], TOK_VOID),
     ([119, 104, 105, 108, 101], TOK_WHILE),
     ([119, 105, 116, 104], TOK_WITH)]"

lemma keyword_table_zip: "keyword_table = zip s_keywords [TOK_BREAK..<TOK_WITH + 1]"
  by code_simp

definition word_token :: "u8 list \<Rightarrow> v7_tok" where
  "word_token w = (case map_of keyword_table w of Some tok \<Rightarrow> tok | None \<Rightarrow> TOK_IDENTIFIER)"

lemma map_of_find: "map_of xs w = map_option snd (find (\<lambda>x. fst x = w) xs)"
  by (induction xs) auto

text \<open>The part of the table that \<open>get_tok\<close> gives to \<open>kw\<close> holds all keywords with that letter.\<close>

definition slice_ok :: "u8 \<Rightarrow> nat \<Rightarrow> v7_tok \<Rightarrow> bool" where
  "slice_ok c n tok \<longleftrightarrow>
     take n (drop (tok - TOK_BREAK) keyword_table)
       = map (\<lambda>j. (s_keywords ! (tok - TOK_BREAK + j), tok + j)) [0..<n] \<and>
     list_all (\<lambda>j. s_keywords ! (tok - TOK_BREAK + j) \<noteq> [] \<and> hd (s_keywords ! (tok - TOK_BREAK + j)) = c) [0..<n] \<and>
     list_all (\<lambda>x. fst x \<noteq> [] \<and> hd (fst x) \<noteq> c)
       (take (tok - TOK_BREAK) keyword_table @ drop (n + (tok - TOK_BREAK)) keyword_table)"

lemma kw_slices:
  "slice_ok 98 1 TOK_BREAK" "slice_ok 99 3 TOK_CASE" "slice_ok 100 4 TOK_DEBUGGER" "slice_ok 101 1 TOK_ELSE"
  "slice_ok 102 4 TOK_FALSE" "slice_ok 105 3 TOK_IF" "slice_ok 110 2 TOK_NEW" "slice_ok 114 1 TOK_RETURN"
  "slice_ok 115 1 TOK_SWITCH" "slice_ok 116 5 TOK_THIS" "slice_ok 118 2 TOK_VAR" "slice_ok 119 2 TOK_WHILE"
  by code_simp+

lemma kw_start_slice: "kw_start c = Some (n, tok) \<Longrightarrow> slice_ok c n tok"
  using kw_slices by (simp add: kw_start_def split: if_splits)

lemma kw_start_none: "kw_start c = None \<Longrightarrow> word_token (c # w) = TOK_IDENTIFIER"
proof -
  assume c: "kw_start c = None"
  have "list_all (\<lambda>x. fst x \<noteq> [] \<and> kw_start (hd (fst x)) \<noteq> None) keyword_table" by code_simp
  then have "c # w \<notin> fst ` set keyword_table" using c by (force simp: list_all_iff)
  then have "map_of keyword_table (c # w) = None" by (simp add: map_of_eq_None_iff)
  then show ?thesis by (simp add: word_token_def)
qed

lemma find_none_all: "(\<forall>x \<in> set xs. \<not> P x) \<Longrightarrow> find P xs = None"
  by (simp add: find_None_iff)

lemma find_append: "find P (xs @ ys) = (case find P xs of None \<Rightarrow> find P ys | Some x \<Rightarrow> Some x)"
  by (induction xs) auto

lemma find_map: "find P (map f xs) = map_option f (find (P \<circ> f) xs)"
  by (induction xs) auto

lemma kw_loop_find:
  assumes "m \<le> length t"
    and "\<forall>j. i \<le> j \<and> j < i + n \<longrightarrow> s_keywords ! (tok - TOK_BREAK + j) \<noteq> [] \<and> hd (s_keywords ! (tok - TOK_BREAK + j)) = c"
  shows "kw_loop (c # t) (Suc m) n tok i =
     (case find (\<lambda>j. s_keywords ! (tok - TOK_BREAK + j) = c # take m t) [i..<i + n] of
        Some j \<Rightarrow> tok + j | None \<Rightarrow> TOK_IDENTIFIER)"
  using assms(2)
proof (induction n arbitrary: i)
  case (Suc n)
  let ?k = "s_keywords ! (tok - TOK_BREAK + i)"
  obtain k where k: "?k = c # k" using Suc.prems by (metis le_refl less_add_Suc1 list.collapse add_Suc_right)
  have "(length ?k = Suc m \<and> take (Suc m - 1) (drop 1 ?k) = take (Suc m - 1) (drop 1 (c # t))) \<longleftrightarrow> ?k = c # take m t"
    unfolding k using assms(1) by auto
  moreover have "[i..<i + Suc n] = i # [Suc i..<Suc i + n]" by (simp add: upt_conv_Cons)
  ultimately show ?case
    using Suc.IH [of "Suc i"] Suc.prems by (simp add: Let_def)
qed simp

lemma kw_spec:
  assumes kw: "kw_start c = Some (n, tok)" and len: "m \<le> length t"
  shows "kw (c # t) (Suc m) n tok = word_token (c # take m t)"
proof -
  have sl: "slice_ok c n tok" using kw by (rule kw_start_slice)
  let ?f = "\<lambda>j. (s_keywords ! (tok - TOK_BREAK + j), tok + j)"
  let ?pre = "take (tok - TOK_BREAK) keyword_table" and ?post = "drop (n + (tok - TOK_BREAK)) keyword_table"
  have "keyword_table = ?pre @ take n (drop (tok - TOK_BREAK) keyword_table) @ ?post"
    by (metis append_take_drop_id drop_drop)
  then have table: "keyword_table = ?pre @ map ?f [0..<n] @ ?post"
    using sl by (simp add: slice_ok_def)
  have "fst x \<noteq> c # take m t" if "x \<in> set (?pre @ ?post)" for x
    using sl that by (force simp: slice_ok_def list_all_iff)
  then have out: "find (\<lambda>x. fst x = c # take m t) ?pre = None" "find (\<lambda>x. fst x = c # take m t) ?post = None"
    by (simp_all add: find_none_all)
  have "find (\<lambda>x. fst x = c # take m t) keyword_table =
      map_option ?f (find (\<lambda>j. s_keywords ! (tok - TOK_BREAK + j) = c # take m t) [0..<n])"
    by (subst table) (simp add: find_append find_map out o_def split: option.split)
  moreover have "kw_loop (c # t) (Suc m) n tok 0 =
      (case find (\<lambda>j. s_keywords ! (tok - TOK_BREAK + j) = c # take m t) [0..<0 + n] of
         Some j \<Rightarrow> tok + j | None \<Rightarrow> TOK_IDENTIFIER)"
    using sl by (intro kw_loop_find [OF len]) (auto simp: slice_ok_def list_all_iff)
  ultimately show ?thesis
    by (simp add: kw_def word_token_def map_of_find split: option.split)
qed

subsection \<open>Words\<close>

lemma ident_suffix: "\<exists>k. ident s = drop k s"
proof (induction s rule: ident.induct)
  case (1 s)
  let ?c = "ch s 0"
  let ?esc = "?c = 92 \<and> ch s 1 = 117 \<and> is_xdigit (ch s 2) \<and> is_xdigit (ch s 3) \<and> is_xdigit (ch s 4) \<and> is_xdigit (ch s 5)"
  have stop: "\<exists>k. s = drop k s" by (rule exI [of _ 0]) simp
  have step: "\<exists>k. ident s = drop k s" if "ident s = ident (drop n s)" "\<exists>k. ident (drop n s) = drop k (drop n s)" for n
    using that by auto
  consider (nul) "?c = 0" | (char) "?c \<noteq> 0" "?c = 36 \<or> ?c = 95 \<or> is_alnum ?c"
    | (esc) "?c \<noteq> 0" "\<not> (?c = 36 \<or> ?c = 95 \<or> is_alnum ?c)" ?esc
    | (other) "?c \<noteq> 0" "\<not> (?c = 36 \<or> ?c = 95 \<or> is_alnum ?c)" "\<not> ?esc"
    by blast
  then show ?case
  proof cases
    case nul
    with stop show ?thesis by (subst ident.simps) simp
  next
    case char
    have "ident s = ident (drop 1 s)" using char by (subst ident.simps) (simp add: Let_def)
    with 1(1) [OF refl char] show ?thesis by (intro step)
  next
    case esc
    have "ident s = ident (drop 6 s)" using esc by (subst ident.simps) (simp add: Let_def)
    with 1(2) [OF refl esc] show ?thesis by (intro step)
  next
    case other
    show ?thesis
    proof (cases "chartorune (s @ [0])")
      case None
      have "ident s = s" using other None by (subst ident.simps) (auto simp: Let_def)
      with stop show ?thesis by simp
    next
      case (Some rn)
      obtain r n where rn: "rn = (r, n)" by fastforce
      show ?thesis
      proof (cases "n > 1 \<and> isalpharune r")
        case True
        have "ident s = ident (drop n s)"
          using other Some rn True by (subst ident.simps) (auto simp: Let_def)
        with 1(3) [OF refl other Some rn [symmetric] True] show ?thesis by (intro step)
      next
        case False
        have "ident s = s" using other Some rn False by (subst ident.simps) (auto simp: Let_def)
        with stop show ?thesis by simp
      qed
    qed
  qed
qed

lemma length_ident: "length (ident s) \<le> length s"
  using ident_suffix [of s] by auto

lemma ident_char:
  assumes "s \<noteq> []" "hd s = 36 \<or> hd s = 95 \<or> is_alnum (hd s)"
  shows "ident s = ident (tl s)"
proof -
  obtain c t where s: "s = c # t" using assms(1) by (cases s) auto
  have "c \<noteq> 0" using assms(2) s by (auto simp: is_alnum_def is_digit_def)
  with assms(2) s show ?thesis by (subst ident.simps) (simp add: Let_def ch_def)
qed

definition word_char :: "u8 \<Rightarrow> bool" where
  "word_char c \<longleftrightarrow> c = 36 \<or> c = 95 \<or> is_alnum c"

text \<open>A byte that certainly ends a word: ASCII, no word character, no backslash.\<close>

definition word_end :: "u8 list \<Rightarrow> bool" where
  "word_end s \<longleftrightarrow> s = [] \<or> (hd s < 128 \<and> \<not> word_char (hd s) \<and> hd s \<noteq> 92)"

lemma ident_end: "word_end s \<Longrightarrow> ident s = s"
proof (cases s)
  case (Cons c t)
  assume "word_end s"
  with Cons have c: "c < 128" "\<not> word_char c" "c \<noteq> 92" by (simp_all add: word_end_def)
  have "chartorune (s @ [0]) = Some (ucast c, 1)"
    using c(1) Cons by (simp add: chartorune_def Tx_def)
  with c Cons show ?thesis by (subst ident.simps) (simp add: Let_def ch_def word_char_def)
qed (subst ident.simps, simp add: ch_def)

lemma ident_word: "list_all word_char w \<Longrightarrow> word_end rest \<Longrightarrow> ident (w @ rest) = rest"
proof (induction w)
  case (Cons c w)
  then have "ident ((c # w) @ rest) = ident (w @ rest)"
    using ident_char [of "(c # w) @ rest"] by (simp add: word_char_def)
  with Cons show ?case by simp
qed (simp add: ident_end)

text \<open>Any text that starts like a word: the token is that of the word, up to where \<open>ident\<close> stops.\<close>

lemma get_tok_word:
  assumes "starts_word c" "length (ident (c # t)) < length (c # t)"
  shows "get_tok strtod prev (c # t) =
     Some (word_token (take (length (c # t) - length (ident (c # t))) (c # t)), None, ident (c # t))"
proof -
  obtain m where m: "length (c # t) - length (ident (c # t)) = Suc m"
    using assms(2) by (cases "length (c # t) - length (ident (c # t))") auto
  then have "m \<le> length t" by simp
  have ch: "ch (c # t) 0 = c" by (simp add: ch_def)
  show ?thesis
  proof (cases "kw_start c")
    case None
    with kw_start_none [OF None] show ?thesis
      unfolding m by (simp add: get_tok_def ch assms(1) Let_def)
  next
    case (Some nt)
    obtain n tok where nt: "nt = (n, tok)" by fastforce
    show ?thesis
      using kw_spec [OF Some [unfolded nt] \<open>m \<le> length t\<close>] assms(1) m
      by (simp add: get_tok_def ch Let_def Some nt)
  qed
qed

lemma get_tok_keyword:
  assumes "w \<noteq> []" "list_all word_char w" "starts_word (hd w)" "word_end rest"
  shows "get_tok strtod prev (w @ rest) = Some (word_token w, None, rest)"
proof -
  obtain c t where w: "w = c # t" using assms(1) by (cases w) auto
  have "ident (c # (t @ rest)) = rest" using ident_word [OF assms(2,4)] w by simp
  with get_tok_word [of c "t @ rest" strtod prev] assms(3) w show ?thesis by simp
qed

lemma keyword_words: "list_all (\<lambda>x. fst x \<noteq> [] \<and> list_all word_char (fst x) \<and> starts_word (hd (fst x))) keyword_table"
  by code_simp

lemma keyword_distinct: "distinct (map fst keyword_table)"
  by code_simp

subsection \<open>Strings\<close>

text \<open>A backslash before every quote and backslash of the content.\<close>

fun escape_str :: "u8 \<Rightarrow> u8 list \<Rightarrow> u8 list" where
  "escape_str q [] = []"
| "escape_str q (c # s) = (if c = q \<or> c = 92 then 92 # c # escape_str q s else c # escape_str q s)"

lemma str_scan_escaped:
  "q \<noteq> 92 \<Longrightarrow> q \<noteq> 0 \<Longrightarrow> 0 \<notin> set body \<Longrightarrow> str_scan q (escape_str q body @ q # rest) = q # rest"
  by (induction body) (auto simp: simple_escape_def split: list.splits)

lemma parse_str_escaped:
  assumes "q \<noteq> 92" "q \<noteq> 0" "0 \<notin> set body"
  shows "parse_str_literal (q # escape_str q body @ q # rest) = (TOK_STRING_LITERAL, rest)"
  using str_scan_escaped [OF assms, of rest] by (simp add: parse_str_literal_def ch_def)

text \<open>A literal that does not end before the text does is the end of input.\<close>

lemma str_scan_sub: "set (str_scan q s) \<subseteq> set s"
proof (induction "length s" arbitrary: s rule: less_induct)
  case less
  show ?case
  proof (cases s)
    case (Cons c t)
    have t: "set (str_scan q t) \<subseteq> set t" using less Cons by simp
    have "set (str_scan q t') \<subseteq> set t'" if "t = e # t'" for e t' using less Cons that by simp
    then have "set (case t of [] \<Rightarrow> [] | e # s' \<Rightarrow> if simple_escape e \<or> e = q then str_scan q s' else str_scan q t)
        \<subseteq> set t"
      using t by (cases t) (auto simp del: str_scan.simps)
    with t show ?thesis unfolding Cons str_scan.simps(2) by (auto simp del: str_scan.simps)
  qed simp
qed

lemma parse_str_open:
  assumes "q \<noteq> 0" "q \<notin> set body"
  shows "parse_str_literal (q # body) = (TOK_END_OF_INPUT, q # body)"
proof -
  have "\<forall>c \<in> set (str_scan q body). c \<noteq> q" using assms(2) str_scan_sub [of q body] by blast
  then have "ch (str_scan q body) 0 \<noteq> q"
    using assms(1) by (cases "str_scan q body") (auto simp: ch_def)
  then show ?thesis by (simp add: parse_str_literal_def ch_def Let_def)
qed

subsection \<open>Spaces and comments\<close>

lemma skip_spaces_all:
  "list_all is_space sp \<Longrightarrow> rest = [] \<or> \<not> is_space (hd rest) \<Longrightarrow>
     skip_spaces (sp @ rest) = (rest, length (filter (\<lambda>c. c = 10) sp))"
proof (induction sp)
  case Nil
  then show ?case by (cases rest) auto
next
  case (Cons c sp)
  then have "c \<noteq> 0" by (auto simp: is_space_def)
  with Cons show ?case by simp
qed

lemma skip_line_to: "\<forall>c \<in> set l. c \<noteq> 0 \<and> c \<noteq> 10 \<Longrightarrow> skip_line (l @ 10 # rest) = 10 # rest"
  by (induction l) auto

text \<open>No "*/" in the bytes, counted with the two before them.\<close>

fun no_close :: "u8 \<Rightarrow> u8 \<Rightarrow> u8 list \<Rightarrow> bool" where
  "no_close b2 b1 [] = True"
| "no_close b2 b1 (c # s) = (c \<noteq> 0 \<and> \<not> (b1 = 47 \<and> b2 = 42) \<and> no_close b1 c s)"

lemma skip_block_to:
  "no_close b2 b1 (l @ [42, 47]) \<Longrightarrow>
     skip_block b2 b1 (l @ 42 # 47 # rest) = (rest, length (filter (\<lambda>c. c = 10) l))"
proof (induction l arbitrary: b2 b1)
  case Nil
  then show ?case by (cases rest) auto
qed auto

lemma skip_stop:
  "s = [] \<or> (\<not> is_space (hd s) \<and> hd s \<noteq> 47) \<Longrightarrow> skip_to_next_tok s = (s, 0)"
  by (cases s) (auto simp: skip_to_next_tok.simps ch_def)

lemma skip_progress:
  assumes "skip_once s = (s', n)" "length s' < length s" "ch s 0 \<noteq> 0" "is_space (ch s 0) \<or> ch s 0 = 47"
  shows "skip_to_next_tok s = (case skip_to_next_tok s' of (s'', n') \<Rightarrow> (s'', n + n'))"
  using assms by (subst skip_to_next_tok.simps) simp

text \<open>Spaces, then a token: the pointer is at the token, the lines are counted.\<close>

lemma skip_to_next_spaces:
  assumes "list_all is_space sp" "rest = [] \<or> (\<not> is_space (hd rest) \<and> hd rest \<noteq> 47)"
  shows "skip_to_next_tok (sp @ rest) = (rest, length (filter (\<lambda>c. c = 10) sp))"
proof (cases sp)
  case Nil
  with assms(2) skip_stop show ?thesis by simp
next
  case (Cons c sp')
  then have c: "ch (sp @ rest) 0 = c" "c \<noteq> 0" "is_space c" using assms(1) by (auto simp: ch_def is_space_def)
  have "ch rest 0 \<noteq> 47" using assms(2) by (cases rest) (auto simp: ch_def)
  then have "skip_once (sp @ rest) = (rest, length (filter (\<lambda>c. c = 10) sp))"
    using skip_spaces_all [OF assms(1), of rest] assms(2) by (auto simp: skip_once_def Let_def)
  from skip_progress [OF this] c skip_stop [OF assms(2)] Cons show ?thesis by simp
qed

text \<open>A line comment goes to its end of line, which the next round takes.\<close>

lemma skip_to_next_line_comment:
  assumes "\<forall>c \<in> set l. c \<noteq> 0 \<and> c \<noteq> 10"
  shows "skip_to_next_tok (47 # 47 # l @ 10 # rest) = skip_to_next_tok (10 # rest)"
proof -
  have "skip_once (47 # 47 # l @ 10 # rest) = (10 # rest, 0)"
    using skip_line_to [OF assms] by (simp add: skip_once_def Let_def ch_def is_space_def)
  from skip_progress [OF this] show ?thesis by (simp add: ch_def split: prod.split)
qed

lemma skip_to_next_block_comment:
  assumes "no_close 47 42 (l @ [42, 47])"
  shows "skip_to_next_tok (47 # 42 # l @ 42 # 47 # rest) =
     (case skip_to_next_tok rest of (s, n) \<Rightarrow> (s, length (filter (\<lambda>c. c = 10) l) + n))"
proof -
  have "skip_once (47 # 42 # l @ 42 # 47 # rest) = (rest, length (filter (\<lambda>c. c = 10) l))"
    using skip_block_to [OF assms, of rest] by (simp add: skip_once_def Let_def ch_def is_space_def)
  from skip_progress [OF this] show ?thesis by (simp add: ch_def)
qed

text \<open>
  "/*/" is taken as a whole comment: the slash after the star closes it, as the star before the
  pointer is the one that opened it.
\<close>

lemma skip_block_short:
  assumes "rest = [] \<or> (\<not> is_space (hd rest) \<and> hd rest \<noteq> 47)"
  shows "skip_to_next_tok (47 # 42 # 47 # rest) = (rest, 0)"
proof -
  have "skip_block 47 42 (47 # rest) = (rest, 0)" by (cases rest) simp_all
  then have "skip_once (47 # 42 # 47 # rest) = (rest, 0)"
    by (simp add: skip_once_def Let_def ch_def is_space_def)
  from skip_progress [OF this] skip_stop [OF assms] show ?thesis by (simp add: ch_def)
qed

subsection \<open>Punctuators\<close>

definition punctuators :: "(u8 list \<times> v7_tok) list" where
  "punctuators =
    [([61], TOK_ASSIGN), ([61, 61], TOK_EQ), ([61, 61, 61], TOK_EQ_EQ), ([33], TOK_NOT), ([33, 61], TOK_NE),
     ([33, 61, 61], TOK_NE_NE), ([37], TOK_REM), ([37, 61], TOK_REM_ASSIGN), ([42], TOK_MUL),
     ([42, 61], TOK_MUL_ASSIGN), ([47], TOK_DIV), ([47, 61], TOK_DIV_ASSIGN), ([94], TOK_XOR),
     ([94, 61], TOK_XOR_ASSIGN), ([43], TOK_PLUS), ([43, 43], TOK_PLUS_PLUS), ([43, 61], TOK_PLUS_ASSIGN),
     ([45], TOK_MINUS), ([45, 45], TOK_MINUS_MINUS), ([45, 61], TOK_MINUS_ASSIGN), ([38], TOK_AND),
     ([38, 38], TOK_LOGICAL_AND), ([38, 61], TOK_AND_ASSIGN), ([124], TOK_OR), ([124, 124], TOK_LOGICAL_OR),
     ([124, 61], TOK_OR_ASSIGN), ([60], TOK_LT), ([60, 61], TOK_LE), ([60, 60], TOK_LSHIFT),
     ([60, 60, 61], TOK_LSHIFT_ASSIGN), ([62], TOK_GT), ([62, 61], TOK_GE), ([62, 62], TOK_RSHIFT),
     ([62, 62, 61], TOK_RSHIFT_ASSIGN), ([62, 62, 62], TOK_URSHIFT), ([62, 62, 62, 61], TOK_URSHIFT_ASSIGN),
     ([123], TOK_OPEN_CURLY), ([125], TOK_CLOSE_CURLY), ([40], TOK_OPEN_PAREN), ([41], TOK_CLOSE_PAREN),
     ([91], TOK_OPEN_BRACKET), ([93], TOK_CLOSE_BRACKET), ([59], TOK_SEMICOLON), ([58], TOK_COLON),
     ([63], TOK_QUESTION), ([126], TOK_TILDA), ([44], TOK_COMMA), ([46], TOK_DOT)]"

text \<open>No byte that could extend an operator, and no digit (".5" is a number).\<close>

definition not_extending :: "u8 list \<Rightarrow> bool" where
  "not_extending s \<longleftrightarrow> ch s 0 \<notin> {61, 43, 45, 38, 124, 60, 62} \<and> \<not> is_digit (ch s 0)"

lemma get_tok_punct:
  assumes "(p, tok) \<in> set punctuators" "not_extending rest" "ends_operand prev"
  shows "get_tok strtod prev (p @ rest) = Some (tok, None, rest)"
proof -
  have ch: "ch (c # s) 0 = c" "ch (c # s) (Suc n) = ch s n" "ch (c # s) (numeral v) = ch s (pred_numeral v)"
    for c s n v by (simp_all add: ch_def numeral_eq_Suc)
  have r: "ch rest 0 \<noteq> 61" "ch rest 0 \<noteq> 43" "ch rest 0 \<noteq> 45" "ch rest 0 \<noteq> 38" "ch rest 0 \<noteq> 124"
      "ch rest 0 \<noteq> 60" "ch rest 0 \<noteq> 62" "\<not> is_digit (ch rest 0)"
    using assms(2) by (simp_all add: not_extending_def)
  note defs = get_tok_def get_punct_def punct1_def punct2_def punct3_def starts_word_def Let_def
  have "list_all (\<lambda>x. get_tok strtod prev (fst x @ rest) = Some (snd x, None, rest)) punctuators"
    unfolding punctuators_def
    by (simp add: defs ch r assms(3) is_digit_def [of "numeral v" for v])
  with assms(1) show ?thesis by (force simp: list_all_iff)
qed

subsection \<open>Progress\<close>

lemma length_str_scan: "length (str_scan q s) \<le> length s"
proof (induction "length s" arbitrary: s rule: less_induct)
  case less
  show ?case
  proof (cases s)
    case (Cons c t)
    have t: "length (str_scan q t) \<le> length t" using less Cons by simp
    have "length (str_scan q t') \<le> length t'" if "t = e # t'" for e t' using less Cons that by simp
    then have "length (case t of [] \<Rightarrow> [] | e # s' \<Rightarrow> if simple_escape e \<or> e = q then str_scan q s' else str_scan q t)
        \<le> length t"
      using t by (cases t) (auto simp del: str_scan.simps intro: le_SucI)
    with t show ?thesis unfolding Cons str_scan.simps(2) by (auto simp del: str_scan.simps)
  qed simp
qed

lemma length_regex_scan: "regex_scan p = Some (Some s) \<Longrightarrow> length s \<le> length p"
proof (induction p rule: regex_scan.induct)
  case (2 c p)
  then show ?case
    by (cases p) (auto split: if_splits dest!: sym [of _ s] intro: le_SucI le_trans [OF length_dropWhile_le])
qed simp

lemma punct_shorter:
  assumes "s \<noteq> []"
  shows "length (snd (punct1 s a t1 t2)) < length s" "length (snd (punct2 s a t1 b t2 t3)) < length s"
    "length (snd (punct3 s a t1 b t2 t3)) < length s"
  using assms by (auto simp: punct1_def punct2_def punct3_def Let_def)

lemma get_punct_shorter: "s \<noteq> [] \<Longrightarrow> get_punct c s = Some (tok, s') \<Longrightarrow> length s' < length s"
  using punct_shorter [of s] by (auto simp: get_punct_def split: if_splits dest!: sym [of _ "(tok, s')"]
      arg_cong [of _ "(tok, s')" snd])

lemma ident_shorter: "word_char c \<Longrightarrow> length (ident (c # t)) < length (c # t)"
  using ident_char [of "c # t"] length_ident [of t] by (simp add: word_char_def)

lemma starts_word_char: "starts_word c \<Longrightarrow> c \<noteq> 92 \<Longrightarrow> word_char c"
  by (auto simp: starts_word_def word_char_def is_alnum_def)

lemma parse_str_shorter:
  "parse_str_literal s = (tok, s') \<Longrightarrow> tok \<noteq> TOK_END_OF_INPUT \<Longrightarrow> s \<noteq> [] \<Longrightarrow> length s' < length s"
  using length_str_scan [of "ch s 0" "drop 1 s"]
  by (cases s) (auto simp: parse_str_literal_def Let_def split: if_splits)

text \<open>
  Every token but the end takes a byte, if \<open>strtod\<close> takes one of a number, and the text does not
  start with a backslash.
\<close>

lemma get_tok_progress:
  assumes tok: "get_tok strtod prev s = Some (tok, d, s')" "tok \<noteq> TOK_END_OF_INPUT"
    and num: "\<And>c t. is_digit c \<or> c = 46 \<Longrightarrow> 0 < snd (strtod (c # t))"
    and nb: "ch s 0 \<noteq> 92"
  shows "length s' < length s"
proof (cases s)
  case Nil
  have "chartorune [0] = Some (0, 1)" by (simp add: chartorune_def Tx_def)
  with Nil tok show ?thesis
    by (simp add: get_tok_def Let_def ch_def starts_word_def is_digit_def get_punct_def)
next
  case (Cons c t)
  have ch: "ch s 0 = c" using Cons by (simp add: ch_def)
  consider (word) "starts_word c" | (num) "\<not> starts_word c" "is_digit c \<or> (c = 46 \<and> is_digit (ch s 1))"
    | (str) "\<not> starts_word c" "\<not> (is_digit c \<or> (c = 46 \<and> is_digit (ch s 1)))" "c = 39 \<or> c = 34"
    | (slash) "\<not> starts_word c" "\<not> (is_digit c \<or> (c = 46 \<and> is_digit (ch s 1)))" "c = 47"
    | (other) "\<not> starts_word c" "\<not> (is_digit c \<or> (c = 46 \<and> is_digit (ch s 1)))" "c \<noteq> 39" "c \<noteq> 34" "c \<noteq> 47"
    by blast
  then show ?thesis
  proof cases
    case word
    have "s' = ident s"
      using tok(1) word by (auto simp: get_tok_def Let_def ch split: option.splits)
    then show ?thesis using ident_shorter [OF starts_word_char [OF word]] nb ch Cons by simp
  next
    case num
    obtain v k where vk: "strtod s = (v, k)" by fastforce
    then have "0 < k" using assms(3) [of c t] num(2) Cons by auto
    moreover have "s' = drop k s"
      using tok(1) num vk by (auto simp: get_tok_def Let_def ch parse_number_def)
    ultimately show ?thesis using Cons by simp
  next
    case str
    obtain k u where ku: "parse_str_literal s = (k, u)" by fastforce
    then have "k = tok" "u = s'" using tok(1) str by (auto simp: get_tok_def Let_def ch)
    with ku tok(2) parse_str_shorter [of s tok s'] Cons show ?thesis by simp
  next
    case slash
    have div: "s' = snd (punct1 s 61 TOK_DIV_ASSIGN TOK_DIV) \<or> (\<exists>u. regex_scan (drop 1 s) = Some (Some u) \<and> s' = u)"
      using tok(1) slash
      by (auto simp: get_tok_def Let_def ch split: if_splits option.splits prod.splits)
    then show ?thesis
      using punct_shorter(1) [of s 61 TOK_DIV_ASSIGN TOK_DIV] length_regex_scan [of "drop 1 s"] Cons by auto
  next
    case other
    show ?thesis
    proof (cases "c = 46")
      case True
      then have "s' = drop 1 s"
        using tok(1) other by (simp add: get_tok_def Let_def ch)
      with Cons show ?thesis by simp
    next
      case False
      show ?thesis
      proof (cases "get_punct c s")
        case (Some ts)
        obtain k u where ku: "ts = (k, u)" by fastforce
        then have "u = s'" using tok(1) other False Some by (simp add: get_tok_def Let_def ch)
        with get_punct_shorter [of s c k u] Some ku Cons show ?thesis by simp
      next
        case None
        obtain r n where rn: "chartorune (s @ [0]) = Some (r, n)" "n > 1" "isalpharune r" "s' = ident s"
          using tok other False None
          by (auto simp: get_tok_def Let_def ch split: option.splits if_splits)
        have "length (ident s) < length s"
        proof (cases "c = 0 \<or> word_char c")
          case True
          then show ?thesis
            using ident_shorter [of c t] rn(1,2) Cons by (auto simp: chartorune_def Tx_def)
        next
          case False
          have "ident s = ident (drop n s)"
            using False rn ch nb by (subst ident.simps) (auto simp: Let_def word_char_def)
          then show ?thesis using length_ident [of "drop n s"] rn(2) Cons by simp
        qed
        with rn(4) show ?thesis by simp
      qed
    qed
  qed
qed

text \<open>
  A backslash that starts no unicode escape is an identifier of no bytes: the pointer stays.
\<close>

lemma get_tok_backslash:
  assumes "ch t 0 \<noteq> 117"
  shows "get_tok strtod prev (92 # t) = Some (TOK_IDENTIFIER, None, 92 # t)"
proof -
  have c: "chartorune ((92 # t) @ [0]) = Some (92, 1)" by (simp add: chartorune_def Tx_def)
  have "ch (92 # t) 1 = ch t 0" by (simp add: ch_def)
  then have "ident (92 # t) = 92 # t"
    using assms c by (subst ident.simps) (simp add: Let_def ch_def is_alnum_def is_digit_def)
  then show ?thesis by (simp add: get_tok_def Let_def ch_def starts_word_def kw_start_def)
qed

text \<open>A regular expression literal cut off after a backslash: the scan leaves the text.\<close>

lemma get_tok_regex_end:
  assumes "\<forall>c \<in> set body. c \<noteq> 0 \<and> c \<noteq> 10 \<and> c \<noteq> 47 \<and> c \<noteq> 92" "\<not> ends_operand prev"
  shows "get_tok strtod prev (47 # body @ [92]) = None"
proof -
  have "regex_scan (body @ [92]) = None" using assms(1) by (induction body) auto
  then show ?thesis using assms(2) by (simp add: get_tok_def Let_def ch_def starts_word_def is_digit_def)
qed

end
