(* ===== verification/Base64.thy ===== *)
theory Base64
  imports Prelude
begin

text \<open>
  Base64 of \<open>v7/v7.c\<close> (\<open>common/base64.c\<close>): the block encoder, the streaming encoder that keeps up
  to two bytes of a chunk, and the decoder. Output buffers are the lists of the bytes written, with the
  final NUL. Shown: both encoders write the same text, the decoder undoes them, and which texts beside
  base64 the decoder takes.
\<close>

definition b64_chars :: "u8 list" where
  "b64_chars = [65, 66, 67, 68, 69, 70, 71, 72, 73, 74, 75, 76, 77, 78, 79, 80, 81, 82, 83, 84, 85,
     86, 87, 88, 89, 90, 97, 98, 99, 100, 101, 102, 103, 104, 105, 106, 107, 108, 109, 110, 111, 112,
     113, 114, 115, 116, 117, 118, 119, 120, 121, 122, 48, 49, 50, 51, 52, 53, 54, 55, 56, 57, 43, 47]"

definition b64 :: "u8 \<Rightarrow> u8" where
  "b64 v = b64_chars ! unat v"

subsection \<open>The block encoder\<close>

fun encode_groups :: "u8 list \<Rightarrow> u8 list" where
  "encode_groups [] = []"
| "encode_groups [a] = [b64 (drop_bit 2 a), b64 (push_bit 4 (a AND 3))]"
| "encode_groups [a, b] =
     [b64 (drop_bit 2 a), b64 (push_bit 4 (a AND 3) OR drop_bit 4 b), b64 (push_bit 2 (b AND 15))]"
| "encode_groups (a # b # c # src) =
     b64 (drop_bit 2 a) # b64 (push_bit 4 (a AND 3) OR drop_bit 4 b)
       # b64 (push_bit 2 (b AND 15) OR drop_bit 6 c) # b64 (c AND 63) # encode_groups src"

definition pad4 :: "u8 list \<Rightarrow> u8 list" where
  "pad4 out = out @ replicate ((4 - length out mod 4) mod 4) 61"

text \<open>The loop with its counters, the \<open>int\<close>s \<open>i\<close> of the source and \<open>j\<close> of the output: no result when one overflows.\<close>

definition int_plus :: "nat \<Rightarrow> nat \<Rightarrow> nat option" where
  "int_plus x k = (if x + k < 2 ^ 31 then Some (x + k) else None)"

fun encode_loop :: "u8 list \<Rightarrow> nat \<Rightarrow> nat \<Rightarrow> (u8 list \<times> nat) option" where
  "encode_loop [] i j = Some ([], j)"
| "encode_loop [a] i j =
     do { j \<leftarrow> int_plus j 2; _ \<leftarrow> int_plus i 3; Some (encode_groups [a], j) }"
| "encode_loop [a, b] i j =
     do { j \<leftarrow> int_plus j 3; _ \<leftarrow> int_plus i 3; Some (encode_groups [a, b], j) }"
| "encode_loop (a # b # c # src) i j =
     do { j \<leftarrow> int_plus j 4; i \<leftarrow> int_plus i 3; (out, j) \<leftarrow> encode_loop src i j; Some (encode_groups [a, b, c] @ out, j) }"

definition encode_body :: "u8 list \<Rightarrow> (u8 list \<times> nat) option" where
  "encode_body src =
     do { (out, j) \<leftarrow> encode_loop src 0 0; j \<leftarrow> int_plus j ((4 - j mod 4) mod 4); Some (pad4 out, j) }"

definition cs_base64_encode :: "u8 list \<Rightarrow> u8 list option" where
  "cs_base64_encode src = do { (out, j) \<leftarrow> encode_body src; _ \<leftarrow> int_plus j 1; Some (out @ [0]) }"

text \<open>\<open>cs_fprint_base64\<close> has the same body and prints; it writes no NUL.\<close>

definition cs_fprint_base64 :: "u8 list \<Rightarrow> u8 list option" where
  "cs_fprint_base64 src = map_option fst (encode_body src)"

subsection \<open>The streaming encoder\<close>

record cs_base64_ctx =
  chunk :: "u8 list"
  chunk_size :: nat
  sent :: "u8 list"

definition emit_code :: "u8 \<Rightarrow> cs_base64_ctx \<Rightarrow> cs_base64_ctx" where
  "emit_code v ctx = ctx\<lparr>sent := sent ctx @
     [if v < 26 then v + 65
      else if v < 52 then v - 26 + 97
      else if v < 62 then v - 52 + 48
      else if v - 52 - 10 = 0 then 43 else 47]\<rparr>"

definition emit_chunk :: "cs_base64_ctx \<Rightarrow> cs_base64_ctx" where
  "emit_chunk ctx =
     (let a = chunk ctx ! 0; b = chunk ctx ! 1; c = chunk ctx ! 2;
          ctx = emit_code (drop_bit 2 a) ctx;
          ctx = emit_code (push_bit 4 (a AND 3) OR drop_bit 4 b) ctx;
          ctx = (if chunk_size ctx > 1 then emit_code (push_bit 2 (b AND 15) OR drop_bit 6 c) ctx else ctx)
      in if chunk_size ctx > 2 then emit_code (c AND 63) ctx else ctx)"

definition cs_base64_init :: "u8 list \<Rightarrow> cs_base64_ctx" where
  "cs_base64_init uninit = \<lparr>chunk = uninit, chunk_size = 0, sent = []\<rparr>"

fun cs_base64_update :: "u8 list \<Rightarrow> cs_base64_ctx \<Rightarrow> cs_base64_ctx" where
  "cs_base64_update [] ctx = ctx"
| "cs_base64_update (x # src) ctx =
     (let ctx = ctx\<lparr>chunk := (chunk ctx)[chunk_size ctx := x], chunk_size := Suc (chunk_size ctx)\<rparr>
      in cs_base64_update src
           (if chunk_size ctx = 3 then (emit_chunk ctx)\<lparr>chunk_size := 0\<rparr> else ctx))"

definition cs_base64_finish :: "cs_base64_ctx \<Rightarrow> cs_base64_ctx" where
  "cs_base64_finish ctx =
     (if chunk_size ctx > 0
      then
        let n = chunk_size ctx;
            ctx = emit_chunk (ctx\<lparr>chunk := take n (chunk ctx) @ replicate (3 - n) 0 @ drop 3 (chunk ctx)\<rparr>)
        in ctx\<lparr>sent := sent ctx @ replicate (3 - n) 61\<rparr>
      else ctx)"

subsection \<open>The decoder\<close>

definition b64_tab :: "u8 list" where
  "b64_tab =
    [255, 255, 255, 255, 255, 255, 255, 255,
     255, 255, 255, 255, 255, 255, 255, 255,
     255, 255, 255, 255, 255, 255, 255, 255,
     255, 255, 255, 255, 255, 255, 255, 255,
     255, 255, 255, 255, 255, 255, 255, 255,
     255, 255, 255, 62, 255, 255, 255, 63,
     52, 53, 54, 55, 56, 57, 58, 59,
     60, 61, 255, 255, 255, 200, 255, 255,
     255, 0, 1, 2, 3, 4, 5, 6,
     7, 8, 9, 10, 11, 12, 13, 14,
     15, 16, 17, 18, 19, 20, 21, 22,
     23, 24, 25, 255, 255, 255, 255, 255,
     255, 26, 27, 28, 29, 30, 31, 32,
     33, 34, 35, 36, 37, 38, 39, 40,
     41, 42, 43, 44, 45, 46, 47, 48,
     49, 50, 51, 255, 255, 255, 255, 255]"

definition from_b64 :: "u8 \<Rightarrow> u8" where
  "from_b64 ch = b64_tab ! unat (ch AND 127)"

text \<open>The bytes written and the number of input bytes taken; the length is an \<open>int\<close>, which only goes down.\<close>

fun decode_loop :: "u8 list \<Rightarrow> u8 list \<times> nat" where
  "decode_loop (w # x # y # z # s) =
     (let a = from_b64 w; b = from_b64 x; c = from_b64 y; d = from_b64 z in
      if a \<noteq> 255 \<and> b \<noteq> 255 \<and> c \<noteq> 255 \<and> d \<noteq> 255
      then
        if a = 200 \<or> b = 200 then ([], 4)
        else if c = 200 then ([push_bit 2 a OR drop_bit 4 b], 4)
        else if d = 200 then ([push_bit 2 a OR drop_bit 4 b, push_bit 4 b OR drop_bit 2 c], 4)
        else
          (case decode_loop s of
             (out, n) \<Rightarrow> ([push_bit 2 a OR drop_bit 4 b, push_bit 4 b OR drop_bit 2 c, push_bit 6 c OR d] @ out, n + 4))
      else ([], 0))"
| "decode_loop s = ([], 0)"

definition cs_base64_decode :: "u8 list \<Rightarrow> (u8 list \<times> nat) option" where
  "cs_base64_decode s =
     (if length s < 2 ^ 31 then case decode_loop s of (out, n) \<Rightarrow> Some (out @ [0], n) else None)"

subsection \<open>Correctness\<close>

declare push_bit_and [simp del] push_bit_or [simp del] drop_bit_or [simp del] drop_bit_and [simp del]

lemma small_cases: "unat (v :: u8) < 64 \<Longrightarrow> list_all P (map word_of_nat [0..<64]) \<Longrightarrow> P v"
  by (auto simp: list_all_iff dest!: bspec [of _ _ "unat v"])

lemma b64_back: "unat v < 64 \<Longrightarrow> from_b64 (b64 v) = v \<and> b64 v \<noteq> 61"
  by (erule small_cases) code_simp

lemma emit_code_b64: "unat v < 64 \<Longrightarrow> emit_code v ctx = ctx\<lparr>sent := sent ctx @ [b64 v]\<rparr>"
proof -
  assume v: "unat v < 64"
  have "(if v < 26 then v + 65 else if v < 52 then v - 26 + 97 else if v < 62 then v - 52 + 48
      else if v - 52 - 10 = 0 then 43 else 47) = b64 v"
    by (rule small_cases [OF v]) code_simp
  then show ?thesis by (simp add: emit_code_def)
qed

lemma unat_below: "(v :: u8) AND 63 = v \<Longrightarrow> unat v < 64"
proof -
  assume "v AND 63 = v"
  then have "v \<le> 63" by (metis word_and_le1)
  then show ?thesis by (simp add: word_le_nat_alt)
qed

lemma bits_low:
  "bit (3 :: int) n \<longleftrightarrow> n < 2" "bit (15 :: int) n \<longleftrightarrow> n < 4" "bit (63 :: int) n \<longleftrightarrow> n < 6"
proof -
  have eqs: "(3 :: int) = mask 2" "(15 :: int) = mask 4" "(63 :: int) = mask 6"
    by (simp_all add: mask_eq_exp_minus_1)
  show "bit (3 :: int) n \<longleftrightarrow> n < 2" "bit (15 :: int) n \<longleftrightarrow> n < 4" "bit (63 :: int) n \<longleftrightarrow> n < 6"
    unfolding eqs by (simp_all add: bit_mask_iff)
qed

lemma sextets:
  fixes a b c :: u8
  shows "unat (drop_bit 2 a) < 64" "unat (push_bit 4 (a AND 3) OR drop_bit 4 b) < 64"
    "unat (push_bit 2 (b AND 15) OR drop_bit 6 c) < 64" "unat (c AND 63) < 64"
    "unat (push_bit 4 (a AND 3)) < 64" "unat (push_bit 2 (b AND 15)) < 64"
proof -
  show "unat (drop_bit 2 a) < 64"
    by (rule unat_below, rule bit_word_eqI) (auto simp: bit_simps bits_low dest: bit_imp_le_length)
  show "unat (push_bit 4 (a AND 3) OR drop_bit 4 b) < 64"
    by (rule unat_below, rule bit_word_eqI) (auto simp: bit_simps bits_low dest: bit_imp_le_length)
  show "unat (push_bit 2 (b AND 15) OR drop_bit 6 c) < 64"
    by (rule unat_below, rule bit_word_eqI) (auto simp: bit_simps bits_low dest: bit_imp_le_length)
  show "unat (c AND 63) < 64"
    by (rule unat_below, rule bit_word_eqI) (auto simp: bit_simps bits_low)
  show "unat (push_bit 4 (a AND 3)) < 64"
    by (rule unat_below, rule bit_word_eqI) (auto simp: bit_simps bits_low)
  show "unat (push_bit 2 (b AND 15)) < 64"
    by (rule unat_below, rule bit_word_eqI) (auto simp: bit_simps bits_low)
qed

lemma byte_eqI: "(\<And>n. n \<in> {7, 6, 5, 4, 3, 2, 1, 0} \<Longrightarrow> bit a n = bit b n) \<Longrightarrow> a = (b :: u8)"
proof (rule bit_word_eqI)
  fix n assume *: "\<And>n. n \<in> {7, 6, 5, 4, 3, 2, 1, 0} \<Longrightarrow> bit a n = bit b n" and "n < LENGTH(8)"
  then have "n \<in> {7, 6, 5, 4, 3, 2, 1, 0}" using below_8 [of n] by simp
  then show "bit a n = bit b n" by (rule *)
qed

lemma octets:
  fixes a b c :: u8
  shows "push_bit 2 (drop_bit 2 a) OR drop_bit 4 (push_bit 4 (a AND 3) OR drop_bit 4 b) = a"
    "push_bit 2 (drop_bit 2 a) OR drop_bit 4 (push_bit 4 (a AND 3)) = a"
    "push_bit 4 (push_bit 4 (a AND 3) OR drop_bit 4 b) OR drop_bit 2 (push_bit 2 (b AND 15) OR drop_bit 6 c) = b"
    "push_bit 4 (push_bit 4 (a AND 3) OR drop_bit 4 b) OR drop_bit 2 (push_bit 2 (b AND 15)) = b"
    "push_bit 6 (push_bit 2 (b AND 15) OR drop_bit 6 c) OR (c AND 63) = c"
proof -
  show "push_bit 2 (drop_bit 2 a) OR drop_bit 4 (push_bit 4 (a AND 3) OR drop_bit 4 b) = a"
    by (rule byte_eqI) (auto simp: bit_simps bits_low no_bit_u8; simp add: numeral_2_eq_2 numeral_3_eq_3)
  show "push_bit 2 (drop_bit 2 a) OR drop_bit 4 (push_bit 4 (a AND 3)) = a"
    by (rule byte_eqI) (auto simp: bit_simps bits_low no_bit_u8; simp add: numeral_2_eq_2 numeral_3_eq_3)
  show "push_bit 4 (push_bit 4 (a AND 3) OR drop_bit 4 b) OR drop_bit 2 (push_bit 2 (b AND 15) OR drop_bit 6 c) = b"
    by (rule byte_eqI) (auto simp: bit_simps bits_low no_bit_u8; simp add: numeral_2_eq_2 numeral_3_eq_3)
  show "push_bit 4 (push_bit 4 (a AND 3) OR drop_bit 4 b) OR drop_bit 2 (push_bit 2 (b AND 15)) = b"
    by (rule byte_eqI) (auto simp: bit_simps bits_low no_bit_u8; simp add: numeral_2_eq_2 numeral_3_eq_3)
  show "push_bit 6 (push_bit 2 (b AND 15) OR drop_bit 6 c) OR (c AND 63) = c"
    by (rule byte_eqI) (auto simp: bit_simps bits_low no_bit_u8; simp add: numeral_2_eq_2 numeral_3_eq_3)
qed

lemma pad4_few: "pad4 [] = []" "pad4 [x, y] = [x, y, 61, 61]" "pad4 [x, y, z] = [x, y, z, 61]"
  by (simp_all add: pad4_def numeral_2_eq_2)

lemma sextet_code: "unat v < 64 \<Longrightarrow> from_b64 (b64 v) = v \<and> v \<noteq> 255 \<and> v \<noteq> 200"
  using b64_back [of v] by (auto simp: word_unat_eq_iff)

lemma length_encode_groups: "length (pad4 (encode_groups src)) = (length src + 2) div 3 * 4"
proof (induction src rule: encode_groups.induct)
  case (4 a b c src)
  have "(length (a # b # c # src) + 2) div 3 = (length src + 2) div 3 + 1" by simp
  with 4 show ?case by (simp add: pad4_def)
qed (simp_all add: pad4_few)

lemma pad4_group: "length xs = 4 \<Longrightarrow> pad4 (xs @ ys) = xs @ pad4 ys"
  by (simp add: pad4_def)

lemma from_b64_pad: "from_b64 61 = 200"
  by code_simp

text \<open>What the encoder writes, the decoder reads back, with all of it taken.\<close>

lemma decode_encode:
  "decode_loop (pad4 (encode_groups src) @ rest) =
     (if length src mod 3 = 0
      then (case decode_loop rest of (out, n) \<Rightarrow> (src @ out, n + length (pad4 (encode_groups src))))
      else (src, length (pad4 (encode_groups src))))"
proof (induction src rule: encode_groups.induct)
  case 1
  show ?case by (simp add: pad4_def split: prod.split)
next
  case (2 a)
  show ?case
    by (simp add: sextets sextet_code from_b64_pad octets pad4_few)
next
  case (3 a b)
  show ?case
    by (simp add: sextets sextet_code from_b64_pad octets pad4_few)
next
  case (4 a b c src)
  let ?g = "[b64 (drop_bit 2 a), b64 (push_bit 4 (a AND 3) OR drop_bit 4 b),
       b64 (push_bit 2 (b AND 15) OR drop_bit 6 c), b64 (c AND 63)]"
  have "pad4 (encode_groups (a # b # c # src)) = ?g @ pad4 (encode_groups src)"
    using pad4_group [of ?g "encode_groups src"] by simp
  with 4 show ?case
    by (simp add: sextets sextet_code octets split: prod.split)
qed

text \<open>The counters: \<open>j\<close>, which counts the NUL too, is the first to overflow.\<close>

lemma encode_loop_eq:
  "i < 2 ^ 31 \<Longrightarrow> j < 2 ^ 31 \<Longrightarrow> encode_loop src i j =
     (if i + (length src + 2) div 3 * 3 < 2 ^ 31 \<and> j + length (encode_groups src) < 2 ^ 31
      then Some (encode_groups src, j + length (encode_groups src)) else None)"
proof (induction src i j rule: encode_loop.induct)
  case (4 a b c src i j)
  have "(length (a # b # c # src) + 2) div 3 = (length src + 2) div 3 + 1" by simp
  with 4 show ?case by (simp add: int_plus_def)
qed (simp_all add: int_plus_def)

lemma length_groups: "length (encode_groups src) = (length src * 4 + 2) div 3"
  by (induction src rule: encode_groups.induct) simp_all

lemma encode_body_some:
  assumes "length src + 2 < 3 * 2 ^ 29"
  shows "encode_body src = Some (pad4 (encode_groups src), (length src + 2) div 3 * 4)"
proof -
  have n: "(length src + 2) div 3 < 2 ^ 29" using assms by (simp add: less_mult_imp_div_less mult.commute)
  have l: "length (encode_groups src) + (4 - length (encode_groups src) mod 4) mod 4 = (length src + 2) div 3 * 4"
    using length_encode_groups [of src] by (simp add: pad4_def)
  with n show ?thesis by (simp add: encode_body_def encode_loop_eq int_plus_def)
qed

lemma encode_spec:
  "cs_base64_encode src = (if length src + 2 < 3 * 2 ^ 29 then Some (pad4 (encode_groups src) @ [0]) else None)"
proof (cases "length src + 2 < 3 * 2 ^ 29")
  case True
  then have "(length src + 2) div 3 < 2 ^ 29" by (simp add: less_mult_imp_div_less mult.commute)
  with True show ?thesis by (simp add: cs_base64_encode_def encode_body_some int_plus_def)
next
  case False
  then have n: "2 ^ 29 \<le> (length src + 2) div 3" by simp
  have "length (encode_groups src) + (4 - length (encode_groups src) mod 4) mod 4 = (length src + 2) div 3 * 4"
    using length_encode_groups [of src] by (simp add: pad4_def)
  with n False show ?thesis by (simp add: cs_base64_encode_def encode_body_def encode_loop_eq int_plus_def)
qed

lemma decode_encode_text:
  assumes "cs_base64_encode src = Some t"
  shows "cs_base64_decode (butlast t) = Some (src @ [0], length t - 1)"
proof -
  have s: "length src + 2 < 3 * 2 ^ 29" "t = pad4 (encode_groups src) @ [0]"
    using assms by (simp_all add: encode_spec split: if_splits)
  then have "(length src + 2) div 3 < 2 ^ 29" by (simp add: less_mult_imp_div_less mult.commute)
  then show ?thesis
    using decode_encode [of src "[]"] s(2) length_encode_groups [of src] by (simp add: cs_base64_decode_def)
qed

text \<open>The streaming encoder: what was sent and the bytes of the open chunk.\<close>

definition stream_ok :: "cs_base64_ctx \<Rightarrow> u8 list \<Rightarrow> bool" where
  "stream_ok ctx done \<longleftrightarrow>
     length (chunk ctx) = 3 \<and> chunk_size ctx < 3 \<and>
     (\<exists>ws. done = ws @ take (chunk_size ctx) (chunk ctx) \<and> length ws mod 3 = 0 \<and> sent ctx = encode_groups ws)"

lemma encode_groups_append:
  "length xs mod 3 = 0 \<Longrightarrow> encode_groups (xs @ ys) = encode_groups xs @ encode_groups ys"
  by (induction xs rule: encode_groups.induct) auto

lemma emit_chunk_3:
  "chunk_size ctx = 3 \<Longrightarrow> chunk ctx = [a, b, c] \<Longrightarrow>
     emit_chunk ctx = ctx\<lparr>sent := sent ctx @ encode_groups [a, b, c]\<rparr>"
  by (simp add: sextets emit_chunk_def Let_def emit_code_b64)

lemma stream_step:
  assumes "stream_ok ctx xs"
  shows "\<exists>ctx'. stream_ok ctx' (xs @ [x]) \<and> cs_base64_update (x # src) ctx = cs_base64_update src ctx'"
proof -
  have "length (chunk ctx) = 3" using assms by (simp add: stream_ok_def)
  then obtain a b c where chunk: "chunk ctx = [a, b, c]"
    by (auto simp: numeral_3_eq_3 length_Suc_conv)
  obtain ws where ws: "xs = ws @ take (chunk_size ctx) [a, b, c]" "length ws mod 3 = 0" "sent ctx = encode_groups ws"
    and n: "chunk_size ctx < 3"
    using assms chunk by (auto simp: stream_ok_def)
  let ?c = "ctx\<lparr>chunk := (chunk ctx)[chunk_size ctx := x], chunk_size := Suc (chunk_size ctx)\<rparr>"
  consider "chunk_size ctx = 0" | "chunk_size ctx = 1" | "chunk_size ctx = 2" using n by linarith
  then show ?thesis
  proof cases
    case 3
    let ?d = "ctx\<lparr>chunk := [a, b, x], sent := sent ctx @ encode_groups [a, b, x], chunk_size := 0\<rparr>"
    have "emit_chunk ?c = ?c\<lparr>sent := sent ctx @ encode_groups [a, b, x]\<rparr>"
      using emit_chunk_3 [of ?c a b x] 3 chunk by simp
    then have "cs_base64_update (x # src) ctx = cs_base64_update src ?d"
      using 3 chunk by (simp add: Let_def)
    moreover have "stream_ok ?d (xs @ [x])"
      using ws 3 encode_groups_append [OF ws(2), of "[a, b, x]"]
      by (auto simp: stream_ok_def intro!: exI [of _ "ws @ [a, b, x]"])
    ultimately show ?thesis by blast
  next
    case 1
    then have "cs_base64_update (x # src) ctx = cs_base64_update src ?c" by (simp add: Let_def)
    moreover have "stream_ok ?c (xs @ [x])" using ws 1 chunk by (auto simp: stream_ok_def)
    ultimately show ?thesis by blast
  next
    case 2
    then have "cs_base64_update (x # src) ctx = cs_base64_update src ?c" by (simp add: Let_def)
    moreover have "stream_ok ?c (xs @ [x])"
      using ws 2 chunk by (auto simp: stream_ok_def numeral_2_eq_2)
    ultimately show ?thesis by blast
  qed
qed

lemma stream_update:
  "stream_ok ctx xs \<Longrightarrow> stream_ok (cs_base64_update src ctx) (xs @ src)"
proof (induction src arbitrary: ctx xs)
  case (Cons x src)
  obtain ctx' where "stream_ok ctx' (xs @ [x])" "cs_base64_update (x # src) ctx = cs_base64_update src ctx'"
    using stream_step [OF Cons.prems] by blast
  with Cons.IH [of ctx' "xs @ [x]"] show ?case by simp
qed simp

lemma replicate_few: "replicate 2 x = [x, x]" "replicate (Suc 0) x = [x]"
  by (simp_all add: numeral_2_eq_2)

lemma stream_finish:
  assumes "stream_ok ctx xs"
  shows "sent (cs_base64_finish ctx) = pad4 (encode_groups xs)"
proof -
  have "length (chunk ctx) = 3" using assms by (simp add: stream_ok_def)
  then obtain a b c where chunk: "chunk ctx = [a, b, c]"
    by (auto simp: numeral_3_eq_3 length_Suc_conv)
  obtain ws where ws: "xs = ws @ take (chunk_size ctx) [a, b, c]" "length ws mod 3 = 0" "sent ctx = encode_groups ws"
    and n: "chunk_size ctx < 3"
    using assms chunk by (auto simp: stream_ok_def)
  have len: "length (encode_groups ws) mod 4 = 0"
    using ws(2) by (induction ws rule: encode_groups.induct) auto
  then obtain k where "length (encode_groups ws) = 4 * k" by auto
  then have pad: "pad4 (encode_groups ws @ ys) = encode_groups ws @ pad4 ys" for ys
    by (simp add: pad4_def)
  consider "chunk_size ctx = 0" | "chunk_size ctx = 1" | "chunk_size ctx = 2" using n by linarith
  then show ?thesis
  proof cases
    case 1
    then show ?thesis using ws pad [of "[]"] by (simp add: cs_base64_finish_def pad4_def)
  next
    case 2
    then show ?thesis
      using ws chunk encode_groups_append [OF ws(2), of "[a]"] pad [of "encode_groups [a]"]
      by (simp add: cs_base64_finish_def emit_chunk_def Let_def emit_code_b64 sextets pad4_few replicate_few)
  next
    case 3
    then show ?thesis
      using ws chunk encode_groups_append [OF ws(2), of "[a, b]"]
        pad [of "encode_groups [a, b]"]
      by (simp add: cs_base64_finish_def emit_chunk_def Let_def emit_code_b64 sextets pad4_few replicate_few)
  qed
qed

lemma stream_init: "length uninit = 3 \<Longrightarrow> stream_ok (cs_base64_init uninit) []"
  by (simp add: stream_ok_def cs_base64_init_def)

lemma stream_is_block:
  assumes "length uninit = 3" "length (concat parts) + 2 < 3 * 2 ^ 29"
  shows "cs_fprint_base64 (concat parts) =
     Some (sent (cs_base64_finish (foldl (\<lambda>ctx part. cs_base64_update part ctx) (cs_base64_init uninit) parts)))"
proof -
  have "stream_ok (foldl (\<lambda>ctx part. cs_base64_update part ctx) ctx parts) (xs @ concat parts)"
    if "stream_ok ctx xs" for ctx xs
    using that
  proof (induction parts arbitrary: ctx xs)
    case (Cons p parts)
    from Cons.IH [OF stream_update [OF Cons.prems, of p]] show ?case by simp
  qed simp
  from stream_finish [OF this [OF stream_init [OF assms(1)]]] show ?thesis
    using encode_body_some [OF assms(2)] by (simp add: cs_fprint_base64_def)
qed

text \<open>The high bit of an input byte is ignored: texts that are not base64 are taken.\<close>

lemma from_b64_high: "from_b64 (ch OR 128) = from_b64 (ch AND 127)"
proof -
  have "(ch OR 128) AND 127 = (ch AND 127) AND 127"
  proof (rule bit_word_eqI)
    fix n assume "n < LENGTH(8)"
    then have "n = 7 \<or> n < 7" by auto
    moreover have "bit (127 :: int) k \<longleftrightarrow> k < 7" for k
      using bit_mask_iff [where 'a = int, of 7 k] by (simp add: mask_eq_exp_minus_1)
    moreover have "bit (128 :: int) k \<longleftrightarrow> k = 7" for k
      using bit_exp_iff [where 'a = int, of 7 k] by auto
    ultimately show "bit ((ch OR 128) AND 127) n = bit ((ch AND 127) AND 127) n"
      by (auto simp: bit_simps)
  qed
  then show ?thesis by (simp add: from_b64_def)
qed

end
