(* ===== verification/EngineProps.thy ===== *)
theory EngineProps
  imports LexerCorrect Base64 Mbuf UtfClasses
begin

text \<open>
  The properties of the engine's own components: string lengths, UTF-8 and the case maps, base64, memory
  buffers and the tokenizer, with their witnesses.
\<close>

subsection \<open>String lengths\<close>

text \<open>C27: every length below \<open>2 ^ 31\<close> is encoded in \<open>calc_llen\<close> bytes, and the decoder reads it back
  from whatever follows, with the number of bytes it took.\<close>

theorem varint_roundtrip:
  assumes "unat len < 2 ^ 31"
  shows "\<exists>bs. encode_varint len = Some bs \<and> length bs = calc_llen len \<and>
    decode_varint (bs @ rest) = Some (len, length bs)"
proof -
  have "unat len < 2 ^ 56" using assms by simp
  then obtain bs where "encode_varint len = Some bs" "length bs = calc_llen len"
    using encode_varint_some by blast
  with decode_encode_varint [OF assms] show ?thesis by blast
qed

theorem varint_roundtrip_witness:
  "\<exists>bs. encode_varint 300 = Some bs \<and> decode_varint (bs @ [7]) = Some (300, length bs)"
  using varint_roundtrip [of 300 "[7]"] by auto

text \<open>A length from \<open>2 ^ 31\<close> on that is encoded cannot be decoded: the 7-bit group is shifted as
  an \<open>int\<close>, which overflows.\<close>

theorem varint_long_undefined:
  assumes "2 ^ 31 \<le> unat len" "encode_varint len = Some bs"
  shows "decode_varint (bs @ rest) = None"
  by (rule decode_varint_overflow [OF assms])

theorem varint_long_undefined_witness:
  "\<exists>bs. encode_varint 0x80000000 = Some bs \<and> decode_varint bs = None"
proof -
  obtain bs where "encode_varint 0x80000000 = Some bs"
    using encode_varint_some [of "0x80000000"] by auto
  with varint_long_undefined [OF _ this, of "[]"] show ?thesis by simp
qed

subsection \<open>UTF-8\<close>

text \<open>C28: decoding the encoding of any 16-bit character gives it back, with the number of its bytes,
  whatever follows.\<close>

theorem utf8_roundtrip: "chartorune (runetochar c @ rest) = Some (c, length (runetochar c))"
  by (rule chartorune_runetochar)

text \<open>The decoder accepts canonical text only: what it decodes to a character other than the error
  character is the encoding of that character; it takes between one and three bytes that are there.\<close>

theorem utf8_canonical:
  assumes "chartorune s = Some (r, k)"
  shows "(r = Runeerror \<and> k = 1 \<or> take k s = runetochar r) \<and> 0 < k \<and> k \<le> 3 \<and> k \<le> length s"
  using chartorune_canonical [OF assms] chartorune_step [OF assms] by auto

theorem utf8_canonical_witness: "take 2 [0xC3, 0xA9, 0] = runetochar 0xE9"
proof -
  have e: "runetochar 0xE9 = [0xC3, 0xA9]" by code_simp
  have "chartorune [0xC3, 0xA9, 0] = Some (0xE9, 2)" by code_simp
  from utf8_canonical [OF this] show ?thesis by (simp add: Runeerror_def)
qed

text \<open>\<open>utfnlen\<close> counts the characters of a text, and \<open>utfnshift\<close> moves past that many of them.\<close>

theorem utf8_length_shift:
  "utfnlen (concat (map runetochar cs) @ rest) (int (length (concat (map runetochar cs)))) = Some (length cs) \<and>
   utfnshift (concat (map runetochar cs) @ rest) (length cs) = Some rest"
  by (simp add: utfnlen_runes utfnshift_runes)

text \<open>\<open>tolowerrune\<close> and \<open>toupperrune\<close>, which search their tables by bisection, do what the
  tables say row by row: a range row that holds the character shifts it, else its own row does, else
  it stays.\<close>

theorem case_maps_tables:
  "tolowerrune c = conversion tolower2 tolower1 c \<and> toupperrune c = conversion toupper2 toupper1 c"
  by (simp add: tolowerrune_conversion toupperrune_conversion)

text \<open>A character is alphabetic for \<open>isalpharune\<close> exactly if some table lists it.\<close>

theorem isalpha_tables:
  "isalpharune c \<longleftrightarrow>
     (\<exists>(a, b, d) \<in> set (rows3 tolower2 @ rows3 toupper2). a \<le> c \<and> c \<le> b) \<or>
     c \<in> fst ` set (rows2 tolower1 @ rows2 toupper1) \<or>
     (\<exists>(a, b) \<in> set (rows2 alpha2). a \<le> c \<and> c \<le> b) \<or> c \<in> set alpha1"
  by (rule isalpharune_rows)

subsection \<open>Base64\<close>

text \<open>C29: bytes are encoded as long as their text with its NUL has less than \<open>2 ^ 31\<close> bytes, which is up to
  1610612733 of them (of more the counter of the output overflows), and decoding the text gives the bytes back, with a
  final NUL, and takes the whole text.\<close>

theorem base64_roundtrip:
  "(cs_base64_encode src = None \<longleftrightarrow> 1610612733 < length src) \<and>
   (\<forall>t. cs_base64_encode src = Some t \<longrightarrow>
      length t = (length src + 2) div 3 * 4 + 1 \<and> cs_base64_decode (butlast t) = Some (src @ [0], length t - 1))"
  using decode_encode_text [of src] length_encode_groups [of src] by (auto simp: encode_spec)

theorem base64_roundtrip_witness:
  "\<exists>t. cs_base64_encode [104, 105] = Some t \<and> length t = 5 \<and> cs_base64_decode (butlast t) = Some ([104, 105, 0], 4)"
proof -
  obtain t where t: "cs_base64_encode [104, 105] = Some t" using base64_roundtrip [of "[104, 105]"] by fastforce
  with base64_roundtrip [of "[104, 105]"] show ?thesis by (intro exI [of _ t]) simp
qed

text \<open>The streaming encoder, fed with any parts, writes what the block encoder writes for
  their concatenation.\<close>

theorem base64_stream:
  assumes "length uninit = 3" "length (concat parts) + 2 < 3 * 2 ^ 29"
  shows "cs_fprint_base64 (concat parts) =
     Some (sent (cs_base64_finish (foldl (\<lambda>ctx part. cs_base64_update part ctx) (cs_base64_init uninit) parts)))"
  by (rule stream_is_block [OF assms])

theorem base64_stream_witness:
  "cs_fprint_base64 [104, 105, 106, 107] =
     Some (sent (cs_base64_finish (foldl (\<lambda>ctx part. cs_base64_update part ctx) (cs_base64_init [9, 9, 9]) [[104], [105, 106, 107]])))"
  using base64_stream [of "[9, 9, 9]" "[[104], [105, 106, 107]]"] by simp

subsection \<open>Memory buffers\<close>

text \<open>\<open>mbuf_insert\<close> inserts all the bytes at the offset and shifts the rest, or changes nothing
  and answers 0; the buffer's length never exceeds its size.\<close>

theorem mbuf_insert_content:
  assumes "mbuf_ok m" "off \<le> mb_len m" "length bs = unat n" "unat (mb_len m) < 2 ^ 52" "unat n < 2 ^ 52"
  shows "\<exists>r m'. mbuf_insert A m off (Some bs) n = Some (r, m') \<and> mbuf_ok m' \<and>
    ((r = n \<and> content m' = take (unat off) (content m) @ bs @ drop (unat off) (content m)) \<or> (r = 0 \<and> m' = m))"
proof -
  obtain r m' where "mbuf_insert A m off (Some bs) n = Some (r, m')"
    "(r = n \<and> mbuf_ok m' \<and> mb_len m' = mb_len m + n \<and>
      content m' = take (unat off) (content m) @ bs @ drop (unat off) (content m)) \<or> (r = 0 \<and> m' = m)"
    by (rule mbuf_insert_spec [OF assms])
  with assms(1) show ?thesis by (intro exI [of _ r] exI [of _ m']) auto
qed

definition buf0 :: mbuf where
  "buf0 = \<lparr>mb_addr = 64, mb_data = [1, 2, 3, 0], mb_len = 3, mb_size = 4\<rparr>"

theorem mbuf_insert_content_witness:
  "\<exists>r m'. mbuf_insert \<lparr>new_addr = \<lambda>a n. 128, undef = \<lambda>i. 0\<rparr> buf0 1 (Some [9]) 1 = Some (r, m') \<and> mbuf_ok m' \<and>
     (content m' = [1, 9, 2, 3] \<or> m' = buf0)"
proof -
  have "mbuf_ok buf0" "(1 :: u64) \<le> mb_len buf0"
    by (simp_all add: buf0_def mbuf_ok_def word_le_nat_alt)
  from mbuf_insert_content [OF this, of "[9]" 1 "\<lparr>new_addr = \<lambda>a n. 128, undef = \<lambda>i. 0\<rparr>"]
  obtain r m' where "mbuf_insert \<lparr>new_addr = \<lambda>a n. 128, undef = \<lambda>i. 0\<rparr> buf0 1 (Some [9]) 1 = Some (r, m')" "mbuf_ok m'"
    "content m' = take 1 (content buf0) @ [9] @ drop 1 (content buf0) \<or> m' = buf0"
    by (auto simp: buf0_def)
  then show ?thesis by (intro exI [of _ r] exI [of _ m']) (auto simp: buf0_def content_def)
qed

subsection \<open>The tokenizer\<close>

text \<open>C30: a word of identifier characters is read whole, and is a keyword token exactly if the
  keyword table lists it: the search by the first letter and a slice of the table misses none.\<close>

theorem tok_words:
  assumes "w \<noteq> []" "list_all word_char w" "starts_word (hd w)" "word_end rest"
  shows "get_tok strtod prev (w @ rest)
     = Some (case map_of keyword_table w of Some tok \<Rightarrow> tok | None \<Rightarrow> TOK_IDENTIFIER, None, rest)"
  using get_tok_keyword [OF assms] by (simp add: word_token_def)

theorem tok_words_witness:
  "get_tok (\<lambda>s. (0 :: nat, 1)) TOK_COMMA ([119, 105, 116, 104] @ [40]) = Some (TOK_WITH, None, [40])"
proof -
  have "map_of keyword_table [119, 105, 116, 104] = Some TOK_WITH" by code_simp
  moreover have "list_all word_char [119, 105, 116, 104]" "starts_word 119" "word_end [40]" by code_simp+
  ultimately show ?thesis using tok_words [of "[119, 105, 116, 104]" "[40]" "\<lambda>s. (0 :: nat, 1)" TOK_COMMA] by simp
qed

text \<open>After an operand every punctuator is read whole, when the text behind it does not extend it.\<close>

theorem tok_punctuators:
  assumes "(p, tok) \<in> set punctuators" "not_extending rest" "ends_operand prev"
  shows "get_tok strtod prev (p @ rest) = Some (tok, None, rest)"
  by (rule get_tok_punct [OF assms])

theorem tok_punctuators_witness:
  "get_tok (\<lambda>s. (0 :: nat, 1)) TOK_NUMBER ([62, 62, 62, 61] @ [120]) = Some (TOK_URSHIFT_ASSIGN, None, [120])"
  by (rule tok_punctuators) (code_simp)+

text \<open>C31: a quoted string with any content, its quotes and backslashes escaped, is one string token.\<close>

theorem tok_strings:
  assumes "q \<noteq> 92" "q \<noteq> 0" "0 \<notin> set body"
  shows "parse_str_literal (q # escape_str q body @ q # rest) = (TOK_STRING_LITERAL, rest)"
  by (rule parse_str_escaped [OF assms])

theorem tok_strings_witness:
  "parse_str_literal (34 # escape_str 34 [97, 34, 92] @ 34 # [59]) = (TOK_STRING_LITERAL, [59])"
  by (rule tok_strings) simp_all

text \<open>A block comment is skipped up to its first end, and its newlines are counted.\<close>

theorem tok_block_comments:
  assumes "no_close 47 42 (l @ [42, 47])"
  shows "skip_to_next_tok (47 # 42 # l @ 42 # 47 # rest) =
     (case skip_to_next_tok rest of (s, n) \<Rightarrow> (s, length (filter (\<lambda>c. c = 10) l) + n))"
  by (rule skip_to_next_block_comment [OF assms])

theorem tok_block_comments_witness:
  "skip_to_next_tok (47 # 42 # [97, 10, 42] @ 42 # 47 # [120]) = (case skip_to_next_tok [120] of (s, n) \<Rightarrow> (s, 1 + n))"
  using tok_block_comments [of "[97, 10, 42]" "[120]"] by simp

text \<open>The three bytes \<open>/*/\<close> already count as a whole comment.\<close>

theorem tok_short_comment:
  assumes "rest = [] \<or> (\<not> is_space (hd rest) \<and> hd rest \<noteq> 47)"
  shows "skip_to_next_tok (47 # 42 # 47 # rest) = (rest, 0)"
  by (rule skip_block_short [OF assms])

theorem tok_short_comment_witness: "skip_to_next_tok [47, 42, 47, 120] = ([120], 0)"
  by (rule tok_short_comment) (simp add: is_space_def)

text \<open>Every token but the end of the input takes at least one byte, when \<open>strtod\<close> reads a number
  that starts with a digit or a dot, and the text does not start with a backslash.\<close>

lemma tok_progress:
  assumes "get_tok strtod prev s = Some (tok, d, s')" "tok \<noteq> TOK_END_OF_INPUT"
    and "\<forall>c t. is_digit c \<or> c = 46 \<longrightarrow> 0 < snd (strtod (c # t))" "ch s 0 \<noteq> 92"
  shows "length s' < length s"
  by (rule get_tok_progress [OF assms(1,2) _ assms(4)]) (use assms(3) in blast)

text \<open>A backslash that does not start a Unicode escape is an identifier of no bytes.\<close>

theorem tok_backslash:
  assumes "ch t 0 \<noteq> 117"
  shows "get_tok strtod prev (92 # t) = Some (TOK_IDENTIFIER, None, 92 # t)"
  by (rule get_tok_backslash [OF assms])

theorem tok_backslash_witness: "get_tok (\<lambda>s. (0 :: nat, 1)) TOK_COMMA [92, 110] = Some (TOK_IDENTIFIER, None, [92, 110])"
  by (rule tok_backslash) (simp add: ch_def)

end
