(* ===== verification/Spec2Isabelle.thy ===== *)
theory Spec2Isabelle
  imports AstProps SlreProps ObjProps ShellProps FileProps EngineProps StringProps
begin

text \<open>
  A verification library for shell.js, a command line shell whose scripts are JavaScript: \<open>main.c\<close> runs
  scripts or lines of input with the embedded interpreter \<open>v7\<close>, and \<open>js-clib\<close> gives scripts files,
  pipes, a log and a web server.

  \<^bold>\<open>The program\<close>. \<open>main\<close> (\<open>main.c\<close>) creates an interpreter, installs the library (\<open>js-clib/jsc_*.c\<close>), runs each script of
  the command line (a script that starts with \<open>#!\<close> from its second line on) or, without arguments,
  every line of the standard input, and uninstalls the library. An open file of a script is a number; the resource
  manager (\<open>js-clib/common.c\<close>) maps numbers to blocks in a \<open>uthash\<close> table (\<open>js-clib/uthash.h\<close>), the
  block holds the \<open>FILE*\<close> and how to close it. Threads for long commands are resources too. Strings
  of \<open>plat_io.h\<close> live in a pool of reference-counted blocks (\<open>platform/plat_mgn_mem.h\<close>), again a
  \<open>uthash\<close> table. The interpreter (\<open>v7/v7.c\<close>) is a library in one file: a tokenizer, a parser, a byte
  code machine, values coded in doubles, strings in one compacted buffer, objects as property lists.

  \<^bold>\<open>Theories of the program itself\<close> (under \<open>src/\<close>; a theory \<open>X\<close> holds the definitions, \<open>XCorrect\<close> what is
  proved of them, the \<open>Props\<close> theories the properties with their witnesses):
  \<^item> Prelude: machine integers, little-endian bytes, list access, the hints \<open>named_theorems\<close>.
  \<^item> PlatMem: the heap, and \<open>platform/plat_mem.h\<close> on it.
  \<^item> Uthash, UthashCorrect: \<open>js-clib/uthash.h\<close>; the locale \<open>keyed_list\<close> is the interface its clients rely
    on (a list of elements in insertion order, found by key), interpreted on the table.
  \<^item> Resource, ResourceCorrect: \<open>res_*\<close> of \<open>js-clib/common.c\<close>.
  \<^item> Threads, ThreadsCorrect: \<open>run\<close>, \<open>run_cancel\<close>, \<open>run_done\<close> of \<open>js-clib/common.c\<close>.
  \<^item> MgnMem, MgnMemCorrect: \<open>platform/plat_mgn_mem.h\<close>, over an abstract view of the pool.
  \<^item> Stdio: the part of the C library that is called: files, pipes, standard input.
  \<^item> FileLib, FileLibCorrect: every command of \<open>js-clib/jsc_file.c\<close>, \<open>jsc_sys.c\<close>, \<open>jsc_net.c\<close>.
  \<^item> Shell, ShellCorrect: \<open>main.c\<close> and the loader of \<open>platform/plat_io.h\<close>.
  \<^item> Session: a step relation whose steps are the commands of the library in any order, with its invariant; the
    conversion of an argument to a string is a session of its own.
  \<^item> Samples: concrete surroundings for the witnesses. ShellProps, FileProps: properties.

  \<^bold>\<open>Theories of the interpreter\<close> (\<open>v7/v7.c\<close>):
  \<^item> Varint (\<open>varint.c\<close>), Mbuf (\<open>common/mbuf.c\<close>), Utf, UtfTables, UtfClasses (\<open>common/utf.c\<close>),
    Base64 (\<open>common/base64.c\<close>); the locale \<open>codec\<close> is interpreted on string lengths and on UTF-8.
  \<^item> Lexer, LexerCorrect: \<open>tokenizer.c\<close>. EngineProps: properties of all these.
  \<^item> Values: the NaN coding of values (\<open>vm.h\<close>, \<open>primitive.c\<close>, \<open>object.c\<close>).
  \<^item> Dictionary, Escapes: the dictionary of frequent strings and \<open>unescape\<close> of \<open>string.c\<close>, \<open>nextesc\<close> of
    \<open>slre.c\<close>, the quoting of \<open>conversion.c\<close>.
  \<^item> Strings, StringsCorrect: the five representations of strings, creation, comparison, concatenation
    (\<open>string.c\<close>), sequence numbers (\<open>gc.c\<close>).
  \<^item> StringGc, StringGcCorrect: marking and compaction of strings (\<open>gc.c\<close>).
  \<^item> OwnedValues: \<open>v7_own\<close>, \<open>v7_disown\<close>. StringProps: properties of values and strings.
  \<^item> Arena, Objects, Gc: the memory of objects, as words at addresses: arenas of cells, the layout of objects and
    the lookup of properties (\<open>object.c\<close>), byte code counts, and the collector of \<open>gc.c\<close> up to \<open>v7_gc\<close>.
  \<^item> HeapOk: what a well-formed memory is. GcMarkCorrect, GcMarkRun: marking. GcSweep: the sweep of an arena, over the
    locale \<open>destructor\<close> (what the sweep needs of a destructor), which GcDestroy interprets on the three
    of the code. GcSweeps, GcCorrect: compaction, the sweeps one after the other, and the whole collection.
  \<^item> ObjectWrites, PropertyLists: definition, assignment and deletion of properties (\<open>object.c\<close>), proved over the view of
    an object as a list of named cells (\<open>has_props\<close>). GcProps, WriteProps, ObjProps: properties.
  \<^item> Slre, SlreMatch: regular expressions (\<open>slre.c\<close>): lexer, parser and code generation; the machine that runs a
    program on a stack of threads, search and replacement. SlreCode: the instructions of a node as a function, and
    that the compiler writes them. SlreCorrect: the meaning of a node (\<open>results\<close>, all matches in order of preference) and
    the runs of the machine as an inductive relation. SlreSound: the machine finds the first result that the rest
    of the program accepts. SlreSafe: the parser on any pattern, over an outcome predicate \<open>safe\<close> that composes along \<open>seq\<close>.
    SlreProps: properties.
  \<^item> Ast: the buffers of bytes that hold syntax trees (\<open>ast.c\<close>). AstTrees: trees as a datatype and their bytes; what the
    functions that write leave, what those that read find. AstProps: properties.

  \<^bold>\<open>Conventions\<close>. A C integer is a word of its width. Undefined behaviour of C (an access outside a
  block, a shift out of range, an overflowing \<open>int\<close>), a failed \<open>assert\<close> and \<open>abort\<close> have no result: the
  result type is an option, so a theorem that answers \<open>Some\<close> also says that none of these happens.
  There are three exceptions. \<open>last_id++\<close> of \<open>common.c\<close> wraps, as every compiler does it, to show what follows. A thread that is
  cancelled ends, where POSIX only sends a request. The
  lengths of nodes of a regular expression are numbers, where the code has \<open>unsigned int\<close>, which a pattern below a gigabyte does not fill.
  The C library's own choices are parameters with the documented behaviour as hypotheses: where \<open>malloc\<close>
  and \<open>realloc\<close> put blocks and what fresh bytes hold (\<open>lib\<close>, \<open>allocator\<close>), what the host's files
  are (\<open>host\<close>), what \<open>strtod\<close> answers, what the interpreter does with a code (\<open>shell_main\<close>) or with the \<open>toString()\<close> of
  a value (\<open>to_string\<close>), when a thread ends. Each such hypothesis is met by a concrete instance in a witness.

  \<^bold>\<open>Loops and bounds\<close>. Loops over lists and strings are structural or have a measure. Loops that need not
  end (\<open>strlen\<close>, the search for a free number, the chain of a marked string) are \<open>partial_function\<close>s; that
  they end is part of the theorems about their callers. The bounds in hypotheses are those at which
  the code stops being right, or those of a 48-bit address space: strings below \<open>2 ^ 31\<close> bytes (the
  decoder of lengths overflows there), a string buffer below \<open>2 ^ 31\<close>, 65535 strings between two
  collections with those the first one kept, fewer than \<open>2 ^ 31\<close> numbers of files. The recursion of \<open>gc_mark\<close> takes fuel: a call uses one
  unit per value of a vector or property of a list it walks and one per call on top of that, so with \<open>k\<close>
  unmarked objects of at most \<open>L\<close> properties or literals \<open>need L k = k * (L + 1) + 1\<close> units are enough. The parser of
  regular expressions on \<open>n\<close> bytes gets fuel \<open>2 * n + 3\<close>: two levels of calls per token at most. Skipping a syntax tree takes two units per byte.

  \<^bold>\<open>What the lemmas show\<close>. Each component has an invariant that every operation keeps
  (\<open>hash_ok\<close>, \<open>res_ok\<close>, \<open>lib_ok\<close>, \<open>pool_ok\<close>, \<open>mbuf_ok\<close>, \<open>strings_ok\<close>, \<open>gc_ready\<close>) and an abstract view in which the
  operations are simple (a finite map, a list of numbered blocks, a bag of owners, the list of the strings in the
  buffer). Codings are proved to round trip; tables and searches to agree with plain definitions.
  Some properties state faults of the code: these are theorems about the code as it is.

  Code of a script that runs inside a command is part of the model where it matters: \<open>writestring\<close> converts its arguments by
  \<open>toString()\<close>, a session that must leave the number open (\<open>session_safe\<close>); one that closes it makes \<open>writestring\<close> use a freed
  handle (\<open>writestring_reentrant\<close>). Names of properties are taken without a NUL inside, as the code compares them by \<open>strncmp\<close>.

  Regular expressions are proved to find what their meaning says if they are \<open>plain\<close>: without back references, with no
  \<open>{n,}\<close> for \<open>n > 1\<close>, with \<open>?\<close>, \<open>{n}\<close> and \<open>{n,m}\<close> (but \<open>{1}\<close>) only greedy and over bodies without alternatives, lookaheads
  and loops (the counter of others is wrong after backtracking, \<open>counter_not_restored\<close>), and without a range up to 0xFFFF in a
  class when case is ignored; memory for threads of the machine is there. Their machine is a \<open>partial_function\<close>; that it ends is part of the theorem.

  \<^bold>\<open>Not modelled\<close>: the parser, the compiler and the byte code machine of v7, and its standard library;
  the web server \<open>mongoose\<close>, a third-party library that only \<open>httpd\<close> calls; examples and
  tests. In the collector: objects with a regular expression (the properties about it exclude them), dense
  arrays and entity ids, which this build does not have, and the counters of memory use, which only \<open>v7_heap_stat\<close> reads.
\<close>
section \<open>Properties that span components\<close>

text \<open>C1: after any session of file commands (\<open>fopen\<close>, \<open>popen\<close>, \<open>fclose\<close>, \<open>pclose\<close>, \<open>readline\<close>, \<open>writestring\<close>, \<open>exec\<close>,
  \<open>echo\<close>, \<open>cat\<close>, \<open>cd\<close>, \<open>ls\<close>, \<open>pwd\<close>, \<open>realpath\<close>, \<open>sum\<close>) that return, in any order, from the installation of the library on, no
  stream was ever used after it was closed or closed by the wrong call, and uninstalling the library closes every
  stream that is still registered and frees every registered block. The \<open>toString()\<close> of an argument may itself run
  commands, but must not close the number that \<open>writestring\<close> is writing to; \<open>fopen\<close> and \<open>popen\<close> find memory and
  room in the table, and fewer than \<open>2 ^ 31\<close> numbers are handed out.\<close>

theorem session_safe:
  assumes "misused w = []" "jsc_install_file_lib L w m = Some st0" "lib_reach L H str st0 (g, w1, m1)"
  shows "misused w1 = [] \<and> (\<exists>g' m'. jsc_uninstall_file_lib (g, w1, m1) =
      Some (g', w1\<lparr>streams := (\<lambda>f. if f \<in> set (lib_files g m1) then None else streams w1 f)\<rparr>, m') \<and>
    hash_iter (rhead g') = [] \<and> (\<forall>a \<in> set (hash_iter (rhead g)). blocks m' a = None))"
proof -
  obtain g' m' where "jsc_uninstall_file_lib (g, w1, m1) =
      Some (g', w1\<lparr>streams := (\<lambda>f. if f \<in> set (lib_files g m1) then None else streams w1 f)\<rparr>, m')"
    "hash_iter (rhead g') = []" "misused w1 = []" "\<forall>a \<in> set (hash_iter (rhead g)). blocks m' a = None"
    by (rule session_end [OF assms])
  then show ?thesis by blast
qed

text \<open>Samples: a session that opens a file, and the conversion of every value to \<open>v\<close>.\<close>

definition str0 :: to_string where "str0 = (\<lambda>v st. Some (Some [118], st))"

lemma reach_sample:
  obtains g w m where "lib_reach L0 H0 str0 (g0, w0, m0) (g, w, m)" "w = snd (fopen H0 [97] [119] w0)"
    "res_table g m = [(0, handle_bytes hdl_typ_file 256)]"
proof -
  obtain g w m where o: "jsc_fopen L0 H0 [JString [97], JString [119]] (g0, w0, m0)
       = Some ((V7_OK, JNumber (Num 0)), g, w, m)"
    "w = snd (fopen H0 [97] [119] w0)" "lib_ok (g, w, m)" "res_table g m = [(0, handle_bytes hdl_typ_file 256)]"
    by (rule open_sample)
  have "numbers_ok (g, w, m)" "roomy L0 (g0, w0, m0)"
    using o(4) room_sample malloc_sample
    by (simp_all add: numbers_ok_def roomy_def flip: res_table_ids [of g m])
  with o(1) have "lib_reach L0 H0 str0 (g0, w0, m0) (g, w, m)"
    by (blast intro: reach_step reach_refl step_fopen)
  with o(2,4) show thesis by (rule_tac that)
qed

theorem session_safe_witness:
  "\<exists>g w m g' w' m'. lib_reach L0 H0 str0 (g0, w0, m0) (g, w, m) \<and> streams w 256 \<noteq> None \<and> misused w = [] \<and>
     jsc_uninstall_file_lib (g, w, m) = Some (g', w', m') \<and> streams w' 256 = None"
proof -
  obtain g w m where r: "lib_reach L0 H0 str0 (g0, w0, m0) (g, w, m)" "w = snd (fopen H0 [97] [119] w0)"
    "res_table g m = [(0, handle_bytes hdl_typ_file 256)]" by (rule reach_sample)
  have "256 \<in> set (lib_files g m)" "streams w 256 \<noteq> None"
    by (simp_all add: r(2) fopen_sample lib_files_def r(3))
  with r(1) session_safe [OF _ install_sample r(1)] show ?thesis by fastforce
qed

text \<open>C17: in every state that a session reaches the commands return, without undefined behaviour: \<open>fopen\<close> and \<open>popen\<close>
  with room and names without a NUL inside; \<open>fclose\<close>, \<open>pclose\<close> and \<open>readline\<close> with a number in the range of \<open>int\<close>;
  \<open>writestring\<close> with such a number and conversions that run sessions which leave it open; \<open>cat\<close> when every file has
  less than \<open>2 ^ 32 - 1\<close> bytes.\<close>

theorem commands_return:
  assumes "misused w = []" "jsc_install_file_lib L w m = Some st0" "lib_reach L H str st0 (g, w1, m1)"
  shows "(roomy L (g, w1, m1) \<and> names_ok args \<longrightarrow>
       jsc_fopen L H args (g, w1, m1) \<noteq> None \<and> jsc_popen L H args (g, w1, m1) \<noteq> None) \<and>
     (number_ok args \<longrightarrow> jsc_fclose args (g, w1, m1) \<noteq> None \<and> jsc_pclose args (g, w1, m1) \<noteq> None \<and>
       jsc_readline args (g, w1, m1) \<noteq> None) \<and>
     (number_ok args \<and> (\<forall>i hdl. written args (g, w1, m1) = Some (i, hdl) \<longrightarrow> calm L H str i hdl (tl args) (g, w1, m1)) \<longrightarrow>
       jsc_writestring str args (g, w1, m1) \<noteq> None) \<and>
     (files_small w1 \<longrightarrow> jsc_cat L H args w1 m1 \<noteq> None)"
proof -
  have ok: "lib_ok (g, w1, m1)" by (rule lib_reach_ok [OF assms(3) install_ok(1) [OF assms(1,2)]])
  have "jsc_fopen L H args (g, w1, m1) \<noteq> None \<and> jsc_popen L H args (g, w1, m1) \<noteq> None"
    if "roomy L (g, w1, m1)" "names_ok args"
    unfolding jsc_fopen_def jsc_popen_def
    using open_handle_returns [OF ok that, of hdl_typ_file "fopen H"] open_handle_returns [OF ok that, of hdl_typ_pfile "popen H"]
    by (simp add: fopen_opens_new popen_opens_new)
  moreover have "jsc_fclose args (g, w1, m1) \<noteq> None \<and> jsc_pclose args (g, w1, m1) \<noteq> None \<and> jsc_readline args (g, w1, m1) \<noteq> None"
    if "number_ok args" using close_returns [OF ok that] by (simp add: fclose_eq)
  ultimately show ?thesis using writestring_returns [OF ok, of args L H str] cat_total [of w1 L H args m1] by blast
qed

theorem commands_return_witness:
  "\<exists>g w m. lib_reach L0 H0 str0 (g0, w0, m0) (g, w, m) \<and>
     jsc_writestring str0 [JNumber (Num 0), JObject 7] (g, w, m) \<noteq> None \<and> jsc_cat L0 H0 [JNumber (Num 0), JString [98]] w m \<noteq> None"
proof -
  obtain g w m where r: "lib_reach L0 H0 str0 (g0, w0, m0) (g, w, m)" "w = snd (fopen H0 [97] [119] w0)"
    "res_table g m = [(0, handle_bytes hdl_typ_file 256)]" by (rule reach_sample)
  have "files w = (files w0)([97] \<mapsto> [])" by (simp add: r(2) fopen_sample)
  then have small: "files_small w" by (auto simp: files_small_def w0_def split: if_splits)
  have num: "number_ok [JNumber (Num 0), JObject 7]" by (simp add: number_ok_def c_int_def)
  have "plain_strings str0 (\<lambda>_. [118]) [JObject 7]" by (simp add: plain_strings_def str0_def)
  then have "calm L0 H0 str0 i hdl (tl [JNumber (Num 0), JObject 7]) (g, w, m)" for i hdl by (simp add: calm_plain)
  with commands_return [OF _ install_sample r(1), of "[JNumber (Num 0), JObject 7]"]
    commands_return [OF _ install_sample r(1), of "[JNumber (Num 0), JString [98]]"] num small
  have "jsc_writestring str0 [JNumber (Num 0), JObject 7] (g, w, m) \<noteq> None"
    "jsc_cat L0 H0 [JNumber (Num 0), JString [98]] w m \<noteq> None" by (simp_all add: w0_def)
  with r(1) show ?thesis by blast
qed






text \<open>An interpreter that writes every line to a file by \<open>echo\<close>.\<close>

definition echo_engine :: "unit engine_exec" where
  "echo_engine code s =
     (case jsc_echo H0 [JString code, JString [97]] (sys s) of
        ((err, r), w) \<Rightarrow> ((if err = V7_INTERNAL_ERROR then V7_EXEC_EXCEPTION else err, 0), s\<lparr>sys := w\<rparr>))"

text \<open>C19: a script that starts with \<open>#!\<close> is executed from its second line on, as one NUL-terminated
  text; the first line is dropped up to the first character that does not end a line, and the
  stream is closed again. The block with the text stays allocated.\<close>

theorem script_runs:
  assumes "absolute H (cwd (sys s)) b = p" "files (sys s) p = Some ([35, 33] @ line @ nl @ code)"
    and "\<not> is_dir H p" "can_open H (sys s)"
    and "\<forall>c \<in> set line. c \<noteq> 0 \<and> c \<noteq> 10 \<and> c \<noteq> 13" "nl \<noteq> []" "\<forall>c \<in> set nl. c = 10 \<or> c = 13"
    and "hd (code @ [0]) \<noteq> 10" "hd (code @ [0]) \<noteq> 13"
    and "length line + length nl + length code + 3 < 2 ^ 63"
    and "malloc_succeeds L (length line + length nl + length code + 3) (heap s)"
  shows "run_script L H exec b s =
     (let a = pick L (tick (heap s)) (length line + length nl + length code + 3) in
      run_code exec (code @ [0])
        (s\<lparr>sys := (sys s)\<lparr>opens := Suc (opens (sys s))\<rparr>,
           heap := \<lparr>blocks = (blocks (heap s))(a \<mapsto> [35, 33] @ line @ nl @ code @ [0]),
                    tick = Suc (tick (heap s))\<rparr>\<rparr>))"
proof -
  let ?bs = "[35, 33] @ line @ nl @ code"
  have len: "length ?bs + 1 = length line + length nl + length code + 3" "2 < length ?bs"
    using assms(6) by (cases nl; simp)+
  have "script_start (?bs @ [0]) = Some (code @ [0])"
    using script_start_shebang [OF assms(5,6,7) _ assms(8,9)] by simp
  then show ?thesis
    using run_script_spec [OF assms(1-4) len(2), unfolded len(1), OF assms(10,11), of exec]
    by (simp add: Let_def)
qed

theorem script_runs_witness:
  "run_script L0 H0 echo_engine [115] \<lparr>opened = g0, running = None, posix_os = os0, sys = w0, heap = m0, engine = ()\<rparr>
     = run_code echo_engine [118, 0] \<lparr>opened = g0, running = None, posix_os = os0, sys = w0\<lparr>opens := 1\<rparr>,
         heap = \<lparr>blocks = (blocks m0)(8192 \<mapsto> [35, 33, 120, 10, 118, 0]), tick = Suc (tick m0)\<rparr>, engine = ()\<rparr>"
  using script_runs [of H0 "\<lparr>opened = g0, running = None, posix_os = os0, sys = w0, heap = m0, engine = ()\<rparr>"
      "[115]" "[115]" "[120]" "[10]" "[118]" L0 echo_engine]
  by (simp add: can_open_def malloc_succeeds_def m0_def)

text \<open>The command \<open>httpd\<close> never starts its server, whatever state it is called in: the one call
  of \<open>run\<close> in the program overflows its block.\<close>

theorem httpd_never_starts: "jsc_httpd L E httpd st = None"
  by (rule httpd_none)

end
